(* ===== verification/Zou_Prelude.thy ===== *)
theory Zou_Prelude
  imports Main "HOL-Library.Word" "HOL-Library.Product_Lexorder" "HOL-Library.Multiset"
begin

text \<open>
  What the components share. Machine integers are words at their width, byte
  vectors are lists of 8 bit words, and a \<open>usize\<close> is a \<open>nat\<close> with the 64 bit
  bound written out where the code checks it. A Rust computation ends in one of
  three ways, so it is a value of the type \<open>outcome\<close>: it returns, it returns an error, or
  it panics (a slice out of range, an \<open>expect\<close> on nothing). Little endian
  integers are encoded and decoded through their value as a natural number.
\<close>

named_theorems outcome_simps \<open>evaluation of sequenced outcomes\<close>
named_theorems le_simps \<open>little endian encoding and decoding\<close>
named_theorems slice_simps \<open>slices of concatenations\<close>

type_synonym u8 = "8 word"
type_synonym u16 = "16 word"
type_synonym u32 = "32 word"
type_synonym u64 = "64 word"
type_synonym u128 = "128 word"
type_synonym bytes = "u8 list"

text \<open>A log sequence number is the newtype \<open>Lsn(u64)\<close>.\<close>

type_synonym lsn = u64

section \<open>Outcomes\<close>

datatype ('a, 'e) outcome = Ok 'a | Err 'e | Panic

fun obind :: "('a, 'e) outcome \<Rightarrow> ('a \<Rightarrow> ('b, 'e) outcome) \<Rightarrow> ('b, 'e) outcome" where
  "obind (Ok x) f = f x"
| "obind (Err e) f = Err e"
| "obind Panic f = Panic"

fun map_err :: "('e \<Rightarrow> 'f) \<Rightarrow> ('a, 'e) outcome \<Rightarrow> ('a, 'f) outcome" where
  "map_err g (Ok x) = Ok x"
| "map_err g (Err e) = Err (g e)"
| "map_err g Panic = Panic"

fun ok_or :: "'a option \<Rightarrow> 'e \<Rightarrow> ('a, 'e) outcome" where
  "ok_or (Some x) e = Ok x"
| "ok_or None e = Err e"

definition ensure :: "bool \<Rightarrow> 'e \<Rightarrow> (unit, 'e) outcome" where
  "ensure c e = (if c then Ok () else Err e)"

text \<open>An \<open>expect\<close> or \<open>unwrap\<close>: a value or a panic.\<close>

fun expect :: "'a option \<Rightarrow> ('a, 'e) outcome" where
  "expect (Some x) = Ok x"
| "expect None = Panic"

lemma obind_Ok_iff: "obind m f = Ok y \<longleftrightarrow> (\<exists>x. m = Ok x \<and> f x = Ok y)"
  by (cases m) auto

lemma obind_not_Panic:
  "m \<noteq> Panic \<Longrightarrow> (\<And>x. m = Ok x \<Longrightarrow> f x \<noteq> Panic) \<Longrightarrow> obind m f \<noteq> Panic"
  by (cases m) auto

lemma obind_Panic_iff: "obind m f = Panic \<longleftrightarrow> m = Panic \<or> (\<exists>x. m = Ok x \<and> f x = Panic)"
  by (cases m) auto

lemma ensure_simps [simp]:
  "ensure c e = Ok u \<longleftrightarrow> c"
  "ensure c e = Err e' \<longleftrightarrow> \<not> c \<and> e = e'"
  "ensure c e \<noteq> Panic"
  "ensure True e = Ok ()"
  "ensure False e = Err e"
  by (auto simp: ensure_def)

lemma ok_or_simps [simp]:
  "ok_or m e = Ok x \<longleftrightarrow> m = Some x"
  "ok_or m e = Err e' \<longleftrightarrow> m = None \<and> e = e'"
  "ok_or m e \<noteq> Panic"
  by (cases m; auto)+

lemma map_err_simps [simp]:
  "map_err g m = Ok x \<longleftrightarrow> m = Ok x"
  "map_err g m = Panic \<longleftrightarrow> m = Panic"
  by (cases m; auto)+

lemma expect_Ok_iff [simp]: "expect m = Ok x \<longleftrightarrow> m = Some x"
  by (cases m) auto

lemma expect_Panic_iff [simp]: "expect m = Panic \<longleftrightarrow> m = None"
  by (cases m) auto

lemmas [outcome_simps] = obind.simps obind_Ok_iff obind_Panic_iff

section \<open>Slices\<close>

text \<open>\<open>&buf[a..b]\<close> panics out of range, \<open>buf.get(a..b)\<close> answers \<open>None\<close>.\<close>

definition slice :: "'a list \<Rightarrow> nat \<Rightarrow> nat \<Rightarrow> ('a list, 'e) outcome" where
  "slice xs a b = (if a \<le> b \<and> b \<le> length xs then Ok (take (b - a) (drop a xs)) else Panic)"

definition get_slice :: "'a list \<Rightarrow> nat \<Rightarrow> nat \<Rightarrow> 'a list option" where
  "get_slice xs a b = (if a \<le> b \<and> b \<le> length xs then Some (take (b - a) (drop a xs)) else None)"

text \<open>\<open>usize::checked_add\<close> on a 64 bit target.\<close>

definition checked_add_usize :: "nat \<Rightarrow> nat \<Rightarrow> nat option" where
  "checked_add_usize a b = (if a + b < 2 ^ 64 then Some (a + b) else None)"

definition checked_add :: "'a::len word \<Rightarrow> 'a word \<Rightarrow> 'a word option" where
  "checked_add a b = (if unat a + unat b < 2 ^ LENGTH('a) then Some (a + b) else None)"

definition saturating_add :: "'a::len word \<Rightarrow> 'a word \<Rightarrow> 'a word" where
  "saturating_add a b = (if unat a + unat b < 2 ^ LENGTH('a) then a + b else - 1)"

definition saturating_sub :: "'a::len word \<Rightarrow> 'a word \<Rightarrow> 'a word" where
  "saturating_sub a b = (if b \<le> a then a - b else 0)"

lemma slice_Ok_iff:
  "slice xs a b = Ok ys \<longleftrightarrow> a \<le> b \<and> b \<le> length xs \<and> ys = take (b - a) (drop a xs)"
  by (auto simp: slice_def)

lemma slice_ok: "a \<le> b \<Longrightarrow> b \<le> length xs \<Longrightarrow> slice xs a b = Ok (take (b - a) (drop a xs))"
  by (simp add: slice_def)

lemma slice_not_Err [simp]: "slice xs a b \<noteq> Err e"
  by (simp add: slice_def)

lemma slice_Panic_iff: "slice xs a b = Panic \<longleftrightarrow> \<not> (a \<le> b \<and> b \<le> length xs)"
  by (simp add: slice_def)

lemma get_slice_Some_iff:
  "get_slice xs a b = Some ys \<longleftrightarrow> a \<le> b \<and> b \<le> length xs \<and> ys = take (b - a) (drop a xs)"
  by (auto simp: get_slice_def)

lemma get_slice_length: "get_slice xs a b = Some ys \<Longrightarrow> length ys = b - a"
  by (auto simp: get_slice_Some_iff)

text \<open>The slice at the position where a concatenation puts its middle part.\<close>

lemma slice_middle [slice_simps]:
  "a = length xs \<Longrightarrow> b = a + length ys \<Longrightarrow> slice (xs @ ys @ zs) a b = Ok ys"
  by (simp add: slice_def)

lemma get_slice_middle [slice_simps]:
  "a = length xs \<Longrightarrow> b = a + length ys \<Longrightarrow> get_slice (xs @ ys @ zs) a b = Some ys"
  by (simp add: get_slice_def)

lemma checked_add_Some:
  fixes a b c :: "'a::len word"
  assumes "checked_add a b = Some c"
  shows "unat c = unat a + unat b"
  using assms by (auto simp: checked_add_def unat_word_ariths split: if_splits)

lemma unat_saturating_sub: "unat (saturating_sub a b) = unat a - unat (b :: 'a::len word)"
  by (auto simp: saturating_sub_def unat_sub word_le_nat_alt)

section \<open>Little endian integers\<close>

fun le_nat :: "nat \<Rightarrow> nat \<Rightarrow> bytes" where
  "le_nat 0 x = []"
| "le_nat (Suc n) x = of_nat (x mod 256) # le_nat n (x div 256)"

fun nat_of_le :: "bytes \<Rightarrow> nat" where
  "nat_of_le [] = 0"
| "nat_of_le (b # bs) = unat b + 256 * nat_of_le bs"

text \<open>\<open>to_le_bytes\<close> and \<open>from_le_bytes\<close> at the width of the word.\<close>

definition to_le :: "'a::len word \<Rightarrow> bytes" where
  "to_le w = le_nat (LENGTH('a) div 8) (unat w)"

definition from_le :: "bytes \<Rightarrow> 'a::len word" where
  "from_le bs = of_nat (nat_of_le bs)"

lemma length_le_nat [simp]: "length (le_nat n x) = n"
  by (induction n arbitrary: x) auto

lemma unat_bound: "unat (w :: 'a::len word) < 2 ^ LENGTH('a)"
  by (rule unsigned_less)

lemma of_unat: "of_nat (unat w) = (w :: 'a::len word)"
  by simp

lemma unat_of_nat_small:
  assumes "n < 2 ^ LENGTH('a::len)"
  shows "unat (of_nat n :: 'a word) = n"
  using assms by (simp add: unat_of_nat take_bit_eq_mod)

lemma unat_ucast_up:
  fixes w :: "'a::len word"
  assumes "LENGTH('a) \<le> LENGTH('b::len)"
  shows "unat (ucast w :: 'b word) = unat w"
proof -
  have "unat w < 2 ^ LENGTH('b)"
    using unat_bound [of w] power_increasing [OF assms, of "2 :: nat"] by linarith
  then show ?thesis
    by (simp add: unsigned_ucast_eq take_bit_nat_eq_self)
qed

lemma unat_of_nat_byte: "unat (of_nat (x mod 256) :: u8) = x mod 256"
  by (simp add: unat_of_nat take_bit_eq_mod)

lemma nat_of_le_nat: "nat_of_le (le_nat n x) = x mod 256 ^ n"
proof (induction n arbitrary: x)
  case 0
  then show ?case by simp
next
  case (Suc n)
  have "nat_of_le (le_nat (Suc n) x) = x mod 256 + 256 * (x div 256 mod 256 ^ n)"
    by (simp only: le_nat.simps nat_of_le.simps unat_of_nat_byte Suc.IH)
  also have "\<dots> = x mod (256 * 256 ^ n)"
    by (simp add: mod_mult2_eq)
  finally show ?case by simp
qed

lemma nat_of_le_bound: "nat_of_le bs < 256 ^ length bs"
proof (induction bs)
  case Nil
  then show ?case by simp
next
  case (Cons b bs)
  have "unat b < 256"
    using unat_bound [of b] by simp
  with Cons show ?case by simp
qed

lemma le_nat_of_le: "le_nat (length bs) (nat_of_le bs) = bs"
proof (induction bs)
  case Nil
  then show ?case by simp
next
  case (Cons b bs)
  have b: "unat b < 256"
    using unat_bound [of b] by simp
  then have "(unat b + 256 * nat_of_le bs) mod 256 = unat b"
    by simp
  moreover from b have "(unat b + 256 * nat_of_le bs) div 256 = nat_of_le bs"
    by simp
  ultimately show ?case using Cons by simp
qed

lemma length_to_le: "length (to_le (w :: 'a::len word)) = LENGTH('a) div 8"
  by (simp add: to_le_def)

lemma length_to_le_sizes [simp, le_simps]:
  "length (to_le (a :: u8)) = 1"
  "length (to_le (b :: u16)) = 2"
  "length (to_le (c :: u32)) = 4"
  "length (to_le (d :: u64)) = 8"
  "length (to_le (e :: u128)) = 16"
  by (simp_all add: length_to_le)

lemma from_to_le:
  assumes "8 dvd LENGTH('a)"
  shows "from_le (to_le (w :: 'a::len word)) = w"
proof -
  from assms obtain k where k: "LENGTH('a) = 8 * k" ..
  then have "(256::nat) ^ (LENGTH('a) div 8) = 2 ^ LENGTH('a)"
    by (simp add: power_mult)
  then have "nat_of_le (to_le w) = unat w"
    using unat_bound [of w] by (simp add: to_le_def nat_of_le_nat)
  then show ?thesis by (simp add: from_le_def)
qed

lemma from_to_le_sizes [simp, le_simps]:
  "from_le (to_le (b :: u16)) = b"
  "from_le (to_le (c :: u32)) = c"
  "from_le (to_le (d :: u64)) = d"
  "from_le (to_le (e :: u128)) = e"
  by (simp_all add: from_to_le)

lemma to_from_le:
  assumes "8 * length bs = LENGTH('a::len)"
  shows "to_le (from_le bs :: 'a word) = bs"
proof -
  have "(256::nat) ^ length bs = 2 ^ LENGTH('a)"
    by (simp add: power_mult flip: assms)
  then have "nat_of_le bs < 2 ^ LENGTH('a)"
    using nat_of_le_bound [of bs] by simp
  then have "unat (from_le bs :: 'a word) = nat_of_le bs"
    by (simp add: from_le_def unat_of_nat take_bit_eq_mod)
  moreover from assms have "LENGTH('a) div 8 = length bs"
    by simp
  ultimately show ?thesis
    by (simp add: to_le_def le_nat_of_le)
qed

lemma from_le_inj:
  assumes "length as = length bs" "8 * length as = LENGTH('a::len)"
    and "(from_le as :: 'a word) = from_le bs"
  shows "as = bs"
  using assms by (metis to_from_le)

section \<open>Lists\<close>

text \<open>\<open>slice::partition_point\<close> of a partitioned list: the length of the prefix
  where the predicate holds. The library's binary search answers this number on
  a list partitioned by the predicate, which is what the callers have.\<close>

definition partition_point :: "('a \<Rightarrow> bool) \<Rightarrow> 'a list \<Rightarrow> nat" where
  "partition_point p xs = length (takeWhile p xs)"

lemma drop_partition_point [simp]: "drop (partition_point p xs) xs = dropWhile p xs"
  by (simp add: partition_point_def dropWhile_eq_drop)

lemma partition_point_le [simp]: "partition_point p xs \<le> length xs"
  by (simp add: partition_point_def length_takeWhile_le)

text \<open>A monotone key splits a sorted list into the parts below and above.\<close>

lemma dropWhile_filter_sorted:
  "sorted_wrt (\<lambda>x y. p y \<longrightarrow> p x) xs \<Longrightarrow> dropWhile p xs = filter (\<lambda>x. \<not> p x) xs"
proof (induction xs)
  case Nil
  then show ?case by simp
next
  case (Cons x xs)
  show ?case
  proof (cases "p x")
    case True
    with Cons show ?thesis by simp
  next
    case False
    with Cons.prems have "\<forall>y \<in> set xs. \<not> p y" by auto
    then have "filter (\<lambda>x. \<not> p x) xs = xs" by simp
    with False show ?thesis by simp
  qed
qed

lemma takeWhile_filter_sorted:
  "sorted_wrt (\<lambda>x y. p y \<longrightarrow> p x) xs \<Longrightarrow> takeWhile p xs = filter p xs"
proof (induction xs)
  case Nil
  then show ?case by simp
next
  case (Cons x xs)
  then show ?case
    by (cases "p x") (auto simp: filter_empty_conv)
qed

section \<open>Ascending lists\<close>

abbreviation ascending :: "('a \<Rightarrow> 'k::linorder) \<Rightarrow> 'a list \<Rightarrow> bool" where
  "ascending f xs \<equiv> sorted_wrt (\<lambda>a b. f a < f b) xs"

lemma ascending_le_last:
  "ascending f xs \<Longrightarrow> x \<in> set xs \<Longrightarrow> f x \<le> f (last xs)"
  by (induction xs) (auto intro: less_imp_le)

text \<open>A list that ascends stays so when what is appended starts above its last element.\<close>

lemma ascending_append:
  assumes "ascending f xs" "ascending f ys" "xs \<noteq> [] \<and> ys \<noteq> [] \<longrightarrow> f (last xs) < f (hd ys)"
  shows "ascending f (xs @ ys)"
proof -
  have "f x < f y" if "x \<in> set xs" "y \<in> set ys" for x y
  proof -
    have "f x \<le> f (last xs)" using assms(1) that(1) by (rule ascending_le_last)
    also have "f (last xs) < f (hd ys)" using assms(3) that by auto
    also have "f (hd ys) \<le> f y" using assms(2) that(2) by (cases ys) (auto intro: less_imp_le)
    finally show ?thesis .
  qed
  with assms(1,2) show ?thesis by (simp add: sorted_wrt_append)
qed

text \<open>\<open>sort_by_key\<close> with \<open>Reverse\<close>: stable, descending by the key.\<close>

definition sort_desc_by :: "('a \<Rightarrow> 'k::linorder) \<Rightarrow> 'a list \<Rightarrow> 'a list" where
  "sort_desc_by f xs = rev (sort_key f (rev xs))"

lemma mset_sort_desc_by [simp]: "mset (sort_desc_by f xs) = mset xs"
  by (simp add: sort_desc_by_def)

lemma set_sort_desc_by [simp]: "set (sort_desc_by f xs) = set xs"
  by (simp add: sort_desc_by_def)

lemma sort_desc_by_sorted: "sorted_wrt (\<lambda>a b. f b \<le> f a) (sort_desc_by f xs)"
  using sorted_sort_key [of f "rev xs"]
  by (simp add: sort_desc_by_def sorted_map sorted_wrt_rev)

lemma sort_key_sorted_wrt: "sorted_wrt (\<lambda>a b. f a \<le> f b) (sort_key f xs)"
  using sorted_sort_key [of f xs] by (simp add: sorted_map)

section \<open>Iterators\<close>

text \<open>The items of at most \<open>n\<close> calls of \<open>next\<close>; it stops at the first \<open>None\<close>.\<close>

fun stream_of :: "('c \<Rightarrow> 'x option \<times> 'c) \<Rightarrow> nat \<Rightarrow> 'c \<Rightarrow> 'x list" where
  "stream_of step 0 c = []"
| "stream_of step (Suc n) c =
     (case step c of
        (None, _) \<Rightarrow> []
      | (Some x, c) \<Rightarrow> x # stream_of step n c)"

end
