(* ===== verification/Text_Numbers.thy ===== *)
theory Text_Numbers
  imports Zou_Prelude
begin

text \<open>
  Numbers as text, as \<open>format!\<close> writes them and \<open>from_str_radix\<close> reads them: digits
  in a radix of at most sixteen, optionally padded with zeros to a width, and a
  parser that takes either letter case, one leading plus sign, and refuses what
  does not fit the integer type. The round trips here carry the textual forms of
  the components: log sequence numbers, layer names and store keys.
\<close>

definition digit_char :: "bool \<Rightarrow> nat \<Rightarrow> char" where
  "digit_char upper d =
     (if upper then ''0123456789ABCDEF'' ! d else ''0123456789abcdef'' ! d)"

text \<open>\<open>char::to_digit\<close>.\<close>

definition to_digit :: "nat \<Rightarrow> char \<Rightarrow> nat option" where
  "to_digit radix c =
     (let n = of_char c :: nat;
          d = (if 48 \<le> n \<and> n \<le> 57 then n - 48
               else if 97 \<le> n \<and> n \<le> 122 then n - 87
               else if 65 \<le> n \<and> n \<le> 90 then n - 55
               else radix)
      in if d < radix then Some d else None)"

fun num_text :: "bool \<Rightarrow> nat \<Rightarrow> nat \<Rightarrow> string" where
  "num_text upper radix x =
     (if radix < 2 \<or> x < radix then [digit_char upper x]
      else num_text upper radix (x div radix) @ [digit_char upper (x mod radix)])"

declare num_text.simps [simp del]

text \<open>The zero padding of \<open>{:016x}\<close> and its kin.\<close>

definition pad :: "nat \<Rightarrow> string \<Rightarrow> string" where
  "pad width s = replicate (width - length s) (CHR ''0'') @ s"

text \<open>The accumulating loop of \<open>from_str_radix\<close>: \<open>limit\<close> is two to the bit width.\<close>

fun parse_digits :: "nat \<Rightarrow> nat \<Rightarrow> nat \<Rightarrow> string \<Rightarrow> nat option" where
  "parse_digits limit radix acc [] = Some acc"
| "parse_digits limit radix acc (c # cs) =
     (case to_digit radix c of
        None \<Rightarrow> None
      | Some d \<Rightarrow> if acc * radix + d < limit then parse_digits limit radix (acc * radix + d) cs
                  else None)"

definition from_str_radix :: "nat \<Rightarrow> nat \<Rightarrow> string \<Rightarrow> nat option" where
  "from_str_radix limit radix s =
     (case s of
        [] \<Rightarrow> None
      | c # cs \<Rightarrow>
          if c = CHR ''+'' then (if cs = [] then None else parse_digits limit radix 0 cs)
          else parse_digits limit radix 0 s)"

section \<open>The parser reads what the printer writes\<close>

lemma to_digit_bound: "to_digit radix c = Some d \<Longrightarrow> d < radix"
  by (auto simp: to_digit_def Let_def split: if_splits)

lemma to_digit_digit_char_16:
  "d < 16 \<Longrightarrow> to_digit 16 (digit_char upper d) = Some d"
  by (cases upper; simp add: digit_char_def numeral_eq_Suc less_Suc_eq, elim disjE;
      simp add: to_digit_def)

lemma to_digit_digit_char:
  assumes "radix \<le> 16" "d < radix"
  shows "to_digit radix (digit_char upper d) = Some d"
proof -
  let ?c = "digit_char upper d"
  from assms have "to_digit 16 ?c = Some d" by (simp add: to_digit_digit_char_16)
  with assms show ?thesis
    by (auto simp: to_digit_def Let_def split: if_splits)
qed

lemma digit_char_not_sign: "d < 16 \<Longrightarrow> digit_char upper d \<noteq> CHR ''+''"
  using to_digit_digit_char_16 [of d upper] by (auto simp: to_digit_def)

lemma digit_char_not_dash: "d < 16 \<Longrightarrow> digit_char upper d \<noteq> CHR ''-''"
  using to_digit_digit_char_16 [of d upper] by (auto simp: to_digit_def)

lemma digit_char_not_slash: "d < 16 \<Longrightarrow> digit_char upper d \<noteq> CHR ''/''"
  using to_digit_digit_char_16 [of d upper] by (auto simp: to_digit_def)

lemma digit_char_not_dot: "d < 16 \<Longrightarrow> digit_char upper d \<noteq> CHR ''.''"
  using to_digit_digit_char_16 [of d upper] by (auto simp: to_digit_def)

lemma num_text_nonempty [simp]: "num_text upper radix x \<noteq> []"
  by (subst num_text.simps) simp

lemma set_num_text:
  assumes "2 \<le> radix"
  shows "set (num_text upper radix x) \<subseteq> digit_char upper ` {..<radix}"
  using assms
proof (induction upper radix x rule: num_text.induct)
  case (1 upper radix x)
  show ?case
  proof (cases "radix < 2 \<or> x < radix")
    case True
    with "1.prems" show ?thesis by (subst num_text.simps) auto
  next
    case False
    then have "x mod radix < radix" by simp
    with False 1 show ?thesis by (subst num_text.simps) auto
  qed
qed

lemma parse_digits_append:
  "parse_digits limit radix acc (s @ t) =
     Option.bind (parse_digits limit radix acc s) (\<lambda>a. parse_digits limit radix a t)"
  by (induction s arbitrary: acc) (auto split: option.splits)

lemma parse_digits_num_text:
  assumes "2 \<le> radix" "radix \<le> 16" "x < limit"
  shows "parse_digits limit radix 0 (num_text upper radix x) = Some x"
  using assms
proof (induction upper radix x rule: num_text.induct)
  case (1 upper radix x)
  show ?case
  proof (cases "x < radix")
    case True
    with "1.prems" show ?thesis
      by (subst num_text.simps) (simp add: to_digit_digit_char)
  next
    case False
    from "1.prems" have "x div radix < limit"
      by (meson div_le_dividend le_less_trans)
    with False "1.IH" "1.prems"
    have "parse_digits limit radix 0 (num_text upper radix (x div radix)) = Some (x div radix)"
      by simp
    moreover have "x mod radix < radix" using "1.prems" by simp
    ultimately show ?thesis
      using False "1.prems"
      by (subst num_text.simps) (simp add: parse_digits_append to_digit_digit_char)
  qed
qed

lemma to_digit_zero: "0 < radix \<Longrightarrow> to_digit radix (CHR ''0'') = Some 0"
  by (simp add: to_digit_def)

lemma parse_digits_zeros:
  assumes "0 < radix" "0 < limit"
  shows "parse_digits limit radix 0 (replicate n (CHR ''0'') @ s) = parse_digits limit radix 0 s"
  using assms by (induction n) (auto simp: to_digit_zero)

lemma parse_digits_pad:
  assumes "2 \<le> radix" "radix \<le> 16" "x < limit"
  shows "parse_digits limit radix 0 (pad width (num_text upper radix x)) = Some x"
  using assms by (simp add: pad_def parse_digits_zeros parse_digits_num_text)

text \<open>The characters a padded number is made of.\<close>

lemma zero_digit: "digit_char upper 0 = CHR ''0''"
  by (simp add: digit_char_def)

lemma set_pad:
  assumes "2 \<le> radix"
  shows "set (pad width (num_text upper radix x)) \<subseteq> digit_char upper ` {..<radix}"
proof -
  from assms have "CHR ''0'' \<in> digit_char upper ` {..<radix}"
    by (intro image_eqI [of _ _ 0]) (auto simp: zero_digit)
  with set_num_text [OF assms] show ?thesis
    by (auto simp: pad_def)
qed

lemma not_in_pad:
  assumes "\<And>d. d < 16 \<Longrightarrow> digit_char upper d \<noteq> c" "2 \<le> radix" "radix \<le> 16"
  shows "c \<notin> set (pad width (num_text upper radix x))"
proof
  assume "c \<in> set (pad width (num_text upper radix x))"
  with set_pad [OF assms(2), of width upper x] obtain d where "d < radix" "c = digit_char upper d"
    by auto
  with assms(1) [of d] assms(3) show False by simp
qed

lemma not_in_num_text:
  assumes "\<And>d. d < 16 \<Longrightarrow> digit_char upper d \<noteq> c" "2 \<le> radix" "radix \<le> 16"
  shows "c \<notin> set (num_text upper radix x)"
  using not_in_pad [OF assms, of 0 x] by (simp add: pad_def)

lemma from_str_radix_digits:
  assumes "s \<noteq> []" "CHR ''+'' \<notin> set s"
  shows "from_str_radix limit radix s = parse_digits limit radix 0 s"
  using assms by (cases s) (auto simp: from_str_radix_def)

lemma pad_nonempty [simp]: "s \<noteq> [] \<Longrightarrow> pad w s \<noteq> []"
  by (simp add: pad_def)

lemma from_str_radix_pad:
  assumes "2 \<le> radix" "radix \<le> 16" "x < limit"
  shows "from_str_radix limit radix (pad width (num_text upper radix x)) = Some x"
  using assms
  by (simp add: from_str_radix_digits not_in_pad digit_char_not_sign parse_digits_pad)

lemma from_str_radix_num_text:
  assumes "2 \<le> radix" "radix \<le> 16" "x < limit"
  shows "from_str_radix limit radix (num_text upper radix x) = Some x"
  using from_str_radix_pad [OF assms, of 0 upper] by (simp add: pad_def)

text \<open>A number below \<open>radix ^ width\<close> is padded to exactly \<open>width\<close> digits.\<close>

lemma length_num_text:
  assumes "2 \<le> radix" "x < radix ^ width" "0 < width"
  shows "length (num_text upper radix x) \<le> width"
  using assms
proof (induction upper radix x arbitrary: width rule: num_text.induct)
  case (1 upper radix x)
  show ?case
  proof (cases "x < radix")
    case True
    with "1.prems" show ?thesis by (subst num_text.simps) simp
  next
    case False
    from "1.prems" obtain w where w: "width = Suc w" by (cases width) auto
    from False "1.prems" w have "0 < w" by (cases w) auto
    from "1.prems" w have "x div radix < radix ^ w"
      by (simp add: div_less_iff_less_mult mult.commute)
    with False "1.IH" "1.prems" \<open>0 < w\<close>
    have "length (num_text upper radix (x div radix)) \<le> w" by simp
    with False "1.prems" w show ?thesis by (subst num_text.simps) simp
  qed
qed

lemma length_pad:
  assumes "2 \<le> radix" "x < radix ^ width" "0 < width"
  shows "length (pad width (num_text upper radix x)) = width"
  using length_num_text [OF assms, of upper] by (simp add: pad_def)

text \<open>Fixed width hexadecimal of a word, the \<open>{:02x}\<close>, \<open>{:08x}\<close> and \<open>{:016x}\<close> forms.\<close>

definition hex_fixed :: "'a::len word \<Rightarrow> string" where
  "hex_fixed w = pad (LENGTH('a) div 4) (num_text False 16 (unat w))"

lemma length_hex_fixed_gen:
  assumes "LENGTH('a) = 4 * k" "0 < k"
  shows "length (hex_fixed (w :: 'a::len word)) = k"
proof -
  have "unat w < 16 ^ k"
    using unat_bound [of w] by (simp add: assms power_mult)
  with assms show ?thesis
    by (simp add: hex_fixed_def length_pad)
qed

lemma length_hex_fixed [simp]:
  "length (hex_fixed (a :: u8)) = 2"
  "length (hex_fixed (b :: u16)) = 4"
  "length (hex_fixed (c :: u32)) = 8"
  "length (hex_fixed (d :: u64)) = 16"
  by (rule length_hex_fixed_gen; simp)+

lemma from_hex_fixed:
  assumes "unat w < limit"
  shows "from_str_radix limit 16 (hex_fixed w) = Some (unat w)"
  using assms by (simp add: hex_fixed_def from_str_radix_pad)

lemma hex_fixed_chars [simp]:
  "CHR ''-'' \<notin> set (hex_fixed w)"
  "CHR ''.'' \<notin> set (hex_fixed w)"
  "CHR ''/'' \<notin> set (hex_fixed w)"
  by (simp_all add: hex_fixed_def not_in_pad digit_char_not_dash digit_char_not_dot
      digit_char_not_slash)

section \<open>Splitting text\<close>

text \<open>\<open>str::split_once\<close> at a one character separator.\<close>

definition split_once :: "char \<Rightarrow> string \<Rightarrow> (string \<times> string) option" where
  "split_once c s =
     (case dropWhile (\<lambda>x. x \<noteq> c) s of
        [] \<Rightarrow> None
      | _ # rest \<Rightarrow> Some (takeWhile (\<lambda>x. x \<noteq> c) s, rest))"

text \<open>\<open>str::split\<close> at a one character separator: at least one part.\<close>

fun split_on :: "char \<Rightarrow> string \<Rightarrow> string list" where
  "split_on c [] = [[]]"
| "split_on c (x # xs) =
     (if x = c then [] # split_on c xs
      else (case split_on c xs of [] \<Rightarrow> [[x]] | p # ps \<Rightarrow> (x # p) # ps))"

definition strip_prefix :: "string \<Rightarrow> string \<Rightarrow> string option" where
  "strip_prefix p s = (if take (length p) s = p then Some (drop (length p) s) else None)"

definition strip_suffix :: "string \<Rightarrow> string \<Rightarrow> string option" where
  "strip_suffix p s =
     (if length p \<le> length s \<and> drop (length s - length p) s = p
      then Some (take (length s - length p) s) else None)"

definition starts_with :: "string \<Rightarrow> string \<Rightarrow> bool" where
  "starts_with p s \<longleftrightarrow> take (length p) s = p"

definition ends_with :: "string \<Rightarrow> string \<Rightarrow> bool" where
  "ends_with p s \<longleftrightarrow> length p \<le> length s \<and> drop (length s - length p) s = p"

lemma split_once_append [simp]:
  "c \<notin> set s \<Longrightarrow> split_once c (s @ c # t) = Some (s, t)"
  by (auto simp: split_once_def dropWhile_append takeWhile_append takeWhile_eq_all_conv
      dropWhile_eq_Nil_conv split: list.splits)

lemma split_on_nonempty [simp]: "split_on c s \<noteq> []"
  by (induction s) (auto split: list.splits)

lemma split_on_none: "c \<notin> set s \<Longrightarrow> split_on c s = [s]"
  by (induction s) auto

lemma split_on_append: "c \<notin> set s \<Longrightarrow> split_on c (s @ c # t) = s # split_on c t"
  by (induction s) auto

lemma strip_prefix_append [simp]: "strip_prefix p (p @ s) = Some s"
  by (simp add: strip_prefix_def)

lemma strip_prefix_Cons [simp]:
  "strip_prefix [] s = Some s"
  "strip_prefix (c # p) (d # s) = (if c = d then strip_prefix p s else None)"
  by (simp_all add: strip_prefix_def)

lemma strip_suffix_append [simp]: "strip_suffix p (s @ p) = Some s"
  by (simp add: strip_suffix_def)

lemma starts_with_append [simp]: "starts_with p (p @ s)"
  by (simp add: starts_with_def)

lemma ends_with_append [simp]: "ends_with p (s @ p)"
  by (simp add: ends_with_def)

lemma starts_with_iff: "starts_with p s \<longleftrightarrow> (\<exists>t. s = p @ t)"
  by (metis append_take_drop_id starts_with_append starts_with_def)

lemma ends_with_iff: "ends_with p s \<longleftrightarrow> (\<exists>t. s = t @ p)"
  by (metis append_take_drop_id ends_with_append ends_with_def)

end
