(* ===== verification/Lsn_Text.thy ===== *)
theory Lsn_Text
  imports Text_Numbers
begin

text \<open>
  The textual form of a log sequence number (crates/zou-store/src/lsn.rs): the
  two 32 bit halves in upper case hexadecimal around a slash, as \<open>pg_lsn\<close> prints
  them, and the parser the manifests are read with.
\<close>

datatype parse_lsn_error = ParseLsnError string

text \<open>\<open>impl Display for Lsn\<close>.\<close>

definition lsn_display :: "lsn \<Rightarrow> string" where
  "lsn_display l =
     num_text True 16 (unat (drop_bit 32 l)) @ ''/'' @ num_text True 16 (unat (and l 0xFFFFFFFF))"

text \<open>\<open>impl FromStr for Lsn\<close>.\<close>

definition lsn_from_str :: "string \<Rightarrow> (lsn, parse_lsn_error) outcome" where
  "lsn_from_str s =
     obind (ok_or (split_once (CHR ''/'') s) (ParseLsnError s)) (\<lambda>(hi, lo).
     obind (ok_or (from_str_radix (2 ^ 64) 16 hi) (ParseLsnError s)) (\<lambda>hi.
     obind (ok_or (from_str_radix (2 ^ 64) 16 lo) (ParseLsnError s)) (\<lambda>lo.
     if hi > 0xFFFFFFFF \<or> lo > 0xFFFFFFFF then Err (ParseLsnError s)
     else Ok (or (push_bit 32 (of_nat hi)) (of_nat lo)))))"

lemma lsn_halves:
  fixes l :: lsn
  shows "unat (drop_bit 32 l) = unat l div 2 ^ 32"
    and "unat (and l 0xFFFFFFFF) = unat l mod 2 ^ 32"
proof -
  show "unat (drop_bit 32 l) = unat l div 2 ^ 32"
    by (subst unat_drop_bit_eq) (rule drop_bit_eq_div)
  have "and l 0xFFFFFFFF = take_bit 32 l"
    using take_bit_eq_mask [of 32 l] by (simp add: mask_eq_exp_minus_1)
  then show "unat (and l 0xFFFFFFFF) = unat l mod 2 ^ 32"
    by (simp only: unsigned_take_bit_eq) (rule take_bit_eq_mod)
qed

lemma lsn_join:
  fixes l :: lsn
  shows "or (push_bit 32 (of_nat (unat l div 2 ^ 32))) (of_nat (unat l mod 2 ^ 32)) = l"
proof -
  have "or (push_bit 32 (drop_bit 32 l)) (take_bit 32 l) = l"
    by (rule bit_word_eqI) (auto simp: bit_simps)
  moreover have "drop_bit 32 l = of_nat (unat l div 2 ^ 32)"
    using of_unat [of "drop_bit 32 l"] by (simp only: lsn_halves(1))
  moreover have "take_bit 32 l = of_nat (unat l mod 2 ^ 32)"
    using of_unat [of "take_bit 32 l"]
    by (simp only: unsigned_take_bit_eq) (simp only: take_bit_eq_mod [of 32 "unat l"])
  ultimately show ?thesis by simp
qed

lemma lsn_half_bounds:
  fixes l :: lsn
  shows "unat l div 2 ^ 32 \<le> 0xFFFFFFFF" "unat l mod 2 ^ 32 \<le> 0xFFFFFFFF"
  using unat_bound [of l] by (simp_all add: less_mult_imp_div_less flip: less_Suc_eq_le)

text \<open>A log sequence number printed in the \<open>X/XXXXXXXX\<close> form of manifests and
  \<open>pg_lsn\<close> parses back to itself, for every 64 bit value.
\<close>

theorem lsn_display_parse: "lsn_from_str (lsn_display l) = Ok l"
proof -
  have hi: "from_str_radix (2 ^ 64) 16 (num_text True 16 (unat l div 2 ^ 32)) =
      Some (unat l div 2 ^ 32)"
    using lsn_half_bounds(1) [of l] by (intro from_str_radix_num_text) auto
  have lo: "from_str_radix (2 ^ 64) 16 (num_text True 16 (unat l mod 2 ^ 32)) =
      Some (unat l mod 2 ^ 32)"
    using lsn_half_bounds(2) [of l] by (intro from_str_radix_num_text) auto
  have "CHR ''/'' \<notin> set (num_text True 16 (unat l div 2 ^ 32))"
    by (simp add: not_in_num_text digit_char_not_slash)
  then have "split_once (CHR ''/'') (lsn_display l) =
      Some (num_text True 16 (unat l div 2 ^ 32), num_text True 16 (unat l mod 2 ^ 32))"
    by (simp add: lsn_display_def lsn_halves)
  with hi lo lsn_half_bounds [of l] show ?thesis
    using lsn_join [of l] by (simp add: lsn_from_str_def not_less)
qed

end
