(* ===== verification/Fixed_Codec.thy ===== *)
theory Fixed_Codec
  imports Zou_Prelude
begin

text \<open>
  The interface of a fixed width encoding: every value takes the same number of
  bytes and decodes back. Layer keys, index rows of a layer footer, fork size
  markers and block hints of a frame are such encodings, and a table of them is
  read back row by row, which is proved here once.
\<close>

locale fixed_codec =
  fixes enc :: "'a \<Rightarrow> bytes"
    and dec :: "bytes \<Rightarrow> 'a"
    and width :: nat
  assumes enc_length: "length (enc x) = width"
    and dec_enc: "dec (enc x) = x"
begin

lemma enc_inject: "enc x = enc y \<longleftrightarrow> x = y"
  by (metis dec_enc)

lemma dec_take: "dec (take width (enc x @ rest)) = x"
  by (simp add: enc_length dec_enc)

lemma drop_enc: "drop width (enc x @ rest) = rest"
  by (simp add: enc_length)

lemma table_length: "length (concat (map enc xs)) = length xs * width"
  by (induction xs) (auto simp: enc_length)

lemma table_inject: "concat (map enc xs) = concat (map enc ys) \<Longrightarrow> length xs = length ys \<Longrightarrow> xs = ys"
proof (induction xs arbitrary: ys)
  case Nil
  then show ?case by simp
next
  case (Cons x xs)
  then obtain y ys' where ys: "ys = y # ys'" by (cases ys) auto
  with Cons.prems(1) have "enc x = enc y \<and> concat (map enc xs) = concat (map enc ys')"
    by (simp add: append_eq_append_conv enc_length)
  with Cons ys show ?case by (auto simp: enc_inject)
qed

text \<open>The row at the position a table puts it.\<close>

lemma table_row:
  assumes "length pre = at"
  shows "get_slice (pre @ enc x @ post) at (at + width) = Some (enc x)"
  using assms by (simp add: get_slice_def enc_length)

end

text \<open>A codec whose width identifies it: every byte string of that width is an encoding.\<close>

locale exact_codec = fixed_codec +
  assumes enc_dec: "length bs = width \<Longrightarrow> enc (dec bs) = bs"
begin

lemma dec_inject: "length as = width \<Longrightarrow> length bs = width \<Longrightarrow> dec as = dec bs \<longleftrightarrow> as = bs"
  by (metis enc_dec)

end

end
