(* ===== verification/Layer_Key.thy ===== *)
theory Layer_Key
  imports Fixed_Codec Text_Numbers
begin

text \<open>
  Keys of the page service keyspace (crates/zou-store/src/layer.rs, \<open>LayerKey\<close>):
  a relation page or the size of a relation fork. The derived order compares the
  fields in their order of declaration, the encoding is the fields little endian
  in the same order, and the hexadecimal form names layer objects.
\<close>

datatype layer_key = LayerKey
  (lk_kind: u8) (lk_spc: u32) (lk_db: u32) (lk_rel: u32) (lk_fork: u8) (lk_block: u32)

definition key_tuple :: "layer_key \<Rightarrow> u8 \<times> u32 \<times> u32 \<times> u32 \<times> u8 \<times> u32" where
  "key_tuple k = (lk_kind k, lk_spc k, lk_db k, lk_rel k, lk_fork k, lk_block k)"

lemma key_tuple_inject: "key_tuple a = key_tuple b \<longleftrightarrow> a = b"
  by (cases a; cases b) (auto simp: key_tuple_def)

text \<open>\<open>#[derive(PartialOrd, Ord)]\<close>.\<close>

instantiation layer_key :: linorder
begin

definition less_eq_layer_key :: "layer_key \<Rightarrow> layer_key \<Rightarrow> bool" where
  "less_eq_layer_key a b \<longleftrightarrow> key_tuple a \<le> key_tuple b"

definition less_layer_key :: "layer_key \<Rightarrow> layer_key \<Rightarrow> bool" where
  "less_layer_key a b \<longleftrightarrow> key_tuple a < key_tuple b"

instance
proof
  fix x y z :: layer_key
  show "x < y \<longleftrightarrow> x \<le> y \<and> \<not> y \<le> x"
    by (simp add: less_eq_layer_key_def less_layer_key_def less_le_not_le)
  show "x \<le> x"
    by (simp add: less_eq_layer_key_def)
  show "x \<le> y \<Longrightarrow> y \<le> z \<Longrightarrow> x \<le> z"
    unfolding less_eq_layer_key_def by (rule order_trans)
  show "x \<le> y \<Longrightarrow> y \<le> x \<Longrightarrow> x = y"
    unfolding less_eq_layer_key_def using key_tuple_inject by (metis order_antisym)
  show "x \<le> y \<or> y \<le> x"
    unfolding less_eq_layer_key_def by (rule linear)
qed

end

definition KEY_PAGE :: u8 where
  "KEY_PAGE = 0"

definition KEY_RELSIZE :: u8 where
  "KEY_RELSIZE = 1"

definition KEY_ENCODED_LEN :: nat where
  "KEY_ENCODED_LEN = 1 + 4 + 4 + 4 + 1 + 4"

definition key_page :: "u32 \<Rightarrow> u32 \<Rightarrow> u32 \<Rightarrow> u8 \<Rightarrow> u32 \<Rightarrow> layer_key" where
  "key_page spc db rel fork block = LayerKey KEY_PAGE spc db rel fork block"

definition key_relsize :: "u32 \<Rightarrow> u32 \<Rightarrow> u32 \<Rightarrow> u8 \<Rightarrow> layer_key" where
  "key_relsize spc db rel fork = LayerKey KEY_RELSIZE spc db rel fork 0"

definition key_encode :: "layer_key \<Rightarrow> bytes" where
  "key_encode k =
     [lk_kind k] @ to_le (lk_spc k) @ to_le (lk_db k) @ to_le (lk_rel k) @
     [lk_fork k] @ to_le (lk_block k)"

text \<open>Takes an array of exactly \<open>KEY_ENCODED_LEN\<close> bytes, so every index is in range.\<close>

definition key_decode :: "bytes \<Rightarrow> layer_key" where
  "key_decode buf =
     LayerKey (buf ! 0)
       (from_le (take 4 (drop 1 buf)))
       (from_le (take 4 (drop 5 buf)))
       (from_le (take 4 (drop 9 buf)))
       (buf ! 13)
       (from_le (take 4 (drop 14 buf)))"

definition key_hex :: "layer_key \<Rightarrow> string" where
  "key_hex k =
     hex_fixed (lk_kind k) @ hex_fixed (lk_spc k) @ hex_fixed (lk_db k) @ hex_fixed (lk_rel k) @
     hex_fixed (lk_fork k) @ hex_fixed (lk_block k)"

lemma length_key_encode [simp]: "length (key_encode k) = 18"
  by (simp add: key_encode_def)

lemma key_decode_encode [simp]: "key_decode (key_encode k) = k"
  by (cases k) (simp add: key_encode_def key_decode_def nth_append)

lemma list18_split:
  assumes "length bs = 18"
  shows "[bs ! 0] @ take 4 (drop 1 bs) @ take 4 (drop 5 bs) @ take 4 (drop 9 bs) @ [bs ! 13] @
    take 4 (drop 14 bs) = bs"
  using assms by (auto simp: numeral_eq_Suc length_Suc_conv)

lemma key_encode_decode:
  assumes "length bs = 18"
  shows "key_encode (key_decode bs) = bs"
  using assms list18_split [OF assms] by (simp add: key_encode_def key_decode_def to_from_le)

interpretation key_codec: exact_codec key_encode key_decode KEY_ENCODED_LEN
  by unfold_locales (simp_all add: KEY_ENCODED_LEN_def key_encode_decode)

lemma length_key_hex [simp]: "length (key_hex k) = 36"
  by (simp add: key_hex_def)

lemma key_hex_chars [simp]:
  "CHR ''-'' \<notin> set (key_hex k)" "CHR ''.'' \<notin> set (key_hex k)" "CHR ''/'' \<notin> set (key_hex k)"
  by (simp_all add: key_hex_def)

end
