(* ===== verification/Externals.thy ===== *)
theory Externals
  imports Zou_Prelude
begin

text \<open>
  Code that is not in the repository: the checksum crate \<open>crc32c\<close>, the compressor
  \<open>lz4_flex\<close> and the hash \<open>sha2\<close>. The model takes them as a record of functions, and
  every definition that calls one has that record as its first argument. The
  laws a proof uses are the compressor's documented contract
  (\<open>lz4_faithful\<close>): decompressing what it compressed, with the original length as
  the size, gives the original back, \<open>lz4_bounded\<close> and \<open>lz4_nonempty\<close>. Nothing is assumed of the checksums: a
  round trip holds for every function in their place.
\<close>

record externals =
  crc32c :: "bytes \<Rightarrow> u32"
  crc32c_append :: "u32 \<Rightarrow> bytes \<Rightarrow> u32"
  lz4_compress :: "bytes \<Rightarrow> bytes"
  lz4_decompress :: "bytes \<Rightarrow> nat \<Rightarrow> bytes option"
  lz4_max_output :: "nat \<Rightarrow> nat"
  sha256 :: "bytes \<Rightarrow> bytes"

definition lz4_faithful :: "externals \<Rightarrow> bool" where
  "lz4_faithful ext \<longleftrightarrow>
     (\<forall>raw. lz4_decompress ext (lz4_compress ext raw) (length raw) = Some raw)"

text \<open>The worst case output size of the compressor is never below the input size.\<close>

definition lz4_bounded :: "externals \<Rightarrow> bool" where
  "lz4_bounded ext \<longleftrightarrow> (\<forall>n. n \<le> lz4_max_output ext n)"

text \<open>Even the empty input compresses to a token, so no output is empty.\<close>

definition lz4_nonempty :: "externals \<Rightarrow> bool" where
  "lz4_nonempty ext \<longleftrightarrow> (\<forall>raw. lz4_compress ext raw \<noteq> [])"

text \<open>
  A concrete instance: a run of at least three equal bytes shrinks to a marker, anything
  else is stored behind a tag, and the checksum adds bytes up.
\<close>

fun sum_bytes :: "u32 \<Rightarrow> bytes \<Rightarrow> u32" where
  "sum_bytes acc [] = acc"
| "sum_bytes acc (b # bs) = sum_bytes (acc * 31 + ucast b) bs"

definition run_compress :: "bytes \<Rightarrow> bytes" where
  "run_compress raw =
     (case raw of
        [] \<Rightarrow> [0]
      | b # bs \<Rightarrow> if list_all (\<lambda>x. x = b) bs then [1, b] else 0 # raw)"

definition run_decompress :: "bytes \<Rightarrow> nat \<Rightarrow> bytes option" where
  "run_decompress packed n =
     (case packed of
        [] \<Rightarrow> None
      | t # rest \<Rightarrow> if t = 1 then (case rest of [b] \<Rightarrow> Some (replicate n b) | _ \<Rightarrow> None)
                    else Some rest)"

definition sample_ext :: externals where
  "sample_ext =
     \<lparr>crc32c = sum_bytes 7, crc32c_append = sum_bytes,
      lz4_compress = run_compress, lz4_decompress = run_decompress,
      lz4_max_output = (\<lambda>n. n + n div 255 + 20),
      sha256 = (\<lambda>bs. concat (replicate 8 (to_le (sum_bytes 3 bs))))\<rparr>"

lemma list_all_replicate: "list_all (\<lambda>x. x = b) bs \<Longrightarrow> bs = replicate (length bs) b"
  by (induction bs) auto

lemma sample_ext_faithful: "lz4_faithful sample_ext"
proof -
  have "run_decompress (run_compress raw) (length raw) = Some raw" for raw
    by (auto simp: run_compress_def run_decompress_def list_all_replicate [symmetric]
        split: list.splits)
  then show ?thesis
    by (simp add: lz4_faithful_def sample_ext_def)
qed

lemma sample_ext_nonempty: "lz4_nonempty sample_ext"
  by (simp add: lz4_nonempty_def sample_ext_def run_compress_def split: list.split)

lemma sample_ext_bounded: "lz4_bounded sample_ext"
  by (simp add: lz4_bounded_def sample_ext_def)

end
