(* ===== verification/Bloom_Filter.thy ===== *)
theory Bloom_Filter
  imports Externals
begin

unbundle bit_operations_syntax

text \<open>
  The filter in a layer footer (crates/zou-store/src/bloom.rs). A key hashes to a
  pair, seven probes walk from the first hash in steps of the second, and the
  filter is a byte vector whose length is a power of two of at least 64. What
  makes it correct is that it never denies a key that went in, whichever of the
  two ways it was built, and that the two ways build the same bits.
\<close>

definition BLOOM_HASHES :: nat where
  "BLOOM_HASHES = 7"

definition BLOOM_MIN_BYTES :: nat where
  "BLOOM_MIN_BYTES = 64"

definition mix :: "u64 \<Rightarrow> u64" where
  "mix z =
     (let z = (z XOR drop_bit 30 z) * 0xbf58476d1ce4e5b9;
          z = (z XOR drop_bit 27 z) * 0x94d049bb133111eb
      in z XOR drop_bit 31 z)"

text \<open>The remainder panics on a filter of no bits.\<close>

definition probes :: "u64 \<Rightarrow> u64 \<Rightarrow> u64 \<Rightarrow> (nat list, 'e) outcome" where
  "probes h1 h2 nbits =
     (if nbits = 0 then Panic
      else Ok (map (\<lambda>i. unat ((h1 + of_nat i * h2) mod nbits)) [0..<BLOOM_HASHES]))"

record bloom =
  bits :: bytes

text \<open>The library's \<open>div_ceil\<close>, \<open>next_power_of_two\<close> and \<open>is_power_of_two\<close> on \<open>usize\<close>.\<close>

definition div_ceil :: "nat \<Rightarrow> nat \<Rightarrow> nat" where
  "div_ceil a b = (a + b - 1) div b"

function pow2_from :: "nat \<Rightarrow> nat \<Rightarrow> nat" where
  "pow2_from p n = (if p = 0 \<or> n \<le> p then p else pow2_from (2 * p) n)"
  by pat_completeness auto
termination
  by (relation "measure (\<lambda>(p, n). n - p)") auto

declare pow2_from.simps [simp del]

definition next_power_of_two :: "nat \<Rightarrow> nat" where
  "next_power_of_two n = pow2_from 1 n"

fun is_power_of_two :: "nat \<Rightarrow> bool" where
  "is_power_of_two n =
     (if n = 0 then False else if n = 1 then True else if odd n then False
      else is_power_of_two (n div 2))"

declare is_power_of_two.simps [simp del]

definition sized_for :: "nat \<Rightarrow> bloom" where
  "sized_for keys =
     \<lparr>bits = replicate (max (next_power_of_two (div_ceil (keys * 10) 8)) BLOOM_MIN_BYTES) 0\<rparr>"

text \<open>
  \<open>bits[pos / 8] |= 1 << (pos % 8)\<close> and \<open>bits[pos / 8] & (1 << (pos % 8)) != 0\<close>: indexing
  panics past the end of the vector.
\<close>

definition set_pos :: "nat \<Rightarrow> bytes \<Rightarrow> (bytes, 'e) outcome" where
  "set_pos pos bs =
     (if pos div 8 < length bs
      then Ok (bs[pos div 8 := (bs ! (pos div 8)) OR push_bit (pos mod 8) 1]) else Panic)"

definition has_pos :: "bytes \<Rightarrow> nat \<Rightarrow> (bool, 'e) outcome" where
  "has_pos bs pos =
     (if pos div 8 < length bs then Ok ((bs ! (pos div 8)) AND push_bit (pos mod 8) 1 \<noteq> 0) else Panic)"

text \<open>A \<open>for\<close> loop whose body may panic, and \<open>Iterator::all\<close>, which stops at the first \<open>false\<close>.\<close>

fun ofold :: "('a \<Rightarrow> 'b \<Rightarrow> ('b, 'e) outcome) \<Rightarrow> 'a list \<Rightarrow> 'b \<Rightarrow> ('b, 'e) outcome" where
  "ofold f [] b = Ok b"
| "ofold f (x # xs) b = obind (f x b) (ofold f xs)"

fun oall :: "('a \<Rightarrow> (bool, 'e) outcome) \<Rightarrow> 'a list \<Rightarrow> (bool, 'e) outcome" where
  "oall p [] = Ok True"
| "oall p (x # xs) = obind (p x) (\<lambda>ok. if ok then oall p xs else Ok False)"

definition bit_count :: "bloom \<Rightarrow> u64" where
  "bit_count b = of_nat (length (bits b) * 8)"

definition from_hashes :: "(u64 \<times> u64) list \<Rightarrow> (bloom, 'e) outcome" where
  "from_hashes hashes =
     (let b = sized_for (max (length hashes) 1); n = bit_count b
      in obind (ofold (\<lambda>(h1, h2) bs. obind (probes h1 h2 n) (\<lambda>ps. ofold set_pos ps bs)) hashes (bits b))
           (\<lambda>bs. Ok (b\<lparr>bits := bs\<rparr>)))"

definition bloom_hash :: "externals \<Rightarrow> bytes \<Rightarrow> u64 \<times> u64" where
  "bloom_hash ext key =
     (mix (ucast (crc32c ext key)), mix (ucast (crc32c_append ext 0x5EED key)) OR 1)"

definition from_bits :: "bytes \<Rightarrow> bloom option" where
  "from_bits bs =
     (if \<not> is_power_of_two (length bs) \<or> length bs < BLOOM_MIN_BYTES then None
      else Some \<lparr>bits = bs\<rparr>)"

definition positions :: "externals \<Rightarrow> bloom \<Rightarrow> bytes \<Rightarrow> (nat list, 'e) outcome" where
  "positions ext b key = (let (h1, h2) = bloom_hash ext key in probes h1 h2 (bit_count b))"

definition bloom_insert :: "externals \<Rightarrow> bytes \<Rightarrow> bloom \<Rightarrow> (bloom, 'e) outcome" where
  "bloom_insert ext key b =
     obind (positions ext b key) (\<lambda>ps.
     obind (ofold set_pos ps (bits b)) (\<lambda>bs. Ok (b\<lparr>bits := bs\<rparr>)))"

definition may_contain :: "externals \<Rightarrow> bloom \<Rightarrow> bytes \<Rightarrow> (bool, 'e) outcome" where
  "may_contain ext b key = obind (positions ext b key) (oall (has_pos (bits b)))"

section \<open>The values, with every index in range\<close>

text \<open>
  What the operations compute when they do not panic. A filter is \<open>legal\<close> when it has a byte and
  fewer than \<open>2 ^ 61\<close>, so that its bit count is a positive \<open>u64\<close>; on a legal filter the operations
  do not panic and have these values (\<open>bloom_insert_legal\<close>, \<open>may_contain_legal\<close>).
\<close>

definition probe_list :: "u64 \<Rightarrow> u64 \<Rightarrow> u64 \<Rightarrow> nat list" where
  "probe_list h1 h2 nbits = map (\<lambda>i. unat ((h1 + of_nat i * h2) mod nbits)) [0..<BLOOM_HASHES]"

definition with_pos :: "nat \<Rightarrow> bytes \<Rightarrow> bytes" where
  "with_pos pos bs = bs[pos div 8 := (bs ! (pos div 8)) OR push_bit (pos mod 8) 1]"

definition bit_at :: "bytes \<Rightarrow> nat \<Rightarrow> bool" where
  "bit_at bs pos \<longleftrightarrow> (bs ! (pos div 8)) AND push_bit (pos mod 8) 1 \<noteq> 0"

definition hashes_filter :: "(u64 \<times> u64) list \<Rightarrow> bloom" where
  "hashes_filter hashes =
     (let b = sized_for (max (length hashes) 1); n = bit_count b
      in b\<lparr>bits := fold (\<lambda>(h1, h2) bs. fold with_pos (probe_list h1 h2 n) bs) hashes (bits b)\<rparr>)"

definition key_positions :: "externals \<Rightarrow> bloom \<Rightarrow> bytes \<Rightarrow> nat list" where
  "key_positions ext b key = (let (h1, h2) = bloom_hash ext key in probe_list h1 h2 (bit_count b))"

definition with_key :: "externals \<Rightarrow> bytes \<Rightarrow> bloom \<Rightarrow> bloom" where
  "with_key ext key b = b\<lparr>bits := fold with_pos (key_positions ext b key) (bits b)\<rparr>"

definition admits_key :: "externals \<Rightarrow> bloom \<Rightarrow> bytes \<Rightarrow> bool" where
  "admits_key ext b key \<longleftrightarrow> list_all (bit_at (bits b)) (key_positions ext b key)"

section \<open>Sizes\<close>

lemma pow2_from_power:
  "\<exists>k. p = 2 ^ k \<Longrightarrow> \<exists>k. pow2_from p n = 2 ^ k"
proof (induction p n rule: pow2_from.induct)
  case (1 p n)
  show ?case
  proof (cases "p = 0 \<or> n \<le> p")
    case True
    with "1.prems" show ?thesis by (simp add: pow2_from.simps [of p n])
  next
    case False
    from "1.prems" obtain k where "2 * p = 2 ^ Suc k" by auto
    then have "\<exists>k. 2 * p = 2 ^ k" by blast
    with False "1.IH" show ?thesis by (simp add: pow2_from.simps [of p n])
  qed
qed

lemma pow2_from_ge: "0 < p \<Longrightarrow> n \<le> pow2_from p n"
proof (induction p n rule: pow2_from.induct)
  case (1 p n)
  then show ?case by (cases "n \<le> p") (auto simp: pow2_from.simps [of p n])
qed

lemma is_power_of_two_power: "is_power_of_two (2 ^ k)"
proof (induction k)
  case 0
  then show ?case by (simp add: is_power_of_two.simps [of "Suc 0"])
next
  case (Suc k)
  then show ?case by (simp add: is_power_of_two.simps [of "2 * 2 ^ k"])
qed

lemma sized_for_length:
  "\<exists>k. length (bits (sized_for keys)) = 2 ^ k" "BLOOM_MIN_BYTES \<le> length (bits (sized_for keys))"
proof -
  obtain k where "next_power_of_two (div_ceil (keys * 10) 8) = 2 ^ k"
    unfolding next_power_of_two_def using pow2_from_power [of 1] by (metis power_0)
  then have "length (bits (sized_for keys)) = (if k \<le> 6 then 2 ^ 6 else 2 ^ k)"
    using power_increasing_iff [of "2 :: nat" k 6]
    by (auto simp: sized_for_def max_def BLOOM_MIN_BYTES_def)
  then show "\<exists>k. length (bits (sized_for keys)) = 2 ^ k"
    by (intro exI [of _ "if k \<le> 6 then 6 else k"]) auto
  show "BLOOM_MIN_BYTES \<le> length (bits (sized_for keys))"
    by (simp add: sized_for_def)
qed

lemma length_with_pos [simp]: "length (with_pos p bs) = length bs"
  by (simp add: with_pos_def)

lemma length_fold_with_pos [simp]: "length (fold with_pos ps bs) = length bs"
  by (induction ps arbitrary: bs) auto

lemma length_fold_hashes [simp]:
  "length (fold (\<lambda>(h1, h2) bs. fold with_pos (probe_list h1 h2 n) bs) hs bs) = length bs"
  by (induction hs arbitrary: bs) auto

lemma bit_count_insert [simp]: "bit_count (with_key ext key b) = bit_count b"
  by (simp add: bit_count_def with_key_def)

lemma key_positions_insert [simp]: "key_positions ext (with_key ext key b) k = key_positions ext b k"
  by (simp add: key_positions_def)

section \<open>Bits once set stay set\<close>

lemma bit_at_bit: "bit_at bs q \<longleftrightarrow> bit (bs ! (q div 8)) (q mod 8)"
  by (simp only: bit_at_def bit_iff_and_push_bit_not_eq_0)

lemma bit_at_with_pos:
  assumes "p < 8 * length bs" "q < 8 * length bs"
  shows "bit_at (with_pos p bs) q \<longleftrightarrow> p = q \<or> bit_at bs q"
proof -
  from assms have len: "p div 8 < length bs" "q div 8 < length bs" by auto
  have "p = q \<longleftrightarrow> p div 8 = q div 8 \<and> p mod 8 = q mod 8"
    by (metis div_mult_mod_eq)
  with len show ?thesis
    by (auto simp: bit_at_bit with_pos_def nth_list_update bit_simps)
qed

lemma bit_at_fold_with_pos:
  assumes "\<forall>p \<in> set ps. p < 8 * length bs" "q < 8 * length bs"
  shows "bit_at (fold with_pos ps bs) q \<longleftrightarrow> q \<in> set ps \<or> bit_at bs q"
  using assms by (induction ps arbitrary: bs) (auto simp: bit_at_with_pos)

text \<open>Every probe lands inside the filter, so no index of the code is out of range.\<close>

definition legal :: "bloom \<Rightarrow> bool" where
  "legal b \<longleftrightarrow> 0 < length (bits b) \<and> length (bits b) < 2 ^ 61"

lemma bit_count_legal:
  assumes "legal b"
  shows "unat (bit_count b) = 8 * length (bits b)" "bit_count b \<noteq> 0"
proof -
  from assms show u: "unat (bit_count b) = 8 * length (bits b)"
    unfolding bit_count_def legal_def by (subst unat_of_nat_small) auto
  with assms show "bit_count b \<noteq> 0"
    by (auto simp: legal_def)
qed

lemma probe_list_in_range:
  assumes "legal b" "p \<in> set (probe_list h1 h2 (bit_count b))"
  shows "p < 8 * length (bits b)"
proof -
  from assms(2) obtain h where "p = unat (h mod bit_count b)"
    by (auto simp: probe_list_def)
  moreover have "0 < unat (bit_count b)"
    using assms(1) bit_count_legal(1) [OF assms(1)] by (simp add: legal_def)
  ultimately show ?thesis
    using bit_count_legal(1) [OF assms(1)] by (simp add: unat_mod)
qed

lemma key_positions_in_range: "legal b \<Longrightarrow> \<forall>p \<in> set (key_positions ext b key). p < 8 * length (bits b)"
  by (auto simp: key_positions_def split: prod.splits intro: probe_list_in_range)

lemma legal_insert [simp]: "legal (with_key ext key b) = legal b"
  by (simp add: legal_def with_key_def)

lemma admits_key_insert_self:
  assumes "legal b"
  shows "admits_key ext (with_key ext key b) key"
proof -
  have "bit_at (bits (with_key ext key b)) p" if "p \<in> set (key_positions ext b key)" for p
    using that key_positions_in_range [OF assms]
    by (auto simp: with_key_def bit_at_fold_with_pos)
  then show ?thesis
    by (simp add: admits_key_def list_all_iff)
qed

lemma admits_key_insert_mono:
  assumes "legal b" "admits_key ext b k"
  shows "admits_key ext (with_key ext key b) k"
proof -
  have "bit_at (bits (with_key ext key b)) p" if "p \<in> set (key_positions ext b k)" for p
    using that assms key_positions_in_range [OF assms(1)]
    by (auto simp: admits_key_def list_all_iff with_key_def bit_at_fold_with_pos)
  then show ?thesis
    by (simp add: admits_key_def list_all_iff)
qed

lemma admits_key_fold_insert:
  "legal b \<Longrightarrow> k \<in> set ks \<or> admits_key ext b k \<Longrightarrow>
   admits_key ext (fold (with_key ext) ks b) k"
proof (induction ks arbitrary: b)
  case Nil
  then show ?case by simp
next
  case (Cons x xs)
  then show ?case
    by (auto simp: admits_key_insert_self admits_key_insert_mono)
qed

section \<open>The two ways of building\<close>

lemma fold_insert_bits:
  "bits (fold (with_key ext) ks b) =
   fold (\<lambda>(h1, h2) bs. fold with_pos (probe_list h1 h2 (bit_count b)) bs) (map (bloom_hash ext) ks) (bits b)"
proof (induction ks arbitrary: b)
  case Nil
  then show ?case by simp
next
  case (Cons k ks)
  obtain h1 h2 where h: "bloom_hash ext k = (h1, h2)" by fastforce
  have "bits (with_key ext k b) = fold with_pos (probe_list h1 h2 (bit_count b)) (bits b)"
    by (simp add: with_key_def key_positions_def h)
  then show ?case by (simp add: Cons.IH h)
qed

lemma hashes_filter_inserts:
  "hashes_filter (map (bloom_hash ext) keys) =
   fold (with_key ext) keys (sized_for (max (length keys) 1))"
  by (rule bloom.equality) (simp_all add: hashes_filter_def fold_insert_bits Let_def)

lemma hashes_filter_length:
  "length (bits (hashes_filter hs)) = length (bits (sized_for (max (length hs) 1)))"
  by (simp add: hashes_filter_def Let_def)

lemma from_bits_hashes_filter: "from_bits (bits (hashes_filter hs)) = Some (hashes_filter hs)"
proof -
  obtain k where "length (bits (hashes_filter hs)) = 2 ^ k"
    unfolding hashes_filter_length using sized_for_length(1) by blast
  moreover have "BLOOM_MIN_BYTES \<le> length (bits (hashes_filter hs))"
    unfolding hashes_filter_length by (rule sized_for_length(2))
  ultimately show ?thesis
    by (simp add: from_bits_def is_power_of_two_power)
qed

lemma pow2_from_less: "0 < p \<Longrightarrow> p < 2 * n \<Longrightarrow> pow2_from p n < 2 * n"
proof (induction p n rule: pow2_from.induct)
  case (1 p n)
  then show ?case
    by (cases "n \<le> p") (simp_all add: pow2_from.simps [of p n])
qed

lemma hashes_filter_size: "length (bits (hashes_filter hs)) \<le> 64 + 4 * length hs"
proof -
  define k where "k = max (length hs) 1"
  have "k \<le> length hs + 1" "0 < k" by (auto simp: k_def)
  moreover have "next_power_of_two (div_ceil (k * 10) 8) < 2 * div_ceil (k * 10) 8"
    using \<open>0 < k\<close> unfolding next_power_of_two_def
    by (intro pow2_from_less) (auto simp: div_ceil_def)
  moreover have "div_ceil (k * 10) 8 \<le> 2 * k"
    using \<open>0 < k\<close> by (simp add: div_ceil_def)
  ultimately show ?thesis
    unfolding hashes_filter_length k_def [symmetric] by (simp add: sized_for_def BLOOM_MIN_BYTES_def)
qed

lemma sized_for_legal: "length (bits (sized_for n)) < 2 ^ 61 \<Longrightarrow> legal (sized_for n)"
  using sized_for_length(2) [of n] by (auto simp: legal_def BLOOM_MIN_BYTES_def)

lemma hashes_filter_admits:
  assumes "key \<in> set keys" "length (bits (hashes_filter (map (bloom_hash ext) keys))) < 2 ^ 61"
  shows "admits_key ext (hashes_filter (map (bloom_hash ext) keys)) key"
proof -
  have "legal (sized_for (max (length keys) 1))"
    using assms(2) by (intro sized_for_legal) (simp add: hashes_filter_length)
  then have "admits_key ext (fold (with_key ext) keys (sized_for (max (length keys) 1))) key"
    using assms(1) by (intro admits_key_fold_insert) auto
  then show ?thesis
    by (simp add: hashes_filter_inserts)
qed

section \<open>The operations do not panic on a legal filter\<close>

lemma set_pos_in_range: "p < 8 * length bs \<Longrightarrow> set_pos p bs = Ok (with_pos p bs)"
  by (auto simp: set_pos_def with_pos_def)

lemma set_pos_value: "set_pos p bs = Ok bs' \<Longrightarrow> bs' = with_pos p bs"
  by (auto simp: set_pos_def with_pos_def split: if_splits)

lemma ofold_set_pos:
  "\<forall>p \<in> set ps. p < 8 * length bs \<Longrightarrow> ofold set_pos ps bs = Ok (fold with_pos ps bs)"
  by (induction ps arbitrary: bs) (auto simp: set_pos_in_range)

lemma ofold_set_pos_value: "ofold set_pos ps bs = Ok bs' \<Longrightarrow> bs' = fold with_pos ps bs"
  by (induction ps arbitrary: bs) (auto simp: obind_Ok_iff dest: set_pos_value)

lemma probes_legal: "n \<noteq> 0 \<Longrightarrow> probes h1 h2 n = Ok (probe_list h1 h2 n)"
  by (simp add: probes_def probe_list_def)

lemma probes_value: "probes h1 h2 n = Ok ps \<Longrightarrow> ps = probe_list h1 h2 n"
  by (auto simp: probes_def probe_list_def split: if_splits)

lemma positions_legal: "legal b \<Longrightarrow> positions ext b key = Ok (key_positions ext b key)"
  by (simp add: positions_def key_positions_def probes_legal bit_count_legal split: prod.split)

lemma bloom_insert_legal:
  assumes "legal b"
  shows "bloom_insert ext key b = Ok (with_key ext key b)"
  using key_positions_in_range [OF assms, of ext key]
  by (simp add: bloom_insert_def positions_legal [OF assms] ofold_set_pos with_key_def)

lemma oall_has_pos:
  "\<forall>p \<in> set ps. p < 8 * length bs \<Longrightarrow> oall (has_pos bs) ps = Ok (list_all (bit_at bs) ps)"
  by (induction ps) (auto simp: has_pos_def bit_at_def)

lemma may_contain_legal:
  assumes "legal b"
  shows "may_contain ext b key = Ok (admits_key ext b key)"
  using key_positions_in_range [OF assms, of ext key]
  by (simp add: may_contain_def positions_legal [OF assms] oall_has_pos admits_key_def)

text \<open>A filter of no bytes is not legal, and asking it does panic.\<close>

lemma may_contain_empty: "may_contain ext \<lparr>bits = []\<rparr> key = Panic"
  by (simp add: may_contain_def positions_def bit_count_def probes_def split: prod.split)

lemma from_bits_legal:
  assumes "from_bits bs = Some b" "length bs < 2 ^ 61"
  shows "legal b"
  using assms by (auto simp: from_bits_def legal_def BLOOM_MIN_BYTES_def split: if_splits)

text \<open>A build that returns has the filter of its hashes, and one that fits the address space returns.\<close>

lemma ofold_hashes_value:
  "ofold (\<lambda>(h1, h2) bs. obind (probes h1 h2 n) (\<lambda>ps. ofold set_pos ps bs)) hs bs = Ok bs' \<Longrightarrow>
   bs' = fold (\<lambda>(h1, h2) bs. fold with_pos (probe_list h1 h2 n) bs) hs bs"
  by (induction hs arbitrary: bs)
    (auto simp: obind_Ok_iff dest!: probes_value ofold_set_pos_value)

lemma from_hashes_value: "from_hashes hs = Ok b \<Longrightarrow> b = hashes_filter hs"
  by (auto simp: from_hashes_def hashes_filter_def Let_def obind_Ok_iff dest!: ofold_hashes_value)

lemma ofold_hashes_legal:
  assumes "legal b" "length bs = length (bits b)"
  shows "ofold (\<lambda>(h1, h2) bs. obind (probes h1 h2 (bit_count b)) (\<lambda>ps. ofold set_pos ps bs)) hs bs =
    Ok (fold (\<lambda>(h1, h2) bs. fold with_pos (probe_list h1 h2 (bit_count b)) bs) hs bs)"
  using assms(2)
proof (induction hs arbitrary: bs)
  case (Cons h hs)
  obtain h1 h2 where h: "h = (h1, h2)" by fastforce
  have "\<forall>p \<in> set (probe_list h1 h2 (bit_count b)). p < 8 * length bs"
    using probe_list_in_range [OF assms(1)] Cons.prems by auto
  then show ?case
    using Cons by (simp add: h probes_legal bit_count_legal [OF assms(1)] ofold_set_pos)
qed simp

lemma from_hashes_fits:
  assumes "length hs < 2 ^ 58"
  shows "from_hashes hs = Ok (hashes_filter hs)"
proof -
  have "length (bits (sized_for (max (length hs) 1))) < 2 ^ 61"
    using hashes_filter_size [of hs] assms by (simp add: hashes_filter_length)
  then have "legal (sized_for (max (length hs) 1))"
    by (rule sized_for_legal)
  then show ?thesis
    unfolding from_hashes_def hashes_filter_def Let_def
    by (simp only: ofold_hashes_legal obind.simps)
qed

end
