(* ===== verification/Layer_Codec.thy ===== *)
theory Layer_Codec
  imports Layer_Key Bloom_Filter
begin

text \<open>
  Delta and image layers (crates/zou-store/src/layer.rs): the builders that encode
  sorted entries into compressed blocks behind a footer, and the decoders that
  read a footer, a block or a whole object back. A slice of the code that could
  leave its buffer is a \<open>slice\<close> here, so a panic of the decoder would be an
  outcome of the model. The calls to the packing gauge (\<open>note_packed\<close>) change
  only process statistics and are left out.
\<close>

section \<open>Format constants\<close>

definition LAYER_MAGIC :: bytes where
  "LAYER_MAGIC = [0x5A, 0x4C, 0x59, 0x52]"

definition LAYER_FOOTER_MAGIC :: bytes where
  "LAYER_FOOTER_MAGIC = [0x5A, 0x4C, 0x59, 0x46]"

definition LAYER_VERSION :: u16 where
  "LAYER_VERSION = 1"

definition LAYER_BLOCK_TARGET :: nat where
  "LAYER_BLOCK_TARGET = 256 * 1024"

definition PAGE_IMAGE_LEN :: nat where
  "PAGE_IMAGE_LEN = 8192"

definition MAX_RECORD_LEN :: u32 where
  "MAX_RECORD_LEN = 64 * 1024 * 1024"

definition LAYER_HEADER_LEN :: nat where
  "LAYER_HEADER_LEN = 4 + 2 + 1 + 1"

definition TAIL_LEN :: nat where
  "TAIL_LEN = 4 + 4 + 4"

definition BLOCK_META_LEN :: nat where
  "BLOCK_META_LEN = KEY_ENCODED_LEN * 2 + 8 + 4 + 4 + 4 + 4 + 1"

definition ENTRY_FIXED_LEN :: nat where
  "ENTRY_FIXED_LEN = KEY_ENCODED_LEN + 8 + 4"

definition MAX_BLOCK_RAW_LEN :: u32 where
  "MAX_BLOCK_RAW_LEN = of_nat LAYER_BLOCK_TARGET + MAX_RECORD_LEN + of_nat ENTRY_FIXED_LEN"

definition ENC_RAW :: u8 where
  "ENC_RAW = 0"

definition ENC_LZ4 :: u8 where
  "ENC_LZ4 = 1"

lemmas layer_consts =
  LAYER_MAGIC_def LAYER_FOOTER_MAGIC_def LAYER_VERSION_def LAYER_BLOCK_TARGET_def
  PAGE_IMAGE_LEN_def MAX_RECORD_LEN_def LAYER_HEADER_LEN_def TAIL_LEN_def BLOCK_META_LEN_def
  ENTRY_FIXED_LEN_def MAX_BLOCK_RAW_LEN_def ENC_RAW_def ENC_LZ4_def KEY_ENCODED_LEN_def

section \<open>Data\<close>

datatype layer_kind = Delta | Image

record delta_entry =
  de_key :: layer_key
  de_lsn :: lsn
  de_record :: bytes

record image_entry =
  ie_key :: layer_key
  ie_page :: bytes

record layer_block =
  lb_first_key :: layer_key
  lb_last_key :: layer_key
  lb_offset :: u64
  lb_len :: u32
  lb_raw_len :: u32
  lb_entries :: u32
  lb_crc :: u32
  lb_enc :: u8

record layer_footer =
  lf_kind :: layer_kind
  lf_min_key :: layer_key
  lf_max_key :: layer_key
  lf_min_lsn :: lsn
  lf_max_lsn :: lsn
  lf_entry_count :: u64
  lf_blocks :: "layer_block list"
  lf_bloom :: bloom

datatype layer_build_error = Empty | Unsorted | BadPageLen nat | RecordTooLarge

datatype layer_decode_error =
  Truncated nat nat | BadMagic | UnsupportedVersion u16 | WrongKind layer_kind layer_kind
| Corrupt | Block nat

definition footer_may_contain :: "externals \<Rightarrow> layer_footer \<Rightarrow> layer_key \<Rightarrow> (bool, 'e) outcome" where
  "footer_may_contain ext f key = may_contain ext (lf_bloom f) (key_encode key)"

definition locate :: "layer_footer \<Rightarrow> layer_key \<Rightarrow> layer_block list" where
  "locate f key =
     (let i = partition_point (\<lambda>b. lb_last_key b < key) (lf_blocks f);
          n = length (takeWhile (\<lambda>b. lb_first_key b \<le> key) (drop i (lf_blocks f)))
      in take n (drop i (lf_blocks f)))"

section \<open>Encoding\<close>

definition push_block ::
  "externals \<Rightarrow> bytes \<times> layer_block list \<Rightarrow> bytes \<Rightarrow> layer_key \<Rightarrow> layer_key \<Rightarrow> u32 \<Rightarrow>
   bytes \<times> layer_block list" where
  "push_block ext out raw first_key last_key entries =
     (let (buf, blocks) = out;
          compressed = lz4_compress ext raw;
          (enc, stored) = (if length compressed < length raw then (ENC_LZ4, compressed)
                           else (ENC_RAW, raw))
      in (buf @ stored,
          blocks @ [\<lparr>lb_first_key = first_key, lb_last_key = last_key,
                     lb_offset = of_nat (length buf), lb_len = of_nat (length stored),
                     lb_raw_len = of_nat (length raw), lb_entries = entries,
                     lb_crc = crc32c ext stored, lb_enc = enc\<rparr>]))"

definition encode_row :: "layer_block \<Rightarrow> bytes" where
  "encode_row b =
     key_encode (lb_first_key b) @ key_encode (lb_last_key b) @ to_le (lb_offset b) @
     to_le (lb_len b) @ to_le (lb_raw_len b) @ to_le (lb_entries b) @ to_le (lb_crc b) @ [lb_enc b]"

definition encode_footer :: "layer_footer \<Rightarrow> bytes" where
  "encode_footer f =
     key_encode (lf_min_key f) @ key_encode (lf_max_key f) @ to_le (lf_min_lsn f) @
     to_le (lf_max_lsn f) @ to_le (lf_entry_count f) @
     to_le (of_nat (length (lf_blocks f)) :: u32) @ concat (map encode_row (lf_blocks f)) @
     to_le (of_nat (length (bits (lf_bloom f))) :: u32) @ bits (lf_bloom f)"

definition layer_finish ::
  "externals \<Rightarrow> bytes \<Rightarrow> layer_kind \<Rightarrow> layer_block list \<Rightarrow> bloom \<Rightarrow> lsn \<Rightarrow> lsn \<Rightarrow> u64 \<Rightarrow>
   (bytes \<times> layer_footer, layer_build_error) outcome" where
  "layer_finish ext buf kind blocks bl min_lsn max_lsn entry_count =
     (if blocks = [] then Panic
      else
        let footer = \<lparr>lf_kind = kind, lf_min_key = lb_first_key (hd blocks),
                      lf_max_key = lb_last_key (last blocks), lf_min_lsn = min_lsn,
                      lf_max_lsn = max_lsn, lf_entry_count = entry_count,
                      lf_blocks = blocks, lf_bloom = bl\<rparr>;
            footer_start = length buf;
            buf = buf @ encode_footer footer;
            footer_len = of_nat (length buf - footer_start) :: u32;
            buf = buf @ to_le footer_len
        in obind (slice buf 0 LAYER_HEADER_LEN) (\<lambda>hdr.
           obind (slice buf footer_start (footer_start + unat footer_len)) (\<lambda>body.
           let crc = crc32c_append ext (crc32c ext hdr) body
           in Ok (buf @ to_le crc @ LAYER_FOOTER_MAGIC, footer))))"

definition header :: "layer_kind \<Rightarrow> bytes" where
  "header kind = LAYER_MAGIC @ to_le LAYER_VERSION @ [case kind of Delta \<Rightarrow> 0 | Image \<Rightarrow> 1] @ [0]"

subsection \<open>The delta builder\<close>

record delta_builder =
  db_buf :: bytes
  db_blocks :: "layer_block list"
  db_hashes :: "(u64 \<times> u64) list"
  db_raw :: bytes
  db_block_target :: nat
  db_first :: layer_key
  db_last :: "(layer_key \<times> lsn) option"
  db_count :: u32
  db_total :: u64
  db_min_lsn :: lsn
  db_max_lsn :: lsn

definition delta_new :: "nat \<Rightarrow> delta_builder" where
  "delta_new block_target =
     \<lparr>db_buf = header Delta, db_blocks = [], db_hashes = [], db_raw = [],
      db_block_target = block_target, db_first = key_page 0 0 0 0 0, db_last = None,
      db_count = 0, db_total = 0, db_min_lsn = - 1, db_max_lsn = 0\<rparr>"

definition encode_entry :: "layer_key \<Rightarrow> lsn \<Rightarrow> bytes \<Rightarrow> bytes" where
  "encode_entry key lsn rec =
     key_encode key @ to_le lsn @ to_le (of_nat (length rec) :: u32) @ rec"

text \<open>Close the block being filled when the next entry would overflow the target.\<close>

definition delta_spill ::
  "externals \<Rightarrow> layer_key \<Rightarrow> nat \<Rightarrow> delta_builder \<Rightarrow> (delta_builder, layer_build_error) outcome" where
  "delta_spill ext key rec_len b =
     (if db_raw b \<noteq> [] \<and> length (db_raw b) + ENTRY_FIXED_LEN + rec_len > db_block_target b then
        obind (expect (map_option fst (db_last b))) (\<lambda>last_key.
        let (buf, blocks) =
              push_block ext (db_buf b, db_blocks b) (db_raw b) (db_first b) last_key (db_count b)
        in Ok (b\<lparr>db_buf := buf, db_blocks := blocks, db_raw := [], db_count := 0,
                 db_first := key\<rparr>))
      else Ok b)"

definition delta_push ::
  "externals \<Rightarrow> layer_key \<Rightarrow> lsn \<Rightarrow> bytes \<Rightarrow> delta_builder \<Rightarrow>
   (delta_builder, layer_build_error) outcome" where
  "delta_push ext key lsn rec b =
     (if (case db_last b of None \<Rightarrow> False | Some p \<Rightarrow> (key, lsn) \<le> p) then Err Unsorted
      else if length rec > unat MAX_RECORD_LEN then Err RecordTooLarge
      else
        let b = (if db_last b = None then b\<lparr>db_first := key\<rparr> else b);
            b = (if (case db_last b of None \<Rightarrow> True | Some (prev, _) \<Rightarrow> prev \<noteq> key)
                 then b\<lparr>db_hashes := db_hashes b @ [bloom_hash ext (key_encode key)]\<rparr> else b)
        in obind (delta_spill ext key (length rec) b) (\<lambda>b.
           Ok (b\<lparr>db_raw := db_raw b @ encode_entry key lsn rec, db_last := Some (key, lsn),
                 db_count := db_count b + 1, db_total := db_total b + 1,
                 db_min_lsn := min (db_min_lsn b) lsn, db_max_lsn := max (db_max_lsn b) lsn\<rparr>)))"

definition delta_len :: "delta_builder \<Rightarrow> u64" where
  "delta_len b = db_total b"

definition delta_is_empty :: "delta_builder \<Rightarrow> bool" where
  "delta_is_empty b \<longleftrightarrow> db_total b = 0"

definition delta_finish ::
  "externals \<Rightarrow> delta_builder \<Rightarrow> (bytes \<times> layer_footer, layer_build_error) outcome" where
  "delta_finish ext b =
     (case db_last b of
        None \<Rightarrow> Err Empty
      | Some (last_key, _) \<Rightarrow>
          let (buf, blocks) =
                push_block ext (db_buf b, db_blocks b) (db_raw b) (db_first b) last_key (db_count b)
          in obind (from_hashes (db_hashes b)) (\<lambda>bl.
             layer_finish ext buf Delta blocks bl (db_min_lsn b) (db_max_lsn b) (db_total b)))"

subsection \<open>The image builder\<close>

record image_builder =
  ib_buf :: bytes
  ib_blocks :: "layer_block list"
  ib_hashes :: "(u64 \<times> u64) list"
  ib_raw :: bytes
  ib_block_target :: nat
  ib_lsn :: lsn
  ib_first :: layer_key
  ib_last :: "layer_key option"
  ib_count :: u32
  ib_total :: u64

definition image_new :: "lsn \<Rightarrow> nat \<Rightarrow> image_builder" where
  "image_new lsn block_target =
     \<lparr>ib_buf = header Image, ib_blocks = [], ib_hashes = [], ib_raw = [],
      ib_block_target = block_target, ib_lsn = lsn, ib_first = key_page 0 0 0 0 0,
      ib_last = None, ib_count = 0, ib_total = 0\<rparr>"

definition image_spill ::
  "externals \<Rightarrow> layer_key \<Rightarrow> image_builder \<Rightarrow> (image_builder, layer_build_error) outcome" where
  "image_spill ext key b =
     (if ib_raw b \<noteq> [] \<and> length (ib_raw b) + KEY_ENCODED_LEN + PAGE_IMAGE_LEN > ib_block_target b
      then
        obind (expect (ib_last b)) (\<lambda>last_key.
        let (buf, blocks) =
              push_block ext (ib_buf b, ib_blocks b) (ib_raw b) (ib_first b) last_key (ib_count b)
        in Ok (b\<lparr>ib_buf := buf, ib_blocks := blocks, ib_raw := [], ib_count := 0,
                 ib_first := key\<rparr>))
      else Ok b)"

definition image_push ::
  "externals \<Rightarrow> layer_key \<Rightarrow> bytes \<Rightarrow> image_builder \<Rightarrow>
   (image_builder, layer_build_error) outcome" where
  "image_push ext key page b =
     (if (case ib_last b of None \<Rightarrow> False | Some p \<Rightarrow> key \<le> p) then Err Unsorted
      else if length page \<noteq> PAGE_IMAGE_LEN then Err (BadPageLen (length page))
      else
        let b = (if ib_last b = None then b\<lparr>ib_first := key\<rparr> else b);
            b = b\<lparr>ib_hashes := ib_hashes b @ [bloom_hash ext (key_encode key)]\<rparr>
        in obind (image_spill ext key b) (\<lambda>b.
           Ok (b\<lparr>ib_raw := ib_raw b @ key_encode key @ page, ib_last := Some key,
                 ib_count := ib_count b + 1, ib_total := ib_total b + 1\<rparr>)))"

definition image_len :: "image_builder \<Rightarrow> u64" where
  "image_len b = ib_total b"

definition image_is_empty :: "image_builder \<Rightarrow> bool" where
  "image_is_empty b \<longleftrightarrow> ib_total b = 0"

definition image_bytes :: "image_builder \<Rightarrow> nat" where
  "image_bytes b = length (ib_buf b) + length (ib_raw b)"

definition image_finish ::
  "externals \<Rightarrow> image_builder \<Rightarrow> (bytes \<times> layer_footer, layer_build_error) outcome" where
  "image_finish ext b =
     (case ib_last b of
        None \<Rightarrow> Err Empty
      | Some last_key \<Rightarrow>
          let (buf, blocks) =
                push_block ext (ib_buf b, ib_blocks b) (ib_raw b) (ib_first b) last_key (ib_count b)
          in obind (from_hashes (ib_hashes b)) (\<lambda>bl.
             layer_finish ext buf Image blocks bl (ib_lsn b) (ib_lsn b) (ib_total b)))"

subsection \<open>Whole layers\<close>

fun delta_push_all ::
  "externals \<Rightarrow> delta_entry list \<Rightarrow> delta_builder \<Rightarrow> (delta_builder, layer_build_error) outcome" where
  "delta_push_all ext [] b = Ok b"
| "delta_push_all ext (e # es) b =
     obind (delta_push ext (de_key e) (de_lsn e) (de_record e) b) (delta_push_all ext es)"

definition build_delta ::
  "externals \<Rightarrow> delta_entry list \<Rightarrow> nat \<Rightarrow> (bytes \<times> layer_footer, layer_build_error) outcome" where
  "build_delta ext entries block_target =
     obind (delta_push_all ext entries (delta_new block_target)) (delta_finish ext)"

fun image_push_all ::
  "externals \<Rightarrow> image_entry list \<Rightarrow> image_builder \<Rightarrow> (image_builder, layer_build_error) outcome" where
  "image_push_all ext [] b = Ok b"
| "image_push_all ext (e # es) b =
     obind (image_push ext (ie_key e) (ie_page e) b) (image_push_all ext es)"

definition build_image ::
  "externals \<Rightarrow> image_entry list \<Rightarrow> lsn \<Rightarrow> nat \<Rightarrow>
   (bytes \<times> layer_footer, layer_build_error) outcome" where
  "build_image ext entries lsn block_target =
     obind (image_push_all ext entries (image_new lsn block_target)) (image_finish ext)"

section \<open>What the filter admits\<close>

definition footer_admits :: "externals \<Rightarrow> layer_footer \<Rightarrow> layer_key \<Rightarrow> bool" where
  "footer_admits ext f key = admits_key ext (lf_bloom f) (key_encode key)"

lemma footer_may_contain_legal:
  "legal (lf_bloom f) \<Longrightarrow> footer_may_contain ext f key = Ok (footer_admits ext f key)"
  by (simp add: footer_may_contain_def footer_admits_def may_contain_legal)

end
