(* ===== verification/Layer_Decode.thy ===== *)
theory Layer_Decode
  imports Layer_Codec
begin

text \<open>
  The decoders of crates/zou-store/src/layer.rs: header, footer (from the whole
  object or from one suffix read), single blocks, whole layers, and the streaming
  cursors compaction merges with.
\<close>

definition parse_header :: "bytes \<Rightarrow> (layer_kind, layer_decode_error) outcome" where
  "parse_header hdr =
     (if length hdr < LAYER_HEADER_LEN then Err (Truncated (length hdr) LAYER_HEADER_LEN)
      else if take 4 hdr \<noteq> LAYER_MAGIC then Err BadMagic
      else
        let version = from_le (take 2 (drop 4 hdr)) :: u16
        in if version \<noteq> LAYER_VERSION then Err (UnsupportedVersion version)
           else if hdr ! 6 = 0 then Ok Delta
           else if hdr ! 6 = 1 then Ok Image
           else Err Corrupt)"

subsection \<open>The footer body\<close>

text \<open>The closures \<open>take\<close> and \<open>key\<close>, with the position they advance.\<close>

definition take_at :: "bytes \<Rightarrow> nat \<Rightarrow> nat \<Rightarrow> (bytes \<times> nat, layer_decode_error) outcome" where
  "take_at body at n =
     obind (ok_or (checked_add_usize at n) Corrupt) (\<lambda>end_at.
     obind (ok_or (get_slice body at end_at) Corrupt) (\<lambda>s. Ok (s, end_at)))"

definition key_at :: "bytes \<Rightarrow> nat \<Rightarrow> (layer_key \<times> nat, layer_decode_error) outcome" where
  "key_at body at = obind (take_at body at KEY_ENCODED_LEN) (\<lambda>(s, at). Ok (key_decode s, at))"

definition overlaps :: "layer_kind \<Rightarrow> layer_block \<Rightarrow> layer_block \<Rightarrow> bool" where
  "overlaps kind block p =
     (case kind of
        Image \<Rightarrow> lb_first_key block \<le> lb_last_key p
      | Delta \<Rightarrow> lb_first_key block < lb_last_key p)"

definition row_at :: "bytes \<Rightarrow> nat \<Rightarrow> (layer_block \<times> nat, layer_decode_error) outcome" where
  "row_at body at =
     obind (key_at body at) (\<lambda>(first_key, at).
     obind (key_at body at) (\<lambda>(last_key, at).
     obind (take_at body at (BLOCK_META_LEN - 2 * KEY_ENCODED_LEN)) (\<lambda>(fixed, at).
     Ok (\<lparr>lb_first_key = first_key, lb_last_key = last_key,
          lb_offset = from_le (take 8 fixed), lb_len = from_le (take 4 (drop 8 fixed)),
          lb_raw_len = from_le (take 4 (drop 12 fixed)),
          lb_entries = from_le (take 4 (drop 16 fixed)),
          lb_crc = from_le (take 4 (drop 20 fixed)), lb_enc = fixed ! 24\<rparr>, at))))"

definition row_bad :: "layer_kind \<Rightarrow> u64 \<Rightarrow> layer_block list \<Rightarrow> layer_block \<Rightarrow> bool" where
  "row_bad kind expect_at blocks block \<longleftrightarrow>
     lb_offset block \<noteq> expect_at \<or>
     lb_entries block = 0 \<or>
     lb_first_key block > lb_last_key block \<or>
     lb_raw_len block > MAX_BLOCK_RAW_LEN \<or>
     (lb_enc block \<noteq> ENC_RAW \<and> lb_enc block \<noteq> ENC_LZ4) \<or>
     (lb_enc block = ENC_RAW \<and> lb_len block \<noteq> lb_raw_len block) \<or>
     (blocks \<noteq> [] \<and> overlaps kind block (last blocks))"

text \<open>The loop over the index rows: position, expected offset, entry sum, rows so far.\<close>

fun parse_rows ::
  "layer_kind \<Rightarrow> bytes \<Rightarrow> nat \<Rightarrow> nat \<times> u64 \<times> u64 \<times> layer_block list \<Rightarrow>
   (nat \<times> u64 \<times> u64 \<times> layer_block list, layer_decode_error) outcome" where
  "parse_rows kind body 0 st = Ok st"
| "parse_rows kind body (Suc n) (at, expect_at, entry_sum, blocks) =
     obind (row_at body at) (\<lambda>(block, at).
     if row_bad kind expect_at blocks block then Err Corrupt
     else obind (ok_or (checked_add expect_at (ucast (lb_len block))) Corrupt) (\<lambda>expect_at.
          parse_rows kind body n
            (at, expect_at, entry_sum + ucast (lb_entries block), blocks @ [block])))"

definition parse_footer_body ::
  "layer_kind \<Rightarrow> bytes \<Rightarrow> u64 \<Rightarrow> (layer_footer, layer_decode_error) outcome" where
  "parse_footer_body kind body footer_start =
     obind (key_at body 0) (\<lambda>(min_key, at).
     obind (key_at body at) (\<lambda>(max_key, at).
     obind (take_at body at 8) (\<lambda>(min_lsn, at).
     obind (take_at body at 8) (\<lambda>(max_lsn, at).
     obind (take_at body at 8) (\<lambda>(entry_count, at).
     obind (take_at body at 4) (\<lambda>(block_count, at).
     let min_lsn = from_le min_lsn; max_lsn = from_le max_lsn;
         entry_count = from_le entry_count;
         block_count = unat (from_le block_count :: u32)
     in if block_count = 0 \<or> block_count > (length body - at) div BLOCK_META_LEN then Err Corrupt
        else
     obind (parse_rows kind body block_count (at, of_nat LAYER_HEADER_LEN, 0, []))
       (\<lambda>(at, expect_at, entry_sum, blocks).
     if expect_at \<noteq> footer_start \<or> entry_sum \<noteq> entry_count then Err Corrupt
     else if blocks = [] then Panic
     else if min_key \<noteq> lb_first_key (hd blocks) \<or> max_key \<noteq> lb_last_key (last blocks) \<or>
             min_lsn > max_lsn then Err Corrupt
     else
     obind (take_at body at 4) (\<lambda>(bloom_len, at).
     let bloom_len = unat (from_le bloom_len :: u32)
     in if bloom_len > length body - at then Err Corrupt
        else
     obind (take_at body at bloom_len) (\<lambda>(bs, at).
     obind (ok_or (from_bits bs) Corrupt) (\<lambda>bl.
     if at \<noteq> length body then Err Corrupt
     else Ok \<lparr>lf_kind = kind, lf_min_key = min_key, lf_max_key = max_key,
              lf_min_lsn = min_lsn, lf_max_lsn = max_lsn, lf_entry_count = entry_count,
              lf_blocks = blocks, lf_bloom = bl\<rparr>))))))))))"

definition parse_shell ::
  "externals \<Rightarrow> bytes \<Rightarrow> (layer_footer \<times> nat, layer_decode_error) outcome" where
  "parse_shell ext buf =
     (if length buf < LAYER_HEADER_LEN + TAIL_LEN
      then Err (Truncated (length buf) (LAYER_HEADER_LEN + TAIL_LEN))
      else
     obind (slice buf 0 LAYER_HEADER_LEN) (\<lambda>hdr.
     obind (parse_header hdr) (\<lambda>kind.
     obind (slice buf (length buf - 4) (length buf)) (\<lambda>magic.
     if magic \<noteq> LAYER_FOOTER_MAGIC then Err BadMagic
     else
     let tail_at = length buf - TAIL_LEN
     in obind (slice buf tail_at (tail_at + 4)) (\<lambda>footer_len.
     obind (slice buf (tail_at + 4) (tail_at + 8)) (\<lambda>stored_crc.
     let footer_len = unat (from_le footer_len :: u32); stored_crc = from_le stored_crc :: u32
     in if footer_len > tail_at - LAYER_HEADER_LEN then Err Corrupt
        else
     let footer_start = tail_at - footer_len
     in obind (slice buf footer_start tail_at) (\<lambda>body.
     if crc32c_append ext (crc32c ext hdr) body \<noteq> stored_crc then Err Corrupt
     else
     obind (parse_footer_body kind body (of_nat footer_start)) (\<lambda>footer.
     Ok (footer, footer_start)))))))))"

definition read_layer_footer_suffix ::
  "externals \<Rightarrow> layer_kind \<Rightarrow> bytes \<Rightarrow> u64 \<Rightarrow> (layer_footer, layer_decode_error) outcome" where
  "read_layer_footer_suffix ext kind suffix object_len =
     (let hdr = header kind
      in if length suffix < TAIL_LEN \<or> length suffix > unat object_len
         then Err (Truncated (length suffix) TAIL_LEN)
         else
     obind (slice suffix (length suffix - 4) (length suffix)) (\<lambda>magic.
     if magic \<noteq> LAYER_FOOTER_MAGIC then Err BadMagic
     else
     let tail_at = length suffix - TAIL_LEN
     in obind (slice suffix tail_at (tail_at + 4)) (\<lambda>footer_len.
     obind (slice suffix (tail_at + 4) (tail_at + 8)) (\<lambda>stored_crc.
     let footer_len = unat (from_le footer_len :: u32); stored_crc = from_le stored_crc :: u32
     in obind (ok_or (checked_add_usize footer_len TAIL_LEN) Corrupt) (\<lambda>need.
     if need > unat (object_len - of_nat LAYER_HEADER_LEN) then Err Corrupt
     else if length suffix < need then Err (Truncated (length suffix) need)
     else
     obind (slice suffix (length suffix - need) tail_at) (\<lambda>body.
     obind (slice hdr 0 LAYER_HEADER_LEN) (\<lambda>hdr.
     if crc32c_append ext (crc32c ext hdr) body \<noteq> stored_crc then Err Corrupt
     else parse_footer_body kind body (object_len - of_nat need))))))))"

definition read_layer_footer :: "externals \<Rightarrow> bytes \<Rightarrow> (layer_footer, layer_decode_error) outcome" where
  "read_layer_footer ext buf = obind (parse_shell ext buf) (\<lambda>(footer, _). Ok footer)"

subsection \<open>Blocks\<close>

definition block_raw :: "externals \<Rightarrow> bytes \<Rightarrow> layer_block \<Rightarrow> (bytes, layer_decode_error) outcome" where
  "block_raw ext bs meta =
     (if length bs \<noteq> unat (lb_len meta) \<or> lb_raw_len meta > MAX_BLOCK_RAW_LEN \<or>
         crc32c ext bs \<noteq> lb_crc meta
      then Err Corrupt
      else
     obind (if lb_enc meta = ENC_RAW \<and> lb_len meta = lb_raw_len meta then Ok bs
            else if lb_enc meta = ENC_LZ4
            then ok_or (lz4_decompress ext bs (unat (lb_raw_len meta))) Corrupt
            else Err Corrupt) (\<lambda>raw.
     if length raw \<noteq> unat (lb_raw_len meta) then Err Corrupt else Ok raw))"

fun delta_entries ::
  "bytes \<Rightarrow> nat \<Rightarrow> nat \<Rightarrow> delta_entry list \<Rightarrow>
   (nat \<times> delta_entry list, layer_decode_error) outcome" where
  "delta_entries raw 0 at entries = Ok (at, entries)"
| "delta_entries raw (Suc n) at entries =
     obind (ok_or (get_slice raw at (at + ENTRY_FIXED_LEN)) Corrupt) (\<lambda>fixed.
     let key = key_decode (take KEY_ENCODED_LEN fixed);
         lsn = from_le (take 8 (drop 18 fixed)) :: lsn;
         len = from_le (take 4 (drop 26 fixed)) :: u32
     in if len > MAX_RECORD_LEN then Err Corrupt
        else
     let at = at + ENTRY_FIXED_LEN
     in obind (ok_or (get_slice raw at (at + unat len)) Corrupt) (\<lambda>rec.
     let at = at + unat len
     in if entries \<noteq> [] \<and> (key, lsn) \<le> (de_key (last entries), de_lsn (last entries))
        then Err Corrupt
        else delta_entries raw n at
               (entries @ [\<lparr>de_key = key, de_lsn = lsn, de_record = rec\<rparr>])))"

definition first_key_of :: "('a \<Rightarrow> layer_key) \<Rightarrow> 'a list \<Rightarrow> layer_key option" where
  "first_key_of f xs = (case xs of [] \<Rightarrow> None | x # _ \<Rightarrow> Some (f x))"

definition last_key_of :: "('a \<Rightarrow> layer_key) \<Rightarrow> 'a list \<Rightarrow> layer_key option" where
  "last_key_of f xs = (if xs = [] then None else Some (f (last xs)))"

definition decode_delta_block ::
  "externals \<Rightarrow> bytes \<Rightarrow> layer_block \<Rightarrow> (delta_entry list, layer_decode_error) outcome" where
  "decode_delta_block ext bs meta =
     obind (block_raw ext bs meta) (\<lambda>raw.
     obind (delta_entries raw (unat (lb_entries meta)) 0 []) (\<lambda>(at, entries).
     if at \<noteq> length raw \<or> first_key_of de_key entries \<noteq> Some (lb_first_key meta) \<or>
        last_key_of de_key entries \<noteq> Some (lb_last_key meta)
     then Err Corrupt else Ok entries))"

definition PAGE_STRIDE :: nat where
  "PAGE_STRIDE = KEY_ENCODED_LEN + PAGE_IMAGE_LEN"

text \<open>The loop over \<open>chunks_exact(stride)\<close>; the caller checked the length.\<close>

fun image_entries ::
  "bytes \<Rightarrow> nat \<Rightarrow> image_entry list \<Rightarrow> (image_entry list, layer_decode_error) outcome" where
  "image_entries raw 0 entries = Ok entries"
| "image_entries raw (Suc n) entries =
     (let chunk = take PAGE_STRIDE raw;
          key = key_decode (take KEY_ENCODED_LEN chunk)
      in if entries \<noteq> [] \<and> key \<le> ie_key (last entries) then Err Corrupt
         else image_entries (drop PAGE_STRIDE raw) n
                (entries @ [\<lparr>ie_key = key, ie_page = drop KEY_ENCODED_LEN chunk\<rparr>]))"

definition decode_image_block ::
  "externals \<Rightarrow> bytes \<Rightarrow> layer_block \<Rightarrow> (image_entry list, layer_decode_error) outcome" where
  "decode_image_block ext bs meta =
     obind (block_raw ext bs meta) (\<lambda>raw.
     if length raw \<noteq> unat (lb_entries meta) * PAGE_STRIDE then Err Corrupt
     else
     obind (image_entries raw (unat (lb_entries meta)) []) (\<lambda>entries.
     if first_key_of ie_key entries \<noteq> Some (lb_first_key meta) \<or>
        last_key_of ie_key entries \<noteq> Some (lb_last_key meta)
     then Err Corrupt else Ok entries))"

subsection \<open>Whole layers\<close>

definition check_kind :: "layer_footer \<Rightarrow> layer_kind \<Rightarrow> (unit, layer_decode_error) outcome" where
  "check_kind footer expected =
     (if lf_kind footer \<noteq> expected then Err (WrongKind expected (lf_kind footer)) else Ok ())"

definition block_bytes :: "bytes \<Rightarrow> layer_block \<Rightarrow> (bytes, layer_decode_error) outcome" where
  "block_bytes buf meta =
     slice buf (unat (lb_offset meta)) (unat (lb_offset meta + ucast (lb_len meta)))"

fun decode_delta_blocks ::
  "externals \<Rightarrow> bytes \<Rightarrow> nat \<Rightarrow> layer_block list \<Rightarrow> delta_entry list \<Rightarrow>
   (delta_entry list, layer_decode_error) outcome" where
  "decode_delta_blocks ext buf index [] entries = Ok entries"
| "decode_delta_blocks ext buf index (meta # metas) entries =
     obind (block_bytes buf meta) (\<lambda>bs.
     obind (map_err (\<lambda>_. Block index) (decode_delta_block ext bs meta)) (\<lambda>block.
     if entries \<noteq> [] \<and> block \<noteq> [] \<and>
        (de_key (hd block), de_lsn (hd block)) \<le> (de_key (last entries), de_lsn (last entries))
     then Err (Block index)
     else decode_delta_blocks ext buf (Suc index) metas (entries @ block)))"

definition decode_delta ::
  "externals \<Rightarrow> bytes \<Rightarrow> (delta_entry list \<times> layer_footer, layer_decode_error) outcome" where
  "decode_delta ext buf =
     obind (parse_shell ext buf) (\<lambda>(footer, _).
     obind (check_kind footer Delta) (\<lambda>_.
     obind (decode_delta_blocks ext buf 0 (lf_blocks footer) []) (\<lambda>entries.
     Ok (entries, footer))))"

fun decode_image_blocks ::
  "externals \<Rightarrow> bytes \<Rightarrow> nat \<Rightarrow> layer_block list \<Rightarrow> image_entry list \<Rightarrow>
   (image_entry list, layer_decode_error) outcome" where
  "decode_image_blocks ext buf index [] entries = Ok entries"
| "decode_image_blocks ext buf index (meta # metas) entries =
     obind (block_bytes buf meta) (\<lambda>bs.
     obind (map_err (\<lambda>_. Block index) (decode_image_block ext bs meta)) (\<lambda>block.
     decode_image_blocks ext buf (Suc index) metas (entries @ block)))"

definition decode_image ::
  "externals \<Rightarrow> bytes \<Rightarrow> (image_entry list \<times> layer_footer, layer_decode_error) outcome" where
  "decode_image ext buf =
     obind (parse_shell ext buf) (\<lambda>(footer, _).
     obind (check_kind footer Image) (\<lambda>_.
     obind (decode_image_blocks ext buf 0 (lf_blocks footer) []) (\<lambda>entries.
     Ok (entries, footer))))"

subsection \<open>Cursors\<close>

record delta_cursor =
  dc_buf :: bytes
  dc_footer :: layer_footer
  dc_block :: nat
  dc_entries :: "delta_entry list"
  dc_prev :: "(layer_key \<times> lsn) option"
  dc_dead :: bool

definition open_delta_cursor ::
  "externals \<Rightarrow> bytes \<Rightarrow> (delta_cursor, layer_decode_error) outcome" where
  "open_delta_cursor ext buf =
     obind (parse_shell ext buf) (\<lambda>(footer, _).
     obind (check_kind footer Delta) (\<lambda>_.
     Ok \<lparr>dc_buf = buf, dc_footer = footer, dc_block = 0, dc_entries = [], dc_prev = None,
         dc_dead = False\<rparr>))"

text \<open>
  One call of \<open>next\<close>: an item or the end of the stream, and the cursor after it. The
  loop runs at most once per block still unread. A slice out of range would panic;
  here it yields \<open>Panic\<close> as the item.
\<close>

function delta_loop ::
  "externals \<Rightarrow> delta_cursor \<Rightarrow> (delta_entry, layer_decode_error) outcome option \<times> delta_cursor" where
  "delta_loop ext c =
     (case dc_entries c of
        e # rest \<Rightarrow>
          let c = c\<lparr>dc_entries := rest\<rparr>
          in if (case dc_prev c of None \<Rightarrow> False | Some p \<Rightarrow> (de_key e, de_lsn e) \<le> p)
             then (Some (Err (Block (dc_block c - 1))), c\<lparr>dc_dead := True\<rparr>)
             else (Some (Ok e), c\<lparr>dc_prev := Some (de_key e, de_lsn e)\<rparr>)
      | [] \<Rightarrow>
          if dc_block c < length (lf_blocks (dc_footer c)) then
            let meta = lf_blocks (dc_footer c) ! dc_block c;
                index = dc_block c;
                c = c\<lparr>dc_block := index + 1\<rparr>
            in (case block_bytes (dc_buf c) meta of
                  Ok bs \<Rightarrow>
                    (case decode_delta_block ext bs meta of
                       Ok entries \<Rightarrow> delta_loop ext (c\<lparr>dc_entries := entries\<rparr>)
                     | Err _ \<Rightarrow> (Some (Err (Block index)), c\<lparr>dc_dead := True\<rparr>)
                     | Panic \<Rightarrow> (Some Panic, c))
                | _ \<Rightarrow> (Some Panic, c))
          else (None, c))"
  by pat_completeness auto
termination
  by (relation "measure (\<lambda>(ext, c). length (lf_blocks (dc_footer c)) - dc_block c)") auto

declare delta_loop.simps [simp del]

definition delta_next ::
  "externals \<Rightarrow> delta_cursor \<Rightarrow> (delta_entry, layer_decode_error) outcome option \<times> delta_cursor" where
  "delta_next ext c = (if dc_dead c then (None, c) else delta_loop ext c)"

record image_cursor =
  ic_buf :: bytes
  ic_footer :: layer_footer
  ic_block :: nat
  ic_entries :: "image_entry list"
  ic_dead :: bool

definition open_image_cursor ::
  "externals \<Rightarrow> bytes \<Rightarrow> (image_cursor, layer_decode_error) outcome" where
  "open_image_cursor ext buf =
     obind (parse_shell ext buf) (\<lambda>(footer, _).
     obind (check_kind footer Image) (\<lambda>_.
     Ok \<lparr>ic_buf = buf, ic_footer = footer, ic_block = 0, ic_entries = [], ic_dead = False\<rparr>))"

function image_loop ::
  "externals \<Rightarrow> image_cursor \<Rightarrow> (image_entry, layer_decode_error) outcome option \<times> image_cursor" where
  "image_loop ext c =
     (case ic_entries c of
        e # rest \<Rightarrow> (Some (Ok e), c\<lparr>ic_entries := rest\<rparr>)
      | [] \<Rightarrow>
          if ic_block c < length (lf_blocks (ic_footer c)) then
            let meta = lf_blocks (ic_footer c) ! ic_block c;
                index = ic_block c;
                c = c\<lparr>ic_block := index + 1\<rparr>
            in (case block_bytes (ic_buf c) meta of
                  Ok bs \<Rightarrow>
                    (case decode_image_block ext bs meta of
                       Ok entries \<Rightarrow> image_loop ext (c\<lparr>ic_entries := entries\<rparr>)
                     | Err _ \<Rightarrow> (Some (Err (Block index)), c\<lparr>ic_dead := True\<rparr>)
                     | Panic \<Rightarrow> (Some Panic, c))
                | _ \<Rightarrow> (Some Panic, c))
          else (None, c))"
  by pat_completeness auto
termination
  by (relation "measure (\<lambda>(ext, c). length (lf_blocks (ic_footer c)) - ic_block c)") auto

declare image_loop.simps [simp del]

definition image_next ::
  "externals \<Rightarrow> image_cursor \<Rightarrow> (image_entry, layer_decode_error) outcome option \<times> image_cursor" where
  "image_next ext c = (if ic_dead c then (None, c) else image_loop ext c)"

end
