(* ===== verification/Layer_Shell.thy ===== *)
theory Layer_Shell
  imports Layer_Decode
begin

text \<open>
  The shell of a layer object: header, stored blocks, footer, tail. A block is
  abstracted to its key bounds, its entry count and its raw bytes; the index rows
  and the stored bytes follow from those. The lemma \<open>parse_shell_object\<close> says that
  the decoder reads back the footer of any object put together this way, for both
  kinds of layer, and the lemma \<open>block_raw_row\<close> that a stored block unpacks to its raw bytes.
\<close>

record ablock =
  ab_first :: layer_key
  ab_last :: layer_key
  ab_count :: nat
  ab_raw :: bytes

definition pack :: "externals \<Rightarrow> bytes \<Rightarrow> u8 \<times> bytes" where
  "pack ext raw =
     (if length (lz4_compress ext raw) < length raw then (ENC_LZ4, lz4_compress ext raw)
      else (ENC_RAW, raw))"

abbreviation stored :: "externals \<Rightarrow> bytes \<Rightarrow> bytes" where
  "stored ext raw \<equiv> snd (pack ext raw)"

definition row :: "externals \<Rightarrow> nat \<Rightarrow> ablock \<Rightarrow> layer_block" where
  "row ext off a =
     \<lparr>lb_first_key = ab_first a, lb_last_key = ab_last a, lb_offset = of_nat off,
      lb_len = of_nat (length (stored ext (ab_raw a))), lb_raw_len = of_nat (length (ab_raw a)),
      lb_entries = of_nat (ab_count a), lb_crc = crc32c ext (stored ext (ab_raw a)),
      lb_enc = fst (pack ext (ab_raw a))\<rparr>"

fun rows :: "externals \<Rightarrow> nat \<Rightarrow> ablock list \<Rightarrow> layer_block list" where
  "rows ext off [] = []"
| "rows ext off (a # as) = row ext off a # rows ext (off + length (stored ext (ab_raw a))) as"

definition stored_all :: "externals \<Rightarrow> ablock list \<Rightarrow> bytes" where
  "stored_all ext as = concat (map (\<lambda>a. stored ext (ab_raw a)) as)"

lemma stored_all_simps [simp]:
  "stored_all ext [] = []"
  "stored_all ext (a # as) = stored ext (ab_raw a) @ stored_all ext as"
  "stored_all ext (as @ bs) = stored_all ext as @ stored_all ext bs"
  by (simp_all add: stored_all_def)

lemma length_rows [simp]: "length (rows ext off as) = length as"
  by (induction as arbitrary: off) auto

lemma rows_append:
  "rows ext off (as @ bs) = rows ext off as @ rows ext (off + length (stored_all ext as)) bs"
  by (induction as arbitrary: off) (auto simp: add.assoc)

lemma push_block_row:
  "push_block ext (buf, blocks) raw f l (of_nat n) =
   (buf @ stored ext raw,
    blocks @ [row ext (length buf) \<lparr>ab_first = f, ab_last = l, ab_count = n, ab_raw = raw\<rparr>])"
  by (simp add: push_block_def row_def pack_def Let_def)

section \<open>Well formed blocks\<close>

text \<open>A well formed block of its own, and blocks in the order of their kind.\<close>

definition ab_ok :: "ablock \<Rightarrow> bool" where
  "ab_ok a \<longleftrightarrow> 0 < ab_count a \<and> ab_count a < 2 ^ 32 \<and> ab_first a \<le> ab_last a \<and>
     length (ab_raw a) \<le> unat MAX_BLOCK_RAW_LEN"

definition follows :: "layer_kind \<Rightarrow> layer_key \<Rightarrow> layer_key \<Rightarrow> bool" where
  "follows kind l f = (case kind of Image \<Rightarrow> l < f | Delta \<Rightarrow> l \<le> f)"

fun chained :: "layer_kind \<Rightarrow> layer_key option \<Rightarrow> ablock list \<Rightarrow> bool" where
  "chained kind p [] = True"
| "chained kind p (a # as) =
     ((case p of None \<Rightarrow> True | Some l \<Rightarrow> follows kind l (ab_first a)) \<and>
      chained kind (Some (ab_last a)) as)"

lemma unat_max_raw: "unat MAX_BLOCK_RAW_LEN = 67371038"
  by (simp add: layer_consts)

lemma unat_max_record: "unat MAX_RECORD_LEN = 67108864"
  by (simp add: layer_consts)

lemma length_stored_le: "length (stored ext raw) \<le> length raw"
  by (simp add: pack_def)

lemma unat_row_fields:
  assumes "ab_ok a"
  shows "unat (lb_len (row ext off a)) = length (stored ext (ab_raw a))"
    and "unat (lb_raw_len (row ext off a)) = length (ab_raw a)"
    and "unat (lb_entries (row ext off a)) = ab_count a"
  using assms length_stored_le [of ext "ab_raw a"]
  by (simp_all add: ab_ok_def row_def unat_max_raw unat_of_nat_small)

lemma length_stored_all_le: "length (stored_all ext as) \<le> sum_list (map (\<lambda>a. length (ab_raw a)) as)"
  using length_stored_le by (induction as) (auto intro: add_mono)

lemma length_concat_ge: "[] \<notin> set bs \<Longrightarrow> length bs \<le> length (concat bs)"
proof (induction bs)
  case (Cons a bs)
  then have "1 \<le> length a" by (cases a) auto
  with Cons show ?case by (simp del: One_nat_def)
qed simp

text \<open>The filter's hashes of a list of keys.\<close>

definition key_hashes :: "externals \<Rightarrow> layer_key list \<Rightarrow> (u64 \<times> u64) list" where
  "key_hashes ext keys = map (bloom_hash ext) (map key_encode keys)"

section \<open>Reading the footer body\<close>

lemma take_at_ok:
  assumes "at + n \<le> length body" "length body < 2 ^ 64"
  shows "take_at body at n = Ok (take n (drop at body), at + n)"
  using assms by (simp add: take_at_def checked_add_usize_def get_slice_def)

lemma key_at_ok:
  assumes "at + 18 \<le> length body" "length body < 2 ^ 64"
  shows "key_at body at = Ok (key_decode (take 18 (drop at body)), at + 18)"
  using assms by (simp add: key_at_def take_at_ok KEY_ENCODED_LEN_def)

lemma length_encode_row [simp]: "length (encode_row b) = 61"
  by (simp add: encode_row_def)

lemma length_encode_rows [simp]: "length (concat (map encode_row bs)) = 61 * length bs"
  by (induction bs) auto

lemma row_at_encode_row:
  assumes "at + 61 \<le> length body" "length body < 2 ^ 64" "take 61 (drop at body) = encode_row b"
  shows "row_at body at = Ok (b, at + 61)"
proof -
  have part: "take n (drop (at + i) body) = take n (drop i (encode_row b))"
    if "i + n \<le> 61" for i n
  proof -
    have "take n (drop i (take 61 (drop at body))) = take n (drop (at + i) body)"
      using that by (simp add: drop_take min_def add.commute)
    with assms(3) show ?thesis by simp
  qed
  have "key_at body at = Ok (lb_first_key b, at + 18)"
    using part [of 0 18] assms(1,2) by (simp add: key_at_ok encode_row_def)
  moreover have "key_at body (at + 18) = Ok (lb_last_key b, at + 36)"
    using part [of 18 18] assms(1,2) by (simp add: key_at_ok encode_row_def)
  moreover have "take_at body (at + 36) 25 =
      Ok (to_le (lb_offset b) @ to_le (lb_len b) @ to_le (lb_raw_len b) @ to_le (lb_entries b) @
          to_le (lb_crc b) @ [lb_enc b], at + 61)"
    using part [of 36 25] assms(1,2) by (simp add: take_at_ok encode_row_def)
  ultimately show ?thesis
    by (simp add: row_at_def layer_consts nth_append)
qed

lemma row_not_bad:
  assumes "ab_ok a" "off < 2 ^ 64"
    and "blocks \<noteq> [] \<longrightarrow> follows kind (lb_last_key (last blocks)) (ab_first a)"
  shows "\<not> row_bad kind (of_nat off) blocks (row ext off a)"
proof -
  note u = unat_row_fields [OF assms(1), of ext off]
  have "lb_entries (row ext off a) \<noteq> 0"
    using u(3) assms(1) by (auto simp: ab_ok_def)
  moreover have "\<not> lb_raw_len (row ext off a) > MAX_BLOCK_RAW_LEN"
    using u(2) assms(1) by (simp add: ab_ok_def word_less_nat_alt)
  moreover have "blocks = [] \<or> \<not> overlaps kind (row ext off a) (last blocks)"
    using assms(3) by (auto simp: overlaps_def follows_def row_def split: layer_kind.splits)
  ultimately show ?thesis
    using assms(1) by (auto simp: row_bad_def row_def ab_ok_def pack_def ENC_RAW_def ENC_LZ4_def)
qed

lemma parse_rows_rows:
  assumes "list_all ab_ok as" "chained kind p as"
    and "drop at body = concat (map encode_row (rows ext off as)) @ post"
    and "at \<le> length body" "length body < 2 ^ 64"
    and "off + length (stored_all ext as) < 2 ^ 64"
    and "p = (if blocks = [] then None else Some (lb_last_key (last blocks)))"
  shows "parse_rows kind body (length as) (at, of_nat off, s, blocks) =
    Ok (at + 61 * length as, of_nat (off + length (stored_all ext as)),
        s + of_nat (sum_list (map ab_count as)), blocks @ rows ext off as)"
  using assms
proof (induction as arbitrary: p at off s blocks)
  case Nil
  then show ?case by simp
next
  case (Cons a as)
  let ?r = "row ext off a"
  let ?off = "off + length (stored ext (ab_raw a))"
  from Cons.prems have a: "ab_ok a" and as: "list_all ab_ok as" by auto
  have len: "at + 61 \<le> length body"
    using arg_cong [OF Cons.prems(3), of length] Cons.prems(4) by simp
  have row: "row_at body at = Ok (?r, at + 61)"
    using Cons.prems(3,5) len by (intro row_at_encode_row) auto
  have ok: "\<not> row_bad kind (of_nat off) blocks ?r"
    using a Cons.prems(2,6,7) by (intro row_not_bad) auto
  have "unat (of_nat off :: u64) + unat (ucast (lb_len ?r) :: u64) = ?off"
    using Cons.prems(6) unat_row_fields(1) [OF a, of ext off]
    by (simp add: unat_of_nat_small unat_ucast_up)
  then have add: "checked_add (of_nat off :: u64) (ucast (lb_len ?r)) = Some (of_nat ?off)"
    using Cons.prems(6) unat_row_fields(1) [OF a, of ext off]
    by (auto simp: checked_add_def word_unat_eq_iff unat_word_ariths unat_of_nat_small)
  have cnt: "(ucast (lb_entries ?r) :: u64) = of_nat (ab_count a)"
    using unat_row_fields(3) [OF a, of ext off] a
    by (simp add: word_unat_eq_iff unat_ucast_up unat_of_nat_small ab_ok_def)
  have drop: "drop (at + 61) body = concat (map encode_row (rows ext ?off as)) @ post"
    using arg_cong [OF Cons.prems(3), of "drop 61"] by (simp add: add.commute)
  have "parse_rows kind body (length as)
      (at + 61, of_nat ?off, s + of_nat (ab_count a), blocks @ [?r]) =
    Ok (at + 61 + 61 * length as, of_nat (?off + length (stored_all ext as)),
        s + of_nat (ab_count a) + of_nat (sum_list (map ab_count as)),
        (blocks @ [?r]) @ rows ext ?off as)"
    using Cons.prems drop len as
    by (intro Cons.IH [where p = "Some (ab_last a)"]) (auto simp: row_def)
  with row ok add cnt show ?case
    by (simp add: add.assoc)
qed

definition footer_of ::
  "externals \<Rightarrow> layer_kind \<Rightarrow> ablock list \<Rightarrow> bloom \<Rightarrow> lsn \<Rightarrow> lsn \<Rightarrow> layer_footer" where
  "footer_of ext kind as bl lo hi =
     \<lparr>lf_kind = kind, lf_min_key = ab_first (hd as), lf_max_key = ab_last (last as),
      lf_min_lsn = lo, lf_max_lsn = hi, lf_entry_count = of_nat (sum_list (map ab_count as)),
      lf_blocks = rows ext LAYER_HEADER_LEN as, lf_bloom = bl\<rparr>"

definition shell_ok :: "layer_kind \<Rightarrow> ablock list \<Rightarrow> bloom \<Rightarrow> lsn \<Rightarrow> lsn \<Rightarrow> bool" where
  "shell_ok kind as bl lo hi \<longleftrightarrow>
     as \<noteq> [] \<and> list_all ab_ok as \<and> chained kind None as \<and> lo \<le> hi \<and> from_bits (bits bl) = Some bl"

lemma first_last_rows:
  assumes "as \<noteq> []"
  shows "rows ext off as \<noteq> []"
    and "lb_first_key (hd (rows ext off as)) = ab_first (hd as)"
    and "lb_last_key (last (rows ext off as)) = ab_last (last as)"
proof -
  show "rows ext off as \<noteq> []"
    using assms by (cases as) auto
  show "lb_first_key (hd (rows ext off as)) = ab_first (hd as)"
    using assms by (cases as) (auto simp: row_def)
  obtain bs a where "as = bs @ [a]"
    using assms by (metis rev_exhaust)
  then show "lb_last_key (last (rows ext off as)) = ab_last (last as)"
    by (simp add: rows_append row_def)
qed

lemma length_encode_footer:
  "length (encode_footer f) = 68 + 61 * length (lf_blocks f) + length (bits (lf_bloom f))"
  by (simp add: encode_footer_def)

lemma parse_footer_body_encode:
  assumes ok: "shell_ok kind as bl lo hi"
    and small: "length (encode_footer (footer_of ext kind as bl lo hi)) < 2 ^ 32"
    and fits: "8 + length (stored_all ext as) < 2 ^ 64"
  shows "parse_footer_body kind (encode_footer (footer_of ext kind as bl lo hi))
      (of_nat (8 + length (stored_all ext as))) = Ok (footer_of ext kind as bl lo hi)"
proof -
  let ?f = "footer_of ext kind as bl lo hi"
  let ?rs = "rows ext 8 as"
  define body where "body = encode_footer ?f"
  have body: "body = key_encode (ab_first (hd as)) @ key_encode (ab_last (last as)) @ to_le lo @
      to_le hi @ to_le (of_nat (sum_list (map ab_count as)) :: u64) @
      to_le (of_nat (length as) :: u32) @ concat (map encode_row ?rs) @
      to_le (of_nat (length (bits bl)) :: u32) @ bits bl"
    by (simp add: body_def encode_footer_def footer_of_def LAYER_HEADER_LEN_def)
  have len: "length body = 68 + 61 * length as + length (bits bl)"
    by (simp add: body)
  have lt: "length body < 2 ^ 64" "length as < 2 ^ 32" "length (bits bl) < 2 ^ 32"
    using small len by (simp_all add: body_def [symmetric])
  have heads: "key_at body 0 = Ok (ab_first (hd as), 18)"
    "key_at body 18 = Ok (ab_last (last as), 36)"
    "take_at body 36 8 = Ok (to_le lo, 44)"
    "take_at body 44 8 = Ok (to_le hi, 52)"
    "take_at body 52 8 = Ok (to_le (of_nat (sum_list (map ab_count as)) :: u64), 60)"
    "take_at body 60 4 = Ok (to_le (of_nat (length as) :: u32), 64)"
    using len lt(1) by (simp_all add: key_at_ok take_at_ok) (simp_all add: body)
  have rows: "parse_rows kind body (length as) (64, 8, 0, []) =
      Ok (64 + 61 * length as, of_nat (8 + length (stored_all ext as)),
          of_nat (sum_list (map ab_count as)), ?rs)"
    using parse_rows_rows [of as kind None 64 body ext 8
        "to_le (of_nat (length (bits bl)) :: u32) @ bits bl" "[]" 0] ok len lt fits
    by (simp add: shell_ok_def body)
  have tail: "take_at body (64 + 61 * length as) 4 =
      Ok (to_le (of_nat (length (bits bl)) :: u32), 68 + 61 * length as)"
    "take_at body (68 + 61 * length as) (length (bits bl)) = Ok (bits bl, length body)"
    using len lt(1) by (simp_all add: take_at_ok) (simp_all add: body)
  have cnt: "unat (of_nat (length as) :: u32) = length as"
    "unat (of_nat (length (bits bl)) :: u32) = length (bits bl)"
    using lt by (simp_all add: unat_of_nat_small)
  have "length as \<noteq> 0" "\<not> (length body - 64) div 61 < length as"
    using ok len by (auto simp: shell_ok_def)
  then show ?thesis
    unfolding body_def [symmetric] parse_footer_body_def
    using ok len heads rows tail cnt first_last_rows [of as ext 8]
    by (simp add: shell_ok_def BLOCK_META_LEN_def KEY_ENCODED_LEN_def LAYER_HEADER_LEN_def
        footer_of_def Let_def not_less)
qed

section \<open>The whole object\<close>

definition object_of :: "externals \<Rightarrow> layer_kind \<Rightarrow> ablock list \<Rightarrow> layer_footer \<Rightarrow> bytes" where
  "object_of ext kind as f =
     header kind @ stored_all ext as @ encode_footer f @
     to_le (of_nat (length (encode_footer f)) :: u32) @
     to_le (crc32c_append ext (crc32c ext (header kind)) (encode_footer f)) @ LAYER_FOOTER_MAGIC"

lemma length_header [simp]: "length (header kind) = 8"
  by (simp add: header_def LAYER_MAGIC_def)

lemma length_footer_magic [simp]: "length LAYER_FOOTER_MAGIC = 4"
  by (simp add: LAYER_FOOTER_MAGIC_def)

lemma length_object_of:
  "length (object_of ext kind as f) = 20 + length (stored_all ext as) + length (encode_footer f)"
  by (simp add: object_of_def)

lemma parse_header_header [simp]: "parse_header (header kind) = Ok kind"
  by (cases kind) (simp_all add: parse_header_def header_def layer_consts nth_append Let_def)

lemma layer_finish_object:
  assumes "as \<noteq> []" "length (encode_footer (footer_of ext kind as bl lo hi)) < 2 ^ 32"
    and "cnt = of_nat (sum_list (map ab_count as))"
  shows "layer_finish ext (header kind @ stored_all ext as) kind (rows ext 8 as) bl lo hi cnt =
    Ok (object_of ext kind as (footer_of ext kind as bl lo hi), footer_of ext kind as bl lo hi)"
proof -
  let ?f = "footer_of ext kind as bl lo hi"
  have f: "\<lparr>lf_kind = kind, lf_min_key = lb_first_key (hd (rows ext 8 as)),
      lf_max_key = lb_last_key (last (rows ext 8 as)), lf_min_lsn = lo, lf_max_lsn = hi,
      lf_entry_count = cnt, lf_blocks = rows ext 8 as, lf_bloom = bl\<rparr> = ?f"
    using first_last_rows [OF assms(1), of ext 8] assms(3)
    by (simp add: footer_of_def LAYER_HEADER_LEN_def)
  have n: "unat (of_nat (length (encode_footer ?f)) :: u32) = length (encode_footer ?f)"
    using assms(2) by (simp add: unat_of_nat_small)
  show ?thesis
    using first_last_rows(1) [OF assms(1), of ext 8]
    by (simp add: layer_finish_def f Let_def n slice_def LAYER_HEADER_LEN_def object_of_def)
qed

lemma layer_finish_Ok:
  assumes "blocks \<noteq> []"
  shows "\<exists>buf' f. layer_finish ext buf kind blocks bl lo hi cnt = Ok (buf', f) \<and>
    length buf' = length buf + length (encode_footer f) + 12 \<and> lf_blocks f = blocks \<and>
    lf_bloom f = bl"
proof -
  have "unat (of_nat n :: u32) \<le> n" for n
    by (simp add: unat_of_nat take_bit_eq_mod)
  moreover have "4 \<le> n + length (encode_footer f)" for f n
    by (simp add: length_encode_footer)
  ultimately show ?thesis
    using assms by (auto simp: layer_finish_def Let_def slice_def LAYER_HEADER_LEN_def trans_le_add1)
qed

lemma layer_finish_length:
  assumes "layer_finish ext buf kind blocks bl lo hi cnt = Ok (buf', f)"
  shows "length buf' = length buf + length (encode_footer f) + 12" "lf_blocks f = blocks"
    "lf_bloom f = bl"
proof -
  have "blocks \<noteq> []" using assms by (auto simp: layer_finish_def)
  from layer_finish_Ok [OF this, of ext buf kind bl lo hi cnt] assms
  show "length buf' = length buf + length (encode_footer f) + 12" "lf_blocks f = blocks"
    "lf_bloom f = bl"
    by auto
qed

lemma parse_shell_object:
  assumes ok: "shell_ok kind as bl lo hi"
    and f: "f = footer_of ext kind as bl lo hi"
    and small: "length (object_of ext kind as f) < 2 ^ 32"
  shows "parse_shell ext (object_of ext kind as f) = Ok (f, 8 + length (stored_all ext as))"
proof -
  define buf where "buf = object_of ext kind as f"
  define n where "n = length (encode_footer f)"
  define m where "m = length (stored_all ext as)"
  define crc where "crc = crc32c_append ext (crc32c ext (header kind)) (encode_footer f)"
  have buf: "buf = header kind @ stored_all ext as @ encode_footer f @ to_le (of_nat n :: u32) @
      to_le crc @ LAYER_FOOTER_MAGIC"
    by (simp add: buf_def object_of_def n_def crc_def)
  define k where "k = m + n"
  have len: "length buf = 20 + k"
    by (simp add: buf n_def m_def k_def)
  have n32: "n < 2 ^ 32" "8 + m < 2 ^ 64"
    using small len by (simp_all add: buf_def k_def)
  have un: "unat (of_nat n :: u32) = n"
    using n32 by (simp add: unat_of_nat_small)
  have slices:
    "slice buf 0 8 = (Ok (header kind) :: (_, layer_decode_error) outcome)"
    "slice buf (16 + k) (20 + k) = (Ok LAYER_FOOTER_MAGIC :: (_, layer_decode_error) outcome)"
    "slice buf (8 + k) (12 + k) = (Ok (to_le (of_nat n :: u32)) :: (_, layer_decode_error) outcome)"
    "slice buf (12 + k) (16 + k) = (Ok (to_le crc) :: (_, layer_decode_error) outcome)"
    "slice buf (8 + m) (8 + k) = (Ok (encode_footer f) :: (_, layer_decode_error) outcome)"
    by (simp_all add: slice_def len k_def) (simp_all add: buf n_def m_def)
  have body: "parse_footer_body kind (encode_footer f) (of_nat (8 + m)) = Ok f"
    unfolding m_def f using ok n32 by (intro parse_footer_body_encode) (auto simp: n_def m_def f)
  have start: "8 + k - n = 8 + m" "n \<le> k"
    by (simp_all add: k_def)
  have "parse_shell ext buf = Ok (f, 8 + m)"
    unfolding parse_shell_def
    using slices body start
    by (simp add: len LAYER_HEADER_LEN_def TAIL_LEN_def Let_def un flip: crc_def)
  then show ?thesis
    by (simp add: buf_def m_def)
qed

text \<open>The same footer from any suffix of the object that holds the footer and the tail.\<close>

lemma read_footer_suffix_object:
  assumes ok: "shell_ok kind as bl lo hi"
    and f: "f = footer_of ext kind as bl lo hi"
    and small: "length (object_of ext kind as f) < 2 ^ 32"
    and n: "n \<le> 8 + length (stored_all ext as)"
  shows "read_layer_footer_suffix ext kind (drop n (object_of ext kind as f))
      (of_nat (length (object_of ext kind as f))) = Ok f"
proof -
  define k where "k = length (encode_footer f)"
  define pre where "pre = drop n (header kind @ stored_all ext as)"
  define p where "p = length pre"
  define crc where "crc = crc32c_append ext (crc32c ext (header kind)) (encode_footer f)"
  define suf where "suf = drop n (object_of ext kind as f)"
  have suf: "suf = pre @ encode_footer f @ to_le (of_nat k :: u32) @ to_le crc @ LAYER_FOOTER_MAGIC"
    using n by (simp add: suf_def object_of_def pre_def k_def crc_def)
  have len: "length suf = p + k + 12"
    by (simp add: suf p_def k_def)
  define L where "L = length (object_of ext kind as f)"
  have L: "L = 20 + length (stored_all ext as) + k" "p \<le> 8 + length (stored_all ext as)"
    by (simp_all add: L_def length_object_of k_def p_def pre_def)
  have L32: "L < 2 ^ 32" using small by (simp add: L_def)
  have uL: "unat (of_nat L :: u64) = L"
    using L32 by (simp add: unat_of_nat_small)
  have "8 \<le> L" using L(1) by simp
  then have uL8: "unat (of_nat L - 8 :: u64) = L - 8"
    by (simp add: unat_sub word_le_nat_alt uL)
  have start: "(of_nat L :: u64) - of_nat (k + 12) = of_nat (8 + length (stored_all ext as))"
    using L by simp
  have slices:
    "slice suf (p + k + 8) (p + k + 12) = (Ok LAYER_FOOTER_MAGIC :: (_, layer_decode_error) outcome)"
    "slice suf (p + k) (p + k + 4) = (Ok (to_le (of_nat k :: u32)) :: (_, layer_decode_error) outcome)"
    "slice suf (p + k + 4) (p + k + 8) = (Ok (to_le crc) :: (_, layer_decode_error) outcome)"
    "slice suf p (p + k) = (Ok (encode_footer f) :: (_, layer_decode_error) outcome)"
    by (simp_all add: slice_def len) (simp_all add: suf p_def k_def)
  have uk: "unat (of_nat k :: u32) = k"
    using L L32 by (simp add: unat_of_nat_small)
  have body: "parse_footer_body kind (encode_footer f) (of_nat (8 + length (stored_all ext as))) = Ok f"
    unfolding f using ok L L32 by (intro parse_footer_body_encode) (auto simp: k_def f)
  have arith: "p + k + 12 - 4 = p + k + 8" "p + k + 12 - TAIL_LEN = p + k"
    "p + k + 12 - (k + TAIL_LEN) = p"
    by (simp_all add: TAIL_LEN_def)
  have need: "checked_add_usize k TAIL_LEN = Some (k + TAIL_LEN)"
    using L L32 by (simp add: checked_add_usize_def TAIL_LEN_def)
  show ?thesis
    unfolding suf_def [symmetric] L_def [symmetric] read_layer_footer_suffix_def
    using slices body L uL uL8 start need
    by (simp add: len Let_def arith uk crc_def [symmetric] LAYER_HEADER_LEN_def slice_def [of "header kind"])
       (simp add: TAIL_LEN_def)
qed

section \<open>Unpacking a block\<close>

lemma block_raw_row:
  assumes "ab_ok a" "lz4_faithful ext"
  shows "block_raw ext (stored ext (ab_raw a)) (row ext off a) = Ok (ab_raw a)"
proof -
  note u = unat_row_fields [OF assms(1), of ext off]
  have max: "\<not> lb_raw_len (row ext off a) > MAX_BLOCK_RAW_LEN"
    using u(2) assms(1) by (simp add: ab_ok_def word_less_nat_alt)
  have crc: "lb_crc (row ext off a) = crc32c ext (stored ext (ab_raw a))"
    and enc: "lb_enc (row ext off a) = fst (pack ext (ab_raw a))"
    by (simp_all add: row_def)
  show ?thesis
  proof (cases "length (lz4_compress ext (ab_raw a)) < length (ab_raw a)")
    case True
    then show ?thesis
      using u max crc enc assms(2)
      by (simp add: block_raw_def pack_def lz4_faithful_def ENC_RAW_def ENC_LZ4_def)
  next
    case False
    then have "lb_len (row ext off a) = lb_raw_len (row ext off a)"
      by (simp add: row_def pack_def)
    with False show ?thesis
      using u max crc enc by (simp add: block_raw_def pack_def)
  qed
qed

text \<open>The byte range of each row is where its stored bytes are.\<close>

lemma block_bytes_row:
  assumes "ab_ok a" "off + length (stored ext (ab_raw a)) < 2 ^ 64"
    and "length pre = off"
  shows "block_bytes (pre @ stored ext (ab_raw a) @ post) (row ext off a) = Ok (stored ext (ab_raw a))"
proof -
  have o: "unat (lb_offset (row ext off a)) = off"
    using assms(2) by (simp add: row_def unat_of_nat_small)
  moreover have "unat (lb_offset (row ext off a) + ucast (lb_len (row ext off a))) =
      off + length (stored ext (ab_raw a))"
    using assms(2) o unat_row_fields(1) [OF assms(1), of ext off]
    by (simp add: unat_word_ariths unat_ucast_up)
  ultimately show ?thesis
    using assms(3) by (simp add: block_bytes_def slice_def)
qed

end
