(* ===== verification/Layer_Safety.thy ===== *)
theory Layer_Safety
  imports Layer_Decode
begin

text \<open>
  The decoders on arbitrary bytes. Whatever a stored object holds, reading its
  footer, its blocks or all of it ends in entries or in an error and never in a
  panic: every index row that passes the checks names a byte range before the
  footer. What a decoder accepts is in order: the index rows chain, the entries
  ascend, and the count in the footer is the number of entries.
\<close>

section \<open>Accepted index rows\<close>

definition row_within :: "nat \<Rightarrow> nat \<Rightarrow> layer_block \<Rightarrow> bool" where
  "row_within lo hi b \<longleftrightarrow>
     lo \<le> unat (lb_offset b) \<and> unat (lb_offset b) + unat (lb_len b) \<le> hi"

definition row_order :: "layer_kind \<Rightarrow> layer_block \<Rightarrow> layer_block \<Rightarrow> bool" where
  "row_order kind a b \<longleftrightarrow> \<not> overlaps kind b a"

definition index_ok :: "layer_kind \<Rightarrow> layer_block list \<Rightarrow> bool" where
  "index_ok kind bs \<longleftrightarrow>
     (\<forall>b \<in> set bs. lb_first_key b \<le> lb_last_key b \<and> lb_entries b \<noteq> 0) \<and>
     sorted_wrt (row_order kind) bs"

lemma row_order_trans:
  "row_order kind a b \<Longrightarrow> lb_first_key b \<le> lb_last_key b \<Longrightarrow> row_order kind b c \<Longrightarrow>
   row_order kind a c"
  by (cases kind) (auto simp: row_order_def overlaps_def)

lemma index_ok_snoc:
  assumes "index_ok kind bs" "\<not> row_bad kind x bs b"
  shows "index_ok kind (bs @ [b])"
proof -
  have b: "lb_first_key b \<le> lb_last_key b" "lb_entries b \<noteq> 0"
    "bs \<noteq> [] \<Longrightarrow> row_order kind (last bs) b"
    using assms(2) by (auto simp: row_bad_def row_order_def)
  have "row_order kind a b" if "a \<in> set bs" for a
  proof (cases bs rule: rev_cases)
    case Nil
    with that show ?thesis by simp
  next
    case (snoc pre l)
    with assms(1) b(3) have "row_order kind l b" "lb_first_key l \<le> lb_last_key l"
      "a = l \<or> row_order kind a l"
      using that by (auto simp: index_ok_def sorted_wrt_append)
    then show ?thesis by (auto intro: row_order_trans)
  qed
  with assms(1) b(1,2) show ?thesis
    by (auto simp: index_ok_def sorted_wrt_append)
qed

lemma row_within_mono: "row_within lo hi b \<Longrightarrow> lo' \<le> lo \<Longrightarrow> hi \<le> hi' \<Longrightarrow> row_within lo' hi' b"
  by (auto simp: row_within_def)

lemma parse_rows_accepts:
  assumes "parse_rows kind body n (at, x, s, bs) = Ok (at', x', s', bs')"
    and "index_ok kind bs"
  shows "index_ok kind bs'" "length bs' = length bs + n" "unat x \<le> unat x'"
    "\<exists>new. bs' = bs @ new \<and> (\<forall>b \<in> set new. row_within (unat x) (unat x') b)"
    "s' = s + sum_list (map (\<lambda>b. ucast (lb_entries b)) (drop (length bs) bs'))"
proof -
  have "index_ok kind bs' \<and> length bs' = length bs + n \<and> unat x \<le> unat x' \<and>
    (\<exists>new. bs' = bs @ new \<and> (\<forall>b \<in> set new. row_within (unat x) (unat x') b) \<and>
      s' = s + sum_list (map (\<lambda>b. ucast (lb_entries b)) new))"
    using assms
  proof (induction n arbitrary: at x s bs)
    case 0
    then show ?case by auto
  next
    case (Suc n)
    from Suc.prems(1) obtain b at1 x1 where ok: "\<not> row_bad kind x bs b"
      and x1: "checked_add x (ucast (lb_len b)) = Some x1"
      and rest: "parse_rows kind body n (at1, x1, s + ucast (lb_entries b), bs @ [b]) =
        Ok (at', x', s', bs')"
      by (auto simp: obind_Ok_iff split: prod.splits if_splits)
    have ux: "unat x1 = unat x + unat (lb_len b)"
      using checked_add_Some [OF x1] by (simp add: unat_ucast_up)
    have off: "lb_offset b = x" using ok by (simp add: row_bad_def)
    from Suc.IH [OF rest index_ok_snoc [OF Suc.prems(2) ok]]
    obtain new where new: "bs' = bs @ b # new" "\<forall>b \<in> set new. row_within (unat x1) (unat x') b"
      "s' = s + ucast (lb_entries b) + sum_list (map (\<lambda>b. ucast (lb_entries b)) new)"
      and more: "index_ok kind bs'" "length bs' = length bs + Suc n" "unat x1 \<le> unat x'"
      by auto
    have "\<forall>c \<in> set (b # new). row_within (unat x) (unat x') c"
      using new(2) more(3) ux off row_within_mono [of "unat x1" "unat x'" _ "unat x" "unat x'"]
      by (auto simp: row_within_def)
    then show ?case
      using new more ux by (auto simp: add.assoc intro!: exI [of _ "b # new"])
  qed
  then show "index_ok kind bs'" "length bs' = length bs + n" "unat x \<le> unat x'"
    "\<exists>new. bs' = bs @ new \<and> (\<forall>b \<in> set new. row_within (unat x) (unat x') b)"
    "s' = s + sum_list (map (\<lambda>b. ucast (lb_entries b)) (drop (length bs) bs'))"
    by auto
qed

lemma take_at_not_Panic [simp]: "take_at body at n \<noteq> Panic"
  by (auto simp: take_at_def obind_Panic_iff)

lemma row_at_not_Panic [simp]: "row_at body at \<noteq> Panic"
  by (auto simp: row_at_def key_at_def obind_Panic_iff)

lemma parse_rows_not_Panic [simp]: "parse_rows kind body n st \<noteq> Panic"
  by (induction kind body n st rule: parse_rows.induct) (auto simp: obind_Panic_iff)

lemma index_ok_Nil [simp]: "index_ok kind []"
  by (simp add: index_ok_def)

definition footer_ok :: "nat \<Rightarrow> layer_footer \<Rightarrow> bool" where
  "footer_ok hi f \<longleftrightarrow>
     lf_blocks f \<noteq> [] \<and> index_ok (lf_kind f) (lf_blocks f) \<and>
     (\<forall>b \<in> set (lf_blocks f). row_within LAYER_HEADER_LEN hi b) \<and>
     lf_min_key f = lb_first_key (hd (lf_blocks f)) \<and>
     lf_max_key f = lb_last_key (last (lf_blocks f)) \<and>
     lf_min_lsn f \<le> lf_max_lsn f \<and>
     lf_entry_count f = sum_list (map (\<lambda>b. ucast (lb_entries b)) (lf_blocks f))"

lemma parse_footer_body_accepts:
  assumes "parse_footer_body kind body start = Ok f"
  shows "lf_kind f = kind" "footer_ok (unat start) f"
proof -
  from assms obtain at n at' es bs where rows: "parse_rows kind body n (at, 8, 0, []) = Ok (at', start, es, bs)"
    and f: "lf_kind f = kind" "lf_blocks f = bs" "lf_entry_count f = es" "bs \<noteq> []"
      "lf_min_key f = lb_first_key (hd bs)" "lf_max_key f = lb_last_key (last bs)"
      "lf_min_lsn f \<le> lf_max_lsn f"
    by (auto simp: parse_footer_body_def obind_Ok_iff Let_def LAYER_HEADER_LEN_def not_less
        split: if_splits)
  then show "lf_kind f = kind" "footer_ok (unat start) f"
    using parse_rows_accepts [OF rows index_ok_Nil]
    by (auto simp: footer_ok_def LAYER_HEADER_LEN_def)
qed

lemma take_at_length: "take_at body at n = Ok (s, at') \<Longrightarrow> length s = n"
  by (auto simp: take_at_def obind_Ok_iff get_slice_def checked_add_usize_def split: if_splits)

text \<open>A footer that parses has a filter that can be asked: its length is a \<open>u32\<close> and \<open>from_bits\<close> took it.\<close>

lemma parse_footer_body_legal:
  assumes "parse_footer_body kind body start = Ok f"
  shows "legal (lf_bloom f)"
proof -
  from assms obtain bs at at' and n :: u32 where "take_at body at (unat n) = Ok (bs, at')"
    "from_bits bs = Some (lf_bloom f)"
    by (auto simp: parse_footer_body_def obind_Ok_iff Let_def split: if_splits)
  moreover have "unat n < 2 ^ 32" using unsigned_less [of n] by simp
  ultimately show ?thesis
    by (intro from_bits_legal) (auto dest: take_at_length)
qed

lemma read_layer_footer_suffix_legal:
  "read_layer_footer_suffix ext kind suffix n = Ok f \<Longrightarrow> legal (lf_bloom f)"
  by (auto simp: read_layer_footer_suffix_def obind_Ok_iff Let_def split: if_splits
      dest: parse_footer_body_legal)

lemma parse_footer_body_not_Panic [simp]: "parse_footer_body kind body start \<noteq> Panic"
  by (auto simp: parse_footer_body_def key_at_def obind_Panic_iff Let_def
      dest: parse_rows_accepts(2))

section \<open>The shell\<close>

lemma parse_header_not_Panic [simp]: "parse_header hdr \<noteq> Panic"
  by (simp add: parse_header_def Let_def)

lemma parse_shell_not_Panic [simp]: "parse_shell ext buf \<noteq> Panic"
  by (auto simp: parse_shell_def obind_Panic_iff Let_def slice_def LAYER_HEADER_LEN_def
      TAIL_LEN_def split: if_splits)

lemma parse_shell_accepts:
  assumes "parse_shell ext buf = Ok (f, start)" "length buf < 2 ^ 64"
  shows "footer_ok start f" "start \<le> length buf"
proof -
  from assms(1) obtain kind body where body: "parse_footer_body kind body (of_nat start) = Ok f"
    and start: "start \<le> length buf"
    by (auto simp: parse_shell_def obind_Ok_iff Let_def split: if_splits)
  then show "footer_ok start f" "start \<le> length buf"
    using parse_footer_body_accepts(2) [OF body] assms(2)
    by (simp_all add: unat_of_nat_small)
qed

lemma read_layer_footer_suffix_not_Panic [simp]:
  "read_layer_footer_suffix ext kind suffix n \<noteq> Panic"
proof -
  have "length (header kind) = 8" by (simp add: header_def LAYER_MAGIC_def)
  then show ?thesis
    by (auto simp: read_layer_footer_suffix_def obind_Panic_iff Let_def slice_def TAIL_LEN_def
        LAYER_HEADER_LEN_def checked_add_usize_def split: if_splits)
qed

text \<open>Every accepted row names bytes of the object, so slicing them cannot panic.\<close>

lemma block_bytes_accepted:
  assumes "footer_ok hi f" "hi \<le> length buf" "length buf < 2 ^ 64" "b \<in> set (lf_blocks f)"
  shows "block_bytes buf b = Ok (take (unat (lb_len b)) (drop (unat (lb_offset b)) buf))"
proof -
  have in_range: "unat (lb_offset b) + unat (lb_len b) \<le> length buf"
    using assms by (auto simp: footer_ok_def row_within_def)
  moreover have "unat (lb_offset b + ucast (lb_len b)) = unat (lb_offset b) + unat (lb_len b)"
    using in_range assms(3) by (simp add: unat_word_ariths unat_ucast_up)
  ultimately show ?thesis
    by (simp add: block_bytes_def slice_def)
qed

section \<open>Blocks\<close>

lemma block_raw_not_Panic [simp]: "block_raw ext bs meta \<noteq> Panic"
  by (simp add: block_raw_def obind_Panic_iff)

lemma delta_entries_not_Panic [simp]: "delta_entries raw n at es \<noteq> Panic"
  by (induction raw n at es rule: delta_entries.induct) (auto simp: obind_Panic_iff Let_def)

lemma image_entries_not_Panic [simp]: "image_entries raw n es \<noteq> Panic"
  by (induction raw n es rule: image_entries.induct) (auto simp: Let_def)

lemma decode_delta_block_not_Panic [simp]: "decode_delta_block ext bs meta \<noteq> Panic"
  by (auto simp: decode_delta_block_def obind_Panic_iff)

lemma decode_image_block_not_Panic [simp]: "decode_image_block ext bs meta \<noteq> Panic"
  by (auto simp: decode_image_block_def obind_Panic_iff)

definition de_pos :: "delta_entry \<Rightarrow> layer_key \<times> lsn" where
  "de_pos e = (de_key e, de_lsn e)"

definition delta_sorted :: "delta_entry list \<Rightarrow> bool" where
  "delta_sorted es \<longleftrightarrow> ascending de_pos es"

lemma delta_sorted_append:
  "delta_sorted (xs @ ys) \<longleftrightarrow>
   delta_sorted xs \<and> delta_sorted ys \<and> (\<forall>x \<in> set xs. \<forall>y \<in> set ys. de_pos x < de_pos y)"
  by (simp add: delta_sorted_def sorted_wrt_append)

lemma delta_sorted_join:
  "delta_sorted xs \<Longrightarrow> delta_sorted ys \<Longrightarrow>
   \<not> (xs \<noteq> [] \<and> ys \<noteq> [] \<and> de_pos (hd ys) \<le> de_pos (last xs)) \<Longrightarrow> delta_sorted (xs @ ys)"
  by (auto simp: delta_sorted_def not_le intro!: ascending_append)

lemma delta_sorted_singleton [simp]: "delta_sorted [e]" "delta_sorted []"
  by (simp_all add: delta_sorted_def)

lemma delta_entries_accepts:
  assumes "delta_entries raw n at es = Ok (at', es')" "delta_sorted es"
  shows "delta_sorted es' \<and> length es' = length es + n"
  using assms
proof (induction n arbitrary: at es)
  case 0
  then show ?case by simp
next
  case (Suc n)
  from Suc.prems(1) obtain e at1 where
    rest: "delta_entries raw n at1 (es @ [e]) = Ok (at', es')"
    and ord: "\<not> (es \<noteq> [] \<and> de_pos e \<le> de_pos (last es))"
    unfolding de_pos_def
    by (auto simp: obind_Ok_iff Let_def simp del: less_eq_prod_simp split: if_splits)
  have "delta_sorted (es @ [e])"
    using Suc.prems(2) ord by (intro delta_sorted_join) auto
  with Suc.IH [OF rest] show ?case by simp
qed

lemma image_entries_accepts:
  assumes "image_entries raw n es = Ok es'" "ascending ie_key es"
  shows "ascending ie_key es' \<and> length es' = length es + n"
  using assms
proof (induction n arbitrary: raw es)
  case 0
  then show ?case by simp
next
  case (Suc n)
  from Suc.prems(1) obtain e raw1 where
    rest: "image_entries raw1 n (es @ [e]) = Ok es'"
    and ord: "\<not> (es \<noteq> [] \<and> ie_key e \<le> ie_key (last es))"
    by (auto simp: Let_def split: if_splits)
  have "ascending ie_key (es @ [e])"
    using Suc.prems(2) ord by (intro ascending_append) auto
  with Suc.IH [OF rest] show ?case by simp
qed

text \<open>What an accepted block holds: as many entries as its row says, ascending,
  from the row's first key to its last.\<close>

definition block_ok :: "('a \<Rightarrow> layer_key) \<Rightarrow> layer_block \<Rightarrow> 'a list \<Rightarrow> bool" where
  "block_ok key b es \<longleftrightarrow>
     es \<noteq> [] \<and> length es = unat (lb_entries b) \<and>
     key (hd es) = lb_first_key b \<and> key (last es) = lb_last_key b \<and>
     (\<forall>e \<in> set es. lb_first_key b \<le> key e \<and> key e \<le> lb_last_key b)"

lemma first_last_key_of:
  "first_key_of f xs = Some a \<longleftrightarrow> xs \<noteq> [] \<and> f (hd xs) = a"
  "last_key_of f xs = Some b \<longleftrightarrow> xs \<noteq> [] \<and> f (last xs) = b"
  by (auto simp: first_key_of_def last_key_of_def split: list.splits)

lemma delta_sorted_keys:
  assumes "delta_sorted es" "e \<in> set es"
  shows "de_key (hd es) \<le> de_key e" "de_key e \<le> de_key (last es)"
proof -
  have "de_pos (hd es) \<le> de_pos e"
    using assms by (cases es) (auto simp: delta_sorted_def intro: less_imp_le)
  then show "de_key (hd es) \<le> de_key e" by (auto simp: de_pos_def)
  have "de_pos e \<le> de_pos (last es)"
    using assms by (auto simp: delta_sorted_def intro: ascending_le_last)
  then show "de_key e \<le> de_key (last es)" by (auto simp: de_pos_def)
qed

lemma decode_delta_block_accepts:
  assumes "decode_delta_block ext bs meta = Ok es"
  shows "delta_sorted es" "block_ok de_key meta es"
proof -
  from assms obtain raw at where es: "delta_entries raw (unat (lb_entries meta)) 0 [] = Ok (at, es)"
    and keys: "first_key_of de_key es = Some (lb_first_key meta)"
      "last_key_of de_key es = Some (lb_last_key meta)"
    by (auto simp: decode_delta_block_def obind_Ok_iff split: if_splits)
  show sorted: "delta_sorted es"
    using delta_entries_accepts [OF es] by simp
  show "block_ok de_key meta es"
    using delta_entries_accepts [OF es] keys delta_sorted_keys [OF sorted]
    by (auto simp: block_ok_def first_last_key_of)
qed

lemma decode_image_block_accepts:
  assumes "decode_image_block ext bs meta = Ok es"
  shows "ascending ie_key es" "block_ok ie_key meta es"
proof -
  from assms obtain raw where es: "image_entries raw (unat (lb_entries meta)) [] = Ok es"
    and keys: "first_key_of ie_key es = Some (lb_first_key meta)"
      "last_key_of ie_key es = Some (lb_last_key meta)"
    by (auto simp: decode_image_block_def obind_Ok_iff split: if_splits)
  show sorted: "ascending ie_key es"
    using image_entries_accepts [OF es] by simp
  have "ie_key (hd es) \<le> ie_key e" if "e \<in> set es" for e
    using sorted that by (cases es) (auto intro: less_imp_le)
  then show "block_ok ie_key meta es"
    using image_entries_accepts [OF es] keys ascending_le_last [OF sorted]
    by (auto simp: block_ok_def first_last_key_of)
qed

section \<open>Whole layers\<close>

text \<open>The entries of the blocks a list of rows names.\<close>

definition delta_block_of :: "externals \<Rightarrow> bytes \<Rightarrow> layer_block \<Rightarrow> delta_entry list \<Rightarrow> bool" where
  "delta_block_of ext buf b es \<longleftrightarrow>
     (\<exists>bs. block_bytes buf b = Ok bs \<and> decode_delta_block ext bs b = Ok es)"

definition image_block_of :: "externals \<Rightarrow> bytes \<Rightarrow> layer_block \<Rightarrow> image_entry list \<Rightarrow> bool" where
  "image_block_of ext buf b es \<longleftrightarrow>
     (\<exists>bs. block_bytes buf b = Ok bs \<and> decode_image_block ext bs b = Ok es)"

lemma delta_block_of_ok: "delta_block_of ext buf b es \<Longrightarrow> delta_sorted es \<and> block_ok de_key b es"
  by (auto simp: delta_block_of_def dest: decode_delta_block_accepts)

lemma image_block_of_ok: "image_block_of ext buf b es \<Longrightarrow> ascending ie_key es \<and> block_ok ie_key b es"
  by (auto simp: image_block_of_def dest: decode_image_block_accepts)

lemma decode_delta_blocks_accepts:
  assumes "decode_delta_blocks ext buf i metas acc = Ok es" "delta_sorted acc"
  shows "delta_sorted es \<and>
    (\<exists>bs. es = acc @ concat bs \<and> list_all2 (delta_block_of ext buf) metas bs)"
  using assms
proof (induction metas arbitrary: i acc)
  case Nil
  then show ?case by auto
next
  case (Cons m metas)
  from Cons.prems(1) obtain b where b: "delta_block_of ext buf m b"
    and ord: "\<not> (acc \<noteq> [] \<and> b \<noteq> [] \<and> de_pos (hd b) \<le> de_pos (last acc))"
    and rest: "decode_delta_blocks ext buf (Suc i) metas (acc @ b) = Ok es"
    unfolding de_pos_def delta_block_of_def
    by (auto simp: obind_Ok_iff simp del: less_eq_prod_simp split: if_splits)
  have "delta_sorted (acc @ b)"
    using Cons.prems(2) delta_block_of_ok [OF b] ord by (intro delta_sorted_join) auto
  from Cons.IH [OF rest this] obtain bs where
    "delta_sorted es" "es = acc @ b @ concat bs" "list_all2 (delta_block_of ext buf) metas bs"
    by auto
  with b show ?case by (auto intro!: exI [of _ "b # bs"])
qed

lemma decode_image_blocks_accepts:
  assumes "decode_image_blocks ext buf i metas acc = Ok es"
  shows "\<exists>bs. es = acc @ concat bs \<and> list_all2 (image_block_of ext buf) metas bs"
  using assms
proof (induction metas arbitrary: i acc)
  case Nil
  then show ?case by auto
next
  case (Cons m metas)
  from Cons.prems(1) obtain b where b: "image_block_of ext buf m b"
    and rest: "decode_image_blocks ext buf (Suc i) metas (acc @ b) = Ok es"
    by (auto simp: image_block_of_def obind_Ok_iff)
  from Cons.IH [OF rest] obtain bs where
    "es = acc @ b @ concat bs" "list_all2 (image_block_of ext buf) metas bs"
    by auto
  with b show ?case by (auto intro!: exI [of _ "b # bs"])
qed

lemma decode_blocks_not_Panic:
  assumes "\<And>b. b \<in> set metas \<Longrightarrow> block_bytes buf b \<noteq> Panic"
  shows "decode_delta_blocks ext buf i metas des \<noteq> Panic"
    and "decode_image_blocks ext buf i metas ies \<noteq> Panic"
proof -
  show "decode_delta_blocks ext buf i metas des \<noteq> Panic"
    using assms
    by (induction metas arbitrary: i des) (auto simp: obind_Panic_iff)
  show "decode_image_blocks ext buf i metas ies \<noteq> Panic"
    using assms
    by (induction metas arbitrary: i ies) (auto simp: obind_Panic_iff)
qed

lemma decode_delta_Ok_iff:
  "decode_delta ext buf = Ok (es, f) \<longleftrightarrow>
   (\<exists>start. parse_shell ext buf = Ok (f, start) \<and> lf_kind f = Delta \<and>
     decode_delta_blocks ext buf 0 (lf_blocks f) [] = Ok es)"
  by (auto simp: decode_delta_def obind_Ok_iff check_kind_def split: if_splits)

lemma decode_image_Ok_iff:
  "decode_image ext buf = Ok (es, f) \<longleftrightarrow>
   (\<exists>start. parse_shell ext buf = Ok (f, start) \<and> lf_kind f = Image \<and>
     decode_image_blocks ext buf 0 (lf_blocks f) [] = Ok es)"
  by (auto simp: decode_image_def obind_Ok_iff check_kind_def split: if_splits)

lemma list_all2_block_count:
  assumes "list_all2 (block_ok key) metas bs"
  shows "sum_list (map (\<lambda>b. ucast (lb_entries b)) metas) = (of_nat (length (concat bs)) :: u64)"
  using assms
proof (induction metas bs rule: list_all2_induct)
  case Nil
  then show ?case by simp
next
  case (Cons m ms b bs)
  have "(ucast (lb_entries m) :: u64) = of_nat (length b)"
    using Cons.hyps(1) by (simp add: block_ok_def)
  with Cons show ?case by simp
qed

lemma block_keys_ends:
  assumes "list_all2 (block_ok key) metas bs" "bs \<noteq> []"
  shows "concat bs \<noteq> []" "key (hd (concat bs)) = lb_first_key (hd metas)"
    "key (last (concat bs)) = lb_last_key (last metas)"
proof -
  obtain m ms b bs' where c: "metas = m # ms" "bs = b # bs'" "block_ok key m b"
    using assms by (cases bs) (auto simp: list_all2_Cons2)
  then show "concat bs \<noteq> []" "key (hd (concat bs)) = lb_first_key (hd metas)"
    by (auto simp: block_ok_def)
  obtain m' ms' b' bs'' where l: "metas = ms' @ [m']" "bs = bs'' @ [b']" "block_ok key m' b'"
    using assms by (cases bs rule: rev_cases) (auto simp: list_all2_append2 list_all2_Cons2)
  then show "key (last (concat bs)) = lb_last_key (last metas)"
    by (auto simp: block_ok_def)
qed

lemma image_blocks_ascending:
  assumes "list_all2 (image_block_of ext buf) metas bs" "index_ok Image metas"
  shows "ascending ie_key (concat bs)"
  using assms
proof (induction metas bs rule: list_all2_induct)
  case Nil
  then show ?case by simp
next
  case (Cons m ms b bs)
  have later: "lb_last_key m < ie_key e" if "e \<in> set (concat bs)" for e
  proof -
    from that obtain i where i: "i < length bs" "e \<in> set (bs ! i)"
      by (auto simp: in_set_conv_nth [of _ bs])
    then have "block_ok ie_key (ms ! i) (bs ! i)"
      using Cons.hyps(2) by (auto dest: list_all2_nthD2 image_block_of_ok)
    then have "lb_first_key (ms ! i) \<le> ie_key e"
      using i by (auto simp: block_ok_def)
    moreover have "lb_last_key m < lb_first_key (ms ! i)"
      using Cons.prems i(1) list_all2_lengthD [OF Cons.hyps(2)]
      by (auto simp: index_ok_def row_order_def overlaps_def not_le)
    ultimately show ?thesis by order
  qed
  have "ascending ie_key (concat bs)"
    using Cons.prems Cons.IH by (simp add: index_ok_def)
  moreover have "ascending ie_key b" "\<forall>e \<in> set b. ie_key e \<le> lb_last_key m"
    using image_block_of_ok [OF Cons.hyps(1)] by (auto simp: block_ok_def)
  ultimately show ?case
    using later by (auto simp: sorted_wrt_append intro: le_less_trans)
qed

section \<open>Locating a key\<close>

lemma index_monotone:
  assumes "index_ok kind bs"
  shows "sorted_wrt (\<lambda>a b. lb_first_key a \<le> lb_first_key b \<and> lb_last_key a \<le> lb_last_key b) bs"
proof -
  have "sorted_wrt (row_order kind) bs" using assms by (simp add: index_ok_def)
  then show ?thesis
  proof (rule sorted_wrt_mono_rel [rotated])
    fix a b assume "a \<in> set bs" "b \<in> set bs" "row_order kind a b"
    with assms have "lb_last_key a \<le> lb_first_key b" "lb_first_key a \<le> lb_last_key a"
      "lb_first_key b \<le> lb_last_key b"
      by (auto simp: index_ok_def row_order_def overlaps_def split: layer_kind.splits)
    then show "lb_first_key a \<le> lb_first_key b \<and> lb_last_key a \<le> lb_last_key b" by auto
  qed
qed

lemma locate_filter:
  assumes "index_ok (lf_kind f) (lf_blocks f)"
  shows "locate f key =
    filter (\<lambda>b. lb_first_key b \<le> key \<and> key \<le> lb_last_key b) (lf_blocks f)"
proof -
  note mono = index_monotone [OF assms]
  have "dropWhile (\<lambda>b. lb_last_key b < key) (lf_blocks f) =
      filter (\<lambda>b. \<not> lb_last_key b < key) (lf_blocks f)"
    by (rule dropWhile_filter_sorted, rule sorted_wrt_mono_rel [OF _ mono]) auto
  moreover have "takeWhile (\<lambda>b. lb_first_key b \<le> key) (filter P (lf_blocks f)) =
      filter (\<lambda>b. lb_first_key b \<le> key) (filter P (lf_blocks f))" for P
    by (rule takeWhile_filter_sorted, rule sorted_wrt_mono_rel [OF _ sorted_wrt_filter [OF mono]]) auto
  ultimately show ?thesis
    by (simp add: locate_def Let_def takeWhile_eq_take [symmetric] not_less conj_commute)
qed

end
