(* ===== verification/Delta_Roundtrip.thy ===== *)
theory Delta_Roundtrip
  imports Layer_Shell Layer_Safety
begin

text \<open>
  What the delta builder builds, and that the decoder reads it back. The builder
  invariant keeps the entries pushed so far as closed blocks and the block being
  filled; finishing closes the last one, and the object is then the shell of
  \<open>Layer_Shell\<close> over those blocks.
\<close>

definition enc_de :: "delta_entry \<Rightarrow> bytes" where
  "enc_de e = encode_entry (de_key e) (de_lsn e) (de_record e)"

definition dab :: "delta_entry list \<Rightarrow> ablock" where
  "dab es = \<lparr>ab_first = de_key (hd es), ab_last = de_key (last es), ab_count = length es,
             ab_raw = concat (map enc_de es)\<rparr>"

definition small_records :: "delta_entry list \<Rightarrow> bool" where
  "small_records es \<longleftrightarrow> (\<forall>e \<in> set es. length (de_record e) \<le> unat MAX_RECORD_LEN)"

lemma length_enc_de: "length (enc_de e) = 30 + length (de_record e)"
  by (simp add: enc_de_def encode_entry_def)

lemma delta_entry_fields [simp]:
  "\<lparr>de_key = de_key e, de_lsn = de_lsn e, de_record = de_record e\<rparr> = (e :: delta_entry)"
  by simp

section \<open>Decoding the entries of a block\<close>

lemma delta_entries_enc:
  assumes "drop at raw = concat (map enc_de es) @ post" "at \<le> length raw"
    and "delta_sorted (acc @ es)" "small_records es"
  shows "delta_entries raw (length es) at acc =
    Ok (at + length (concat (map enc_de es)), acc @ es)"
  using assms
proof (induction es arbitrary: at acc)
  case Nil
  then show ?case by simp
next
  case (Cons e es)
  define n where "n = length (de_record e)"
  define rest where "rest = concat (map enc_de es) @ post"
  have drop: "drop at raw = key_encode (de_key e) @ to_le (de_lsn e) @ to_le (of_nat n :: u32) @
      de_record e @ rest"
    using Cons.prems(1) by (simp add: enc_de_def [of e] encode_entry_def n_def rest_def)
  have len: "length raw = at + 30 + n + length rest"
    using arg_cong [OF drop, of length] Cons.prems(2) by (simp add: n_def)
  have n: "n \<le> 67108864" "unat (of_nat n :: u32) = n"
    using Cons.prems(4) by (auto simp: small_records_def n_def unat_max_record unat_of_nat_small)
  have fixed: "get_slice raw at (at + 30) =
      Some (key_encode (de_key e) @ to_le (de_lsn e) @ to_le (of_nat n :: u32))"
    using len drop by (simp add: get_slice_def)
  have drop2: "drop (at + 30) raw = de_record e @ rest"
    using arg_cong [OF drop, of "drop 30"] by (simp add: add.commute)
  then have rec: "get_slice raw (at + 30) (at + 30 + n) = Some (de_record e)"
    using len by (simp add: get_slice_def n_def)
  have after: "drop (at + 30 + n) raw = concat (map enc_de es) @ post"
    using arg_cong [OF drop2, of "drop n"] by (simp add: n_def rest_def add.commute)
  have le: "\<not> MAX_RECORD_LEN < of_nat n"
    using n by (simp add: word_less_nat_alt unat_max_record)
  have "acc \<noteq> [] \<Longrightarrow> de_pos (last acc) < de_pos e"
    using Cons.prems(3) by (auto simp: delta_sorted_append)
  then have ord: "\<not> (acc \<noteq> [] \<and> (de_key e, de_lsn e) \<le> (de_key (last acc), de_lsn (last acc)))"
    unfolding de_pos_def by (meson not_le)
  have "delta_entries raw (length es) (at + 30 + n) (acc @ [e]) =
      Ok (at + 30 + n + length (concat (map enc_de es)), (acc @ [e]) @ es)"
    using Cons.prems after len
    by (intro Cons.IH) (auto simp: small_records_def)
  then show ?case
    using fixed rec le ord n(2)
    by (simp add: ENTRY_FIXED_LEN_def KEY_ENCODED_LEN_def Let_def length_enc_de n_def add.assoc)
qed

lemma dab_raw_bound:
  "small_records es \<Longrightarrow> length es = 1 \<or> length (ab_raw (dab es)) \<le> LAYER_BLOCK_TARGET \<Longrightarrow>
   length (ab_raw (dab es)) \<le> unat MAX_BLOCK_RAW_LEN"
  by (auto simp: unat_max_raw LAYER_BLOCK_TARGET_def length_Suc_conv dab_def length_enc_de
      small_records_def unat_max_record)

lemma length_le_raw: "30 * length es \<le> length (concat (map enc_de es))"
  by (induction es) (auto simp: length_enc_de)

lemma de_key_mono: "delta_sorted es \<Longrightarrow> es \<noteq> [] \<Longrightarrow> de_key (hd es) \<le> de_key (last es)"
  by (cases es) (auto simp: delta_sorted_def de_pos_def less_prod_def intro: less_imp_le)

lemma ab_ok_dab:
  assumes "es \<noteq> []" "delta_sorted es" "small_records es"
    and "length es = 1 \<or> length (ab_raw (dab es)) \<le> LAYER_BLOCK_TARGET"
  shows "ab_ok (dab es)"
  using assms dab_raw_bound [of es] length_le_raw [of es] de_key_mono [of es]
  by (auto simp: ab_ok_def unat_max_raw) (auto simp: dab_def)

lemma decode_delta_block_row:
  assumes "ab_ok (dab es)" "es \<noteq> []" "delta_sorted es" "small_records es" "lz4_faithful ext"
  shows "decode_delta_block ext (stored ext (ab_raw (dab es))) (row ext off (dab es)) = Ok es"
proof -
  have "unat (lb_entries (row ext off (dab es))) = length es"
    using unat_row_fields(3) [OF assms(1), of ext off] by (simp add: dab_def)
  moreover have "delta_entries (ab_raw (dab es)) (length es) 0 [] = Ok (length (ab_raw (dab es)), es)"
    using delta_entries_enc [of 0 "ab_raw (dab es)" es "[]" "[]"] assms by (simp add: dab_def)
  moreover have "first_key_of de_key es = Some (lb_first_key (row ext off (dab es)))"
    "last_key_of de_key es = Some (lb_last_key (row ext off (dab es)))"
    using assms(2) by (cases es; simp add: first_key_of_def last_key_of_def row_def dab_def)+
  ultimately show ?thesis
    by (simp add: decode_delta_block_def block_raw_row [OF assms(1,5)])
qed

section \<open>The builder\<close>

definition delta_blocks :: "nat \<Rightarrow> delta_entry list list \<Rightarrow> delta_entry list \<Rightarrow> bool" where
  "delta_blocks target closed cur \<longleftrightarrow>
     (cur = [] \<longrightarrow> closed = []) \<and> [] \<notin> set closed \<and>
     (\<forall>es \<in> set (closed @ [cur]). length es \<le> 1 \<or> length (concat (map enc_de es)) \<le> target) \<and>
     delta_sorted (concat closed @ cur) \<and> small_records (concat closed @ cur)"

definition delta_inv ::
  "externals \<Rightarrow> nat \<Rightarrow> delta_entry list list \<Rightarrow> delta_entry list \<Rightarrow> delta_builder \<Rightarrow> bool" where
  "delta_inv ext target closed cur b \<longleftrightarrow>
     delta_blocks target closed cur \<and>
     b = \<lparr>db_buf = header Delta @ stored_all ext (map dab closed),
          db_blocks = rows ext 8 (map dab closed),
          db_hashes = key_hashes ext (remdups_adj (map de_key (concat closed @ cur))),
          db_raw = concat (map enc_de cur), db_block_target = target,
          db_first = (if cur = [] then key_page 0 0 0 0 0 else de_key (hd cur)),
          db_last = (if cur = [] then None else Some (de_pos (last cur))),
          db_count = of_nat (length cur), db_total = of_nat (length (concat closed @ cur)),
          db_min_lsn = fold min (map de_lsn (concat closed @ cur)) (- 1),
          db_max_lsn = fold max (map de_lsn (concat closed @ cur)) 0\<rparr>"

lemma delta_inv_new: "delta_inv ext target [] [] (delta_new target)"
  by (simp add: delta_inv_def delta_blocks_def delta_new_def key_hashes_def delta_sorted_def
      small_records_def)

lemma remdups_adj_snoc:
  "remdups_adj (xs @ [x]) =
   (if xs \<noteq> [] \<and> last xs = x then remdups_adj xs else remdups_adj xs @ [x])"
  by (induction xs rule: remdups_adj.induct) auto

lemma last_concat_cur: "cur \<noteq> [] \<Longrightarrow> last (concat closed @ cur) = last cur"
  by simp

lemma enc_de_not_Nil [simp]: "enc_de e \<noteq> []"
  using length_enc_de [of e] by auto

lemma raw_empty_iff: "concat (map enc_de cur) = [] \<longleftrightarrow> cur = []"
  by (cases cur) auto

text \<open>An accepted push extends the entries by one and keeps the invariant.\<close>

lemma delta_push_step:
  assumes inv: "delta_inv ext target closed cur b"
    and ord: "cur \<noteq> [] \<Longrightarrow> de_pos (last cur) < de_pos e"
    and len: "length (de_record e) \<le> unat MAX_RECORD_LEN"
  shows "\<exists>closed' cur' b'. delta_push ext (de_key e) (de_lsn e) (de_record e) b = Ok b' \<and>
    delta_inv ext target closed' cur' b' \<and> concat closed' @ cur' = concat closed @ cur @ [e]"
proof -
  let ?es = "concat closed @ cur"
  from inv have bl: "delta_blocks target closed cur" by (simp add: delta_inv_def)
  have sorted: "delta_sorted (?es @ [e])"
  proof (cases "cur = []")
    case True
    with bl show ?thesis by (simp add: delta_blocks_def delta_sorted_def)
  next
    case False
    then have "\<not> (?es \<noteq> [] \<and> [e] \<noteq> [] \<and> de_pos (hd [e]) \<le> de_pos (last ?es))"
      using ord by (auto simp: not_le)
    with bl show ?thesis
      using delta_sorted_join [of ?es "[e]"] by (auto simp: delta_blocks_def)
  qed
  have small: "small_records (?es @ [e])"
    using bl len by (auto simp: delta_blocks_def small_records_def)
  have enc: "encode_entry (de_key e) (de_lsn e) (de_record e) = enc_de e"
    by (simp add: enc_de_def)
  define hs where "hs = key_hashes ext (remdups_adj (map de_key (?es @ [e])))"
  have hash: "hs = key_hashes ext (remdups_adj (map de_key ?es)) @
      (if cur \<noteq> [] \<and> de_key (last cur) = de_key e then []
       else [bloom_hash ext (key_encode (de_key e))])"
    using bl remdups_adj_snoc [of "map de_key ?es" "de_key e"]
    by (auto simp: hs_def key_hashes_def last_map delta_blocks_def)
  have ord': "\<not> (cur \<noteq> [] \<and> (de_key e, de_lsn e) \<le> de_pos (last cur))"
    using ord by (auto simp: de_pos_def not_le)
  show ?thesis
  proof (cases "cur \<noteq> [] \<and> target < length (concat (map enc_de cur)) + 30 + length (de_record e)")
    case True
    let ?closed = "closed @ [cur]"
    define b' where "b' = \<lparr>db_buf = header Delta @ stored_all ext (map dab ?closed),
          db_blocks = rows ext 8 (map dab ?closed),
          db_hashes = hs, db_raw = enc_de e, db_block_target = target,
          db_first = de_key e, db_last = Some (de_pos e),
          db_count = 1, db_total = of_nat (length (?es @ [e])),
          db_min_lsn = fold min (map de_lsn (?es @ [e])) (- 1),
          db_max_lsn = fold max (map de_lsn (?es @ [e])) 0\<rparr>"
    have "delta_push ext (de_key e) (de_lsn e) (de_record e) b = Ok b'"
      using inv True len ord'
      by (auto simp: delta_push_def delta_spill_def delta_inv_def push_block_row raw_empty_iff
          ENTRY_FIXED_LEN_def KEY_ENCODED_LEN_def b'_def rows_append enc hash dab_def de_pos_def
          min.commute max.commute Let_def)
    moreover have "delta_inv ext target ?closed [e] b'"
      using bl True sorted small
      by (auto simp: delta_inv_def b'_def delta_blocks_def hs_def)
    ultimately show ?thesis by force
  next
    case False
    define b' where "b' = b\<lparr>db_hashes := hs,
        db_raw := concat (map enc_de (cur @ [e])), db_first := de_key (hd (cur @ [e])),
        db_last := Some (de_pos e), db_count := of_nat (length (cur @ [e])),
        db_total := of_nat (length (?es @ [e])),
        db_min_lsn := fold min (map de_lsn (?es @ [e])) (- 1),
        db_max_lsn := fold max (map de_lsn (?es @ [e])) 0\<rparr>"
    have "delta_push ext (de_key e) (de_lsn e) (de_record e) b = Ok b'"
      using inv False len ord'
      by (auto simp: delta_push_def delta_spill_def delta_inv_def raw_empty_iff
          ENTRY_FIXED_LEN_def KEY_ENCODED_LEN_def b'_def enc hash de_pos_def
          min.commute max.commute Let_def)
    moreover have "delta_inv ext target closed (cur @ [e]) b'"
      using bl False sorted small inv
      by (auto simp: delta_inv_def b'_def delta_blocks_def hs_def length_enc_de)
    ultimately show ?thesis by force
  qed
qed

text \<open>What stops a build: the first entry out of order, or the first oversized record.\<close>

fun delta_verdict :: "(layer_key \<times> lsn) option \<Rightarrow> delta_entry list \<Rightarrow> layer_build_error option" where
  "delta_verdict p [] = None"
| "delta_verdict p (e # es) =
     (if (case p of None \<Rightarrow> False | Some q \<Rightarrow> de_pos e \<le> q) then Some Unsorted
      else if length (de_record e) > unat MAX_RECORD_LEN then Some RecordTooLarge
      else delta_verdict (Some (de_pos e)) es)"

lemma delta_verdict_None_iff:
  "delta_verdict p es = None \<longleftrightarrow>
   delta_sorted es \<and> small_records es \<and>
   (case p of None \<Rightarrow> True | Some q \<Rightarrow> \<forall>e \<in> set es. q < de_pos e)"
proof (induction es arbitrary: p)
  case Nil
  then show ?case
    by (simp add: delta_sorted_def small_records_def split: option.splits)
next
  case (Cons e es)
  have "delta_sorted (e # es) \<longleftrightarrow> delta_sorted es \<and> (\<forall>y \<in> set es. de_pos e < de_pos y)"
    "small_records (e # es) \<longleftrightarrow> length (de_record e) \<le> unat MAX_RECORD_LEN \<and> small_records es"
    by (auto simp: delta_sorted_def small_records_def)
  then show ?case
    using Cons [of "Some (de_pos e)"]
    by (auto simp: not_le not_less split: option.splits intro: order_less_trans)
qed

abbreviation last_pos :: "delta_entry list \<Rightarrow> (layer_key \<times> lsn) option" where
  "last_pos cur \<equiv> (if cur = [] then None else Some (de_pos (last cur)))"

lemma delta_push_all_spec:
  assumes "delta_inv ext target closed cur b"
  shows "case delta_verdict (last_pos cur) es of
      Some err \<Rightarrow> delta_push_all ext es b = Err err
    | None \<Rightarrow> \<exists>closed' cur' b'. delta_push_all ext es b = Ok b' \<and>
        delta_inv ext target closed' cur' b' \<and> concat closed' @ cur' = concat closed @ cur @ es"
  using assms
proof (induction es arbitrary: closed cur b)
  case Nil
  then show ?case by auto
next
  case (Cons e es)
  have last: "db_last b = last_pos cur"
    using Cons.prems by (simp add: delta_inv_def)
  consider (unsorted) "cur \<noteq> []" "de_pos e \<le> de_pos (last cur)"
    | (large) "cur = [] \<or> de_pos (last cur) < de_pos e" "length (de_record e) > unat MAX_RECORD_LEN"
    | (ok) "cur = [] \<or> de_pos (last cur) < de_pos e" "length (de_record e) \<le> unat MAX_RECORD_LEN"
    by force
  then show ?case
  proof cases
    case unsorted
    then show ?thesis
      using last by (simp add: delta_push_def de_pos_def)
  next
    case large
    then have "\<not> (cur \<noteq> [] \<and> de_pos e \<le> de_pos (last cur))" by (auto simp: not_le)
    with large show ?thesis
      using last by (auto simp: delta_push_def de_pos_def)
  next
    case ok
    then have ord: "cur \<noteq> [] \<Longrightarrow> de_pos (last cur) < de_pos e" by auto
    obtain closed' cur' b' where b': "delta_push ext (de_key e) (de_lsn e) (de_record e) b = Ok b'"
      and inv: "delta_inv ext target closed' cur' b'"
      and es: "concat closed' @ cur' = concat closed @ cur @ [e]"
      using delta_push_step [OF Cons.prems ord ok(2)] by auto
    have cur': "cur' \<noteq> []"
      using inv es by (auto simp: delta_inv_def delta_blocks_def)
    then have last': "last_pos cur' = Some (de_pos e)"
      using arg_cong [OF es, of last] by simp
    have verdict: "delta_verdict (last_pos cur) (e # es) = delta_verdict (Some (de_pos e)) es"
      using ok by (auto simp: not_le not_less)
    have all: "concat closed @ cur @ e # es = concat closed' @ cur' @ es"
      using arg_cong [OF es, of "\<lambda>xs. xs @ es"] by simp
    have "delta_push_all ext (e # es) b = delta_push_all ext es b'"
      by (simp add: b')
    with Cons.IH [OF inv] show ?thesis
      unfolding verdict all last' by (simp only:)
  qed
qed

section \<open>The round trip\<close>

definition delta_footer :: "externals \<Rightarrow> delta_entry list list \<Rightarrow> layer_footer" where
  "delta_footer ext bs =
     footer_of ext Delta (map dab bs)
       (hashes_filter (key_hashes ext (remdups_adj (map de_key (concat bs)))))
       (fold min (map de_lsn (concat bs)) (- 1)) (fold max (map de_lsn (concat bs)) 0)"

lemma delta_finish_shape:
  assumes "delta_inv ext target closed cur b" "cur \<noteq> []" and bs: "bs = closed @ [cur]"
  shows "delta_finish ext b =
    obind (from_hashes (key_hashes ext (remdups_adj (map de_key (concat bs))))) (\<lambda>bl.
    layer_finish ext (header Delta @ stored_all ext (map dab bs)) Delta (rows ext 8 (map dab bs))
      bl (lf_min_lsn (delta_footer ext bs))
      (lf_max_lsn (delta_footer ext bs)) (of_nat (sum_list (map ab_count (map dab bs)))))"
proof -
  have "sum_list (map ab_count (map dab closed)) = length (concat closed)"
    by (induction closed) (auto simp: dab_def)
  with assms show ?thesis
    by (simp add: delta_inv_def delta_finish_def push_block_row de_pos_def delta_footer_def
        footer_of_def rows_append dab_def [of cur] add.commute)
qed

lemma delta_finish_object:
  assumes "delta_finish ext b = Ok (buf, f)"
    and "delta_inv ext target closed cur b" "cur \<noteq> []" "bs = closed @ [cur]"
  shows "layer_finish ext (header Delta @ stored_all ext (map dab bs)) Delta (rows ext 8 (map dab bs))
      (lf_bloom (delta_footer ext bs)) (lf_min_lsn (delta_footer ext bs))
      (lf_max_lsn (delta_footer ext bs)) (of_nat (sum_list (map ab_count (map dab bs)))) = Ok (buf, f)"
  using assms(1)
  unfolding delta_finish_shape [OF assms(2-4)]
  by (auto simp: obind_Ok_iff delta_footer_def footer_of_def dest!: from_hashes_value)

lemma concat_snoc: "concat closed @ cur = concat (closed @ [cur])"
  by simp

lemma dab_fields [simp]:
  "ab_first (dab es) = de_key (hd es)" "ab_last (dab es) = de_key (last es)"
  "ab_count (dab es) = length es" "ab_raw (dab es) = concat (map enc_de es)"
  by (simp_all add: dab_def)

lemma chained_dab:
  assumes "delta_sorted (concat bs)" "[] \<notin> set bs"
    and "\<And>l e. p = Some l \<Longrightarrow> e \<in> set (concat bs) \<Longrightarrow> l \<le> de_key e"
  shows "chained Delta p (map dab bs)"
  using assms
proof (induction bs arbitrary: p)
  case Nil
  then show ?case by simp
next
  case (Cons b bs)
  then have b: "b \<noteq> []" by auto
  have "chained Delta (Some (de_key (last b))) (map dab bs)"
  proof (rule Cons.IH)
    show "l \<le> de_key e" if "Some (de_key (last b)) = Some l" "e \<in> set (concat bs)" for l e
    proof -
      have "de_pos (last b) < de_pos e"
        using Cons.prems(1) b that(2) by (auto simp: delta_sorted_append)
      with that(1) show ?thesis by (auto simp: de_pos_def intro: less_imp_le)
    qed
  qed (use Cons.prems in \<open>auto simp: delta_sorted_append\<close>)
  with Cons.prems(3) b show ?case
    by (auto simp: follows_def split: option.splits)
qed

lemma fold_min_max_le:
  fixes xs :: "lsn list"
  assumes "xs \<noteq> []"
  shows "fold min xs (- 1) \<le> fold max xs 0"
proof -
  have lo: "fold min xs a \<le> x" if "x \<in> set xs" for x a
    using that by (subst Min.set_eq_fold [symmetric]) (auto intro!: Min_le)
  have hi: "x \<le> fold max xs a" if "x \<in> set xs" for x a
    using that by (subst Max.set_eq_fold [symmetric]) (auto intro!: Max_ge)
  show ?thesis
    using assms lo [of "hd xs"] hi [of "hd xs"] by (meson hd_in_set order_trans)
qed

lemma delta_shell_ok:
  assumes "delta_blocks target closed cur" "cur \<noteq> []" "target \<le> LAYER_BLOCK_TARGET"
    and bs: "bs = closed @ [cur]"
  shows "list_all ab_ok (map dab bs)"
    and "shell_ok Delta (map dab bs) (lf_bloom (delta_footer ext bs))
      (lf_min_lsn (delta_footer ext bs)) (lf_max_lsn (delta_footer ext bs))"
proof -
  have nonempty: "[] \<notin> set bs" and sorted: "delta_sorted (concat bs)"
    and small: "small_records (concat bs)"
    using assms by (auto simp: delta_blocks_def)
  have "ab_ok (dab es)" if "es \<in> set bs" for es
  proof (rule ab_ok_dab)
    show "es \<noteq> []" using that nonempty by auto
    show "small_records es" using that small by (auto simp: small_records_def)
    show "delta_sorted es"
      using that sorted split_list [OF that] by (auto simp: delta_sorted_append)
    show "length es = 1 \<or> length (ab_raw (dab es)) \<le> LAYER_BLOCK_TARGET"
      using that assms \<open>es \<noteq> []\<close> by (auto simp: delta_blocks_def le_Suc_eq)
  qed
  then show ok: "list_all ab_ok (map dab bs)"
    by (simp add: list_all_iff)
  have "chained Delta None (map dab bs)"
    using sorted nonempty by (rule chained_dab) simp
  then show "shell_ok Delta (map dab bs) (lf_bloom (delta_footer ext bs))
      (lf_min_lsn (delta_footer ext bs)) (lf_max_lsn (delta_footer ext bs))"
    using ok fold_min_max_le [of "map de_lsn (concat bs)"] assms(2)
    by (simp add: shell_ok_def delta_footer_def footer_of_def from_bits_hashes_filter bs)
qed

lemma decode_delta_blocks_rows:
  assumes "lz4_faithful ext" "list_all ab_ok (map dab bs)" "[] \<notin> set bs"
    and "delta_sorted (acc @ concat bs)" "small_records (concat bs)"
    and "buf = pre @ stored_all ext (map dab bs) @ post" "length pre = off" "length buf < 2 ^ 64"
  shows "decode_delta_blocks ext buf i (rows ext off (map dab bs)) acc = Ok (acc @ concat bs)"
  using assms(2-)
proof (induction bs arbitrary: i off acc pre)
  case Nil
  then show ?case by simp
next
  case (Cons b bs)
  have b: "ab_ok (dab b)" "b \<noteq> []" "delta_sorted b" "small_records b"
    using Cons.prems by (auto simp: delta_sorted_append small_records_def)
  have bytes: "block_bytes buf (row ext off (dab b)) = Ok (stored ext (ab_raw (dab b)))"
    using Cons.prems(5-) block_bytes_row [OF b(1), of off ext pre "stored_all ext (map dab bs) @ post"]
    by simp
  have ord: "acc \<noteq> [] \<Longrightarrow> de_pos (last acc) < de_pos (hd b)"
    using Cons.prems(3) b(2) by (auto simp: delta_sorted_append)
  then have ord': "\<not> (acc \<noteq> [] \<and> b \<noteq> [] \<and>
      (de_key (hd b), de_lsn (hd b)) \<le> (de_key (last acc), de_lsn (last acc)))"
    unfolding de_pos_def by (meson not_le)
  have "decode_delta_blocks ext buf (Suc i)
      (rows ext (off + length (stored ext (ab_raw (dab b)))) (map dab bs)) (acc @ b) =
    Ok ((acc @ b) @ concat bs)"
    using Cons.prems
    by (intro Cons.IH [where pre = "pre @ stored ext (ab_raw (dab b))"])
      (auto simp: small_records_def)
  then show ?case
    using bytes decode_delta_block_row [OF b(1,2,3,4) assms(1), of off] ord' by simp
qed

lemma delta_push_all_new:
  "case delta_verdict None es of
     Some err \<Rightarrow> delta_push_all ext es (delta_new target) = Err err
   | None \<Rightarrow> \<exists>closed cur b. delta_push_all ext es (delta_new target) = Ok b \<and>
       delta_inv ext target closed cur b \<and> concat closed @ cur = es"
  using delta_push_all_spec [OF delta_inv_new, where es = es and ext = ext and target = target]
  by (simp split: option.splits)

lemma build_delta_outcome:
  "case delta_verdict None es of
     Some err \<Rightarrow> build_delta ext es target = Err err
   | None \<Rightarrow> if es = [] then build_delta ext es target = Err Empty
             else length es < 2 ^ 58 \<longrightarrow> (\<exists>buf f. build_delta ext es target = Ok (buf, f))"
proof (cases "delta_verdict None es")
  case None
  then obtain closed cur b where b: "delta_push_all ext es (delta_new target) = Ok b"
    "delta_inv ext target closed cur b" "concat closed @ cur = es"
    using delta_push_all_new [where es = es and ext = ext and target = target] by auto
  show ?thesis
  proof (cases "es = []")
    case True
    with None show ?thesis by (simp add: build_delta_def delta_finish_def delta_new_def)
  next
    case False
    with b have cur: "cur \<noteq> []" by (auto simp: delta_inv_def delta_blocks_def)
    have "rows ext 8 (map dab (closed @ [cur])) \<noteq> []" by (simp add: first_last_rows)
    then have "\<exists>buf f. delta_finish ext b = Ok (buf, f)" if "length es < 2 ^ 58"
      unfolding delta_finish_shape [OF b(2) cur refl] using layer_finish_Ok that b(3)
        remdups_adj_length [of "map de_key (concat (closed @ [cur]))"]
      by (simp add: from_hashes_fits key_hashes_def) blast
    with None False b(1) show ?thesis by (simp add: build_delta_def)
  qed
next
  case (Some err)
  then show ?thesis
    using delta_push_all_new [where es = es and ext = ext and target = target] by (simp add: build_delta_def)
qed

text \<open>A bound on the object's size in terms of its entries, for every block target.\<close>

definition delta_bound :: "delta_entry list \<Rightarrow> nat" where
  "delta_bound es = 152 + sum_list (map (\<lambda>e. 95 + length (de_record e)) es)"

lemma delta_bound_length: "length es \<le> delta_bound es"
proof -
  have "length es \<le> sum_list (map (\<lambda>e. 95 + length (de_record e)) es)"
    by (induction es) auto
  then show ?thesis by (simp add: delta_bound_def)
qed

lemma build_delta_size:
  assumes "build_delta ext es target = Ok (buf, f)"
  shows "length buf \<le> delta_bound es"
proof -
  from assms obtain b where b: "delta_push_all ext es (delta_new target) = Ok b"
    and fin: "delta_finish ext b = Ok (buf, f)"
    by (auto simp: build_delta_def obind_Ok_iff)
  then obtain closed cur where inv: "delta_inv ext target closed cur b"
    and es: "concat closed @ cur = es"
    using delta_push_all_new [where es = es and ext = ext and target = target]
    by (auto split: option.splits)
  have cur: "cur \<noteq> []"
    using fin inv by (auto simp: delta_inv_def delta_finish_def)
  define bs where "bs = closed @ [cur]"
  have bs: "concat bs = es" "[] \<notin> set bs"
    using es inv cur by (auto simp: bs_def delta_inv_def delta_blocks_def)
  have "length buf = 8 + length (stored_all ext (map dab bs)) + length (encode_footer f) + 12"
    "lf_blocks f = rows ext 8 (map dab bs)" "lf_bloom f = lf_bloom (delta_footer ext bs)"
    using layer_finish_length [OF delta_finish_object [OF fin inv cur bs_def]] by simp_all
  moreover have "length (bits (lf_bloom (delta_footer ext bs))) \<le> 64 + 4 * length es"
  proof -
    have "length (bits (lf_bloom (delta_footer ext bs))) \<le>
        64 + 4 * length (key_hashes ext (remdups_adj (map de_key (concat bs))))"
      by (simp add: delta_footer_def footer_of_def hashes_filter_size)
    also have "\<dots> \<le> 64 + 4 * length es"
      using remdups_adj_length [of "map de_key (concat bs)"] bs(1) by (simp add: key_hashes_def)
    finally show ?thesis .
  qed
  moreover have "length (stored_all ext (map dab bs)) \<le> sum_list (map (\<lambda>e. 30 + length (de_record e)) es)"
  proof -
    have "sum_list (map (\<lambda>a. length (ab_raw a)) (map dab bs)) =
        sum_list (map (\<lambda>e. 30 + length (de_record e)) (concat bs))"
      by (induction bs) (simp_all add: length_concat length_enc_de comp_def)
    then show ?thesis using length_stored_all_le [of ext "map dab bs"] bs(1) by simp
  qed
  moreover have "sum_list (map (\<lambda>e. 95 + length (de_record e)) es) =
      sum_list (map (\<lambda>e. 30 + length (de_record e)) es) + 65 * length es"
    by (induction es) auto
  ultimately show ?thesis
    using length_concat_ge [OF bs(2)] bs(1) by (simp add: delta_bound_def length_encode_footer)
qed

text \<open>What a successful build produced: the shell over its blocks.\<close>

lemma build_delta_object:
  assumes "build_delta ext es target = Ok (buf, f)" "target \<le> LAYER_BLOCK_TARGET"
    and "length buf < 2 ^ 32"
  obtains bs where "concat bs = es" "[] \<notin> set bs" "delta_sorted es" "small_records es"
    "f = delta_footer ext bs" "buf = object_of ext Delta (map dab bs) f"
    "list_all ab_ok (map dab bs)"
    "shell_ok Delta (map dab bs) (lf_bloom f) (lf_min_lsn f) (lf_max_lsn f)"
proof -
  from assms(1) obtain b where b: "delta_push_all ext es (delta_new target) = Ok b"
    and fin: "delta_finish ext b = Ok (buf, f)"
    by (auto simp: build_delta_def obind_Ok_iff)
  then obtain closed cur where inv: "delta_inv ext target closed cur b"
    and es: "concat closed @ cur = es"
    using delta_push_all_new [where es = es and ext = ext and target = target] by (auto split: option.splits)
  have cur: "cur \<noteq> []"
    using fin inv by (auto simp: delta_inv_def delta_finish_def)
  define bs where "bs = closed @ [cur]"
  let ?f = "delta_footer ext bs"
  have bl: "delta_blocks target closed cur" using inv by (simp add: delta_inv_def)
  note shape = delta_finish_object [OF fin inv cur bs_def]
  have ne: "map dab bs \<noteq> []" by (simp add: bs_def)
  have "length buf = length (header Delta @ stored_all ext (map dab bs)) + length (encode_footer f) + 12"
    "lf_blocks f = rows ext 8 (map dab bs)" "lf_bloom f = lf_bloom ?f"
    using layer_finish_length [OF shape] by simp_all
  then have small: "length (encode_footer ?f) < 2 ^ 32"
    using assms(3)
    by (simp add: length_encode_footer) (simp add: delta_footer_def footer_of_def)
  have "f = ?f" "buf = object_of ext Delta (map dab bs) ?f"
    using shape layer_finish_object [OF ne small [unfolded delta_footer_def] refl]
    by (simp_all add: delta_footer_def footer_of_def)
  then show ?thesis
    using that [of bs] bl delta_shell_ok(1) [OF bl cur assms(2) bs_def]
      delta_shell_ok(2) [OF bl cur assms(2) bs_def, of ext] es cur
    by (auto simp: delta_blocks_def bs_def)
qed

lemma build_delta_shell:
  assumes "build_delta ext es target = Ok (buf, f)" "target \<le> LAYER_BLOCK_TARGET"
    and "length buf < 2 ^ 32" "lz4_faithful ext"
  shows "parse_shell ext buf = Ok (f, length buf - length (encode_footer f) - 12)"
    and "lf_kind f = Delta" and "decode_delta_blocks ext buf 0 (lf_blocks f) [] = Ok es"
proof -
  obtain bs where bs: "concat bs = es" "[] \<notin> set bs" "delta_sorted es" "small_records es"
    "f = delta_footer ext bs" "buf = object_of ext Delta (map dab bs) f"
    "list_all ab_ok (map dab bs)"
    "shell_ok Delta (map dab bs) (lf_bloom f) (lf_min_lsn f) (lf_max_lsn f)"
    using build_delta_object [OF assms(1,2,3)] .
  have f: "f = footer_of ext Delta (map dab bs) (lf_bloom f) (lf_min_lsn f) (lf_max_lsn f)"
    unfolding bs(5) by (simp add: delta_footer_def footer_of_def)
  show "parse_shell ext buf = Ok (f, length buf - length (encode_footer f) - 12)"
    using parse_shell_object [OF bs(8), of f ext] f assms(3) bs(6) by (simp add: length_object_of)
  show "lf_kind f = Delta"
    unfolding bs(5) by (simp add: delta_footer_def footer_of_def)
  have "lf_blocks f = rows ext 8 (map dab bs)"
    unfolding bs(5) by (simp add: delta_footer_def footer_of_def LAYER_HEADER_LEN_def)
  then show "decode_delta_blocks ext buf 0 (lf_blocks f) [] = Ok es"
    using decode_delta_blocks_rows [OF assms(4) bs(7,2), where acc = "[]" and pre = "header Delta"] bs
      assms(3)
    by (auto simp: object_of_def)
qed

text \<open>Entries in order, of legal size and fitting one object build, and decode to themselves.\<close>

lemma build_decode_delta:
  assumes "lz4_faithful ext" "target \<le> LAYER_BLOCK_TARGET"
    and "es \<noteq> []" "delta_sorted es" "small_records es" "delta_bound es < 2 ^ 32"
  shows "\<exists>buf f. build_delta ext es target = Ok (buf, f) \<and> length buf < 2 ^ 32 \<and>
    decode_delta ext buf = Ok (es, f)"
proof -
  have "delta_verdict None es = None"
    using assms by (simp add: delta_verdict_None_iff)
  then obtain buf f where b: "build_delta ext es target = Ok (buf, f)"
    using build_delta_outcome [of es ext target] assms(3) delta_bound_length [of es] assms(6) by auto
  moreover have small: "length buf < 2 ^ 32"
    using build_delta_size [OF b] assms(6) by simp
  moreover have "decode_delta ext buf = Ok (es, f)"
    using build_delta_shell [OF b assms(2) small assms(1)] by (auto simp: decode_delta_Ok_iff)
  ultimately show ?thesis by blast
qed

end
