(* ===== verification/Image_Roundtrip.thy ===== *)
theory Image_Roundtrip
  imports Layer_Shell Layer_Safety
begin

text \<open>
  What the image builder builds, and that the decoder reads it back: the same
  shape as for deltas, with entries of one fixed size and strictly ascending keys.
\<close>

definition enc_ie :: "image_entry \<Rightarrow> bytes" where
  "enc_ie e = key_encode (ie_key e) @ ie_page e"

definition iab :: "image_entry list \<Rightarrow> ablock" where
  "iab es = \<lparr>ab_first = ie_key (hd es), ab_last = ie_key (last es), ab_count = length es,
             ab_raw = concat (map enc_ie es)\<rparr>"

definition whole_pages :: "image_entry list \<Rightarrow> bool" where
  "whole_pages es \<longleftrightarrow> (\<forall>e \<in> set es. length (ie_page e) = PAGE_IMAGE_LEN)"

lemma iab_fields [simp]:
  "ab_first (iab es) = ie_key (hd es)" "ab_last (iab es) = ie_key (last es)"
  "ab_count (iab es) = length es" "ab_raw (iab es) = concat (map enc_ie es)"
  by (simp_all add: iab_def)

lemma image_entry_fields [simp]:
  "\<lparr>ie_key = ie_key e, ie_page = ie_page e\<rparr> = (e :: image_entry)"
  by simp

lemma PAGE_STRIDE_eq: "PAGE_STRIDE = 8210"
  by (simp add: PAGE_STRIDE_def KEY_ENCODED_LEN_def PAGE_IMAGE_LEN_def)

lemma whole_pages_Cons [simp]:
  "whole_pages (e # es) \<longleftrightarrow> length (ie_page e) = PAGE_IMAGE_LEN \<and> whole_pages es"
  "whole_pages []"
  by (auto simp: whole_pages_def)

lemma whole_pages_append [simp]: "whole_pages (xs @ ys) \<longleftrightarrow> whole_pages xs \<and> whole_pages ys"
  by (auto simp: whole_pages_def)

lemma length_enc_ie: "length (ie_page e) = PAGE_IMAGE_LEN \<Longrightarrow> length (enc_ie e) = 8210"
  by (simp add: enc_ie_def PAGE_IMAGE_LEN_def)

lemma length_enc_ies: "whole_pages es \<Longrightarrow> length (concat (map enc_ie es)) = 8210 * length es"
  by (induction es) (auto simp: length_enc_ie)

section \<open>Decoding the entries of a block\<close>

lemma image_entries_enc:
  assumes "ascending ie_key (acc @ es)" "whole_pages es"
  shows "image_entries (concat (map enc_ie es)) (length es) acc = Ok (acc @ es)"
  using assms
proof (induction es arbitrary: acc)
  case Nil
  then show ?case by simp
next
  case (Cons e es)
  have "acc = [] \<or> ie_key (last acc) < ie_key e"
    using Cons.prems(1) by (cases acc rule: rev_cases) (auto simp: sorted_wrt_append)
  moreover have "image_entries (concat (map enc_ie es)) (length es) (acc @ [e]) = Ok ((acc @ [e]) @ es)"
    using Cons.prems by (intro Cons.IH) auto
  moreover have "take PAGE_STRIDE (enc_ie e @ rest) = enc_ie e"
    "drop PAGE_STRIDE (enc_ie e @ rest) = rest" for rest
    using Cons.prems(2) length_enc_ie [of e] by (simp_all add: PAGE_STRIDE_eq)
  moreover have "take KEY_ENCODED_LEN (enc_ie e) = key_encode (ie_key e)"
    "drop KEY_ENCODED_LEN (enc_ie e) = ie_page e"
    by (simp_all add: enc_ie_def KEY_ENCODED_LEN_def)
  ultimately show ?case
    by (auto simp: Let_def)
qed

lemma ab_ok_iab:
  assumes "es \<noteq> []" "ascending ie_key es" "whole_pages es"
    and "length es = 1 \<or> length (ab_raw (iab es)) \<le> LAYER_BLOCK_TARGET"
  shows "ab_ok (iab es)"
proof -
  have "ie_key (hd es) \<le> ie_key (last es)"
    using assms(1,2) ascending_le_last by fastforce
  with assms length_enc_ies [OF assms(3)] show ?thesis
    by (auto simp: ab_ok_def unat_max_raw LAYER_BLOCK_TARGET_def)
qed

lemma decode_image_block_row:
  assumes "ab_ok (iab es)" "es \<noteq> []" "ascending ie_key es" "whole_pages es" "lz4_faithful ext"
  shows "decode_image_block ext (stored ext (ab_raw (iab es))) (row ext off (iab es)) = Ok es"
proof -
  have "unat (lb_entries (row ext off (iab es))) = length es"
    using unat_row_fields(3) [OF assms(1), of ext off] by simp
  moreover have "image_entries (ab_raw (iab es)) (length es) [] = Ok es"
    using image_entries_enc [of "[]" es] assms by simp
  moreover have "first_key_of ie_key es = Some (lb_first_key (row ext off (iab es)))"
    "last_key_of ie_key es = Some (lb_last_key (row ext off (iab es)))"
    using assms(2) by (cases es; simp add: first_key_of_def last_key_of_def row_def)+
  moreover have "length (ab_raw (iab es)) = length es * PAGE_STRIDE"
    using length_enc_ies [OF assms(4)] by (simp add: PAGE_STRIDE_eq)
  ultimately show ?thesis
    by (simp add: decode_image_block_def block_raw_row [OF assms(1,5), simplified])
qed

section \<open>The builder\<close>

definition image_blocks :: "nat \<Rightarrow> image_entry list list \<Rightarrow> image_entry list \<Rightarrow> bool" where
  "image_blocks target closed cur \<longleftrightarrow>
     (cur = [] \<longrightarrow> closed = []) \<and> [] \<notin> set closed \<and>
     (\<forall>es \<in> set (closed @ [cur]). length es \<le> 1 \<or> length (concat (map enc_ie es)) \<le> target) \<and>
     ascending ie_key (concat closed @ cur) \<and> whole_pages (concat closed @ cur)"

definition image_inv ::
  "externals \<Rightarrow> nat \<Rightarrow> lsn \<Rightarrow> image_entry list list \<Rightarrow> image_entry list \<Rightarrow> image_builder \<Rightarrow> bool" where
  "image_inv ext target lsn closed cur b \<longleftrightarrow>
     image_blocks target closed cur \<and>
     b = \<lparr>ib_buf = header Image @ stored_all ext (map iab closed),
          ib_blocks = rows ext 8 (map iab closed),
          ib_hashes = key_hashes ext (map ie_key (concat closed @ cur)),
          ib_raw = concat (map enc_ie cur), ib_block_target = target, ib_lsn = lsn,
          ib_first = (if cur = [] then key_page 0 0 0 0 0 else ie_key (hd cur)),
          ib_last = (if cur = [] then None else Some (ie_key (last cur))),
          ib_count = of_nat (length cur), ib_total = of_nat (length (concat closed @ cur))\<rparr>"

lemma image_inv_new: "image_inv ext target lsn [] [] (image_new lsn target)"
  by (simp add: image_inv_def image_blocks_def image_new_def key_hashes_def)

lemma enc_ie_not_Nil [simp]: "enc_ie e \<noteq> []"
proof -
  have "length (enc_ie e) \<noteq> 0" by (simp add: enc_ie_def)
  then show ?thesis by simp
qed

lemma image_raw_empty_iff: "concat (map enc_ie cur) = [] \<longleftrightarrow> cur = []"
  by (cases cur) auto

lemma image_push_step:
  assumes inv: "image_inv ext target lsn closed cur b"
    and ord: "cur \<noteq> [] \<Longrightarrow> ie_key (last cur) < ie_key e"
    and len: "length (ie_page e) = PAGE_IMAGE_LEN"
  shows "\<exists>closed' cur' b'. image_push ext (ie_key e) (ie_page e) b = Ok b' \<and>
    image_inv ext target lsn closed' cur' b' \<and> concat closed' @ cur' = concat closed @ cur @ [e]"
proof -
  let ?es = "concat closed @ cur"
  from inv have bl: "image_blocks target closed cur" by (simp add: image_inv_def)
  have sorted: "ascending ie_key (?es @ [e])"
  proof (rule ascending_append)
    show "?es \<noteq> [] \<and> [e] \<noteq> [] \<longrightarrow> ie_key (last ?es) < ie_key (hd [e])"
      using bl ord by (auto simp: image_blocks_def)
  qed (use bl in \<open>auto simp: image_blocks_def\<close>)
  have pages: "whole_pages (?es @ [e])"
    using bl len by (auto simp: image_blocks_def)
  have enc: "key_encode (ie_key e) @ ie_page e = enc_ie e"
    by (simp add: enc_ie_def)
  have ord': "\<not> (cur \<noteq> [] \<and> ie_key e \<le> ie_key (last cur))"
    using ord by (auto simp: not_le)
  show ?thesis
  proof (cases "cur \<noteq> [] \<and> target < length (concat (map enc_ie cur)) + 8210")
    case True
    let ?closed = "closed @ [cur]"
    define b' where "b' = \<lparr>ib_buf = header Image @ stored_all ext (map iab ?closed),
          ib_blocks = rows ext 8 (map iab ?closed),
          ib_hashes = key_hashes ext (map ie_key (?es @ [e])), ib_raw = enc_ie e,
          ib_block_target = target, ib_lsn = lsn,
          ib_first = ie_key e, ib_last = Some (ie_key e),
          ib_count = 1, ib_total = of_nat (length (?es @ [e]))\<rparr>"
    have "image_push ext (ie_key e) (ie_page e) b = Ok b'"
      using inv True len ord'
      by (auto simp: image_push_def image_spill_def image_inv_def push_block_row image_raw_empty_iff
          PAGE_IMAGE_LEN_def KEY_ENCODED_LEN_def b'_def rows_append enc iab_def key_hashes_def Let_def)
    moreover have "image_inv ext target lsn ?closed [e] b'"
      using bl True sorted pages
      by (auto simp: image_inv_def b'_def image_blocks_def)
    ultimately show ?thesis by force
  next
    case False
    define b' where "b' = b\<lparr>ib_hashes := key_hashes ext (map ie_key (?es @ [e])),
        ib_raw := concat (map enc_ie (cur @ [e])), ib_first := ie_key (hd (cur @ [e])),
        ib_last := Some (ie_key e), ib_count := of_nat (length (cur @ [e])),
        ib_total := of_nat (length (?es @ [e]))\<rparr>"
    have "image_push ext (ie_key e) (ie_page e) b = Ok b'"
      using inv False len ord'
      by (auto simp: image_push_def image_spill_def image_inv_def image_raw_empty_iff
          PAGE_IMAGE_LEN_def KEY_ENCODED_LEN_def b'_def enc key_hashes_def Let_def)
    moreover have "image_inv ext target lsn closed (cur @ [e]) b'"
      using bl False sorted pages inv length_enc_ie [OF len]
      by (auto simp: image_inv_def b'_def image_blocks_def)
    ultimately show ?thesis by force
  qed
qed

text \<open>What stops a build: the first key out of order, or the first page of another size.\<close>

fun image_verdict :: "layer_key option \<Rightarrow> image_entry list \<Rightarrow> layer_build_error option" where
  "image_verdict p [] = None"
| "image_verdict p (e # es) =
     (if (case p of None \<Rightarrow> False | Some q \<Rightarrow> ie_key e \<le> q) then Some Unsorted
      else if length (ie_page e) \<noteq> PAGE_IMAGE_LEN then Some (BadPageLen (length (ie_page e)))
      else image_verdict (Some (ie_key e)) es)"

lemma image_verdict_None_iff:
  "image_verdict p es = None \<longleftrightarrow>
   ascending ie_key es \<and> whole_pages es \<and>
   (case p of None \<Rightarrow> True | Some q \<Rightarrow> \<forall>e \<in> set es. q < ie_key e)"
proof (induction es arbitrary: p)
  case Nil
  then show ?case by (simp split: option.splits)
next
  case (Cons e es)
  show ?case
    using Cons [of "Some (ie_key e)"]
    by (auto simp: not_le not_less split: option.splits intro: order_less_trans)
qed

abbreviation last_ikey :: "image_entry list \<Rightarrow> layer_key option" where
  "last_ikey cur \<equiv> (if cur = [] then None else Some (ie_key (last cur)))"

lemma image_push_all_spec:
  assumes "image_inv ext target lsn closed cur b"
  shows "case image_verdict (last_ikey cur) es of
      Some err \<Rightarrow> image_push_all ext es b = Err err
    | None \<Rightarrow> \<exists>closed' cur' b'. image_push_all ext es b = Ok b' \<and>
        image_inv ext target lsn closed' cur' b' \<and> concat closed' @ cur' = concat closed @ cur @ es"
  using assms
proof (induction es arbitrary: closed cur b)
  case Nil
  then show ?case by auto
next
  case (Cons e es)
  have last: "ib_last b = last_ikey cur"
    using Cons.prems by (simp add: image_inv_def)
  consider (bad) "(cur \<noteq> [] \<and> ie_key e \<le> ie_key (last cur)) \<or> length (ie_page e) \<noteq> PAGE_IMAGE_LEN"
    | (ok) "cur = [] \<or> ie_key (last cur) < ie_key e" "length (ie_page e) = PAGE_IMAGE_LEN"
    by force
  then show ?case
  proof cases
    case bad
    then show ?thesis
      using last by (auto simp: image_push_def)
  next
    case ok
    then have ord: "cur \<noteq> [] \<Longrightarrow> ie_key (last cur) < ie_key e" by auto
    obtain closed' cur' b' where b': "image_push ext (ie_key e) (ie_page e) b = Ok b'"
      and inv: "image_inv ext target lsn closed' cur' b'"
      and es: "concat closed' @ cur' = concat closed @ cur @ [e]"
      using image_push_step [OF Cons.prems ord ok(2)] by auto
    have cur': "cur' \<noteq> []"
      using inv es by (auto simp: image_inv_def image_blocks_def)
    then have last': "last_ikey cur' = Some (ie_key e)"
      using arg_cong [OF es, of last] by simp
    have verdict: "image_verdict (last_ikey cur) (e # es) = image_verdict (Some (ie_key e)) es"
      using ok by (auto simp: not_le not_less)
    have all: "concat closed @ cur @ e # es = concat closed' @ cur' @ es"
      using arg_cong [OF es, of "\<lambda>xs. xs @ es"] by simp
    have "image_push_all ext (e # es) b = image_push_all ext es b'"
      by (simp add: b')
    with Cons.IH [OF inv] show ?thesis
      unfolding verdict all last' by (simp only:)
  qed
qed

section \<open>The round trip\<close>

definition image_footer :: "externals \<Rightarrow> lsn \<Rightarrow> image_entry list list \<Rightarrow> layer_footer" where
  "image_footer ext lsn bs =
     footer_of ext Image (map iab bs) (hashes_filter (key_hashes ext (map ie_key (concat bs)))) lsn lsn"

lemma image_finish_shape:
  assumes "image_inv ext target lsn closed cur b" "cur \<noteq> []" and bs: "bs = closed @ [cur]"
  shows "image_finish ext b =
    obind (from_hashes (key_hashes ext (map ie_key (concat bs)))) (\<lambda>bl.
    layer_finish ext (header Image @ stored_all ext (map iab bs)) Image (rows ext 8 (map iab bs))
      bl lsn lsn (of_nat (sum_list (map ab_count (map iab bs)))))"
proof -
  have "sum_list (map ab_count (map iab closed)) = length (concat closed)"
    by (induction closed) auto
  with assms show ?thesis
    by (simp add: image_inv_def image_finish_def push_block_row image_footer_def
        footer_of_def rows_append iab_def [of cur] add.commute)
qed

lemma image_finish_object:
  assumes "image_finish ext b = Ok (buf, f)"
    and "image_inv ext target lsn closed cur b" "cur \<noteq> []" "bs = closed @ [cur]"
  shows "layer_finish ext (header Image @ stored_all ext (map iab bs)) Image (rows ext 8 (map iab bs))
      (lf_bloom (image_footer ext lsn bs)) lsn lsn (of_nat (sum_list (map ab_count (map iab bs)))) = Ok (buf, f)"
  using assms(1)
  unfolding image_finish_shape [OF assms(2-4)]
  by (auto simp: obind_Ok_iff image_footer_def footer_of_def dest!: from_hashes_value)

lemma chained_iab:
  assumes "ascending ie_key (concat bs)" "[] \<notin> set bs"
    and "\<And>l e. p = Some l \<Longrightarrow> e \<in> set (concat bs) \<Longrightarrow> l < ie_key e"
  shows "chained Image p (map iab bs)"
  using assms
proof (induction bs arbitrary: p)
  case Nil
  then show ?case by simp
next
  case (Cons b bs)
  then have b: "b \<noteq> []" by auto
  have "chained Image (Some (ie_key (last b))) (map iab bs)"
    using Cons.prems b by (intro Cons.IH) (auto simp: sorted_wrt_append)
  with Cons.prems(3) b show ?case
    by (auto simp: follows_def split: option.splits)
qed

lemma image_shell_ok:
  assumes "image_blocks target closed cur" "cur \<noteq> []" "target \<le> LAYER_BLOCK_TARGET"
    and bs: "bs = closed @ [cur]"
  shows "list_all ab_ok (map iab bs)"
    and "shell_ok Image (map iab bs) (lf_bloom (image_footer ext lsn bs)) lsn lsn"
proof -
  have nonempty: "[] \<notin> set bs" and sorted: "ascending ie_key (concat bs)"
    and pages: "whole_pages (concat bs)"
    using assms by (auto simp: image_blocks_def)
  have "ab_ok (iab es)" if "es \<in> set bs" for es
  proof (rule ab_ok_iab)
    show "es \<noteq> []" using that nonempty by auto
    show "whole_pages es" using that pages by (auto simp: whole_pages_def)
    show "ascending ie_key es"
      using that sorted split_list [OF that] by (auto simp: sorted_wrt_append)
    show "length es = 1 \<or> length (ab_raw (iab es)) \<le> LAYER_BLOCK_TARGET"
      using that assms \<open>es \<noteq> []\<close> by (auto simp: image_blocks_def le_Suc_eq)
  qed
  then show ok: "list_all ab_ok (map iab bs)"
    by (simp add: list_all_iff)
  have "chained Image None (map iab bs)"
    using sorted nonempty by (rule chained_iab) simp
  then show "shell_ok Image (map iab bs) (lf_bloom (image_footer ext lsn bs)) lsn lsn"
    using ok by (simp add: shell_ok_def image_footer_def footer_of_def from_bits_hashes_filter bs)
qed

lemma decode_image_blocks_rows:
  assumes "lz4_faithful ext" "list_all ab_ok (map iab bs)" "[] \<notin> set bs"
    and "ascending ie_key (concat bs)" "whole_pages (concat bs)"
    and "buf = pre @ stored_all ext (map iab bs) @ post" "length pre = off" "length buf < 2 ^ 64"
  shows "decode_image_blocks ext buf i (rows ext off (map iab bs)) acc = Ok (acc @ concat bs)"
  using assms(2-)
proof (induction bs arbitrary: i off acc pre)
  case Nil
  then show ?case by simp
next
  case (Cons b bs)
  have b: "ab_ok (iab b)" "b \<noteq> []" "ascending ie_key b" "whole_pages b"
    using Cons.prems by (auto simp: sorted_wrt_append)
  have bytes: "block_bytes buf (row ext off (iab b)) = Ok (stored ext (ab_raw (iab b)))"
    using Cons.prems(5-) block_bytes_row [OF b(1), of off ext pre "stored_all ext (map iab bs) @ post"]
    by simp
  have "decode_image_blocks ext buf (Suc i)
      (rows ext (off + length (stored ext (ab_raw (iab b)))) (map iab bs)) (acc @ b) =
    Ok ((acc @ b) @ concat bs)"
    using Cons.prems
    by (intro Cons.IH [where pre = "pre @ stored ext (ab_raw (iab b))"])
      (auto simp: sorted_wrt_append)
  then show ?case
    using bytes decode_image_block_row [OF b(1,2,3,4) assms(1), of off] by simp
qed

lemma image_push_all_new:
  "case image_verdict None es of
     Some err \<Rightarrow> image_push_all ext es (image_new lsn target) = Err err
   | None \<Rightarrow> \<exists>closed cur b. image_push_all ext es (image_new lsn target) = Ok b \<and>
       image_inv ext target lsn closed cur b \<and> concat closed @ cur = es"
  using image_push_all_spec [OF image_inv_new, where es = es and ext = ext and lsn = lsn and target = target]
  by (simp split: option.splits)

lemma build_image_outcome:
  "case image_verdict None es of
     Some err \<Rightarrow> build_image ext es lsn target = Err err
   | None \<Rightarrow> if es = [] then build_image ext es lsn target = Err Empty
             else length es < 2 ^ 58 \<longrightarrow> (\<exists>buf f. build_image ext es lsn target = Ok (buf, f))"
proof (cases "image_verdict None es")
  case None
  then obtain closed cur b where b: "image_push_all ext es (image_new lsn target) = Ok b"
    "image_inv ext target lsn closed cur b" "concat closed @ cur = es"
    using image_push_all_new [where es = es and ext = ext and lsn = lsn and target = target] by auto
  show ?thesis
  proof (cases "es = []")
    case True
    with None show ?thesis by (simp add: build_image_def image_finish_def image_new_def)
  next
    case False
    with b have cur: "cur \<noteq> []" by (auto simp: image_inv_def image_blocks_def)
    have "rows ext 8 (map iab (closed @ [cur])) \<noteq> []" by (simp add: first_last_rows)
    then have "\<exists>buf f. image_finish ext b = Ok (buf, f)" if "length es < 2 ^ 58"
      unfolding image_finish_shape [OF b(2) cur refl] using layer_finish_Ok that b(3)
      by (simp add: from_hashes_fits key_hashes_def) blast
    with None False b(1) show ?thesis by (simp add: build_image_def)
  qed
next
  case (Some err)
  then show ?thesis
    using image_push_all_new [where es = es and ext = ext and lsn = lsn and target = target]
    by (simp add: build_image_def)
qed

text \<open>A bound on the object's size in terms of its entries, for every block target.\<close>

definition image_bound :: "image_entry list \<Rightarrow> nat" where
  "image_bound es = 152 + 8275 * length es"

lemma build_image_size:
  assumes "build_image ext es lsn target = Ok (buf, f)"
  shows "length buf \<le> image_bound es"
proof -
  from assms obtain b where b: "image_push_all ext es (image_new lsn target) = Ok b"
    and fin: "image_finish ext b = Ok (buf, f)"
    by (auto simp: build_image_def obind_Ok_iff)
  then obtain closed cur where inv: "image_inv ext target lsn closed cur b"
    and es: "concat closed @ cur = es"
    using image_push_all_new [where es = es and ext = ext and lsn = lsn and target = target]
    by (auto split: option.splits)
  have cur: "cur \<noteq> []"
    using fin inv by (auto simp: image_inv_def image_finish_def)
  define bs where "bs = closed @ [cur]"
  have bs: "concat bs = es" "[] \<notin> set bs" "whole_pages (concat bs)"
    using es inv cur by (auto simp: bs_def image_inv_def image_blocks_def)
  have "length buf = 8 + length (stored_all ext (map iab bs)) + length (encode_footer f) + 12"
    "lf_blocks f = rows ext 8 (map iab bs)" "lf_bloom f = lf_bloom (image_footer ext lsn bs)"
    using layer_finish_length [OF image_finish_object [OF fin inv cur bs_def]] by simp_all
  moreover have "length (bits (lf_bloom (image_footer ext lsn bs))) \<le> 64 + 4 * length es"
    using hashes_filter_size [of "key_hashes ext (map ie_key (concat bs))"] bs(1)
    by (simp add: image_footer_def footer_of_def key_hashes_def)
  moreover have "sum_list (map (\<lambda>a. length (ab_raw a)) (map iab bs)) = 8210 * length es"
    unfolding bs(1) [symmetric] using bs(3)
    by (induction bs) (simp_all add: length_enc_ies)
  ultimately show ?thesis
    using length_concat_ge [OF bs(2)] bs(1) length_stored_all_le [of ext "map iab bs"]
    by (simp add: image_bound_def length_encode_footer)
qed

text \<open>What a successful build produced: the shell over its blocks.\<close>

lemma build_image_object:
  assumes "build_image ext es lsn target = Ok (buf, f)" "target \<le> LAYER_BLOCK_TARGET"
    and "length buf < 2 ^ 32"
  obtains bs where "concat bs = es" "[] \<notin> set bs" "ascending ie_key es" "whole_pages es"
    "f = image_footer ext lsn bs" "buf = object_of ext Image (map iab bs) f"
    "list_all ab_ok (map iab bs)"
    "shell_ok Image (map iab bs) (lf_bloom f) lsn lsn"
proof -
  from assms(1) obtain b where b: "image_push_all ext es (image_new lsn target) = Ok b"
    and fin: "image_finish ext b = Ok (buf, f)"
    by (auto simp: build_image_def obind_Ok_iff)
  then obtain closed cur where inv: "image_inv ext target lsn closed cur b"
    and es: "concat closed @ cur = es"
    using image_push_all_new [where es = es and ext = ext and lsn = lsn and target = target]
    by (auto split: option.splits)
  have cur: "cur \<noteq> []"
    using fin inv by (auto simp: image_inv_def image_finish_def)
  define bs where "bs = closed @ [cur]"
  let ?f = "image_footer ext lsn bs"
  have bl: "image_blocks target closed cur" using inv by (simp add: image_inv_def)
  note shape = image_finish_object [OF fin inv cur bs_def]
  have ne: "map iab bs \<noteq> []" by (simp add: bs_def)
  have "length buf = length (header Image @ stored_all ext (map iab bs)) + length (encode_footer f) + 12"
    "lf_blocks f = rows ext 8 (map iab bs)" "lf_bloom f = lf_bloom ?f"
    using layer_finish_length [OF shape] by simp_all
  then have small: "length (encode_footer ?f) < 2 ^ 32"
    using assms(3)
    by (simp add: length_encode_footer) (simp add: image_footer_def footer_of_def)
  have "f = ?f" "buf = object_of ext Image (map iab bs) ?f"
    using shape layer_finish_object [OF ne small [unfolded image_footer_def] refl]
    by (simp_all add: image_footer_def footer_of_def)
  then show ?thesis
    using that [of bs] bl image_shell_ok(1) [OF bl cur assms(2) bs_def]
      image_shell_ok(2) [OF bl cur assms(2) bs_def, of ext lsn] es cur
    by (auto simp: image_blocks_def bs_def)
qed

lemma build_image_shell:
  assumes "build_image ext es lsn target = Ok (buf, f)" "target \<le> LAYER_BLOCK_TARGET"
    and "length buf < 2 ^ 32" "lz4_faithful ext"
  shows "parse_shell ext buf = Ok (f, length buf - length (encode_footer f) - 12)"
    and "lf_kind f = Image" and "decode_image_blocks ext buf 0 (lf_blocks f) [] = Ok es"
proof -
  obtain bs where bs: "concat bs = es" "[] \<notin> set bs" "ascending ie_key es" "whole_pages es"
    "f = image_footer ext lsn bs" "buf = object_of ext Image (map iab bs) f"
    "list_all ab_ok (map iab bs)" "shell_ok Image (map iab bs) (lf_bloom f) lsn lsn"
    using build_image_object [OF assms(1,2,3)] .
  have f: "f = footer_of ext Image (map iab bs) (lf_bloom f) lsn lsn"
    unfolding bs(5) by (simp add: image_footer_def footer_of_def)
  show "parse_shell ext buf = Ok (f, length buf - length (encode_footer f) - 12)"
    using parse_shell_object [OF bs(8), of f ext] f assms(3) bs(6) length_object_of
    by (simp add: length_object_of)
  show "lf_kind f = Image"
    unfolding bs(5) by (simp add: image_footer_def footer_of_def)
  have "lf_blocks f = rows ext 8 (map iab bs)"
    unfolding bs(5) by (simp add: image_footer_def footer_of_def LAYER_HEADER_LEN_def)
  then show "decode_image_blocks ext buf 0 (lf_blocks f) [] = Ok es"
    using decode_image_blocks_rows [OF assms(4) bs(7,2), where acc = "[]" and pre = "header Image"] bs
      assms(3)
    by (auto simp: object_of_def)
qed

text \<open>Whole pages in key order that fit one object build, and decode to themselves.\<close>

lemma build_decode_image:
  assumes "lz4_faithful ext" "target \<le> LAYER_BLOCK_TARGET"
    and "es \<noteq> []" "ascending ie_key es" "whole_pages es" "image_bound es < 2 ^ 32"
  shows "\<exists>buf f. build_image ext es lsn target = Ok (buf, f) \<and> length buf < 2 ^ 32 \<and>
    decode_image ext buf = Ok (es, f)"
proof -
  have "image_verdict None es = None"
    using assms by (simp add: image_verdict_None_iff)
  then obtain buf f where b: "build_image ext es lsn target = Ok (buf, f)"
    using build_image_outcome [of es ext lsn target] assms(3,6) by (auto simp: image_bound_def)
  moreover have small: "length buf < 2 ^ 32"
    using build_image_size [OF b] assms(6) by simp
  moreover have "decode_image ext buf = Ok (es, f)"
    using build_image_shell [OF b assms(2) small assms(1)] by (auto simp: decode_image_Ok_iff)
  ultimately show ?thesis by blast
qed

end
