(* ===== verification/Layer_Cursor.thy ===== *)
theory Layer_Cursor
  imports Layer_Safety
begin

text \<open>
  The streaming cursors compaction reads layers with. Calling \<open>next\<close> until it
  answers nothing yields exactly the entries the whole-layer decoder returns, in
  the same order, with one block decoded at a time.
\<close>

text \<open>
  What both cursors promise: with entries of the open block left, a call yields
  the first of them; with none left it goes on as if the next block had just been
  opened; with no block left either, it ends. The predicate \<open>live\<close> relates a cursor
  to the entries of its open block and the blocks to come.
\<close>

locale block_cursor =
  fixes step :: "'c \<Rightarrow> ('e, 'x) outcome option \<times> 'c"
    and live :: "'c \<Rightarrow> 'e list \<Rightarrow> 'e list list \<Rightarrow> bool"
  assumes step_entry: "live c (e # cur) bs \<Longrightarrow> \<exists>c'. step c = (Some (Ok e), c') \<and> live c' cur bs"
    and step_block: "live c [] (b # bs) \<Longrightarrow> b \<noteq> [] \<and> (\<exists>c'. step c = step c' \<and> live c' b bs)"
    and step_end: "live c [] [] \<Longrightarrow> fst (step c) = None"
begin

lemma stream_live:
  assumes "live c cur bs" "length (cur @ concat bs) < n"
  shows "stream_of step n c = map Ok (cur @ concat bs)"
  using assms
proof (induction n arbitrary: c cur bs)
  case 0
  then show ?case by simp
next
  case (Suc n)
  have entry: "stream_of step (Suc n) c = map Ok (cur @ concat bs)"
    if "live c cur bs" "length (cur @ concat bs) < Suc n" "cur \<noteq> []" for c cur bs
  proof -
    from that(3) obtain e cur' where cur: "cur = e # cur'" by (cases cur) auto
    with step_entry that(1) obtain c' where "step c = (Some (Ok e), c')" "live c' cur' bs"
      by blast
    with Suc.IH [of c' cur' bs] that(2) cur show ?thesis by simp
  qed
  consider "cur \<noteq> []" | (block) b bs' where "cur = []" "bs = b # bs'"
    | (ended) "cur = []" "bs = []"
    by (cases cur; cases bs) auto
  then show ?case
  proof cases
    case 1
    with Suc.prems show ?thesis by (intro entry)
  next
    case block
    with Suc.prems(1) step_block obtain c' where c': "b \<noteq> []" "step c = step c'" "live c' b bs'"
      by blast
    with entry [of c' b bs'] Suc.prems(2) block show ?thesis by simp
  next
    case ended
    with Suc.prems(1) step_end [of c] show ?thesis by (auto split: prod.splits)
  qed
qed

end

section \<open>Deltas\<close>

text \<open>A live cursor with the entries \<open>cur\<close> of the open block and the blocks \<open>bs\<close> to come.\<close>

definition delta_live ::
  "externals \<Rightarrow> delta_cursor \<Rightarrow> delta_entry list \<Rightarrow> delta_entry list list \<Rightarrow> bool" where
  "delta_live ext c cur bs \<longleftrightarrow>
     \<not> dc_dead c \<and> dc_entries c = cur \<and> dc_block c \<le> length (lf_blocks (dc_footer c)) \<and>
     list_all2 (delta_block_of ext (dc_buf c)) (drop (dc_block c) (lf_blocks (dc_footer c))) bs \<and>
     delta_sorted (cur @ concat bs) \<and>
     (\<forall>p. dc_prev c = Some p \<longrightarrow> (\<forall>e \<in> set (cur @ concat bs). p < de_pos e))"

lemma delta_live_next_Cons:
  assumes "delta_live ext c (e # cur) bs"
  shows "\<exists>c'. delta_next ext c = (Some (Ok e), c') \<and> delta_live ext c' cur bs"
proof -
  let ?c = "c\<lparr>dc_entries := cur, dc_prev := Some (de_key e, de_lsn e)\<rparr>"
  have "\<not> (\<exists>p. dc_prev c = Some p \<and> de_pos e \<le> p)"
    using assms by (auto simp: delta_live_def)
  then have "delta_next ext c = (Some (Ok e), ?c)"
    using assms
    by (auto simp: delta_next_def delta_live_def delta_loop.simps [of ext c] Let_def de_pos_def
        split: option.splits)
  moreover have "delta_live ext ?c cur bs"
    using assms by (auto simp: delta_live_def delta_sorted_def de_pos_def)
  ultimately show ?thesis by blast
qed

lemma delta_live_next_block:
  assumes "delta_live ext c [] (b # bs)"
  shows "b \<noteq> [] \<and> (\<exists>c'. delta_next ext c = delta_next ext c' \<and> delta_live ext c' b bs)"
proof -
  let ?ms = "drop (dc_block c) (lf_blocks (dc_footer c))"
  from assms obtain m ms where ms: "?ms = m # ms" and b: "delta_block_of ext (dc_buf c) m b"
    and rest: "list_all2 (delta_block_of ext (dc_buf c)) ms bs"
    by (auto simp: delta_live_def list_all2_Cons2)
  then have lt: "dc_block c < length (lf_blocks (dc_footer c))"
    by (metis drop_all list.discI not_le)
  with ms have m: "lf_blocks (dc_footer c) ! dc_block c = m"
    and next_ms: "drop (Suc (dc_block c)) (lf_blocks (dc_footer c)) = ms"
    by (simp_all add: Cons_nth_drop_Suc [symmetric])
  let ?c = "c\<lparr>dc_block := dc_block c + 1, dc_entries := b\<rparr>"
  have "delta_loop ext c = delta_loop ext ?c"
    using assms b lt m
    by (subst delta_loop.simps) (auto simp: delta_live_def delta_block_of_def Let_def)
  then have "delta_next ext c = delta_next ext ?c"
    using assms by (simp add: delta_next_def delta_live_def)
  moreover have "delta_live ext ?c b bs"
    using assms rest lt next_ms by (auto simp: delta_live_def)
  moreover have "b \<noteq> []"
    using delta_block_of_ok [OF b] by (simp add: block_ok_def)
  ultimately show ?thesis by blast
qed

lemma delta_live_end:
  assumes "delta_live ext c [] []"
  shows "fst (delta_next ext c) = None"
  using assms by (auto simp: delta_next_def delta_live_def delta_loop.simps)

interpretation delta_cursor: block_cursor "delta_next ext" "delta_live ext" for ext
  by unfold_locales (fact delta_live_next_Cons delta_live_next_block delta_live_end)+

lemma delta_stream_decode:
  assumes "decode_delta ext buf = Ok (es, f)" "length es < n"
  shows "\<exists>c. open_delta_cursor ext buf = Ok c \<and> stream_of (delta_next ext) n c = map Ok es"
proof -
  obtain start where shell: "parse_shell ext buf = Ok (f, start)" "lf_kind f = Delta"
    and blocks: "decode_delta_blocks ext buf 0 (lf_blocks f) [] = Ok es"
    using assms(1) by (auto simp: decode_delta_Ok_iff)
  then obtain bs where bs: "delta_sorted es" "es = concat bs"
    "list_all2 (delta_block_of ext buf) (lf_blocks f) bs"
    using decode_delta_blocks_accepts [OF blocks] by auto
  let ?c = "\<lparr>dc_buf = buf, dc_footer = f, dc_block = 0, dc_entries = [], dc_prev = None,
    dc_dead = False\<rparr>"
  have "open_delta_cursor ext buf = Ok ?c"
    using shell by (simp add: open_delta_cursor_def check_kind_def)
  moreover have "delta_live ext ?c [] bs"
    using bs by (simp add: delta_live_def)
  ultimately show ?thesis
    using delta_cursor.stream_live [of ext ?c "[]" bs n] assms(2) bs(2) by auto
qed

section \<open>Images\<close>

definition image_live ::
  "externals \<Rightarrow> image_cursor \<Rightarrow> image_entry list \<Rightarrow> image_entry list list \<Rightarrow> bool" where
  "image_live ext c cur bs \<longleftrightarrow>
     \<not> ic_dead c \<and> ic_entries c = cur \<and> ic_block c \<le> length (lf_blocks (ic_footer c)) \<and>
     list_all2 (image_block_of ext (ic_buf c)) (drop (ic_block c) (lf_blocks (ic_footer c))) bs"

lemma image_live_next_Cons:
  assumes "image_live ext c (e # cur) bs"
  shows "\<exists>c'. image_next ext c = (Some (Ok e), c') \<and> image_live ext c' cur bs"
proof -
  let ?c = "c\<lparr>ic_entries := cur\<rparr>"
  have "image_next ext c = (Some (Ok e), ?c)"
    using assms by (auto simp: image_next_def image_live_def image_loop.simps [of ext c])
  moreover have "image_live ext ?c cur bs"
    using assms by (auto simp: image_live_def)
  ultimately show ?thesis by blast
qed

lemma image_live_next_block:
  assumes "image_live ext c [] (b # bs)"
  shows "b \<noteq> [] \<and> (\<exists>c'. image_next ext c = image_next ext c' \<and> image_live ext c' b bs)"
proof -
  let ?ms = "drop (ic_block c) (lf_blocks (ic_footer c))"
  from assms obtain m ms where ms: "?ms = m # ms" and b: "image_block_of ext (ic_buf c) m b"
    and rest: "list_all2 (image_block_of ext (ic_buf c)) ms bs"
    by (auto simp: image_live_def list_all2_Cons2)
  then have lt: "ic_block c < length (lf_blocks (ic_footer c))"
    by (metis drop_all list.discI not_le)
  with ms have m: "lf_blocks (ic_footer c) ! ic_block c = m"
    and next_ms: "drop (Suc (ic_block c)) (lf_blocks (ic_footer c)) = ms"
    by (simp_all add: Cons_nth_drop_Suc [symmetric])
  let ?c = "c\<lparr>ic_block := ic_block c + 1, ic_entries := b\<rparr>"
  have "image_loop ext c = image_loop ext ?c"
    using assms b lt m
    by (subst image_loop.simps) (auto simp: image_live_def image_block_of_def Let_def)
  then have "image_next ext c = image_next ext ?c"
    using assms by (simp add: image_next_def image_live_def)
  moreover have "image_live ext ?c b bs"
    using assms rest lt next_ms by (auto simp: image_live_def)
  moreover have "b \<noteq> []"
    using image_block_of_ok [OF b] by (simp add: block_ok_def)
  ultimately show ?thesis by blast
qed

lemma image_live_end:
  assumes "image_live ext c [] []"
  shows "fst (image_next ext c) = None"
  using assms by (auto simp: image_next_def image_live_def image_loop.simps)

interpretation image_cursor: block_cursor "image_next ext" "image_live ext" for ext
  by unfold_locales (fact image_live_next_Cons image_live_next_block image_live_end)+

lemma image_stream_decode:
  assumes "decode_image ext buf = Ok (es, f)" "length es < n"
  shows "\<exists>c. open_image_cursor ext buf = Ok c \<and> stream_of (image_next ext) n c = map Ok es"
proof -
  obtain start where shell: "parse_shell ext buf = Ok (f, start)" "lf_kind f = Image"
    and blocks: "decode_image_blocks ext buf 0 (lf_blocks f) [] = Ok es"
    using assms(1) by (auto simp: decode_image_Ok_iff)
  then obtain bs where bs: "es = concat bs"
    "list_all2 (image_block_of ext buf) (lf_blocks f) bs"
    using decode_image_blocks_accepts [OF blocks] by auto
  let ?c = "\<lparr>ic_buf = buf, ic_footer = f, ic_block = 0, ic_entries = [], ic_dead = False\<rparr>"
  have "open_image_cursor ext buf = Ok ?c"
    using shell by (simp add: open_image_cursor_def check_kind_def)
  moreover have "image_live ext ?c [] bs"
    using bs by (simp add: image_live_def)
  ultimately show ?thesis
    using image_cursor.stream_live [of ext ?c "[]" bs n] assms(2) bs(1) by auto
qed

end
