(* ===== verification/Layer_Properties.thy ===== *)
theory Layer_Properties
  imports Delta_Roundtrip Image_Roundtrip Layer_Cursor
begin

text \<open>
  The properties of delta and image layers that the rest of the store relies on:
  round trips, refusal of bad input, safety on arbitrary bytes, and that the
  shortcuts of a point read (the block index, the filter, the footer from one
  suffix read, the streaming cursor) answer what the whole-layer decoder answers.
\<close>

definition sample_key :: "u32 \<Rightarrow> layer_key" where
  "sample_key block = key_page 1663 5 16384 0 block"

definition sample_deltas :: "delta_entry list" where
  "sample_deltas =
     [\<lparr>de_key = sample_key 0, de_lsn = 0x10, de_record = [1, 2, 3]\<rparr>,
      \<lparr>de_key = sample_key 0, de_lsn = 0x20, de_record = [4]\<rparr>,
      \<lparr>de_key = sample_key 1, de_lsn = 0x18, de_record = []\<rparr>]"

definition sample_images :: "image_entry list" where
  "sample_images =
     [\<lparr>ie_key = sample_key 0, ie_page = replicate 8192 7\<rparr>,
      \<lparr>ie_key = sample_key 1, ie_page = replicate 8192 9\<rparr>]"

lemma sample_key_order: "sample_key 0 < sample_key 1"
  by (simp add: sample_key_def key_page_def less_layer_key_def key_tuple_def)

lemma sample_deltas_ok:
  "sample_deltas \<noteq> []" "delta_sorted sample_deltas" "small_records sample_deltas"
  "delta_bound sample_deltas < 2 ^ 32"
  using sample_key_order
  by (simp_all add: sample_deltas_def delta_sorted_def de_pos_def small_records_def
      unat_max_record delta_bound_def)

lemma sample_images_ok:
  "sample_images \<noteq> []" "ascending ie_key sample_images" "whole_pages sample_images"
  "image_bound sample_images < 2 ^ 32"
  using sample_key_order
  by (simp_all add: sample_images_def PAGE_IMAGE_LEN_def image_bound_def)

lemma sample_target: "64 \<le> LAYER_BLOCK_TARGET"
  by (simp add: LAYER_BLOCK_TARGET_def)

text \<open>The sample layers: built, and decoding to the entries they were built from.\<close>

lemma sample_delta_layer:
  obtains buf f where "build_delta sample_ext sample_deltas 64 = Ok (buf, f)"
    "length buf < 2 ^ 32" "decode_delta sample_ext buf = Ok (sample_deltas, f)"
  using build_decode_delta [OF sample_ext_faithful sample_target sample_deltas_ok] by blast

lemma sample_image_layer:
  obtains buf f where "build_image sample_ext sample_images 0x40 64 = Ok (buf, f)"
    "length buf < 2 ^ 32" "decode_image sample_ext buf = Ok (sample_images, f)"
  using build_decode_image [OF sample_ext_faithful sample_target sample_images_ok] by blast

section \<open>Round trips\<close>

text \<open>C2. Delta entries in strictly ascending order of key and position, no record over the
  limit, and small enough together for one object, always build into a layer, and
  decoding that layer gives the same entries and the footer the builder returned.\<close>

theorem delta_layer_roundtrip:
  assumes "lz4_faithful ext" "target \<le> LAYER_BLOCK_TARGET"
    and "es \<noteq> []" "delta_sorted es" "small_records es" "delta_bound es < 2 ^ 32"
  shows "\<exists>buf f. build_delta ext es target = Ok (buf, f) \<and> decode_delta ext buf = Ok (es, f)"
  using build_decode_delta [OF assms] by blast

theorem delta_layer_roundtrip_witness:
  "\<exists>buf f. build_delta sample_ext sample_deltas 64 = Ok (buf, f) \<and>
     decode_delta sample_ext buf = Ok (sample_deltas, f)"
  by (rule delta_layer_roundtrip [OF sample_ext_faithful sample_target sample_deltas_ok])

text \<open>Pages of the right size under strictly ascending keys always build into an image
  layer, and decoding it gives the same pages and the footer the builder returned.\<close>

lemma image_layer_roundtrip:
  assumes "lz4_faithful ext" "target \<le> LAYER_BLOCK_TARGET"
    and "es \<noteq> []" "ascending ie_key es" "whole_pages es" "image_bound es < 2 ^ 32"
  shows "\<exists>buf f. build_image ext es lsn target = Ok (buf, f) \<and> decode_image ext buf = Ok (es, f)"
  using build_decode_image [OF assms] by blast

text \<open>The delta builder does not panic on fewer than \<open>2 ^ 58\<close> entries: it accepts exactly the
  nonempty sequences that strictly ascend and hold no oversized record, and it reports
  an empty layer exactly on no entries.\<close>

lemma build_delta_accepts:
  "length es < 2 ^ 58 \<Longrightarrow> build_delta ext es target \<noteq> Panic \<and>
   ((\<exists>r. build_delta ext es target = Ok r) \<longleftrightarrow>
      es \<noteq> [] \<and> delta_sorted es \<and> small_records es) \<and>
   (build_delta ext es target = Err Empty \<longleftrightarrow> es = [])"
proof (cases "delta_verdict None es")
  case None
  moreover assume "length es < 2 ^ 58"
  ultimately show ?thesis
    using build_delta_outcome [of es ext target] delta_verdict_None_iff [of None es]
    by (auto split: if_splits)
next
  case (Some err)
  have "err \<noteq> Empty" if "delta_verdict p ds = Some err" for p ds
    using that by (induction p ds rule: delta_verdict.induct) (auto split: if_splits)
  moreover have "es \<noteq> []" using Some by auto
  ultimately show ?thesis
    using Some build_delta_outcome [of es ext target] delta_verdict_None_iff [of None es] by auto
qed

section \<open>Arbitrary bytes\<close>

text \<open>C6. No bytes make a decoder panic: reading a footer from the object or from a suffix of
  it, or decoding the object as either kind of layer, ends in a value or in an error.\<close>

theorem layer_decoders_never_panic:
  assumes "length buf < 2 ^ 64"
  shows "decode_delta ext buf \<noteq> Panic \<and> decode_image ext buf \<noteq> Panic \<and>
    read_layer_footer ext buf \<noteq> Panic \<and> read_layer_footer_suffix ext kind buf n \<noteq> Panic"
proof -
  have blocks: "block_bytes buf b \<noteq> Panic"
    if "parse_shell ext buf = Ok (f, start)" "b \<in> set (lf_blocks f)" for f start b
    using block_bytes_accepted [OF parse_shell_accepts [OF that(1) assms] assms that(2)] by simp
  show ?thesis
    using decode_blocks_not_Panic [of _ buf] blocks
    by (auto simp: decode_delta_def decode_image_def read_layer_footer_def check_kind_def
        obind_Panic_iff)
qed

theorem layer_decoders_never_panic_witness:
  "length ([0x5A, 0x4C, 0x59, 0x52] :: bytes) < 2 ^ 64 \<and>
   decode_delta sample_ext [0x5A, 0x4C, 0x59, 0x52] \<noteq> Panic"
  using layer_decoders_never_panic [of "[0x5A, 0x4C, 0x59, 0x52]" sample_ext Delta 4] by simp

text \<open>What the delta decoder accepts is a delta layer: its entries strictly ascend by key
  and position, the footer counts them, and every key lies between the footer's bounds.\<close>

lemma decode_delta_wellformed:
  assumes "decode_delta ext buf = Ok (es, f)" "length buf < 2 ^ 64"
  shows "delta_sorted es \<and> lf_entry_count f = of_nat (length es) \<and> es \<noteq> [] \<and>
    lf_min_key f = de_key (hd es) \<and> lf_max_key f = de_key (last es)"
proof -
  obtain start where shell: "parse_shell ext buf = Ok (f, start)"
    and blocks: "decode_delta_blocks ext buf 0 (lf_blocks f) [] = Ok es"
    using assms(1) by (auto simp: decode_delta_Ok_iff)
  obtain bs where bs: "delta_sorted es" "es = concat bs"
    "list_all2 (delta_block_of ext buf) (lf_blocks f) bs"
    using decode_delta_blocks_accepts [OF blocks] by auto
  have oks: "list_all2 (block_ok de_key) (lf_blocks f) bs"
    using bs(3) by (rule list_all2_mono) (auto dest: delta_block_of_ok)
  have f: "footer_ok start f" using parse_shell_accepts [OF shell assms(2)] by simp
  then have "bs \<noteq> []" using oks by (auto simp: footer_ok_def)
  then show ?thesis
    using bs f list_all2_block_count [OF oks] block_keys_ends [OF oks] by (auto simp: footer_ok_def)
qed

text \<open>What the image decoder accepts is an image layer: one whole page per key, keys
  strictly ascending across block borders too, counted and bounded by the footer.\<close>

lemma decode_image_wellformed:
  assumes "decode_image ext buf = Ok (es, f)" "length buf < 2 ^ 64"
  shows "ascending ie_key es \<and> lf_entry_count f = of_nat (length es) \<and> es \<noteq> [] \<and>
    lf_min_key f = ie_key (hd es) \<and> lf_max_key f = ie_key (last es)"
proof -
  obtain start where shell: "parse_shell ext buf = Ok (f, start)" and kind: "lf_kind f = Image"
    and blocks: "decode_image_blocks ext buf 0 (lf_blocks f) [] = Ok es"
    using assms(1) by (auto simp: decode_image_Ok_iff)
  obtain bs where bs: "es = concat bs" "list_all2 (image_block_of ext buf) (lf_blocks f) bs"
    using decode_image_blocks_accepts [OF blocks] by auto
  have oks: "list_all2 (block_ok ie_key) (lf_blocks f) bs"
    using bs(2) by (rule list_all2_mono) (auto dest: image_block_of_ok)
  have f: "footer_ok start f" using parse_shell_accepts [OF shell assms(2)] by simp
  then have "bs \<noteq> []" using oks by (auto simp: footer_ok_def)
  moreover have "ascending ie_key es"
    using f kind bs image_blocks_ascending [OF bs(2)] by (simp add: footer_ok_def)
  ultimately show ?thesis
    using bs f list_all2_block_count [OF oks] block_keys_ends [OF oks] by (auto simp: footer_ok_def)
qed

section \<open>Point reads\<close>

text \<open>The block index is complete and exact: in an accepted layer, the blocks that the
  binary search names for a key are those whose key range covers it, and every
  entry of that key is in one of them.\<close>

lemma locate_complete:
  assumes "decode_delta ext buf = Ok (es, f)" "length buf < 2 ^ 64" "e \<in> set es"
  shows "locate f key = filter (\<lambda>b. lb_first_key b \<le> key \<and> key \<le> lb_last_key b) (lf_blocks f) \<and>
    (\<exists>b \<in> set (locate f (de_key e)). \<exists>bs block.
       block_bytes buf b = Ok bs \<and> decode_delta_block ext bs b = Ok block \<and> e \<in> set block)"
proof -
  obtain start where shell: "parse_shell ext buf = Ok (f, start)"
    and blocks: "decode_delta_blocks ext buf 0 (lf_blocks f) [] = Ok es"
    using assms(1) by (auto simp: decode_delta_Ok_iff)
  obtain bs where bs: "es = concat bs" "list_all2 (delta_block_of ext buf) (lf_blocks f) bs"
    using decode_delta_blocks_accepts [OF blocks] by auto
  have idx: "index_ok (lf_kind f) (lf_blocks f)"
    using parse_shell_accepts [OF shell assms(2)] by (simp add: footer_ok_def)
  from assms(3) bs(1) obtain i where i: "i < length bs" "e \<in> set (bs ! i)"
    by (auto simp: in_set_conv_nth [of _ bs])
  let ?b = "lf_blocks f ! i"
  have b: "delta_block_of ext buf ?b (bs ! i)"
    using bs(2) i(1) by (rule list_all2_nthD2)
  then have "lb_first_key ?b \<le> de_key e" "de_key e \<le> lb_last_key ?b"
    using i(2) delta_block_of_ok [OF b] by (auto simp: block_ok_def)
  moreover have "?b \<in> set (lf_blocks f)"
    using i(1) list_all2_lengthD [OF bs(2)] by simp
  ultimately show ?thesis
    using b i(2) by (auto simp: locate_filter [OF idx] delta_block_of_def)
qed

text \<open>The filter has no false negatives: the footer of a built delta layer admits the key
  of every entry the layer holds.\<close>

lemma delta_filter_complete:
  assumes "build_delta ext es target = Ok (buf, f)" "target \<le> LAYER_BLOCK_TARGET"
    and "length buf < 2 ^ 32" "e \<in> set es"
  shows "footer_admits ext f (de_key e)"
proof -
  obtain bs where bs: "concat bs = es" "f = delta_footer ext bs"
    "buf = object_of ext Delta (map dab bs) f"
    using build_delta_object [OF assms(1,2,3)] .
  define keys where "keys = map key_encode (remdups_adj (map de_key (concat bs)))"
  have bl: "lf_bloom f = hashes_filter (map (bloom_hash ext) keys)"
    by (simp add: bs(2) delta_footer_def footer_of_def key_hashes_def keys_def)
  have "length (bits (lf_bloom f)) < 2 ^ 61"
    using assms(3) bs(3) length_object_of [of ext Delta "map dab bs" f]
    by (simp add: length_encode_footer)
  moreover have "key_encode (de_key e) \<in> set keys"
    using assms(4) bs(1) by (simp add: keys_def)
  ultimately show ?thesis
    by (simp add: footer_admits_def bl hashes_filter_admits)
qed

text \<open>One suffix read is enough: any suffix of a built layer that holds the footer and the
  tail yields, with the object's length, the footer that the whole object yields.\<close>

lemma footer_from_suffix:
  assumes "build_delta ext es target = Ok (buf, f)" "target \<le> LAYER_BLOCK_TARGET"
    and "length buf < 2 ^ 32" "lz4_faithful ext"
    and "n + length (encode_footer f) + TAIL_LEN \<le> length buf"
  shows "read_layer_footer_suffix ext Delta (drop n buf) (of_nat (length buf)) = Ok f \<and>
    read_layer_footer ext buf = Ok f"
proof -
  obtain bs where bs: "concat bs = es" "f = delta_footer ext bs"
    "buf = object_of ext Delta (map dab bs) f"
    "shell_ok Delta (map dab bs) (lf_bloom f) (lf_min_lsn f) (lf_max_lsn f)"
    using build_delta_object [OF assms(1,2,3)] .
  have f: "f = footer_of ext Delta (map dab bs) (lf_bloom f) (lf_min_lsn f) (lf_max_lsn f)"
    unfolding bs(2) by (simp add: delta_footer_def footer_of_def)
  have "n \<le> 8 + length (stored_all ext (map dab bs))"
    using assms(5) bs(3) length_object_of [of ext Delta "map dab bs" f] by (simp add: TAIL_LEN_def)
  with read_footer_suffix_object [OF bs(4) f] assms(3) bs(3)
    build_delta_shell(1) [OF assms(1-4)]
  show ?thesis by (simp add: read_layer_footer_def)
qed

text \<open>The streaming cursor is the decoder: on a layer the decoder accepts, the cursor opens
  and its calls yield exactly the decoded entries and then the end, for deltas.\<close>

lemma delta_cursor_yields_layer:
  assumes "decode_delta ext buf = Ok (es, f)" "length es < n"
  shows "\<exists>c. open_delta_cursor ext buf = Ok c \<and> stream_of (delta_next ext) n c = map Ok es"
  using assms by (rule delta_stream_decode)

text \<open>The streaming cursor is the decoder, for images.\<close>

theorem image_cursor_yields_layer:
  assumes "decode_image ext buf = Ok (es, f)" "length es < n"
  shows "\<exists>c. open_image_cursor ext buf = Ok c \<and> stream_of (image_next ext) n c = map Ok es"
  using assms by (rule image_stream_decode)

theorem image_cursor_yields_layer_witness:
  "\<exists>buf c. open_image_cursor sample_ext buf = Ok c \<and>
     stream_of (image_next sample_ext) 9 c = map Ok sample_images"
proof -
  obtain buf f where "decode_image sample_ext buf = Ok (sample_images, f)"
    using sample_image_layer by blast
  from image_cursor_yields_layer [OF this, of 9] show ?thesis
    by (auto simp: sample_images_def)
qed

end
