(* ===== verification/Layer_Map.thy ===== *)
theory Layer_Map
  imports Layer_Codec
begin

text \<open>
  The layer map (crates/zou-store/src/layermap.rs): descriptors and their names, the
  interval trees over the key space, and the plan of a read. Building a tree
  recurses on the layers left and right of a center key; it would not end on a layer
  with inverted bounds, which the constructor refuses first, so the tree builder
  is a partial function and its termination on checked layers is a lemma.
\<close>

record layer_desc =
  ld_kind :: layer_kind
  ld_min_key :: layer_key
  ld_max_key :: layer_key
  ld_min_lsn :: lsn
  ld_max_lsn :: lsn
  ld_size :: u64
  ld_owner :: "string option"
  ld_upto :: "lsn option"
  ld_home :: "u16 option"

datatype layer_name_error = Malformed string

datatype layer_map_error = Inverted string | ImageSpansLsns string

definition desc_delta :: "layer_key \<Rightarrow> layer_key \<Rightarrow> lsn \<Rightarrow> lsn \<Rightarrow> layer_desc" where
  "desc_delta min_key max_key min_lsn max_lsn =
     \<lparr>ld_kind = Delta, ld_min_key = min_key, ld_max_key = max_key, ld_min_lsn = min_lsn,
      ld_max_lsn = max_lsn, ld_size = 0, ld_owner = None, ld_upto = None, ld_home = None\<rparr>"

definition desc_image :: "layer_key \<Rightarrow> layer_key \<Rightarrow> lsn \<Rightarrow> layer_desc" where
  "desc_image min_key max_key lsn =
     \<lparr>ld_kind = Image, ld_min_key = min_key, ld_max_key = max_key, ld_min_lsn = lsn,
      ld_max_lsn = lsn, ld_size = 0, ld_owner = None, ld_upto = None, ld_home = None\<rparr>"

definition from_footer :: "layer_footer \<Rightarrow> u64 \<Rightarrow> layer_desc" where
  "from_footer f sz =
     \<lparr>ld_kind = lf_kind f, ld_min_key = lf_min_key f, ld_max_key = lf_max_key f,
      ld_min_lsn = lf_min_lsn f, ld_max_lsn = lf_max_lsn f, ld_size = sz,
      ld_owner = None, ld_upto = None, ld_home = None\<rparr>"

definition covers :: "layer_desc \<Rightarrow> layer_key \<Rightarrow> bool" where
  "covers l key \<longleftrightarrow> ld_min_key l \<le> key \<and> key \<le> ld_max_key l"

definition clamp :: "layer_desc \<Rightarrow> lsn \<Rightarrow> lsn" where
  "clamp l lsn = (case ld_upto l of None \<Rightarrow> lsn | Some u \<Rightarrow> min u lsn)"

section \<open>Names\<close>

definition layer_name :: "layer_desc \<Rightarrow> string" where
  "layer_name l =
     (case ld_kind l of
        Delta \<Rightarrow> ''d-'' @ key_hex (ld_min_key l) @ ''-'' @ key_hex (ld_max_key l) @ ''-'' @
          hex_fixed (ld_min_lsn l) @ ''-'' @ hex_fixed (ld_max_lsn l) @ ''.dl''
      | Image \<Rightarrow> ''i-'' @ key_hex (ld_min_key l) @ ''-'' @ key_hex (ld_max_key l) @ ''-'' @
          hex_fixed (ld_min_lsn l) @ ''.il'')"

definition is_ascii :: "string \<Rightarrow> bool" where
  "is_ascii s \<longleftrightarrow> list_all (\<lambda>c. (of_char c :: nat) < 128) s"

text \<open>The closures \<open>key\<close> and \<open>lsn\<close> of the parser.\<close>

definition name_field :: "string \<Rightarrow> string \<Rightarrow> nat \<Rightarrow> nat \<Rightarrow> (nat, layer_name_error) outcome" where
  "name_field name s lo hi =
     obind (slice s lo hi) (\<lambda>t. ok_or (from_str_radix (2 ^ 32) 16 t) (Malformed name))"

definition name_key :: "string \<Rightarrow> string \<Rightarrow> (layer_key, layer_name_error) outcome" where
  "name_key name s =
     (if length s \<noteq> KEY_ENCODED_LEN * 2 \<or> \<not> is_ascii s then Err (Malformed name)
      else
        obind (name_field name s 0 2) (\<lambda>kind.
        obind (name_field name s 2 10) (\<lambda>spc.
        obind (name_field name s 10 18) (\<lambda>db.
        obind (name_field name s 18 26) (\<lambda>rel.
        obind (name_field name s 26 28) (\<lambda>fork.
        obind (name_field name s 28 36) (\<lambda>block.
        Ok (LayerKey (of_nat kind) (of_nat spc) (of_nat db) (of_nat rel) (of_nat fork)
              (of_nat block)))))))))"

definition name_lsn :: "string \<Rightarrow> string \<Rightarrow> (lsn, layer_name_error) outcome" where
  "name_lsn name s =
     (if length s \<noteq> 16 then Err (Malformed name)
      else obind (ok_or (from_str_radix (2 ^ 64) 16 s) (Malformed name)) (\<lambda>n. Ok (of_nat n)))"

definition parse_kind :: "string \<Rightarrow> (layer_kind \<times> string, layer_name_error) outcome" where
  "parse_kind name =
     (case strip_prefix ''d-'' name of
        Some rest \<Rightarrow>
          obind (ok_or (strip_suffix ''.dl'' rest) (Malformed name)) (\<lambda>r. Ok (Delta, r))
      | None \<Rightarrow>
          (case strip_prefix ''i-'' name of
             Some rest \<Rightarrow>
               obind (ok_or (strip_suffix ''.il'' rest) (Malformed name)) (\<lambda>r. Ok (Image, r))
           | None \<Rightarrow> Err (Malformed name)))"

definition layer_parse :: "string \<Rightarrow> u64 \<Rightarrow> (layer_desc, layer_name_error) outcome" where
  "layer_parse name sz =
     obind (parse_kind name) (\<lambda>(kind, rest).
     case (kind, split_on (CHR ''-'') rest) of
       (Delta, [kmin, kmax, lmin, lmax]) \<Rightarrow>
         obind (name_key name kmin) (\<lambda>min_key.
         obind (name_key name kmax) (\<lambda>max_key.
         obind (name_lsn name lmin) (\<lambda>min_lsn.
         obind (name_lsn name lmax) (\<lambda>max_lsn.
         Ok \<lparr>ld_kind = kind, ld_min_key = min_key, ld_max_key = max_key, ld_min_lsn = min_lsn,
             ld_max_lsn = max_lsn, ld_size = sz, ld_owner = None, ld_upto = None,
             ld_home = None\<rparr>))))
     | (Image, [kmin, kmax, l]) \<Rightarrow>
         obind (name_lsn name l) (\<lambda>at.
         obind (name_key name kmin) (\<lambda>min_key.
         obind (name_key name kmax) (\<lambda>max_key.
         Ok \<lparr>ld_kind = kind, ld_min_key = min_key, ld_max_key = max_key, ld_min_lsn = at,
             ld_max_lsn = at, ld_size = sz, ld_owner = None, ld_upto = None,
             ld_home = None\<rparr>)))
     | _ \<Rightarrow> Err (Malformed name))"

section \<open>Read plans\<close>

record read_plan =
  rp_images :: "layer_desc list"
  rp_deltas :: "layer_desc list"

definition above :: "read_plan \<Rightarrow> lsn \<Rightarrow> layer_desc list" where
  "above p floor =
     filter (\<lambda>l. ld_max_lsn l > floor \<and> (case ld_upto l of None \<Rightarrow> True | Some u \<Rightarrow> u > floor))
       (rp_deltas p)"

definition read_amp :: "read_plan \<Rightarrow> nat" where
  "read_amp p = length (rp_deltas p) + length (rp_images p)"

section \<open>The interval tree\<close>

datatype node =
  Node (center: layer_key) (by_min: "nat list") (by_max: "nat list")
    (left: "node option") (right: "node option")

record layer_map =
  lm_layers :: "layer_desc list"
  lm_images :: "node option"
  lm_deltas :: "node option"

partial_function (option) build ::
  "layer_desc list \<Rightarrow> nat list \<Rightarrow> node option option" where
  "build layers idx =
     (if idx = [] then Some None
      else
        let idx = sort_key (\<lambda>i. ld_min_key (layers ! i)) idx;
            c = ld_min_key (layers ! (idx ! (length idx div 2)));
            lo = filter (\<lambda>i. ld_max_key (layers ! i) < c) idx;
            hi = filter (\<lambda>i. \<not> ld_max_key (layers ! i) < c \<and> ld_min_key (layers ! i) > c) idx;
            here = filter (\<lambda>i. \<not> ld_max_key (layers ! i) < c \<and> \<not> ld_min_key (layers ! i) > c) idx
        in Option.bind (build layers lo) (\<lambda>l.
           Option.bind (build layers hi) (\<lambda>r.
           Some (Some (Node c (sort_key (\<lambda>i. ld_min_key (layers ! i)) here)
             (sort_desc_by (\<lambda>i. ld_max_key (layers ! i)) here) l r)))))"

text \<open>The hits are appended to what \<open>out\<close> holds; here they are returned.\<close>

fun stab :: "layer_desc list \<Rightarrow> node option \<Rightarrow> layer_key \<Rightarrow> nat list" where
  "stab layers None key = []"
| "stab layers (Some (Node c mins maxs l r)) key =
     (if key < c then takeWhile (\<lambda>i. \<not> ld_min_key (layers ! i) > key) mins @ stab layers l key
      else if c < key then takeWhile (\<lambda>i. \<not> ld_max_key (layers ! i) < key) maxs @ stab layers r key
      else mins)"

section \<open>The map\<close>

fun check_layers :: "layer_desc list \<Rightarrow> (unit, layer_map_error) outcome" where
  "check_layers [] = Ok ()"
| "check_layers (l # ls) =
     (if ld_min_key l > ld_max_key l \<or> ld_min_lsn l > ld_max_lsn l then Err (Inverted (layer_name l))
      else if ld_kind l = Image \<and> ld_min_lsn l \<noteq> ld_max_lsn l
      then Err (ImageSpansLsns (layer_name l))
      else check_layers ls)"

text \<open>\<open>LayerMap::new\<close>: \<open>None\<close> is a constructor that does not return.\<close>

definition layer_map_new :: "layer_desc list \<Rightarrow> (layer_map, layer_map_error) outcome option" where
  "layer_map_new layers =
     (case check_layers layers of
        Ok _ \<Rightarrow>
          Option.bind (build layers (filter (\<lambda>i. ld_kind (layers ! i) = Image) [0..<length layers])) (\<lambda>images.
          Option.bind (build layers (filter (\<lambda>i. ld_kind (layers ! i) = Delta) [0..<length layers])) (\<lambda>deltas.
          Some (Ok \<lparr>lm_layers = layers, lm_images = images, lm_deltas = deltas\<rparr>)))
      | Err e \<Rightarrow> Some (Err e)
      | Panic \<Rightarrow> Some Panic)"

definition layer_map_is_empty :: "layer_map \<Rightarrow> bool" where
  "layer_map_is_empty m \<longleftrightarrow> lm_layers m = []"

definition plan :: "layer_map \<Rightarrow> layer_key \<Rightarrow> lsn \<Rightarrow> read_plan" where
  "plan m key lsn =
     \<lparr>rp_images = sort_desc_by ld_min_lsn
        (filter (\<lambda>l. ld_min_lsn l \<le> clamp l lsn)
          (map (\<lambda>i. lm_layers m ! i) (stab (lm_layers m) (lm_images m) key))),
      rp_deltas = sort_key (\<lambda>l. (ld_min_lsn l, ld_max_lsn l))
        (filter (\<lambda>l. ld_min_lsn l \<le> clamp l lsn)
          (map (\<lambda>i. lm_layers m ! i) (stab (lm_layers m) (lm_deltas m) key)))\<rparr>"

end
