(* ===== verification/Layer_Map_Proofs.thy ===== *)
theory Layer_Map_Proofs
  imports Layer_Map Externals
begin

text \<open>
  The layer map answers what a scan over all layers would: the tree builder ends on
  checked layers, a stab yields exactly the covering layers, and a plan holds the
  covering images newest first and the covering deltas in apply order. Layer names
  determine their descriptors.
\<close>

section \<open>The interval tree\<close>

definition bounds_ok :: "layer_desc \<Rightarrow> bool" where
  "bounds_ok l \<longleftrightarrow> ld_min_key l \<le> ld_max_key l"

definition tree_for :: "layer_desc list \<Rightarrow> nat list \<Rightarrow> node option \<Rightarrow> bool" where
  "tree_for layers idx t \<longleftrightarrow>
     (\<forall>key. mset (stab layers t key) = mset (filter (\<lambda>i. covers (layers ! i) key) idx))"

lemma mset_filter3:
  "(\<And>x. x \<in> set xs \<Longrightarrow> (P x \<and> \<not> Q x \<and> \<not> R x) \<or> (\<not> P x \<and> Q x \<and> \<not> R x) \<or> (\<not> P x \<and> \<not> Q x \<and> R x)) \<Longrightarrow>
   mset xs = mset (filter P xs) + mset (filter Q xs) + mset (filter R xs)"
  by (induction xs) auto

lemma filter_none: "(\<And>x. x \<in> set xs \<Longrightarrow> \<not> P x) \<Longrightarrow> filter P xs = []"
  by (simp add: filter_empty_conv)

lemma tree_for_node:
  fixes layers :: "layer_desc list"
  assumes lo: "tree_for layers lo l" "\<And>i. i \<in> set lo \<Longrightarrow> ld_max_key (layers ! i) < c"
    and hi: "tree_for layers hi r" "\<And>i. i \<in> set hi \<Longrightarrow> c < ld_min_key (layers ! i)"
    and here: "\<And>i. i \<in> set here \<Longrightarrow> ld_min_key (layers ! i) \<le> c \<and> c \<le> ld_max_key (layers ! i)"
    and all: "mset idx = mset lo + mset hi + mset here"
  shows "tree_for layers idx (Some (Node c (sort_key (\<lambda>i. ld_min_key (layers ! i)) here)
     (sort_desc_by (\<lambda>i. ld_max_key (layers ! i)) here) l r))" (is "tree_for _ _ (Some ?n)")
  unfolding tree_for_def
proof
  fix key
  let ?cov = "\<lambda>i. covers (layers ! i) key"
  let ?mins = "sort_key (\<lambda>i. ld_min_key (layers ! i)) here"
  let ?maxs = "sort_desc_by (\<lambda>i. ld_max_key (layers ! i)) here"
  have split: "mset (filter ?cov idx) =
      mset (filter ?cov lo) + mset (filter ?cov hi) + mset (filter ?cov here)"
    using all by simp
  have lo_none: "filter ?cov lo = []" if "c \<le> key"
    using lo(2) that by (intro filter_none) (force simp: covers_def)
  have hi_none: "filter ?cov hi = []" if "key \<le> c"
    using hi(2) that by (intro filter_none) (force simp: covers_def)
  consider "key < c" | "c < key" | "key = c" by force
  then show "mset (stab layers (Some ?n) key) = mset (filter ?cov idx)"
  proof cases
    case 1
    have "takeWhile (\<lambda>i. \<not> ld_min_key (layers ! i) > key) ?mins =
        filter (\<lambda>i. \<not> ld_min_key (layers ! i) > key) ?mins"
      by (rule takeWhile_filter_sorted, rule sorted_wrt_mono_rel [OF _ sort_key_sorted_wrt]) auto
    also have "\<dots> = filter ?cov ?mins"
      using 1 here by (intro filter_cong) (force simp: covers_def)+
    finally show ?thesis
      using 1 lo(1) hi_none split by (simp add: tree_for_def)
  next
    case 2
    have "takeWhile (\<lambda>i. \<not> ld_max_key (layers ! i) < key) ?maxs =
        filter (\<lambda>i. \<not> ld_max_key (layers ! i) < key) ?maxs"
      by (rule takeWhile_filter_sorted, rule sorted_wrt_mono_rel [OF _ sort_desc_by_sorted]) auto
    also have "\<dots> = filter ?cov ?maxs"
      using 2 here by (intro filter_cong) (force simp: covers_def)+
    finally show ?thesis
      using 2 hi(1) lo_none split by (simp add: tree_for_def order_less_not_sym)
  next
    case 3
    then have "filter ?cov here = here"
      using here by (simp add: covers_def)
    then have "{#i \<in># mset here. ?cov i#} = mset here"
      by (simp flip: mset_filter)
    with 3 lo_none hi_none split show ?thesis by simp
  qed
qed

lemma build_spec:
  assumes "\<And>i. i \<in> set idx \<Longrightarrow> bounds_ok (layers ! i)"
  shows "\<exists>t. build layers idx = Some t \<and> tree_for layers idx t"
  using assms
proof (induction idx rule: measure_induct_rule [where f = length])
  case (less idx)
  show ?case
  proof (cases "idx = []")
    case True
    then show ?thesis by (simp add: build.simps tree_for_def)
  next
    case False
    define srt where "srt = sort_key (\<lambda>i. ld_min_key (layers ! i)) idx"
    define m where "m = srt ! (length srt div 2)"
    define c where "c = ld_min_key (layers ! m)"
    define lo where "lo = filter (\<lambda>i. ld_max_key (layers ! i) < c) srt"
    define hi where "hi = filter (\<lambda>i. \<not> ld_max_key (layers ! i) < c \<and> ld_min_key (layers ! i) > c) srt"
    define here where
      "here = filter (\<lambda>i. \<not> ld_max_key (layers ! i) < c \<and> \<not> ld_min_key (layers ! i) > c) srt"
    have "length srt div 2 < length srt" using False by (simp add: srt_def)
    then have m: "m \<in> set srt" by (simp add: m_def)
    have set: "set srt = set idx" "length srt = length idx" by (simp_all add: srt_def)
    have "\<not> ld_max_key (layers ! m) < c"
      using m less.prems set by (auto simp: bounds_ok_def c_def not_less)
    then have short: "length lo < length idx" "length hi < length idx"
      using m set unfolding lo_def hi_def
      by (metis c_def length_filter_less order_less_irrefl)+
    obtain l where l: "build layers lo = Some l" "tree_for layers lo l"
      using less.IH [OF short(1)] less.prems set by (auto simp: lo_def)
    obtain r where r: "build layers hi = Some r" "tree_for layers hi r"
      using less.IH [OF short(2)] less.prems set by (auto simp: hi_def)
    have parts: "mset idx = mset lo + mset hi + mset here"
      unfolding lo_def hi_def here_def
      by (subst mset_filter3 [symmetric]) (auto simp: srt_def)
    let ?t = "Some (Node c (sort_key (\<lambda>i. ld_min_key (layers ! i)) here)
      (sort_desc_by (\<lambda>i. ld_max_key (layers ! i)) here) l r)"
    have "build layers idx = Some ?t"
      using False l(1) r(1)
      by (subst build.simps)
        (simp add: Let_def flip: srt_def m_def c_def lo_def hi_def here_def)
    moreover have "tree_for layers idx ?t"
      using l(2) r(2) parts by (intro tree_for_node) (auto simp: lo_def hi_def here_def)
    ultimately show ?thesis by blast
  qed
qed

section \<open>The map\<close>

definition layer_ok :: "layer_desc \<Rightarrow> bool" where
  "layer_ok l \<longleftrightarrow> ld_min_key l \<le> ld_max_key l \<and> ld_min_lsn l \<le> ld_max_lsn l \<and>
     (ld_kind l = Image \<longrightarrow> ld_min_lsn l = ld_max_lsn l)"

lemma check_layers_Ok_iff: "check_layers ls = Ok u \<longleftrightarrow> list_all layer_ok ls"
  by (induction ls) (auto simp: layer_ok_def)

lemma check_layers_not_Panic [simp]: "check_layers ls \<noteq> Panic"
  by (induction ls) auto

definition map_for :: "layer_desc list \<Rightarrow> layer_map \<Rightarrow> bool" where
  "map_for layers m \<longleftrightarrow>
     lm_layers m = layers \<and>
     tree_for layers (filter (\<lambda>i. ld_kind (layers ! i) = Image) [0..<length layers]) (lm_images m) \<and>
     tree_for layers (filter (\<lambda>i. ld_kind (layers ! i) = Delta) [0..<length layers]) (lm_deltas m)"

lemma layer_map_new_cases:
  "(list_all layer_ok layers \<and> (\<exists>m. layer_map_new layers = Some (Ok m) \<and> map_for layers m)) \<or>
   (\<not> list_all layer_ok layers \<and> (\<exists>e. layer_map_new layers = Some (Err e)))"
proof (cases "list_all layer_ok layers")
  case True
  then have ok: "bounds_ok (layers ! i)" if "i < length layers" for i
    using that by (auto simp: list_all_length layer_ok_def bounds_ok_def)
  obtain ti where ti:
    "build layers (filter (\<lambda>i. ld_kind (layers ! i) = Image) [0..<length layers]) = Some ti"
    "tree_for layers (filter (\<lambda>i. ld_kind (layers ! i) = Image) [0..<length layers]) ti"
    using build_spec [of "filter (\<lambda>i. ld_kind (layers ! i) = Image) [0..<length layers]" layers] ok
    by auto
  obtain td where td:
    "build layers (filter (\<lambda>i. ld_kind (layers ! i) = Delta) [0..<length layers]) = Some td"
    "tree_for layers (filter (\<lambda>i. ld_kind (layers ! i) = Delta) [0..<length layers]) td"
    using build_spec [of "filter (\<lambda>i. ld_kind (layers ! i) = Delta) [0..<length layers]" layers] ok
    by auto
  have "check_layers layers = Ok ()" using True by (simp add: check_layers_Ok_iff)
  with True ti td show ?thesis
    by (simp add: layer_map_new_def map_for_def)
next
  case False
  then obtain e where "check_layers layers = Err e"
    by (cases "check_layers layers") (auto simp: check_layers_Ok_iff)
  with False show ?thesis by (simp add: layer_map_new_def)
qed

text \<open>The layers a list of indices names, as a filter of the list.\<close>

lemma mset_map_filter_upt:
  "mset (map (\<lambda>i. xs ! i) (filter (\<lambda>i. P (xs ! i)) [0..<length xs])) = mset (filter P xs)"
proof -
  have "map (\<lambda>i. xs ! i) (filter (P \<circ> (\<lambda>i. xs ! i)) [0..<length xs]) =
      filter P (map (\<lambda>i. xs ! i) [0..<length xs])"
    by (rule filter_map [symmetric])
  then show ?thesis by (simp add: map_nth comp_def)
qed

lemma stab_layers:
  assumes "tree_for layers (filter (\<lambda>i. ld_kind (layers ! i) = k) [0..<length layers]) t"
  shows "mset (map (\<lambda>i. layers ! i) (stab layers t key)) =
    mset (filter (\<lambda>l. ld_kind l = k \<and> covers l key) layers)"
proof -
  have "mset (map (\<lambda>i. layers ! i) (stab layers t key)) =
      mset (map (\<lambda>i. layers ! i) (filter (\<lambda>i. ld_kind (layers ! i) = k \<and> covers (layers ! i) key)
        [0..<length layers]))"
    using assms by (simp add: tree_for_def conj_commute)
  then show ?thesis
    using mset_map_filter_upt [of layers "\<lambda>l. ld_kind l = k \<and> covers l key"] by simp
qed

section \<open>Names\<close>

lemma from_hex_u32:
  "from_str_radix (2 ^ 32) 16 (hex_fixed (a :: u8)) = Some (unat a)"
  "from_str_radix (2 ^ 32) 16 (hex_fixed (b :: u32)) = Some (unat b)"
  "from_str_radix (2 ^ 64) 16 (hex_fixed (c :: u64)) = Some (unat c)"
  using unat_bound [of a] unat_bound [of b] unat_bound [of c]
  by (simp_all add: from_hex_fixed)

lemma is_ascii_digit: "d < 16 \<Longrightarrow> (of_char (digit_char upper d) :: nat) < 128"
  using to_digit_digit_char_16 [of d upper]
  by (auto simp: to_digit_def Let_def split: if_splits)

lemma is_ascii_hex [simp]: "is_ascii (hex_fixed w)"
proof -
  have "set (hex_fixed w) \<subseteq> digit_char False ` {..<16}"
    unfolding hex_fixed_def by (rule set_pad) simp
  then show ?thesis
    by (auto simp: is_ascii_def list_all_iff intro: is_ascii_digit)
qed

lemma is_ascii_append [simp]: "is_ascii (s @ t) \<longleftrightarrow> is_ascii s \<and> is_ascii t"
  by (simp add: is_ascii_def)

lemma name_key_hex [simp]: "name_key name (key_hex k) = Ok k"
proof -
  have "is_ascii (key_hex k)" by (simp add: key_hex_def)
  moreover have
    "name_field name (key_hex k) 0 2 = Ok (unat (lk_kind k))"
    "name_field name (key_hex k) 2 10 = Ok (unat (lk_spc k))"
    "name_field name (key_hex k) 10 18 = Ok (unat (lk_db k))"
    "name_field name (key_hex k) 18 26 = Ok (unat (lk_rel k))"
    "name_field name (key_hex k) 26 28 = Ok (unat (lk_fork k))"
    "name_field name (key_hex k) 28 36 = Ok (unat (lk_block k))"
    using from_hex_u32
    by (simp_all add: name_field_def slice_def) (simp_all add: key_hex_def)
  ultimately show ?thesis
    by (cases k) (simp add: name_key_def KEY_ENCODED_LEN_def)
qed

lemma name_lsn_hex [simp]: "name_lsn name (hex_fixed l) = Ok (l :: lsn)"
  using from_hex_u32(3) [of l] by (simp add: name_lsn_def)

definition plain_desc :: "layer_desc \<Rightarrow> bool" where
  "plain_desc l \<longleftrightarrow> ld_owner l = None \<and> ld_upto l = None \<and> ld_home l = None \<and>
     (ld_kind l = Image \<longrightarrow> ld_min_lsn l = ld_max_lsn l)"

lemma layer_parse_name:
  assumes "plain_desc l"
  shows "layer_parse (layer_name l) (ld_size l) = Ok l"
proof (cases "ld_kind l")
  case Delta
  let ?body = "key_hex (ld_min_key l) @ CHR ''-'' # key_hex (ld_max_key l) @ CHR ''-'' #
    hex_fixed (ld_min_lsn l) @ CHR ''-'' # hex_fixed (ld_max_lsn l)"
  have "parse_kind (layer_name l) = Ok (Delta, ?body)"
    using strip_suffix_append [of "''.dl''" ?body] Delta
    by (simp add: parse_kind_def layer_name_def)
  moreover have "split_on (CHR ''-'') ?body =
      [key_hex (ld_min_key l), key_hex (ld_max_key l), hex_fixed (ld_min_lsn l), hex_fixed (ld_max_lsn l)]"
    by (simp add: split_on_append split_on_none)
  ultimately show ?thesis
    using assms Delta by (simp add: layer_parse_def plain_desc_def)
next
  case Image
  let ?body = "key_hex (ld_min_key l) @ CHR ''-'' # key_hex (ld_max_key l) @ CHR ''-'' #
    hex_fixed (ld_min_lsn l)"
  have "parse_kind (layer_name l) = Ok (Image, ?body)"
    using strip_suffix_append [of "''.il''" ?body] Image
    by (simp add: parse_kind_def layer_name_def)
  moreover have "split_on (CHR ''-'') ?body =
      [key_hex (ld_min_key l), key_hex (ld_max_key l), hex_fixed (ld_min_lsn l)]"
    by (simp add: split_on_append split_on_none)
  ultimately show ?thesis
    using assms Image by (simp add: layer_parse_def plain_desc_def)
qed

section \<open>Properties\<close>

definition sample_layers :: "layer_desc list" where
  "sample_layers =
     [desc_delta (key_page 1 1 7 0 0) (key_page 1 1 7 0 9) 0x10 0x30,
      desc_image (key_page 1 1 7 0 2) (key_page 1 1 7 0 5) 0x20,
      desc_delta (key_page 1 1 7 0 4) (key_page 1 1 7 0 6) 0x28 0x50]"

lemmas key_order = less_eq_layer_key_def less_layer_key_def key_tuple_def key_page_def KEY_PAGE_def

lemma sample_layers_ok: "list_all layer_ok sample_layers"
  by (simp add: sample_layers_def layer_ok_def desc_delta_def desc_image_def key_order)

lemma sample_map:
  obtains m where "layer_map_new sample_layers = Some (Ok m)"
  using layer_map_new_cases [of sample_layers] sample_layers_ok by blast

text \<open>The layer map constructor returns on every list of layers: it never recurses forever
  and never panics, and it builds a map exactly when no layer has inverted bounds and
  no image spans positions.\<close>

lemma layer_map_new_total:
  "layer_map_new layers \<noteq> None \<and> layer_map_new layers \<noteq> Some Panic \<and>
   ((\<exists>m. layer_map_new layers = Some (Ok m)) \<longleftrightarrow> list_all layer_ok layers)"
  using layer_map_new_cases [of layers] by auto

text \<open>C17. A plan through the interval trees is the plan of a scan over all layers: it holds
  exactly the covering images at or below the read position, newest first, and the
  covering deltas at or below it, in the order their records apply.\<close>

theorem plan_equals_scan:
  assumes "layer_map_new layers = Some (Ok m)"
  shows "mset (rp_images (plan m key lsn)) =
      mset (filter (\<lambda>l. ld_kind l = Image \<and> covers l key \<and> ld_min_lsn l \<le> clamp l lsn) layers) \<and>
    mset (rp_deltas (plan m key lsn)) =
      mset (filter (\<lambda>l. ld_kind l = Delta \<and> covers l key \<and> ld_min_lsn l \<le> clamp l lsn) layers) \<and>
    sorted_wrt (\<lambda>a b. ld_min_lsn b \<le> ld_min_lsn a) (rp_images (plan m key lsn)) \<and>
    sorted_wrt (\<lambda>a b. (ld_min_lsn a, ld_max_lsn a) \<le> (ld_min_lsn b, ld_max_lsn b))
      (rp_deltas (plan m key lsn))"
proof -
  have m: "map_for layers m"
    using layer_map_new_cases [of layers] assms by auto
  have scan: "mset (filter P (map (\<lambda>i. layers ! i) (stab layers t key))) =
      mset (filter (\<lambda>l. ld_kind l = k \<and> covers l key \<and> P l) layers)"
    if "tree_for layers (filter (\<lambda>i. ld_kind (layers ! i) = k) [0..<length layers]) t" for P k t
  proof -
    have "mset (filter P (map (\<lambda>i. layers ! i) (stab layers t key))) =
        filter_mset P (mset (filter (\<lambda>l. ld_kind l = k \<and> covers l key) layers))"
      using stab_layers [OF that, of key] by (simp only: mset_filter)
    then show ?thesis
      by (simp add: filter_filter_mset conj_ac conj_commute)
  qed
  have "sorted_wrt (\<lambda>a b. ld_min_lsn b \<le> ld_min_lsn a) (rp_images (plan m key lsn))"
    unfolding plan_def read_plan.select_convs by (rule sort_desc_by_sorted)
  moreover have "sorted_wrt (\<lambda>a b. (ld_min_lsn a, ld_max_lsn a) \<le> (ld_min_lsn b, ld_max_lsn b))
      (rp_deltas (plan m key lsn))"
    unfolding plan_def read_plan.select_convs by (rule sort_key_sorted_wrt)
  ultimately show ?thesis
    using m scan by (simp add: plan_def map_for_def del: mset_map mset_filter less_eq_prod_simp)
qed

theorem plan_equals_scan_witness:
  "\<exists>m. layer_map_new sample_layers = Some (Ok m) \<and>
     mset (rp_images (plan m (key_page 1 1 7 0 4) 0x40)) =
       {#desc_image (key_page 1 1 7 0 2) (key_page 1 1 7 0 5) 0x20#}"
proof -
  obtain m where m: "layer_map_new sample_layers = Some (Ok m)" by (rule sample_map)
  from plan_equals_scan [OF m, of "key_page 1 1 7 0 4" "0x40"] m show ?thesis
    by (simp add: sample_layers_def covers_def clamp_def desc_delta_def desc_image_def key_order)
qed

text \<open>A plan loses no record: a delta layer that can hold a record of the key above the
  base's floor and at or below what the layer may serve is among those a read applies.\<close>

lemma plan_above_complete:
  assumes "layer_map_new layers = Some (Ok m)" "l \<in> set layers" "ld_kind l = Delta" "covers l key"
    and "ld_min_lsn l \<le> at" "at \<le> ld_max_lsn l" "floor < at" "at \<le> clamp l lsn"
  shows "l \<in> set (above (plan m key lsn) floor)"
proof -
  have "map_for layers m"
    using layer_map_new_cases [of layers] assms(1) by auto
  then have "set (map (\<lambda>i. layers ! i) (stab layers (lm_deltas m) key)) =
      set (filter (\<lambda>l. ld_kind l = Delta \<and> covers l key) layers)" "lm_layers m = layers"
    using mset_eq_setD [OF stab_layers [of layers Delta "lm_deltas m" key]]
    by (simp_all add: map_for_def)
  with assms show ?thesis
    by (auto simp: above_def plan_def clamp_def split: option.splits)
qed

text \<open>A layer's name says everything but its size: parsing the name of a layer of the shard's
  own gives the same kind, key range and position range back.\<close>

lemma layer_name_roundtrip:
  assumes "plain_desc l"
  shows "layer_parse (layer_name l) (ld_size l) = Ok l"
  using assms by (rule layer_parse_name)

end
