(* ===== verification/Mem_Table.thy ===== *)
theory Mem_Table
  imports Ordered_Map Layer_Safety
begin

text \<open>
  The memtable (crates/zou-store/src/memtable.rs): an ordered map from key and
  position to record, with the byte budget and the position bounds carried along.
  The invariant says the carried values are the ones a walk over the entries
  would give. A range whose start lies above its end makes the standard library
  panic, so \<open>records_for\<close> is an outcome.
\<close>

record memtable =
  mt_entries :: "(layer_key \<times> lsn, bytes) btree"
  mt_bytes :: nat
  mt_lsns :: "(lsn \<times> lsn) option"

definition mt_new :: memtable where
  "mt_new = \<lparr>mt_entries = [], mt_bytes = 0, mt_lsns = None\<rparr>"

definition mt_insert :: "layer_key \<Rightarrow> lsn \<Rightarrow> bytes \<Rightarrow> memtable \<Rightarrow> memtable" where
  "mt_insert key lsn rec m =
     (let m = m\<lparr>mt_bytes := mt_bytes m + length rec\<rparr>;
          m = m\<lparr>mt_lsns := Some (case mt_lsns m of
                    Some (lo, hi) \<Rightarrow> (min lo lsn, max hi lsn)
                  | None \<Rightarrow> (lsn, lsn))\<rparr>;
          old = bt_get (mt_entries m) (key, lsn);
          m = m\<lparr>mt_entries := bt_insert (key, lsn) rec (mt_entries m)\<rparr>
      in case old of
           Some r \<Rightarrow> m\<lparr>mt_bytes := mt_bytes m - length r\<rparr>
         | None \<Rightarrow> m)"

text \<open>\<open>BTreeMap::range\<close> with an excluded start and an included end.\<close>

definition bt_range_excl_incl ::
  "'k::linorder \<Rightarrow> 'k \<Rightarrow> ('k, 'v) btree \<Rightarrow> (('k \<times> 'v) list, 'e) outcome" where
  "bt_range_excl_incl lo hi m =
     (if hi < lo then Panic else Ok (filter (\<lambda>(k, _). lo < k \<and> k \<le> hi) m))"

definition records_for ::
  "memtable \<Rightarrow> layer_key \<Rightarrow> lsn \<Rightarrow> lsn \<Rightarrow> ((lsn \<times> bytes) list, 'e) outcome" where
  "records_for m key floor upper =
     obind (bt_range_excl_incl (key, floor) (key, upper) (mt_entries m)) (\<lambda>es.
     Ok (map (\<lambda>((_, lsn), rec). (lsn, rec)) es))"

fun subset_keys ::
  "memtable \<Rightarrow> layer_key list \<Rightarrow> lsn \<Rightarrow> memtable \<Rightarrow> (memtable, 'e) outcome" where
  "subset_keys m [] upper out = Ok out"
| "subset_keys m (key # keys) upper out =
     obind (records_for m key 0 upper) (\<lambda>rs.
     subset_keys m keys upper (fold (\<lambda>(lsn, rec). mt_insert key lsn rec) rs out))"

definition mt_subset :: "memtable \<Rightarrow> layer_key list \<Rightarrow> lsn \<Rightarrow> (memtable, 'e) outcome" where
  "mt_subset m keys upper = subset_keys m keys upper mt_new"

definition mt_iter :: "memtable \<Rightarrow> (layer_key \<times> lsn \<times> bytes) list" where
  "mt_iter m = map (\<lambda>((key, lsn), rec). (key, lsn, rec)) (mt_entries m)"

definition mt_is_empty :: "memtable \<Rightarrow> bool" where
  "mt_is_empty m \<longleftrightarrow> mt_entries m = []"

definition mt_len :: "memtable \<Rightarrow> nat" where
  "mt_len m = length (mt_entries m)"

definition lsn_range :: "memtable \<Rightarrow> (lsn \<times> lsn) option" where
  "lsn_range m = mt_lsns m"

definition drain_sorted :: "memtable \<Rightarrow> delta_entry list \<times> memtable" where
  "drain_sorted m =
     (map (\<lambda>((key, lsn), rec). \<lparr>de_key = key, de_lsn = lsn, de_record = rec\<rparr>) (mt_entries m),
      m\<lparr>mt_bytes := 0, mt_lsns := None, mt_entries := []\<rparr>)"

section \<open>The invariant\<close>

abbreviation entry_lsns :: "(layer_key \<times> lsn, bytes) btree \<Rightarrow> lsn set" where
  "entry_lsns es \<equiv> (snd \<circ> fst) ` set es"

definition mt_wf :: "memtable \<Rightarrow> bool" where
  "mt_wf m \<longleftrightarrow>
     bt_wf (mt_entries m) \<and>
     mt_bytes m = sum_list (map (length \<circ> snd) (mt_entries m)) \<and>
     mt_lsns m = (if mt_entries m = [] then None
                  else Some (Min (entry_lsns (mt_entries m)), Max (entry_lsns (mt_entries m))))"

lemma bt_insert_bytes:
  "sum_list (map (length \<circ> snd) (bt_insert k v m)) + (case bt_get m k of None \<Rightarrow> 0 | Some r \<Rightarrow> length r) =
   sum_list (map (length \<circ> snd) m) + length v" if "bt_wf m"
  using that
proof (induction k v m rule: bt_insert.induct)
  case (1 k v)
  then show ?case by (simp add: bt_get_def)
next
  case (2 k v a b m)
  have wf: "bt_wf m" and above: "\<forall>x \<in> set m. a < fst x"
    using "2.prems" by (auto simp: bt_wf_def)
  consider "k < a" | "k = a" | "a < k" by force
  then show ?case
  proof cases
    case 1
    have "map_of m k = None"
      using above 1 by (auto simp: map_of_eq_None_iff dest: order_less_trans)
    with 1 show ?thesis by (auto simp: bt_get_def)
  next
    case 2
    have "map_of m a = None"
      using above by (auto simp: map_of_eq_None_iff)
    with 2 show ?thesis by (simp add: bt_get_def)
  next
    case 3
    then have ne: "\<not> k < a" "k \<noteq> a" by auto
    with "2.IH" [OF ne wf] show ?thesis by (simp add: bt_get_def)
  qed
qed

lemma entry_lsns_insert: "entry_lsns (bt_insert (key, lsn) r m) = insert lsn (entry_lsns m)"
  by (simp only: image_comp [symmetric] set_bt_insert_keys image_insert snd_conv)

lemma bt_insert_not_Nil [simp]: "bt_insert k v m \<noteq> []"
  by (cases m) (auto split: if_splits)

lemma mt_insert_entries [simp]:
  "mt_entries (mt_insert key lsn rec m) = bt_insert (key, lsn) rec (mt_entries m)"
  by (simp add: mt_insert_def Let_def split: option.splits)

lemma mt_wf_new: "mt_wf mt_new"
  by (simp add: mt_wf_def mt_new_def bt_wf_def)

lemma mt_wf_insert:
  assumes "mt_wf m"
  shows "mt_wf (mt_insert key lsn rec m)"
proof -
  let ?es = "mt_entries m"
  have wf: "bt_wf ?es" using assms by (simp add: mt_wf_def)
  have "mt_bytes (mt_insert key lsn rec m) =
      sum_list (map (length \<circ> snd) (bt_insert (key, lsn) rec ?es))"
    using bt_insert_bytes [OF wf, of "(key, lsn)" rec] assms
    by (auto simp: mt_insert_def mt_wf_def Let_def split: option.splits)
  moreover have "mt_lsns (mt_insert key lsn rec m) =
      Some (Min (insert lsn (entry_lsns ?es)), Max (insert lsn (entry_lsns ?es)))"
    using assms
    by (auto simp: mt_insert_def mt_wf_def Let_def min.commute max.commute split: option.splits)
  ultimately show ?thesis
    using wf by (simp only: mt_wf_def mt_insert_entries entry_lsns_insert bt_wf_insert
        bt_insert_not_Nil if_False)
qed

lemma mt_wf_fold_insert: "mt_wf m \<Longrightarrow> mt_wf (fold (\<lambda>(lsn, rec). mt_insert key lsn rec) rs m)"
  by (induction rs arbitrary: m) (auto intro: mt_wf_insert)

lemma mt_wf_drain: "mt_wf (snd (drain_sorted m))"
  by (simp add: drain_sorted_def mt_wf_def bt_wf_def)

section \<open>Reads\<close>

lemma records_for_ok:
  "floor \<le> upper \<Longrightarrow> records_for m key floor upper =
     Ok (map (\<lambda>((_, lsn), rec). (lsn, rec))
       (filter (\<lambda>((k, l), _). k = key \<and> floor < l \<and> l \<le> upper) (mt_entries m)))"
proof -
  have "(\<lambda>(k, _ :: bytes). (key, floor) < k \<and> k \<le> (key, upper)) =
      (\<lambda>((k, l), _). k = key \<and> floor < l \<and> l \<le> upper)"
    by (auto simp: fun_eq_iff)
  then show "floor \<le> upper \<Longrightarrow> ?thesis"
    by (simp add: records_for_def bt_range_excl_incl_def not_less)
qed

lemma records_for_panics_iff: "records_for m key floor upper = Panic \<longleftrightarrow> upper < floor"
  by (auto simp: records_for_def bt_range_excl_incl_def)

abbreviation mt_get :: "memtable \<Rightarrow> layer_key \<Rightarrow> lsn \<Rightarrow> bytes option" where
  "mt_get m key lsn \<equiv> bt_get (mt_entries m) (key, lsn)"

lemma records_for_exact:
  assumes "mt_wf m" "records_for m key floor upper = Ok rs"
  shows "sorted_wrt (<) (map fst rs)"
    and "(l, r) \<in> set rs \<longleftrightarrow> mt_get m key l = Some r \<and> floor < l \<and> l \<le> upper"
proof -
  have le: "floor \<le> upper"
    using assms(2) records_for_panics_iff [of m key floor upper] by (metis not_le outcome.distinct(3))
  let ?es = "filter (\<lambda>((k, l), _). k = key \<and> floor < l \<and> l \<le> upper) (mt_entries m)"
  have rs: "rs = map (\<lambda>((_, lsn), rec). (lsn, rec)) ?es"
    using assms(2) unfolding records_for_ok [OF le] by simp
  have wf: "bt_wf (mt_entries m)" using assms(1) by (simp add: mt_wf_def)
  have "sorted_wrt (\<lambda>x y. fst x < fst y) ?es"
    using wf by (simp add: bt_wf_def sorted_wrt_map sorted_wrt_filter)
  then have "sorted_wrt (\<lambda>x y. snd (fst x) < snd (fst y)) ?es"
    by (rule sorted_wrt_mono_rel [rotated]) auto
  then show "sorted_wrt (<) (map fst rs)"
    by (auto simp: rs sorted_wrt_map split_beta)
  show "(l, r) \<in> set rs \<longleftrightarrow> mt_get m key l = Some r \<and> floor < l \<and> l \<le> upper"
    using bt.in_entries_iff [OF wf, of "(key, l)" r] by (force simp: rs)
qed

section \<open>Ingest\<close>

text \<open>A sequence of ingested records.\<close>

definition ingest :: "(layer_key \<times> lsn \<times> bytes) list \<Rightarrow> memtable \<Rightarrow> memtable" where
  "ingest recs m = fold (\<lambda>(key, lsn, rec). mt_insert key lsn rec) recs m"

abbreviation keyed :: "(layer_key \<times> lsn \<times> bytes) list \<Rightarrow> ((layer_key \<times> lsn) \<times> bytes) list" where
  "keyed recs \<equiv> map (\<lambda>(key, lsn, rec). ((key, lsn), rec)) recs"

lemma mt_wf_ingest: "mt_wf m \<Longrightarrow> mt_wf (ingest recs m)"
  unfolding ingest_def by (induction recs arbitrary: m) (auto intro: mt_wf_insert)

lemma ingest_entries: "mt_entries (ingest recs m) = bt.insert_all (keyed recs) (mt_entries m)"
  unfolding ingest_def bt.insert_all_def by (induction recs arbitrary: m) auto

lemma ingest_get:
  assumes "mt_wf m"
  shows "bt_get (mt_entries (ingest recs m)) = bt_get (mt_entries m) ++ map_of (rev (keyed recs))"
  using assms bt.lookup_insert_all [of "mt_entries m" "keyed recs"]
  by (simp add: ingest_entries mt_wf_def)

lemma fold_insert_ingest:
  "fold (\<lambda>(lsn, rec). mt_insert key lsn rec) rs m = ingest (map (\<lambda>(lsn, rec). (key, lsn, rec)) rs) m"
  unfolding ingest_def by (induction rs arbitrary: m) auto

lemma get_fold_insert:
  assumes "mt_wf m" "distinct (map fst rs)"
  shows "mt_get (fold (\<lambda>(lsn, rec). mt_insert key lsn rec) rs m) k l =
    (if k = key \<and> l \<in> fst ` set rs then map_of rs l else mt_get m k l)"
proof -
  have "bt_get (mt_entries (fold (\<lambda>(lsn, rec). mt_insert key lsn rec) rs m)) (k, l) =
      (if k = key \<and> l \<in> fst ` set rs then map_of rs l else bt_get (mt_entries m) (k, l))"
    using assms
  proof (induction rs arbitrary: m)
    case Nil
    then show ?case by simp
  next
    case (Cons lr rs)
    obtain a r where lr: "lr = (a, r)" by fastforce
    have "mt_wf (mt_insert key a r m)" using Cons.prems(1) by (rule mt_wf_insert)
    with Cons lr show ?case by (auto simp: bt_get_insert)
  qed
  then show ?thesis .
qed

lemma subset_keys_get:
  assumes "mt_wf m" "mt_wf out"
  shows "\<exists>s. subset_keys m keys upper out = (Ok s :: (memtable, 'e) outcome) \<and> mt_wf s \<and>
    (\<forall>k l. mt_get s k l =
      (if k \<in> set keys \<and> 0 < l \<and> l \<le> upper \<and> mt_get m k l \<noteq> None then mt_get m k l
       else mt_get out k l))"
  using assms(2)
proof (induction keys arbitrary: out)
  case Nil
  then show ?case by simp
next
  case (Cons key keys)
  obtain rs where rs: "records_for m key 0 upper = (Ok rs :: (_, 'e) outcome)"
    using records_for_ok [of 0 upper m key] by fastforce
  note exact = records_for_exact [OF assms(1) rs]
  let ?out = "fold (\<lambda>(lsn, rec). mt_insert key lsn rec) rs out"
  have dist: "distinct (map fst rs)" using exact(1) by (simp add: strict_sorted_iff)
  have get: "map_of rs l = (if 0 < l \<and> l \<le> upper then mt_get m key l else None)" for l
  proof (cases "map_of rs l")
    case None
    then have "(l, r) \<notin> set rs" for r by (force simp: map_of_eq_None_iff)
    with None show ?thesis by (cases "mt_get m key l") (auto simp: exact(2))
  next
    case (Some r)
    then have "(l, r) \<in> set rs" by (rule map_of_SomeD)
    with Some show ?thesis by (simp add: exact(2))
  qed
  have in_rs: "l \<in> fst ` set rs \<longleftrightarrow> map_of rs l \<noteq> None" for l
    by (simp add: map_of_eq_None_iff)
  obtain s where s: "subset_keys m keys upper ?out = (Ok s :: (memtable, 'e) outcome)" "mt_wf s"
    "\<And>k l. mt_get s k l =
      (if k \<in> set keys \<and> 0 < l \<and> l \<le> upper \<and> mt_get m k l \<noteq> None then mt_get m k l
       else mt_get ?out k l)"
    using Cons.IH [OF mt_wf_fold_insert [OF Cons.prems]] by blast
  have "subset_keys m (key # keys) upper out = (Ok s :: (memtable, 'e) outcome)"
    using rs s(1) by simp
  moreover have "mt_get s k l =
      (if k \<in> set (key # keys) \<and> 0 < l \<and> l \<le> upper \<and> mt_get m k l \<noteq> None then mt_get m k l
       else mt_get out k l)" for k l
    by (auto simp: s(3) get_fold_insert [OF Cons.prems dist] in_rs get)
  ultimately show ?case using s(2) by blast
qed

lemma mt_wf_eqI:
  assumes "mt_wf m" "mt_wf m'" "bt_get (mt_entries m) = bt_get (mt_entries m')"
  shows "m = m'"
proof -
  have "mt_entries m = mt_entries m'"
    using assms bt.entries_unique [of "mt_entries m" "mt_entries m'"] by (simp add: mt_wf_def)
  with assms(1,2) show ?thesis by (auto simp: mt_wf_def)
qed

lemma drain_delta_sorted:
  assumes "mt_wf m"
  shows "delta_sorted (fst (drain_sorted m))"
proof -
  have "ascending fst (mt_entries m)"
    using assms by (simp add: mt_wf_def bt_wf_def sorted_wrt_map)
  then show ?thesis
    by (simp add: drain_sorted_def delta_sorted_def de_pos_def sorted_wrt_map split_beta
        del: less_prod_simp)
qed

section \<open>Properties\<close>

text \<open>Whatever is ingested, a memtable holds the last record written at each key and
  position, in order, and the byte budget and position bounds it carries are those a walk over
  its entries would compute, so the flush threshold sees the truth.\<close>

lemma memtable_tracks_ingest:
  "mt_wf (ingest recs mt_new) \<and>
   bt_get (mt_entries (ingest recs mt_new)) = map_of (rev (keyed recs))"
proof -
  have "bt_get (mt_entries mt_new) = Map.empty"
    by (simp add: mt_new_def bt_get_def fun_eq_iff)
  then show ?thesis
    using mt_wf_ingest [OF mt_wf_new] ingest_get [OF mt_wf_new, of recs] by simp
qed

text \<open>Ingesting the same log again after a restart changes nothing, not the entries, not the
  byte budget and not the bounds.\<close>

lemma reingest_changes_nothing:
  "ingest recs (ingest recs (ingest older mt_new)) = ingest recs (ingest older mt_new)"
proof (rule mt_wf_eqI)
  show "mt_wf (ingest recs (ingest recs (ingest older mt_new)))"
    "mt_wf (ingest recs (ingest older mt_new))"
    by (intro mt_wf_ingest mt_wf_new)+
  show "bt_get (mt_entries (ingest recs (ingest recs (ingest older mt_new)))) =
      bt_get (mt_entries (ingest recs (ingest older mt_new)))"
    by (auto simp: ingest_get mt_wf_ingest mt_wf_new map_add_def fun_eq_iff split: option.splits)
qed

text \<open>A read of one key sees exactly the records of that key above the floor and at or below
  the read position, in ascending order; the range panics exactly when the floor lies
  above the position.\<close>

lemma records_for_reads_window:
  assumes "mt_wf m" "floor \<le> upper"
  shows "\<exists>rs. records_for m key floor upper = (Ok rs :: (_, unit) outcome) \<and>
    sorted_wrt (<) (map fst rs) \<and>
    set rs = {(l, r). mt_get m key l = Some r \<and> floor < l \<and> l \<le> upper}"
proof -
  obtain rs where rs: "records_for m key floor upper = (Ok rs :: (_, unit) outcome)"
    using records_for_ok [OF assms(2), of m key] by blast
  from records_for_exact [OF assms(1) rs] rs show ?thesis by auto
qed

text \<open>The subset a read takes with it answers like the table it was taken from: for a key
  it names and any position up to its bound, both give the same records.\<close>

lemma subset_reads_agree:
  assumes "mt_wf m" "key \<in> set keys" "floor \<le> l" "l \<le> upper"
  shows "\<exists>s. mt_subset m keys upper = (Ok s :: (memtable, unit) outcome) \<and>
    records_for s key floor l = (records_for m key floor l :: (_, unit) outcome)"
proof -
  obtain s where s: "mt_subset m keys upper = (Ok s :: (memtable, unit) outcome)" "mt_wf s"
    and get: "\<And>k l. mt_get s k l =
      (if k \<in> set keys \<and> 0 < l \<and> l \<le> upper \<and> mt_get m k l \<noteq> None then mt_get m k l
       else mt_get mt_new k l)"
    unfolding mt_subset_def using subset_keys_get [OF assms(1) mt_wf_new] by blast
  obtain rs where rs: "records_for s key floor l = (Ok rs :: (_, unit) outcome)"
    using records_for_ok [OF assms(3), of s key] by blast
  obtain rm where rm: "records_for m key floor l = (Ok rm :: (_, unit) outcome)"
    using records_for_ok [OF assms(3), of m key] by blast
  have none: "mt_get mt_new k l = None" for k l
    by (simp add: mt_new_def bt_get_def)
  have pos: "floor < x \<Longrightarrow> 0 < x" for x :: lsn
    by (metis le_less_trans word_zero_le)
  have "set rs = set rm"
    using records_for_exact(2) [OF s(2) rs] records_for_exact(2) [OF assms(1) rm] assms(2,4) get none
    by (auto simp: set_eq_iff split: if_splits dest: pos)
  moreover have "sorted_wrt (<) (map fst rs)" "sorted_wrt (<) (map fst rm)"
    using records_for_exact(1) [OF s(2) rs] records_for_exact(1) [OF assms(1) rm] .
  ultimately have "rs = rm"
    by (intro map_sorted_distinct_set_unique [where f = fst])
      (auto simp: strict_sorted_iff distinct_map)
  with s(1) rs rm show ?thesis by auto
qed

end
