(* ===== verification/Fork_Size.thy ===== *)
theory Fork_Size
  imports Zou_Prelude
begin

text \<open>
  The size marker of a fork (crates/zou-store/src/forksize.rs): the block count, the
  count \<open>dense\<close> below which every block has had a page, and a window of 64 bits
  for pages written out of order. The blocks a marker claims are those below
  \<open>dense\<close> and those the window names. The marker changes in five places of the page shim
  (crates/zou-pg): a drain of buffered pages, an extension with a page, a length on its own, the
  checkpoint's merge with the shared table, and a truncation. A step relation pairs the
  marker these leave with the set of blocks that have a page in the store, and the
  invariant says the claims never leave that set.
\<close>

unbundle bit_operations_syntax

record fork_size =
  nblocks :: u32
  dense :: u32
  filled :: u64

definition WINDOW :: u32 where
  "WINDOW = 64"

definition fs_plain :: "u32 \<Rightarrow> fork_size" where
  "fs_plain n = \<lparr>nblocks = n, dense = 0, filled = 0\<rparr>"

text \<open>\<open>u64::trailing_ones\<close>.\<close>

definition trailing_ones :: "u64 \<Rightarrow> nat" where
  "trailing_ones w = length (takeWhile (bit w) [0..<64])"

definition walk :: "fork_size \<Rightarrow> fork_size" where
  "walk f =
     (let steps = trailing_ones (filled f)
      in if steps = 0 then f
         else f\<lparr>dense := min (saturating_add (dense f) (of_nat steps)) (nblocks f),
                filled := (if of_nat steps \<ge> WINDOW then 0 else drop_bit steps (filled f))\<rparr>)"

definition fs_decode :: "bytes \<Rightarrow> fork_size option" where
  "fs_decode bs =
     (if length bs = 4 then Some (fs_plain (from_le bs))
      else if length bs = 16 then
        let f = \<lparr>nblocks = from_le (take 4 bs), dense = from_le (take 4 (drop 4 bs)),
                 filled = from_le (take 8 (drop 8 bs))\<rparr>;
            f = f\<lparr>dense := min (dense f) (nblocks f)\<rparr>
        in Some (walk f)
      else None)"

definition fs_encode :: "fork_size \<Rightarrow> bytes" where
  "fs_encode f = to_le (nblocks f) @ to_le (dense f) @ to_le (filled f)"

definition written :: "fork_size \<Rightarrow> u32 \<Rightarrow> bool" where
  "written f blk \<longleftrightarrow> blk < dense f"

definition fill :: "u32 \<Rightarrow> fork_size \<Rightarrow> fork_size" where
  "fill blk f =
     (if blk < dense f then f
      else
        let off = blk - dense f
        in if off \<ge> WINDOW then f
           else walk (f\<lparr>filled := filled f OR push_bit (unat off) 1\<rparr>))"

text \<open>The half open range of the loop, a sequence of 32 bit numbers.\<close>

definition fill_run :: "u32 \<Rightarrow> u32 \<Rightarrow> fork_size \<Rightarrow> fork_size" where
  "fill_run blk n f =
     fold fill (map of_nat [unat blk..<unat (saturating_add blk n)]) f"

definition grow :: "u32 \<Rightarrow> fork_size \<Rightarrow> fork_size" where
  "grow n f = (if n > nblocks f then f\<lparr>nblocks := n\<rparr> else f)"

definition truncate :: "u32 \<Rightarrow> fork_size \<Rightarrow> fork_size" where
  "truncate n f =
     (let f = f\<lparr>nblocks := n\<rparr>
      in if dense f > n then f\<lparr>dense := n, filled := 0\<rparr>
         else
           let room = n - dense f
           in if room < WINDOW then f\<lparr>filled := filled f AND (push_bit (unat room) 1 - 1)\<rparr> else f)"

definition merge :: "fork_size \<Rightarrow> fork_size \<Rightarrow> fork_size" where
  "merge self other =
     (let (ahead, behind) = (if dense self \<ge> dense other then (self, other) else (other, self));
          shift = dense ahead - dense behind;
          lifted = (if shift \<ge> WINDOW then 0 else drop_bit (unat shift) (filled behind))
      in walk \<lparr>nblocks = max (nblocks self) (nblocks other),
               dense = min (dense ahead) (max (nblocks self) (nblocks other)),
               filled = filled ahead OR lifted\<rparr>)"

section \<open>The updates of the page shim\<close>

text \<open>
  What \<open>flush_fork\<close> makes of the marker once the drained pages are in the store: the length is the buffered
  one or that of the highest block, whichever is larger, and the fork grows before the pages are vouched for.
\<close>

definition drain_marker :: "u32 option \<Rightarrow> u32 list \<Rightarrow> fork_size \<Rightarrow> fork_size" where
  "drain_marker buffered blks was =
     (let highest = (case blks of [] \<Rightarrow> None | _ \<Rightarrow> Some (fold max (map (\<lambda>blk. blk + 1) blks) 0));
          settled = (case (buffered, highest) of
                       (Some s, Some h) \<Rightarrow> Some (max s h)
                     | (Some s, None) \<Rightarrow> Some s
                     | (None, h) \<Rightarrow> h)
      in case settled of
           None \<Rightarrow> was
         | Some new_size \<Rightarrow> fold fill blks (grow new_size was))"

text \<open>What \<open>zou_smgr_extend\<close> makes of it: under a page service the page is not vouched for.\<close>

definition extend_marker :: "bool \<Rightarrow> u32 \<Rightarrow> fork_size \<Rightarrow> fork_size" where
  "extend_marker pageserve blk current =
     (let next = grow (blk + 1) current in if \<not> pageserve then fill blk next else next)"

text \<open>What \<open>put_size_object\<close>, \<open>zou_smgr_put_size\<close> and \<open>zou_smgr_truncate\<close> make of it.\<close>

definition length_marker :: "u32 \<Rightarrow> fork_size \<Rightarrow> fork_size" where
  "length_marker n current = grow n current"

definition checkpoint_marker :: "u32 \<Rightarrow> u32 \<Rightarrow> u64 \<Rightarrow> fork_size \<Rightarrow> fork_size" where
  "checkpoint_marker n d window current =
     grow n (merge current \<lparr>nblocks = n, dense = d, filled = window\<rparr>)"

definition cut_marker :: "u32 \<Rightarrow> fork_size \<Rightarrow> fork_size" where
  "cut_marker n current = truncate n current"

section \<open>What a marker claims\<close>

definition claims :: "fork_size \<Rightarrow> nat set" where
  "claims f = {b. b < unat (dense f)} \<union> {unat (dense f) + i |i. bit (filled f) i}"

text \<open>A marker in range claims no block beyond the fork; at rest its window starts with
  a block that is not written.\<close>

definition in_range :: "fork_size \<Rightarrow> bool" where
  "in_range f \<longleftrightarrow> dense f \<le> nblocks f \<and> (\<forall>i. bit (filled f) i \<longrightarrow> unat (dense f) + i < unat (nblocks f))"

definition at_rest :: "fork_size \<Rightarrow> bool" where
  "at_rest f \<longleftrightarrow> in_range f \<and> \<not> bit (filled f) 0"

lemma in_claims_iff:
  "b \<in> claims f \<longleftrightarrow> b < unat (dense f) \<or> (unat (dense f) \<le> b \<and> bit (filled f) (b - unat (dense f)))"
proof -
  have "(\<exists>i. b = unat (dense f) + i \<and> bit (filled f) i) \<longleftrightarrow>
      unat (dense f) \<le> b \<and> bit (filled f) (b - unat (dense f))"
    by (metis add_diff_cancel_left' le_add1 le_add_diff_inverse)
  then show ?thesis by (auto simp: claims_def)
qed

lemma takeWhile_upt_prefix:
  assumes "n = length (takeWhile P [0..<m])"
  shows "\<And>i. i < n \<Longrightarrow> P i" "n < m \<Longrightarrow> \<not> P n" "n \<le> m"
proof -
  have "length (takeWhile P [0..<m]) \<le> length [0..<m]" by (rule length_takeWhile_le)
  then show le: "n \<le> m" using assms by simp
  show "P i" if "i < n" for i
  proof -
    have "takeWhile P [0..<m] ! i = i"
      using that assms le takeWhile_nth [of i P "[0..<m]"] by simp
    moreover have "takeWhile P [0..<m] ! i \<in> set (takeWhile P [0..<m])"
      using that assms by (intro nth_mem) simp
    ultimately show "P i" by (auto dest: set_takeWhileD)
  qed
  show "\<not> P n" if "n < m"
    using nth_length_takeWhile [of P "[0..<m]"] assms that by simp
qed

lemma bit_less_64: "bit (w :: u64) i \<Longrightarrow> i < 64"
  using bit_imp_le_length [of w i] by simp

lemma walk_spec:
  assumes "in_range f"
  shows "claims (walk f) = claims f" "at_rest (walk f)" "dense f \<le> dense (walk f)"
    "nblocks (walk f) = nblocks f"
proof -
  define n where "n = trailing_ones (filled f)"
  note p = takeWhile_upt_prefix [OF n_def [unfolded trailing_ones_def]]
  show nb: "nblocks (walk f) = nblocks f" by (simp add: walk_def Let_def)
  have *: "claims (walk f) = claims f \<and> at_rest (walk f) \<and> dense f \<le> dense (walk f)"
  proof (cases "n = 0")
    case True
    then have "walk f = f" by (simp add: walk_def n_def Let_def)
    moreover have "\<not> bit (filled f) 0" using p(2) True by simp
    ultimately show ?thesis using assms by (simp add: at_rest_def)
  next
    case False
    have "bit (filled f) (n - 1)" using p(1) [of "n - 1"] False by simp
    then have room: "unat (dense f) + n \<le> unat (nblocks f)"
      using assms False by (auto simp: in_range_def)
    have u: "unat (of_nat n :: u32) = n" using p(3) by (simp add: unat_of_nat_small)
    have "unat (dense f) + n < 2 ^ 32"
      using room unat_bound [of "nblocks f"] by simp
    then have sat: "saturating_add (dense f) (of_nat n) = dense f + of_nat n"
      "unat (dense f + of_nat n) = unat (dense f) + n"
      using u by (simp_all add: saturating_add_def unat_word_ariths)
    have min: "min (dense f + of_nat n) (nblocks f) = dense f + of_nat n"
      using room sat(2) by (simp add: min_def word_le_nat_alt)
    have fil: "filled (walk f) = (if n = 64 then 0 else drop_bit n (filled f))"
    proof -
      have "(of_nat n :: u32) \<ge> WINDOW \<longleftrightarrow> n = 64"
        using u p(3) by (auto simp: WINDOW_def word_le_nat_alt)
      then show ?thesis using False by (simp add: walk_def Let_def flip: n_def)
    qed
    have den: "unat (dense (walk f)) = unat (dense f) + n"
      using False sat min by (simp add: walk_def Let_def flip: n_def)
    have bits: "bit (filled (walk f)) i \<longleftrightarrow> bit (filled f) (n + i)" for i
      using fil bit_less_64 [of "filled f" "n + i"] by (auto simp: bit_drop_bit_eq)
    have "b \<in> claims (walk f) \<longleftrightarrow> b \<in> claims f" for b
    proof (cases "b < unat (dense f) + n")
      case True
      then have "b \<in> claims f"
        using p(1) [of "b - unat (dense f)"] by (auto simp: in_claims_iff)
      with True show ?thesis by (simp add: in_claims_iff den)
    next
      case False
      then have "n + (b - (unat (dense f) + n)) = b - unat (dense f)" by simp
      with False show ?thesis by (simp add: in_claims_iff den bits)
    qed
    moreover have "\<not> bit (filled (walk f)) 0"
      using bits [of 0] p(2,3) bit_less_64 [of "filled f" n] by (cases "n = 64") auto
    moreover have "in_range (walk f)"
      using assms room den bits unfolding in_range_def nb
      by (auto simp: word_le_nat_alt add.assoc)
    ultimately show ?thesis using den by (auto simp: at_rest_def word_le_nat_alt)
  qed
  then show "claims (walk f) = claims f" "at_rest (walk f)" "dense f \<le> dense (walk f)" by auto
qed

lemma fill_spec:
  assumes rest: "at_rest f" and blk: "blk < nblocks f"
  shows "at_rest (fill blk f)" "nblocks (fill blk f) = nblocks f" "dense f \<le> dense (fill blk f)"
    "claims f \<subseteq> claims (fill blk f)" "claims (fill blk f) \<subseteq> insert (unat blk) (claims f)"
    "unat blk < unat (dense f) + 64 \<Longrightarrow> unat blk \<in> claims (fill blk f)"
proof -
  define off where "off = unat blk - unat (dense f)"
  have "at_rest (fill blk f) \<and> nblocks (fill blk f) = nblocks f \<and> dense f \<le> dense (fill blk f) \<and>
    claims f \<subseteq> claims (fill blk f) \<and> claims (fill blk f) \<subseteq> insert (unat blk) (claims f) \<and>
    (unat blk < unat (dense f) + 64 \<longrightarrow> unat blk \<in> claims (fill blk f))"
  proof (cases "blk < dense f")
    case True
    with rest show ?thesis by (auto simp: fill_def in_claims_iff word_less_nat_alt)
  next
    case False
    then have ge: "dense f \<le> blk" by simp
    have u: "unat (blk - dense f) = off" using ge by (simp add: unat_sub off_def)
    have win: "blk - dense f \<ge> WINDOW \<longleftrightarrow> 64 \<le> off"
      using u by (simp add: WINDOW_def word_le_nat_alt)
    show ?thesis
    proof (cases "64 \<le> off")
      case True
      with False win rest show ?thesis by (auto simp: fill_def off_def)
    next
      case far: False
      define g where "g = f\<lparr>filled := filled f OR push_bit off 1\<rparr>"
      have fill: "fill blk f = walk g"
        using False far win u by (simp add: fill_def Let_def g_def)
      have bits: "bit (filled g) i \<longleftrightarrow> bit (filled f) i \<or> i = off" for i
        using far by (auto simp: g_def bit_simps)
      have sum: "unat (dense f) + off = unat blk"
        using ge by (simp add: off_def word_le_nat_alt)
      have "in_range g"
        using rest bits blk sum
        by (auto simp: at_rest_def in_range_def g_def word_less_nat_alt)
      note w = walk_spec [OF this]
      have "dense g = dense f" by (simp add: g_def)
      then have "b \<in> claims g \<longleftrightarrow> b \<in> insert (unat blk) (claims f)" for b
        using sum by (auto simp: in_claims_iff bits)
      then have "claims g = insert (unat blk) (claims f)" by blast
      with w show ?thesis by (auto simp: fill g_def)
    qed
  qed
  then show "at_rest (fill blk f)" "nblocks (fill blk f) = nblocks f" "dense f \<le> dense (fill blk f)"
    "claims f \<subseteq> claims (fill blk f)" "claims (fill blk f) \<subseteq> insert (unat blk) (claims f)"
    "unat blk < unat (dense f) + 64 \<Longrightarrow> unat blk \<in> claims (fill blk f)"
    by blast+
qed

lemma grow_spec:
  assumes "at_rest f"
  shows "at_rest (grow n f)" "claims (grow n f) = claims f"
  using assms by (auto simp: grow_def at_rest_def in_range_def claims_def word_less_nat_alt
      word_le_nat_alt intro: less_le_trans)

lemma truncate_spec:
  assumes "at_rest f"
  shows "at_rest (truncate n f)" "claims (truncate n f) = claims f \<inter> {..<unat n}"
proof -
  have "at_rest (truncate n f) \<and> claims (truncate n f) = claims f \<inter> {..<unat n}"
  proof (cases "dense f > n")
    case True
    then have lt: "unat n < unat (dense f)" by (simp add: word_less_nat_alt)
    have "truncate n f = \<lparr>nblocks = n, dense = n, filled = 0\<rparr>"
      using True by (simp add: truncate_def Let_def)
    with lt show ?thesis
      by (auto simp: at_rest_def in_range_def claims_def)
  next
    case False
    then have le: "dense f \<le> n" by simp
    then have leu: "unat (dense f) \<le> unat n" by (simp add: word_le_nat_alt)
    define room where "room = unat n - unat (dense f)"
    have u: "unat (n - dense f) = room" using le by (simp add: unat_sub room_def)
    have bits: "bit (filled (truncate n f)) i \<longleftrightarrow> bit (filled f) i \<and> i < room" for i
    proof (cases "room < 64")
      case True
      then have "n - dense f < WINDOW" using u by (simp add: WINDOW_def word_less_nat_alt)
      then have "filled (truncate n f) = filled f AND mask room"
        using False u by (simp add: truncate_def Let_def mask_eq_exp_minus_1 push_bit_of_1)
      with True show ?thesis by (auto simp: bit_and_iff bit_mask_iff)
    next
      case big: False
      then have "\<not> n - dense f < WINDOW" using u by (simp add: WINDOW_def word_less_nat_alt)
      then have "filled (truncate n f) = filled f"
        using False by (simp add: truncate_def Let_def)
      with big show ?thesis using bit_less_64 [of "filled f" i] by auto
    qed
    have same: "dense (truncate n f) = dense f" "nblocks (truncate n f) = n"
      using False by (simp_all add: truncate_def Let_def)
    have "b \<in> claims (truncate n f) \<longleftrightarrow> b \<in> claims f \<inter> {..<unat n}" for b
      using leu by (auto simp: in_claims_iff same bits room_def)
    with assms le show ?thesis
      by (auto simp: at_rest_def in_range_def same bits room_def)
  qed
  then show "at_rest (truncate n f)" "claims (truncate n f) = claims f \<inter> {..<unat n}" by auto
qed

lemma merge_spec:
  assumes "at_rest f" "at_rest g"
  shows "at_rest (merge f g)" "claims (merge f g) = claims f \<union> claims g"
proof -
  have main: "at_rest (merge f g) \<and> claims (merge f g) = claims a \<union> claims b"
    if ab: "(if dense f \<ge> dense g then (f, g) else (g, f)) = (a, b)" and "at_rest a" "at_rest b" for a b
  proof -
    define N where "N = max (nblocks f) (nblocks g)"
    define shift where "shift = unat (dense a) - unat (dense b)"
    have le: "dense b \<le> dense a" "dense a \<le> N" "nblocks a \<le> N" "nblocks b \<le> N"
      using ab that(2,3)
      by (auto simp: N_def at_rest_def in_range_def max_def split: if_splits intro: order_trans)
    then have leu: "unat (dense b) + shift = unat (dense a)" by (simp add: shift_def word_le_nat_alt)
    have u: "unat (dense a - dense b) = shift" using le by (simp add: unat_sub shift_def)
    define h where "h = \<lparr>nblocks = N, dense = dense a, filled = filled a OR
        (if dense a - dense b \<ge> WINDOW then 0 else drop_bit (unat (dense a - dense b)) (filled b))\<rparr>"
    have m: "merge f g = walk h"
      using le(2) unfolding merge_def ab h_def N_def by (simp add: Let_def)
    have bits: "bit (filled h) i \<longleftrightarrow> bit (filled a) i \<or> bit (filled b) (shift + i)" for i
      using u bit_less_64 [of "filled b" "shift + i"]
      by (auto simp: h_def bit_simps WINDOW_def word_le_nat_alt)
    have "in_range h"
      using that(2,3) le leu bits unfolding in_range_def at_rest_def
      by (auto simp: h_def [THEN arg_cong, of nblocks] h_def [THEN arg_cong, of dense] word_le_nat_alt
          intro: less_le_trans)
    note w = walk_spec [OF this]
    have "x \<in> claims h \<longleftrightarrow> x \<in> claims a \<union> claims b" for x
    proof (cases "x < unat (dense a)")
      case True
      then show ?thesis by (simp add: in_claims_iff h_def)
    next
      case False
      then have "shift + (x - unat (dense a)) = x - unat (dense b)" using leu by simp
      with False leu show ?thesis
        by (auto simp: in_claims_iff bits h_def [THEN arg_cong, of dense])
    qed
    then have "claims h = claims a \<union> claims b" by blast
    with w show ?thesis by (simp add: m)
  qed
  have "at_rest (merge f g) \<and> claims (merge f g) = claims f \<union> claims g"
  proof (cases "dense f \<ge> dense g")
    case True
    then show ?thesis using main [of f g] assms by simp
  next
    case False
    then show ?thesis using main [of g f] assms by (simp add: Un_commute)
  qed
  then show "at_rest (merge f g)" "claims (merge f g) = claims f \<union> claims g" by auto
qed

lemma fork_size_fields [simp]:
  "\<lparr>nblocks = nblocks f, dense = dense f, filled = filled f\<rparr> = (f :: fork_size)"
  by simp

lemma walk_stays:
  assumes "\<not> bit (filled f) 0"
  shows "walk f = f"
proof -
  define n where "n = trailing_ones (filled f)"
  note p = takeWhile_upt_prefix [OF n_def [unfolded trailing_ones_def]]
  have "n = 0" using p(1) [of 0] assms by auto
  then show ?thesis by (simp add: walk_def Let_def n_def)
qed

lemma fs_decode_encode:
  assumes "at_rest f"
  shows "fs_decode (fs_encode f) = Some f"
proof -
  have "walk f = f" using assms by (simp add: at_rest_def walk_stays)
  moreover have "min (dense f) (nblocks f) = dense f"
    using assms by (simp add: at_rest_def in_range_def)
  ultimately show ?thesis
    by (simp add: fs_decode_def fs_encode_def Let_def)
qed

lemma at_rest_plain: "at_rest (fs_plain n)" "claims (fs_plain n) = {}"
  by (simp_all add: at_rest_def in_range_def claims_def fs_plain_def)

section \<open>The marker over time\<close>

lemma fills_spec:
  assumes "at_rest f" "\<forall>b \<in> set blks. b < nblocks f"
  shows "at_rest (fold fill blks f) \<and> nblocks (fold fill blks f) = nblocks f \<and>
    claims f \<subseteq> claims (fold fill blks f) \<and> claims (fold fill blks f) \<subseteq> claims f \<union> unat ` set blks"
  using assms
proof (induction blks arbitrary: f)
  case Nil
  then show ?case by simp
next
  case (Cons b blks)
  have "b < nblocks f" using Cons.prems by simp
  note s = fill_spec [OF Cons.prems(1) this]
  from Cons.IH [OF s(1)] Cons.prems s show ?case by auto
qed

lemma fill_run_claims:
  assumes "at_rest f" "saturating_add blk n \<le> nblocks f"
  shows "claims (fill_run blk n f) \<subseteq> claims f \<union> {unat blk..<unat (saturating_add blk n)}"
proof -
  have "unat (saturating_add blk n) < 2 ^ 32" using unat_bound [of "saturating_add blk n"] by simp
  then have u: "unat (of_nat b :: u32) = b" if "b < unat (saturating_add blk n)" for b
    using that by (intro unat_of_nat_small) simp
  have "\<forall>b \<in> set (map of_nat [unat blk..<unat (saturating_add blk n)]). b < nblocks f"
    using assms(2) u by (auto simp: word_less_nat_alt word_le_nat_alt)
  from conjunct2 [OF conjunct2 [OF conjunct2 [OF fills_spec [OF assms(1) this]]]] u
  show ?thesis unfolding fill_run_def by force
qed

text \<open>Postgres' \<open>InvalidBlockNumber\<close>, which no page has.\<close>

definition INVALID_BLOCK :: u32 where
  "INVALID_BLOCK = - 1"

lemma below_next_block: "b \<noteq> INVALID_BLOCK \<Longrightarrow> b < b + 1"
proof -
  assume "b \<noteq> INVALID_BLOCK"
  then have "unat b \<noteq> unat (- 1 :: u32)" by (simp add: INVALID_BLOCK_def word_unat_eq_iff)
  then have "unat b + 1 < 2 ^ 32"
    using unat_bound [of b] by (simp add: unsigned_minus_1_eq_mask mask_eq_exp_minus_1)
  then show "b < b + 1" by (simp add: word_less_nat_alt unat_word_ariths)
qed

lemma fold_max_ge: "(x :: u32) \<in> set xs \<Longrightarrow> x \<le> fold max xs a"
  by (subst Max.set_eq_fold [symmetric]) (auto intro!: Max_ge)

lemma drain_spec:
  assumes rest: "at_rest f" and blks: "INVALID_BLOCK \<notin> set blks"
  shows "at_rest (drain_marker buffered blks f)"
    "claims (drain_marker buffered blks f) \<subseteq> claims f \<union> unat ` set blks"
proof -
  have *: "at_rest (fold fill blks (grow n f)) \<and>
      claims (fold fill blks (grow n f)) \<subseteq> claims f \<union> unat ` set blks"
    if n: "\<forall>b \<in> set blks. b + 1 \<le> n" for n
  proof -
    have "b < nblocks (grow n f)" if "b \<in> set blks" for b
    proof -
      have "b \<noteq> INVALID_BLOCK" using that blks by auto
      then have "b < b + 1" by (rule below_next_block)
      also have "b + 1 \<le> n" using n that by blast
      also have "n \<le> nblocks (grow n f)" by (auto simp: grow_def not_less)
      finally show ?thesis .
    qed
    then show ?thesis
      using fills_spec [OF grow_spec(1) [OF rest], of blks n] grow_spec(2) [OF rest] by auto
  qed
  have top: "b + 1 \<le> fold max (map (\<lambda>blk. blk + 1) blks) 0" if "b \<in> set blks" for b
    using that by (intro fold_max_ge) simp
  then have "b + 1 \<le> max s (fold max (map (\<lambda>blk. blk + 1) blks) 0)" if "b \<in> set blks" for b s
    using that by (simp add: le_max_iff_disj)
  have "drain_marker buffered blks f = f \<and> blks = [] \<or>
      (\<exists>n. drain_marker buffered blks f = fold fill blks (grow n f) \<and> (\<forall>b \<in> set blks. b + 1 \<le> n))"
    using top \<open>\<And>b s. b \<in> set blks \<Longrightarrow> b + 1 \<le> max s (fold max (map (\<lambda>blk. blk + 1) blks) 0)\<close>
    by (cases blks; cases buffered) (auto simp: drain_marker_def Let_def simp del: fold_simps)
  then have "at_rest (drain_marker buffered blks f) \<and>
      claims (drain_marker buffered blks f) \<subseteq> claims f \<union> unat ` set blks"
    using rest * by (elim disjE exE conjE) (simp_all only: Un_upper1 simp_thms)
  then show "at_rest (drain_marker buffered blks f)"
    "claims (drain_marker buffered blks f) \<subseteq> claims f \<union> unat ` set blks" by auto
qed

lemma extend_spec:
  assumes "at_rest f" "blk \<noteq> INVALID_BLOCK"
  shows "at_rest (extend_marker pageserve blk f)"
    "claims (extend_marker pageserve blk f) \<subseteq> insert (unat blk) (claims f)"
proof -
  have "blk + 1 \<le> nblocks (grow (blk + 1) f)" by (auto simp: grow_def not_less)
  with below_next_block [OF assms(2)] have "blk < nblocks (grow (blk + 1) f)" by (rule less_le_trans)
  from fill_spec(1,5) [OF grow_spec(1) [OF assms(1)] this] grow_spec [OF assms(1)]
  show "at_rest (extend_marker pageserve blk f)"
    "claims (extend_marker pageserve blk f) \<subseteq> insert (unat blk) (claims f)"
    by (auto simp: extend_marker_def Let_def)
qed

text \<open>
  The stored marker of a fork, with the blocks that have a page in the store. A page may land
  without any word to the marker. A drain and an extension put their pages before they write the marker;
  the checkpoint's view comes from the shared table of the cluster, which is assumed to be a marker at rest that claims
  nothing false; a truncation removes the pages past its end; a reload goes through the stored bytes.
  The updates are one after the other.
\<close>

inductive fs_step :: "fork_size \<times> nat set \<Rightarrow> fork_size \<times> nat set \<Rightarrow> bool" where
  Write: "fs_step (f, W) (f, insert b W)"
| Drain: "INVALID_BLOCK \<notin> set blks \<Longrightarrow>
    fs_step (f, W) (drain_marker buffered blks f, W \<union> unat ` set blks)"
| Extend: "blk \<noteq> INVALID_BLOCK \<Longrightarrow>
    fs_step (f, W) (extend_marker pageserve blk f, insert (unat blk) W)"
| Length: "fs_step (f, W) (length_marker n f, W)"
| Checkpoint: "at_rest \<lparr>nblocks = n, dense = d, filled = window\<rparr> \<Longrightarrow>
    claims \<lparr>nblocks = n, dense = d, filled = window\<rparr> \<subseteq> W \<Longrightarrow>
    fs_step (f, W) (checkpoint_marker n d window f, W)"
| Truncate: "fs_step (f, W) (cut_marker n f, W \<inter> {..<unat n})"
| Reload: "fs_decode (fs_encode f) = Some g \<Longrightarrow> fs_step (f, W) (g, W)"

inductive_cases fs_stepE: "fs_step (f, W) s"

definition fs_sound :: "fork_size \<times> nat set \<Rightarrow> bool" where
  "fs_sound s \<longleftrightarrow> at_rest (fst s) \<and> claims (fst s) \<subseteq> snd s"

lemma fs_step_sound: "fs_step s t \<Longrightarrow> fs_sound s \<Longrightarrow> fs_sound t"
proof (induction rule: fs_step.induct)
  case (Drain blks f W buffered)
  then show ?case using drain_spec [of f blks buffered] by (auto simp: fs_sound_def)
next
  case (Extend blk f W pageserve)
  then show ?case using extend_spec [of f blk pageserve] by (auto simp: fs_sound_def)
next
  case (Checkpoint n d window W f)
  then show ?case
    by (auto simp: fs_sound_def checkpoint_marker_def merge_spec grow_spec dest!: subsetD)
next
  case (Reload f g W)
  then show ?case by (auto simp: fs_sound_def fs_decode_encode)
qed (auto simp: fs_sound_def length_marker_def cut_marker_def grow_spec truncate_spec)

lemma fs_reachable_sound: "fs_step\<^sup>*\<^sup>* s t \<Longrightarrow> fs_sound s \<Longrightarrow> fs_sound t"
  by (induction rule: rtranclp_induct) (auto intro: fs_step_sound)

section \<open>Properties\<close>

text \<open>C19. No false accusation: take the stored marker of a fork through any sequence of the page shim's updates, one
  after the other: drains, extensions and page writes of blocks other than the invalid block number, lengths on their own, checkpoint
  merges with a view at rest that claims nothing false, truncations and reloads. A block the marker calls
  written then has a page in the store.\<close>

theorem fork_size_never_overclaims:
  assumes "fs_step\<^sup>*\<^sup>* (fs_plain n, {}) (f, W)" "written f blk"
  shows "unat blk \<in> W"
proof -
  have "fs_sound (f, W)"
    using fs_reachable_sound [OF assms(1)] by (simp add: fs_sound_def at_rest_plain)
  with assms(2) show ?thesis
    by (auto simp: fs_sound_def written_def in_claims_iff word_less_nat_alt)
qed

theorem fork_size_never_overclaims_witness:
  "fs_step\<^sup>*\<^sup>* (fs_plain 0, {}) (drain_marker None [1, 0] (fs_plain 0), {} \<union> unat ` set [1, 0 :: u32]) \<and>
   written (drain_marker None [1, 0] (fs_plain 0)) 1 \<and> unat (1 :: u32) \<in> {} \<union> unat ` set [1, 0 :: u32]"
proof -
  have step: "fs_step\<^sup>*\<^sup>* (fs_plain 0, {}) (drain_marker None [1, 0] (fs_plain 0), {} \<union> unat ` set [1, 0 :: u32])"
    by (intro r_into_rtranclp fs_step.Drain) (simp add: INVALID_BLOCK_def)
  have t: "trailing_ones 2 = 0" "trailing_ones 3 = 2"
    by (simp_all add: trailing_ones_def upt_rec bit_numeral_simps)
  have "fill 1 \<lparr>nblocks = 2, dense = 0, filled = 0\<rparr> = \<lparr>nblocks = 2, dense = 0, filled = 2\<rparr>"
    "fill 0 \<lparr>nblocks = 2, dense = 0, filled = 2\<rparr> = \<lparr>nblocks = 2, dense = 2, filled = 0\<rparr>"
    by (simp_all add: fill_def walk_def Let_def WINDOW_def t saturating_add_def word_le_nat_alt drop_bit_eq_div)
  then have "drain_marker None [1, 0] (fs_plain 0) = \<lparr>nblocks = 2, dense = 2, filled = 0\<rparr>"
    by (simp add: drain_marker_def grow_def fs_plain_def max_def)
  then have "written (drain_marker None [1, 0] (fs_plain 0)) 1" by (simp add: written_def)
  with step fork_size_never_overclaims [OF step] show ?thesis by blast
qed

text \<open>The order of growing and filling matters: a marker that notes a page past its end, and the page at its end, walks over
  the first of them but shifts its window all the way, and later calls a block written that has no page.\<close>

lemma fill_past_the_end_overclaims:
  "\<not> written (fill 2 (fill 4 (fold fill [0, 1] (fs_plain 2)))) 3 \<and>
   written (fill 2 (grow 10 (fill 2 (fill 4 (fold fill [0, 1] (fs_plain 2)))))) 3"
proof -
  have t: "trailing_ones 1 = 1" "trailing_ones 3 = 2" "trailing_ones 4 = 0" "trailing_ones 5 = 1"
    by (simp_all add: trailing_ones_def upt_rec bit_numeral_simps bit_1_iff)
  note eval = fill_def walk_def Let_def WINDOW_def t saturating_add_def word_le_nat_alt drop_bit_eq_div
  have "fill 0 (fs_plain 2) = \<lparr>nblocks = 2, dense = 1, filled = 0\<rparr>"
    "fill 1 \<lparr>nblocks = 2, dense = 1, filled = 0\<rparr> = \<lparr>nblocks = 2, dense = 2, filled = 0\<rparr>"
    "fill 4 \<lparr>nblocks = 2, dense = 2, filled = 0\<rparr> = \<lparr>nblocks = 2, dense = 2, filled = 4\<rparr>"
    "fill 2 \<lparr>nblocks = 2, dense = 2, filled = 4\<rparr> = \<lparr>nblocks = 2, dense = 2, filled = 2\<rparr>"
    "fill 2 (grow 10 \<lparr>nblocks = 2, dense = 2, filled = 2\<rparr>) = \<lparr>nblocks = 10, dense = 4, filled = 0\<rparr>"
    by (simp_all add: eval fs_plain_def grow_def)
  then show ?thesis by (simp add: written_def)
qed

text \<open>A run of up to a window of blocks written back in any order is caught up when its last
  page lands: from a marker with an empty window, the count of dense blocks covers the run.\<close>

lemma fork_size_catches_up:
  assumes "at_rest f" "filled f = 0" "unat (dense f) + k \<le> unat (nblocks f)" "k \<le> 64"
    and "set bs = {unat (dense f)..<unat (dense f) + k}"
  shows "unat (dense f) + k \<le> unat (dense (fold fill (map of_nat bs) f))"
proof -
  define d where "d = unat (dense f)"
  have "at_rest g \<Longrightarrow> nblocks g = nblocks f \<Longrightarrow> d \<le> unat (dense g) \<Longrightarrow> set cs \<subseteq> {d..<d + k} \<Longrightarrow>
      at_rest (fold fill (map of_nat cs) g) \<and> d \<le> unat (dense (fold fill (map of_nat cs) g)) \<and>
      claims g \<union> set cs \<subseteq> claims (fold fill (map of_nat cs) g)" for g cs
  proof (induction cs arbitrary: g)
    case Nil
    then show ?case by simp
  next
    case (Cons c cs)
    have c: "d \<le> c" "c < d + k" using Cons.prems(4) by auto
    have u: "unat (of_nat c :: u32) = c"
      using c assms(3) unat_bound [of "nblocks f"] by (simp add: unat_of_nat_small d_def)
    have lt: "of_nat c < nblocks g"
      using c assms(3) Cons.prems(2) by (simp add: word_less_nat_alt u d_def)
    note s = fill_spec [OF Cons.prems(1) lt]
    have "c \<in> claims (fill (of_nat c) g)"
      using s(6) c assms(4) Cons.prems(3) by (simp add: u)
    moreover have "at_rest (fold fill (map of_nat cs) (fill (of_nat c) g)) \<and>
        d \<le> unat (dense (fold fill (map of_nat cs) (fill (of_nat c) g))) \<and>
        claims (fill (of_nat c) g) \<union> set cs \<subseteq> claims (fold fill (map of_nat cs) (fill (of_nat c) g))"
      using s(1,2,3) Cons.prems by (intro Cons.IH) (auto simp: word_le_nat_alt)
    ultimately show ?case using s(4) by auto
  qed
  from this [of f bs] assms
  have g: "at_rest (fold fill (map of_nat bs) f)" "d \<le> unat (dense (fold fill (map of_nat bs) f))"
    "{d..<d + k} \<subseteq> claims (fold fill (map of_nat bs) f)"
    by (auto simp: d_def)
  show ?thesis
  proof (rule ccontr)
    let ?g = "fold fill (map of_nat bs) f"
    assume "\<not> ?thesis"
    with g(2) have "unat (dense ?g) \<in> {d..<d + k}" by (simp add: d_def)
    with g show False by (auto simp: in_claims_iff at_rest_def)
  qed
qed

text \<open>A marker at rest survives its stored form.\<close>

theorem fork_size_roundtrip:
  assumes "at_rest f"
  shows "fs_decode (fs_encode f) = Some f"
  using assms by (rule fs_decode_encode)

theorem fork_size_roundtrip_witness:
  "fs_decode (fs_encode (fs_plain 7)) = Some (fs_plain 7)"
  by (rule fork_size_roundtrip [OF at_rest_plain(1)])

text \<open>Two views of a fork merge into one that claims what either claims and nothing else,
  whichever of them is ahead.\<close>

theorem merge_is_union:
  assumes "at_rest f" "at_rest g"
  shows "claims (merge f g) = claims f \<union> claims g \<and> at_rest (merge f g)"
  using merge_spec [OF assms] by simp

theorem merge_is_union_witness:
  "claims (merge (fs_plain 7) (fs_plain 9)) = {} \<and> at_rest (merge (fs_plain 7) (fs_plain 9))"
  using merge_is_union [OF at_rest_plain(1) at_rest_plain(1), of 7 9] by (simp add: at_rest_plain)

lemma trailing_ones_two:
  assumes "bit w 0" "bit w 1"
  shows "2 \<le> trailing_ones w"
proof -
  have "[0..<64] = [0, 1] @ [2..<64]" by (simp add: upt_rec)
  then show ?thesis using assms by (simp add: trailing_ones_def)
qed

lemma walk_to_end:
  assumes "2 \<le> trailing_ones (filled f)" "unat (nblocks f) = unat (dense f) + 2"
  shows "dense (walk f) = nblocks f"
proof -
  define n where "n = trailing_ones (filled f)"
  have "n \<le> 64"
    using takeWhile_upt_prefix(3) [OF n_def [unfolded trailing_ones_def]] .
  then have u: "unat (of_nat n :: u32) = n" by (simp add: unat_of_nat_small)
  have "nblocks f \<le> saturating_add (dense f) (of_nat n)"
    using assms u
    by (auto simp: saturating_add_def word_le_nat_alt [of _ "dense f + of_nat n"] unat_word_ariths n_def [symmetric])
  then show ?thesis
    using assms(1) by (simp add: walk_def Let_def n_def [symmetric])
qed

text \<open>C40. A stored marker whose \<open>dense\<close> exceeds its block count, which decoding means to tolerate, is decoded with
  \<open>dense\<close> clamped to the count and its window unchanged, so that each bit of the window stands for another block than the
  writer meant. Whenever the window's second bit is set and its first is not: once the fork grows by two blocks and only the first of
  the two is written, the marker calls the second written; when the stored \<open>dense\<close> was one above the count, this is a block the stored
  marker did not claim in any way. A truncation to the same count clears the window, and the same growth and write then claim nothing false.\<close>

theorem decode_clamp_keeps_stale_window:
  assumes "nblocks m < dense m" "\<not> bit (filled m) 0" "bit (filled m) 1"
    and "unat (nblocks m) + 2 < 2 ^ 32"
  shows "\<exists>f. fs_decode (fs_encode m) = Some f \<and> nblocks f = nblocks m \<and> dense f = nblocks m \<and> filled f = filled m \<and>
    written (fill (nblocks m) (grow (nblocks m + 2) f)) (nblocks m + 1) \<and>
    (dense m = nblocks m + 1 \<longrightarrow> unat (nblocks m + 1) \<notin> claims m) \<and>
    \<not> written (fill (nblocks m) (grow (nblocks m + 2) (truncate (nblocks m) m))) (nblocks m + 1)"
proof -
  let ?n = "nblocks m"
  define f where "f = m\<lparr>dense := ?n\<rparr>"
  have u: "unat (?n + 1) = unat ?n + 1" "unat (?n + 2) = unat ?n + 2"
    using assms(4) by (simp_all add: unat_word_ariths)
  have dec: "fs_decode (fs_encode m) = Some f"
    using assms(1) walk_stays [of f] assms(2)
    by (simp add: fs_decode_def fs_encode_def Let_def f_def min_def)
  have grown: "grow (?n + 2) f = f\<lparr>nblocks := ?n + 2\<rparr>"
    "grow (?n + 2) (truncate ?n m) = \<lparr>nblocks = ?n + 2, dense = ?n, filled = 0\<rparr>"
    using assms(1) u by (simp_all add: grow_def truncate_def f_def word_less_nat_alt Let_def)
  have fills: "fill ?n (grow (?n + 2) f) = walk (f\<lparr>nblocks := ?n + 2, filled := filled m OR 1\<rparr>)"
    "fill ?n (grow (?n + 2) (truncate ?n m)) = walk \<lparr>nblocks = ?n + 2, dense = ?n, filled = 1\<rparr>"
    by (simp_all add: grown, simp_all add: fill_def f_def WINDOW_def Let_def word_le_nat_alt)
  have "2 \<le> trailing_ones (filled m OR 1)"
    using assms(3) by (intro trailing_ones_two) (simp_all add: bit_simps)
  then have far: "dense (fill ?n (grow (?n + 2) f)) = ?n + 2"
    unfolding fills using u walk_to_end [of "f\<lparr>nblocks := ?n + 2, filled := filled m OR 1\<rparr>"] by (simp add: f_def)
  have near: "dense (fill ?n (grow (?n + 2) (truncate ?n m))) = ?n + 1"
  proof -
    have "trailing_ones 1 = 1" by (simp add: trailing_ones_def upt_rec bit_1_iff)
    then show ?thesis
      unfolding fills using u assms(4) by (simp add: walk_def saturating_add_def Let_def min_def word_le_nat_alt)
  qed
  have "unat (?n + 1) \<notin> claims m" if "dense m = ?n + 1"
    using that assms(2) by (simp add: in_claims_iff)
  then show ?thesis
    using dec far near u by (intro exI [of _ f]) (simp add: written_def f_def word_less_nat_alt)
qed

theorem decode_clamp_keeps_stale_window_witness:
  "\<exists>f. fs_decode (fs_encode \<lparr>nblocks = 1, dense = 2, filled = 2\<rparr>) = Some f \<and> written (fill 1 (grow 3 f)) 2 \<and>
     unat (2 :: u32) \<notin> claims \<lparr>nblocks = 1, dense = 2, filled = 2\<rparr>"
proof -
  have "\<not> bit (2 :: u64) 0" "bit (2 :: u64) 1" by (simp_all add: bit_numeral_simps)
  then show ?thesis
    using decode_clamp_keeps_stale_window [of "\<lparr>nblocks = 1, dense = 2, filled = 2\<rparr>"] by auto
qed

end
