(* ===== verification/Wal_Frame.thy ===== *)
theory Wal_Frame
  imports Externals
begin

text \<open>
  Frames of the shared log (crates/zou-store/src/frame.rs): the wire form, its decoder,
  the walk over a segment of frames, and the page shard a block reference routes to.
\<close>

unbundle bit_operations_syntax

definition FRAME2_HEADER_LEN :: nat where
  "FRAME2_HEADER_LEN = 49"

definition CRC_END :: nat where
  "CRC_END = 8"

definition MAX_PAYLOAD_LEN :: u32 where
  "MAX_PAYLOAD_LEN = 64 * 1024 * 1024"

definition MAX_HINTS :: u16 where
  "MAX_HINTS = 4096"

definition FLAG_CONTAINS_COMMIT :: u8 where
  "FLAG_CONTAINS_COMMIT = 1"

definition FLAG_FIRST_OF_EPOCH :: u8 where
  "FLAG_FIRST_OF_EPOCH = 2"

definition FLAG_HINTS :: u8 where
  "FLAG_HINTS = 4"

definition FLAG_UNCOMPRESSED :: u8 where
  "FLAG_UNCOMPRESSED = 8"

definition FLAG_KNOWN :: u8 where
  "FLAG_KNOWN = FLAG_CONTAINS_COMMIT OR FLAG_FIRST_OF_EPOCH OR FLAG_HINTS OR FLAG_UNCOMPRESSED"

definition HINT_LEN :: nat where
  "HINT_LEN = 9"

lemmas frame_flags =
  FLAG_CONTAINS_COMMIT_def FLAG_FIRST_OF_EPOCH_def FLAG_HINTS_def FLAG_UNCOMPRESSED_def FLAG_KNOWN_def

lemmas frame_consts =
  FRAME2_HEADER_LEN_def CRC_END_def MAX_PAYLOAD_LEN_def MAX_HINTS_def HINT_LEN_def

record block_ref =
  br_relfilenode :: u32
  br_fork :: u8
  br_block :: u32

definition page_shard :: "externals \<Rightarrow> block_ref \<Rightarrow> u32 \<Rightarrow> u32" where
  "page_shard ext b shard_count =
     crc32c ext (to_le (br_relfilenode b) @ to_le (drop_bit 14 (br_block b))) mod max shard_count 1"

record frame2 =
  fr_tenant :: u128
  fr_writer_epoch :: u32
  fr_start_lsn :: lsn
  fr_end_lsn :: lsn
  fr_contains_commit :: bool
  fr_first_of_epoch :: bool
  fr_hints :: "block_ref list"
  fr_payload :: bytes

datatype frame2_decode_error =
  FrameTruncated nat nat | BadLength u32 | UnknownFlags u8 | PayloadTooLarge u32
| TooManyHints u16 | FrameCorrupt | BadCompression

section \<open>Encoding\<close>

definition encode_hint :: "block_ref \<Rightarrow> bytes" where
  "encode_hint h = to_le (br_relfilenode h) @ [br_fork h] @ to_le (br_block h)"

definition frame_body :: "externals \<Rightarrow> frame2 \<Rightarrow> bool \<times> bytes" where
  "frame_body ext f =
     (let compressed = lz4_compress ext (fr_payload f)
      in if length compressed < length (fr_payload f) then (False, compressed)
         else (True, fr_payload f))"

definition frame_flag_bits :: "frame2 \<Rightarrow> bool \<Rightarrow> u8" where
  "frame_flag_bits f raw =
     (let flags = 0;
          flags = (if fr_contains_commit f then flags OR FLAG_CONTAINS_COMMIT else flags);
          flags = (if fr_first_of_epoch f then flags OR FLAG_FIRST_OF_EPOCH else flags);
          flags = (if fr_hints f \<noteq> [] then flags OR FLAG_HINTS else flags)
      in if raw then flags OR FLAG_UNCOMPRESSED else flags)"

text \<open>The checksum field is written last, over everything after it.\<close>

definition frame_encode :: "externals \<Rightarrow> frame2 \<Rightarrow> (bytes, frame2_decode_error) outcome" where
  "frame_encode ext f =
     (if length (fr_payload f) > unat MAX_PAYLOAD_LEN then Panic
      else if length (fr_hints f) > unat MAX_HINTS then Panic
      else
        let (raw, body) = frame_body ext f;
            hints_len = (if fr_hints f = [] then 0 else 2 + length (fr_hints f) * HINT_LEN);
            total = FRAME2_HEADER_LEN + hints_len + length body;
            rest = to_le (fr_tenant f) @ to_le (fr_writer_epoch f) @ to_le (fr_start_lsn f) @
              to_le (fr_end_lsn f) @ [frame_flag_bits f raw] @
              to_le (of_nat (length (fr_payload f)) :: u32) @
              (if fr_hints f = [] then []
               else to_le (of_nat (length (fr_hints f)) :: u16) @
                 concat (map encode_hint (fr_hints f))) @
              body
        in Ok (to_le (of_nat total :: u32) @ to_le (crc32c ext rest) @ rest))"

section \<open>Decoding\<close>

definition max_frame_len :: "externals \<Rightarrow> nat" where
  "max_frame_len ext =
     FRAME2_HEADER_LEN + 2 + unat MAX_HINTS * HINT_LEN +
     lz4_max_output ext (unat MAX_PAYLOAD_LEN)"

fun decode_hints ::
  "bytes \<Rightarrow> nat \<Rightarrow> nat \<Rightarrow> block_ref list \<Rightarrow>
   (nat \<times> block_ref list, frame2_decode_error) outcome" where
  "decode_hints buf 0 at hints = Ok (at, hints)"
| "decode_hints buf (Suc n) at hints =
     obind (slice buf at (at + 4)) (\<lambda>rel.
     obind (slice buf (at + 4) (at + 5)) (\<lambda>fork.
     obind (slice buf (at + 5) (at + 9)) (\<lambda>block.
     decode_hints buf n (at + HINT_LEN)
       (hints @ [\<lparr>br_relfilenode = from_le rel, br_fork = hd fork, br_block = from_le block\<rparr>]))))"

definition frame_hints ::
  "bytes \<Rightarrow> nat \<Rightarrow> u8 \<Rightarrow> nat \<Rightarrow> (nat \<times> block_ref list, frame2_decode_error) outcome" where
  "frame_hints buf tot flags at =
     (if flags AND FLAG_HINTS \<noteq> 0 then
        if tot < at + 2 then Err FrameCorrupt
        else
          obind (slice buf at (at + 2)) (\<lambda>c.
          let cnt = from_le c :: u16
          in if cnt > MAX_HINTS then Err (TooManyHints cnt)
             else
               let at = at + 2
               in if tot < at + unat cnt * HINT_LEN then Err FrameCorrupt
                  else decode_hints buf (unat cnt) at [])
      else Ok (at, []))"

definition frame_payload ::
  "externals \<Rightarrow> u8 \<Rightarrow> bytes \<Rightarrow> u32 \<Rightarrow> (bytes, frame2_decode_error) outcome" where
  "frame_payload ext flags body payload_len =
     (if flags AND FLAG_UNCOMPRESSED \<noteq> 0 then
        if length body \<noteq> unat payload_len then Err BadCompression else Ok body
      else
        (case lz4_decompress ext body (unat payload_len) of
           Some p \<Rightarrow> if length p = unat payload_len then Ok p else Err BadCompression
         | None \<Rightarrow> Err BadCompression))"

definition frame_decode ::
  "externals \<Rightarrow> bytes \<Rightarrow> (frame2 \<times> nat, frame2_decode_error) outcome" where
  "frame_decode ext buf =
     (if length buf < FRAME2_HEADER_LEN then Err (FrameTruncated (length buf) FRAME2_HEADER_LEN)
      else
        obind (slice buf 0 4) (\<lambda>len_bs.
        let len = from_le len_bs :: u32
        in if unat len < FRAME2_HEADER_LEN \<or> unat len > max_frame_len ext then Err (BadLength len)
           else
             let total = unat len
             in if length buf < total then Err (FrameTruncated (length buf) total)
                else
        obind (slice buf 4 8) (\<lambda>crc_bs.
        obind (slice buf CRC_END total) (\<lambda>checked.
        if crc32c ext checked \<noteq> from_le crc_bs then Err FrameCorrupt
        else
        obind (slice buf 8 24) (\<lambda>tenant.
        obind (slice buf 24 28) (\<lambda>epoch.
        obind (slice buf 28 36) (\<lambda>start_lsn.
        obind (slice buf 36 44) (\<lambda>end_lsn.
        obind (slice buf 44 45) (\<lambda>flags_bs.
        let flags = hd flags_bs
        in if flags AND NOT FLAG_KNOWN \<noteq> 0 then Err (UnknownFlags (flags AND NOT FLAG_KNOWN))
           else
        obind (slice buf 45 49) (\<lambda>plen_bs.
        let payload_len = from_le plen_bs :: u32
        in if payload_len > MAX_PAYLOAD_LEN then Err (PayloadTooLarge payload_len)
           else
        obind (frame_hints buf total flags FRAME2_HEADER_LEN) (\<lambda>(at, hints).
        obind (slice buf at total) (\<lambda>body.
        obind (frame_payload ext flags body payload_len) (\<lambda>payload.
        Ok (\<lparr>fr_tenant = from_le tenant, fr_writer_epoch = from_le epoch,
             fr_start_lsn = from_le start_lsn, fr_end_lsn = from_le end_lsn,
             fr_contains_commit = (flags AND FLAG_CONTAINS_COMMIT \<noteq> 0),
             fr_first_of_epoch = (flags AND FLAG_FIRST_OF_EPOCH \<noteq> 0),
             fr_hints = hints, fr_payload = payload\<rparr>, total))))))))))))))"

section \<open>The stream\<close>

definition frame_next ::
  "externals \<Rightarrow> bytes \<Rightarrow> (frame2, frame2_decode_error) outcome option \<times> bytes" where
  "frame_next ext buf =
     (if buf = [] then (None, buf)
      else
        (case frame_decode ext buf of
           Ok (f, consumed) \<Rightarrow>
             (case slice buf consumed (length buf) of
                Ok rest \<Rightarrow> (Some (Ok f), rest)
              | Err e \<Rightarrow> (Some (Err e), [])
              | Panic \<Rightarrow> (Some Panic, []))
         | Err e \<Rightarrow> (Some (Err e), [])
         | Panic \<Rightarrow> (Some Panic, [])))"

section \<open>Round trip\<close>

definition frame_ok :: "frame2 \<Rightarrow> bool" where
  "frame_ok f \<longleftrightarrow> length (fr_payload f) \<le> unat MAX_PAYLOAD_LEN \<and> length (fr_hints f) \<le> unat MAX_HINTS"

lemma unat_frame_caps: "unat MAX_PAYLOAD_LEN = 67108864" "unat MAX_HINTS = 4096"
  by (simp_all add: frame_consts)

lemma length_encode_hint [simp]: "length (encode_hint h) = 9"
  by (simp add: encode_hint_def)

lemma length_encode_hints [simp]: "length (concat (map encode_hint hs)) = 9 * length hs"
  by (induction hs) auto

lemma block_ref_fields [simp]:
  "\<lparr>br_relfilenode = br_relfilenode h, br_fork = br_fork h, br_block = br_block h\<rparr> = (h :: block_ref)"
  by simp

lemma decode_hints_encode:
  assumes "drop at buf = concat (map encode_hint hs) @ post" "at \<le> length buf"
  shows "decode_hints buf (length hs) at acc = Ok (at + 9 * length hs, acc @ hs)"
  using assms
proof (induction hs arbitrary: at acc)
  case Nil
  then show ?case by simp
next
  case (Cons h hs)
  define rest where "rest = concat (map encode_hint hs) @ post"
  have drop: "drop at buf = to_le (br_relfilenode h) @ [br_fork h] @ to_le (br_block h) @ rest"
    using Cons.prems(1) by (simp add: encode_hint_def [of h] rest_def)
  have len: "at + 9 \<le> length buf"
    using arg_cong [OF drop, of length] Cons.prems(2) by simp
  have part: "take n (drop (at + i) buf) = take n (drop i (drop at buf))" for n i
    by (simp add: add.commute)
  have "slice buf at (at + 4) = (Ok (to_le (br_relfilenode h)) :: (_, frame2_decode_error) outcome)"
    "slice buf (at + 4) (at + 5) = (Ok [br_fork h] :: (_, frame2_decode_error) outcome)"
    "slice buf (at + 5) (at + 9) = (Ok (to_le (br_block h)) :: (_, frame2_decode_error) outcome)"
    using len part [of 4 0] part [of 1 4] part [of 4 5] by (simp_all add: slice_def drop)
  moreover have "drop (at + 9) buf = rest"
    using arg_cong [OF drop, of "drop 9"] by (simp add: add.commute)
  then have "decode_hints buf (length hs) (at + 9) (acc @ [h]) =
      Ok (at + 9 + 9 * length hs, (acc @ [h]) @ hs)"
    using len by (intro Cons.IH) (simp_all add: rest_def)
  ultimately show ?case by (simp add: HINT_LEN_def)
qed

lemma frame_flag_bits_read:
  "frame_flag_bits f raw AND NOT FLAG_KNOWN = 0"
  "(frame_flag_bits f raw AND FLAG_CONTAINS_COMMIT \<noteq> 0) = fr_contains_commit f"
  "(frame_flag_bits f raw AND FLAG_FIRST_OF_EPOCH \<noteq> 0) = fr_first_of_epoch f"
  "(frame_flag_bits f raw AND FLAG_HINTS \<noteq> 0) \<longleftrightarrow> fr_hints f \<noteq> []"
  "(frame_flag_bits f raw AND FLAG_UNCOMPRESSED \<noteq> 0) = raw"
  by (simp_all add: frame_flag_bits_def frame_flags Let_def)

lemma frame_payload_body:
  assumes "lz4_faithful ext" "frame_ok f" "frame_body ext f = (raw, body)"
  shows "frame_payload ext (frame_flag_bits f raw) body (of_nat (length (fr_payload f))) =
    Ok (fr_payload f)"
proof -
  have u: "unat (of_nat (length (fr_payload f)) :: u32) = length (fr_payload f)"
    using assms(2) by (simp add: frame_ok_def unat_frame_caps unat_of_nat_small)
  show ?thesis
    using assms(1,3) frame_flag_bits_read(5) [of f raw]
    by (auto simp: frame_payload_def u frame_body_def Let_def lz4_faithful_def split: if_splits)
qed

text \<open>The bytes of a frame, split where the decoder looks.\<close>

definition hint_bytes :: "frame2 \<Rightarrow> bytes" where
  "hint_bytes f =
     (if fr_hints f = [] then []
      else to_le (of_nat (length (fr_hints f)) :: u16) @ concat (map encode_hint (fr_hints f)))"

lemma frame_hints_bytes:
  assumes "frame_ok f" "drop 49 buf = hint_bytes f @ post" "49 \<le> length buf"
    and "49 + length (hint_bytes f) \<le> tot"
  shows "frame_hints buf tot (frame_flag_bits f raw) 49 = Ok (49 + length (hint_bytes f), fr_hints f)"
proof (cases "fr_hints f = []")
  case True
  then show ?thesis
    using frame_flag_bits_read(4) [of f raw] by (simp add: frame_hints_def hint_bytes_def)
next
  case False
  let ?n = "length (fr_hints f)"
  have u: "unat (of_nat ?n :: u16) = ?n"
    using assms(1) by (simp add: frame_ok_def unat_frame_caps unat_of_nat_small)
  have drop: "drop 49 buf = to_le (of_nat ?n :: u16) @ concat (map encode_hint (fr_hints f)) @ post"
    using False assms(2) by (simp add: hint_bytes_def)
  have len: "length buf = 51 + 9 * ?n + length post"
    using arg_cong [OF drop, of length] assms(3) by simp
  have cnt: "slice buf 49 51 = (Ok (to_le (of_nat ?n :: u16)) :: (_, frame2_decode_error) outcome)"
    using len drop by (simp add: slice_def)
  have max: "\<not> MAX_HINTS < (of_nat ?n :: u16)"
    using assms(1) u by (simp add: frame_ok_def word_less_nat_alt)
  have "drop 51 buf = concat (map encode_hint (fr_hints f)) @ post"
    using arg_cong [OF drop, of "drop 2"] by simp
  then have "decode_hints buf ?n 51 [] = Ok (51 + 9 * ?n, fr_hints f)"
    using decode_hints_encode [of 51 buf "fr_hints f" post "[]"] len by simp
  then show ?thesis
    using False cnt max u assms(4) frame_flag_bits_read(4) [of f raw]
    by (simp add: frame_hints_def hint_bytes_def HINT_LEN_def Let_def)
qed

lemma frame_encode_Ok:
  assumes "frame_ok f" "frame_body ext f = (raw, body)"
    and rest: "rest = to_le (fr_tenant f) @ to_le (fr_writer_epoch f) @ to_le (fr_start_lsn f) @
      to_le (fr_end_lsn f) @ [frame_flag_bits f raw] @ to_le (of_nat (length (fr_payload f)) :: u32) @
      hint_bytes f @ body"
  shows "frame_encode ext f =
    Ok (to_le (of_nat (8 + length rest) :: u32) @ to_le (crc32c ext rest) @ rest)"
  using assms(1,2) unfolding frame_encode_def
  by (simp add: frame_ok_def not_less Let_def rest hint_bytes_def FRAME2_HEADER_LEN_def HINT_LEN_def
      ac_simps)

lemma frame_body_length: "frame_body ext f = (raw, body) \<Longrightarrow> length body \<le> length (fr_payload f)"
  by (auto simp: frame_body_def Let_def split: if_splits)

lemma hint_bytes_length:
  "frame_ok f \<Longrightarrow> length (hint_bytes f) \<le> 36866"
  by (simp add: hint_bytes_def frame_ok_def unat_frame_caps)

lemma frame_roundtrip_aux:
  assumes ext: "lz4_faithful ext" "lz4_bounded ext" and ok: "frame_ok f"
  shows "\<exists>bs. frame_encode ext f = Ok bs \<and> 49 \<le> length bs \<and> length bs \<le> max_frame_len ext \<and>
    take 4 bs = to_le (of_nat (length bs) :: u32) \<and> length bs < 2 ^ 32 \<and>
    (\<forall>post. frame_decode ext (bs @ post) = Ok (f, length bs))"
proof -
  obtain raw body where body: "frame_body ext f = (raw, body)" by fastforce
  define n where "n = length (fr_payload f)"
  define rest where "rest = to_le (fr_tenant f) @ to_le (fr_writer_epoch f) @ to_le (fr_start_lsn f) @
      to_le (fr_end_lsn f) @ [frame_flag_bits f raw] @ to_le (of_nat n :: u32) @ hint_bytes f @ body"
  define L where "L = 8 + length rest"
  define bs where "bs = to_le (of_nat L :: u32) @ to_le (crc32c ext rest) @ rest"
  have enc: "frame_encode ext f = Ok bs"
    unfolding bs_def L_def by (rule frame_encode_Ok [OF ok body]) (simp add: rest_def n_def)
  have len: "length bs = 49 + length (hint_bytes f) + length body"
    by (simp add: bs_def rest_def)
  have nmax: "n \<le> 67108864" using ok by (simp add: n_def frame_ok_def unat_frame_caps)
  have cap: "length bs \<le> 49 + 36866 + n"
    using len frame_body_length [OF body] hint_bytes_length [OF ok] by (simp add: n_def)
  have max: "length bs \<le> max_frame_len ext"
  proof -
    have "67108864 \<le> lz4_max_output ext 67108864" using ext(2) by (simp add: lz4_bounded_def)
    with cap nmax show ?thesis
      by (simp add: max_frame_len_def unat_frame_caps FRAME2_HEADER_LEN_def HINT_LEN_def)
  qed
  have L: "L = length bs" by (simp add: L_def bs_def)
  have u: "unat (of_nat L :: u32) = length bs"
    using cap nmax L by (simp add: unat_of_nat_small)
  have dec: "frame_decode ext (bs @ post) = Ok (f, length bs)" for post
  proof -
    define buf where "buf = bs @ post"
    have buf: "buf = to_le (of_nat L :: u32) @ to_le (crc32c ext rest) @
        to_le (fr_tenant f) @ to_le (fr_writer_epoch f) @ to_le (fr_start_lsn f) @
        to_le (fr_end_lsn f) @ [frame_flag_bits f raw] @ to_le (of_nat n :: u32) @
        hint_bytes f @ body @ post"
      by (simp add: buf_def bs_def rest_def)
    have blen: "length buf = length bs + length post" "49 \<le> length bs" by (simp_all add: buf_def len)
    have slices:
      "slice buf 0 4 = (Ok (to_le (of_nat L :: u32)) :: (_, frame2_decode_error) outcome)"
      "slice buf 4 8 = (Ok (to_le (crc32c ext rest)) :: (_, frame2_decode_error) outcome)"
      "slice buf 8 24 = (Ok (to_le (fr_tenant f)) :: (_, frame2_decode_error) outcome)"
      "slice buf 24 28 = (Ok (to_le (fr_writer_epoch f)) :: (_, frame2_decode_error) outcome)"
      "slice buf 28 36 = (Ok (to_le (fr_start_lsn f)) :: (_, frame2_decode_error) outcome)"
      "slice buf 36 44 = (Ok (to_le (fr_end_lsn f)) :: (_, frame2_decode_error) outcome)"
      "slice buf 44 45 = (Ok [frame_flag_bits f raw] :: (_, frame2_decode_error) outcome)"
      "slice buf 45 49 = (Ok (to_le (of_nat n :: u32)) :: (_, frame2_decode_error) outcome)"
      using blen by (simp_all add: slice_def) (simp_all add: buf)
    have checked: "slice buf 8 (length bs) = (Ok rest :: (_, frame2_decode_error) outcome)"
      using blen by (simp add: slice_def buf_def) (simp add: bs_def)
    have tail: "slice buf (49 + length (hint_bytes f)) (length bs) =
        (Ok body :: (_, frame2_decode_error) outcome)"
    proof -
      define pre where "pre = take 49 buf"
      have "buf = pre @ hint_bytes f @ body @ post" "length pre = 49"
        by (simp_all add: pre_def buf)
      then show ?thesis using len by (simp add: slice_def)
    qed
    have hints: "frame_hints buf (length bs) (frame_flag_bits f raw) 49 =
        Ok (49 + length (hint_bytes f), fr_hints f)"
      using ok blen len by (intro frame_hints_bytes [where post = "body @ post"]) (simp_all add: buf)
    have pmax: "\<not> MAX_PAYLOAD_LEN < (of_nat n :: u32)"
      using nmax by (simp add: word_less_nat_alt unat_frame_caps unat_of_nat_small)
    have "frame_decode ext buf = Ok (f, length bs)"
      unfolding frame_decode_def
      using blen max slices checked tail hints pmax frame_flag_bits_read [of f raw]
        frame_payload_body [OF ext(1) ok body]
      by (simp add: FRAME2_HEADER_LEN_def CRC_END_def Let_def u n_def)
    then show ?thesis by (simp add: buf_def)
  qed
  have "take 4 bs = to_le (of_nat (length bs) :: u32)"
    unfolding L [symmetric] by (simp add: bs_def)
  with enc dec max cap nmax len show ?thesis by auto
qed

section \<open>Arbitrary bytes\<close>

lemma decode_hints_total:
  "at + 9 * n \<le> length buf \<Longrightarrow> \<exists>hs. decode_hints buf n at acc = Ok (at + 9 * n, hs)"
proof (induction n arbitrary: at acc)
  case 0
  then show ?case by simp
next
  case (Suc n)
  then have "(at + 9) + 9 * n \<le> length buf" by simp
  with Suc.prems Suc.IH [OF this] show ?case
    by (auto simp: slice_def HINT_LEN_def add.assoc)
qed

lemma frame_hints_cases:
  assumes "tot \<le> length buf" "49 \<le> tot"
  shows "(\<exists>at hs. frame_hints buf tot flags 49 = Ok (at, hs) \<and> at \<le> tot) \<or>
    (\<exists>e. frame_hints buf tot flags 49 = Err e)"
proof (cases "flags AND FLAG_HINTS \<noteq> 0 \<and> 51 \<le> tot")
  case True
  define cnt where "cnt = (from_le (take 2 (drop 49 buf)) :: u16)"
  have c: "slice buf 49 51 = (Ok (take 2 (drop 49 buf)) :: (_, frame2_decode_error) outcome)"
    using assms True by (simp add: slice_def)
  show ?thesis
  proof (cases "cnt > MAX_HINTS \<or> tot < 51 + unat cnt * 9")
    case True
    then show ?thesis
      using c \<open>flags AND FLAG_HINTS \<noteq> 0 \<and> 51 \<le> tot\<close>
      by (auto simp: frame_hints_def Let_def HINT_LEN_def simp flip: cnt_def)
  next
    case False
    then have "51 + 9 * unat cnt \<le> length buf" using assms by simp
    then obtain hs where "decode_hints buf (unat cnt) 51 [] = Ok (51 + 9 * unat cnt, hs)"
      using decode_hints_total by blast
    with False c \<open>flags AND FLAG_HINTS \<noteq> 0 \<and> 51 \<le> tot\<close> show ?thesis
      by (auto simp: frame_hints_def Let_def HINT_LEN_def simp flip: cnt_def)
  qed
next
  case False
  then show ?thesis using assms by (auto simp: frame_hints_def)
qed

lemma frame_payload_not_Panic [simp]: "frame_payload ext flags body n \<noteq> Panic"
  by (auto simp: frame_payload_def split: option.splits)

lemma frame_decode_cases:
  "(\<exists>f n. frame_decode ext buf = Ok (f, n) \<and> 49 \<le> n \<and> n \<le> length buf) \<or>
   (\<exists>e. frame_decode ext buf = Err e)"
proof (cases "frame_decode ext buf")
  case (Ok r)
  then show ?thesis
    by (auto simp: frame_decode_def obind_Ok_iff Let_def FRAME2_HEADER_LEN_def not_less
        split: if_splits prod.splits)
next
  case (Err e)
  then show ?thesis by simp
next
  case Panic
  define tot where "tot = unat (from_le (take 4 buf) :: u32)"
  have at: "at \<le> tot" if "frame_hints buf tot flags 49 = Ok (at, hs)" "tot \<le> length buf" "49 \<le> tot"
    for flags at hs
    using frame_hints_cases [OF that(2,3), of flags] that(1) by auto
  have np: "frame_hints buf tot flags 49 \<noteq> Panic" if "tot \<le> length buf" "49 \<le> tot" for flags
    using frame_hints_cases [OF that, of flags] by auto
  from Panic have False
    using at np
    by (auto simp: frame_decode_def obind_Panic_iff Let_def FRAME2_HEADER_LEN_def CRC_END_def
        slice_def not_less tot_def [symmetric] split: if_splits prod.splits)
  then show ?thesis ..
qed

section \<open>Segments of frames\<close>

lemma frame_next_frame:
  assumes "frame_decode ext (bs @ post) = Ok (f, length bs)" "bs \<noteq> []"
  shows "frame_next ext (bs @ post) = (Some (Ok f), post)"
  using assms by (simp add: frame_next_def slice_def)

text \<open>A strict prefix of a frame is a truncated frame.\<close>

lemma frame_decode_prefix:
  assumes "49 \<le> length bs" "length bs \<le> max_frame_len ext" "length bs < 2 ^ 32"
    and "take 4 bs = to_le (of_nat (length bs) :: u32)" "n < length bs"
  shows "\<exists>need. n < need \<and> frame_decode ext (take n bs) = Err (FrameTruncated n need)"
proof (cases "n < 49")
  case True
  then show ?thesis using assms by (auto simp: frame_decode_def FRAME2_HEADER_LEN_def)
next
  case False
  then have "take 4 (take n bs) = to_le (of_nat (length bs) :: u32)"
    using assms(4) by (simp add: min_def)
  moreover have "unat (of_nat (length bs) :: u32) = length bs"
    using assms(3) by (simp add: unat_of_nat_small)
  ultimately show ?thesis
    using False assms by (auto simp: frame_decode_def FRAME2_HEADER_LEN_def slice_def Let_def min_def)
qed

fun encode_all :: "externals \<Rightarrow> frame2 list \<Rightarrow> (bytes, frame2_decode_error) outcome" where
  "encode_all ext [] = Ok []"
| "encode_all ext (f # fs) =
     obind (frame_encode ext f) (\<lambda>bs. obind (encode_all ext fs) (\<lambda>rest. Ok (bs @ rest)))"

lemma frame_stream_tail:
  assumes ext: "lz4_faithful ext" "lz4_bounded ext"
    and "list_all frame_ok fs" "length fs < n"
  shows "\<exists>seg. encode_all ext fs = Ok seg \<and>
    stream_of (frame_next ext) n (seg @ tail) =
      map Ok fs @ stream_of (frame_next ext) (n - length fs) tail"
  using assms(3,4)
proof (induction fs arbitrary: n)
  case Nil
  then show ?case by simp
next
  case (Cons f fs)
  obtain bs where bs: "frame_encode ext f = Ok bs" "49 \<le> length bs"
    "\<And>post. frame_decode ext (bs @ post) = Ok (f, length bs)"
    using frame_roundtrip_aux [OF ext, of f] Cons.prems by auto
  obtain k where k: "n = Suc k" using Cons.prems by (cases n) auto
  with Cons obtain seg where seg: "encode_all ext fs = Ok seg"
    "stream_of (frame_next ext) k (seg @ tail) =
      map Ok fs @ stream_of (frame_next ext) (k - length fs) tail"
    by auto
  have "frame_next ext ((bs @ seg) @ tail) = (Some (Ok f), seg @ tail)"
    using frame_next_frame [OF bs(3), of "seg @ tail"] bs(2) by (cases bs) auto
  with bs(1) seg k show ?case by (simp del: append_assoc)
qed

section \<open>Properties\<close>

definition sample_frame :: frame2 where
  "sample_frame =
     \<lparr>fr_tenant = 77, fr_writer_epoch = 3, fr_start_lsn = 0x100, fr_end_lsn = 0x180,
      fr_contains_commit = True, fr_first_of_epoch = False,
      fr_hints = [\<lparr>br_relfilenode = 16384, br_fork = 0, br_block = 12\<rparr>],
      fr_payload = [1, 2, 3, 4]\<rparr>"

lemma sample_frame_ok: "frame_ok sample_frame"
  by (simp add: frame_ok_def sample_frame_def unat_frame_caps)

text \<open>C21. A frame within the caps always encodes, and decoding from the front of any buffer that
  starts with it gives the frame and its exact length.\<close>

theorem frame_roundtrip:
  assumes "lz4_faithful ext" "lz4_bounded ext" "frame_ok f"
  shows "\<exists>bs. frame_encode ext f = Ok bs \<and> frame_decode ext (bs @ post) = Ok (f, length bs)"
  using frame_roundtrip_aux [OF assms] by blast

theorem frame_roundtrip_witness:
  "\<exists>bs. frame_encode sample_ext sample_frame = Ok bs \<and>
     frame_decode sample_ext (bs @ [1, 2]) = Ok (sample_frame, length bs)"
  by (rule frame_roundtrip [OF sample_ext_faithful sample_ext_bounded sample_frame_ok])

text \<open>No bytes from the network make the frame decoder panic, and what it accepts it
  consumes within the buffer and makes progress on.\<close>

lemma frame_decode_total:
  "frame_decode ext buf \<noteq> Panic \<and>
   (\<forall>f n. frame_decode ext buf = Ok (f, n) \<longrightarrow> 49 \<le> n \<and> n \<le> length buf)"
  using frame_decode_cases [of ext buf] by auto

text \<open>A segment of frames with a torn last frame reads as the whole frames, one truncation
  error, and the end.\<close>

lemma torn_segment_reads:
  assumes "lz4_faithful ext" "lz4_bounded ext" "list_all frame_ok (fs @ [f])"
    and "frame_encode ext f = Ok bs" "0 < n" "n < length bs"
  shows "\<exists>seg need. encode_all ext fs = Ok seg \<and>
    stream_of (frame_next ext) (length fs + 2) (seg @ take n bs) =
      map Ok fs @ [Err (FrameTruncated n need)]"
proof -
  obtain bs' where "frame_encode ext f = Ok bs'" "49 \<le> length bs'" "length bs' \<le> max_frame_len ext"
    "take 4 bs' = to_le (of_nat (length bs') :: u32)" "length bs' < 2 ^ 32"
    using frame_roundtrip_aux [OF assms(1,2), of f] assms(3) by auto
  then obtain need where need: "frame_decode ext (take n bs) = Err (FrameTruncated n need)"
    using frame_decode_prefix [of bs ext n] assms(4,6) by auto
  have "take n bs \<noteq> []" using assms(5,6) by auto
  with need have "stream_of (frame_next ext) (Suc (Suc 0)) (take n bs) = [Err (FrameTruncated n need)]"
    by (simp add: frame_next_def)
  with frame_stream_tail [OF assms(1,2), of fs "length fs + 2" "take n bs"] assms(3) show ?thesis
    by (auto simp: numeral_2_eq_2)
qed

text \<open>Page placement is in range and stripe local: every block maps below the shard count,
  and the forks and the 16384 blocks of one stripe of a relation map together.\<close>

theorem page_shard_stripe:
  assumes "0 < shards" "br_relfilenode a = br_relfilenode b"
    and "unat (br_block a) div 16384 = unat (br_block b) div 16384"
  shows "page_shard ext a shards < shards \<and> page_shard ext a shards = page_shard ext b shards"
proof -
  have "unat (drop_bit 14 (br_block x)) = unat (br_block x) div 16384" for x :: block_ref
    by (subst unat_drop_bit_eq) (simp add: drop_bit_eq_div)
  then have "drop_bit 14 (br_block a) = drop_bit 14 (br_block b)"
    using assms(3) by (simp add: word_unat_eq_iff)
  moreover have "max shards 1 = shards"
    using assms(1) by (auto simp: max_def word_le_nat_alt word_less_nat_alt word_unat_eq_iff)
  ultimately show ?thesis
    using assms(1,2) by (simp add: page_shard_def word_less_nat_alt unat_mod)
qed

theorem page_shard_stripe_witness:
  "page_shard sample_ext \<lparr>br_relfilenode = 9, br_fork = 0, br_block = 5\<rparr> 4 =
   page_shard sample_ext \<lparr>br_relfilenode = 9, br_fork = 2, br_block = 77\<rparr> 4"
  using page_shard_stripe [of 4 "\<lparr>br_relfilenode = 9, br_fork = 0, br_block = 5\<rparr>"
      "\<lparr>br_relfilenode = 9, br_fork = 2, br_block = 77\<rparr>" sample_ext] by simp

end
