(* ===== verification/Tenant_Layout.thy ===== *)
theory Tenant_Layout
  imports Layer_Map
begin

text \<open>
  The key layout of one tenant's prefix (crates/zou-store/src/layout.rs): every key
  builder, the tenant id of the shared log, and the test for keys that are never
  overwritten.
\<close>

text \<open>\<open>u128::from_be_bytes\<close> of the first 16 bytes of the digest.\<close>

definition as_bytes :: "string \<Rightarrow> bytes" where
  "as_bytes s = map of_char s"

definition tenant_id :: "externals \<Rightarrow> string \<Rightarrow> u128" where
  "tenant_id ext tenant_ref = from_le (rev (take 16 (sha256 ext (as_bytes tenant_ref))))"

record tenant_layout =
  tl_prefix :: string

definition layout_new :: "string \<Rightarrow> tenant_layout" where
  "layout_new tenant_ref = \<lparr>tl_prefix = ''tenants/'' @ tenant_ref\<rparr>"

definition layout_tenant_ref :: "tenant_layout \<Rightarrow> string" where
  "layout_tenant_ref t =
     (case strip_prefix ''tenants/'' (tl_prefix t) of Some r \<Rightarrow> r | None \<Rightarrow> tl_prefix t)"

definition dec :: "nat \<Rightarrow> string" where
  "dec n = num_text False 10 n"

definition log_prefix :: "tenant_layout \<Rightarrow> string" where
  "log_prefix t = tl_prefix t @ ''/log''"

definition layout_manifest :: "tenant_layout \<Rightarrow> string" where
  "layout_manifest t = tl_prefix t @ ''/MANIFEST''"

definition manifest_history :: "tenant_layout \<Rightarrow> u64 \<Rightarrow> u64 \<Rightarrow> string" where
  "manifest_history t epoch unix =
     tl_prefix t @ ''/manifests/'' @ pad 16 (dec (unat epoch)) @ ''-'' @ pad 16 (dec (unat unix)) @
     ''.json''"

definition manifests_dir :: "tenant_layout \<Rightarrow> string" where
  "manifests_dir t = tl_prefix t @ ''/manifests/''"

definition chk_file :: "tenant_layout \<Rightarrow> string \<Rightarrow> string \<Rightarrow> string" where
  "chk_file t chk relpath = tl_prefix t @ ''/chk/'' @ chk @ ''/fs/'' @ relpath"

definition chk_index :: "tenant_layout \<Rightarrow> string \<Rightarrow> string" where
  "chk_index t chk = tl_prefix t @ ''/chk/'' @ chk @ ''/INDEX''"

definition chk_waltail :: "tenant_layout \<Rightarrow> string \<Rightarrow> string" where
  "chk_waltail t chk = tl_prefix t @ ''/chk/'' @ chk @ ''/WALTAIL''"

definition pg_fork_prefix :: "tenant_layout \<Rightarrow> u32 \<Rightarrow> u32 \<Rightarrow> u32 \<Rightarrow> u32 \<Rightarrow> string" where
  "pg_fork_prefix t spc db rel fork =
     tl_prefix t @ ''/pg/'' @ dec (unat spc) @ ''/'' @ dec (unat db) @ ''/'' @ dec (unat rel) @ ''/'' @
     dec (unat fork)"

definition pg_block :: "tenant_layout \<Rightarrow> u32 \<Rightarrow> u32 \<Rightarrow> u32 \<Rightarrow> u32 \<Rightarrow> u32 \<Rightarrow> string" where
  "pg_block t spc db rel fork blk =
     pg_fork_prefix t spc db rel fork @ ''/'' @ pad 8 (num_text True 16 (unat blk))"

definition pg_size :: "tenant_layout \<Rightarrow> u32 \<Rightarrow> u32 \<Rightarrow> u32 \<Rightarrow> u32 \<Rightarrow> string" where
  "pg_size t spc db rel fork = pg_fork_prefix t spc db rel fork @ ''/SIZE''"

definition pg_dir :: "tenant_layout \<Rightarrow> string" where
  "pg_dir t = tl_prefix t @ ''/pg/''"

definition checkpoint_page_index :: "tenant_layout \<Rightarrow> string \<Rightarrow> string" where
  "checkpoint_page_index t chk = tl_prefix t @ ''/chk/'' @ chk @ ''/PAGES''"

definition checkpoint_pages :: "tenant_layout \<Rightarrow> string \<Rightarrow> u32 \<Rightarrow> string" where
  "checkpoint_pages t chk n = tl_prefix t @ ''/chk/'' @ chk @ ''/'' @ pad 8 (dec (unat n)) @ ''.pages''"

definition files_prefix :: "tenant_layout \<Rightarrow> string" where
  "files_prefix t = tl_prefix t @ ''/files/''"

definition functions_manifest :: "tenant_layout \<Rightarrow> string" where
  "functions_manifest t = tl_prefix t @ ''/functions/DEPLOYED''"

definition functions_blob :: "tenant_layout \<Rightarrow> string \<Rightarrow> string" where
  "functions_blob t sha = tl_prefix t @ ''/functions/blobs/'' @ sha"

definition functions_prefix :: "tenant_layout \<Rightarrow> string" where
  "functions_prefix t = tl_prefix t @ ''/functions/''"

definition functions_secrets :: "tenant_layout \<Rightarrow> string" where
  "functions_secrets t = tl_prefix t @ ''/functions/SECRETS''"

definition shard_prefix :: "tenant_layout \<Rightarrow> u16 \<Rightarrow> string" where
  "shard_prefix t shard = tl_prefix t @ ''/shards/'' @ hex_fixed shard @ ''/''"

definition shards_dir :: "tenant_layout \<Rightarrow> string" where
  "shards_dir t = tl_prefix t @ ''/shards/''"

definition shard_manifest_key :: "tenant_layout \<Rightarrow> u16 \<Rightarrow> string" where
  "shard_manifest_key t shard = shard_prefix t shard @ ''SHARD''"

definition delta_layer_key ::
  "tenant_layout \<Rightarrow> u16 \<Rightarrow> layer_key \<Rightarrow> layer_key \<Rightarrow> lsn \<Rightarrow> lsn \<Rightarrow> string" where
  "delta_layer_key t shard key_min key_max lsn_min lsn_max =
     shard_prefix t shard @ ''d-'' @ key_hex key_min @ ''-'' @ key_hex key_max @ ''-'' @
     hex_fixed lsn_min @ ''-'' @ hex_fixed lsn_max @ ''.dl''"

definition image_layer_key ::
  "tenant_layout \<Rightarrow> u16 \<Rightarrow> layer_key \<Rightarrow> layer_key \<Rightarrow> lsn \<Rightarrow> string" where
  "image_layer_key t shard key_min key_max lsn =
     shard_prefix t shard @ ''i-'' @ key_hex key_min @ ''-'' @ key_hex key_max @ ''-'' @
     hex_fixed lsn @ ''.il''"

definition is_immutable :: "tenant_layout \<Rightarrow> string \<Rightarrow> bool" where
  "is_immutable t key \<longleftrightarrow>
     starts_with (tl_prefix t) key \<and>
     key \<noteq> layout_manifest t \<and>
     key \<noteq> functions_manifest t \<and>
     key \<noteq> functions_secrets t \<and>
     \<not> (ends_with ''/SHARD'' key \<and> starts_with (tl_prefix t @ ''/shards/'') key)"

section \<open>Properties\<close>

lemma layout_tenant_ref_new: "layout_tenant_ref (layout_new r) = r"
  by (simp add: layout_tenant_ref_def layout_new_def strip_prefix_def)

lemma layer_keys_are_names:
  "delta_layer_key t shard (ld_min_key l) (ld_max_key l) (ld_min_lsn l) (ld_max_lsn l) =
     shard_prefix t shard @ layer_name (l\<lparr>ld_kind := Delta\<rparr>)"
  "image_layer_key t shard (ld_min_key l) (ld_max_key l) (ld_min_lsn l) =
     shard_prefix t shard @ layer_name (l\<lparr>ld_kind := Image\<rparr>)"
  by (simp_all add: delta_layer_key_def image_layer_key_def layer_name_def)

lemma not_ends_with_SHARD:
  "\<not> ends_with ''/SHARD'' (s @ ''.dl'')" "\<not> ends_with ''/SHARD'' (s @ ''.il'')"
proof -
  have "\<exists>t. s @ x = t @ ''/SHARD'' \<Longrightarrow> last (s @ x) = CHR ''D''" for x by auto
  from this [of "''.dl''"] this [of "''.il''"]
  show "\<not> ends_with ''/SHARD'' (s @ ''.dl'')" "\<not> ends_with ''/SHARD'' (s @ ''.il'')"
    by (auto simp: ends_with_iff)
qed

lemma layer_name_suffix: "\<exists>s. layer_name l = s @ ''.dl'' \<or> layer_name l = s @ ''.il''"
proof (cases "ld_kind l")
  case Delta
  then have "layer_name l = (''d-'' @ key_hex (ld_min_key l) @ ''-'' @ key_hex (ld_max_key l) @ ''-'' @
      hex_fixed (ld_min_lsn l) @ ''-'' @ hex_fixed (ld_max_lsn l)) @ ''.dl''"
    by (simp add: layer_name_def)
  then show ?thesis by blast
next
  case Image
  then have "layer_name l = (''i-'' @ key_hex (ld_min_key l) @ ''-'' @ key_hex (ld_max_key l) @ ''-'' @
      hex_fixed (ld_min_lsn l)) @ ''.il''"
    by (simp add: layer_name_def)
  then show ?thesis by blast
qed

text \<open>Within a tenant's prefix, the two kinds of manifest and the two function objects may be
  overwritten, and no layer of any shard may.\<close>

lemma mutable_and_immutable_keys:
  "\<not> is_immutable t (layout_manifest t) \<and> \<not> is_immutable t (shard_manifest_key t shard) \<and>
   \<not> is_immutable t (functions_manifest t) \<and> \<not> is_immutable t (functions_secrets t) \<and>
   is_immutable t (shard_prefix t shard @ layer_name l)"
proof -
  have shard: "ends_with ''/SHARD'' (shard_manifest_key t shard)"
    "starts_with (tl_prefix t @ ''/shards/'') (shard_manifest_key t shard)"
    using ends_with_append [of "''/SHARD''" "tl_prefix t @ ''/shards/'' @ hex_fixed shard"]
      starts_with_append [of "tl_prefix t @ ''/shards/''" "hex_fixed shard @ ''/SHARD''"]
    by (simp_all add: shard_manifest_key_def shard_prefix_def)
  obtain s where layer: "layer_name l = s @ ''.dl'' \<or> layer_name l = s @ ''.il''"
    using layer_name_suffix by blast
  have "starts_with (tl_prefix t) (shard_prefix t shard @ layer_name l)"
    using starts_with_append [of "tl_prefix t"] by (simp add: shard_prefix_def)
  moreover have "shard_prefix t shard @ layer_name l \<noteq> tl_prefix t @ ''/'' @ c # w"
    if "c \<noteq> CHR ''s''" for c w
    using that by (simp add: shard_prefix_def)
  moreover have "\<not> ends_with ''/SHARD'' (shard_prefix t shard @ layer_name l)"
    using not_ends_with_SHARD [of "shard_prefix t shard @ s"] layer by auto
  ultimately have "is_immutable t (shard_prefix t shard @ layer_name l)"
    by (simp add: is_immutable_def layout_manifest_def functions_manifest_def functions_secrets_def)
  with shard show ?thesis by (simp add: is_immutable_def)
qed

lemma other_tenants_keys_claimed:
  assumes "c \<noteq> CHR ''/''" "starts_with (tl_prefix (layout_new (a @ c # rest))) key"
  shows "is_immutable (layout_new a) key"
proof -
  from assms(2) obtain k where key: "key = (''tenants/'' @ a) @ c # rest @ k"
    by (auto simp: starts_with_iff layout_new_def)
  then have "starts_with (tl_prefix (layout_new a)) key"
    by (simp add: layout_new_def starts_with_iff)
  moreover have "key \<noteq> tl_prefix (layout_new a) @ CHR ''/'' # w" for w
    using assms(1) by (simp add: key layout_new_def)
  ultimately show ?thesis
    by (simp add: is_immutable_def layout_manifest_def functions_manifest_def functions_secrets_def starts_with_iff)
qed

text \<open>C39. The immutability test compares prefixes without a separator. So for any tenant and any
  other tenant whose reference extends its reference by a character other than a slash, the first
  tenant's test claims every key under the second one's prefix, and in particular the manifest, every shard
  manifest, the deployed functions and the secrets of the second tenant, which the second tenant's own
  test lets be overwritten.\<close>

theorem immutability_leaks_to_other_tenants:
  assumes "c \<noteq> CHR ''/''"
    and "t = layout_new a" "u = layout_new (a @ c # rest)"
  shows "(\<forall>k. is_immutable t (tl_prefix u @ k)) \<and>
    (\<forall>shard. \<forall>key \<in> {layout_manifest u, shard_manifest_key u shard, functions_manifest u, functions_secrets u}.
       is_immutable t key \<and> \<not> is_immutable u key)"
proof -
  have all: "is_immutable t (tl_prefix u @ k)" for k
    using other_tenants_keys_claimed [OF assms(1), of a rest] starts_with_append assms(2,3) by blast
  moreover have "\<not> is_immutable u key"
    if "key \<in> {layout_manifest u, shard_manifest_key u shard, functions_manifest u, functions_secrets u}" for shard key
    using that mutable_and_immutable_keys [of u shard] by auto
  ultimately show ?thesis
    by (auto simp: layout_manifest_def shard_manifest_key_def shard_prefix_def functions_manifest_def functions_secrets_def)
qed

theorem immutability_leaks_to_other_tenants_witness:
  "is_immutable (layout_new ''acme'') (layout_manifest (layout_new ''acme2'')) \<and>
   \<not> is_immutable (layout_new ''acme2'') (layout_manifest (layout_new ''acme2''))"
  using immutability_leaks_to_other_tenants
    [of "CHR ''2''" "layout_new ''acme''" "''acme''" "layout_new ''acme2''" "[]"] by simp

end
