(* ===== verification/Cas_Store.thy ===== *)
theory Cas_Store
  imports Ordered_Map Text_Numbers "HOL-Library.Char_ord" "HOL-Library.List_Lexorder"
begin

text \<open>
  The compare-and-swap object store (crates/zou-store/src/cas.rs, mem.rs and guard.rs).
  The trait object is a record of operations on a store state of any type; the
  methods with a default body are defined over the required ones. The locale
  \<open>cas_laws\<close> is the contract of a backend that numbers its versions: a read answers
  the current object, a conditional write happens only under the expected version
  and then gives the object a version it never had, and a failed write may only
  have happened when the backend could not tell. The memory backend and the guard
  over it are interpretations.
\<close>

type_synonym version = string

datatype cas_error =
  Conflict string | AlreadyExists string | ImmutableOverwrite string | Io string

type_synonym ('a, 's) cas_op = "'s \<Rightarrow> ('a, cas_error) outcome \<times> 's"

text \<open>The methods of \<open>CasStore\<close> that can be overridden and are used below. An unconditional
  \<open>put\<close> may never return, which is \<open>None\<close>.\<close>

record 's cas_store =
  cs_get :: "string \<Rightarrow> ((bytes \<times> version) option, 's) cas_op"
  cs_put_if_match :: "string \<Rightarrow> bytes \<Rightarrow> version option \<Rightarrow> (version, 's) cas_op"
  cs_put :: "string \<Rightarrow> bytes \<Rightarrow> 's \<Rightarrow> ((version, cas_error) outcome \<times> 's) option"
  cs_delete :: "string \<Rightarrow> (unit, 's) cas_op"
  cs_list :: "string \<Rightarrow> (string list, 's) cas_op"

section \<open>Default methods\<close>

definition put_if_absent :: "'s cas_store \<Rightarrow> string \<Rightarrow> bytes \<Rightarrow> (version, 's) cas_op" where
  "put_if_absent st key data s =
     (case cs_put_if_match st key data None s of
        (Err (Conflict k), s) \<Rightarrow> (Err (AlreadyExists k), s)
      | other \<Rightarrow> other)"

partial_function (option) put_loop ::
  "(string \<Rightarrow> ((bytes \<times> version) option, 's) cas_op) \<Rightarrow>
   (string \<Rightarrow> bytes \<Rightarrow> version option \<Rightarrow> (version, 's) cas_op) \<Rightarrow>
   string \<Rightarrow> bytes \<Rightarrow> 's \<Rightarrow> ((version, cas_error) outcome \<times> 's) option" where
  "put_loop get put_if_match key data s =
     (case get key s of
        (Ok current, s) \<Rightarrow>
          (case put_if_match key data (map_option snd current) s of
             (r, s) \<Rightarrow>
               if (case r of Err (Conflict _) \<Rightarrow> True | _ \<Rightarrow> False)
               then put_loop get put_if_match key data s
               else Some (r, s))
      | (Err e, s) \<Rightarrow> Some (Err e, s)
      | (Panic, s) \<Rightarrow> Some (Panic, s))"

text \<open>\<open>u64::saturating_add\<close> and the clamps to the object's length.\<close>

definition get_range ::
  "'s cas_store \<Rightarrow> string \<Rightarrow> u64 \<Rightarrow> u64 \<Rightarrow> (bytes option, 's) cas_op" where
  "get_range st key offset len s =
     (case cs_get st key s of
        (Ok (Some (data, _)), s) \<Rightarrow>
          let start = min (unat offset) (length data);
              end_at = min (unat (saturating_add offset len)) (length data)
          in (obind (slice data start end_at) (\<lambda>d. Ok (Some d)), s)
      | (Ok None, s) \<Rightarrow> (Ok None, s)
      | (Err e, s) \<Rightarrow> (Err e, s)
      | (Panic, s) \<Rightarrow> (Panic, s))"

section \<open>The memory backend\<close>

record mem_store =
  ms_objects :: "(string, bytes \<times> version) btree"
  ms_counter :: u64

definition mem_new :: mem_store where
  "mem_new = \<lparr>ms_objects = [], ms_counter = 0\<rparr>"

definition object_count :: "mem_store \<Rightarrow> nat" where
  "object_count s = length (ms_objects s)"

definition mem_get :: "string \<Rightarrow> ((bytes \<times> version) option, mem_store) cas_op" where
  "mem_get key s = (Ok (bt_get (ms_objects s) key), s)"

definition version_of :: "u64 \<Rightarrow> version" where
  "version_of c = num_text False 10 (unat c)"

definition mem_put_if_match ::
  "string \<Rightarrow> bytes \<Rightarrow> version option \<Rightarrow> (version, mem_store) cas_op" where
  "mem_put_if_match key data expected s =
     (let current = map_option snd (bt_get (ms_objects s) key)
      in if (case (expected, current) of
               (None, Some _) \<Rightarrow> True
             | (Some _, None) \<Rightarrow> True
             | (Some want, Some have_v) \<Rightarrow> want \<noteq> have_v
             | (None, None) \<Rightarrow> False)
         then (Err (Conflict key), s)
         else
           let counter = ms_counter s + 1;
               v = version_of counter
           in (Ok v, s\<lparr>ms_counter := counter,
                       ms_objects := bt_insert key (data, v) (ms_objects s)\<rparr>))"

definition mem_delete :: "string \<Rightarrow> (unit, mem_store) cas_op" where
  "mem_delete key s = (Ok (), s\<lparr>ms_objects := bt_remove key (ms_objects s)\<rparr>)"

definition mem_list :: "string \<Rightarrow> (string list, mem_store) cas_op" where
  "mem_list prefix s =
     (Ok (map fst (takeWhile (\<lambda>(k, _). starts_with prefix k)
        (dropWhile (\<lambda>(k, _). k < prefix) (ms_objects s)))), s)"

definition mem_ops :: "mem_store cas_store" where
  "mem_ops =
     \<lparr>cs_get = mem_get, cs_put_if_match = mem_put_if_match,
      cs_put = put_loop mem_get mem_put_if_match,
      cs_delete = mem_delete, cs_list = mem_list\<rparr>"

section \<open>The guard\<close>

definition overwrite_forbidden :: "string \<Rightarrow> bool" where
  "overwrite_forbidden key =
     (case strip_prefix ''tenants/'' key of
        None \<Rightarrow> False
      | Some rest \<Rightarrow>
          (case split_once (CHR ''/'') rest of
             None \<Rightarrow> False
           | Some (_, rel) \<Rightarrow>
               starts_with ''wal/'' rel \<or> starts_with ''chk/'' rel \<or> starts_with ''manifests/'' rel))"

definition guarded :: "'s cas_store \<Rightarrow> 's cas_store" where
  "guarded st =
     \<lparr>cs_get = cs_get st,
      cs_put_if_match = (\<lambda>key data expected s.
        if expected \<noteq> None \<and> overwrite_forbidden key then (Err (ImmutableOverwrite key), s)
        else cs_put_if_match st key data expected s),
      cs_put = (\<lambda>key data s.
        if overwrite_forbidden key then Some (Err (ImmutableOverwrite key), s)
        else cs_put st key data s),
      cs_delete = cs_delete st, cs_list = cs_list st\<rparr>"

section \<open>The contract\<close>

text \<open>What a write may have done: \<open>applied\<close> gives the object fresh bytes and a fresh version.\<close>

locale cas_laws =
  fixes st :: "'s cas_store"
    and view :: "'s \<Rightarrow> string \<Rightarrow> (bytes \<times> version) option"
    and used :: "'s \<Rightarrow> string \<Rightarrow> version set"
    and ok :: "'s \<Rightarrow> bool"
  assumes get_view: "ok s \<Longrightarrow> cs_get st key s = (r, s') \<Longrightarrow>
      view s' = view s \<and> (\<forall>k. used s k \<subseteq> used s' k) \<and> (\<forall>x. r = Ok x \<longrightarrow> x = view s key)"
    and put_view: "ok s \<Longrightarrow> cs_put_if_match st key data expected s = (w, s') \<Longrightarrow>
      (expected = map_option snd (view s key) \<and>
       (\<exists>v. v \<notin> used s key \<and> view s' = (view s)(key \<mapsto> (data, v)) \<and>
            v \<in> used s' key \<and> (\<forall>k. used s k \<subseteq> used s' k) \<and>
            (w = Ok v \<or> (\<exists>m. w = Err (Io m))))) \<or>
      (view s' = view s \<and> (\<forall>k. used s k \<subseteq> used s' k) \<and> (\<forall>v. w \<noteq> Ok v))"
    and view_used: "ok s \<Longrightarrow> view s key = Some (d, v) \<Longrightarrow> v \<in> used s key"
begin

lemma put_needs_version:
  assumes "ok s" "cs_put_if_match st key data expected s = (Ok v, s')"
  shows "expected = map_option snd (view s key)" "view s' key = Some (data, v)" "v \<notin> used s key"
  using put_view [OF assms] by auto

text \<open>A write under a version that is no longer current changes nothing.\<close>

lemma stale_put_changes_nothing:
  assumes "ok s" "cs_put_if_match st key data (Some v) s = (r, s')" "map_option snd (view s key) \<noteq> Some v"
  shows "view s' = view s" "r \<noteq> Ok w"
  using put_view [OF assms(1,2)] assms(3) by auto

lemma put_other_key:
  assumes "ok s" "cs_put_if_match st key data expected s = (r, s')" "k \<noteq> key"
  shows "view s' k = view s k"
  using put_view [OF assms(1,2)] assms(3) by auto

lemma guarded_laws: "cas_laws (guarded st) view used ok"
proof
  show "view s' = view s \<and> (\<forall>k. used s k \<subseteq> used s' k) \<and> (\<forall>x. r = Ok x \<longrightarrow> x = view s key)"
    if "ok s" "cs_get (guarded st) key s = (r, s')" for s key r s'
    using get_view that by (simp add: guarded_def)
next
  show "(expected = map_option snd (view s key) \<and>
       (\<exists>v. v \<notin> used s key \<and> view s' = (view s)(key \<mapsto> (data, v)) \<and>
            v \<in> used s' key \<and> (\<forall>k. used s k \<subseteq> used s' k) \<and>
            (r = Ok v \<or> (\<exists>m. r = Err (Io m))))) \<or>
      (view s' = view s \<and> (\<forall>k. used s k \<subseteq> used s' k) \<and> (\<forall>v. r \<noteq> Ok v))"
    if "ok s" "cs_put_if_match (guarded st) key data expected s = (r, s')" for s key data expected r s'
    using put_view that by (auto simp: guarded_def split: if_splits)
qed (rule view_used)

end

section \<open>The memory backend keeps the contract\<close>

definition mem_view :: "mem_store \<Rightarrow> string \<Rightarrow> (bytes \<times> version) option" where
  "mem_view s key = bt_get (ms_objects s) key"

text \<open>The versions handed out so far, for any key.\<close>

definition mem_used :: "mem_store \<Rightarrow> string \<Rightarrow> version set" where
  "mem_used s key = version_of ` {c. c \<le> ms_counter s}"

text \<open>The contract holds until the version counter is about to wrap.\<close>

definition mem_ok :: "mem_store \<Rightarrow> bool" where
  "mem_ok s \<longleftrightarrow>
     bt_wf (ms_objects s) \<and> ms_counter s \<noteq> - 1 \<and>
     (\<forall>k d v. bt_get (ms_objects s) k = Some (d, v) \<longrightarrow> v \<in> mem_used s k)"

lemma version_of_inj: "version_of a = version_of b \<Longrightarrow> a = b"
proof -
  assume "version_of a = version_of b"
  then have "from_str_radix (2 ^ 64) 10 (version_of a) = from_str_radix (2 ^ 64) 10 (version_of b)"
    by simp
  moreover have "from_str_radix (2 ^ 64) 10 (version_of c) = Some (unat c)" for c
    using unat_bound [of c] by (simp add: version_of_def from_str_radix_num_text)
  ultimately show "a = b" by (simp add: word_unat_eq_iff)
qed

lemma counter_less_Suc:
  assumes "c \<noteq> - 1"
  shows "c < c + (1 :: u64)"
proof -
  have "unat (- 1 :: u64) = 2 ^ 64 - 1"
    by (simp add: unsigned_minus_1_eq_mask mask_eq_exp_minus_1)
  with assms have "unat c \<noteq> 2 ^ 64 - 1" by (simp add: word_unat_eq_iff)
  with unat_bound [of c] have "unat c + 1 < 2 ^ 64" by simp
  then show ?thesis by (simp add: word_less_nat_alt unat_word_ariths)
qed

lemma mem_put_cases:
  assumes "mem_ok s" "mem_put_if_match key data expected s = (w, s')"
  shows "(expected = map_option snd (mem_view s key) \<and>
       w = Ok (version_of (ms_counter s + 1)) \<and>
       s' = s\<lparr>ms_counter := ms_counter s + 1,
              ms_objects := bt_insert key (data, version_of (ms_counter s + 1)) (ms_objects s)\<rparr>) \<or>
     (expected \<noteq> map_option snd (mem_view s key) \<and> w = Err (Conflict key) \<and> s' = s)"
  using assms
  by (auto simp: mem_put_if_match_def mem_view_def Let_def split: option.splits if_splits)

lemma version_fresh:
  assumes "mem_ok s"
  shows "version_of (ms_counter s + 1) \<notin> mem_used s key"
    "mem_used s k \<subseteq> version_of ` {c. c \<le> ms_counter s + 1}"
proof -
  have lt: "ms_counter s < ms_counter s + 1" using assms by (intro counter_less_Suc) (simp add: mem_ok_def)
  then show "version_of (ms_counter s + 1) \<notin> mem_used s key"
    by (auto simp: mem_used_def dest: version_of_inj)
  show "mem_used s k \<subseteq> version_of ` {c. c \<le> ms_counter s + 1}"
    using lt by (auto simp: mem_used_def)
qed

interpretation mem: cas_laws mem_ops mem_view mem_used mem_ok
proof
  show "mem_view s' = mem_view s \<and> (\<forall>k. mem_used s k \<subseteq> mem_used s' k) \<and>
      (\<forall>x. r = Ok x \<longrightarrow> x = mem_view s key)"
    if "mem_ok s" "cs_get mem_ops key s = (r, s')" for s key r s'
    using that by (auto simp: mem_ops_def mem_get_def mem_view_def)
next
  fix s key data expected w s'
  assume s: "mem_ok s" "cs_put_if_match mem_ops key data expected s = (w, s')"
  then have "mem_put_if_match key data expected s = (w, s')" by (simp add: mem_ops_def)
  from mem_put_cases [OF s(1) this] version_fresh [OF s(1)]
  show "(expected = map_option snd (mem_view s key) \<and>
       (\<exists>v. v \<notin> mem_used s key \<and> mem_view s' = (mem_view s)(key \<mapsto> (data, v)) \<and>
            v \<in> mem_used s' key \<and> (\<forall>k. mem_used s k \<subseteq> mem_used s' k) \<and>
            (w = Ok v \<or> (\<exists>m. w = Err (Io m))))) \<or>
      (mem_view s' = mem_view s \<and> (\<forall>k. mem_used s k \<subseteq> mem_used s' k) \<and> (\<forall>v. w \<noteq> Ok v))"
    by (auto simp: mem_used_def mem_view_def fun_eq_iff bt_get_insert)
next
  show "v \<in> mem_used s key" if "mem_ok s" "mem_view s key = Some (d, v)" for s key d v
    using that by (auto simp: mem_ok_def mem_view_def)
qed

interpretation guarded_mem: cas_laws "guarded mem_ops" mem_view mem_used mem_ok
  by (rule mem.guarded_laws)

lemma mem_ok_new: "mem_ok mem_new"
  by (simp add: mem_ok_def mem_new_def bt_wf_def bt_get_def)

lemma mem_ok_put:
  assumes "mem_ok s" "mem_put_if_match key data expected s = (w, s')" "ms_counter s' \<noteq> - 1"
  shows "mem_ok s'"
  using mem_put_cases [OF assms(1,2)]
proof (elim disjE conjE)
  let ?v = "version_of (ms_counter s + 1)"
  assume s': "s' = s\<lparr>ms_counter := ms_counter s + 1, ms_objects := bt_insert key (data, ?v) (ms_objects s)\<rparr>"
  have "v \<in> mem_used s' k" if "bt_get (ms_objects s') k = Some (d, v)" for k d v
  proof (cases "k = key")
    case True
    with that show ?thesis by (auto simp: s' bt_get_insert mem_used_def)
  next
    case False
    with that assms(1) have "v \<in> mem_used s k" by (simp add: s' bt_get_insert mem_ok_def)
    with version_fresh(2) [OF assms(1), of k] show ?thesis by (auto simp: s' mem_used_def)
  qed
  then show ?thesis
    using assms(1,3) by (simp add: mem_ok_def s' bt_wf_insert)
qed (use assms in simp)

lemma mem_ok_delete: "mem_ok s \<Longrightarrow> mem_ok (snd (mem_delete key s))"
  by (auto simp: mem_ok_def mem_delete_def bt_wf_remove bt_get_remove mem_used_def)

section \<open>Listing\<close>

text \<open>Keys with a prefix are contiguous in the order of keys, from the prefix on.\<close>

lemma starts_with_Cons:
  "starts_with [] k" "starts_with (c # p) [] = False"
  "starts_with (c # p) (d # k) \<longleftrightarrow> c = d \<and> starts_with p k"
  by (auto simp: starts_with_def)

lemma prefix_le: "starts_with p k \<Longrightarrow> p \<le> k"
proof (induction p arbitrary: k)
  case (Cons c p)
  then show ?case by (cases k) (auto simp: starts_with_Cons)
qed simp

lemma prefix_convex: "starts_with p k' \<Longrightarrow> p \<le> k \<Longrightarrow> k \<le> k' \<Longrightarrow> starts_with p k"
proof (induction p arbitrary: k k')
  case Nil
  then show ?case by (simp add: starts_with_Cons)
next
  case (Cons c p)
  obtain d w where k': "k' = d # w" "c = d" "starts_with p w"
    using Cons.prems(1) by (cases k') (auto simp: starts_with_Cons)
  obtain e u where k: "k = e # u"
    using Cons.prems(2) by (cases k) auto
  have "e = c" "p \<le> u" "u \<le> w"
    using Cons.prems(2,3) k k' by auto
  with Cons.IH [OF k'(3)] k show ?case by (simp add: starts_with_Cons)
qed

lemma list_scan:
  assumes "bt_wf m"
  shows "takeWhile (\<lambda>(k, _). starts_with p k) (dropWhile (\<lambda>(k, _). k < p) m) =
    filter (\<lambda>(k, _). starts_with p k) m"
proof -
  have sorted: "sorted_wrt (\<lambda>x y. fst x < fst y) m"
    using assms by (simp add: bt_wf_def sorted_wrt_map)
  have drop: "dropWhile (\<lambda>(k, _). k < p) m = filter (\<lambda>x. \<not> fst x < p) m"
    unfolding case_prod_unfold
    by (rule dropWhile_filter_sorted, rule sorted_wrt_mono_rel [OF _ sorted]) auto
  have "takeWhile (\<lambda>x. starts_with p (fst x)) (filter (\<lambda>x. \<not> fst x < p) m) =
      filter (\<lambda>x. starts_with p (fst x)) (filter (\<lambda>x. \<not> fst x < p) m)"
    by (rule takeWhile_filter_sorted, rule sorted_wrt_mono_rel [OF _ sorted_wrt_filter [OF sorted]])
      (auto simp: not_less intro: prefix_convex less_imp_le)
  also have "\<dots> = filter (\<lambda>x. starts_with p (fst x)) m"
    unfolding filter_filter by (rule filter_cong) (auto simp: not_less intro: prefix_le)
  finally show ?thesis unfolding drop by (simp only: case_prod_unfold)
qed

section \<open>Properties\<close>

definition sample_store :: mem_store where
  "sample_store = snd (mem_put_if_match ''a'' [1] None mem_new)"

lemma sample_store_eq: "sample_store = \<lparr>ms_objects = [(''a'', [1], version_of 1)], ms_counter = 1\<rparr>"
  by (simp add: sample_store_def mem_put_if_match_def mem_new_def bt_get_def Let_def)

lemma sample_store_ok: "mem_ok sample_store"
proof -
  have "mem_put_if_match ''a'' [1] None mem_new = (Ok (version_of 1), sample_store)"
    by (simp add: sample_store_eq mem_put_if_match_def mem_new_def bt_get_def Let_def)
  from mem_ok_put [OF mem_ok_new this] show ?thesis by (simp add: sample_store_eq)
qed

text \<open>Of all writers that race a conditional write on one version of an object, only the first
  wins: once it has, every other write that expects that version, or absence, conflicts and
  changes nothing. This holds behind the guard too.\<close>

lemma cas_one_winner:
  assumes "mem_ok s" "cs_put_if_match (guarded mem_ops) key d1 expected s = (Ok v, s1)"
    and "ms_counter s1 \<noteq> - 1"
  shows "cs_put_if_match mem_ops key d2 expected s1 = (Err (Conflict key), s1) \<and>
    cs_get mem_ops key s1 = (Ok (Some (d1, v)), s1)"
proof -
  have p: "mem_put_if_match key d1 expected s = (Ok v, s1)"
    using assms(2) by (auto simp: guarded_def mem_ops_def split: if_splits)
  have ok1: "mem_ok s1" using mem_ok_put [OF assms(1) p assms(3)] .
  note w = mem.put_needs_version [OF assms(1), of key d1 expected v s1]
  have view: "mem_view s1 key = Some (d1, v)" and fresh: "v \<notin> mem_used s key"
    and exp: "expected = map_option snd (mem_view s key)"
    using w p by (simp_all add: mem_ops_def)
  have "expected \<noteq> Some v"
    using exp fresh mem.view_used [OF assms(1)] by (cases "mem_view s key") auto
  then have "mem_put_if_match key d2 expected s1 = (Err (Conflict key), s1)"
    using mem_put_cases [OF ok1, of key d2 expected] view
    by (cases "mem_put_if_match key d2 expected s1") auto
  with view show ?thesis by (simp add: mem_ops_def mem_get_def mem_view_def)
qed

text \<open>Listing a prefix by range scan yields exactly the keys under the prefix, sorted.\<close>

theorem list_is_prefix_filter:
  assumes "mem_ok s"
  shows "fst (cs_list mem_ops p s) = Ok (filter (starts_with p) (map fst (ms_objects s))) \<and>
    sorted_wrt (<) (filter (starts_with p) (map fst (ms_objects s)))"
proof -
  have wf: "bt_wf (ms_objects s)" using assms by (simp add: mem_ok_def)
  then have "sorted_wrt (<) (filter (starts_with p) (map fst (ms_objects s)))"
    by (simp add: bt_wf_def sorted_wrt_filter)
  moreover have "map fst (filter (\<lambda>(k, _). starts_with p k) (ms_objects s)) =
      filter (starts_with p) (map fst (ms_objects s))"
    by (simp add: filter_map case_prod_unfold comp_def)
  ultimately show ?thesis
    by (simp add: mem_ops_def mem_list_def list_scan [OF wf])
qed

theorem list_is_prefix_filter_witness:
  "fst (cs_list mem_ops ''a'' sample_store) = Ok [''a'']"
  using list_is_prefix_filter [OF sample_store_ok, of "''a''"]
  by (simp add: sample_store_eq starts_with_def)

text \<open>The retry loop under an unconditional write returns: it succeeds and the object holds
  the new bytes, whatever it held before.\<close>

theorem put_returns:
  "\<exists>v s'. cs_put mem_ops key data s = Some (Ok v, s') \<and> mem_view s' key = Some (data, v)"
proof -
  define v where "v = version_of (ms_counter s + 1)"
  define s' where "s' = s\<lparr>ms_counter := ms_counter s + 1, ms_objects := bt_insert key (data, v) (ms_objects s)\<rparr>"
  have "mem_put_if_match key data (map_option snd (bt_get (ms_objects s) key)) s = (Ok v, s')"
    by (cases "bt_get (ms_objects s) key") (simp_all add: mem_put_if_match_def Let_def v_def s'_def)
  then have "cs_put mem_ops key data s = Some (Ok v, s')"
    by (simp add: mem_ops_def) (subst put_loop.simps, simp add: mem_get_def)
  moreover have "mem_view s' key = Some (data, v)"
    by (simp add: mem_view_def s'_def bt_get_insert)
  ultimately show ?thesis by blast
qed

end
