(* ===== verification/Tenant_Manifest.thy ===== *)
theory Tenant_Manifest
  imports Zou_Prelude
begin

text \<open>
  The tenant manifest (crates/zou-store/src/manifest.rs). Its JSON form is written and
  read by \<open>serde_json\<close>, which is a parameter: a serializer, the peek at the format
  fields, and the full deserializer. The law a proof uses is that what was
  serialized deserializes to the same manifest and peeks at its format
  (\<open>codec_faithful\<close>); the order of the checks and their errors is the code's.
\<close>

definition MANIFEST_FORMAT :: u32 where
  "MANIFEST_FORMAT = 3"

datatype manifest_error = FormatTooNew u32 | V1WalTail | Json

record shard_change =
  sc_from :: u32
  sc_to :: u32
  sc_at :: lsn
  sc_unix :: u64

record lease =
  l_holder :: string
  l_expires_unix :: u64
  l_fence :: u64
  l_endpoint :: "string option"
  l_ttl_secs :: "u64 option"

record pg_info =
  pg_version :: u32
  pg_timeline :: u32

datatype checkpoint_kind = Full | DeltaKind

record checkpoint_ref =
  cr_id :: string
  cr_lsn :: lsn
  cr_kind :: checkpoint_kind
  cr_owner :: "string option"

record branch_of =
  bo_tenant_ref :: string
  bo_at_lsn :: lsn

record manifest =
  mf_format :: u32
  mf_tenant_ref :: string
  mf_epoch :: u64
  mf_lease :: "lease option"
  mf_pg :: pg_info
  mf_checkpoints :: "checkpoint_ref list"
  mf_folded_upto :: "lsn option"
  mf_pages_elided_from :: "lsn option"
  mf_branch_of :: "branch_of option"
  mf_shards :: u32
  mf_shard_history :: "shard_change list"
  mf_published_unix :: "u64 option"

definition manifest_new :: "string \<Rightarrow> u32 \<Rightarrow> manifest" where
  "manifest_new tenant_ref pgv =
     \<lparr>mf_format = 2, mf_tenant_ref = tenant_ref, mf_epoch = 0, mf_lease = None,
      mf_pg = \<lparr>pg_version = pgv, pg_timeline = 1\<rparr>, mf_checkpoints = [], mf_folded_upto = None,
      mf_pages_elided_from = None, mf_branch_of = None, mf_shards = 1, mf_shard_history = [],
      mf_published_unix = None\<rparr>"

definition captured_upto :: "manifest \<Rightarrow> lsn option" where
  "captured_upto m =
     (let newest = (if mf_checkpoints m = [] then None else Some (cr_lsn (last (mf_checkpoints m))))
      in case (newest, mf_folded_upto m) of
           (Some a, Some b) \<Rightarrow> Some (max a b)
         | (some, None) \<Rightarrow> some
         | (None, some) \<Rightarrow> some)"

definition pages_left_behind :: "manifest \<Rightarrow> (lsn \<times> lsn) option" where
  "pages_left_behind m =
     Option.bind (mf_pages_elided_from m) (\<lambda>elided.
     Option.bind (captured_upto m) (\<lambda>captured.
     if captured > elided then Some (elided, captured) else None))"

section \<open>The JSON form\<close>

datatype json_value = JNull | JOther

record peek =
  pk_format :: u32
  pk_wal_tail :: "json_value option"
  pk_parent_tail :: "json_value list"

record manifest_codec =
  mc_ser :: "manifest \<Rightarrow> bytes"
  mc_peek :: "bytes \<Rightarrow> peek option"
  mc_de :: "bytes \<Rightarrow> manifest option"

definition to_json :: "manifest_codec \<Rightarrow> manifest \<Rightarrow> bytes" where
  "to_json c m = mc_ser c m @ [10]"

definition from_json :: "manifest_codec \<Rightarrow> bytes \<Rightarrow> (manifest, manifest_error) outcome" where
  "from_json c data =
     obind (ok_or (mc_peek c data) Json) (\<lambda>p.
     if pk_format p > MANIFEST_FORMAT then Err (FormatTooNew (pk_format p))
     else if (case pk_wal_tail p of None \<Rightarrow> False | Some v \<Rightarrow> v \<noteq> JNull) \<or> pk_parent_tail p \<noteq> []
     then Err V1WalTail
     else ok_or (mc_de c data) Json)"

definition codec_faithful :: "manifest_codec \<Rightarrow> bool" where
  "codec_faithful c \<longleftrightarrow>
     (\<forall>m. mc_de c (mc_ser c m @ [10]) = Some m \<and>
          mc_peek c (mc_ser c m @ [10]) =
            Some \<lparr>pk_format = mf_format m, pk_wal_tail = None, pk_parent_tail = []\<rparr>)"

lemma from_to_json:
  assumes "codec_faithful c"
  shows "from_json c (to_json c m) =
    (if mf_format m > MANIFEST_FORMAT then Err (FormatTooNew (mf_format m)) else Ok m)"
  using assms by (simp add: codec_faithful_def from_json_def to_json_def)

lemma from_json_not_Panic [simp]: "from_json c d \<noteq> Panic"
  by (auto simp: from_json_def obind_Panic_iff)

end
