(* ===== verification/Writer_Lease.thy ===== *)
theory Writer_Lease
  imports Cas_Store Tenant_Manifest Tenant_Layout
begin

text \<open>
  The writer lease protocol (crates/zou-store/src/lease.rs) over any compare-and-swap
  store. An operation is a state transformer; where the code reads the manifest and
  later swaps it, the part after the read is a definition of its own, so that other
  nodes' operations can be placed between the two. The log line of a failed
  history snapshot is left out.
\<close>

unbundle bit_operations_syntax

definition DEFAULT_TTL_SECS :: u64 where
  "DEFAULT_TTL_SECS = 15"

definition SKEW_GRACE_SECS :: u64 where
  "SKEW_GRACE_SECS = 5"

record held_lease =
  hl_holder :: string
  hl_epoch :: u64
  hl_fence :: u64
  hl_expires_unix :: u64
  hl_manifest :: manifest
  hl_version :: version
  hl_last_history_unix :: u64

datatype lease_error =
  NoManifest string | Held string u64 | Skew string u64 u64 u64 | Raced | Lost string u64
| ManifestErr manifest_error | Store cas_error

type_synonym ('a, 's) lease_op = "'s \<Rightarrow> ('a, lease_error) outcome \<times> 's"

definition sbind :: "('a, 's) lease_op \<Rightarrow> ('a \<Rightarrow> ('b, 's) lease_op) \<Rightarrow> ('b, 's) lease_op" where
  "sbind m f s =
     (case m s of
        (Ok x, s) \<Rightarrow> f x s
      | (Err e, s) \<Rightarrow> (Err e, s)
      | (Panic, s) \<Rightarrow> (Panic, s))"

definition sret :: "('a, lease_error) outcome \<Rightarrow> ('a, 's) lease_op" where
  "sret r s = (r, s)"

text \<open>The read of the manifest every operation starts with.\<close>

definition load_manifest ::
  "manifest_codec \<Rightarrow> 's cas_store \<Rightarrow> string \<Rightarrow> (manifest \<times> version, 's) lease_op" where
  "load_manifest c st key s =
     (case cs_get st key s of
        (Ok None, s) \<Rightarrow> (Err (NoManifest key), s)
      | (Ok (Some (data, version)), s) \<Rightarrow>
          (obind (map_err ManifestErr (from_json c data)) (\<lambda>m. Ok (m, version)), s)
      | (Err e, s) \<Rightarrow> (Err (Store e), s)
      | (Panic, s) \<Rightarrow> (Panic, s))"

definition swap ::
  "manifest_codec \<Rightarrow> 's cas_store \<Rightarrow> string \<Rightarrow> manifest \<Rightarrow> version \<Rightarrow> (version, 's) lease_op" where
  "swap c st key m expected s =
     (case cs_put_if_match st key (to_json c m) (Some expected) s of
        (Ok v, s) \<Rightarrow> (Ok v, s)
      | (Err (Conflict _), s) \<Rightarrow> (Err Raced, s)
      | (Err e, s) \<Rightarrow> (Err (Store e), s)
      | (Panic, s) \<Rightarrow> (Panic, s))"

section \<open>Acquisition\<close>

text \<open>The refusal of a live lease of somebody else, or of one no correct clock could have
  written.\<close>

definition lease_refusal :: "lease \<Rightarrow> string \<Rightarrow> u64 \<Rightarrow> u64 \<Rightarrow> lease_error option" where
  "lease_refusal l holder ttl_secs now_unix =
     (if \<not> l_expires_unix l \<le> now_unix \<and> l_holder l \<noteq> holder then
        let their_ttl = max (case l_ttl_secs l of None \<Rightarrow> ttl_secs | Some t \<Rightarrow> t) ttl_secs;
            furthest = now_unix + their_ttl + SKEW_GRACE_SECS
        in if l_expires_unix l > furthest
           then Some (Skew (l_holder l) (l_expires_unix l) ttl_secs (l_expires_unix l - furthest))
           else Some (Held (l_holder l) (l_expires_unix l))
      else None)"

definition take_refusal :: "manifest \<Rightarrow> string \<Rightarrow> u64 \<Rightarrow> u64 \<Rightarrow> bool \<Rightarrow> lease_error option" where
  "take_refusal m holder ttl_secs now_unix force =
     (if force then None
      else case mf_lease m of None \<Rightarrow> None | Some l \<Rightarrow> lease_refusal l holder ttl_secs now_unix)"

definition next_fence :: "manifest \<Rightarrow> u64" where
  "next_fence m = (case mf_lease m of None \<Rightarrow> 0 | Some l \<Rightarrow> l_fence l) + 1"

definition taken_manifest ::
  "manifest \<Rightarrow> string \<Rightarrow> string option \<Rightarrow> u64 \<Rightarrow> u64 \<Rightarrow> manifest" where
  "taken_manifest m holder endpoint ttl_secs now_unix =
     m\<lparr>mf_epoch := mf_epoch m + 1,
       mf_lease := Some \<lparr>l_holder = holder, l_expires_unix = now_unix + ttl_secs,
                         l_fence = next_fence m, l_endpoint = endpoint,
                         l_ttl_secs = Some ttl_secs\<rparr>\<rparr>"

definition take_from ::
  "manifest_codec \<Rightarrow> 's cas_store \<Rightarrow> string \<Rightarrow> string \<Rightarrow> string option \<Rightarrow> u64 \<Rightarrow> u64 \<Rightarrow> bool \<Rightarrow>
   manifest \<times> version \<Rightarrow> (held_lease, 's) lease_op" where
  "take_from c st key holder endpoint ttl_secs now_unix force mv =
     (let (m, version) = mv
      in case take_refusal m holder ttl_secs now_unix force of
           Some e \<Rightarrow> sret (Err e)
         | None \<Rightarrow>
             let m' = taken_manifest m holder endpoint ttl_secs now_unix
             in sbind (swap c st key m' version) (\<lambda>v.
                sret (Ok \<lparr>hl_holder = holder, hl_epoch = mf_epoch m', hl_fence = next_fence m,
                          hl_expires_unix = now_unix + ttl_secs, hl_manifest = m',
                          hl_version = v, hl_last_history_unix = 0\<rparr>)))"

definition take_lease ::
  "manifest_codec \<Rightarrow> 's cas_store \<Rightarrow> tenant_layout \<Rightarrow> string \<Rightarrow> string option \<Rightarrow> u64 \<Rightarrow> u64 \<Rightarrow> bool \<Rightarrow>
   (held_lease, 's) lease_op" where
  "take_lease c st layout holder endpoint ttl_secs now_unix force =
     (let key = layout_manifest layout
      in sbind (load_manifest c st key)
           (take_from c st key holder endpoint ttl_secs now_unix force))"

definition acquire ::
  "manifest_codec \<Rightarrow> 's cas_store \<Rightarrow> tenant_layout \<Rightarrow> string \<Rightarrow> u64 \<Rightarrow> u64 \<Rightarrow>
   (held_lease, 's) lease_op" where
  "acquire c st layout holder ttl_secs now_unix =
     take_lease c st layout holder None ttl_secs now_unix False"

definition acquire_at ::
  "manifest_codec \<Rightarrow> 's cas_store \<Rightarrow> tenant_layout \<Rightarrow> string \<Rightarrow> string option \<Rightarrow> u64 \<Rightarrow> u64 \<Rightarrow>
   (held_lease, 's) lease_op" where
  "acquire_at c st layout holder endpoint ttl_secs now_unix =
     take_lease c st layout holder endpoint ttl_secs now_unix False"

definition steal_at ::
  "manifest_codec \<Rightarrow> 's cas_store \<Rightarrow> tenant_layout \<Rightarrow> string \<Rightarrow> string option \<Rightarrow> u64 \<Rightarrow> u64 \<Rightarrow>
   (held_lease, 's) lease_op" where
  "steal_at c st layout holder endpoint ttl_secs now_unix =
     take_lease c st layout holder endpoint ttl_secs now_unix True"

definition steal ::
  "manifest_codec \<Rightarrow> 's cas_store \<Rightarrow> tenant_layout \<Rightarrow> string \<Rightarrow> u64 \<Rightarrow> u64 \<Rightarrow>
   (held_lease, 's) lease_op" where
  "steal c st layout holder ttl_secs now_unix =
     take_lease c st layout holder None ttl_secs now_unix True"

record holder_info =
  ho_node :: string
  ho_endpoint :: "string option"
  ho_expires_unix :: u64
  ho_epoch :: u64
  ho_published_unix :: "u64 option"

definition holder_of ::
  "manifest_codec \<Rightarrow> 's cas_store \<Rightarrow> tenant_layout \<Rightarrow> u64 \<Rightarrow> (holder_info option, 's) lease_op" where
  "holder_of c st layout now_unix =
     sbind (load_manifest c st (layout_manifest layout)) (\<lambda>(m, _).
     sret (Ok (Option.bind (mf_lease m) (\<lambda>l.
       if l_expires_unix l > now_unix
       then Some \<lparr>ho_node = l_holder l, ho_endpoint = l_endpoint l,
                  ho_expires_unix = l_expires_unix l, ho_epoch = mf_epoch m,
                  ho_published_unix = mf_published_unix m\<rparr>
       else None))))"

section \<open>Holding\<close>

definition still_ours :: "held_lease \<Rightarrow> manifest \<Rightarrow> bool" where
  "still_ours held m \<longleftrightarrow>
     (case mf_lease m of
        None \<Rightarrow> False
      | Some l \<Rightarrow> l_holder l = hl_holder held \<and> l_fence l = hl_fence held) \<and>
     mf_epoch m = hl_epoch held"

definition check_ownership ::
  "held_lease \<Rightarrow> manifest \<times> version \<Rightarrow> (manifest \<times> version, lease_error) outcome" where
  "check_ownership held mv =
     (if \<not> still_ours held (fst mv)
      then Err (Lost (case mf_lease (fst mv) of None \<Rightarrow> '''' | Some l \<Rightarrow> l_holder l) (mf_epoch (fst mv)))
      else Ok mv)"

definition reread_checking_ownership ::
  "manifest_codec \<Rightarrow> 's cas_store \<Rightarrow> string \<Rightarrow> held_lease \<Rightarrow> (manifest \<times> version, 's) lease_op" where
  "reread_checking_ownership c st key held =
     sbind (load_manifest c st key) (\<lambda>mv. sret (check_ownership held mv))"

definition extended :: "manifest \<Rightarrow> lease \<Rightarrow> u64 \<Rightarrow> u64 \<Rightarrow> manifest" where
  "extended m l ttl_secs now_unix =
     m\<lparr>mf_lease := Some (l\<lparr>l_expires_unix := now_unix + ttl_secs, l_ttl_secs := Some ttl_secs\<rparr>)\<rparr>"

definition renew_from ::
  "manifest_codec \<Rightarrow> 's cas_store \<Rightarrow> string \<Rightarrow> held_lease \<Rightarrow> u64 \<Rightarrow> u64 \<Rightarrow>
   manifest \<times> version \<Rightarrow> (held_lease, 's) lease_op" where
  "renew_from c st key held ttl_secs now_unix mv =
     (let (m, version) = mv
      in sbind (sret (expect (mf_lease m))) (\<lambda>l.
         let m' = extended m l ttl_secs now_unix
         in sbind (swap c st key m' version) (\<lambda>v.
            sret (Ok (held\<lparr>hl_version := v, hl_expires_unix := now_unix + ttl_secs,
                           hl_manifest := m'\<rparr>)))))"

definition renew_by_reading ::
  "manifest_codec \<Rightarrow> 's cas_store \<Rightarrow> string \<Rightarrow> held_lease \<Rightarrow> u64 \<Rightarrow> u64 \<Rightarrow> (held_lease, 's) lease_op" where
  "renew_by_reading c st key held ttl_secs now_unix =
     sbind (reread_checking_ownership c st key held) (renew_from c st key held ttl_secs now_unix)"

definition renew ::
  "manifest_codec \<Rightarrow> 's cas_store \<Rightarrow> tenant_layout \<Rightarrow> held_lease \<Rightarrow> u64 \<Rightarrow> u64 \<Rightarrow>
   (held_lease, 's) lease_op" where
  "renew c st layout held ttl_secs now_unix s =
     (let key = layout_manifest layout
      in case mf_lease (hl_manifest held) of
           None \<Rightarrow> renew_by_reading c st key held ttl_secs now_unix s
         | Some l \<Rightarrow>
             let m' = extended (hl_manifest held) l ttl_secs now_unix
             in (case swap c st key m' (hl_version held) s of
                   (Ok v, s) \<Rightarrow>
                     (Ok (held\<lparr>hl_version := v, hl_expires_unix := now_unix + ttl_secs,
                               hl_manifest := m'\<rparr>), s)
                 | (Err Raced, s) \<Rightarrow> renew_by_reading c st key held ttl_secs now_unix s
                 | (Err e, s) \<Rightarrow> (Err e, s)
                 | (Panic, s) \<Rightarrow> (Panic, s)))"

definition release_from ::
  "manifest_codec \<Rightarrow> 's cas_store \<Rightarrow> string \<Rightarrow> manifest \<times> version \<Rightarrow> (unit, 's) lease_op" where
  "release_from c st key mv =
     (let (m, version) = mv
      in sbind (swap c st key (m\<lparr>mf_lease := None\<rparr>) version) (\<lambda>_. sret (Ok ())))"

definition release ::
  "manifest_codec \<Rightarrow> 's cas_store \<Rightarrow> tenant_layout \<Rightarrow> held_lease \<Rightarrow> (unit, 's) lease_op" where
  "release c st layout held =
     (let key = layout_manifest layout
      in sbind (reread_checking_ownership c st key held) (release_from c st key))"

definition strip_manifest :: "manifest \<Rightarrow> manifest" where
  "strip_manifest m = m\<lparr>mf_lease := None, mf_published_unix := None\<rparr>"

text \<open>The snapshot after a swap: at most one per second, best effort.\<close>

definition write_history ::
  "manifest_codec \<Rightarrow> 's cas_store \<Rightarrow> tenant_layout \<Rightarrow> manifest \<Rightarrow> u64 \<Rightarrow> held_lease \<Rightarrow>
   (held_lease, 's) lease_op" where
  "write_history c st layout m now_unix held s =
     (case put_if_absent st (manifest_history layout (mf_epoch m) now_unix)
             (to_json c (m\<lparr>mf_lease := None\<rparr>)) s of
        (Ok _, s) \<Rightarrow> (Ok (held\<lparr>hl_last_history_unix := now_unix\<rparr>), s)
      | (Err (AlreadyExists _), s) \<Rightarrow> (Ok (held\<lparr>hl_last_history_unix := now_unix\<rparr>), s)
      | (Err _, s) \<Rightarrow> (Ok held, s)
      | (Panic, s) \<Rightarrow> (Panic, s))"

definition published :: "(manifest \<Rightarrow> manifest) \<Rightarrow> u64 \<Rightarrow> manifest \<Rightarrow> bool \<times> manifest" where
  "published mutate now_unix before =
     (let m = mutate before;
          changed = (strip_manifest before \<noteq> strip_manifest m)
      in (changed, if changed then m\<lparr>mf_published_unix := Some now_unix\<rparr> else m))"

definition update_from ::
  "manifest_codec \<Rightarrow> 's cas_store \<Rightarrow> tenant_layout \<Rightarrow> held_lease \<Rightarrow> u64 \<Rightarrow> (manifest \<Rightarrow> manifest) \<Rightarrow>
   manifest \<times> version \<Rightarrow> (held_lease, 's) lease_op" where
  "update_from c st layout held now_unix mutate mv =
     (let (before, version) = mv;
          (changed, m) = published mutate now_unix before
      in sbind (swap c st (layout_manifest layout) m version) (\<lambda>v.
         let held = held\<lparr>hl_version := v\<rparr>
         in sbind (if changed \<and> hl_last_history_unix held \<noteq> now_unix
                   then write_history c st layout m now_unix held
                   else sret (Ok held)) (\<lambda>held.
            sret (Ok (held\<lparr>hl_manifest := m\<rparr>)))))"

definition update_manifest ::
  "manifest_codec \<Rightarrow> 's cas_store \<Rightarrow> tenant_layout \<Rightarrow> held_lease \<Rightarrow> u64 \<Rightarrow> (manifest \<Rightarrow> manifest) \<Rightarrow>
   (held_lease, 's) lease_op" where
  "update_manifest c st layout held now_unix mutate =
     sbind (reread_checking_ownership c st (layout_manifest layout) held)
       (update_from c st layout held now_unix mutate)"

section \<open>Takeover\<close>

definition spread :: "string \<Rightarrow> u64" where
  "spread holder = 50 + ucast (fold (\<lambda>c acc. (acc * 31) XOR of_nat (of_char c)) holder (17 :: u8)) mod 200"

text \<open>The clock and the wait act on the same world as the store; whatever other nodes do during
  a sleep is part of it.\<close>

record 's waiting =
  w_now :: "'s \<Rightarrow> u64 \<times> 's"
  w_sleep :: "u64 \<Rightarrow> 's \<Rightarrow> 's"

definition TAKEOVER_RACES :: nat where
  "TAKEOVER_RACES = 5"

partial_function (option) takeover_loop ::
  "('s \<Rightarrow> u64 \<times> 's) \<Rightarrow> (u64 \<Rightarrow> 's \<Rightarrow> 's) \<Rightarrow> (u64 \<Rightarrow> (held_lease, 's) lease_op) \<Rightarrow> string \<Rightarrow> u64 \<Rightarrow>
   nat \<Rightarrow> 's \<Rightarrow> ((held_lease, lease_error) outcome \<times> 's) option" where
  "takeover_loop now sleep take_at holder deadline races s =
     (case now s of (t, s) \<Rightarrow>
      case take_at t s of (r, s) \<Rightarrow>
      case r of
        Err e \<Rightarrow>
          (case e of
             Held whose expires_unix \<Rightarrow>
               if expires_unix \<ge> deadline then Some (Err (Held whose expires_unix), s)
               else
                 (case now s of (t, s) \<Rightarrow>
                  takeover_loop now sleep take_at holder deadline races
                    (sleep (saturating_sub expires_unix t * 1000 + spread holder) s))
           | Raced \<Rightarrow>
               if Suc races > TAKEOVER_RACES then Some (Err Raced, s)
               else takeover_loop now sleep take_at holder deadline (Suc races)
                      (sleep (spread holder) s)
           | _ \<Rightarrow> Some (Err e, s))
      | _ \<Rightarrow> Some (r, s))"

definition takeover_with ::
  "manifest_codec \<Rightarrow> 's cas_store \<Rightarrow> tenant_layout \<Rightarrow> string \<Rightarrow> string option \<Rightarrow> u64 \<Rightarrow> u64 \<Rightarrow>
   's waiting \<Rightarrow> 's \<Rightarrow> ((held_lease, lease_error) outcome \<times> 's) option" where
  "takeover_with c st layout holder endpoint ttl_secs limit_secs w s =
     (case w_now w s of (t, s) \<Rightarrow>
      takeover_loop (w_now w) (w_sleep w)
        (\<lambda>now_unix. take_lease c st layout holder endpoint ttl_secs now_unix False)
        holder (t + limit_secs) 0 s)"

end
