(* ===== verification/Sample_Codec.thy ===== *)
theory Sample_Codec
  imports Tenant_Manifest
begin

text \<open>
  A concrete codec for manifests, built from prefix codecs: an encoder and a decoder
  that gives the value back and the bytes after it. It stands where the code has
  \<open>serde_json\<close> and shows that the law the proofs use of it can hold.
\<close>

definition pc_ok :: "('a \<Rightarrow> bytes) \<Rightarrow> (bytes \<Rightarrow> ('a \<times> bytes) option) \<Rightarrow> bool" where
  "pc_ok enc dec \<longleftrightarrow> (\<forall>x r. dec (enc x @ r) = Some (x, r))"

definition dec_word :: "bytes \<Rightarrow> ('a::len word \<times> bytes) option" where
  "dec_word bs = Some (from_le (take (LENGTH('a) div 8) bs), drop (LENGTH('a) div 8) bs)"

fun enc_option :: "('a \<Rightarrow> bytes) \<Rightarrow> 'a option \<Rightarrow> bytes" where
  "enc_option e None = [0]"
| "enc_option e (Some x) = 1 # e x"

definition dec_option :: "(bytes \<Rightarrow> ('a \<times> bytes) option) \<Rightarrow> bytes \<Rightarrow> ('a option \<times> bytes) option" where
  "dec_option d bs =
     (case bs of
        [] \<Rightarrow> None
      | b # r \<Rightarrow> if b = 0 then Some (None, r) else map_option (\<lambda>(x, r). (Some x, r)) (d r))"

fun enc_list :: "('a \<Rightarrow> bytes) \<Rightarrow> 'a list \<Rightarrow> bytes" where
  "enc_list e [] = [0]"
| "enc_list e (x # xs) = 1 # e x @ enc_list e xs"

fun dec_list_n :: "(bytes \<Rightarrow> ('a \<times> bytes) option) \<Rightarrow> nat \<Rightarrow> bytes \<Rightarrow> ('a list \<times> bytes) option" where
  "dec_list_n d 0 bs = None"
| "dec_list_n d (Suc n) bs =
     (case bs of
        [] \<Rightarrow> None
      | b # r \<Rightarrow>
          if b = 0 then Some ([], r)
          else Option.bind (d r) (\<lambda>(x, r).
               map_option (\<lambda>(xs, r). (x # xs, r)) (dec_list_n d n r)))"

definition dec_list :: "(bytes \<Rightarrow> ('a \<times> bytes) option) \<Rightarrow> bytes \<Rightarrow> ('a list \<times> bytes) option" where
  "dec_list d bs = dec_list_n d (length bs) bs"

definition enc_char :: "char \<Rightarrow> bytes" where
  "enc_char c = [of_nat (of_char c)]"

definition dec_char :: "bytes \<Rightarrow> (char \<times> bytes) option" where
  "dec_char bs = (case bs of [] \<Rightarrow> None | b # r \<Rightarrow> Some (char_of (unat b), r))"

lemma pc_word:
  "pc_ok (to_le :: u32 \<Rightarrow> bytes) dec_word" "pc_ok (to_le :: u64 \<Rightarrow> bytes) dec_word"
  by (simp_all add: pc_ok_def dec_word_def)

lemma pc_option: "pc_ok e d \<Longrightarrow> pc_ok (enc_option e) (dec_option d)"
  unfolding pc_ok_def
proof (intro allI)
  fix x r assume "\<forall>x r. d (e x @ r) = Some (x, r)"
  then show "dec_option d (enc_option e x @ r) = Some (x, r)"
    by (cases x) (simp_all add: dec_option_def)
qed

lemma dec_list_n_enc:
  "pc_ok e d \<Longrightarrow> length xs < n \<Longrightarrow> dec_list_n d n (enc_list e xs @ r) = Some (xs, r)"
proof (induction xs arbitrary: n)
  case Nil
  then show ?case by (cases n) simp_all
next
  case (Cons x xs)
  then obtain k where k: "n = Suc k" by (cases n) auto
  then have "dec_list_n d k (enc_list e xs @ r) = Some (xs, r)" using Cons by simp
  with k Cons.prems(1) show ?case by (simp add: pc_ok_def)
qed

lemma enc_list_length: "length xs < length (enc_list e xs)"
  by (induction xs) auto

lemma pc_list: "pc_ok e d \<Longrightarrow> pc_ok (enc_list e) (dec_list d)"
  by (simp add: pc_ok_def [of "enc_list e"] dec_list_def dec_list_n_enc enc_list_length trans_less_add1)

lemma pc_char: "pc_ok enc_char dec_char"
proof -
  have "unat (of_nat (of_char c) :: u8) = of_char c" for c
    using nat_of_char_less_256 [of c] by (simp add: unat_of_nat_small)
  then show ?thesis by (simp add: pc_ok_def enc_char_def dec_char_def)
qed

abbreviation enc_string :: "string \<Rightarrow> bytes" where
  "enc_string \<equiv> enc_list enc_char"

abbreviation dec_string :: "bytes \<Rightarrow> (string \<times> bytes) option" where
  "dec_string \<equiv> dec_list dec_char"

section \<open>The manifest's parts\<close>

definition dseq :: "(bytes \<Rightarrow> ('a \<times> bytes) option) \<Rightarrow> ('a \<Rightarrow> bytes \<Rightarrow> 'b option) \<Rightarrow> bytes \<Rightarrow> 'b option" where
  "dseq d f bs = Option.bind (d bs) (\<lambda>(x, r). f x r)"

lemma dseq_enc [simp]: "pc_ok e d \<Longrightarrow> dseq d f (e x @ r) = f x r"
  by (simp add: dseq_def pc_ok_def)

definition enc_lease :: "lease \<Rightarrow> bytes" where
  "enc_lease l = enc_string (l_holder l) @ to_le (l_expires_unix l) @ to_le (l_fence l) @
     enc_option enc_string (l_endpoint l) @ enc_option to_le (l_ttl_secs l)"

definition dec_lease :: "bytes \<Rightarrow> (lease \<times> bytes) option" where
  "dec_lease = dseq dec_string (\<lambda>h. dseq dec_word (\<lambda>x. dseq dec_word (\<lambda>f.
     dseq (dec_option dec_string) (\<lambda>e. dseq (dec_option dec_word) (\<lambda>t r.
     Some (\<lparr>l_holder = h, l_expires_unix = x, l_fence = f, l_endpoint = e, l_ttl_secs = t\<rparr>, r))))))"

definition enc_change :: "shard_change \<Rightarrow> bytes" where
  "enc_change c = to_le (sc_from c) @ to_le (sc_to c) @ to_le (sc_at c) @ to_le (sc_unix c)"

definition dec_change :: "bytes \<Rightarrow> (shard_change \<times> bytes) option" where
  "dec_change = dseq dec_word (\<lambda>a. dseq dec_word (\<lambda>b. dseq dec_word (\<lambda>c. dseq dec_word (\<lambda>d r.
     Some (\<lparr>sc_from = a, sc_to = b, sc_at = c, sc_unix = d\<rparr>, r)))))"

definition enc_kind :: "checkpoint_kind \<Rightarrow> bytes" where
  "enc_kind k = [case k of Full \<Rightarrow> 0 | DeltaKind \<Rightarrow> 1]"

definition dec_kind :: "bytes \<Rightarrow> (checkpoint_kind \<times> bytes) option" where
  "dec_kind bs = (case bs of [] \<Rightarrow> None | b # r \<Rightarrow> Some (if b = 0 then Full else DeltaKind, r))"

definition enc_chk :: "checkpoint_ref \<Rightarrow> bytes" where
  "enc_chk c = enc_string (cr_id c) @ to_le (cr_lsn c) @ enc_kind (cr_kind c) @
     enc_option enc_string (cr_owner c)"

definition dec_chk :: "bytes \<Rightarrow> (checkpoint_ref \<times> bytes) option" where
  "dec_chk = dseq dec_string (\<lambda>i. dseq dec_word (\<lambda>l. dseq dec_kind (\<lambda>k. dseq (dec_option dec_string) (\<lambda>w r.
     Some (\<lparr>cr_id = i, cr_lsn = l, cr_kind = k, cr_owner = w\<rparr>, r)))))"

definition enc_branch :: "branch_of \<Rightarrow> bytes" where
  "enc_branch b = enc_string (bo_tenant_ref b) @ to_le (bo_at_lsn b)"

definition dec_branch :: "bytes \<Rightarrow> (branch_of \<times> bytes) option" where
  "dec_branch = dseq dec_string (\<lambda>t. dseq dec_word (\<lambda>l r.
     Some (\<lparr>bo_tenant_ref = t, bo_at_lsn = l\<rparr>, r)))"

lemmas pc_basic = pc_word pc_option pc_list pc_char

lemma pc_parts:
  "pc_ok enc_lease dec_lease" "pc_ok enc_change dec_change" "pc_ok enc_kind dec_kind"
  "pc_ok enc_branch dec_branch"
  by (simp_all add: pc_ok_def [of enc_lease] pc_ok_def [of enc_change] pc_ok_def [of enc_kind]
      pc_ok_def [of enc_branch] enc_lease_def dec_lease_def enc_change_def dec_change_def enc_kind_def
      dec_kind_def enc_branch_def dec_branch_def pc_basic split: checkpoint_kind.splits)

lemma pc_chk: "pc_ok enc_chk dec_chk"
  by (simp add: pc_ok_def [of enc_chk] enc_chk_def dec_chk_def pc_basic pc_parts)

definition enc_manifest :: "manifest \<Rightarrow> bytes" where
  "enc_manifest m = to_le (mf_format m) @ enc_string (mf_tenant_ref m) @ to_le (mf_epoch m) @
     enc_option enc_lease (mf_lease m) @ to_le (pg_version (mf_pg m)) @ to_le (pg_timeline (mf_pg m)) @
     enc_list enc_chk (mf_checkpoints m) @ enc_option to_le (mf_folded_upto m) @
     enc_option to_le (mf_pages_elided_from m) @ enc_option enc_branch (mf_branch_of m) @
     to_le (mf_shards m) @ enc_list enc_change (mf_shard_history m) @
     enc_option to_le (mf_published_unix m)"

definition dec_manifest :: "bytes \<Rightarrow> (manifest \<times> bytes) option" where
  "dec_manifest = dseq dec_word (\<lambda>f. dseq dec_string (\<lambda>t. dseq dec_word (\<lambda>e.
     dseq (dec_option dec_lease) (\<lambda>l. dseq dec_word (\<lambda>v. dseq dec_word (\<lambda>tl.
     dseq (dec_list dec_chk) (\<lambda>c. dseq (dec_option dec_word) (\<lambda>fu. dseq (dec_option dec_word) (\<lambda>pe.
     dseq (dec_option dec_branch) (\<lambda>b. dseq dec_word (\<lambda>s. dseq (dec_list dec_change) (\<lambda>h.
     dseq (dec_option dec_word) (\<lambda>p r.
     Some (\<lparr>mf_format = f, mf_tenant_ref = t, mf_epoch = e, mf_lease = l,
            mf_pg = \<lparr>pg_version = v, pg_timeline = tl\<rparr>, mf_checkpoints = c, mf_folded_upto = fu,
            mf_pages_elided_from = pe, mf_branch_of = b, mf_shards = s, mf_shard_history = h,
            mf_published_unix = p\<rparr>, r))))))))))))))"

lemma pc_manifest: "pc_ok enc_manifest dec_manifest"
  by (simp add: pc_ok_def [of enc_manifest] enc_manifest_def dec_manifest_def pc_basic pc_parts pc_chk)

definition sample_codec :: manifest_codec where
  "sample_codec =
     \<lparr>mc_ser = enc_manifest,
      mc_peek = (\<lambda>bs. map_option (\<lambda>(m, _).
        \<lparr>pk_format = mf_format m, pk_wal_tail = None, pk_parent_tail = []\<rparr>) (dec_manifest bs)),
      mc_de = (\<lambda>bs. map_option fst (dec_manifest bs))\<rparr>"

lemma sample_codec_faithful: "codec_faithful sample_codec"
  using pc_manifest by (simp add: codec_faithful_def sample_codec_def pc_ok_def)

end
