(* ===== verification/Lease_Proofs.thy ===== *)
theory Lease_Proofs
  imports Writer_Lease Sample_Codec
begin

text \<open>
  What the writer lease guarantees when any number of nodes run its operations at
  once. A world is the store, every read of the manifest anybody ever made and
  every lease anybody ever got; a step is one access to the store of one
  operation, so that an operation's swap may follow its read by any number of
  steps of others. The invariant is proved for every store that keeps the
  compare-and-swap contract; the properties are about the memory store, plain
  and guarded.
\<close>

section \<open>Single accesses\<close>

lemma sbind_sret [simp]: "sbind (sret r) f s = (case r of Ok x \<Rightarrow> f x s | Err e \<Rightarrow> (Err e, s) | Panic \<Rightarrow> (Panic, s))"
  by (cases r) (simp_all add: sbind_def sret_def)

context cas_laws
begin

lemma load_cases:
  assumes "ok s" "load_manifest c st key s = (r, s')"
  shows "view s' = view s \<and> (\<forall>k. used s k \<subseteq> used s' k) \<and>
    (\<forall>m v. r = Ok (m, v) \<longrightarrow> (\<exists>d. view s key = Some (d, v) \<and> from_json c d = Ok m))"
proof -
  obtain g s1 where g: "cs_get st key s = (g, s1)" by (cases "cs_get st key s")
  then show ?thesis
    using get_view [OF assms(1) g] assms(2)
    by (auto simp: load_manifest_def obind_Ok_iff split: outcome.splits option.splits prod.splits)
qed

text \<open>A swap either replaces the object under the expected version, and then only an I/O error
  hides it from the caller, or leaves the store as it was.\<close>

lemma swap_cases:
  assumes "ok s" "swap c st key m version s = (r, s')"
  obtains (applied) d v where "view s key = Some (d, version)" "v \<notin> used s key"
    "view s' = (view s)(key \<mapsto> (to_json c m, v))" "v \<in> used s' key" "\<And>k. used s k \<subseteq> used s' k"
    "r = Ok v \<or> (\<exists>e. r = Err (Store (Io e)))"
  | (refused) "view s' = view s" "\<And>k. used s k \<subseteq> used s' k" "\<And>v. r \<noteq> Ok v"
proof -
  obtain w s1 where w: "cs_put_if_match st key (to_json c m) (Some version) s = (w, s1)"
    by (cases "cs_put_if_match st key (to_json c m) (Some version) s")
  have s1: "s1 = s'" and r: "w = Ok v \<Longrightarrow> r = Ok v" "w = Err (Io e) \<Longrightarrow> r = Err (Store (Io e))"
    "(\<forall>v. w \<noteq> Ok v) \<Longrightarrow> r \<noteq> Ok v" for v e
    using assms(2) w by (auto simp: swap_def split: outcome.splits cas_error.splits)
  from put_view [OF assms(1) w] show thesis
  proof (elim disjE conjE exE)
    fix v assume *: "Some version = map_option snd (view s key)" "v \<notin> used s key"
      "view s1 = (view s)(key \<mapsto> (to_json c m, v))" "v \<in> used s1 key" "\<forall>k. used s k \<subseteq> used s1 k"
    then obtain d where "view s key = Some (d, version)" by (cases "view s key") auto
    then show thesis if "w = Ok v"
      using applied [of d v] * that r s1 by auto
    show thesis if "w = Err (Io x)" for x
      using applied [of d v] * \<open>view s key = Some (d, version)\<close> that r s1 by auto
  next
    assume "view s1 = view s" "\<forall>k. used s k \<subseteq> used s1 k" "\<forall>v. w \<noteq> Ok v"
    then show thesis using refused r s1 by auto
  qed
qed

end

section \<open>Interleaved operations\<close>

record 's lease_world =
  lw_store :: 's
  lw_reads :: "(manifest \<times> version) set"
  lw_held :: "held_lease set"

text \<open>A lease's holder publishes with functions that leave epoch and lease alone.\<close>

definition respects_lease :: "(manifest \<Rightarrow> manifest) \<Rightarrow> bool" where
  "respects_lease f \<longleftrightarrow> (\<forall>m. mf_epoch (f m) = mf_epoch m \<and> mf_lease (f m) = mf_lease m \<and>
     mf_format (f m) = mf_format m)"

definition oks :: "('a, 'e) outcome \<Rightarrow> 'a set" where
  "oks r = (case r of Ok x \<Rightarrow> {x} | _ \<Rightarrow> {})"

lemma oks_simps [simp]: "oks (Ok x) = {x}" "oks (Err e) = {}" "oks Panic = {}"
  "y \<in> oks r \<longleftrightarrow> r = Ok y"
  by (simp_all add: oks_def split: outcome.splits) auto

text \<open>What a swap may start from: a read that passed the ownership check, or, for a renewal, the
  manifest and version in the lease itself.\<close>

inductive lease_step ::
  "manifest_codec \<Rightarrow> 's cas_store \<Rightarrow> ('s \<Rightarrow> string \<Rightarrow> (bytes \<times> version) option) \<Rightarrow>
   ('s \<Rightarrow> string \<Rightarrow> version set) \<Rightarrow> tenant_layout \<Rightarrow> 's lease_world \<Rightarrow> 's lease_world \<Rightarrow> bool"
  for c st view used layout where
  read: "load_manifest c st (layout_manifest layout) (lw_store w) = (r, s) \<Longrightarrow>
    lease_step c st view used layout w (w\<lparr>lw_store := s, lw_reads := oks r \<union> lw_reads w\<rparr>)"
| take: "mv \<in> lw_reads w \<Longrightarrow> mf_epoch (fst mv) \<noteq> - 1 \<Longrightarrow>
    take_from c st (layout_manifest layout) holder endpoint ttl now force mv (lw_store w) = (h, s) \<Longrightarrow>
    lease_step c st view used layout w (w\<lparr>lw_store := s, lw_held := oks h \<union> lw_held w\<rparr>)"
| renew_held: "held \<in> lw_held w \<Longrightarrow>
    renew_from c st (layout_manifest layout) held ttl now (hl_manifest held, hl_version held) (lw_store w) = (h, s) \<Longrightarrow>
    lease_step c st view used layout w (w\<lparr>lw_store := s, lw_held := oks h \<union> lw_held w\<rparr>)"
| renew_read: "held \<in> lw_held w \<Longrightarrow> mv \<in> lw_reads w \<Longrightarrow> check_ownership held mv = Ok mv \<Longrightarrow>
    renew_from c st (layout_manifest layout) held ttl now mv (lw_store w) = (h, s) \<Longrightarrow>
    lease_step c st view used layout w (w\<lparr>lw_store := s, lw_held := oks h \<union> lw_held w\<rparr>)"
| release: "held \<in> lw_held w \<Longrightarrow> mv \<in> lw_reads w \<Longrightarrow> check_ownership held mv = Ok mv \<Longrightarrow>
    release_from c st (layout_manifest layout) mv (lw_store w) = (u, s) \<Longrightarrow>
    lease_step c st view used layout w (w\<lparr>lw_store := s\<rparr>)"
| update: "held \<in> lw_held w \<Longrightarrow> mv \<in> lw_reads w \<Longrightarrow> check_ownership held mv = Ok mv \<Longrightarrow>
    respects_lease mutate \<Longrightarrow>
    swap c st (layout_manifest layout) (snd (published mutate now (fst mv))) (snd mv) (lw_store w) = (v, s) \<Longrightarrow>
    lease_step c st view used layout w
      (w\<lparr>lw_store := s,
         lw_held := (\<lambda>v. held\<lparr>hl_version := v, hl_last_history_unix := history,
                                hl_manifest := snd (published mutate now (fst mv))\<rparr>) ` oks v \<union> lw_held w\<rparr>)"
| elsewhere: "view s (layout_manifest layout) = view (lw_store w) (layout_manifest layout) \<Longrightarrow>
    used (lw_store w) (layout_manifest layout) \<subseteq> used s (layout_manifest layout) \<Longrightarrow>
    lease_step c st view used layout w (w\<lparr>lw_store := s\<rparr>)"

text \<open>Worlds reached from one manifest nobody holds a lease handle of, through stores that keep
  the contract.\<close>

inductive lease_reach ::
  "manifest_codec \<Rightarrow> 's cas_store \<Rightarrow> ('s \<Rightarrow> string \<Rightarrow> (bytes \<times> version) option) \<Rightarrow>
   ('s \<Rightarrow> string \<Rightarrow> version set) \<Rightarrow> ('s \<Rightarrow> bool) \<Rightarrow> tenant_layout \<Rightarrow> 's lease_world \<Rightarrow> bool"
  for c st view used ok layout where
  start: "ok s \<Longrightarrow> view s (layout_manifest layout) = Some (to_json c m, v) \<Longrightarrow>
    mf_format m \<le> MANIFEST_FORMAT \<Longrightarrow>
    lease_reach c st view used ok layout \<lparr>lw_store = s, lw_reads = {}, lw_held = {}\<rparr>"
| more: "lease_reach c st view used ok layout w \<Longrightarrow> lease_step c st view used layout w w' \<Longrightarrow>
    ok (lw_store w') \<Longrightarrow> lease_reach c st view used ok layout w'"


section \<open>The invariant\<close>

text \<open>\<open>hist\<close> remembers the manifest every version stood for, \<open>owner\<close> whose every epoch was. The
  manifest in the store has the newest epoch; every read and every lease agrees with the history.\<close>

definition hist_ok ::
  "(version \<rightharpoonup> manifest) \<Rightarrow> (u64 \<Rightarrow> string \<times> u64) \<Rightarrow> manifest \<Rightarrow> bool" where
  "hist_ok hist owner cur \<longleftrightarrow>
     (\<forall>v m. hist v = Some m \<longrightarrow>
        mf_epoch m \<le> mf_epoch cur \<and> mf_format m \<le> MANIFEST_FORMAT \<and>
        (\<forall>l. mf_lease m = Some l \<longrightarrow> owner (mf_epoch m) = (l_holder l, l_fence l)))"

definition held_ok ::
  "(version \<rightharpoonup> manifest) \<Rightarrow> (u64 \<Rightarrow> string \<times> u64) \<Rightarrow> held_lease \<Rightarrow> bool" where
  "held_ok hist owner h \<longleftrightarrow>
     hist (hl_version h) = Some (hl_manifest h) \<and> mf_epoch (hl_manifest h) = hl_epoch h \<and>
     owner (hl_epoch h) = (hl_holder h, hl_fence h)"

definition world_ok ::
  "manifest_codec \<Rightarrow> (bytes \<times> version) option \<Rightarrow> version set \<Rightarrow>
   (manifest \<times> version) set \<Rightarrow> held_lease set \<Rightarrow>
   (version \<rightharpoonup> manifest) \<Rightarrow> (u64 \<Rightarrow> string \<times> u64) \<Rightarrow> manifest \<Rightarrow> bool" where
  "world_ok c obj vs reads helds hist owner cur \<longleftrightarrow>
     (\<exists>v. obj = Some (to_json c cur, v) \<and> hist v = Some cur) \<and> dom hist \<subseteq> vs \<and>
     (\<forall>(m, v) \<in> reads. hist v = Some m) \<and> (\<forall>h \<in> helds. held_ok hist owner h) \<and>
     hist_ok hist owner cur"

lemmas world_ok_defs = world_ok_def hist_ok_def held_ok_def

lemma world_ok_mono:
  "world_ok c obj vs reads helds hist owner cur \<Longrightarrow> vs \<subseteq> vs' \<Longrightarrow>
   world_ok c obj vs' reads helds hist owner cur"
  by (auto simp: world_ok_def)

definition lease_inv ::
  "manifest_codec \<Rightarrow> ('s \<Rightarrow> string \<Rightarrow> (bytes \<times> version) option) \<Rightarrow>
   ('s \<Rightarrow> string \<Rightarrow> version set) \<Rightarrow> tenant_layout \<Rightarrow> 's lease_world \<Rightarrow> bool" where
  "lease_inv c view used layout w \<longleftrightarrow>
     (\<exists>hist owner cur. world_ok c (view (lw_store w) (layout_manifest layout))
        (used (lw_store w) (layout_manifest layout)) (lw_reads w) (lw_held w) hist owner cur)"

text \<open>A manifest written over the current one under a fresh version, for the same owner.\<close>

lemma world_ok_keep:
  assumes "world_ok c obj vs reads helds hist owner cur" "v \<notin> vs" "v \<in> vs'" "vs \<subseteq> vs'"
    and "mf_epoch m = mf_epoch cur" "mf_format m \<le> MANIFEST_FORMAT"
    and "\<And>l. mf_lease m = Some l \<Longrightarrow> owner (mf_epoch cur) = (l_holder l, l_fence l)"
  shows "world_ok c (Some (to_json c m, v)) vs' reads helds (hist(v \<mapsto> m)) owner m"
proof -
  have fresh: "w \<noteq> v" if "hist w = Some x" for w x
    using that assms(1,2) by (auto simp: world_ok_def)
  have "held_ok (hist(v \<mapsto> m)) owner h" if "h \<in> helds" for h
  proof -
    have "held_ok hist owner h" using that assms(1) by (simp add: world_ok_def)
    then show ?thesis using fresh by (auto simp: held_ok_def)
  qed
  moreover have "\<forall>(x, w) \<in> reads. (hist(v \<mapsto> m)) w = Some x"
    using assms(1) fresh by (fastforce simp: world_ok_def)
  moreover have "hist_ok (hist(v \<mapsto> m)) owner m"
    using assms(1,5-) by (auto simp: world_ok_def hist_ok_def)
  ultimately show ?thesis
    using assms(1,3,4) by (auto simp: world_ok_def)
qed

text \<open>A new owner under a new epoch.\<close>

lemma world_ok_take:
  assumes "world_ok c obj vs reads helds hist owner cur" "v \<notin> vs" "v \<in> vs'" "vs \<subseteq> vs'"
    and "mf_epoch cur < mf_epoch m" "mf_format m \<le> MANIFEST_FORMAT" "mf_lease m = Some l"
  shows "world_ok c (Some (to_json c m, v)) vs' reads helds (hist(v \<mapsto> m))
    (owner(mf_epoch m := (l_holder l, l_fence l))) m"
proof -
  let ?o = "owner(mf_epoch m := (l_holder l, l_fence l))"
  have fresh: "w \<noteq> v" if "hist w = Some x" for w x
    using that assms(1,2) by (auto simp: world_ok_def)
  have below: "mf_epoch x < mf_epoch m" if "hist w = Some x" for w x
  proof -
    have "mf_epoch x \<le> mf_epoch cur" using that assms(1) by (auto simp: world_ok_def hist_ok_def)
    then show ?thesis using assms(5) by (rule le_less_trans)
  qed
  have "held_ok (hist(v \<mapsto> m)) ?o h" if "h \<in> helds" for h
  proof -
    have "held_ok hist owner h" using that assms(1) by (simp add: world_ok_def)
    then show ?thesis using fresh below by (fastforce simp: held_ok_def)
  qed
  moreover have "\<forall>(x, w) \<in> reads. (hist(v \<mapsto> m)) w = Some x"
    using assms(1) fresh by (fastforce simp: world_ok_def)
  moreover have "hist_ok (hist(v \<mapsto> m)) ?o m"
    unfolding hist_ok_def
  proof (intro allI impI)
    fix w x assume w: "(hist(v \<mapsto> m)) w = Some x"
    show "mf_epoch x \<le> mf_epoch m \<and> mf_format x \<le> MANIFEST_FORMAT \<and>
        (\<forall>l. mf_lease x = Some l \<longrightarrow> ?o (mf_epoch x) = (l_holder l, l_fence l))"
    proof (cases "w = v")
      case True
      with w assms(6,7) show ?thesis by simp
    next
      case False
      with w have "hist w = Some x" by simp
      with below [OF this] assms(1) show ?thesis
        by (simp add: world_ok_def hist_ok_def less_imp_le less_imp_neq)
    qed
  qed
  ultimately show ?thesis
    using assms(1,3,4) by (auto simp: world_ok_def)
qed

lemma world_ok_add_held:
  "world_ok c obj vs reads helds hist owner cur \<Longrightarrow> held_ok hist owner h \<Longrightarrow>
   world_ok c obj vs reads (insert h helds) hist owner cur"
  by (simp add: world_ok_def)

text \<open>Under the version a swap expects stands what the swap's writer read.\<close>

lemma world_ok_current:
  assumes "world_ok c obj vs reads helds hist owner cur" "obj = Some (d, v)" "hist v = Some m"
  shows "m = cur"
  using assms by (auto simp: world_ok_def)


context cas_laws
begin

lemma swap_keep:
  assumes "ok s" "swap c st key m version s = (r, s')"
    and "world_ok c (view s key) (used s key) reads helds hist owner cur"
    and "hist version = Some m0" "mf_epoch m = mf_epoch m0" "mf_format m = mf_format m0"
    and "\<And>l. mf_lease m = Some l \<Longrightarrow> \<exists>l0. mf_lease m0 = Some l0 \<and> l_holder l0 = l_holder l \<and> l_fence l0 = l_fence l"
  obtains hist' cur' where "world_ok c (view s' key) (used s' key) reads helds hist' owner cur'"
    "\<And>v. r = Ok v \<Longrightarrow> hist' v = Some m"
  using assms(1,2)
proof (cases rule: swap_cases)
  case (applied d v)
  have m0: "m0 = cur" using assms(3) applied(1) assms(4) by (rule world_ok_current)
  have h: "mf_format m0 \<le> MANIFEST_FORMAT"
    "\<And>l. mf_lease m0 = Some l \<Longrightarrow> owner (mf_epoch m0) = (l_holder l, l_fence l)"
    using assms(3,4) by (auto simp: world_ok_def hist_ok_def)
  have "world_ok c (Some (to_json c m, v)) (used s' key) reads helds (hist(v \<mapsto> m)) owner m"
  proof (rule world_ok_keep [OF assms(3)])
    show "v \<notin> used s key" "v \<in> used s' key" "used s key \<subseteq> used s' key"
      using applied by auto
    show "owner (mf_epoch cur) = (l_holder l, l_fence l)" if "mf_lease m = Some l" for l
      using assms(7) [OF that] h(2) m0 by auto
  qed (use assms h m0 in auto)
  then show thesis using applied that by auto
next
  case refused
  then have "world_ok c (view s' key) (used s' key) reads helds hist owner cur"
    using world_ok_mono [OF assms(3) refused(2)] by simp
  then show thesis using that refused(3) by blast
qed

lemma swap_take:
  assumes "ok s" "swap c st key m version s = (r, s')"
    and "world_ok c (view s key) (used s key) reads helds hist owner cur"
    and "hist version = Some m0" "mf_epoch m0 < mf_epoch m" "mf_format m = mf_format m0"
    and "mf_lease m = Some l"
  obtains hist' owner' cur' where
    "world_ok c (view s' key) (used s' key) reads helds hist' owner' cur'"
    "\<And>v. r = Ok v \<Longrightarrow> hist' v = Some m \<and> owner' (mf_epoch m) = (l_holder l, l_fence l)"
  using assms(1,2)
proof (cases rule: swap_cases)
  case (applied d v)
  have m0: "m0 = cur" using assms(3) applied(1) assms(4) by (rule world_ok_current)
  have h: "mf_format m0 \<le> MANIFEST_FORMAT" using assms(3,4) by (auto simp: world_ok_def hist_ok_def)
  have "world_ok c (Some (to_json c m, v)) (used s' key) reads helds (hist(v \<mapsto> m))
      (owner(mf_epoch m := (l_holder l, l_fence l))) m"
    by (rule world_ok_take [OF assms(3)]) (use applied assms h m0 in auto)
  then show thesis using applied that by auto
next
  case refused
  then have "world_ok c (view s' key) (used s' key) reads helds hist owner cur"
    using world_ok_mono [OF assms(3) refused(2)] by simp
  then show thesis using that refused(3) by blast
qed


text \<open>Every step keeps the invariant.\<close>

lemma inv_renew:
  assumes "ok (lw_store w)" "held_ok hist owner held" "hist (snd mv) = Some (fst mv)"
    and "mf_epoch (fst mv) = hl_epoch held"
    and "renew_from c st (layout_manifest layout) held ttl now mv (lw_store w) = (h, s)"
    and "world_ok c (view (lw_store w) (layout_manifest layout))
        (used (lw_store w) (layout_manifest layout)) (lw_reads w) (lw_held w) hist owner cur"
  shows "lease_inv c view used layout (w\<lparr>lw_store := s, lw_held := oks h \<union> lw_held w\<rparr>)"
proof (cases "mf_lease (fst mv)")
  case None
  with assms show ?thesis by (auto simp: renew_from_def lease_inv_def split_beta)
next
  case (Some l)
  let ?m = "extended (fst mv) l ttl now"
  obtain r s1 where r: "swap c st (layout_manifest layout) ?m (snd mv) (lw_store w) = (r, s1)"
    by fastforce
  have h: "s = s1" "\<And>x. h = Ok x \<Longrightarrow> \<exists>v. r = Ok v \<and>
      x = held\<lparr>hl_version := v, hl_expires_unix := now + ttl, hl_manifest := ?m\<rparr>"
    using assms(5) Some r
    by (auto simp: renew_from_def split_beta Let_def sbind_def sret_def split: outcome.splits)
  obtain hist' cur' where w': "world_ok c (view s (layout_manifest layout)) (used s (layout_manifest layout))
      (lw_reads w) (lw_held w) hist' owner cur'" and v: "\<And>v. r = Ok v \<Longrightarrow> hist' v = Some ?m"
    by (rule swap_keep [OF assms(1) r assms(6) assms(3)]) (use Some h in \<open>auto simp: extended_def\<close>)
  have "held_ok hist' owner x" if "h = Ok x" for x
    using h(2) [OF that] v assms(2,4) by (auto simp: held_ok_def extended_def)
  with w' have "world_ok c (view s (layout_manifest layout)) (used s (layout_manifest layout))
      (lw_reads w) (oks h \<union> lw_held w) hist' owner cur'"
    by (auto simp: world_ok_def)
  then show ?thesis by (auto simp: lease_inv_def)
qed

lemma inv_take:
  assumes "ok (lw_store w)" "hist (snd mv) = Some (fst mv)" "mf_epoch (fst mv) \<noteq> - 1"
    and "take_from c st (layout_manifest layout) holder endpoint ttl now force mv (lw_store w) = (h, s)"
    and "world_ok c (view (lw_store w) (layout_manifest layout))
        (used (lw_store w) (layout_manifest layout)) (lw_reads w) (lw_held w) hist owner cur"
  shows "lease_inv c view used layout (w\<lparr>lw_store := s, lw_held := oks h \<union> lw_held w\<rparr>)"
proof (cases "take_refusal (fst mv) holder ttl now force")
  case (Some e)
  with assms(4) have "h = Err e" "s = lw_store w" by (auto simp: take_from_def split_beta sret_def)
  then show ?thesis using assms(5) unfolding lease_inv_def by auto
next
  case None
  let ?m = "taken_manifest (fst mv) holder endpoint ttl now"
  obtain r s1 where r: "swap c st (layout_manifest layout) ?m (snd mv) (lw_store w) = (r, s1)"
    by fastforce
  have h: "s = s1" "\<And>x. h = Ok x \<Longrightarrow> \<exists>v. r = Ok v \<and> hl_version x = v \<and> hl_manifest x = ?m \<and>
      hl_epoch x = mf_epoch ?m \<and> hl_holder x = holder \<and> hl_fence x = next_fence (fst mv)"
    using assms(4) None r
    by (auto simp: take_from_def split_beta Let_def sbind_def sret_def split: outcome.splits)
  have e: "mf_epoch (fst mv) < mf_epoch ?m"
    using counter_less_Suc [OF assms(3)] by (simp add: taken_manifest_def)
  obtain hist' owner' cur' where w': "world_ok c (view s (layout_manifest layout)) (used s (layout_manifest layout))
      (lw_reads w) (lw_held w) hist' owner' cur'"
    and v: "\<And>v. r = Ok v \<Longrightarrow> hist' v = Some ?m \<and> owner' (mf_epoch ?m) = (holder, next_fence (fst mv))"
    by (rule swap_take [OF assms(1) r assms(5,2) e]) (use h in \<open>auto simp: taken_manifest_def\<close>)
  have "held_ok hist' owner' x" if "h = Ok x" for x
    using h(2) [OF that] v by (auto simp: held_ok_def)
  with w' have "world_ok c (view s (layout_manifest layout)) (used s (layout_manifest layout))
      (lw_reads w) (oks h \<union> lw_held w) hist' owner' cur'"
    by (auto simp: world_ok_def)
  then show ?thesis by (auto simp: lease_inv_def)
qed

lemma inv_update:
  assumes "ok (lw_store w)" "held_ok hist owner held" "hist (snd mv) = Some (fst mv)"
    and "mf_epoch (fst mv) = hl_epoch held" "respects_lease mutate"
    and "swap c st (layout_manifest layout) (snd (published mutate now (fst mv))) (snd mv) (lw_store w) = (v, s)"
    and "world_ok c (view (lw_store w) (layout_manifest layout))
        (used (lw_store w) (layout_manifest layout)) (lw_reads w) (lw_held w) hist owner cur"
  shows "lease_inv c view used layout
    (w\<lparr>lw_store := s,
       lw_held := (\<lambda>v. held\<lparr>hl_version := v, hl_last_history_unix := history,
                              hl_manifest := snd (published mutate now (fst mv))\<rparr>) ` oks v \<union> lw_held w\<rparr>)"
proof -
  let ?m = "snd (published mutate now (fst mv))"
  have m: "mf_epoch ?m = mf_epoch (fst mv)" "mf_lease ?m = mf_lease (fst mv)" "mf_format ?m = mf_format (fst mv)"
    using assms(5) by (auto simp: published_def Let_def respects_lease_def)
  obtain hist' cur' where w': "world_ok c (view s (layout_manifest layout)) (used s (layout_manifest layout))
      (lw_reads w) (lw_held w) hist' owner cur'" and v: "\<And>x. v = Ok x \<Longrightarrow> hist' x = Some ?m"
    by (rule swap_keep [OF assms(1,6,7,3)]) (use m in auto)
  have "held_ok hist' owner (held\<lparr>hl_version := x, hl_last_history_unix := history, hl_manifest := ?m\<rparr>)"
    if "v = Ok x" for x
    using v [OF that] assms(2,4) m by (auto simp: held_ok_def)
  with w' have "world_ok c (view s (layout_manifest layout)) (used s (layout_manifest layout)) (lw_reads w)
      ((\<lambda>v. held\<lparr>hl_version := v, hl_last_history_unix := history, hl_manifest := ?m\<rparr>) ` oks v \<union> lw_held w)
      hist' owner cur'"
    by (auto simp: world_ok_def)
  then show ?thesis unfolding lease_inv_def by auto
qed

lemma inv_release:
  assumes "ok (lw_store w)" "hist (snd mv) = Some (fst mv)"
    and "release_from c st (layout_manifest layout) mv (lw_store w) = (u, s)"
    and "world_ok c (view (lw_store w) (layout_manifest layout))
        (used (lw_store w) (layout_manifest layout)) (lw_reads w) (lw_held w) hist owner cur"
  shows "lease_inv c view used layout (w\<lparr>lw_store := s\<rparr>)"
proof -
  let ?m = "fst mv\<lparr>mf_lease := None\<rparr>"
  obtain r s1 where r: "swap c st (layout_manifest layout) ?m (snd mv) (lw_store w) = (r, s1)"
    by fastforce
  have s: "s = s1"
    using assms(3) r by (auto simp: release_from_def split_beta Let_def sbind_def sret_def split: outcome.splits)
  obtain hist' cur' where "world_ok c (view s1 (layout_manifest layout)) (used s1 (layout_manifest layout))
      (lw_reads w) (lw_held w) hist' owner cur'"
    by (rule swap_keep [OF assms(1) r assms(4,2)]) auto
  then show ?thesis by (auto simp: lease_inv_def s)
qed

lemma check_ownership_epoch: "check_ownership held mv = Ok mv \<Longrightarrow> mf_epoch (fst mv) = hl_epoch held"
  by (auto simp: check_ownership_def still_ours_def split: if_splits)

lemma inv_step:
  assumes "lease_step c st view used layout w w'" "ok (lw_store w)" "codec_faithful c"
    and "lease_inv c view used layout w"
  shows "lease_inv c view used layout w'"
proof -
  obtain hist owner cur where i: "world_ok c (view (lw_store w) (layout_manifest layout))
        (used (lw_store w) (layout_manifest layout)) (lw_reads w) (lw_held w) hist owner cur"
    using assms(4) by (auto simp: lease_inv_def)
  then have reads: "mv \<in> lw_reads w \<Longrightarrow> hist (snd mv) = Some (fst mv)"
    and helds: "h \<in> lw_held w \<Longrightarrow> held_ok hist owner h" for mv h
    by (auto simp: world_ok_def)
  from assms(1) show ?thesis
  proof cases
    case (read r s)
    have "view s = view (lw_store w)"
      "used (lw_store w) (layout_manifest layout) \<subseteq> used s (layout_manifest layout)"
      using load_cases [OF assms(2) read(2)] by auto
    with world_ok_mono [OF i]
    have "world_ok c (view s (layout_manifest layout)) (used s (layout_manifest layout))
        (lw_reads w) (lw_held w) hist owner cur" by simp
    moreover have "hist (snd mv) = Some (fst mv)" if "r = Ok mv" for mv
      using load_cases [OF assms(2) read(2)] i that assms(3)
      by (cases mv) (auto simp: world_ok_def hist_ok_def from_to_json split: if_splits)
    ultimately have "world_ok c (view s (layout_manifest layout)) (used s (layout_manifest layout))
        (oks r \<union> lw_reads w) (lw_held w) hist owner cur"
      by (auto simp: world_ok_def)
    then show ?thesis by (auto simp: lease_inv_def read)
  next
    case take
    with inv_take [OF assms(2) reads _ _ i] show ?thesis by auto
  next
    case (renew_held held ttl now h s)
    have "hist (hl_version held) = Some (hl_manifest held)" "mf_epoch (hl_manifest held) = hl_epoch held"
      using helds [OF renew_held(2)] by (auto simp: held_ok_def)
    with inv_renew [OF assms(2) helds _ _ renew_held(3) i] renew_held show ?thesis by simp
  next
    case renew_read
    with inv_renew [OF assms(2) helds reads _ _ i] check_ownership_epoch show ?thesis by auto
  next
    case release
    with inv_release [OF assms(2) reads _ i] show ?thesis by auto
  next
    case update
    with inv_update [OF assms(2) helds reads _ _ _ i] check_ownership_epoch show ?thesis by auto
  next
    case (elsewhere s)
    with world_ok_mono [OF i elsewhere(3)] show ?thesis unfolding lease_inv_def by auto
  qed
qed

lemma reach_inv:
  assumes "lease_reach c st view used ok layout w" "codec_faithful c"
  shows "lease_inv c view used layout w \<and> ok (lw_store w)"
  using assms
proof induction
  case (start s m v)
  define owner where "owner = (\<lambda>_::u64. case mf_lease m of None \<Rightarrow> ([], 0) | Some l \<Rightarrow> (l_holder l, l_fence l))"
  have "world_ok c (view s (layout_manifest layout)) (used s (layout_manifest layout)) {} {} [v \<mapsto> m] owner m"
    using start view_used [of s] by (auto simp: world_ok_def hist_ok_def owner_def)
  with start show ?case by (auto simp: lease_inv_def)
next
  case (more w w')
  then show ?case using inv_step by blast
qed

text \<open>What a reachable world says about the manifest in the store.\<close>

lemma reach_current:
  assumes "lease_reach c st view used ok layout w" "codec_faithful c"
  obtains cur v where "view (lw_store w) (layout_manifest layout) = Some (to_json c cur, v)"
    "mf_format cur \<le> MANIFEST_FORMAT"
    "\<And>m. (m, v) \<in> lw_reads w \<Longrightarrow> m = cur"
    "\<And>m u. (m, u) \<in> lw_reads w \<Longrightarrow> mf_epoch m \<le> mf_epoch cur"
    "\<And>h. h \<in> lw_held w \<Longrightarrow> hl_version h = v \<Longrightarrow> hl_manifest h = cur"
    "\<And>h. h \<in> lw_held w \<Longrightarrow> hl_epoch h \<le> mf_epoch cur \<and> mf_epoch (hl_manifest h) = hl_epoch h"
    "\<And>h l. h \<in> lw_held w \<Longrightarrow> hl_epoch h = mf_epoch cur \<Longrightarrow> mf_lease cur = Some l \<Longrightarrow>
       l_holder l = hl_holder h \<and> l_fence l = hl_fence h"
    "\<And>h h'. h \<in> lw_held w \<Longrightarrow> h' \<in> lw_held w \<Longrightarrow> hl_epoch h = hl_epoch h' \<Longrightarrow>
       hl_holder h = hl_holder h' \<and> hl_fence h = hl_fence h'"
proof -
  obtain hist owner cur where i: "world_ok c (view (lw_store w) (layout_manifest layout))
        (used (lw_store w) (layout_manifest layout)) (lw_reads w) (lw_held w) hist owner cur"
    using reach_inv [OF assms] by (auto simp: lease_inv_def)
  then obtain v where v: "view (lw_store w) (layout_manifest layout) = Some (to_json c cur, v)" "hist v = Some cur"
    by (auto simp: world_ok_def)
  have h: "\<And>v m. hist v = Some m \<Longrightarrow> mf_epoch m \<le> mf_epoch cur \<and> mf_format m \<le> MANIFEST_FORMAT \<and>
        (\<forall>l. mf_lease m = Some l \<longrightarrow> owner (mf_epoch m) = (l_holder l, l_fence l))"
    and reads: "\<And>m v. (m, v) \<in> lw_reads w \<Longrightarrow> hist v = Some m"
    and helds: "\<And>h. h \<in> lw_held w \<Longrightarrow> hist (hl_version h) = Some (hl_manifest h) \<and>
       mf_epoch (hl_manifest h) = hl_epoch h \<and> owner (hl_epoch h) = (hl_holder h, hl_fence h)"
    using i by (auto simp: world_ok_def hist_ok_def held_ok_def)
  show thesis
  proof (rule that [OF v(1)])
    show "mf_format cur \<le> MANIFEST_FORMAT" using h [OF v(2)] by simp
    show "m = cur" if "(m, v) \<in> lw_reads w" for m
      using reads [OF that] v(2) by simp
    show "mf_epoch m \<le> mf_epoch cur" if "(m, u) \<in> lw_reads w" for m u
      using h [OF reads [OF that]] by simp
    show "hl_epoch x \<le> mf_epoch cur \<and> mf_epoch (hl_manifest x) = hl_epoch x" if "x \<in> lw_held w" for x
      using helds [OF that] h by metis
    show "hl_manifest x = cur" if "x \<in> lw_held w" "hl_version x = v" for x
      using helds [OF that(1)] that(2) v(2) by simp
    show "l_holder l = hl_holder x \<and> l_fence l = hl_fence x"
      if "x \<in> lw_held w" "hl_epoch x = mf_epoch cur" "mf_lease cur = Some l" for x l
      using helds [OF that(1)] h [OF v(2)] that(2,3) by simp
    show "hl_holder x = hl_holder y \<and> hl_fence x = hl_fence y"
      if "x \<in> lw_held w" "y \<in> lw_held w" "hl_epoch x = hl_epoch y" for x y
      using helds [OF that(1)] helds [OF that(2)] that(3) by simp
  qed
qed

end

section \<open>On the memory store\<close>

lemma mem_load:
  assumes "mem_view s key = Some (to_json c m, v)" "codec_faithful c" "mf_format m \<le> MANIFEST_FORMAT"
  shows "load_manifest c mem_ops key s = (Ok (m, v), s)"
  using assms by (simp add: load_manifest_def mem_ops_def mem_get_def mem_view_def from_to_json)

lemma mem_swap_stale:
  assumes "mem_view s key \<noteq> None" "map_option snd (mem_view s key) \<noteq> Some version"
  shows "swap c mem_ops key m version s = (Err Raced, s)"
  using assms
  by (cases "mem_view s key") (auto simp: swap_def mem_ops_def mem_put_if_match_def mem_view_def Let_def)

lemma mem_swap_current:
  assumes "mem_view s key = Some (d, version)"
  obtains v s' where "swap c mem_ops key m version s = (Ok v, s')"
    "mem_view s' = (mem_view s)(key \<mapsto> (to_json c m, v))" "ms_counter s' = ms_counter s + 1"
    "mem_ok s \<Longrightarrow> ms_counter s + 1 \<noteq> - 1 \<Longrightarrow> mem_ok s'"
proof -
  define v where "v = version_of (ms_counter s + 1)"
  define s' where "s' = s\<lparr>ms_counter := ms_counter s + 1,
    ms_objects := bt_insert key (to_json c m, v) (ms_objects s)\<rparr>"
  have p: "mem_put_if_match key (to_json c m) (Some version) s = (Ok v, s')"
    using assms by (simp add: mem_put_if_match_def mem_view_def Let_def s'_def v_def)
  then have "swap c mem_ops key m version s = (Ok v, s')" by (simp add: swap_def mem_ops_def)
  moreover have "mem_ok s'" if "mem_ok s" "ms_counter s + 1 \<noteq> - 1"
    using mem_ok_put [OF that(1) p] that(2) by (simp add: s'_def)
  ultimately show thesis
    by (intro that [of v s']) (simp_all add: mem_view_def fun_eq_iff bt_get_insert s'_def)
qed

text \<open>A take that is not refused, from the current manifest.\<close>

lemma mem_take:
  assumes "mem_view s (layout_manifest layout) = Some (to_json c m, version)"
    and "take_refusal m holder ttl now force = None"
  obtains h s' where
    "take_from c mem_ops (layout_manifest layout) holder endpoint ttl now force (m, version) s = (Ok h, s')"
    "mem_view s' = (mem_view s)(layout_manifest layout \<mapsto>
       (to_json c (taken_manifest m holder endpoint ttl now), hl_version h))"
    "hl_holder h = holder" "hl_epoch h = mf_epoch m + 1" "hl_fence h = next_fence m"
    "hl_manifest h = taken_manifest m holder endpoint ttl now" "ms_counter s' = ms_counter s + 1"
    "mem_ok s \<Longrightarrow> ms_counter s + 1 \<noteq> - 1 \<Longrightarrow> mem_ok s'"
proof -
  let ?m = "taken_manifest m holder endpoint ttl now"
  obtain v s' where sw: "swap c mem_ops (layout_manifest layout) ?m version s = (Ok v, s')"
    and *: "mem_view s' = (mem_view s)(layout_manifest layout \<mapsto> (to_json c ?m, v))"
      "ms_counter s' = ms_counter s + 1" "mem_ok s \<Longrightarrow> ms_counter s + 1 \<noteq> - 1 \<Longrightarrow> mem_ok s'"
    by (rule mem_swap_current [OF assms(1), where c = c]) blast
  define h where "h = \<lparr>hl_holder = holder, hl_epoch = mf_epoch ?m, hl_fence = next_fence m,
    hl_expires_unix = now + ttl, hl_manifest = ?m, hl_version = v, hl_last_history_unix = 0\<rparr>"
  have "take_from c mem_ops (layout_manifest layout) holder endpoint ttl now force (m, version) s = (Ok h, s')"
    using sw assms(2) by (simp add: take_from_def Let_def sbind_def sret_def h_def)
  then show thesis
    by (rule that) (use * in \<open>simp_all add: h_def taken_manifest_def\<close>)
qed

abbreviation mem_reach :: "manifest_codec \<Rightarrow> tenant_layout \<Rightarrow> mem_store lease_world \<Rightarrow> bool" where
  "mem_reach c \<equiv> lease_reach c mem_ops mem_view mem_used mem_ok"

text \<open>C10. The writer lease fences: in whatever way the operations of any number of nodes
  interleave, a lease whose epoch the manifest has moved past is dead. Its holder's renewal,
  release and publish come back as \<open>Lost\<close>, naming the manifest's holder and epoch, and where the
  holder had read the manifest before it lost the lease, the late swap is refused; none of them
  changes the store.\<close>

theorem stale_holder_is_fenced:
  assumes "mem_reach c layout w" "codec_faithful c" "held \<in> lw_held w"
    and "load_manifest c mem_ops (layout_manifest layout) (lw_store w) = (Ok (m, v), lw_store w)"
    and "mf_epoch m \<noteq> hl_epoch held"
  defines "lost \<equiv> Lost (case mf_lease m of None \<Rightarrow> [] | Some l \<Rightarrow> l_holder l) (mf_epoch m)"
  shows "renew c mem_ops layout held ttl now (lw_store w) = (Err lost, lw_store w) \<and>
    release c mem_ops layout held (lw_store w) = (Err lost, lw_store w) \<and>
    update_manifest c mem_ops layout held now mutate (lw_store w) = (Err lost, lw_store w) \<and>
    (\<forall>mv \<in> lw_reads w. check_ownership held mv = Ok mv \<longrightarrow>
       renew_from c mem_ops (layout_manifest layout) held ttl now mv (lw_store w) = (Err Raced, lw_store w) \<and>
       release_from c mem_ops (layout_manifest layout) mv (lw_store w) = (Err Raced, lw_store w) \<and>
       update_from c mem_ops layout held now mutate mv (lw_store w) = (Err Raced, lw_store w))"
proof -
  let ?k = "layout_manifest layout"
  obtain cur u where view: "mem_view (lw_store w) ?k = Some (to_json c cur, u)"
    and fmt: "mf_format cur \<le> MANIFEST_FORMAT"
    and read: "\<And>x. (x, u) \<in> lw_reads w \<Longrightarrow> x = cur"
    and hold: "\<And>h. h \<in> lw_held w \<Longrightarrow> hl_version h = u \<Longrightarrow> hl_manifest h = cur"
    and epoch: "\<And>h. h \<in> lw_held w \<Longrightarrow> hl_epoch h \<le> mf_epoch cur \<and> mf_epoch (hl_manifest h) = hl_epoch h"
    by (rule mem.reach_current [OF assms(1,2)]) blast
  have cur: "m = cur" "v = u" using mem_load [OF view assms(2) fmt] assms(4) by auto
  have reread: "reread_checking_ownership c mem_ops ?k held (lw_store w) = (Err lost, lw_store w)"
    using assms(4,5)
    by (simp add: reread_checking_ownership_def sbind_def sret_def check_ownership_def still_ours_def lost_def)
  have stale: "swap c mem_ops ?k x version (lw_store w) = (Err Raced, lw_store w)" if "version \<noteq> u" for x version
    using that view by (intro mem_swap_stale) auto
  have "hl_version held \<noteq> u" using hold [OF assms(3)] epoch [OF assms(3)] assms(5) cur by auto
  then have "renew c mem_ops layout held ttl now (lw_store w) = (Err lost, lw_store w)"
    by (auto simp: renew_def Let_def stale renew_by_reading_def sbind_def reread split: option.splits)
  moreover have "renew_from c mem_ops ?k held ttl now mv (lw_store w) = (Err Raced, lw_store w) \<and>
       release_from c mem_ops ?k mv (lw_store w) = (Err Raced, lw_store w) \<and>
       update_from c mem_ops layout held now mutate mv (lw_store w) = (Err Raced, lw_store w)"
    if mv: "mv \<in> lw_reads w" and own: "check_ownership held mv = Ok mv" for mv
  proof -
    obtain l where l: "mf_lease (fst mv) = Some l" and e: "mf_epoch (fst mv) = hl_epoch held"
      using own by (auto simp: check_ownership_def still_ours_def split: if_splits option.splits)
    have "snd mv \<noteq> u" using read mv e assms(5) cur by (cases mv) auto
    with l show ?thesis
      by (simp add: renew_from_def release_from_def update_from_def split_beta Let_def sbind_def sret_def stale)
  qed
  ultimately show ?thesis
    by (simp add: release_def update_manifest_def Let_def sbind_def reread)
qed

text \<open>A new manifest in an empty store, and what a read and a take by anybody who may take make of
  a reachable world.\<close>

definition sample_manifest :: manifest where
  "sample_manifest = manifest_new ''t1'' 18"

definition fresh_world :: "manifest_codec \<Rightarrow> tenant_layout \<Rightarrow> mem_store lease_world" where
  "fresh_world c layout =
     \<lparr>lw_store = snd (put_if_absent mem_ops (layout_manifest layout) (to_json c sample_manifest) mem_new),
      lw_reads = {}, lw_held = {}\<rparr>"

lemma fresh_world:
  "mem_reach c layout (fresh_world c layout)"
  "mem_view (lw_store (fresh_world c layout)) (layout_manifest layout) =
     Some (to_json c sample_manifest, version_of 1)"
  "ms_counter (lw_store (fresh_world c layout)) = 1"
proof -
  define s where "s = \<lparr>ms_objects = [(layout_manifest layout, to_json c sample_manifest, version_of 1)],
    ms_counter = 1\<rparr>"
  have p: "mem_put_if_match (layout_manifest layout) (to_json c sample_manifest) None mem_new =
      (Ok (version_of 1), s)"
    by (simp add: mem_put_if_match_def mem_new_def bt_get_def Let_def s_def)
  then have w: "lw_store (fresh_world c layout) = s"
    by (simp add: fresh_world_def put_if_absent_def mem_ops_def)
  have ok: "mem_ok s" using mem_ok_put [OF mem_ok_new p] by (simp add: s_def)
  have view: "mem_view s (layout_manifest layout) = Some (to_json c sample_manifest, version_of 1)"
    by (simp add: mem_view_def s_def bt_get_def)
  have "mem_reach c layout \<lparr>lw_store = s, lw_reads = {}, lw_held = {}\<rparr>"
    using ok view by (rule lease_reach.start) (simp add: sample_manifest_def manifest_new_def MANIFEST_FORMAT_def)
  then show "mem_reach c layout (fresh_world c layout)"
    using w by (simp add: fresh_world_def)
  show "mem_view (lw_store (fresh_world c layout)) (layout_manifest layout) =
     Some (to_json c sample_manifest, version_of 1)" "ms_counter (lw_store (fresh_world c layout)) = 1"
    using view w by (simp_all add: s_def)
qed

lemma reach_take:
  assumes "mem_reach c layout w" "codec_faithful c"
    and "mem_view (lw_store w) (layout_manifest layout) = Some (to_json c m, version)"
    and "mf_format m \<le> MANIFEST_FORMAT" "mf_epoch m \<noteq> - 1" "ms_counter (lw_store w) + 1 \<noteq> - 1"
    and "take_refusal m holder ttl now force = None"
  obtains w' h where "mem_reach c layout w'" "lw_held w' = insert h (lw_held w)"
    "hl_holder h = holder" "hl_epoch h = mf_epoch m + 1" "hl_fence h = next_fence m" "lw_reads w' = insert (m, version) (lw_reads w)"
    "mem_view (lw_store w') (layout_manifest layout) =
       Some (to_json c (taken_manifest m holder endpoint ttl now), hl_version h)"
    "ms_counter (lw_store w') = ms_counter (lw_store w) + 1"
proof -
  let ?w = "w\<lparr>lw_store := lw_store w, lw_reads := {(m, version)} \<union> lw_reads w\<rparr>"
  note load = mem_load [OF assms(3,2,4)]
  have ok: "mem_ok (lw_store w)" using mem.reach_inv [OF assms(1,2)] by simp
  have r: "mem_reach c layout ?w"
    using lease_reach.more [OF assms(1) lease_step.read [OF load]] ok by simp
  obtain h s' where t: "take_from c mem_ops (layout_manifest layout) holder endpoint ttl now force (m, version)
      (lw_store ?w) = (Ok h, s')" and *: "mem_view s' = (mem_view (lw_store ?w))(layout_manifest layout \<mapsto>
       (to_json c (taken_manifest m holder endpoint ttl now), hl_version h))"
    "hl_holder h = holder" "hl_epoch h = mf_epoch m + 1" "hl_fence h = next_fence m"
    "hl_manifest h = taken_manifest m holder endpoint ttl now" "ms_counter s' = ms_counter (lw_store ?w) + 1"
    "mem_ok (lw_store ?w) \<Longrightarrow> ms_counter (lw_store ?w) + 1 \<noteq> - 1 \<Longrightarrow> mem_ok s'"
    by (rule mem_take [of "lw_store ?w"]) (use assms in auto)
  let ?w' = "?w\<lparr>lw_store := s', lw_held := oks (Ok h :: (held_lease, lease_error) outcome) \<union> lw_held ?w\<rparr>"
  have "lease_step c mem_ops mem_view mem_used layout ?w ?w'"
    using t assms(5) by (intro lease_step.take [where mv = "(m, version)"]) auto
  from lease_reach.more [OF r this] have "mem_reach c layout ?w'" using ok assms(6) * by simp
  from that [OF this] show thesis using * by auto
qed

text \<open>Node a takes the lease, then node b steals it.\<close>

lemma stolen_world:
  obtains w h h' m v where "mem_reach sample_codec (layout_new ''t1'') w" "h \<in> lw_held w" "h' \<in> lw_held w"
    "hl_epoch h = 1" "hl_epoch h' = 2" "hl_holder h = ''a''" "hl_holder h' = ''b''"
    "load_manifest sample_codec mem_ops (layout_manifest (layout_new ''t1'')) (lw_store w) = (Ok (m, v), lw_store w)"
    "mf_epoch m = 2" "mf_lease m = Some \<lparr>l_holder = ''b'', l_expires_unix = 116, l_fence = 2,
       l_endpoint = None, l_ttl_secs = Some 15\<rparr>" "hl_fence h' = 2"
proof -
  let ?l = "layout_new ''t1''" and ?c = sample_codec
  note c = sample_codec_faithful
  have m0: "mf_format sample_manifest \<le> MANIFEST_FORMAT" "mf_epoch sample_manifest = 0" "mf_lease sample_manifest = None"
    by (simp_all add: sample_manifest_def manifest_new_def MANIFEST_FORMAT_def)
  define m1 where "m1 = taken_manifest sample_manifest ''a'' None 15 100"
  define m2 where "m2 = taken_manifest m1 ''b'' None 15 101"
  have m1: "mf_format m1 \<le> MANIFEST_FORMAT" "mf_epoch m1 = 1"
    and m2: "mf_format m2 \<le> MANIFEST_FORMAT" "mf_epoch m2 = 2"
    using m0 by (simp_all add: m1_def m2_def taken_manifest_def)
  obtain w1 h where w1: "mem_reach ?c ?l w1" "lw_held w1 = insert h (lw_held (fresh_world ?c ?l))"
    "hl_holder h = ''a''" "hl_epoch h = 1"
    "lw_reads w1 = insert (sample_manifest, version_of 1) (lw_reads (fresh_world ?c ?l))"
    "mem_view (lw_store w1) (layout_manifest ?l) = Some (to_json ?c m1, hl_version h)"
    "ms_counter (lw_store w1) = 2"
    by (rule reach_take [OF fresh_world(1) c fresh_world(2) m0(1), where holder = "''a''" and ttl = 15 and now = 100
          and force = False and endpoint = None])
      (use m0 in \<open>auto simp: fresh_world(3) take_refusal_def m1_def\<close>)
  obtain w2 h' where w2: "mem_reach ?c ?l w2" "lw_held w2 = insert h' (lw_held w1)"
    "hl_holder h' = ''b''" "hl_epoch h' = 2" "hl_fence h' = next_fence m1"
    "mem_view (lw_store w2) (layout_manifest ?l) = Some (to_json ?c m2, hl_version h')"
    "lw_reads w2 = insert (m1, hl_version h) (lw_reads w1)"
    by (rule reach_take [OF w1(1) c w1(6) m1(1), where holder = "''b''" and ttl = 15 and now = 101
          and force = True and endpoint = None])
      (use m1 w1(7) in \<open>auto simp: take_refusal_def m2_def\<close>)
  have "next_fence m1 = 2" using m0 by (simp add: next_fence_def m1_def taken_manifest_def)
  then show thesis
    by (intro that [OF w2(1) _ _ w1(4) w2(4) w1(3) w2(3) mem_load [OF w2(6) c m2(1)] m2(2)])
      (use w1 w2 in \<open>auto simp: m2_def taken_manifest_def\<close>)
qed

theorem stale_holder_is_fenced_witness:
  "\<exists>held s. hl_holder held = ''a'' \<and> hl_epoch held = 1 \<and>
     renew sample_codec mem_ops (layout_new ''t1'') held 15 110 s = (Err (Lost ''b'' 2), s)"
proof -
  obtain w h h' m v where w: "mem_reach sample_codec (layout_new ''t1'') w" "h \<in> lw_held w" "h' \<in> lw_held w"
    "hl_epoch h = 1" "hl_epoch h' = 2" "hl_holder h = ''a''" "hl_holder h' = ''b''"
    "load_manifest sample_codec mem_ops (layout_manifest (layout_new ''t1'')) (lw_store w) = (Ok (m, v), lw_store w)"
    "mf_epoch m = 2" "mf_lease m = Some \<lparr>l_holder = ''b'', l_expires_unix = 116, l_fence = 2,
       l_endpoint = None, l_ttl_secs = Some 15\<rparr>"
    by (rule stolen_world)
  from stale_holder_is_fenced [OF w(1) sample_codec_faithful w(2) w(8)] w(4,9,10)
  have "renew sample_codec mem_ops (layout_new ''t1'') h 15 110 (lw_store w) = (Err (Lost ''b'' 2), lw_store w)"
    by simp
  with w(4,6) show ?thesis by blast
qed

text \<open>The other side of the fence: however the manifest changed since, a renewal of the lease
  whose epoch the manifest shows, and which was not released, succeeds. It extends the lease in the
  manifest as it is now, so nothing its holder published in between is lost, and keeps epoch and fence.\<close>

lemma renew_while_owner:
  assumes "mem_reach c layout w" "codec_faithful c" "held \<in> lw_held w"
    and "load_manifest c mem_ops (layout_manifest layout) (lw_store w) = (Ok (m, v), lw_store w)"
    and "mf_epoch m = hl_epoch held" "mf_lease m = Some l"
  shows "\<exists>held' s'. renew c mem_ops layout held ttl now (lw_store w) = (Ok held', s') \<and>
    hl_epoch held' = hl_epoch held \<and> hl_fence held' = hl_fence held \<and>
    mem_view s' (layout_manifest layout) = Some (to_json c (extended m l ttl now), hl_version held')"
proof -
  let ?k = "layout_manifest layout"
  obtain cur u where view: "mem_view (lw_store w) ?k = Some (to_json c cur, u)"
    and fmt: "mf_format cur \<le> MANIFEST_FORMAT"
    and hold: "\<And>h. h \<in> lw_held w \<Longrightarrow> hl_version h = u \<Longrightarrow> hl_manifest h = cur"
    and own: "\<And>h l. h \<in> lw_held w \<Longrightarrow> hl_epoch h = mf_epoch cur \<Longrightarrow> mf_lease cur = Some l \<Longrightarrow>
       l_holder l = hl_holder h \<and> l_fence l = hl_fence h"
    by (rule mem.reach_current [OF assms(1,2)]) blast
  have cur: "m = cur" "v = u" using mem_load [OF view assms(2) fmt] assms(4) by auto
  obtain v' s' where sw: "swap c mem_ops ?k (extended m l ttl now) u (lw_store w) = (Ok v', s')"
    "mem_view s' = (mem_view (lw_store w))(?k \<mapsto> (to_json c (extended m l ttl now), v'))"
    by (rule mem_swap_current [OF view, where c = c and m = "extended m l ttl now"]) blast
  have "still_ours held m" using own [OF assms(3)] assms(5,6) cur by (simp add: still_ours_def)
  then have slow: "renew_by_reading c mem_ops ?k held ttl now (lw_store w) =
      (Ok (held\<lparr>hl_version := v', hl_expires_unix := now + ttl, hl_manifest := extended m l ttl now\<rparr>), s')"
    using assms(4,6) sw(1) cur(2)
    by (simp add: renew_by_reading_def reread_checking_ownership_def sbind_def sret_def check_ownership_def
        renew_from_def Let_def)
  have "renew c mem_ops layout held ttl now (lw_store w) =
      (Ok (held\<lparr>hl_version := v', hl_expires_unix := now + ttl, hl_manifest := extended m l ttl now\<rparr>), s')"
  proof (cases "hl_version held = u")
    case True
    with hold [OF assms(3)] cur sw(1) assms(6) show ?thesis by (simp add: renew_def Let_def)
  next
    case False
    then have "swap c mem_ops ?k x (hl_version held) (lw_store w) = (Err Raced, lw_store w)" for x
      using view by (intro mem_swap_stale) auto
    with slow show ?thesis by (auto simp: renew_def Let_def split: option.splits)
  qed
  with sw(2) show ?thesis by simp
qed

text \<open>C13. No two nodes ever write under one epoch: of all the leases ever handed out, however
  operations interleave, two with the same epoch have the same holder and the same fence. The
  manifest's epoch is never below that of any lease.\<close>

theorem one_owner_per_epoch:
  assumes "mem_reach c layout w" "codec_faithful c" "h \<in> lw_held w" "h' \<in> lw_held w"
  shows "(hl_epoch h = hl_epoch h' \<longrightarrow> hl_holder h = hl_holder h' \<and> hl_fence h = hl_fence h') \<and>
    (\<exists>cur v. mem_view (lw_store w) (layout_manifest layout) = Some (to_json c cur, v) \<and>
       hl_epoch h \<le> mf_epoch cur)"
  by (rule mem.reach_current [OF assms(1,2)]) (use assms(3,4) in blast)

theorem one_owner_per_epoch_witness:
  "\<exists>(w :: mem_store lease_world) h h'. h \<in> lw_held w \<and> h' \<in> lw_held w \<and> hl_holder h \<noteq> hl_holder h' \<and> hl_epoch h \<noteq> hl_epoch h' \<and>
     (\<exists>cur v. mem_view (lw_store w) (layout_manifest (layout_new ''t1'')) = Some (to_json sample_codec cur, v) \<and>
       hl_epoch h \<le> mf_epoch cur)"
proof -
  obtain w h h' where w: "mem_reach sample_codec (layout_new ''t1'') w" "h \<in> lw_held w" "h' \<in> lw_held w"
    "hl_holder h = ''a''" "hl_holder h' = ''b''"
    by (rule stolen_world)
  from one_owner_per_epoch [OF w(1) sample_codec_faithful w(2,3)] w show ?thesis
    by (intro exI [of _ w] exI [of _ h] exI [of _ h']) auto
qed

text \<open>A node becomes the writer exactly when the lease is absent, expired or its own; otherwise
  it learns the holder and the expiry, and the store is untouched. A deliberate steal is never
  refused. Whoever succeeds has the next epoch, and the manifest names it as holder until the lease
  expires.\<close>

lemma acquire_outcome:
  assumes "mem_view s (layout_manifest layout) = Some (to_json c m, v)" "codec_faithful c"
    and "mf_format m \<le> MANIFEST_FORMAT"
  shows "(case mf_lease m of
       Some l \<Rightarrow>
         if \<not> force \<and> now < l_expires_unix l \<and> l_holder l \<noteq> holder
         then \<exists>e. take_lease c mem_ops layout holder endpoint ttl now force s = (Err e, s) \<and>
           (e = Held (l_holder l) (l_expires_unix l) \<or>
            (\<exists>ahead. e = Skew (l_holder l) (l_expires_unix l) ttl ahead))
         else \<exists>h s'. take_lease c mem_ops layout holder endpoint ttl now force s = (Ok h, s') \<and>
           hl_epoch h = mf_epoch m + 1 \<and> hl_fence h = l_fence l + 1 \<and>
           (\<forall>t < now + ttl. \<exists>i. holder_of c mem_ops layout t s' = (Ok (Some i), s') \<and> ho_node i = holder \<and>
              ho_endpoint i = endpoint \<and> ho_epoch i = hl_epoch h)
     | None \<Rightarrow> \<exists>h s'. take_lease c mem_ops layout holder endpoint ttl now force s = (Ok h, s') \<and>
           hl_epoch h = mf_epoch m + 1 \<and> hl_fence h = 1 \<and>
           (\<forall>t < now + ttl. \<exists>i. holder_of c mem_ops layout t s' = (Ok (Some i), s') \<and> ho_node i = holder \<and>
              ho_endpoint i = endpoint \<and> ho_epoch i = hl_epoch h))"
proof -
  have load: "load_manifest c mem_ops (layout_manifest layout) s = (Ok (m, v), s)"
    using assms by (rule mem_load)
  have yes: "\<exists>h s'. take_lease c mem_ops layout holder endpoint ttl now force s = (Ok h, s') \<and>
           hl_epoch h = mf_epoch m + 1 \<and> hl_fence h = next_fence m \<and>
           (\<forall>t < now + ttl. \<exists>i. holder_of c mem_ops layout t s' = (Ok (Some i), s') \<and> ho_node i = holder \<and>
              ho_endpoint i = endpoint \<and> ho_epoch i = hl_epoch h)"
    if free: "take_refusal m holder ttl now force = None"
  proof -
    obtain h s' where t: "take_from c mem_ops (layout_manifest layout) holder endpoint ttl now force (m, v) s = (Ok h, s')"
      and view: "mem_view s' = (mem_view s)(layout_manifest layout \<mapsto>
       (to_json c (taken_manifest m holder endpoint ttl now), hl_version h))"
      and h: "hl_epoch h = mf_epoch m + 1" "hl_fence h = next_fence m"
      by (rule mem_take [OF assms(1) free, where endpoint = endpoint]) blast
    have "load_manifest c mem_ops (layout_manifest layout) s' =
        (Ok (taken_manifest m holder endpoint ttl now, hl_version h), s')"
      using view assms by (intro mem_load) (auto simp: taken_manifest_def)
    then have "\<forall>t < now + ttl. \<exists>i. holder_of c mem_ops layout t s' = (Ok (Some i), s') \<and> ho_node i = holder \<and>
              ho_endpoint i = endpoint \<and> ho_epoch i = hl_epoch h"
      by (simp add: holder_of_def sbind_def sret_def taken_manifest_def h)
    with t h load show ?thesis by (auto simp: take_lease_def Let_def sbind_def)
  qed
  have no: "take_lease c mem_ops layout holder endpoint ttl now force s = (Err e, s)"
    if "take_refusal m holder ttl now force = Some e" for e
    using that load by (simp add: take_lease_def Let_def sbind_def take_from_def sret_def)
  show ?thesis
  proof (cases "mf_lease m")
    case None
    with yes show ?thesis by (simp add: take_refusal_def next_fence_def)
  next
    case (Some l)
    show ?thesis
    proof (cases "\<not> force \<and> now < l_expires_unix l \<and> l_holder l \<noteq> holder")
      case True
      with Some obtain e where "take_refusal m holder ttl now force = Some e"
        "e = Held (l_holder l) (l_expires_unix l) \<or> (\<exists>ahead. e = Skew (l_holder l) (l_expires_unix l) ttl ahead)"
        by (cases "take_refusal m holder ttl now force")
          (auto simp: take_refusal_def lease_refusal_def Let_def not_le split: if_splits)
      with no True Some show ?thesis by auto
    next
      case False
      then have "take_refusal m holder ttl now force = None"
        using Some by (auto simp: take_refusal_def lease_refusal_def not_le)
      from yes [OF this] False Some show ?thesis by (auto simp: next_fence_def)
    qed
  qed
qed

text \<open>A holder that releases hands over at once: the next node acquires without waiting, under
  the next epoch. The fence does not advance across a release: it starts again at one, so only the
  epoch tells the two holders apart.\<close>

lemma release_hands_over:
  assumes "mem_reach c layout w" "codec_faithful c" "held \<in> lw_held w"
    and "load_manifest c mem_ops (layout_manifest layout) (lw_store w) = (Ok (m, v), lw_store w)"
    and "mf_epoch m = hl_epoch held" "mf_lease m = Some l"
  shows "\<exists>s1 h s2. release c mem_ops layout held (lw_store w) = (Ok (), s1) \<and>
    acquire c mem_ops layout holder ttl now s1 = (Ok h, s2) \<and>
    hl_epoch h = hl_epoch held + 1 \<and> hl_fence h = 1"
proof -
  let ?k = "layout_manifest layout" and ?m = "m\<lparr>mf_lease := None\<rparr>"
  obtain cur u where view: "mem_view (lw_store w) ?k = Some (to_json c cur, u)"
    and fmt: "mf_format cur \<le> MANIFEST_FORMAT"
    and own: "\<And>h l. h \<in> lw_held w \<Longrightarrow> hl_epoch h = mf_epoch cur \<Longrightarrow> mf_lease cur = Some l \<Longrightarrow>
       l_holder l = hl_holder h \<and> l_fence l = hl_fence h"
    by (rule mem.reach_current [OF assms(1,2)]) blast
  have cur: "m = cur" "v = u" using mem_load [OF view assms(2) fmt] assms(4) by auto
  obtain v' s1 where sw: "swap c mem_ops ?k ?m u (lw_store w) = (Ok v', s1)"
    "mem_view s1 = (mem_view (lw_store w))(?k \<mapsto> (to_json c ?m, v'))"
    by (rule mem_swap_current [OF view, where c = c and m = ?m]) blast
  have "still_ours held m" using own [OF assms(3)] assms(5,6) cur by (simp add: still_ours_def)
  then have "release c mem_ops layout held (lw_store w) = (Ok (), s1)"
    using assms(4) sw(1) cur(2)
    by (simp add: release_def reread_checking_ownership_def sbind_def sret_def check_ownership_def
        release_from_def Let_def)
  moreover have view1: "mem_view s1 ?k = Some (to_json c ?m, v')" using sw(2) by simp
  have "\<exists>h s2. acquire c mem_ops layout holder ttl now s1 = (Ok h, s2) \<and>
    hl_epoch h = mf_epoch ?m + 1 \<and> hl_fence h = 1"
  proof -
    obtain h s2 where "take_from c mem_ops ?k holder None ttl now False (?m, v') s1 = (Ok h, s2)"
      "hl_epoch h = mf_epoch ?m + 1" "hl_fence h = next_fence ?m"
      by (rule mem_take [OF view1, where holder = holder and ttl = ttl and now = now and force = False and endpoint = None])
        (auto simp: take_refusal_def)
    moreover have "load_manifest c mem_ops ?k s1 = (Ok (?m, v'), s1)"
      using view1 assms(2) fmt cur by (intro mem_load) auto
    ultimately show ?thesis
      by (auto simp: acquire_def take_lease_def Let_def sbind_def next_fence_def)
  qed
  ultimately show ?thesis using assms(5) by auto
qed

section \<open>Publishing\<close>

lemma history_is_not_manifest: "manifest_history layout e t \<noteq> layout_manifest layout"
  by (simp add: manifest_history_def layout_manifest_def)

lemma mem_put_absent:
  obtains r s' where "put_if_absent mem_ops key data s = (r, s')"
    "mem_view s key = None \<longrightarrow> (\<exists>v. r = Ok v \<and> mem_view s' = (mem_view s)(key \<mapsto> (data, v)))"
    "mem_view s key \<noteq> None \<longrightarrow> r = Err (AlreadyExists key) \<and> s' = s"
proof (cases "mem_view s key")
  case None
  define v where "v = version_of (ms_counter s + 1)"
  let ?s = "s\<lparr>ms_counter := ms_counter s + 1, ms_objects := bt_insert key (data, v) (ms_objects s)\<rparr>"
  have "put_if_absent mem_ops key data s = (Ok v, ?s)"
    using None by (simp add: put_if_absent_def mem_ops_def mem_put_if_match_def mem_view_def Let_def v_def)
  with None show thesis
    by (intro that [of "Ok v" ?s]) (simp_all add: mem_view_def fun_eq_iff bt_get_insert)
next
  case (Some x)
  then have "put_if_absent mem_ops key data s = (Err (AlreadyExists key), s)"
    by (simp add: put_if_absent_def mem_ops_def mem_put_if_match_def mem_view_def Let_def)
  with Some show thesis by (intro that [of "Err (AlreadyExists key)" s]) simp_all
qed

text \<open>The part of a publish after the swap.\<close>

lemma mem_write_history:
  assumes "hk = manifest_history layout (mf_epoch m) now"
  obtains s' where "write_history c mem_ops layout m now held s = (Ok (held\<lparr>hl_last_history_unix := now\<rparr>), s')"
    "mem_view s hk = None \<longrightarrow>
       (\<exists>v. mem_view s' = (mem_view s)(hk \<mapsto> (to_json c (m\<lparr>mf_lease := None\<rparr>), v)))"
    "mem_view s hk \<noteq> None \<longrightarrow> s' = s"
proof -
  obtain r s' where p: "put_if_absent mem_ops hk (to_json c (m\<lparr>mf_lease := None\<rparr>)) s = (r, s')"
    and *: "mem_view s hk = None \<longrightarrow>
        (\<exists>v. r = Ok v \<and> mem_view s' = (mem_view s)(hk \<mapsto> (to_json c (m\<lparr>mf_lease := None\<rparr>), v)))"
      "mem_view s hk \<noteq> None \<longrightarrow> r = Err (AlreadyExists hk) \<and> s' = s"
    by (rule mem_put_absent [of hk "to_json c (m\<lparr>mf_lease := None\<rparr>)" s]) (rule that)
  have "write_history c mem_ops layout m now held s = (Ok (held\<lparr>hl_last_history_unix := now\<rparr>), s')"
    using p * by (cases "mem_view s hk") (auto simp: write_history_def assms)
  then show thesis by (rule that) (use * in auto)
qed

text \<open>A publish by the owner succeeds however the manifest changed since the owner last wrote
  it, applies the change to the manifest as it is now and stamps it when it changed anything but
  the lease. Such a change leaves, unless one was written that second, a snapshot without the lease
  under the history key of its epoch and second; a snapshot already there is kept. No other object
  changes.\<close>

lemma publish_outcome:
  assumes "mem_reach c layout w" "codec_faithful c" "held \<in> lw_held w"
    and "load_manifest c mem_ops (layout_manifest layout) (lw_store w) = (Ok (m, v), lw_store w)"
    and "mf_epoch m = hl_epoch held" "mf_lease m = Some l"
    and "published mutate now m = (changed, m')" "hk = manifest_history layout (mf_epoch m') now"
  shows "\<exists>held' s'. update_manifest c mem_ops layout held now mutate (lw_store w) = (Ok held', s') \<and>
    hl_manifest held' = m' \<and>
    mem_view s' (layout_manifest layout) = Some (to_json c m', hl_version held') \<and>
    (changed \<and> hl_last_history_unix held \<noteq> now \<and> mem_view (lw_store w) hk = None \<longrightarrow>
       (\<exists>u. mem_view s' hk = Some (to_json c (m'\<lparr>mf_lease := None\<rparr>), u))) \<and>
    (mem_view (lw_store w) hk \<noteq> None \<longrightarrow> mem_view s' hk = mem_view (lw_store w) hk) \<and>
    (\<forall>k. k \<noteq> layout_manifest layout \<and> k \<noteq> hk \<longrightarrow> mem_view s' k = mem_view (lw_store w) k)"
proof -
  let ?k = "layout_manifest layout" and ?s = "lw_store w"
  obtain cur u where view: "mem_view ?s ?k = Some (to_json c cur, u)"
    and fmt: "mf_format cur \<le> MANIFEST_FORMAT"
    and own: "\<And>h l. h \<in> lw_held w \<Longrightarrow> hl_epoch h = mf_epoch cur \<Longrightarrow> mf_lease cur = Some l \<Longrightarrow>
       l_holder l = hl_holder h \<and> l_fence l = hl_fence h"
    by (rule mem.reach_current [OF assms(1,2)]) blast
  have cur: "m = cur" "v = u" using mem_load [OF view assms(2) fmt] assms(4) by auto
  obtain v' s1 where sw: "swap c mem_ops ?k m' u ?s = (Ok v', s1)"
    "mem_view s1 = (mem_view ?s)(?k \<mapsto> (to_json c m', v'))"
    by (rule mem_swap_current [OF view, where c = c and m = m']) blast
  let ?h = "held\<lparr>hl_version := v'\<rparr>"
  have "still_ours held m" using own [OF assms(3)] assms(5,6) cur by (simp add: still_ours_def)
  then have up: "update_manifest c mem_ops layout held now mutate ?s =
      sbind (if changed \<and> hl_last_history_unix held \<noteq> now then write_history c mem_ops layout m' now ?h
             else sret (Ok ?h)) (\<lambda>held. sret (Ok (held\<lparr>hl_manifest := m'\<rparr>))) s1"
    using assms(4,7) sw(1) cur(2)
    by (simp add: update_manifest_def reread_checking_ownership_def sbind_def sret_def check_ownership_def
        update_from_def Let_def)
  have hk: "hk \<noteq> ?k" using history_is_not_manifest assms(8) by simp
  then have hk1: "mem_view s1 hk = mem_view ?s hk" using sw(2) by simp
  show ?thesis
  proof (cases "changed \<and> hl_last_history_unix held \<noteq> now")
    case False
    then show ?thesis using up sw(2) hk by (auto simp: sret_def)
  next
    case True
    obtain s2 where wh: "write_history c mem_ops layout m' now ?h s1 = (Ok (?h\<lparr>hl_last_history_unix := now\<rparr>), s2)"
      and new: "mem_view s1 hk = None \<longrightarrow>
        (\<exists>v. mem_view s2 = (mem_view s1)(hk \<mapsto> (to_json c (m'\<lparr>mf_lease := None\<rparr>), v)))"
      and old: "mem_view s1 hk \<noteq> None \<longrightarrow> s2 = s1"
      by (rule mem_write_history [OF assms(8), where s = s1 and c = c and held = ?h]) (rule that, simp)
    have "update_manifest c mem_ops layout held now mutate ?s =
        (Ok (?h\<lparr>hl_last_history_unix := now, hl_manifest := m'\<rparr>), s2)"
      using up True wh by (simp add: sbind_def sret_def)
    then show ?thesis
      using new old hk hk1 sw(2) by (cases "mem_view ?s hk") (auto simp: fun_upd_def)
  qed
qed

end
