(* ===== verification/Lease_Takeover.thy ===== *)
theory Lease_Takeover
  imports Lease_Proofs
begin

text \<open>
  The wait of a standby for a dead holder's lease (takeover_with in
  crates/zou-store/src/lease.rs) ends. The clock, the sleep and the store act on
  one world whose time only moves forward; nothing else is assumed of them, so
  other nodes may do anything while the standby sleeps.
\<close>

section \<open>What a take can answer\<close>

text \<open>What an answer says about the lease that was read: a refusal names a lease that runs past the clock, a
  skew one that runs past the longest span a correct clock could have given it, and no take loses a lease.\<close>

fun honest :: "u64 \<Rightarrow> u64 \<Rightarrow> lease_error \<Rightarrow> bool" where
  "honest ttl now (Held whose e) = (now < e)"
| "honest ttl now (Skew whose e asked ahead) =
     (asked = ttl \<and> now < e \<and> (\<exists>span. ttl \<le> span \<and> now + span + SKEW_GRACE_SECS < e))"
| "honest ttl now (Lost whose e) = False"
| "honest ttl now _ = True"

lemma lease_refusal_honest:
  assumes "lease_refusal l holder ttl now = Some x"
  shows "honest ttl now x"
proof -
  define span where "span = max (case l_ttl_secs l of None \<Rightarrow> ttl | Some t \<Rightarrow> t) ttl"
  have "ttl \<le> span" by (simp add: span_def)
  with assms show ?thesis
    unfolding lease_refusal_def span_def [symmetric] by (auto simp: Let_def not_le split: if_splits)
qed

lemma refusal_honest: "take_refusal m holder ttl now force = Some x \<Longrightarrow> honest ttl now x"
  by (auto simp: take_refusal_def split: if_splits option.splits dest: lease_refusal_honest)

lemma swap_honest: "fst (swap c st key m v s) = Err x \<Longrightarrow> honest ttl now x"
  by (auto simp: swap_def split: prod.splits outcome.splits cas_error.splits)

lemma load_honest: "fst (load_manifest c st key s) = Err x \<Longrightarrow> honest ttl now x"
proof -
  have "obind (map_err ManifestErr r) (\<lambda>m. Ok (m, v)) = Err x \<Longrightarrow> honest ttl now x"
    for r :: "(manifest, manifest_error) outcome" and v :: version
    by (cases r) auto
  then show "fst (load_manifest c st key s) = Err x \<Longrightarrow> honest ttl now x"
    by (auto simp: load_manifest_def split: prod.splits outcome.splits option.splits)
qed

lemma take_from_honest:
  assumes "take_from c st key holder endpoint ttl now force mv s = (Err x, s')"
  shows "honest ttl now x"
proof (cases "take_refusal (fst mv) holder ttl now force")
  case None
  let ?x = "swap c st key (taken_manifest (fst mv) holder endpoint ttl now) (snd mv) s"
  from swap_honest [of c st key "taken_manifest (fst mv) holder endpoint ttl now" "snd mv" s x ttl now] assms None
  show ?thesis
    by (cases ?x; cases "fst ?x") (auto simp: take_from_def split_beta Let_def sbind_def sret_def)
next
  case (Some y)
  with assms have "y = x" by (simp add: take_from_def split_beta sret_def)
  with Some show ?thesis by (auto dest: refusal_honest)
qed

lemma take_lease_honest:
  assumes "take_lease c st layout holder endpoint ttl now force s = (Err x, s')"
  shows "honest ttl now x"
proof -
  let ?x = "load_manifest c st (layout_manifest layout) s"
  from load_honest [of c st "layout_manifest layout" s x ttl now] assms show ?thesis
    by (cases ?x; cases "fst ?x")
      (auto simp: take_lease_def Let_def sbind_def dest: take_from_honest)
qed

section \<open>Time\<close>

text \<open>\<open>ms\<close> is the world's age in milliseconds. A clock read shows at least its seconds, as far
  as it can count.\<close>

definition clock_runs :: "('s \<Rightarrow> nat) \<Rightarrow> 's cas_store \<Rightarrow> 's waiting \<Rightarrow> bool" where
  "clock_runs ms st w \<longleftrightarrow>
     (\<forall>s. ms s \<le> ms (snd (w_now w s)) \<and> min (ms s div 1000) (2 ^ 64 - 1) \<le> unat (fst (w_now w s))) \<and>
     (\<forall>d s. ms s + unat d \<le> ms (w_sleep w d s)) \<and>
     (\<forall>k s. ms s \<le> ms (snd (cs_get st k s))) \<and>
     (\<forall>k d e s. ms s \<le> ms (snd (cs_put_if_match st k d e s)))"

lemma load_time:
  assumes "clock_runs ms st w" "load_manifest c st key s = (r, s')"
  shows "ms s \<le> ms s'"
proof -
  obtain g s1 where g: "cs_get st key s = (g, s1)" by fastforce
  then have "s' = s1" using assms(2) by (auto simp: load_manifest_def split: outcome.splits option.splits)
  moreover have "ms s \<le> ms (snd (cs_get st key s))" using assms(1) unfolding clock_runs_def by blast
  ultimately show ?thesis using g by simp
qed

lemma swap_time:
  assumes "clock_runs ms st w" "swap c st key m v s = (r, s')"
  shows "ms s \<le> ms s'"
proof -
  obtain p s1 where p: "cs_put_if_match st key (to_json c m) (Some v) s = (p, s1)" by fastforce
  then have "s' = s1" using assms(2) by (auto simp: swap_def split: outcome.splits cas_error.splits)
  moreover have "ms s \<le> ms (snd (cs_put_if_match st key (to_json c m) (Some v) s))"
    using assms(1) unfolding clock_runs_def by blast
  ultimately show ?thesis using p by simp
qed

lemma take_from_time:
  assumes "clock_runs ms st w" "take_from c st key holder endpoint ttl now force mv s = (r, s')"
  shows "ms s \<le> ms s'"
proof (cases "take_refusal (fst mv) holder ttl now force")
  case None
  obtain p s1 where p: "swap c st key (taken_manifest (fst mv) holder endpoint ttl now) (snd mv) s = (p, s1)"
    by fastforce
  with assms(2) None have "s' = s1"
    by (auto simp: take_from_def split_beta Let_def sbind_def sret_def split: outcome.splits)
  with swap_time [OF assms(1) p] show ?thesis by simp
next
  case (Some e)
  with assms(2) show ?thesis by (simp add: take_from_def split_beta sret_def)
qed

lemma take_lease_time:
  assumes "clock_runs ms st w" "take_lease c st layout holder endpoint ttl now force s = (r, s')"
  shows "ms s \<le> ms s'"
proof -
  obtain p s1 where p: "load_manifest c st (layout_manifest layout) s = (p, s1)" by fastforce
  note t = load_time [OF assms(1) p]
  show ?thesis
    using assms(2) p t take_from_time [OF assms(1)]
    by (cases p) (fastforce simp: take_lease_def Let_def sbind_def intro: order_trans)+
qed

lemma spread_bounds: "50 \<le> unat (spread holder)" "unat (spread holder) < 250"
proof -
  define x :: u64 where "x = ucast (fold (\<lambda>c acc. (acc * 31) XOR of_nat (of_char c)) holder (17 :: u8)) mod 200"
  have s: "spread holder = 50 + x" by (simp add: spread_def x_def)
  have "unat x < 200"
  proof -
    have "x < 200" unfolding x_def by (rule word_mod_less_divisor) simp
    then show ?thesis by (simp add: word_less_nat_alt)
  qed
  then have "unat (spread holder) = 50 + unat x"
    unfolding s by (subst unat_plus_simple [THEN iffD1]) (simp_all add: word_le_nat_alt unat_word_ariths)
  with \<open>unat x < 200\<close> show "50 \<le> unat (spread holder)" "unat (spread holder) < 250" by simp_all
qed

section \<open>The wait ends\<close>

lemma wait_no_wrap:
  assumes "e < (deadline :: u64)" "unat deadline < 2 ^ 53"
  shows "50 \<le> unat (saturating_sub e t * 1000 + spread holder)"
proof -
  have "unat (saturating_sub e t) \<le> unat e"
    by (simp add: unat_saturating_sub)
  with assms have "unat (saturating_sub e t) < 2 ^ 53" by (simp add: word_less_nat_alt)
  then have "unat (saturating_sub e t) * 1000 + unat (spread holder) < 2 ^ 64"
    using spread_bounds(2) [of holder] by simp
  then have "unat (saturating_sub e t * 1000 + spread holder) =
      unat (saturating_sub e t) * 1000 + unat (spread holder)"
    by (simp add: unat_word_ariths)
  with spread_bounds(1) [of holder] show ?thesis by simp
qed

text \<open>The passes of a takeover, each with the second it read and the answer it got.\<close>

inductive takeover_run ::
  "('s \<Rightarrow> u64 \<times> 's) \<Rightarrow> (u64 \<Rightarrow> 's \<Rightarrow> 's) \<Rightarrow> (u64 \<Rightarrow> (held_lease, 's) lease_op) \<Rightarrow> string \<Rightarrow>
   's \<Rightarrow> (u64 \<times> (held_lease, lease_error) outcome) list \<Rightarrow> 's \<Rightarrow> bool"
  for now sleep take_at holder where
  last_pass: "now s = (t, s1) \<Longrightarrow> take_at t s1 = (r, s2) \<Longrightarrow> takeover_run now sleep take_at holder s [(t, r)] s2"
| held_pass: "now s = (t, s1) \<Longrightarrow> take_at t s1 = (Err (Held whose e), s2) \<Longrightarrow> now s2 = (t', s3) \<Longrightarrow>
    takeover_run now sleep take_at holder (sleep (saturating_sub e t' * 1000 + spread holder) s3) rs s' \<Longrightarrow>
    takeover_run now sleep take_at holder s ((t, Err (Held whose e)) # rs) s'"
| raced_pass: "now s = (t, s1) \<Longrightarrow> take_at t s1 = (Err Raced, s2) \<Longrightarrow>
    takeover_run now sleep take_at holder (sleep (spread holder) s2) rs s' \<Longrightarrow>
    takeover_run now sleep take_at holder s ((t, Err Raced) # rs) s'"

text \<open>Why a takeover goes on after a pass, and why it stops: \<open>lost\<close> counts the swaps it lost.\<close>

definition goes_on :: "u64 \<Rightarrow> u64 \<times> (held_lease, lease_error) outcome \<Rightarrow> bool" where
  "goes_on deadline p \<longleftrightarrow> snd p = Err Raced \<or> (\<exists>whose e. snd p = Err (Held whose e) \<and> fst p < e \<and> e < deadline)"

definition lost_swaps :: "(u64 \<times> (held_lease, lease_error) outcome) list \<Rightarrow> nat" where
  "lost_swaps rs = length (filter (\<lambda>p. snd p = Err Raced) rs)"

fun stops :: "u64 \<Rightarrow> u64 \<Rightarrow> nat \<Rightarrow> u64 \<times> (held_lease, lease_error) outcome \<Rightarrow> bool" where
  "stops deadline ttl lost (t, Ok h) = (lost \<le> 5)"
| "stops deadline ttl lost (t, Err (Held whose e)) = (lost \<le> 5 \<and> t < e \<and> deadline \<le> e)"
| "stops deadline ttl lost (t, Err (Skew whose e asked ahead)) =
     (lost \<le> 5 \<and> (\<exists>span. ttl \<le> span \<and> t + span + SKEW_GRACE_SECS < e))"
| "stops deadline ttl lost (t, Err Raced) = (lost = 6)"
| "stops deadline ttl lost (t, Err (Lost whose e)) = False"
| "stops deadline ttl lost (t, Err (NoManifest key)) = (lost \<le> 5)"
| "stops deadline ttl lost (t, Err (ManifestErr e)) = (lost \<le> 5)"
| "stops deadline ttl lost (t, Err (Store e)) = (lost \<le> 5)"
| "stops deadline ttl lost (t, Panic) = (lost \<le> 5)"

definition takeover_ends ::
  "u64 \<Rightarrow> u64 \<Rightarrow> nat \<Rightarrow> (u64 \<times> (held_lease, lease_error) outcome) list \<Rightarrow> bool" where
  "takeover_ends deadline ttl races rs \<longleftrightarrow>
     rs \<noteq> [] \<and> (\<forall>p \<in> set (butlast rs). goes_on deadline p) \<and>
     stops deadline ttl (races + lost_swaps rs) (last rs)"

lemma takeover_ends_held:
  "takeover_ends deadline ttl races rs \<Longrightarrow> t < e \<Longrightarrow> e < deadline \<Longrightarrow>
   takeover_ends deadline ttl races ((t, Err (Held whose e)) # rs)"
  by (auto simp: takeover_ends_def goes_on_def lost_swaps_def)

lemma takeover_ends_raced:
  "takeover_ends deadline ttl (Suc races) rs \<Longrightarrow> takeover_ends deadline ttl races ((t, Err Raced) # rs)"
  by (auto simp: takeover_ends_def goes_on_def lost_swaps_def)

lemma answer_stops:
  assumes "\<not> (\<exists>h e. r = Err (Held h e) \<and> e < deadline)" "\<not> (r = Err Raced \<and> Suc races \<le> TAKEOVER_RACES)"
    and "races \<le> TAKEOVER_RACES" "\<And>x. r = Err x \<Longrightarrow> honest ttl t x"
  shows "takeover_ends deadline ttl races [(t, r)]"
proof -
  have "stops deadline ttl (races + lost_swaps [(t, r)]) (t, r)"
  proof (cases r)
    case (Err x)
    with assms(1-3) assms(4) [OF Err] show ?thesis
      by (cases x) (auto simp: lost_swaps_def TAKEOVER_RACES_def not_less)
  qed (use assms(3) in \<open>simp_all add: lost_swaps_def TAKEOVER_RACES_def\<close>)
  then show ?thesis by (simp add: takeover_ends_def)
qed

lemma takeover_loop_returns:
  assumes "clock_runs ms st w" "unat deadline < 2 ^ 53" "races \<le> TAKEOVER_RACES"
    and take_at_def: "take_at = (\<lambda>now. take_lease c st layout holder endpoint ttl now False)"
  shows "\<exists>rs s'. takeover_loop (w_now w) (w_sleep w) take_at holder deadline races s = Some (snd (last rs), s') \<and>
    takeover_run (w_now w) (w_sleep w) take_at holder s rs s' \<and> takeover_ends deadline ttl races rs"
  using assms(3)
proof (induction "(TAKEOVER_RACES - races) + (unat deadline * 1000 - ms s)" arbitrary: races s rule: less_induct)
  case less
  obtain t s1 where now: "w_now w s = (t, s1)" by fastforce
  obtain r s2 where took: "take_at t s1 = (r, s2)" by fastforce
  have clock: "ms s \<le> ms s1" "min (ms s div 1000) (2 ^ 64 - 1) \<le> unat t"
    using assms(1) now unfolding clock_runs_def by (metis fst_conv snd_conv)+
  have m2: "ms s \<le> ms s2" using take_lease_time [OF assms(1)] took clock(1) unfolding take_at_def by fastforce
  have honest: "honest ttl t x" if "r = Err x" for x
    using take_lease_honest [of c st layout holder endpoint ttl t False s1 x s2] took that
    unfolding take_at_def by simp
  note step = takeover_loop.simps [of "w_now w" "w_sleep w" _ holder deadline races s]
  consider (wait) h e where "r = Err (Held h e)" "e < deadline" | (race) "r = Err Raced" "Suc races \<le> TAKEOVER_RACES"
    | (over) "\<not> (\<exists>h e. r = Err (Held h e) \<and> e < deadline)" "\<not> (r = Err Raced \<and> Suc races \<le> TAKEOVER_RACES)"
    by blast
  then show ?case
  proof cases
    case wait
    obtain t' s3 where now': "w_now w s2 = (t', s3)" by fastforce
    let ?s = "w_sleep w (saturating_sub e t' * 1000 + spread holder) s3"
    have "ms s2 \<le> ms s3" using assms(1) now' unfolding clock_runs_def by (metis snd_conv)
    moreover have "ms s3 + unat (saturating_sub e t' * 1000 + spread holder) \<le> ms ?s"
      using assms(1) by (simp add: clock_runs_def)
    ultimately have later: "ms s < ms ?s"
      using m2 wait_no_wrap [OF wait(2) assms(2), of t' holder] by linarith
    have t: "t < e" using honest [OF wait(1)] by simp
    then have "unat t < unat deadline" using wait(2) by (simp add: word_less_nat_alt)
    with clock(2) assms(2) have "ms s < unat deadline * 1000" by (auto simp: min_def split: if_splits)
    with later have "(TAKEOVER_RACES - races) + (unat deadline * 1000 - ms ?s) <
        (TAKEOVER_RACES - races) + (unat deadline * 1000 - ms s)" by linarith
    then obtain rs s' where rs:
      "takeover_loop (w_now w) (w_sleep w) take_at holder deadline races ?s = Some (snd (last rs), s')"
      "takeover_run (w_now w) (w_sleep w) take_at holder ?s rs s'" "takeover_ends deadline ttl races rs"
      using less.hyps [of races ?s] less.prems by blast
    show ?thesis
    proof (intro exI conjI)
      show "takeover_loop (w_now w) (w_sleep w) take_at holder deadline races s =
          Some (snd (last ((t, r) # rs)), s')"
        using rs(1,3) wait(1) wait(2) [unfolded not_le [symmetric]]
        by (simp add: step now took now' takeover_ends_def)
      show "takeover_run (w_now w) (w_sleep w) take_at holder s ((t, r) # rs) s'"
        using takeover_run.held_pass [of "w_now w" s t s1 take_at h e s2 t' s3] now took now' wait(1) rs(2) by simp
    qed (use rs(3) wait t in \<open>simp add: takeover_ends_held\<close>)
  next
    case race
    let ?s = "w_sleep w (spread holder) s2"
    have "ms s2 + unat (spread holder) \<le> ms ?s" using assms(1) by (simp add: clock_runs_def)
    with m2 race(2) have "(TAKEOVER_RACES - Suc races) + (unat deadline * 1000 - ms ?s) <
        (TAKEOVER_RACES - races) + (unat deadline * 1000 - ms s)" by linarith
    then obtain rs s' where rs:
      "takeover_loop (w_now w) (w_sleep w) take_at holder deadline (Suc races) ?s = Some (snd (last rs), s')"
      "takeover_run (w_now w) (w_sleep w) take_at holder ?s rs s'" "takeover_ends deadline ttl (Suc races) rs"
      using less.hyps [of "Suc races" ?s] race(2) by blast
    show ?thesis
    proof (intro exI conjI)
      show "takeover_loop (w_now w) (w_sleep w) take_at holder deadline races s =
          Some (snd (last ((t, r) # rs)), s')"
        using rs(1,3) race by (simp add: step now took not_less takeover_ends_def)
      show "takeover_run (w_now w) (w_sleep w) take_at holder s ((t, r) # rs) s'"
        using takeover_run.raced_pass [of "w_now w" s t s1 take_at s2] now took race(1) rs(2) by simp
    qed (use rs(3) race in \<open>simp add: takeover_ends_raced\<close>)
  next
    case over
    have "takeover_loop (w_now w) (w_sleep w) take_at holder deadline races s = Some (snd (last [(t, r)]), s2)"
      using over by (auto simp: step now took not_less not_le split: outcome.splits lease_error.splits)
    moreover have "takeover_run (w_now w) (w_sleep w) take_at holder s [(t, r)] s2"
      using now took by (rule takeover_run.last_pass)
    moreover have "takeover_ends deadline ttl races [(t, r)]"
      using over less.prems honest by (rule answer_stops)
    ultimately show ?thesis by blast
  qed
qed

section \<open>A clock for the memory store\<close>

text \<open>The memory store beside a millisecond clock that only a sleep moves.\<close>

definition timed :: "(mem_store \<Rightarrow> 'a \<times> mem_store) \<Rightarrow> mem_store \<times> nat \<Rightarrow> 'a \<times> mem_store \<times> nat" where
  "timed f s = (let (r, s') = f (fst s) in (r, s', snd s))"

definition timed_ops :: "(mem_store \<times> nat) cas_store" where
  "timed_ops =
     \<lparr>cs_get = (\<lambda>k. timed (mem_get k)), cs_put_if_match = (\<lambda>k d e. timed (mem_put_if_match k d e)),
      cs_put = (\<lambda>k d s. map_option (\<lambda>(r, s'). (r, s', snd s)) (cs_put mem_ops k d (fst s))),
      cs_delete = (\<lambda>k. timed (mem_delete k)), cs_list = (\<lambda>p. timed (mem_list p))\<rparr>"

definition timed_wait :: "(mem_store \<times> nat) waiting" where
  "timed_wait = \<lparr>w_now = (\<lambda>s. (of_nat (min (snd s div 1000) (2 ^ 64 - 1)), s)),
                 w_sleep = (\<lambda>d s. (fst s, snd s + unat d))\<rparr>"

lemma timed_clock_runs: "clock_runs snd timed_ops timed_wait"
proof -
  have "min (n div 1000) (2 ^ 64 - 1) \<le> unat (of_nat (min (n div 1000) (2 ^ 64 - 1)) :: u64)" for n :: nat
    by (subst unat_of_nat_small) (auto simp: min_def)
  then show ?thesis
    by (simp add: clock_runs_def timed_ops_def timed_wait_def timed_def split_beta)
qed



section \<open>A dead holder\<close>

lemma timed_take:
  "take_lease c timed_ops layout holder endpoint ttl now force s =
   timed (take_lease c mem_ops layout holder endpoint ttl now force) s"
proof -
  have load: "load_manifest c timed_ops k s = timed (load_manifest c mem_ops k) s" for k s
    by (simp add: load_manifest_def timed_ops_def mem_ops_def timed_def split_beta split: outcome.splits option.splits)
  have sw: "swap c timed_ops k m v s = timed (swap c mem_ops k m v) s" for k m v s
    by (simp add: swap_def timed_ops_def mem_ops_def timed_def split_beta split: outcome.splits cas_error.splits)
  have bind: "sbind f g s = timed (sbind f' g') s"
    if "\<And>s. f s = timed f' s" "\<And>x s. g x s = timed (g' x) s"
    for f :: "('a, mem_store \<times> nat) lease_op" and g :: "'a \<Rightarrow> ('b, mem_store \<times> nat) lease_op" and f' g' s
    by (simp add: sbind_def that timed_def split_beta split: outcome.splits)
  have tf: "take_from c timed_ops k holder endpoint ttl now force mv s =
      timed (take_from c mem_ops k holder endpoint ttl now force mv) s" for k mv s
    by (cases "take_refusal (fst mv) holder ttl now force")
      (simp_all add: take_from_def split_beta Let_def sret_def timed_def sbind_def sw split: outcome.splits)
  show ?thesis unfolding take_lease_def Let_def by (rule bind) (simp_all add: load tf)
qed

text \<open>C35. Failover works: when the holder is dead, so that nobody touches the store, and its lease expires before the
  standby's deadline and no further ahead than the longer of the two lease lengths and the skew grace allow, the standby gets the
  lease, under the next epoch. On a clock that only sleeping moves it gets it at once when the lease has expired, and
  otherwise after exactly the seconds left to the expiry and the standby's spread, which is within the second after its deadline.\<close>

theorem takeover_from_dead_holder:
  assumes "mem_view s (layout_manifest layout) = Some (to_json c m, v)" "codec_faithful c"
    and "mf_format m \<le> MANIFEST_FORMAT" "mf_lease m = Some l" "l_holder l \<noteq> holder"
    and "t = fst (w_now timed_wait (s, ms))" "unat t + unat limit < 2 ^ 53"
    and "l_expires_unix l < t + limit" "l_expires_unix l \<le> t + max (case l_ttl_secs l of None \<Rightarrow> ttl | Some x \<Rightarrow> x) ttl + SKEW_GRACE_SECS"
  shows "\<exists>h s'. takeover_with c timed_ops layout holder endpoint ttl limit timed_wait (s, ms) = Some (Ok h, s') \<and>
    hl_holder h = holder \<and> hl_epoch h = mf_epoch m + 1 \<and>
    snd s' = (if l_expires_unix l \<le> t then ms
              else ms + (unat (l_expires_unix l) - unat t) * 1000 + unat (spread holder)) \<and>
    snd s' < (unat t + unat limit + 1) * 1000"
proof -
  let ?take = "\<lambda>now. take_lease c timed_ops layout holder endpoint ttl now False"
  have load: "load_manifest c mem_ops (layout_manifest layout) s = (Ok (m, v), s)"
    using assms(1-3) by (rule mem_load)
  have free: "\<exists>h s'. takeover_loop (w_now timed_wait) (w_sleep timed_wait) ?take holder (t + limit) n (s, k) =
      Some (Ok h, s') \<and> hl_holder h = holder \<and> hl_epoch h = mf_epoch m + 1 \<and> snd s' = k"
    if "l_expires_unix l \<le> fst (w_now timed_wait (s, k))" for n k
  proof -
    obtain u where now: "w_now timed_wait (s, k) = (u, s, k)" by (simp add: timed_wait_def)
    have ok: "take_refusal m holder ttl u False = None"
      using that now assms(4) by (simp add: take_refusal_def lease_refusal_def)
    obtain h s' where "take_from c mem_ops (layout_manifest layout) holder endpoint ttl u False (m, v) s = (Ok h, s')"
      and h: "hl_holder h = holder" "hl_epoch h = mf_epoch m + 1"
      by (rule mem_take [OF assms(1) ok, where endpoint = endpoint]) blast
    with load have took: "?take u (s, k) = (Ok h, s', k)"
      unfolding timed_take by (simp add: timed_def take_lease_def Let_def sbind_def)
    with now have "takeover_loop (w_now timed_wait) (w_sleep timed_wait) ?take holder (t + limit) n (s, k) =
        Some (Ok h, s', k)"
      by (subst takeover_loop.simps) simp
    with h show ?thesis by (intro exI [of _ h] exI [of _ "(s', k)"]) simp
  qed
  have "unat t = min (ms div 1000) (2 ^ 64 - 1)"
    using assms(6) by (simp add: timed_wait_def unat_of_nat_small min_def)
  with assms(7) have tms: "unat t = ms div 1000" by (simp add: min_def split: if_splits)
  have dl: "unat (t + limit) < 2 ^ 53" "unat (t + limit) = unat t + unat limit"
    using assms(7) by (simp_all add: unat_word_ariths)
  have "\<exists>h s'. takeover_loop (w_now timed_wait) (w_sleep timed_wait) ?take holder (t + limit) 0 (s, ms) =
      Some (Ok h, s') \<and> hl_holder h = holder \<and> hl_epoch h = mf_epoch m + 1 \<and>
      snd s' = (if l_expires_unix l \<le> t then ms
              else ms + (unat (l_expires_unix l) - unat t) * 1000 + unat (spread holder))"
  proof (cases "l_expires_unix l \<le> t")
    case True
    with free assms(6) show ?thesis by simp
  next
    case False
    let ?e = "l_expires_unix l"
    let ?d = "saturating_sub ?e t * 1000 + spread holder"
    have "take_refusal m holder ttl t False = Some (Held (l_holder l) ?e)"
      using False assms(4,5,9) by (simp add: take_refusal_def lease_refusal_def Let_def not_less)
    with load have "?take t (s, ms) = (Err (Held (l_holder l) ?e), s, ms)"
      unfolding timed_take by (simp add: timed_def take_lease_def Let_def sbind_def take_from_def sret_def)
    moreover have now: "w_now timed_wait (s, ms) = (t, s, ms)"
      and sl: "w_sleep timed_wait d (s, ms) = (s, ms + unat d)" for d
      using assms(6) by (simp_all add: timed_wait_def)
    ultimately have step: "takeover_loop (w_now timed_wait) (w_sleep timed_wait) ?take holder (t + limit) 0 (s, ms) =
        takeover_loop (w_now timed_wait) (w_sleep timed_wait) ?take holder (t + limit) 0 (s, ms + unat ?d)"
      using assms(8) [unfolded not_le [symmetric]] now sl by (subst takeover_loop.simps) simp
    have e53: "unat ?e < 2 ^ 53" using assms(8) dl by (simp add: word_less_nat_alt)
    have sub: "unat (saturating_sub ?e t) = unat ?e - unat t"
      by (rule unat_saturating_sub)
    have "(unat ?e - unat t) * 1000 + unat (spread holder) < 2 ^ 64"
      using e53 spread_bounds(2) [of holder] by simp
    then have d: "unat ?d = (unat ?e - unat t) * 1000 + unat (spread holder)"
      by (simp add: unat_word_ariths sub)
    have "unat ?e \<le> (ms + unat ?d) div 1000"
      using d False tms by (simp add: not_le word_less_nat_alt)
    then have "unat ?e \<le> min ((ms + unat ?d) div 1000) (2 ^ 64 - 1)" using e53 by simp
    then have "?e \<le> fst (w_now timed_wait (s, ms + unat ?d))"
      by (simp add: timed_wait_def word_le_nat_alt unat_of_nat_small min_def split: if_splits)
    from free [OF this, of 0] step d False show ?thesis by auto
  qed
  moreover have "(if l_expires_unix l \<le> t then ms
      else ms + (unat (l_expires_unix l) - unat t) * 1000 + unat (spread holder)) < (unat t + unat limit + 1) * 1000"
    (is "?at < _")
  proof -
    have "ms < (unat t + 1) * 1000" using tms by (simp add: dividend_less_times_div mult.commute)
    moreover have "unat (l_expires_unix l) + 1 \<le> unat t + unat limit"
      using assms(8) dl by (simp add: word_less_nat_alt)
    ultimately show ?thesis
      using spread_bounds(2) [of holder] by (auto simp: not_le word_less_nat_alt)
  qed
  ultimately show ?thesis using assms(6) by (auto simp: takeover_with_def timed_wait_def)
qed

theorem takeover_from_dead_holder_witness:
  "\<exists>s h s'. takeover_with sample_codec timed_ops (layout_new ''t1'') ''c'' None 15 60 timed_wait (s, 103000) =
     Some (Ok h, s') \<and> hl_holder h = ''c'' \<and> hl_epoch h = 3 \<and> snd s' = 116000 + unat (spread ''c'') \<and> snd s' < 164000"
proof -
  obtain w h h' m v where w: "mem_reach sample_codec (layout_new ''t1'') w"
    "load_manifest sample_codec mem_ops (layout_manifest (layout_new ''t1'')) (lw_store w) = (Ok (m, v), lw_store w)"
    "mf_epoch m = 2" "mf_lease m = Some \<lparr>l_holder = ''b'', l_expires_unix = 116, l_fence = 2,
       l_endpoint = None, l_ttl_secs = Some 15\<rparr>"
    by (rule stolen_world)
  obtain cur u where view: "mem_view (lw_store w) (layout_manifest (layout_new ''t1'')) = Some (to_json sample_codec cur, u)"
    and fmt: "mf_format cur \<le> MANIFEST_FORMAT"
    by (rule mem.reach_current [OF w(1) sample_codec_faithful]) blast
  have cur: "cur = m" using mem_load [OF view sample_codec_faithful fmt] w(2) by simp
  have t: "fst (w_now timed_wait (lw_store w, 103000)) = 103" by (simp add: timed_wait_def)
  from takeover_from_dead_holder [OF view sample_codec_faithful fmt w(4) [folded cur],
      where holder = "''c''" and t = 103 and ms = 103000 and ttl = 15 and limit = 60 and endpoint = None] t w(3) cur
  show ?thesis by (auto simp: SKEW_GRACE_SECS_def max_def)
qed

end
