(* ===== verification/Cas_Retry.thy ===== *)
theory Cas_Retry
  imports Cas_Store "HOL-Library.Sublist"
begin

text \<open>
  Read, modify, compare and swap, retry on a conflict: the loop under every mutable
  object of the store that has no lease (shard manifests, the split lineage). The
  loop itself is \<open>retry_loop\<close>; what it makes of racing callers is stated here once,
  for any object and any set of operations on it: whatever the interleaving of
  reads and conditional writes, the object's value is a serial run of operations
  in which the acknowledged ones appear in the order they were acknowledged.
\<close>

text \<open>\<open>loop { body }\<close>, where the body continues with \<open>None\<close> and returns with \<open>Some\<close>.\<close>

partial_function (option) retry_loop ::
  "('s \<Rightarrow> ('a, 'e) outcome option \<times> 's) \<Rightarrow> 's \<Rightarrow> (('a, 'e) outcome \<times> 's) option" where
  "retry_loop body s =
     (case body s of
        (Some r, s) \<Rightarrow> Some (r, s)
      | (None, s) \<Rightarrow> retry_loop body s)"

lemma retry_loop_done: "body s = (Some r, s') \<Longrightarrow> retry_loop body s = Some (r, s')"
  by (subst retry_loop.simps) simp

section \<open>Racing read-modify-writes\<close>

record ('s, 'm, 'op) rmw_world =
  rw_store :: 's
  rw_reads :: "('m \<times> version) option set"
  rw_acked :: "'op list"

text \<open>\<open>apply\<close> is what an operation makes of the value it read, nothing or a manifest; \<open>writes\<close>
  says whether it writes at all. An operation that finds a value it need not change is
  acknowledged without a write, at any time after its read.\<close>

inductive rmw_step ::
  "('m \<Rightarrow> bytes) \<Rightarrow> ('op \<Rightarrow> 'm option \<Rightarrow> 'm) \<Rightarrow> ('op \<Rightarrow> 'm option \<Rightarrow> bool) \<Rightarrow> 's cas_store \<Rightarrow>
   ('s \<Rightarrow> string \<Rightarrow> (bytes \<times> version) option) \<Rightarrow> ('s \<Rightarrow> string \<Rightarrow> version set) \<Rightarrow> string \<Rightarrow>
   ('s, 'm, 'op) rmw_world \<Rightarrow> ('s, 'm, 'op) rmw_world \<Rightarrow> bool"
  for enc apply_op writes st view used key where
  read_absent: "cs_get st key (rw_store w) = (Ok None, s) \<Longrightarrow>
    rmw_step enc apply_op writes st view used key w (w\<lparr>rw_store := s, rw_reads := insert None (rw_reads w)\<rparr>)"
| read_value: "cs_get st key (rw_store w) = (Ok (Some (enc m, v)), s) \<Longrightarrow>
    rmw_step enc apply_op writes st view used key w
      (w\<lparr>rw_store := s, rw_reads := insert (Some (m, v)) (rw_reads w)\<rparr>)"
| swap_in: "rd \<in> rw_reads w \<Longrightarrow> writes op (map_option fst rd) \<Longrightarrow>
    cs_put_if_match st key (enc (apply_op op (map_option fst rd))) (map_option snd rd) (rw_store w) = (r, s) \<Longrightarrow>
    rmw_step enc apply_op writes st view used key w
      (w\<lparr>rw_store := s, rw_acked := (case r of Ok _ \<Rightarrow> rw_acked w @ [op] | _ \<Rightarrow> rw_acked w)\<rparr>)"
| unchanged: "Some (m, v) \<in> rw_reads w \<Longrightarrow> \<not> writes op (Some m) \<Longrightarrow>
    rmw_step enc apply_op writes st view used key w (w\<lparr>rw_acked := rw_acked w @ [op]\<rparr>)"
| elsewhere: "view s key = view (rw_store w) key \<Longrightarrow> used (rw_store w) key \<subseteq> used s key \<Longrightarrow>
    rmw_step enc apply_op writes st view used key w (w\<lparr>rw_store := s\<rparr>)"

inductive rmw_reach ::
  "('m \<Rightarrow> bytes) \<Rightarrow> ('op \<Rightarrow> 'm option \<Rightarrow> 'm) \<Rightarrow> ('op \<Rightarrow> 'm option \<Rightarrow> bool) \<Rightarrow> 's cas_store \<Rightarrow>
   ('s \<Rightarrow> string \<Rightarrow> (bytes \<times> version) option) \<Rightarrow> ('s \<Rightarrow> string \<Rightarrow> version set) \<Rightarrow> ('s \<Rightarrow> bool) \<Rightarrow> string \<Rightarrow>
   'm option \<Rightarrow> ('s, 'm, 'op) rmw_world \<Rightarrow> bool"
  for enc apply_op writes st view used ok key init where
  start: "ok s \<Longrightarrow> map_option fst (view s key) = map_option enc init \<Longrightarrow>
    rmw_reach enc apply_op writes st view used ok key init \<lparr>rw_store = s, rw_reads = {}, rw_acked = []\<rparr>"
| more: "rmw_reach enc apply_op writes st view used ok key init w \<Longrightarrow>
    rmw_step enc apply_op writes st view used key w w' \<Longrightarrow> ok (rw_store w') \<Longrightarrow>
    rmw_reach enc apply_op writes st view used ok key init w'"

text \<open>The specification: operations one after the other, each on the value before it.\<close>

inductive serial ::
  "('op \<Rightarrow> 'm option \<Rightarrow> 'm) \<Rightarrow> ('op \<Rightarrow> 'm option \<Rightarrow> bool) \<Rightarrow> 'm option \<Rightarrow> 'op list \<Rightarrow> 'm option \<Rightarrow> bool"
  for apply_op writes init where
  none: "serial apply_op writes init [] init"
| one: "serial apply_op writes init log cur \<Longrightarrow> writes op cur \<Longrightarrow>
    serial apply_op writes init (log @ [op]) (Some (apply_op op cur))"
| same: "serial apply_op writes init log (Some m) \<Longrightarrow> \<not> writes op (Some m) \<Longrightarrow>
    serial apply_op writes init (log @ [op]) (Some m)"

text \<open>What holds of the start and is kept by every operation holds at the end.\<close>

lemma serial_invariant:
  assumes "serial apply_op writes init log cur" "P init"
    and "\<And>op x. writes op x \<Longrightarrow> P x \<Longrightarrow> P (Some (apply_op op x))"
  shows "P cur"
  using assms(1) by induction (use assms(2,3) in auto)

text \<open>What an operation of the log establishes, and every operation keeps, holds at the end.\<close>

lemma serial_established:
  assumes "serial apply_op writes init log cur" "op \<in> set log"
    and "\<And>x. writes op x \<Longrightarrow> P (Some (apply_op op x))"
    and "\<And>m. \<not> writes op (Some m) \<Longrightarrow> P (Some m)"
    and "\<And>op x. writes op x \<Longrightarrow> P x \<Longrightarrow> P (Some (apply_op op x))"
  shows "P cur"
  using assms(1,2) by induction (use assms(3,4,5) in auto)

section \<open>Racing callers are serial\<close>

definition rmw_ok ::
  "('m \<Rightarrow> bytes) \<Rightarrow> ('op \<Rightarrow> 'm option \<Rightarrow> 'm) \<Rightarrow> ('op \<Rightarrow> 'm option \<Rightarrow> bool) \<Rightarrow> 'm option \<Rightarrow>
   (bytes \<times> version) option \<Rightarrow> version set \<Rightarrow> ('m \<times> version) option set \<Rightarrow> 'op list \<Rightarrow>
   (version \<rightharpoonup> 'm) \<Rightarrow> 'op list \<Rightarrow> 'm option \<Rightarrow> bool" where
  "rmw_ok enc apply_op writes init obj vs reads acked hist log cur \<longleftrightarrow>
     map_option fst obj = map_option enc cur \<and> serial apply_op writes init log cur \<and> subseq acked log \<and>
     (\<forall>d v. obj = Some (d, v) \<longrightarrow> hist v = cur) \<and> dom hist \<subseteq> vs \<and>
     (\<forall>m v. Some (m, v) \<in> reads \<longrightarrow> hist v = Some m) \<and>
     (\<forall>m v op. Some (m, v) \<in> reads \<longrightarrow> \<not> writes op (Some m) \<longrightarrow> (\<exists>x. cur = Some x \<and> \<not> writes op (Some x)))"

text \<open>What an operation need not change, no other operation makes it change later.\<close>

definition settled :: "('op \<Rightarrow> 'm option \<Rightarrow> 'm) \<Rightarrow> ('op \<Rightarrow> 'm option \<Rightarrow> bool) \<Rightarrow> bool" where
  "settled apply_op writes \<longleftrightarrow>
     (\<forall>op op' m. \<not> writes op (Some m) \<longrightarrow> writes op' (Some m) \<longrightarrow> \<not> writes op (Some (apply_op op' (Some m))))"

lemma rmw_ok_mono:
  "rmw_ok enc apply_op writes init obj vs reads acked hist log cur \<Longrightarrow> vs \<subseteq> vs' \<Longrightarrow>
   rmw_ok enc apply_op writes init obj vs' reads acked hist log cur"
  by (auto simp: rmw_ok_def)

lemma rmw_ok_write:
  assumes "rmw_ok enc apply_op writes init obj vs reads acked hist log cur"
    and "rd \<in> reads" "map_option snd rd = map_option snd obj" "writes op (map_option fst rd)"
    and "v \<notin> vs" "v \<in> vs'" "vs \<subseteq> vs'" "acked' = acked \<or> acked' = acked @ [op]"
    and "settled apply_op writes"
  shows "rmw_ok enc apply_op writes init (Some (enc (apply_op op (map_option fst rd)), v)) vs' reads acked'
    (hist(v \<mapsto> apply_op op (map_option fst rd))) (log @ [op]) (Some (apply_op op (map_option fst rd)))"
proof -
  have cur: "map_option fst rd = cur"
  proof (cases rd)
    case None
    with assms(3) have "obj = None" by simp
    with assms(1) None show ?thesis by (simp add: rmw_ok_def)
  next
    case (Some x)
    then obtain m u where rd: "rd = Some (m, u)" by (cases x) auto
    then obtain d where "obj = Some (d, u)" using assms(3) by (cases obj) auto
    with assms(1,2) rd show ?thesis by (auto simp: rmw_ok_def)
  qed
  have fresh: "w \<noteq> v" if "hist w = Some m" for w m
    using that assms(1,5) by (auto simp: rmw_ok_def)
  have "serial apply_op writes init (log @ [op]) (Some (apply_op op cur))"
    using assms(1,4) cur by (auto simp: rmw_ok_def intro: serial.one)
  moreover have "subseq acked' (log @ [op])"
    using assms(1,8) by (auto simp: rmw_ok_def intro: list_emb_append_mono subseq_order.order_trans)
  moreover have "\<not> writes op' (Some (apply_op op cur))" if rd': "Some (m, u) \<in> reads" "\<not> writes op' (Some m)" for m u op'
  proof -
    obtain x where "cur = Some x" "\<not> writes op' (Some x)"
      using assms(1) rd' unfolding rmw_ok_def by blast
    then show ?thesis using assms(4,9) cur by (simp add: settled_def)
  qed
  ultimately show ?thesis
    using assms(1,6,7) fresh by (auto simp: rmw_ok_def cur)
qed

lemma rmw_ok_same:
  assumes "rmw_ok enc apply_op writes init obj vs reads acked hist log cur"
    and "Some (m, v) \<in> reads" "\<not> writes op (Some m)"
  shows "rmw_ok enc apply_op writes init obj vs reads (acked @ [op]) hist (log @ [op]) cur"
proof -
  obtain x where "cur = Some x" "\<not> writes op (Some x)"
    using assms unfolding rmw_ok_def by blast
  then have "serial apply_op writes init (log @ [op]) cur"
    using assms(1) by (auto simp: rmw_ok_def intro: serial.same)
  moreover have "subseq (acked @ [op]) (log @ [op])"
    using assms(1) by (auto simp: rmw_ok_def intro: list_emb_append_mono)
  ultimately show ?thesis using assms(1) by (simp add: rmw_ok_def)
qed

context cas_laws
begin

lemma rmw_keeps:
  assumes "rmw_step enc apply_op writes st view used key w w'" "ok (rw_store w)" "inj enc" "settled apply_op writes"
    and "rmw_ok enc apply_op writes init (view (rw_store w) key) (used (rw_store w) key) (rw_reads w) (rw_acked w)
      hist log cur"
  shows "\<exists>hist log cur. rmw_ok enc apply_op writes init (view (rw_store w') key) (used (rw_store w') key)
    (rw_reads w') (rw_acked w') hist log cur"
  using assms(1)
proof cases
  case (read_absent s)
  have get: "view s = view (rw_store w)" "used (rw_store w) key \<subseteq> used s key"
    using get_view [OF assms(2) read_absent(2)] by auto
  show ?thesis
    using rmw_ok_mono [OF assms(5) get(2)] get(1)
    by (intro exI [of _ hist] exI [of _ log] exI [of _ cur]) (auto simp: rmw_ok_def read_absent)
next
  case (read_value m v s)
  have get: "view s = view (rw_store w)" "used (rw_store w) key \<subseteq> used s key"
    "view (rw_store w) key = Some (enc m, v)"
    using get_view [OF assms(2) read_value(2)] by auto
  then have "hist v = Some m" "cur = Some m"
    using assms(3,5) by (cases cur; auto simp: rmw_ok_def dest: injD)+
  then show ?thesis
    using rmw_ok_mono [OF assms(5) get(2)] get(1)
    by (intro exI [of _ hist] exI [of _ log] exI [of _ cur]) (auto simp: rmw_ok_def read_value)
next
  case (swap_in rd op r s)
  from put_view [OF assms(2) swap_in(4)] show ?thesis
  proof (rule disjE, goal_cases applied refused)
    case applied
    then obtain v where *: "map_option snd rd = map_option snd (view (rw_store w) key)" "v \<notin> used (rw_store w) key"
      "view s = (view (rw_store w))(key \<mapsto> (enc (apply_op op (map_option fst rd)), v))" "v \<in> used s key"
      "used (rw_store w) key \<subseteq> used s key"
      by blast
    have "rw_acked w' = rw_acked w \<or> rw_acked w' = rw_acked w @ [op]"
      using swap_in(1) by (auto split: outcome.splits)
    from rmw_ok_write [OF assms(5) swap_in(2) *(1) swap_in(3) *(2,4,5) this assms(4)] *(3) swap_in(1)
    show ?thesis by auto
  next
    case refused
    then have *: "view s = view (rw_store w)" "\<forall>k. used (rw_store w) k \<subseteq> used s k" "\<forall>v. r \<noteq> Ok v"
      by auto
    then have "rw_acked w' = rw_acked w" using swap_in(1) by (auto split: outcome.splits)
    moreover have "rmw_ok enc apply_op writes init (view (rw_store w) key) (used s key) (rw_reads w)
        (rw_acked w) hist log cur"
      using *(2) by (intro rmw_ok_mono [OF assms(5)]) simp
    ultimately show ?thesis using * swap_in(1) by auto
  qed
next
  case (unchanged m v op)
  then have "rw_store w' = rw_store w" "rw_reads w' = rw_reads w" "rw_acked w' = rw_acked w @ [op]" by simp_all
  then show ?thesis using rmw_ok_same [OF assms(5) unchanged(2,3)] by metis
next
  case (elsewhere s)
  with rmw_ok_mono [OF assms(5) elsewhere(3)] show ?thesis by auto
qed

text \<open>The object holds what a serial run makes of the start, and no acknowledged operation is
  missing from the run.\<close>

lemma rmw_serial:
  assumes "rmw_reach enc apply_op writes st view used ok key init w" "inj enc" "settled apply_op writes"
  obtains log cur where "map_option fst (view (rw_store w) key) = map_option enc cur"
    "serial apply_op writes init log cur" "subseq (rw_acked w) log"
proof -
  have "ok (rw_store w) \<and> (\<exists>hist log cur. rmw_ok enc apply_op writes init (view (rw_store w) key)
      (used (rw_store w) key) (rw_reads w) (rw_acked w) hist log cur)"
    using assms(1)
  proof induction
    case (start s)
    define hist where "hist = (\<lambda>v. if (\<exists>d. view s key = Some (d, v)) then init else None)"
    have "rmw_ok enc apply_op writes init (view s key) (used s key) {} [] hist [] init"
      using start view_used [of s key]
      by (auto simp: rmw_ok_def hist_def serial.none split: if_splits)
    with start show ?case by auto
  next
    case (more w w')
    then show ?case using rmw_keeps [OF _ _ assms(2,3)] by blast
  qed
  then show thesis using that by (auto simp: rmw_ok_def)
qed

end

end
