(* ===== verification/Page_Shard_Manifest.thy ===== *)
theory Page_Shard_Manifest
  imports Cas_Retry Layer_Map Sample_Codec
begin

text \<open>
  The page shard manifest (crates/zou-store/src/shardmanifest.rs): which layers a shard
  serves and how far ingest has flushed, its loading, and the three operations that
  change it, each a compare-and-swap loop around a pure merge. Its JSON form is
  written and read by \<open>serde_json\<close>, which is a parameter.
\<close>

definition PAGE_SHARD_FORMAT :: u32 where
  "PAGE_SHARD_FORMAT = 2"

datatype page_shard_error =
  ShardFormatTooNew u32 | ShardJson | ShardStore cas_error
| ShardName layer_name_error | ShardMap layer_map_error

record layer_entry =
  le_name :: string
  le_size :: u64
  le_owner :: "string option"
  le_upto :: "lsn option"

record page_shard_manifest =
  ps_format :: u32
  ps_shard :: u16
  ps_disk_consistent_lsn :: lsn
  ps_layers :: "layer_entry list"
  ps_covers :: "u32 option"
  ps_horizon :: "lsn option"

definition psm_new :: "u16 \<Rightarrow> page_shard_manifest" where
  "psm_new shard =
     \<lparr>ps_format = 1, ps_shard = shard, ps_disk_consistent_lsn = 0, ps_layers = [], ps_covers = None,
      ps_horizon = None\<rparr>"

record shard_codec =
  sc_ser :: "page_shard_manifest \<Rightarrow> bytes"
  sc_de :: "bytes \<Rightarrow> page_shard_manifest option"

definition shard_codec_faithful :: "shard_codec \<Rightarrow> bool" where
  "shard_codec_faithful c \<longleftrightarrow> (\<forall>m. sc_de c (sc_ser c m) = Some m)"

definition psm_encode :: "shard_codec \<Rightarrow> page_shard_manifest \<Rightarrow> bytes" where
  "psm_encode c m = sc_ser c m"

definition psm_decode :: "shard_codec \<Rightarrow> bytes \<Rightarrow> (page_shard_manifest, page_shard_error) outcome" where
  "psm_decode c bs =
     obind (ok_or (sc_de c bs) ShardJson) (\<lambda>m.
     if ps_format m > PAGE_SHARD_FORMAT then Err (ShardFormatTooNew (ps_format m)) else Ok m)"

definition psm_load ::
  "shard_codec \<Rightarrow> 's cas_store \<Rightarrow> string \<Rightarrow> 's \<Rightarrow>
   ((page_shard_manifest \<times> version) option, page_shard_error) outcome \<times> 's" where
  "psm_load c st key s =
     (case cs_get st key s of
        (Ok None, s) \<Rightarrow> (Ok None, s)
      | (Ok (Some (bytes, version)), s) \<Rightarrow> (obind (psm_decode c bytes) (\<lambda>m. Ok (Some (m, version))), s)
      | (Err e, s) \<Rightarrow> (Err (ShardStore e), s)
      | (Panic, s) \<Rightarrow> (Panic, s))"

definition entry_desc :: "layer_entry \<Rightarrow> (layer_desc, layer_name_error) outcome" where
  "entry_desc l =
     obind (layer_parse (le_name l) (le_size l)) (\<lambda>d.
     Ok (d\<lparr>ld_owner := le_owner l, ld_upto := le_upto l\<rparr>))"

text \<open>\<open>collect\<close> into a result: the first error wins.\<close>

fun entry_descs :: "layer_entry list \<Rightarrow> (layer_desc list, layer_name_error) outcome" where
  "entry_descs [] = Ok []"
| "entry_descs (l # ls) = obind (entry_desc l) (\<lambda>d. obind (entry_descs ls) (\<lambda>ds. Ok (d # ds)))"

definition psm_layer_map ::
  "page_shard_manifest \<Rightarrow> (layer_map, page_shard_error) outcome option" where
  "psm_layer_map m =
     (case entry_descs (ps_layers m) of
        Ok descs \<Rightarrow> map_option (map_err ShardMap) (layer_map_new descs)
      | Err e \<Rightarrow> Some (Err (ShardName e))
      | Panic \<Rightarrow> Some Panic)"

section \<open>The merges\<close>

definition push_entry :: "layer_entry list \<Rightarrow> layer_entry \<Rightarrow> layer_entry list" where
  "push_entry ls e = (if \<exists>l \<in> set ls. le_name l = le_name e then ls else ls @ [e])"

definition or_new :: "u16 \<Rightarrow> page_shard_manifest option \<Rightarrow> page_shard_manifest" where
  "or_new shard cur = (case cur of Some m \<Rightarrow> m | None \<Rightarrow> psm_new shard)"

definition publish_merge ::
  "u16 \<Rightarrow> layer_entry \<Rightarrow> lsn \<Rightarrow> page_shard_manifest option \<Rightarrow> page_shard_manifest" where
  "publish_merge shard entry lsn cur =
     (let m = or_new shard cur
      in m\<lparr>ps_layers := push_entry (ps_layers m) entry,
           ps_disk_consistent_lsn := max (ps_disk_consistent_lsn m) lsn\<rparr>)"

definition swap_merge ::
  "u16 \<Rightarrow> string list \<Rightarrow> layer_entry list \<Rightarrow> u32 option \<Rightarrow> lsn option \<Rightarrow>
   page_shard_manifest option \<Rightarrow> page_shard_manifest" where
  "swap_merge shard retire add claim horizon cur =
     (let m = or_new shard cur;
          m = m\<lparr>ps_layers := foldl push_entry (filter (\<lambda>l. le_name l \<notin> set retire) (ps_layers m)) add\<rparr>;
          m = (case claim of None \<Rightarrow> m | Some n \<Rightarrow> m\<lparr>ps_covers := Some n\<rparr>)
      in case horizon of
           None \<Rightarrow> m
         | Some at \<Rightarrow> m\<lparr>ps_horizon := Some (case ps_horizon m of None \<Rightarrow> at | Some had \<Rightarrow> max had at)\<rparr>)"

section \<open>The loops\<close>

definition psm_swap ::
  "shard_codec \<Rightarrow> 's cas_store \<Rightarrow> string \<Rightarrow> page_shard_manifest \<Rightarrow> version option \<Rightarrow> 'r \<Rightarrow> 's \<Rightarrow>
   ('r, page_shard_error) outcome option \<times> 's" where
  "psm_swap c st key m expected result s =
     (case cs_put_if_match st key (psm_encode c m) expected s of
        (Ok _, s) \<Rightarrow> (Some (Ok result), s)
      | (Err (Conflict _), s) \<Rightarrow> (None, s)
      | (Err (AlreadyExists _), s) \<Rightarrow> (None, s)
      | (Err e, s) \<Rightarrow> (Some (Err (ShardStore e)), s)
      | (Panic, s) \<Rightarrow> (Some Panic, s))"

definition psm_attempt ::
  "shard_codec \<Rightarrow> 's cas_store \<Rightarrow> string \<Rightarrow>
   ((page_shard_manifest \<times> version) option \<Rightarrow> 's \<Rightarrow> ('r, page_shard_error) outcome option \<times> 's) \<Rightarrow>
   's \<Rightarrow> ('r, page_shard_error) outcome option \<times> 's" where
  "psm_attempt c st key act s =
     (case psm_load c st key s of
        (Ok cur, s) \<Rightarrow> act cur s
      | (Err e, s) \<Rightarrow> (Some (Err e), s)
      | (Panic, s) \<Rightarrow> (Some Panic, s))"

definition publish_body ::
  "shard_codec \<Rightarrow> 's cas_store \<Rightarrow> string \<Rightarrow> u16 \<Rightarrow> layer_entry \<Rightarrow> lsn \<Rightarrow>
   (page_shard_manifest \<times> version) option \<Rightarrow> 's \<Rightarrow>
   (page_shard_manifest, page_shard_error) outcome option \<times> 's" where
  "publish_body c st key shard entry lsn cur =
     (let m = publish_merge shard entry lsn (map_option fst cur)
      in psm_swap c st key m (map_option snd cur) m)"

definition publish_layer ::
  "shard_codec \<Rightarrow> 's cas_store \<Rightarrow> string \<Rightarrow> u16 \<Rightarrow> layer_entry \<Rightarrow> lsn \<Rightarrow> 's \<Rightarrow>
   ((page_shard_manifest, page_shard_error) outcome \<times> 's) option" where
  "publish_layer c st key shard entry lsn =
     retry_loop (psm_attempt c st key (publish_body c st key shard entry lsn))"

definition advance_body ::
  "shard_codec \<Rightarrow> 's cas_store \<Rightarrow> string \<Rightarrow> lsn \<Rightarrow> (page_shard_manifest \<times> version) option \<Rightarrow> 's \<Rightarrow>
   (page_shard_manifest option, page_shard_error) outcome option \<times> 's" where
  "advance_body c st key lsn cur s =
     (case cur of
        None \<Rightarrow> (Some (Ok None), s)
      | Some (m, version) \<Rightarrow>
          if ps_disk_consistent_lsn m \<ge> lsn then (Some (Ok (Some m)), s)
          else
            let m = m\<lparr>ps_disk_consistent_lsn := lsn\<rparr>
            in psm_swap c st key m (Some version) (Some m) s)"

definition advance_consistent ::
  "shard_codec \<Rightarrow> 's cas_store \<Rightarrow> string \<Rightarrow> lsn \<Rightarrow> 's \<Rightarrow>
   ((page_shard_manifest option, page_shard_error) outcome \<times> 's) option" where
  "advance_consistent c st key lsn = retry_loop (psm_attempt c st key (advance_body c st key lsn))"

definition swap_body ::
  "shard_codec \<Rightarrow> 's cas_store \<Rightarrow> string \<Rightarrow> u16 \<Rightarrow> string list \<Rightarrow> layer_entry list \<Rightarrow>
   u32 option \<Rightarrow> lsn option \<Rightarrow> (page_shard_manifest \<times> version) option \<Rightarrow> 's \<Rightarrow>
   (page_shard_manifest, page_shard_error) outcome option \<times> 's" where
  "swap_body c st key shard retire add claim horizon cur =
     (let m = swap_merge shard retire add claim horizon (map_option fst cur)
      in psm_swap c st key m (map_option snd cur) m)"

definition swap_layers ::
  "shard_codec \<Rightarrow> 's cas_store \<Rightarrow> string \<Rightarrow> u16 \<Rightarrow> string list \<Rightarrow> layer_entry list \<Rightarrow>
   u32 option \<Rightarrow> lsn option \<Rightarrow> 's \<Rightarrow>
   ((page_shard_manifest, page_shard_error) outcome \<times> 's) option" where
  "swap_layers c st key shard retire add claim horizon =
     retry_loop (psm_attempt c st key (swap_body c st key shard retire add claim horizon))"

section \<open>The operations as values\<close>

text \<open>
  The specification of the three loops: what each makes of the manifest, and that advancing writes only
  over a manifest that is behind. The racing workers below run the loops' own bodies; that the bodies do
  what is said here is \<open>publish_body_does\<close>, \<open>advance_body_does\<close> and \<open>swap_body_does\<close>.
\<close>

datatype shard_op =
  Publish u16 layer_entry lsn
| Advance lsn
| SwapLayers u16 "string list" "layer_entry list" "u32 option" "lsn option"

fun shard_apply :: "shard_op \<Rightarrow> page_shard_manifest option \<Rightarrow> page_shard_manifest" where
  "shard_apply (Publish shard entry lsn) cur = publish_merge shard entry lsn cur"
| "shard_apply (Advance lsn) cur = (or_new 0 cur)\<lparr>ps_disk_consistent_lsn := lsn\<rparr>"
| "shard_apply (SwapLayers shard retire add claim horizon) cur =
     swap_merge shard retire add claim horizon cur"

fun shard_writes :: "shard_op \<Rightarrow> page_shard_manifest option \<Rightarrow> bool" where
  "shard_writes (Advance lsn) cur = (case cur of None \<Rightarrow> False | Some m \<Rightarrow> ps_disk_consistent_lsn m < lsn)"
| "shard_writes _ cur = True"

text \<open>
  Any number of workers on one shard. A worker loads the manifest, and any time later runs the rest of one
  pass of its loop on what it loaded: the body's store calls are the step, and the operation is
  acknowledged when the loop returns the manifest. Everyone may also change other objects.
\<close>

definition returned :: "('r, page_shard_error) outcome option \<Rightarrow> 'op \<Rightarrow> 'op list \<Rightarrow> 'op list" where
  "returned r op acked = (case r of Some (Ok _) \<Rightarrow> acked @ [op] | _ \<Rightarrow> acked)"

inductive worker_step ::
  "shard_codec \<Rightarrow> 's cas_store \<Rightarrow> ('s \<Rightarrow> string \<Rightarrow> (bytes \<times> version) option) \<Rightarrow> ('s \<Rightarrow> string \<Rightarrow> version set) \<Rightarrow>
   string \<Rightarrow> ('s, page_shard_manifest, shard_op) rmw_world \<Rightarrow>
   ('s, page_shard_manifest, shard_op) rmw_world \<Rightarrow> bool"
  for c st view used key where
  load: "psm_load c st key (rw_store w) = (Ok cur, s) \<Longrightarrow>
    worker_step c st view used key w (w\<lparr>rw_store := s, rw_reads := insert cur (rw_reads w)\<rparr>)"
| publish: "cur \<in> rw_reads w \<Longrightarrow> publish_body c st key shard entry lsn cur (rw_store w) = (r, s) \<Longrightarrow>
    worker_step c st view used key w
      (w\<lparr>rw_store := s, rw_acked := returned r (Publish shard entry lsn) (rw_acked w)\<rparr>)"
| advance: "cur \<in> rw_reads w \<Longrightarrow> advance_body c st key lsn cur (rw_store w) = (r, s) \<Longrightarrow> r \<noteq> Some (Ok None) \<Longrightarrow>
    worker_step c st view used key w (w\<lparr>rw_store := s, rw_acked := returned r (Advance lsn) (rw_acked w)\<rparr>)"
| compact: "cur \<in> rw_reads w \<Longrightarrow> swap_body c st key shard retire add claim horizon cur (rw_store w) = (r, s) \<Longrightarrow>
    worker_step c st view used key w
      (w\<lparr>rw_store := s, rw_acked := returned r (SwapLayers shard retire add claim horizon) (rw_acked w)\<rparr>)"
| elsewhere: "view s key = view (rw_store w) key \<Longrightarrow> used (rw_store w) key \<subseteq> used s key \<Longrightarrow>
    worker_step c st view used key w (w\<lparr>rw_store := s\<rparr>)"

inductive worker_reach ::
  "shard_codec \<Rightarrow> 's cas_store \<Rightarrow> ('s \<Rightarrow> string \<Rightarrow> (bytes \<times> version) option) \<Rightarrow> ('s \<Rightarrow> string \<Rightarrow> version set) \<Rightarrow>
   ('s \<Rightarrow> bool) \<Rightarrow> string \<Rightarrow> page_shard_manifest option \<Rightarrow>
   ('s, page_shard_manifest, shard_op) rmw_world \<Rightarrow> bool"
  for c st view used ok key init where
  start: "ok s \<Longrightarrow> map_option fst (view s key) = map_option (psm_encode c) init \<Longrightarrow>
    worker_reach c st view used ok key init \<lparr>rw_store = s, rw_reads = {}, rw_acked = []\<rparr>"
| step: "worker_reach c st view used ok key init w \<Longrightarrow>
    worker_step c st view used key w w' \<Longrightarrow> ok (rw_store w') \<Longrightarrow>
    worker_reach c st view used ok key init w'"

definition entry_names :: "page_shard_manifest \<Rightarrow> string list" where
  "entry_names m = map le_name (ps_layers m)"

fun retired :: "shard_op \<Rightarrow> string set" where
  "retired (SwapLayers _ retire _ _ _) = set retire"
| "retired _ = {}"

fun op_lsn :: "shard_op \<Rightarrow> lsn" where
  "op_lsn (Publish _ _ lsn) = lsn"
| "op_lsn (Advance lsn) = lsn"
| "op_lsn (SwapLayers _ _ _ _ _) = 0"

fun op_horizon :: "shard_op \<Rightarrow> lsn option" where
  "op_horizon (SwapLayers _ _ _ _ h) = h"
| "op_horizon _ = None"

fun op_adds :: "shard_op \<Rightarrow> layer_entry list" where
  "op_adds (Publish _ e _) = [e]"
| "op_adds (Advance _) = []"
| "op_adds (SwapLayers _ _ add _ _) = add"

section \<open>What the merges keep\<close>

lemma push_entry_alt: "push_entry ls e = (if le_name e \<in> le_name ` set ls then ls else ls @ [e])"
  unfolding push_entry_def image_iff by (simp only: eq_commute [of "le_name e"])

lemma push_entry_names:
  "map le_name (push_entry ls e) =
   (if le_name e \<in> set (map le_name ls) then map le_name ls else map le_name ls @ [le_name e])"
  by (auto simp: push_entry_alt)

lemma push_entries_names:
  "le_name ` set (foldl push_entry ls es) = le_name ` set ls \<union> le_name ` set es"
proof (induction es arbitrary: ls)
  case (Cons e es)
  have "le_name ` set (push_entry ls e) = insert (le_name e) (le_name ` set ls)"
    by (auto simp: push_entry_alt)
  with Cons show ?case by auto
qed simp

lemma push_entries_distinct:
  "distinct (map le_name ls) \<Longrightarrow> distinct (map le_name (foldl push_entry ls es))"
  by (induction es arbitrary: ls) (auto simp: push_entry_names simp del: map_append)

lemma push_entries_known:
  "\<forall>e \<in> set es. le_name e \<in> le_name ` set ls \<Longrightarrow> foldl push_entry ls es = ls"
  by (induction es) (auto simp: push_entry_alt)

lemma swap_merge_fields:
  "ps_disk_consistent_lsn (swap_merge shard retire add claim horizon cur) = ps_disk_consistent_lsn (or_new shard cur)"
  "ps_layers (swap_merge shard retire add claim horizon cur) =
     foldl push_entry (filter (\<lambda>l. le_name l \<notin> set retire) (ps_layers (or_new shard cur))) add"
  "ps_horizon (swap_merge shard retire add claim horizon cur) =
     (case horizon of None \<Rightarrow> ps_horizon (or_new shard cur)
      | Some at \<Rightarrow> Some (case ps_horizon (or_new shard cur) of None \<Rightarrow> at | Some had \<Rightarrow> max had at))"
  "ps_covers (swap_merge shard retire add claim horizon cur) =
     (case claim of None \<Rightarrow> ps_covers (or_new shard cur) | Some n \<Rightarrow> Some n)"
  "ps_format (swap_merge shard retire add claim horizon cur) = ps_format (or_new shard cur)"
  by (simp_all add: swap_merge_def Let_def split: option.splits)

text \<open>The order on horizons: none is the start of history.\<close>

definition horizon_ge :: "page_shard_manifest \<Rightarrow> lsn option \<Rightarrow> bool" where
  "horizon_ge m h = (case h of None \<Rightarrow> True | Some a \<Rightarrow> (\<exists>b. ps_horizon m = Some b \<and> a \<le> b))"

lemma op_lsn_reached:
  "shard_writes op x \<Longrightarrow> op_lsn op \<le> ps_disk_consistent_lsn (shard_apply op x)"
  by (cases op) (auto simp: publish_merge_def Let_def)

lemma lsn_keeps:
  assumes "shard_writes op x" "\<exists>m. x = Some m \<and> lsn \<le> ps_disk_consistent_lsn m"
  shows "lsn \<le> ps_disk_consistent_lsn (shard_apply op x)"
  using assms
  by (cases op) (auto simp: publish_merge_def Let_def or_new_def swap_merge_fields le_max_iff_disj)

lemma op_horizon_reached: "horizon_ge (shard_apply op x) (op_horizon op)"
  by (cases op) (auto simp: horizon_ge_def swap_merge_fields le_max_iff_disj split: option.splits)

lemma horizon_keeps:
  assumes "\<exists>m. x = Some m \<and> horizon_ge m h"
  shows "horizon_ge (shard_apply op x) h"
  using assms
  by (cases op; cases h)
    (auto simp: horizon_ge_def publish_merge_def Let_def or_new_def swap_merge_fields le_max_iff_disj
      split: option.splits)

lemma op_adds_listed: "e \<in> set (op_adds op) \<Longrightarrow> le_name e \<in> set (entry_names (shard_apply op x))"
  by (cases op)
    (auto simp: entry_names_def publish_merge_def Let_def push_entry_alt swap_merge_fields push_entries_names)

lemma listed_keeps:
  assumes "\<exists>m. x = Some m \<and> n \<in> set (entry_names m)" "n \<notin> retired op"
  shows "n \<in> set (entry_names (shard_apply op x))"
  using assms
  by (cases op)
    (auto simp: entry_names_def publish_merge_def Let_def or_new_def push_entry_alt swap_merge_fields push_entries_names)

lemma names_distinct_keeps:
  assumes "\<forall>m. x = Some m \<longrightarrow> distinct (entry_names m)"
  shows "distinct (entry_names (shard_apply op x))"
proof -
  have "distinct (map le_name (ps_layers (or_new s x)))" for s
    using assms by (auto simp: or_new_def psm_new_def entry_names_def split: option.splits)
  then show ?thesis
    by (cases op)
      (auto simp: entry_names_def publish_merge_def Let_def push_entry_names swap_merge_fields
        intro!: push_entries_distinct distinct_map_filter)
qed

section \<open>Workers are read-modify-writes\<close>

lemma shard_settled: "settled shard_apply shard_writes"
proof -
  have "\<not> shard_writes op (Some (shard_apply op' (Some m)))"
    if "\<not> shard_writes op (Some m)" "shard_writes op' (Some m)" for op op' m
    using that lsn_keeps [OF that(2), of "op_lsn op"] by (cases op) (auto simp: not_less)
  then show ?thesis by (simp add: settled_def)
qed

lemma shard_codec_inj: "shard_codec_faithful c \<Longrightarrow> inj (psm_encode c)"
  by (auto simp: shard_codec_faithful_def psm_encode_def inj_def) (metis option.inject)

abbreviation shard_rmw ::
  "shard_codec \<Rightarrow> 's cas_store \<Rightarrow> ('s \<Rightarrow> string \<Rightarrow> (bytes \<times> version) option) \<Rightarrow> ('s \<Rightarrow> string \<Rightarrow> version set) \<Rightarrow>
   string \<Rightarrow> ('s, page_shard_manifest, shard_op) rmw_world \<Rightarrow>
   ('s, page_shard_manifest, shard_op) rmw_world \<Rightarrow> bool" where
  "shard_rmw c \<equiv> rmw_step (psm_encode c) shard_apply shard_writes"

text \<open>A swap is a conditional write, acknowledged exactly when the store took it.\<close>

lemma psm_swap_does:
  assumes "psm_swap c st key (shard_apply op (map_option fst cur)) (map_option snd cur) res (rw_store w) = (r, s)"
    and "cur \<in> rw_reads w" "shard_writes op (map_option fst cur)"
  shows "shard_rmw c st view used key w (w\<lparr>rw_store := s, rw_acked := returned r op (rw_acked w)\<rparr>)"
proof -
  obtain x where put: "cs_put_if_match st key (psm_encode c (shard_apply op (map_option fst cur)))
      (map_option snd cur) (rw_store w) = (x, s)"
    and r: "returned r op (rw_acked w) = (case x of Ok _ \<Rightarrow> rw_acked w @ [op] | _ \<Rightarrow> rw_acked w)"
    using assms(1)
    by (auto simp: psm_swap_def returned_def split: prod.splits outcome.splits cas_error.splits)
  show ?thesis
    unfolding r
    by (rule rmw_step.swap_in [where enc = "psm_encode c" and apply_op = shard_apply and writes = shard_writes,
          OF assms(2,3) put])
qed

lemma publish_body_does:
  assumes "publish_body c st key shard entry lsn cur (rw_store w) = (r, s)" "cur \<in> rw_reads w"
  shows "shard_rmw c st view used key w (w\<lparr>rw_store := s, rw_acked := returned r (Publish shard entry lsn) (rw_acked w)\<rparr>)"
  using psm_swap_does [where op = "Publish shard entry lsn" and cur = cur] assms
  by (simp add: publish_body_def Let_def)

lemma swap_body_does:
  assumes "swap_body c st key shard retire add claim horizon cur (rw_store w) = (r, s)" "cur \<in> rw_reads w"
  shows "shard_rmw c st view used key w
    (w\<lparr>rw_store := s, rw_acked := returned r (SwapLayers shard retire add claim horizon) (rw_acked w)\<rparr>)"
  using psm_swap_does [where op = "SwapLayers shard retire add claim horizon" and cur = cur] assms
  by (simp add: swap_body_def Let_def)

lemma advance_body_does:
  assumes "advance_body c st key lsn cur (rw_store w) = (r, s)" "cur \<in> rw_reads w" "r \<noteq> Some (Ok None)"
  shows "shard_rmw c st view used key w (w\<lparr>rw_store := s, rw_acked := returned r (Advance lsn) (rw_acked w)\<rparr>)"
proof (cases cur)
  case None
  with assms(1,3) show ?thesis by (simp add: advance_body_def)
next
  case (Some x)
  then obtain m v where cur: "cur = Some (m, v)" by (cases x) auto
  show ?thesis
  proof (cases "ps_disk_consistent_lsn m \<ge> lsn")
    case True
    with assms(1) cur have "r = Some (Ok (Some m))" "s = rw_store w" by (auto simp: advance_body_def)
    moreover have "shard_rmw c st view used key w (w\<lparr>rw_acked := rw_acked w @ [Advance lsn]\<rparr>)"
      using assms(2) cur True by (intro rmw_step.unchanged [of m v]) (auto simp: not_less)
    ultimately show ?thesis by (simp add: returned_def)
  next
    case False
    then have "psm_swap c st key (shard_apply (Advance lsn) (map_option fst cur)) (map_option snd cur)
        (Some (m\<lparr>ps_disk_consistent_lsn := lsn\<rparr>)) (rw_store w) = (r, s)"
      using assms(1) cur by (simp add: advance_body_def Let_def or_new_def)
    then show ?thesis by (rule psm_swap_does [OF _ assms(2)]) (use False cur in \<open>simp add: not_le\<close>)
  qed
qed

context cas_laws
begin

lemma psm_load_does:
  assumes "psm_load c st key (rw_store w) = (Ok cur, s)" "ok (rw_store w)" "shard_codec_faithful c"
    and "map_option fst (view (rw_store w) key) = map_option (psm_encode c) x"
  shows "shard_rmw c st view used key w (w\<lparr>rw_store := s, rw_reads := insert cur (rw_reads w)\<rparr>)"
proof (cases cur)
  case None
  with assms(1) have "cs_get st key (rw_store w) = (Ok None, s)"
    by (auto simp: psm_load_def obind_Ok_iff split: prod.splits outcome.splits option.splits)
  with None show ?thesis by (auto intro: rmw_step.read_absent)
next
  case (Some p)
  then obtain m v where cur: "cur = Some (m, v)" by (cases p) auto
  with assms(1) obtain bs where get: "cs_get st key (rw_store w) = (Ok (Some (bs, v)), s)"
    and dec: "psm_decode c bs = Ok m"
    by (auto simp: psm_load_def obind_Ok_iff split: prod.splits outcome.splits option.splits)
  have "view (rw_store w) key = Some (bs, v)" using get_view [OF assms(2) get] by simp
  then obtain m0 where "x = Some m0" "bs = psm_encode c m0" using assms(4) by (cases x) auto
  with dec assms(3) have "bs = psm_encode c m"
    by (auto simp: psm_decode_def psm_encode_def shard_codec_faithful_def obind_Ok_iff split: if_splits)
  with get cur show ?thesis by (auto intro: rmw_step.read_value)
qed

lemma workers_are_rmw:
  assumes "worker_reach c st view used ok key init w" "shard_codec_faithful c"
  shows "rmw_reach (psm_encode c) shard_apply shard_writes st view used ok key init w \<and> ok (rw_store w)"
  using assms(1)
proof induction
  case (start s)
  then show ?case by (simp add: rmw_reach.start)
next
  case (step w w')
  obtain cur where view: "map_option fst (view (rw_store w) key) = map_option (psm_encode c) cur"
    using rmw_serial [OF conjunct1 [OF step.IH] shard_codec_inj [OF assms(2)] shard_settled] by metis
  from step.hyps(2) have "shard_rmw c st view used key w w'"
  proof cases
    case (load x s)
    then show ?thesis using psm_load_does [OF load(2) _ assms(2) view] step.IH by simp
  qed (simp_all add: publish_body_does advance_body_does swap_body_does rmw_step.elsewhere)
  then show ?case using step by (auto intro: rmw_reach.more)
qed

end

section \<open>On the memory store\<close>

text \<open>The object under a key is absent or a manifest this code wrote and can read.\<close>

definition psm_view ::
  "shard_codec \<Rightarrow> mem_store \<Rightarrow> string \<Rightarrow> (page_shard_manifest \<times> version) option \<Rightarrow> bool" where
  "psm_view c s key cur \<longleftrightarrow>
     mem_view s key = map_option (\<lambda>(m, v). (psm_encode c m, v)) cur \<and>
     (\<forall>m v. cur = Some (m, v) \<longrightarrow> ps_format m \<le> PAGE_SHARD_FORMAT)"

lemma mem_psm_load:
  assumes "psm_view c s key cur" "shard_codec_faithful c"
  shows "psm_load c mem_ops key s = (Ok cur, s)"
  using assms
  by (cases cur)
    (auto simp: psm_load_def psm_view_def mem_ops_def mem_get_def mem_view_def psm_decode_def psm_encode_def
      shard_codec_faithful_def not_less)

lemma mem_psm_swap:
  assumes "psm_view c s key cur" "ps_format m \<le> PAGE_SHARD_FORMAT"
  obtains v s' where "psm_swap c mem_ops key m (map_option snd cur) r s = (Some (Ok r), s')"
    "psm_view c s' key (Some (m, v))"
proof -
  define v where "v = version_of (ms_counter s + 1)"
  define s' where "s' = s\<lparr>ms_counter := ms_counter s + 1,
    ms_objects := bt_insert key (psm_encode c m, v) (ms_objects s)\<rparr>"
  have "mem_put_if_match key (psm_encode c m) (map_option snd cur) s = (Ok v, s')"
    using assms(1) by (cases cur) (auto simp: mem_put_if_match_def psm_view_def mem_view_def Let_def s'_def v_def)
  then show thesis
    using assms(2) by (intro that [of s' v]) (simp_all add: psm_swap_def mem_ops_def psm_view_def mem_view_def s'_def bt_get_insert)
qed

lemma merge_format:
  "ps_format (publish_merge shard e lsn cur) = ps_format (or_new shard cur)"
  "ps_format (psm_new shard) \<le> PAGE_SHARD_FORMAT"
  by (simp_all add: publish_merge_def Let_def psm_new_def PAGE_SHARD_FORMAT_def)

text \<open>On a store nobody else writes, each shard manifest operation returns on its first pass and
  leaves the object its merge of what was there, a missing manifest counting as a new one:
  publishing and compacting always, advancing only when it moves the shard forward.\<close>

theorem shard_manifest_ops:
  assumes "psm_view c s key cur" "shard_codec_faithful c"
  shows "(\<exists>v s'. publish_layer c mem_ops key shard e lsn s =
        Some (Ok (publish_merge shard e lsn (map_option fst cur)), s') \<and>
      psm_view c s' key (Some (publish_merge shard e lsn (map_option fst cur), v))) \<and>
    (\<exists>v s'. swap_layers c mem_ops key shard retire add claim horizon s =
        Some (Ok (swap_merge shard retire add claim horizon (map_option fst cur)), s') \<and>
      psm_view c s' key (Some (swap_merge shard retire add claim horizon (map_option fst cur), v))) \<and>
    (case cur of
       None \<Rightarrow> advance_consistent c mem_ops key lsn s = Some (Ok None, s)
     | Some (m, v) \<Rightarrow>
         if lsn \<le> ps_disk_consistent_lsn m then advance_consistent c mem_ops key lsn s = Some (Ok (Some m), s)
         else \<exists>v s'. advance_consistent c mem_ops key lsn s =
             Some (Ok (Some (m\<lparr>ps_disk_consistent_lsn := lsn\<rparr>)), s') \<and>
           psm_view c s' key (Some (m\<lparr>ps_disk_consistent_lsn := lsn\<rparr>, v)))"
proof (intro conjI)
  note load = mem_psm_load [OF assms]
  have fmt: "ps_format (or_new shard (map_option fst cur)) \<le> PAGE_SHARD_FORMAT"
    using assms(1) by (auto simp: or_new_def psm_view_def merge_format split: option.splits)
  let ?p = "publish_merge shard e lsn (map_option fst cur)"
  obtain v s' where "psm_swap c mem_ops key ?p (map_option snd cur) ?p s = (Some (Ok ?p), s')"
    "psm_view c s' key (Some (?p, v))"
    by (rule mem_psm_swap [OF assms(1), of ?p ?p]) (use fmt in \<open>auto simp: merge_format\<close>)
  with load show "\<exists>v s'. publish_layer c mem_ops key shard e lsn s = Some (Ok ?p, s') \<and>
      psm_view c s' key (Some (?p, v))"
    unfolding publish_layer_def publish_body_def
    by (intro exI [of _ v] exI [of _ s']) (simp add: retry_loop_done psm_attempt_def Let_def)
  let ?w = "swap_merge shard retire add claim horizon (map_option fst cur)"
  obtain v s' where "psm_swap c mem_ops key ?w (map_option snd cur) ?w s = (Some (Ok ?w), s')"
    "psm_view c s' key (Some (?w, v))"
    by (rule mem_psm_swap [OF assms(1), of ?w ?w]) (use fmt in \<open>auto simp: swap_merge_fields\<close>)
  with load show "\<exists>v s'. swap_layers c mem_ops key shard retire add claim horizon s = Some (Ok ?w, s') \<and>
      psm_view c s' key (Some (?w, v))"
    unfolding swap_layers_def swap_body_def
    by (intro exI [of _ v] exI [of _ s']) (simp add: retry_loop_done psm_attempt_def Let_def)
  show "case cur of
       None \<Rightarrow> advance_consistent c mem_ops key lsn s = Some (Ok None, s)
     | Some (m, v) \<Rightarrow>
         if lsn \<le> ps_disk_consistent_lsn m then advance_consistent c mem_ops key lsn s = Some (Ok (Some m), s)
         else \<exists>v s'. advance_consistent c mem_ops key lsn s =
             Some (Ok (Some (m\<lparr>ps_disk_consistent_lsn := lsn\<rparr>)), s') \<and>
           psm_view c s' key (Some (m\<lparr>ps_disk_consistent_lsn := lsn\<rparr>, v))"
  proof (cases cur)
    case None
    with load show ?thesis by (simp add: advance_consistent_def advance_body_def retry_loop_done psm_attempt_def)
  next
    case (Some x)
    then obtain m v where cur: "cur = Some (m, v)" by (cases x) auto
    let ?a = "m\<lparr>ps_disk_consistent_lsn := lsn\<rparr>"
    obtain v' s' where "psm_swap c mem_ops key ?a (map_option snd cur) (Some ?a) s = (Some (Ok (Some ?a)), s')"
      "psm_view c s' key (Some (?a, v'))"
      by (rule mem_psm_swap [OF assms(1), of ?a "Some ?a"]) (use assms(1) cur in \<open>auto simp: psm_view_def\<close>)
    with load cur show ?thesis
      by (auto simp: advance_consistent_def advance_body_def retry_loop_done psm_attempt_def Let_def)
  qed
qed

section \<open>A concrete codec\<close>

definition enc_entry :: "layer_entry \<Rightarrow> bytes" where
  "enc_entry e = enc_string (le_name e) @ to_le (le_size e) @ enc_option enc_string (le_owner e) @
     enc_option to_le (le_upto e)"

definition dec_entry :: "bytes \<Rightarrow> (layer_entry \<times> bytes) option" where
  "dec_entry = dseq dec_string (\<lambda>n. dseq dec_word (\<lambda>z. dseq (dec_option dec_string) (\<lambda>w.
     dseq (dec_option dec_word) (\<lambda>u r.
     Some (\<lparr>le_name = n, le_size = z, le_owner = w, le_upto = u\<rparr>, r)))))"

lemma pc_entry: "pc_ok enc_entry dec_entry"
  by (simp add: pc_ok_def [of enc_entry] enc_entry_def dec_entry_def pc_basic)

lemma pc_word16: "pc_ok (to_le :: u16 \<Rightarrow> bytes) dec_word"
  by (simp add: pc_ok_def dec_word_def)

definition sample_shard_codec :: shard_codec where
  "sample_shard_codec =
     \<lparr>sc_ser = (\<lambda>m. to_le (ps_format m) @ to_le (ps_shard m) @ to_le (ps_disk_consistent_lsn m) @
        enc_list enc_entry (ps_layers m) @ enc_option to_le (ps_covers m) @ enc_option to_le (ps_horizon m) @ []),
      sc_de = (dseq dec_word (\<lambda>f. dseq dec_word (\<lambda>s. dseq dec_word (\<lambda>l.
        dseq (dec_list dec_entry) (\<lambda>ls. dseq (dec_option dec_word) (\<lambda>c. dseq (dec_option dec_word) (\<lambda>h r.
        Some \<lparr>ps_format = f, ps_shard = s, ps_disk_consistent_lsn = l, ps_layers = ls, ps_covers = c,
              ps_horizon = h\<rparr>)))))))\<rparr>"

lemma sample_shard_codec_faithful: "shard_codec_faithful sample_shard_codec"
  unfolding shard_codec_faithful_def sample_shard_codec_def
  by (simp add: pc_basic pc_entry pc_word16 del: append_Nil2)

definition sample_entry :: layer_entry where
  "sample_entry = \<lparr>le_name = ''x.dl'', le_size = 9, le_owner = None, le_upto = None\<rparr>"

theorem shard_manifest_ops_witness:
  "\<exists>s'. publish_layer sample_shard_codec mem_ops ''k'' 3 sample_entry 7 mem_new =
     Some (Ok (publish_merge 3 sample_entry 7 None), s')"
proof -
  have "psm_view sample_shard_codec mem_new ''k'' None"
    by (simp add: psm_view_def mem_view_def mem_new_def bt_get_def)
  from shard_manifest_ops [OF this sample_shard_codec_faithful, of 3 sample_entry 7 "[]" "[]" None None] show ?thesis by auto
qed

section \<open>Properties\<close>

abbreviation shard_reach ::
  "shard_codec \<Rightarrow> string \<Rightarrow> page_shard_manifest option \<Rightarrow>
   (mem_store, page_shard_manifest, shard_op) rmw_world \<Rightarrow> bool" where
  "shard_reach c \<equiv> worker_reach c mem_ops mem_view mem_used mem_ok"

text \<open>An operation of a run is in force at its end.\<close>

definition in_force :: "shard_op list \<Rightarrow> page_shard_manifest option \<Rightarrow> shard_op \<Rightarrow> bool" where
  "in_force log cur op \<longleftrightarrow>
     (\<exists>m. cur = Some m \<and> op_lsn op \<le> ps_disk_consistent_lsn m \<and> horizon_ge m (op_horizon op) \<and>
        (\<forall>e \<in> set (op_adds op). (\<forall>op' \<in> set log. le_name e \<notin> retired op') \<longrightarrow> le_name e \<in> set (entry_names m)))"

lemma serial_listed:
  assumes "serial shard_apply shard_writes init log cur" "op \<in> set log"
    and "e \<in> set (op_adds op)" "\<forall>op' \<in> set log. le_name e \<notin> retired op'"
  shows "\<exists>m. cur = Some m \<and> le_name e \<in> set (entry_names m)"
  using assms(1,2,4)
proof induction
  case none
  then show ?case by simp
next
  case (one log cur op')
  show ?case
  proof (cases "op \<in> set log")
    case True
    with one have "\<exists>m. cur = Some m \<and> le_name e \<in> set (entry_names m)" by simp
    from listed_keeps [OF this] one.prems show ?thesis by simp
  next
    case False
    with one.prems have "op = op'" by simp
    with op_adds_listed [OF assms(3)] show ?thesis by simp
  qed
next
  case (same log m op')
  moreover have "op_adds op' = []" using same.hyps(2) by (cases op') auto
  ultimately show ?case using assms(3) by (cases "op = op'") auto
qed

lemma serial_in_force:
  assumes "serial shard_apply shard_writes init log cur" "op \<in> set log"
  shows "in_force log cur op"
proof -
  have still: "\<not> shard_writes op (Some m) \<Longrightarrow> op_lsn op \<le> ps_disk_consistent_lsn m \<and> horizon_ge m (op_horizon op)" for m
    by (cases op) (auto simp: horizon_ge_def not_less)
  have "\<exists>m. cur = Some m \<and> op_lsn op \<le> ps_disk_consistent_lsn m"
    by (rule serial_established [OF assms, where P = "\<lambda>x. \<exists>m. x = Some m \<and> op_lsn op \<le> ps_disk_consistent_lsn m"])
      (use op_lsn_reached lsn_keeps still in auto)
  moreover have "\<exists>m. cur = Some m \<and> horizon_ge m (op_horizon op)"
    by (rule serial_established [OF assms, where P = "\<lambda>x. \<exists>m. x = Some m \<and> horizon_ge m (op_horizon op)"])
      (use op_horizon_reached horizon_keeps still in auto)
  ultimately show ?thesis
    using serial_listed [OF assms] by (auto simp: in_force_def)
qed

text \<open>C18. Any number of workers on one shard run the bodies of the flush, advance and compaction loops on
  what they loaded, at any time after the load and in any interleaving. The manifest in the store is then what some
  serial run of these operations makes, in which every acknowledged one has its place in the order of the
  acknowledgements; an advance of a manifest that is already there writes nothing and is acknowledged all the same. So no layer
  is listed twice, no acknowledged flush loses its layer unless a compaction of the run retires it, and
  neither the point the shard is consistent through nor its horizon ever falls behind an acknowledged
  operation. An advance that finds no manifest returns nothing and promises nothing.\<close>

theorem shard_manifest_serializes:
  assumes "shard_reach c key init w" "shard_codec_faithful c"
    and "\<forall>m. init = Some m \<longrightarrow> distinct (entry_names m)"
  shows "\<exists>log cur. map_option fst (mem_view (rw_store w) key) = map_option (psm_encode c) cur \<and>
    serial shard_apply shard_writes init log cur \<and> subseq (rw_acked w) log \<and>
    (\<forall>m. cur = Some m \<longrightarrow> distinct (entry_names m)) \<and>
    (\<forall>op \<in> set (rw_acked w). \<exists>m. cur = Some m \<and> op_lsn op \<le> ps_disk_consistent_lsn m \<and>
       horizon_ge m (op_horizon op) \<and>
       (\<forall>e \<in> set (op_adds op). (\<forall>op' \<in> set log. le_name e \<notin> retired op') \<longrightarrow> le_name e \<in> set (entry_names m)))"
proof -
  have "rmw_reach (psm_encode c) shard_apply shard_writes mem_ops mem_view mem_used mem_ok key init w"
    using mem.workers_are_rmw [OF assms(1,2)] by blast
  then obtain log cur where view: "map_option fst (mem_view (rw_store w) key) = map_option (psm_encode c) cur"
    and run: "serial shard_apply shard_writes init log cur" and sub: "subseq (rw_acked w) log"
    by (rule mem.rmw_serial [OF _ shard_codec_inj [OF assms(2)] shard_settled])
  have "\<forall>m. cur = Some m \<longrightarrow> distinct (entry_names m)"
    by (rule serial_invariant [OF run, where P = "\<lambda>x. \<forall>m. x = Some m \<longrightarrow> distinct (entry_names m)"])
      (use assms(3) names_distinct_keeps in auto)
  moreover have "in_force log cur op" if "op \<in> set (rw_acked w)" for op
  proof -
    have "op \<in> set log" by (rule list_emb_set [OF sub that]) simp
    with run show ?thesis by (rule serial_in_force)
  qed
  ultimately show ?thesis using view run sub unfolding in_force_def by blast
qed

lemma sample_shard_world:
  obtains w where "shard_reach sample_shard_codec ''k'' None w" "rw_acked w = [Publish 3 sample_entry 7]"
proof -
  let ?c = sample_shard_codec and ?op = "Publish 3 sample_entry 7"
  let ?w0 = "\<lparr>rw_store = mem_new, rw_reads = {}, rw_acked = []\<rparr>
    :: (mem_store, page_shard_manifest, shard_op) rmw_world"
  let ?w1 = "?w0\<lparr>rw_store := mem_new, rw_reads := insert None (rw_reads ?w0)\<rparr>"
  let ?d = "psm_encode ?c (publish_merge 3 sample_entry 7 None)"
  let ?s = "\<lparr>ms_objects = [(''k'', ?d, version_of 1)], ms_counter = 1\<rparr>"
  have p: "mem_put_if_match ''k'' ?d None mem_new = (Ok (version_of 1), ?s)"
    by (simp add: mem_put_if_match_def mem_new_def bt_get_def Let_def)
  have r0: "shard_reach ?c ''k'' None ?w0"
    using mem_ok_new by (rule worker_reach.start) (simp add: mem_view_def mem_new_def bt_get_def)
  have s1: "worker_step ?c mem_ops mem_view mem_used ''k'' ?w0 ?w1"
    by (rule worker_step.load) (simp add: psm_load_def mem_ops_def mem_get_def mem_new_def bt_get_def)
  have r1: "shard_reach ?c ''k'' None ?w1"
    using worker_reach.step [OF r0 s1] by (simp add: mem_ok_new)
  have "publish_body ?c mem_ops ''k'' 3 sample_entry 7 None mem_new =
      (Some (Ok (publish_merge 3 sample_entry 7 None)), ?s)"
    using p by (simp add: publish_body_def psm_swap_def mem_ops_def Let_def)
  then have s2: "worker_step ?c mem_ops mem_view mem_used ''k'' ?w1
      (?w1\<lparr>rw_store := ?s, rw_acked := returned (Some (Ok (publish_merge 3 sample_entry 7 None))) ?op (rw_acked ?w1)\<rparr>)"
    by (intro worker_step.publish [of None]) simp_all
  have "mem_ok ?s" using mem_ok_put [OF mem_ok_new p] by simp
  with worker_reach.step [OF r1 s2]
  have "shard_reach ?c ''k'' None (?w1\<lparr>rw_store := ?s, rw_acked := [?op]\<rparr>)" by (simp add: returned_def)
  from that [OF this] show thesis by simp
qed

theorem shard_manifest_serializes_witness:
  "\<exists>(w :: (mem_store, page_shard_manifest, shard_op) rmw_world) cur m. rw_acked w = [Publish 3 sample_entry 7] \<and>
     map_option fst (mem_view (rw_store w) ''k'') = map_option (psm_encode sample_shard_codec) cur \<and>
     cur = Some m \<and> 7 \<le> ps_disk_consistent_lsn m"
proof -
  obtain w where w: "shard_reach sample_shard_codec ''k'' None w" "rw_acked w = [Publish 3 sample_entry 7]"
    by (rule sample_shard_world)
  from shard_manifest_serializes [OF w(1) sample_shard_codec_faithful]
  obtain cur where "map_option fst (mem_view (rw_store w) ''k'') = map_option (psm_encode sample_shard_codec) cur"
    "\<exists>m. cur = Some m \<and> 7 \<le> ps_disk_consistent_lsn m"
    using w(2) by auto
  with w(2) show ?thesis by (metis (no_types))
qed

text \<open>A flush or a compaction that is run again after a crash changes nothing: its merge of its
  own result is that result, provided the compaction does not retire what it adds.\<close>

lemma shard_merges_idempotent:
  assumes "set retire \<inter> le_name ` set add = {}"
  shows "publish_merge shard e lsn (Some (publish_merge shard e lsn cur)) = publish_merge shard e lsn cur \<and>
    swap_merge shard retire add claim horizon (Some (swap_merge shard retire add claim horizon cur)) =
      swap_merge shard retire add claim horizon cur"
proof
  show "publish_merge shard e lsn (Some (publish_merge shard e lsn cur)) = publish_merge shard e lsn cur"
    by (simp add: publish_merge_def Let_def or_new_def push_entry_alt)
  let ?m = "swap_merge shard retire add claim horizon cur"
  have names: "le_name ` set (ps_layers ?m) =
      le_name ` set (filter (\<lambda>l. le_name l \<notin> set retire) (ps_layers (or_new shard cur))) \<union> le_name ` set add"
    by (simp add: swap_merge_fields push_entries_names)
  have "le_name l \<notin> set retire" if "l \<in> set (ps_layers ?m)" for l
  proof -
    have "le_name l \<in> le_name ` set (ps_layers ?m)" using that by simp
    then show ?thesis unfolding names using assms by auto
  qed
  then have keep: "filter (\<lambda>l. le_name l \<notin> set retire) (ps_layers ?m) = ps_layers ?m"
    by (simp add: filter_id_conv)
  have "foldl push_entry (ps_layers ?m) add = ps_layers ?m"
    by (rule push_entries_known) (use names in auto)
  with keep show "swap_merge shard retire add claim horizon (Some ?m) = ?m"
    by (intro page_shard_manifest.equality)
      (auto simp: swap_merge_fields(2)[of _ _ _ _ _ "Some ?m"] or_new_def swap_merge_fields(1,3-)
        swap_merge_def Let_def split: option.splits)
qed

end
