(* ===== verification/Shard_Split.thy ===== *)
theory Shard_Split
  imports Page_Shard_Manifest Wal_Frame Tenant_Layout
begin

text \<open>
  The page shard function and the splits and merges that only touch metadata
  (crates/zou-store/src/shards.rs). A resize is one compare-and-swap of the tenant
  manifest; the lineage it appends to says which shards' manifests a shard has to
  consult afterwards. The wall clock is a parameter; the log line of a failed history
  snapshot is left out.
\<close>

definition MAX_PAGE_SHARDS :: u32 where
  "MAX_PAGE_SHARDS = 4096"

datatype shard_error =
  NoTenant string | AtCeiling | AtFloor
| SplitManifest manifest_error | SplitShard page_shard_error | SplitStore cas_error

definition shard_of :: "externals \<Rightarrow> layer_key \<Rightarrow> u32 \<Rightarrow> u16" where
  "shard_of ext key n =
     ucast (page_shard ext \<lparr>br_relfilenode = lk_rel key, br_fork = lk_fork key, br_block = lk_block key\<rparr> n)"

section \<open>Floors\<close>

definition resume_floor :: "manifest \<Rightarrow> lsn option \<Rightarrow> lsn" where
  "resume_floor m own =
     (case own of
        Some l \<Rightarrow> l
      | None \<Rightarrow> if mf_shard_history m = [] then 0 else sc_at (last (mf_shard_history m)))"

definition all_shards :: "manifest \<Rightarrow> u16 list" where
  "all_shards m = map of_nat [0..<unat (ucast (mf_shards m) :: u16)]"

definition load_shard ::
  "shard_codec \<Rightarrow> 's cas_store \<Rightarrow> tenant_layout \<Rightarrow> u16 \<Rightarrow> 's \<Rightarrow>
   (page_shard_manifest option, shard_error) outcome \<times> 's" where
  "load_shard sc st layout shard s =
     (case psm_load sc st (shard_manifest_key layout shard) s of
        (r, s) \<Rightarrow> (obind (map_err SplitShard r) (\<lambda>x. Ok (map_option fst x)), s))"

fun era_floor_loop ::
  "shard_codec \<Rightarrow> 's cas_store \<Rightarrow> tenant_layout \<Rightarrow> manifest \<Rightarrow> u16 list \<Rightarrow> lsn option \<Rightarrow> 's \<Rightarrow>
   (lsn option, shard_error) outcome \<times> 's" where
  "era_floor_loop sc st layout m [] floor s = (Ok floor, s)"
| "era_floor_loop sc st layout m (shard # shards) floor s =
     (case load_shard sc st layout shard s of
        (Ok x, s) \<Rightarrow>
          let f = resume_floor m (map_option ps_disk_consistent_lsn x)
          in era_floor_loop sc st layout m shards
               (Some (case floor of None \<Rightarrow> f | Some lo \<Rightarrow> min lo f)) s
      | (Err e, s) \<Rightarrow> (Err e, s)
      | (Panic, s) \<Rightarrow> (Panic, s))"

definition era_floor ::
  "shard_codec \<Rightarrow> 's cas_store \<Rightarrow> tenant_layout \<Rightarrow> manifest \<Rightarrow> 's \<Rightarrow> (lsn, shard_error) outcome \<times> 's" where
  "era_floor sc st layout m s =
     (case era_floor_loop sc st layout m (all_shards m) None s of
        (r, s) \<Rightarrow> (obind r (\<lambda>floor. Ok (case floor of Some l \<Rightarrow> l | None \<Rightarrow> 0)), s))"

section \<open>Resizing\<close>

definition resize_to :: "u32 \<Rightarrow> bool \<Rightarrow> (u32, shard_error) outcome" where
  "resize_to from grow =
     (if grow then (if from \<ge> MAX_PAGE_SHARDS then Err AtCeiling else Ok (from * 2))
      else (if from < 2 then Err AtFloor else Ok (from div 2)))"

definition resized :: "manifest \<Rightarrow> u32 \<Rightarrow> lsn \<Rightarrow> u64 \<Rightarrow> manifest" where
  "resized m to at unix =
     m\<lparr>mf_shard_history := mf_shard_history m @
         [\<lparr>sc_from = mf_shards m, sc_to = to, sc_at = at, sc_unix = unix\<rparr>],
       mf_shards := to, mf_format := max (mf_format m) 3, mf_published_unix := Some unix\<rparr>"

text \<open>The write of a resize: the swap, then the best effort history snapshot.\<close>

definition resize_put ::
  "manifest_codec \<Rightarrow> 's cas_store \<Rightarrow> tenant_layout \<Rightarrow> manifest \<Rightarrow> version \<Rightarrow> u64 \<Rightarrow> 's \<Rightarrow>
   (manifest, shard_error) outcome option \<times> 's" where
  "resize_put c st layout m expected unix s =
     (case cs_put_if_match st (layout_manifest layout) (to_json c m) (Some expected) s of
        (Ok _, s) \<Rightarrow>
          (case put_if_absent st (manifest_history layout (mf_epoch m) unix)
                  (to_json c (m\<lparr>mf_lease := None\<rparr>)) s of
             (Panic, s) \<Rightarrow> (Some Panic, s)
           | (_, s) \<Rightarrow> (Some (Ok m), s))
      | (Err (Conflict _), s) \<Rightarrow> (None, s)
      | (Err e, s) \<Rightarrow> (Some (Err (SplitStore e)), s)
      | (Panic, s) \<Rightarrow> (Some Panic, s))"

definition read_tenant ::
  "manifest_codec \<Rightarrow> 's cas_store \<Rightarrow> tenant_layout \<Rightarrow> 's \<Rightarrow>
   (manifest \<times> version, shard_error) outcome \<times> 's" where
  "read_tenant c st layout s =
     (case cs_get st (layout_manifest layout) s of
        (Ok None, s) \<Rightarrow> (Err (NoTenant (layout_manifest layout)), s)
      | (Ok (Some (data, version)), s) \<Rightarrow>
          (obind (map_err SplitManifest (from_json c data)) (\<lambda>m. Ok (m, version)), s)
      | (Err e, s) \<Rightarrow> (Err (SplitStore e), s)
      | (Panic, s) \<Rightarrow> (Panic, s))"

definition change_attempt ::
  "manifest_codec \<Rightarrow> shard_codec \<Rightarrow> 's cas_store \<Rightarrow> ('s \<Rightarrow> u64 \<times> 's) \<Rightarrow> tenant_layout \<Rightarrow> bool \<Rightarrow> 's \<Rightarrow>
   (manifest, shard_error) outcome option \<times> 's" where
  "change_attempt c sc st now layout grow s =
     (case read_tenant c st layout s of
        (Ok (m, version), s) \<Rightarrow>
          (case resize_to (mf_shards m) grow of
             Ok to \<Rightarrow>
               (case era_floor sc st layout m s of
                  (Ok at, s) \<Rightarrow>
                    (case now s of (unix, s) \<Rightarrow> resize_put c st layout (resized m to at unix) version unix s)
                | (Err e, s) \<Rightarrow> (Some (Err e), s)
                | (Panic, s) \<Rightarrow> (Some Panic, s))
           | Err e \<Rightarrow> (Some (Err e), s)
           | Panic \<Rightarrow> (Some Panic, s))
      | (Err e, s) \<Rightarrow> (Some (Err e), s)
      | (Panic, s) \<Rightarrow> (Some Panic, s))"

definition change ::
  "manifest_codec \<Rightarrow> shard_codec \<Rightarrow> 's cas_store \<Rightarrow> ('s \<Rightarrow> u64 \<times> 's) \<Rightarrow> string \<Rightarrow> bool \<Rightarrow> 's \<Rightarrow>
   ((manifest, shard_error) outcome \<times> 's) option" where
  "change c sc st now tenant_ref grow =
     retry_loop (change_attempt c sc st now (layout_new tenant_ref) grow)"

definition split ::
  "manifest_codec \<Rightarrow> shard_codec \<Rightarrow> 's cas_store \<Rightarrow> ('s \<Rightarrow> u64 \<times> 's) \<Rightarrow> string \<Rightarrow> 's \<Rightarrow>
   ((manifest, shard_error) outcome \<times> 's) option" where
  "split c sc st now tenant_ref = change c sc st now tenant_ref True"

definition merge_shards ::
  "manifest_codec \<Rightarrow> shard_codec \<Rightarrow> 's cas_store \<Rightarrow> ('s \<Rightarrow> u64 \<times> 's) \<Rightarrow> string \<Rightarrow> 's \<Rightarrow>
   ((manifest, shard_error) outcome \<times> 's) option" where
  "merge_shards c sc st now tenant_ref = change c sc st now tenant_ref False"

section \<open>Serving\<close>

text \<open>The shards of one era. A count whose low 16 bits are zero makes the remainder panic.\<close>

definition era_shards :: "u16 \<Rightarrow> u32 \<Rightarrow> u32 \<Rightarrow> (u16 list, shard_error) outcome" where
  "era_shards shard n m =
     (if m \<le> n then (if (ucast m :: u16) = 0 then Panic else Ok [shard mod ucast m])
      else if n = 0 then Panic
      else Ok (map (\<lambda>i. shard + ucast (of_nat i * n)) [0..<unat (m div n)]))"

text \<open>The two ordered sets as sorted distinct lists.\<close>

definition era_counts :: "u32 \<Rightarrow> shard_change list \<Rightarrow> u32 list" where
  "era_counts n history =
     insort_insert n (fold insort_insert (concat (map (\<lambda>c. [sc_from c, sc_to c]) history)) [])"

fun serving_loop :: "u16 \<Rightarrow> u32 \<Rightarrow> u32 list \<Rightarrow> u16 list \<Rightarrow> (u16 list, shard_error) outcome" where
  "serving_loop shard n [] out = Ok out"
| "serving_loop shard n (m # ms) out =
     obind (era_shards shard n m) (\<lambda>xs. serving_loop shard n ms (fold insort_insert xs out))"

definition serving_shards :: "u16 \<Rightarrow> u32 \<Rightarrow> shard_change list \<Rightarrow> (u16 list, shard_error) outcome" where
  "serving_shards shard n history = serving_loop shard n (era_counts n history) []"

definition layers_of ::
  "page_shard_manifest \<Rightarrow> (layer_desc list, shard_error) outcome" where
  "layers_of m = map_err (SplitShard \<circ> ShardName) (entry_descs (ps_layers m))"

fun serving_descs_loop ::
  "shard_codec \<Rightarrow> 's cas_store \<Rightarrow> tenant_layout \<Rightarrow> u16 \<Rightarrow> u16 list \<Rightarrow> layer_desc list \<Rightarrow> lsn option \<Rightarrow> 's \<Rightarrow>
   (layer_desc list \<times> lsn option, shard_error) outcome \<times> 's" where
  "serving_descs_loop sc st layout shard [] descs own s = (Ok (descs, own), s)"
| "serving_descs_loop sc st layout shard (x # xs) descs own s =
     (case load_shard sc st layout x s of
        (Ok None, s) \<Rightarrow> serving_descs_loop sc st layout shard xs descs own s
      | (Ok (Some m), s) \<Rightarrow>
          let own = (if x = shard then Some (ps_disk_consistent_lsn m) else own)
          in (case layers_of m of
                Ok ds \<Rightarrow>
                  serving_descs_loop sc st layout shard xs
                    (descs @ map (\<lambda>d. if x \<noteq> shard then d\<lparr>ld_home := Some x\<rparr> else d) ds) own s
              | Err e \<Rightarrow> (Err e, s)
              | Panic \<Rightarrow> (Panic, s))
      | (Err e, s) \<Rightarrow> (Err e, s)
      | (Panic, s) \<Rightarrow> (Panic, s))"

definition self_covered :: "page_shard_manifest option \<Rightarrow> u32 \<Rightarrow> bool" where
  "self_covered x n =
     (case x of None \<Rightarrow> False | Some m \<Rightarrow> (case ps_covers m of None \<Rightarrow> False | Some k \<Rightarrow> k \<le> n))"

definition load_serving_descs ::
  "shard_codec \<Rightarrow> 's cas_store \<Rightarrow> string \<Rightarrow> manifest \<Rightarrow> u16 \<Rightarrow> 's \<Rightarrow>
   (layer_desc list \<times> lsn, shard_error) outcome \<times> 's" where
  "load_serving_descs sc st tenant_ref manifest shard s =
     (let layout = layout_new tenant_ref
      in case load_shard sc st layout shard s of
           (Ok x, s) \<Rightarrow>
             if self_covered x (mf_shards manifest)
             then (obind (layers_of (the x)) (\<lambda>ds. Ok (ds, ps_disk_consistent_lsn (the x))), s)
             else
               (case serving_shards shard (mf_shards manifest) (mf_shard_history manifest) of
                  Ok xs \<Rightarrow>
                    (case serving_descs_loop sc st layout shard xs [] None s of
                       (r, s) \<Rightarrow> (obind r (\<lambda>(ds, own). Ok (ds, resume_floor manifest own)), s))
                | Err e \<Rightarrow> (Err e, s)
                | Panic \<Rightarrow> (Panic, s))
         | (Err e, s) \<Rightarrow> (Err e, s)
         | (Panic, s) \<Rightarrow> (Panic, s))"

section \<open>Pruning\<close>

fun all_covered ::
  "shard_codec \<Rightarrow> 's cas_store \<Rightarrow> tenant_layout \<Rightarrow> manifest \<Rightarrow> u16 list \<Rightarrow> 's \<Rightarrow>
   (bool, shard_error) outcome \<times> 's" where
  "all_covered sc st layout m [] s = (Ok True, s)"
| "all_covered sc st layout m (x # xs) s =
     (case load_shard sc st layout x s of
        (Ok y, s) \<Rightarrow> if self_covered y (mf_shards m) then all_covered sc st layout m xs s else (Ok False, s)
      | (Err e, s) \<Rightarrow> (Err e, s)
      | (Panic, s) \<Rightarrow> (Panic, s))"

definition prune_put ::
  "manifest_codec \<Rightarrow> 's cas_store \<Rightarrow> tenant_layout \<Rightarrow> manifest \<Rightarrow> version \<Rightarrow> 's \<Rightarrow>
   (bool, shard_error) outcome option \<times> 's" where
  "prune_put c st layout m expected s =
     (case cs_put_if_match st (layout_manifest layout) (to_json c m) (Some expected) s of
        (Ok _, s) \<Rightarrow> (Some (Ok True), s)
      | (Err (Conflict _), s) \<Rightarrow> (None, s)
      | (Err e, s) \<Rightarrow> (Some (Err (SplitStore e)), s)
      | (Panic, s) \<Rightarrow> (Some Panic, s))"

definition prune_attempt ::
  "manifest_codec \<Rightarrow> shard_codec \<Rightarrow> 's cas_store \<Rightarrow> tenant_layout \<Rightarrow> 's \<Rightarrow>
   (bool, shard_error) outcome option \<times> 's" where
  "prune_attempt c sc st layout s =
     (case read_tenant c st layout s of
        (Ok (m, version), s) \<Rightarrow>
          if mf_shard_history m = [] then (Some (Ok True), s)
          else
            (case all_covered sc st layout m (all_shards m) s of
               (Ok True, s) \<Rightarrow> prune_put c st layout (m\<lparr>mf_shard_history := []\<rparr>) version s
             | (Ok False, s) \<Rightarrow> (Some (Ok False), s)
             | (Err e, s) \<Rightarrow> (Some (Err e), s)
             | (Panic, s) \<Rightarrow> (Some Panic, s))
      | (Err e, s) \<Rightarrow> (Some (Err e), s)
      | (Panic, s) \<Rightarrow> (Some Panic, s))"

definition prune_lineage ::
  "manifest_codec \<Rightarrow> shard_codec \<Rightarrow> 's cas_store \<Rightarrow> string \<Rightarrow> 's \<Rightarrow>
   ((bool, shard_error) outcome \<times> 's) option" where
  "prune_lineage c sc st tenant_ref = retry_loop (prune_attempt c sc st (layout_new tenant_ref))"

end
