(* ===== verification/Shard_Lineage.thy ===== *)
theory Shard_Lineage
  imports Shard_Split Lease_Proofs Layer_Map_Proofs
begin

text \<open>
  Why splits and merges need not move data: with counts that are powers of two, the
  shards a key lived on in any past era are among those the lineage arithmetic names,
  so a reader of the key's shard loads every layer that can hold it. Resizes keep the
  counts powers of two, the lineage a chain and the floors below what every shard of
  the era has published.
\<close>

section \<open>Counts\<close>

definition count_ok :: "u32 \<Rightarrow> bool" where
  "count_ok n \<longleftrightarrow> (\<exists>k \<le> 12. n = 2 ^ k)"

lemma unat_ucast_down:
  "unat (w :: 'a::len word) < 2 ^ LENGTH('b) \<Longrightarrow> unat (ucast w :: 'b::len word) = unat w"
  by (simp add: unsigned_ucast_eq take_bit_nat_eq_self)

lemma unat_count: "k \<le> 12 \<Longrightarrow> unat (2 ^ k :: u32) = 2 ^ k" "k \<le> 12 \<Longrightarrow> (2 :: nat) ^ k \<le> 4096"
proof -
  assume k: "k \<le> 12"
  have "(2 :: nat) ^ k \<le> 2 ^ 12" using k by (intro power_increasing) auto
  then show le: "(2 :: nat) ^ k \<le> 4096" by simp
  then have "unat (of_nat (2 ^ k) :: u32) = 2 ^ k" by (intro unat_of_nat_small) simp
  then show "unat (2 ^ k :: u32) = 2 ^ k" by simp
qed

lemma count_ok_unat:
  assumes "count_ok n"
  obtains k where "k \<le> 12" "unat n = 2 ^ k" "unat n \<le> 4096"
  using assms unat_count by (auto simp: count_ok_def)

lemma count_ok_dvd:
  assumes "count_ok m" "count_ok n" "m \<le> n"
  shows "unat m dvd unat n"
proof -
  obtain j k where "unat m = 2 ^ j" "unat n = 2 ^ k"
    using count_ok_unat [OF assms(1)] count_ok_unat [OF assms(2)] by metis
  moreover from this assms(3) have "j \<le> k"
    by (simp add: word_le_nat_alt)
  ultimately show ?thesis by (simp add: le_imp_power_dvd)
qed

lemma count_ok_pos: "count_ok n \<Longrightarrow> 0 < unat n"
  by (auto elim!: count_ok_unat)

lemma count_ok_unat_ucast: "count_ok n \<Longrightarrow> unat (ucast n :: u16) = unat n"
  by (rule count_ok_unat) (auto simp: unat_ucast_down)

lemma unat_shard_of:
  assumes "count_ok n"
  shows "unat (shard_of ext key n) =
    unat (crc32c ext (to_le (lk_rel key) @ to_le (drop_bit 14 (lk_block key)))) mod unat n"
proof -
  let ?h = "crc32c ext (to_le (lk_rel key) @ to_le (drop_bit 14 (lk_block key)))"
  have "max n 1 = n"
    using count_ok_pos [OF assms] by (auto simp: max_def word_le_nat_alt word_unat_eq_iff)
  moreover have "unat ?h mod unat n < 2 ^ 16"
  proof -
    have "unat n \<le> 4096" using assms by (rule count_ok_unat)
    with mod_less_divisor [OF count_ok_pos [OF assms], of "unat ?h"] show ?thesis by simp
  qed
  ultimately show ?thesis
    by (simp add: shard_of_def page_shard_def unat_mod unat_ucast_down)
qed

section \<open>One era\<close>

lemma era_shards_complete:
  assumes "count_ok n" "count_ok m"
  shows "\<exists>xs. era_shards (shard_of ext key n) n m = Ok xs \<and> shard_of ext key m \<in> set xs"
proof (cases "m \<le> n")
  case True
  let ?h = "unat (crc32c ext (to_le (lk_rel key) @ to_le (drop_bit 14 (lk_block key))))"
  have um: "unat (ucast m :: u16) = unat m" by (rule count_ok_unat_ucast [OF assms(2)])
  then have "(ucast m :: u16) \<noteq> 0" using count_ok_pos [OF assms(2)] by (auto simp: unat_eq_zero)
  moreover have "unat (shard_of ext key n mod ucast m) = unat (shard_of ext key m)"
    by (simp add: unat_mod um unat_shard_of assms mod_mod_cancel [OF count_ok_dvd [OF assms(2,1) True]])
  then have "shard_of ext key m = shard_of ext key n mod ucast m" by (simp add: word_unat_eq_iff)
  ultimately show ?thesis using True by (simp add: era_shards_def)
next
  case False
  let ?h = "unat (crc32c ext (to_le (lk_rel key) @ to_le (drop_bit 14 (lk_block key))))"
  let ?N = "unat n" and ?M = "unat m"
  have dvd: "?N dvd ?M" using count_ok_dvd [OF assms] False by simp
  define i where "i = (?h mod ?M) div ?N"
  have M: "?M \<le> 4096" using count_ok_unat [OF assms(2)] by blast
  have lt: "?h mod ?M < ?M" using count_ok_pos [OF assms(2)] by simp
  then have i: "i < ?M div ?N"
    using dvd by (simp add: i_def less_mult_imp_div_less dvd_div_mult_self)
  have split: "?h mod ?N + i * ?N = ?h mod ?M"
    unfolding i_def mod_mod_cancel [OF dvd, symmetric, of ?h] by simp
  have part: "i * ?N \<le> ?h mod ?M" using split by linarith
  have "unat (of_nat i * n) = i * ?N"
  proof -
    from part have b: "i * ?N < 2 ^ 32" using lt M by simp
    have "i \<le> i * ?N" using count_ok_pos [OF assms(1)] by simp
    then have "i < 2 ^ 32" using b by linarith
    then have "unat (of_nat i :: u32) = i" by (simp add: unat_of_nat_small)
    with b show ?thesis by (simp add: unat_word_ariths)
  qed
  moreover have "i * ?N < 2 ^ 16" using part lt M by simp
  ultimately have "unat (ucast (of_nat i * n) :: u16) = i * ?N"
    by (simp add: unat_ucast_down)
  then have "unat (shard_of ext key n + ucast (of_nat i * n)) = ?h mod ?M"
    using split lt M by (simp add: unat_word_ariths unat_shard_of [OF assms(1)])
  then have "shard_of ext key m = shard_of ext key n + ucast (of_nat i * n)"
    by (simp add: word_unat_eq_iff unat_shard_of [OF assms(2)])
  moreover have "i < unat (m div n)" using i by (simp add: unat_div)
  moreover have "n \<noteq> 0" using count_ok_pos [OF assms(1)] by auto
  ultimately show ?thesis using False by (auto simp: era_shards_def)
qed

lemma era_shards_Ok:
  assumes "count_ok n" "count_ok m"
  shows "\<exists>xs. era_shards shard n m = Ok xs"
proof -
  have "(ucast m :: u16) \<noteq> 0"
    using count_ok_pos [OF assms(2)] count_ok_unat_ucast [OF assms(2)] by (auto simp: unat_eq_zero)
  moreover have "n \<noteq> 0" using count_ok_pos [OF assms(1)] by auto
  ultimately show ?thesis by (simp add: era_shards_def)
qed

section \<open>All eras\<close>

lemma insort_all:
  "set (fold insort_insert xs ys) = set xs \<union> set (ys :: 'a::linorder list)"
  "sorted ys \<Longrightarrow> distinct ys \<Longrightarrow> sorted (fold insort_insert xs ys) \<and> distinct (fold insort_insert xs ys)"
  by (induction xs arbitrary: ys) (auto simp: set_insort_insert sorted_insort_insert distinct_insort_insert)

lemma serving_loop_Ok:
  assumes "\<forall>m \<in> set ms. \<exists>xs. era_shards shard n m = Ok xs" "sorted out" "distinct out"
  shows "\<exists>xs. serving_loop shard n ms out = Ok xs \<and> sorted xs \<and> distinct xs \<and>
    set xs = set out \<union> (\<Union>m \<in> set ms. case era_shards shard n m of Ok ys \<Rightarrow> set ys | _ \<Rightarrow> {})"
  using assms
proof (induction ms arbitrary: out)
  case (Cons m ms)
  then obtain ys where ys: "era_shards shard n m = Ok ys" by auto
  have "sorted (fold insort_insert ys out)" "distinct (fold insort_insert ys out)"
    using insort_all(2) [OF Cons.prems(2,3), of ys] by auto
  with Cons.IH [of "fold insort_insert ys out"] Cons.prems(1) ys show ?case
    by (auto simp: insort_all(1))
qed simp

definition eras :: "u32 \<Rightarrow> shard_change list \<Rightarrow> u32 set" where
  "eras n history = insert n (\<Union>c \<in> set history. {sc_from c, sc_to c})"

lemma set_era_counts: "set (era_counts n history) = eras n history"
  by (auto simp: era_counts_def eras_def set_insort_insert insort_all(1))

lemma serving_shards_Ok:
  assumes "\<forall>m \<in> eras n history. count_ok m"
  shows "\<exists>xs. serving_shards shard n history = Ok xs \<and> sorted xs \<and> distinct xs \<and>
    set xs = (\<Union>m \<in> eras n history. case era_shards shard n m of Ok ys \<Rightarrow> set ys | _ \<Rightarrow> {})"
proof -
  have "count_ok n" using assms by (simp add: eras_def)
  then have "\<forall>m \<in> set (era_counts n history). \<exists>xs. era_shards shard n m = Ok xs"
    using era_shards_Ok assms by (auto simp: set_era_counts)
  from serving_loop_Ok [OF this, of "[]"] show ?thesis
    by (simp add: serving_shards_def set_era_counts)
qed

text \<open>Wherever a key's records lived, in the era of any count the tenant ever ran at, the
  lineage arithmetic of the key's current shard names that shard.\<close>

lemma serving_shards_complete:
  assumes "\<forall>m \<in> eras n history. count_ok m" "era \<in> eras n history"
  shows "\<exists>xs. serving_shards (shard_of ext key n) n history = Ok xs \<and> sorted xs \<and> distinct xs \<and>
    shard_of ext key era \<in> set xs \<and> shard_of ext key n \<in> set xs"
proof -
  obtain xs where xs: "serving_shards (shard_of ext key n) n history = Ok xs" "sorted xs" "distinct xs"
    "set xs = (\<Union>m \<in> eras n history. case era_shards (shard_of ext key n) n m of Ok ys \<Rightarrow> set ys | _ \<Rightarrow> {})"
    using serving_shards_Ok [OF assms(1)] by blast
  have n: "n \<in> eras n history" by (simp add: eras_def)
  have "shard_of ext key m \<in> set xs" if "m \<in> eras n history" for m
  proof -
    obtain ys where "era_shards (shard_of ext key n) n m = Ok ys" "shard_of ext key m \<in> set ys"
      using era_shards_complete [of n m ext key] assms(1) n \<open>m \<in> eras n history\<close> by blast
    with xs(4) that show ?thesis by force
  qed
  with xs assms(2) n show ?thesis by blast
qed

section \<open>Resizing\<close>

definition lineage_ok :: "manifest \<Rightarrow> bool" where
  "lineage_ok m \<longleftrightarrow>
     (\<forall>n \<in> eras (mf_shards m) (mf_shard_history m). count_ok n) \<and>
     successively (\<lambda>a b. sc_to a = sc_from b) (mf_shard_history m) \<and>
     (mf_shard_history m \<noteq> [] \<longrightarrow> sc_to (last (mf_shard_history m)) = mf_shards m)"

lemma resize_to_count:
  assumes "count_ok n" "resize_to n grow = Ok to"
  shows "count_ok to"
proof -
  obtain k where k: "k \<le> 12" "n = 2 ^ k" using assms(1) by (auto simp: count_ok_def)
  have u: "unat n = 2 ^ k" using k by (simp add: unat_count)
  show ?thesis
  proof (cases grow)
    case True
    with assms(2) have "n < 4096" and to: "to = n * 2"
      by (auto simp: resize_to_def MAX_PAGE_SHARDS_def not_le split: if_splits)
    then have "(2 :: nat) ^ k < 2 ^ 12" using u by (simp add: word_less_nat_alt)
    then have "k < 12" by (simp only: power_strict_increasing_iff [of "2 :: nat"])
    then show ?thesis
      unfolding count_ok_def using k(2) to by (intro exI [of _ "Suc k"]) simp
  next
    case False
    with assms(2) have "\<not> n < 2" and to: "to = n div 2" by (auto simp: resize_to_def split: if_splits)
    then have "k \<noteq> 0" using k(2) by (cases k) auto
    then obtain j where j: "k = Suc j" by (cases k) auto
    have "unat (n div 2) = 2 ^ j" using u j by (simp add: unat_div)
    moreover have "unat (2 ^ j :: u32) = 2 ^ j" using k(1) j by (simp add: unat_count)
    ultimately have "to = 2 ^ j" using to by (simp add: word_unat_eq_iff)
    then show ?thesis unfolding count_ok_def using k(1) j by (intro exI [of _ j]) simp
  qed
qed

lemma resized_lineage:
  assumes "lineage_ok m" "count_ok to"
  shows "lineage_ok (resized m to at unix)"
proof -
  have "\<forall>n \<in> eras (mf_shards (resized m to at unix)) (mf_shard_history (resized m to at unix)). count_ok n"
    using assms by (auto simp: lineage_ok_def resized_def eras_def)
  moreover have "successively (\<lambda>a b. sc_to a = sc_from b) (mf_shard_history (resized m to at unix))"
    using assms(1) by (auto simp: lineage_ok_def resized_def successively_append_iff)
  ultimately show ?thesis by (simp add: lineage_ok_def) (simp add: resized_def)
qed

text \<open>Every shard manifest of a tenant is absent or readable: \<open>cur\<close> says which.\<close>

definition shards_view ::
  "shard_codec \<Rightarrow> mem_store \<Rightarrow> tenant_layout \<Rightarrow> (u16 \<Rightarrow> (page_shard_manifest \<times> version) option) \<Rightarrow> bool" where
  "shards_view sc s layout cur \<longleftrightarrow> (\<forall>x. psm_view sc s (shard_manifest_key layout x) (cur x))"

lemma mem_load_shard:
  assumes "shards_view sc s layout cur" "shard_codec_faithful sc"
  shows "load_shard sc mem_ops layout x s = (Ok (map_option fst (cur x)), s)"
  using mem_psm_load [of sc s "shard_manifest_key layout x" "cur x"] assms
  by (simp add: load_shard_def shards_view_def)

abbreviation own_floor :: "manifest \<Rightarrow> (u16 \<Rightarrow> (page_shard_manifest \<times> version) option) \<Rightarrow> u16 \<Rightarrow> lsn" where
  "own_floor m cur x \<equiv> resume_floor m (map_option ps_disk_consistent_lsn (map_option fst (cur x)))"

lemma mem_era_floor_loop:
  assumes "shards_view sc s layout cur" "shard_codec_faithful sc"
  shows "\<exists>r. era_floor_loop sc mem_ops layout m xs lo s = (Ok r, s) \<and>
    (\<forall>x \<in> set xs. \<exists>f. r = Some f \<and> f \<le> own_floor m cur x) \<and>
    (\<forall>l. lo = Some l \<longrightarrow> (\<exists>f. r = Some f \<and> f \<le> l))"
proof (induction xs arbitrary: lo)
  case (Cons x xs)
  let ?f = "own_floor m cur x"
  let ?lo = "Some (case lo of None \<Rightarrow> ?f | Some l \<Rightarrow> min l ?f)"
  obtain r where r: "era_floor_loop sc mem_ops layout m xs ?lo s = (Ok r, s)"
    "\<forall>x \<in> set xs. \<exists>f. r = Some f \<and> f \<le> own_floor m cur x" "\<forall>l. ?lo = Some l \<longrightarrow> (\<exists>f. r = Some f \<and> f \<le> l)"
    using Cons.IH [of ?lo] by (elim exE conjE) (rule that)
  then obtain f where f: "r = Some f" "f \<le> (case lo of None \<Rightarrow> ?f | Some l \<Rightarrow> min l ?f)" by blast
  have "era_floor_loop sc mem_ops layout m (x # xs) lo s = (Ok r, s)"
    using r(1) by (simp add: mem_load_shard [OF assms])
  moreover have "f \<le> ?f" "\<forall>l. lo = Some l \<longrightarrow> f \<le> l" using f(2) by (cases lo; simp)+
  ultimately show ?case using r(2) f(1) by simp
qed simp

lemma mem_era_floor:
  assumes "shards_view sc s layout cur" "shard_codec_faithful sc"
  obtains at where "era_floor sc mem_ops layout m s = (Ok at, s)"
    "\<And>x. x \<in> set (all_shards m) \<Longrightarrow> at \<le> own_floor m cur x"
proof -
  obtain r where r: "era_floor_loop sc mem_ops layout m (all_shards m) None s = (Ok r, s)"
    "\<forall>x \<in> set (all_shards m). \<exists>f. r = Some f \<and> f \<le> own_floor m cur x"
    using mem_era_floor_loop [OF assms, of m "all_shards m" None] by (elim exE conjE) (rule that)
  show thesis
  proof (rule that)
    show "era_floor sc mem_ops layout m s = (Ok (case r of Some l \<Rightarrow> l | None \<Rightarrow> 0), s)"
      using r(1) by (simp add: era_floor_def)
    show "(case r of Some l \<Rightarrow> l | None \<Rightarrow> 0) \<le> own_floor m cur x" if "x \<in> set (all_shards m)" for x
      using r(2) that by fastforce
  qed
qed

lemma set_all_shards:
  assumes "count_ok (mf_shards m)"
  shows "set (all_shards m) = {x. unat x < unat (mf_shards m)}"
proof -
  have le: "unat (mf_shards m) \<le> 4096" using assms by (rule count_ok_unat)
  have "x \<in> of_nat ` {0..<unat (mf_shards m)}" if "unat x < unat (mf_shards m)" for x :: u16
    using that by (intro image_eqI [of _ _ "unat x"]) simp_all
  with le show ?thesis
    using count_ok_unat_ucast [OF assms] by (auto simp: all_shards_def unat_of_nat_small)
qed

lemma mem_read_tenant:
  assumes "mem_view s (layout_manifest layout) = Some (to_json c m, v)" "codec_faithful c"
    and "mf_format m \<le> MANIFEST_FORMAT"
  shows "read_tenant c mem_ops layout s = (Ok (m, v), s)"
  using assms by (simp add: read_tenant_def mem_ops_def mem_get_def mem_view_def from_to_json)

lemma mem_resize_put:
  assumes "mem_view s (layout_manifest layout) = Some (d, v)"
  obtains s' u where "resize_put c mem_ops layout m v unix s = (Some (Ok m), s')"
    "mem_view s' (layout_manifest layout) = Some (to_json c m, u)"
proof -
  obtain u s1 where sw: "swap c mem_ops (layout_manifest layout) m v s = (Ok u, s1)"
    "mem_view s1 = (mem_view s)(layout_manifest layout \<mapsto> (to_json c m, u))"
    by (rule mem_swap_current [OF assms, where c = c and m = m]) blast
  then have p: "cs_put_if_match mem_ops (layout_manifest layout) (to_json c m) (Some v) s = (Ok u, s1)"
    by (auto simp: swap_def split: prod.splits outcome.splits cas_error.splits)
  let ?k = "manifest_history layout (mf_epoch m) unix"
  obtain r s2 where h: "put_if_absent mem_ops ?k (to_json c (m\<lparr>mf_lease := None\<rparr>)) s1 = (r, s2)"
    "mem_view s1 ?k = None \<longrightarrow> (\<exists>w. r = Ok w \<and> mem_view s2 = (mem_view s1)(?k \<mapsto> (to_json c (m\<lparr>mf_lease := None\<rparr>), w)))"
    "mem_view s1 ?k \<noteq> None \<longrightarrow> r = Err (AlreadyExists ?k) \<and> s2 = s1"
    by (rule mem_put_absent [of ?k "to_json c (m\<lparr>mf_lease := None\<rparr>)" s1]) (rule that)
  have "r \<noteq> Panic" "mem_view s2 (layout_manifest layout) = Some (to_json c m, u)"
    using h(2,3) sw(2) history_is_not_manifest [of layout "mf_epoch m" unix]
    by (cases "mem_view s1 ?k", auto)
  with p h(1) show thesis
    by (intro that [of s2 u]) (auto simp: resize_put_def split: outcome.splits)
qed

text \<open>A resize refuses at the ceiling and at the floor and otherwise returns the manifest it
  published: the count doubled or halved, a power of two within bounds, the lineage still a chain
  that ends at the current count, and a floor that no shard of the era it closes is behind, so a
  shard the resize created misses no record.\<close>

lemma resize_outcome:
  assumes "mem_view s (layout_manifest (layout_new t)) = Some (to_json c m, v)" "codec_faithful c"
    and "mf_format m \<le> MANIFEST_FORMAT" "lineage_ok m"
    and "shards_view sc s (layout_new t) cur" "shard_codec_faithful sc"
  shows "case resize_to (mf_shards m) grow of
      Ok to \<Rightarrow> \<exists>at s' u. change c sc mem_ops (Pair unix) t grow s = Some (Ok (resized m to at unix), s') \<and>
        mem_view s' (layout_manifest (layout_new t)) = Some (to_json c (resized m to at unix), u) \<and>
        lineage_ok (resized m to at unix) \<and> mf_format (resized m to at unix) = 3 \<and>
        unat to = (if grow then 2 * unat (mf_shards m) else unat (mf_shards m) div 2) \<and>
        (\<forall>x. unat x < unat (mf_shards m) \<longrightarrow> at \<le> own_floor m cur x)
    | Err e \<Rightarrow> change c sc mem_ops (Pair unix) t grow s = Some (Err e, s) \<and>
        (if grow then e = AtCeiling \<and> mf_shards m = 4096 else e = AtFloor \<and> mf_shards m = 1)
    | Panic \<Rightarrow> False"
proof -
  let ?l = "layout_new t"
  have n: "count_ok (mf_shards m)" using assms(4) by (simp add: lineage_ok_def eras_def)
  note rd = mem_read_tenant [OF assms(1-3)]
  obtain k where k: "k \<le> 12" "mf_shards m = 2 ^ k" using n by (auto simp: count_ok_def)
  have un: "unat (mf_shards m) = 2 ^ k" "(2 :: nat) ^ k \<le> 4096" using k by (simp_all add: unat_count)
  show ?thesis
  proof (cases "resize_to (mf_shards m) grow")
    case (Ok to)
    obtain at where at: "era_floor sc mem_ops ?l m s = (Ok at, s)"
      "\<And>x. x \<in> set (all_shards m) \<Longrightarrow> at \<le> own_floor m cur x"
      by (rule mem_era_floor [OF assms(5,6)]) blast
    obtain s' u where p: "resize_put c mem_ops ?l (resized m to at unix) v unix s = (Some (Ok (resized m to at unix)), s')"
      "mem_view s' (layout_manifest ?l) = Some (to_json c (resized m to at unix), u)"
      by (rule mem_resize_put [OF assms(1)])
    have "change_attempt c sc mem_ops (Pair unix) ?l grow s = (Some (Ok (resized m to at unix)), s')"
      using rd Ok at(1) p(1) by (simp add: change_attempt_def)
    then have "change c sc mem_ops (Pair unix) t grow s = Some (Ok (resized m to at unix), s')"
      by (simp add: change_def retry_loop_done)
    moreover have "unat to = (if grow then 2 * unat (mf_shards m) else unat (mf_shards m) div 2)"
      using Ok un by (auto simp: resize_to_def unat_div unat_word_ariths split: if_splits)
    moreover have "mf_format (resized m to at unix) = 3"
      using assms(3) by (simp add: resized_def MANIFEST_FORMAT_def)
    ultimately show ?thesis
      using Ok p(2) resized_lineage [OF assms(4) resize_to_count [OF n Ok]] at(2) set_all_shards [OF n] by auto
  next
    case (Err e)
    then have "change_attempt c sc mem_ops (Pair unix) ?l grow s = (Some (Err e), s)"
      using rd by (simp add: change_attempt_def)
    then have "change c sc mem_ops (Pair unix) t grow s = Some (Err e, s)"
      by (simp add: change_def retry_loop_done)
    moreover have "if grow then e = AtCeiling \<and> mf_shards m = 4096 else e = AtFloor \<and> mf_shards m = 1"
    proof (cases grow)
      case True
      with Err have "4096 \<le> mf_shards m" "e = AtCeiling"
        by (auto simp: resize_to_def MAX_PAGE_SHARDS_def split: if_splits)
      then show ?thesis using un True by (simp add: word_le_nat_alt word_unat_eq_iff)
    next
      case False
      with Err have "mf_shards m < 2" "e = AtFloor" by (auto simp: resize_to_def split: if_splits)
      then have "unat (mf_shards m) = 1" using count_ok_pos [OF n] by (simp add: word_less_nat_alt)
      then show ?thesis using \<open>e = AtFloor\<close> False by (simp add: word_unat_eq_iff)
    qed
    ultimately show ?thesis using Err by simp
  next
    case Panic
    then show ?thesis by (auto simp: resize_to_def split: if_splits)
  qed
qed

lemma shard_key_is_not_manifest: "shard_manifest_key layout x \<noteq> layout_manifest layout"
  by (simp add: shard_manifest_key_def shard_prefix_def layout_manifest_def)

lemma fresh_shards: "shards_view sc (lw_store (fresh_world c layout)) layout (\<lambda>_. None)"
proof -
  obtain r s where p: "put_if_absent mem_ops (layout_manifest layout) (to_json c sample_manifest) mem_new = (r, s)"
    and v: "mem_view mem_new (layout_manifest layout) = None \<longrightarrow>
      (\<exists>v. r = Ok v \<and> mem_view s = (mem_view mem_new)(layout_manifest layout \<mapsto> (to_json c sample_manifest, v)))"
    by (rule mem_put_absent [of "layout_manifest layout" "to_json c sample_manifest" mem_new]) (rule that)
  have "mem_view mem_new k = None" for k by (simp add: mem_view_def mem_new_def bt_get_def)
  with v have "mem_view s (shard_manifest_key layout x) = None" for x
    using shard_key_is_not_manifest by auto
  with p show ?thesis by (simp add: shards_view_def psm_view_def fresh_world_def)
qed

section \<open>Loading what a shard serves\<close>

lemma mem_serving_loop:
  assumes "shards_view sc s layout cur" "shard_codec_faithful sc"
    and "\<forall>x m v. cur x = Some (m, v) \<longrightarrow> (\<exists>ds. layers_of m = Ok ds)"
  shows "\<exists>ds o'. serving_descs_loop sc mem_ops layout shard xs descs own s = (Ok (ds, o'), s) \<and>
    set descs \<subseteq> set ds \<and>
    (\<forall>x \<in> set xs. \<forall>m v es. cur x = Some (m, v) \<longrightarrow> layers_of m = Ok es \<longrightarrow>
       (\<forall>d \<in> set es. (if x \<noteq> shard then d\<lparr>ld_home := Some x\<rparr> else d) \<in> set ds))"
proof (induction xs arbitrary: descs own)
  case (Cons x xs)
  show ?case
  proof (cases "cur x")
    case None
    with Cons.IH [of descs own] show ?thesis by (simp add: mem_load_shard [OF assms(1,2)])
  next
    case (Some y)
    then obtain m v where y: "cur x = Some (m, v)" by (cases y) auto
    with assms(3) obtain es where es: "layers_of m = Ok es" by blast
    let ?f = "\<lambda>d. if x \<noteq> shard then d\<lparr>ld_home := Some x\<rparr> else d"
    obtain ds o' where ds: "serving_descs_loop sc mem_ops layout shard xs (descs @ map ?f es)
        (if x = shard then Some (ps_disk_consistent_lsn m) else own) s = (Ok (ds, o'), s)"
      "set (descs @ map ?f es) \<subseteq> set ds"
      "\<forall>x \<in> set xs. \<forall>m v es. cur x = Some (m, v) \<longrightarrow> layers_of m = Ok es \<longrightarrow>
       (\<forall>d \<in> set es. (if x \<noteq> shard then d\<lparr>ld_home := Some x\<rparr> else d) \<in> set ds)"
      using Cons.IH [of "descs @ map ?f es" "if x = shard then Some (ps_disk_consistent_lsn m) else own"]
      by (elim exE conjE) (rule that)
    have "serving_descs_loop sc mem_ops layout shard (x # xs) descs own s = (Ok (ds, o'), s)"
      using ds(1) by (simp add: mem_load_shard [OF assms(1,2)] y es Let_def cong: if_cong)
    moreover have "set descs \<subseteq> set ds" "?f d \<in> set ds" if "d \<in> set es" for d
      using ds(2) that by auto
    ultimately show ?thesis using ds(2,3) y es by (intro exI [of _ ds] exI [of _ o']) auto
  qed
qed simp

text \<open>A key served at a count was served, by the same shard, at every smaller count that shard existed at.\<close>

lemma coverage_narrows:
  assumes "count_ok n" "count_ok k" "k \<le> n" "unat shard < unat k" "shard_of ext key n = shard"
  shows "shard_of ext key k = shard"
proof -
  let ?h = "unat (crc32c ext (to_le (lk_rel key) @ to_le (drop_bit 14 (lk_block key))))"
  have "unat shard = ?h mod unat n" using unat_shard_of [OF assms(1), of ext key] assms(5) by simp
  then have "?h mod unat k = unat shard mod unat k"
    using mod_mod_cancel [OF count_ok_dvd [OF assms(2,1,3)], of ?h] by simp
  then show ?thesis
    using unat_shard_of [OF assms(2), of ext key] assms(4) by (simp add: word_unat_eq_iff)
qed

text \<open>What a manifest's claim of coverage is made of: a power of two the shard number is below.\<close>

definition claims_ok :: "u16 \<Rightarrow> (u16 \<Rightarrow> (page_shard_manifest \<times> version) option) \<Rightarrow> bool" where
  "claims_ok shard cur \<longleftrightarrow>
     (\<forall>p v k. cur shard = Some (p, v) \<longrightarrow> ps_covers p = Some k \<longrightarrow> count_ok k \<and> unat shard < unat k)"

lemma load_serving_covered:
  assumes "shards_view sc s (layout_new t) cur" "shard_codec_faithful sc"
    and "cur shard = Some (p, v)" "ps_covers p = Some k" "k \<le> mf_shards m" "layers_of p = Ok ds"
  shows "load_serving_descs sc mem_ops t m shard s = (Ok (ds, ps_disk_consistent_lsn p), s)"
  using assms(3-) by (simp add: load_serving_descs_def Let_def mem_load_shard [OF assms(1,2)] self_covered_def)

lemma load_serving_lineage:
  assumes "shards_view sc s (layout_new t) cur" "shard_codec_faithful sc" "lineage_ok m"
    and "\<forall>x p v. cur x = Some (p, v) \<longrightarrow> (\<exists>ds. layers_of p = Ok ds)"
    and "\<forall>p v k. cur shard = Some (p, v) \<longrightarrow> ps_covers p = Some k \<longrightarrow> mf_shards m < k"
  shows "\<exists>ds floor. load_serving_descs sc mem_ops t m shard s = (Ok (ds, floor), s) \<and>
    (\<forall>key era home p v es d. shard_of ext key (mf_shards m) = shard \<and>
       era \<in> eras (mf_shards m) (mf_shard_history m) \<and> home = shard_of ext key era \<and>
       cur home = Some (p, v) \<and> layers_of p = Ok es \<and> d \<in> set es \<longrightarrow>
       (if home \<noteq> shard then d\<lparr>ld_home := Some home\<rparr> else d) \<in> set ds)"
proof -
  have counts: "\<forall>n \<in> eras (mf_shards m) (mf_shard_history m). count_ok n" using assms(3) by (simp add: lineage_ok_def)
  then obtain xs where xs: "serving_shards shard (mf_shards m) (mf_shard_history m) = Ok xs"
    using serving_shards_Ok by blast
  obtain ds o' where ds: "serving_descs_loop sc mem_ops (layout_new t) shard xs [] None s = (Ok (ds, o'), s)"
    "\<forall>x \<in> set xs. \<forall>m v es. cur x = Some (m, v) \<longrightarrow> layers_of m = Ok es \<longrightarrow>
       (\<forall>d \<in> set es. (if x \<noteq> shard then d\<lparr>ld_home := Some x\<rparr> else d) \<in> set ds)"
    using mem_serving_loop [OF assms(1,2,4), where shard = shard and xs = xs and descs = "[]" and own = None]
    by (elim exE conjE) (rule that, assumption+)
  have "\<not> self_covered (map_option fst (cur shard)) (mf_shards m)"
    using assms(5) by (cases "cur shard") (auto simp: self_covered_def not_le split: option.splits)
  then have load: "load_serving_descs sc mem_ops t m shard s = (Ok (ds, resume_floor m o'), s)"
    using xs ds(1) by (simp add: load_serving_descs_def Let_def mem_load_shard [OF assms(1,2)])
  have home: "shard_of ext key era \<in> set xs"
    if "shard_of ext key (mf_shards m) = shard" "era \<in> eras (mf_shards m) (mf_shard_history m)" for key era
    using serving_shards_complete [OF counts that(2), of ext key] that(1) xs by auto
  have "(if home \<noteq> shard then d\<lparr>ld_home := Some home\<rparr> else d) \<in> set ds"
    if "shard_of ext key (mf_shards m) = shard \<and> era \<in> eras (mf_shards m) (mf_shard_history m) \<and>
      home = shard_of ext key era \<and> cur home = Some (p, v) \<and> layers_of p = Ok es \<and> d \<in> set es" for key era home p v es d
    using ds(2) home [of key era] that by blast
  with load show ?thesis by blast
qed

text \<open>C20. A reader of a shard gets every layer that can hold a key the shard serves. When the shard's own manifest
  says it covers a count that is at most the tenant's current one, the reader gets exactly the shard's own layers and
  its own consistent point, and every key the shard serves now is one it served at the covered count, so the
  claim is about it (a claim is for a power of two above the shard's number). In every other case, without a claim or
  with one for a larger count, each layer listed by a shard the key lived on in any era of the lineage is
  among the loaded descriptors, tagged with its home shard when that is another one.\<close>

theorem serving_layers_complete:
  assumes "shards_view sc s (layout_new t) cur" "shard_codec_faithful sc" "lineage_ok m"
    and "\<forall>x p v. cur x = Some (p, v) \<longrightarrow> (\<exists>ds. layers_of p = Ok ds)" "claims_ok shard cur"
  shows "\<exists>ds floor. load_serving_descs sc mem_ops t m shard s = (Ok (ds, floor), s) \<and>
    (\<forall>p v k. cur shard = Some (p, v) \<and> ps_covers p = Some k \<and> k \<le> mf_shards m \<longrightarrow>
       layers_of p = Ok ds \<and> floor = ps_disk_consistent_lsn p \<and>
       (\<forall>key. shard_of ext key (mf_shards m) = shard \<longrightarrow> shard_of ext key k = shard)) \<and>
    ((\<forall>p v k. cur shard = Some (p, v) \<and> ps_covers p = Some k \<longrightarrow> mf_shards m < k) \<longrightarrow>
       (\<forall>key era home p v es d. shard_of ext key (mf_shards m) = shard \<and>
          era \<in> eras (mf_shards m) (mf_shard_history m) \<and> home = shard_of ext key era \<and>
          cur home = Some (p, v) \<and> layers_of p = Ok es \<and> d \<in> set es \<longrightarrow>
          (if home \<noteq> shard then d\<lparr>ld_home := Some home\<rparr> else d) \<in> set ds))"
proof (cases "\<exists>p v k. cur shard = Some (p, v) \<and> ps_covers p = Some k \<and> k \<le> mf_shards m")
  case True
  then obtain p v k where c: "cur shard = Some (p, v)" "ps_covers p = Some k" "k \<le> mf_shards m" by blast
  with assms(4) obtain ds where ds: "layers_of p = Ok ds" by blast
  have "count_ok (mf_shards m)" using assms(3) by (simp add: lineage_ok_def eras_def)
  then have "shard_of ext key (mf_shards m) = shard \<Longrightarrow> shard_of ext key k = shard" for key
    using coverage_narrows [of "mf_shards m" k shard ext key] c assms(5) by (simp add: claims_ok_def)
  with c ds load_serving_covered [OF assms(1,2) c ds] show ?thesis by auto
next
  case False
  then have "\<forall>p v k. cur shard = Some (p, v) \<longrightarrow> ps_covers p = Some k \<longrightarrow> mf_shards m < k"
    by (meson not_le)
  from load_serving_lineage [OF assms(1-4) this, of ext]
  obtain ds floor where load: "load_serving_descs sc mem_ops t m shard s = (Ok (ds, floor), s)"
    and all: "\<forall>key era home p v es d. shard_of ext key (mf_shards m) = shard \<and>
       era \<in> eras (mf_shards m) (mf_shard_history m) \<and> home = shard_of ext key era \<and>
       cur home = Some (p, v) \<and> layers_of p = Ok es \<and> d \<in> set es \<longrightarrow>
       (if home \<noteq> shard then d\<lparr>ld_home := Some home\<rparr> else d) \<in> set ds"
    by (elim exE conjE) (rule that)
  show ?thesis
  proof (intro exI conjI)
    show "load_serving_descs sc mem_ops t m shard s = (Ok (ds, floor), s)" by (rule load)
    show "\<forall>p v k. cur shard = Some (p, v) \<and> ps_covers p = Some k \<and> k \<le> mf_shards m \<longrightarrow>
       layers_of p = Ok ds \<and> floor = ps_disk_consistent_lsn p \<and>
       (\<forall>key. shard_of ext key (mf_shards m) = shard \<longrightarrow> shard_of ext key k = shard)"
      using False by blast
  qed (use all in \<open>rule impI\<close>)
qed

text \<open>A tenant split once, whose only layer is still shard zero's from before the split.\<close>

theorem serving_layers_complete_witness:
  "\<exists>s ds floor d. load_serving_descs sample_shard_codec mem_ops ''t1'' (resized sample_manifest 2 0 9)
      (shard_of sample_ext (LayerKey 0 1 2 3 0 5) 2) s = (Ok (ds, floor), s) \<and> d \<in> set ds"
proof -
  let ?c = sample_shard_codec and ?l = "layout_new ''t1''" and ?key = "LayerKey 0 1 2 3 0 5"
  let ?m = "resized sample_manifest 2 0 9" and ?home = "shard_of sample_ext ?key 1"
  let ?d = "desc_image (key_page 1 1 7 0 2) (key_page 1 1 7 0 5) 0x20" and ?shard = "shard_of sample_ext ?key 2"
  define p where "p = (psm_new 0)\<lparr>ps_layers := [\<lparr>le_name = layer_name ?d, le_size = 0, le_owner = None, le_upto = None\<rparr>]\<rparr>"
  let ?k = "shard_manifest_key ?l ?home"
  define s where "s = \<lparr>ms_objects = [(?k, psm_encode ?c p, version_of 1)], ms_counter = 1\<rparr>"
  define cur where "cur = (\<lambda>x. if shard_manifest_key ?l x = ?k then Some (p, version_of 1) else None)"
  have m: "mf_shards sample_manifest = 1" "mf_shard_history sample_manifest = []"
    by (simp_all add: sample_manifest_def manifest_new_def)
  have c: "count_ok 1" "count_ok 2"
    unfolding count_ok_def by (rule exI [of _ 0], simp, rule exI [of _ 1], simp)
  have lin: "lineage_ok ?m"
    using m c by (intro resized_lineage) (simp_all add: lineage_ok_def eras_def)
  have view: "shards_view ?c s ?l cur"
    by (auto simp: shards_view_def psm_view_def mem_view_def s_def cur_def bt_get_def p_def psm_new_def
        PAGE_SHARD_FORMAT_def)
  have "layer_parse (layer_name ?d) 0 = Ok ?d"
    using layer_parse_name [of ?d] by (simp add: plain_desc_def desc_image_def)
  then have es: "layers_of p = Ok [?d]"
    by (simp add: layers_of_def p_def psm_new_def entry_desc_def) (simp add: desc_image_def)
  have none: "ps_covers q = None" if "cur x = Some (q, v)" for x q v
    using that by (auto simp: cur_def p_def psm_new_def split: if_splits)
  then have claims: "claims_ok ?shard cur" by (auto simp: claims_ok_def)
  have e: "mf_shards ?m = 2" "1 \<in> eras (mf_shards ?m) (mf_shard_history ?m)"
    using m by (simp_all add: eras_def resized_def)
  have all: "\<forall>x q v. cur x = Some (q, v) \<longrightarrow> (\<exists>ds. layers_of q = Ok ds)"
    using es by (auto simp: cur_def split: if_splits)
  have home: "cur ?home = Some (p, version_of 1)" by (simp add: cur_def)
  from serving_layers_complete [OF view sample_shard_codec_faithful lin all claims, of sample_ext]
  obtain ds floor where load: "load_serving_descs ?c mem_ops ''t1'' ?m ?shard s = (Ok (ds, floor), s)"
    and lineage: "(\<forall>p v k. cur ?shard = Some (p, v) \<and> ps_covers p = Some k \<longrightarrow> mf_shards ?m < k) \<longrightarrow>
       (\<forall>key era home p v es d. shard_of sample_ext key (mf_shards ?m) = ?shard \<and>
          era \<in> eras (mf_shards ?m) (mf_shard_history ?m) \<and> home = shard_of sample_ext key era \<and>
          cur home = Some (p, v) \<and> layers_of p = Ok es \<and> d \<in> set es \<longrightarrow>
          (if home \<noteq> ?shard then d\<lparr>ld_home := Some home\<rparr> else d) \<in> set ds)"
    by (elim exE conjE) (rule that, assumption+)
  have "(if ?home \<noteq> ?shard then ?d\<lparr>ld_home := Some ?home\<rparr> else ?d) \<in> set ds"
    by (rule lineage [rule_format, where key = ?key and era = 1 and p = p and v = "version_of 1" and es = "[?d]"])
      (use none e home es in auto)
  with load show ?thesis by blast
qed

end
