(* ===== verification/Block_Cache.thy ===== *)
theory Block_Cache
  imports Cas_Store "HOL-Library.Product_Lexorder"
begin

text \<open>
  The block cache of the read path (crates/zou-store/src/pageread.rs): block bytes by
  layer name and offset, under a byte budget, evicting the least recently used. The
  hash map is an ordered association list; its order shows only in the order of
  equal stamps in an eviction. The locale \<open>cache\<close> is what the reader relies on: a
  lookup answers what is stored, and storing may forget but never invents.
\<close>

record cached =
  ca_bytes :: bytes
  ca_used :: u64

type_synonym block_key = "string \<times> u64"

record block_cache =
  bc_blocks :: "(block_key, cached) btree"
  bc_bytes :: nat
  bc_budget :: nat
  bc_clock :: u64

definition BLOCK_CACHE_BYTES :: nat where
  "BLOCK_CACHE_BYTES = 64 * 1024 * 1024"

definition bc_new :: "nat \<Rightarrow> block_cache" where
  "bc_new budget = \<lparr>bc_blocks = [], bc_bytes = 0, bc_budget = budget, bc_clock = 0\<rparr>"

definition bc_get :: "string \<Rightarrow> u64 \<Rightarrow> block_cache \<Rightarrow> bytes option \<times> block_cache" where
  "bc_get name offset c =
     (let clock = bc_clock c + 1; c = c\<lparr>bc_clock := clock\<rparr>
      in case bt_get (bc_blocks c) (name, offset) of
           None \<Rightarrow> (None, c)
         | Some entry \<Rightarrow>
             (Some (ca_bytes entry),
              c\<lparr>bc_blocks := bt_insert (name, offset) (entry\<lparr>ca_used := clock\<rparr>) (bc_blocks c)\<rparr>))"

fun evict_loop :: "nat \<Rightarrow> (u64 \<times> block_key) list \<Rightarrow> block_cache \<Rightarrow> block_cache" where
  "evict_loop target [] c = c"
| "evict_loop target ((_, key) # by_age) c =
     (if bc_bytes c \<le> target then c
      else evict_loop target by_age
        (case bt_get (bc_blocks c) key of
           None \<Rightarrow> c
         | Some old \<Rightarrow>
             c\<lparr>bc_blocks := bt_remove key (bc_blocks c), bc_bytes := bc_bytes c - length (ca_bytes old)\<rparr>))"

definition evict :: "block_cache \<Rightarrow> block_cache" where
  "evict c =
     (let target = bc_budget c - bc_budget c div 4;
          by_age = sort_key fst (map (\<lambda>(key, entry). (ca_used entry, key)) (bc_blocks c))
      in evict_loop target by_age c)"

definition bc_put :: "string \<Rightarrow> u64 \<Rightarrow> bytes \<Rightarrow> block_cache \<Rightarrow> block_cache" where
  "bc_put name offset bs c =
     (if length bs > bc_budget c then c
      else
        let c = c\<lparr>bc_clock := bc_clock c + 1\<rparr>;
            old = bt_get (bc_blocks c) (name, offset);
            held = bc_bytes c + length bs;
            c = c\<lparr>bc_blocks := bt_insert (name, offset) \<lparr>ca_bytes = bs, ca_used = bc_clock c\<rparr> (bc_blocks c),
                   bc_bytes := (case old of None \<Rightarrow> held | Some o' \<Rightarrow> held - length (ca_bytes o'))\<rparr>
        in if bc_bytes c > bc_budget c then evict c else c)"

definition bc_is_empty :: "block_cache \<Rightarrow> bool" where
  "bc_is_empty c \<longleftrightarrow> bc_blocks c = []"

definition retain_named :: "string set \<Rightarrow> block_cache \<Rightarrow> nat \<times> block_cache" where
  "retain_named named c =
     (let freed = sum_list (map (\<lambda>(_, entry). length (ca_bytes entry))
            (filter (\<lambda>((name, _), _). name \<notin> named) (bc_blocks c)));
          c = c\<lparr>bc_blocks := filter (\<lambda>((name, _), _). name \<in> named) (bc_blocks c),
                 bc_bytes := bc_bytes c - freed\<rparr>
      in (length (bc_blocks c), c))"

section \<open>The contract of a cache\<close>

lemma map_leD: "m \<subseteq>\<^sub>m m' \<Longrightarrow> m k = Some v \<Longrightarrow> m' k = Some v"
  by (metis domI map_le_def)

locale cache =
  fixes get :: "'k \<Rightarrow> 'c \<Rightarrow> 'v option \<times> 'c"
    and put :: "'k \<Rightarrow> 'v \<Rightarrow> 'c \<Rightarrow> 'c"
    and content :: "'c \<Rightarrow> 'k \<rightharpoonup> 'v"
    and wf :: "'c \<Rightarrow> bool"
  assumes get_content: "wf c \<Longrightarrow> get k c = (r, c') \<Longrightarrow> r = content c k \<and> content c' \<subseteq>\<^sub>m content c \<and> wf c'"
    and put_content: "wf c \<Longrightarrow> content (put k v c) k' = Some v' \<Longrightarrow> content c k' = Some v' \<or> k' = k \<and> v' = v"
    and put_wf: "wf c \<Longrightarrow> wf (put k v c)"
begin

text \<open>A cache that holds nothing but what a function says keeps doing so.\<close>

definition agrees :: "('k \<Rightarrow> 'v \<Rightarrow> bool) \<Rightarrow> 'c \<Rightarrow> bool" where
  "agrees F c \<longleftrightarrow> wf c \<and> (\<forall>k v. content c k = Some v \<longrightarrow> F k v)"

lemma get_agrees:
  assumes "agrees F c" "get k c = (r, c')"
  shows "agrees F c' \<and> (\<forall>v. r = Some v \<longrightarrow> F k v)"
  using get_content [of c k r c'] assms by (auto simp: agrees_def dest: map_leD)

lemma put_agrees: "agrees F c \<Longrightarrow> F k v \<Longrightarrow> agrees F (put k v c)"
  using put_content [of c k v] put_wf [of c k v] unfolding agrees_def by metis

end

section \<open>The block cache keeps the contract\<close>

definition bc_content :: "block_cache \<Rightarrow> block_key \<rightharpoonup> bytes" where
  "bc_content c k = map_option ca_bytes (bt_get (bc_blocks c) k)"

definition bc_size :: "(block_key, cached) btree \<Rightarrow> nat" where
  "bc_size m = sum_list (map (\<lambda>(_, e). length (ca_bytes e)) m)"

text \<open>The running byte count is exact and within the budget.\<close>

definition bc_wf :: "block_cache \<Rightarrow> bool" where
  "bc_wf c \<longleftrightarrow> bt_wf (bc_blocks c) \<and> bc_bytes c = bc_size (bc_blocks c) \<and> bc_bytes c \<le> bc_budget c"

lemma bc_size_insert:
  "bt_wf m \<Longrightarrow> bc_size (bt_insert k e m) + (case bt_get m k of None \<Rightarrow> 0 | Some o' \<Rightarrow> length (ca_bytes o')) =
   bc_size m + length (ca_bytes e)"
proof (induction k e m rule: bt_insert.induct)
  case (2 k v a b m)
  have "bt_get m k = None" if "k \<le> a"
    using "2.prems" that by (auto simp: bt_wf_def bt_get_def map_of_eq_None_iff)
  with 2 show ?case by (auto simp: bc_size_def bt_get_def bt_wf_def)
qed (simp add: bc_size_def bt_get_def)

lemma bc_size_remove:
  "bt_wf m \<Longrightarrow> bt_get m k = Some e \<Longrightarrow> bc_size (bt_remove k m) + length (ca_bytes e) = bc_size m"
proof (induction m)
  case (Cons x m)
  show ?case
  proof (cases "fst x = k")
    case True
    then have "filter (\<lambda>(a, _). a \<noteq> k) m = m"
      using Cons.prems(1) by (auto simp: bt_wf_def filter_id_conv)
    with True Cons.prems show ?thesis by (auto simp: bc_size_def bt_remove_def bt_get_def split_beta)
  next
    case False
    with Cons have "bc_size (bt_remove k m) + length (ca_bytes e) = bc_size m"
      by (simp add: bt_wf_def bt_get_def split: prod.splits)
    with False show ?thesis by (auto simp: bc_size_def bt_remove_def split_beta)
  qed
qed (simp add: bt_get_def)

lemma bc_get_wf:
  assumes "bc_wf c" "bc_get n off c = (r, c')"
  shows "r = bc_content c (n, off) \<and> bc_content c' = bc_content c \<and> bc_wf c'"
proof (cases "bt_get (bc_blocks c) (n, off)")
  case None
  with assms show ?thesis by (auto simp: bc_get_def Let_def bc_content_def bc_wf_def fun_eq_iff)
next
  case (Some e)
  with assms bc_size_insert [of "bc_blocks c" "(n, off)" "e\<lparr>ca_used := bc_clock c + 1\<rparr>"] show ?thesis
    by (auto simp: bc_get_def Let_def bc_content_def bc_wf_def fun_eq_iff bt_get_insert bt_wf_insert)
qed

text \<open>Eviction drops the oldest first and stops at the target, which it reaches.\<close>

lemma evict_loop_keeps:
  assumes "bt_wf (bc_blocks c)" "bc_bytes c = bc_size (bc_blocks c)"
  shows "bt_wf (bc_blocks (evict_loop t ks c)) \<and>
    bc_bytes (evict_loop t ks c) = bc_size (bc_blocks (evict_loop t ks c)) \<and>
    bc_content (evict_loop t ks c) \<subseteq>\<^sub>m bc_content c \<and> bc_budget (evict_loop t ks c) = bc_budget c \<and>
    bc_bytes (evict_loop t ks c) \<le> bc_bytes c"
  using assms
proof (induction t ks c rule: evict_loop.induct)
  case (2 t u key by_age c)
  show ?case
  proof (cases "bc_bytes c \<le> t")
    case True
    then show ?thesis using "2.prems" by simp
  next
    case False
    let ?c = "case bt_get (bc_blocks c) key of None \<Rightarrow> c
      | Some old \<Rightarrow> c\<lparr>bc_blocks := bt_remove key (bc_blocks c), bc_bytes := bc_bytes c - length (ca_bytes old)\<rparr>"
    have "bt_wf (bc_blocks ?c)" "bc_bytes ?c = bc_size (bc_blocks ?c)" "bc_content ?c \<subseteq>\<^sub>m bc_content c"
      "bc_budget ?c = bc_budget c" "bc_bytes ?c \<le> bc_bytes c"
      using "2.prems" bc_size_remove [of "bc_blocks c" key]
      by (auto split: option.splits simp: bt_wf_remove bc_content_def map_le_def bt_get_remove)
    with "2.IH" [OF False] False show ?thesis
      by (auto intro: map_le_trans)
  qed
qed simp

lemma evict_loop_target:
  assumes "bt_wf (bc_blocks c)" "bc_bytes c = bc_size (bc_blocks c)" "fst ` set (bc_blocks c) \<subseteq> snd ` set ks"
  shows "bc_bytes (evict_loop t ks c) \<le> t"
  using assms
proof (induction t ks c rule: evict_loop.induct)
  case (1 t c)
  then show ?case by (simp add: bc_size_def)
next
  case (2 t u key by_age c)
  show ?case
  proof (cases "bc_bytes c \<le> t")
    case False
    let ?c = "case bt_get (bc_blocks c) key of None \<Rightarrow> c
      | Some old \<Rightarrow> c\<lparr>bc_blocks := bt_remove key (bc_blocks c), bc_bytes := bc_bytes c - length (ca_bytes old)\<rparr>"
    have "bt_wf (bc_blocks ?c)" "bc_bytes ?c = bc_size (bc_blocks ?c)"
      using "2.prems" bc_size_remove [of "bc_blocks c" key] by (auto split: option.splits simp: bt_wf_remove)
    moreover have "fst ` set (bc_blocks ?c) \<subseteq> snd ` set by_age"
      using "2.prems"(3)
      by (auto split: option.splits simp: bt_remove_def bt_get_def map_of_eq_None_iff)
    ultimately show ?thesis using "2.IH" [OF False] False by simp
  qed simp
qed

lemma evict_wf:
  assumes "bt_wf (bc_blocks c)" "bc_bytes c = bc_size (bc_blocks c)"
  shows "bc_wf (evict c) \<and> bc_content (evict c) \<subseteq>\<^sub>m bc_content c \<and>
    bc_bytes (evict c) \<le> bc_budget c - bc_budget c div 4 \<and> bc_budget (evict c) = bc_budget c"
proof -
  let ?ks = "sort_key fst (map (\<lambda>(key, entry). (ca_used entry, key)) (bc_blocks c))"
  have "fst ` set (bc_blocks c) \<subseteq> snd ` set ?ks" by force
  from evict_loop_target [OF assms this] evict_loop_keeps [OF assms]
  have "bc_bytes (evict c) \<le> bc_budget c - bc_budget c div 4" and
    "bt_wf (bc_blocks (evict c)) \<and> bc_bytes (evict c) = bc_size (bc_blocks (evict c)) \<and>
     bc_content (evict c) \<subseteq>\<^sub>m bc_content c \<and> bc_budget (evict c) = bc_budget c"
    by (simp_all add: evict_def Let_def)
  then show ?thesis by (simp add: bc_wf_def)
qed

lemma bc_put_wf:
  assumes "bc_wf c"
  shows "(bc_content (bc_put n off bs c) \<subseteq>\<^sub>m (bc_content c)((n, off) \<mapsto> bs) \<or> bc_put n off bs c = c) \<and>
    bc_wf (bc_put n off bs c) \<and> bc_budget (bc_put n off bs c) = bc_budget c"
proof (cases "length bs > bc_budget c")
  case True
  then show ?thesis using assms by (auto simp: bc_put_def map_le_def)
next
  case False
  define m where "m = bt_insert (n, off) \<lparr>ca_bytes = bs, ca_used = bc_clock c + 1\<rparr> (bc_blocks c)"
  define held where "held = (case bt_get (bc_blocks c) (n, off) of None \<Rightarrow> bc_bytes c + length bs
    | Some o' \<Rightarrow> bc_bytes c + length bs - length (ca_bytes o'))"
  define c' where "c' = c\<lparr>bc_clock := bc_clock c + 1, bc_blocks := m, bc_bytes := held\<rparr>"
  have put: "bc_put n off bs c = (if held > bc_budget c then evict c' else c')"
    using False by (simp add: bc_put_def Let_def c'_def m_def held_def cong: option.case_cong)
  have wf: "bt_wf (bc_blocks c')" using assms by (simp add: c'_def m_def bc_wf_def bt_wf_insert)
  have "bc_size m + (case bt_get (bc_blocks c) (n, off) of None \<Rightarrow> 0 | Some o' \<Rightarrow> length (ca_bytes o')) =
      bc_size (bc_blocks c) + length bs"
    using bc_size_insert [of "bc_blocks c" "(n, off)" "\<lparr>ca_bytes = bs, ca_used = bc_clock c + 1\<rparr>"] assms
    by (simp add: m_def bc_wf_def)
  then have sz: "bc_bytes c' = bc_size (bc_blocks c')"
    using assms by (auto simp: c'_def held_def bc_wf_def split: option.splits)
  have content: "bc_content c' = (bc_content c)((n, off) \<mapsto> bs)"
    by (simp add: bc_content_def c'_def m_def bt_get_insert fun_eq_iff)
  show ?thesis
  proof (cases "held > bc_budget c")
    case True
    with evict_wf [OF wf sz] content put show ?thesis by (simp add: c'_def)
  next
    case False
    with wf sz content put show ?thesis by (auto simp: bc_wf_def c'_def)
  qed
qed

lemma bc_put_content:
  assumes "bc_wf c" "bc_content (bc_put n off bs c) k' = Some v'"
  shows "bc_content c k' = Some v' \<or> k' = (n, off) \<and> v' = bs"
proof (cases "bc_put n off bs c = c")
  case False
  with bc_put_wf [OF assms(1)] have "bc_content (bc_put n off bs c) \<subseteq>\<^sub>m (bc_content c)((n, off) \<mapsto> bs)"
    by blast
  from map_leD [OF this assms(2)] have "((bc_content c)((n, off) \<mapsto> bs)) k' = Some v'" .
  then show ?thesis by (simp split: if_splits)
qed (use assms(2) in simp)

interpretation blocks: cache "\<lambda>(n, off). bc_get n off" "\<lambda>(n, off). bc_put n off" bc_content bc_wf
proof (unfold_locales, goal_cases)
  case (1 c k r c')
  then show ?case using bc_get_wf [of c "fst k" "snd k" r c'] by (auto simp: split_beta)
next
  case (2 c k v k' v')
  then show ?case using bc_put_content [of c "fst k" "snd k" v k' v'] by (simp add: split_beta)
next
  case (3 c k v)
  then show ?case using bc_put_wf [of c "fst k" "snd k" v] by (simp add: split_beta)
qed

lemma bc_wf_new: "bc_wf (bc_new b)"
  by (simp add: bc_wf_def bc_new_def bc_size_def bt_wf_def)

lemma retain_wf:
  assumes "bc_wf c" "retain_named named c = (k, c')"
  shows "bc_wf c' \<and> bc_content c' \<subseteq>\<^sub>m bc_content c \<and> k = length (bc_blocks c')"
proof -
  let ?keep = "\<lambda>((name, _ :: u64), _ :: cached). name \<in> named"
  have split: "bc_size (filter ?keep m) +
      sum_list (map (\<lambda>(_, e). length (ca_bytes e)) (filter (\<lambda>((name, _), _). name \<notin> named) m)) = bc_size m" for m
    by (induction m) (auto simp: bc_size_def)
  have wf: "bt_wf (filter ?keep (bc_blocks c))"
    using assms(1) by (simp add: bc_wf_def bt_wf_def sorted_wrt_map sorted_wrt_filter)
  have "bc_content c' \<subseteq>\<^sub>m bc_content c"
  proof -
    have "bt_get (filter ?keep m) x = (if fst x \<in> named then bt_get m x else None)" for m x
      by (induction m) (auto simp: bt_get_def)
    then show ?thesis using assms(2)
      by (auto simp: retain_named_def Let_def bc_content_def map_le_def split: if_splits)
  qed
  moreover have "bc_bytes c' = bc_size (bc_blocks c')"
    using split [of "bc_blocks c"] assms by (auto simp: retain_named_def Let_def bc_wf_def)
  ultimately show ?thesis
    using wf assms by (auto simp: retain_named_def Let_def bc_wf_def)
qed

section \<open>Any use of the cache\<close>

text \<open>What the reader does with its cache: look up, store, and let go of retired layers.\<close>

datatype cache_use = Look string u64 | Store string u64 bytes | Forget "string set"

fun cache_do :: "block_cache \<Rightarrow> cache_use \<Rightarrow> block_cache" where
  "cache_do c (Look n off) = snd (bc_get n off c)"
| "cache_do c (Store n off bs) = bc_put n off bs c"
| "cache_do c (Forget named) = snd (retain_named named c)"

lemma cache_do_wf:
  assumes "bc_wf c"
  shows "bc_wf (cache_do c u) \<and> bc_budget (cache_do c u) = bc_budget c \<and>
    (\<forall>n off v. bc_content (cache_do c u) (n, off) = Some v \<longrightarrow>
       bc_content c (n, off) = Some v \<or> u = Store n off v)"
proof (cases u)
  case (Look n off)
  obtain r c' where "bc_get n off c = (r, c')" by fastforce
  with bc_get_wf [OF assms this] Look show ?thesis
    by (auto simp: bc_get_def Let_def split: option.splits)
next
  case (Store n off bs)
  with bc_put_wf [OF assms, of n off bs] bc_put_content [OF assms, of n off bs] show ?thesis by auto
next
  case (Forget named)
  obtain k c' where r: "retain_named named c = (k, c')" by fastforce
  then have "bc_budget c' = bc_budget c" by (auto simp: retain_named_def Let_def)
  with retain_wf [OF assms r] r Forget show ?thesis by (auto dest: map_leD)
qed

lemma cache_run_wf:
  assumes "bc_wf c"
  shows "bc_wf (foldl cache_do c us) \<and> bc_budget (foldl cache_do c us) = bc_budget c \<and>
    (\<forall>n off v. bc_content (foldl cache_do c us) (n, off) = Some v \<longrightarrow>
       bc_content c (n, off) = Some v \<or> Store n off v \<in> set us)"
  using assms
proof (induction us arbitrary: c)
  case (Cons u us)
  from cache_do_wf [OF Cons.prems] have wf: "bc_wf (cache_do c u)"
    and b: "bc_budget (cache_do c u) = bc_budget c"
    and old: "\<And>n off v. bc_content (cache_do c u) (n, off) = Some v \<Longrightarrow>
      bc_content c (n, off) = Some v \<or> u = Store n off v"
    by auto
  from Cons.IH [OF wf] b old show ?case by fastforce
qed simp

text \<open>Eviction removes a prefix of the keys by age.\<close>

lemma bt_remove_absent: "bt_get m k = None \<Longrightarrow> bt_remove k m = m"
  by (auto simp: bt_get_def bt_remove_def map_of_eq_None_iff filter_id_conv rev_image_eqI)

lemma evict_loop_prefix:
  "\<exists>i. bc_blocks (evict_loop t ks c) = filter (\<lambda>(k, _). k \<notin> snd ` set (take i ks)) (bc_blocks c)"
proof (induction t ks c rule: evict_loop.induct)
  case (1 t c)
  show ?case by simp
next
  case (2 t u key by_age c)
  show ?case
  proof (cases "bc_bytes c \<le> t")
    case True
    then show ?thesis by (intro exI [of _ 0]) simp
  next
    case False
    let ?c = "case bt_get (bc_blocks c) key of None \<Rightarrow> c
      | Some old \<Rightarrow> c\<lparr>bc_blocks := bt_remove key (bc_blocks c), bc_bytes := bc_bytes c - length (ca_bytes old)\<rparr>"
    have "bc_blocks ?c = bt_remove key (bc_blocks c)"
      by (simp add: bt_remove_absent split: option.split)
    moreover from "2.IH" [OF False] obtain i where
      "bc_blocks (evict_loop t by_age ?c) = filter (\<lambda>(k, _). k \<notin> snd ` set (take i by_age)) (bc_blocks ?c)"
      by blast
    ultimately show ?thesis using False
      by (intro exI [of _ "Suc i"]) (simp add: bt_remove_def split_beta conj_commute)
  qed
qed

lemma evict_drops_oldest:
  assumes "bt_wf (bc_blocks c)" "(k, e) \<in> set (bc_blocks (evict c))"
    and "(k', e') \<in> set (bc_blocks c)" "(k', e') \<notin> set (bc_blocks (evict c))"
  shows "ca_used e' \<le> ca_used e"
proof -
  let ?ks = "sort_key fst (map (\<lambda>(key, entry). (ca_used entry, key)) (bc_blocks c))"
  obtain i where i: "bc_blocks (evict c) = filter (\<lambda>(k, _). k \<notin> snd ` set (take i ?ks)) (bc_blocks c)"
    using evict_loop_prefix [of "bc_budget c - bc_budget c div 4" ?ks c] unfolding evict_def Let_def by blast
  have uniq: "map_of (bc_blocks c) a = Some b" if "(a, b) \<in> set (bc_blocks c)" for a b
    using assms(1) that by (simp add: bt_wf_def strict_sorted_iff)
  from assms(3,4) i obtain u where "(u, k') \<in> set (take i ?ks)" by auto
  moreover from this have "(u, k') \<in> set ?ks" by (rule in_set_takeD)
  then obtain e'' where "(k', e'') \<in> set (bc_blocks c)" "u = ca_used e''" by auto
  then have "u = ca_used e'" using uniq [of k' e''] uniq [of k' e'] assms(3) by simp
  ultimately have old: "(ca_used e', k') \<in> set (take i ?ks)" by simp
  have "(ca_used e, k) \<in> set ?ks" "(ca_used e, k) \<notin> set (take i ?ks)"
    using assms(2) i by (force, force)
  then have new: "(ca_used e, k) \<in> set (drop i ?ks)"
    by (metis Un_iff append_take_drop_id set_append)
  have "sorted (map fst (take i ?ks @ drop i ?ks))" by simp
  then show ?thesis using old new unfolding map_append sorted_append by force
qed

text \<open>Eviction stops as soon as it may: without the youngest block it dropped it would not have reached the target.\<close>

lemma evict_loop_stops: "bc_bytes c \<le> t \<Longrightarrow> evict_loop t ks c = c"
  by (cases ks) auto

definition last_dropped :: "nat \<Rightarrow> block_cache \<Rightarrow> block_cache \<Rightarrow> block_key \<Rightarrow> cached \<Rightarrow> bool" where
  "last_dropped t c c' k e \<longleftrightarrow>
     bt_get (bc_blocks c) k = Some e \<and> bt_get (bc_blocks c') k = None \<and>
     t < bc_bytes c' + length (ca_bytes e) \<and>
     (\<forall>k' e'. bt_get (bc_blocks c) k' = Some e' \<longrightarrow> bt_get (bc_blocks c') k' = None \<longrightarrow> ca_used e' \<le> ca_used e)"

lemma evict_loop_minimal:
  assumes "bt_wf (bc_blocks c)" "bc_bytes c = bc_size (bc_blocks c)" "t < bc_bytes c"
    and "sorted (map fst ks)" "distinct (map snd ks)"
    and "\<forall>(u, k) \<in> set ks. \<exists>e. bt_get (bc_blocks c) k = Some e \<and> ca_used e = u"
    and "fst ` set (bc_blocks c) \<subseteq> snd ` set ks"
  shows "\<exists>k e. last_dropped t c (evict_loop t ks c) k e"
  using assms
proof (induction ks arbitrary: c)
  case Nil
  then show ?case by (simp add: bc_size_def)
next
  case (Cons x ks)
  obtain u key where x: "x = (u, key)" by (rule prod.exhaust)
  with Cons.prems(6) obtain e where e: "bt_get (bc_blocks c) key = Some e" "ca_used e = u" by auto
  define c1 where "c1 = c\<lparr>bc_blocks := bt_remove key (bc_blocks c), bc_bytes := bc_bytes c - length (ca_bytes e)\<rparr>"
  have loop: "evict_loop t (x # ks) c = evict_loop t ks c1"
    using Cons.prems(3) by (simp add: x e c1_def)
  have get1: "bt_get (bc_blocks c1) = (bt_get (bc_blocks c))(key := None)"
    by (simp add: c1_def bt_get_remove)
  have c1: "bt_wf (bc_blocks c1)" "bc_bytes c1 = bc_size (bc_blocks c1)"
    "bc_bytes c1 + length (ca_bytes e) = bc_bytes c"
    using Cons.prems(1,2) bc_size_remove [of "bc_blocks c" key e] e(1) by (auto simp: c1_def bt_wf_remove)
  show ?case
  proof (cases "bc_bytes c1 \<le> t")
    case True
    have "last_dropped t c c1 key e"
      using Cons.prems(3) c1(3) e(1) by (auto simp: last_dropped_def get1)
    then show ?thesis using evict_loop_stops [OF True] loop by metis
  next
    case False
    have "\<exists>k e. last_dropped t c1 (evict_loop t ks c1) k e"
    proof (rule Cons.IH)
      show "\<forall>(u, k) \<in> set ks. \<exists>e. bt_get (bc_blocks c1) k = Some e \<and> ca_used e = u"
        using Cons.prems(5,6) by (force simp: x get1)
      show "fst ` set (bc_blocks c1) \<subseteq> snd ` set ks"
        using Cons.prems(7) by (auto simp: x c1_def bt_remove_def)
    qed (use Cons.prems c1 False in auto)
    then obtain k e1 where k: "last_dropped t c1 (evict_loop t ks c1) k e1" by blast
    then have "k \<noteq> key" "bt_get (bc_blocks c) k = Some e1"
      by (auto simp: last_dropped_def get1 split: if_splits)
    moreover from this have "k \<in> fst ` set (bc_blocks c)"
      by (force simp: bt_get_def dest!: map_of_SomeD)
    ultimately obtain u1 where "(u1, k) \<in> set ks" using Cons.prems(7) by (force simp: x)
    with Cons.prems(4,6) \<open>bt_get (bc_blocks c) k = Some e1\<close> have "u \<le> ca_used e1" by (force simp: x)
    moreover have "ca_used e' \<le> ca_used e1"
      if "bt_get (bc_blocks c) k' = Some e'" "bt_get (bc_blocks (evict_loop t ks c1)) k' = None" "k' \<noteq> key" for k' e'
    proof -
      have "bt_get (bc_blocks c1) k' = Some e'" using that by (simp add: get1)
      then show ?thesis using k that(2) unfolding last_dropped_def by blast
    qed
    ultimately have "ca_used e' \<le> ca_used e1"
      if "bt_get (bc_blocks c) k' = Some e'" "bt_get (bc_blocks (evict_loop t ks c1)) k' = None" for k' e'
      using that e by (cases "k' = key") auto
    with k \<open>bt_get (bc_blocks c) k = Some e1\<close> have "last_dropped t c (evict_loop t ks c1) k e1"
      unfolding last_dropped_def by blast
    then show ?thesis using loop by metis
  qed
qed

lemma evict_minimal:
  assumes "bt_wf (bc_blocks c)" "bc_bytes c = bc_size (bc_blocks c)" "bc_budget c < bc_bytes c"
  shows "\<exists>k e. last_dropped (bc_budget c - bc_budget c div 4) c (evict c) k e"
proof -
  let ?m = "bc_blocks c"
  let ?ks = "sort_key fst (map (\<lambda>(key, entry). (ca_used entry, key)) ?m)"
  have d: "distinct (map fst ?m)" using assms(1) by (simp add: bt_wf_def strict_sorted_iff)
  have "mset (map snd ?ks) = mset (map fst ?m)"
    by (simp add: multiset.map_comp comp_def split_beta)
  then have "distinct (map snd ?ks)" using d by (metis mset_eq_imp_distinct_iff)
  moreover have "\<forall>(u, k) \<in> set ?ks. \<exists>e. bt_get ?m k = Some e \<and> ca_used e = u"
    using d by (auto simp: bt_get_def)
  moreover have "fst ` set ?m \<subseteq> snd ` set ?ks" by force
  ultimately show ?thesis
    unfolding evict_def Let_def using assms by (intro evict_loop_minimal) auto
qed

text \<open>What storing a block does. The blocks with the new one in are \<open>new\<close>, and \<open>need\<close> is their bytes.\<close>

lemma bc_put_cases:
  assumes wf: "bc_wf c" and fits: "length bs \<le> bc_budget c"
    and new: "new = (bt_get (bc_blocks c))((n, off) \<mapsto> \<lparr>ca_bytes = bs, ca_used = bc_clock c + 1\<rparr>)"
    and need: "need = bc_bytes c - (case bc_content c (n, off) of None \<Rightarrow> 0 | Some old \<Rightarrow> length old) + length bs"
  obtains c1 where "bt_wf (bc_blocks c1)" "bc_bytes c1 = bc_size (bc_blocks c1)" "bc_bytes c1 = need"
    "bt_get (bc_blocks c1) = new" "bc_budget c1 = bc_budget c"
    "bc_put n off bs c = (if need > bc_budget c then evict c1 else c1)"
proof -
  let ?e = "\<lparr>ca_bytes = bs, ca_used = bc_clock c + 1\<rparr>"
  define c1 where "c1 = c\<lparr>bc_clock := bc_clock c + 1, bc_blocks := bt_insert (n, off) ?e (bc_blocks c), bc_bytes := need\<rparr>"
  have sz: "bc_size (bc_blocks c1) + (case bt_get (bc_blocks c) (n, off) of None \<Rightarrow> 0 | Some o' \<Rightarrow> length (ca_bytes o')) =
      bc_bytes c + length bs"
    using bc_size_insert [of "bc_blocks c" "(n, off)" ?e] wf by (simp add: c1_def bc_wf_def)
  have held: "length (ca_bytes o') \<le> bc_bytes c" if "bt_get (bc_blocks c) (n, off) = Some o'" for o'
    using bc_size_remove [of "bc_blocks c" "(n, off)" o'] wf that by (simp add: bc_wf_def)
  have "need = bc_size (bc_blocks c1)"
    using sz held by (auto simp: need bc_content_def split: option.splits)
  moreover have "bt_wf (bc_blocks c1)" using wf by (simp add: c1_def bc_wf_def bt_wf_insert)
  moreover have "bt_get (bc_blocks c1) = new" by (simp add: c1_def new bt_get_insert)
  moreover have "bc_put n off bs c = (if need > bc_budget c then evict c1 else c1)"
  proof -
    have "(case bt_get (bc_blocks c) (n, off) of None \<Rightarrow> bc_bytes c + length bs
        | Some o' \<Rightarrow> bc_bytes c + length bs - length (ca_bytes o')) = need"
      using held by (auto simp: need bc_content_def split: option.splits)
    then show ?thesis
      using fits unfolding bc_put_def Let_def c1_def by (auto cong: option.case_cong)
  qed
  ultimately show ?thesis using that [of c1] by (simp add: c1_def)
qed

lemma bc_put_fits:
  assumes "bc_wf c" "length bs \<le> bc_budget c" "need \<le> bc_budget c"
    and "new = (bt_get (bc_blocks c))((n, off) \<mapsto> \<lparr>ca_bytes = bs, ca_used = bc_clock c + 1\<rparr>)"
    and "need = bc_bytes c - (case bc_content c (n, off) of None \<Rightarrow> 0 | Some old \<Rightarrow> length old) + length bs"
  shows "bt_get (bc_blocks (bc_put n off bs c)) = new"
  using bc_put_cases [OF assms(1,2,4,5)] assms(3) by (metis leD)

lemma bc_put_evicts:
  assumes wf: "bc_wf c" and fits: "length bs \<le> bc_budget c" and over: "need > bc_budget c"
    and new: "new = (bt_get (bc_blocks c))((n, off) \<mapsto> \<lparr>ca_bytes = bs, ca_used = bc_clock c + 1\<rparr>)"
    and need: "need = bc_bytes c - (case bc_content c (n, off) of None \<Rightarrow> 0 | Some old \<Rightarrow> length old) + length bs"
    and c': "c' = bc_put n off bs c" and goal: "goal = bc_budget c - bc_budget c div 4"
  shows "bt_get (bc_blocks c') \<subseteq>\<^sub>m new" "bc_bytes c' \<le> goal"
    "bt_get (bc_blocks c') k = Some e \<Longrightarrow> new k' = Some e' \<Longrightarrow> bt_get (bc_blocks c') k' = None \<Longrightarrow>
       ca_used e' \<le> ca_used e"
    "\<exists>k e. new k = Some e \<and> bt_get (bc_blocks c') k = None \<and> goal < bc_bytes c' + length (ca_bytes e) \<and>
       (\<forall>k' e'. new k' = Some e' \<and> bt_get (bc_blocks c') k' = None \<longrightarrow> ca_used e' \<le> ca_used e)"
proof -
  obtain c1 where c1: "bt_wf (bc_blocks c1)" "bc_bytes c1 = bc_size (bc_blocks c1)" "bc_bytes c1 = need"
    "bt_get (bc_blocks c1) = new" "bc_budget c1 = bc_budget c"
    "bc_put n off bs c = (if need > bc_budget c then evict c1 else c1)"
    by (rule bc_put_cases [OF wf fits new need])
  with over c' have ev: "c' = evict c1" by simp
  have wf': "bt_wf (bc_blocks c')" and sz: "bc_bytes c' \<le> goal"
    using evict_wf [OF c1(1,2)] by (simp_all add: ev bc_wf_def goal c1(5))
  from sz show "bc_bytes c' \<le> goal" .
  let ?ks = "sort_key fst (map (\<lambda>(key, entry). (ca_used entry, key)) (bc_blocks c1))"
  obtain i where i: "bc_blocks c' = filter (\<lambda>(k, _). k \<notin> snd ` set (take i ?ks)) (bc_blocks c1)"
    using evict_loop_prefix unfolding ev evict_def Let_def by blast
  have in_old: "bt_get m k = Some e \<longleftrightarrow> (k, e) \<in> set m" if "bt_wf m" for m :: "(block_key, cached) btree" and k e
    using that by (simp add: bt_wf_def bt_get_def strict_sorted_iff)
  show "bt_get (bc_blocks c') \<subseteq>\<^sub>m new"
  proof (unfold map_le_def, intro ballI)
    fix k assume "k \<in> dom (bt_get (bc_blocks c'))"
    then obtain e where "bt_get (bc_blocks c') k = Some e" by blast
    moreover from this have "(k, e) \<in> set (bc_blocks c1)" using in_old [OF wf'] i by simp
    ultimately show "bt_get (bc_blocks c') k = new k" using in_old [OF c1(1)] c1(4) by metis
  qed
  show "ca_used e' \<le> ca_used e" if "bt_get (bc_blocks c') k = Some e" "new k' = Some e'" "bt_get (bc_blocks c') k' = None"
  proof -
    have "(k, e) \<in> set (bc_blocks c')" "(k', e') \<notin> set (bc_blocks c')" "(k', e') \<in> set (bc_blocks c1)"
      using that in_old [OF wf', of k e] in_old [OF wf', of k' e'] in_old [OF c1(1), of k' e'] c1(4) by simp_all
    then show ?thesis using evict_drops_oldest [OF c1(1)] unfolding ev by blast
  qed
  have "\<exists>k e. last_dropped goal c1 c' k e"
    using evict_minimal [OF c1(1,2)] over by (simp add: ev c1(3,5) goal)
  then show "\<exists>k e. new k = Some e \<and> bt_get (bc_blocks c') k = None \<and> goal < bc_bytes c' + length (ca_bytes e) \<and>
       (\<forall>k' e'. new k' = Some e' \<and> bt_get (bc_blocks c') k' = None \<longrightarrow> ca_used e' \<le> ca_used e)"
    unfolding last_dropped_def c1(4) by blast
qed


definition busy_cache :: "cache_use list" where
  "busy_cache = [Store ''a'' 0 [1, 2, 3], Store ''b'' 0 [4, 5], Look ''a'' 0, Store ''c'' 8 [6, 7], Forget {''a'', ''c''}]"

lemma busy_cache_run:
  "foldl cache_do (bc_new 6) busy_cache =
     \<lparr>bc_blocks = [((''a'', 0), \<lparr>ca_bytes = [1, 2, 3], ca_used = 3\<rparr>), ((''c'', 8), \<lparr>ca_bytes = [6, 7], ca_used = 4\<rparr>)],
      bc_bytes = 5, bc_budget = 6, bc_clock = 4\<rparr>"
  by (simp add: busy_cache_def) code_simp


end
