(* ===== verification/Page_Read.thy ===== *)
theory Page_Read
  imports Block_Cache Layer_Decode Layer_Map Mem_Table Tenant_Layout
begin

text \<open>
  The read path over layer objects (crates/zou-store/src/pageread.rs): a reader
  resolves a layer to its object, reads footers and blocks by range through its two
  caches, and reconstructs a key at a position from the plan of the layer map. The
  reader's mutexes hold its caches; a call runs on the pair of the reader and the
  store state, so interior mutability is explicit. The setting
  \<open>ZOU_BLOCK_CACHE_MB\<close> is an argument, already parsed.
\<close>

definition FOOTER_GUESS :: u64 where
  "FOOTER_GUESS = 64 * 1024"

definition FOOTER_GUESS_CAP :: u64 where
  "FOOTER_GUESS_CAP = 1024 * 1024"

text \<open>The product is a \<open>usize\<close>, which wraps in a release build.\<close>

definition block_budget :: "u64 option \<Rightarrow> nat" where
  "block_budget setting =
     (case setting of Some mb \<Rightarrow> unat (mb * 1024 * 1024) | None \<Rightarrow> BLOCK_CACHE_BYTES)"

datatype read_error =
  ReadStore cas_error
| Missing string
| LayerFault string layer_decode_error
| Mismatched string
| ShortRange string u64 u64
| ForeignLayer string string

record reconstruction =
  rc_base :: "bytes option"
  rc_base_lsn :: "lsn option"
  rc_records :: "(lsn \<times> bytes) list"
  rc_layers_touched :: nat

record layer_reader =
  rd_prefix :: string
  rd_tenant :: "string option"
  rd_shard :: "u16 option"
  rd_footers :: "(string, layer_footer) btree"
  rd_blocks :: block_cache
  rd_guess :: u64

section \<open>Calls on the reader and the store\<close>

type_synonym ('a, 's) read_op =
  "layer_reader \<times> 's \<Rightarrow> ('a, read_error) outcome \<times> (layer_reader \<times> 's)"

definition rret :: "('a, read_error) outcome \<Rightarrow> ('a, 's) read_op" where
  "rret x w = (x, w)"

definition rbind :: "('a, 's) read_op \<Rightarrow> ('a \<Rightarrow> ('b, 's) read_op) \<Rightarrow> ('b, 's) read_op" where
  "rbind m f w =
     (case m w of
        (Ok x, w) \<Rightarrow> f x w
      | (Err e, w) \<Rightarrow> (Err e, w)
      | (Panic, w) \<Rightarrow> (Panic, w))"

section \<open>The reader\<close>

definition reader_new :: "string \<Rightarrow> u64 option \<Rightarrow> layer_reader" where
  "reader_new prefix setting =
     \<lparr>rd_prefix = prefix, rd_tenant = None, rd_shard = None, rd_footers = [],
      rd_blocks = bc_new (block_budget setting), rd_guess = FOOTER_GUESS\<rparr>"

definition for_shard :: "string \<Rightarrow> u16 \<Rightarrow> u64 option \<Rightarrow> layer_reader" where
  "for_shard tenant_ref shard setting =
     \<lparr>rd_prefix = shard_prefix (layout_new tenant_ref) shard, rd_tenant = Some tenant_ref,
      rd_shard = Some shard, rd_footers = [],
      rd_blocks = bc_new (block_budget setting), rd_guess = FOOTER_GUESS\<rparr>"

definition with_block_budget :: "nat \<Rightarrow> layer_reader \<Rightarrow> layer_reader" where
  "with_block_budget n r = r\<lparr>rd_blocks := bc_new n\<rparr>"

definition object_key :: "layer_reader \<Rightarrow> layer_desc \<Rightarrow> string \<Rightarrow> (string, read_error) outcome" where
  "object_key r l name =
     (if ld_owner l = None \<and> ld_home l = None then Ok (rd_prefix r @ name)
      else
        let foreign = ForeignLayer name
              (case ld_owner l of Some owner \<Rightarrow> owner | None \<Rightarrow> ''a split ancestor'')
        in obind (case (ld_owner l, rd_tenant r) of
                    (Some owner, _) \<Rightarrow> Ok owner
                  | (None, Some own) \<Rightarrow> Ok own
                  | (None, None) \<Rightarrow> Err foreign) (\<lambda>tenant.
           obind (case (ld_home l, rd_shard r) of
                    (Some home, _) \<Rightarrow> Ok home
                  | (None, Some own) \<Rightarrow> Ok own
                  | (None, None) \<Rightarrow> Err foreign) (\<lambda>shard.
           Ok (shard_prefix (layout_new tenant) shard @ name))))"

text \<open>A store call, with its error under \<open>ReadError::Store\<close>.\<close>

definition on_store :: "('a, 's) cas_op \<Rightarrow> ('a, 's) read_op" where
  "on_store m w = (case m (snd w) of (x, s) \<Rightarrow> (map_err ReadStore x, (fst w, s)))"

definition fetch :: "'s cas_store \<Rightarrow> layer_desc \<Rightarrow> (bytes, 's) read_op" where
  "fetch st l w =
     (let name = layer_name l
      in rbind (rret (object_key (fst w) l name)) (\<lambda>object.
         rbind (on_store (cs_get st object)) (\<lambda>found.
         rret (obind (ok_or found (Missing name)) (\<lambda>(data, _). Ok data)))) w)"

definition range_read ::
  "'s cas_store \<Rightarrow> layer_desc \<Rightarrow> string \<Rightarrow> u64 \<Rightarrow> u64 \<Rightarrow> (bytes, 's) read_op" where
  "range_read st l name offset len w =
     rbind (rret (object_key (fst w) l name)) (\<lambda>object.
     rbind (on_store (get_range st object offset len)) (\<lambda>found.
     rbind (rret (ok_or found (Missing name))) (\<lambda>bs.
     rret (if of_nat (length bs) < len then Err (ShortRange name offset len) else Ok bs)))) w"

definition read_block ::
  "'s cas_store \<Rightarrow> layer_desc \<Rightarrow> string \<Rightarrow> u64 \<Rightarrow> u64 \<Rightarrow> (bytes, 's) read_op" where
  "read_block st l name offset len w =
     (let (r, s) = w
      in case bc_get name offset (rd_blocks r) of
           (Some bs, c) \<Rightarrow> (Ok bs, (r\<lparr>rd_blocks := c\<rparr>, s))
         | (None, c) \<Rightarrow>
             rbind (range_read st l name offset len) (\<lambda>bs (r, s).
               (Ok bs, (r\<lparr>rd_blocks := bc_put name offset bs (rd_blocks r)\<rparr>, s)))
             (r\<lparr>rd_blocks := c\<rparr>, s))"

text \<open>The footer's bounds against the name the manifest listed.\<close>

definition footer_matches :: "layer_footer \<Rightarrow> layer_desc \<Rightarrow> bool" where
  "footer_matches f l \<longleftrightarrow>
     lf_kind f = ld_kind l \<and> lf_min_key f = ld_min_key l \<and> lf_max_key f = ld_max_key l \<and>
     lf_min_lsn f = ld_min_lsn l \<and> lf_max_lsn f = ld_max_lsn l"

text \<open>The footer from the suffix the guess read, or from a second read of the length it asks for.\<close>

definition footer_from ::
  "externals \<Rightarrow> 's cas_store \<Rightarrow> layer_desc \<Rightarrow> string \<Rightarrow> u64 \<Rightarrow> bytes \<Rightarrow> (layer_footer, 's) read_op" where
  "footer_from ext st l name guess suffix =
     (case read_layer_footer_suffix ext (ld_kind l) suffix (ld_size l) of
        Ok f \<Rightarrow> rret (Ok f)
      | Panic \<Rightarrow> rret Panic
      | Err (Truncated got need) \<Rightarrow>
          if (of_nat need :: u64) > guess then
            rbind (range_read st l name (ld_size l - of_nat need) (of_nat need)) (\<lambda>exact (r, s).
            (map_err (LayerFault name)
               (read_layer_footer_suffix ext (ld_kind l) exact (ld_size l)),
             (r\<lparr>rd_guess := max (rd_guess r) (min (of_nat need) FOOTER_GUESS_CAP)\<rparr>, s)))
          else rret (Err (LayerFault name (Truncated got need)))
      | Err source \<Rightarrow> rret (Err (LayerFault name source)))"

definition keep_footer :: "layer_desc \<Rightarrow> string \<Rightarrow> layer_footer \<Rightarrow> (layer_footer, 's) read_op" where
  "keep_footer l name f w =
     (let (r, s) = w
      in if \<not> footer_matches f l then (Err (Mismatched name), (r, s))
         else (Ok f, (r\<lparr>rd_footers := bt_insert name f (rd_footers r)\<rparr>, s)))"

definition read_footer :: "externals \<Rightarrow> 's cas_store \<Rightarrow> layer_desc \<Rightarrow> (layer_footer, 's) read_op" where
  "read_footer ext st l w =
     (let name = layer_name l
      in case bt_get (rd_footers (fst w)) name of
           Some f \<Rightarrow> (Ok f, w)
         | None \<Rightarrow>
             let guess = min (rd_guess (fst w)) (ld_size l)
             in rbind (range_read st l name (ld_size l - guess) guess) (\<lambda>suffix.
                rbind (footer_from ext st l name guess suffix) (keep_footer l name)) w)"

definition forget_unnamed :: "layer_map \<Rightarrow> layer_reader \<Rightarrow> nat \<times> layer_reader" where
  "forget_unnamed m r =
     (if rd_footers r = [] \<and> bc_is_empty (rd_blocks r) then (0, r)
      else
        let named = set (map layer_name (lm_layers m));
            footers = filter (\<lambda>(name, _). name \<in> named) (rd_footers r);
            (_, blocks) = retain_named named (rd_blocks r)
        in (length footers, r\<lparr>rd_footers := footers, rd_blocks := blocks\<rparr>))"

section \<open>Reconstruction\<close>

text \<open>
  The inner loop over the blocks of one image layer. A decoded block ascends strictly
  by key, so the binary search finds the one entry of the key when there is one.
\<close>

fun image_lookup ::
  "externals \<Rightarrow> 's cas_store \<Rightarrow> layer_desc \<Rightarrow> string \<Rightarrow> layer_key \<Rightarrow> layer_block list \<Rightarrow>
   (bytes option, 's) read_op" where
  "image_lookup ext st l name key [] = rret (Ok None)"
| "image_lookup ext st l name key (meta # metas) =
     rbind (read_block st l name (lb_offset meta) (ucast (lb_len meta))) (\<lambda>bs.
     rbind (rret (map_err (LayerFault name) (decode_image_block ext bs meta))) (\<lambda>entries.
     case find (\<lambda>e. ie_key e = key) entries of
       Some e \<Rightarrow> rret (Ok (Some (ie_page e)))
     | None \<Rightarrow> image_lookup ext st l name key metas))"

text \<open>The loop over the images of the plan: the page and the new floor, or nothing.\<close>

fun find_base ::
  "externals \<Rightarrow> 's cas_store \<Rightarrow> layer_key \<Rightarrow> layer_desc list \<Rightarrow> ((bytes \<times> lsn) option, 's) read_op" where
  "find_base ext st key [] = rret (Ok None)"
| "find_base ext st key (l # ls) =
     rbind (read_footer ext st l) (\<lambda>f.
     rbind (rret (footer_may_contain ext f key)) (\<lambda>hit.
     if \<not> hit then find_base ext st key ls
     else
     rbind (image_lookup ext st l (layer_name l) key (locate f key)) (\<lambda>found.
     case found of
       Some page \<Rightarrow> rret (Ok (Some (page, ld_min_lsn l)))
     | None \<Rightarrow> find_base ext st key ls)))"

definition merge_entries ::
  "layer_key \<Rightarrow> lsn \<Rightarrow> lsn \<Rightarrow> delta_entry list \<Rightarrow> (lsn, bytes) btree \<Rightarrow> (lsn, bytes) btree" where
  "merge_entries key floor ceil entries merged =
     fold (\<lambda>e. if de_key e = key \<and> floor < de_lsn e \<and> de_lsn e \<le> ceil
               then bt_insert (de_lsn e) (de_record e) else id) entries merged"

fun merge_blocks ::
  "externals \<Rightarrow> 's cas_store \<Rightarrow> layer_desc \<Rightarrow> string \<Rightarrow> layer_key \<Rightarrow> lsn \<Rightarrow> lsn \<Rightarrow> layer_block list \<Rightarrow>
   (lsn, bytes) btree \<Rightarrow> ((lsn, bytes) btree, 's) read_op" where
  "merge_blocks ext st l name key floor ceil [] merged = rret (Ok merged)"
| "merge_blocks ext st l name key floor ceil (meta # metas) merged =
     rbind (read_block st l name (lb_offset meta) (ucast (lb_len meta))) (\<lambda>bs.
     rbind (rret (map_err (LayerFault name) (decode_delta_block ext bs meta))) (\<lambda>entries.
     merge_blocks ext st l name key floor ceil metas (merge_entries key floor ceil entries merged)))"

fun merge_deltas ::
  "externals \<Rightarrow> 's cas_store \<Rightarrow> layer_key \<Rightarrow> lsn \<Rightarrow> lsn \<Rightarrow> layer_desc list \<Rightarrow> nat \<times> (lsn, bytes) btree \<Rightarrow>
   (nat \<times> (lsn, bytes) btree, 's) read_op" where
  "merge_deltas ext st key lsn floor [] out = rret (Ok out)"
| "merge_deltas ext st key lsn floor (l # ls) (touched, merged) =
     rbind (read_footer ext st l) (\<lambda>f.
     rbind (rret (footer_may_contain ext f key)) (\<lambda>hit.
     if \<not> hit then merge_deltas ext st key lsn floor ls (touched + 1, merged)
     else
     rbind (merge_blocks ext st l (layer_name l) key floor (clamp l lsn) (locate f key) merged) (\<lambda>merged.
     merge_deltas ext st key lsn floor ls (touched + 1, merged))))"

text \<open>What follows the search for the base: the records above it, from layers and memtable.\<close>

definition collect_records ::
  "externals \<Rightarrow> 's cas_store \<Rightarrow> layer_map \<Rightarrow> memtable \<Rightarrow> layer_key \<Rightarrow> lsn \<Rightarrow> (bytes \<times> lsn) option \<Rightarrow>
   (reconstruction, 's) read_op" where
  "collect_records ext st m mem key lsn base =
     (let floor = (case base of Some (_, at) \<Rightarrow> at | None \<Rightarrow> 0)
      in rbind (merge_deltas ext st key lsn floor (above (plan m key lsn) floor) (if base = None then 0 else 1, []))
           (\<lambda>(touched, merged).
         rbind (rret (records_for mem key floor lsn)) (\<lambda>records.
         rret (Ok \<lparr>rc_base = map_option fst base, rc_base_lsn = map_option snd base,
                  rc_records = fold (\<lambda>(at, rec). bt_insert at rec) records merged,
                  rc_layers_touched = touched\<rparr>))))"

definition reconstruct ::
  "externals \<Rightarrow> 's cas_store \<Rightarrow> layer_map \<Rightarrow> memtable \<Rightarrow> layer_key \<Rightarrow> lsn \<Rightarrow> (reconstruction, 's) read_op" where
  "reconstruct ext st m mem key lsn =
     rbind (find_base ext st key (rp_images (plan m key lsn))) (collect_records ext st m mem key lsn)"

end
