(* ===== verification/Page_Read_Safety.thy ===== *)
theory Page_Read_Safety
  imports Page_Read Layer_Map_Proofs
begin

text \<open>
  The read path never panics, whatever the store answers: every slice is in range,
  every decoder refuses instead of failing, the filter of a footer that was accepted has
  the bits its probes ask for, and the floor of a reconstruction is never above the position
  it reads at, which is what the memtable's range needs. The footers a reader keeps are asked
  again without a second look, so the argument carries what they satisfy from call to call.
\<close>

definition footers_legal :: "layer_reader \<Rightarrow> bool" where
  "footers_legal r \<longleftrightarrow> (\<forall>(name, f) \<in> set (rd_footers r). legal (lf_bloom f))"

definition calm :: "('a \<Rightarrow> bool) \<Rightarrow> ('a, 's) read_op \<Rightarrow> bool" where
  "calm P m \<longleftrightarrow>
     (\<forall>w. footers_legal (fst w) \<longrightarrow>
        fst (m w) \<noteq> Panic \<and> footers_legal (fst (snd (m w))) \<and> (\<forall>x. fst (m w) = Ok x \<longrightarrow> P x))"

abbreviation anything :: "'a \<Rightarrow> bool" where
  "anything \<equiv> \<lambda>_. True"

lemma calmD:
  assumes "calm P m" "footers_legal (fst w)"
  shows "fst (m w) \<noteq> Panic" "footers_legal (fst (snd (m w)))" "fst (m w) = Ok x \<Longrightarrow> P x"
  using assms unfolding calm_def by blast+

lemma footers_legal_blocks [simp]: "footers_legal (r\<lparr>rd_blocks := c\<rparr>) = footers_legal r"
  by (simp add: footers_legal_def)

lemma calm_rret [intro!]: "x \<noteq> Panic \<Longrightarrow> (\<And>y. x = Ok y \<Longrightarrow> P y) \<Longrightarrow> calm P (rret x)"
  by (simp add: calm_def rret_def)

lemma calm_rbind:
  assumes "calm P m" "\<And>x. P x \<Longrightarrow> calm Q (f x)"
  shows "calm Q (rbind m f)"
proof -
  have "fst (rbind m f w) \<noteq> Panic \<and> footers_legal (fst (snd (rbind m f w))) \<and>
      (\<forall>y. fst (rbind m f w) = Ok y \<longrightarrow> Q y)" if w: "footers_legal (fst w)" for w
  proof -
    define x u where "x = fst (m w)" and "u = snd (m w)"
    then have Pair: "m w = (x, u)" by simp
    have "x \<noteq> Panic" "footers_legal (fst u)" "\<And>y. x = Ok y \<Longrightarrow> P y"
      using calmD [OF assms(1) w] by (simp_all add: x_def u_def)
    then show ?thesis
      using calmD [OF assms(2)] by (cases x) (auto simp: rbind_def Pair)
  qed
  then show ?thesis unfolding calm_def by blast
qed

text \<open>The store's read, the one call the read path makes on it.\<close>

definition get_calm :: "'s cas_store \<Rightarrow> bool" where
  "get_calm st \<longleftrightarrow> (\<forall>key s. fst (cs_get st key s) \<noteq> Panic)"

lemma unat_saturating_add_ge: "unat a \<le> unat (saturating_add a (b :: 'a::len word))"
proof (cases "unat a + unat b < 2 ^ LENGTH('a)")
  case True
  then show ?thesis by (simp add: saturating_add_def unat_word_ariths)
next
  case False
  then show ?thesis by (simp add: saturating_add_def word_le_nat_alt [symmetric])
qed

lemma get_range_calm:
  assumes "get_calm st"
  shows "fst (get_range st key off len s) \<noteq> Panic"
proof -
  have "fst (cs_get st key s) \<noteq> Panic" using assms by (simp add: get_calm_def)
  moreover have "min (unat off) n \<le> unat (saturating_add off len)" for n
    using unat_saturating_add_ge [of off len] by linarith
  ultimately show ?thesis
    by (auto simp: get_range_def Let_def obind_Panic_iff slice_def
        split: prod.splits outcome.splits option.splits)
qed

lemma object_key_not_Panic [simp]: "object_key r l name \<noteq> Panic"
  by (auto simp: object_key_def Let_def obind_Panic_iff split: option.splits)

lemma range_read_calm: "get_calm st \<Longrightarrow> calm anything (range_read st l name off len)"
proof -
  assume st: "get_calm st"
  have "calm anything (on_store (get_range st object off len))" for object
    using get_range_calm [OF st, of object off len]
    by (auto simp: calm_def on_store_def split: prod.splits) (metis fst_conv)
  then have "calm anything (rbind (rret (object_key r l name)) (\<lambda>object.
      rbind (on_store (get_range st object off len)) (\<lambda>found.
      rbind (rret (ok_or found (Missing name))) (\<lambda>bs.
      rret (if of_nat (length bs) < len then Err (ShortRange name off len) else Ok bs)))))" for r
    by (intro calm_rbind [where P = anything]) auto
  then show ?thesis
    unfolding calm_def range_read_def by blast
qed

lemma read_block_calm: "get_calm st \<Longrightarrow> calm anything (read_block st l name off len)"
proof -
  assume st: "get_calm st"
  have "calm anything (rbind (range_read st l name off len) (\<lambda>bs (r, s).
      (Ok bs, (r\<lparr>rd_blocks := bc_put name off bs (rd_blocks r)\<rparr>, s))))"
    by (rule calm_rbind [OF range_read_calm [OF st]]) (auto simp: calm_def footers_legal_def)
  note miss = calmD(1,2) [OF this]
  have "fst (read_block st l name off len (r, s)) \<noteq> Panic \<and>
      footers_legal (fst (snd (read_block st l name off len (r, s))))" if "footers_legal r" for r s
    using miss [of "(r\<lparr>rd_blocks := snd (bc_get name off (rd_blocks r))\<rparr>, s)"] that
    by (cases "bc_get name off (rd_blocks r)") (simp add: read_block_def Let_def split: option.split)
  then show ?thesis by (simp add: calm_def)
qed

abbreviation askable :: "layer_footer \<Rightarrow> bool" where
  "askable f \<equiv> legal (lf_bloom f)"

lemma footer_from_calm:
  assumes "get_calm st"
  shows "calm askable (footer_from ext st l name guess suffix)"
proof -
  have "calm askable (rbind (range_read st l name off len) (\<lambda>exact (r, s).
      (map_err (LayerFault name) (read_layer_footer_suffix ext k exact n), r\<lparr>rd_guess := g r\<rparr>, s)))" for off len k n g
    by (rule calm_rbind [OF range_read_calm [OF assms]])
      (auto simp: calm_def footers_legal_def dest: read_layer_footer_suffix_legal)
  then show ?thesis
    unfolding footer_from_def
    by (auto split: outcome.split layer_decode_error.split dest: read_layer_footer_suffix_legal)
qed

lemma keep_footer_calm: "askable f \<Longrightarrow> calm askable (keep_footer l name f)"
  using set_bt_insert [of name f]
  by (fastforce simp: calm_def keep_footer_def footers_legal_def)

lemma read_footer_calm:
  assumes st: "get_calm st"
  shows "calm askable (read_footer ext st l)"
proof -
  have fresh: "calm askable (rbind (range_read st l name off guess) (\<lambda>suffix.
      rbind (footer_from ext st l name guess suffix) (keep_footer l name)))" for name off guess
    by (rule calm_rbind [OF range_read_calm [OF st] calm_rbind [OF footer_from_calm [OF st] keep_footer_calm]])
  have kept: "askable f" if "bt_get (rd_footers r) name = Some f" "footers_legal r" for r name f
    using that by (auto simp: footers_legal_def bt_get_def dest!: map_of_SomeD)
  show ?thesis
    using fresh kept unfolding calm_def read_footer_def Let_def by (auto split: option.split)
qed

lemma footer_may_contain_calm:
  "askable f \<Longrightarrow> calm anything (rret (footer_may_contain ext f key))"
  by (auto simp: footer_may_contain_legal)

lemma image_lookup_calm: "get_calm st \<Longrightarrow> calm anything (image_lookup ext st l name key metas)"
  by (induction metas)
    (auto intro!: calm_rbind [where P = anything] read_block_calm split: option.split)

lemma find_base_calm: "get_calm st \<Longrightarrow> calm anything (find_base ext st key ls)"
  by (induction ls)
    (auto intro!: calm_rbind [OF read_footer_calm] calm_rbind [OF footer_may_contain_calm]
      calm_rbind [OF image_lookup_calm] split: option.split)

lemma merge_blocks_calm:
  "get_calm st \<Longrightarrow> calm anything (merge_blocks ext st l name key floor ceil metas merged)"
  by (induction metas arbitrary: merged)
    (auto intro!: calm_rbind [where P = anything] read_block_calm)

lemma merge_deltas_calm: "get_calm st \<Longrightarrow> calm anything (merge_deltas ext st key lsn floor ls out)"
proof (induction ls arbitrary: out)
  case (Cons l ls)
  then show ?case
    by (cases out)
      (auto intro!: calm_rbind [OF read_footer_calm] calm_rbind [OF footer_may_contain_calm]
        calm_rbind [OF merge_blocks_calm])
qed auto

text \<open>The floor is the position of an image of the plan.\<close>

lemma rbind_Ok_iff:
  "rbind m f w = (Ok y, w') \<longleftrightarrow> (\<exists>x u. m w = (Ok x, u) \<and> f x u = (Ok y, w'))"
  by (auto simp: rbind_def split: prod.splits outcome.splits)

lemma find_base_floor:
  "find_base ext st key ls w = (Ok (Some (page, at)), w') \<Longrightarrow> \<exists>l \<in> set ls. at = ld_min_lsn l"
proof (induction ls arbitrary: w)
  case (Cons l ls)
  then show ?case
    by (auto simp: rbind_Ok_iff rret_def split: if_splits option.splits)
qed (simp add: rret_def)

lemma clamp_le: "clamp l lsn \<le> lsn"
  by (auto simp: clamp_def split: option.split)

lemma plan_images_lsn: "l \<in> set (rp_images (plan m key lsn)) \<Longrightarrow> ld_min_lsn l \<le> clamp l lsn"
  by (auto simp: plan_def)

lemma collect_records_calm:
  assumes "get_calm st" "\<And>page at. base = Some (page, at) \<Longrightarrow> at \<le> lsn"
  shows "calm anything (collect_records ext st m mem key lsn base)"
proof -
  have "(case base of Some (_, at) \<Rightarrow> at | None \<Rightarrow> 0) \<le> lsn"
    using assms(2) by (auto split: option.split)
  then show ?thesis
    unfolding collect_records_def Let_def
    by (auto intro!: calm_rbind [OF merge_deltas_calm [OF assms(1)]] calm_rbind [where P = anything]
        simp: records_for_panics_iff)
qed

lemma find_base_floor_calm:
  assumes "get_calm st"
  shows "calm (\<lambda>base. \<forall>page at. base = Some (page, at) \<longrightarrow> at \<le> lsn)
    (find_base ext st key (rp_images (plan m key lsn)))"
proof -
  have "at \<le> lsn" if "fst (find_base ext st key (rp_images (plan m key lsn)) w) = Ok (Some (page, at))" for w page at
  proof -
    have "find_base ext st key (rp_images (plan m key lsn)) w =
        (Ok (Some (page, at)), snd (find_base ext st key (rp_images (plan m key lsn)) w))"
      using that by (metis prod.collapse)
    then obtain l where "l \<in> set (rp_images (plan m key lsn))" "at = ld_min_lsn l"
      using find_base_floor by blast
    then show ?thesis using plan_images_lsn clamp_le order_trans by blast
  qed
  then show ?thesis
    using find_base_calm [OF assms, of ext key "rp_images (plan m key lsn)"] unfolding calm_def by blast
qed

text \<open>C8. Reconstructing a page never panics, whatever bytes, errors or short ranges the
  store answers and whatever the layer map, the memtable and the block cache hold, as long as the
  store's own read does not panic and the filters of the footers the reader already keeps are of a
  size that can be probed; and the footers it keeps after the call are again such footers. A new
  reader keeps none, so over a reader's life no reconstruction panics.
\<close>

theorem reconstruct_never_panics:
  assumes "\<And>object s. fst (cs_get st object s) \<noteq> Panic"
    and "footers_legal (fst w)"
  shows "fst (reconstruct ext st m mem key lsn w) \<noteq> Panic \<and>
    footers_legal (fst (snd (reconstruct ext st m mem key lsn w))) \<and>
    footers_legal (reader_new prefix setting) \<and> footers_legal (for_shard tenant shard setting)"
proof -
  have st: "get_calm st" using assms(1) by (simp add: get_calm_def)
  have "calm anything (reconstruct ext st m mem key lsn)"
    unfolding reconstruct_def
    by (rule calm_rbind [OF find_base_floor_calm [OF st] collect_records_calm [OF st]]) blast
  then have "fst (reconstruct ext st m mem key lsn w) \<noteq> Panic"
    "footers_legal (fst (snd (reconstruct ext st m mem key lsn w)))"
    using assms(2) unfolding calm_def by blast+
  moreover have "footers_legal (reader_new prefix setting)" "footers_legal (for_shard tenant shard setting)"
    by (simp_all add: footers_legal_def reader_new_def for_shard_def)
  ultimately show ?thesis by blast
qed

definition garbage_store :: mem_store where
  "garbage_store =
     mem_new\<lparr>ms_objects := map (\<lambda>l. (''p/'' @ layer_name l, ([0x5A, 0x4C, 0x59, 0x46], ''1''))) [hd sample_layers]\<rparr>"

theorem reconstruct_never_panics_witness:
  "\<exists>m. layer_map_new sample_layers = Some (Ok m) \<and>
     (\<forall>object s. fst (cs_get mem_ops object s) \<noteq> Panic) \<and>
     footers_legal (reader_new ''p/'' None) \<and>
     fst (reconstruct sample_ext mem_ops m mt_new (key_page 1 1 7 0 3) 0x50 (reader_new ''p/'' None, garbage_store))
       \<noteq> Panic"
proof -
  obtain m where "layer_map_new sample_layers = Some (Ok m)"
    using sample_map by blast
  moreover have calm: "fst (cs_get mem_ops object s) \<noteq> Panic" for object s
    by (simp add: mem_ops_def mem_get_def)
  moreover have kept: "footers_legal (fst (reader_new ''p/'' None, garbage_store))"
    by (simp add: footers_legal_def reader_new_def)
  ultimately show ?thesis
    using reconstruct_never_panics [of mem_ops, OF calm kept] by auto
qed

end
