(* ===== verification/Layer_Range.thy ===== *)
theory Layer_Range
  imports Delta_Roundtrip Image_Roundtrip
begin

text \<open>
  A built layer as the read path sees it, by ranges: a suffix of any length yields the
  footer or says how long a suffix would, every index row names its own range of the
  object, and the blocks under the index hold the layer's entries, which the filter
  admits and the footer's bounds cover.
\<close>

definition foot_need :: "layer_footer \<Rightarrow> nat" where
  "foot_need f = length (encode_footer f) + TAIL_LEN"

definition readable :: "externals \<Rightarrow> bytes \<Rightarrow> layer_footer \<Rightarrow> bool" where
  "readable ext buf f \<longleftrightarrow>
     length buf < 2 ^ 32 \<and> footer_ok (length buf) f \<and> foot_need f + LAYER_HEADER_LEN \<le> length buf \<and>
     (\<forall>n. TAIL_LEN \<le> n \<and> n \<le> length buf \<longrightarrow>
        read_layer_footer_suffix ext (lf_kind f) (drop (length buf - n) buf) (of_nat (length buf)) =
          (if foot_need f \<le> n then Ok f else Err (Truncated n (foot_need f)))) \<and>
     distinct (map lb_offset (lf_blocks f))"

lemma drop_object_short:
  assumes "12 \<le> n" "n \<le> length (encode_footer f) + 12"
  shows "\<exists>pre. length pre = n - 12 \<and>
    drop (length (object_of ext kind as f) - n) (object_of ext kind as f) =
      pre @ to_le (of_nat (length (encode_footer f)) :: u32) @
      to_le (crc32c_append ext (crc32c ext (header kind)) (encode_footer f)) @ LAYER_FOOTER_MAGIC"
proof -
  let ?head = "header kind @ stored_all ext as"
  let ?tail = "to_le (of_nat (length (encode_footer f)) :: u32) @
      to_le (crc32c_append ext (crc32c ext (header kind)) (encode_footer f)) @ LAYER_FOOTER_MAGIC"
  have obj: "object_of ext kind as f = ?head @ encode_footer f @ ?tail"
    by (simp add: object_of_def)
  have n: "length (object_of ext kind as f) - n = length ?head + (length (encode_footer f) + 12 - n)"
    using assms by (simp add: length_object_of)
  show ?thesis
    unfolding n obj using assms
    by (intro exI [of _ "drop (length (encode_footer f) + 12 - n) (encode_footer f)"]) (simp add: add.commute)
qed

lemma read_footer_suffix_short:
  assumes "12 \<le> n" "n < length (encode_footer f) + 12" "length (object_of ext kind as f) < 2 ^ 32"
  shows "read_layer_footer_suffix ext kind
      (drop (length (object_of ext kind as f) - n) (object_of ext kind as f))
      (of_nat (length (object_of ext kind as f))) = Err (Truncated n (foot_need f))"
proof -
  define k where "k = length (encode_footer f)"
  define L where "L = length (object_of ext kind as f)"
  have L: "L = 20 + length (stored_all ext as) + k" by (simp add: L_def k_def length_object_of)
  obtain pre where pre: "length pre = n - 12" "drop (L - n) (object_of ext kind as f) =
      pre @ to_le (of_nat k :: u32) @
      to_le (crc32c_append ext (crc32c ext (header kind)) (encode_footer f)) @ LAYER_FOOTER_MAGIC"
    using drop_object_short [OF assms(1), of f ext kind as] assms(2) by (auto simp: k_def L_def)
  have "L < 2 ^ 32" using assms(3) by (simp add: L_def)
  then have uL: "unat (of_nat L :: u64) = L" by (simp add: unat_of_nat_small)
  have uk: "unat (of_nat k :: u32) = k"
    using \<open>L < 2 ^ 32\<close> L by (simp add: unat_of_nat_small)
  have "8 \<le> L" using L by simp
  then have uL8: "unat (of_nat L - 8 :: u64) = L - 8"
    by (simp add: unat_sub word_le_nat_alt uL)
  have need: "checked_add_usize k TAIL_LEN = Some (k + TAIL_LEN)"
    using assms(3) L by (simp add: checked_add_usize_def TAIL_LEN_def L_def)
  show ?thesis
    unfolding L_def [symmetric] pre(2) read_layer_footer_suffix_def
    using assms(1,2) pre(1) L uL uL8 need uk
    by (simp add: Let_def slice_def TAIL_LEN_def LAYER_HEADER_LEN_def foot_need_def flip: k_def)
qed

text \<open>No two rows share an offset when no block is stored as nothing.\<close>

lemma rows_offsets:
  assumes "\<forall>a \<in> set as. stored ext (ab_raw a) \<noteq> []" "off + length (stored_all ext as) < 2 ^ 64"
  shows "sorted_wrt (<) (map lb_offset (rows ext off as)) \<and>
    (\<forall>b \<in> set (rows ext off as). (of_nat off :: u64) \<le> lb_offset b)"
  using assms
proof (induction as arbitrary: off)
  case (Cons a as)
  let ?off = "off + length (stored ext (ab_raw a))"
  have "0 < length (stored ext (ab_raw a))" using Cons.prems by simp
  then have "(of_nat off :: u64) < of_nat ?off"
    using Cons.prems(2) by (simp add: word_less_nat_alt unat_of_nat_small del: of_nat_add)
  with Cons.IH [of ?off] Cons.prems show ?case
    by (auto simp: row_def add.assoc intro: less_le_trans order.strict_implies_order)
qed simp

lemma object_readable:
  assumes ok: "shell_ok kind as bl lo hi" and f: "f = footer_of ext kind as bl lo hi"
    and small: "length (object_of ext kind as f) < 2 ^ 32"
    and raw: "\<forall>a \<in> set as. ab_raw a \<noteq> []" and ext: "lz4_nonempty ext"
  shows "readable ext (object_of ext kind as f) f"
proof -
  let ?buf = "object_of ext kind as f"
  have len: "length ?buf = 20 + length (stored_all ext as) + length (encode_footer f)"
    by (rule length_object_of)
  have kind: "lf_kind f = kind" and rows: "lf_blocks f = rows ext 8 as"
    by (simp_all add: f footer_of_def LAYER_HEADER_LEN_def)
  have shell: "parse_shell ext ?buf = Ok (f, 8 + length (stored_all ext as))"
    by (rule parse_shell_object [OF ok f small])
  have "footer_ok (length ?buf) f"
    using parse_shell_accepts [OF shell] small
    by (auto simp: footer_ok_def intro: row_within_mono)
  moreover have "read_layer_footer_suffix ext kind (drop (length ?buf - n) ?buf) (of_nat (length ?buf)) =
      (if foot_need f \<le> n then Ok f else Err (Truncated n (foot_need f)))"
    if "TAIL_LEN \<le> n" "n \<le> length ?buf" for n
    using that read_footer_suffix_short [of n f ext kind as] small len
      read_footer_suffix_object [OF ok f small, of "length ?buf - n"]
    by (auto simp: foot_need_def TAIL_LEN_def)
  moreover have "stored ext (ab_raw a) \<noteq> []" if "a \<in> set as" for a
    using that raw ext by (auto simp: pack_def lz4_nonempty_def)
  then have "distinct (map lb_offset (lf_blocks f))"
    using rows_offsets [of as ext 8] small len rows by (auto simp: strict_sorted_iff)
  ultimately show ?thesis
    using small len kind by (simp add: readable_def foot_need_def TAIL_LEN_def LAYER_HEADER_LEN_def)
qed

section \<open>What the layer holds\<close>

definition delta_content :: "externals \<Rightarrow> bytes \<Rightarrow> layer_footer \<Rightarrow> delta_entry list \<Rightarrow> bool" where
  "delta_content ext buf f es \<longleftrightarrow>
     (\<exists>bs. es = concat bs \<and> list_all2 (delta_block_of ext buf) (lf_blocks f) bs) \<and>
     (\<forall>e \<in> set es. footer_admits ext f (de_key e) \<and>
        lf_min_key f \<le> de_key e \<and> de_key e \<le> lf_max_key f \<and>
        lf_min_lsn f \<le> de_lsn e \<and> de_lsn e \<le> lf_max_lsn f)"

definition image_content :: "externals \<Rightarrow> bytes \<Rightarrow> layer_footer \<Rightarrow> image_entry list \<Rightarrow> bool" where
  "image_content ext buf f es \<longleftrightarrow>
     (\<exists>bs. es = concat bs \<and> list_all2 (image_block_of ext buf) (lf_blocks f) bs) \<and>
     (\<forall>e \<in> set es. footer_admits ext f (ie_key e) \<and>
        lf_min_key f \<le> ie_key e \<and> ie_key e \<le> lf_max_key f)"

lemma filter_admits:
  assumes "lf_bloom f = hashes_filter (key_hashes ext keys)" "k \<in> set keys"
    and "length (encode_footer f) < 2 ^ 32"
  shows "footer_admits ext f k"
proof -
  have "length (bits (hashes_filter (map (bloom_hash ext) (map key_encode keys)))) < 2 ^ 61"
    using assms(1,3) by (simp add: length_encode_footer key_hashes_def)
  then show ?thesis
    using assms(2) hashes_filter_admits [of "key_encode k" "map key_encode keys" ext]
    by (simp add: footer_admits_def assms(1) key_hashes_def)
qed

lemma fold_min_max_bounds:
  fixes xs :: "lsn list"
  assumes "x \<in> set xs"
  shows "fold min xs a \<le> x" "x \<le> fold max xs b"
proof -
  show "fold min xs a \<le> x"
    using assms by (subst Min.set_eq_fold [symmetric]) (auto intro!: Min_le)
  show "x \<le> fold max xs b"
    using assms by (subst Max.set_eq_fold [symmetric]) (auto intro!: Max_ge)
qed

lemma build_delta_readable:
  assumes "build_delta ext es target = Ok (buf, f)" "target \<le> LAYER_BLOCK_TARGET"
    and "length buf < 2 ^ 32" "lz4_faithful ext" "lz4_nonempty ext"
  shows "readable ext buf f" "lf_kind f = Delta" "delta_content ext buf f es"
proof -
  obtain bs where bs: "concat bs = es" "[] \<notin> set bs" "delta_sorted es"
    "f = delta_footer ext bs" "buf = object_of ext Delta (map dab bs) f"
    "shell_ok Delta (map dab bs) (lf_bloom f) (lf_min_lsn f) (lf_max_lsn f)"
    using build_delta_object [OF assms(1-3)] .
  have f: "f = footer_of ext Delta (map dab bs) (lf_bloom f) (lf_min_lsn f) (lf_max_lsn f)"
    unfolding bs(4) by (simp add: delta_footer_def footer_of_def)
  have "\<forall>a \<in> set (map dab bs). ab_raw a \<noteq> []"
    using bs(2) by (auto simp: dab_def raw_empty_iff)
  then show "readable ext buf f"
    using object_readable [OF bs(6) f] assms(3,5) bs(5) by simp
  show kind: "lf_kind f = Delta" using f by (metis footer_of_def layer_footer.select_convs(1))
  have shell: "parse_shell ext buf = Ok (f, length buf - length (encode_footer f) - 12)"
    and dec: "decode_delta_blocks ext buf 0 (lf_blocks f) [] = Ok es"
    using build_delta_shell [OF assms(1-4)] by simp_all
  obtain bs' where bs': "es = concat bs'" "list_all2 (delta_block_of ext buf) (lf_blocks f) bs'"
    using decode_delta_blocks_accepts [OF dec] by auto
  have oks: "list_all2 (block_ok de_key) (lf_blocks f) bs'"
    using bs'(2) by (rule list_all2_mono) (auto dest: delta_block_of_ok)
  have "footer_ok (length buf - length (encode_footer f) - 12) f"
    using parse_shell_accepts [OF shell] assms(3) by simp
  moreover from this have "bs' \<noteq> []" using oks by (auto simp: footer_ok_def)
  ultimately have ends: "lf_min_key f = de_key (hd es)" "lf_max_key f = de_key (last es)"
    using block_keys_ends [OF oks] bs'(1) by (simp_all add: footer_ok_def)
  have "footer_admits ext f (de_key e)" if "e \<in> set es" for e
    using filter_admits [of f ext "remdups_adj (map de_key (concat bs))"] that bs(1,5) assms(3)
      length_object_of [of ext Delta "map dab bs" f]
    by (simp add: bs(4) delta_footer_def footer_of_def)
  moreover have "lf_min_lsn f \<le> de_lsn e \<and> de_lsn e \<le> lf_max_lsn f" if "e \<in> set es" for e
    using fold_min_max_bounds [of "de_lsn e" "map de_lsn es"] that
    by (simp add: bs(4) delta_footer_def footer_of_def bs(1))
  ultimately show "delta_content ext buf f es"
    using bs' delta_sorted_keys [OF bs(3)] ends by (auto simp: delta_content_def)
qed

lemma build_image_readable:
  assumes "build_image ext es lsn target = Ok (buf, f)" "target \<le> LAYER_BLOCK_TARGET"
    and "length buf < 2 ^ 32" "lz4_faithful ext" "lz4_nonempty ext"
  shows "readable ext buf f" "lf_kind f = Image" "image_content ext buf f es"
proof -
  obtain bs where bs: "concat bs = es" "[] \<notin> set bs" "ascending ie_key es"
    "f = image_footer ext lsn bs" "buf = object_of ext Image (map iab bs) f"
    "shell_ok Image (map iab bs) (lf_bloom f) lsn lsn"
    using build_image_object [OF assms(1-3)] .
  have f: "f = footer_of ext Image (map iab bs) (lf_bloom f) lsn lsn"
    unfolding bs(4) by (simp add: image_footer_def footer_of_def)
  have "\<forall>a \<in> set (map iab bs). ab_raw a \<noteq> []"
    using bs(2) by (auto simp: iab_def concat_eq_Nil_conv enc_ie_def key_encode_def ex_in_conv)
  then show "readable ext buf f"
    using object_readable [OF bs(6) f] assms(3,5) bs(5) by simp
  show kind: "lf_kind f = Image" using f by (metis footer_of_def layer_footer.select_convs(1))
  have shell: "parse_shell ext buf = Ok (f, length buf - length (encode_footer f) - 12)"
    and dec: "decode_image_blocks ext buf 0 (lf_blocks f) [] = Ok es"
    using build_image_shell [OF assms(1-4)] by simp_all
  obtain bs' where bs': "es = concat bs'" "list_all2 (image_block_of ext buf) (lf_blocks f) bs'"
    using decode_image_blocks_accepts [OF dec] by auto
  have oks: "list_all2 (block_ok ie_key) (lf_blocks f) bs'"
    using bs'(2) by (rule list_all2_mono) (auto dest: image_block_of_ok)
  have "footer_ok (length buf - length (encode_footer f) - 12) f"
    using parse_shell_accepts [OF shell] assms(3) by simp
  moreover from this have "bs' \<noteq> []" using oks by (auto simp: footer_ok_def)
  ultimately have ends: "lf_min_key f = ie_key (hd es)" "lf_max_key f = ie_key (last es)"
    using block_keys_ends [OF oks] bs'(1) by (simp_all add: footer_ok_def)
  have "ie_key (hd es) \<le> ie_key e \<and> ie_key e \<le> ie_key (last es)" if "e \<in> set es" for e
    using bs(3) that ascending_le_last [OF bs(3) that] by (cases es) (auto intro: less_imp_le)
  moreover have "footer_admits ext f (ie_key e)" if "e \<in> set es" for e
    using filter_admits [of f ext "map ie_key (concat bs)"] that bs(1,5) assms(3)
      length_object_of [of ext Image "map iab bs" f]
    by (simp add: bs(4) image_footer_def footer_of_def)
  ultimately show "image_content ext buf f es"
    using bs' ends by (auto simp: image_content_def)
qed

end
