(* ===== verification/Page_Read_Proofs.thy ===== *)
theory Page_Read_Proofs
  imports Page_Read_Safety Layer_Range
begin

text \<open>
  What a reconstruction returns when the store holds the layers the map names. The
  locale \<open>object_store\<close> is all the read path needs of a store: a read answers the
  object and leaves the objects alone. Inside it, each step of the reader is a
  statement that the call returns, with what, and with its caches still true to the
  stored layers.
\<close>

section \<open>Calls that return\<close>

definition returns ::
  "('a, 's) read_op \<Rightarrow> layer_reader \<times> 's \<Rightarrow> ('a \<Rightarrow> layer_reader \<times> 's \<Rightarrow> bool) \<Rightarrow> bool" where
  "returns m w Q \<longleftrightarrow> (\<exists>x w'. m w = (Ok x, w') \<and> Q x w')"

lemma returns_rret [simp]: "returns (rret (Ok x)) w Q \<longleftrightarrow> Q x w"
  by (simp add: returns_def rret_def)

lemma returns_rbind:
  assumes "returns m w P" "\<And>x u. P x u \<Longrightarrow> returns (f x) u Q"
  shows "returns (rbind m f) w Q"
  using assms by (auto simp: returns_def rbind_def)

lemma returns_rret_bind [simp]: "returns (rbind (rret (Ok x)) f) w Q \<longleftrightarrow> returns (f x) w Q"
  by (simp add: returns_def rret_def rbind_def)

lemma returns_mono: "returns m w P \<Longrightarrow> (\<And>x u. P x u \<Longrightarrow> Q x u) \<Longrightarrow> returns m w Q"
  by (auto simp: returns_def)

lemma returns_pair: "returns (\<lambda>w. (Ok (x w), g w)) w Q \<longleftrightarrow> Q (x w) (g w)"
  by (simp add: returns_def)

section \<open>Layers on a shelf\<close>

definition layer_bytes :: "layer_reader \<Rightarrow> (string \<Rightarrow> bytes option) \<Rightarrow> layer_desc \<Rightarrow> bytes option" where
  "layer_bytes r objs l =
     (case object_key r l (layer_name l) of Ok object \<Rightarrow> objs object | _ \<Rightarrow> None)"

record shelf =
  sh_layers :: "layer_desc list"
  sh_bytes :: "layer_desc \<Rightarrow> bytes"
  sh_foot :: "layer_desc \<Rightarrow> layer_footer"
  sh_pages :: "layer_desc \<Rightarrow> image_entry list"
  sh_recs :: "layer_desc \<Rightarrow> delta_entry list"

definition shelved :: "externals \<Rightarrow> shelf \<Rightarrow> layer_reader \<Rightarrow> (string \<Rightarrow> bytes option) \<Rightarrow> bool" where
  "shelved ext sh r objs \<longleftrightarrow>
     inj_on layer_name (set (sh_layers sh)) \<and>
     (\<forall>l \<in> set (sh_layers sh).
        readable ext (sh_bytes sh l) (sh_foot sh l) \<and> footer_matches (sh_foot sh l) l \<and>
        ld_size l = of_nat (length (sh_bytes sh l)) \<and> layer_bytes r objs l = Some (sh_bytes sh l) \<and>
        (case ld_kind l of
           Image \<Rightarrow> image_content ext (sh_bytes sh l) (sh_foot sh l) (sh_pages sh l)
         | Delta \<Rightarrow> delta_content ext (sh_bytes sh l) (sh_foot sh l) (sh_recs sh l)))"

text \<open>The caches of a reader are true to the shelf.\<close>

definition block_is :: "shelf \<Rightarrow> block_key \<Rightarrow> bytes \<Rightarrow> bool" where
  "block_is sh k bs \<longleftrightarrow>
     (\<forall>l \<in> set (sh_layers sh). \<forall>b \<in> set (lf_blocks (sh_foot sh l)).
        layer_name l = fst k \<and> lb_offset b = snd k \<longrightarrow> block_bytes (sh_bytes sh l) b = Ok bs)"

definition reader_ok :: "shelf \<Rightarrow> layer_reader \<Rightarrow> bool" where
  "reader_ok sh r \<longleftrightarrow>
     FOOTER_GUESS \<le> rd_guess r \<and> blocks.agrees (block_is sh) (rd_blocks r) \<and>
     (\<forall>l \<in> set (sh_layers sh). \<forall>f. bt_get (rd_footers r) (layer_name l) = Some f \<longrightarrow> f = sh_foot sh l)"

lemma object_key_caches [simp]:
  "object_key (r\<lparr>rd_blocks := c\<rparr>) = object_key r" "object_key (r\<lparr>rd_footers := fs\<rparr>) = object_key r"
  "object_key (r\<lparr>rd_guess := g\<rparr>) = object_key r"
  by (simp_all add: object_key_def fun_eq_iff)

lemma shelved_caches [simp]:
  "shelved ext sh (r\<lparr>rd_blocks := c\<rparr>) = shelved ext sh r"
  "shelved ext sh (r\<lparr>rd_footers := fs\<rparr>) = shelved ext sh r"
  "shelved ext sh (r\<lparr>rd_guess := g\<rparr>) = shelved ext sh r"
  by (simp_all add: shelved_def layer_bytes_def fun_eq_iff)

lemma readable_block:
  assumes "readable ext buf f" "b \<in> set (lf_blocks f)"
  shows "block_bytes buf b = Ok (take (unat (lb_len b)) (drop (unat (lb_offset b)) buf))"
    and "unat (lb_offset b) + unat (lb_len b) \<le> length buf"
  using assms block_bytes_accepted [of "length buf" f buf b]
  by (auto simp: readable_def footer_ok_def row_within_def)

lemma readable_legal:
  assumes "readable ext buf f"
  shows "footer_may_contain ext f key = Ok (footer_admits ext f key)"
proof -
  have "read_layer_footer_suffix ext (lf_kind f) (drop (length buf - length buf) buf) (of_nat (length buf)) = Ok f"
    using assms unfolding readable_def
    by (auto simp: foot_need_def dest!: spec [of _ "length buf"])
  then show ?thesis
    by (intro footer_may_contain_legal read_layer_footer_suffix_legal)
qed

lemma block_isI:
  assumes "shelved ext sh r objs" "l \<in> set (sh_layers sh)" "b \<in> set (lf_blocks (sh_foot sh l))"
    and "block_bytes (sh_bytes sh l) b = Ok bs"
  shows "block_is sh (layer_name l, lb_offset b) bs"
proof -
  have "l' = l" if "l' \<in> set (sh_layers sh)" "layer_name l' = layer_name l" for l'
    using assms(1,2) that by (auto simp: shelved_def inj_on_def)
  moreover have "distinct (map lb_offset (lf_blocks (sh_foot sh l)))"
    using assms(1,2) by (auto simp: shelved_def readable_def)
  then have "b' = b" if "b' \<in> set (lf_blocks (sh_foot sh l))" "lb_offset b' = lb_offset b" for b'
    using that assms(3) by (auto simp: distinct_map inj_on_def)
  ultimately show ?thesis
    unfolding block_is_def using assms(4) by (metis fst_conv snd_conv)
qed

section \<open>Entries under the index\<close>

definition page_in :: "image_entry list \<Rightarrow> layer_key \<Rightarrow> bytes \<Rightarrow> bool" where
  "page_in es key p \<longleftrightarrow> (\<exists>e \<in> set es. ie_key e = key \<and> ie_page e = p)"

lemma list_all2_in_concat:
  assumes "list_all2 P xs ys"
  shows "x \<in> set xs \<Longrightarrow> \<exists>y. P x y \<and> set y \<subseteq> set (concat ys)"
    and "e \<in> set (concat ys) \<Longrightarrow> \<exists>x \<in> set xs. \<exists>y. P x y \<and> e \<in> set y"
proof -
  show "\<exists>y. P x y \<and> set y \<subseteq> set (concat ys)" if "x \<in> set xs"
  proof -
    from that obtain i where "i < length xs" "xs ! i = x" by (auto simp: in_set_conv_nth)
    then show ?thesis
      using list_all2_nthD [OF assms, of i] list_all2_lengthD [OF assms]
      by (intro exI [of _ "ys ! i"]) (auto intro: nth_mem)
  qed
  show "\<exists>x \<in> set xs. \<exists>y. P x y \<and> e \<in> set y" if "e \<in> set (concat ys)"
    using assms that by (induction xs ys rule: list_all2_induct) auto
qed

lemma image_content_block:
  assumes "image_content ext buf f es" "b \<in> set (lf_blocks f)"
  shows "\<exists>bs blk. block_bytes buf b = Ok bs \<and> decode_image_block ext bs b = Ok blk \<and> set blk \<subseteq> set es"
  using assms list_all2_in_concat(1) [of "image_block_of ext buf" "lf_blocks f"]
  unfolding image_content_def image_block_of_def by blast

lemma delta_content_block:
  assumes "delta_content ext buf f es" "b \<in> set (lf_blocks f)"
  shows "\<exists>bs blk. block_bytes buf b = Ok bs \<and> decode_delta_block ext bs b = Ok blk \<and> set blk \<subseteq> set es"
  using assms list_all2_in_concat(1) [of "delta_block_of ext buf" "lf_blocks f"]
  unfolding delta_content_def delta_block_of_def by blast

lemma locate_in_blocks:
  assumes "readable ext buf f"
  shows "set (locate f key) \<subseteq> set (lf_blocks f)"
    and "b \<in> set (lf_blocks f) \<Longrightarrow> lb_first_key b \<le> key \<Longrightarrow> key \<le> lb_last_key b \<Longrightarrow> b \<in> set (locate f key)"
  using assms locate_filter [of f key] by (auto simp: readable_def footer_ok_def)

lemma locate_image:
  assumes "readable ext buf f" "image_content ext buf f es" "e \<in> set es"
  shows "\<exists>b \<in> set (locate f (ie_key e)). \<exists>blk. image_block_of ext buf b blk \<and> e \<in> set blk"
proof -
  obtain b blk where b: "b \<in> set (lf_blocks f)" "image_block_of ext buf b blk" "e \<in> set blk"
    using assms(2,3) list_all2_in_concat(2) [of "image_block_of ext buf" "lf_blocks f" _ e]
    unfolding image_content_def by blast
  then have "lb_first_key b \<le> ie_key e" "ie_key e \<le> lb_last_key b"
    using image_block_of_ok [OF b(2)] by (auto simp: block_ok_def)
  with b show ?thesis using locate_in_blocks(2) [OF assms(1)] by blast
qed

lemma locate_delta:
  assumes "readable ext buf f" "delta_content ext buf f es" "e \<in> set es"
  shows "\<exists>b \<in> set (locate f (de_key e)). \<exists>blk. delta_block_of ext buf b blk \<and> e \<in> set blk"
proof -
  obtain b blk where b: "b \<in> set (lf_blocks f)" "delta_block_of ext buf b blk" "e \<in> set blk"
    using assms(2,3) list_all2_in_concat(2) [of "delta_block_of ext buf" "lf_blocks f" _ e]
    unfolding delta_content_def by blast
  then have "lb_first_key b \<le> de_key e" "de_key e \<le> lb_last_key b"
    using delta_block_of_ok [OF b(2)] by (auto simp: block_ok_def)
  with b show ?thesis using locate_in_blocks(2) [OF assms(1)] by blast
qed

text \<open>The merge keys on the position: what it holds comes from the entries, and it holds
  a record at every position an entry has.\<close>

definition in_window :: "layer_key \<Rightarrow> lsn \<Rightarrow> lsn \<Rightarrow> delta_entry \<Rightarrow> bool" where
  "in_window key floor ceil e \<longleftrightarrow> de_key e = key \<and> floor < de_lsn e \<and> de_lsn e \<le> ceil"

definition merges :: "(delta_entry \<Rightarrow> bool) \<Rightarrow> (lsn, bytes) btree \<Rightarrow> (lsn, bytes) btree \<Rightarrow> bool" where
  "merges E m m' \<longleftrightarrow>
     (bt_wf m \<longrightarrow> bt_wf m') \<and> dom (bt_get m') = dom (bt_get m) \<union> de_lsn ` Collect E \<and>
     (\<forall>at r. bt_get m' at = Some r \<longrightarrow> bt_get m at = Some r \<or> (\<exists>e. E e \<and> de_lsn e = at \<and> de_record e = r))"

lemma merges_refl: "(\<And>e. \<not> E e) \<Longrightarrow> merges E m m"
  by (auto simp: merges_def)

lemma merges_trans:
  assumes "merges E m1 m2" "merges E' m2 m3" "\<And>e. E'' e \<longleftrightarrow> E e \<or> E' e"
  shows "merges E'' m1 m3"
proof -
  have "Collect E'' = Collect E \<union> Collect E'" using assms(3) by auto
  then have "dom (bt_get m3) = dom (bt_get m1) \<union> de_lsn ` Collect E''"
    using assms(1,2) unfolding merges_def by (simp add: image_Un Un_assoc)
  moreover have "bt_get m1 at = Some r \<or> (\<exists>e. E'' e \<and> de_lsn e = at \<and> de_record e = r)"
    if "bt_get m3 at = Some r" for at r
    using that assms unfolding merges_def by metis
  ultimately show ?thesis using assms(1,2) by (simp add: merges_def)
qed

lemma merge_entries_merges:
  "merges (\<lambda>e. e \<in> set es \<and> in_window key floor ceil e) m (merge_entries key floor ceil es m)"
proof (induction es arbitrary: m)
  case Nil
  then show ?case by (simp add: merge_entries_def merges_refl)
next
  case (Cons e es)
  let ?m = "if in_window key floor ceil e then bt_insert (de_lsn e) (de_record e) m else m"
  have "merges (\<lambda>x. x = e \<and> in_window key floor ceil x) m ?m"
    by (auto simp: merges_def bt_get_insert bt_wf_insert)
  then have "merges (\<lambda>x. x \<in> set (e # es) \<and> in_window key floor ceil x) m (merge_entries key floor ceil es ?m)"
    by (rule merges_trans [OF _ Cons.IH]) auto
  moreover have "merge_entries key floor ceil (e # es) m = merge_entries key floor ceil es ?m"
    by (simp add: merge_entries_def in_window_def)
  ultimately show ?case by simp
qed

text \<open>What a search of some blocks of an image layer answers.\<close>

definition looked ::
  "externals \<Rightarrow> shelf \<Rightarrow> layer_desc \<Rightarrow> layer_key \<Rightarrow> layer_block list \<Rightarrow> bytes option \<Rightarrow> bool" where
  "looked ext sh l key metas x \<longleftrightarrow>
     (case x of
        Some p \<Rightarrow> page_in (sh_pages sh l) key p
      | None \<Rightarrow> \<forall>b \<in> set metas. \<forall>blk. image_block_of ext (sh_bytes sh l) b blk \<longrightarrow> key \<notin> ie_key ` set blk)"

text \<open>The base among image layers: from the first of them that holds the key.\<close>

definition base_among :: "shelf \<Rightarrow> layer_key \<Rightarrow> layer_desc list \<Rightarrow> (bytes \<times> lsn) option \<Rightarrow> bool" where
  "base_among sh key ls x \<longleftrightarrow>
     (case x of
        Some (p, at) \<Rightarrow> \<exists>pre l post. ls = pre @ l # post \<and> at = ld_min_lsn l \<and> page_in (sh_pages sh l) key p \<and>
          (\<forall>l' \<in> set pre. \<forall>p. \<not> page_in (sh_pages sh l') key p)
      | None \<Rightarrow> \<forall>l \<in> set ls. \<forall>p. \<not> page_in (sh_pages sh l) key p)"

section \<open>What a read at a position must answer\<close>

text \<open>An image the position may use, and a record the position may see: from a delta layer
  up to what the layer may serve, or from the memtable.\<close>

definition image_seen :: "shelf \<Rightarrow> layer_key \<Rightarrow> lsn \<Rightarrow> lsn \<Rightarrow> bytes \<Rightarrow> bool" where
  "image_seen sh key lsn at p \<longleftrightarrow>
     (\<exists>l \<in> set (sh_layers sh). ld_kind l = Image \<and> ld_min_lsn l = at \<and> at \<le> clamp l lsn \<and>
        page_in (sh_pages sh l) key p)"

definition record_seen :: "shelf \<Rightarrow> memtable \<Rightarrow> layer_key \<Rightarrow> lsn \<Rightarrow> lsn \<Rightarrow> bytes \<Rightarrow> bool" where
  "record_seen sh mem key lsn at r \<longleftrightarrow>
     (\<exists>l \<in> set (sh_layers sh). ld_kind l = Delta \<and> at \<le> clamp l lsn \<and>
        \<lparr>de_key = key, de_lsn = at, de_record = r\<rparr> \<in> set (sh_recs sh l)) \<or>
     mt_get mem key at = Some r \<and> at \<le> lsn"

definition read_spec :: "shelf \<Rightarrow> memtable \<Rightarrow> layer_key \<Rightarrow> lsn \<Rightarrow> reconstruction \<Rightarrow> bool" where
  "read_spec sh mem key lsn rc \<longleftrightarrow>
     (case (rc_base rc, rc_base_lsn rc) of
        (Some p, Some at) \<Rightarrow> image_seen sh key lsn at p \<and> (\<forall>at' p'. image_seen sh key lsn at' p' \<longrightarrow> at' \<le> at)
      | (None, None) \<Rightarrow> \<forall>at p. \<not> image_seen sh key lsn at p
      | _ \<Rightarrow> False) \<and>
     sorted_wrt (<) (map fst (rc_records rc)) \<and>
     (\<forall>at r. (at, r) \<in> set (rc_records rc) \<longleftrightarrow>
        (case rc_base_lsn rc of Some floor \<Rightarrow> floor | None \<Rightarrow> 0) < at \<and> record_seen sh mem key lsn at r)"

lemma plan_layers:
  assumes "layer_map_new layers = Some (Ok m)"
  shows "set (rp_images (plan m key lsn)) =
      {l \<in> set layers. ld_kind l = Image \<and> covers l key \<and> ld_min_lsn l \<le> clamp l lsn}"
    and "set (rp_deltas (plan m key lsn)) =
      {l \<in> set layers. ld_kind l = Delta \<and> covers l key \<and> ld_min_lsn l \<le> clamp l lsn}"
    and "sorted_wrt (\<lambda>a b. ld_min_lsn b \<le> ld_min_lsn a) (rp_images (plan m key lsn))"
proof -
  have m: "map_for layers m" using layer_map_new_cases [of layers] assms by auto
  then have "set (map (\<lambda>i. layers ! i) (stab layers (lm_images m) key)) =
      set (filter (\<lambda>l. ld_kind l = Image \<and> covers l key) layers)"
    "set (map (\<lambda>i. layers ! i) (stab layers (lm_deltas m) key)) =
      set (filter (\<lambda>l. ld_kind l = Delta \<and> covers l key) layers)" "lm_layers m = layers"
    using mset_eq_setD [OF stab_layers [of layers Image "lm_images m" key]]
      mset_eq_setD [OF stab_layers [of layers Delta "lm_deltas m" key]]
    by (simp_all add: map_for_def)
  then show "set (rp_images (plan m key lsn)) =
      {l \<in> set layers. ld_kind l = Image \<and> covers l key \<and> ld_min_lsn l \<le> clamp l lsn}"
    "set (rp_deltas (plan m key lsn)) =
      {l \<in> set layers. ld_kind l = Delta \<and> covers l key \<and> ld_min_lsn l \<le> clamp l lsn}"
    by (auto simp: plan_def)
  show "sorted_wrt (\<lambda>a b. ld_min_lsn b \<le> ld_min_lsn a) (rp_images (plan m key lsn))"
    unfolding plan_def read_plan.select_convs by (rule sort_desc_by_sorted)
qed

lemma base_among_seen:
  assumes m: "layer_map_new (sh_layers sh) = Some (Ok m)" and sh: "shelved ext sh r objs"
    and base: "base_among sh key (rp_images (plan m key lsn)) x"
  shows "case x of
      Some (p, at) \<Rightarrow> image_seen sh key lsn at p \<and> (\<forall>at' p'. image_seen sh key lsn at' p' \<longrightarrow> at' \<le> at)
    | None \<Rightarrow> \<forall>at p. \<not> image_seen sh key lsn at p"
proof -
  have planned: "\<exists>l \<in> set (rp_images (plan m key lsn)). ld_min_lsn l = at \<and> page_in (sh_pages sh l) key p"
    if "image_seen sh key lsn at p" for at p
  proof -
    from that obtain l where l: "l \<in> set (sh_layers sh)" "ld_kind l = Image" "ld_min_lsn l = at"
      "at \<le> clamp l lsn" "page_in (sh_pages sh l) key p"
      by (auto simp: image_seen_def)
    then have "covers l key"
      using sh by (auto simp: shelved_def page_in_def image_content_def covers_def footer_matches_def)
    with l show ?thesis using plan_layers(1) [OF m, of key lsn] by auto
  qed
  show ?thesis
  proof (cases x)
    case None
    then show ?thesis using base planned by (auto simp: base_among_def)
  next
    case (Some y)
    then obtain p at pre l post where x: "x = Some (p, at)"
      and ls: "rp_images (plan m key lsn) = pre @ l # post" "at = ld_min_lsn l"
      and pg: "page_in (sh_pages sh l) key p" "\<forall>l' \<in> set pre. \<forall>p. \<not> page_in (sh_pages sh l') key p"
      using base by (cases y) (auto simp: base_among_def)
    have "l \<in> set (rp_images (plan m key lsn))" using ls by simp
    then have "image_seen sh key lsn at p"
      using pg(1) ls(2) plan_layers(1) [OF m, of key lsn] by (auto simp: image_seen_def)
    moreover have "at' \<le> at" if seen: "image_seen sh key lsn at' p'" for at' p'
    proof -
      obtain l' where l': "l' \<in> set (pre @ l # post)" "ld_min_lsn l' = at'" "page_in (sh_pages sh l') key p'"
        using planned [OF seen] ls(1) by auto
      then have "l' \<in> set (l # post)" using pg(2) by auto
      then show ?thesis
        using plan_layers(3) [OF m, of key lsn] ls l'(2) by (auto simp: sorted_wrt_append)
    qed
    ultimately show ?thesis using x by auto
  qed
qed

text \<open>A position has one record, however many layers and the memtable carry it.\<close>

definition one_record :: "shelf \<Rightarrow> memtable \<Rightarrow> layer_key \<Rightarrow> lsn \<Rightarrow> bool" where
  "one_record sh mem key lsn \<longleftrightarrow>
     (\<forall>at r r'. record_seen sh mem key lsn at r \<and> record_seen sh mem key lsn at r' \<longrightarrow> r = r')"

abbreviation above_entry :: "shelf \<Rightarrow> layer_map \<Rightarrow> layer_key \<Rightarrow> lsn \<Rightarrow> lsn \<Rightarrow> delta_entry \<Rightarrow> bool" where
  "above_entry sh m key lsn floor e \<equiv>
     \<exists>l \<in> set (above (plan m key lsn) floor). e \<in> set (sh_recs sh l) \<and> in_window key floor (clamp l lsn) e"

lemma above_entry_iff:
  assumes m: "layer_map_new (sh_layers sh) = Some (Ok m)" and sh: "shelved ext sh r objs"
  shows "above_entry sh m key lsn floor e \<longleftrightarrow>
    (\<exists>l \<in> set (sh_layers sh). ld_kind l = Delta \<and> e \<in> set (sh_recs sh l) \<and> in_window key floor (clamp l lsn) e)"
proof
  assume "above_entry sh m key lsn floor e"
  then show "\<exists>l \<in> set (sh_layers sh). ld_kind l = Delta \<and> e \<in> set (sh_recs sh l) \<and> in_window key floor (clamp l lsn) e"
    using plan_layers(2) [OF m, of key lsn] by (auto simp: above_def)
next
  assume "\<exists>l \<in> set (sh_layers sh). ld_kind l = Delta \<and> e \<in> set (sh_recs sh l) \<and> in_window key floor (clamp l lsn) e"
  then obtain l where l: "l \<in> set (sh_layers sh)" "ld_kind l = Delta" "e \<in> set (sh_recs sh l)"
    and win: "de_key e = key" "floor < de_lsn e" "de_lsn e \<le> clamp l lsn"
    by (auto simp: in_window_def)
  have "covers l key" "ld_min_lsn l \<le> de_lsn e" "de_lsn e \<le> ld_max_lsn l"
    using sh l win(1) by (auto simp: shelved_def delta_content_def covers_def footer_matches_def)
  with l win have "l \<in> set (rp_deltas (plan m key lsn))" "floor < ld_max_lsn l"
    using plan_layers(2) [OF m, of key lsn] by auto
  moreover have "case ld_upto l of None \<Rightarrow> True | Some u \<Rightarrow> u > floor"
    using win(2,3) by (auto simp: clamp_def split: option.splits)
  ultimately show "above_entry sh m key lsn floor e"
    using l(3) win by (auto simp: above_def in_window_def)
qed

lemma merged_records:
  assumes m: "layer_map_new (sh_layers sh) = Some (Ok m)" and sh: "shelved ext sh r objs"
    and mem: "mt_wf mem" and one: "one_record sh mem key lsn"
    and merged: "merges (above_entry sh m key lsn floor) [] merged"
    and recs: "records_for mem key floor lsn = (Ok recs :: (_, read_error) outcome)"
  defines "out \<equiv> fold (\<lambda>(at, rec). bt_insert at rec) recs merged"
  shows "sorted_wrt (<) (map fst out)"
    and "(at, r') \<in> set out \<longleftrightarrow> floor < at \<and> record_seen sh mem key lsn at r'"
proof -
  note iff = above_entry_iff [OF m sh, of key lsn floor]
  have wf: "bt_wf merged" using merged by (simp add: merges_def bt_wf_def)
  have out: "out = bt.insert_all recs merged" by (simp add: out_def bt.insert_all_def)
  have wf_out: "bt_wf out" unfolding out using wf by (rule bt.insert_all_wf)
  then show "sorted_wrt (<) (map fst out)" by (simp add: bt_wf_def)
  have "distinct (map fst (rev recs))"
    using records_for_exact(1) [OF mem recs] by (simp add: strict_sorted_iff rev_map [symmetric])
  then have from_mem: "map_of (rev recs) at = Some x \<longleftrightarrow> mt_get mem key at = Some x \<and> floor < at \<and> at \<le> lsn" for at x
    using records_for_exact(2) [OF mem recs] by simp
  have get: "bt_get out = bt_get merged ++ map_of (rev recs)"
    unfolding out using wf by (rule bt.lookup_insert_all)
  have sound: "floor < at \<and> record_seen sh mem key lsn at x" if "bt_get out at = Some x" for at x
  proof (cases "map_of (rev recs) at")
    case None
    then have "bt_get merged at = Some x" using that get by (simp add: map_add_def)
    moreover have "bt_get [] at = Some x \<or> (\<exists>e. above_entry sh m key lsn floor e \<and> de_lsn e = at \<and> de_record e = x)"
      if "bt_get merged at = Some x"
      using merged that unfolding merges_def by blast
    ultimately obtain e where "above_entry sh m key lsn floor e" "de_lsn e = at" "de_record e = x"
      by (auto simp: bt_get_def [of "[]"])
    moreover from this(2,3) have "e = \<lparr>de_key = de_key e, de_lsn = at, de_record = x\<rparr>" by simp
    ultimately show ?thesis unfolding iff record_seen_def by (auto simp: in_window_def)
  next
    case (Some y)
    then show ?thesis using that get from_mem [of at y] by (simp add: record_seen_def map_add_def)
  qed
  have complete: "at \<in> dom (bt_get out)" if "floor < at" "record_seen sh mem key lsn at x" for at x
  proof (cases "mt_get mem key at = Some x \<and> at \<le> lsn")
    case True
    then show ?thesis using that(1) from_mem [of at x] get by auto
  next
    case False
    with that have "above_entry sh m key lsn floor \<lparr>de_key = key, de_lsn = at, de_record = x\<rparr>"
      unfolding iff by (auto simp: record_seen_def in_window_def)
    then have "at \<in> de_lsn ` {e. above_entry sh m key lsn floor e}"
      by (intro image_eqI [where x = "\<lparr>de_key = key, de_lsn = at, de_record = x\<rparr>"] CollectI) simp
    then have "at \<in> dom (bt_get merged)" using merged unfolding merges_def by blast
    then show ?thesis using get by auto
  qed
  have "(at, r') \<in> set out \<longleftrightarrow> bt_get out at = Some r'"
    using bt.in_entries_iff [OF wf_out] by simp
  moreover have "bt_get out at = Some r'" if "floor < at" "record_seen sh mem key lsn at r'"
    using complete [OF that] sound one that(2) unfolding one_record_def by blast
  ultimately show "(at, r') \<in> set out \<longleftrightarrow> floor < at \<and> record_seen sh mem key lsn at r'"
    using sound by blast
qed

section \<open>What the read path needs of a store\<close>

locale object_store =
  fixes st :: "'s cas_store"
    and obj :: "'s \<Rightarrow> string \<Rightarrow> bytes option"
  assumes get_obj:
    "\<exists>v s'. cs_get st key s = (Ok (map_option (\<lambda>d. (d, v)) (obj s key)), s') \<and> obj s' = obj s"
begin

definition good :: "externals \<Rightarrow> shelf \<Rightarrow> (string \<Rightarrow> bytes option) \<Rightarrow> layer_reader \<times> 's \<Rightarrow> bool" where
  "good ext sh objs w \<longleftrightarrow> obj (snd w) = objs \<and> shelved ext sh (fst w) objs \<and> reader_ok sh (fst w)"

lemma get_range_obj:
  assumes "obj s key = Some data" "unat off + unat len \<le> length data" "length data < 2 ^ 64"
  shows "\<exists>s'. get_range st key off len s = (Ok (Some (take (unat len) (drop (unat off) data))), s') \<and>
    obj s' = obj s"
proof -
  obtain v s' where "cs_get st key s = (Ok (Some (data, v)), s')" "obj s' = obj s"
    using get_obj [of key s] assms(1) by auto
  moreover have "unat (saturating_add off len) = unat off + unat len"
    using assms(2,3) by (simp add: saturating_add_def unat_word_ariths)
  ultimately show ?thesis
    using assms(2) by (simp add: get_range_def Let_def slice_def min_absorb1)
qed

lemma range_read_ok:
  assumes "good ext sh objs w" "l \<in> set (sh_layers sh)"
    and "unat off + unat len \<le> length (sh_bytes sh l)"
  shows "returns (range_read st l (layer_name l) off len) w
    (\<lambda>bs w'. bs = take (unat len) (drop (unat off) (sh_bytes sh l)) \<and> good ext sh objs w' \<and> fst w' = fst w)"
proof -
  obtain r s where w: "w = (r, s)" by fastforce
  have len: "length (sh_bytes sh l) < 2 ^ 64"
    and lb: "layer_bytes r objs l = Some (sh_bytes sh l)"
    using assms(1,2) by (auto simp: good_def shelved_def readable_def w)
  from lb obtain object where object: "object_key r l (layer_name l) = Ok object"
    "objs object = Some (sh_bytes sh l)"
    by (auto simp: layer_bytes_def split: outcome.splits)
  have "obj s object = Some (sh_bytes sh l)" using assms(1) object(2) by (simp add: good_def w)
  from get_range_obj [OF this assms(3) len] obtain s' where
    get: "get_range st object off len s =
      (Ok (Some (take (unat len) (drop (unat off) (sh_bytes sh l)))), s')" "obj s' = obj s"
    by blast
  have "\<not> (of_nat (length (take (unat len) (drop (unat off) (sh_bytes sh l)))) :: u64) < len"
    using assms(3) by simp
  then show ?thesis
    using get object assms(1)
    by (simp add: returns_def range_read_def rbind_def rret_def on_store_def w good_def)
qed

lemma read_block_ok:
  assumes "good ext sh objs w" "l \<in> set (sh_layers sh)" "b \<in> set (lf_blocks (sh_foot sh l))"
  shows "returns (read_block st l (layer_name l) (lb_offset b) (ucast (lb_len b))) w
    (\<lambda>bs w'. block_bytes (sh_bytes sh l) b = Ok bs \<and> good ext sh objs w')"
proof -
  let ?n = "layer_name l" and ?off = "lb_offset b"
  obtain r s where w: "w = (r, s)" by fastforce
  have agrees: "blocks.agrees (block_is sh) (rd_blocks r)" and sh: "shelved ext sh r objs"
    using assms(1) by (simp_all add: good_def reader_ok_def w)
  have rd: "readable ext (sh_bytes sh l) (sh_foot sh l)"
    using sh assms(2) by (simp add: shelved_def)
  note blk = readable_block [OF rd assms(3)]
  obtain hit c where get: "bc_get ?n ?off (rd_blocks r) = (hit, c)" by fastforce
  then have c: "blocks.agrees (block_is sh) c" "\<And>v. hit = Some v \<Longrightarrow> block_is sh (?n, ?off) v"
    using blocks.get_agrees [OF agrees, of "(?n, ?off)" hit c] by auto
  have good': "good ext sh objs (r\<lparr>rd_blocks := c\<rparr>, s)"
    using assms(1) c(1) by (simp add: good_def reader_ok_def w)
  show ?thesis
  proof (cases hit)
    case (Some bs)
    then have "block_bytes (sh_bytes sh l) b = Ok bs"
      using c(2) assms(2,3) by (simp add: block_is_def)
    with Some get good' show ?thesis
      by (simp add: read_block_def w returns_def)
  next
    case None
    have "unat (ucast (lb_len b) :: u64) = unat (lb_len b)" by (simp add: unat_ucast_up)
    with blk(2) have fits: "unat ?off + unat (ucast (lb_len b) :: u64) \<le> length (sh_bytes sh l)" by simp
    let ?put = "\<lambda>bs (r, s). (Ok bs, (r\<lparr>rd_blocks := bc_put ?n ?off bs (rd_blocks r)\<rparr>, s))"
    have "returns (rbind (range_read st l ?n ?off (ucast (lb_len b))) ?put) (r\<lparr>rd_blocks := c\<rparr>, s)
      (\<lambda>bs w'. block_bytes (sh_bytes sh l) b = Ok bs \<and> good ext sh objs w')"
    proof (rule returns_rbind [OF range_read_ok [OF good' assms(2) fits]], clarsimp)
      fix s' assume g: "good ext sh objs (r\<lparr>rd_blocks := c\<rparr>, s')"
      let ?bs = "take (unat (ucast (lb_len b) :: u64)) (drop (unat ?off) (sh_bytes sh l))"
      have bs: "block_bytes (sh_bytes sh l) b = Ok ?bs" using blk(1) by (simp add: unat_ucast_up)
      have "blocks.agrees (block_is sh) (bc_put ?n ?off ?bs c)"
        using blocks.put_agrees [OF c(1) block_isI [OF sh assms(2,3) bs]] by simp
      then show "returns (\<lambda>(r, s). (Ok ?bs, r\<lparr>rd_blocks := bc_put ?n ?off ?bs (rd_blocks r)\<rparr>, s))
          (r\<lparr>rd_blocks := c\<rparr>, s')
          (\<lambda>bs w'. block_bytes (sh_bytes sh l) b = Ok bs \<and> good ext sh objs w')"
        using bs g by (simp add: returns_def good_def reader_ok_def)
    qed
    with None get show ?thesis by (simp add: read_block_def w returns_def)
  qed
qed

text \<open>A suffix of a stored layer, by its length.\<close>

lemma suffix_read_ok:
  assumes "good ext sh objs w" "l \<in> set (sh_layers sh)" "n \<le> ld_size l"
  shows "returns (range_read st l (layer_name l) (ld_size l - n) n) w
    (\<lambda>bs w'. bs = drop (length (sh_bytes sh l) - unat n) (sh_bytes sh l) \<and> good ext sh objs w' \<and> fst w' = fst w)"
proof -
  let ?buf = "sh_bytes sh l"
  have "length ?buf < 2 ^ 32" and sz: "ld_size l = of_nat (length ?buf)"
    using assms(1,2) by (auto simp: good_def shelved_def readable_def)
  then have u: "unat (ld_size l) = length ?buf" by (simp add: unat_of_nat_small)
  have off: "unat (ld_size l - n) = length ?buf - unat n" "unat n \<le> length ?buf"
    using assms(3) u by (simp_all add: unat_sub word_le_nat_alt)
  then have "unat (ld_size l - n) + unat n \<le> length ?buf" by simp
  from range_read_ok [OF assms(1,2) this] show ?thesis
    by (rule returns_mono) (use off in simp)
qed

text \<open>The second read asks for exactly what the first one found missing.\<close>

lemma footer_from_ok:
  assumes w: "good ext sh objs w" and l: "l \<in> set (sh_layers sh)"
    and guess: "TAIL_LEN \<le> unat guess" "unat guess \<le> length (sh_bytes sh l)"
  shows "returns (footer_from ext st l (layer_name l) guess
      (drop (length (sh_bytes sh l) - unat guess) (sh_bytes sh l))) w
    (\<lambda>f w'. f = sh_foot sh l \<and> good ext sh objs w')"
proof -
  let ?buf = "sh_bytes sh l" and ?f = "sh_foot sh l"
  let ?need = "of_nat (foot_need ?f) :: u64"
  have rd: "readable ext ?buf ?f" and m: "footer_matches ?f l" and sz: "ld_size l = of_nat (length ?buf)"
    using w l by (auto simp: good_def shelved_def)
  have len: "length ?buf < 2 ^ 32" "foot_need ?f + 8 \<le> length ?buf"
    and suffix: "\<And>n. TAIL_LEN \<le> n \<Longrightarrow> n \<le> length ?buf \<Longrightarrow>
      read_layer_footer_suffix ext (ld_kind l) (drop (length ?buf - n) ?buf) (ld_size l) =
        (if foot_need ?f \<le> n then Ok ?f else Err (Truncated n (foot_need ?f)))"
    using rd m sz by (simp_all add: readable_def LAYER_HEADER_LEN_def footer_matches_def)
  have u: "unat (ld_size l) = length ?buf" "unat ?need = foot_need ?f"
    using len sz by (simp_all add: unat_of_nat_small)
  have tail: "TAIL_LEN \<le> foot_need ?f" by (simp add: foot_need_def)
  show ?thesis
  proof (cases "foot_need ?f \<le> unat guess")
    case True
    then show ?thesis using suffix [OF guess] w by (simp add: footer_from_def)
  next
    case False
    then have more: "?need > guess" using u(2) by (simp add: word_less_nat_alt)
    have le: "?need \<le> ld_size l" using u len(2) by (simp add: word_le_nat_alt)
    have exact: "read_layer_footer_suffix ext (ld_kind l) (drop (length ?buf - unat ?need) ?buf) (ld_size l) = Ok ?f"
      using suffix [of "foot_need ?f"] tail len(2) u(2) by simp
    have "good ext sh objs (r\<lparr>rd_guess := max (rd_guess r) g\<rparr>, s)" if "good ext sh objs (r, s)" for r s g
      using that by (auto simp: good_def reader_ok_def le_max_iff_disj)
    then have "returns (rbind (range_read st l (layer_name l) (ld_size l - ?need) ?need) (\<lambda>exact (r, s).
          (map_err (LayerFault (layer_name l)) (read_layer_footer_suffix ext (ld_kind l) exact (ld_size l)),
           (r\<lparr>rd_guess := max (rd_guess r) (min ?need FOOTER_GUESS_CAP)\<rparr>, s)))) w
        (\<lambda>f w'. f = ?f \<and> good ext sh objs w')"
      by (intro returns_rbind [OF suffix_read_ok [OF w l le]]) (auto simp: returns_def exact)
    then show ?thesis using suffix [OF guess] False more by (simp add: footer_from_def)
  qed
qed

lemma keep_footer_ok:
  assumes "good ext sh objs w" "l \<in> set (sh_layers sh)" "f = sh_foot sh l"
  shows "returns (keep_footer l (layer_name l) f) w (\<lambda>f w'. f = sh_foot sh l \<and> good ext sh objs w')"
proof -
  have "l' = l" if "l' \<in> set (sh_layers sh)" "layer_name l' = layer_name l" for l'
    using assms that by (auto simp: good_def shelved_def inj_on_def)
  moreover have "footer_matches f l" using assms by (auto simp: good_def shelved_def)
  ultimately show ?thesis
    using assms by (cases w) (auto simp: returns_def keep_footer_def good_def reader_ok_def bt_get_insert)
qed

lemma read_footer_ok:
  assumes w: "good ext sh objs w" and l: "l \<in> set (sh_layers sh)"
  shows "returns (read_footer ext st l) w (\<lambda>f w'. f = sh_foot sh l \<and> good ext sh objs w')"
proof (cases "bt_get (rd_footers (fst w)) (layer_name l)")
  case (Some f)
  then have "f = sh_foot sh l" using w l by (simp add: good_def reader_ok_def)
  with Some w show ?thesis by (simp add: read_footer_def returns_def)
next
  case None
  let ?buf = "sh_bytes sh l"
  define guess where "guess = min (rd_guess (fst w)) (ld_size l)"
  have "FOOTER_GUESS \<le> rd_guess (fst w)" "ld_size l = of_nat (length ?buf)"
    "length ?buf < 2 ^ 32" "foot_need (sh_foot sh l) + 8 \<le> length ?buf"
    using w l by (auto simp: good_def shelved_def reader_ok_def readable_def LAYER_HEADER_LEN_def)
  moreover from this have "unat (ld_size l) = length ?buf" by (simp add: unat_of_nat_small)
  ultimately have guess: "guess \<le> ld_size l" "TAIL_LEN \<le> unat guess" "unat guess \<le> length ?buf"
    by (auto simp: guess_def min_def FOOTER_GUESS_def word_le_nat_alt TAIL_LEN_def foot_need_def)
  have "returns (rbind (range_read st l (layer_name l) (ld_size l - guess) guess) (\<lambda>suffix.
      rbind (footer_from ext st l (layer_name l) guess suffix) (keep_footer l (layer_name l)))) w
      (\<lambda>f w'. f = sh_foot sh l \<and> good ext sh objs w')"
    by (rule returns_rbind [OF suffix_read_ok [OF w l guess(1)]])
      (auto intro!: returns_rbind [OF footer_from_ok [OF _ l guess(2,3)]] keep_footer_ok [OF _ l])
  then show ?thesis
    using None by (simp add: read_footer_def returns_def Let_def guess_def)
qed

subsection \<open>The base\<close>

lemma image_lookup_ok:
  assumes "good ext sh objs w" "l \<in> set (sh_layers sh)" "ld_kind l = Image"
    and "set metas \<subseteq> set (lf_blocks (sh_foot sh l))"
  shows "returns (image_lookup ext st l (layer_name l) key metas) w
    (\<lambda>x w'. good ext sh objs w' \<and> looked ext sh l key metas x)"
  using assms(1,4)
proof (induction metas arbitrary: w)
  case Nil
  then show ?case by (simp add: looked_def)
next
  case (Cons b metas)
  have content: "image_content ext (sh_bytes sh l) (sh_foot sh l) (sh_pages sh l)"
    using Cons.prems(1) assms(2,3) by (auto simp: good_def shelved_def)
  have b: "b \<in> set (lf_blocks (sh_foot sh l))" using Cons.prems(2) by simp
  obtain bs blk where blk: "block_bytes (sh_bytes sh l) b = Ok bs" "decode_image_block ext bs b = Ok blk"
    "set blk \<subseteq> set (sh_pages sh l)"
    using image_content_block [OF content b] by blast
  have step: "returns (case find (\<lambda>e. ie_key e = key) blk of
        Some e \<Rightarrow> rret (Ok (Some (ie_page e)))
      | None \<Rightarrow> image_lookup ext st l (layer_name l) key metas) u
    (\<lambda>x w'. good ext sh objs w' \<and> looked ext sh l key (b # metas) x)" if u: "good ext sh objs u" for u
  proof (cases "find (\<lambda>e. ie_key e = key) blk")
    case None
    then have "key \<notin> ie_key ` set blk" by (auto simp: find_None_iff)
    then have "looked ext sh l key (b # metas) x" if "looked ext sh l key metas x" for x
      using that blk by (auto simp: looked_def image_block_of_def split: option.splits)
    then show ?thesis
      using Cons.IH [OF u] Cons.prems(2) None by (auto elim!: returns_mono)
  next
    case (Some e)
    then have "e \<in> set blk" "ie_key e = key" by (auto simp: find_Some_iff)
    then show ?thesis using Some u blk by (auto simp: page_in_def looked_def)
  qed
  show ?case
    unfolding image_lookup.simps
    by (rule returns_rbind [OF read_block_ok [OF Cons.prems(1) assms(2) b]])
      (use blk step in auto)
qed

text \<open>The first image of the plan that holds the key is the base.\<close>

lemma find_base_ok:
  assumes "good ext sh objs w" "set ls \<subseteq> set (sh_layers sh)" "\<forall>l \<in> set ls. ld_kind l = Image"
  shows "returns (find_base ext st key ls) w (\<lambda>x w'. good ext sh objs w' \<and> base_among sh key ls x)"
  using assms
proof (induction ls arbitrary: w)
  case Nil
  then show ?case by (simp add: base_among_def)
next
  case (Cons l ls)
  let ?f = "sh_foot sh l" and ?buf = "sh_bytes sh l"
  let ?Q = "\<lambda>x w'. good ext sh objs w' \<and> base_among sh key (l # ls) x"
  have l: "l \<in> set (sh_layers sh)" "ld_kind l = Image" using Cons.prems by auto
  have content: "image_content ext ?buf ?f (sh_pages sh l)" and rd: "readable ext ?buf ?f"
    using Cons.prems(1) l by (auto simp: good_def shelved_def)
  have skip: "returns (find_base ext st key ls) u ?Q"
    if "good ext sh objs u" "\<forall>p. \<not> page_in (sh_pages sh l) key p" for u
  proof (rule returns_mono [OF Cons.IH [OF that(1)]])
    fix x u assume "good ext sh objs u \<and> base_among sh key ls x"
    with that(2) show "?Q x u"
      by (auto simp: base_among_def split: option.splits) (metis append_Cons set_ConsD)
  qed (use Cons.prems in auto)
  have none: "\<not> page_in (sh_pages sh l) key p"
    if "\<not> footer_admits ext ?f key \<or> looked ext sh l key (locate ?f key) None" for p
  proof
    assume "page_in (sh_pages sh l) key p"
    then obtain e where e: "e \<in> set (sh_pages sh l)" "ie_key e = key" by (auto simp: page_in_def)
    with locate_image [OF rd content e(1)] obtain b blk where
      "b \<in> set (locate ?f key)" "image_block_of ext ?buf b blk" "key \<in> ie_key ` set blk"
      by auto
    with that e content show False by (auto simp: looked_def image_content_def)
  qed
  have "returns (if \<not> footer_admits ext ?f key then find_base ext st key ls
      else rbind (image_lookup ext st l (layer_name l) key (locate ?f key)) (\<lambda>found.
        case found of
          Some page \<Rightarrow> rret (Ok (Some (page, ld_min_lsn l)))
        | None \<Rightarrow> find_base ext st key ls)) u ?Q" if u: "good ext sh objs u" for u
  proof (cases "footer_admits ext ?f key")
    case True
    have "returns (case found of Some page \<Rightarrow> rret (Ok (Some (page, ld_min_lsn l)))
        | None \<Rightarrow> find_base ext st key ls) v ?Q"
      if v: "good ext sh objs v" "looked ext sh l key (locate ?f key) found" for found v
    proof (cases found)
      case None
      then show ?thesis using skip [OF v(1)] none v(2) by simp
    next
      case (Some p)
      with v have "?Q (Some (p, ld_min_lsn l)) v"
        by (auto simp: looked_def base_among_def intro!: exI [of _ "[]"])
      then show ?thesis using Some by simp
    qed
    then have "returns (rbind (image_lookup ext st l (layer_name l) key (locate ?f key)) (\<lambda>found.
        case found of
          Some page \<Rightarrow> rret (Ok (Some (page, ld_min_lsn l)))
        | None \<Rightarrow> find_base ext st key ls)) u ?Q"
      by (intro returns_rbind [OF image_lookup_ok [OF u l locate_in_blocks(1) [OF rd]]]) blast
    with True show ?thesis by simp
  next
    case False
    then show ?thesis using skip [OF u] none by simp
  qed
  then show ?case
    unfolding find_base.simps
    by (intro returns_rbind [OF read_footer_ok [OF Cons.prems(1) l(1)]]) (auto simp: readable_legal [OF rd])
qed

subsection \<open>The records above it\<close>

lemma merge_blocks_ok:
  assumes "good ext sh objs w" "l \<in> set (sh_layers sh)" "ld_kind l = Delta"
    and "set metas \<subseteq> set (lf_blocks (sh_foot sh l))"
  shows "returns (merge_blocks ext st l (layer_name l) key floor ceil metas m) w
    (\<lambda>m' w'. good ext sh objs w' \<and>
       merges (\<lambda>e. (\<exists>b \<in> set metas. \<exists>blk. delta_block_of ext (sh_bytes sh l) b blk \<and> e \<in> set blk) \<and>
         in_window key floor ceil e) m m')"
  using assms(1,4)
proof (induction metas arbitrary: w m)
  case Nil
  then show ?case by (simp add: merges_refl)
next
  case (Cons b metas)
  have content: "delta_content ext (sh_bytes sh l) (sh_foot sh l) (sh_recs sh l)"
    using Cons.prems(1) assms(2,3) by (auto simp: good_def shelved_def)
  have b: "b \<in> set (lf_blocks (sh_foot sh l))" using Cons.prems(2) by simp
  obtain bs blk where blk: "block_bytes (sh_bytes sh l) b = Ok bs" "decode_delta_block ext bs b = Ok blk"
    using delta_content_block [OF content b] by blast
  have only: "delta_block_of ext (sh_bytes sh l) b blk' \<longleftrightarrow> blk' = blk" for blk'
    using blk by (auto simp: delta_block_of_def)
  let ?E = "\<lambda>ms e. (\<exists>b \<in> set ms. \<exists>blk. delta_block_of ext (sh_bytes sh l) b blk \<and> e \<in> set blk) \<and>
      in_window key floor ceil e"
  have join: "merges (?E (b # metas)) m m'" if "merges (?E metas) (merge_entries key floor ceil blk m) m'" for m'
    by (rule merges_trans [OF merge_entries_merges that]) (auto simp: only)
  have "returns (merge_blocks ext st l (layer_name l) key floor ceil metas (merge_entries key floor ceil blk m)) u
      (\<lambda>m' w'. good ext sh objs w' \<and> merges (?E (b # metas)) m m')" if u: "good ext sh objs u" for u
    by (rule returns_mono [OF Cons.IH [OF u]]) (use Cons.prems(2) join in simp_all)
  then show ?case
    unfolding merge_blocks.simps
    by (intro returns_rbind [OF read_block_ok [OF Cons.prems(1) assms(2) b]]) (use blk in auto)
qed

lemma merge_deltas_ok:
  assumes "good ext sh objs w" "set ls \<subseteq> set (sh_layers sh)" "\<forall>l \<in> set ls. ld_kind l = Delta"
  shows "returns (merge_deltas ext st key lsn floor ls (t, m)) w
    (\<lambda>x w'. good ext sh objs w' \<and> fst x = t + length ls \<and>
       merges (\<lambda>e. \<exists>l \<in> set ls. e \<in> set (sh_recs sh l) \<and> in_window key floor (clamp l lsn) e) m (snd x))"
  using assms
proof (induction ls arbitrary: w t m)
  case Nil
  then show ?case by (simp add: merges_refl)
next
  case (Cons l ls)
  let ?f = "sh_foot sh l" and ?buf = "sh_bytes sh l"
  let ?E = "\<lambda>e. e \<in> set (sh_recs sh l) \<and> in_window key floor (clamp l lsn) e"
  let ?Q = "\<lambda>x w'. good ext sh objs w' \<and> fst x = t + length (l # ls) \<and>
       merges (\<lambda>e. \<exists>l \<in> set (l # ls). e \<in> set (sh_recs sh l) \<and> in_window key floor (clamp l lsn) e) m (snd x)"
  have l: "l \<in> set (sh_layers sh)" "ld_kind l = Delta" using Cons.prems by auto
  have content: "delta_content ext ?buf ?f (sh_recs sh l)" and rd: "readable ext ?buf ?f"
    using Cons.prems(1) l by (auto simp: good_def shelved_def)
  have rest: "returns (merge_deltas ext st key lsn floor ls (t + 1, m')) u ?Q"
    if "good ext sh objs u" "merges ?E m m'" for u m'
    by (rule returns_mono [OF Cons.IH [OF that(1)]])
      (use Cons.prems in \<open>auto intro!: merges_trans [OF that(2)]\<close>)
  have found: "(\<exists>b \<in> set (locate ?f key). \<exists>blk. delta_block_of ext ?buf b blk \<and> e \<in> set blk) \<and>
      in_window key floor (clamp l lsn) e \<longleftrightarrow> ?E e" for e
  proof -
    have "e \<in> set (sh_recs sh l)" if "b \<in> set (locate ?f key)" "delta_block_of ext ?buf b blk" "e \<in> set blk" for b blk
    proof -
      have "b \<in> set (lf_blocks ?f)" using that(1) locate_in_blocks(1) [OF rd] by blast
      from delta_content_block [OF content this] that(2,3) show ?thesis
        by (auto simp: delta_block_of_def)
    qed
    moreover have "\<exists>b \<in> set (locate ?f key). \<exists>blk. delta_block_of ext ?buf b blk \<and> e \<in> set blk" if "?E e"
      using locate_delta [OF rd content, of e] that by (auto simp: in_window_def)
    ultimately show ?thesis by blast
  qed
  have "returns (if \<not> footer_admits ext ?f key then merge_deltas ext st key lsn floor ls (t + 1, m)
      else rbind (merge_blocks ext st l (layer_name l) key floor (clamp l lsn) (locate ?f key) m) (\<lambda>merged.
        merge_deltas ext st key lsn floor ls (t + 1, merged))) u ?Q" if u: "good ext sh objs u" for u
  proof (cases "footer_admits ext ?f key")
    case True
    have "returns (rbind (merge_blocks ext st l (layer_name l) key floor (clamp l lsn) (locate ?f key) m) (\<lambda>merged.
        merge_deltas ext st key lsn floor ls (t + 1, merged))) u ?Q"
      by (intro returns_rbind [OF merge_blocks_ok [OF u l locate_in_blocks(1) [OF rd]]])
        (use rest in \<open>simp add: found\<close>)
    with True show ?thesis by simp
  next
    case False
    then have "\<not> ?E e" for e using content by (auto simp: delta_content_def in_window_def)
    then show ?thesis using False rest [OF u merges_refl] by simp
  qed
  then show ?case
    unfolding merge_deltas.simps
    by (intro returns_rbind [OF read_footer_ok [OF Cons.prems(1) l(1)]]) (auto simp: readable_legal [OF rd])
qed

subsection \<open>The whole read\<close>

lemma collect_records_ok:
  assumes w: "good ext sh objs w" and m: "layer_map_new (sh_layers sh) = Some (Ok m)"
    and mem: "mt_wf mem" and one: "one_record sh mem key lsn"
    and base: "base_among sh key (rp_images (plan m key lsn)) base"
  shows "returns (collect_records ext st m mem key lsn base) w
    (\<lambda>rc w'. good ext sh objs w' \<and> read_spec sh mem key lsn rc)"
proof -
  define floor where "floor = (case base of Some (_, at) \<Rightarrow> at | None \<Rightarrow> 0)"
  have sh: "shelved ext sh (fst w) objs" using w by (simp add: good_def)
  note seen = base_among_seen [OF m sh base]
  have "at \<le> lsn" if "image_seen sh key lsn at p" for at p
    using that clamp_le by (auto simp: image_seen_def intro: order_trans)
  then have le: "floor \<le> lsn"
    using seen by (auto simp: floor_def split: option.splits)
  from records_for_ok [OF le, of mem key] obtain recs where
    recs: "records_for mem key floor lsn = (Ok recs :: (_, read_error) outcome)" by blast
  have ls: "set (above (plan m key lsn) floor) \<subseteq> set (sh_layers sh)"
    "\<forall>l \<in> set (above (plan m key lsn) floor). ld_kind l = Delta"
    using plan_layers(2) [OF m, of key lsn] by (auto simp: above_def)
  let ?rc = "\<lambda>touched merged. \<lparr>rc_base = map_option fst base, rc_base_lsn = map_option snd base,
      rc_records = fold (\<lambda>(at, rec). bt_insert at rec) recs merged, rc_layers_touched = touched\<rparr>"
  have spec: "read_spec sh mem key lsn (?rc touched merged)"
    if "merges (above_entry sh m key lsn floor) [] merged" for touched merged
    using merged_records [OF m sh mem one that recs] seen
    by (auto simp: read_spec_def floor_def split: option.splits)
  show ?thesis
    unfolding collect_records_def floor_def [symmetric] Let_def
    by (rule returns_rbind [OF merge_deltas_ok [OF w ls]]) (use recs spec in \<open>auto simp: split_beta\<close>)
qed

lemma reconstruct_ok:
  assumes "good ext sh objs w" "layer_map_new (sh_layers sh) = Some (Ok m)" "mt_wf mem"
    "one_record sh mem key lsn"
  shows "returns (reconstruct ext st m mem key lsn) w
    (\<lambda>rc w'. good ext sh objs w' \<and> read_spec sh mem key lsn rc)"
proof -
  have ls: "set (rp_images (plan m key lsn)) \<subseteq> set (sh_layers sh)"
    "\<forall>l \<in> set (rp_images (plan m key lsn)). ld_kind l = Image"
    using plan_layers(1) [OF assms(2), of key lsn] by auto
  show ?thesis
    unfolding reconstruct_def
    by (rule returns_rbind [OF find_base_ok [OF assms(1) ls]])
      (use collect_records_ok [OF _ assms(2-4)] in blast)
qed

end

section \<open>The memory store\<close>

definition mem_objects :: "mem_store \<Rightarrow> string \<Rightarrow> bytes option" where
  "mem_objects s key = map_option fst (bt_get (ms_objects s) key)"

interpretation shelf_store: object_store mem_ops mem_objects
proof
  show "\<exists>v s'. cs_get mem_ops key s = (Ok (map_option (\<lambda>d. (d, v)) (mem_objects s key)), s') \<and>
      mem_objects s' = mem_objects s" for key s
    by (cases "bt_get (ms_objects s) key") (auto simp: mem_ops_def mem_get_def mem_objects_def)
qed

interpretation guarded_shelf: object_store "guarded mem_ops" mem_objects
  using shelf_store.get_obj by unfold_locales (simp add: guarded_def)

end
