(* ===== verification/Page_Read_Properties.thy ===== *)
theory Page_Read_Properties
  imports Page_Read_Proofs Layer_Properties
begin

text \<open>
  The read path over a store that holds the layers the builders produced: what a
  reconstruction answers, and that its caches stay true, so that the next read answers
  as well.
\<close>

text \<open>Each layer is what a builder made of its entries, under the descriptor its footer gives.\<close>

definition built_shelf :: "externals \<Rightarrow> shelf \<Rightarrow> bool" where
  "built_shelf ext sh \<longleftrightarrow>
     inj_on layer_name (set (sh_layers sh)) \<and>
     (\<forall>l \<in> set (sh_layers sh). \<exists>target \<le> LAYER_BLOCK_TARGET.
        length (sh_bytes sh l) < 2 ^ 32 \<and> ld_size l = of_nat (length (sh_bytes sh l)) \<and>
        footer_matches (sh_foot sh l) l \<and>
        (case ld_kind l of
           Image \<Rightarrow> build_image ext (sh_pages sh l) (ld_min_lsn l) target = Ok (sh_bytes sh l, sh_foot sh l)
         | Delta \<Rightarrow> build_delta ext (sh_recs sh l) target = Ok (sh_bytes sh l, sh_foot sh l)))"

definition on_shelf :: "shelf \<Rightarrow> layer_reader \<Rightarrow> (string \<Rightarrow> bytes option) \<Rightarrow> bool" where
  "on_shelf sh r objs \<longleftrightarrow> (\<forall>l \<in> set (sh_layers sh). layer_bytes r objs l = Some (sh_bytes sh l))"

lemma built_shelved:
  assumes "lz4_faithful ext" "lz4_nonempty ext" "built_shelf ext sh" "on_shelf sh r objs"
  shows "shelved ext sh r objs"
proof -
  have "readable ext (sh_bytes sh l) (sh_foot sh l) \<and> footer_matches (sh_foot sh l) l \<and>
      ld_size l = of_nat (length (sh_bytes sh l)) \<and>
      (case ld_kind l of
         Image \<Rightarrow> image_content ext (sh_bytes sh l) (sh_foot sh l) (sh_pages sh l)
       | Delta \<Rightarrow> delta_content ext (sh_bytes sh l) (sh_foot sh l) (sh_recs sh l))"
    if "l \<in> set (sh_layers sh)" for l
    using that assms(3) build_image_readable [OF _ _ _ assms(1,2)] build_delta_readable [OF _ _ _ assms(1,2)]
    unfolding built_shelf_def by (cases "ld_kind l") fastforce+
  with assms(3,4) show ?thesis by (simp add: shelved_def built_shelf_def on_shelf_def)
qed

lemma agrees_new: "blocks.agrees F (bc_new b)"
  using bc_wf_new [of b] by (simp add: blocks.agrees_def bc_content_def bc_new_def bt_get_def)

lemma reader_ok_fresh: "reader_ok sh (reader_new prefix setting)" "reader_ok sh (for_shard t n setting)"
  by (simp_all add: reader_ok_def reader_new_def for_shard_def agrees_new bt_get_def)

text \<open>Letting go of retired layers keeps the caches true.\<close>

lemma reader_ok_forget:
  assumes "reader_ok sh r" "forget_unnamed m r = (k, r')"
  shows "reader_ok sh r' \<and> k = length (rd_footers r')"
proof -
  have get: "bt_get (filter (\<lambda>(name, _). name \<in> named) fs) x = (if x \<in> named then bt_get fs x else None)"
    for named and fs :: "(string, layer_footer) btree" and x
    by (induction fs) (auto simp: bt_get_def)
  obtain j c where ret: "retain_named (set (map layer_name (lm_layers m))) (rd_blocks r) = (j, c)" by fastforce
  have wf: "bc_wf (rd_blocks r)" using assms(1) by (simp add: reader_ok_def blocks.agrees_def)
  have "blocks.agrees (block_is sh) c"
    using retain_wf [OF wf ret] assms(1) unfolding reader_ok_def blocks.agrees_def by (meson map_leD)
  then show ?thesis
    using assms ret get by (auto simp: forget_unnamed_def Let_def reader_ok_def split: if_splits)
qed

text \<open>C1. Reconstructing a page is right: over a store that holds the built layers of the map,
  with caches true to them, the read returns the page of the newest image at or below
  the position that holds the key, and exactly the records above that image that
  the layers and the memtable may show at the position, once each and ascending, and it leaves the
  objects alone and the caches true, ready for the next read.
\<close>

theorem page_read_correct:
  assumes "lz4_faithful ext" "lz4_nonempty ext" "built_shelf ext sh" "on_shelf sh r (mem_objects s)"
    and "layer_map_new (sh_layers sh) = Some (Ok m)" "reader_ok sh r" "mt_wf mem" "one_record sh mem key lsn"
  shows "\<exists>rc r' s'. reconstruct ext mem_ops m mem key lsn (r, s) = (Ok rc, (r', s')) \<and>
    read_spec sh mem key lsn rc \<and> reader_ok sh r' \<and> on_shelf sh r' (mem_objects s') \<and>
    mem_objects s' = mem_objects s"
proof -
  have "shelf_store.good ext sh (mem_objects s) (r, s)"
    using built_shelved [OF assms(1-4)] assms(6) by (simp add: shelf_store.good_def)
  from shelf_store.reconstruct_ok [OF this assms(5,7,8)] show ?thesis
    by (auto simp: returns_def shelf_store.good_def on_shelf_def shelved_def)
qed

text \<open>A shelf of one image and one delta layer, and the memory store that holds it.\<close>

definition put_object :: "string \<Rightarrow> bytes \<Rightarrow> mem_store \<Rightarrow> mem_store" where
  "put_object key data s = s\<lparr>ms_objects := bt_insert key (data, version_of 1) (ms_objects s)\<rparr>"

lemma mem_objects_put: "mem_objects (put_object key data s) = (mem_objects s)(key \<mapsto> data)"
  by (simp add: put_object_def mem_objects_def fun_eq_iff bt_get_insert)

definition two_shelf ::
  "bytes \<times> layer_footer \<Rightarrow> bytes \<times> layer_footer \<Rightarrow> shelf" where
  "two_shelf im dl =
     (let li = from_footer (snd im) (of_nat (length (fst im)));
          ld = from_footer (snd dl) (of_nat (length (fst dl)))
      in \<lparr>sh_layers = [li, ld], sh_bytes = (\<lambda>l. if ld_kind l = Image then fst im else fst dl),
          sh_foot = (\<lambda>l. if ld_kind l = Image then snd im else snd dl),
          sh_pages = (\<lambda>_. sample_images), sh_recs = (\<lambda>_. sample_deltas)\<rparr>)"

definition two_store :: "bytes \<times> layer_footer \<Rightarrow> bytes \<times> layer_footer \<Rightarrow> mem_store" where
  "two_store im dl =
     put_object (''p/'' @ layer_name (from_footer (snd im) (of_nat (length (fst im))))) (fst im)
       (put_object (''p/'' @ layer_name (from_footer (snd dl) (of_nat (length (fst dl))))) (fst dl) mem_new)"

lemma two_shelf_built:
  assumes im: "build_image sample_ext sample_images 0x15 64 = Ok im" "length (fst im) < 2 ^ 32"
    and dl: "build_delta sample_ext sample_deltas 64 = Ok dl" "length (fst dl) < 2 ^ 32"
  shows "built_shelf sample_ext (two_shelf im dl)"
    and "on_shelf (two_shelf im dl) (reader_new ''p/'' None) (mem_objects (two_store im dl))"
    and "\<exists>m. layer_map_new (sh_layers (two_shelf im dl)) = Some (Ok m)"
    and "lf_kind (snd im) = Image" "lf_kind (snd dl) = Delta" "lf_min_lsn (snd im) = 0x15"
proof -
  obtain bi fi where im': "im = (bi, fi)" by fastforce
  obtain bd fd where dl': "dl = (bd, fd)" by fastforce
  note i = build_image_readable [OF im(1) [unfolded im'] sample_target _ sample_ext_faithful sample_ext_nonempty]
  note d = build_delta_readable [OF dl(1) [unfolded dl'] sample_target _ sample_ext_faithful sample_ext_nonempty]
  have lens: "length bi < 2 ^ 32" "length bd < 2 ^ 32" using im(2) dl(2) im' dl' by simp_all
  show k: "lf_kind (snd im) = Image" "lf_kind (snd dl) = Delta" using i(2) d(2) lens im' dl' by simp_all
  obtain bs where "fi = image_footer sample_ext 0x15 bs"
    using build_image_object [OF im(1) [unfolded im'] sample_target lens(1)] by blast
  then have l: "lf_min_lsn fi = 0x15" "lf_max_lsn fi = 0x15"
    by (simp_all add: image_footer_def footer_of_def)
  then show "lf_min_lsn (snd im) = 0x15" by (simp add: im')
  have names: "layer_name (from_footer fi x) \<noteq> layer_name (from_footer fd y)" for x y
    using k by (simp add: layer_name_def from_footer_def im' dl')
  show "built_shelf sample_ext (two_shelf im dl)"
    using im(1) dl(1) lens k l names sample_target
    by (auto simp: built_shelf_def two_shelf_def im' dl' from_footer_def footer_matches_def intro!: exI [of _ 64])
  show "on_shelf (two_shelf im dl) (reader_new ''p/'' None) (mem_objects (two_store im dl))"
    using k names names [symmetric]
    by (auto simp: on_shelf_def two_shelf_def two_store_def layer_bytes_def object_key_def mem_objects_put
        im' dl' reader_new_def from_footer_def)
  have ok: "layer_ok (from_footer f n)" if "readable ext b f" "lf_kind f = Image \<Longrightarrow> lf_min_lsn f = lf_max_lsn f" for ext b f n
  proof -
    have f: "footer_ok (length b) f" using that by (simp add: readable_def)
    then have "lf_min_key f \<le> lf_max_key f"
      using index_monotone [of "lf_kind f" "lf_blocks f"]
      by (cases "lf_blocks f") (auto simp: footer_ok_def index_ok_def intro: order_trans dest: bspec [OF _ last_in_set])
    with f that(2) show ?thesis by (simp add: layer_ok_def from_footer_def footer_ok_def)
  qed
  have "list_all layer_ok (sh_layers (two_shelf im dl))"
    using ok [OF i(1) [OF lens(1)]] ok [OF d(1) [OF lens(2)]] l k by (simp add: two_shelf_def im' dl')
  then show "\<exists>m. layer_map_new (sh_layers (two_shelf im dl)) = Some (Ok m)"
    using layer_map_new_cases by blast
qed

lemma two_shelf_seen:
  assumes "lf_kind (snd im) = Image" "lf_kind (snd dl) = Delta" "lf_min_lsn (snd im) = 0x15"
  shows "image_seen (two_shelf im dl) (sample_key 0) 0x30 at p \<longleftrightarrow> at = 0x15 \<and> p = replicate 8192 7"
    and "record_seen (two_shelf im dl) mt_new (sample_key 0) 0x30 at x \<longleftrightarrow>
      (at, x) \<in> {(0x10, [1, 2, 3]), (0x20, [4])}"
proof -
  have "page_in sample_images (sample_key 0) p \<longleftrightarrow> p = replicate 8192 7"
    using sample_key_order by (auto simp: page_in_def sample_images_def)
  with assms show "image_seen (two_shelf im dl) (sample_key 0) 0x30 at p \<longleftrightarrow> at = 0x15 \<and> p = replicate 8192 7"
    by (auto simp: image_seen_def two_shelf_def from_footer_def clamp_def)
  from assms sample_key_order show "record_seen (two_shelf im dl) mt_new (sample_key 0) 0x30 at x \<longleftrightarrow>
      (at, x) \<in> {(0x10, [1, 2, 3]), (0x20, [4])}"
    by (auto simp: record_seen_def two_shelf_def from_footer_def clamp_def sample_deltas_def mt_new_def bt_get_def)
qed

theorem page_read_correct_witness:
  "\<exists>im dl m rc w'. build_image sample_ext sample_images 0x15 64 = Ok im \<and>
     build_delta sample_ext sample_deltas 64 = Ok dl \<and>
     reconstruct sample_ext mem_ops m mt_new (sample_key 0) 0x30 (reader_new ''p/'' None, two_store im dl) = (Ok rc, w') \<and>
     rc_base rc = Some (replicate 8192 7) \<and> rc_base_lsn rc = Some 0x15 \<and> rc_records rc = [(0x20, [4])]"
proof -
  obtain im where im: "build_image sample_ext sample_images 0x15 64 = Ok im" "length (fst im) < 2 ^ 32"
    using build_decode_image [OF sample_ext_faithful sample_target sample_images_ok] by fastforce
  obtain dl where dl: "build_delta sample_ext sample_deltas 64 = Ok dl" "length (fst dl) < 2 ^ 32"
    using build_decode_delta [OF sample_ext_faithful sample_target sample_deltas_ok] by fastforce
  note b = two_shelf_built [OF im dl]
  note seen = two_shelf_seen [OF b(4-6)]
  obtain m where m: "layer_map_new (sh_layers (two_shelf im dl)) = Some (Ok m)" using b(3) by blast
  have "one_record (two_shelf im dl) mt_new (sample_key 0) 0x30"
    unfolding one_record_def seen by auto
  from page_read_correct [OF sample_ext_faithful sample_ext_nonempty b(1,2) m reader_ok_fresh(1) mt_wf_new this]
  obtain rc w' where rc: "reconstruct sample_ext mem_ops m mt_new (sample_key 0) 0x30
      (reader_new ''p/'' None, two_store im dl) = (Ok rc, w')"
    and spec: "read_spec (two_shelf im dl) mt_new (sample_key 0) 0x30 rc" by blast
  from spec have base: "rc_base rc = Some (replicate 8192 7)" "rc_base_lsn rc = Some 0x15"
    unfolding read_spec_def seen by (auto split: option.splits)
  with spec have recs: "(at, x) \<in> set (rc_records rc) \<longleftrightarrow> (at, x) = (0x20, [4])" for at x
    unfolding read_spec_def seen by auto
  have "distinct (rc_records rc)"
    using spec by (auto simp: read_spec_def strict_sorted_iff distinct_map)
  moreover have "set (rc_records rc) = {(0x20, [4])}" using recs by auto
  ultimately have "rc_records rc = [(0x20, [4])]"
    by (cases "rc_records rc"; cases "tl (rc_records rc)") auto
  with im(1) dl(1) rc base show ?thesis by blast
qed

end
