(* ===== verification/Wal_Segment.thy ===== *)
theory Wal_Segment
  imports Wal_Frame Ordered_Map
begin

text \<open>
  Landing segments of the shared log (crates/zou-log/src/segment.rs): one batch window
  of frames of every tenant on a shard, and a footer that says per tenant which byte
  runs are its own. The frame walk recurses on the bytes that are left.
\<close>

unbundle bit_operations_syntax

definition SEGMENT_MAGIC :: bytes where
  "SEGMENT_MAGIC = [0x5A, 0x53, 0x45, 0x47]"

definition SEGMENT_FOOTER_MAGIC :: bytes where
  "SEGMENT_FOOTER_MAGIC = [0x5A, 0x53, 0x47, 0x46]"

definition SEGMENT_VERSION :: u16 where
  "SEGMENT_VERSION = 1"

definition SEG_HEADER_LEN :: nat where
  "SEG_HEADER_LEN = 4 + 2 + 2 + 4 + 8 + 8"

definition SEG_TAIL_LEN :: nat where
  "SEG_TAIL_LEN = 4 + 4 + 4"

definition SUMMARY_FIXED_LEN :: nat where
  "SUMMARY_FIXED_LEN = 16 + 8 + 8 + 4 + 4"

definition RUN_LEN :: nat where
  "RUN_LEN = 8 + 8"

lemmas seg_consts =
  SEGMENT_MAGIC_def SEGMENT_FOOTER_MAGIC_def SEGMENT_VERSION_def SEG_HEADER_LEN_def SEG_TAIL_LEN_def
  SUMMARY_FIXED_LEN_def RUN_LEN_def

datatype segment_kind = Landing | Seal

record segment_header =
  sg_kind :: segment_kind
  sg_shard :: u32
  sg_seq :: u64
  sg_prev_digest :: u64

record tenant_run =
  tr_offset :: u64
  tr_len :: u64

record tenant_summary =
  ts_tenant :: u128
  ts_min_lsn :: lsn
  ts_max_lsn :: lsn
  ts_frames :: u32
  ts_runs :: "tenant_run list"

record segment_footer =
  sf_frame_count :: u32
  sf_tenants :: "tenant_summary list"

datatype segment_decode_error =
  SegTruncated nat nat | SegBadMagic | SegUnsupportedVersion u16 | SegUnknownKind u16 | SegCorrupt
| SegFrame nat frame2_decode_error

definition tenants_digest :: "externals \<Rightarrow> tenant_summary list \<Rightarrow> u64" where
  "tenants_digest ext ts =
     push_bit 32 (of_nat (length ts)) OR
     ucast (crc32c ext (concat (map (\<lambda>t. to_le (ts_tenant t) @ to_le (ts_max_lsn t)) ts)))"

section \<open>The builder\<close>

record summary_acc =
  sa_min_lsn :: lsn
  sa_max_lsn :: lsn
  sa_frames :: u32
  sa_runs :: "tenant_run list"

record segment_builder =
  sb_buf :: bytes
  sb_tenants :: "(u128, summary_acc) btree"
  sb_frame_count :: u32

definition segment_header_bytes :: "segment_header \<Rightarrow> bytes" where
  "segment_header_bytes h =
     SEGMENT_MAGIC @ to_le SEGMENT_VERSION @
     to_le ((case sg_kind h of Landing \<Rightarrow> 0 | Seal \<Rightarrow> 1) :: u16) @
     to_le (sg_shard h) @ to_le (sg_seq h) @ to_le (sg_prev_digest h)"

definition segment_new :: "segment_header \<Rightarrow> segment_builder" where
  "segment_new h = \<lparr>sb_buf = segment_header_bytes h, sb_tenants = [], sb_frame_count = 0\<rparr>"

definition extend_runs :: "u64 \<Rightarrow> u64 \<Rightarrow> tenant_run list \<Rightarrow> tenant_run list" where
  "extend_runs offset len runs =
     (if runs \<noteq> [] \<and> tr_offset (last runs) + tr_len (last runs) = offset
      then butlast runs @ [(last runs)\<lparr>tr_len := tr_len (last runs) + len\<rparr>]
      else runs @ [\<lparr>tr_offset = offset, tr_len = len\<rparr>])"

definition push_encoded :: "u128 \<Rightarrow> lsn \<Rightarrow> lsn \<Rightarrow> bytes \<Rightarrow> segment_builder \<Rightarrow> segment_builder" where
  "push_encoded tenant start_lsn end_lsn wire b =
     (let offset = of_nat (length (sb_buf b));
          acc = (case bt_get (sb_tenants b) tenant of
                   Some acc \<Rightarrow> acc
                 | None \<Rightarrow> \<lparr>sa_min_lsn = start_lsn, sa_max_lsn = end_lsn, sa_frames = 0, sa_runs = []\<rparr>);
          acc = \<lparr>sa_min_lsn = min (sa_min_lsn acc) start_lsn, sa_max_lsn = max (sa_max_lsn acc) end_lsn,
                 sa_frames = sa_frames acc + 1,
                 sa_runs = extend_runs offset (of_nat (length wire)) (sa_runs acc)\<rparr>
      in b\<lparr>sb_buf := sb_buf b @ wire, sb_frame_count := sb_frame_count b + 1,
            sb_tenants := bt_insert tenant acc (sb_tenants b)\<rparr>)"

definition encode_run :: "tenant_run \<Rightarrow> bytes" where
  "encode_run r = to_le (tr_offset r) @ to_le (tr_len r)"

definition encode_summary :: "tenant_summary \<Rightarrow> bytes" where
  "encode_summary t =
     to_le (ts_tenant t) @ to_le (ts_min_lsn t) @ to_le (ts_max_lsn t) @ to_le (ts_frames t) @
     to_le (of_nat (length (ts_runs t)) :: u32) @ concat (map encode_run (ts_runs t))"

definition segment_summaries :: "segment_builder \<Rightarrow> tenant_summary list" where
  "segment_summaries b =
     map (\<lambda>(tenant, acc). \<lparr>ts_tenant = tenant, ts_min_lsn = sa_min_lsn acc, ts_max_lsn = sa_max_lsn acc,
            ts_frames = sa_frames acc, ts_runs = sa_runs acc\<rparr>) (sb_tenants b)"

definition segment_finish ::
  "externals \<Rightarrow> segment_builder \<Rightarrow> (bytes \<times> tenant_summary list, segment_decode_error) outcome" where
  "segment_finish ext b =
     (let footer_start = length (sb_buf b);
          tenants = segment_summaries b;
          buf = sb_buf b @ to_le (of_nat (length tenants) :: u32) @ concat (map encode_summary tenants) @
            to_le (sb_frame_count b);
          footer_len = of_nat (length buf - footer_start) :: u32;
          buf = buf @ to_le footer_len
      in obind (slice buf 0 SEG_HEADER_LEN) (\<lambda>hdr.
         obind (slice buf footer_start (footer_start + unat footer_len)) (\<lambda>body.
         Ok (buf @ to_le (crc32c_append ext (crc32c ext hdr) body) @ SEGMENT_FOOTER_MAGIC, tenants))))"

section \<open>The decoder\<close>

definition segment_parse_header :: "bytes \<Rightarrow> (segment_header, segment_decode_error) outcome" where
  "segment_parse_header buf =
     (if length buf < SEG_HEADER_LEN + SEG_TAIL_LEN
      then Err (SegTruncated (length buf) (SEG_HEADER_LEN + SEG_TAIL_LEN))
      else if take 4 buf \<noteq> SEGMENT_MAGIC then Err SegBadMagic
      else
        let version = from_le (take 2 (drop 4 buf)) :: u16
        in if version \<noteq> SEGMENT_VERSION then Err (SegUnsupportedVersion version)
           else
             let kind = from_le (take 2 (drop 6 buf)) :: u16
             in if kind \<noteq> 0 \<and> kind \<noteq> 1 then Err (SegUnknownKind kind)
                else Ok \<lparr>sg_kind = (if kind = 0 then Landing else Seal),
                         sg_shard = from_le (take 4 (drop 8 buf)),
                         sg_seq = from_le (take 8 (drop 12 buf)),
                         sg_prev_digest = from_le (take 8 (drop 20 buf))\<rparr>)"

definition seg_take :: "bytes \<Rightarrow> nat \<Rightarrow> nat \<Rightarrow> (bytes \<times> nat, segment_decode_error) outcome" where
  "seg_take body at n =
     obind (ok_or (checked_add_usize at n) SegCorrupt) (\<lambda>end_at.
     obind (ok_or (get_slice body at end_at) SegCorrupt) (\<lambda>s. Ok (s, end_at)))"

fun parse_runs ::
  "bytes \<Rightarrow> nat \<Rightarrow> nat \<Rightarrow> tenant_run list \<Rightarrow> (nat \<times> tenant_run list, segment_decode_error) outcome" where
  "parse_runs body 0 at runs = Ok (at, runs)"
| "parse_runs body (Suc n) at runs =
     obind (seg_take body at RUN_LEN) (\<lambda>(r, at).
     parse_runs body n at
       (runs @ [\<lparr>tr_offset = from_le (take 8 r), tr_len = from_le (take 8 (drop 8 r))\<rparr>]))"

fun parse_summaries ::
  "bytes \<Rightarrow> nat \<Rightarrow> nat \<Rightarrow> tenant_summary list \<Rightarrow>
   (nat \<times> tenant_summary list, segment_decode_error) outcome" where
  "parse_summaries body 0 at tenants = Ok (at, tenants)"
| "parse_summaries body (Suc n) at tenants =
     obind (seg_take body at SUMMARY_FIXED_LEN) (\<lambda>(fixed, at).
     let run_count = unat (from_le (take 4 (drop 36 fixed)) :: u32)
     in if run_count > (length body - at) div RUN_LEN then Err SegCorrupt
        else
     obind (parse_runs body run_count at []) (\<lambda>(at, runs).
     parse_summaries body n at
       (tenants @ [\<lparr>ts_tenant = from_le (take 16 fixed), ts_min_lsn = from_le (take 8 (drop 16 fixed)),
                    ts_max_lsn = from_le (take 8 (drop 24 fixed)), ts_frames = from_le (take 4 (drop 32 fixed)),
                    ts_runs = runs\<rparr>])))"

definition segment_footer_body :: "bytes \<Rightarrow> (segment_footer, segment_decode_error) outcome" where
  "segment_footer_body body =
     obind (seg_take body 0 4) (\<lambda>(c, at).
     let tenant_count = unat (from_le c :: u32)
     in if tenant_count > length body div SUMMARY_FIXED_LEN then Err SegCorrupt
        else
     obind (parse_summaries body tenant_count at []) (\<lambda>(at, tenants).
     obind (seg_take body at 4) (\<lambda>(c, at).
     if at \<noteq> length body then Err SegCorrupt
     else Ok \<lparr>sf_frame_count = from_le c, sf_tenants = tenants\<rparr>)))"

definition segment_parse_shell ::
  "externals \<Rightarrow> bytes \<Rightarrow> (segment_header \<times> segment_footer \<times> nat, segment_decode_error) outcome" where
  "segment_parse_shell ext buf =
     obind (segment_parse_header buf) (\<lambda>header.
     obind (slice buf (length buf - 4) (length buf)) (\<lambda>magic.
     if magic \<noteq> SEGMENT_FOOTER_MAGIC then Err SegBadMagic
     else
     let tail_at = length buf - SEG_TAIL_LEN
     in obind (slice buf tail_at (tail_at + 4)) (\<lambda>footer_len.
        obind (slice buf (tail_at + 4) (tail_at + 8)) (\<lambda>stored_crc.
        let footer_len = unat (from_le footer_len :: u32)
        in if footer_len > tail_at - SEG_HEADER_LEN then Err SegCorrupt
           else
        let footer_start = tail_at - footer_len
        in obind (slice buf 0 SEG_HEADER_LEN) (\<lambda>hdr.
           obind (slice buf footer_start tail_at) (\<lambda>body.
           if crc32c_append ext (crc32c ext hdr) body \<noteq> from_le stored_crc then Err SegCorrupt
           else obind (segment_footer_body body) (\<lambda>footer. Ok (header, footer, footer_start))))))))"

definition segment_read_footer ::
  "externals \<Rightarrow> bytes \<Rightarrow> (segment_header \<times> segment_footer, segment_decode_error) outcome" where
  "segment_read_footer ext buf = obind (segment_parse_shell ext buf) (\<lambda>(header, footer, _). Ok (header, footer))"

lemma frame_next_shrinks: "frame_next ext buf = (Some (Ok f), rest) \<Longrightarrow> length rest < length buf"
  using frame_decode_cases [of ext buf]
  by (auto simp: frame_next_def slice_def split: if_splits)

function segment_frames ::
  "externals \<Rightarrow> bytes \<Rightarrow> frame2 list \<Rightarrow> (frame2 list, segment_decode_error) outcome" where
  "segment_frames ext buf frames =
     (case frame_next ext buf of
        (None, _) \<Rightarrow> Ok frames
      | (Some (Ok frame), rest) \<Rightarrow> segment_frames ext rest (frames @ [frame])
      | (Some (Err source), _) \<Rightarrow> Err (SegFrame (length frames) source)
      | (Some Panic, _) \<Rightarrow> Panic)"
  by pat_completeness auto
termination
  by (relation "measure (\<lambda>(_, buf, _). length buf)") (auto dest!: frame_next_shrinks [OF sym])

declare segment_frames.simps [simp del]

definition decode_segment ::
  "externals \<Rightarrow> bytes \<Rightarrow> (segment_header \<times> frame2 list \<times> segment_footer, segment_decode_error) outcome" where
  "decode_segment ext buf =
     obind (segment_parse_shell ext buf) (\<lambda>(header, footer, footer_start).
     obind (slice buf SEG_HEADER_LEN footer_start) (\<lambda>region.
     obind (segment_frames ext region []) (\<lambda>frames.
     if length frames \<noteq> unat (sf_frame_count footer) then Err SegCorrupt
     else Ok (header, frames, footer))))"

section \<open>A window of staged frames\<close>

text \<open>The frames of a closed batch, each beside its wire form, and the flusher's loop over them
  (crates/zou-log/src/sequencer.rs).\<close>

record staged_frame =
  st_frame :: frame2
  st_wire :: bytes

definition push_staged :: "staged_frame list \<Rightarrow> segment_builder \<Rightarrow> segment_builder" where
  "push_staged frames b =
     fold (\<lambda>f. push_encoded (fr_tenant (st_frame f)) (fr_start_lsn (st_frame f)) (fr_end_lsn (st_frame f)) (st_wire f))
       frames b"

end
