(* ===== verification/Wal_Segment_Proofs.thy ===== *)
theory Wal_Segment_Proofs
  imports Wal_Segment
begin

text \<open>
  Landing segments decode to what was put in, no bytes make the decoder panic, and the
  runs the footer lists for a tenant are exactly the bytes of that tenant's frames.
\<close>

section \<open>No panic\<close>

lemma seg_take_not_Panic [simp]: "seg_take body at n \<noteq> Panic"
  by (auto simp: seg_take_def obind_Panic_iff)

lemma parse_runs_not_Panic [simp]: "parse_runs body n at runs \<noteq> Panic"
  by (induction body n at runs rule: parse_runs.induct) (auto simp: obind_Panic_iff)

lemma parse_summaries_not_Panic [simp]: "parse_summaries body n at ts \<noteq> Panic"
  by (induction body n at ts rule: parse_summaries.induct) (auto simp: obind_Panic_iff Let_def)

lemma segment_footer_body_not_Panic [simp]: "segment_footer_body body \<noteq> Panic"
  by (auto simp: segment_footer_body_def obind_Panic_iff Let_def)

lemma segment_parse_header_not_Panic [simp]: "segment_parse_header buf \<noteq> Panic"
  by (simp add: segment_parse_header_def Let_def)

lemma segment_parse_header_length: "segment_parse_header buf = Ok h \<Longrightarrow> 40 \<le> length buf"
  by (auto simp: segment_parse_header_def seg_consts split: if_splits)

lemma segment_parse_shell_not_Panic [simp]: "segment_parse_shell ext buf \<noteq> Panic"
  by (auto simp: segment_parse_shell_def obind_Panic_iff Let_def slice_def SEG_HEADER_LEN_def
      SEG_TAIL_LEN_def dest: segment_parse_header_length split: if_splits)

lemma segment_parse_shell_start:
  assumes "segment_parse_shell ext buf = Ok (h, f, start)"
  shows "28 \<le> start" "start \<le> length buf"
  using assms segment_parse_header_length [of buf h]
  by (auto simp: segment_parse_shell_def obind_Ok_iff Let_def SEG_HEADER_LEN_def SEG_TAIL_LEN_def
      split: if_splits)

lemma frame_next_not_Panic: "frame_next ext buf \<noteq> (Some Panic, rest)"
  using frame_decode_cases [of ext buf]
  by (auto simp: frame_next_def slice_def split: if_splits)

lemma segment_frames_not_Panic: "segment_frames ext buf fs \<noteq> Panic"
proof (induction ext buf fs rule: segment_frames.induct)
  case (1 ext buf fs)
  then show ?case
    by (subst segment_frames.simps)
      (auto split: prod.split option.split outcome.split simp: frame_next_not_Panic)
qed

lemma decode_segment_not_Panic: "decode_segment ext buf \<noteq> Panic"
  using segment_parse_shell_start [of ext buf]
  by (auto simp: decode_segment_def obind_Panic_iff segment_frames_not_Panic SEG_HEADER_LEN_def slice_def)

section \<open>Reading a footer back\<close>

lemma seg_take_at:
  assumes "drop at body = s @ rest" "0 < n" "length body < 2 ^ 64" "n = length s"
  shows "seg_take body at n = Ok (s, at + n)"
proof -
  have "length body - at = length s + length rest"
    using arg_cong [OF assms(1), of length] by simp
  then have "at + length s \<le> length body" using assms(2,4) by linarith
  then show ?thesis
    using assms(1,3,4) by (simp add: seg_take_def checked_add_usize_def get_slice_def)
qed

lemma length_encode_run [simp]: "length (encode_run r) = 16"
  by (simp add: encode_run_def)

lemma length_encode_runs [simp]: "length (concat (map encode_run rs)) = 16 * length rs"
  by (induction rs) auto

lemma parse_runs_encode:
  assumes "drop at body = concat (map encode_run rs) @ post" "length body < 2 ^ 64"
  shows "parse_runs body (length rs) at acc = Ok (at + 16 * length rs, acc @ rs)"
  using assms
proof (induction rs arbitrary: at acc)
  case (Cons r rs)
  have "seg_take body at RUN_LEN = Ok (encode_run r, at + 16)"
    using Cons.prems by (intro seg_take_at [where rest = "concat (map encode_run rs) @ post", THEN trans])
      (auto simp: RUN_LEN_def)
  moreover have "drop (at + 16) body = concat (map encode_run rs) @ post"
    using arg_cong [OF Cons.prems(1), of "drop 16"] by (simp add: add.commute)
  ultimately show ?case using Cons.IH [of "at + 16"] Cons.prems(2) by (simp add: encode_run_def [of r])
qed simp

definition summary_ok :: "tenant_summary \<Rightarrow> bool" where
  "summary_ok t \<longleftrightarrow> length (ts_runs t) < 2 ^ 32"

lemma length_encode_summary [simp]: "length (encode_summary t) = 40 + 16 * length (ts_runs t)"
  by (simp add: encode_summary_def)

lemma parse_summaries_encode:
  assumes "drop at body = concat (map encode_summary ts) @ post" "length body < 2 ^ 64"
    and "list_all summary_ok ts"
  shows "parse_summaries body (length ts) at acc =
    Ok (at + length (concat (map encode_summary ts)), acc @ ts)"
  using assms
proof (induction ts arbitrary: at acc)
  case (Cons t ts)
  let ?fixed = "to_le (ts_tenant t) @ to_le (ts_min_lsn t) @ to_le (ts_max_lsn t) @ to_le (ts_frames t) @
      to_le (of_nat (length (ts_runs t)) :: u32)"
  let ?runs = "concat (map encode_run (ts_runs t))"
  let ?rest = "concat (map encode_summary ts) @ post"
  have body: "drop at body = ?fixed @ ?runs @ ?rest"
    using Cons.prems(1) by (simp add: encode_summary_def [of t])
  have len: "length ?fixed = 40" by simp
  have fixed: "seg_take body at SUMMARY_FIXED_LEN = Ok (?fixed, at + 40)"
    using Cons.prems(2) body
    by (intro seg_take_at [where rest = "?runs @ ?rest", THEN trans]) (auto simp: SUMMARY_FIXED_LEN_def)
  have runs: "drop (at + 40) body = ?runs @ ?rest"
    using arg_cong [OF body, of "drop 40"] by (simp add: add.commute)
  have "length body - (at + 40) = 16 * length (ts_runs t) + length ?rest"
    using arg_cong [OF runs, of length] by (simp only: length_drop length_append length_encode_runs)
  then have room: "length (ts_runs t) \<le> (length body - (at + 40)) div RUN_LEN"
    by (simp add: RUN_LEN_def)
  have cnt: "unat (of_nat (length (ts_runs t)) :: u32) = length (ts_runs t)"
    using Cons.prems(3) by (simp add: summary_ok_def unat_of_nat_small)
  have "drop (at + 40 + 16 * length (ts_runs t)) body = ?rest"
    using arg_cong [OF runs, of "drop (16 * length (ts_runs t))"] by (simp add: add.commute)
  from Cons.IH [OF this] Cons.prems show ?case
    using fixed room cnt parse_runs_encode [OF runs Cons.prems(2)]
    by (simp add: not_less add.assoc)
qed simp

lemma segment_footer_body_encode:
  assumes "list_all summary_ok ts" "length body < 2 ^ 64" "length ts < 2 ^ 32"
    and "body = to_le (of_nat (length ts) :: u32) @ concat (map encode_summary ts) @ to_le c"
  shows "segment_footer_body body = Ok \<lparr>sf_frame_count = c, sf_tenants = ts\<rparr>"
proof -
  have first: "seg_take body 0 4 = Ok (to_le (of_nat (length ts) :: u32), 4)"
    using assms(2,4) by (intro seg_take_at [THEN trans]) auto
  have ts: "parse_summaries body (length ts) 4 [] = Ok (4 + length (concat (map encode_summary ts)), ts)"
    using assms by (intro parse_summaries_encode [where post = "to_le c", THEN trans]) auto
  have last: "seg_take body (4 + length (concat (map encode_summary ts))) 4 =
      Ok (to_le c, 4 + length (concat (map encode_summary ts)) + 4)"
    using assms(2,4) by (intro seg_take_at [where rest = "[]", THEN trans]) auto
  have "length body = 8 + length (concat (map encode_summary ts))" using assms(4) by simp
  moreover have "40 * length ts \<le> length (concat (map encode_summary ts))"
    by (induction ts) auto
  ultimately have "length ts \<le> length body div SUMMARY_FIXED_LEN"
    by (simp add: SUMMARY_FIXED_LEN_def)
  moreover have "unat (of_nat (length ts) :: u32) = length ts"
    using assms(3) by (simp add: unat_of_nat_small)
  ultimately show ?thesis
    using first ts last \<open>length body = _\<close>
    by (simp add: segment_footer_body_def Let_def not_less)
qed

section \<open>What the builder holds\<close>

text \<open>The bytes a list of runs names, and a tenant's frames among pushed ones.\<close>

definition run_bytes :: "bytes \<Rightarrow> tenant_run list \<Rightarrow> bytes" where
  "run_bytes buf rs = concat (map (\<lambda>r. take (unat (tr_len r)) (drop (unat (tr_offset r)) buf)) rs)"

definition runs_within :: "nat \<Rightarrow> tenant_run list \<Rightarrow> bool" where
  "runs_within n rs \<longleftrightarrow> (\<forall>r \<in> set rs. unat (tr_offset r) + unat (tr_len r) \<le> n)"

type_synonym pushed = "u128 \<times> lsn \<times> lsn \<times> bytes"

abbreviation of_tenant :: "u128 \<Rightarrow> pushed list \<Rightarrow> pushed list" where
  "of_tenant t ps \<equiv> filter (\<lambda>p. fst p = t) ps"

abbreviation pushed_wire :: "pushed \<Rightarrow> bytes" where
  "pushed_wire p \<equiv> snd (snd (snd p))"

lemma run_bytes_append: "run_bytes buf (rs @ rs') = run_bytes buf rs @ run_bytes buf rs'"
  by (simp add: run_bytes_def)

lemma run_bytes_grow: "runs_within (length buf) rs \<Longrightarrow> run_bytes (buf @ extra) rs = run_bytes buf rs"
  by (induction rs) (auto simp: run_bytes_def runs_within_def)

lemma extend_runs_ok:
  assumes "runs_within (length buf) rs" "length buf + length wire < 2 ^ 64"
  shows "runs_within (length (buf @ wire)) (extend_runs (of_nat (length buf)) (of_nat (length wire)) rs)"
    and "run_bytes (buf @ wire) (extend_runs (of_nat (length buf)) (of_nat (length wire)) rs) =
      run_bytes buf rs @ wire"
proof -
  let ?o = "of_nat (length buf) :: u64" and ?l = "of_nat (length wire) :: u64"
  have u: "unat ?o = length buf" "unat ?l = length wire"
    using assms(2) by (simp_all add: unat_of_nat_small)
  show "runs_within (length (buf @ wire)) (extend_runs ?o ?l rs)"
    "run_bytes (buf @ wire) (extend_runs ?o ?l rs) = run_bytes buf rs @ wire"
  proof (atomize (full), cases "rs \<noteq> [] \<and> tr_offset (last rs) + tr_len (last rs) = ?o")
    case True
    define pre r where "pre = butlast rs" and "r = last rs"
    have rs: "rs = pre @ [r]" using True by (simp add: pre_def r_def)
    have r: "unat (tr_offset r) + unat (tr_len r) \<le> length buf" "runs_within (length buf) pre"
      using assms(1) by (auto simp: runs_within_def rs)
    then have "unat (tr_offset r + tr_len r) = unat (tr_offset r) + unat (tr_len r)"
      using assms(2) by (simp add: unat_word_ariths)
    then have stop: "unat (tr_offset r) + unat (tr_len r) = length buf"
      using True u(1) by (simp add: r_def)
    then have len: "unat (tr_len r + ?l) = unat (tr_len r) + length wire"
      using assms(2) u(2) by (simp add: unat_word_ariths)
    have "take (unat (tr_len r) + length wire) (drop (unat (tr_offset r)) (buf @ wire)) =
        take (unat (tr_len r)) (drop (unat (tr_offset r)) buf) @ wire"
      using stop by simp
    then show "runs_within (length (buf @ wire)) (extend_runs ?o ?l rs) \<and>
        run_bytes (buf @ wire) (extend_runs ?o ?l rs) = run_bytes buf rs @ wire"
      using True r stop len run_bytes_grow [OF r(2)] rs
      by (auto simp: extend_runs_def pre_def [symmetric] r_def [symmetric] runs_within_def run_bytes_def)
  next
    case False
    then have "extend_runs ?o ?l rs = rs @ [\<lparr>tr_offset = ?o, tr_len = ?l\<rparr>]"
      by (simp only: extend_runs_def if_False)
    then show "runs_within (length (buf @ wire)) (extend_runs ?o ?l rs) \<and>
        run_bytes (buf @ wire) (extend_runs ?o ?l rs) = run_bytes buf rs @ wire"
      using assms(1) u run_bytes_grow [OF assms(1), of wire]
      by (auto simp: runs_within_def run_bytes_append) (auto simp: run_bytes_def)
  qed
qed

text \<open>What the accumulator of a tenant says of its pushed frames.\<close>

definition acc_for :: "bytes \<Rightarrow> pushed list \<Rightarrow> summary_acc \<Rightarrow> bool" where
  "acc_for buf ps acc \<longleftrightarrow>
     sa_min_lsn acc = Min ((\<lambda>p. fst (snd p)) ` set ps) \<and> sa_max_lsn acc = Max ((\<lambda>p. fst (snd (snd p))) ` set ps) \<and>
     sa_frames acc = of_nat (length ps) \<and> runs_within (length buf) (sa_runs acc) \<and>
     run_bytes buf (sa_runs acc) = concat (map pushed_wire ps) \<and> length (sa_runs acc) \<le> length ps"

definition acc_at :: "bytes \<Rightarrow> pushed list \<Rightarrow> summary_acc option \<Rightarrow> bool" where
  "acc_at buf ps x \<longleftrightarrow> (case x of None \<Rightarrow> ps = [] | Some acc \<Rightarrow> ps \<noteq> [] \<and> acc_for buf ps acc)"

definition builder_inv :: "segment_header \<Rightarrow> pushed list \<Rightarrow> segment_builder \<Rightarrow> bool" where
  "builder_inv h ps b \<longleftrightarrow>
     sb_buf b = segment_header_bytes h @ concat (map pushed_wire ps) \<and>
     sb_frame_count b = of_nat (length ps) \<and> bt_wf (sb_tenants b) \<and>
     (\<forall>t. acc_at (sb_buf b) (of_tenant t ps) (bt_get (sb_tenants b) t))"

lemma builder_inv_new: "builder_inv h [] (segment_new h)"
  by (simp add: builder_inv_def segment_new_def bt_wf_def bt_get_def acc_at_def)

lemma extend_runs_length: "length (extend_runs o' l rs) \<le> length rs + 1"
  by (simp add: extend_runs_def)

lemma acc_for_grow: "acc_for buf ps acc \<Longrightarrow> acc_for (buf @ extra) ps acc"
  by (auto simp: acc_for_def run_bytes_grow) (auto simp: runs_within_def)

lemma acc_at_grow: "acc_at buf ps x \<Longrightarrow> acc_at (buf @ extra) ps x"
  by (auto simp: acc_at_def acc_for_grow split: option.splits)

lemma builder_inv_push:
  assumes inv: "builder_inv h ps b" and small: "length (sb_buf b) + length wire < 2 ^ 64"
  shows "builder_inv h (ps @ [(t, lo, hi, wire)]) (push_encoded t lo hi wire b)"
proof -
  define acc0 where "acc0 = (case bt_get (sb_tenants b) t of Some acc \<Rightarrow> acc
    | None \<Rightarrow> \<lparr>sa_min_lsn = lo, sa_max_lsn = hi, sa_frames = 0, sa_runs = []\<rparr>)"
  define acc where "acc = \<lparr>sa_min_lsn = min (sa_min_lsn acc0) lo, sa_max_lsn = max (sa_max_lsn acc0) hi,
    sa_frames = sa_frames acc0 + 1,
    sa_runs = extend_runs (of_nat (length (sb_buf b))) (of_nat (length wire)) (sa_runs acc0)\<rparr>"
  have push: "push_encoded t lo hi wire b = b\<lparr>sb_buf := sb_buf b @ wire,
      sb_frame_count := sb_frame_count b + 1, sb_tenants := bt_insert t acc (sb_tenants b)\<rparr>"
    unfolding push_encoded_def Let_def acc_def acc0_def by (simp only:)
  define qs where "qs = of_tenant t ps"
  have at: "acc_at (sb_buf b) qs (bt_get (sb_tenants b) t)"
    using inv unfolding builder_inv_def qs_def by blast
  have runs: "runs_within (length (sb_buf b)) (sa_runs acc0)"
    "run_bytes (sb_buf b) (sa_runs acc0) = concat (map pushed_wire qs)"
    "sa_frames acc0 = of_nat (length qs)" "length (sa_runs acc0) \<le> length qs"
    using at by (auto simp: acc_at_def acc0_def acc_for_def runs_within_def run_bytes_def split: option.splits)
  have lsns: "sa_min_lsn acc = Min (insert lo ((\<lambda>p. fst (snd p)) ` set qs))"
    "sa_max_lsn acc = Max (insert hi ((\<lambda>p. fst (snd (snd p))) ` set qs))"
    using at by (auto simp: acc_at_def acc_def acc0_def acc_for_def min.commute max.commute split: option.splits)
  have "acc_for (sb_buf b @ wire) (qs @ [(t, lo, hi, wire)]) acc"
    using runs lsns extend_runs_ok [OF runs(1) small]
      extend_runs_length [of "of_nat (length (sb_buf b))" "of_nat (length wire)" "sa_runs acc0"]
    by (simp add: acc_for_def acc_def)
  moreover have "acc_at (sb_buf b @ wire) (of_tenant t' ps) (bt_get (sb_tenants b) t')" for t'
    using inv unfolding builder_inv_def by (blast intro: acc_at_grow)
  ultimately have "acc_at (sb_buf b @ wire) (of_tenant t' (ps @ [(t, lo, hi, wire)]))
      (bt_get (bt_insert t acc (sb_tenants b)) t')" for t'
    by (simp add: bt_get_insert acc_at_def [of _ _ "Some acc"] qs_def)
  moreover have "sb_buf b = segment_header_bytes h @ concat (map pushed_wire ps)"
    "sb_frame_count b = of_nat (length ps)" "bt_wf (sb_tenants b)"
    using inv by (simp_all add: builder_inv_def)
  ultimately show ?thesis
    by (simp add: builder_inv_def push bt_wf_insert)
qed

section \<open>A finished segment\<close>

abbreviation pushed_of :: "staged_frame \<Rightarrow> pushed" where
  "pushed_of s \<equiv> (fr_tenant (st_frame s), fr_start_lsn (st_frame s), fr_end_lsn (st_frame s), st_wire s)"

lemma push_staged_inv:
  assumes "builder_inv h ps b" "length (sb_buf b) + length (concat (map st_wire ss)) < 2 ^ 64"
  shows "builder_inv h (ps @ map pushed_of ss) (push_staged ss b)"
  using assms
proof (induction ss arbitrary: ps b)
  case (Cons s ss)
  let ?b = "push_encoded (fr_tenant (st_frame s)) (fr_start_lsn (st_frame s)) (fr_end_lsn (st_frame s)) (st_wire s) b"
  have "builder_inv h (ps @ [pushed_of s]) ?b"
    using Cons.prems by (intro builder_inv_push) auto
  moreover have "length (sb_buf ?b) = length (sb_buf b) + length (st_wire s)"
    by (simp add: push_encoded_def Let_def)
  ultimately show ?case
    using Cons.IH [of "ps @ [pushed_of s]" ?b] Cons.prems by (simp add: push_staged_def)
qed (simp add: push_staged_def)

definition footer_bytes :: "segment_builder \<Rightarrow> bytes" where
  "footer_bytes b =
     to_le (of_nat (length (segment_summaries b)) :: u32) @ concat (map encode_summary (segment_summaries b)) @
     to_le (sb_frame_count b)"

lemma length_segment_header_bytes [simp]: "length (segment_header_bytes h) = 28"
  by (simp add: segment_header_bytes_def SEGMENT_MAGIC_def)

lemma segment_finish_ok:
  assumes "sb_buf b = segment_header_bytes h @ region"
  shows "\<exists>seg. segment_finish ext b = Ok (seg, segment_summaries b) \<and>
    length seg = length (sb_buf b) + length (footer_bytes b) + 12 \<and>
    (length (footer_bytes b) < 2 ^ 32 \<longrightarrow>
       seg = segment_header_bytes h @ region @ footer_bytes b @ to_le (of_nat (length (footer_bytes b)) :: u32) @
         to_le (crc32c_append ext (crc32c ext (segment_header_bytes h)) (footer_bytes b)) @ SEGMENT_FOOTER_MAGIC)"
proof -
  let ?n = "length (footer_bytes b)"
  have buf: "sb_buf b @ to_le (of_nat (length (segment_summaries b)) :: u32) @
      concat (map encode_summary (segment_summaries b)) @ to_le (sb_frame_count b) = sb_buf b @ footer_bytes b"
    by (simp add: footer_bytes_def)
  have le: "unat (of_nat ?n :: u32) \<le> ?n" by (simp add: unat_of_nat take_bit_eq_mod)
  have eq: "unat (of_nat ?n :: u32) = ?n" if "?n < 2 ^ 32" using that by (simp add: unat_of_nat_small)
  show ?thesis
    unfolding segment_finish_def Let_def buf using le
    by (auto simp: slice_def assms SEG_HEADER_LEN_def SEGMENT_FOOTER_MAGIC_def eq)
qed

lemma segment_parse_header_bytes:
  assumes "12 \<le> length rest"
  shows "segment_parse_header (segment_header_bytes h @ rest) = Ok h"
proof -
  have "\<not> length (segment_header_bytes h @ rest) < 40" using assms by simp
  then show ?thesis
    by (cases h, cases "sg_kind h")
      (simp_all add: segment_parse_header_def segment_header_bytes_def seg_consts Let_def)
qed

lemma segment_parse_shell_object:
  assumes seg: "seg = segment_header_bytes h @ region @ foot @ to_le (of_nat (length foot) :: u32) @
      to_le (crc32c_append ext (crc32c ext (segment_header_bytes h)) foot) @ SEGMENT_FOOTER_MAGIC"
    and small: "length foot < 2 ^ 32" and body: "segment_footer_body foot = Ok f"
  shows "segment_parse_shell ext seg = Ok (h, f, 28 + length region)"
proof -
  define crc where "crc = crc32c_append ext (crc32c ext (segment_header_bytes h)) foot"
  define k n where "k = length region" and "n = length foot"
  have magic: "length SEGMENT_FOOTER_MAGIC = 4" by (simp add: SEGMENT_FOOTER_MAGIC_def)
  have seg': "seg = segment_header_bytes h @ region @ foot @ to_le (of_nat n :: u32) @ to_le crc @ SEGMENT_FOOTER_MAGIC"
    by (simp add: seg crc_def n_def)
  have len: "length seg = 40 + k + n" by (simp add: seg' magic k_def n_def)
  have hdr: "segment_parse_header seg = Ok h"
    unfolding seg' using magic by (intro segment_parse_header_bytes) simp
  have un: "unat (of_nat n :: u32) = n" using small by (simp add: unat_of_nat_small n_def)
  have slices:
    "slice seg (36 + k + n) (40 + k + n) = (Ok SEGMENT_FOOTER_MAGIC :: (_, segment_decode_error) outcome)"
    "slice seg (28 + k + n) (32 + k + n) = (Ok (to_le (of_nat n :: u32)) :: (_, segment_decode_error) outcome)"
    "slice seg (32 + k + n) (36 + k + n) = (Ok (to_le crc) :: (_, segment_decode_error) outcome)"
    "slice seg 0 28 = (Ok (segment_header_bytes h) :: (_, segment_decode_error) outcome)"
    "slice seg (28 + k) (28 + k + n) = (Ok foot :: (_, segment_decode_error) outcome)"
    by (simp_all add: slice_def len) (simp_all add: seg' magic k_def n_def)
  have arith: "40 + k + n - 4 = 36 + k + n" "40 + k + n - 12 = 28 + k + n" "28 + k + n + 4 = 32 + k + n"
    "28 + k + n + 8 = 36 + k + n" "28 + k + n - n = 28 + k" "\<not> n > 28 + k + n - 28"
    by simp_all
  show ?thesis
    unfolding segment_parse_shell_def hdr len
    using slices body by (simp add: SEG_TAIL_LEN_def SEG_HEADER_LEN_def Let_def arith un flip: crc_def k_def)
qed

definition staged_ok :: "externals \<Rightarrow> staged_frame \<Rightarrow> bool" where
  "staged_ok ext s \<longleftrightarrow> frame_ok (st_frame s) \<and> frame_encode ext (st_frame s) = Ok (st_wire s)"

lemma segment_frames_wires:
  assumes "lz4_faithful ext" "lz4_bounded ext" "list_all (staged_ok ext) ss"
  shows "segment_frames ext (concat (map st_wire ss)) acc = Ok (acc @ map st_frame ss)"
  using assms(3)
proof (induction ss arbitrary: acc)
  case Nil
  then show ?case by (simp add: segment_frames.simps frame_next_def)
next
  case (Cons s ss)
  have "\<exists>bs. frame_encode ext (st_frame s) = Ok bs \<and> 49 \<le> length bs \<and>
      (\<forall>post. frame_decode ext (bs @ post) = Ok (st_frame s, length bs))"
    using frame_roundtrip_aux [OF assms(1,2), of "st_frame s"] Cons.prems by (auto simp: staged_ok_def)
  then have "frame_decode ext (st_wire s @ post) = Ok (st_frame s, length (st_wire s))" "st_wire s \<noteq> []" for post
    using Cons.prems by (auto simp: staged_ok_def)
  from frame_next_frame [OF this(1,2)] Cons show ?case
    by (subst segment_frames.simps) simp
qed

lemma list_all_summary_ok:
  assumes "length (concat (map encode_summary ts)) < 2 ^ 32"
  shows "list_all summary_ok ts" "length ts < 2 ^ 32"
proof -
  show "list_all summary_ok ts" using assms by (induction ts) (auto simp: summary_ok_def)
  have "length ts \<le> length (concat (map encode_summary ts))" by (induction ts) auto
  with assms show "length ts < 2 ^ 32" by simp
qed

text \<open>Everything a finished window says, from the frames that went in.\<close>

lemma finished_window:
  assumes ext: "lz4_faithful ext" "lz4_bounded ext" and ss: "list_all (staged_ok ext) ss"
    and fin: "segment_finish ext (push_staged ss (segment_new h)) = Ok (seg, ts)" and small: "length seg < 2 ^ 32"
  shows "decode_segment ext seg = Ok (h, map st_frame ss, \<lparr>sf_frame_count = of_nat (length ss), sf_tenants = ts\<rparr>)"
    and "builder_inv h (map pushed_of ss) (push_staged ss (segment_new h))"
    and "ts = segment_summaries (push_staged ss (segment_new h))"
    and "\<exists>rest. seg = sb_buf (push_staged ss (segment_new h)) @ rest"
proof -
  let ?b = "push_staged ss (segment_new h)"
  let ?region = "concat (map st_wire ss)"
  have "sb_buf (push_staged ss b) = sb_buf b @ concat (map st_wire ss)" for b
    by (induction ss arbitrary: b) (auto simp: push_staged_def push_encoded_def Let_def)
  then have buf: "sb_buf ?b = segment_header_bytes h @ ?region" by (simp add: segment_new_def)
  from segment_finish_ok [OF buf, of ext] fin
  have ts: "ts = segment_summaries ?b" and len: "length seg = length (sb_buf ?b) + length (footer_bytes ?b) + 12"
    by auto
  then have fsmall: "length (footer_bytes ?b) < 2 ^ 32" using small by simp
  with segment_finish_ok [OF buf, of ext] fin
  have seg: "seg = segment_header_bytes h @ ?region @ footer_bytes ?b @
      to_le (of_nat (length (footer_bytes ?b)) :: u32) @
      to_le (crc32c_append ext (crc32c ext (segment_header_bytes h)) (footer_bytes ?b)) @ SEGMENT_FOOTER_MAGIC"
    by auto
  show "ts = segment_summaries ?b" by (rule ts)
  show inv: "builder_inv h (map pushed_of ss) ?b"
    using push_staged_inv [OF builder_inv_new, of h ss] len small buf by (simp add: segment_new_def)
  show "\<exists>rest. seg = sb_buf ?b @ rest" unfolding seg buf by simp
  have body: "segment_footer_body (footer_bytes ?b) = Ok \<lparr>sf_frame_count = of_nat (length ss), sf_tenants = ts\<rparr>"
  proof (rule segment_footer_body_encode)
    have "length (concat (map encode_summary ts)) < 2 ^ 32"
      using fsmall unfolding footer_bytes_def ts [symmetric] by simp
    from list_all_summary_ok [OF this] show "list_all summary_ok ts" "length ts < 2 ^ 32" .
    show "length (footer_bytes ?b) < 2 ^ 64" using fsmall by simp
    show "footer_bytes ?b = to_le (of_nat (length ts) :: u32) @ concat (map encode_summary ts) @ to_le (of_nat (length ss) :: u32)"
      using inv by (simp add: footer_bytes_def ts builder_inv_def)
  qed
  have shell: "segment_parse_shell ext seg = Ok (h, \<lparr>sf_frame_count = of_nat (length ss), sf_tenants = ts\<rparr>, 28 + length ?region)"
    by (rule segment_parse_shell_object [OF seg fsmall body])
  have "49 \<le> length (st_wire s)" if "s \<in> set ss" for s
    using that ss frame_roundtrip_aux [OF ext, of "st_frame s"] by (fastforce simp: list_all_iff staged_ok_def)
  then have "length ss \<le> length ?region" using ss
    by (induction ss) fastforce+
  then have "length ss < 2 ^ 32" using small len buf by simp
  moreover have "slice seg 28 (28 + length ?region) = (Ok ?region :: (_, segment_decode_error) outcome)"
    by (simp add: slice_def seg)
  ultimately show "decode_segment ext seg = Ok (h, map st_frame ss, \<lparr>sf_frame_count = of_nat (length ss), sf_tenants = ts\<rparr>)"
    using shell segment_frames_wires [OF ext ss, of "[]"]
    by (simp add: decode_segment_def SEG_HEADER_LEN_def unat_of_nat_small)
qed

text \<open>The size of a footer and of a frame, for inputs of known size.\<close>

lemma length_concat_bound:
  "(\<And>x. x \<in> set xs \<Longrightarrow> length (f x) \<le> k) \<Longrightarrow> length (concat (map f xs)) \<le> length xs * k"
  by (induction xs) (fastforce intro: add_mono)+

lemma footer_bytes_bound:
  assumes "builder_inv h ps b"
  shows "length (footer_bytes b) \<le> 8 + length ps * (40 + 16 * length ps)"
proof -
  have wf: "bt_wf (sb_tenants b)" and at: "\<And>t. acc_at (sb_buf b) (of_tenant t ps) (bt_get (sb_tenants b) t)"
    using assms unfolding builder_inv_def by blast+
  have own: "t \<in> fst ` set ps \<and> length (sa_runs acc) \<le> length ps" if "(t, acc) \<in> set (sb_tenants b)" for t acc
  proof -
    have "of_tenant t ps \<noteq> []" "length (sa_runs acc) \<le> length (of_tenant t ps)"
      using at [of t] that bt.in_entries_iff [OF wf, of t acc] by (auto simp: acc_at_def acc_for_def)
    then have "length (sa_runs acc) \<le> length ps" using length_filter_le order_trans by blast
    with \<open>of_tenant t ps \<noteq> []\<close> show ?thesis by (auto simp: filter_empty_conv)
  qed
  have "length (sb_tenants b) = card (fst ` set (sb_tenants b))"
    using bt.distinct_entries [OF wf] by (metis distinct_card length_map list.set_map)
  also have "\<dots> \<le> card (fst ` set ps)" using own by (intro card_mono) auto
  also have "\<dots> \<le> length ps" by (metis card_length length_map list.set_map)
  finally have n: "length (segment_summaries b) \<le> length ps" by (simp add: segment_summaries_def)
  have "length (encode_summary t) \<le> 40 + 16 * length ps" if "t \<in> set (segment_summaries b)" for t
    using that own by (auto simp: segment_summaries_def)
  then have "length (concat (map encode_summary (segment_summaries b))) \<le>
      length (segment_summaries b) * (40 + 16 * length ps)"
    by (rule length_concat_bound)
  also have "\<dots> \<le> length ps * (40 + 16 * length ps)" using n by (rule mult_le_mono1)
  finally show ?thesis by (simp add: footer_bytes_def)
qed

lemma frame_encode_length:
  assumes "frame_encode ext f = Ok bs"
  shows "length bs \<le> 51 + 9 * length (fr_hints f) + length (fr_payload f)"
proof -
  obtain raw body where body: "frame_body ext f = (raw, body)" by fastforce
  from assms frame_body_length [OF body] show ?thesis
    by (auto simp: frame_encode_def body Let_def split: if_splits)
qed

lemma push_staged_buf: "sb_buf (push_staged ss b) = sb_buf b @ concat (map st_wire ss)"
  by (induction ss arbitrary: b) (auto simp: push_staged_def push_encoded_def Let_def)

lemma segment_finish_bound:
  assumes "\<And>s. s \<in> set ss \<Longrightarrow> length (st_wire s) \<le> m" "28 + length ss * m < 2 ^ 64"
  shows "\<exists>seg ts. segment_finish ext (push_staged ss (segment_new h)) = Ok (seg, ts) \<and>
    length seg \<le> 48 + length ss * m + length ss * (40 + 16 * length ss)"
proof -
  let ?b = "push_staged ss (segment_new h)"
  have wires: "length (concat (map st_wire ss)) \<le> length ss * m" using length_concat_bound assms(1) by blast
  have buf: "sb_buf ?b = segment_header_bytes h @ concat (map st_wire ss)" by (simp add: push_staged_buf segment_new_def)
  have "builder_inv h (map pushed_of ss) ?b"
    using push_staged_inv [OF builder_inv_new, of h ss] wires assms(2) by (simp add: segment_new_def)
  from footer_bytes_bound [OF this] have "length (footer_bytes ?b) \<le> 8 + length ss * (40 + 16 * length ss)" by simp
  moreover have "length (sb_buf ?b) \<le> 28 + length ss * m" using wires by (simp add: buf)
  moreover obtain seg where "segment_finish ext ?b = Ok (seg, segment_summaries ?b)"
    "length seg = length (sb_buf ?b) + length (footer_bytes ?b) + 12"
    using segment_finish_ok [OF buf, of ext] by blast
  ultimately show ?thesis by auto
qed

section \<open>Properties\<close>

text \<open>C14. A batch window survives its landing segment: the frames that went in, encoded and in
  any mix of tenants, always finish into a segment, and a segment under 4 GiB decodes
  to the same header, the same frames in the same order, and the footer the builder returned.
\<close>

theorem segment_roundtrip:
  assumes "lz4_faithful ext" "lz4_bounded ext" "list_all (staged_ok ext) ss"
  shows "\<exists>seg ts. segment_finish ext (push_staged ss (segment_new h)) = Ok (seg, ts) \<and>
    (length seg < 2 ^ 32 \<longrightarrow>
       decode_segment ext seg = Ok (h, map st_frame ss, \<lparr>sf_frame_count = of_nat (length ss), sf_tenants = ts\<rparr>))"
proof -
  have "sb_buf (push_staged ss (segment_new h)) = segment_header_bytes h @ concat (map st_wire ss)"
    by (simp add: segment_new_def push_staged_buf)
  from segment_finish_ok [OF this, of ext] finished_window(1) [OF assms, of h] show ?thesis by blast
qed

definition other_frame :: frame2 where
  "other_frame =
     \<lparr>fr_tenant = 5, fr_writer_epoch = 1, fr_start_lsn = 0x40, fr_end_lsn = 0x48,
      fr_contains_commit = False, fr_first_of_epoch = True, fr_hints = [], fr_payload = [9]\<rparr>"

definition sample_window :: "staged_frame list" where
  "sample_window =
     map (\<lambda>f. \<lparr>st_frame = f, st_wire = (case frame_encode sample_ext f of Ok bs \<Rightarrow> bs | _ \<Rightarrow> [])\<rparr>)
       [sample_frame, other_frame, sample_frame]"

definition sample_header :: segment_header where
  "sample_header = \<lparr>sg_kind = Landing, sg_shard = 3, sg_seq = 17, sg_prev_digest = 0xAB\<rparr>"

lemma sample_window_ok: "list_all (staged_ok sample_ext) sample_window"
proof -
  have ok: "frame_ok other_frame" by (simp add: frame_ok_def other_frame_def unat_frame_caps)
  obtain bs bs' where "frame_encode sample_ext sample_frame = Ok bs" "frame_encode sample_ext other_frame = Ok bs'"
    using frame_roundtrip_aux [OF sample_ext_faithful sample_ext_bounded sample_frame_ok]
      frame_roundtrip_aux [OF sample_ext_faithful sample_ext_bounded ok] by auto
  then show ?thesis using ok sample_frame_ok by (simp add: sample_window_def staged_ok_def)
qed

lemma sample_segment_small:
  "\<exists>seg ts. segment_finish sample_ext (push_staged sample_window (segment_new sample_header)) = Ok (seg, ts) \<and>
     length seg < 2 ^ 32"
proof -
  have wire: "length (st_wire s) \<le> 100" if "s \<in> set sample_window" for s
  proof -
    have "frame_encode sample_ext (st_frame s) = Ok (st_wire s)" "st_frame s \<in> {sample_frame, other_frame}"
      using that sample_window_ok by (auto simp: list_all_iff staged_ok_def sample_window_def)
    then show ?thesis
      using frame_encode_length [of sample_ext "st_frame s" "st_wire s"]
      by (auto simp: sample_frame_def other_frame_def)
  qed
  from segment_finish_bound [of sample_window 100 sample_ext sample_header, OF wire] show ?thesis
    by (fastforce simp: sample_window_def)
qed

theorem segment_roundtrip_witness:
  "\<exists>seg ts. segment_finish sample_ext (push_staged sample_window (segment_new sample_header)) = Ok (seg, ts) \<and>
     length seg < 2 ^ 32 \<and>
     decode_segment sample_ext seg =
       Ok (sample_header, [sample_frame, other_frame, sample_frame], \<lparr>sf_frame_count = 3, sf_tenants = ts\<rparr>)"
  using segment_roundtrip [OF sample_ext_faithful sample_ext_bounded sample_window_ok, of sample_header]
    sample_segment_small
  by (auto simp: sample_window_def comp_def)

text \<open>The footer of a segment plans a tenant's reads: it lists exactly the tenants that
  wrote, in order, each with the number and the position range of its frames, and the byte runs
  it lists for a tenant, read one after the other, are that tenant's frames and nothing else.
\<close>

lemma segment_runs_exact:
  assumes "lz4_faithful ext" "lz4_bounded ext" "list_all (staged_ok ext) ss"
    and "segment_finish ext (push_staged ss (segment_new h)) = Ok (seg, ts)" "length seg < 2 ^ 32"
  shows "sorted_wrt (<) (map ts_tenant ts) \<and> ts_tenant ` set ts = (\<lambda>s. fr_tenant (st_frame s)) ` set ss \<and>
    (\<forall>t \<in> set ts. let own = filter (\<lambda>f. fr_tenant f = ts_tenant t) (map st_frame ss) in
       segment_frames ext (run_bytes seg (ts_runs t)) [] = Ok own \<and> ts_frames t = of_nat (length own) \<and>
       ts_min_lsn t = Min (fr_start_lsn ` set own) \<and> ts_max_lsn t = Max (fr_end_lsn ` set own))"
proof -
  let ?b = "push_staged ss (segment_new h)" and ?ps = "map pushed_of ss"
  note w = finished_window [OF assms]
  obtain rest where seg: "seg = sb_buf ?b @ rest" using w(4) by blast
  have wf: "bt_wf (sb_tenants ?b)" and at: "\<And>t. acc_at (sb_buf ?b) (of_tenant t ?ps) (bt_get (sb_tenants ?b) t)"
    using w(2) unfolding builder_inv_def by blast+
  have names: "map ts_tenant ts = map fst (sb_tenants ?b)"
    by (simp add: w(3) segment_summaries_def split_beta comp_def)
  have "sorted_wrt (<) (map ts_tenant ts)" using wf by (simp add: names bt_wf_def)
  moreover have "t \<in> fst ` set (sb_tenants ?b) \<longleftrightarrow> t \<in> (\<lambda>s. fr_tenant (st_frame s)) ` set ss" for t
  proof -
    have "t \<in> fst ` set (sb_tenants ?b) \<longleftrightarrow> bt_get (sb_tenants ?b) t \<noteq> None"
      by (simp add: bt_get_def map_of_eq_None_iff)
    also have "\<dots> \<longleftrightarrow> of_tenant t ?ps \<noteq> []" using at [of t] by (auto simp: acc_at_def split: option.splits)
    also have "\<dots> \<longleftrightarrow> t \<in> (\<lambda>s. fr_tenant (st_frame s)) ` set ss" by (auto simp: filter_empty_conv)
    finally show ?thesis .
  qed
  then have "ts_tenant ` set ts = (\<lambda>s. fr_tenant (st_frame s)) ` set ss"
    using arg_cong [OF names, of set] by auto
  moreover have "let own = filter (\<lambda>f. fr_tenant f = ts_tenant t) (map st_frame ss) in
       segment_frames ext (run_bytes seg (ts_runs t)) [] = Ok own \<and> ts_frames t = of_nat (length own) \<and>
       ts_min_lsn t = Min (fr_start_lsn ` set own) \<and> ts_max_lsn t = Max (fr_end_lsn ` set own)"
    if t: "t \<in> set ts" for t
  proof -
    let ?own = "filter (\<lambda>s. fr_tenant (st_frame s) = ts_tenant t) ss"
    from t obtain acc where acc: "(ts_tenant t, acc) \<in> set (sb_tenants ?b)" "ts_runs t = sa_runs acc"
      "ts_frames t = sa_frames acc" "ts_min_lsn t = sa_min_lsn acc" "ts_max_lsn t = sa_max_lsn acc"
      by (auto simp: w(3) segment_summaries_def)
    then have "acc_for (sb_buf ?b) (of_tenant (ts_tenant t) ?ps) acc"
      using at [of "ts_tenant t"] bt.in_entries_iff [OF wf] by (auto simp: acc_at_def)
    then have a: "acc_for (sb_buf ?b) (map pushed_of ?own) acc" by (simp add: filter_map comp_def)
    then have "run_bytes seg (ts_runs t) = concat (map st_wire ?own)"
      unfolding seg acc(2) by (simp add: acc_for_def run_bytes_grow comp_def)
    moreover have "list_all (staged_ok ext) ?own" using assms(3) by (auto simp: list_all_iff)
    ultimately have "segment_frames ext (run_bytes seg (ts_runs t)) [] = Ok (map st_frame ?own)"
      using segment_frames_wires [OF assms(1,2), of ?own "[]"] by simp
    then show ?thesis
      using a acc by (simp add: Let_def acc_for_def filter_map comp_def image_image)
  qed
  ultimately show ?thesis by blast
qed

text \<open>No bytes make the segment decoder panic, and its walk over the frames always ends.\<close>

lemma segment_decode_total: "decode_segment ext buf \<noteq> Panic \<and> segment_read_footer ext buf \<noteq> Panic"
  using decode_segment_not_Panic [of ext buf] by (auto simp: segment_read_footer_def obind_Panic_iff)

end
