(* ===== verification/Backpressure.thy ===== *)
theory Backpressure
  imports Ordered_Map
begin

text \<open>
  The lag bounds of the commit path (crates/zou-log/src/backpressure.rs): the gauge board
  that the ingest drivers and the consolidation runner report into, and the admission
  decision the sequencer asks for. The board's mutex holds the gauges.
\<close>

definition INGEST_BEHIND_BYTES :: u64 where
  "INGEST_BEHIND_BYTES = 1073741824"

definition INGEST_BEHIND_SECS :: u64 where
  "INGEST_BEHIND_SECS = 10"

definition CONSOLIDATION_BEHIND_BYTES :: u64 where
  "CONSOLIDATION_BEHIND_BYTES = 2147483648"

record lag_bounds =
  lb_ingest_bytes :: u64
  lb_ingest_secs :: u64
  lb_consolidation_bytes :: u64

definition default_bounds :: lag_bounds where
  "default_bounds =
     \<lparr>lb_ingest_bytes = INGEST_BEHIND_BYTES, lb_ingest_secs = INGEST_BEHIND_SECS,
      lb_consolidation_bytes = CONSOLIDATION_BEHIND_BYTES\<rparr>"

record ingest_lag =
  il_bytes :: u64
  il_secs :: u64

definition no_lag :: ingest_lag where
  "no_lag = \<lparr>il_bytes = 0, il_secs = 0\<rparr>"

datatype throttle =
  IngestBytes u64 u64
| IngestSecs u64 u64
| Consolidation u32 u64 u64

record gauges =
  ga_ingest :: "(u128, ingest_lag) btree"
  ga_consolidation :: "(u32, u64) btree"

record backpressure =
  bp_bounds :: lag_bounds
  bp_gauges :: gauges

definition bp_new :: "lag_bounds \<Rightarrow> backpressure" where
  "bp_new bounds = \<lparr>bp_bounds = bounds, bp_gauges = \<lparr>ga_ingest = [], ga_consolidation = []\<rparr>\<rparr>"

definition report_ingest :: "u128 \<Rightarrow> ingest_lag \<Rightarrow> backpressure \<Rightarrow> backpressure" where
  "report_ingest tenant lag bp =
     (let g = bp_gauges bp
      in bp\<lparr>bp_gauges := g\<lparr>ga_ingest :=
             (if lag = no_lag then bt_remove tenant (ga_ingest g) else bt_insert tenant lag (ga_ingest g))\<rparr>\<rparr>)"

definition report_consolidation :: "u32 \<Rightarrow> u64 \<Rightarrow> backpressure \<Rightarrow> backpressure" where
  "report_consolidation shard backlog bp =
     (let g = bp_gauges bp
      in bp\<lparr>bp_gauges := g\<lparr>ga_consolidation :=
             (if backlog = 0 then bt_remove shard (ga_consolidation g)
              else bt_insert shard backlog (ga_consolidation g))\<rparr>\<rparr>)"

text \<open>\<open>Iterator::max_by_key\<close>: of several maxima the last one.\<close>

fun max_by_key :: "('a \<Rightarrow> 'b::linorder) \<Rightarrow> 'a list \<Rightarrow> 'a option" where
  "max_by_key f [] = None"
| "max_by_key f (x # xs) =
     (case max_by_key f xs of None \<Rightarrow> Some x | Some y \<Rightarrow> if f x \<le> f y then Some y else Some x)"

definition worst_consolidation :: "backpressure \<Rightarrow> (u32 \<times> u64) option" where
  "worst_consolidation bp = max_by_key snd (ga_consolidation (bp_gauges bp))"

definition alarmed :: "backpressure \<Rightarrow> (u32 \<times> u64) option" where
  "alarmed bp =
     max_by_key snd (filter (\<lambda>(_, b). b > lb_consolidation_bytes (bp_bounds bp)) (ga_consolidation (bp_gauges bp)))"

definition option_filter :: "('a \<Rightarrow> bool) \<Rightarrow> 'a option \<Rightarrow> 'a option" where
  "option_filter P x = (case x of Some a \<Rightarrow> if P a then Some a else None | None \<Rightarrow> None)"

definition admit :: "backpressure \<Rightarrow> u128 \<Rightarrow> (unit, throttle) outcome" where
  "admit bp tenant =
     (let g = bp_gauges bp; bounds = bp_bounds bp;
          own = (case bt_get (ga_ingest g) tenant of
                   Some lag \<Rightarrow>
                     if il_bytes lag > lb_ingest_bytes bounds
                     then Some (IngestBytes (il_bytes lag) (lb_ingest_bytes bounds))
                     else if il_secs lag > lb_ingest_secs bounds
                     then Some (IngestSecs (il_secs lag) (lb_ingest_secs bounds))
                     else None
                 | None \<Rightarrow> None)
      in case own of
           Some why \<Rightarrow> Err why
         | None \<Rightarrow>
             (case option_filter (\<lambda>(_, b). b > lb_consolidation_bytes bounds)
                     (max_by_key snd (ga_consolidation g)) of
                Some (shard, backlog) \<Rightarrow> Err (Consolidation shard backlog (lb_consolidation_bytes bounds))
              | None \<Rightarrow> Ok ()))"

section \<open>The decision\<close>

lemma max_by_key_None [simp]: "max_by_key f xs = None \<longleftrightarrow> xs = []"
  by (induction xs) (auto split: option.splits)

lemma max_by_key_Some:
  "max_by_key f xs = Some m \<Longrightarrow> m \<in> set xs \<and> (\<forall>x \<in> set xs. f x \<le> f m)"
  by (induction xs arbitrary: m) (fastforce split: option.splits if_splits)+

text \<open>Filtering before the search or after it comes to the same when the filter is a bound.\<close>

lemma max_by_key_filter:
  "max_by_key f (filter (\<lambda>x. f x > k) xs) = option_filter (\<lambda>x. f x > k) (max_by_key f xs)"
proof (induction xs)
  case (Cons x xs)
  show ?case
  proof (cases "max_by_key f xs")
    case None
    then show ?thesis by (simp add: option_filter_def)
  next
    case (Some m)
    with Cons.IH show ?thesis
      by (auto simp: option_filter_def split: if_splits option.splits)
  qed
qed (simp add: option_filter_def)

lemma over_bound_iff:
  "option_filter (\<lambda>x. f x > k) (max_by_key f xs) = None \<longleftrightarrow> (\<forall>x \<in> set xs. f x \<le> k)"
proof (cases "max_by_key f xs")
  case (Some m)
  from max_by_key_Some [OF this] show ?thesis
    by (auto simp: Some option_filter_def not_less not_le intro: order_trans bexI [of _ m])
qed (simp add: option_filter_def)

definition over_ingest :: "backpressure \<Rightarrow> u128 \<Rightarrow> bool" where
  "over_ingest bp tenant \<longleftrightarrow>
     (\<exists>lag. bt_get (ga_ingest (bp_gauges bp)) tenant = Some lag \<and>
        (il_bytes lag > lb_ingest_bytes (bp_bounds bp) \<or> il_secs lag > lb_ingest_secs (bp_bounds bp)))"

lemma alarmed_eq: "alarmed bp = option_filter (\<lambda>(_, b). b > lb_consolidation_bytes (bp_bounds bp)) (worst_consolidation bp)"
  using max_by_key_filter [of "snd :: u32 \<times> u64 \<Rightarrow> u64" "lb_consolidation_bytes (bp_bounds bp)" "ga_consolidation (bp_gauges bp)"]
  by (simp add: alarmed_def worst_consolidation_def case_prod_unfold)

lemma admit_Ok_iff: "admit bp tenant = Ok () \<longleftrightarrow> \<not> over_ingest bp tenant \<and> alarmed bp = None"
  unfolding alarmed_eq worst_consolidation_def
  by (auto simp: admit_def Let_def over_ingest_def split: option.splits)

lemma admit_not_Panic: "admit bp tenant \<noteq> Panic"
  by (auto simp: admit_def Let_def split: option.splits)

lemma report_ingest_get:
  "bt_get (ga_ingest (bp_gauges (report_ingest t lag bp))) =
     (bt_get (ga_ingest (bp_gauges bp)))(t := (if lag = no_lag then None else Some lag))"
  by (simp add: report_ingest_def Let_def bt_get_insert bt_get_remove)

text \<open>Backpressure sheds the right writes: an append is admitted exactly when its own
  tenant's last report is within both ingest bounds and no log shard is over the
  consolidation bound, in which case the alarm is off for everyone; a tenant's report never
  changes what another tenant is told, and reporting no lag lifts the tenant's own throttle.
\<close>

lemma admission_is_isolated:
  "(admit bp t = Ok () \<longleftrightarrow> \<not> over_ingest bp t \<and> alarmed bp = None) \<and>
   (alarmed bp = None \<longleftrightarrow>
      (\<forall>(shard, b) \<in> set (ga_consolidation (bp_gauges bp)). b \<le> lb_consolidation_bytes (bp_bounds bp))) \<and>
   (u \<noteq> t \<longrightarrow> admit (report_ingest t lag bp) u = admit bp u) \<and>
   (alarmed bp = None \<longrightarrow> admit (report_ingest t no_lag bp) t = Ok ())"
proof -
  have "alarmed bp = None \<longleftrightarrow>
      (\<forall>(shard, b) \<in> set (ga_consolidation (bp_gauges bp)). b \<le> lb_consolidation_bytes (bp_bounds bp))"
    using over_bound_iff [where f = "snd :: u32 \<times> u64 \<Rightarrow> u64" and k = "lb_consolidation_bytes (bp_bounds bp)"]
    by (simp add: alarmed_eq worst_consolidation_def case_prod_unfold)
  moreover have same: "ga_consolidation (bp_gauges (report_ingest t lag bp)) = ga_consolidation (bp_gauges bp)"
    "bp_bounds (report_ingest t lag bp) = bp_bounds bp" for lag
    by (simp_all add: report_ingest_def Let_def)
  then have "alarmed (report_ingest t no_lag bp) = alarmed bp" by (simp add: alarmed_def)
  moreover have "\<not> over_ingest (report_ingest t no_lag bp) t"
    by (simp add: over_ingest_def report_ingest_get)
  moreover have "admit (report_ingest t lag bp) u = admit bp u" if "u \<noteq> t"
    using that unfolding admit_def Let_def same report_ingest_get by simp
  ultimately show ?thesis using admit_Ok_iff by auto
qed

definition lagging_board :: backpressure where
  "lagging_board = report_ingest 7 \<lparr>il_bytes = 0, il_secs = 11\<rparr> (bp_new default_bounds)"

end
