(* ===== verification/Sequencer.thy ===== *)
theory Sequencer
  imports Wal_Segment_Proofs Backpressure Cas_Store
begin

text \<open>
  The group commit of one log shard (crates/zou-log/src/sequencer.rs): the append path, the
  flusher that closes batches into segments, the put workers, and the lander that resolves
  landed windows in chain order. The threads are program counters in one state and every
  critical section of the code is one step of \<open>seq_step\<close>, so that a run is an
  interleaving of them. An \<open>Instant\<close> is a number of nanoseconds; an \<open>Arc<TicketInner>\<close> is
  an index into the list of ticket cells. The sink is any sink: a put that returns \<open>Ok\<close> left
  the segment durable, one that failed may have, and one may panic. Two history fields,
  the windows built and the appends accepted, are written and never read.
\<close>

definition MAX_INFLIGHT :: nat where
  "MAX_INFLIGHT = 64"

record seq_config =
  cf_window :: nat
  cf_batch_bytes :: nat
  cf_batch_frames :: nat
  cf_inflight :: nat
  cf_tee :: bool

definition default_config :: seq_config where
  "default_config =
     \<lparr>cf_window = 3000000, cf_batch_bytes = 4 * 1024 * 1024, cf_batch_frames = 4096,
      cf_inflight = 16, cf_tee = False\<rparr>"

datatype append_error =
  WrongEpoch u128 u32
| Throttled u128 throttle
| LandingFailed cas_error
| Poisoned
| Closed

type_synonym ticket = nat

type_synonym ack = "(lsn, append_error) outcome"

record batch =
  ba_frames :: "staged_frame list"
  ba_bytes :: nat
  ba_opened :: nat
  ba_tickets :: "(ticket \<times> lsn) list"

record seq_state =
  ss_batch :: "batch option"
  ss_epochs :: "(u128, u32) btree"
  ss_next_seq :: u64
  ss_prev_digest :: u64
  ss_poisoned :: bool
  ss_shutdown :: bool

record dispatch =
  di_seq :: u64
  di_segment :: bytes
  di_frames :: "frame2 list"
  di_tickets :: "(ticket \<times> lsn) list"

type_synonym put_result = "(unit, cas_error) outcome"

record lander_state =
  la_next_ack :: u64
  la_parked :: "(u64, dispatch \<times> put_result) btree"
  la_failed :: bool
  la_outstanding :: u64

text \<open>Where the flusher stands: at the head of its loop, building a closed batch outside the
  lock, before and after \<open>lander.admit\<close>, waiting for the lander, or returned.\<close>

datatype flusher =
  FlLoop | FlBuild batch u64 u64 | FlAdmit dispatch | FlSend dispatch | FlDrain | FlDone

datatype worker =
  WIdle | WPutting dispatch | WLanded dispatch put_result | WExited | WPanicked dispatch

record seq_window =
  wi_seq :: u64
  wi_prev :: u64
  wi_batch :: batch
  wi_segment :: bytes
  wi_digest :: u64

record sequencer =
  sq_state :: seq_state
  sq_lander :: lander_state
  sq_cells :: "ack option list"
  sq_tee :: "(u64 \<times> frame2 list) list"
  sq_flusher :: flusher
  sq_chan :: "dispatch list"
  sq_tx_open :: bool
  sq_workers :: "worker list"
  sq_durable :: "(u64, bytes) btree"
  sq_now :: nat
  sq_windows :: "seq_window list"
  sq_appends :: "frame2 list list"

section \<open>Start\<close>

definition resume :: "seq_config \<Rightarrow> u64 \<Rightarrow> u64 \<Rightarrow> (sequencer, append_error) outcome" where
  "resume cfg next_seq prev_digest =
     (if 1 \<le> cf_inflight cfg \<and> cf_inflight cfg \<le> MAX_INFLIGHT
      then Ok
        \<lparr>sq_state = \<lparr>ss_batch = None, ss_epochs = [], ss_next_seq = next_seq, ss_prev_digest = prev_digest,
                     ss_poisoned = False, ss_shutdown = False\<rparr>,
         sq_lander = \<lparr>la_next_ack = next_seq, la_parked = [], la_failed = False, la_outstanding = 0\<rparr>,
         sq_cells = [], sq_tee = [], sq_flusher = FlLoop, sq_chan = [], sq_tx_open = True,
         sq_workers = replicate (cf_inflight cfg) WIdle, sq_durable = [], sq_now = 0,
         sq_windows = [], sq_appends = []\<rparr>
      else Panic)"

definition start :: "seq_config \<Rightarrow> (sequencer, append_error) outcome" where
  "start cfg = resume cfg 1 0"

section \<open>Tickets\<close>

definition resolve :: "ticket \<Rightarrow> ack \<Rightarrow> ack option list \<Rightarrow> ack option list" where
  "resolve t result cells = cells[t := Some result]"

definition resolve_all :: "(lsn \<Rightarrow> ack) \<Rightarrow> (ticket \<times> lsn) list \<Rightarrow> ack option list \<Rightarrow> ack option list" where
  "resolve_all result tickets cells = fold (\<lambda>(t, lsn). resolve t (result lsn)) tickets cells"

definition try_wait :: "ticket \<Rightarrow> sequencer \<Rightarrow> ack option" where
  "try_wait t sq = sq_cells sq ! t"

section \<open>Append\<close>

fun stage_frames :: "externals \<Rightarrow> frame2 list \<Rightarrow> (staged_frame list, append_error) outcome" where
  "stage_frames ext [] = Ok []"
| "stage_frames ext (f # fs) =
     (case frame_encode ext f of
        Ok wire \<Rightarrow> obind (stage_frames ext fs) (\<lambda>ss. Ok (\<lparr>st_frame = f, st_wire = wire\<rparr> # ss))
      | _ \<Rightarrow> Panic)"

fun check_epochs :: "(u128, u32) btree \<Rightarrow> staged_frame list \<Rightarrow> (unit, append_error) outcome" where
  "check_epochs epochs [] = Ok ()"
| "check_epochs epochs (s # ss) =
     (case bt_get epochs (fr_tenant (st_frame s)) of
        Some current \<Rightarrow>
          if fr_writer_epoch (st_frame s) < current
          then Err (WrongEpoch (fr_tenant (st_frame s)) current)
          else check_epochs epochs ss
      | None \<Rightarrow> check_epochs epochs ss)"

fun check_gate :: "backpressure \<Rightarrow> staged_frame list \<Rightarrow> (unit, append_error) outcome" where
  "check_gate gate [] = Ok ()"
| "check_gate gate (s # ss) =
     (case admit gate (fr_tenant (st_frame s)) of
        Err reason \<Rightarrow> Err (Throttled (fr_tenant (st_frame s)) reason)
      | Panic \<Rightarrow> Panic
      | Ok _ \<Rightarrow> check_gate gate ss)"

fun raise_epochs :: "staged_frame list \<Rightarrow> (u128, u32) btree \<Rightarrow> (u128, u32) btree" where
  "raise_epochs [] epochs = epochs"
| "raise_epochs (s # ss) epochs =
     (let tenant = fr_tenant (st_frame s); epoch = fr_writer_epoch (st_frame s);
          known = (case bt_get epochs tenant of Some known \<Rightarrow> known | None \<Rightarrow> epoch)
      in raise_epochs ss (bt_insert tenant (max known epoch) epochs))"

definition seq_append ::
  "externals \<Rightarrow> backpressure option \<Rightarrow> frame2 list \<Rightarrow> sequencer \<Rightarrow> (ticket, append_error) outcome \<times> sequencer" where
  "seq_append ext gate frames sq =
     (if frames = [] then (Panic, sq)
      else
        case stage_frames ext frames of
          Panic \<Rightarrow> (Panic, sq)
        | Err e \<Rightarrow> (Err e, sq)
        | Ok staged \<Rightarrow>
            let durable_lsn = Max (set (map (\<lambda>s. fr_end_lsn (st_frame s)) staged));
                state = sq_state sq
            in if ss_shutdown state then (Err Closed, sq)
               else if ss_poisoned state then (Err Poisoned, sq)
               else
                 case obind (check_epochs (ss_epochs state) staged)
                        (\<lambda>_. case gate of None \<Rightarrow> Ok () | Some g \<Rightarrow> check_gate g staged) of
                   Err e \<Rightarrow> (Err e, sq)
                 | Panic \<Rightarrow> (Panic, sq)
                 | Ok _ \<Rightarrow>
                     let t = length (sq_cells sq);
                         b = (case ss_batch state of
                                Some b \<Rightarrow> b
                              | None \<Rightarrow> \<lparr>ba_frames = [], ba_bytes = 0, ba_opened = sq_now sq, ba_tickets = []\<rparr>);
                         b = b\<lparr>ba_frames := ba_frames b @ staged,
                               ba_bytes := ba_bytes b + sum_list (map (\<lambda>s. length (st_wire s)) staged),
                               ba_tickets := ba_tickets b @ [(t, durable_lsn)]\<rparr>
                     in (Ok t,
                         sq\<lparr>sq_state := state\<lparr>ss_epochs := raise_epochs staged (ss_epochs state), ss_batch := Some b\<rparr>,
                            sq_cells := sq_cells sq @ [None], sq_appends := sq_appends sq @ [frames]\<rparr>))"

definition tenant_epoch :: "u128 \<Rightarrow> sequencer \<Rightarrow> u32 option" where
  "tenant_epoch tenant sq = bt_get (ss_epochs (sq_state sq)) tenant"

definition begin_shutdown :: "sequencer \<Rightarrow> sequencer" where
  "begin_shutdown sq = sq\<lparr>sq_state := (sq_state sq)\<lparr>ss_shutdown := True\<rparr>\<rparr>"

section \<open>The lander\<close>

text \<open>One turn of the loop in \<open>Lander::complete\<close>, for the window at the head of the parked ones.\<close>

definition lander_resolve :: "seq_config \<Rightarrow> u64 \<Rightarrow> dispatch \<Rightarrow> put_result \<Rightarrow> sequencer \<Rightarrow> sequencer" where
  "lander_resolve cfg seq d outcome sq =
     (let la = sq_lander sq;
          la' = la\<lparr>la_parked := bt_remove seq (la_parked la), la_next_ack := seq + 1,
                   la_outstanding := la_outstanding la - 1\<rparr>
      in if la_failed la
         then sq\<lparr>sq_lander := la', sq_cells := resolve_all (\<lambda>_. Err Poisoned) (di_tickets d) (sq_cells sq)\<rparr>
         else
           case outcome of
             Ok _ \<Rightarrow>
               sq\<lparr>sq_lander := la', sq_cells := resolve_all Ok (di_tickets d) (sq_cells sq),
                  sq_tee := (if cf_tee cfg then sq_tee sq @ [(seq, di_frames d)] else sq_tee sq)\<rparr>
           | Err e \<Rightarrow>
               sq\<lparr>sq_lander := la'\<lparr>la_failed := True\<rparr>, sq_state := (sq_state sq)\<lparr>ss_poisoned := True\<rparr>,
                  sq_cells := resolve_all (\<lambda>_. Err (LandingFailed e)) (di_tickets d) (sq_cells sq)\<rparr>
           | Panic \<Rightarrow> sq\<lparr>sq_lander := la'\<rparr>)"

lemma lander_resolve_parked [simp]:
  "la_parked (sq_lander (lander_resolve cfg seq d outcome sq)) = bt_remove seq (la_parked (sq_lander sq))"
  by (cases outcome) (simp_all add: lander_resolve_def Let_def)

lemma bt_remove_head_shorter: "length (bt_remove k ((k, v) # m)) < Suc (length m)"
  by (simp add: bt_remove_def le_imp_less_Suc)

function lander_loop :: "seq_config \<Rightarrow> sequencer \<Rightarrow> sequencer" where
  "lander_loop cfg sq =
     (case la_parked (sq_lander sq) of
        [] \<Rightarrow> sq
      | (seq, d, outcome) # _ \<Rightarrow>
          if seq \<noteq> la_next_ack (sq_lander sq) then sq
          else lander_loop cfg (lander_resolve cfg seq d outcome sq))"
  by pat_completeness auto
termination
  by (relation "measure (\<lambda>(_, sq). length (la_parked (sq_lander sq)))")
    (auto simp: bt_remove_head_shorter)

declare lander_loop.simps [simp del]

definition lander_complete :: "seq_config \<Rightarrow> dispatch \<Rightarrow> put_result \<Rightarrow> sequencer \<Rightarrow> sequencer" where
  "lander_complete cfg d outcome sq =
     lander_loop cfg
       (sq\<lparr>sq_lander := (sq_lander sq)\<lparr>la_parked := bt_insert (di_seq d) (d, outcome) (la_parked (sq_lander sq))\<rparr>\<rparr>)"

text \<open>\<open>Lander::admit\<close> and \<open>wait_drained\<close> answer \<open>None\<close> while their caller waits.\<close>

definition lander_admit :: "nat \<Rightarrow> lander_state \<Rightarrow> lander_state option" where
  "lander_admit limit la =
     (if unat (la_outstanding la) \<ge> limit then None
      else Some (la\<lparr>la_outstanding := la_outstanding la + 1\<rparr>))"

definition wait_drained :: "lander_state \<Rightarrow> unit option" where
  "wait_drained la = (if la_outstanding la > 0 then None else Some ())"

section \<open>The flusher\<close>

definition close_now :: "seq_config \<Rightarrow> nat \<Rightarrow> bool \<Rightarrow> batch \<Rightarrow> bool" where
  "close_now cfg now shutdown b \<longleftrightarrow>
     shutdown \<or> now - ba_opened b \<ge> cf_window cfg \<or> ba_bytes b \<ge> cf_batch_bytes cfg \<or>
     length (ba_frames b) \<ge> cf_batch_frames cfg"

text \<open>From the head of the loop to the end of its first critical section; \<open>None\<close> while it waits.\<close>

definition flusher_close :: "seq_config \<Rightarrow> sequencer \<Rightarrow> sequencer option" where
  "flusher_close cfg sq =
     (let state = sq_state sq
      in case ss_batch state of
           None \<Rightarrow>
             if ss_shutdown state then Some (sq\<lparr>sq_tx_open := False, sq_flusher := FlDrain\<rparr>) else None
         | Some b \<Rightarrow>
             if \<not> close_now cfg (sq_now sq) (ss_shutdown state) b then None
             else
               let sq = sq\<lparr>sq_state := state\<lparr>ss_batch := None\<rparr>\<rparr>
               in if ss_poisoned state
                  then Some (sq\<lparr>sq_cells := resolve_all (\<lambda>_. Err Poisoned) (ba_tickets b) (sq_cells sq)\<rparr>)
                  else Some (sq\<lparr>sq_flusher := FlBuild b (ss_next_seq state) (ss_prev_digest state)\<rparr>))"

definition build_segment ::
  "externals \<Rightarrow> u32 \<Rightarrow> u64 \<Rightarrow> u64 \<Rightarrow> batch \<Rightarrow> (bytes \<times> tenant_summary list, segment_decode_error) outcome" where
  "build_segment ext shard seq prev_digest b =
     segment_finish ext (push_staged (ba_frames b)
       (segment_new \<lparr>sg_kind = Landing, sg_shard = shard, sg_seq = seq, sg_prev_digest = prev_digest\<rparr>))"

definition flusher_build ::
  "externals \<Rightarrow> u32 \<Rightarrow> seq_config \<Rightarrow> batch \<Rightarrow> u64 \<Rightarrow> u64 \<Rightarrow> sequencer \<Rightarrow> (sequencer, segment_decode_error) outcome" where
  "flusher_build ext shard cfg b seq prev_digest sq =
     obind (build_segment ext shard seq prev_digest b) (\<lambda>(segment, summaries).
       let digest = tenants_digest ext summaries
       in Ok (sq\<lparr>sq_state := (sq_state sq)\<lparr>ss_next_seq := seq + 1, ss_prev_digest := digest\<rparr>,
                 sq_flusher := FlAdmit \<lparr>di_seq = seq, di_segment = segment,
                   di_frames = (if cf_tee cfg then map st_frame (ba_frames b) else []),
                   di_tickets = ba_tickets b\<rparr>,
                 sq_windows := sq_windows sq @
                   [\<lparr>wi_seq = seq, wi_prev = prev_digest, wi_batch = b, wi_segment = segment, wi_digest = digest\<rparr>]\<rparr>))"

definition flusher_admit :: "seq_config \<Rightarrow> dispatch \<Rightarrow> sequencer \<Rightarrow> sequencer option" where
  "flusher_admit cfg d sq =
     map_option (\<lambda>la. sq\<lparr>sq_lander := la, sq_flusher := FlSend d\<rparr>)
       (lander_admit (cf_inflight cfg) (sq_lander sq))"

text \<open>The receiver lives as long as a worker does; the channel holds as many windows as may be
  in flight, and a send into a full one waits.\<close>

definition receiver_gone :: "sequencer \<Rightarrow> bool" where
  "receiver_gone sq = list_all (\<lambda>w. case w of WExited \<Rightarrow> True | WPanicked _ \<Rightarrow> True | _ \<Rightarrow> False) (sq_workers sq)"

definition flusher_send :: "seq_config \<Rightarrow> dispatch \<Rightarrow> sequencer \<Rightarrow> sequencer option" where
  "flusher_send cfg d sq =
     (if receiver_gone sq
      then Some (sq\<lparr>sq_cells := resolve_all (\<lambda>_. Err Poisoned) (di_tickets d) (sq_cells sq),
                    sq_lander := (sq_lander sq)\<lparr>la_failed := True, la_outstanding := la_outstanding (sq_lander sq) - 1\<rparr>,
                    sq_state := (sq_state sq)\<lparr>ss_poisoned := True\<rparr>, sq_flusher := FlLoop\<rparr>)
      else if length (sq_chan sq) < cf_inflight cfg
      then Some (sq\<lparr>sq_chan := sq_chan sq @ [d], sq_flusher := FlLoop\<rparr>)
      else None)"

definition flusher_drain :: "sequencer \<Rightarrow> sequencer option" where
  "flusher_drain sq = map_option (\<lambda>_. sq\<lparr>sq_flusher := FlDone\<rparr>) (wait_drained (sq_lander sq))"

definition flusher_step :: "externals \<Rightarrow> u32 \<Rightarrow> seq_config \<Rightarrow> sequencer \<Rightarrow> sequencer option" where
  "flusher_step ext shard cfg sq =
     (case sq_flusher sq of
        FlLoop \<Rightarrow> flusher_close cfg sq
      | FlBuild b seq prev_digest \<Rightarrow>
          (case flusher_build ext shard cfg b seq prev_digest sq of Ok sq' \<Rightarrow> Some sq' | _ \<Rightarrow> None)
      | FlAdmit d \<Rightarrow> flusher_admit cfg d sq
      | FlSend d \<Rightarrow> flusher_send cfg d sq
      | FlDrain \<Rightarrow> flusher_drain sq
      | FlDone \<Rightarrow> None)"

section \<open>The put workers\<close>

text \<open>What the sink did with a segment: it is durable and the put said so, the put failed with the
  segment landed or not, or the put panicked.\<close>

datatype sink_act = PutOk | PutErr cas_error bool | PutPanic bool

definition put_segment :: "sink_act \<Rightarrow> dispatch \<Rightarrow> (u64, bytes) btree \<Rightarrow> put_result \<times> (u64, bytes) btree" where
  "put_segment act d durable =
     (case act of
        PutOk \<Rightarrow> (Ok (), bt_insert (di_seq d) (di_segment d) durable)
      | PutErr e landed \<Rightarrow> (Err e, if landed then bt_insert (di_seq d) (di_segment d) durable else durable)
      | PutPanic landed \<Rightarrow> (Panic, if landed then bt_insert (di_seq d) (di_segment d) durable else durable))"

definition worker_step :: "seq_config \<Rightarrow> nat \<Rightarrow> sink_act \<Rightarrow> sequencer \<Rightarrow> sequencer option" where
  "worker_step cfg i act sq =
     (if length (sq_workers sq) \<le> i then None
      else
        case sq_workers sq ! i of
          WIdle \<Rightarrow>
            (case sq_chan sq of
               d # ds \<Rightarrow> Some (sq\<lparr>sq_chan := ds, sq_workers := (sq_workers sq)[i := WPutting d]\<rparr>)
             | [] \<Rightarrow>
                 if sq_tx_open sq then None
                 else Some (sq\<lparr>sq_workers := (sq_workers sq)[i := WExited]\<rparr>))
        | WPutting d \<Rightarrow>
            (case put_segment act d (sq_durable sq) of
               (Panic, durable) \<Rightarrow>
                 Some (sq\<lparr>sq_durable := durable, sq_workers := (sq_workers sq)[i := WPanicked d]\<rparr>)
             | (outcome, durable) \<Rightarrow>
                 Some (sq\<lparr>sq_durable := durable, sq_workers := (sq_workers sq)[i := WLanded d outcome]\<rparr>))
        | WLanded d outcome \<Rightarrow>
            Some (lander_complete cfg d outcome (sq\<lparr>sq_workers := (sq_workers sq)[i := WIdle]\<rparr>))
        | WExited \<Rightarrow> None
        | WPanicked _ \<Rightarrow> None)"

section \<open>Runs\<close>

inductive seq_step :: "externals \<Rightarrow> u32 \<Rightarrow> seq_config \<Rightarrow> sequencer \<Rightarrow> sequencer \<Rightarrow> bool"
  for ext shard cfg where
  append: "seq_append ext gate frames sq = (r, sq') \<Longrightarrow> seq_step ext shard cfg sq sq'"
| shutdown: "seq_step ext shard cfg sq (begin_shutdown sq)"
| flush: "flusher_step ext shard cfg sq = Some sq' \<Longrightarrow> seq_step ext shard cfg sq sq'"
| work: "worker_step cfg i act sq = Some sq' \<Longrightarrow> seq_step ext shard cfg sq sq'"
| tick: "seq_step ext shard cfg sq (sq\<lparr>sq_now := sq_now sq + dt\<rparr>)"

inductive_cases seq_stepE: "seq_step ext shard cfg sq sq'"

text \<open>The windows begun, with the one being built and the one being staged, stay within the
  chain positions a \<open>u64\<close> can count.\<close>

definition windows_begun :: "sequencer \<Rightarrow> nat" where
  "windows_begun sq =
     length (sq_windows sq) + (case sq_flusher sq of FlBuild _ _ _ \<Rightarrow> 1 | _ \<Rightarrow> 0) +
     (if ss_batch (sq_state sq) = None then 0 else 1)"

definition seq_room :: "u64 \<Rightarrow> sequencer \<Rightarrow> bool" where
  "seq_room first sq \<longleftrightarrow> unat first + windows_begun sq < 2 ^ 64"

inductive seq_reach :: "externals \<Rightarrow> u32 \<Rightarrow> seq_config \<Rightarrow> u64 \<Rightarrow> u64 \<Rightarrow> sequencer \<Rightarrow> bool"
  for ext shard cfg first digest where
  init: "resume cfg first digest = Ok sq \<Longrightarrow> seq_reach ext shard cfg first digest sq"
| step: "seq_reach ext shard cfg first digest sq \<Longrightarrow> seq_step ext shard cfg sq sq' \<Longrightarrow> seq_room first sq' \<Longrightarrow>
    seq_reach ext shard cfg first digest sq'"

end
