(* ===== verification/Sequencer_Proofs.thy ===== *)
theory Sequencer_Proofs
  imports Sequencer "HOL-Library.Multiset"
begin

text \<open>
  The invariants of the group commit: the windows form a digest-linked chain, every ticket
  belongs to one batch, and the dispatched windows that are not resolved yet are exactly a
  contiguous range of the chain, wherever they stand between the channel, the workers and
  the lander. Each invariant is preserved by every step and so holds in every reachable state.
\<close>

section \<open>What the steps leave alone\<close>

named_theorems seq_frame \<open>fields that an operation of the sequencer does not change\<close>

lemma lander_resolve_frame [seq_frame]:
  "sq_windows (lander_resolve cfg seq d r sq) = sq_windows sq"
  "sq_appends (lander_resolve cfg seq d r sq) = sq_appends sq"
  "sq_flusher (lander_resolve cfg seq d r sq) = sq_flusher sq"
  "sq_chan (lander_resolve cfg seq d r sq) = sq_chan sq"
  "sq_tx_open (lander_resolve cfg seq d r sq) = sq_tx_open sq"
  "sq_workers (lander_resolve cfg seq d r sq) = sq_workers sq"
  "sq_durable (lander_resolve cfg seq d r sq) = sq_durable sq"
  "ss_batch (sq_state (lander_resolve cfg seq d r sq)) = ss_batch (sq_state sq)"
  "ss_epochs (sq_state (lander_resolve cfg seq d r sq)) = ss_epochs (sq_state sq)"
  "ss_next_seq (sq_state (lander_resolve cfg seq d r sq)) = ss_next_seq (sq_state sq)"
  "ss_prev_digest (sq_state (lander_resolve cfg seq d r sq)) = ss_prev_digest (sq_state sq)"
  "ss_shutdown (sq_state (lander_resolve cfg seq d r sq)) = ss_shutdown (sq_state sq)"
  by (cases r; simp add: lander_resolve_def Let_def)+

lemma lander_loop_turn:
  "la_parked (sq_lander sq) = (la_next_ack (sq_lander sq), d, r) # rest \<Longrightarrow>
   lander_loop cfg sq = lander_loop cfg (lander_resolve cfg (la_next_ack (sq_lander sq)) d r sq)"
  by (subst lander_loop.simps) simp

lemma lander_loop_stop:
  "(\<And>d r rest. la_parked (sq_lander sq) \<noteq> (la_next_ack (sq_lander sq), d, r) # rest) \<Longrightarrow> lander_loop cfg sq = sq"
  by (subst lander_loop.simps) (auto split: list.splits)

text \<open>What every turn keeps holds at the end, where the window that is next in the chain is not
  among the parked ones.\<close>

lemma lander_loop_induct:
  assumes "P sq"
    and turn: "\<And>sq seq d r rest. P sq \<Longrightarrow> la_parked (sq_lander sq) = (seq, d, r) # rest \<Longrightarrow>
      seq = la_next_ack (sq_lander sq) \<Longrightarrow> P (lander_resolve cfg seq d r sq)"
  shows "P (lander_loop cfg sq) \<and>
    (\<forall>d r rest. la_parked (sq_lander (lander_loop cfg sq)) \<noteq> (la_next_ack (sq_lander (lander_loop cfg sq)), d, r) # rest)"
  using assms(1)
proof (induction "length (la_parked (sq_lander sq))" arbitrary: sq rule: less_induct)
  case less
  show ?case
  proof (cases "\<exists>d r rest. la_parked (sq_lander sq) = (la_next_ack (sq_lander sq), d, r) # rest")
    case True
    then obtain d r rest where head: "la_parked (sq_lander sq) = (la_next_ack (sq_lander sq), d, r) # rest" by blast
    let ?sq = "lander_resolve cfg (la_next_ack (sq_lander sq)) d r sq"
    have "P ?sq" using turn [OF less.prems head refl] .
    moreover have "length (la_parked (sq_lander ?sq)) < length (la_parked (sq_lander sq))"
      using head by (simp add: bt_remove_head_shorter)
    ultimately show ?thesis using less.hyps lander_loop_turn [OF head] by metis
  next
    case False
    then show ?thesis using lander_loop_stop [of sq cfg] less.prems by auto
  qed
qed

lemmas lander_loop_keeps = lander_loop_induct [THEN conjunct1]

lemma lander_loop_frame [seq_frame]:
  "sq_windows (lander_loop cfg sq) = sq_windows sq \<and> sq_appends (lander_loop cfg sq) = sq_appends sq \<and>
   sq_flusher (lander_loop cfg sq) = sq_flusher sq \<and> sq_chan (lander_loop cfg sq) = sq_chan sq \<and>
   sq_tx_open (lander_loop cfg sq) = sq_tx_open sq \<and> sq_workers (lander_loop cfg sq) = sq_workers sq \<and>
   sq_durable (lander_loop cfg sq) = sq_durable sq \<and>
   ss_batch (sq_state (lander_loop cfg sq)) = ss_batch (sq_state sq) \<and>
   ss_epochs (sq_state (lander_loop cfg sq)) = ss_epochs (sq_state sq) \<and>
   ss_next_seq (sq_state (lander_loop cfg sq)) = ss_next_seq (sq_state sq) \<and>
   ss_prev_digest (sq_state (lander_loop cfg sq)) = ss_prev_digest (sq_state sq) \<and>
   ss_shutdown (sq_state (lander_loop cfg sq)) = ss_shutdown (sq_state sq)"
  by (rule lander_loop_keeps) (simp_all add: seq_frame)

section \<open>The chain of windows\<close>

definition chain_from :: "externals \<Rightarrow> u32 \<Rightarrow> u64 \<Rightarrow> u64 \<Rightarrow> seq_window list \<Rightarrow> bool" where
  "chain_from ext shard first digest ws \<longleftrightarrow>
     (\<forall>i < length ws. wi_seq (ws ! i) = first + of_nat i \<and>
        wi_prev (ws ! i) = (if i = 0 then digest else wi_digest (ws ! (i - 1))) \<and>
        (\<exists>ts. build_segment ext shard (wi_seq (ws ! i)) (wi_prev (ws ! i)) (wi_batch (ws ! i)) =
              Ok (wi_segment (ws ! i), ts) \<and> wi_digest (ws ! i) = tenants_digest ext ts))"

definition chain_tip :: "u64 \<Rightarrow> seq_window list \<Rightarrow> u64" where
  "chain_tip digest ws = (if ws = [] then digest else wi_digest (last ws))"

definition inv_chain :: "externals \<Rightarrow> u32 \<Rightarrow> u64 \<Rightarrow> u64 \<Rightarrow> sequencer \<Rightarrow> bool" where
  "inv_chain ext shard first digest sq \<longleftrightarrow>
     chain_from ext shard first digest (sq_windows sq) \<and>
     ss_next_seq (sq_state sq) = first + of_nat (length (sq_windows sq)) \<and>
     ss_prev_digest (sq_state sq) = chain_tip digest (sq_windows sq) \<and>
     (\<forall>b q p. sq_flusher sq = FlBuild b q p \<longrightarrow> q = ss_next_seq (sq_state sq) \<and> p = ss_prev_digest (sq_state sq))"

lemma chain_from_snoc:
  assumes "chain_from ext shard first digest ws"
    and "wi_seq w = first + of_nat (length ws)" "wi_prev w = chain_tip digest ws"
    and "build_segment ext shard (wi_seq w) (wi_prev w) (wi_batch w) = Ok (wi_segment w, ts)"
    and "wi_digest w = tenants_digest ext ts"
  shows "chain_from ext shard first digest (ws @ [w])"
  using assms unfolding chain_from_def
  by (auto simp: less_Suc_eq nth_append chain_tip_def last_conv_nth split: if_splits)

lemma seq_append_frame:
  assumes "seq_append ext gate frames sq = (r, sq')"
  shows "sq_windows sq' = sq_windows sq" "sq_lander sq' = sq_lander sq" "sq_flusher sq' = sq_flusher sq"
    "sq_chan sq' = sq_chan sq" "sq_tx_open sq' = sq_tx_open sq" "sq_workers sq' = sq_workers sq"
    "sq_durable sq' = sq_durable sq" "sq_tee sq' = sq_tee sq"
    "ss_next_seq (sq_state sq') = ss_next_seq (sq_state sq)"
    "ss_prev_digest (sq_state sq') = ss_prev_digest (sq_state sq)"
    "ss_shutdown (sq_state sq') = ss_shutdown (sq_state sq)" "ss_poisoned (sq_state sq') = ss_poisoned (sq_state sq)"
  using assms by (auto simp: seq_append_def Let_def split: if_splits outcome.splits)

lemma worker_step_frame:
  assumes "worker_step cfg i act sq = Some sq'"
  shows "sq_windows sq' = sq_windows sq" "sq_appends sq' = sq_appends sq" "sq_flusher sq' = sq_flusher sq"
    "sq_tx_open sq' = sq_tx_open sq"
    "ss_batch (sq_state sq') = ss_batch (sq_state sq)" "ss_epochs (sq_state sq') = ss_epochs (sq_state sq)"
    "ss_next_seq (sq_state sq') = ss_next_seq (sq_state sq)"
    "ss_prev_digest (sq_state sq') = ss_prev_digest (sq_state sq)"
    "ss_shutdown (sq_state sq') = ss_shutdown (sq_state sq)"
  using assms
  by (auto simp: worker_step_def lander_complete_def seq_frame split: if_splits worker.splits list.splits prod.splits outcome.splits)

lemma build_segment_ok:
  obtains seg ts where "build_segment ext shard seq prev b = Ok (seg, ts)"
proof -
  let ?h = "\<lparr>sg_kind = Landing, sg_shard = shard, sg_seq = seq, sg_prev_digest = prev\<rparr>"
  have "sb_buf (push_staged (ba_frames b) (segment_new ?h)) =
      segment_header_bytes ?h @ concat (map st_wire (ba_frames b))"
    by (simp add: segment_new_def push_staged_buf)
  from segment_finish_ok [OF this, of ext] that show thesis by (auto simp: build_segment_def)
qed

text \<open>The steps of the flusher, one rule per place it can stand at.\<close>

lemma flusher_step_cases [consumes 1, case_names stop poisoned close build admit send send_failed drain]:
  assumes "flusher_step ext shard cfg sq = Some sq'"
    and "sq_flusher sq = FlLoop \<Longrightarrow> ss_batch (sq_state sq) = None \<Longrightarrow> ss_shutdown (sq_state sq) \<Longrightarrow>
      sq' = sq\<lparr>sq_tx_open := False, sq_flusher := FlDrain\<rparr> \<Longrightarrow> P"
    and "\<And>b. sq_flusher sq = FlLoop \<Longrightarrow> ss_batch (sq_state sq) = Some b \<Longrightarrow> ss_poisoned (sq_state sq) \<Longrightarrow>
      sq' = sq\<lparr>sq_state := (sq_state sq)\<lparr>ss_batch := None\<rparr>,
        sq_cells := resolve_all (\<lambda>_. Err Poisoned) (ba_tickets b) (sq_cells sq)\<rparr> \<Longrightarrow> P"
    and "\<And>b. sq_flusher sq = FlLoop \<Longrightarrow> ss_batch (sq_state sq) = Some b \<Longrightarrow> \<not> ss_poisoned (sq_state sq) \<Longrightarrow>
      sq' = sq\<lparr>sq_state := (sq_state sq)\<lparr>ss_batch := None\<rparr>,
        sq_flusher := FlBuild b (ss_next_seq (sq_state sq)) (ss_prev_digest (sq_state sq))\<rparr> \<Longrightarrow> P"
    and "\<And>b seq prev seg ts. sq_flusher sq = FlBuild b seq prev \<Longrightarrow>
      build_segment ext shard seq prev b = Ok (seg, ts) \<Longrightarrow>
      sq' = sq\<lparr>sq_state := (sq_state sq)\<lparr>ss_next_seq := seq + 1, ss_prev_digest := tenants_digest ext ts\<rparr>,
        sq_flusher := FlAdmit \<lparr>di_seq = seq, di_segment = seg,
          di_frames = (if cf_tee cfg then map st_frame (ba_frames b) else []), di_tickets = ba_tickets b\<rparr>,
        sq_windows := sq_windows sq @ [\<lparr>wi_seq = seq, wi_prev = prev, wi_batch = b, wi_segment = seg,
          wi_digest = tenants_digest ext ts\<rparr>]\<rparr> \<Longrightarrow> P"
    and "\<And>d. sq_flusher sq = FlAdmit d \<Longrightarrow> unat (la_outstanding (sq_lander sq)) < cf_inflight cfg \<Longrightarrow>
      sq' = sq\<lparr>sq_lander := (sq_lander sq)\<lparr>la_outstanding := la_outstanding (sq_lander sq) + 1\<rparr>,
        sq_flusher := FlSend d\<rparr> \<Longrightarrow> P"
    and "\<And>d. sq_flusher sq = FlSend d \<Longrightarrow> \<not> receiver_gone sq \<Longrightarrow>
      sq' = sq\<lparr>sq_chan := sq_chan sq @ [d], sq_flusher := FlLoop\<rparr> \<Longrightarrow> P"
    and "\<And>d. sq_flusher sq = FlSend d \<Longrightarrow> receiver_gone sq \<Longrightarrow>
      sq' = sq\<lparr>sq_cells := resolve_all (\<lambda>_. Err Poisoned) (di_tickets d) (sq_cells sq),
        sq_lander := (sq_lander sq)\<lparr>la_failed := True, la_outstanding := la_outstanding (sq_lander sq) - 1\<rparr>,
        sq_state := (sq_state sq)\<lparr>ss_poisoned := True\<rparr>, sq_flusher := FlLoop\<rparr> \<Longrightarrow> P"
    and "sq_flusher sq = FlDrain \<Longrightarrow> la_outstanding (sq_lander sq) = 0 \<Longrightarrow> sq' = sq\<lparr>sq_flusher := FlDone\<rparr> \<Longrightarrow> P"
  shows P
proof (cases "sq_flusher sq")
  case FlLoop
  then show ?thesis
    using assms(1-4) by (auto simp: flusher_step_def flusher_close_def Let_def split: option.splits if_splits)
next
  case (FlBuild b seq prev)
  then show ?thesis
    using assms(1) assms(5) [OF FlBuild]
    by (cases "build_segment ext shard seq prev b") (auto simp: flusher_step_def flusher_build_def Let_def)
next
  case (FlAdmit d)
  then show ?thesis
    using assms(1) assms(6) [OF FlAdmit]
    by (auto simp: flusher_step_def flusher_admit_def lander_admit_def split: if_splits)
next
  case (FlSend d)
  then show ?thesis
    using assms(1) assms(7,8) [OF FlSend] by (auto simp: flusher_step_def flusher_send_def split: if_splits)
next
  case FlDrain
  then show ?thesis
    using assms(1,9) by (auto simp: flusher_step_def flusher_drain_def wait_drained_def word_gt_0 split: if_splits)
next
  case FlDone
  then show ?thesis using assms(1) by (simp add: flusher_step_def)
qed

lemma inv_chain_step:
  assumes inv: "inv_chain ext shard first digest sq" and step: "seq_step ext shard cfg sq sq'"
  shows "inv_chain ext shard first digest sq'"
  using step
proof cases
  case (append gate frames r)
  with inv show ?thesis by (auto simp: inv_chain_def seq_append_frame [OF append])
next
  case (work i act)
  with inv show ?thesis by (auto simp: inv_chain_def worker_step_frame [OF work])
next
  case flush
  then show ?thesis
  proof (cases rule: flusher_step_cases)
    case (build b seq prev seg ts)
    have "seq = first + of_nat (length (sq_windows sq))" "prev = chain_tip digest (sq_windows sq)"
      using inv build(1) by (auto simp: inv_chain_def)
    moreover have "chain_from ext shard first digest (sq_windows sq)" using inv by (simp add: inv_chain_def)
    ultimately have "chain_from ext shard first digest (sq_windows sq')"
      using build by (auto intro: chain_from_snoc)
    with build \<open>seq = _\<close> show ?thesis by (simp add: inv_chain_def chain_tip_def)
  qed (use inv in \<open>auto simp: inv_chain_def\<close>)
qed (use inv in \<open>auto simp: inv_chain_def begin_shutdown_def\<close>)

text \<open>Positions do not wrap, so a position names one window.\<close>

lemma chain_index:
  assumes "chain_from ext shard first digest ws" "unat first + length ws < 2 ^ 64" "i < length ws" "j \<le> length ws"
  shows "wi_seq (ws ! i) = first + of_nat j \<longleftrightarrow> i = j"
proof
  assume "wi_seq (ws ! i) = first + of_nat j"
  with assms(1,3) have "first + of_nat i = first + (of_nat j :: u64)" by (simp add: chain_from_def)
  then have "unat (of_nat i :: u64) = unat (of_nat j :: u64)" by simp
  with assms show "i = j" by (simp add: unat_of_nat take_bit_nat_eq_self)
qed (use assms in \<open>simp add: chain_from_def\<close>)

section \<open>Windows in flight\<close>

definition held :: "worker \<Rightarrow> dispatch list" where
  "held w = (case w of WPutting d \<Rightarrow> [d] | WLanded d _ \<Rightarrow> [d] | WPanicked d \<Rightarrow> [d] | _ \<Rightarrow> [])"

definition flight :: "sequencer \<Rightarrow> dispatch list" where
  "flight sq = sq_chan sq @ concat (map held (sq_workers sq)) @ map (\<lambda>(_, d, _). d) (la_parked (sq_lander sq))"

definition disp :: "seq_config \<Rightarrow> seq_window \<Rightarrow> dispatch" where
  "disp cfg w =
     \<lparr>di_seq = wi_seq w, di_segment = wi_segment w,
      di_frames = (if cf_tee cfg then map st_frame (ba_frames (wi_batch w)) else []),
      di_tickets = ba_tickets (wi_batch w)\<rparr>"

definition pending :: "sequencer \<Rightarrow> dispatch list" where
  "pending sq = (case sq_flusher sq of FlAdmit d \<Rightarrow> [d] | FlSend d \<Rightarrow> [d] | _ \<Rightarrow> [])"

definition sending :: "sequencer \<Rightarrow> nat" where
  "sending sq = (case sq_flusher sq of FlSend _ \<Rightarrow> 1 | _ \<Rightarrow> 0)"

definition resolved :: "u64 \<Rightarrow> sequencer \<Rightarrow> nat" where
  "resolved first sq = unat (la_next_ack (sq_lander sq) - first)"

text \<open>After a failed send the last window is in nobody's hands.\<close>

definition cut_off :: "u64 \<Rightarrow> sequencer \<Rightarrow> bool" where
  "cut_off first sq \<longleftrightarrow>
     length (sq_windows sq) = Suc (resolved first sq + length (flight sq)) \<and>
     sq_flusher sq \<in> {FlLoop, FlDrain, FlDone} \<and> la_failed (sq_lander sq) \<and> ss_poisoned (sq_state sq) \<and>
     receiver_gone sq"

definition inv_flight :: "seq_config \<Rightarrow> u64 \<Rightarrow> sequencer \<Rightarrow> bool" where
  "inv_flight cfg first sq \<longleftrightarrow>
     mset (flight sq) =
       mset (map (disp cfg) (take (length (flight sq)) (drop (resolved first sq) (sq_windows sq)))) \<and>
     (cut_off first sq \<or>
      resolved first sq + length (flight sq) \<le> length (sq_windows sq) \<and>
      pending sq = map (disp cfg) (drop (resolved first sq + length (flight sq)) (sq_windows sq))) \<and>
     unat (la_outstanding (sq_lander sq)) = length (flight sq) + sending sq \<and>
     length (flight sq) + sending sq \<le> cf_inflight cfg \<and>
     cf_inflight cfg \<le> MAX_INFLIGHT \<and> length (sq_workers sq) = cf_inflight cfg"

definition inv_parked :: "sequencer \<Rightarrow> bool" where
  "inv_parked sq \<longleftrightarrow>
     bt_wf (la_parked (sq_lander sq)) \<and>
     (\<forall>(q, d, r) \<in> set (la_parked (sq_lander sq)). di_seq d = q \<and> r \<noteq> Panic) \<and>
     (\<forall>d r. WLanded d r \<in> set (sq_workers sq) \<longrightarrow> r \<noteq> Panic)"

lemma held_simps [simp]:
  "held WIdle = []" "held (WPutting d) = [d]" "held (WLanded d r) = [d]" "held WExited = []" "held (WPanicked d) = [d]"
  by (simp_all add: held_def)

lemma mset_held_update:
  assumes "i < length ws"
  shows "mset (concat (map held (ws[i := w]))) + mset (held (ws ! i)) = mset (concat (map held ws)) + mset (held w)"
proof -
  have "ws = take i ws @ ws ! i # drop (Suc i) ws" using id_take_nth_drop [OF assms] .
  moreover have "ws[i := w] = take i ws @ w # drop (Suc i) ws" using upd_conv_take_nth_drop [OF assms] .
  ultimately have "mset (concat (map held ws)) =
      mset (concat (map held (take i ws))) + mset (held (ws ! i)) + mset (concat (map held (drop (Suc i) ws)))"
    "mset (concat (map held (ws[i := w]))) =
      mset (concat (map held (take i ws))) + mset (held w) + mset (concat (map held (drop (Suc i) ws)))"
    by (metis (no_types, lifting) add.assoc concat.simps(2) concat_append list.simps(9) map_append mset_append)+
  then show ?thesis by simp
qed

lemma mset_bt_insert: "bt_wf m \<Longrightarrow> k \<notin> fst ` set m \<Longrightarrow> mset (bt_insert k v m) = add_mset (k, v) (mset m)"
  by (induction k v m rule: bt_insert.induct) (auto simp: bt_wf_def)

lemma bt_remove_head: "bt_wf ((k, v) # m) \<Longrightarrow> bt_remove k ((k, v) # m) = m"
  by (fastforce simp: bt_wf_def bt_remove_def intro!: filter_True)

lemma flight_in_windows:
  assumes "inv_flight cfg first sq" "d \<in> set (flight sq)"
  obtains j where "j < length (flight sq)" "resolved first sq + j < length (sq_windows sq)"
    "d = disp cfg (sq_windows sq ! (resolved first sq + j))"
proof -
  let ?ws = "take (length (flight sq)) (drop (resolved first sq) (sq_windows sq))"
  from assms have "d \<in> set (map (disp cfg) ?ws)" by (metis inv_flight_def set_mset_mset)
  then obtain w where "w \<in> set ?ws" "d = disp cfg w" by auto
  then obtain j where "j < length ?ws" "w = ?ws ! j" by (auto simp: in_set_conv_nth)
  with \<open>d = disp cfg w\<close> show thesis by (intro that [of j]) auto
qed

lemma parked_in_flight: "(q, d, r) \<in> set (la_parked (sq_lander sq)) \<Longrightarrow> d \<in> set (flight sq)"
  by (force simp: flight_def)

lemma flight_distinct_seqs:
  assumes "inv_flight cfg first sq" "chain_from ext shard first digest (sq_windows sq)"
    "unat first + length (sq_windows sq) < 2 ^ 64"
  shows "distinct (map di_seq (flight sq))"
proof -
  let ?ws = "take (length (flight sq)) (drop (resolved first sq) (sq_windows sq))"
  have "distinct (map wi_seq (sq_windows sq))"
    using chain_index [OF assms(2,3)] assms(2)
    by (auto simp: distinct_conv_nth chain_from_def) (metis less_imp_le)
  then have "distinct (map wi_seq ?ws)" by (metis distinct_drop distinct_take drop_map take_map)
  then have "distinct (map di_seq (map (disp cfg) ?ws))" by (simp add: disp_def comp_def)
  moreover have "mset (map di_seq (flight sq)) = mset (map di_seq (map (disp cfg) ?ws))"
    using assms(1) unfolding inv_flight_def by (metis mset_map)
  ultimately show ?thesis by (metis mset_eq_imp_distinct_iff)
qed

lemma inv_flight_cong:
  assumes "inv_flight cfg first sq" "mset (flight sq') = mset (flight sq)" "sq_windows sq' = sq_windows sq"
    "resolved first sq' = resolved first sq" "pending sq' = pending sq" "sending sq' = sending sq"
    "la_outstanding (sq_lander sq') = la_outstanding (sq_lander sq)"
    "length (sq_workers sq') = length (sq_workers sq)" "cut_off first sq \<Longrightarrow> cut_off first sq'"
  shows "inv_flight cfg first sq'"
  using assms mset_eq_length [OF assms(2)] unfolding inv_flight_def by auto

text \<open>Handing a landed window to the lander, and one turn of its loop.\<close>

lemma flight_park:
  assumes "inv_flight cfg first sq" "inv_parked sq" "chain_from ext shard first digest (sq_windows sq)"
    and "unat first + length (sq_windows sq) < 2 ^ 64"
    and i: "i < length (sq_workers sq)" "sq_workers sq ! i = WLanded d r"
    and sq': "sq' = sq\<lparr>sq_workers := (sq_workers sq)[i := WIdle],
      sq_lander := (sq_lander sq)\<lparr>la_parked := bt_insert (di_seq d) (d, r) (la_parked (sq_lander sq))\<rparr>\<rparr>"
  shows "inv_flight cfg first sq'" and "inv_parked sq'" and "mset (flight sq') = mset (flight sq)"
proof -
  let ?p = "la_parked (sq_lander sq)"
  have held: "add_mset d (mset (concat (map held ((sq_workers sq)[i := WIdle])))) = mset (concat (map held (sq_workers sq)))"
    using mset_held_update [OF i(1), of WIdle] i(2) by simp
  have keys: "fst ` set ?p = di_seq ` (\<lambda>(_, d, _). d) ` set ?p"
    using assms(2) by (force simp: inv_parked_def image_iff)
  have "d \<in> set (concat (map held (sq_workers sq)))" using held by (metis set_mset_mset union_single_eq_member)
  moreover have "set (map di_seq (concat (map held (sq_workers sq)))) \<inter> set (map di_seq (map (\<lambda>(_, d, _). d) ?p)) = {}"
    using flight_distinct_seqs [OF assms(1,3,4)] unfolding flight_def map_append distinct_append by blast
  ultimately have fresh: "di_seq d \<notin> fst ` set ?p" unfolding keys set_map by blast
  have "bt_wf ?p" using assms(2) by (simp add: inv_parked_def)
  from mset_bt_insert [OF this fresh, of "(d, r)"] show same: "mset (flight sq') = mset (flight sq)"
    using held by (simp add: sq' flight_def)
  have "\<not> receiver_gone sq" using i by (auto simp: receiver_gone_def list_all_length)
  then show "inv_flight cfg first sq'"
    by (intro inv_flight_cong [OF assms(1) same])
      (auto simp: sq' resolved_def pending_def sending_def cut_off_def)
  show "inv_parked sq'"
    using assms(2) i set_bt_insert [of "di_seq d" "(d, r)" ?p] nth_mem [OF i(1)]
    by (fastforce simp: inv_parked_def sq' bt_wf_insert dest!: set_update_subset_insert [THEN subsetD])
qed

lemma lander_turn_window:
  assumes "inv_flight cfg first sq" "inv_parked sq" "chain_from ext shard first digest (sq_windows sq)"
    and "unat first + length (sq_windows sq) < 2 ^ 64"
    and "la_parked (sq_lander sq) = (q, d, r) # rest" "q = la_next_ack (sq_lander sq)"
  shows "resolved first sq < length (sq_windows sq)" "d = disp cfg (sq_windows sq ! resolved first sq)"
    and "q = first + of_nat (resolved first sq)"
proof -
  let ?a = "resolved first sq"
  have d: "d \<in> set (flight sq)" and q: "di_seq d = q"
    using assms(2,5) parked_in_flight [of q d r sq] by (auto simp: inv_parked_def)
  show first: "q = first + of_nat ?a" using assms(6) by (simp add: resolved_def)
  obtain j where j: "j < length (flight sq)" "?a + j < length (sq_windows sq)" "d = disp cfg (sq_windows sq ! (?a + j))"
    by (rule flight_in_windows [OF assms(1) d])
  then have "wi_seq (sq_windows sq ! (?a + j)) = first + of_nat ?a" using q first by (simp add: disp_def)
  moreover have "?a \<le> length (sq_windows sq)" using j(2) by simp
  ultimately have "j = 0" using chain_index [OF assms(3,4) j(2), of ?a] by simp
  with j show "?a < length (sq_windows sq)" "d = disp cfg (sq_windows sq ! ?a)" by auto
qed

lemma flight_turn:
  assumes "inv_flight cfg first sq" "inv_parked sq" "chain_from ext shard first digest (sq_windows sq)"
    and "unat first + length (sq_windows sq) < 2 ^ 64" "\<not> receiver_gone sq"
    and "la_parked (sq_lander sq) = (q, d, r) # rest" "q = la_next_ack (sq_lander sq)"
    and sq': "sq' = lander_resolve cfg q d r sq"
  shows "inv_flight cfg first sq'" and "inv_parked sq'" and "resolved first sq' = Suc (resolved first sq)"
    and "add_mset d (mset (flight sq')) = mset (flight sq)"
proof -
  let ?a = "resolved first sq" and ?n = "length (flight sq)"
  note w = lander_turn_window [OF assms(1-4,6,7)]
  have la: "la_next_ack (sq_lander sq') = q + 1" "la_outstanding (sq_lander sq') = la_outstanding (sq_lander sq) - 1"
    by (cases r; simp add: sq' lander_resolve_def Let_def)+
  show a': "resolved first sq' = Suc ?a"
  proof -
    have "la_next_ack (sq_lander sq') - first = of_nat (Suc ?a)" unfolding la w(3) by simp
    moreover have "Suc ?a < 2 ^ 64" using w(1) assms(4) by simp
    ultimately show ?thesis unfolding resolved_def [of first sq'] by (simp add: unat_of_nat take_bit_nat_eq_self del: of_nat_Suc)
  qed
  have parked: "la_parked (sq_lander sq') = rest"
    using assms(2,6) by (auto simp: sq' inv_parked_def intro: bt_remove_head)
  then show fl: "add_mset d (mset (flight sq')) = mset (flight sq)"
    by (simp add: flight_def sq' seq_frame assms(6))
  then have n: "?n = Suc (length (flight sq'))" by (metis size_add_mset size_mset)
  have "take ?n (drop ?a (sq_windows sq)) = sq_windows sq ! ?a # take (length (flight sq')) (drop (Suc ?a) (sq_windows sq))"
    using w(1) by (simp add: n Cons_nth_drop_Suc [symmetric])
  then have "add_mset d (mset (flight sq')) =
      add_mset d (mset (map (disp cfg) (take (length (flight sq')) (drop (Suc ?a) (sq_windows sq)))))"
    using assms(1) fl w(2) by (simp add: inv_flight_def)
  moreover have "\<not> cut_off first sq" using assms(5) by (simp add: cut_off_def)
  moreover have "unat (la_outstanding (sq_lander sq) - 1) = unat (la_outstanding (sq_lander sq)) - 1"
    using assms(1) n by (intro unat_minus_one) (auto simp: inv_flight_def)
  ultimately show "inv_flight cfg first sq'"
    using assms(1) n a' by (simp add: inv_flight_def la la [unfolded sq'] sq' seq_frame pending_def sending_def)
  show "inv_parked sq'"
    using assms(2,6) parked by (auto simp: inv_parked_def sq' seq_frame bt_wf_def)
qed

text \<open>The steps of a put worker.\<close>

lemma worker_step_cases [consumes 1, case_names recv exit panic put complete]:
  assumes "worker_step cfg i act sq = Some sq'"
    and "\<And>d ds. i < length (sq_workers sq) \<Longrightarrow> sq_workers sq ! i = WIdle \<Longrightarrow> sq_chan sq = d # ds \<Longrightarrow>
      sq' = sq\<lparr>sq_chan := ds, sq_workers := (sq_workers sq)[i := WPutting d]\<rparr> \<Longrightarrow> P"
    and "i < length (sq_workers sq) \<Longrightarrow> sq_workers sq ! i = WIdle \<Longrightarrow> sq_chan sq = [] \<Longrightarrow> \<not> sq_tx_open sq \<Longrightarrow>
      sq' = sq\<lparr>sq_workers := (sq_workers sq)[i := WExited]\<rparr> \<Longrightarrow> P"
    and "\<And>d durable. i < length (sq_workers sq) \<Longrightarrow> sq_workers sq ! i = WPutting d \<Longrightarrow>
      put_segment act d (sq_durable sq) = (Panic, durable) \<Longrightarrow>
      sq' = sq\<lparr>sq_durable := durable, sq_workers := (sq_workers sq)[i := WPanicked d]\<rparr> \<Longrightarrow> P"
    and "\<And>d r durable. i < length (sq_workers sq) \<Longrightarrow> sq_workers sq ! i = WPutting d \<Longrightarrow>
      put_segment act d (sq_durable sq) = (r, durable) \<Longrightarrow> r \<noteq> Panic \<Longrightarrow>
      sq' = sq\<lparr>sq_durable := durable, sq_workers := (sq_workers sq)[i := WLanded d r]\<rparr> \<Longrightarrow> P"
    and "\<And>d r. i < length (sq_workers sq) \<Longrightarrow> sq_workers sq ! i = WLanded d r \<Longrightarrow>
      sq' = lander_loop cfg (sq\<lparr>sq_workers := (sq_workers sq)[i := WIdle],
        sq_lander := (sq_lander sq)\<lparr>la_parked := bt_insert (di_seq d) (d, r) (la_parked (sq_lander sq))\<rparr>\<rparr>) \<Longrightarrow> P"
  shows P
proof -
  have i: "i < length (sq_workers sq)" using assms(1) by (auto simp: worker_step_def split: if_splits)
  show ?thesis
  proof (cases "sq_workers sq ! i")
    case WIdle
    then show ?thesis
      using assms(1) assms(2,3) [OF i WIdle] i by (auto simp: worker_step_def split: list.splits if_splits)
  next
    case (WPutting d)
    obtain r durable where "put_segment act d (sq_durable sq) = (r, durable)" by fastforce
    then show ?thesis
      using assms(1) assms(4,5) [OF i WPutting] i WPutting by (cases r) (auto simp: worker_step_def)
  next
    case (WLanded d r)
    then show ?thesis
      using assms(1) assms(6) [OF i WLanded] i by (auto simp: worker_step_def lander_complete_def)
  qed (use assms(1) i in \<open>auto simp: worker_step_def\<close>)
qed

lemma receiver_gone_nth:
  "receiver_gone sq \<Longrightarrow> i < length (sq_workers sq) \<Longrightarrow> sq_workers sq ! i = WExited \<or> (\<exists>d. sq_workers sq ! i = WPanicked d)"
  by (cases "sq_workers sq ! i") (auto simp: receiver_gone_def list_all_length)

text \<open>The states the lander's loop goes through.\<close>

definition inv_landing :: "externals \<Rightarrow> u32 \<Rightarrow> seq_config \<Rightarrow> u64 \<Rightarrow> u64 \<Rightarrow> sequencer \<Rightarrow> bool" where
  "inv_landing ext shard cfg first digest sq \<longleftrightarrow>
     inv_flight cfg first sq \<and> inv_parked sq \<and> chain_from ext shard first digest (sq_windows sq) \<and>
     unat first + length (sq_windows sq) < 2 ^ 64 \<and> \<not> receiver_gone sq"

lemma inv_landing_turn:
  assumes "inv_landing ext shard cfg first digest sq" "la_parked (sq_lander sq) = (q, d, r) # rest"
    "q = la_next_ack (sq_lander sq)"
  shows "inv_landing ext shard cfg first digest (lander_resolve cfg q d r sq)"
  using assms flight_turn [OF _ _ _ _ _ assms(2,3) refl, of cfg first ext shard digest]
  by (simp add: inv_landing_def seq_frame receiver_gone_def)

lemma inv_landing_park:
  assumes "inv_flight cfg first sq" "inv_parked sq" "chain_from ext shard first digest (sq_windows sq)"
    and "unat first + length (sq_windows sq) < 2 ^ 64"
    and "i < length (sq_workers sq)" "sq_workers sq ! i = WLanded d r"
  shows "inv_landing ext shard cfg first digest (sq\<lparr>sq_workers := (sq_workers sq)[i := WIdle],
      sq_lander := (sq_lander sq)\<lparr>la_parked := bt_insert (di_seq d) (d, r) (la_parked (sq_lander sq))\<rparr>\<rparr>)"
  using assms flight_park [OF assms refl] by (auto simp: inv_landing_def receiver_gone_def list_all_length)

lemma put_segment_not_Panic: "put_segment act d m = (r, m') \<Longrightarrow> r = Panic \<Longrightarrow> \<exists>landed. act = PutPanic landed"
  by (auto simp: put_segment_def split: sink_act.splits)

lemma multiset_shift:
  fixes a :: "'a multiset"
  assumes "a' + w' = a + w" "h' + w = h + w'"
  shows "a' + (h' + r) = a + (h + r)"
proof -
  have "(a' + (h' + r)) + (w + w') = (a' + w') + (h' + w) + r" by (simp add: ac_simps)
  also have "\<dots> = (a + (h + r)) + (w + w')" unfolding assms by (simp add: ac_simps)
  finally show ?thesis by simp
qed

text \<open>A worker that takes a window, or returns from its put, only moves the window.\<close>

lemma inv_flight_move:
  assumes "inv_flight cfg first sq" "inv_parked sq" "i < length (sq_workers sq)"
    and sq': "sq' = sq\<lparr>sq_chan := sq_chan sq', sq_durable := sq_durable sq', sq_workers := (sq_workers sq)[i := w]\<rparr>"
    and moved: "mset (sq_chan sq') + mset (held w) = mset (sq_chan sq) + mset (held (sq_workers sq ! i))"
    and "\<And>d r. w = WLanded d r \<Longrightarrow> r \<noteq> Panic" "\<not> receiver_gone sq"
  shows "inv_flight cfg first sq' \<and> inv_parked sq'"
proof -
  have same: "sq_lander sq' = sq_lander sq" "sq_windows sq' = sq_windows sq" "sq_flusher sq' = sq_flusher sq"
    "sq_workers sq' = (sq_workers sq)[i := w]"
    by (subst sq'; simp)+
  have "mset (flight sq') = mset (flight sq)"
    unfolding flight_def mset_append same
    by (rule multiset_shift [OF moved mset_held_update [OF assms(3), of w]])
  then have "inv_flight cfg first sq'"
    using assms(7)
    by (intro inv_flight_cong [OF assms(1)]) (auto simp: same resolved_def pending_def sending_def cut_off_def)
  moreover have "inv_parked sq'"
    using assms(2,6) by (auto simp: inv_parked_def same dest!: set_update_subset_insert [THEN subsetD])
  ultimately show ?thesis ..
qed

lemma inv_flight_work:
  assumes "inv_flight cfg first sq" "inv_parked sq" "chain_from ext shard first digest (sq_windows sq)"
    and "unat first + length (sq_windows sq) < 2 ^ 64" and "worker_step cfg i act sq = Some sq'"
  shows "inv_flight cfg first sq' \<and> inv_parked sq'"
  using assms(5)
proof (cases rule: worker_step_cases)
  case (complete d r)
  have "inv_landing ext shard cfg first digest sq'"
    unfolding complete(3)
    by (rule lander_loop_keeps [OF inv_landing_park [OF assms(1-4) complete(1,2)] inv_landing_turn])
  then show ?thesis by (simp add: inv_landing_def)
next
  case (recv d ds)
  then show ?thesis
    by (intro inv_flight_move [OF assms(1,2), of i _ "WPutting d"]) (auto dest: receiver_gone_nth)
next
  case exit
  then show ?thesis
    by (intro inv_flight_move [OF assms(1,2), of i _ WExited]) (auto dest: receiver_gone_nth)
next
  case (panic d durable)
  then show ?thesis
    by (intro inv_flight_move [OF assms(1,2), of i _ "WPanicked d"]) (auto dest: receiver_gone_nth)
next
  case (put d r durable)
  then show ?thesis
    by (intro inv_flight_move [OF assms(1,2), of i _ "WLanded d r"]) (auto dest: receiver_gone_nth)
qed

lemma inv_flight_flush:
  assumes inv: "inv_flight cfg first sq" and "inv_parked sq" and "flusher_step ext shard cfg sq = Some sq'"
  shows "inv_flight cfg first sq' \<and> inv_parked sq'"
  using assms(3)
proof (cases rule: flusher_step_cases)
  case (build b seq prev seg ts)
  let ?w = "\<lparr>wi_seq = seq, wi_prev = prev, wi_batch = b, wi_segment = seg, wi_digest = tenants_digest ext ts\<rparr>"
  have same: "flight sq' = flight sq" "resolved first sq' = resolved first sq" "sending sq' = sending sq"
    by (simp_all add: build flight_def resolved_def sending_def)
  have "\<not> cut_off first sq" using build by (simp add: cut_off_def)
  with inv build have all: "length (sq_windows sq) = resolved first sq + length (flight sq)"
    by (simp add: inv_flight_def pending_def)
  have "pending sq' = [disp cfg ?w]" by (simp add: build pending_def disp_def)
  with inv all show ?thesis
    using assms(2) by (simp add: inv_flight_def inv_parked_def same) (simp add: build)
next
  case (admit d)
  have same: "flight sq' = flight sq" "resolved first sq' = resolved first sq" "pending sq' = pending sq"
    "cut_off first sq' = cut_off first sq"
    by (simp_all add: admit flight_def resolved_def pending_def cut_off_def)
  have "unat (la_outstanding (sq_lander sq) + 1) = Suc (unat (la_outstanding (sq_lander sq)))"
    using inv admit unat_add_lem [of "la_outstanding (sq_lander sq)" 1] by (auto simp: inv_flight_def MAX_INFLIGHT_def)
  with inv assms(2) admit(1,2) show ?thesis
    by (simp add: inv_flight_def inv_parked_def same) (simp add: admit(3) sending_def)
next
  case (send d)
  have "\<not> cut_off first sq" using send by (simp add: cut_off_def)
  then obtain w where w: "drop (resolved first sq + length (flight sq)) (sq_windows sq) = [w]" "d = disp cfg w"
    using inv send by (auto simp: inv_flight_def pending_def map_eq_Cons_conv)
  have fl: "mset (flight sq') = add_mset d (mset (flight sq))" "resolved first sq' = resolved first sq"
    by (simp_all add: send flight_def resolved_def)
  then have n: "length (flight sq') = Suc (length (flight sq))" by (metis size_add_mset size_mset)
  have "take (Suc (length (flight sq))) (drop (resolved first sq) (sq_windows sq)) =
      take (length (flight sq)) (drop (resolved first sq) (sq_windows sq)) @ [w]"
    using w(1) take_add [of "length (flight sq)" 1 "drop (resolved first sq) (sq_windows sq)"] by (simp add: add.commute)
  then have "mset (flight sq') = mset (map (disp cfg) (take (length (flight sq')) (drop (resolved first sq) (sq_windows sq))))"
    using inv w(2) by (simp add: fl n inv_flight_def)
  moreover have "length (sq_windows sq) = Suc (resolved first sq + length (flight sq))"
    using arg_cong [OF w(1), of length] by simp
  moreover have "pending sq' = []" "sending sq' = 0" "sending sq = 1" "sq_windows sq' = sq_windows sq"
    using send by (simp_all add: pending_def sending_def)
  ultimately show ?thesis
    using inv assms(2) unfolding inv_flight_def inv_parked_def fl(2) n by (simp add: send(3))
next
  case (send_failed d)
  have "\<not> cut_off first sq" using send_failed by (simp add: cut_off_def)
  then obtain w where w: "drop (resolved first sq + length (flight sq)) (sq_windows sq) = [w]" "d = disp cfg w"
    using inv send_failed by (auto simp: inv_flight_def pending_def map_eq_Cons_conv)
  have same: "flight sq' = flight sq" "resolved first sq' = resolved first sq"
    by (simp_all add: send_failed flight_def resolved_def)
  have "length (sq_windows sq) = Suc (resolved first sq + length (flight sq))"
    using arg_cong [OF w(1), of length] by simp
  then have "cut_off first sq'" using send_failed same by (simp add: cut_off_def receiver_gone_def)
  moreover have "unat (la_outstanding (sq_lander sq) - 1) = unat (la_outstanding (sq_lander sq)) - 1"
    using inv send_failed by (intro unat_minus_one) (auto simp: inv_flight_def sending_def)
  ultimately show ?thesis
    using inv assms(2) send_failed(1) unfolding inv_flight_def inv_parked_def same
    by (simp add: sending_def) (simp add: send_failed(3))
qed (use inv assms(2) in \<open>auto simp: inv_flight_def inv_parked_def flight_def resolved_def pending_def sending_def
    cut_off_def receiver_gone_def\<close>)

lemma inv_flight_step:
  assumes "inv_flight cfg first sq" "inv_parked sq" "inv_chain ext shard first digest sq" "seq_room first sq"
    and "seq_step ext shard cfg sq sq'"
  shows "inv_flight cfg first sq' \<and> inv_parked sq'"
  using assms(5)
proof cases
  case (append gate frames r)
  then show ?thesis
    using assms(1,2) seq_append_frame [OF append]
    by (auto simp: inv_flight_def inv_parked_def flight_def resolved_def pending_def sending_def cut_off_def receiver_gone_def)
next
  case flush
  with assms(1,2) show ?thesis by (rule inv_flight_flush)
next
  case (work i act)
  have "unat first + length (sq_windows sq) < 2 ^ 64" using assms(4) by (simp add: seq_room_def windows_begun_def)
  with assms(1-3) work show ?thesis
    by (intro inv_flight_work [where sq = sq and ext = ext and shard = shard and digest = digest]) (auto simp: inv_chain_def)
qed (use assms(1,2) in \<open>auto simp: inv_flight_def inv_parked_def flight_def resolved_def pending_def sending_def
    cut_off_def receiver_gone_def begin_shutdown_def\<close>)

end
