(* ===== verification/Sequencer_Acks.thy ===== *)
theory Sequencer_Acks
  imports Sequencer_Proofs
begin

text \<open>
  Tickets and acks of the group commit: every accepted append sits in exactly one batch with its
  frames, a durable object is the segment of its window, and the windows acked are a prefix of
  the chain.
\<close>

section \<open>Resolving tickets\<close>

lemma length_resolve_all [simp]: "length (resolve_all f ts cells) = length cells"
  by (induction ts arbitrary: cells) (auto simp: resolve_all_def resolve_def)

lemma nth_resolve_all_other: "t \<notin> fst ` set ts \<Longrightarrow> resolve_all f ts cells ! t = cells ! t"
  by (induction ts arbitrary: cells) (auto simp: resolve_all_def resolve_def)

lemma nth_resolve_all_in:
  "distinct (map fst ts) \<Longrightarrow> (t, l) \<in> set ts \<Longrightarrow> t < length cells \<Longrightarrow> resolve_all f ts cells ! t = Some (f l)"
proof (induction ts arbitrary: cells)
  case (Cons p ts)
  obtain u m where p: "p = (u, m)" by fastforce
  have "resolve_all f (p # ts) cells = resolve_all f ts (cells[u := Some (f m)])"
    by (simp add: resolve_all_def resolve_def p)
  with Cons p show ?case
    using nth_resolve_all_other [of u ts f "cells[u := Some (f m)]"] by auto
qed simp

section \<open>Tickets\<close>

definition open_batches :: "sequencer \<Rightarrow> batch list" where
  "open_batches sq =
     (case sq_flusher sq of FlBuild b _ _ \<Rightarrow> [b] | _ \<Rightarrow> []) @
     (case ss_batch (sq_state sq) of Some b \<Rightarrow> [b] | None \<Rightarrow> [])"

definition batches :: "sequencer \<Rightarrow> batch list" where
  "batches sq = map wi_batch (sq_windows sq) @ open_batches sq"

definition ids_of :: "batch list \<Rightarrow> ticket list" where
  "ids_of bs = concat (map (\<lambda>b. map fst (ba_tickets b)) bs)"

text \<open>The frames of a batch are those of its tickets, in order, and a ticket's position is the
  last one of its frames.\<close>

definition batch_holds :: "externals \<Rightarrow> frame2 list list \<Rightarrow> batch \<Rightarrow> bool" where
  "batch_holds ext appends b \<longleftrightarrow>
     (\<exists>sss. ba_frames b = concat sss \<and>
        list_all2 (\<lambda>(t, l) ss. t < length appends \<and> appends ! t \<noteq> [] \<and> stage_frames ext (appends ! t) = Ok ss \<and>
            l = Max (fr_end_lsn ` set (appends ! t))) (ba_tickets b) sss)"

definition inv_tickets :: "externals \<Rightarrow> sequencer \<Rightarrow> bool" where
  "inv_tickets ext sq \<longleftrightarrow>
     length (sq_appends sq) = length (sq_cells sq) \<and>
     sorted_wrt (<) (ids_of (batches sq)) \<and>
     (\<forall>t \<in> set (ids_of (batches sq)). t < length (sq_cells sq)) \<and>
     (\<forall>b \<in> set (batches sq). batch_holds ext (sq_appends sq) b) \<and>
     (\<forall>t < length (sq_cells sq). t \<notin> set (ids_of (batches sq)) \<longrightarrow> sq_cells sq ! t = Some (Err Poisoned)) \<and>
     (\<forall>t \<in> set (ids_of (open_batches sq)). sq_cells sq ! t = None)"

lemma ids_of_append [simp]: "ids_of (bs @ cs) = ids_of bs @ ids_of cs"
  by (simp add: ids_of_def)

lemma ids_of_simps [simp]: "ids_of [] = []" "ids_of (b # bs) = map fst (ba_tickets b) @ ids_of bs"
  by (simp_all add: ids_of_def)

lemma in_ids_of: "t \<in> set (ids_of bs) \<longleftrightarrow> (\<exists>b \<in> set bs. t \<in> fst ` set (ba_tickets b))"
  by (auto simp: ids_of_def)

lemma ids_apart:
  "sorted_wrt (<) (ids_of bs) \<Longrightarrow> i < length bs \<Longrightarrow> j < length bs \<Longrightarrow> i \<noteq> j \<Longrightarrow>
   t \<in> fst ` set (ba_tickets (bs ! i)) \<Longrightarrow> t \<notin> fst ` set (ba_tickets (bs ! j))"
proof (induction bs arbitrary: i j)
  case (Cons b bs)
  have apart: "u < v" if "u \<in> fst ` set (ba_tickets b)" "n < length bs" "v \<in> fst ` set (ba_tickets (bs ! n))" for u v n
    using Cons.prems(1) that nth_mem [OF that(2)] by (force simp: sorted_wrt_append in_ids_of)
  have tail: "sorted_wrt (<) (ids_of bs)" using Cons.prems(1) by (simp add: sorted_wrt_append)
  show ?case
  proof (cases "i = 0 \<or> j = 0")
    case True
    with Cons.prems apart show ?thesis
      by (cases i; cases j) (use less_irrefl in \<open>fastforce+\<close>)
  next
    case False
    then obtain i' j' where "i = Suc i'" "j = Suc j'" by (metis not0_implies_Suc)
    with Cons.IH [OF tail, of i' j'] Cons.prems show ?thesis by simp
  qed
qed simp

lemma ids_distinct: "sorted_wrt (<) (ids_of bs) \<Longrightarrow> b \<in> set bs \<Longrightarrow> distinct (map fst (ba_tickets b))"
proof (induction bs)
  case (Cons a bs)
  then show ?case by (auto simp: sorted_wrt_append strict_sorted_iff)
qed simp

lemma stage_frames_frames: "stage_frames ext fs = Ok ss \<Longrightarrow> map st_frame ss = fs"
  by (induction fs arbitrary: ss) (auto simp: obind_Ok_iff split: outcome.splits)

lemma batch_holds_grow: "batch_holds ext appends b \<Longrightarrow> batch_holds ext (appends @ more') b"
  unfolding batch_holds_def
  by (elim exE conjE, intro exI conjI, assumption, erule list_all2_mono) (auto simp: nth_append)

text \<open>An accepted append, and a refused one.\<close>

lemma seq_append_cases [consumes 1, case_names refused staged]:
  assumes "seq_append ext gate frames sq = (r, sq')"
    and "sq' = sq \<Longrightarrow> (\<And>t. r \<noteq> Ok t) \<Longrightarrow> P"
    and "\<And>ss b. frames \<noteq> [] \<Longrightarrow> stage_frames ext frames = Ok ss \<Longrightarrow> \<not> ss_shutdown (sq_state sq) \<Longrightarrow>
      \<not> ss_poisoned (sq_state sq) \<Longrightarrow> check_epochs (ss_epochs (sq_state sq)) ss = Ok () \<Longrightarrow>
      b = (case ss_batch (sq_state sq) of Some b \<Rightarrow> b
           | None \<Rightarrow> \<lparr>ba_frames = [], ba_bytes = 0, ba_opened = sq_now sq, ba_tickets = []\<rparr>) \<Longrightarrow>
      r = Ok (length (sq_cells sq)) \<Longrightarrow>
      sq' = sq\<lparr>sq_state := (sq_state sq)\<lparr>ss_epochs := raise_epochs ss (ss_epochs (sq_state sq)),
          ss_batch := Some (b\<lparr>ba_frames := ba_frames b @ ss,
            ba_bytes := ba_bytes b + sum_list (map (\<lambda>s. length (st_wire s)) ss),
            ba_tickets := ba_tickets b @ [(length (sq_cells sq), Max (fr_end_lsn ` set frames))]\<rparr>)\<rparr>,
        sq_cells := sq_cells sq @ [None], sq_appends := sq_appends sq @ [frames]\<rparr> \<Longrightarrow> P"
  shows P
proof (cases "sq' = sq \<and> (\<forall>t. r \<noteq> Ok t)")
  case False
  with assms(1) obtain ss where ss: "frames \<noteq> []" "stage_frames ext frames = Ok ss" "\<not> ss_shutdown (sq_state sq)"
    "\<not> ss_poisoned (sq_state sq)" "check_epochs (ss_epochs (sq_state sq)) ss = Ok ()"
    "(case gate of None \<Rightarrow> Ok () | Some g \<Rightarrow> check_gate g ss) = Ok ()"
    by (fastforce simp: seq_append_def Let_def obind_Ok_iff split: if_splits outcome.splits)
  have "(\<lambda>s. fr_end_lsn (st_frame s)) ` set ss = fr_end_lsn ` set frames"
    using stage_frames_frames [OF ss(2)] by auto
  with assms(1) ss show ?thesis by (intro assms(3)) (auto simp: seq_append_def Let_def)
qed (use assms(2) in blast)

lemma lander_resolve_cells:
  "r \<noteq> Panic \<Longrightarrow> \<exists>f. sq_cells (lander_resolve cfg q d r sq) = resolve_all f (di_tickets d) (sq_cells sq)"
  by (cases r) (auto simp: lander_resolve_def Let_def)

text \<open>Resolving the tickets of one window leaves those of every other batch alone.\<close>

lemma inv_tickets_resolve:
  assumes inv: "inv_tickets ext sq" and w: "w \<in> set (sq_windows sq)"
    and cells: "sq_cells sq' = resolve_all f (ba_tickets (wi_batch w)) (sq_cells sq)"
    and same: "sq_appends sq' = sq_appends sq" "batches sq' = batches sq" "open_batches sq' = open_batches sq"
  shows "inv_tickets ext sq'"
proof -
  have less: "x < y" if "x \<in> set (ids_of (map wi_batch (sq_windows sq)))" "y \<in> set (ids_of (open_batches sq))" for x y
    using inv that by (simp add: inv_tickets_def batches_def sorted_wrt_append)
  have "t \<in> set (ids_of (map wi_batch (sq_windows sq)))" if "t \<in> fst ` set (ba_tickets (wi_batch w))" for t
    using that w unfolding in_ids_of by auto
  then have "t \<notin> fst ` set (ba_tickets (wi_batch w))" if "t \<in> set (ids_of (open_batches sq))" for t
    using less that by blast
  moreover have "t \<notin> fst ` set (ba_tickets (wi_batch w))" if "t \<notin> set (ids_of (batches sq))" for t
    using that w by (auto simp: batches_def in_ids_of)
  ultimately show ?thesis
    using inv unfolding inv_tickets_def cells same by (simp add: nth_resolve_all_other)
qed

lemma sorted_snoc: "sorted_wrt (<) (xs @ [x :: nat]) \<longleftrightarrow> sorted_wrt (<) xs \<and> (\<forall>y \<in> set xs. y < x)"
  by (auto simp: sorted_wrt_append)

lemma batch_holds_stage:
  assumes "batch_holds ext appends b" "stage_frames ext frames = Ok ss" "frames \<noteq> []"
    and "b' = b\<lparr>ba_frames := ba_frames b @ ss, ba_bytes := n,
          ba_tickets := ba_tickets b @ [(length appends, Max (fr_end_lsn ` set frames))]\<rparr>"
  shows "batch_holds ext (appends @ [frames]) b'"
proof -
  from batch_holds_grow [OF assms(1), of "[frames]"] obtain sss where sss: "ba_frames b = concat sss"
    "list_all2 (\<lambda>(t, l) ss. t < length (appends @ [frames]) \<and> (appends @ [frames]) ! t \<noteq> [] \<and>
        stage_frames ext ((appends @ [frames]) ! t) = Ok ss \<and> l = Max (fr_end_lsn ` set ((appends @ [frames]) ! t)))
      (ba_tickets b) sss"
    unfolding batch_holds_def by blast
  with assms(2,3) show ?thesis
    unfolding batch_holds_def assms(4)
    by (intro exI [of _ "sss @ [ss]"]) (auto intro!: list_all2_appendI)
qed

lemma inv_tickets_append:
  assumes inv: "inv_tickets ext sq" and "seq_append ext gate frames sq = (r, sq')"
  shows "inv_tickets ext sq'"
  using assms(2)
proof (cases rule: seq_append_cases)
  case refused
  with inv show ?thesis by simp
next
  case (staged ss b)
  let ?t = "length (sq_cells sq)" and ?old = "map wi_batch (sq_windows sq) @
    (case sq_flusher sq of FlBuild b _ _ \<Rightarrow> [b] | _ \<Rightarrow> [])"
  define b' where "b' = b\<lparr>ba_frames := ba_frames b @ ss,
            ba_bytes := ba_bytes b + sum_list (map (\<lambda>s. length (st_wire s)) ss),
            ba_tickets := ba_tickets b @ [(length (sq_cells sq), Max (fr_end_lsn ` set frames))]\<rparr>"
  have sq': "batches sq' = ?old @ [b']" "open_batches sq' = (case sq_flusher sq of FlBuild b _ _ \<Rightarrow> [b] | _ \<Rightarrow> []) @ [b']"
    "sq_cells sq' = sq_cells sq @ [None]" "sq_appends sq' = sq_appends sq @ [frames]"
    by (simp_all add: staged(8) batches_def open_batches_def b'_def)
  have len: "length (sq_appends sq) = length (sq_cells sq)" using inv by (simp add: inv_tickets_def)
  have ids: "ids_of (batches sq') = ids_of (batches sq) @ [?t]" "ids_of (open_batches sq') = ids_of (open_batches sq) @ [?t]"
    unfolding sq' by (auto simp: b'_def staged(6) batches_def open_batches_def split: option.splits)
  have "batch_holds ext (sq_appends sq) b"
    using inv staged(6)
    by (cases "ss_batch (sq_state sq)") (auto simp: inv_tickets_def batches_def open_batches_def batch_holds_def)
  then have "batch_holds ext (sq_appends sq') b'"
    unfolding sq' using staged(1,2) b'_def len by (intro batch_holds_stage) auto
  moreover have "batch_holds ext (sq_appends sq') c" if "c \<in> set ?old" for c
    using inv that unfolding sq' by (auto simp: inv_tickets_def batches_def open_batches_def intro!: batch_holds_grow)
  ultimately have "\<forall>c \<in> set (batches sq'). batch_holds ext (sq_appends sq') c" unfolding sq'(1) by auto
  with inv show ?thesis
    unfolding inv_tickets_def ids sorted_snoc
    by (auto simp: sq' nth_append less_Suc_eq batches_def)
qed

lemma inv_tickets_flush:
  assumes inv: "inv_tickets ext sq" and "inv_flight cfg first sq" and "flusher_step ext shard cfg sq = Some sq'"
  shows "inv_tickets ext sq'"
  using assms(3)
proof (cases rule: flusher_step_cases)
  case (poisoned b)
  have bs: "batches sq = batches sq' @ [b]" "open_batches sq = [b]" "open_batches sq' = []"
    "sq_cells sq' = resolve_all (\<lambda>_. Err Poisoned) (ba_tickets b) (sq_cells sq)" "sq_appends sq' = sq_appends sq"
    by (simp_all add: poisoned batches_def open_batches_def)
  have "distinct (map fst (ba_tickets b))" using inv ids_distinct [of "batches sq" b] by (simp add: inv_tickets_def bs)
  then have "resolve_all (\<lambda>_. Err Poisoned) (ba_tickets b) (sq_cells sq) ! t = Some (Err Poisoned)"
    if "t < length (sq_cells sq)" "t \<notin> set (ids_of (batches sq'))" for t
    using that inv nth_resolve_all_other [of t "ba_tickets b"] nth_resolve_all_in [of "ba_tickets b" t _ "sq_cells sq"]
    by (cases "t \<in> fst ` set (ba_tickets b)") (auto simp: inv_tickets_def bs)
  with inv show ?thesis by (auto simp: inv_tickets_def bs sorted_wrt_append)
next
  case (send_failed d)
  have "\<not> cut_off first sq" using send_failed by (simp add: cut_off_def)
  then obtain w where w: "drop (resolved first sq + length (flight sq)) (sq_windows sq) = [w]" "d = disp cfg w"
    using assms(2) send_failed by (auto simp: inv_flight_def pending_def map_eq_Cons_conv)
  then have "w \<in> set (sq_windows sq)" by (metis in_set_dropD list.set_intros(1))
  then show ?thesis
    by (rule inv_tickets_resolve [OF inv]) (simp_all add: send_failed w disp_def batches_def open_batches_def)
qed (use inv in \<open>simp_all add: inv_tickets_def batches_def open_batches_def\<close>)

section \<open>Durable windows and acks\<close>

definition inv_durable :: "u64 \<Rightarrow> sequencer \<Rightarrow> bool" where
  "inv_durable first sq \<longleftrightarrow>
     (\<forall>d. WLanded d (Ok ()) \<in> set (sq_workers sq) \<longrightarrow> bt_get (sq_durable sq) (di_seq d) \<noteq> None) \<and>
     (\<forall>(q, d, r) \<in> set (la_parked (sq_lander sq)). r = Ok () \<longrightarrow> bt_get (sq_durable sq) q \<noteq> None) \<and>
     (\<forall>q seg. bt_get (sq_durable sq) q = Some seg \<longrightarrow>
        (\<exists>i < resolved first sq + length (flight sq). i < length (sq_windows sq) \<and>
           q = first + of_nat i \<and> seg = wi_segment (sq_windows sq ! i)))"

definition tee_entry :: "seq_window \<Rightarrow> u64 \<times> frame2 list" where
  "tee_entry w = (wi_seq w, map st_frame (ba_frames (wi_batch w)))"

text \<open>The first \<open>k\<close> windows are acked; those after them that are resolved failed.\<close>

definition inv_ack :: "seq_config \<Rightarrow> u64 \<Rightarrow> nat \<Rightarrow> sequencer \<Rightarrow> bool" where
  "inv_ack cfg first k sq \<longleftrightarrow>
     k \<le> resolved first sq \<and> resolved first sq \<le> length (sq_windows sq) \<and>
     (\<not> la_failed (sq_lander sq) \<longrightarrow> k = resolved first sq) \<and>
     (la_failed (sq_lander sq) \<longrightarrow> ss_poisoned (sq_state sq)) \<and>
     (\<forall>i < k. bt_get (sq_durable sq) (first + of_nat i) \<noteq> None) \<and>
     (\<forall>i < k. \<forall>(t, l) \<in> set (ba_tickets (wi_batch (sq_windows sq ! i))). sq_cells sq ! t = Some (Ok l)) \<and>
     (\<forall>i. k \<le> i \<longrightarrow> i < resolved first sq \<longrightarrow>
        (\<forall>t \<in> fst ` set (ba_tickets (wi_batch (sq_windows sq ! i))). \<exists>e. sq_cells sq ! t = Some (Err e))) \<and>
     (\<forall>i. resolved first sq \<le> i \<longrightarrow> i < length (sq_windows sq) \<longrightarrow>
        (\<forall>t \<in> fst ` set (ba_tickets (wi_batch (sq_windows sq ! i))).
           sq_cells sq ! t = (if cut_off first sq \<and> Suc i = length (sq_windows sq) then Some (Err Poisoned) else None))) \<and>
     sq_tee sq = (if cf_tee cfg then map tee_entry (take k (sq_windows sq)) else [])"

lemma inv_ackD:
  assumes "inv_ack cfg first k sq" "(t, l) \<in> set (ba_tickets (wi_batch (sq_windows sq ! i)))"
  shows "i < k \<Longrightarrow> sq_cells sq ! t = Some (Ok l)"
    and "k \<le> i \<Longrightarrow> i < resolved first sq \<Longrightarrow> \<exists>e. sq_cells sq ! t = Some (Err e)"
    and "resolved first sq \<le> i \<Longrightarrow> i < length (sq_windows sq) \<Longrightarrow> \<not> cut_off first sq \<Longrightarrow> sq_cells sq ! t = None"
proof -
  have t: "t \<in> fst ` set (ba_tickets (wi_batch (sq_windows sq ! i)))" using assms(2) by force
  have "\<forall>i < k. \<forall>(t, l) \<in> set (ba_tickets (wi_batch (sq_windows sq ! i))). sq_cells sq ! t = Some (Ok l)"
    using assms(1) by (simp add: inv_ack_def)
  with assms(2) show "i < k \<Longrightarrow> sq_cells sq ! t = Some (Ok l)" by fastforce
  have "\<forall>i. k \<le> i \<longrightarrow> i < resolved first sq \<longrightarrow>
      (\<forall>t \<in> fst ` set (ba_tickets (wi_batch (sq_windows sq ! i))). \<exists>e. sq_cells sq ! t = Some (Err e))"
    using assms(1) by (simp add: inv_ack_def)
  with t show "k \<le> i \<Longrightarrow> i < resolved first sq \<Longrightarrow> \<exists>e. sq_cells sq ! t = Some (Err e)" by blast
  show "resolved first sq \<le> i \<Longrightarrow> i < length (sq_windows sq) \<Longrightarrow> \<not> cut_off first sq \<Longrightarrow> sq_cells sq ! t = None"
    using assms(1) imageI [OF assms(2), of fst] by (simp add: inv_ack_def image_iff) fastforce
qed

lemma window_tickets:
  assumes "inv_tickets ext sq" "i < length (sq_windows sq)"
  shows "distinct (map fst (ba_tickets (wi_batch (sq_windows sq ! i))))"
    and "t \<in> fst ` set (ba_tickets (wi_batch (sq_windows sq ! i))) \<Longrightarrow> t < length (sq_cells sq)"
    and "t \<in> fst ` set (ba_tickets (wi_batch (sq_windows sq ! i))) \<Longrightarrow> j < length (sq_windows sq) \<Longrightarrow> i \<noteq> j \<Longrightarrow>
      t \<notin> fst ` set (ba_tickets (wi_batch (sq_windows sq ! j)))"
proof -
  have nth: "batches sq ! n = wi_batch (sq_windows sq ! n)" "n < length (batches sq)" if "n < length (sq_windows sq)" for n
    using that by (simp_all add: batches_def nth_append)
  have b: "wi_batch (sq_windows sq ! i) \<in> set (batches sq)" using nth [OF assms(2)] by (metis nth_mem)
  show "distinct (map fst (ba_tickets (wi_batch (sq_windows sq ! i))))"
    using assms(1) b by (auto simp: inv_tickets_def intro: ids_distinct)
  show "t < length (sq_cells sq)" if "t \<in> fst ` set (ba_tickets (wi_batch (sq_windows sq ! i)))"
  proof -
    have "t \<in> set (ids_of (batches sq))" unfolding in_ids_of using b that by blast
    with assms(1) show ?thesis by (simp add: inv_tickets_def)
  qed
  show "t \<notin> fst ` set (ba_tickets (wi_batch (sq_windows sq ! j)))"
    if "t \<in> fst ` set (ba_tickets (wi_batch (sq_windows sq ! i)))" "j < length (sq_windows sq)" "i \<noteq> j"
    using assms(1) that nth [OF assms(2)] nth [OF that(2)] ids_apart [of "batches sq" i j t]
    by (simp add: inv_tickets_def)
qed

text \<open>Resolving window \<open>a\<close>: what its tickets and the others read afterwards.\<close>

lemma resolve_window:
  assumes "inv_tickets ext sq" "a < length (sq_windows sq)" "i < length (sq_windows sq)"
    and "cells = resolve_all f (ba_tickets (wi_batch (sq_windows sq ! a))) (sq_cells sq)"
    and "(t, l) \<in> set (ba_tickets (wi_batch (sq_windows sq ! i)))"
  shows "cells ! t = (if i = a then Some (f l) else sq_cells sq ! t)"
proof (cases "i = a")
  case True
  then show ?thesis
    using window_tickets(1,2) [OF assms(1,2)] assms(4,5) by (force intro: nth_resolve_all_in)
next
  case False
  then have "t \<notin> fst ` set (ba_tickets (wi_batch (sq_windows sq ! a)))"
    using window_tickets(3) [OF assms(1,3) _ assms(2)] assms(5) by force
  with False assms(4) show ?thesis by (simp add: nth_resolve_all_other)
qed

text \<open>One turn resolves the window at the front, with the outcome its put had unless an earlier
  one failed.\<close>

lemma inv_ack_turn:
  assumes L: "inv_landing ext shard cfg first digest sq" and T: "inv_tickets ext sq" and D: "inv_durable first sq"
    and A: "inv_ack cfg first k sq"
    and head: "la_parked (sq_lander sq) = (q, d, r) # rest" "q = la_next_ack (sq_lander sq)"
    and sq': "sq' = lander_resolve cfg q d r sq"
  shows "\<exists>k. inv_ack cfg first k sq'"
proof -
  let ?a = "resolved first sq"
  have inv: "inv_flight cfg first sq" "inv_parked sq" "chain_from ext shard first digest (sq_windows sq)"
    "unat first + length (sq_windows sq) < 2 ^ 64" "\<not> receiver_gone sq"
    using L by (auto simp: inv_landing_def)
  note w = lander_turn_window [OF inv(1-4) head] and turn = flight_turn [OF inv head sq']
  have r: "r \<noteq> Panic" using inv(2) head by (auto simp: inv_parked_def)
  have cut: "\<not> cut_off first sq" "\<not> cut_off first sq'"
    using inv(5) by (simp_all add: cut_off_def sq' seq_frame receiver_gone_def)
  define ok where "ok \<longleftrightarrow> \<not> la_failed (sq_lander sq) \<and> r = Ok ()"
  obtain f where cells: "sq_cells sq' = resolve_all f (ba_tickets (wi_batch (sq_windows sq ! ?a))) (sq_cells sq)"
    and f: "if ok then f = Ok else \<exists>e. f = (\<lambda>_. Err e)"
    and tee: "sq_tee sq' = (if ok \<and> cf_tee cfg then sq_tee sq @ [(q, di_frames d)] else sq_tee sq)"
    and failed: "la_failed (sq_lander sq') \<longleftrightarrow> \<not> ok"
    and poison: "ss_poisoned (sq_state sq') \<longleftrightarrow> ss_poisoned (sq_state sq) \<or> \<not> ok \<and> \<not> la_failed (sq_lander sq)"
    using r w(2) by (cases "la_failed (sq_lander sq)"; cases r)
      (auto simp: sq' lander_resolve_def Let_def ok_def disp_def)
  have at: "sq_cells sq' ! t = (if i = ?a then Some (f l) else sq_cells sq ! t)"
    if "i < length (sq_windows sq)" "(t, l) \<in> set (ba_tickets (wi_batch (sq_windows sq ! i)))" for i t l
    by (rule resolve_window [OF T w(1) that(1) cells that(2)])
  define k' where "k' = (if ok then Suc k else k)"
  have k: "k \<le> ?a" "ok \<Longrightarrow> k = ?a" using A by (auto simp: inv_ack_def ok_def)
  have dur: "bt_get (sq_durable sq') (first + of_nat i) \<noteq> None" if "i < k'" for i
    using that A D head w(3) k by (auto simp: inv_ack_def inv_durable_def k'_def ok_def sq' seq_frame less_Suc_eq split: if_splits)
  have acked: "sq_cells sq' ! t = Some (Ok l)"
    if "i < k'" "(t, l) \<in> set (ba_tickets (wi_batch (sq_windows sq ! i)))" for i t l
    using that at [of i t l] inv_ackD(1) [OF A that(2)] k w(1) f by (auto simp: k'_def less_Suc_eq split: if_splits)
  have lost: "\<exists>e. sq_cells sq' ! t = Some (Err e)"
    if "k' \<le> i" "i < Suc ?a" "t \<in> fst ` set (ba_tickets (wi_batch (sq_windows sq ! i)))" for i t
  proof -
    from that(3) obtain l where "(t, l) \<in> set (ba_tickets (wi_batch (sq_windows sq ! i)))" by auto
    with that(1,2) at [of i t l] inv_ackD(2) [OF A this] k w(1) f show ?thesis
      by (auto simp: k'_def less_Suc_eq split: if_splits)
  qed
  have waiting: "sq_cells sq' ! t = None"
    if "Suc ?a \<le> i" "i < length (sq_windows sq)" "t \<in> fst ` set (ba_tickets (wi_batch (sq_windows sq ! i)))" for i t
  proof -
    from that(3) obtain l where "(t, l) \<in> set (ba_tickets (wi_batch (sq_windows sq ! i)))" by auto
    with that(1,2) at [of i t l] inv_ackD(3) [OF A this] cut(1) show ?thesis by simp
  qed
  have tees: "sq_tee sq' = (if cf_tee cfg then map tee_entry (take k' (sq_windows sq)) else [])"
  proof -
    have "wi_seq (sq_windows sq ! ?a) = q" using inv(3) w by (simp add: chain_from_def)
    moreover have "sq_tee sq = (if cf_tee cfg then map tee_entry (take k (sq_windows sq)) else [])"
      using A by (simp add: inv_ack_def)
    ultimately show ?thesis
      using tee k w by (auto simp: k'_def take_Suc_conv_app_nth tee_entry_def disp_def)
  qed
  have ws: "sq_windows sq' = sq_windows sq" by (simp add: sq' seq_frame)
  have "k' \<le> Suc ?a" "Suc ?a \<le> length (sq_windows sq)" "\<not> la_failed (sq_lander sq') \<longrightarrow> k' = Suc ?a"
    using k w(1) failed by (auto simp: k'_def)
  moreover have "la_failed (sq_lander sq') \<longrightarrow> ss_poisoned (sq_state sq')"
    using A failed poison by (auto simp: inv_ack_def)
  moreover have "\<forall>i < k'. bt_get (sq_durable sq') (first + of_nat i) \<noteq> None" using dur by blast
  moreover have "\<forall>i < k'. \<forall>(t, l) \<in> set (ba_tickets (wi_batch (sq_windows sq ! i))). sq_cells sq' ! t = Some (Ok l)"
    using acked by blast
  moreover have "\<forall>i. k' \<le> i \<longrightarrow> i < Suc ?a \<longrightarrow>
      (\<forall>t \<in> fst ` set (ba_tickets (wi_batch (sq_windows sq ! i))). \<exists>e. sq_cells sq' ! t = Some (Err e))"
    using lost by blast
  moreover have "\<forall>i. Suc ?a \<le> i \<longrightarrow> i < length (sq_windows sq) \<longrightarrow>
      (\<forall>t \<in> fst ` set (ba_tickets (wi_batch (sq_windows sq ! i))).
         sq_cells sq' ! t = (if cut_off first sq' \<and> Suc i = length (sq_windows sq) then Some (Err Poisoned) else None))"
    using waiting cut(2) by simp
  ultimately have "inv_ack cfg first k' sq'"
    unfolding inv_ack_def ws turn(3) using tees by - (intro conjI; assumption)
  then show ?thesis ..
qed

section \<open>Every step keeps the invariants\<close>

lemma inv_ack_cong:
  assumes A: "inv_ack cfg first k sq"
    and same: "resolved first sq' = resolved first sq" "sq_windows sq' = sq_windows sq" "sq_tee sq' = sq_tee sq"
      "la_failed (sq_lander sq') = la_failed (sq_lander sq)" "cut_off first sq' = cut_off first sq"
    and "ss_poisoned (sq_state sq) \<Longrightarrow> ss_poisoned (sq_state sq')"
    and dur: "\<And>q. bt_get (sq_durable sq) q \<noteq> None \<Longrightarrow> bt_get (sq_durable sq') q \<noteq> None"
    and cells: "\<And>w t. w \<in> set (sq_windows sq) \<Longrightarrow> t \<in> fst ` set (ba_tickets (wi_batch w)) \<Longrightarrow> sq_cells sq' ! t = sq_cells sq ! t"
  shows "inv_ack cfg first k sq'"
proof -
  have len: "k \<le> resolved first sq" "resolved first sq \<le> length (sq_windows sq)" using A by (simp_all add: inv_ack_def)
  have nth: "sq_cells sq' ! t = sq_cells sq ! t"
    if "i < length (sq_windows sq)" "t \<in> fst ` set (ba_tickets (wi_batch (sq_windows sq ! i)))" for i t
    using cells [OF nth_mem [OF that(1)] that(2)] .
  have "\<forall>i < k. \<forall>(t, l) \<in> set (ba_tickets (wi_batch (sq_windows sq ! i))). sq_cells sq' ! t = Some (Ok l)"
  proof (intro allI impI ballI, clarify)
    fix i t l assume i: "i < k" "(t, l) \<in> set (ba_tickets (wi_batch (sq_windows sq ! i)))"
    then show "sq_cells sq' ! t = Some (Ok l)"
      using inv_ackD(1) [OF A i(2,1)] nth [of i t] len by (force intro: rev_image_eqI)
  qed
  moreover have "\<exists>e. sq_cells sq' ! t = Some (Err e)"
    if "k \<le> i" "i < resolved first sq" "t \<in> fst ` set (ba_tickets (wi_batch (sq_windows sq ! i)))" for i t
    using that nth [OF _ that(3)] len inv_ackD(2) [OF A _ that(1,2)] by auto
  moreover have "sq_cells sq' ! t = (if cut_off first sq \<and> Suc i = length (sq_windows sq) then Some (Err Poisoned) else None)"
    if i: "resolved first sq \<le> i" "i < length (sq_windows sq)"
      and t: "t \<in> fst ` set (ba_tickets (wi_batch (sq_windows sq ! i)))" for i t
  proof -
    have "\<forall>t \<in> fst ` set (ba_tickets (wi_batch (sq_windows sq ! i))).
        sq_cells sq ! t = (if cut_off first sq \<and> Suc i = length (sq_windows sq) then Some (Err Poisoned) else None)"
      using A i by (simp add: inv_ack_def)
    with t nth [OF i(2) t] show ?thesis by simp
  qed
  moreover have "\<forall>i < k. bt_get (sq_durable sq') (first + of_nat i) \<noteq> None"
    using A dur by (simp add: inv_ack_def)
  moreover have "\<not> la_failed (sq_lander sq) \<longrightarrow> k = resolved first sq" "la_failed (sq_lander sq) \<longrightarrow> ss_poisoned (sq_state sq')"
    "sq_tee sq = (if cf_tee cfg then map tee_entry (take k (sq_windows sq)) else [])"
    using A assms(7) by (simp_all add: inv_ack_def)
  ultimately show ?thesis unfolding inv_ack_def same using len by blast
qed

lemma inv_durable_put:
  assumes D: "inv_durable first sq" and "inv_flight cfg first sq" "chain_from ext shard first digest (sq_windows sq)"
    and "d \<in> set (flight sq)"
    and q: "bt_get (bt_insert (di_seq d) (di_segment d) (sq_durable sq)) q = Some seg"
  shows "\<exists>i < resolved first sq + length (flight sq). i < length (sq_windows sq) \<and>
           q = first + of_nat i \<and> seg = wi_segment (sq_windows sq ! i)"
proof (cases "q = di_seq d")
  case True
  obtain j where j: "j < length (flight sq)" "resolved first sq + j < length (sq_windows sq)"
    "d = disp cfg (sq_windows sq ! (resolved first sq + j))"
    by (rule flight_in_windows [OF assms(2,4)])
  then show ?thesis
    using q True assms(3)
    by (intro exI [of _ "resolved first sq + j"]) (auto simp: bt_get_insert disp_def chain_from_def)
next
  case False
  with q have "bt_get (sq_durable sq) q = Some seg" by (simp add: bt_get_insert)
  with D show ?thesis unfolding inv_durable_def by blast
qed

lemma put_segment_cases:
  "put_segment act d m = (r, m') \<Longrightarrow> (m' = m \<or> m' = bt_insert (di_seq d) (di_segment d) m) \<and>
     (r = Ok () \<longrightarrow> m' = bt_insert (di_seq d) (di_segment d) m)"
  by (auto simp: put_segment_def split: sink_act.splits if_splits)

text \<open>The lander's loop, over all invariants at once.\<close>

definition landing_ok :: "externals \<Rightarrow> u32 \<Rightarrow> seq_config \<Rightarrow> u64 \<Rightarrow> u64 \<Rightarrow> sequencer \<Rightarrow> bool" where
  "landing_ok ext shard cfg first digest sq \<longleftrightarrow>
     inv_landing ext shard cfg first digest sq \<and> inv_tickets ext sq \<and> inv_durable first sq \<and>
     (\<exists>k. inv_ack cfg first k sq)"

lemma landing_ok_turn:
  assumes ok: "landing_ok ext shard cfg first digest sq" and head: "la_parked (sq_lander sq) = (q, d, r) # rest"
    "q = la_next_ack (sq_lander sq)"
  shows "landing_ok ext shard cfg first digest (lander_resolve cfg q d r sq)"
proof -
  let ?sq = "lander_resolve cfg q d r sq"
  from ok obtain k where L: "inv_landing ext shard cfg first digest sq" and T: "inv_tickets ext sq"
    and D: "inv_durable first sq" and A: "inv_ack cfg first k sq" by (auto simp: landing_ok_def)
  then have inv: "inv_flight cfg first sq" "inv_parked sq" "chain_from ext shard first digest (sq_windows sq)"
    "unat first + length (sq_windows sq) < 2 ^ 64" "\<not> receiver_gone sq"
    by (auto simp: inv_landing_def)
  note w = lander_turn_window [OF inv(1-4) head] and turn = flight_turn [OF inv head refl]
  have "r \<noteq> Panic" using inv(2) head by (auto simp: inv_parked_def)
  from lander_resolve_cells [OF this] obtain f where "sq_cells ?sq = resolve_all f (di_tickets d) (sq_cells sq)" by blast
  then have "inv_tickets ext ?sq"
    using w(1,2) by (intro inv_tickets_resolve [OF T, of "sq_windows sq ! resolved first sq"])
      (auto simp: disp_def seq_frame batches_def open_batches_def)
  moreover have "inv_durable first ?sq"
  proof -
    have "length (flight sq) = Suc (length (flight ?sq))" using turn(4) by (metis size_add_mset size_mset)
    with D turn(3) head show ?thesis by (auto simp: inv_durable_def seq_frame bt_remove_def)
  qed
  moreover have "\<exists>k. inv_ack cfg first k ?sq" by (rule inv_ack_turn [OF L T D A head refl])
  ultimately show ?thesis using inv_landing_turn [OF L head] by (simp add: landing_ok_def)
qed

definition seq_inv :: "externals \<Rightarrow> u32 \<Rightarrow> seq_config \<Rightarrow> u64 \<Rightarrow> u64 \<Rightarrow> sequencer \<Rightarrow> bool" where
  "seq_inv ext shard cfg first digest sq \<longleftrightarrow>
     inv_chain ext shard first digest sq \<and> inv_flight cfg first sq \<and> inv_parked sq \<and> inv_tickets ext sq \<and>
     inv_durable first sq \<and> (\<exists>k. inv_ack cfg first k sq) \<and> seq_room first sq"

lemma seq_inv_landing:
  assumes "seq_inv ext shard cfg first digest sq"
  shows "inv_flight cfg first sq" "inv_parked sq" "chain_from ext shard first digest (sq_windows sq)"
    "unat first + length (sq_windows sq) < 2 ^ 64" "inv_tickets ext sq" "inv_durable first sq"
  using assms by (auto simp: seq_inv_def inv_chain_def seq_room_def windows_begun_def)

lemma landing_ok_park:
  assumes inv: "seq_inv ext shard cfg first digest sq"
    and i: "i < length (sq_workers sq)" "sq_workers sq ! i = WLanded d r"
  shows "landing_ok ext shard cfg first digest (sq\<lparr>sq_workers := (sq_workers sq)[i := WIdle],
        sq_lander := (sq_lander sq)\<lparr>la_parked := bt_insert (di_seq d) (d, r) (la_parked (sq_lander sq))\<rparr>\<rparr>)"
    (is "landing_ok _ _ _ _ _ ?sq")
proof -
  note p = seq_inv_landing [OF inv]
  note park = flight_park [OF p(1-4) i refl]
  from inv obtain k where A: "inv_ack cfg first k sq" by (auto simp: seq_inv_def)
  have gone: "\<not> receiver_gone sq" "\<not> receiver_gone ?sq" using i by (auto simp: receiver_gone_def list_all_length)
  have "inv_tickets ext ?sq" using p(5) by (simp add: inv_tickets_def batches_def open_batches_def)
  moreover have "inv_ack cfg first k ?sq"
    using gone by (intro inv_ack_cong [OF A]) (auto simp: resolved_def cut_off_def)
  moreover have "inv_durable first ?sq"
  proof -
    have "length (flight ?sq) = length (flight sq)" "resolved first ?sq = resolved first sq"
      using mset_eq_length [OF park(3)] by (simp_all add: resolved_def)
    moreover have "WLanded d r \<in> set (sq_workers sq)" using i by (metis nth_mem)
    ultimately show ?thesis
      using p(6) set_bt_insert [of "di_seq d" "(d, r)" "la_parked (sq_lander sq)"]
      unfolding inv_durable_def
      by (fastforce dest!: set_update_subset_insert [THEN subsetD])
  qed
  ultimately show ?thesis using inv_landing_park [OF p(1-4) i] by (auto simp: landing_ok_def)
qed

lemma work_complete:
  assumes "seq_inv ext shard cfg first digest sq" "i < length (sq_workers sq)" "sq_workers sq ! i = WLanded d r"
  shows "landing_ok ext shard cfg first digest (lander_loop cfg (sq\<lparr>sq_workers := (sq_workers sq)[i := WIdle],
        sq_lander := (sq_lander sq)\<lparr>la_parked := bt_insert (di_seq d) (d, r) (la_parked (sq_lander sq))\<rparr>\<rparr>))"
  using landing_ok_park [OF assms]
  by (rule lander_loop_keeps [where P = "landing_ok ext shard cfg first digest"]) (rule landing_ok_turn)

lemma work_move:
  assumes inv: "seq_inv ext shard cfg first digest sq" and i: "i < length (sq_workers sq)"
    and sq': "sq' = sq\<lparr>sq_chan := sq_chan sq', sq_durable := sq_durable sq', sq_workers := (sq_workers sq)[i := w]\<rparr>"
    and fl: "mset (flight sq') = mset (flight sq)"
    and dur: "sq_durable sq' = sq_durable sq \<or>
      (\<exists>d \<in> set (flight sq). sq_durable sq' = bt_insert (di_seq d) (di_segment d) (sq_durable sq))"
    and landed: "\<And>d. w = WLanded d (Ok ()) \<Longrightarrow> bt_get (sq_durable sq') (di_seq d) \<noteq> None"
    and gone: "\<not> receiver_gone sq"
  shows "inv_tickets ext sq' \<and> inv_durable first sq' \<and> (\<exists>k. inv_ack cfg first k sq')"
proof -
  note p = seq_inv_landing [OF inv]
  from inv obtain k where A: "inv_ack cfg first k sq" by (auto simp: seq_inv_def)
  have same: "sq_lander sq' = sq_lander sq" "sq_windows sq' = sq_windows sq" "sq_flusher sq' = sq_flusher sq"
    "sq_workers sq' = (sq_workers sq)[i := w]" "sq_state sq' = sq_state sq" "sq_cells sq' = sq_cells sq"
    "sq_appends sq' = sq_appends sq" "sq_tee sq' = sq_tee sq"
    by (subst sq'; simp)+
  have len: "length (flight sq') = length (flight sq)" "resolved first sq' = resolved first sq"
    using mset_eq_length [OF fl] by (simp_all add: resolved_def same)
  have "\<not> cut_off first sq" using gone by (simp add: cut_off_def)
  moreover have "\<not> cut_off first sq'"
  proof
    assume cut: "cut_off first sq'"
    then have "length (sq_windows sq) = Suc (resolved first sq + length (flight sq))" "pending sq = []"
      by (auto simp: cut_off_def len same pending_def split: flusher.splits)
    with p(1) \<open>\<not> cut_off first sq\<close> show False by (simp add: inv_flight_def)
  qed
  moreover have mono: "bt_get (sq_durable sq') q \<noteq> None" if "bt_get (sq_durable sq) q \<noteq> None" for q
    using dur that by (auto simp: bt_get_insert)
  ultimately have "inv_ack cfg first k sq'"
    by (intro inv_ack_cong [OF A]) (simp_all add: same len)
  moreover have "inv_tickets ext sq'" using p(5) by (simp add: inv_tickets_def batches_def open_batches_def same)
  moreover have "inv_durable first sq'"
  proof -
    have "\<exists>i < resolved first sq + length (flight sq). i < length (sq_windows sq) \<and>
           q = first + of_nat i \<and> seg = wi_segment (sq_windows sq ! i)" if "bt_get (sq_durable sq') q = Some seg" for q seg
      using dur that inv_durable_put [OF p(6,1,3)] p(6) unfolding inv_durable_def by (metis (no_types, lifting))
    moreover have "bt_get (sq_durable sq') (di_seq d) \<noteq> None" if "WLanded d (Ok ()) \<in> set (sq_workers sq')" for d
      using that p(6) mono landed set_update_subset_insert [of "sq_workers sq" i w] unfolding inv_durable_def same by blast
    moreover have "bt_get (sq_durable sq') q \<noteq> None" if "(q, d, Ok ()) \<in> set (la_parked (sq_lander sq'))" for q d
      using that p(6) mono unfolding inv_durable_def same by blast
    ultimately show ?thesis unfolding inv_durable_def len same by blast
  qed
  ultimately show ?thesis by blast
qed

lemma seq_inv_work:
  assumes inv: "seq_inv ext shard cfg first digest sq" and step: "worker_step cfg i act sq = Some sq'"
  shows "inv_tickets ext sq' \<and> inv_durable first sq' \<and> (\<exists>k. inv_ack cfg first k sq')"
proof -
  have gone: "\<not> receiver_gone sq" using step receiver_gone_nth [of sq i] by (auto simp: worker_step_def split: if_splits)
  have held: "d \<in> set (flight sq)" if "i < length (sq_workers sq)" "d \<in> set (held (sq_workers sq ! i))" for d
    using that nth_mem [OF that(1)] by (auto simp: flight_def)
  have moved: "mset (flight sq') = mset (flight sq)"
    if "sq_lander sq' = sq_lander sq" "sq_workers sq' = (sq_workers sq)[i := w]" "i < length (sq_workers sq)"
      "mset (sq_chan sq') + mset (held w) = mset (sq_chan sq) + mset (held (sq_workers sq ! i))" for w
    unfolding flight_def mset_append that(1,2)
    by (rule multiset_shift [OF that(4) mset_held_update [OF that(3)]])
  show ?thesis
    using step
  proof (cases rule: worker_step_cases)
    case (complete d r)
    with work_complete [OF inv complete(1,2)] show ?thesis by (simp add: landing_ok_def)
  next
    case (recv d ds)
    then show ?thesis
      using gone by (intro work_move [OF inv, of i _ "WPutting d"] moved [of "WPutting d"]) auto
  next
    case exit
    then show ?thesis
      using gone by (intro work_move [OF inv, of i _ WExited] moved [of WExited]) auto
  next
    case (panic d durable)
    then show ?thesis
      using gone held [of d] put_segment_cases [OF panic(3)]
      by (intro work_move [OF inv, of i _ "WPanicked d"] moved [of "WPanicked d"]) auto
  next
    case (put d r durable)
    then show ?thesis
      using gone held [of d] put_segment_cases [OF put(3)]
      by (intro work_move [OF inv, of i _ "WLanded d r"] moved [of "WLanded d r"]) (auto simp: bt_get_insert)
  qed
qed

lemma inv_durable_cong:
  assumes "inv_durable first sq" "sq_workers sq' = sq_workers sq" "la_parked (sq_lander sq') = la_parked (sq_lander sq)"
    "sq_durable sq' = sq_durable sq" "sq_windows sq' = sq_windows sq @ ws"
    "resolved first sq + length (flight sq) \<le> resolved first sq' + length (flight sq')"
  shows "inv_durable first sq'"
  using assms unfolding inv_durable_def by (auto simp: nth_append) (metis less_le_trans)

lemma inv_ack_build:
  assumes A: "inv_ack cfg first k sq" and T: "inv_tickets ext sq" and "sq_flusher sq = FlBuild b seq prev"
    and sq': "sq_windows sq' = sq_windows sq @ [w]" "wi_batch w = b" "sq_lander sq' = sq_lander sq" "sq_cells sq' = sq_cells sq"
      "sq_durable sq' = sq_durable sq" "sq_tee sq' = sq_tee sq" "ss_poisoned (sq_state sq') = ss_poisoned (sq_state sq)"
      "sq_flusher sq' = FlAdmit d"
  shows "inv_ack cfg first k sq'"
proof -
  have cut: "\<not> cut_off first sq" "\<not> cut_off first sq'" using assms(3) sq' by (auto simp: cut_off_def)
  have r: "resolved first sq' = resolved first sq" by (simp add: resolved_def sq')
  have "b \<in> set (open_batches sq)" by (simp add: open_batches_def assms(3))
  then have new: "sq_cells sq ! t = None" if "t \<in> fst ` set (ba_tickets b)" for t
    using T that unfolding inv_tickets_def in_ids_of by (metis in_ids_of)
  have len: "k \<le> resolved first sq" "resolved first sq \<le> length (sq_windows sq)" using A by (simp_all add: inv_ack_def)
  have "sq_cells sq ! t = None"
    if "resolved first sq \<le> i" "i < length (sq_windows sq')" "t \<in> fst ` set (ba_tickets (wi_batch (sq_windows sq' ! i)))" for i t
    using that new inv_ackD(3) [OF A] cut(1) by (cases "i < length (sq_windows sq)") (auto simp: sq' nth_append less_Suc_eq)
  moreover have "sq_windows sq' ! i = sq_windows sq ! i" if "i < resolved first sq" for i
    using that len by (simp add: sq' nth_append)
  ultimately show ?thesis
    using A len cut unfolding inv_ack_def r by (simp add: sq')
qed

lemma inv_ack_send_failed:
  assumes A: "inv_ack cfg first k sq" and T: "inv_tickets ext sq" and F: "inv_flight cfg first sq"
    and "sq_flusher sq = FlSend d" "receiver_gone sq"
    and sq': "sq' = sq\<lparr>sq_cells := resolve_all (\<lambda>_. Err Poisoned) (di_tickets d) (sq_cells sq),
        sq_lander := (sq_lander sq)\<lparr>la_failed := True, la_outstanding := la_outstanding (sq_lander sq) - 1\<rparr>,
        sq_state := (sq_state sq)\<lparr>ss_poisoned := True\<rparr>, sq_flusher := FlLoop\<rparr>"
  shows "inv_ack cfg first k sq'"
proof -
  let ?m = "resolved first sq + length (flight sq)"
  have cut: "\<not> cut_off first sq" using assms(4) by (simp add: cut_off_def)
  then have "map (disp cfg) (drop ?m (sq_windows sq)) = [d]" using F assms(4) by (simp add: inv_flight_def pending_def)
  then obtain w where w: "drop ?m (sq_windows sq) = [w]" "d = disp cfg w" by (auto simp: map_eq_Cons_conv)
  have m: "length (sq_windows sq) = Suc ?m" "sq_windows sq ! ?m = w"
    using arg_cong [OF w(1), of length] arg_cong [OF w(1), of hd] by (simp_all add: hd_drop_conv_nth)
  have r: "resolved first sq' = resolved first sq" "flight sq' = flight sq" by (simp_all add: resolved_def flight_def sq')
  have "cut_off first sq'" using m r assms(5) by (simp add: cut_off_def sq' receiver_gone_def)
  have at: "sq_cells sq' ! t = (if i = ?m then Some (Err Poisoned) else sq_cells sq ! t)"
    if "i < length (sq_windows sq)" "(t, l) \<in> set (ba_tickets (wi_batch (sq_windows sq ! i)))" for i t l
    using resolve_window [OF T _ that(1) _ that(2), of ?m "sq_cells sq'" "\<lambda>_. Err Poisoned"] m w
    by (simp add: sq' disp_def)
  have len: "k \<le> resolved first sq" "resolved first sq \<le> length (sq_windows sq)" using A by (simp_all add: inv_ack_def)
  have "\<forall>i < k. \<forall>(t, l) \<in> set (ba_tickets (wi_batch (sq_windows sq ! i))). sq_cells sq' ! t = Some (Ok l)"
  proof (intro allI impI ballI, clarify)
    fix i t l assume i: "i < k" "(t, l) \<in> set (ba_tickets (wi_batch (sq_windows sq ! i)))"
    then show "sq_cells sq' ! t = Some (Ok l)" using inv_ackD(1) [OF A i(2,1)] at [of i t l] len m by simp
  qed
  moreover have "\<exists>e. sq_cells sq' ! t = Some (Err e)"
    if "k \<le> i" "i < resolved first sq" "t \<in> fst ` set (ba_tickets (wi_batch (sq_windows sq ! i)))" for i t
    using that at [of i t] len m inv_ackD(2) [OF A _ that(1,2)] by auto
  moreover have "sq_cells sq' ! t = (if cut_off first sq' \<and> Suc i = length (sq_windows sq) then Some (Err Poisoned) else None)"
    if "resolved first sq \<le> i" "i < length (sq_windows sq)" "t \<in> fst ` set (ba_tickets (wi_batch (sq_windows sq ! i)))" for i t
    using that at [of i t] m inv_ackD(3) [OF A _ that(1,2) cut] \<open>cut_off first sq'\<close> by auto
  moreover have "\<forall>i < k. bt_get (sq_durable sq) (first + of_nat i) \<noteq> None"
    "sq_tee sq = (if cf_tee cfg then map tee_entry (take k (sq_windows sq)) else [])"
    using A by (simp_all add: inv_ack_def)
  moreover have "sq_windows sq' = sq_windows sq" "sq_durable sq' = sq_durable sq" "sq_tee sq' = sq_tee sq"
    "la_failed (sq_lander sq')" "ss_poisoned (sq_state sq')" by (simp_all add: sq')
  ultimately show ?thesis unfolding inv_ack_def r using len by auto
qed

lemma seq_inv_flush:
  assumes inv: "seq_inv ext shard cfg first digest sq" and step: "flusher_step ext shard cfg sq = Some sq'"
  shows "inv_durable first sq' \<and> (\<exists>k. inv_ack cfg first k sq')"
proof -
  note p = seq_inv_landing [OF inv]
  from inv obtain k where A: "inv_ack cfg first k sq" by (auto simp: seq_inv_def)
  have fl: "flight sq' = flight sq \<and> resolved first sq' = resolved first sq"
    if "sq_chan sq' = sq_chan sq" "sq_workers sq' = sq_workers sq" "la_parked (sq_lander sq') = la_parked (sq_lander sq)"
      "la_next_ack (sq_lander sq') = la_next_ack (sq_lander sq)"
    using that by (simp add: flight_def resolved_def)
  have quiet: ?thesis
    if "sq_cells sq' = sq_cells sq" "sq_windows sq' = sq_windows sq" "sq_durable sq' = sq_durable sq" "sq_tee sq' = sq_tee sq"
      "sq_chan sq' = sq_chan sq" "sq_workers sq' = sq_workers sq" "la_parked (sq_lander sq') = la_parked (sq_lander sq)"
      "la_next_ack (sq_lander sq') = la_next_ack (sq_lander sq)" "la_failed (sq_lander sq') = la_failed (sq_lander sq)"
      "ss_poisoned (sq_state sq') = ss_poisoned (sq_state sq)" "cut_off first sq' = cut_off first sq"
    using inv_ack_cong [OF A, of sq'] inv_durable_cong [OF p(6), of sq' "[]"] fl that by auto
  show ?thesis
    using step
  proof (cases rule: flusher_step_cases)
    case (build b seq prev seg ts)
    have "inv_ack cfg first k sq'"
      by (rule inv_ack_build [OF A p(5) build(1), where w = "\<lparr>wi_seq = seq, wi_prev = prev, wi_batch = b,
            wi_segment = seg, wi_digest = tenants_digest ext ts\<rparr>"]) (simp_all add: build)
    moreover have "inv_durable first sq'" using fl by (intro inv_durable_cong [OF p(6)]) (simp_all add: build)
    ultimately show ?thesis by blast
  next
    case (send_failed d)
    have "inv_ack cfg first k sq'" by (rule inv_ack_send_failed [OF A p(5,1) send_failed])
    moreover have "inv_durable first sq'" using fl by (intro inv_durable_cong [OF p(6)]) (simp_all add: send_failed)
    ultimately show ?thesis by blast
  next
    case (poisoned b)
    have "t \<notin> fst ` set (ba_tickets b)" if "w \<in> set (sq_windows sq)" "t \<in> fst ` set (ba_tickets (wi_batch w))" for w t
    proof -
      have "t \<in> set (ids_of (map wi_batch (sq_windows sq)))" unfolding in_ids_of using that by auto
      moreover have "x < y" if "x \<in> set (ids_of (map wi_batch (sq_windows sq)))" "y \<in> set (ids_of (open_batches sq))" for x y
        using p(5) that by (simp add: inv_tickets_def batches_def sorted_wrt_append)
      moreover have "u \<in> set (ids_of (open_batches sq))" if "u \<in> fst ` set (ba_tickets b)" for u
        using that poisoned by (simp add: open_batches_def)
      ultimately show ?thesis by blast
    qed
    then have "inv_ack cfg first k sq'"
      by (intro inv_ack_cong [OF A])
        (auto simp: poisoned resolved_def cut_off_def flight_def receiver_gone_def nth_resolve_all_other)
    moreover have "inv_durable first sq'" using fl by (intro inv_durable_cong [OF p(6)]) (simp_all add: poisoned)
    ultimately show ?thesis by blast
  next
    case (send d)
    then have "inv_ack cfg first k sq'"
      by (intro inv_ack_cong [OF A]) (auto simp: resolved_def cut_off_def receiver_gone_def)
    moreover have "inv_durable first sq'"
      by (intro inv_durable_cong [OF p(6)]) (simp_all add: send flight_def resolved_def)
    ultimately show ?thesis by blast
  next
    case stop
    then show ?thesis by (intro quiet) (auto simp: cut_off_def receiver_gone_def resolved_def flight_def)
  next
    case (close b)
    then show ?thesis by (intro quiet) (auto simp: cut_off_def)
  next
    case (admit d)
    then show ?thesis by (intro quiet) (auto simp: cut_off_def)
  next
    case drain
    then show ?thesis by (intro quiet) (auto simp: cut_off_def receiver_gone_def resolved_def flight_def)
  qed
qed

lemma seq_inv_append:
  assumes inv: "seq_inv ext shard cfg first digest sq" and step: "seq_append ext gate frames sq = (r, sq')"
  shows "inv_durable first sq' \<and> (\<exists>k. inv_ack cfg first k sq')"
proof -
  note p = seq_inv_landing [OF inv]
  from inv obtain k where A: "inv_ack cfg first k sq" by (auto simp: seq_inv_def)
  note same = seq_append_frame [OF step]
  have cells: "sq_cells sq' = sq_cells sq \<or> sq_cells sq' = sq_cells sq @ [None]"
    using step by (cases rule: seq_append_cases) auto
  have "sq_cells sq' ! t = sq_cells sq ! t" if "w \<in> set (sq_windows sq)" "t \<in> fst ` set (ba_tickets (wi_batch w))" for w t
  proof -
    from that(1) obtain i where "i < length (sq_windows sq)" "w = sq_windows sq ! i" by (auto simp: in_set_conv_nth)
    with window_tickets(2) [OF p(5), of i t] that(2) cells show ?thesis by (auto simp: nth_append)
  qed
  then have "inv_ack cfg first k sq'"
    by (intro inv_ack_cong [OF A]) (auto simp: same resolved_def cut_off_def receiver_gone_def flight_def)
  moreover have "inv_durable first sq'"
    using p(6) by (simp add: inv_durable_def same resolved_def flight_def)
  ultimately show ?thesis by blast
qed

lemma seq_inv_step:
  assumes inv: "seq_inv ext shard cfg first digest sq" and step: "seq_step ext shard cfg sq sq'" and room: "seq_room first sq'"
  shows "seq_inv ext shard cfg first digest sq'"
proof -
  note p = seq_inv_landing [OF inv]
  have c: "inv_chain ext shard first digest sq'" "inv_flight cfg first sq'" "inv_parked sq'"
    using inv step inv_chain_step inv_flight_step [of cfg first sq ext shard digest sq']
    by (auto simp: seq_inv_def)
  have "inv_tickets ext sq' \<and> inv_durable first sq' \<and> (\<exists>k. inv_ack cfg first k sq')"
    using step
  proof cases
    case (append gate frames r)
    show ?thesis using inv_tickets_append [OF p(5) append] seq_inv_append [OF inv append] by blast
  next
    case flush
    show ?thesis using inv_tickets_flush [OF p(5,1) flush] seq_inv_flush [OF inv flush] by blast
  next
    case (work i act)
    show ?thesis by (rule seq_inv_work [OF inv work])
  next
    case shutdown
    from inv obtain k where A: "inv_ack cfg first k sq" by (auto simp: seq_inv_def)
    have "inv_ack cfg first k sq'"
      by (rule inv_ack_cong [OF A])
        (simp_all add: shutdown begin_shutdown_def resolved_def cut_off_def receiver_gone_def flight_def)
    moreover have "inv_tickets ext sq'" "inv_durable first sq'"
      using p(5,6) by (simp_all add: shutdown begin_shutdown_def inv_tickets_def batches_def open_batches_def
          inv_durable_def resolved_def flight_def)
    ultimately show ?thesis by blast
  next
    case (tick dt)
    from inv obtain k where A: "inv_ack cfg first k sq" by (auto simp: seq_inv_def)
    have "inv_ack cfg first k sq'"
      by (rule inv_ack_cong [OF A]) (simp_all add: tick resolved_def cut_off_def receiver_gone_def flight_def)
    moreover have "inv_tickets ext sq'" "inv_durable first sq'"
      using p(5,6) by (simp_all add: tick inv_tickets_def batches_def open_batches_def inv_durable_def resolved_def flight_def)
    ultimately show ?thesis by blast
  qed
  with c room show ?thesis by (simp add: seq_inv_def)
qed

lemma seq_inv_init: "resume cfg first digest = Ok sq \<Longrightarrow> seq_inv ext shard cfg first digest sq"
proof -
  assume "resume cfg first digest = Ok sq"
  then have sq: "sq = \<lparr>sq_state = \<lparr>ss_batch = None, ss_epochs = [], ss_next_seq = first, ss_prev_digest = digest,
                     ss_poisoned = False, ss_shutdown = False\<rparr>,
         sq_lander = \<lparr>la_next_ack = first, la_parked = [], la_failed = False, la_outstanding = 0\<rparr>,
         sq_cells = [], sq_tee = [], sq_flusher = FlLoop, sq_chan = [], sq_tx_open = True,
         sq_workers = replicate (cf_inflight cfg) WIdle, sq_durable = [], sq_now = 0,
         sq_windows = [], sq_appends = []\<rparr>" and lim: "1 \<le> cf_inflight cfg" "cf_inflight cfg \<le> MAX_INFLIGHT"
    by (auto simp: resume_def split: if_splits)
  have "concat (map held (replicate n WIdle)) = []" for n by (induction n) auto
  then have fl: "flight sq = []" "resolved first sq = 0" by (simp_all add: sq flight_def resolved_def)
  have "inv_chain ext shard first digest sq" by (simp add: inv_chain_def sq chain_from_def chain_tip_def)
  moreover have "inv_flight cfg first sq"
    using lim unfolding inv_flight_def fl by (simp add: sq pending_def sending_def)
  moreover have "inv_parked sq" by (simp add: inv_parked_def sq bt_wf_def)
  moreover have "inv_tickets ext sq" by (simp add: inv_tickets_def batches_def open_batches_def sq)
  moreover have "inv_durable first sq" by (simp add: inv_durable_def sq bt_get_def)
  moreover have "inv_ack cfg first 0 sq" unfolding inv_ack_def fl by (simp add: sq)
  moreover have "seq_room first sq" using unsigned_less [of first] by (simp add: seq_room_def windows_begun_def sq)
  ultimately show ?thesis by (auto simp: seq_inv_def)
qed

lemma seq_reach_inv: "seq_reach ext shard cfg first digest sq \<Longrightarrow> seq_inv ext shard cfg first digest sq"
  by (induction rule: seq_reach.induct) (auto intro: seq_inv_init seq_inv_step)

text \<open>Whatever is resolved as durable belongs to one of the acked windows, which are all durable.\<close>

lemma acked_window:
  assumes inv: "seq_inv ext shard cfg first digest sq" and "inv_ack cfg first k sq"
    and "t < length (sq_cells sq)" "sq_cells sq ! t = Some (Ok l)"
  obtains i where "i < k" "(t, l) \<in> set (ba_tickets (wi_batch (sq_windows sq ! i)))"
proof -
  note p = seq_inv_landing [OF inv]
  have len: "k \<le> resolved first sq" "resolved first sq \<le> length (sq_windows sq)" using assms(2) by (simp_all add: inv_ack_def)
  have "t \<in> set (ids_of (batches sq))" using p(5) assms(3,4) by (auto simp: inv_tickets_def)
  moreover have "t \<notin> set (ids_of (open_batches sq))" using p(5) assms(4) by (auto simp: inv_tickets_def)
  ultimately obtain w where "w \<in> set (sq_windows sq)" "t \<in> fst ` set (ba_tickets (wi_batch w))"
    by (auto simp: batches_def in_ids_of)
  then obtain i l' where i: "i < length (sq_windows sq)" "(t, l') \<in> set (ba_tickets (wi_batch (sq_windows sq ! i)))"
    by (auto simp: in_set_conv_nth)
  have "i < k"
  proof (rule ccontr)
    assume "\<not> i < k"
    show False
    proof (cases "i < resolved first sq")
      case True
      with inv_ackD(2) [OF assms(2) i(2)] \<open>\<not> i < k\<close> assms(4) show False by auto
    next
      case False
      have "\<forall>t \<in> fst ` set (ba_tickets (wi_batch (sq_windows sq ! i))).
          sq_cells sq ! t = (if cut_off first sq \<and> Suc i = length (sq_windows sq) then Some (Err Poisoned) else None)"
        using assms(2) False i(1) by (simp add: inv_ack_def)
      with imageI [OF i(2), of fst] assms(4) show False by (auto split: if_splits)
    qed
  qed
  moreover have "l' = l" using inv_ackD(1) [OF assms(2) i(2) \<open>i < k\<close>] assms(4) by simp
  ultimately show thesis using that i by blast
qed

lemma acked_durable:
  assumes "seq_inv ext shard cfg first digest sq" and "inv_ack cfg first k sq" "i < k"
  shows "bt_get (sq_durable sq) (first + of_nat i) = Some (wi_segment (sq_windows sq ! i))"
proof -
  note p = seq_inv_landing [OF assms(1)]
  have len: "k \<le> resolved first sq" "resolved first sq \<le> length (sq_windows sq)" using assms(2) by (simp_all add: inv_ack_def)
  obtain seg where seg: "bt_get (sq_durable sq) (first + of_nat i) = Some seg"
    using assms(2,3) by (fastforce simp: inv_ack_def)
  with p(6) obtain j where j: "j < length (sq_windows sq)" "first + of_nat i = first + (of_nat j :: u64)"
    "seg = wi_segment (sq_windows sq ! j)"
    unfolding inv_durable_def by metis
  have "wi_seq (sq_windows sq ! i) = first + of_nat j" using p(3) j len assms(3) by (simp add: chain_from_def)
  with chain_index [OF p(3,4), of i j] j len assms(3) have "i = j" by simp
  with j seg show ?thesis by simp
qed

end
