(* ===== verification/Sequencer_Drain.thy ===== *)
theory Sequencer_Drain
  imports Sequencer_Acks
begin

text \<open>
  Closing the sequencer: after a shutdown every step brings it closer to the end, some step is
  always possible as long as no put panicked, and at the end every ticket is resolved.
\<close>

section \<open>The end of the flusher\<close>

definition inv_end :: "sequencer \<Rightarrow> bool" where
  "inv_end sq \<longleftrightarrow>
     (\<forall>d r rest. la_parked (sq_lander sq) \<noteq> (la_next_ack (sq_lander sq), d, r) # rest) \<and>
     (WExited \<in> set (sq_workers sq) \<longrightarrow> \<not> sq_tx_open sq \<and> sq_chan sq = []) \<and>
     (\<not> sq_tx_open sq \<longrightarrow> sq_flusher sq \<in> {FlDrain, FlDone} \<and> ss_batch (sq_state sq) = None \<and> ss_shutdown (sq_state sq)) \<and>
     (sq_flusher sq \<in> {FlDrain, FlDone} \<longrightarrow> \<not> sq_tx_open sq) \<and>
     (sq_flusher sq = FlDone \<longrightarrow> la_outstanding (sq_lander sq) = 0)"

lemma flight_empty:
  assumes "inv_flight cfg first sq" "la_outstanding (sq_lander sq) = 0"
  shows "sq_chan sq = []" "\<And>w. w \<in> set (sq_workers sq) \<Longrightarrow> held w = []" "la_parked (sq_lander sq) = []"
  using assms by (auto simp: inv_flight_def flight_def)

lemma inv_end_work:
  assumes inv: "inv_end sq" and F: "inv_flight cfg first sq" and step: "worker_step cfg i act sq = Some sq'"
  shows "inv_end sq'"
proof (cases "sq_flusher sq = FlDone")
  case True
  then have "la_outstanding (sq_lander sq) = 0" using inv by (simp add: inv_end_def)
  note empty = flight_empty [OF F this]
  show ?thesis
    using step
  proof (cases rule: worker_step_cases)
    case exit
    with inv show ?thesis by (auto simp: inv_end_def dest!: set_update_subset_insert [THEN subsetD])
  qed (use empty in \<open>force dest: nth_mem\<close>)+
next
  case False
  show ?thesis
    using step
  proof (cases rule: worker_step_cases)
    case (complete d r)
    have "\<forall>d r rest. la_parked (sq_lander sq') \<noteq> (la_next_ack (sq_lander sq'), d, r) # rest"
      unfolding complete(3)
      using lander_loop_induct [where P = "\<lambda>_. True" and cfg = cfg] by blast
    with inv False show ?thesis
      by (auto simp: inv_end_def complete(3) lander_loop_frame dest!: set_update_subset_insert [THEN subsetD])
  qed (use inv False in \<open>auto simp: inv_end_def dest!: set_update_subset_insert [THEN subsetD]\<close>)
qed

lemma inv_end_step:
  assumes inv: "inv_end sq" and F: "inv_flight cfg first sq" and step: "seq_step ext shard cfg sq sq'"
  shows "inv_end sq'"
  using step
proof cases
  case (append gate frames r)
  have "ss_shutdown (sq_state sq) \<longrightarrow> sq' = sq" using append by (cases rule: seq_append_cases) auto
  then show ?thesis using inv seq_append_frame [OF append] by (auto simp: inv_end_def)
next
  case flush
  then show ?thesis by (cases rule: flusher_step_cases) (use inv in \<open>auto simp: inv_end_def\<close>)
next
  case (work i act)
  then show ?thesis by (rule inv_end_work [OF inv F])
qed (use inv in \<open>auto simp: inv_end_def begin_shutdown_def\<close>)

lemma seq_reach_end: "seq_reach ext shard cfg first digest sq \<Longrightarrow> inv_end sq"
proof (induction rule: seq_reach.induct)
  case (init sq)
  then show ?case by (auto simp: inv_end_def resume_def split: if_splits)
next
  case (step sq sq')
  then show ?case using inv_end_step seq_inv_landing(1) [OF seq_reach_inv [OF step(1)]] by blast
qed

lemma done_resolved:
  assumes "seq_reach ext shard cfg first digest sq" "sq_flusher sq = FlDone" "t < length (sq_cells sq)"
  shows "sq_cells sq ! t \<noteq> None"
proof -
  note inv = seq_reach_inv [OF assms(1)] and e = seq_reach_end [OF assms(1)]
  note p = seq_inv_landing [OF inv]
  from inv obtain k where A: "inv_ack cfg first k sq" by (auto simp: seq_inv_def)
  have "la_outstanding (sq_lander sq) = 0" and open_empty: "open_batches sq = []"
    using e assms(2) by (auto simp: inv_end_def open_batches_def)
  then have fl: "flight sq = []" using p(1) by (simp add: inv_flight_def)
  show ?thesis
  proof (cases "t \<in> set (ids_of (batches sq))")
    case True
    then obtain w l where "w \<in> set (sq_windows sq)" "(t, l) \<in> set (ba_tickets (wi_batch w))"
      by (auto simp: batches_def open_empty in_ids_of)
    then obtain i where i: "i < length (sq_windows sq)" "(t, l) \<in> set (ba_tickets (wi_batch (sq_windows sq ! i)))"
      by (metis in_set_conv_nth)
    have "sq_cells sq ! t = Some (Err Poisoned)" if "resolved first sq \<le> i"
    proof -
      have "resolved first sq < length (sq_windows sq)" using that i(1) by simp
      then have "cut_off first sq" using p(1) fl assms(2) by (auto simp: inv_flight_def pending_def)
      moreover from this have "Suc i = length (sq_windows sq)" using that i(1) fl by (simp add: cut_off_def)
      moreover have "\<forall>t \<in> fst ` set (ba_tickets (wi_batch (sq_windows sq ! i))).
          sq_cells sq ! t = (if cut_off first sq \<and> Suc i = length (sq_windows sq) then Some (Err Poisoned) else None)"
        using A that i(1) by (simp add: inv_ack_def)
      ultimately show ?thesis using i(2) by fastforce
    qed
    then show ?thesis
      using inv_ackD(1,2) [OF A i(2)] by (cases "i < k"; cases "i < resolved first sq") auto
  next
    case False
    then show ?thesis using p(5) assms(3) by (auto simp: inv_tickets_def)
  qed
qed

section \<open>Progress\<close>

definition flusher_work :: "flusher \<Rightarrow> nat" where
  "flusher_work f = (case f of FlLoop \<Rightarrow> 2 | FlBuild _ _ _ \<Rightarrow> 9 | FlAdmit _ \<Rightarrow> 8 | FlSend _ \<Rightarrow> 7 | FlDrain \<Rightarrow> 1 | FlDone \<Rightarrow> 0)"

definition worker_work :: "worker \<Rightarrow> nat" where
  "worker_work w = (case w of WIdle \<Rightarrow> 1 | WPutting _ \<Rightarrow> 4 | WLanded _ _ \<Rightarrow> 3 | WExited \<Rightarrow> 0 | WPanicked _ \<Rightarrow> 0)"

text \<open>What is left to do: the steps of the batch being staged, the flusher, each window
  in the channel, each worker, and each parked window.\<close>

definition work_left :: "sequencer \<Rightarrow> nat" where
  "work_left sq =
     (if ss_batch (sq_state sq) = None then 0 else 8) + flusher_work (sq_flusher sq) + 4 * length (sq_chan sq) +
     sum_list (map worker_work (sq_workers sq)) + length (la_parked (sq_lander sq))"

definition panicked :: "sequencer \<Rightarrow> bool" where
  "panicked sq \<longleftrightarrow> (\<exists>d. WPanicked d \<in> set (sq_workers sq))"

lemma sum_work_update:
  assumes "i < length ws"
  shows "sum_list (map worker_work (ws[i := w])) + worker_work (ws ! i) = sum_list (map worker_work ws) + worker_work w"
proof -
  have "worker_work (ws ! i) \<le> sum_list (map worker_work ws)"
    using assms by (auto intro!: member_le_sum_list)
  then show ?thesis using assms by (simp add: map_update sum_list_update)
qed

lemma length_bt_insert: "length (bt_insert k v m) \<le> Suc (length m)"
  by (induction k v m rule: bt_insert.induct) auto

lemma lander_loop_shorter: "length (la_parked (sq_lander (lander_loop cfg sq))) \<le> length (la_parked (sq_lander sq))"
  by (rule lander_loop_keeps [where P = "\<lambda>x. length (la_parked (sq_lander x)) \<le> length (la_parked (sq_lander sq))"])
    (auto simp: bt_remove_def intro: le_trans [OF length_filter_le])

lemma worker_step_less:
  assumes "worker_step cfg i act sq = Some sq'"
  shows "work_left sq' < work_left sq"
  using assms
proof (cases rule: worker_step_cases)
  case (recv d ds)
  then show ?thesis
    using sum_work_update [OF recv(1), of "WPutting d"] by (simp add: work_left_def worker_work_def)
next
  case exit
  then show ?thesis
    using sum_work_update [OF exit(1), of WExited] by (simp add: work_left_def worker_work_def)
next
  case (panic d durable)
  then show ?thesis
    using sum_work_update [OF panic(1), of "WPanicked d"] by (simp add: work_left_def worker_work_def)
next
  case (put d r durable)
  then show ?thesis
    using sum_work_update [OF put(1), of "WLanded d r"] by (simp add: work_left_def worker_work_def)
next
  case (complete d r)
  let ?sq = "sq\<lparr>sq_workers := (sq_workers sq)[i := WIdle],
        sq_lander := (sq_lander sq)\<lparr>la_parked := bt_insert (di_seq d) (d, r) (la_parked (sq_lander sq))\<rparr>\<rparr>"
  have "work_left sq' \<le> work_left ?sq"
    using lander_loop_shorter [of cfg ?sq] unfolding complete(3) by (simp add: work_left_def lander_loop_frame)
  also have "\<dots> < work_left sq"
    using sum_work_update [OF complete(1), of WIdle] complete(2) length_bt_insert [of "di_seq d" "(d, r)" "la_parked (sq_lander sq)"]
    by (simp add: work_left_def worker_work_def)
  finally show ?thesis .
qed

lemma flusher_step_less:
  assumes "flusher_step ext shard cfg sq = Some sq'"
  shows "work_left sq' < work_left sq"
  using assms by (cases rule: flusher_step_cases) (simp_all add: work_left_def flusher_work_def)

lemma shutdown_step_less:
  assumes "seq_step ext shard cfg sq sq'" "ss_shutdown (sq_state sq)"
  shows "work_left sq' < work_left sq \<or> sq' = sq\<lparr>sq_now := sq_now sq'\<rparr>"
  using assms(1)
proof cases
  case (append gate frames r)
  then show ?thesis using assms(2) by (cases rule: seq_append_cases) auto
qed (use assms(2) in \<open>auto simp: begin_shutdown_def intro: worker_step_less flusher_step_less\<close>)

lemma chain_unat:
  assumes "chain_from ext shard first digest ws" "unat first + length ws < 2 ^ 64" "i < length ws"
  shows "unat (wi_seq (ws ! i)) = unat first + i"
proof -
  have "unat (of_nat i :: u64) = i" using assms by (simp add: unat_of_nat take_bit_nat_eq_self)
  with assms unat_add_lem [of first "of_nat i"] show ?thesis by (simp add: chain_from_def)
qed

text \<open>Some thread can always move: a busy worker, an idle one with a window in the channel, or
  the flusher. Were all windows in flight parked, the lander would have resolved the first.\<close>

lemma worker_moves:
  assumes inv: "seq_inv ext shard cfg first digest sq" and e: "inv_end sq" and np: "\<not> panicked sq"
    and "flight sq \<noteq> []"
  shows "\<exists>i sq'. worker_step cfg i PutOk sq = Some sq' \<and> \<not> panicked sq'"
proof -
  note p = seq_inv_landing [OF inv]
  have keep: "\<not> panicked sq'" if step: "worker_step cfg i PutOk sq = Some sq'" for i sq'
    using step
  proof (cases rule: worker_step_cases)
    case (panic d durable)
    then show ?thesis by (simp add: put_segment_def)
  qed (use np in \<open>auto simp: panicked_def lander_loop_frame dest!: set_update_subset_insert [THEN subsetD]\<close>)
  show ?thesis
  proof (cases "\<exists>w \<in> set (sq_workers sq). held w \<noteq> []")
    case True
    then obtain i where i: "i < length (sq_workers sq)" "held (sq_workers sq ! i) \<noteq> []" by (metis in_set_conv_nth)
    then have "\<exists>sq'. worker_step cfg i PutOk sq = Some sq'"
      using np nth_mem [OF i(1)]
      by (cases "sq_workers sq ! i") (auto simp: worker_step_def put_segment_def panicked_def held_def)
    with keep show ?thesis by blast
  next
    case False
    then have none: "concat (map held (sq_workers sq)) = []" by auto
    have "sq_chan sq \<noteq> []"
    proof
      assume chan: "sq_chan sq = []"
      let ?a = "resolved first sq" and ?w = "sq_windows sq ! resolved first sq"
      have "flight sq = map (\<lambda>(_, d, _). d) (la_parked (sq_lander sq))" by (simp add: flight_def chan none)
      moreover have a: "?a < length (sq_windows sq)" "disp cfg ?w \<in> set (flight sq)"
      proof -
        have "mset (flight sq) = mset (map (disp cfg) (take (length (flight sq)) (drop ?a (sq_windows sq))))"
          using p(1) by (simp add: inv_flight_def)
        then have "set (flight sq) = set (map (disp cfg) (take (length (flight sq)) (drop ?a (sq_windows sq))))"
          by (metis set_mset_mset)
        moreover from this assms(4) have l: "take (length (flight sq)) (drop ?a (sq_windows sq)) \<noteq> []" by force
        moreover from l show less: "?a < length (sq_windows sq)" by simp
        moreover have "hd (take (length (flight sq)) (drop ?a (sq_windows sq))) = ?w"
          using assms(4) less by (simp add: hd_drop_conv_nth)
        ultimately show "disp cfg ?w \<in> set (flight sq)" by (metis hd_in_set image_eqI list.set_map)
      qed
      ultimately obtain q r where q: "(q, disp cfg ?w, r) \<in> set (la_parked (sq_lander sq))" by auto
      have "q = la_next_ack (sq_lander sq)"
        using p(2,3) q a(1) by (force simp: inv_parked_def disp_def chain_from_def resolved_def)
      obtain q' d' r' rest where head: "la_parked (sq_lander sq) = (q', d', r') # rest"
        using q by (cases "la_parked (sq_lander sq)") auto
      then have "q' \<noteq> q" using e \<open>q = _\<close> by (auto simp: inv_end_def)
      then have "q' < q" using p(2) q head by (force simp: inv_parked_def bt_wf_def)
      obtain j where "?a + j < length (sq_windows sq)" "d' = disp cfg (sq_windows sq ! (?a + j))"
        using flight_in_windows [OF p(1) parked_in_flight [of q' d' r']] head by (metis list.set_intros(1))
      then have "unat q' = unat first + (?a + j)"
        using p(2) head chain_unat [OF p(3,4)] by (auto simp: inv_parked_def disp_def)
      moreover have "unat q = unat first + ?a"
        using p(2) q chain_unat [OF p(3,4) a(1)] by (auto simp: inv_parked_def disp_def)
      ultimately show False using \<open>q' < q\<close> by (simp add: word_less_nat_alt)
    qed
    then obtain d ds where chan: "sq_chan sq = d # ds" by (cases "sq_chan sq") auto
    have "sq_workers sq \<noteq> []"
    proof
      assume "sq_workers sq = []"
      then have "length (flight sq) = 0" using p(1) by (auto simp: inv_flight_def)
      with assms(4) show False by simp
    qed
    then obtain w where w: "w \<in> set (sq_workers sq)" by (cases "sq_workers sq") auto
    moreover have "held w = []" "w \<noteq> WExited" using w False e chan by (auto simp: inv_end_def)
    then have "w = WIdle" by (cases w) auto
    ultimately obtain i where "i < length (sq_workers sq)" "sq_workers sq ! i = WIdle" by (metis in_set_conv_nth)
    then have "\<exists>sq'. worker_step cfg i PutOk sq = Some sq'" by (simp add: worker_step_def chan)
    with keep show ?thesis by blast
  qed
qed

lemma drain_progress:
  assumes inv: "seq_inv ext shard cfg first digest sq" and e: "inv_end sq" and np: "\<not> panicked sq"
    and "ss_shutdown (sq_state sq)" "sq_flusher sq \<noteq> FlDone" "1 \<le> cf_inflight cfg"
  shows "\<exists>sq'. seq_step ext shard cfg sq sq' \<and> work_left sq' < work_left sq \<and> \<not> panicked sq' \<and>
    windows_begun sq' \<le> windows_begun sq \<and> ss_shutdown (sq_state sq')"
proof -
  note p = seq_inv_landing [OF inv]
  have by_worker: ?thesis if "flight sq \<noteq> []"
  proof -
    from worker_moves [OF inv e np that] obtain i sq' where w: "worker_step cfg i PutOk sq = Some sq'" "\<not> panicked sq'" by blast
    moreover have "windows_begun sq' = windows_begun sq" "ss_shutdown (sq_state sq')"
      using worker_step_frame [OF w(1)] assms(4) by (simp_all add: windows_begun_def)
    ultimately show ?thesis using worker_step_less [OF w(1)] seq_step.work by (metis order_refl)
  qed
  have by_flusher: ?thesis if step: "flusher_step ext shard cfg sq = Some sq'" for sq'
  proof -
    have "sq_workers sq' = sq_workers sq" "windows_begun sq' \<le> windows_begun sq" "ss_shutdown (sq_state sq')"
      using step assms(4) by (cases rule: flusher_step_cases; simp add: windows_begun_def)+
    with np flusher_step_less [OF step] seq_step.flush [OF step] show ?thesis by (auto simp: panicked_def)
  qed
  show ?thesis
  proof (cases "sq_flusher sq")
    case FlLoop
    then have "\<exists>sq'. flusher_step ext shard cfg sq = Some sq'"
      using assms(4) by (auto simp: flusher_step_def flusher_close_def close_now_def Let_def split: option.splits)
    with by_flusher show ?thesis by blast
  next
    case (FlBuild b seq prev)
    obtain seg ts where "build_segment ext shard seq prev b = Ok (seg, ts)" by (rule build_segment_ok)
    then have "\<exists>sq'. flusher_step ext shard cfg sq = Some sq'"
      by (simp add: flusher_step_def FlBuild flusher_build_def Let_def)
    with by_flusher show ?thesis by blast
  next
    case (FlAdmit d)
    show ?thesis
    proof (cases "flight sq = []")
      case True
      then have "unat (la_outstanding (sq_lander sq)) < cf_inflight cfg"
        using p(1) assms(6) by (simp add: inv_flight_def sending_def FlAdmit)
      then have "\<exists>sq'. flusher_step ext shard cfg sq = Some sq'"
        by (simp add: flusher_step_def FlAdmit flusher_admit_def lander_admit_def)
      with by_flusher show ?thesis by blast
    qed (rule by_worker)
  next
    case (FlSend d)
    have "length (sq_chan sq) < cf_inflight cfg"
      using p(1) by (simp add: inv_flight_def sending_def FlSend flight_def)
    then have "\<exists>sq'. flusher_step ext shard cfg sq = Some sq'"
      by (simp add: flusher_step_def FlSend flusher_send_def)
    with by_flusher show ?thesis by blast
  next
    case FlDrain
    show ?thesis
    proof (cases "flight sq = []")
      case True
      then have "unat (la_outstanding (sq_lander sq)) = 0"
        using p(1) by (simp add: inv_flight_def sending_def FlDrain)
      then have "\<exists>sq'. flusher_step ext shard cfg sq = Some sq'"
        by (simp add: flusher_step_def FlDrain flusher_drain_def wait_drained_def word_less_nat_alt)
      with by_flusher show ?thesis by blast
    qed (rule by_worker)
  qed (use assms(5) in blast)
qed

text \<open>So a shutdown comes to its end, along steps that lower what is left to do.\<close>

lemma drain_reaches_end:
  assumes "seq_reach ext shard cfg first digest sq" "ss_shutdown (sq_state sq)" "\<not> panicked sq"
  shows "\<exists>sq'. (seq_step ext shard cfg)\<^sup>*\<^sup>* sq sq' \<and> seq_reach ext shard cfg first digest sq' \<and> sq_flusher sq' = FlDone"
  using assms
proof (induction "work_left sq" arbitrary: sq rule: less_induct)
  case less
  show ?case
  proof (cases "sq_flusher sq = FlDone")
    case True
    with less.prems show ?thesis by blast
  next
    case False
    have lim: "1 \<le> cf_inflight cfg" using less.prems(1)
      by (induction rule: seq_reach.induct) (auto simp: resume_def split: if_splits)
    note inv = seq_reach_inv [OF less.prems(1)]
    from drain_progress [OF inv seq_reach_end [OF less.prems(1)] less.prems(3,2) False lim]
    obtain sq' where s: "seq_step ext shard cfg sq sq'" "work_left sq' < work_left sq" "\<not> panicked sq'"
      "windows_begun sq' \<le> windows_begun sq" "ss_shutdown (sq_state sq')" by blast
    have "seq_room first sq'" using inv s(4) by (simp add: seq_inv_def seq_room_def)
    then have "seq_reach ext shard cfg first digest sq'" by (rule seq_reach.step [OF less.prems(1) s(1)])
    from less.hyps [OF s(2) this s(5,3)] s(1) show ?thesis by (meson converse_rtranclp_into_rtranclp)
  qed
qed

end
