(* ===== verification/Sequencer_Properties.thy ===== *)
theory Sequencer_Properties
  imports Sequencer_Drain
begin

text \<open>
  What the group commit promises: acks follow the durable chain, a crash leaves stragglers only
  a bounded way past the first hole, a closed sequencer has answered every append, and a
  writer that has been superseded cannot get another frame into the chain.
\<close>

section \<open>Stragglers\<close>

definition building :: "sequencer \<Rightarrow> nat" where
  "building sq = (case sq_flusher sq of FlBuild _ _ _ \<Rightarrow> 1 | _ \<Rightarrow> 0)"

text \<open>Once a window has failed no further one is begun, so the chain ends within the limit of the
  last durable prefix.\<close>

definition inv_tail :: "seq_config \<Rightarrow> u64 \<Rightarrow> sequencer \<Rightarrow> bool" where
  "inv_tail cfg first sq \<longleftrightarrow>
     (la_failed (sq_lander sq) \<longrightarrow>
       (\<exists>k. (\<forall>i < k. bt_get (sq_durable sq) (first + of_nat i) \<noteq> None) \<and>
            length (sq_windows sq) + building sq \<le> k + cf_inflight cfg + 1))"

lemma inv_tail_keep:
  assumes "inv_tail cfg first sq" "la_failed (sq_lander sq') \<Longrightarrow> la_failed (sq_lander sq)"
    and "\<And>q. bt_get (sq_durable sq) q \<noteq> None \<Longrightarrow> bt_get (sq_durable sq') q \<noteq> None"
    and "la_failed (sq_lander sq) \<Longrightarrow> length (sq_windows sq') + building sq' \<le> length (sq_windows sq) + building sq"
  shows "inv_tail cfg first sq'"
  using assms unfolding inv_tail_def by (meson le_trans)

text \<open>When a window fails, the windows before it are durable and those after it are few.\<close>

lemma inv_tail_fresh:
  assumes "inv_flight cfg first sq" "inv_ack cfg first k sq" "\<not> la_failed (sq_lander sq)"
    and "sq_durable sq' = sq_durable sq" "sq_windows sq' = sq_windows sq" "building sq' \<le> building sq"
  shows "inv_tail cfg first sq'"
proof -
  have "\<forall>i < resolved first sq. bt_get (sq_durable sq') (first + of_nat i) \<noteq> None"
    using assms(2-4) by (auto simp: inv_ack_def)
  moreover have "length (sq_windows sq') + building sq' \<le> resolved first sq + cf_inflight cfg + 1"
  proof -
    have "\<not> cut_off first sq" using assms(3) by (simp add: cut_off_def)
    then have "resolved first sq + length (flight sq) \<le> length (sq_windows sq)"
      "length (pending sq) = length (sq_windows sq) - (resolved first sq + length (flight sq))"
      "length (flight sq) \<le> cf_inflight cfg"
      using assms(1) by (auto simp: inv_flight_def)
    moreover have "length (pending sq) + building sq \<le> 1"
      by (auto simp: pending_def building_def split: flusher.splits)
    ultimately show ?thesis using assms(5,6) by simp
  qed
  ultimately show ?thesis unfolding inv_tail_def by blast
qed

lemma inv_tail_turn:
  assumes ok: "landing_ok ext shard cfg first digest sq" and T: "inv_tail cfg first sq"
  shows "inv_tail cfg first (lander_resolve cfg q d r sq)"
proof (cases "la_failed (sq_lander sq)")
  case True
  then show ?thesis by (intro inv_tail_keep [OF T]) (simp_all add: seq_frame building_def)
next
  case False
  from ok obtain k where "inv_flight cfg first sq" "inv_ack cfg first k sq"
    by (auto simp: landing_ok_def inv_landing_def)
  from inv_tail_fresh [OF this False] show ?thesis by (simp add: seq_frame building_def)
qed

lemma lander_loop_tail:
  assumes "landing_ok ext shard cfg first digest sq" "inv_tail cfg first sq"
  shows "inv_tail cfg first (lander_loop cfg sq)"
proof -
  have "landing_ok ext shard cfg first digest (lander_loop cfg sq) \<and> inv_tail cfg first (lander_loop cfg sq)"
    by (rule lander_loop_keeps [where P = "\<lambda>sq. landing_ok ext shard cfg first digest sq \<and> inv_tail cfg first sq"])
      (use assms landing_ok_turn inv_tail_turn in blast)+
  then show ?thesis ..
qed

lemma inv_tail_step:
  assumes inv: "seq_inv ext shard cfg first digest sq" and T: "inv_tail cfg first sq"
    and step: "seq_step ext shard cfg sq sq'"
  shows "inv_tail cfg first sq'"
proof -
  note p = seq_inv_landing [OF inv]
  from inv obtain k where A: "inv_ack cfg first k sq" by (auto simp: seq_inv_def)
  show ?thesis
    using step
  proof cases
    case (append gate frames r)
    then show ?thesis using seq_append_frame [OF append] by (intro inv_tail_keep [OF T]) (simp_all add: building_def)
  next
    case (work i act)
    then show ?thesis
    proof (cases rule: worker_step_cases)
      case (complete d r)
      have "inv_tail cfg first (sq\<lparr>sq_workers := (sq_workers sq)[i := WIdle],
          sq_lander := (sq_lander sq)\<lparr>la_parked := bt_insert (di_seq d) (d, r) (la_parked (sq_lander sq))\<rparr>\<rparr>)"
        by (intro inv_tail_keep [OF T]) (simp_all add: building_def)
      then show ?thesis unfolding complete(3) by (rule lander_loop_tail [OF landing_ok_park [OF inv complete(1,2)]])
    qed (intro inv_tail_keep [OF T]; fastforce simp: building_def bt_get_insert dest: put_segment_cases)+
  next
    case flush
    then show ?thesis
    proof (cases rule: flusher_step_cases)
      case (close b)
      then show ?thesis using A by (intro inv_tail_keep [OF T]) (auto simp: inv_ack_def)
    next
      case (send_failed d)
      then have b: "building sq' = building sq" by (simp add: building_def)
      show ?thesis
      proof (cases "la_failed (sq_lander sq)")
        case True
        then show ?thesis using b by (intro inv_tail_keep [OF T]) (simp_all add: send_failed)
      next
        case False
        then show ?thesis by (rule inv_tail_fresh [OF p(1) A]) (simp_all add: send_failed b building_def)
      qed
    qed (intro inv_tail_keep [OF T]; simp add: building_def)+
  qed (intro inv_tail_keep [OF T]; simp add: building_def begin_shutdown_def)+
qed

lemma seq_reach_tail: "seq_reach ext shard cfg first digest sq \<Longrightarrow> inv_tail cfg first sq"
proof (induction rule: seq_reach.induct)
  case (init sq)
  then show ?case by (auto simp: inv_tail_def resume_def split: if_splits)
next
  case (step sq sq')
  then show ?case using inv_tail_step [OF seq_reach_inv [OF step(1)]] by blast
qed

section \<open>Epochs\<close>

definition inv_epochs :: "sequencer \<Rightarrow> bool" where
  "inv_epochs sq \<longleftrightarrow>
     (\<forall>fs \<in> set (sq_appends sq). \<forall>f \<in> set fs.
        \<exists>e. tenant_epoch (fr_tenant f) sq = Some e \<and> fr_writer_epoch f \<le> e) \<and>
     (\<forall>i j. i < j \<longrightarrow> j < length (sq_appends sq) \<longrightarrow>
        (\<forall>f \<in> set (sq_appends sq ! i). \<forall>g \<in> set (sq_appends sq ! j).
           fr_tenant f = fr_tenant g \<longrightarrow> fr_writer_epoch f \<le> fr_writer_epoch g))"

lemma raise_epochs_mono: "bt_get m t = Some e \<Longrightarrow> \<exists>e' \<ge> e. bt_get (raise_epochs ss m) t = Some e'"
proof (induction ss m arbitrary: e rule: raise_epochs.induct)
  case (2 s ss m)
  let ?t = "fr_tenant (st_frame s)" and ?e = "fr_writer_epoch (st_frame s)"
  let ?known = "case bt_get m ?t of Some known \<Rightarrow> known | None \<Rightarrow> ?e"
  let ?m = "bt_insert ?t (max ?known ?e) m"
  have "\<exists>e' \<ge> e. bt_get ?m t = Some e'" using 2(2) by (auto simp: bt_get_insert)
  then obtain e' where e': "e \<le> e'" "bt_get ?m t = Some e'" by blast
  from 2(1) [OF refl refl refl e'(2)] e'(1) show ?case by (auto simp: Let_def intro: order_trans)
qed auto

lemma raise_epochs_covers:
  "s \<in> set ss \<Longrightarrow> \<exists>e \<ge> fr_writer_epoch (st_frame s). bt_get (raise_epochs ss m) (fr_tenant (st_frame s)) = Some e"
proof (induction ss m rule: raise_epochs.induct)
  case (2 s' ss m)
  let ?t = "fr_tenant (st_frame s')" and ?e = "fr_writer_epoch (st_frame s')"
  let ?known = "case bt_get m ?t of Some known \<Rightarrow> known | None \<Rightarrow> ?e"
  let ?m = "bt_insert ?t (max ?known ?e) m"
  show ?case
  proof (cases "s = s'")
    case True
    have "bt_get ?m ?t = Some (max ?known ?e)" by (simp add: bt_get_insert)
    from raise_epochs_mono [OF this, of ss] True show ?thesis by (auto simp: Let_def)
  next
    case False
    with 2(1) [OF refl refl refl] 2(2) show ?thesis by (simp add: Let_def)
  qed
qed simp

lemma check_epochs_Ok:
  "check_epochs m ss = Ok () \<Longrightarrow> s \<in> set ss \<Longrightarrow> bt_get m (fr_tenant (st_frame s)) = Some e \<Longrightarrow> e \<le> fr_writer_epoch (st_frame s)"
  by (induction ss) (auto split: option.splits if_splits)

lemma inv_epochs_append:
  assumes inv: "inv_epochs sq" and "seq_append ext gate frames sq = (r, sq')"
  shows "inv_epochs sq'"
  using assms(2)
proof (cases rule: seq_append_cases)
  case refused
  with inv show ?thesis by simp
next
  case (staged ss b)
  have frames: "\<exists>s \<in> set ss. st_frame s = f" if "f \<in> set frames" for f
    using that stage_frames_frames [OF staged(2)] by auto
  have ep: "tenant_epoch t sq' = bt_get (raise_epochs ss (ss_epochs (sq_state sq))) t" for t
    by (simp add: tenant_epoch_def staged(8))
  have "\<exists>e. tenant_epoch (fr_tenant f) sq' = Some e \<and> fr_writer_epoch f \<le> e"
    if "fs \<in> set (sq_appends sq')" "f \<in> set fs" for fs f
  proof (cases "fs = frames")
    case True
    with frames that obtain s where "s \<in> set ss" "st_frame s = f" by blast
    with raise_epochs_covers [OF this(1)] show ?thesis unfolding ep by metis
  next
    case False
    with that have "fs \<in> set (sq_appends sq)" by (auto simp: staged(8))
    with inv that obtain e where e: "tenant_epoch (fr_tenant f) sq = Some e" "fr_writer_epoch f \<le> e"
      unfolding inv_epochs_def by blast
    with raise_epochs_mono [of "ss_epochs (sq_state sq)" "fr_tenant f" e ss] show ?thesis
      unfolding ep by (auto simp: tenant_epoch_def intro: order_trans)
  qed
  moreover have "fr_writer_epoch f \<le> fr_writer_epoch g"
    if "i < j" "j < length (sq_appends sq')" "f \<in> set (sq_appends sq' ! i)" "g \<in> set (sq_appends sq' ! j)"
      "fr_tenant f = fr_tenant g" for i j f g
  proof (cases "j < length (sq_appends sq)")
    case True
    with inv that show ?thesis unfolding inv_epochs_def by (auto simp: staged(8) nth_append)
  next
    case False
    with that have g: "g \<in> set frames" "f \<in> set (sq_appends sq ! i)" "i < length (sq_appends sq)"
      by (auto simp: staged(8) nth_append less_Suc_eq)
    then obtain e where e: "tenant_epoch (fr_tenant f) sq = Some e" "fr_writer_epoch f \<le> e"
      using inv nth_mem [OF g(3)] unfolding inv_epochs_def by blast
    from frames [OF g(1)] obtain s where "s \<in> set ss" "st_frame s = g" by blast
    with check_epochs_Ok [OF staged(5)] e that(5) show ?thesis by (auto simp: tenant_epoch_def intro: order_trans)
  qed
  ultimately show ?thesis unfolding inv_epochs_def by blast
qed

lemma seq_reach_epochs: "seq_reach ext shard cfg first digest sq \<Longrightarrow> inv_epochs sq"
proof (induction rule: seq_reach.induct)
  case (init sq)
  then show ?case by (auto simp: inv_epochs_def resume_def split: if_splits)
next
  case (step sq sq')
  from step(2) show ?case
  proof cases
    case (append gate frames r)
    then show ?thesis by (rule inv_epochs_append [OF step.IH])
  next
    case flush
    then show ?thesis
      by (cases rule: flusher_step_cases) (use step.IH in \<open>simp_all add: inv_epochs_def tenant_epoch_def\<close>)
  next
    case (work i act)
    then show ?thesis using step.IH worker_step_frame [OF work] by (simp add: inv_epochs_def tenant_epoch_def)
  qed (use step.IH in \<open>simp_all add: inv_epochs_def tenant_epoch_def begin_shutdown_def\<close>)
qed

text \<open>The frames of a batch are its appends' frames, and the windows hold the appends in order.\<close>

lemma batch_holds_in:
  assumes "batch_holds ext appends b" "(t, l) \<in> set (ba_tickets b)"
  shows "l = Max (fr_end_lsn ` set (appends ! t))" "set (appends ! t) \<subseteq> st_frame ` set (ba_frames b)"
proof -
  obtain sss where sss: "ba_frames b = concat sss" "list_all2 (\<lambda>(t, l) ss. t < length appends \<and> appends ! t \<noteq> [] \<and>
      stage_frames ext (appends ! t) = Ok ss \<and> l = Max (fr_end_lsn ` set (appends ! t))) (ba_tickets b) sss"
    using assms(1) unfolding batch_holds_def by blast
  obtain n where n: "n < length (ba_tickets b)" "ba_tickets b ! n = (t, l)" using assms(2) by (metis in_set_conv_nth)
  define ss where "ss = sss ! n"
  have ss: "ss \<in> set sss" "stage_frames ext (appends ! t) = Ok ss" "l = Max (fr_end_lsn ` set (appends ! t))"
    using list_all2_nthD [OF sss(2) n(1)] list_all2_lengthD [OF sss(2)] n by (auto simp: ss_def)
  then show "l = Max (fr_end_lsn ` set (appends ! t))" by simp
  have "set (appends ! t) = st_frame ` set ss" using stage_frames_frames [OF ss(2)] by (metis set_map)
  with ss(1) show "set (appends ! t) \<subseteq> st_frame ` set (ba_frames b)" by (auto simp: sss(1))
qed

lemma batch_frames_from:
  assumes "batch_holds ext appends b" "s \<in> set (ba_frames b)"
  obtains t l where "(t, l) \<in> set (ba_tickets b)" "t < length appends" "st_frame s \<in> set (appends ! t)"
proof -
  obtain sss where sss: "ba_frames b = concat sss" "list_all2 (\<lambda>(t, l) ss. t < length appends \<and> appends ! t \<noteq> [] \<and>
      stage_frames ext (appends ! t) = Ok ss \<and> l = Max (fr_end_lsn ` set (appends ! t))) (ba_tickets b) sss"
    using assms(1) unfolding batch_holds_def by blast
  then obtain n where n: "n < length sss" "s \<in> set (sss ! n)" using assms(2) by (auto simp: in_set_conv_nth [of _ sss])
  obtain t l where tl: "ba_tickets b ! n = (t, l)" by fastforce
  with sss(2) n have "t < length appends" "stage_frames ext (appends ! t) = Ok (sss ! n)" "(t, l) \<in> set (ba_tickets b)"
    by (auto simp: list_all2_conv_all_nth) (metis nth_mem)
  moreover from this(2) n have "st_frame s \<in> set (appends ! t)" using stage_frames_frames by (metis imageI set_map)
  ultimately show thesis using that by blast
qed

lemma ids_ordered:
  "sorted_wrt (<) (ids_of bs) \<Longrightarrow> i < j \<Longrightarrow> j < length bs \<Longrightarrow>
   t \<in> fst ` set (ba_tickets (bs ! i)) \<Longrightarrow> u \<in> fst ` set (ba_tickets (bs ! j)) \<Longrightarrow> t < u"
proof (induction bs arbitrary: i j)
  case (Cons b bs)
  have tail: "sorted_wrt (<) (ids_of bs)" using Cons.prems(1) by (simp add: sorted_wrt_append)
  obtain j' where j': "j = Suc j'" using Cons.prems(2) by (cases j) auto
  show ?case
  proof (cases i)
    case 0
    have "u \<in> set (ids_of bs)" unfolding in_ids_of using Cons.prems(3,5) j' by auto
    with Cons.prems(1,4) 0 show ?thesis by (auto simp: sorted_wrt_append)
  next
    case (Suc i')
    with Cons.IH [OF tail, of i' j'] Cons.prems j' show ?thesis by simp
  qed
qed simp

lemma straggler_bound:
  assumes "seq_reach ext shard cfg first digest sq"
    and hole: "bt_get (sq_durable sq) (first + of_nat hole) = None" and q: "bt_get (sq_durable sq) q \<noteq> None"
  shows "unat q \<le> unat first + hole + cf_inflight cfg" "unat q \<le> unat first + hole + MAX_INFLIGHT"
proof -
  note inv = seq_reach_inv [OF assms(1)] and T = seq_reach_tail [OF assms(1)]
  note p = seq_inv_landing [OF inv]
  from inv obtain k where A: "inv_ack cfg first k sq" by (auto simp: seq_inv_def)
  from q p(6) obtain i where i: "i < resolved first sq + length (flight sq)" "i < length (sq_windows sq)" "q = first + of_nat i"
    unfolding inv_durable_def by blast
  have "q = wi_seq (sq_windows sq ! i)" using p(3) i by (simp add: chain_from_def)
  then have nat: "unat q = unat first + i" using chain_unat [OF p(3,4) i(2)] by simp
  have "i \<le> hole + cf_inflight cfg"
  proof (cases "la_failed (sq_lander sq)")
    case True
    with T obtain m where m: "\<forall>j < m. bt_get (sq_durable sq) (first + of_nat j) \<noteq> None"
      "length (sq_windows sq) + building sq \<le> m + cf_inflight cfg + 1" unfolding inv_tail_def by blast
    have "m \<le> hole" using m(1) hole by (metis not_le)
    with m(2) i(2) show ?thesis by simp
  next
    case False
    then have "\<forall>j < resolved first sq. bt_get (sq_durable sq) (first + of_nat j) \<noteq> None"
      using A by (auto simp: inv_ack_def)
    then have "resolved first sq \<le> hole" using hole by (metis not_le)
    moreover have "length (flight sq) \<le> cf_inflight cfg" using p(1) by (simp add: inv_flight_def)
    ultimately show ?thesis using i(1) by simp
  qed
  with nat show "unat q \<le> unat first + hole + cf_inflight cfg" by simp
  with p(1) show "unat q \<le> unat first + hole + MAX_INFLIGHT" by (simp add: inv_flight_def)
qed

section \<open>A run\<close>

definition sample_config :: seq_config where
  "sample_config = default_config\<lparr>cf_inflight := 1, cf_tee := True\<rparr>"

text \<open>One append, closed by a shutdown, built, sent, landed and acked.\<close>

lemma sample_run:
  "\<exists>staged acked. seq_reach sample_ext 3 sample_config 1 0 staged \<and> sq_appends staged = [[sample_frame]] \<and>
     ss_shutdown (sq_state staged) \<and> \<not> panicked staged \<and> sq_cells staged = [None] \<and>
     seq_reach sample_ext 3 sample_config 1 0 acked \<and> sq_appends acked = [[sample_frame]] \<and>
     sq_cells acked = [Some (Ok (fr_end_lsn sample_frame))] \<and> length (sq_windows acked) = 1 \<and>
     bt_get (sq_durable acked) 2 = None \<and> length (wi_segment (sq_windows acked ! 0)) < 2 ^ 32"
proof -
  obtain bs where bs: "frame_encode sample_ext sample_frame = Ok bs"
    using frame_roundtrip_aux [OF sample_ext_faithful sample_ext_bounded sample_frame_ok] by auto
  let ?s = "\<lparr>st_frame = sample_frame, st_wire = bs\<rparr>"
  let ?l = "fr_end_lsn sample_frame"
  let ?b = "\<lparr>ba_frames = [?s], ba_bytes = length bs, ba_opened = 0, ba_tickets = [(0, ?l)]\<rparr>"
  define s0 where "s0 =
        \<lparr>sq_state = \<lparr>ss_batch = None, ss_epochs = [], ss_next_seq = 1, ss_prev_digest = 0,
                     ss_poisoned = False, ss_shutdown = False\<rparr>,
         sq_lander = \<lparr>la_next_ack = 1, la_parked = [], la_failed = False, la_outstanding = 0\<rparr>,
         sq_cells = [], sq_tee = [], sq_flusher = FlLoop, sq_chan = [], sq_tx_open = True,
         sq_workers = [WIdle], sq_durable = [], sq_now = 0, sq_windows = [], sq_appends = []\<rparr>"
  have r0: "seq_reach sample_ext 3 sample_config 1 0 s0"
    by (rule seq_reach.init) (simp add: resume_def sample_config_def default_config_def MAX_INFLIGHT_def s0_def)
  define s1 where "s1 = s0\<lparr>sq_state := (sq_state s0)\<lparr>ss_batch := Some ?b,
      ss_epochs := [(fr_tenant sample_frame, fr_writer_epoch sample_frame)]\<rparr>,
    sq_cells := [None], sq_appends := [[sample_frame]]\<rparr>"
  have "seq_append sample_ext None [sample_frame] s0 = (Ok 0, s1)"
    by (simp add: seq_append_def bs s0_def s1_def bt_get_def Let_def)
  then have r1: "seq_reach sample_ext 3 sample_config 1 0 s1"
    by (intro seq_reach.step [OF r0 seq_step.append]) (auto simp: seq_room_def windows_begun_def s1_def s0_def)
  define s2 where "s2 = s1\<lparr>sq_state := (sq_state s1)\<lparr>ss_shutdown := True\<rparr>\<rparr>"
  have r2: "seq_reach sample_ext 3 sample_config 1 0 s2"
    using seq_reach.step [OF r1 seq_step.shutdown]
    by (simp add: begin_shutdown_def s2_def seq_room_def windows_begun_def s1_def s0_def)
  define s3 where "s3 = s2\<lparr>sq_state := (sq_state s2)\<lparr>ss_batch := None\<rparr>, sq_flusher := FlBuild ?b 1 0\<rparr>"
  have "flusher_step sample_ext 3 sample_config s2 = Some s3"
    by (simp add: flusher_step_def flusher_close_def close_now_def s3_def s2_def s1_def s0_def Let_def)
  then have r3: "seq_reach sample_ext 3 sample_config 1 0 s3"
    by (intro seq_reach.step [OF r2 seq_step.flush]) (auto simp: seq_room_def windows_begun_def s3_def s2_def s1_def s0_def)
  obtain seg ts where seg: "build_segment sample_ext 3 1 0 ?b = Ok (seg, ts)" by (rule build_segment_ok)
  have "length bs \<le> 100" using frame_encode_length [OF bs] by (simp add: sample_frame_def)
  with segment_finish_bound [of "[?s]" 100 sample_ext
      "\<lparr>sg_kind = Landing, sg_shard = 3, sg_seq = 1, sg_prev_digest = 0\<rparr>"] seg
  have small: "length seg < 2 ^ 32" by (auto simp: build_segment_def)
  let ?d = "\<lparr>di_seq = 1, di_segment = seg, di_frames = [sample_frame], di_tickets = [(0, ?l)]\<rparr>"
  let ?w = "\<lparr>wi_seq = 1, wi_prev = 0, wi_batch = ?b, wi_segment = seg, wi_digest = tenants_digest sample_ext ts\<rparr>"
  define s4 where "s4 = s3\<lparr>sq_state := (sq_state s3)\<lparr>ss_next_seq := 2, ss_prev_digest := tenants_digest sample_ext ts\<rparr>,
      sq_flusher := FlAdmit ?d, sq_windows := [?w]\<rparr>"
  have "flusher_step sample_ext 3 sample_config s3 = Some s4"
    by (simp add: flusher_step_def flusher_build_def seg s4_def s3_def s2_def s1_def s0_def Let_def sample_config_def)
  then have r4: "seq_reach sample_ext 3 sample_config 1 0 s4"
    by (intro seq_reach.step [OF r3 seq_step.flush]) (auto simp: seq_room_def windows_begun_def s4_def s3_def s2_def s1_def s0_def)
  define s5 where "s5 = s4\<lparr>sq_lander := (sq_lander s4)\<lparr>la_outstanding := 1\<rparr>, sq_flusher := FlSend ?d\<rparr>"
  have "flusher_step sample_ext 3 sample_config s4 = Some s5"
    by (simp add: flusher_step_def flusher_admit_def lander_admit_def s5_def s4_def s3_def s2_def s1_def s0_def sample_config_def)
  then have r5: "seq_reach sample_ext 3 sample_config 1 0 s5"
    by (intro seq_reach.step [OF r4 seq_step.flush]) (auto simp: seq_room_def windows_begun_def s5_def s4_def s3_def s2_def s1_def s0_def)
  define s6 where "s6 = s5\<lparr>sq_chan := [?d], sq_flusher := FlLoop\<rparr>"
  have "flusher_step sample_ext 3 sample_config s5 = Some s6"
    by (simp add: flusher_step_def flusher_send_def receiver_gone_def s6_def s5_def s4_def s3_def s2_def s1_def s0_def sample_config_def)
  then have r6: "seq_reach sample_ext 3 sample_config 1 0 s6"
    by (intro seq_reach.step [OF r5 seq_step.flush]) (auto simp: seq_room_def windows_begun_def s6_def s5_def s4_def s3_def s2_def s1_def s0_def)
  note defs = s6_def s5_def s4_def s3_def s2_def s1_def s0_def
  define s7 where "s7 = s6\<lparr>sq_chan := [], sq_workers := [WPutting ?d]\<rparr>"
  have "worker_step sample_config 0 PutOk s6 = Some s7" by (simp add: worker_step_def s7_def defs)
  then have r7: "seq_reach sample_ext 3 sample_config 1 0 s7"
    by (intro seq_reach.step [OF r6 seq_step.work]) (auto simp: seq_room_def windows_begun_def s7_def defs)
  define s8 where "s8 = s7\<lparr>sq_durable := [(1, seg)], sq_workers := [WLanded ?d (Ok ())]\<rparr>"
  have "worker_step sample_config 0 PutOk s7 = Some s8" by (simp add: worker_step_def put_segment_def s8_def s7_def defs)
  then have r8: "seq_reach sample_ext 3 sample_config 1 0 s8"
    by (intro seq_reach.step [OF r7 seq_step.work]) (auto simp: seq_room_def windows_begun_def s8_def s7_def defs)
  define s9 where "s9 = s8\<lparr>sq_workers := [WIdle], sq_cells := [Some (Ok ?l)], sq_tee := [(1, [sample_frame])],
      sq_lander := (sq_lander s8)\<lparr>la_next_ack := 2, la_outstanding := 0\<rparr>\<rparr>"
  have "worker_step sample_config 0 PutOk s8 = Some s9"
    by (simp add: worker_step_def lander_complete_def lander_loop.simps lander_resolve_def bt_remove_def resolve_all_def resolve_def
        s9_def s8_def s7_def defs sample_config_def Let_def)
  then have r9: "seq_reach sample_ext 3 sample_config 1 0 s9"
    by (intro seq_reach.step [OF r8 seq_step.work]) (auto simp: seq_room_def windows_begun_def s9_def s8_def s7_def defs)
  have "sq_appends s2 = [[sample_frame]] \<and> ss_shutdown (sq_state s2) \<and> \<not> panicked s2 \<and> sq_cells s2 = [None]"
    by (simp add: s2_def s1_def s0_def panicked_def)
  moreover have "sq_appends s9 = [[sample_frame]] \<and> sq_cells s9 = [Some (Ok ?l)] \<and> length (sq_windows s9) = 1 \<and>
      bt_get (sq_durable s9) 2 = None \<and> length (wi_segment (sq_windows s9 ! 0)) < 2 ^ 32"
    using small by (simp add: s9_def s8_def s7_def defs bt_get_def)
  ultimately show ?thesis using r2 r9 by blast
qed

section \<open>Properties\<close>

text \<open>C3. Acks follow the durable chain: the windows an ack was given for are a prefix of the chain of
  windows, whose segments link by their digests and are all durable. An append is acked exactly when
  it sits in that prefix, with the last position of its frames, and the tee saw exactly that
  prefix in order. So no append is acked before its own segment and every one in front of it is
  durable, whatever order the puts return in.
\<close>

theorem acks_follow_chain:
  assumes "seq_reach ext shard cfg first digest sq"
  shows "\<exists>k \<le> length (sq_windows sq). chain_from ext shard first digest (sq_windows sq) \<and>
    (\<forall>i < k. bt_get (sq_durable sq) (first + of_nat i) = Some (wi_segment (sq_windows sq ! i))) \<and>
    (\<forall>t < length (sq_cells sq). \<forall>l. try_wait t sq = Some (Ok l) \<longleftrightarrow>
       (\<exists>i < k. (t, l) \<in> set (ba_tickets (wi_batch (sq_windows sq ! i))) \<and>
          set (sq_appends sq ! t) \<subseteq> st_frame ` set (ba_frames (wi_batch (sq_windows sq ! i))) \<and>
          l = Max (fr_end_lsn ` set (sq_appends sq ! t)))) \<and>
    sq_tee sq = (if cf_tee cfg then map tee_entry (take k (sq_windows sq)) else [])"
proof -
  note inv = seq_reach_inv [OF assms]
  note p = seq_inv_landing [OF inv]
  from inv obtain k where A: "inv_ack cfg first k sq" by (auto simp: seq_inv_def)
  have len: "k \<le> length (sq_windows sq)" using A by (simp add: inv_ack_def)
  have "\<exists>i < k. (t, l) \<in> set (ba_tickets (wi_batch (sq_windows sq ! i))) \<and>
          set (sq_appends sq ! t) \<subseteq> st_frame ` set (ba_frames (wi_batch (sq_windows sq ! i))) \<and>
          l = Max (fr_end_lsn ` set (sq_appends sq ! t))"
    if "t < length (sq_cells sq)" "try_wait t sq = Some (Ok l)" for t l
  proof -
    from acked_window [OF inv A that(1)] that(2) obtain i where
      i: "i < k" "(t, l) \<in> set (ba_tickets (wi_batch (sq_windows sq ! i)))" by (auto simp: try_wait_def)
    have "batch_holds ext (sq_appends sq) (wi_batch (sq_windows sq ! i))"
      using p(5) i(1) len by (auto simp: inv_tickets_def batches_def)
    from batch_holds_in [OF this i(2)] i show ?thesis by blast
  qed
  moreover have "try_wait t sq = Some (Ok l)" if "i < k" "(t, l) \<in> set (ba_tickets (wi_batch (sq_windows sq ! i)))" for t l i
    using inv_ackD(1) [OF A that(2,1)] by (simp add: try_wait_def)
  moreover have "sq_tee sq = (if cf_tee cfg then map tee_entry (take k (sq_windows sq)) else [])"
    using A by (simp add: inv_ack_def)
  ultimately show ?thesis using p(3) len acked_durable [OF inv A] by blast
qed

theorem acks_follow_chain_witness:
  "\<exists>sq. seq_reach sample_ext 3 sample_config 1 0 sq \<and> try_wait 0 sq = Some (Ok 0x180) \<and>
     bt_get (sq_durable sq) 1 \<noteq> None \<and> length (sq_tee sq) = 1"
proof -
  from sample_run obtain sq where r: "seq_reach sample_ext 3 sample_config 1 0 sq" "length (sq_windows sq) = 1"
    "sq_cells sq = [Some (Ok (fr_end_lsn sample_frame))]" by blast
  from r(3) have ack: "try_wait 0 sq = Some (Ok 0x180)" by (simp add: try_wait_def sample_frame_def)
  from acks_follow_chain [OF r(1)] obtain k where k: "k \<le> 1"
    "\<forall>i < k. bt_get (sq_durable sq) (1 + of_nat i) = Some (wi_segment (sq_windows sq ! i))"
    "\<forall>l. try_wait 0 sq = Some (Ok l) \<longrightarrow> (\<exists>i. i < k)" "length (sq_tee sq) = k"
    using r(2,3) by (fastforce simp: sample_config_def)
  with ack have "k = 1" by fastforce
  with k ack r(1) show ?thesis by auto
qed

text \<open>C11. A crash leaves stragglers only a bounded way past the first hole: at most the configured
  number of windows, which is at most the cap, is dispatched and unresolved, a send into the
  channel never waits for room, and whenever a chain position is not durable no position more than
  that number past it is, also after a failed put.
\<close>

theorem stragglers_bounded:
  assumes "seq_reach ext shard cfg first digest sq"
  shows "unat (la_outstanding (sq_lander sq)) \<le> cf_inflight cfg \<and> cf_inflight cfg \<le> MAX_INFLIGHT \<and>
    (\<forall>d. sq_flusher sq = FlSend d \<longrightarrow> length (sq_chan sq) < cf_inflight cfg) \<and>
    (\<forall>hole q. bt_get (sq_durable sq) (first + of_nat hole) = None \<longrightarrow> bt_get (sq_durable sq) q \<noteq> None \<longrightarrow>
       unat q \<le> unat first + hole + cf_inflight cfg)"
proof -
  note p = seq_inv_landing [OF seq_reach_inv [OF assms]]
  have "unat q \<le> unat first + hole + cf_inflight cfg"
    if "bt_get (sq_durable sq) (first + of_nat hole) = None" "bt_get (sq_durable sq) q \<noteq> None" for hole q
    using straggler_bound(1) [OF assms that] .
  moreover have "length (sq_chan sq) < cf_inflight cfg" if "sq_flusher sq = FlSend d" for d
    using p(1) that by (simp add: inv_flight_def sending_def flight_def)
  ultimately show ?thesis using p(1) by (simp add: inv_flight_def)
qed

theorem stragglers_bounded_witness:
  "\<exists>sq. seq_reach sample_ext 3 sample_config 1 0 sq \<and> bt_get (sq_durable sq) 2 = None \<and>
     unat (la_outstanding (sq_lander sq)) \<le> 1 \<and> (\<forall>q. bt_get (sq_durable sq) q \<noteq> None \<longrightarrow> unat q \<le> 3)"
proof -
  from sample_run obtain sq where r: "seq_reach sample_ext 3 sample_config 1 0 sq" "bt_get (sq_durable sq) 2 = None"
    by blast
  from stragglers_bounded [OF r(1)]
  have "unat (la_outstanding (sq_lander sq)) \<le> cf_inflight sample_config"
    "bt_get (sq_durable sq) (1 + of_nat 1) = None \<longrightarrow> bt_get (sq_durable sq) q \<noteq> None \<longrightarrow>
       unat q \<le> unat (1 :: u64) + 1 + cf_inflight sample_config" for q by blast+
  with r show ?thesis by (intro exI [of _ sq]) (simp add: sample_config_def numeral_3_eq_3)
qed

text \<open>C12. Closing answers every append: after the shutdown began, every step lowers what is left to do or
  only lets time pass, as long as no put panicked some thread can move until the flusher has
  returned, and when it has, every ticket is resolved, with the ack or with the failure.
\<close>

theorem close_answers_all:
  assumes "seq_reach ext shard cfg first digest sq" "ss_shutdown (sq_state sq)"
  shows "(\<forall>sq'. seq_step ext shard cfg sq sq' \<longrightarrow> work_left sq' < work_left sq \<or> sq' = sq\<lparr>sq_now := sq_now sq'\<rparr>) \<and>
    (\<not> panicked sq \<longrightarrow> (\<exists>sq'. (seq_step ext shard cfg)\<^sup>*\<^sup>* sq sq' \<and> seq_reach ext shard cfg first digest sq' \<and>
       sq_flusher sq' = FlDone)) \<and>
    (\<not> panicked sq \<and> sq_flusher sq \<noteq> FlDone \<longrightarrow> (\<exists>sq'. seq_step ext shard cfg sq sq' \<and> work_left sq' < work_left sq)) \<and>
    (sq_flusher sq = FlDone \<longrightarrow> (\<forall>t < length (sq_cells sq). try_wait t sq \<noteq> None))"
proof -
  have "1 \<le> cf_inflight cfg" using assms(1)
    by (induction rule: seq_reach.induct) (auto simp: resume_def split: if_splits)
  with drain_progress [OF seq_reach_inv [OF assms(1)] seq_reach_end [OF assms(1)] _ assms(2)]
  have "\<not> panicked sq \<and> sq_flusher sq \<noteq> FlDone \<longrightarrow> (\<exists>sq'. seq_step ext shard cfg sq sq' \<and> work_left sq' < work_left sq)"
    by blast
  then show ?thesis
    using shutdown_step_less [OF _ assms(2)] drain_reaches_end [OF assms] done_resolved [OF assms(1)]
    by (auto simp: try_wait_def)
qed

theorem close_answers_all_witness:
  "\<exists>sq sq'. seq_reach sample_ext 3 sample_config 1 0 sq \<and> sq_cells sq = [None] \<and>
     (seq_step sample_ext 3 sample_config)\<^sup>*\<^sup>* sq sq' \<and> sq_flusher sq' = FlDone"
proof -
  from sample_run obtain sq where r: "seq_reach sample_ext 3 sample_config 1 0 sq" "ss_shutdown (sq_state sq)"
    "\<not> panicked sq" "sq_cells sq = [None]" by blast
  from close_answers_all [OF r(1,2)] r(3) obtain sq' where
    "(seq_step sample_ext 3 sample_config)\<^sup>*\<^sup>* sq sq'" "sq_flusher sq' = FlDone" by blast
  with r show ?thesis by blast
qed

text \<open>C15. A superseded writer is fenced: an append that carries a frame of an older epoch than one already
  accepted for its tenant stages nothing and is refused, and along the chain of windows the
  epochs of a tenant's frames never go down from one window to a later one.
\<close>

theorem stale_epochs_fenced:
  assumes "seq_reach ext shard cfg first digest sq"
  shows "(\<forall>gate frames r sq'. seq_append ext gate frames sq = (r, sq') \<longrightarrow>
       (\<exists>f \<in> set frames. \<exists>fs \<in> set (sq_appends sq). \<exists>g \<in> set fs.
          fr_tenant g = fr_tenant f \<and> fr_writer_epoch f < fr_writer_epoch g) \<longrightarrow>
       sq' = sq \<and> (\<forall>t. r \<noteq> Ok t)) \<and>
    (\<forall>i j f g. i < j \<longrightarrow> j < length (sq_windows sq) \<longrightarrow> f \<in> st_frame ` set (ba_frames (wi_batch (sq_windows sq ! i))) \<longrightarrow>
       g \<in> st_frame ` set (ba_frames (wi_batch (sq_windows sq ! j))) \<longrightarrow> fr_tenant f = fr_tenant g \<longrightarrow>
       fr_writer_epoch f \<le> fr_writer_epoch g)"
proof -
  note E = seq_reach_epochs [OF assms] and p = seq_inv_landing [OF seq_reach_inv [OF assms]]
  have "sq' = sq \<and> (\<forall>t. r \<noteq> Ok t)" if "seq_append ext gate frames sq = (r, sq')"
    and stale: "f \<in> set frames" "fs \<in> set (sq_appends sq)" "g \<in> set fs" "fr_tenant g = fr_tenant f"
      "fr_writer_epoch f < fr_writer_epoch g" for gate frames r sq' f fs g
    using that(1)
  proof (cases rule: seq_append_cases)
    case (staged ss b)
    obtain e where e: "tenant_epoch (fr_tenant g) sq = Some e" "fr_writer_epoch g \<le> e"
      using E stale unfolding inv_epochs_def by blast
    obtain s where "s \<in> set ss" "st_frame s = f" using stale(1) stage_frames_frames [OF staged(2)] by auto
    with check_epochs_Ok [OF staged(5)] e stale have "e \<le> fr_writer_epoch f" by (auto simp: tenant_epoch_def)
    with e(2) stale(5) show ?thesis by simp
  qed blast
  moreover have "fr_writer_epoch f \<le> fr_writer_epoch g"
    if ij: "i < j" "j < length (sq_windows sq)" and f: "f \<in> st_frame ` set (ba_frames (wi_batch (sq_windows sq ! i)))"
      and g: "g \<in> st_frame ` set (ba_frames (wi_batch (sq_windows sq ! j)))" and "fr_tenant f = fr_tenant g" for i j f g
  proof -
    have holds: "batch_holds ext (sq_appends sq) (wi_batch (sq_windows sq ! n))" if "n < length (sq_windows sq)" for n
      using p(5) that by (auto simp: inv_tickets_def batches_def)
    have source: "\<exists>t. t \<in> fst ` set (ba_tickets (wi_batch (sq_windows sq ! n))) \<and> t < length (sq_appends sq) \<and> h \<in> set (sq_appends sq ! t)"
      if n: "n < length (sq_windows sq)" and h: "h \<in> st_frame ` set (ba_frames (wi_batch (sq_windows sq ! n)))" for n h
    proof -
      from h obtain s where s: "s \<in> set (ba_frames (wi_batch (sq_windows sq ! n)))" "h = st_frame s" by blast
      obtain t l where "(t, l) \<in> set (ba_tickets (wi_batch (sq_windows sq ! n)))" "t < length (sq_appends sq)"
        "st_frame s \<in> set (sq_appends sq ! t)"
        by (rule batch_frames_from [OF holds [OF n] s(1)])
      with s(2) show ?thesis by (metis fst_conv imageI)
    qed
    from source [OF _ f] ij obtain t where
      t: "t \<in> fst ` set (ba_tickets (wi_batch (sq_windows sq ! i)))" "f \<in> set (sq_appends sq ! t)" by auto
    from source [OF _ g] ij obtain u where
      u: "u \<in> fst ` set (ba_tickets (wi_batch (sq_windows sq ! j)))" "g \<in> set (sq_appends sq ! u)" "u < length (sq_appends sq)" by auto
    have nth: "batches sq ! n = wi_batch (sq_windows sq ! n)" "n < length (batches sq)" if "n < length (sq_windows sq)" for n
      using that by (simp_all add: batches_def nth_append)
    have "sorted_wrt (<) (ids_of (batches sq))" using p(5) by (simp add: inv_tickets_def)
    from ids_ordered [OF this ij(1), of t u] have "t < u" using ij t(1) u(1) nth [of i] nth [of j] by simp
    with E t u that(5) show ?thesis unfolding inv_epochs_def by blast
  qed
  ultimately show ?thesis by blast
qed

theorem stale_epochs_fenced_witness:
  "\<exists>sq. seq_reach sample_ext 3 sample_config 1 0 sq \<and>
     snd (seq_append sample_ext None [sample_frame\<lparr>fr_writer_epoch := 2\<rparr>] sq) = sq"
proof -
  from sample_run obtain sq where r: "seq_reach sample_ext 3 sample_config 1 0 sq" "sq_appends sq = [[sample_frame]]" by blast
  obtain a sq' where a: "seq_append sample_ext None [sample_frame\<lparr>fr_writer_epoch := 2\<rparr>] sq = (a, sq')" by fastforce
  have "fr_writer_epoch (sample_frame\<lparr>fr_writer_epoch := 2\<rparr>) < fr_writer_epoch sample_frame" by (simp add: sample_frame_def)
  with stale_epochs_fenced [OF r(1)] a r(2) have "sq' = sq" by fastforce
  with a r(1) show ?thesis by auto
qed

end
