(* ===== verification/Fallible_State.thy ===== *)
theory Fallible_State
  imports Zou_Prelude
begin

text \<open>
  Calls that may fail and that change a state: on a store, or on the cursor of a parser. \<open>?\<close> is \<open>sbind\<close>; the
  state is kept when a call fails.
\<close>

type_synonym ('a, 'e, 's) sop = "'s \<Rightarrow> ('a, 'e) outcome \<times> 's"

definition sret :: "('a, 'e) outcome \<Rightarrow> ('a, 'e, 's) sop" where
  "sret x s = (x, s)"

definition sbind :: "('a, 'e, 's) sop \<Rightarrow> ('a \<Rightarrow> ('b, 'e, 's) sop) \<Rightarrow> ('b, 'e, 's) sop" where
  "sbind m f s =
     (case m s of
        (Ok x, s) \<Rightarrow> f x s
      | (Err e, s) \<Rightarrow> (Err e, s)
      | (Panic, s) \<Rightarrow> (Panic, s))"

definition smap_err :: "('e \<Rightarrow> 'f) \<Rightarrow> ('a, 'e, 's) sop \<Rightarrow> ('a, 'f, 's) sop" where
  "smap_err g m s = (case m s of (x, s) \<Rightarrow> (map_err g x, s))"

lemma sret_simps [simp]: "sbind (sret (Ok x)) f = f x" "sbind (sret (Err e)) f = sret (Err e)" "sbind (sret Panic) f = sret Panic"
  by (simp_all add: sbind_def sret_def fun_eq_iff)

lemma sbind_step: "m s = (Ok x, s') \<Longrightarrow> sbind m f s = f x s'"
  by (simp add: sbind_def)

lemma smap_err_Ok: "m s = (Ok x, s') \<Longrightarrow> smap_err g m s = (Ok x, s')"
  by (simp add: smap_err_def)

lemma sbind_Ok: "sbind m f s = (Ok y, s') \<longleftrightarrow> (\<exists>x t. m s = (Ok x, t) \<and> f x t = (Ok y, s'))"
  by (auto simp: sbind_def split: outcome.splits prod.splits)

end
