(* ===== verification/Wal_Media.thy ===== *)
theory Wal_Media
  imports Cas_Store Fallible_State
begin

text \<open>
  The media a shard's log lands on (crates/zou-log/src/media.rs): one bucket, or two fast buckets
  and the standard one of which any two decide. The three stores act on one state of any type.
  The writer's quorum runs its puts in threads: a schedule says in which order they finish, when
  the hedge delay passes and what everyone else does meanwhile, so that the definitions
  cover every interleaving.
\<close>

section \<open>Media\<close>

definition segment_key :: "u32 \<Rightarrow> u64 \<Rightarrow> string" where
  "segment_key shard seq =
     ''cellwal/'' @ pad 4 (num_text False 16 (unat shard)) @ ''/'' @ pad 16 (num_text False 16 (unat seq))"

definition DEFAULT_HEDGE_AFTER :: nat where
  "DEFAULT_HEDGE_AFTER = 15000000"

datatype durability_mode = Standard | ExpressDual

datatype seal_outcome = Sealed | Occupied

datatype 's wal_media =
  MSingle "'s cas_store"
| MDual "'s cas_store" "'s cas_store" "'s cas_store" nat

definition manifest_store :: "'s wal_media \<Rightarrow> 's cas_store" where
  "manifest_store media = (case media of MSingle store \<Rightarrow> store | MDual _ _ standard _ \<Rightarrow> standard)"

text \<open>A put whose key must be free, as a vote: won, lost to someone, or failed.\<close>

definition vote :: "'s cas_store \<Rightarrow> string \<Rightarrow> bytes \<Rightarrow> (bool, cas_error, 's) sop" where
  "vote st key data s =
     (case put_if_absent st key data s of
        (Ok _, s) \<Rightarrow> (Ok True, s)
      | (Err (AlreadyExists _), s) \<Rightarrow> (Ok False, s)
      | (Err e, s) \<Rightarrow> (Err e, s)
      | (Panic, s) \<Rightarrow> (Panic, s))"

definition seal_of :: "bool \<Rightarrow> seal_outcome" where
  "seal_of won = (if won then Sealed else Occupied)"

definition media_seal :: "'s wal_media \<Rightarrow> u32 \<Rightarrow> u64 \<Rightarrow> bytes \<Rightarrow> (seal_outcome, cas_error, 's) sop" where
  "media_seal media shard seq data =
     (let key = segment_key shard seq
      in case media of
           MSingle store \<Rightarrow> sbind (vote store key data) (\<lambda>won. sret (Ok (seal_of won)))
         | MDual az1 az2 standard _ \<Rightarrow>
             sbind (vote az1 key data) (\<lambda>w1.
             sbind (vote az2 key data) (\<lambda>w2.
             if w1 \<and> w2 then sret (Ok Sealed)
             else if w1 \<or> w2 then sbind (vote standard key data) (\<lambda>won. sret (Ok (seal_of won)))
             else sret (Ok Occupied))))"

definition media_present :: "'s wal_media \<Rightarrow> u32 \<Rightarrow> u64 \<Rightarrow> (bool, cas_error, 's) sop" where
  "media_present media shard seq =
     (let key = segment_key shard seq
      in case media of
           MSingle store \<Rightarrow> sbind (get_range store key 0 1) (\<lambda>r. sret (Ok (r \<noteq> None)))
         | MDual az1 az2 standard _ \<Rightarrow>
             sbind (get_range az1 key 0 28) (\<lambda>a.
             sbind (get_range az2 key 0 28) (\<lambda>b.
             if a \<noteq> None \<and> a = b then sret (Ok True)
             else if a = None \<and> b = None then sret (Ok False)
             else sbind (get_range standard key 0 28) (\<lambda>s.
                  sret (Ok (s \<noteq> None \<and> (a = s \<or> b = s)))))))"

definition media_delete :: "'s wal_media \<Rightarrow> u32 \<Rightarrow> u64 \<Rightarrow> (unit, cas_error, 's) sop" where
  "media_delete media shard seq =
     (let key = segment_key shard seq
      in case media of
           MSingle store \<Rightarrow> cs_delete store key
         | MDual az1 az2 standard _ \<Rightarrow>
             sbind (cs_delete az1 key) (\<lambda>_. sbind (cs_delete az2 key) (\<lambda>_. cs_delete standard key)))"

definition media_fetch :: "'s wal_media \<Rightarrow> u32 \<Rightarrow> u64 \<Rightarrow> (bytes option, cas_error, 's) sop" where
  "media_fetch media shard seq =
     (let key = segment_key shard seq
      in case media of
           MSingle store \<Rightarrow> sbind (cs_get store key) (\<lambda>r. sret (Ok (map_option fst r)))
         | MDual az1 az2 standard _ \<Rightarrow>
             sbind (cs_get az1 key) (\<lambda>r. let a = map_option fst r in
             sbind (cs_get az2 key) (\<lambda>r. let b = map_option fst r in
             if a \<noteq> None \<and> a = b then sret (Ok a)
             else if a = None \<and> b = None then sret (Ok None)
             else sbind (cs_get standard key) (\<lambda>r. let s = map_option fst r in
                  sret (Ok (if s \<noteq> None \<and> s = a then a
                            else if s \<noteq> None \<and> s = b then b
                            else None))))))"

section \<open>The writer's quorum\<close>

text \<open>Where the loop of \<open>put_quorum\<close> stands.\<close>

record quorum =
  qu_outstanding :: nat
  qu_successes :: nat
  qu_hedged :: bool
  qu_first_err :: "cas_error option"

datatype medium = Az1 | Az2 | Std

text \<open>What happens next while the loop runs: a launched put takes effect and sends its result,
  the loop receives one, the hedge delay passes, or something else happens to the stores.\<close>

datatype 's quorum_event =
  Land medium
| Recv
| HedgeTimeout
| Elsewhere "'s \<Rightarrow> 's"

definition quorum_start :: quorum where
  "quorum_start = \<lparr>qu_outstanding = 2, qu_successes = 0, qu_hedged = False, qu_first_err = None\<rparr>"

text \<open>One received result: go on, perhaps having launched the standard put, or return.\<close>

definition quorum_recv :: "(version, cas_error) outcome \<Rightarrow> quorum \<Rightarrow> quorum + (unit, cas_error) outcome" where
  "quorum_recv result q =
     (let q = q\<lparr>qu_outstanding := qu_outstanding q - 1\<rparr>
      in case result of
           Ok _ \<Rightarrow>
             let q = q\<lparr>qu_successes := qu_successes q + 1\<rparr>
             in if qu_successes q \<ge> 2 then Inr (Ok ()) else Inl q
         | Err (AlreadyExists k) \<Rightarrow> Inr (Err (AlreadyExists k))
         | Err e \<Rightarrow>
             let q = q\<lparr>qu_first_err := (case qu_first_err q of None \<Rightarrow> Some e | x \<Rightarrow> x)\<rparr>
             in Inl (if qu_hedged q then q
                     else q\<lparr>qu_outstanding := qu_outstanding q + 1, qu_hedged := True\<rparr>)
         | Panic \<Rightarrow> Inr Panic)"

definition quorum_hedge :: "quorum \<Rightarrow> quorum" where
  "quorum_hedge q = q\<lparr>qu_outstanding := qu_outstanding q + 1, qu_hedged := True\<rparr>"

text \<open>The puts that are launched and have not taken effect.\<close>

definition under_way :: "medium list \<Rightarrow> quorum \<Rightarrow> medium list" where
  "under_way landed q = filter (\<lambda>m. m \<notin> set landed) ([Az1, Az2] @ (if qu_hedged q then [Std] else []))"

definition medium_of :: "'s cas_store \<Rightarrow> 's cas_store \<Rightarrow> 's cas_store \<Rightarrow> medium \<Rightarrow> 's cas_store" where
  "medium_of az1 az2 standard m = (case m of Az1 \<Rightarrow> az1 | Az2 \<Rightarrow> az2 | Std \<Rightarrow> standard)"

text \<open>The loop along a schedule, with the media whose put took effect and the results sent and not
  yet received. It returned, with the result and the puts still under way, which may take effect
  later; or it waits when the schedule ends; or the schedule is none, as a put takes effect
  once and only when launched. A \<open>recv\<close> cannot find the channel closed, since the loop holds a
  sender.\<close>

datatype 's quorum_run =
  Returned "(unit, cas_error) outcome" 's "medium list"
| Waiting "medium list" "(version, cas_error) outcome list" quorum 's
| NoSchedule

fun quorum_loop ::
  "(medium \<Rightarrow> 's cas_store) \<Rightarrow> string \<Rightarrow> bytes \<Rightarrow> 's quorum_event list \<Rightarrow> medium list \<Rightarrow>
   (version, cas_error) outcome list \<Rightarrow> quorum \<Rightarrow> 's \<Rightarrow> 's quorum_run" where
  "quorum_loop st key data evs landed sent q s =
     (if qu_outstanding q = 0
      then Returned (case qu_first_err q of Some e \<Rightarrow> Err e | None \<Rightarrow> Panic) s (under_way landed q)
      else
        case evs of
          [] \<Rightarrow> Waiting landed sent q s
        | Elsewhere f # evs \<Rightarrow> quorum_loop st key data evs landed sent q (f s)
        | HedgeTimeout # evs \<Rightarrow>
            if qu_hedged q then NoSchedule else quorum_loop st key data evs landed sent (quorum_hedge q) s
        | Land m # evs \<Rightarrow>
            if m \<notin> set (under_way landed q) then NoSchedule
            else
              (case put_if_absent (st m) key data s of
                 (result, s) \<Rightarrow> quorum_loop st key data evs (m # landed) (sent @ [result]) q s)
        | Recv # evs \<Rightarrow>
            (case sent of
               [] \<Rightarrow> NoSchedule
             | result # sent \<Rightarrow>
                 (case quorum_recv result q of
                    Inl q \<Rightarrow> quorum_loop st key data evs landed sent q s
                  | Inr r \<Rightarrow> Returned r s (under_way landed q))))"

declare quorum_loop.simps [simp del]

definition put_quorum ::
  "(medium \<Rightarrow> 's cas_store) \<Rightarrow> string \<Rightarrow> bytes \<Rightarrow> 's quorum_event list \<Rightarrow> 's \<Rightarrow> 's quorum_run" where
  "put_quorum st key data evs s = quorum_loop st key data evs [] [] quorum_start s"

definition media_put ::
  "'s wal_media \<Rightarrow> u32 \<Rightarrow> u64 \<Rightarrow> bytes \<Rightarrow> 's quorum_event list \<Rightarrow> 's \<Rightarrow> 's quorum_run" where
  "media_put media shard seq segment evs s =
     (let key = segment_key shard seq
      in case media of
           MSingle store \<Rightarrow>
             (case put_if_absent store key segment s of (r, s) \<Rightarrow> Returned (obind r (\<lambda>_. Ok ())) s [])
         | MDual az1 az2 standard _ \<Rightarrow> put_quorum (medium_of az1 az2 standard) key segment evs s)"

end
