(* ===== verification/Wal_Media_Proofs.thy ===== *)
theory Wal_Media_Proofs
  imports Wal_Media
begin

text \<open>
  Who owns a chain position on three media: the bytes that two of them hold. The locale states what the
  quorum needs of its stores: a put into a free key wins or fails, a lost put means the
  key is taken, and no store touches another's objects. The interpretation is three memory stores.
\<close>

section \<open>Owners\<close>

definition owns :: "(medium \<Rightarrow> 's \<Rightarrow> string \<Rightarrow> bytes option) \<Rightarrow> 's \<Rightarrow> string \<Rightarrow> bytes \<Rightarrow> bool" where
  "owns obj s key d \<longleftrightarrow> (\<exists>m n. m \<noteq> n \<and> obj m s key = Some d \<and> obj n s key = Some d)"

lemma medium_cases: "m = Az1 \<or> m = Az2 \<or> m = Std" by (cases m) auto

lemma owns_unique: "owns obj s key d \<Longrightarrow> owns obj s key e \<Longrightarrow> d = e"
proof -
  assume "owns obj s key d" "owns obj s key e"
  then obtain m n m' n' where "m \<noteq> n" "obj m s key = Some d" "obj n s key = Some d"
    "m' \<noteq> n'" "obj m' s key = Some e" "obj n' s key = Some e" by (auto simp: owns_def)
  then show "d = e" by (cases m; cases n; cases m'; cases n') auto
qed

text \<open>What everyone keeps of a key while nobody deletes under it: objects stay.\<close>

definition stays :: "(medium \<Rightarrow> 's \<Rightarrow> string \<Rightarrow> bytes option) \<Rightarrow> string \<Rightarrow> 's \<Rightarrow> 's \<Rightarrow> bool" where
  "stays obj key s t \<longleftrightarrow> (\<forall>m d. obj m s key = Some d \<longrightarrow> obj m t key = Some d)"

lemma stays_refl [simp]: "stays obj key s s" by (simp add: stays_def)

lemma stays_trans: "stays obj key s t \<Longrightarrow> stays obj key t u \<Longrightarrow> stays obj key s u" by (simp add: stays_def)

lemma owns_stays: "owns obj s key d \<Longrightarrow> stays obj key s t \<Longrightarrow> owns obj t key d"
  unfolding owns_def stays_def by blast

definition keeps_key :: "(medium \<Rightarrow> 's \<Rightarrow> string \<Rightarrow> bytes option) \<Rightarrow> string \<Rightarrow> 's quorum_event list \<Rightarrow> bool" where
  "keeps_key obj key evs \<longleftrightarrow> (\<forall>f. Elsewhere f \<in> set evs \<longrightarrow> (\<forall>s. stays obj key s (f s)))"

locale three_media =
  fixes st :: "medium \<Rightarrow> 's cas_store"
    and obj :: "medium \<Rightarrow> 's \<Rightarrow> string \<Rightarrow> bytes option"
  assumes get_law: "cs_get (st m) key s = (r, s') \<Longrightarrow>
      r \<noteq> Panic \<and> (\<forall>n. obj n s' = obj n s) \<and> (\<forall>x. r = Ok x \<longrightarrow> map_option fst x = obj m s key)"
    and put_law: "put_if_absent (st m) key data s = (w, s') \<Longrightarrow>
      w \<noteq> Panic \<and> (\<forall>n k. n \<noteq> m \<or> k \<noteq> key \<longrightarrow> obj n s' k = obj n s k) \<and>
      (obj m s' key = obj m s key \<or> obj m s key = None \<and> obj m s' key = Some data) \<and>
      (\<forall>v. w = Ok v \<longrightarrow> obj m s key = None \<and> obj m s' key = Some data) \<and>
      (\<forall>k. w = Err (AlreadyExists k) \<longrightarrow> obj m s key \<noteq> None)"
begin

lemma put_stays: "put_if_absent (st m) key data s = (w, s') \<Longrightarrow> stays obj k s s'"
proof -
  assume "put_if_absent (st m) key data s = (w, s')"
  from put_law [OF this] have "obj n s' k = Some d" if "obj n s k = Some d" for n d
    using that by (cases "n = m \<and> k = key") auto
  then show "stays obj k s s'" by (simp add: stays_def)
qed

lemma put_wins: "put_if_absent (st m) key data s = (Ok v, s') \<Longrightarrow> obj m s' key = Some data"
  using put_law by blast

text \<open>The invariant of the writer's loop: what was received is what was launched less what is
  outstanding, each success stands for a medium that holds the bytes, and an error launched the
  standard put.\<close>

definition quorum_ok :: "string \<Rightarrow> bytes \<Rightarrow> 's \<Rightarrow> medium list \<Rightarrow> (version, cas_error) outcome list \<Rightarrow> quorum \<Rightarrow> bool" where
  "quorum_ok key data s landed sent q \<longleftrightarrow>
     distinct landed \<and> (Std \<in> set landed \<longrightarrow> qu_hedged q) \<and> Panic \<notin> set sent \<and> qu_successes q \<le> 1 \<and>
     (\<exists>wins. distinct wins \<and> set wins \<subseteq> set landed \<and> (\<forall>m \<in> set wins. obj m s key = Some data) \<and>
        length wins = qu_successes q + length (filter (\<lambda>r. \<exists>v. r = Ok v) sent)) \<and>
     (\<exists>fails. length landed = length sent + qu_successes q + fails \<and>
        qu_outstanding q + qu_successes q + fails = (if qu_hedged q then 3 else 2) \<and>
        (0 < fails \<longleftrightarrow> qu_first_err q \<noteq> None) \<and> (0 < fails \<longrightarrow> qu_hedged q))"

lemma length_under_way:
  assumes "distinct landed" "Std \<in> set landed \<longrightarrow> qu_hedged q"
  shows "length (under_way landed q) + length landed = (if qu_hedged q then 3 else 2)"
proof -
  let ?all = "[Az1, Az2] @ (if qu_hedged q then [Std] else [])"
  have "set landed \<subseteq> set ?all" using assms(2) medium_cases by fastforce
  moreover have "length (under_way landed q) + length (filter (\<lambda>m. m \<in> set landed) ?all) = length ?all"
    using sum_length_filter_compl [of "\<lambda>m. m \<in> set landed" ?all] by (simp add: under_way_def)
  moreover have "length (filter (\<lambda>m. m \<in> set landed) ?all) = length landed"
  proof -
    have "distinct (filter (\<lambda>m. m \<in> set landed) ?all)" by (rule distinct_filter) simp
    then have "length (filter (\<lambda>m. m \<in> set landed) ?all) = card (set landed \<inter> set ?all)"
      by (metis distinct_card inter_set_filter Int_commute)
    also have "set landed \<inter> set ?all = set landed" using calculation \<open>set landed \<subseteq> set ?all\<close> by blast
    finally show ?thesis using assms(1) by (simp add: distinct_card)
  qed
  ultimately show ?thesis by auto
qed

text \<open>One step at a time: a put takes effect, a result is received, the delay passes, others act.\<close>

lemma quorum_ok_land:
  assumes "quorum_ok key data s landed sent q" "m \<in> set (under_way landed q)"
    and put: "put_if_absent (st m) key data s = (w, s')"
  shows "quorum_ok key data s' (m # landed) (sent @ [w]) q"
proof -
  from assms(1) obtain wins fails where w: "distinct wins" "set wins \<subseteq> set landed" "\<forall>m \<in> set wins. obj m s key = Some data"
    "length wins = qu_successes q + length (filter (\<lambda>r. \<exists>v. r = Ok v) sent)"
    and f: "length landed = length sent + qu_successes q + fails"
      "qu_outstanding q + qu_successes q + fails = (if qu_hedged q then 3 else 2)"
      "0 < fails \<longleftrightarrow> qu_first_err q \<noteq> None" "0 < fails \<longrightarrow> qu_hedged q"
    by (auto simp: quorum_ok_def)
  have m: "m \<notin> set landed" "m = Std \<longrightarrow> qu_hedged q" using assms(2) by (auto simp: under_way_def split: if_splits)
  have keep: "\<forall>n \<in> set wins. obj n s' key = Some data" using w(3) put_stays [OF put] by (auto simp: stays_def)
  define wins' where "wins' = (if \<exists>v. w = Ok v then m # wins else wins)"
  have "distinct wins'" "set wins' \<subseteq> set (m # landed)" "\<forall>n \<in> set wins'. obj n s' key = Some data"
    "length wins' = qu_successes q + length (filter (\<lambda>r. \<exists>v. r = Ok v) (sent @ [w]))"
    using w m(1) keep put_wins put by (auto simp: wins'_def)
  then have "\<exists>wins. distinct wins \<and> set wins \<subseteq> set (m # landed) \<and> (\<forall>m \<in> set wins. obj m s' key = Some data) \<and>
        length wins = qu_successes q + length (filter (\<lambda>r. \<exists>v. r = Ok v) (sent @ [w]))" by blast
  moreover have "\<exists>fails. length (m # landed) = length (sent @ [w]) + qu_successes q + fails \<and>
        qu_outstanding q + qu_successes q + fails = (if qu_hedged q then 3 else 2) \<and>
        (0 < fails \<longleftrightarrow> qu_first_err q \<noteq> None) \<and> (0 < fails \<longrightarrow> qu_hedged q)"
    using f by (intro exI [of _ fails]) simp
  moreover have "w \<noteq> Panic" using put_law [OF put] by blast
  ultimately show ?thesis using assms(1) m unfolding quorum_ok_def by simp
qed

lemma quorum_ok_elsewhere: "quorum_ok key data s landed sent q \<Longrightarrow> stays obj key s s' \<Longrightarrow> quorum_ok key data s' landed sent q"
  unfolding quorum_ok_def stays_def by blast

lemma quorum_ok_hedge:
  assumes "quorum_ok key data s landed sent q" "\<not> qu_hedged q"
  shows "quorum_ok key data s landed sent (quorum_hedge q)"
  using assms unfolding quorum_ok_def quorum_hedge_def by auto

lemma quorum_ok_recv:
  assumes "quorum_ok key data s landed (w # sent) q" "quorum_recv w q = Inl q'" "0 < qu_outstanding q"
  shows "quorum_ok key data s landed sent q'"
proof -
  from assms(1) obtain wins fails where w: "distinct wins" "set wins \<subseteq> set landed" "\<forall>m \<in> set wins. obj m s key = Some data"
    "length wins = qu_successes q + length (filter (\<lambda>r. \<exists>v. r = Ok v) (w # sent))"
    and f: "length landed = length (w # sent) + qu_successes q + fails"
      "qu_outstanding q + qu_successes q + fails = (if qu_hedged q then 3 else 2)"
      "0 < fails \<longleftrightarrow> qu_first_err q \<noteq> None" "0 < fails \<longrightarrow> qu_hedged q"
    and p: "distinct landed" "Std \<in> set landed \<longrightarrow> qu_hedged q" "Panic \<notin> set (w # sent)" "qu_successes q \<le> 1"
    unfolding quorum_ok_def by blast
  show ?thesis
  proof (cases w)
    case (Ok v)
    then have q': "q' = q\<lparr>qu_outstanding := qu_outstanding q - 1, qu_successes := qu_successes q + 1\<rparr>" "qu_successes q + 1 < 2"
      using assms(2) by (auto simp: quorum_recv_def Let_def split: if_splits)
    have "\<exists>wins. distinct wins \<and> set wins \<subseteq> set landed \<and> (\<forall>m \<in> set wins. obj m s key = Some data) \<and>
        length wins = qu_successes q' + length (filter (\<lambda>r. \<exists>v. r = Ok v) sent)"
      using w Ok q' by (intro exI [of _ wins]) simp
    moreover have "\<exists>fails. length landed = length sent + qu_successes q' + fails \<and>
        qu_outstanding q' + qu_successes q' + fails = (if qu_hedged q' then 3 else 2) \<and>
        (0 < fails \<longleftrightarrow> qu_first_err q' \<noteq> None) \<and> (0 < fails \<longrightarrow> qu_hedged q')"
      using f q' assms(3) by (intro exI [of _ fails]) auto
    ultimately show ?thesis using p q' by (simp add: quorum_ok_def)
  next
    case (Err e)
    then have q': "qu_successes q' = qu_successes q" "qu_hedged q'" "qu_first_err q' \<noteq> None"
      "qu_outstanding q' = qu_outstanding q - (if qu_hedged q then 1 else 0)"
      using assms(2,3) by (auto simp: quorum_recv_def Let_def split: if_splits cas_error.splits option.splits)
    have "\<exists>wins. distinct wins \<and> set wins \<subseteq> set landed \<and> (\<forall>m \<in> set wins. obj m s key = Some data) \<and>
        length wins = qu_successes q' + length (filter (\<lambda>r. \<exists>v. r = Ok v) sent)"
      using w Err q' by (intro exI [of _ wins]) simp
    moreover have "\<exists>fails. length landed = length sent + qu_successes q' + fails \<and>
        qu_outstanding q' + qu_successes q' + fails = (if qu_hedged q' then 3 else 2) \<and>
        (0 < fails \<longleftrightarrow> qu_first_err q' \<noteq> None) \<and> (0 < fails \<longrightarrow> qu_hedged q')"
      using f q' assms(3) by (intro exI [of _ "Suc fails"]) (auto split: if_splits)
    ultimately show ?thesis using p q' unfolding quorum_ok_def by simp
  next
    case Panic
    with p show ?thesis by simp
  qed
qed

lemma quorum_ok_owns:
  assumes "quorum_ok key data s landed (Ok v # sent) q" "2 \<le> qu_successes q + 1"
  shows "owns obj s key data"
proof -
  from assms(1) obtain wins where w: "distinct wins" "\<forall>m \<in> set wins. obj m s key = Some data"
    "length wins = qu_successes q + length (filter (\<lambda>r. \<exists>v. r = Ok v) (Ok v # sent))"
    unfolding quorum_ok_def by blast
  then have "2 \<le> length wins" using assms(2) by simp
  then obtain m n rest where "wins = m # n # rest" by (cases wins; cases "tl wins") auto
  with w show ?thesis by (auto simp: owns_def)
qed

lemma quorum_recv_returns:
  assumes "quorum_recv w q = Inr r"
  shows "(\<exists>v. w = Ok v \<and> r = Ok () \<and> 2 \<le> qu_successes q + 1) \<or> (\<exists>k. w = Err (AlreadyExists k) \<and> r = Err (AlreadyExists k)) \<or>
    w = Panic \<and> r = Panic"
  using assms by (auto simp: quorum_recv_def Let_def split: outcome.splits cas_error.splits if_splits)

definition run_ok :: "string \<Rightarrow> bytes \<Rightarrow> 's \<Rightarrow> 's quorum_run \<Rightarrow> bool" where
  "run_ok key data s x \<longleftrightarrow>
     (case x of
        Returned r t rest \<Rightarrow> r \<noteq> Panic \<and> (r = Ok () \<longrightarrow> owns obj t key data) \<and> stays obj key s t
      | Waiting landed sent q t \<Rightarrow>
          0 < qu_outstanding q \<and> qu_outstanding q = length sent + length (under_way landed q) \<and> stays obj key s t
      | NoSchedule \<Rightarrow> True)"

lemma run_ok_weaken: "run_ok key data s' x \<Longrightarrow> stays obj key s s' \<Longrightarrow> run_ok key data s x"
  by (auto simp: run_ok_def split: quorum_run.splits intro: stays_trans)

lemma quorum_failed:
  assumes "quorum_ok key data s landed sent q" "qu_outstanding q = 0"
  shows "qu_first_err q \<noteq> None"
proof -
  from assms(1) obtain fails where
    "qu_outstanding q + qu_successes q + fails = (if qu_hedged q then 3 else 2)"
    "0 < fails \<longleftrightarrow> qu_first_err q \<noteq> None" "qu_successes q \<le> 1"
    unfolding quorum_ok_def by blast
  with assms(2) show ?thesis by (auto split: if_splits)
qed

lemma quorum_loop_outcome:
  assumes "quorum_ok key data s landed sent q" "keeps_key obj key evs"
  shows "run_ok key data s (quorum_loop st key data evs landed sent q s)"
  using assms
proof (induction evs arbitrary: landed sent q s)
  case Nil
  from Nil.prems(1) obtain fails where
    f: "length landed = length sent + qu_successes q + fails"
      "qu_outstanding q + qu_successes q + fails = (if qu_hedged q then 3 else 2)"
      and p: "distinct landed" "Std \<in> set landed \<longrightarrow> qu_hedged q"
    unfolding quorum_ok_def by blast
  then show ?case
    using f length_under_way [OF p] quorum_failed [OF Nil.prems(1)]
    by (auto simp: quorum_loop.simps run_ok_def)
next
  case (Cons ev evs)
  note step = quorum_loop.simps [of _ _ _ "_ # _"]
  have fair: "keeps_key obj key evs" using Cons.prems(2) by (simp add: keeps_key_def)
  show ?case
  proof (cases "qu_outstanding q = 0")
    case True
    then show ?thesis using quorum_failed [OF Cons.prems(1)] by (auto simp: step run_ok_def)
  next
    case False
    show ?thesis
    proof (cases ev)
      case (Elsewhere f)
      then have f: "stays obj key s (f s)" using Cons.prems(2) by (simp add: keeps_key_def)
      from run_ok_weaken [OF Cons.IH [OF quorum_ok_elsewhere [OF Cons.prems(1) f] fair] f] show ?thesis
        using False Elsewhere by (simp add: step)
    next
      case HedgeTimeout
      then show ?thesis
        using False Cons.IH [OF quorum_ok_hedge [OF Cons.prems(1)] fair] by (simp add: step run_ok_def)
    next
      case (Land m)
      obtain w s' where put: "put_if_absent (st m) key data s = (w, s')" by fastforce
      show ?thesis
      proof (cases "m \<in> set (under_way landed q)")
        case True
        from run_ok_weaken [OF Cons.IH [OF quorum_ok_land [OF Cons.prems(1) True put] fair] put_stays [OF put]] show ?thesis
          using False Land True put by (simp add: step)
      qed (use False Land in \<open>simp add: step run_ok_def\<close>)
    next
      case Recv
      show ?thesis
      proof (cases "sent = []")
        case True
        then show ?thesis using False Recv by (simp add: step run_ok_def)
      next
        case nonempty: False
        then obtain w sent' where sent: "sent = w # sent'" by (cases sent) auto
        note ok = Cons.prems(1) [unfolded sent]
        show ?thesis
        proof (cases "quorum_recv w q")
          case (Inl q')
          from Cons.IH [OF quorum_ok_recv [OF ok Inl] fair] show ?thesis
            using False Recv sent Inl by (simp add: step)
        next
          case (Inr r)
          have "w \<noteq> Panic" using ok by (auto simp: quorum_ok_def)
          then show ?thesis
            using quorum_recv_returns [OF Inr] quorum_ok_owns [of key data s landed _ sent' q] ok False Recv sent Inr
            by (auto simp: step run_ok_def)
        qed
      qed
    qed
  qed
qed

lemma put_quorum_outcome: "keeps_key obj key evs \<Longrightarrow> run_ok key data s (put_quorum st key data evs s)"
  unfolding put_quorum_def by (rule quorum_loop_outcome) (auto simp: quorum_ok_def quorum_start_def)

section \<open>Sealing and reading\<close>

lemma vote_law:
  assumes "vote (st m) key data s = (r, s')"
  shows "stays obj k s s'" "r = Ok True \<Longrightarrow> obj m s' key = Some data" "r = Ok False \<Longrightarrow> obj m s key \<noteq> None" "r \<noteq> Panic"
    "n \<noteq> m \<Longrightarrow> obj n s' = obj n s"
proof -
  obtain w t where put: "put_if_absent (st m) key data s = (w, t)" by fastforce
  then have "s' = t" using assms by (auto simp: vote_def split: outcome.splits cas_error.splits)
  with put_stays [OF put] show "stays obj k s s'" by simp
  show "r = Ok True \<Longrightarrow> obj m s' key = Some data" "r = Ok False \<Longrightarrow> obj m s key \<noteq> None" "r \<noteq> Panic"
    "n \<noteq> m \<Longrightarrow> obj n s' = obj n s"
    using assms put put_law [OF put] by (auto simp: vote_def fun_eq_iff split: outcome.splits cas_error.splits)
qed

lemma seal_owns:
  assumes "media_seal (MDual (st Az1) (st Az2) (st Std) h) shard seq data s = (Ok Sealed, s')"
  shows "owns obj s' (segment_key shard seq) data" "stays obj (segment_key shard seq) s s'"
proof -
  let ?k = "segment_key shard seq"
  from assms obtain w1 t1 w2 t2 where v: "vote (st Az1) ?k data s = (Ok w1, t1)" "vote (st Az2) ?k data t1 = (Ok w2, t2)"
    and rest: "(if w1 \<and> w2 then sret (Ok Sealed)
             else if w1 \<or> w2 then sbind (vote (st Std) ?k data) (\<lambda>won. sret (Ok (seal_of won)))
             else sret (Ok Occupied)) t2 = (Ok Sealed, s')"
    by (auto simp: media_seal_def Let_def sbind_Ok)
  note a = vote_law [OF v(1)] and b = vote_law [OF v(2)]
  have "w1 \<or> w2" using rest by (auto simp: sret_def split: if_splits)
  show "owns obj s' ?k data" "stays obj ?k s s'"
  proof -
    have *: "owns obj s' ?k data \<and> stays obj ?k s s'"
    proof (cases "w1 \<and> w2")
      case True
      then have "s' = t2" using rest by (simp add: sret_def)
      moreover have "obj Az1 t2 ?k = Some data" using True a(2) b(1) by (auto simp: stays_def)
      moreover have "obj Az2 t2 ?k = Some data" using True b(2) by auto
      ultimately show ?thesis using a(1) b(1) by (auto simp: owns_def intro: stays_trans)
    next
      case False
      with rest \<open>w1 \<or> w2\<close> obtain t3 where c: "vote (st Std) ?k data t2 = (Ok True, t3)" "s' = t3"
        by (auto simp: sbind_Ok sret_def seal_of_def split: if_splits)
      note c' = vote_law [OF c(1)]
      have "\<exists>m. m \<noteq> Std \<and> obj m s' ?k = Some data"
      proof (cases w1)
        case True
        then have "obj Az1 s' ?k = Some data" using a(2) b(1) c'(1) c(2) by (auto simp: stays_def)
        then show ?thesis by blast
      next
        case w1: False
        then have "obj Az2 s' ?k = Some data" using \<open>w1 \<or> w2\<close> b(2) c'(1) c(2) by (auto simp: stays_def)
        then show ?thesis by blast
      qed
      moreover have "obj Std s' ?k = Some data" using c'(2) c(2) by simp
      moreover have "stays obj ?k s s'" using stays_trans [OF a(1) stays_trans [OF b(1) c'(1)]] c(2) by simp
      ultimately show ?thesis by (auto simp: owns_def)
    qed
    then show "owns obj s' ?k data" "stays obj ?k s s'" by auto
  qed
qed

lemma fetch_owner:
  assumes "media_fetch (MDual (st Az1) (st Az2) (st Std) h) shard seq s = (Ok r, s')"
  shows "r = Some d \<longleftrightarrow> owns obj s (segment_key shard seq) d" "obj n s' = obj n s"
proof -
  let ?k = "segment_key shard seq"
  from assms obtain x t1 y t2 where g: "cs_get (st Az1) ?k s = (Ok x, t1)" "cs_get (st Az2) ?k t1 = (Ok y, t2)"
    and rest: "(if map_option fst x \<noteq> None \<and> map_option fst x = map_option fst y then sret (Ok (map_option fst x))
             else if map_option fst x = None \<and> map_option fst y = None then sret (Ok None)
             else sbind (cs_get (st Std) ?k) (\<lambda>z. let c = map_option fst z in
                  sret (Ok (if c \<noteq> None \<and> c = map_option fst x then map_option fst x
                            else if c \<noteq> None \<and> c = map_option fst y then map_option fst y
                            else None)))) t2 = (Ok r, s')"
    unfolding media_fetch_def Let_def wal_media.case sbind_Ok by blast
  have o1: "map_option fst x = obj Az1 s ?k" "\<And>n. obj n t1 = obj n s" using get_law [OF g(1)] by auto
  have o2: "map_option fst y = obj Az2 s ?k" "\<And>n. obj n t2 = obj n s" using get_law [OF g(2)] o1(2) by auto
  have "(r = Some d \<longleftrightarrow> owns obj s ?k d) \<and> obj n s' = obj n s"
  proof (cases "(obj Az1 s ?k \<noteq> None \<and> obj Az1 s ?k = obj Az2 s ?k) \<or> (obj Az1 s ?k = None \<and> obj Az2 s ?k = None)")
    case True
    then have "r = obj Az1 s ?k" "s' = t2" using rest unfolding o1 o2 by (auto simp: sret_def split: if_splits)
    moreover have "owns obj s ?k d \<longleftrightarrow> obj Az1 s ?k = Some d"
    proof
      assume "owns obj s ?k d"
      then obtain m n where "m \<noteq> n" "obj m s ?k = Some d" "obj n s ?k = Some d" by (auto simp: owns_def)
      with True show "obj Az1 s ?k = Some d" by (cases m; cases n) auto
    next
      assume "obj Az1 s ?k = Some d"
      with True have "Az1 \<noteq> Az2 \<and> obj Az1 s ?k = Some d \<and> obj Az2 s ?k = Some d" by auto
      then show "owns obj s ?k d" unfolding owns_def by blast
    qed
    ultimately show ?thesis using o2(2) by auto
  next
    case False
    let ?pick = "\<lambda>c. if c \<noteq> None \<and> c = obj Az1 s ?k then obj Az1 s ?k
                    else if c \<noteq> None \<and> c = obj Az2 s ?k then obj Az2 s ?k else None"
    have split: "\<not> (obj Az1 s ?k \<noteq> None \<and> obj Az1 s ?k = obj Az2 s ?k)" "\<not> (obj Az1 s ?k = None \<and> obj Az2 s ?k = None)"
      using False by blast+
    have "sbind (cs_get (st Std) ?k) (\<lambda>z. sret (Ok (?pick (map_option fst z)))) t2 = (Ok r, s')"
      using rest unfolding o1 o2 Let_def if_not_P [OF split(1)] if_not_P [OF split(2)] .
    then obtain z t3 where g3: "cs_get (st Std) ?k t2 = (Ok z, t3)" "s' = t3"
      and r: "r = ?pick (map_option fst z)"
      unfolding sbind_Ok sret_def by blast
    have c: "map_option fst z = obj Std s ?k" "\<And>n. obj n t3 = obj n s" using get_law [OF g3(1)] o2(2) by auto
    have "owns obj s ?k d \<longleftrightarrow> obj Std s ?k = Some d \<and> (obj Az1 s ?k = Some d \<or> obj Az2 s ?k = Some d)"
    proof
      assume "owns obj s ?k d"
      then obtain m n where "m \<noteq> n" "obj m s ?k = Some d" "obj n s ?k = Some d" by (auto simp: owns_def)
      with False show "obj Std s ?k = Some d \<and> (obj Az1 s ?k = Some d \<or> obj Az2 s ?k = Some d)" by (cases m; cases n) auto
    next
      assume "obj Std s ?k = Some d \<and> (obj Az1 s ?k = Some d \<or> obj Az2 s ?k = Some d)"
      then show "owns obj s ?k d" unfolding owns_def by (metis medium.distinct(3,5))
    qed
    then show ?thesis using r c g3(2) by auto
  qed
  then show "r = Some d \<longleftrightarrow> owns obj s ?k d" "obj n s' = obj n s" by auto
qed

end

section \<open>Three memory stores\<close>

type_synonym tri_store = "mem_store \<times> mem_store \<times> mem_store"

definition tri_get :: "medium \<Rightarrow> tri_store \<Rightarrow> mem_store" where
  "tri_get m s = (case s of (a, b, c) \<Rightarrow> (case m of Az1 \<Rightarrow> a | Az2 \<Rightarrow> b | Std \<Rightarrow> c))"

definition tri_set :: "medium \<Rightarrow> mem_store \<Rightarrow> tri_store \<Rightarrow> tri_store" where
  "tri_set m x s = (case s of (a, b, c) \<Rightarrow> (case m of Az1 \<Rightarrow> (x, b, c) | Az2 \<Rightarrow> (a, x, c) | Std \<Rightarrow> (a, b, x)))"

definition tri_lift :: "medium \<Rightarrow> ('a, mem_store) cas_op \<Rightarrow> ('a, tri_store) cas_op" where
  "tri_lift m f s = (case f (tri_get m s) of (r, x) \<Rightarrow> (r, tri_set m x s))"

definition tri_ops :: "medium \<Rightarrow> tri_store cas_store" where
  "tri_ops m =
     \<lparr>cs_get = (\<lambda>key. tri_lift m (mem_get key)),
      cs_put_if_match = (\<lambda>key data expected. tri_lift m (mem_put_if_match key data expected)),
      cs_put = (\<lambda>key data s. map_option (\<lambda>(r, x). (r, tri_set m x s)) (put_loop mem_get mem_put_if_match key data (tri_get m s))),
      cs_delete = (\<lambda>key. tri_lift m (mem_delete key)), cs_list = (\<lambda>prefix. tri_lift m (mem_list prefix))\<rparr>"

definition tri_obj :: "medium \<Rightarrow> tri_store \<Rightarrow> string \<Rightarrow> bytes option" where
  "tri_obj m s key = map_option fst (bt_get (ms_objects (tri_get m s)) key)"

lemma tri_get_set [simp]: "tri_get n (tri_set m x s) = (if n = m then x else tri_get n s)"
  by (cases s; cases n; cases m) (auto simp: tri_get_def tri_set_def)

lemma tri_put:
  "put_if_absent (tri_ops m) key data s =
     (case bt_get (ms_objects (tri_get m s)) key of
        Some _ \<Rightarrow> (Err (AlreadyExists key), tri_set m (tri_get m s) s)
      | None \<Rightarrow>
          let c = ms_counter (tri_get m s) + 1; v = version_of c
          in (Ok v, tri_set m ((tri_get m s)\<lparr>ms_counter := c, ms_objects := bt_insert key (data, v) (ms_objects (tri_get m s))\<rparr>) s))"
  by (auto simp: put_if_absent_def tri_ops_def tri_lift_def mem_put_if_match_def Let_def split: option.splits)

interpretation tri: three_media tri_ops tri_obj
proof
  show "r \<noteq> Panic \<and> (\<forall>n. tri_obj n s' = tri_obj n s) \<and> (\<forall>x. r = Ok x \<longrightarrow> map_option fst x = tri_obj m s key)"
    if "cs_get (tri_ops m) key s = (r, s')" for m key s r s'
    using that by (auto simp: tri_ops_def tri_lift_def mem_get_def tri_obj_def fun_eq_iff)
next
  show "w \<noteq> Panic \<and> (\<forall>n k. n \<noteq> m \<or> k \<noteq> key \<longrightarrow> tri_obj n s' k = tri_obj n s k) \<and>
      (tri_obj m s' key = tri_obj m s key \<or> tri_obj m s key = None \<and> tri_obj m s' key = Some data) \<and>
      (\<forall>v. w = Ok v \<longrightarrow> tri_obj m s key = None \<and> tri_obj m s' key = Some data) \<and>
      (\<forall>k. w = Err (AlreadyExists k) \<longrightarrow> tri_obj m s key \<noteq> None)"
    if "put_if_absent (tri_ops m) key data s = (w, s')" for m key data s w s'
    using that
    by (cases "bt_get (ms_objects (tri_get m s)) key") (auto simp: tri_put tri_obj_def bt_get_insert Let_def)
qed

section \<open>Properties\<close>

text \<open>A claim on a chain position: an acknowledged put of the writer, or a seal that is up.\<close>

definition claims ::
  "(medium \<Rightarrow> 's cas_store) \<Rightarrow> (medium \<Rightarrow> 's \<Rightarrow> string \<Rightarrow> bytes option) \<Rightarrow> u32 \<Rightarrow> u64 \<Rightarrow> bytes \<Rightarrow> 's \<Rightarrow> bool" where
  "claims st obj shard seq d t \<longleftrightarrow>
     (\<exists>evs s rest. keeps_key obj (segment_key shard seq) evs \<and>
        media_put (MDual (st Az1) (st Az2) (st Std) DEFAULT_HEDGE_AFTER) shard seq d evs s = Returned (Ok ()) t rest) \<or>
     (\<exists>s. media_seal (MDual (st Az1) (st Az2) (st Std) DEFAULT_HEDGE_AFTER) shard seq d s = (Ok Sealed, t))"

lemma medium_of_st: "medium_of (st Az1) (st Az2) (st Std) = st"
  by (rule ext) (simp add: medium_of_def split: medium.split)

lemma claims_owns:
  assumes "three_media st obj" "claims st obj shard seq d t"
  shows "owns obj t (segment_key shard seq) d"
proof -
  from assms(2) show ?thesis
  proof (unfold claims_def, elim disjE exE conjE)
    fix evs s rest
    assume a: "keeps_key obj (segment_key shard seq) evs"
      "media_put (MDual (st Az1) (st Az2) (st Std) DEFAULT_HEDGE_AFTER) shard seq d evs s = Returned (Ok ()) t rest"
    then have "put_quorum st (segment_key shard seq) d evs s = Returned (Ok ()) t rest"
      by (simp add: media_put_def medium_of_st)
    with three_media.put_quorum_outcome [OF assms(1) a(1), of d s] show ?thesis
      by (simp add: three_media.run_ok_def [OF assms(1)])
  qed (rule three_media.seal_owns [OF assms(1)])
qed

section \<open>How long the writer waits\<close>

definition received :: "quorum \<Rightarrow> nat" where
  "received q = (if qu_hedged q then 3 else 2) - qu_outstanding q"

definition is_recv :: "'s quorum_event \<Rightarrow> bool" where
  "is_recv ev = (case ev of Recv \<Rightarrow> True | _ \<Rightarrow> False)"

lemma is_recv_simps [simp]:
  "is_recv Recv" "\<not> is_recv (Land m)" "\<not> is_recv HedgeTimeout" "\<not> is_recv (Elsewhere f)"
  by (simp_all add: is_recv_def)

lemma quorum_recv_received:
  assumes "quorum_recv w q = Inl q'" "0 < qu_outstanding q" "qu_outstanding q \<le> (if qu_hedged q then 3 else 2)"
  shows "received q' = received q + 1" "qu_outstanding q' \<le> (if qu_hedged q' then 3 else 2)"
  using assms
  by (auto simp: quorum_recv_def received_def Let_def split: outcome.splits cas_error.splits if_splits option.splits)

lemma quorum_loop_received:
  assumes "quorum_loop st key data evs landed sent q s = Waiting landed' sent' q' t"
    and "qu_outstanding q \<le> (if qu_hedged q then 3 else 2)"
  shows "received q' = received q + length (filter is_recv evs) \<and> 0 < qu_outstanding q' \<and>
    qu_outstanding q' \<le> (if qu_hedged q' then 3 else 2)"
  using assms
proof (induction evs arbitrary: landed sent q s)
  case Nil
  then show ?case by (auto simp: quorum_loop.simps split: if_splits)
next
  case (Cons ev evs)
  note step = quorum_loop.simps [of _ _ _ "_ # _"]
  show ?case
  proof (cases ev)
    case Recv
    with Cons.prems obtain w sent1 q1 where "sent = w # sent1" "quorum_recv w q = Inl q1" "0 < qu_outstanding q"
      "quorum_loop st key data evs landed sent1 q1 s = Waiting landed' sent' q' t"
      by (auto simp: step split: if_splits list.splits sum.splits)
    with Cons.IH [of landed sent1 q1 s] quorum_recv_received [of w q q1] Cons.prems(2) Recv show ?thesis by auto
  next
    case HedgeTimeout
    moreover have "received (quorum_hedge q) = received q"
      "qu_outstanding (quorum_hedge q) \<le> (if qu_hedged (quorum_hedge q) then 3 else 2)" if "\<not> qu_hedged q"
      using that Cons.prems(2) by (auto simp: received_def quorum_hedge_def)
    ultimately show ?thesis using Cons.prems Cons.IH [of landed sent "quorum_hedge q" s] by (auto simp: step split: if_splits)
  qed (use Cons in \<open>auto simp: step split: if_splits prod.splits\<close>)
qed

section \<open>Properties\<close>

text \<open>C9. A chain position has one owner. Whatever the schedules of the writers and whatever else happens to
  the stores, as long as nobody deletes the position: when a put of the writer was acknowledged or
  a seal went up with some bytes, and another put or seal succeeded with others, the bytes are the same,
  and every later read that answers at all answers with them.
\<close>

theorem one_owner_per_seq:
  assumes "three_media st obj"
    and "claims st obj shard seq d s1" "stays obj (segment_key shard seq) s1 t"
    and "claims st obj shard seq e s2" "stays obj (segment_key shard seq) s2 t"
  shows "d = e \<and>
    (\<forall>r t'. media_fetch (MDual (st Az1) (st Az2) (st Std) DEFAULT_HEDGE_AFTER) shard seq t = (Ok r, t') \<longrightarrow> r = Some d)"
proof -
  have d: "owns obj t (segment_key shard seq) d" using claims_owns [OF assms(1,2)] assms(3) by (rule owns_stays)
  have "owns obj t (segment_key shard seq) e" using claims_owns [OF assms(1,4)] assms(5) by (rule owns_stays)
  then have "d = e" using owns_unique [OF d] by simp
  moreover have "r = Some d"
    if "media_fetch (MDual (st Az1) (st Az2) (st Std) DEFAULT_HEDGE_AFTER) shard seq t = (Ok r, t')" for r t'
    using three_media.fetch_owner(1) [OF assms(1) that, of d] d by simp
  ultimately show ?thesis by blast
qed

definition tri_empty :: tri_store where
  "tri_empty = (mem_new, mem_new, mem_new)"

definition tri_media :: "tri_store wal_media" where
  "tri_media = MDual (tri_ops Az1) (tri_ops Az2) (tri_ops Std) DEFAULT_HEDGE_AFTER"

lemma sample_claim:
  "\<exists>t. claims tri_ops tri_obj 1 7 [1, 2, 3] t"
proof -
  let ?evs = "[Land Az2, Recv, HedgeTimeout, Land Std, Recv]"
  have "\<exists>t rest. put_quorum tri_ops (segment_key 1 7) [1, 2, 3] ?evs tri_empty = Returned (Ok ()) t rest"
    by (simp add: put_quorum_def quorum_loop.simps quorum_start_def quorum_hedge_def quorum_recv_def under_way_def
        tri_put tri_empty_def mem_new_def tri_get_def tri_set_def Let_def bt_get_def)
  then obtain t rest where "media_put tri_media 1 7 [1, 2, 3] ?evs tri_empty = Returned (Ok ()) t rest"
    by (auto simp: media_put_def tri_media_def medium_of_st)
  moreover have "keeps_key tri_obj k ?evs" for k by (simp add: keeps_key_def)
  ultimately show ?thesis unfolding claims_def tri_media_def by blast
qed

theorem one_owner_per_seq_witness:
  "\<exists>t. claims tri_ops tri_obj 1 7 [1, 2, 3] t \<and>
     (\<forall>r t'. media_fetch tri_media 1 7 t = (Ok r, t') \<longrightarrow> r = Some [1, 2, 3])"
proof -
  obtain t where t: "claims tri_ops tri_obj 1 7 [1, 2, 3] t" using sample_claim by blast
  from one_owner_per_seq [OF tri.three_media_axioms t stays_refl t stays_refl] t show ?thesis
    unfolding tri_media_def by blast
qed

text \<open>C26. The writer of a segment on three media always gets its answer. Along every schedule of its puts, with anything
  else happening to the stores meanwhile: the loop never panics; it returns success only with two media holding the bytes,
  and otherwise an error; and while it has not returned, it has received at most two results and either another one
  is already sent or a put is still under way that will send it, so a third receipt is the last.
\<close>

theorem quorum_returns:
  assumes "three_media st obj" "keeps_key obj key evs"
  shows "case put_quorum st key data evs s of
      Returned r t rest \<Rightarrow> r = Ok () \<and> owns obj t key data \<or> (\<exists>e. r = Err e)
    | Waiting landed sent q t \<Rightarrow>
        length (filter is_recv evs) \<le> 2 \<and> (sent \<noteq> [] \<or> under_way landed q \<noteq> [])
    | NoSchedule \<Rightarrow> True"
proof (cases "put_quorum st key data evs s")
  case (Returned r t rest)
  with three_media.put_quorum_outcome [OF assms, of data s] show ?thesis
    by (cases r) (auto simp: three_media.run_ok_def [OF assms(1)])
next
  case (Waiting landed sent q t)
  with three_media.put_quorum_outcome [OF assms, of data s]
  have "0 < qu_outstanding q" "qu_outstanding q = length sent + length (under_way landed q)"
    by (auto simp add: three_media.run_ok_def [OF assms(1)])
  then have "0 < length sent + length (under_way landed q)" by linarith
  moreover have "received q = received quorum_start + length (filter is_recv evs) \<and> 0 < qu_outstanding q \<and>
      qu_outstanding q \<le> (if qu_hedged q then 3 else 2)"
    by (rule quorum_loop_received [OF Waiting [unfolded put_quorum_def]]) (simp add: quorum_start_def)
  then have "length (filter is_recv evs) \<le> 2"
    by (auto simp: received_def quorum_start_def split: if_splits)
  ultimately show ?thesis using Waiting by auto
qed simp

theorem quorum_returns_witness:
  "keeps_key tri_obj ''k'' [Land Az1, Recv, HedgeTimeout] \<and>
   (case put_quorum tri_ops ''k'' [9] [Land Az1, Recv, HedgeTimeout] tri_empty of
      Returned r t rest \<Rightarrow> r = Ok () \<and> owns tri_obj t ''k'' [9] \<or> (\<exists>e. r = Err e)
    | Waiting landed sent q t \<Rightarrow>
        length (filter is_recv [Land Az1, Recv, HedgeTimeout :: tri_store quorum_event]) \<le> 2 \<and>
        (sent \<noteq> [] \<or> under_way landed q \<noteq> [])
    | NoSchedule \<Rightarrow> True)"
proof -
  have k: "keeps_key tri_obj ''k'' [Land Az1, Recv, HedgeTimeout]" by (simp add: keeps_key_def)
  with quorum_returns [OF tri.three_media_axioms k, of "[9]" tri_empty] show ?thesis by blast
qed

end
