(* ===== verification/Wal_Chain.thy ===== *)
theory Wal_Chain
  imports Wal_Media_Proofs Sequencer_Properties
begin

text \<open>
  The chain of a shard's log (crates/zou-log/src/chain.rs): finding its head, taking it over with a
  seal, sweeping what a fenced writer left behind, and the recovery read that follows the
  digest links. The shard manifest's JSON form is written and read by \<open>serde_json\<close>, which is a
  parameter; the clock is an argument. A loop with no bound of its own answers
  \<open>None\<close> when it never ends. The probes of a window run in threads and only read, so the model makes
  them one after the other.
\<close>

section \<open>Loops\<close>

text \<open>A loop on some variables whose turn continues with \<open>Inl\<close> and leaves with \<open>Inr\<close>.\<close>

partial_function (option) sloop ::
  "('v \<Rightarrow> ('v + 'b, 'e, 's) sop) \<Rightarrow> 'v \<Rightarrow> 's \<Rightarrow> (('b, 'e) outcome \<times> 's) option" where
  "sloop turn v s =
     (case turn v s of
        (Ok (Inl v), s) \<Rightarrow> sloop turn v s
      | (Ok (Inr b), s) \<Rightarrow> Some (Ok b, s)
      | (Err e, s) \<Rightarrow> Some (Err e, s)
      | (Panic, s) \<Rightarrow> Some (Panic, s))"

text \<open>\<open>?\<close> after a call that may not return.\<close>

definition pbind ::
  "('s \<Rightarrow> (('a, 'e) outcome \<times> 's) option) \<Rightarrow> ('a \<Rightarrow> 's \<Rightarrow> (('b, 'e) outcome \<times> 's) option) \<Rightarrow>
   's \<Rightarrow> (('b, 'e) outcome \<times> 's) option" where
  "pbind m f s =
     (case m s of
        None \<Rightarrow> None
      | Some (Ok x, s) \<Rightarrow> f x s
      | Some (Err e, s) \<Rightarrow> Some (Err e, s)
      | Some (Panic, s) \<Rightarrow> Some (Panic, s))"

definition pcall :: "('a, 'e, 's) sop \<Rightarrow> 's \<Rightarrow> (('a, 'e) outcome \<times> 's) option" where
  "pcall m s = Some (m s)"

definition saturating_mul :: "'a::len word \<Rightarrow> 'a word \<Rightarrow> 'a word" where
  "saturating_mul a b = (if unat a * unat b < 2 ^ LENGTH('a) then a * b else - 1)"

section \<open>The shard manifest\<close>

definition SHARD_MANIFEST_FORMAT :: u32 where
  "SHARD_MANIFEST_FORMAT = 1"

definition manifest_key :: "u32 \<Rightarrow> string" where
  "manifest_key shard = ''cellwal/'' @ pad 4 (num_text False 16 (unat shard)) @ ''/manifest''"

record round_range =
  rr_first :: u64
  rr_last :: u64

record shard_manifest =
  sm_format :: u32
  sm_shard :: u32
  sm_chain_epoch :: u64
  sm_head :: u64
  sm_consolidated_upto :: u64
  sm_consolidated_digest :: u64
  sm_rounds :: "round_range option"
  sm_gc_round :: u64
  sm_sealed_by :: string
  sm_sealed_unix :: u64

text \<open>\<open>serde_json\<close> on the manifest: a failed read says why.\<close>

record chain_codec =
  cc_ser :: "shard_manifest \<Rightarrow> bytes"
  cc_de :: "bytes \<Rightarrow> string + shard_manifest"

datatype chain_error =
  ChStore cas_error
| BadManifest u32 string
| ChSegment u32 u64 segment_decode_error
| BrokenLink u32 u64
| Contested u32 u32

definition sm_decode :: "chain_codec \<Rightarrow> u32 \<Rightarrow> bytes \<Rightarrow> (shard_manifest, chain_error) outcome" where
  "sm_decode c shard bytes =
     (case cc_de c bytes of
        Inl source \<Rightarrow> Err (BadManifest shard source)
      | Inr manifest \<Rightarrow>
          if sm_format manifest > SHARD_MANIFEST_FORMAT
          then Err (BadManifest shard
                 (''format '' @ num_text False 10 (unat (sm_format manifest)) @ '' is newer than this zou, upgrade''))
          else Ok manifest)"

definition sm_load ::
  "chain_codec \<Rightarrow> 's cas_store \<Rightarrow> u32 \<Rightarrow> ((shard_manifest \<times> version) option, chain_error, 's) sop" where
  "sm_load c store shard =
     sbind (smap_err ChStore (cs_get store (manifest_key shard))) (\<lambda>r.
     case r of
       None \<Rightarrow> sret (Ok None)
     | Some (bytes, version) \<Rightarrow> sret (obind (sm_decode c shard bytes) (\<lambda>m. Ok (Some (m, version)))))"

record takeover =
  to_chain_epoch :: u64
  to_sealed_seq :: u64
  to_next_seq :: u64
  to_prev_digest :: u64

section \<open>Finding the head\<close>

definition present :: "'s wal_media \<Rightarrow> u32 \<Rightarrow> u64 \<Rightarrow> (bool, chain_error, 's) sop" where
  "present media shard seq = smap_err ChStore (media_present media shard seq)"

definition gallop_turn ::
  "'s wal_media \<Rightarrow> u32 \<Rightarrow> u64 \<times> u64 \<Rightarrow> ((u64 \<times> u64) + (u64 \<times> u64), chain_error, 's) sop" where
  "gallop_turn media shard = (\<lambda>(lo, step).
     let probe = saturating_add lo step
     in sbind (present media shard probe) (\<lambda>p.
        sret (Ok (if \<not> p then Inr (lo, probe) else Inl (probe, saturating_mul step 2)))))"

lemma halves_smaller:
  fixes g :: u64
  assumes "1 < g"
  shows "unat (g div 2) < unat g" "unat (g - g div 2) < unat g"
proof -
  have g: "unat (g div 2) = unat g div 2" by (simp add: unat_div)
  have g1: "1 < unat g" using assms by (simp add: word_less_nat_alt)
  then show "unat (g div 2) < unat g" unfolding g by linarith
  have "unat (g div 2) \<le> unat g" unfolding g by linarith
  then have "unat (g - g div 2) = unat g - unat g div 2" using g by (simp add: unat_sub word_le_nat_alt)
  then show "unat (g - g div 2) < unat g" using g1 by linarith
qed

function binary_search :: "(u64 \<Rightarrow> (bool, 'e, 's) sop) \<Rightarrow> u64 \<Rightarrow> u64 \<Rightarrow> (u64 \<times> u64, 'e, 's) sop" where
  "binary_search probe lo hi =
     (if hi - lo > 1
      then
        let mid = lo + (hi - lo) div 2
        in sbind (probe mid) (\<lambda>p. if p then binary_search probe mid hi else binary_search probe lo mid)
      else sret (Ok (lo, hi)))"
  by pat_completeness auto
termination
proof (relation "measure (\<lambda>(_, lo, hi). unat (hi - lo))"; clarsimp)
  fix lo hi :: u64
  assume "1 < hi - lo"
  note halves_smaller [OF this]
  then show "unat ((hi - lo) div 2) < unat (hi - lo)" "unat (hi - (lo + (hi - lo) div 2)) < unat (hi - lo)"
    by (simp_all only: diff_diff_eq)
qed

declare binary_search.simps [simp del]

definition PROBE_WIDTH :: nat where
  "PROBE_WIDTH = 32"

text \<open>The probes of one chunk, all of them whatever they answer.\<close>

fun probe_all :: "(u64 \<Rightarrow> (bool, 'e, 's) sop) \<Rightarrow> u64 list \<Rightarrow> 's \<Rightarrow> (bool, 'e) outcome list \<times> 's" where
  "probe_all probe [] s = ([], s)"
| "probe_all probe (q # qs) s =
     (case probe q s of (r, s) \<Rightarrow> (case probe_all probe qs s of (rs, s) \<Rightarrow> (r # rs, s)))"

text \<open>\<open>collect\<close> into a result: the first error wins.\<close>

fun collect_results :: "('a, 'e) outcome list \<Rightarrow> ('a list, 'e) outcome" where
  "collect_results [] = Ok []"
| "collect_results (r # rs) = obind r (\<lambda>x. obind (collect_results rs) (\<lambda>xs. Ok (x # xs)))"

fun probe_chunks ::
  "'s wal_media \<Rightarrow> u32 \<Rightarrow> u64 \<Rightarrow> nat \<Rightarrow> nat list \<Rightarrow> (bool, cas_error) outcome list \<Rightarrow> (bool list, chain_error, 's) sop" where
  "probe_chunks media shard from len [] out = sret (map_err ChStore (collect_results out))"
| "probe_chunks media shard from len (chunk # chunks) out =
     (\<lambda>s. let base = from + of_nat (chunk * PROBE_WIDTH);
              width = min PROBE_WIDTH (len - chunk * PROBE_WIDTH)
          in case probe_all (media_present media shard) (map (\<lambda>i. base + of_nat i) [0..<width]) s of
               (slots, s) \<Rightarrow>
                 if Panic \<in> set slots then (Panic, s)
                 else probe_chunks media shard from len chunks (out @ slots) s)"

definition probe_window :: "'s wal_media \<Rightarrow> u32 \<Rightarrow> u64 \<Rightarrow> nat \<Rightarrow> (bool list, chain_error, 's) sop" where
  "probe_window media shard from len =
     (if len = 0 then sret (Ok [])
      else if len = 1 then sbind (present media shard from) (\<lambda>p. sret (Ok [p]))
      else probe_chunks media shard from len [0..<(len + PROBE_WIDTH - 1) div PROBE_WIDTH] [])"

text \<open>The backscan's answer: the position in front of the first hole of the window.\<close>

fun first_absent :: "u64 \<Rightarrow> nat \<Rightarrow> bool list \<Rightarrow> u64 option" where
  "first_absent base i [] = None"
| "first_absent base i (p # ps) = (if \<not> p then Some (base + of_nat i - 1) else first_absent base (Suc i) ps)"

definition backscan :: "'s wal_media \<Rightarrow> u32 \<Rightarrow> u64 \<Rightarrow> u64 \<Rightarrow> (u64, chain_error, 's) sop" where
  "backscan media shard floor lo =
     (let base = max (floor + 1) (saturating_sub lo (of_nat MAX_INFLIGHT))
      in sbind (probe_window media shard base (unat (lo - base + 1))) (\<lambda>window.
         sret (Ok (case first_absent base 0 window of Some q \<Rightarrow> q | None \<Rightarrow> lo))))"

definition chain_head :: "'s wal_media \<Rightarrow> u32 \<Rightarrow> u64 \<Rightarrow> 's \<Rightarrow> ((u64, chain_error) outcome \<times> 's) option" where
  "chain_head media shard floor =
     pbind (pcall (present media shard (floor + 1))) (\<lambda>p.
     if \<not> p then pcall (sret (Ok floor))
     else
     pbind (sloop (gallop_turn media shard) (floor + 1, 1)) (\<lambda>(lo, hi).
     pcall (sbind (binary_search (present media shard) lo hi) (\<lambda>(lo, hi). backscan media shard floor lo))))"

section \<open>Taking over\<close>

definition read_footer ::
  "externals \<Rightarrow> u32 \<Rightarrow> u64 \<Rightarrow> bytes \<Rightarrow> (segment_header \<times> segment_footer, chain_error) outcome" where
  "read_footer ext shard seq bytes = map_err (ChSegment shard seq) (segment_read_footer ext bytes)"

definition digest_of_segment :: "externals \<Rightarrow> 's wal_media \<Rightarrow> u32 \<Rightarrow> u64 \<Rightarrow> (u64, chain_error, 's) sop" where
  "digest_of_segment ext media shard seq =
     (if seq = 0 then sret (Ok 0)
      else
        sbind (smap_err ChStore (media_fetch media shard seq)) (\<lambda>r.
        sret (obind (ok_or r (BrokenLink shard seq)) (\<lambda>bytes.
              obind (read_footer ext shard seq bytes) (\<lambda>(_, footer). Ok (tenants_digest ext (sf_tenants footer)))))))"

text \<open>The inner \<open>for\<close> of the sweep: whether it broke out, and the variables it leaves.\<close>

fun sweep_walk ::
  "externals \<Rightarrow> 's wal_media \<Rightarrow> u32 \<Rightarrow> u64 \<Rightarrow> nat \<Rightarrow> bool list \<Rightarrow> u64 \<Rightarrow> nat \<Rightarrow> (bool \<times> u64 \<times> nat, chain_error, 's) sop" where
  "sweep_walk ext media shard base i [] seq gap = sret (Ok (False, seq, gap))"
| "sweep_walk ext media shard base i (p # ps) seq gap =
     (let seq = base + of_nat i
      in if \<not> p then
           let gap = gap + 1
           in if gap \<ge> MAX_INFLIGHT then sret (Ok (True, seq, gap))
              else sweep_walk ext media shard base (Suc i) ps seq gap
         else
           sbind (smap_err ChStore (media_fetch media shard seq)) (\<lambda>r.
           case r of
             None \<Rightarrow> sweep_walk ext media shard base (Suc i) ps seq 0
           | Some bytes \<Rightarrow>
               sbind (sret (read_footer ext shard seq bytes)) (\<lambda>(header, _).
               if sg_kind header \<noteq> Landing then sret (Ok (True, seq, 0))
               else
                 sbind (smap_err ChStore (media_delete media shard seq)) (\<lambda>_.
                 sweep_walk ext media shard base (Suc i) ps seq 0))))"

definition sweep_turn ::
  "externals \<Rightarrow> 's wal_media \<Rightarrow> u32 \<Rightarrow> u64 \<times> nat \<Rightarrow> ((u64 \<times> nat) + unit, chain_error, 's) sop" where
  "sweep_turn ext media shard = (\<lambda>(seq, gap).
     if gap < MAX_INFLIGHT then
       let base = seq + 1
       in sbind (probe_window media shard base PROBE_WIDTH) (\<lambda>window.
          sbind (sweep_walk ext media shard base 0 window seq gap) (\<lambda>(broke, seq, gap).
          sret (Ok (if broke then Inr () else Inl (seq, gap)))))
     else sret (Ok (Inr ())))"

definition sweep_stragglers ::
  "externals \<Rightarrow> 's wal_media \<Rightarrow> u32 \<Rightarrow> u64 \<Rightarrow> 's \<Rightarrow> ((unit, chain_error) outcome \<times> 's) option" where
  "sweep_stragglers ext media shard sealed_seq = sloop (sweep_turn ext media shard) (sealed_seq, 0)"

definition seal_segment ::
  "externals \<Rightarrow> u32 \<Rightarrow> u64 \<Rightarrow> u64 \<Rightarrow> (bytes \<times> tenant_summary list, chain_error) outcome" where
  "seal_segment ext shard seq prev_digest =
     (case segment_finish ext (segment_new
             \<lparr>sg_kind = Seal, sg_shard = shard, sg_seq = seq, sg_prev_digest = prev_digest\<rparr>) of
        Ok r \<Rightarrow> Ok r
      | _ \<Rightarrow> Panic)"

definition taken_over :: "u32 \<Rightarrow> string \<Rightarrow> u64 \<Rightarrow> u64 \<Rightarrow> shard_manifest option \<Rightarrow> shard_manifest" where
  "taken_over shard node now sealed_seq manifest =
     \<lparr>sm_format = SHARD_MANIFEST_FORMAT, sm_shard = shard,
      sm_chain_epoch = (case manifest of None \<Rightarrow> 0 | Some m \<Rightarrow> sm_chain_epoch m) + 1,
      sm_head = sealed_seq,
      sm_consolidated_upto = (case manifest of None \<Rightarrow> 0 | Some m \<Rightarrow> sm_consolidated_upto m),
      sm_consolidated_digest = (case manifest of None \<Rightarrow> 0 | Some m \<Rightarrow> sm_consolidated_digest m),
      sm_rounds = (case manifest of None \<Rightarrow> None | Some m \<Rightarrow> sm_rounds m),
      sm_gc_round = (case manifest of None \<Rightarrow> 0 | Some m \<Rightarrow> sm_gc_round m),
      sm_sealed_by = node, sm_sealed_unix = now\<rparr>"

text \<open>The last third of an attempt: swap the manifest, sweep, and return, or go on with \<open>None\<close>.\<close>

definition take_over_publish ::
  "externals \<Rightarrow> chain_codec \<Rightarrow> 's wal_media \<Rightarrow> u32 \<Rightarrow> shard_manifest \<Rightarrow> version option \<Rightarrow> u64 \<Rightarrow> tenant_summary list \<Rightarrow>
   's \<Rightarrow> ((takeover option, chain_error) outcome \<times> 's) option" where
  "take_over_publish ext c media shard next_manifest version sealed_seq summaries s =
     (case cs_put_if_match (manifest_store media) (manifest_key shard) (cc_ser c next_manifest) version s of
        (Ok _, s) \<Rightarrow>
          pbind (sweep_stragglers ext media shard sealed_seq) (\<lambda>_.
          pcall (sret (Ok (Some \<lparr>to_chain_epoch = sm_chain_epoch next_manifest, to_sealed_seq = sealed_seq,
            to_next_seq = sealed_seq + 1, to_prev_digest = tenants_digest ext summaries\<rparr>)))) s
      | (Err (Conflict _), s) \<Rightarrow> Some (Ok None, s)
      | (Err e, s) \<Rightarrow> Some (Err (ChStore e), s)
      | (Panic, s) \<Rightarrow> Some (Panic, s))"

text \<open>An attempt, from the manifest it loaded on.\<close>

definition take_over_from ::
  "externals \<Rightarrow> chain_codec \<Rightarrow> 's wal_media \<Rightarrow> u32 \<Rightarrow> string \<Rightarrow> u64 \<Rightarrow> shard_manifest option \<Rightarrow> version option \<Rightarrow>
   's \<Rightarrow> ((takeover option, chain_error) outcome \<times> 's) option" where
  "take_over_from ext c media shard node now manifest version =
     (let floor = (case manifest of None \<Rightarrow> 0 | Some m \<Rightarrow> max (sm_head m) (sm_consolidated_upto m))
      in
     pbind (chain_head media shard floor) (\<lambda>head.
     pbind (pcall
        (case manifest of
           Some m \<Rightarrow> if head = sm_consolidated_upto m then sret (Ok (sm_consolidated_digest m))
                     else digest_of_segment ext media shard head
         | None \<Rightarrow> digest_of_segment ext media shard head)) (\<lambda>prev_digest.
     let sealed_seq = head + 1 in
     pbind (pcall (sret (seal_segment ext shard sealed_seq prev_digest))) (\<lambda>(seal, summaries).
     pbind (pcall (smap_err ChStore (media_seal media shard sealed_seq seal))) (\<lambda>outcome.
     case outcome of
       Occupied \<Rightarrow> pcall (sret (Ok None))
     | Sealed \<Rightarrow>
         take_over_publish ext c media shard (taken_over shard node now sealed_seq manifest) version
           sealed_seq summaries)))))"

definition take_over_attempt ::
  "externals \<Rightarrow> chain_codec \<Rightarrow> 's wal_media \<Rightarrow> u32 \<Rightarrow> string \<Rightarrow> u64 \<Rightarrow>
   's \<Rightarrow> ((takeover option, chain_error) outcome \<times> 's) option" where
  "take_over_attempt ext c media shard node now =
     pbind (pcall (sm_load c (manifest_store media) shard)) (\<lambda>loaded.
     take_over_from ext c media shard node now (map_option fst loaded) (map_option snd loaded))"

definition MAX_ATTEMPTS :: nat where
  "MAX_ATTEMPTS = 8"

text \<open>The clock reads once in every attempt.\<close>

fun take_over_loop ::
  "externals \<Rightarrow> chain_codec \<Rightarrow> 's wal_media \<Rightarrow> u32 \<Rightarrow> string \<Rightarrow> (nat \<Rightarrow> u64) \<Rightarrow> nat \<Rightarrow>
   's \<Rightarrow> ((takeover, chain_error) outcome \<times> 's) option" where
  "take_over_loop ext c media shard node clock 0 =
     pcall (sret (Err (Contested shard (of_nat MAX_ATTEMPTS))))"
| "take_over_loop ext c media shard node clock (Suc n) =
     pbind (take_over_attempt ext c media shard node (clock n)) (\<lambda>r.
     case r of
       Some t \<Rightarrow> pcall (sret (Ok t))
     | None \<Rightarrow> take_over_loop ext c media shard node clock n)"

definition take_over ::
  "externals \<Rightarrow> chain_codec \<Rightarrow> 's wal_media \<Rightarrow> u32 \<Rightarrow> string \<Rightarrow> (nat \<Rightarrow> u64) \<Rightarrow>
   's \<Rightarrow> ((takeover, chain_error) outcome \<times> 's) option" where
  "take_over ext c media shard node clock = take_over_loop ext c media shard node clock MAX_ATTEMPTS"

definition straggler_at ::
  "externals \<Rightarrow> chain_codec \<Rightarrow> 's wal_media \<Rightarrow> u32 \<Rightarrow> u64 \<Rightarrow> u64 \<Rightarrow> (bool, chain_error, 's) sop" where
  "straggler_at ext c media shard seq sealed_seq =
     (if sealed_seq = 0 then sret (Ok False)
      else
        sbind (smap_err ChStore (media_fetch media shard seq)) (\<lambda>r.
        case r of
          None \<Rightarrow> sret (Ok False)
        | Some bytes \<Rightarrow>
            sbind (sret (read_footer ext shard seq bytes)) (\<lambda>(header, _).
            if sg_kind header \<noteq> Landing then sret (Ok False)
            else
              sbind (sm_load c (manifest_store media) shard) (\<lambda>loaded.
              let head = (case loaded of None \<Rightarrow> 0 | Some (m, _) \<Rightarrow> sm_head m)
              in sret (Ok (head = sealed_seq))))))"

section \<open>The sink of a real deployment\<close>

text \<open>\<open>MediaSink::put_segment\<close> (crates/zou-log/src/media.rs), with a schedule for each of its puts.\<close>

definition leave_under_way :: "medium list \<Rightarrow> 's quorum_run \<Rightarrow> 's quorum_run" where
  "leave_under_way rest run =
     (case run of
        Returned r s rest' \<Rightarrow> Returned r s (rest @ rest')
      | other \<Rightarrow> other)"

definition sink_put ::
  "externals \<Rightarrow> chain_codec \<Rightarrow> 's wal_media \<Rightarrow> u32 \<Rightarrow> u64 \<Rightarrow> u64 \<Rightarrow> bytes \<Rightarrow> 's quorum_event list \<Rightarrow> 's quorum_event list \<Rightarrow>
   's \<Rightarrow> 's quorum_run" where
  "sink_put ext c media shard sealed_seq seq segment evs evs' s =
     (case media_put media shard seq segment evs s of
        Returned (Err (AlreadyExists key)) s rest \<Rightarrow>
          (case straggler_at ext c media shard seq sealed_seq s of
             (Ok True, s) \<Rightarrow>
               (case media_delete media shard seq s of
                  (Ok _, s) \<Rightarrow> leave_under_way rest (media_put media shard seq segment evs' s)
                | (Err e, s) \<Rightarrow> Returned (Err e) s rest
                | (Panic, s) \<Rightarrow> Returned Panic s rest)
           | (Ok False, s) \<Rightarrow> Returned (Err (AlreadyExists key)) s rest
           | (Err _, s) \<Rightarrow> Returned (Err (AlreadyExists key)) s rest
           | (Panic, s) \<Rightarrow> Returned Panic s rest)
      | other \<Rightarrow> other)"

section \<open>Reading the chain\<close>

record chain_segment =
  cg_seq :: u64
  cg_header :: segment_header
  cg_frames :: "frame2 list"
  cg_footer :: segment_footer

record chain_cursor =
  cu_seq :: u64
  cu_prev_digest :: u64

text \<open>One turn of the walk. The caller's closure is a function on what it captured, and \<open>from\<close> makes
  its error of a chain error.\<close>

definition walk_turn ::
  "externals \<Rightarrow> chain_codec \<Rightarrow> 's wal_media \<Rightarrow> u32 \<Rightarrow> (chain_error \<Rightarrow> 'e) \<Rightarrow>
   (chain_segment \<Rightarrow> 'a \<Rightarrow> (bool \<times> 'a, 'e) outcome) \<Rightarrow> chain_cursor \<times> 'a \<Rightarrow>
   ((chain_cursor \<times> 'a) + (chain_cursor \<times> 'a), 'e, 's) sop" where
  "walk_turn ext c media shard from sink = (\<lambda>(cursor, acc).
     let seq = cu_seq cursor in
     sbind (smap_err (from \<circ> ChStore) (media_fetch media shard seq)) (\<lambda>r.
     case r of
       None \<Rightarrow> sret (Ok (Inr (cursor, acc)))
     | Some bytes \<Rightarrow>
         sbind (sret (map_err (from \<circ> ChSegment shard seq) (decode_segment ext bytes))) (\<lambda>(header, frames, footer).
         if sg_shard header \<noteq> shard \<or> sg_seq header \<noteq> seq then sret (Err (from (BrokenLink shard seq)))
         else if sg_prev_digest header \<noteq> cu_prev_digest cursor then
           sbind (smap_err from (sm_load c (manifest_store media) shard)) (\<lambda>loaded.
           let head = (case loaded of None \<Rightarrow> 0 | Some (m, _) \<Rightarrow> sm_head m)
           in if seq \<le> head then sret (Err (from (BrokenLink shard seq)))
              else sret (Ok (Inr (cursor, acc))))
         else
           let prev_digest = tenants_digest ext (sf_tenants footer)
           in sbind (sret (sink \<lparr>cg_seq = seq, cg_header = header, cg_frames = frames, cg_footer = footer\<rparr> acc))
              (\<lambda>(keep_going, acc).
              let cursor = \<lparr>cu_seq = seq + 1, cu_prev_digest = prev_digest\<rparr>
              in sret (Ok (if keep_going then Inl (cursor, acc) else Inr (cursor, acc)))))))"

definition walk_chain_linked ::
  "externals \<Rightarrow> chain_codec \<Rightarrow> 's wal_media \<Rightarrow> u32 \<Rightarrow> (chain_error \<Rightarrow> 'e) \<Rightarrow>
   (chain_segment \<Rightarrow> 'a \<Rightarrow> (bool \<times> 'a, 'e) outcome) \<Rightarrow> chain_cursor \<Rightarrow> 'a \<Rightarrow>
   's \<Rightarrow> ((chain_cursor \<times> 'a, 'e) outcome \<times> 's) option" where
  "walk_chain_linked ext c media shard from sink cursor acc =
     sloop (walk_turn ext c media shard from sink) (cursor, acc)"

definition read_chain_linked ::
  "externals \<Rightarrow> chain_codec \<Rightarrow> 's wal_media \<Rightarrow> u32 \<Rightarrow> u64 \<Rightarrow> u64 \<Rightarrow>
   's \<Rightarrow> ((chain_segment list, chain_error) outcome \<times> 's) option" where
  "read_chain_linked ext c media shard from prev_digest =
     pbind (walk_chain_linked ext c media shard (\<lambda>e. e) (\<lambda>segment out. Ok (True, out @ [segment]))
       \<lparr>cu_seq = from + 1, cu_prev_digest = prev_digest\<rparr> []) (\<lambda>(_, out). pcall (sret (Ok out)))"

definition read_chain ::
  "externals \<Rightarrow> chain_codec \<Rightarrow> 's wal_media \<Rightarrow> u32 \<Rightarrow> u64 \<Rightarrow>
   's \<Rightarrow> ((chain_segment list, chain_error) outcome \<times> 's) option" where
  "read_chain ext c media shard from =
     pbind (pcall (digest_of_segment ext media shard from)) (read_chain_linked ext c media shard from)"

end
