(* ===== verification/Wal_Chain_Proofs.thy ===== *)
theory Wal_Chain_Proofs
  imports Wal_Chain
begin

text \<open>
  The head of the chain and the recovery read, on media that answer: the locale \<open>quiet_probes\<close> is what probing sees, and \<open>quiet_chain\<close> is one shard of
  a log at rest, of which the positions' owners are known. One bucket in memory is an interpretation.
\<close>

section \<open>Sequencing\<close>

lemma pbind_step: "m s = Some (Ok x, s') \<Longrightarrow> pbind m f s = f x s'"
  by (simp add: pbind_def)

lemma pcall_step: "m s = r \<Longrightarrow> pcall m s = Some r"
  by (simp add: pcall_def)

lemma sloop_continue: "turn v s = (Ok (Inl v'), s') \<Longrightarrow> sloop turn v s = sloop turn v' s'"
  by (subst sloop.simps) simp

lemma sloop_leave: "turn v s = (Ok (Inr b), s') \<Longrightarrow> sloop turn v s = Some (Ok b, s')"
  by (subst sloop.simps) simp

section \<open>Words\<close>

lemma unat_max: "unat (- 1 :: u64) = 2 ^ 64 - 1"
  by (simp add: unsigned_minus_1_eq_mask mask_eq_exp_minus_1)

lemma saturating_add_above:
  fixes lo step :: u64
  assumes "lo \<noteq> - 1" "0 < step"
  shows "lo < saturating_add lo step"
proof -
  have "unat lo \<noteq> 2 ^ 64 - 1" using assms(1) unat_max by (metis word_unat_eq_iff)
  then have lo: "unat lo < 2 ^ 64 - 1" using unat_bound [of lo] by simp
  have step: "0 < unat step" using assms(2) by (simp add: word_less_nat_alt)
  show ?thesis
  proof (cases "unat lo + unat step < 2 ^ 64")
    case True
    then show ?thesis using step by (simp add: saturating_add_def word_less_nat_alt unat_word_ariths)
  next
    case False
    then show ?thesis using lo by (simp add: saturating_add_def word_less_nat_alt unat_max)
  qed
qed

lemma saturating_mul_pos:
  assumes "0 < (step :: u64)"
  shows "0 < saturating_mul step 2"
proof (cases "unat step * 2 < 2 ^ 64")
  case True
  then have "unat (step * 2) = unat step * 2" by (simp add: unat_word_ariths)
  with True assms show ?thesis by (simp add: saturating_mul_def word_less_nat_alt)
next
  case False
  then show ?thesis by (simp add: saturating_mul_def word_less_nat_alt unat_max)
qed

lemma mid_between:
  fixes lo hi :: u64
  assumes "lo < hi" "1 < hi - lo"
  shows "lo < lo + (hi - lo) div 2" "lo + (hi - lo) div 2 < hi"
proof -
  have g: "unat (hi - lo) = unat hi - unat lo" using assms(1) by (simp add: unat_sub)
  have g1: "1 < unat hi - unat lo" using assms(2) g by (simp add: word_less_nat_alt)
  have h: "unat ((hi - lo) div 2) = (unat hi - unat lo) div 2" using g by (simp add: unat_div)
  have "unat lo + (unat hi - unat lo) div 2 < unat hi" using g1 by linarith
  then have m: "unat (lo + (hi - lo) div 2) = unat lo + (unat hi - unat lo) div 2"
    using h unat_bound [of hi] by (simp add: unat_word_ariths)
  show "lo < lo + (hi - lo) div 2" "lo + (hi - lo) div 2 < hi"
    using m g1 by (simp_all add: word_less_nat_alt)
qed

section \<open>A shard at rest\<close>

locale quiet_probes =
  fixes media :: "'s wal_media" and shard :: u32 and s :: 's and held :: "u64 \<Rightarrow> bool"
  assumes present_owner: "media_present media shard q s = (Ok (held q), s)"
begin

lemma present_held: "present media shard q s = (Ok (held q), s)"
  using present_owner by (simp add: present_def smap_err_def)

lemma present_then: "sbind (present media shard q) f s = f (held q) s"
  by (simp add: sbind_def present_held)

lemma gallop_finds:
  assumes "held lo" "0 < step" and bound: "\<And>q. held q \<Longrightarrow> unat q \<le> bnd" "bnd < 2 ^ 64 - 1"
  shows "\<exists>lo' hi. sloop (gallop_turn media shard) (lo, step) s = Some (Ok (lo', hi), s) \<and>
    held lo' \<and> \<not> held hi \<and> lo' < hi \<and> lo \<le> lo'"
  using assms(1,2)
proof (induction "bnd - unat lo" arbitrary: lo step rule: less_induct)
  case less
  let ?probe = "saturating_add lo step"
  have "unat lo \<le> bnd" using bound(1) less.prems(1) .
  then have "lo \<noteq> - 1" using bound(2) by (auto simp: unsigned_minus_1_eq_mask mask_eq_exp_minus_1)
  then have up: "lo < ?probe" using saturating_add_above less.prems(2) by blast
  have turn: "gallop_turn media shard (lo, step) s =
      (Ok (if \<not> held ?probe then Inr (lo, ?probe) else Inl (?probe, saturating_mul step 2)), s)"
    unfolding gallop_turn_def Let_def prod.case by (simp add: present_then sret_def)
  show ?case
  proof (cases "held ?probe")
    case True
    have "bnd - unat ?probe < bnd - unat lo"
      using up bound(1) [OF True] by (simp add: word_less_nat_alt)
    from less.hyps [OF this True saturating_mul_pos [OF less.prems(2)]] obtain lo' hi where
      "sloop (gallop_turn media shard) (?probe, saturating_mul step 2) s = Some (Ok (lo', hi), s)"
      "held lo'" "\<not> held hi" "lo' < hi" "?probe \<le> lo'" by blast
    moreover have "sloop (gallop_turn media shard) (lo, step) s =
        sloop (gallop_turn media shard) (?probe, saturating_mul step 2) s"
      using turn True by (intro sloop_continue) simp
    ultimately show ?thesis using up by fastforce
  next
    case False
    then have "sloop (gallop_turn media shard) (lo, step) s = Some (Ok (lo, ?probe), s)"
      using turn by (intro sloop_leave) simp
    with False less.prems(1) up show ?thesis by blast
  qed
qed

lemma binary_search_finds:
  assumes "held lo" "\<not> held hi" "lo < hi"
  shows "\<exists>lo'. binary_search (present media shard) lo hi s = (Ok (lo', lo' + 1), s) \<and>
    held lo' \<and> \<not> held (lo' + 1) \<and> lo \<le> lo'"
  using assms
proof (induction "unat (hi - lo)" arbitrary: lo hi rule: less_induct)
  case less
  show ?case
  proof (cases "hi - lo > 1")
    case True
    let ?mid = "lo + (hi - lo) div 2"
    note b = mid_between [OF less.prems(3) True]
    have step: "binary_search (present media shard) lo hi s =
        (if held ?mid then binary_search (present media shard) ?mid hi else binary_search (present media shard) lo ?mid) s"
      using True by (subst binary_search.simps) (simp add: Let_def present_then)
    show ?thesis
    proof (cases "held ?mid")
      case True
      have "unat (hi - ?mid) < unat (hi - lo)" using halves_smaller(2) [OF \<open>hi - lo > 1\<close>] by (simp only: diff_diff_eq)
      from less.hyps [OF this True less.prems(2) b(2)] step True b(1) show ?thesis by fastforce
    next
      case False
      have "unat (?mid - lo) < unat (hi - lo)" using halves_smaller(1) [OF \<open>hi - lo > 1\<close>] by simp
      from less.hyps [OF this less.prems(1) False b(1)] step False show ?thesis by simp
    qed
  next
    case False
    have "hi - lo = 1"
    proof (rule word_unat_eq_iff [THEN iffD2])
      have "unat (hi - lo) = unat hi - unat lo" using less.prems(3) by (simp add: unat_sub)
      moreover have "unat (hi - lo) \<le> 1" using False by (simp add: word_less_nat_alt)
      ultimately show "unat (hi - lo) = unat (1 :: u64)" using less.prems(3) by (simp add: word_less_nat_alt)
    qed
    then have hi: "hi = lo + 1" by (simp add: algebra_simps)
    with False less.prems show ?thesis by (subst binary_search.simps) (simp add: sret_def)
  qed
qed

lemma probe_all_held: "probe_all (media_present media shard) qs s = (map (\<lambda>q. Ok (held q)) qs, s)"
  by (induction qs) (simp_all add: present_owner)

lemma collect_results_Ok: "collect_results (map (\<lambda>x. Ok (f x)) xs) = Ok (map f xs)"
  by (induction xs) simp_all

lemma probe_chunks_held:
  assumes "c \<le> n" "n * PROBE_WIDTH < len + PROBE_WIDTH"
  shows "probe_chunks media shard from len [c..<n] (map (\<lambda>i. Ok (held (from + of_nat i))) [0..<min len (c * PROBE_WIDTH)]) s =
    (Ok (map (\<lambda>i. held (from + of_nat i)) [0..<min len (n * PROBE_WIDTH)]), s)"
  using assms(1)
proof (induction "n - c" arbitrary: c)
  case 0
  then show ?case using collect_results_Ok by (simp add: sret_def)
next
  case (Suc d)
  then have c: "c < n" "[c..<n] = c # [Suc c..<n]" by (simp_all add: upt_conv_Cons)
  then have "Suc c * PROBE_WIDTH \<le> n * PROBE_WIDTH" by (intro mult_le_mono1) simp
  then have len: "c * PROBE_WIDTH \<le> len" using assms(2) by (simp add: algebra_simps)
  let ?w = "min PROBE_WIDTH (len - c * PROBE_WIDTH)"
  have chunk: "[0..<min len (Suc c * PROBE_WIDTH)] = [0..<c * PROBE_WIDTH] @ map (\<lambda>i. i + c * PROBE_WIDTH) [0..<?w]"
  proof -
    have "min len (Suc c * PROBE_WIDTH) = c * PROBE_WIDTH + ?w" using len by (simp add: min_def) linarith
    then show ?thesis by (metis upt_add_eq_append map_add_upt le0 add.commute add.right_neutral)
  qed
  have out: "map (\<lambda>i. Ok (held (from + of_nat i))) [0..<min len (c * PROBE_WIDTH)] @
      map (\<lambda>q. Ok (held q)) (map (\<lambda>i. from + of_nat (c * PROBE_WIDTH) + of_nat i) [0..<?w]) =
      map (\<lambda>i. Ok (held (from + of_nat i))) [0..<min len (Suc c * PROBE_WIDTH)]"
    unfolding chunk using len by (simp add: min_absorb2 algebra_simps)
  have no_panic: "Panic \<notin> set (map (\<lambda>q. Ok (held q)) qs)" for qs by auto
  have "d = n - Suc c" "Suc c \<le> n" using Suc.hyps(2) c(1) by simp_all
  from Suc.hyps(1) [OF this] show ?case
    unfolding c(2) probe_chunks.simps Let_def probe_all_held prod.case if_not_P [OF no_panic] out .
qed

lemma probe_window_held: "probe_window media shard from len s = (Ok (map (\<lambda>i. held (from + of_nat i)) [0..<len]), s)"
proof -
  let ?n = "(len + PROBE_WIDTH - 1) div PROBE_WIDTH"
  have w: "len \<le> ?n * PROBE_WIDTH" "?n * PROBE_WIDTH < len + PROBE_WIDTH" by (simp_all add: PROBE_WIDTH_def)
  have "probe_chunks media shard from len [0..<?n] [] s = (Ok (map (\<lambda>i. held (from + of_nat i)) [0..<len]), s)"
    using probe_chunks_held [of 0 ?n len "from"] w by (simp add: min_absorb1 del: div_mult_self1 div_mult_self2)
  then show ?thesis by (simp add: probe_window_def sret_def present_then One_nat_def)
qed

end

lemma first_absent_None: "(\<And>i. i < length ps \<Longrightarrow> ps ! i) \<Longrightarrow> first_absent base k ps = None"
proof (induction ps arbitrary: k)
  case (Cons p ps)
  then show ?case using Cons.prems [of 0] Cons.prems [of "Suc _"] by simp
qed simp

lemma first_absent_Some:
  assumes "j < length ps" "\<not> ps ! j" "\<And>i. i < j \<Longrightarrow> ps ! i"
  shows "first_absent base k ps = Some (base + of_nat (k + j) - 1)"
  using assms
proof (induction ps arbitrary: j k)
  case (Cons p ps)
  show ?case
  proof (cases j)
    case 0
    with Cons.prems show ?thesis by simp
  next
    case (Suc j')
    then have "p" using Cons.prems(3) [of 0] by simp
    moreover have "first_absent base (Suc k) ps = Some (base + of_nat (Suc k + j') - 1)"
      using Cons.prems Suc Cons.prems(3) [of "Suc _"] by (intro Cons.IH) auto
    ultimately show ?thesis using Suc by simp
  qed
qed simp

context quiet_probes
begin

text \<open>The backscan from a present position with an absent successor.\<close>

lemma backscan_hole:
  assumes "floor < hole" and below: "\<And>q. floor < q \<Longrightarrow> q < hole \<Longrightarrow> held q" and hole: "\<not> held hole"
    and lo: "held lo" "\<not> held (lo + 1)" "floor + 1 \<le> lo" "unat lo \<le> unat hole + MAX_INFLIGHT" "unat lo < 2 ^ 64 - 1"
  shows "backscan media shard floor lo s = (Ok (hole - 1), s)"
proof -
  define base where "base = max (floor + 1) (saturating_sub lo (of_nat MAX_INFLIGHT))"
  have floor1: "unat (floor + 1) = unat floor + 1" using assms(1) unat_bound [of hole]
    by (simp add: unat_word_ariths word_less_nat_alt)
  have sub: "unat (saturating_sub lo (of_nat MAX_INFLIGHT)) = unat lo - 64"
    by (auto simp: saturating_sub_def MAX_INFLIGHT_def unat_sub word_le_nat_alt word_less_nat_alt)
  have base: "unat base = max (unat floor + 1) (unat lo - 64)"
    unfolding base_def using floor1 sub by (simp add: max_def word_le_nat_alt)
  have lo1: "unat floor + 1 \<le> unat lo" using lo(3) floor1 by (simp add: word_le_nat_alt)
  then have le: "unat base \<le> unat lo" using base by simp
  have len: "unat (lo - base + 1) = unat lo - unat base + 1"
    using le lo(5) by (simp add: unat_word_ariths(1) unat_sub word_le_nat_alt)
  define window where "window = map (\<lambda>i. held (base + of_nat i)) [0..<unat (lo - base + 1)]"
  have scan: "backscan media shard floor lo s = (Ok (case first_absent base 0 window of Some q \<Rightarrow> q | None \<Rightarrow> lo), s)"
    unfolding backscan_def Let_def base_def [symmetric]
    by (simp add: sbind_def probe_window_held window_def sret_def)
  have at: "unat (base + of_nat i) = unat base + i" if "i \<le> unat lo - unat base" for i
  proof -
    have "unat base + i < 2 ^ 64" using that le unat_bound [of lo] by simp
    then show ?thesis by (simp add: unat_word_ariths(1) unat_of_nat)
  qed
  have nth: "window ! i = held (base + of_nat i)" if "i \<le> unat lo - unat base" for i
    using that len by (simp add: window_def del: upt_Suc)
  have early: "held (base + of_nat i)" if "i \<le> unat lo - unat base" "unat base + i < unat hole" for i
  proof (rule below)
    have "unat floor < unat base" using base by simp
    then show "floor < base + of_nat i" "base + of_nat i < hole"
      using that at [OF that(1)] by (simp_all add: word_less_nat_alt)
  qed
  have "lo \<noteq> hole" using lo(1) hole by auto
  show ?thesis
  proof (cases "lo < hole")
    case True
    have "first_absent base 0 window = None"
    proof (rule first_absent_None)
      fix i assume "i < length window"
      then have "i \<le> unat lo - unat base" using len by (simp add: window_def)
      then show "window ! i" using nth early True le by (simp add: word_less_nat_alt)
    qed
    moreover have "hole = lo + 1"
    proof (rule ccontr)
      assume "hole \<noteq> lo + 1"
      moreover have "unat (lo + 1) = unat lo + 1" using lo(5) by (simp add: unat_word_ariths(1))
      ultimately have "lo + 1 < hole" "floor < lo + 1"
        using True lo1 by (auto simp: word_less_nat_alt word_unat_eq_iff)
      then show False using below lo(2) by blast
    qed
    ultimately show ?thesis using scan by simp
  next
    case False
    with \<open>lo \<noteq> hole\<close> have "unat hole < unat lo" by (simp add: word_less_nat_alt word_unat_eq_iff)
    moreover have "unat base \<le> unat hole" using base lo(4) assms(1) by (simp add: MAX_INFLIGHT_def word_less_nat_alt)
    ultimately have j: "unat hole - unat base \<le> unat lo - unat base" "base + of_nat (unat hole - unat base) = hole"
      using at [of "unat hole - unat base"] by (simp_all add: word_unat_eq_iff)
    have "first_absent base 0 window = Some (base + of_nat (0 + (unat hole - unat base)) - 1)"
    proof (rule first_absent_Some)
      show "unat hole - unat base < length window" using j(1) len by (simp add: window_def)
      show "\<not> window ! (unat hole - unat base)" using nth [OF j(1)] j(2) hole by simp
      show "window ! i" if "i < unat hole - unat base" for i using that j(1) nth [of i] early [of i] by simp
    qed
    then show ?thesis using scan j(2) by simp
  qed
qed

lemma chain_head_hole:
  assumes "floor < hole" and below: "\<And>q. floor < q \<Longrightarrow> q < hole \<Longrightarrow> held q" and hole: "\<not> held hole"
    and near: "\<And>q. held q \<Longrightarrow> unat q \<le> unat hole + MAX_INFLIGHT" "unat hole + MAX_INFLIGHT < 2 ^ 64 - 1"
  shows "chain_head media shard floor s = Some (Ok (hole - 1), s)"
proof -
  have floor1: "unat (floor + 1) = unat floor + 1" using assms(1) unat_bound [of hole]
    by (simp add: unat_word_ariths word_less_nat_alt)
  note first = present_held [of "floor + 1"]
  show ?thesis
  proof (cases "held (floor + 1)")
    case False
    have "hole = floor + 1"
    proof (rule ccontr)
      assume "hole \<noteq> floor + 1"
      then have "floor + 1 < hole" "floor < floor + 1"
        using assms(1) floor1 by (auto simp: word_less_nat_alt word_unat_eq_iff)
      then show False using below False by blast
    qed
    then show ?thesis using False by (simp add: chain_head_def pbind_def first pcall_def sret_def)
  next
    case True
    from gallop_finds [OF True, of 1 "unat hole + MAX_INFLIGHT"] near obtain lo hi where
      g: "sloop (gallop_turn media shard) (floor + 1, 1) s = Some (Ok (lo, hi), s)"
      "held lo" "\<not> held hi" "lo < hi" "floor + 1 \<le> lo" by auto
    from binary_search_finds [OF g(2-4)] obtain lo' where
      b: "binary_search (present media shard) lo hi s = (Ok (lo', lo' + 1), s)"
      "held lo'" "\<not> held (lo' + 1)" "lo \<le> lo'" by blast
    have "backscan media shard floor lo' s = (Ok (hole - 1), s)"
      using assms(1) below hole b(2,3) order_trans [OF g(5) b(4)] near(1) [OF b(2)] le_less_trans [OF near(1) [OF b(2)] near(2)]
      by (rule backscan_hole)
    then show ?thesis
      using True g(1) b(1) by (simp add: chain_head_def pbind_def first pcall_def sbind_def)
  qed
qed

end

text \<open>A log at rest, with its owners: probing tells them from holes, and a fetch answers them.\<close>

locale quiet_chain = quiet_probes media shard s "\<lambda>q. owner q \<noteq> None"
  for media :: "'s wal_media" and shard :: u32 and s :: 's and owner :: "u64 \<Rightarrow> bytes option" +
  assumes fetch_owner: "media_fetch media shard q s = (Ok (owner q), s)"
begin

lemma fetch_then: "sbind (smap_err g (media_fetch media shard q)) f s = f (owner q) s"
  by (simp add: sbind_def smap_err_def fetch_owner)

lemma owner_head:
  assumes "floor < hole" "\<And>q. floor < q \<Longrightarrow> q < hole \<Longrightarrow> owner q \<noteq> None" "owner hole = None"
    and "\<And>q. owner q \<noteq> None \<Longrightarrow> unat q \<le> unat hole + MAX_INFLIGHT" "unat hole + MAX_INFLIGHT < 2 ^ 64 - 1"
  shows "chain_head media shard floor s = Some (Ok (hole - 1), s)"
  using assms by (intro chain_head_hole) auto

end

section \<open>The recovery read\<close>

text \<open>Decoded segments that follow one another from a position and a digest.\<close>

fun linked :: "externals \<Rightarrow> u32 \<Rightarrow> u64 \<Rightarrow> u64 \<Rightarrow> chain_segment list \<Rightarrow> bool" where
  "linked ext shard q digest [] \<longleftrightarrow> True"
| "linked ext shard q digest (g # gs) \<longleftrightarrow>
     cg_seq g = q \<and> sg_shard (cg_header g) = shard \<and> sg_seq (cg_header g) = q \<and> sg_prev_digest (cg_header g) = digest \<and>
     linked ext shard (q + 1) (tenants_digest ext (sf_tenants (cg_footer g))) gs"

definition segment_at :: "externals \<Rightarrow> bytes option \<Rightarrow> chain_segment \<Rightarrow> bool" where
  "segment_at ext x g \<longleftrightarrow>
     (\<exists>bytes. x = Some bytes \<and> decode_segment ext bytes = Ok (cg_header g, cg_frames g, cg_footer g))"

definition push_segment :: "chain_segment \<Rightarrow> chain_segment list \<Rightarrow> (bool \<times> chain_segment list, chain_error) outcome" where
  "push_segment segment out = Ok (True, out @ [segment])"

context quiet_chain
begin

lemma walk_reads:
  assumes "linked ext shard q digest gs" "\<And>i. i < length gs \<Longrightarrow> segment_at ext (owner (q + of_nat i)) (gs ! i)"
    and "owner (q + of_nat (length gs)) = None"
  shows "\<exists>cursor. sloop (walk_turn ext c media shard (\<lambda>e. e) push_segment) (\<lparr>cu_seq = q, cu_prev_digest = digest\<rparr>, out) s =
    Some (Ok (cursor, out @ gs), s)"
  using assms
proof (induction gs arbitrary: q digest out)
  case Nil
  then have "walk_turn ext c media shard (\<lambda>e. e) push_segment (\<lparr>cu_seq = q, cu_prev_digest = digest\<rparr>, out) s =
      (Ok (Inr (\<lparr>cu_seq = q, cu_prev_digest = digest\<rparr>, out)), s)"
    by (simp add: walk_turn_def Let_def fetch_then sret_def)
  from sloop_leave [where turn = "walk_turn ext c media shard (\<lambda>e. e) push_segment", OF this] show ?case
    unfolding append_Nil2 by blast
next
  case (Cons g gs)
  let ?d = "tenants_digest ext (sf_tenants (cg_footer g))"
  from Cons.prems(2) [of 0] obtain bytes where bytes: "owner q = Some bytes"
    "decode_segment ext bytes = Ok (cg_header g, cg_frames g, cg_footer g)" by (auto simp: segment_at_def)
  have "\<lparr>cg_seq = q, cg_header = cg_header g, cg_frames = cg_frames g, cg_footer = cg_footer g\<rparr> = g"
    using Cons.prems(1) by simp
  then have "walk_turn ext c media shard (\<lambda>e. e) push_segment (\<lparr>cu_seq = q, cu_prev_digest = digest\<rparr>, out) s =
      (Ok (Inl (\<lparr>cu_seq = q + 1, cu_prev_digest = ?d\<rparr>, out @ [g])), s)"
    using Cons.prems(1) bytes by (simp add: walk_turn_def Let_def fetch_then sret_def push_segment_def)
  note turn = sloop_continue [where turn = "walk_turn ext c media shard (\<lambda>e. e) push_segment", OF this]
  have "segment_at ext (owner (q + 1 + of_nat i)) (gs ! i)" if "i < length gs" for i
    using Cons.prems(2) [of "Suc i"] that by (simp add: add.assoc)
  moreover have "owner (q + 1 + of_nat (length gs)) = None" using Cons.prems(3) by (simp add: add.assoc)
  ultimately obtain cursor where
    "sloop (walk_turn ext c media shard (\<lambda>e. e) push_segment) (\<lparr>cu_seq = q + 1, cu_prev_digest = ?d\<rparr>, out @ [g]) s =
      Some (Ok (cursor, (out @ [g]) @ gs), s)"
    using Cons.IH [of "q + 1" ?d "out @ [g]"] Cons.prems(1) by auto
  then show ?case unfolding turn append.assoc append_Cons append_Nil by blast
qed

lemma read_chain_linked_reads:
  assumes "linked ext shard (q + 1) digest gs" "\<And>i. i < length gs \<Longrightarrow> segment_at ext (owner (q + 1 + of_nat i)) (gs ! i)"
    and "owner (q + 1 + of_nat (length gs)) = None"
  shows "read_chain_linked ext c media shard q digest s = Some (Ok gs, s)"
proof -
  have sink: "(\<lambda>segment out. Ok (True, out @ [segment])) = push_segment" by (simp add: push_segment_def fun_eq_iff)
  from walk_reads [OF assms, of c "[]"] obtain cursor where
    "sloop (walk_turn ext c media shard (\<lambda>e. e) push_segment) (\<lparr>cu_seq = q + 1, cu_prev_digest = digest\<rparr>, []) s =
      Some (Ok (cursor, gs), s)" by auto
  then show ?thesis
    by (simp add: read_chain_linked_def walk_chain_linked_def sink pbind_def pcall_def sret_def)
qed

end

section \<open>The windows of a sequencer\<close>

definition frames_ok :: "sequencer \<Rightarrow> bool" where
  "frames_ok sq \<longleftrightarrow> (\<forall>fs \<in> set (sq_appends sq). \<forall>f \<in> set fs. frame_ok f)"

definition segments_small :: "sequencer \<Rightarrow> bool" where
  "segments_small sq \<longleftrightarrow> (\<forall>w \<in> set (sq_windows sq). length (wi_segment w) < 2 ^ 32)"

definition window_frames :: "seq_window \<Rightarrow> frame2 list" where
  "window_frames w = map st_frame (ba_frames (wi_batch w))"

lemma stage_frames_staged_ok:
  "stage_frames ext fs = Ok ss \<Longrightarrow> (\<And>f. f \<in> set fs \<Longrightarrow> frame_ok f) \<Longrightarrow> list_all (staged_ok ext) ss"
proof (induction fs arbitrary: ss)
  case (Cons f fs)
  from Cons.prems(1) obtain wire ss' where "frame_encode ext f = Ok wire" "stage_frames ext fs = Ok ss'"
    "ss = \<lparr>st_frame = f, st_wire = wire\<rparr> # ss'"
    by (cases "frame_encode ext f"; cases "stage_frames ext fs") auto
  with Cons show ?case by (auto simp: staged_ok_def)
qed simp

lemma batch_staged_ok:
  assumes "batch_holds ext appends b" "\<And>fs f. fs \<in> set appends \<Longrightarrow> f \<in> set fs \<Longrightarrow> frame_ok f"
  shows "list_all (staged_ok ext) (ba_frames b)"
proof -
  obtain sss where sss: "ba_frames b = concat sss" "list_all2 (\<lambda>(t, l) ss. t < length appends \<and> appends ! t \<noteq> [] \<and>
      stage_frames ext (appends ! t) = Ok ss \<and> l = Max (fr_end_lsn ` set (appends ! t))) (ba_tickets b) sss"
    using assms(1) unfolding batch_holds_def by blast
  have "list_all (staged_ok ext) ss" if "ss \<in> set sss" for ss
  proof -
    from that obtain n where n: "n < length sss" "ss = sss ! n" by (auto simp: in_set_conv_nth)
    obtain t l where "ba_tickets b ! n = (t, l)" by fastforce
    with sss(2) n have "t < length appends" "stage_frames ext (appends ! t) = Ok ss"
      by (auto simp: list_all2_conv_all_nth)
    then show ?thesis using assms(2) [of "appends ! t"] by (intro stage_frames_staged_ok) auto
  qed
  then show ?thesis unfolding sss(1) by (auto simp: list_all_iff)
qed

text \<open>The windows of a run, read back.\<close>

lemma windows_read_back:
  assumes ext: "lz4_faithful ext" "lz4_bounded ext" and run: "seq_reach ext shard cfg first digest sq"
    and frames: "frames_ok sq" and small: "segments_small sq" and "n \<le> length (sq_windows sq)"
  obtains gs where "length gs = n" "map cg_frames gs = map window_frames (take n (sq_windows sq))"
    "linked ext shard first digest gs"
    "\<forall>i < n. segment_at ext (Some (wi_segment (sq_windows sq ! i))) (gs ! i) \<and> sg_kind (cg_header (gs ! i)) = Landing"
proof -
  note p = seq_inv_landing [OF seq_reach_inv [OF run]]
  have window: "\<exists>g. cg_seq g = first + of_nat i \<and> cg_header g = \<lparr>sg_kind = Landing, sg_shard = shard, sg_seq = first + of_nat i,
        sg_prev_digest = (if i = 0 then digest else wi_digest (sq_windows sq ! (i - 1)))\<rparr> \<and>
      tenants_digest ext (sf_tenants (cg_footer g)) = wi_digest (sq_windows sq ! i) \<and>
      cg_frames g = window_frames (sq_windows sq ! i) \<and>
      segment_at ext (Some (wi_segment (sq_windows sq ! i))) g" if "i < length (sq_windows sq)" for i
  proof -
    let ?w = "sq_windows sq ! i"
    let ?h = "\<lparr>sg_kind = Landing, sg_shard = shard, sg_seq = first + of_nat i,
        sg_prev_digest = (if i = 0 then digest else wi_digest (sq_windows sq ! (i - 1)))\<rparr>"
    from p(3) that obtain ts where ts: "build_segment ext shard (first + of_nat i) (sg_prev_digest ?h) (wi_batch ?w) = Ok (wi_segment ?w, ts)"
      "wi_digest ?w = tenants_digest ext ts" unfolding chain_from_def by fastforce
    have "batch_holds ext (sq_appends sq) (wi_batch ?w)" using p(5) that by (simp add: inv_tickets_def batches_def)
    then have "list_all (staged_ok ext) (ba_frames (wi_batch ?w))"
      using frames by (rule_tac batch_staged_ok) (auto simp: frames_ok_def)
    from finished_window(1) [OF ext this, of ?h "wi_segment ?w" ts] ts(1) small that
    have "decode_segment ext (wi_segment ?w) =
        Ok (?h, window_frames ?w, \<lparr>sf_frame_count = of_nat (length (ba_frames (wi_batch ?w))), sf_tenants = ts\<rparr>)"
      by (auto simp: build_segment_def window_frames_def segments_small_def)
    then show ?thesis using ts(2)
      by (intro exI [of _ "\<lparr>cg_seq = first + of_nat i, cg_header = ?h, cg_frames = window_frames ?w,
          cg_footer = \<lparr>sf_frame_count = of_nat (length (ba_frames (wi_batch ?w))), sf_tenants = ts\<rparr>\<rparr>"])
        (simp add: segment_at_def)
  qed
  then obtain g where g: "\<And>i. i < length (sq_windows sq) \<Longrightarrow> cg_seq (g i) = first + of_nat i \<and>
      cg_header (g i) = \<lparr>sg_kind = Landing, sg_shard = shard, sg_seq = first + of_nat i,
        sg_prev_digest = (if i = 0 then digest else wi_digest (sq_windows sq ! (i - 1)))\<rparr> \<and>
      tenants_digest ext (sf_tenants (cg_footer (g i))) = wi_digest (sq_windows sq ! i) \<and>
      cg_frames (g i) = window_frames (sq_windows sq ! i) \<and>
      segment_at ext (Some (wi_segment (sq_windows sq ! i))) (g i)" by metis
  have "linked ext shard (first + of_nat k) (if k = 0 then digest else wi_digest (sq_windows sq ! (k - 1))) (map g [k..<n])"
    if "k \<le> n" for k
    using that
  proof (induction "n - k" arbitrary: k)
    case (Suc d)
    then have "[k..<n] = k # [Suc k..<n]" "k < length (sq_windows sq)" using assms(6) by (simp_all add: upt_conv_Cons)
    then show ?case using Suc.hyps(1) [of "Suc k"] Suc.hyps(2) g [of k] by (simp add: add.assoc [symmetric] add.commute [of 1])
  qed simp
  from this [of 0] have "linked ext shard first digest (map g [0..<n])" by simp
  moreover have "map cg_frames (map g [0..<n]) = map window_frames (take n (sq_windows sq))"
    using g assms(6) by (simp add: list_eq_iff_nth_eq)
  ultimately show thesis using that [of "map g [0..<n]"] g assms(6) by simp
qed

section \<open>What a run left durable\<close>

text \<open>The first hole of the durable segments.\<close>

definition durable_upto :: "u64 \<Rightarrow> nat \<Rightarrow> sequencer \<Rightarrow> bool" where
  "durable_upto first n sq \<longleftrightarrow>
     n \<le> length (sq_windows sq) \<and> bt_get (sq_durable sq) (first + of_nat n) = None \<and>
     (\<forall>i < n. bt_get (sq_durable sq) (first + of_nat i) = Some (wi_segment (sq_windows sq ! i)))"

lemma seq_at:
  assumes "seq_reach ext shard cfg first digest sq" "i \<le> length (sq_windows sq)"
  shows "unat (first + of_nat i) = unat first + i"
  using assms(2) seq_inv_landing(4) [OF seq_reach_inv [OF assms(1)]] by (simp add: unat_word_ariths(1) unat_of_nat)

lemma durable_window:
  assumes run: "seq_reach ext shard cfg first digest sq" and "i \<le> length (sq_windows sq)"
    and seg: "bt_get (sq_durable sq) (first + of_nat i) = Some seg"
  shows "i < length (sq_windows sq)" "seg = wi_segment (sq_windows sq ! i)"
proof -
  note p = seq_inv_landing [OF seq_reach_inv [OF run]]
  from p(6) seg obtain j where j: "j < length (sq_windows sq)" "first + of_nat i = first + (of_nat j :: u64)"
    "seg = wi_segment (sq_windows sq ! j)" unfolding inv_durable_def by metis
  then have "i = j" using seq_at [OF run, of i] seq_at [OF run, of j] assms(2) by (metis add_left_cancel less_imp_le_nat)
  with j show "i < length (sq_windows sq)" "seg = wi_segment (sq_windows sq ! i)" by simp_all
qed

lemma durable_prefix:
  assumes "seq_reach ext shard cfg first digest sq"
  obtains n where "durable_upto first n sq"
proof -
  let ?free = "\<lambda>i. bt_get (sq_durable sq) (first + of_nat i) = None"
  have end_free: "?free (length (sq_windows sq))"
    using durable_window(1) [OF assms, of "length (sq_windows sq)"] by fastforce
  define n where "n = (LEAST i. ?free i)"
  have n: "?free n" "n \<le> length (sq_windows sq)" unfolding n_def using end_free by (rule LeastI, rule Least_le)
  have "bt_get (sq_durable sq) (first + of_nat i) = Some (wi_segment (sq_windows sq ! i))" if "i < n" for i
  proof -
    have "\<not> ?free i" using not_less_Least that unfolding n_def by blast
    then show ?thesis using durable_window(2) [OF assms, of i] that n(2) by fastforce
  qed
  with n show thesis using that [of n] by (simp add: durable_upto_def)
qed

lemma durable_uptoD:
  assumes "seq_reach ext shard cfg first digest sq" "durable_upto first n sq"
  shows "n \<le> length (sq_windows sq)" "unat (first + of_nat n) = unat first + n" "\<And>i. i \<le> n \<Longrightarrow> first \<le> first + of_nat i"
    "\<And>i. i < n \<Longrightarrow> bt_get (sq_durable sq) (first + of_nat i) = Some (wi_segment (sq_windows sq ! i))"
    "bt_get (sq_durable sq) (first + of_nat n) = None"
proof -
  show n: "n \<le> length (sq_windows sq)" using assms(2) by (simp add: durable_upto_def)
  then show "unat (first + of_nat n) = unat first + n" by (rule seq_at [OF assms(1)])
  show "first \<le> first + of_nat i" if "i \<le> n" for i
    using seq_at [OF assms(1), of i] that n by (simp add: word_le_nat_alt)
qed (use assms(2) in \<open>simp_all add: durable_upto_def\<close>)

lemma durable_below:
  assumes run: "seq_reach ext shard cfg first digest sq" and n: "durable_upto first n sq"
    and "1 \<le> unat first" "first - 1 < q" "q < first + of_nat n"
  shows "first \<le> q \<and> bt_get (sq_durable sq) q \<noteq> None"
proof -
  note at = durable_uptoD [OF run n]
  define i where "i = unat q - unat first"
  have "unat (first - 1) = unat first - 1" using assms(3) by (simp add: unat_sub word_le_nat_alt)
  then have i: "i < n" "unat q = unat first + i" using assms(3-) at(2) by (simp_all add: i_def word_less_nat_alt)
  then have "q = first + of_nat i" using seq_at [OF run, of i] at(1) by (simp add: word_unat_eq_iff)
  then show ?thesis using at(3) [of i] at(4) [OF i(1)] i(1) by simp
qed

lemma durable_near:
  assumes run: "seq_reach ext shard cfg first digest sq" and n: "durable_upto first n sq"
    and own: "\<And>q. first \<le> q \<Longrightarrow> owner q = bt_get (sq_durable sq) q" and "owner q \<noteq> None"
  shows "unat q \<le> unat (first + of_nat n) + MAX_INFLIGHT"
proof (cases "first \<le> q")
  case True
  then have "bt_get (sq_durable sq) q \<noteq> None" using assms(4) own by simp
  from straggler_bound(2) [OF run durable_uptoD(5) [OF run n] this] show ?thesis using durable_uptoD(2) [OF run n] by simp
qed (use durable_uptoD(2) [OF run n] in \<open>simp add: word_le_nat_alt\<close>)

lemma recovered_head:
  assumes run: "seq_reach ext shard cfg first digest sq" and n: "durable_upto first n sq"
    and q: "quiet_chain media shard s owner" and own: "\<And>q. first \<le> q \<Longrightarrow> owner q = bt_get (sq_durable sq) q"
    and "0 < first" "unat first + length (sq_windows sq) + MAX_INFLIGHT < 2 ^ 64 - 1"
  shows "chain_head media shard (first - 1) s = Some (Ok (first + of_nat n - 1), s)"
proof (rule quiet_chain.owner_head [OF q])
  note at = durable_uptoD [OF run n]
  have first1: "unat (first - 1) = unat first - 1" "1 \<le> unat first" using assms(5)
    by (simp_all add: unat_sub word_le_nat_alt word_less_nat_alt)
  show "first - 1 < first + of_nat n" using first1 at(2) by (simp add: word_less_nat_alt)
  show "owner (first + of_nat n) = None" using at(5) own [OF at(3)] by simp
  show "unat (first + of_nat n) + MAX_INFLIGHT < 2 ^ 64 - 1" using assms(6) at(1,2) by simp
  show "owner q \<noteq> None" if "first - 1 < q" "q < first + of_nat n" for q
    using durable_below [OF run n first1(2) that] own by simp
  show "unat q \<le> unat (first + of_nat n) + MAX_INFLIGHT" if "owner q \<noteq> None" for q
    using durable_near [OF run n own that] by simp
qed

lemma acked_in_prefix:
  assumes run: "seq_reach ext shard cfg first digest sq" and n: "durable_upto first n sq"
    and t: "t < length (sq_cells sq)" "try_wait t sq = Some (Ok l)"
  obtains i where "i < n" "set (sq_appends sq ! t) \<subseteq> set (window_frames (sq_windows sq ! i))"
proof -
  note inv = seq_reach_inv [OF run]
  note p = seq_inv_landing [OF inv]
  from inv obtain k where A: "inv_ack cfg first k sq" by (auto simp: seq_inv_def)
  from acked_window [OF inv A t(1)] t(2) obtain i where
    i: "i < k" "(t, l) \<in> set (ba_tickets (wi_batch (sq_windows sq ! i)))" by (auto simp: try_wait_def)
  have "i < n"
  proof (rule ccontr)
    assume "\<not> i < n"
    then have "n < k" using i(1) by simp
    from acked_durable [OF inv A this] durable_uptoD(5) [OF run n] show False by simp
  qed
  moreover have "set (sq_appends sq ! t) \<subseteq> set (window_frames (sq_windows sq ! i))"
    using batch_holds_in(2) [OF _ i(2), of ext "sq_appends sq"] p(5) i(1) A
    by (auto simp: window_frames_def inv_tickets_def batches_def inv_ack_def)
  ultimately show thesis using that by blast
qed

lemma window_frames_appended:
  assumes run: "seq_reach ext shard cfg first digest sq" and w: "w \<in> set (sq_windows sq)"
  shows "set (window_frames w) \<subseteq> \<Union> (set ` set (sq_appends sq))"
proof
  fix f assume "f \<in> set (window_frames w)"
  then obtain x where x: "x \<in> set (ba_frames (wi_batch w))" "f = st_frame x" by (auto simp: window_frames_def)
  have "batch_holds ext (sq_appends sq) (wi_batch w)"
    using seq_inv_landing(5) [OF seq_reach_inv [OF run]] w by (auto simp: inv_tickets_def batches_def)
  from batch_frames_from [OF this x(1)] show "f \<in> \<Union> (set ` set (sq_appends sq))" using x(2) by (metis UN_I nth_mem)
qed

lemma acked_in_read:
  assumes run: "seq_reach ext shard cfg first digest sq" and n: "durable_upto first n sq"
    and gs: "length gs = n" "map cg_frames gs = map window_frames (take n (sq_windows sq))"
    and t: "t < length (sq_cells sq)" "try_wait t sq = Some (Ok l)"
  shows "\<exists>g \<in> set gs. set (sq_appends sq ! t) \<subseteq> set (cg_frames g)"
proof -
  from acked_in_prefix [OF run n t] obtain i where
    i: "i < n" "set (sq_appends sq ! t) \<subseteq> set (window_frames (sq_windows sq ! i))" .
  have "cg_frames (gs ! i) = window_frames (sq_windows sq ! i)"
    using arg_cong [OF gs(2), of "\<lambda>xs. xs ! i"] i(1) gs(1) durable_uptoD(1) [OF run n] by simp
  with i gs(1) show ?thesis by (metis nth_mem)
qed

end
