(* ===== verification/Wal_Chain_Properties.thy ===== *)
theory Wal_Chain_Properties
  imports Wal_Chain_Proofs Sample_Codec
begin

text \<open>
  What a reader of a shard's log finds: the head is the position in front of the first hole, and everything a sequencer
  acknowledged comes back from the recovery read. The log in one bucket in memory is the interpretation.
\<close>

section \<open>A log in one bucket\<close>

lemma segment_key_inj: "segment_key shard p = segment_key shard q \<longleftrightarrow> p = q"
proof
  assume "segment_key shard p = segment_key shard q"
  then have "hex_fixed p = hex_fixed q" by (simp add: segment_key_def hex_fixed_def)
  then have "from_str_radix (2 ^ 64) 16 (hex_fixed p) = from_str_radix (2 ^ 64) 16 (hex_fixed q)" by simp
  then show "p = q" using unat_bound [of p] unat_bound [of q] by (simp add: from_hex_fixed word_unat_eq_iff)
qed simp

definition mem_owner :: "u32 \<Rightarrow> mem_store \<Rightarrow> u64 \<Rightarrow> bytes option" where
  "mem_owner shard s q = map_option fst (mem_view s (segment_key shard q))"

interpretation mem_chain: quiet_chain "MSingle mem_ops" shard s "mem_owner shard s" for shard s
proof
  show "media_present (MSingle mem_ops) shard q s = (Ok (mem_owner shard s q \<noteq> None), s)" for q
    by (auto simp: media_present_def Let_def sbind_def get_range_def mem_ops_def mem_get_def mem_owner_def mem_view_def
        sret_def slice_def saturating_add_def split: option.splits prod.splits)
  show "media_fetch (MSingle mem_ops) shard q s = (Ok (mem_owner shard s q), s)" for q
    by (auto simp: media_fetch_def Let_def sbind_def mem_ops_def mem_get_def mem_owner_def mem_view_def sret_def)
qed

text \<open>A bucket that holds given segments and nothing else.\<close>

definition bucket_of :: "u32 \<Rightarrow> (u64, bytes) btree \<Rightarrow> mem_store" where
  "bucket_of shard segs =
     mem_new\<lparr>ms_objects := foldr (\<lambda>(q, bytes). bt_insert (segment_key shard q) (bytes, ''1'')) segs []\<rparr>"

lemma mem_owner_bucket: "mem_owner shard (bucket_of shard segs) q = bt_get segs q"
proof -
  have "map_option fst (bt_get (foldr (\<lambda>(q, bytes). bt_insert (segment_key shard q) (bytes, ''1'')) segs [])
      (segment_key shard q)) = map_of segs q"
    by (induction segs) (auto simp: bt_get_insert segment_key_inj, simp add: bt_get_def)
  then show ?thesis by (simp add: mem_owner_def mem_view_def bucket_of_def bt_get_def)
qed

section \<open>Properties\<close>

text \<open>C16. The head of a log is the position in front of the first hole: when everything from the floor up to a hole has an
  owner, and stragglers reach at most the cap of windows in flight past that hole, galloping, the binary search and
  the backscan of one window return, and they return the position in front of the hole, wherever the search itself ended up.
\<close>

theorem chain_head_first_hole:
  assumes "quiet_chain media shard s owner"
    and "floor < hole" "\<And>q. floor < q \<Longrightarrow> q < hole \<Longrightarrow> owner q \<noteq> None" "owner hole = None"
    and "\<And>q. owner q \<noteq> None \<Longrightarrow> unat q \<le> unat hole + MAX_INFLIGHT" "unat hole + MAX_INFLIGHT < 2 ^ 64 - 1"
  shows "chain_head media shard floor s = Some (Ok (hole - 1), s)"
  using quiet_chain.owner_head [OF assms(1)] assms(2-) by blast

definition holed_log :: "(u64, bytes) btree" where
  "holed_log = [(1, [7]), (2, [7]), (3, [7]), (5, [7]), (66, [7])]"

theorem chain_head_first_hole_witness:
  "chain_head (MSingle mem_ops) 2 0 (bucket_of 2 holed_log) = Some (Ok 3, bucket_of 2 holed_log)"
proof -
  let ?o = "mem_owner 2 (bucket_of 2 holed_log)"
  have o: "?o q \<noteq> None \<longleftrightarrow> q \<in> {1, 2, 3, 5, 66}" for q
    by (auto simp: mem_owner_bucket holed_log_def bt_get_def)
  have "q \<in> {1, 2, 3}" if "0 < q" "q < 4" for q :: u64
  proof -
    have "unat q \<in> {1, 2, 3}" using that by (auto simp: word_less_nat_alt)
    then show ?thesis by (auto simp: word_unat_eq_iff)
  qed
  then have below: "?o q \<noteq> None" if "0 < q" "q < 4" for q using o that by auto
  have hole: "?o 4 = None" using o [of 4] by simp
  have near: "unat q \<le> unat (4 :: u64) + MAX_INFLIGHT" if "?o q \<noteq> None" for q
    using that o [of q] by (auto simp: MAX_INFLIGHT_def)
  from chain_head_first_hole [OF mem_chain.quiet_chain_axioms _ below hole near] show ?thesis
    by (simp add: MAX_INFLIGHT_def)
qed

section \<open>A codec for the shard manifest\<close>

definition chain_codec_faithful :: "chain_codec \<Rightarrow> bool" where
  "chain_codec_faithful c \<longleftrightarrow> (\<forall>m. cc_de c (cc_ser c m) = Inr m)"

definition enc_rounds :: "round_range \<Rightarrow> bytes" where
  "enc_rounds r = to_le (rr_first r) @ to_le (rr_last r)"

definition dec_rounds :: "bytes \<Rightarrow> (round_range \<times> bytes) option" where
  "dec_rounds = dseq dec_word (\<lambda>a. dseq dec_word (\<lambda>b r. Some (\<lparr>rr_first = a, rr_last = b\<rparr>, r)))"

lemma pc_rounds: "pc_ok enc_rounds dec_rounds"
  by (simp add: pc_ok_def [of enc_rounds] enc_rounds_def dec_rounds_def pc_basic)

definition sample_chain_codec :: chain_codec where
  "sample_chain_codec =
     \<lparr>cc_ser = (\<lambda>m. to_le (sm_format m) @ to_le (sm_shard m) @ to_le (sm_chain_epoch m) @ to_le (sm_head m) @
        to_le (sm_consolidated_upto m) @ to_le (sm_consolidated_digest m) @ enc_option enc_rounds (sm_rounds m) @
        to_le (sm_gc_round m) @ enc_string (sm_sealed_by m) @ to_le (sm_sealed_unix m) @ []),
      cc_de = (\<lambda>bs. case dseq dec_word (\<lambda>f. dseq dec_word (\<lambda>s. dseq dec_word (\<lambda>e. dseq dec_word (\<lambda>h. dseq dec_word (\<lambda>u.
        dseq dec_word (\<lambda>d. dseq (dec_option dec_rounds) (\<lambda>rs. dseq dec_word (\<lambda>g. dseq dec_string (\<lambda>n. dseq dec_word (\<lambda>t r.
        Some \<lparr>sm_format = f, sm_shard = s, sm_chain_epoch = e, sm_head = h, sm_consolidated_upto = u,
          sm_consolidated_digest = d, sm_rounds = rs, sm_gc_round = g, sm_sealed_by = n, sm_sealed_unix = t\<rparr>)))))))))) bs of
          None \<Rightarrow> Inl ''bad'' | Some m \<Rightarrow> Inr m)\<rparr>"

lemma sample_chain_codec_faithful: "chain_codec_faithful sample_chain_codec"
  unfolding chain_codec_faithful_def sample_chain_codec_def
  by (simp add: pc_basic pc_rounds del: append_Nil2)

text \<open>C5. Nothing that was acknowledged is lost. Let a sequencer run in any interleaving and stop anywhere, crash included, and let
  the log hold the segments that run made durable, those of failed puts and stragglers past a hole included. Then the recovery
  read from where the run began returns, follows the digest links to the head that probing finds, and answers with whole
  windows in chain order; the frames of every acknowledged append are in one of them, and no window holds frames
  that were not appended.
\<close>

theorem acked_appends_recovered:
  assumes "seq_reach ext shard cfg first digest sq" "lz4_faithful ext" "lz4_bounded ext" "frames_ok sq" "segments_small sq"
    and "quiet_chain media shard s owner" "\<And>q. first \<le> q \<Longrightarrow> owner q = bt_get (sq_durable sq) q"
    and "0 < first" "unat first + length (sq_windows sq) + MAX_INFLIGHT < 2 ^ 64 - 1"
  shows "\<exists>segs. read_chain_linked ext c media shard (first - 1) digest s = Some (Ok segs, s) \<and>
    chain_head media shard (first - 1) s = Some (Ok (first - 1 + of_nat (length segs)), s) \<and>
    map cg_frames segs = map window_frames (take (length segs) (sq_windows sq)) \<and>
    (\<forall>t < length (sq_cells sq). \<forall>l. try_wait t sq = Some (Ok l) \<longrightarrow>
       (\<exists>g \<in> set segs. set (sq_appends sq ! t) \<subseteq> set (cg_frames g))) \<and>
    (\<forall>g \<in> set segs. set (cg_frames g) \<subseteq> \<Union> (set ` set (sq_appends sq)))"
proof -
  obtain n where n: "durable_upto first n sq" using durable_prefix [OF assms(1)] .
  note at = durable_uptoD [OF assms(1) n]
  obtain gs where gs: "length gs = n" "map cg_frames gs = map window_frames (take n (sq_windows sq))"
    "linked ext shard first digest gs"
    "\<forall>i < n. segment_at ext (Some (wi_segment (sq_windows sq ! i))) (gs ! i) \<and> sg_kind (cg_header (gs ! i)) = Landing"
    using windows_read_back [OF assms(2,3,1,4,5) at(1)] .
  have "read_chain_linked ext c media shard (first - 1) digest s = Some (Ok gs, s)"
  proof (rule quiet_chain.read_chain_linked_reads [OF assms(6)])
    show "segment_at ext (owner (first - 1 + 1 + of_nat i)) (gs ! i)" if "i < length gs" for i
      using gs(1,4) that at(4) assms(7) [OF at(3)] by simp
    show "owner (first - 1 + 1 + of_nat (length gs)) = None" using gs(1) at(5) assms(7) [OF at(3)] by simp
  qed (use gs(3) in simp)
  moreover have "chain_head media shard (first - 1) s = Some (Ok (first - 1 + of_nat n), s)"
    using recovered_head [OF assms(1) n assms(6-9)] by (simp add: algebra_simps)
  moreover have "\<exists>g \<in> set gs. set (sq_appends sq ! t) \<subseteq> set (cg_frames g)"
    if t: "t < length (sq_cells sq)" "try_wait t sq = Some (Ok l)" for t l
    using acked_in_read [OF assms(1) n gs(1,2) t] .
  moreover have "set (cg_frames g) \<subseteq> \<Union> (set ` set (sq_appends sq))" if "g \<in> set gs" for g
  proof -
    have "cg_frames g \<in> set (map cg_frames gs)" using that by simp
    then obtain w where "w \<in> set (sq_windows sq)" "cg_frames g = window_frames w"
      unfolding gs(2) by (auto dest: in_set_takeD)
    with window_frames_appended [OF assms(1)] show ?thesis by simp
  qed
  ultimately show ?thesis using gs(1,2) by (intro exI [of _ gs]) simp
qed

lemma sample_recovery:
  obtains sq where "seq_reach sample_ext 3 sample_config 1 0 sq" "frames_ok sq" "segments_small sq"
    "try_wait 0 sq = Some (Ok 0x180)" "length (sq_cells sq) = 1" "sq_appends sq = [[sample_frame]]" "length (sq_windows sq) = 1"
proof -
  from sample_run obtain sq where r: "seq_reach sample_ext 3 sample_config 1 0 sq" "sq_appends sq = [[sample_frame]]"
    "sq_cells sq = [Some (Ok (fr_end_lsn sample_frame))]" "length (sq_windows sq) = 1"
    "length (wi_segment (sq_windows sq ! 0)) < 2 ^ 32" by blast
  obtain w where w: "sq_windows sq = [w]" using r(4) by (auto simp: length_Suc_conv)
  show thesis
    using that [of sq] r w sample_frame_ok
    by (simp add: frames_ok_def segments_small_def try_wait_def sample_frame_def)
qed

theorem acked_appends_recovered_witness:
  "\<exists>sq g. seq_reach sample_ext 3 sample_config 1 0 sq \<and> try_wait 0 sq = Some (Ok 0x180) \<and>
     read_chain_linked sample_ext sample_chain_codec (MSingle mem_ops) 3 0 0 (bucket_of 3 (sq_durable sq)) =
       Some (Ok [g], bucket_of 3 (sq_durable sq)) \<and> sample_frame \<in> set (cg_frames g)"
proof -
  obtain sq where r: "seq_reach sample_ext 3 sample_config 1 0 sq" "frames_ok sq" "segments_small sq"
    "try_wait 0 sq = Some (Ok 0x180)" "length (sq_cells sq) = 1" "sq_appends sq = [[sample_frame]]" "length (sq_windows sq) = 1"
    by (rule sample_recovery)
  let ?s = "bucket_of 3 (sq_durable sq)"
  have room: "unat (1 :: u64) + length (sq_windows sq) + MAX_INFLIGHT < 2 ^ 64 - 1" using r(7) by (simp add: MAX_INFLIGHT_def)
  have held: "mem_owner 3 ?s q = bt_get (sq_durable sq) q" if "1 \<le> q" for q by (rule mem_owner_bucket)
  have pos: "(0 :: u64) < 1" by simp
  from acked_appends_recovered [OF r(1) sample_ext_faithful sample_ext_bounded r(2,3) mem_chain.quiet_chain_axioms held pos room,
      of sample_chain_codec]
  obtain segs where segs: "read_chain_linked sample_ext sample_chain_codec (MSingle mem_ops) 3 0 0 ?s = Some (Ok segs, ?s)"
    "map cg_frames segs = map window_frames (take (length segs) (sq_windows sq))"
    "\<forall>t < length (sq_cells sq). \<forall>l. try_wait t sq = Some (Ok l) \<longrightarrow>
       (\<exists>g \<in> set segs. set (sq_appends sq ! t) \<subseteq> set (cg_frames g))" by auto
  from segs(3) r(4-6) obtain g where g: "g \<in> set segs" "sample_frame \<in> set (cg_frames g)" by auto
  have "length segs \<le> 1" using arg_cong [OF segs(2), of length] r(7) by simp
  with g(1) have "segs = [g]" by (cases segs) auto
  with segs(1) r(1,4) g(2) show ?thesis by blast
qed

end
