(* ===== verification/Wal_Takeover.thy ===== *)
theory Wal_Takeover
  imports Wal_Chain_Properties
begin

text \<open>
  Taking a shard over. The locale \<open>live_chain\<close> is a shard of a log whose store answers: reads as in
  \<open>quiet_chain\<close> in every state, a seal goes up in a free position, a delete empties one, and the manifest swaps under
  its version. One bucket in memory is the interpretation.
\<close>

locale live_chain =
  fixes media :: "'s wal_media" and shard :: u32 and owner :: "'s \<Rightarrow> u64 \<Rightarrow> bytes option"
    and man :: "'s \<Rightarrow> (bytes \<times> version) option"
  assumes quiet: "quiet_chain media shard s (owner s)"
    and seal_free: "owner s q = None \<Longrightarrow>
      \<exists>s'. media_seal media shard q d s = (Ok Sealed, s') \<and> owner s' = (owner s)(q \<mapsto> d) \<and> man s' = man s"
    and delete_empties: "\<exists>s'. media_delete media shard q s = (Ok (), s') \<and> owner s' = (owner s)(q := None) \<and> man s' = man s"
    and man_get: "cs_get (manifest_store media) (manifest_key shard) s = (Ok (man s), s)"
    and man_put: "\<exists>s' v. cs_put_if_match (manifest_store media) (manifest_key shard) d (map_option snd (man s)) s = (Ok v, s') \<and>
      owner s' = owner s \<and> man s' = Some (d, v)"
begin

text \<open>Where the sweep stands: everything after the hole up to \<open>seq\<close> is gone, and the last \<open>gap\<close> positions were empty.\<close>

definition swept :: "u64 \<Rightarrow> 's \<Rightarrow> u64 \<Rightarrow> nat \<Rightarrow> 's \<Rightarrow> bool" where
  "swept hole s seq gap t \<longleftrightarrow>
     unat hole + gap \<le> unat seq \<and> unat seq \<le> unat hole + MAX_INFLIGHT + gap \<and> gap \<le> MAX_INFLIGHT \<and> man t = man s \<and>
     owner t = (\<lambda>q. if hole < q \<and> q \<le> seq then None else owner s q)"

definition sweepable :: "externals \<Rightarrow> u64 \<Rightarrow> 's \<Rightarrow> bool" where
  "sweepable ext hole s \<longleftrightarrow> unat hole + 200 < 2 ^ 64 \<and>
     (\<forall>q b. hole < q \<longrightarrow> owner s q = Some b \<longrightarrow>
        unat q \<le> unat hole + MAX_INFLIGHT \<and> (\<exists>h f. segment_read_footer ext b = Ok (h, f) \<and> sg_kind h = Landing))"

lemma swept_next:
  assumes "sweepable ext hole s" "swept hole s seq gap t" "gap < MAX_INFLIGHT"
  shows "unat (seq + 1) = unat seq + 1" "hole < seq + 1"
    "owner s (seq + 1) = None \<Longrightarrow> swept hole s (seq + 1) (gap + 1) t"
    "owner s (seq + 1) \<noteq> None \<Longrightarrow> owner t' = (owner t)(seq + 1 := None) \<Longrightarrow> man t' = man t \<Longrightarrow> swept hole s (seq + 1) 0 t'"
proof -
  show up: "unat (seq + 1) = unat seq + 1"
    using assms by (simp add: unat_word_ariths(1) swept_def sweepable_def MAX_INFLIGHT_def)
  then show "hole < seq + 1" using assms(2) by (simp add: swept_def word_less_nat_alt)
  have step: "q \<le> seq + 1 \<longleftrightarrow> q \<le> seq \<or> q = seq + 1" for q
    using up by (auto simp: word_le_nat_alt word_unat_eq_iff)
  show "swept hole s (seq + 1) (gap + 1) t" if "owner s (seq + 1) = None"
    using assms that up by (auto simp: swept_def step fun_eq_iff)
  show "swept hole s (seq + 1) 0 t'"
    if "owner s (seq + 1) \<noteq> None" "owner t' = (owner t)(seq + 1 := None)" "man t' = man t"
  proof -
    have "unat (seq + 1) \<le> unat hole + MAX_INFLIGHT" "unat hole \<le> unat seq"
      using assms(1,2) that(1) \<open>hole < seq + 1\<close> by (auto simp: sweepable_def swept_def)
    then show ?thesis using assms(2) that up \<open>hole < seq + 1\<close> by (auto simp: swept_def step fun_eq_iff)
  qed
qed

lemma fetch_step: "sbind (smap_err g (media_fetch media shard q)) f s = f (owner s q) s"
  using quiet_chain.fetch_then [OF quiet] .

lemma sweep_walk_present:
  assumes "owner t (base + of_nat i) = Some b" "segment_read_footer ext b = Ok (h, f)" "sg_kind h = Landing"
    and "media_delete media shard (base + of_nat i) t = (Ok (), t')"
  shows "sweep_walk ext media shard base i (True # ps) seq gap t = sweep_walk ext media shard base (Suc i) ps (base + of_nat i) 0 t'"
proof -
  have "sbind (smap_err ChStore (media_delete media shard (base + of_nat i))) g t = g () t'" for g :: "unit \<Rightarrow> ('b, chain_error, 's) sop"
    using assms(4) by (simp add: sbind_def smap_err_def)
  then show ?thesis using assms(1-3) by (simp add: Let_def read_footer_def fetch_step)
qed

lemma sweep_walk_swept:
  assumes "sweepable ext hole s" "swept hole s seq gap t" "gap < MAX_INFLIGHT" "base + of_nat i = seq + 1"
  shows "\<exists>broke seq' gap' t'.
    sweep_walk ext media shard base i (map (\<lambda>j. owner s (base + of_nat j) \<noteq> None) [i..<i + n]) seq gap t =
      (Ok (broke, seq', gap'), t') \<and> swept hole s seq' gap' t' \<and>
    (if broke then gap' = MAX_INFLIGHT else gap' < MAX_INFLIGHT \<and> unat seq' = unat seq + n)"
  using assms(2-)
proof (induction n arbitrary: i seq gap t)
  case 0
  then show ?case by (intro exI [of _ False]) (simp add: sret_def)
next
  case (Suc n)
  note next' = swept_next [OF assms(1) Suc.prems(1,2)]
  let ?rest = "map (\<lambda>j. owner s (base + of_nat j) \<noteq> None) [Suc i..<Suc i + n]"
  have ps: "map (\<lambda>j. owner s (base + of_nat j) \<noteq> None) [i..<i + Suc n] = (owner s (seq + 1) \<noteq> None) # ?rest"
    using Suc.prems(3) by (simp add: upt_conv_Cons del: upt_Suc)
  have i': "base + of_nat (Suc i) = seq + 1 + 1" using Suc.prems(3) by (simp add: algebra_simps)
  show ?case
  proof (cases "owner s (seq + 1)")
    case None
    note sw = next'(3) [OF None]
    show ?thesis
    proof (cases "gap + 1 \<ge> MAX_INFLIGHT")
      case True
      then have "gap + 1 = MAX_INFLIGHT" using Suc.prems(2) by simp
      then show ?thesis unfolding ps using sw None Suc.prems(3) by (auto simp: Let_def sret_def)
    next
      case False
      from Suc.IH [OF sw _ i'] False obtain broke seq' gap' t' where
        "sweep_walk ext media shard base (Suc i) ?rest (seq + 1) (gap + 1) t = (Ok (broke, seq', gap'), t')"
        "swept hole s seq' gap' t'" "if broke then gap' = MAX_INFLIGHT else gap' < MAX_INFLIGHT \<and> unat seq' = unat (seq + 1) + n"
        by force
      then show ?thesis unfolding ps using None False Suc.prems(3) next'(1) by (auto simp: Let_def)
    qed
  next
    case (Some b)
    then obtain h f where b: "segment_read_footer ext b = Ok (h, f)" "sg_kind h = Landing"
      using assms(1) next'(2) unfolding sweepable_def by blast
    have "\<not> seq + 1 \<le> seq" using next'(1) by (simp add: word_le_nat_alt)
    then have t: "owner t (seq + 1) = Some b" using Suc.prems(1) Some by (simp add: swept_def)
    obtain t1 where del: "media_delete media shard (seq + 1) t = (Ok (), t1)" "owner t1 = (owner t)(seq + 1 := None)" "man t1 = man t"
      using delete_empties by blast
    have sw: "swept hole s (seq + 1) 0 t1" using next'(4) [OF _ del(2,3)] Some by simp
    from Suc.IH [OF sw _ i'] obtain broke seq' gap' t' where
      "sweep_walk ext media shard base (Suc i) ?rest (seq + 1) 0 t1 = (Ok (broke, seq', gap'), t')"
      "swept hole s seq' gap' t'" "if broke then gap' = MAX_INFLIGHT else gap' < MAX_INFLIGHT \<and> unat seq' = unat (seq + 1) + n"
      by (force simp: MAX_INFLIGHT_def)
    moreover have "sweep_walk ext media shard base i (True # ?rest) seq gap t =
        sweep_walk ext media shard base (Suc i) ?rest (seq + 1) 0 t1"
      using sweep_walk_present [OF _ b, of t base i t1] t del(1) Suc.prems(3) by simp
    ultimately show ?thesis unfolding ps using next'(1) Some by auto
  qed
qed

lemma sweep_window:
  assumes "sweepable ext hole s" "swept hole s seq gap t" "gap < MAX_INFLIGHT"
  shows "probe_window media shard (seq + 1) PROBE_WIDTH t =
    (Ok (map (\<lambda>i. owner s (seq + 1 + of_nat i) \<noteq> None) [0..<0 + PROBE_WIDTH]), t)"
proof -
  have "owner t (seq + 1 + of_nat i) = owner s (seq + 1 + of_nat i)" if "i < PROBE_WIDTH" for i
  proof -
    have "unat seq + 1 + i < 2 ^ 64" using assms that by (simp add: swept_def sweepable_def MAX_INFLIGHT_def PROBE_WIDTH_def)
    then have "unat (seq + 1 + of_nat i) = unat seq + 1 + i" by (simp add: unat_word_ariths(1) unat_of_nat)
    then show ?thesis using assms(2) by (simp add: swept_def word_le_nat_alt)
  qed
  then show ?thesis using quiet_probes.probe_window_held [OF quiet_chain.axioms(1) [OF quiet], of "seq + 1" PROBE_WIDTH t] by simp
qed

lemma sweep_loop_clears:
  assumes "sweepable ext hole s" "swept hole s seq gap t" "gap < MAX_INFLIGHT"
  shows "\<exists>seq' t'. sloop (sweep_turn ext media shard) (seq, gap) t = Some (Ok (), t') \<and> swept hole s seq' MAX_INFLIGHT t'"
  using assms(2,3)
proof (induction "unat hole + 2 * MAX_INFLIGHT - unat seq" arbitrary: seq gap t rule: less_induct)
  case less
  from sweep_walk_swept [OF assms(1) less.prems, of "seq + 1" 0 PROBE_WIDTH] obtain broke seq' gap' t' where
    walk: "sweep_walk ext media shard (seq + 1) 0 (map (\<lambda>j. owner s (seq + 1 + of_nat j) \<noteq> None) [0..<0 + PROBE_WIDTH]) seq gap t =
      (Ok (broke, seq', gap'), t')" "swept hole s seq' gap' t'"
      "if broke then gap' = MAX_INFLIGHT else gap' < MAX_INFLIGHT \<and> unat seq' = unat seq + PROBE_WIDTH" by auto
  have turn: "sweep_turn ext media shard (seq, gap) t = (Ok (if broke then Inr () else Inl (seq', gap')), t')"
    using less.prems(2) sweep_window [OF assms(1) less.prems] walk(1)
    by (simp add: sweep_turn_def Let_def sbind_def sret_def)
  show ?case
  proof (cases broke)
    case True
    then show ?thesis using turn walk(2,3) sloop_leave [of "sweep_turn ext media shard" "(seq, gap)" t "()" t'] by auto
  next
    case False
    then have less': "unat hole + 2 * MAX_INFLIGHT - unat seq' < unat hole + 2 * MAX_INFLIGHT - unat seq"
      using walk(3) less.prems by (auto simp: swept_def PROBE_WIDTH_def)
    from less.hyps [OF less' walk(2)] False walk(3) turn
      sloop_continue [of "sweep_turn ext media shard" "(seq, gap)" t "(seq', gap')" t'] show ?thesis by auto
  qed
qed

lemma sweep_clears:
  assumes "sweepable ext hole s"
  shows "\<exists>t. sweep_stragglers ext media shard hole s = Some (Ok (), t) \<and> man t = man s \<and>
    owner t = (\<lambda>q. if hole < q then None else owner s q)"
proof -
  have "swept hole s hole 0 s" by (auto simp: swept_def fun_eq_iff)
  from sweep_loop_clears [OF assms this] obtain seq t where
    t: "sloop (sweep_turn ext media shard) (hole, 0) s = Some (Ok (), t)" "swept hole s seq MAX_INFLIGHT t"
    by (auto simp: MAX_INFLIGHT_def)
  have "owner s q = None" if "hole < q" "\<not> q \<le> seq" for q
  proof (rule ccontr)
    assume "owner s q \<noteq> None"
    then have "unat q \<le> unat hole + MAX_INFLIGHT" using assms that(1) by (auto simp: sweepable_def)
    then show False using t(2) that(2) by (simp add: swept_def word_le_nat_alt)
  qed
  then have "owner t = (\<lambda>q. if hole < q then None else owner s q)"
    using t(2) by (auto simp: swept_def fun_eq_iff)
  with t show ?thesis by (auto simp: sweep_stragglers_def swept_def)
qed

end

section \<open>One attempt\<close>

definition loads :: "chain_codec \<Rightarrow> (bytes \<times> version) option \<Rightarrow> shard_manifest option \<Rightarrow> bool" where
  "loads c x m \<longleftrightarrow>
     (case x of
        None \<Rightarrow> m = None
      | Some (b, _) \<Rightarrow> \<exists>m'. m = Some m' \<and> cc_de c b = Inr m' \<and> sm_format m' \<le> SHARD_MANIFEST_FORMAT)"

definition known_floor :: "shard_manifest option \<Rightarrow> u64" where
  "known_floor m = (case m of None \<Rightarrow> 0 | Some m \<Rightarrow> max (sm_head m) (sm_consolidated_upto m))"

text \<open>The digest of a position, from the manifest when it is the consolidated one.\<close>

definition digest_at :: "externals \<Rightarrow> (u64 \<Rightarrow> bytes option) \<Rightarrow> shard_manifest option \<Rightarrow> u64 \<Rightarrow> u64 \<Rightarrow> bool" where
  "digest_at ext ow m q d \<longleftrightarrow>
     (if \<exists>m'. m = Some m' \<and> q = sm_consolidated_upto m' then d = sm_consolidated_digest (the m)
      else if q = 0 then d = 0
      else \<exists>b h f. ow q = Some b \<and> segment_read_footer ext b = Ok (h, f) \<and> d = tenants_digest ext (sf_tenants f))"

definition seal_header :: "u32 \<Rightarrow> u64 \<Rightarrow> u64 \<Rightarrow> segment_header" where
  "seal_header shard seq d = \<lparr>sg_kind = Seal, sg_shard = shard, sg_seq = seq, sg_prev_digest = d\<rparr>"

lemma seal_segment_decodes:
  assumes "lz4_faithful ext" "lz4_bounded ext"
  obtains seal where "seal_segment ext shard seq d = Ok (seal, [])"
    "decode_segment ext seal = Ok (seal_header shard seq d, [], \<lparr>sf_frame_count = 0, sf_tenants = []\<rparr>)"
proof -
  from segment_finish_bound [of "[]" 0 ext "seal_header shard seq d"] obtain seal ts where
    fin: "segment_finish ext (push_staged [] (segment_new (seal_header shard seq d))) = Ok (seal, ts)" "length seal < 2 ^ 32"
    by fastforce
  from finished_window(1,3) [OF assms _ fin] have
    "decode_segment ext seal = Ok (seal_header shard seq d, [], \<lparr>sf_frame_count = 0, sf_tenants = ts\<rparr>)"
    "ts = []" by (simp_all add: segment_summaries_def push_staged_def segment_new_def)
  with fin(1) that show thesis by (simp add: seal_segment_def push_staged_def seal_header_def)
qed

lemma decode_segment_footer:
  "decode_segment ext b = Ok (h, fs, f) \<Longrightarrow> segment_read_footer ext b = Ok (h, f)"
  by (auto simp: decode_segment_def segment_read_footer_def obind_Ok_iff split: if_splits)

context live_chain
begin

lemma digest_of_head:
  assumes "digest_at ext (owner s) m q d"
  shows "(case m of Some m \<Rightarrow> if q = sm_consolidated_upto m then sret (Ok (sm_consolidated_digest m))
                     else digest_of_segment ext media shard q
         | None \<Rightarrow> digest_of_segment ext media shard q) s = (Ok d, s)"
proof -
  have "digest_of_segment ext media shard q s = (Ok d, s)"
    if "\<not> (\<exists>m'. m = Some m' \<and> q = sm_consolidated_upto m')"
    using assms that by (auto simp: digest_at_def digest_of_segment_def sret_def fetch_step read_footer_def)
  then show ?thesis using assms by (cases m) (auto simp: digest_at_def sret_def)
qed

lemma load_manifest:
  assumes "loads c (man s) m"
  shows "sm_load c (manifest_store media) shard s =
    (Ok (case man s of None \<Rightarrow> None | Some (b, v) \<Rightarrow> Some (the m, v)), s)"
    "map_option fst (case man s of None \<Rightarrow> None | Some (b, v) \<Rightarrow> Some (the m, v)) = m"
    "map_option snd (case man s of None \<Rightarrow> None | Some (b, v) \<Rightarrow> Some (the m, v)) = map_option snd (man s)"
  using assms
  by (auto simp: sm_load_def sbind_def smap_err_def man_get loads_def sm_decode_def sret_def not_less [symmetric]
      split: option.splits)

lemma take_over_seals:
  assumes ext: "lz4_faithful ext" "lz4_bounded ext" and m: "loads c (man s) m" and d: "digest_at ext (owner s) m (hole - 1) d"
    and hole: "known_floor m < hole" "\<And>q. known_floor m < q \<Longrightarrow> q < hole \<Longrightarrow> owner s q \<noteq> None" "owner s hole = None"
    and near: "\<And>q. owner s q \<noteq> None \<Longrightarrow> unat q \<le> unat hole + MAX_INFLIGHT" and clear: "sweepable ext hole s"
  shows "\<exists>seal s' v. take_over ext c media shard node clock s =
      Some (Ok \<lparr>to_chain_epoch = sm_chain_epoch (taken_over shard node (clock 7) hole m), to_sealed_seq = hole,
                to_next_seq = hole + 1, to_prev_digest = tenants_digest ext []\<rparr>, s') \<and>
    decode_segment ext seal = Ok (seal_header shard hole d, [], \<lparr>sf_frame_count = 0, sf_tenants = []\<rparr>) \<and>
    owner s' = (\<lambda>q. if hole < q then None else if q = hole then Some seal else owner s q) \<and>
    man s' = Some (cc_ser c (taken_over shard node (clock 7) hole m), v)"
proof -
  let ?t = "\<lparr>to_chain_epoch = sm_chain_epoch (taken_over shard node (clock 7) hole m), to_sealed_seq = hole,
                to_next_seq = hole + 1, to_prev_digest = tenants_digest ext []\<rparr>"
  have "unat hole + MAX_INFLIGHT < 2 ^ 64 - 1" using clear by (simp add: sweepable_def MAX_INFLIGHT_def)
  then have head: "chain_head media shard (known_floor m) s = Some (Ok (hole - 1), s)"
    using quiet_chain.owner_head [OF quiet] hole near by blast
  obtain seal where seal: "seal_segment ext shard hole d = Ok (seal, [])"
    "decode_segment ext seal = Ok (seal_header shard hole d, [], \<lparr>sf_frame_count = 0, sf_tenants = []\<rparr>)"
    using seal_segment_decodes [OF ext] by blast
  obtain s1 where s1: "media_seal media shard hole seal s = (Ok Sealed, s1)" "owner s1 = (owner s)(hole \<mapsto> seal)" "man s1 = man s"
    using seal_free [of s hole seal] hole(3) by blast
  obtain s2 v where s2: "cs_put_if_match (manifest_store media) (manifest_key shard)
      (cc_ser c (taken_over shard node (clock 7) hole m)) (map_option snd (man s)) s1 = (Ok v, s2)"
    "owner s2 = owner s1" "man s2 = Some (cc_ser c (taken_over shard node (clock 7) hole m), v)"
    using man_put [of "cc_ser c (taken_over shard node (clock 7) hole m)" s1] s1(3) by auto
  have "sweepable ext hole s2" using clear s2(2) s1(2) by (simp add: sweepable_def)
  from sweep_clears [OF this] obtain s3 where s3: "sweep_stragglers ext media shard hole s2 = Some (Ok (), s3)"
    "man s3 = man s2" "owner s3 = (\<lambda>q. if hole < q then None else owner s2 q)" by blast
  have publish: "take_over_publish ext c media shard (taken_over shard node (clock 7) hole m) (map_option snd (man s)) hole [] s1 =
      Some (Ok (Some ?t), s3)"
    using s2(1) s3(1) by (simp add: take_over_publish_def pbind_def pcall_def sret_def)
  have "take_over_from ext c media shard node (clock 7) m (map_option snd (man s)) s = Some (Ok (Some ?t), s3)"
    using publish s1(1) seal(1) head digest_of_head [OF d]
    by (simp add: take_over_from_def pbind_def pcall_def Let_def known_floor_def smap_err_def sret_def)
  then have "take_over_attempt ext c media shard node (clock 7) s = Some (Ok (Some ?t), s3)"
    unfolding take_over_attempt_def pbind_def pcall_def load_manifest(1) [OF m]
    by (simp only: option.case prod.case outcome.case load_manifest(2,3) [OF m])
  then have "take_over ext c media shard node clock s = Some (Ok ?t, s3)"
    by (simp add: take_over_def MAX_ATTEMPTS_def eval_nat_numeral pbind_def pcall_def sret_def)
  moreover have "owner s3 = (\<lambda>q. if hole < q then None else if q = hole then Some seal else owner s q)"
    using s3(3) s2(2) s1(2) by (simp add: fun_eq_iff)
  moreover have "man s3 = Some (cc_ser c (taken_over shard node (clock 7) hole m), v)" using s3(2) s2(3) by simp
  ultimately show ?thesis using seal(2) by blast
qed

end

section \<open>A crash and a takeover\<close>

definition chain_tip_of :: "externals \<Rightarrow> u64 \<Rightarrow> chain_segment list \<Rightarrow> u64" where
  "chain_tip_of ext digest gs = (if gs = [] then digest else tenants_digest ext (sf_tenants (cg_footer (last gs))))"

lemma linked_snoc:
  "linked ext shard q d (gs @ [g]) \<longleftrightarrow>
     linked ext shard q d gs \<and> cg_seq g = q + of_nat (length gs) \<and> sg_shard (cg_header g) = shard \<and>
     sg_seq (cg_header g) = q + of_nat (length gs) \<and> sg_prev_digest (cg_header g) = chain_tip_of ext d gs"
proof (induction gs arbitrary: q d)
  case (Cons x gs)
  then show ?case by (auto simp: chain_tip_of_def algebra_simps)
qed (auto simp: chain_tip_of_def)

text \<open>The log a run left behind, under the manifest of the takeover that began the run.\<close>

definition run_log ::
  "externals \<Rightarrow> chain_codec \<Rightarrow> u64 \<Rightarrow> u64 \<Rightarrow> sequencer \<Rightarrow> (u64 \<Rightarrow> bytes option) \<Rightarrow> (bytes \<times> version) option \<Rightarrow> shard_manifest option \<Rightarrow> bool" where
  "run_log ext c first digest sq ow x m \<longleftrightarrow>
     (\<forall>q \<ge> first. ow q = bt_get (sq_durable sq) q) \<and> 0 < first \<and> unat first + length (sq_windows sq) + 200 < 2 ^ 64 \<and>
     loads c x m \<and> known_floor m = first - 1 \<and> digest_at ext ow m (first - 1) digest"

lemma run_log_sweepable:
  assumes live: "live_chain media shard owner man" and run: "seq_reach ext shard cfg first digest sq"
    and ext: "lz4_faithful ext" "lz4_bounded ext" and ok: "frames_ok sq" "segments_small sq"
    and log: "run_log ext c first digest sq (owner s) x m" and n: "durable_upto first n sq"
  shows "live_chain.sweepable owner ext (first + of_nat n) s"
proof -
  note at = durable_uptoD [OF run n]
  obtain gs where gs: "\<forall>i < length (sq_windows sq).
      segment_at ext (Some (wi_segment (sq_windows sq ! i))) (gs ! i) \<and> sg_kind (cg_header (gs ! i)) = Landing"
    using windows_read_back [OF ext run ok order_refl] by blast
  have "unat q \<le> unat (first + of_nat n) + MAX_INFLIGHT \<and> (\<exists>h f. segment_read_footer ext b = Ok (h, f) \<and> sg_kind h = Landing)"
    if "first + of_nat n < q" "owner s q = Some b" for q b
  proof -
    have "first \<le> q" using that(1) at(2) by (simp add: word_less_nat_alt word_le_nat_alt)
    then have b: "bt_get (sq_durable sq) q = Some b" using log that(2) by (simp add: run_log_def)
    with seq_inv_landing(6) [OF seq_reach_inv [OF run]] obtain i where
      "i < length (sq_windows sq)" "b = wi_segment (sq_windows sq ! i)" unfolding inv_durable_def by metis
    with gs have "\<exists>h f. segment_read_footer ext b = Ok (h, f) \<and> sg_kind h = Landing"
      using decode_segment_footer by (fastforce simp: segment_at_def)
    with straggler_bound(2) [OF run at(5)] b at(2) show ?thesis by auto
  qed
  moreover have "unat (first + of_nat n) + 200 < 2 ^ 64" using log at(1,2) by (simp add: run_log_def)
  ultimately show ?thesis unfolding live_chain.sweepable_def [OF live] by blast
qed

lemma run_log_digest:
  assumes run: "seq_reach ext shard cfg first digest sq" and log: "run_log ext c first digest sq ow x m"
    and n: "durable_upto first n sq" and gs: "length gs = n"
      "\<forall>i < n. segment_at ext (Some (wi_segment (sq_windows sq ! i))) (gs ! i) \<and> sg_kind (cg_header (gs ! i)) = Landing"
  shows "digest_at ext ow m (first + of_nat n - 1) (chain_tip_of ext digest gs)"
proof (cases n)
  case 0
  then show ?thesis using log gs(1) by (simp add: run_log_def chain_tip_of_def)
next
  case (Suc k)
  note at = durable_uptoD [OF run n]
  have q: "first + of_nat n - 1 = first + of_nat k" using Suc by simp
  have above: "unat (first + of_nat k) = unat first + k" using seq_at [OF run, of k] at(1) Suc by simp
  have "0 < unat first" "unat (first - 1) < unat first" using log
    by (simp_all add: run_log_def word_less_nat_alt unat_sub word_le_nat_alt)
  then have no: "first + of_nat k \<noteq> 0" "\<not> (\<exists>m'. m = Some m' \<and> first + of_nat k = sm_consolidated_upto m')"
    using log above by (auto simp: run_log_def known_floor_def max_def word_le_nat_alt word_unat_eq_iff split: if_splits)
  have "ow (first + of_nat k) = Some (wi_segment (sq_windows sq ! k))"
    using log at(3) [of k] at(4) [of k] Suc by (simp add: run_log_def)
  moreover have "gs \<noteq> []" using gs(1) Suc by auto
  moreover from this have "last gs = gs ! k" using gs(1) Suc by (simp add: last_conv_nth)
  moreover have "decode_segment ext (wi_segment (sq_windows sq ! k)) =
      Ok (cg_header (gs ! k), cg_frames (gs ! k), cg_footer (gs ! k))"
    using gs(2) Suc by (auto simp: segment_at_def)
  ultimately show ?thesis unfolding q using no decode_segment_footer by (auto simp: digest_at_def chain_tip_of_def)
qed

lemma recovered_after_seal:
  assumes live: "live_chain media shard owner man" and run: "seq_reach ext shard cfg first digest sq"
    and log: "run_log ext c first digest sq (owner s) x m" and n: "durable_upto first n sq"
    and gs: "length gs = n" "linked ext shard first digest gs"
      "\<forall>i < n. segment_at ext (Some (wi_segment (sq_windows sq ! i))) (gs ! i) \<and> sg_kind (cg_header (gs ! i)) = Landing"
    and seal: "decode_segment ext seal =
      Ok (seal_header shard (first + of_nat n) (chain_tip_of ext digest gs), [], \<lparr>sf_frame_count = 0, sf_tenants = []\<rparr>)"
    and after: "owner s' = (\<lambda>q. if first + of_nat n < q then None else if q = first + of_nat n then Some seal else owner s q)"
  shows "read_chain_linked ext c media shard (first - 1) digest s' =
    Some (Ok (gs @ [\<lparr>cg_seq = first + of_nat n, cg_header = seal_header shard (first + of_nat n) (chain_tip_of ext digest gs),
      cg_frames = [], cg_footer = \<lparr>sf_frame_count = 0, sf_tenants = []\<rparr>\<rparr>]), s')"
    (is "_ = Some (Ok (gs @ [?g]), s')")
proof (rule quiet_chain.read_chain_linked_reads [OF live_chain.quiet [OF live]])
  note at = durable_uptoD [OF run n]
  show "linked ext shard (first - 1 + 1) digest (gs @ [?g])"
    using gs(1,2) by (simp add: linked_snoc seal_header_def)
  have up: "unat (first + of_nat n + 1) = unat first + n + 1"
    using log at(1,2) by (simp add: run_log_def unat_word_ariths(1))
  show "owner s' (first - 1 + 1 + of_nat (length (gs @ [?g]))) = None"
    using gs(1) up at(2) by (simp add: after word_less_nat_alt add.assoc [symmetric] add.commute [of 1])
  show "segment_at ext (owner s' (first - 1 + 1 + of_nat i)) ((gs @ [?g]) ! i)" if i: "i < length (gs @ [?g])" for i
  proof (cases "i = n")
    case True
    then show ?thesis using gs(1) seal by (simp add: after nth_append segment_at_def)
  next
    case False
    then have "i < n" using i gs(1) by simp
    then have "unat (first + of_nat i) < unat (first + of_nat n)" using seq_at [OF run, of i] at(1,2) by simp
    then have "owner s' (first + of_nat i) = owner s (first + of_nat i)"
      by (auto simp: after word_less_nat_alt)
    moreover have "owner s (first + of_nat i) = Some (wi_segment (sq_windows sq ! i))"
      using log at(3) [of i] at(4) [OF \<open>i < n\<close>] \<open>i < n\<close> by (simp add: run_log_def)
    ultimately show ?thesis using gs(1,3) \<open>i < n\<close> by (simp add: nth_append)
  qed
qed

lemma next_run_log:
  assumes "chain_codec_faithful c" "known_floor m < hole"
    and "ow hole = Some seal" "decode_segment ext seal = Ok (h, [], \<lparr>sf_frame_count = 0, sf_tenants = []\<rparr>)"
  shows "loads c (Some (cc_ser c (taken_over shard node now hole m), v)) (Some (taken_over shard node now hole m)) \<and>
    known_floor (Some (taken_over shard node now hole m)) = hole \<and>
    digest_at ext ow (Some (taken_over shard node now hole m)) hole (tenants_digest ext [])"
proof -
  have up: "sm_consolidated_upto (taken_over shard node now hole m) < hole" "0 < hole"
    using assms(2) by (auto simp: taken_over_def known_floor_def max_def word_less_nat_alt word_le_nat_alt split: option.splits if_splits)
  then show ?thesis using assms(1,3) decode_segment_footer [OF assms(4)]
    by (auto simp: loads_def chain_codec_faithful_def known_floor_def digest_at_def taken_over_def SHARD_MANIFEST_FORMAT_def max_def)
qed

lemma run_log_hole:
  assumes run: "seq_reach ext shard cfg first digest sq" and log: "run_log ext c first digest sq ow x m"
    and n: "durable_upto first n sq"
  shows "loads c x m" "known_floor m < first + of_nat n"
    "\<And>q. known_floor m < q \<Longrightarrow> q < first + of_nat n \<Longrightarrow> ow q \<noteq> None" "ow (first + of_nat n) = None"
    "\<And>q. ow q \<noteq> None \<Longrightarrow> unat q \<le> unat (first + of_nat n) + MAX_INFLIGHT"
proof -
  note at = durable_uptoD [OF run n]
  have own: "ow q = bt_get (sq_durable sq) q" if "first \<le> q" for q using log that by (simp add: run_log_def)
  have first1: "known_floor m = first - 1" "unat (first - 1) = unat first - 1" "1 \<le> unat first" using log
    by (simp_all add: run_log_def unat_sub word_le_nat_alt word_less_nat_alt)
  show "loads c x m" using log by (simp add: run_log_def)
  show "known_floor m < first + of_nat n" using first1 at(2) by (simp add: word_less_nat_alt)
  show "ow (first + of_nat n) = None" using at(5) own [OF at(3)] by simp
  show "ow q \<noteq> None" if "known_floor m < q" "q < first + of_nat n" for q
    using durable_below [OF run n] that first1 own by auto
  show "unat q \<le> unat (first + of_nat n) + MAX_INFLIGHT" if "ow q \<noteq> None" for q
    using durable_near [OF run n own that] by simp
qed

section \<open>The log in one bucket\<close>

lemma manifest_key_apart: "manifest_key shard \<noteq> segment_key shard q"
proof
  assume "manifest_key shard = segment_key shard q"
  then have "''manifest'' = hex_fixed q" by (simp add: manifest_key_def segment_key_def hex_fixed_def)
  then have "length ''manifest'' = length (hex_fixed q)" by (simp only:)
  then show False by simp
qed

interpretation mem_live: live_chain "MSingle mem_ops" shard "mem_owner shard" "\<lambda>s. mem_view s (manifest_key shard)" for shard
proof
  note defs = mem_ops_def mem_owner_def mem_view_def manifest_store_def
  fix s :: mem_store and q d
  show "\<exists>s'. media_seal (MSingle mem_ops) shard q d s = (Ok Sealed, s') \<and>
      mem_owner shard s' = (mem_owner shard s)(q \<mapsto> d) \<and> mem_view s' (manifest_key shard) = mem_view s (manifest_key shard)"
    if "mem_owner shard s q = None"
    using that manifest_key_apart [of shard q]
    by (auto simp: media_seal_def sbind_def sret_def vote_def put_if_absent_def seal_of_def mem_put_if_match_def defs Let_def
        bt_get_insert segment_key_inj fun_eq_iff)
  show "\<exists>s'. media_delete (MSingle mem_ops) shard q s = (Ok (), s') \<and>
      mem_owner shard s' = (mem_owner shard s)(q := None) \<and> mem_view s' (manifest_key shard) = mem_view s (manifest_key shard)"
    using manifest_key_apart [of shard q]
    by (auto simp: media_delete_def mem_delete_def defs bt_get_remove segment_key_inj fun_eq_iff)
  show "cs_get (manifest_store (MSingle mem_ops)) (manifest_key shard) s = (Ok (mem_view s (manifest_key shard)), s)"
    by (simp add: mem_get_def defs)
  show "\<exists>s' v. cs_put_if_match (manifest_store (MSingle mem_ops)) (manifest_key shard) d
        (map_option snd (mem_view s (manifest_key shard))) s = (Ok v, s') \<and>
      mem_owner shard s' = mem_owner shard s \<and> mem_view s' (manifest_key shard) = Some (d, v)"
    using manifest_key_apart [of shard] manifest_key_apart [of shard, symmetric]
    by (cases "bt_get (ms_objects s) (manifest_key shard)")
      (auto simp: mem_put_if_match_def defs Let_def bt_get_insert fun_eq_iff)
qed

section \<open>Properties\<close>

text \<open>C4. A crash and a takeover lose nothing that was acknowledged, and leave the log as the next owner needs it. Let a sequencer run in
  any interleaving from a takeover's position and stop anywhere, with stragglers past a hole included. Then taking
  the shard over returns at its first attempt: it seals the first hole, sweeps every straggler past it, and
  records itself in the manifest. The recovery read then gives the windows in chain order and the seal at the
  end, with the frames of every acknowledged append in them; every position from the one handed to the successor on is free; and
  the manifest and the seal's digest are again those that a run of the successor starts from.
\<close>

theorem crash_takeover_keeps_acks:
  assumes "live_chain media shard owner man" "chain_codec_faithful c"
    and "seq_reach ext shard cfg first digest sq" "lz4_faithful ext" "lz4_bounded ext" "frames_ok sq" "segments_small sq"
    and "run_log ext c first digest sq (owner s) (man s) m"
  shows "\<exists>t s' segs seal. take_over ext c media shard node clock s = Some (Ok t, s') \<and>
    read_chain_linked ext c media shard (first - 1) digest s' = Some (Ok (segs @ [seal]), s') \<and>
    (\<forall>i < length (sq_cells sq). \<forall>l. try_wait i sq = Some (Ok l) \<longrightarrow>
       (\<exists>g \<in> set segs. set (sq_appends sq ! i) \<subseteq> set (cg_frames g))) \<and>
    sg_kind (cg_header seal) = Seal \<and> cg_seq seal = to_sealed_seq t \<and>
    (\<forall>q > to_sealed_seq t. owner s' q = None) \<and> to_next_seq t = to_sealed_seq t + 1 \<and>
    (\<exists>m'. loads c (man s') (Some m') \<and> sm_chain_epoch m' = to_chain_epoch t \<and> known_floor (Some m') = to_next_seq t - 1 \<and>
       digest_at ext (owner s') (Some m') (to_next_seq t - 1) (to_prev_digest t))"
proof -
  note run = assms(3) and log = assms(8)
  obtain n where n: "durable_upto first n sq" using durable_prefix [OF run] .
  note at = durable_uptoD [OF run n]
  let ?hole = "first + of_nat n"
  obtain gs where gs: "length gs = n" "map cg_frames gs = map window_frames (take n (sq_windows sq))" "linked ext shard first digest gs"
    "\<forall>i < n. segment_at ext (Some (wi_segment (sq_windows sq ! i))) (gs ! i) \<and> sg_kind (cg_header (gs ! i)) = Landing"
    using windows_read_back [OF assms(4,5) run assms(6,7) at(1)] .
  note hole = run_log_hole [OF run log n]
  obtain seal s' v where take: "take_over ext c media shard node clock s =
      Some (Ok \<lparr>to_chain_epoch = sm_chain_epoch (taken_over shard node (clock 7) ?hole m), to_sealed_seq = ?hole,
                to_next_seq = ?hole + 1, to_prev_digest = tenants_digest ext []\<rparr>, s')"
    and seal: "decode_segment ext seal = Ok (seal_header shard ?hole (chain_tip_of ext digest gs), [], \<lparr>sf_frame_count = 0, sf_tenants = []\<rparr>)"
    and after: "owner s' = (\<lambda>q. if ?hole < q then None else if q = ?hole then Some seal else owner s q)"
      "man s' = Some (cc_ser c (taken_over shard node (clock 7) ?hole m), v)"
    using live_chain.take_over_seals [OF assms(1,4,5) hole(1) run_log_digest [OF run log n gs(1,4)] hole(2-5)
        run_log_sweepable [OF assms(1) run assms(4-7) log n]] by blast
  note read = recovered_after_seal [OF assms(1) run log n gs(1,3,4) seal after(1)]
  have "\<exists>g \<in> set gs. set (sq_appends sq ! i) \<subseteq> set (cg_frames g)"
    if "i < length (sq_cells sq)" "try_wait i sq = Some (Ok l)" for i l
    using acked_in_read [OF run n gs(1,2) that] .
  moreover have "owner s' ?hole = Some seal" using after(1) by simp
  note next_run_log [where ow = "owner s'" and shard = shard and node = node and now = "clock 7" and v = v, OF assms(2) hole(2) this seal]
  ultimately show ?thesis using take read after
    by (intro exI [of _ "\<lparr>to_chain_epoch = sm_chain_epoch (taken_over shard node (clock 7) ?hole m), to_sealed_seq = ?hole,
                to_next_seq = ?hole + 1, to_prev_digest = tenants_digest ext []\<rparr>"] exI [of _ s'] exI conjI)
      (assumption | simp add: seal_header_def | blast)+
qed

theorem crash_takeover_keeps_acks_witness:
  "\<exists>sq t s' segs seal. seq_reach sample_ext 3 sample_config 1 0 sq \<and> try_wait 0 sq = Some (Ok 0x180) \<and>
     take_over sample_ext sample_chain_codec (MSingle mem_ops) 3 ''n2'' (\<lambda>_. 1700000000) (bucket_of 3 (sq_durable sq)) = Some (Ok t, s') \<and>
     read_chain_linked sample_ext sample_chain_codec (MSingle mem_ops) 3 0 0 s' = Some (Ok (segs @ [seal]), s') \<and>
     (\<exists>g \<in> set segs. sample_frame \<in> set (cg_frames g))"
proof -
  obtain sq where r: "seq_reach sample_ext 3 sample_config 1 0 sq" "frames_ok sq" "segments_small sq"
    "try_wait 0 sq = Some (Ok 0x180)" "length (sq_cells sq) = 1" "sq_appends sq = [[sample_frame]]" "length (sq_windows sq) = 1"
    by (rule sample_recovery)
  let ?s = "bucket_of 3 (sq_durable sq)"
  have "mem_view ?s (manifest_key 3) = None"
  proof -
    have "bt_get (foldr (\<lambda>(q, bytes). bt_insert (segment_key 3 q) (bytes, ''1'')) segs []) (manifest_key 3) = None" for segs
      using manifest_key_apart [of 3] by (induction segs) (auto simp: bt_get_insert, simp add: bt_get_def)
    then show ?thesis by (simp add: mem_view_def bucket_of_def)
  qed
  then have log: "run_log sample_ext sample_chain_codec 1 0 sq (mem_owner 3 ?s) (mem_view ?s (manifest_key 3)) None"
    using r(7) by (simp add: run_log_def mem_owner_bucket loads_def known_floor_def digest_at_def)
  obtain t s' segs seal where
    "take_over sample_ext sample_chain_codec (MSingle mem_ops) 3 ''n2'' (\<lambda>_. 1700000000) ?s = Some (Ok t, s')"
    "read_chain_linked sample_ext sample_chain_codec (MSingle mem_ops) 3 (1 - 1) 0 s' = Some (Ok (segs @ [seal]), s')"
    "\<forall>i < length (sq_cells sq). \<forall>l. try_wait i sq = Some (Ok l) \<longrightarrow> (\<exists>g \<in> set segs. set (sq_appends sq ! i) \<subseteq> set (cg_frames g))"
    using crash_takeover_keeps_acks [OF mem_live.live_chain_axioms sample_chain_codec_faithful r(1) sample_ext_faithful
        sample_ext_bounded r(2,3) log] by blast
  moreover from this(3) r(4-6) have "\<exists>g \<in> set segs. sample_frame \<in> set (cg_frames g)" by auto
  ultimately show ?thesis using r(1,4) by (metis diff_self)
qed

end
