(* ===== verification/Wal_Split_Vote.thy ===== *)
theory Wal_Split_Vote
  imports Wal_Takeover
begin

text \<open>
  A position that a dead writer holds on one fast medium and an unfinished takeover's seal on the other. Nobody owns it, every
  further seal loses both votes, and the vote of the standard medium is never asked for: no takeover of the
  shard succeeds any more.
\<close>

definition tri_manifest :: "u32 \<Rightarrow> tri_store \<Rightarrow> (bytes \<times> version) option" where
  "tri_manifest shard s = mem_view (tri_get Std s) (manifest_key shard)"

definition split_at :: "u32 \<Rightarrow> tri_store \<Rightarrow> u64 \<Rightarrow> bool" where
  "split_at shard s q \<longleftrightarrow>
     (\<exists>x y. tri_obj Az1 s (segment_key shard q) = Some x \<and> tri_obj Az2 s (segment_key shard q) = Some y \<and>
        take 28 x \<noteq> take 28 y \<and> tri_obj Std s (segment_key shard q) = None)"

lemma tri_set_same [simp]: "tri_set m (tri_get m s) s = s"
  by (cases s; cases m) (auto simp: tri_get_def tri_set_def)

lemma tri_get_range:
  "get_range (tri_ops m) key 0 28 s = (Ok (map_option (take 28) (tri_obj m s key)), s)"
proof -
  have "saturating_add (0 :: u64) 28 = 28" by (simp add: saturating_add_def)
  then show ?thesis
    by (auto simp: get_range_def tri_ops_def tri_lift_def mem_get_def tri_obj_def slice_def Let_def min_def split: option.splits prod.splits)
qed

lemma tri_vote_lost: "tri_obj m s key \<noteq> None \<Longrightarrow> vote (tri_ops m) key data s = (Ok False, s)"
  by (auto simp: vote_def tri_put tri_obj_def split: option.splits)

text \<open>Who owns a position, and what a probe of the first bytes tells: two media agree on it.\<close>

definition tri_owner :: "u32 \<Rightarrow> tri_store \<Rightarrow> u64 \<Rightarrow> bytes option" where
  "tri_owner shard s q =
     (let a = tri_obj Az1 s (segment_key shard q); b = tri_obj Az2 s (segment_key shard q); c = tri_obj Std s (segment_key shard q)
      in if a \<noteq> None \<and> (a = b \<or> a = c) then a else if b \<noteq> None \<and> b = c then b else None)"

definition tri_held :: "u32 \<Rightarrow> tri_store \<Rightarrow> u64 \<Rightarrow> bool" where
  "tri_held shard s q \<longleftrightarrow>
     (let head = (\<lambda>m. map_option (take 28) (tri_obj m s (segment_key shard q)))
      in \<exists>m n. m \<noteq> n \<and> head m \<noteq> None \<and> head m = head n)"

lemma ex_media: "(\<exists>m n. m \<noteq> n \<and> P m n) \<longleftrightarrow> P Az1 Az2 \<or> P Az1 Std \<or> P Az2 Az1 \<or> P Az2 Std \<or> P Std Az1 \<or> P Std Az2"
  by (metis medium.exhaust medium.distinct)

lemma tri_owner_owns: "tri_owner shard s q = Some d \<longleftrightarrow> owns tri_obj s (segment_key shard q) d"
  unfolding owns_def ex_media by (auto simp: tri_owner_def Let_def)

lemma tri_owner_held: "tri_owner shard s q \<noteq> None \<Longrightarrow> tri_held shard s q"
  unfolding tri_held_def Let_def ex_media
  by (cases "tri_obj Az1 s (segment_key shard q)"; cases "tri_obj Az2 s (segment_key shard q)"; cases "tri_obj Std s (segment_key shard q)")
    (auto simp: tri_owner_def Let_def split: if_splits)

lemma tri_cs_get: "cs_get (tri_ops m) key s = (Ok (bt_get (ms_objects (tri_get m s)) key), s)"
  by (simp add: tri_ops_def tri_lift_def mem_get_def)

lemma tri_fetch: "media_fetch tri_media shard q s = (Ok (tri_owner shard s q), s)"
  unfolding tri_owner_def tri_obj_def
  by (cases "bt_get (ms_objects (tri_get Az1 s)) (segment_key shard q)"; cases "bt_get (ms_objects (tri_get Az2 s)) (segment_key shard q)";
      cases "bt_get (ms_objects (tri_get Std s)) (segment_key shard q)")
    (auto simp: media_fetch_def tri_media_def sbind_def tri_cs_get sret_def Let_def prod_eq_iff)

interpretation tri_probes: quiet_probes tri_media shard s "tri_held shard s"
proof unfold_locales
  show "media_present tri_media shard q s = (Ok (tri_held shard s q), s)" for q
    unfolding tri_held_def Let_def ex_media
    by (cases "tri_obj Az1 s (segment_key shard q)"; cases "tri_obj Az2 s (segment_key shard q)"; cases "tri_obj Std s (segment_key shard q)")
      (auto simp: media_present_def tri_media_def Let_def sbind_def tri_get_range sret_def)
qed

lemma split_absent:
  assumes "split_at shard s q"
  shows "\<not> tri_held shard s q" "tri_owner shard s q = None"
proof -
  show "\<not> tri_held shard s q" using assms unfolding tri_held_def Let_def ex_media by (auto simp: split_at_def)
  then show "tri_owner shard s q = None" using tri_owner_held by blast
qed

lemma split_occupied:
  assumes "split_at shard s q"
  shows "media_seal tri_media shard q data s = (Ok Occupied, s)"
  using assms
  by (auto simp: split_at_def media_seal_def tri_media_def Let_def sbind_def tri_vote_lost sret_def)

lemma tri_digest:
  assumes "digest_at ext (tri_owner shard s) m q d"
  shows "(case m of Some m \<Rightarrow> if q = sm_consolidated_upto m then sret (Ok (sm_consolidated_digest m))
                     else digest_of_segment ext tri_media shard q
         | None \<Rightarrow> digest_of_segment ext tri_media shard q) s = (Ok d, s)"
proof -
  have "digest_of_segment ext tri_media shard q s = (Ok d, s)"
    if "\<not> (\<exists>m'. m = Some m' \<and> q = sm_consolidated_upto m')"
    using assms that by (auto simp: digest_at_def digest_of_segment_def sret_def sbind_def smap_err_def tri_fetch read_footer_def)
  then show ?thesis using assms by (cases m) (auto simp: digest_at_def sret_def)
qed

text \<open>A log whose windows have landed up to \<open>h\<close>, and whose next position is split.\<close>

definition torn_after :: "externals \<Rightarrow> u32 \<Rightarrow> shard_manifest option \<Rightarrow> tri_store \<Rightarrow> u64 \<Rightarrow> bool" where
  "torn_after ext shard m s h \<longleftrightarrow>
     known_floor m \<le> h \<and> (\<forall>q. known_floor m < q \<and> q \<le> h \<longrightarrow> tri_owner shard s q \<noteq> None) \<and>
     (\<exists>d. digest_at ext (tri_owner shard s) m h d) \<and> split_at shard s (h + 1) \<and>
     (\<forall>medium q. tri_obj medium s (segment_key shard q) \<noteq> None \<longrightarrow> unat q \<le> unat h + 1 + MAX_INFLIGHT) \<and>
     unat h + 1 + MAX_INFLIGHT < 2 ^ 64 - 1"

lemma torn_head:
  assumes "torn_after ext shard m s h"
  shows "chain_head tri_media shard (known_floor m) s = Some (Ok h, s)"
proof -
  have h1: "unat (h + 1) = unat h + 1" using assms by (simp add: torn_after_def unat_word_ariths)
  have "chain_head tri_media shard (known_floor m) s = Some (Ok (h + 1 - 1), s)"
  proof (rule tri_probes.chain_head_hole)
    show "known_floor m < h + 1" using assms h1 by (auto simp: torn_after_def word_less_nat_alt word_le_nat_alt)
    show "tri_held shard s q" if "known_floor m < q" "q < h + 1" for q
    proof (rule tri_owner_held)
      have "q \<le> h" using that(2) h1 by (simp add: word_less_nat_alt word_le_nat_alt)
      then show "tri_owner shard s q \<noteq> None" using assms that(1) unfolding torn_after_def by blast
    qed
    show "\<not> tri_held shard s (h + 1)" using assms split_absent(1) unfolding torn_after_def by blast
    show "unat q \<le> unat (h + 1) + MAX_INFLIGHT" if "tri_held shard s q" for q
    proof -
      have "\<exists>m. tri_obj m s (segment_key shard q) \<noteq> None" using that unfolding tri_held_def Let_def by fastforce
      then show ?thesis using assms unfolding torn_after_def h1 by blast
    qed
    show "unat (h + 1) + MAX_INFLIGHT < 2 ^ 64 - 1" using assms unfolding torn_after_def h1 by blast
  qed
  then show ?thesis by simp
qed

lemma torn_attempt:
  assumes m: "loads c (tri_manifest shard s) m" and torn: "torn_after ext shard m s h"
  shows "take_over_attempt ext c tri_media shard node now s = Some (Ok None, s)"
proof -
  let ?loaded = "case tri_manifest shard s of None \<Rightarrow> None | Some (b, v) \<Rightarrow> Some (the m, v)"
  have load: "sm_load c (manifest_store tri_media) shard s = (Ok ?loaded, s)" "map_option fst ?loaded = m"
    using m
    by (auto simp: sm_load_def sbind_def smap_err_def tri_media_def manifest_store_def tri_ops_def tri_lift_def mem_get_def
        tri_manifest_def mem_view_def loads_def sm_decode_def sret_def not_less [symmetric] split: option.splits)
  obtain d where "digest_at ext (tri_owner shard s) m h d" using torn unfolding torn_after_def by blast
  note digest = tri_digest [OF this]
  have split: "split_at shard s (h + 1)" using torn unfolding torn_after_def by blast
  from segment_finish_bound [of "[]" 0 ext "seal_header shard (h + 1) d"] obtain seal ts where
    seal: "seal_segment ext shard (h + 1) d = Ok (seal, ts)"
    by (auto simp: seal_segment_def push_staged_def seal_header_def)
  have "take_over_from ext c tri_media shard node now m v s = Some (Ok None, s)" for v
    using torn_head [OF torn] digest seal split_occupied [OF split]
    unfolding take_over_from_def known_floor_def [symmetric] Let_def
    by (simp add: pbind_def pcall_def smap_err_def sret_def)
  then show ?thesis
    unfolding take_over_attempt_def pbind_def pcall_def load(1)
    by (simp only: option.case prod.case outcome.case load(2))
qed

text \<open>C38. In the mode with two fast buckets a takeover that dies between its two votes can leave the shard without an owner for good.
  Let every position above what the manifest records be owned up to h, with the digest of h readable, and no object stand further
  above h + 1 than a writer's inflight limit. When position h + 1 holds a dead writer's segment on one fast
  medium and the seal of an unfinished takeover on the other, and nothing on the standard one, neither owns it, and every takeover by any node at any time gives up as
  contested after its eight attempts and changes nothing: both of its votes are lost, and it takes that for a landed segment without asking the standard medium.
\<close>

theorem split_vote_wedges_takeover:
  assumes "loads c (tri_manifest shard s) m" "torn_after ext shard m s h"
  shows "(\<forall>d. \<not> owns tri_obj s (segment_key shard (h + 1)) d) \<and>
    take_over ext c tri_media shard node clock s = Some (Err (Contested shard 8), s)"
proof
  have "tri_owner shard s (h + 1) = None" using assms(2) split_absent(2) unfolding torn_after_def by blast
  then show "\<forall>d. \<not> owns tri_obj s (segment_key shard (h + 1)) d" by (simp add: tri_owner_owns [symmetric])
  have "take_over_loop ext c tri_media shard node clock n s = Some (Err (Contested shard 8), s)" for n
    using torn_attempt [OF assms] by (induction n) (simp_all add: pbind_def pcall_def sret_def MAX_ATTEMPTS_def)
  then show "take_over ext c tri_media shard node clock s = Some (Err (Contested shard 8), s)"
    by (simp add: take_over_def)
qed

text \<open>A window that landed on both fast media, then a writer whose put reached the first one, and a takeover that got the second
  vote and stopped.\<close>

definition torn_store :: "bytes \<Rightarrow> tri_store" where
  "torn_store landed =
     (let put = (\<lambda>m q data s. snd (put_if_absent (tri_ops m) (segment_key 3 q) data s))
      in snd (vote (tri_ops Az2) (segment_key 3 2) [0x5A, 1]
           (put Az1 2 [0x5A, 0] (put Az2 1 landed (put Az1 1 landed tri_empty)))))"

lemma tri_put_obj:
  "tri_obj n (snd (put_if_absent (tri_ops m) key data s)) k =
     (if n = m \<and> k = key \<and> tri_obj m s key = None then Some data else tri_obj n s k)"
  by (auto simp: tri_put tri_obj_def Let_def bt_get_insert split: option.splits)

lemma tri_vote_put: "snd (vote (tri_ops m) key data s) = snd (put_if_absent (tri_ops m) key data s)"
  by (auto simp: vote_def tri_put Let_def split: option.splits)

lemma torn_store_obj:
  "tri_obj m (torn_store landed) key =
     (if key = segment_key 3 1 \<and> m \<noteq> Std then Some landed
      else if key = segment_key 3 2 \<and> m = Az1 then Some [0x5A, 0]
      else if key = segment_key 3 2 \<and> m = Az2 then Some [0x5A, 1] else None)"
proof -
  have "tri_obj m tri_empty k = None" for m k
    by (cases m) (simp_all add: tri_obj_def tri_empty_def tri_get_def mem_new_def bt_get_def)
  then show ?thesis
    by (cases m) (simp_all add: torn_store_def Let_def tri_vote_put tri_put_obj segment_key_inj)
qed

theorem split_vote_wedges_takeover_witness:
  "\<exists>sq. seq_reach sample_ext 3 sample_config 1 0 sq \<and> length (sq_windows sq) = 1 \<and>
     (let s = torn_store (wi_segment (sq_windows sq ! 0))
      in take_over sample_ext sample_chain_codec tri_media 3 ''n3'' (\<lambda>_. 1700000000) s = Some (Err (Contested 3 8), s))"
proof -
  obtain sq where r: "seq_reach sample_ext 3 sample_config 1 0 sq" "frames_ok sq" "segments_small sq" "length (sq_windows sq) = 1"
    by (rule sample_recovery)
  let ?w = "wi_segment (sq_windows sq ! 0)"
  let ?s = "torn_store ?w"
  from windows_read_back [OF sample_ext_faithful sample_ext_bounded r(1-3), of 1] r(4) obtain gs where
    "segment_at sample_ext (Some ?w) (gs ! 0)" by auto
  then obtain h fs f where "segment_read_footer sample_ext ?w = Ok (h, f)"
    using decode_segment_footer by (fastforce simp: segment_at_def)
  moreover have own: "tri_owner 3 ?s 1 = Some ?w" by (simp add: tri_owner_def torn_store_obj)
  ultimately have "\<exists>d. digest_at sample_ext (tri_owner 3 ?s) None 1 d" by (simp add: digest_at_def)
  moreover have "tri_owner 3 ?s q \<noteq> None" if "known_floor None < q" "q \<le> 1" for q
  proof -
    have "q = 1" using that by (simp add: known_floor_def word_less_nat_alt word_le_nat_alt word_unat_eq_iff)
    then show ?thesis using own by simp
  qed
  moreover have "split_at 3 ?s (1 + 1)" by (simp add: split_at_def torn_store_obj segment_key_inj)
  moreover have "unat q \<le> unat (1 :: u64) + 1 + MAX_INFLIGHT" if "tri_obj m ?s (segment_key 3 q) \<noteq> None" for m q
    using that by (auto simp: torn_store_obj segment_key_inj split: if_splits)
  ultimately have "torn_after sample_ext 3 None ?s 1" unfolding torn_after_def by (auto simp: known_floor_def MAX_INFLIGHT_def)
  moreover have "loads sample_chain_codec (tri_manifest 3 ?s) None"
    using torn_store_obj [of Std ?w "manifest_key 3"] manifest_key_apart [of 3]
    by (auto simp: loads_def tri_manifest_def mem_view_def tri_obj_def split: option.splits)
  ultimately show ?thesis
    using split_vote_wedges_takeover [of sample_chain_codec 3 ?s None sample_ext 1] r(1,4) unfolding Let_def by blast
qed

end
