(* ===== verification/Utf8_Text.thy ===== *)
theory Utf8_Text
  imports Fallible_State Text_Numbers
begin

text \<open>
  Rust's strings as the bytes they are, which are the characters of HOL: when bytes are UTF-8, where a character begins,
  and slicing a string, which panics anywhere else. Cutting and joining such strings at plain
  ASCII bytes keeps them UTF-8, which is what the grammars of the REST layer rest on.
\<close>

definition code :: "char \<Rightarrow> nat" where
  "code c = of_char c"

definition ascii :: "char \<Rightarrow> bool" where
  "ascii c \<longleftrightarrow> code c < 128"

text \<open>A continuation byte, which begins no character.\<close>

definition cont :: "char \<Rightarrow> bool" where
  "cont c \<longleftrightarrow> 128 \<le> code c \<and> code c < 192"

definition byte_in :: "nat \<Rightarrow> nat \<Rightarrow> nat \<Rightarrow> string \<Rightarrow> bool" where
  "byte_in lo hi i s \<longleftrightarrow> i < length s \<and> lo \<le> code (s ! i) \<and> code (s ! i) \<le> hi"

text \<open>How many bytes the first character has, as \<open>from_utf8\<close> reads it.\<close>

definition char_len :: "string \<Rightarrow> nat option" where
  "char_len s =
     (if byte_in 0 0x7F 0 s then Some 1
      else if byte_in 0xC2 0xDF 0 s \<and> byte_in 0x80 0xBF 1 s then Some 2
      else if (byte_in 0xE0 0xE0 0 s \<and> byte_in 0xA0 0xBF 1 s \<or> byte_in 0xE1 0xEC 0 s \<and> byte_in 0x80 0xBF 1 s \<or>
               byte_in 0xED 0xED 0 s \<and> byte_in 0x80 0x9F 1 s \<or> byte_in 0xEE 0xEF 0 s \<and> byte_in 0x80 0xBF 1 s) \<and>
              byte_in 0x80 0xBF 2 s then Some 3
      else if (byte_in 0xF0 0xF0 0 s \<and> byte_in 0x90 0xBF 1 s \<or> byte_in 0xF1 0xF3 0 s \<and> byte_in 0x80 0xBF 1 s \<or>
               byte_in 0xF4 0xF4 0 s \<and> byte_in 0x80 0x8F 1 s) \<and> byte_in 0x80 0xBF 2 s \<and> byte_in 0x80 0xBF 3 s then Some 4
      else None)"

lemma byte_in_widen: "byte_in lo hi i s \<Longrightarrow> lo' \<le> lo \<Longrightarrow> hi \<le> hi' \<Longrightarrow> byte_in lo' hi' i s"
  by (auto simp: byte_in_def)

lemma byte_in_cont: "byte_in lo hi i s \<Longrightarrow> 0x80 \<le> lo \<Longrightarrow> hi \<le> 0xBF \<Longrightarrow> cont (s ! i) \<and> i < length s"
  by (auto simp: byte_in_def cont_def)

lemma byte_in_lead: "byte_in lo hi 0 s \<Longrightarrow> 0xC0 \<le> lo \<Longrightarrow> \<not> cont (s ! 0) \<and> \<not> ascii (s ! 0)"
  by (auto simp: byte_in_def cont_def ascii_def)

lemma char_len_cases:
  assumes "char_len s = Some n"
  obtains "n = 1" "ascii (s ! 0)" "0 < length s"
  | "n = 2" "\<not> cont (s ! 0)" "\<not> ascii (s ! 0)" "cont (s ! 1)" "1 < length s"
  | "n = 3" "\<not> cont (s ! 0)" "\<not> ascii (s ! 0)" "cont (s ! 1)" "cont (s ! 2)" "2 < length s"
  | "n = 4" "\<not> cont (s ! 0)" "\<not> ascii (s ! 0)" "cont (s ! 1)" "cont (s ! 2)" "cont (s ! 3)" "3 < length s"
proof -
  have one: thesis if "byte_in 0 0x7F 0 s" "n = 1"
    using that(1) by (intro \<open>\<lbrakk>n = 1; ascii (s ! 0); 0 < length s\<rbrakk> \<Longrightarrow> thesis\<close> [OF that(2)]) (auto simp: byte_in_def ascii_def)
  show thesis
    using assms one that
    by (auto simp: char_len_def split: if_splits dest!: byte_in_cont byte_in_lead)
qed

lemma char_len_Some:
  assumes "char_len s = Some n"
  shows "1 \<le> n" "n \<le> length s" "\<not> cont (s ! 0)" "\<And>i. 0 < i \<Longrightarrow> i < n \<Longrightarrow> cont (s ! i)"
    "ascii (s ! 0) \<longleftrightarrow> n = 1"
proof -
  have "1 \<le> n \<and> n \<le> length s \<and> \<not> cont (s ! 0) \<and> (ascii (s ! 0) \<longleftrightarrow> n = 1)"
    using assms by (cases rule: char_len_cases) (auto simp: ascii_def cont_def Suc_le_eq)
  then show "1 \<le> n" "n \<le> length s" "\<not> cont (s ! 0)" "ascii (s ! 0) \<longleftrightarrow> n = 1" by auto
  show "cont (s ! i)" if i: "0 < i" "i < n" for i
  proof (use assms in \<open>cases rule: char_len_cases\<close>)
    case 1
    then show ?thesis using i by simp
  next
    case 2
    then have "i = 1" using i by simp
    with 2 show ?thesis by simp
  next
    case 3
    then have "i = 1 \<or> i = 2" using i by auto
    with 3 show ?thesis by auto
  next
    case 4
    then have "i = 1 \<or> i = 2 \<or> i = 3" using i by auto
    with 4 show ?thesis by auto
  qed
qed

lemma byte_in_prefix: "i < n \<Longrightarrow> n \<le> length s \<Longrightarrow> byte_in lo hi i (take n s @ t) = byte_in lo hi i s"
  by (auto simp: byte_in_def nth_append)

function utf8 :: "string \<Rightarrow> bool" where
  "utf8 s =
     (if s = [] then True
      else case char_len s of None \<Rightarrow> False | Some n \<Rightarrow> utf8 (drop n s))"
  by pat_completeness auto
termination
  by (relation "measure length") (auto dest: char_len_Some(1))

declare utf8.simps [simp del]

lemma utf8_Nil [simp]: "utf8 []" by (simp add: utf8.simps)

lemma char_len_prefix:
  assumes "char_len s = Some n"
  shows "char_len (take n s @ t) = Some n"
proof -
  have n: "n \<le> length s" "1 \<le> n" using char_len_Some [OF assms] by auto
  have b: "byte_in lo hi i (take n s @ t) = byte_in lo hi i s" if "i < n" for lo hi i
    using byte_in_prefix [OF that n(1)] .
  consider "n = 1" | "n = 2" | "n = 3" | "n = 4"
    using assms by (auto simp: char_len_def split: if_splits)
  then show ?thesis
  proof cases
    case 1
    then show ?thesis using assms b [of 0] by (auto simp: char_len_def split: if_splits)
  next
    case 2
    then show ?thesis using assms b [of 0] b [of 1] by (auto simp: char_len_def split: if_splits)
  next
    case 3
    then show ?thesis using assms b [of 0] b [of 1] b [of 2] by (auto simp: char_len_def split: if_splits)
  next
    case 4
    then show ?thesis using assms b [of 0] b [of 1] b [of 2] b [of 3] by (auto simp: char_len_def split: if_splits)
  qed
qed

lemma utf8_append: "utf8 a \<Longrightarrow> utf8 (a @ b) \<longleftrightarrow> utf8 b"
proof (induction a rule: utf8.induct)
  case (1 a)
  show ?case
  proof (cases "a = []")
    case False
    then obtain n where n: "char_len a = Some n" "utf8 (drop n a)"
      using "1.prems" by (subst (asm) utf8.simps) (auto split: option.splits)
    have le: "n \<le> length a" using char_len_Some [OF n(1)] by simp
    have "take n a @ drop n a @ b = a @ b" by (metis append.assoc append_take_drop_id)
    with char_len_prefix [OF n(1), of "drop n a @ b"] have "char_len (a @ b) = Some n" by (simp only:)
    then have "utf8 (a @ b) \<longleftrightarrow> utf8 (drop n a @ b)" using False le by (subst utf8.simps) simp
    then show ?thesis using "1.IH" [OF False n] by simp
  qed simp
qed

text \<open>Where a character begins, \<open>str::is_char_boundary\<close>.\<close>

definition is_boundary :: "string \<Rightarrow> nat \<Rightarrow> bool" where
  "is_boundary s i \<longleftrightarrow> i = 0 \<or> i = length s \<or> i < length s \<and> \<not> cont (s ! i)"

lemma utf8_split:
  assumes "utf8 s" "is_boundary s i"
  shows "utf8 (take i s)" "utf8 (drop i s)"
proof -
  have "utf8 (take i s) \<and> utf8 (drop i s)"
    using assms
  proof (induction s arbitrary: i rule: utf8.induct)
    case (1 s)
    show ?case
    proof (cases "s = [] \<or> i = 0")
      case False
      then obtain n where n: "char_len s = Some n" "utf8 (drop n s)"
        using "1.prems"(1) by (subst (asm) utf8.simps) (auto split: option.splits)
      note c = char_len_Some [OF n(1)]
      have "n \<le> i"
      proof (rule ccontr)
        assume "\<not> n \<le> i"
        then have "cont (s ! i)" "i < length s" using c False by auto
        then show False using "1.prems"(2) False by (simp add: is_boundary_def)
      qed
      then have "is_boundary (drop n s) (i - n)" using "1.prems"(2) False c(2) by (auto simp: is_boundary_def)
      from "1.IH" [OF _ n this] False have IH: "utf8 (take (i - n) (drop n s))" "utf8 (drop (i - n) (drop n s))" by simp_all
      have "utf8 (take n s)"
        using char_len_prefix [OF n(1), of "[]"] False c by (subst utf8.simps) simp
      moreover have "take i s = take n s @ take (i - n) (drop n s)" using \<open>n \<le> i\<close> by (metis take_add le_add_diff_inverse)
      ultimately show ?thesis using IH \<open>n \<le> i\<close> utf8_append by simp
    qed (use "1.prems" in auto)
  qed
  then show "utf8 (take i s)" "utf8 (drop i s)" by auto
qed

lemma boundary_at_ascii:
  assumes "utf8 s" "i < length s" "ascii (s ! i)"
  shows "is_boundary s i" "is_boundary s (Suc i)"
proof -
  show i: "is_boundary s i" using assms(2,3) by (auto simp: is_boundary_def cont_def ascii_def)
  have d: "utf8 (drop i s)" using utf8_split(2) [OF assms(1) i] .
  then obtain n where n: "char_len (drop i s) = Some n" "utf8 (drop n (drop i s))"
    using assms(2) by (subst (asm) utf8.simps) (auto split: option.splits)
  then have "n = 1" using char_len_Some(5) [OF n(1)] assms by simp
  then have "utf8 (drop (Suc i) s)" using n(2) by (simp add: drop_drop)
  show "is_boundary s (Suc i)"
  proof (cases "Suc i < length s")
    case True
    with \<open>utf8 (drop (Suc i) s)\<close> obtain k where "char_len (drop (Suc i) s) = Some k"
      by (subst (asm) utf8.simps) (auto split: option.splits)
    from char_len_Some(3) [OF this] True show ?thesis by (simp add: is_boundary_def)
  qed (use assms(2) in \<open>simp add: is_boundary_def\<close>)
qed

lemma utf8_ascii: "list_all ascii s \<Longrightarrow> utf8 s"
proof (induction s)
  case (Cons c s)
  then have "utf8 [c]" by (subst utf8.simps) (simp add: char_len_def byte_in_def ascii_def)
  with Cons show ?case using utf8_append [of "[c]" s] by simp
qed simp

section \<open>Slicing\<close>

text \<open>\<open>&s[a..b]\<close>, which panics off a character boundary.\<close>

definition str_slice :: "string \<Rightarrow> nat \<Rightarrow> nat \<Rightarrow> (string, 'e) outcome" where
  "str_slice s a b =
     (if a \<le> b \<and> b \<le> length s \<and> is_boundary s a \<and> is_boundary s b then Ok (take (b - a) (drop a s)) else Panic)"

definition str_from :: "string \<Rightarrow> nat \<Rightarrow> (string, 'e) outcome" where
  "str_from s a = str_slice s a (length s)"

text \<open>\<open>s.chars().next()\<close>; a \<open>char\<close> is the bytes that spell it.\<close>

definition first_char :: "string \<Rightarrow> string option" where
  "first_char s = (case char_len s of None \<Rightarrow> None | Some n \<Rightarrow> Some (take n s))"

lemma str_slice_Ok:
  assumes "utf8 s" "str_slice s a b = Ok t"
  shows "utf8 t" "t = take (b - a) (drop a s)"
proof -
  have b: "a \<le> b" "b \<le> length s" "is_boundary s a" "is_boundary s b" and t: "t = take (b - a) (drop a s)"
    using assms(2) by (auto simp: str_slice_def split: if_splits)
  have "is_boundary (drop a s) (b - a)" using b by (auto simp: is_boundary_def)
  with utf8_split(2) [OF assms(1) b(3)] show "utf8 t" unfolding t by (rule utf8_split(1))
  show "t = take (b - a) (drop a s)" by (rule t)
qed

lemma is_boundary_ends [simp]: "is_boundary s 0" "is_boundary s (length s)"
  by (simp_all add: is_boundary_def)

end
