(* ===== verification/Rest_Scan.thy ===== *)
theory Rest_Scan
  imports Utf8_Text
begin

text \<open>
  The cursor of the REST grammars and the pieces they share (crates/zou-rest/src/scan.rs): names, quoted names, JSON
  paths, errors with a position, and the escaping that writes names back. A parser is a call on the cursor that may
  fail; a slice off a character boundary, a failed \<open>expect\<close> and an index past the end are panics.
\<close>

section \<open>Errors\<close>

text \<open>A \<open>char\<close> is the bytes that spell it.\<close>

datatype found = FEnd | Token string | Leftover string

record rest_error =
  re_found :: found
  re_expecting :: "string list"
  re_at :: nat

definition show_found :: "found \<Rightarrow> string" where
  "show_found f =
     (case f of
        FEnd \<Rightarrow> ''end of input''
      | Token c \<Rightarrow> CHR 0x22 # c @ [CHR 0x22]
      | Leftover c \<Rightarrow> CHR 0x27 # c @ [CHR 0x27])"

definition label :: "nat \<Rightarrow> string list \<Rightarrow> rest_error \<Rightarrow> rest_error" where
  "label start expecting e = (if re_at e = start then e\<lparr>re_expecting := expecting\<rparr> else e)"

fun show_wants :: "nat \<Rightarrow> nat \<Rightarrow> string list \<Rightarrow> string" where
  "show_wants i n [] = []"
| "show_wants i n (w # ws) =
     (if i = 0 then '' expecting '' else if i + 1 = n then '' or '' else '', '') @ w @ show_wants (Suc i) n ws"

definition show_error :: "rest_error \<Rightarrow> string" where
  "show_error e =
     (let seen = foldl (\<lambda>seen w. if w \<in> set seen then seen else seen @ [w]) [] (re_expecting e)
      in ''unexpected '' @ show_found (re_found e) @ show_wants 0 (length seen) seen)"

record failure =
  fa_what :: string
  fa_input :: string
  fa_skew :: nat
  fa_error :: rest_error

definition show_failure :: "failure \<Rightarrow> string" where
  "show_failure f = ''failed to parse '' @ fa_what f @ '' ('' @ fa_input f @ ''): '' @ show_error (fa_error f)"

definition word_lit :: "string \<Rightarrow> string" where
  "word_lit s = CHR 0x22 # s @ [CHR 0x22]"

definition FIELD_NAME :: string where
  "FIELD_NAME = ''field name (* or [a..z0..9_$])''"

definition JSON_KEY :: string where
  "JSON_KEY = ''any non reserved character different from: .,>()''"

definition DELIMITER :: string where
  "DELIMITER = ''delimiter (.)''"

definition END :: string where
  "END = ''end of input''"

definition DIGIT :: string where
  "DIGIT = ''digit''"

fun common_prefix :: "string \<Rightarrow> string \<Rightarrow> nat" where
  "common_prefix (a # w) (b # r) = (if a = b then Suc (common_prefix w r) else 0)"
| "common_prefix _ _ = 0"

definition reach :: "string \<Rightarrow> string list \<Rightarrow> nat" where
  "reach rest ws = foldr max (map (\<lambda>w. common_prefix w rest) ws) 0"

datatype json_key = JName string | JIndex int

record json_step =
  js_text :: bool
  js_key :: json_key

section \<open>The cursor\<close>

record cur =
  c_s :: string
  c_pos :: nat

definition cur_new :: "string \<Rightarrow> cur" where
  "cur_new s = \<lparr>c_s = s, c_pos = 0\<rparr>"

text \<open>The bytes not read yet.\<close>

definition rest_of :: "cur \<Rightarrow> string" where
  "rest_of c = drop (c_pos c) (c_s c)"

definition adv :: "nat \<Rightarrow> cur \<Rightarrow> cur" where
  "adv n c = c\<lparr>c_pos := c_pos c + n\<rparr>"

definition peek :: "cur \<Rightarrow> char option" where
  "peek c = (if c_pos c < length (c_s c) then Some (c_s c ! c_pos c) else None)"

definition bump :: "cur \<Rightarrow> cur" where
  "bump c = adv 1 c"

definition cur_done :: "cur \<Rightarrow> bool" where
  "cur_done c \<longleftrightarrow> c_pos c \<ge> length (c_s c)"

definition eat :: "char \<Rightarrow> (bool, 'e, cur) sop" where
  "eat b c = (if peek c = Some b then (Ok True, bump c) else (Ok False, c))"

definition starts :: "string \<Rightarrow> cur \<Rightarrow> (bool, 'e) outcome" where
  "starts w c = (if c_pos c > length (c_s c) then Panic else Ok (starts_with w (rest_of c)))"

definition eat_str :: "string \<Rightarrow> (bool, 'e, cur) sop" where
  "eat_str w c =
     (if c_pos c > length (c_s c) then (Panic, c)
      else if starts_with w (rest_of c) then (Ok True, adv (length w) c)
      else (Ok False, c))"

definition blank :: "char \<Rightarrow> bool" where
  "blank c \<longleftrightarrow> c = CHR '' '' \<or> c = CHR 0x09"

definition skip_spaces :: "(unit, 'e, cur) sop" where
  "skip_spaces c = (Ok (), adv (length (takeWhile blank (rest_of c))) c)"

definition skip_spaces_before :: "char \<Rightarrow> (unit, 'e, cur) sop" where
  "skip_spaces_before b c =
     (Ok (), let n = length (takeWhile blank (rest_of c)) in if peek (adv n c) = Some b then adv n c else c)"

definition found_at :: "nat \<Rightarrow> cur \<Rightarrow> (found, 'e) outcome" where
  "found_at at c =
     obind (str_from (c_s c) (min at (length (c_s c)))) (\<lambda>t.
     Ok (case first_char t of None \<Rightarrow> FEnd | Some ch \<Rightarrow> Token ch))"

definition err_at :: "nat \<Rightarrow> string list \<Rightarrow> ('a, rest_error, cur) sop" where
  "err_at at expecting c =
     (obind (found_at at c) (\<lambda>f. Err \<lparr>re_found = f, re_expecting = expecting, re_at = at\<rparr>), c)"

definition err :: "string list \<Rightarrow> ('a, rest_error, cur) sop" where
  "err expecting c = err_at (c_pos c) expecting c"

definition err_word :: "nat \<Rightarrow> string list \<Rightarrow> string list \<Rightarrow> ('a, rest_error, cur) sop" where
  "err_word at ws expecting c =
     (obind (str_from (c_s c) (min at (length (c_s c)))) (\<lambda>t.
      obind (found_at (at + reach t (take 1 ws)) c) (\<lambda>f.
      Err \<lparr>re_found = f, re_expecting = expecting, re_at = at\<rparr>)), c)"

definition to_ascii_lowercase :: "string \<Rightarrow> string" where
  "to_ascii_lowercase = map (\<lambda>c. if 65 \<le> code c \<and> code c \<le> 90 then char_of (code c + 32) else c)"

definition err_ci_word :: "nat \<Rightarrow> string list \<Rightarrow> string list \<Rightarrow> ('a, rest_error, cur) sop" where
  "err_ci_word at ws expecting c =
     (case str_from (c_s c) (min at (length (c_s c))) of
        Ok t \<Rightarrow> err_at (at + reach (to_ascii_lowercase t) ws) expecting c
      | Err e \<Rightarrow> (Err e, c)
      | Panic \<Rightarrow> (Panic, c))"

definition leftover :: "string list \<Rightarrow> ('a, rest_error, cur) sop" where
  "leftover expecting c =
     (obind (found_at (c_pos c) c) (\<lambda>f.
      Err \<lparr>re_found = (case f of Token ch \<Rightarrow> Leftover ch | other \<Rightarrow> other), re_expecting = expecting, re_at = c_pos c\<rparr>), c)"

definition expect_as :: "char \<Rightarrow> string list \<Rightarrow> (unit, rest_error, cur) sop" where
  "expect_as b expecting = sbind (eat b) (\<lambda>ok. if ok then sret (Ok ()) else err expecting)"

definition expect_byte :: "char \<Rightarrow> (unit, rest_error, cur) sop" where
  "expect_byte b = expect_as b [word_lit [b]]"

text \<open>The bytes from the cursor to \<open>n\<close> further on, and the cursor moved there.\<close>

definition take_slice :: "nat \<Rightarrow> (string, 'e, cur) sop" where
  "take_slice n c = (str_slice (c_s c) (c_pos c) (c_pos c + n), adv n c)"

definition take_rest :: "(string, 'e, cur) sop" where
  "take_rest c = (str_from (c_s c) (c_pos c), c\<lparr>c_pos := length (c_s c)\<rparr>)"

section \<open>Names\<close>

text \<open>How far a bare name reaches: to a break byte, or to an arrow.\<close>

fun name_span :: "(char \<Rightarrow> bool) \<Rightarrow> string \<Rightarrow> nat" where
  "name_span brk [] = 0"
| "name_span brk (b # bs) =
     (if brk b \<or> b = CHR ''-'' \<and> starts_with ''->'' (b # bs) then 0 else Suc (name_span brk bs))"

definition scan_name :: "(char \<Rightarrow> bool) \<Rightarrow> (string, 'e, cur) sop" where
  "scan_name brk c = take_slice (name_span brk (rest_of c)) c"

text \<open>The loop after an opening quote: what it read up to the closing one, if there is one, and how far it got.\<close>

fun quoted_loop :: "string \<Rightarrow> string \<Rightarrow> nat \<Rightarrow> string option \<times> nat" where
  "quoted_loop [] out n = (None, n)"
| "quoted_loop (b # bs) out n =
     (if b = CHR 0x22 then (Some out, n + 1)
      else if b = CHR 0x5C then
        (case bs of
           [] \<Rightarrow> (None, n + 1)
         | e # bs \<Rightarrow> quoted_loop bs (out @ [e]) (n + 2))
      else quoted_loop bs (out @ [b]) (n + 1))"

definition scan_quoted :: "(string, rest_error, cur) sop" where
  "scan_quoted =
     sbind (expect_byte (CHR 0x22)) (\<lambda>_ c.
       case quoted_loop (rest_of c) [] 0 of
         (None, n) \<Rightarrow> err [word_lit [CHR 0x22]] (adv n c)
       | (Some out, n) \<Rightarrow> (if utf8 out then Ok out else Panic, adv n c))"

section \<open>JSON paths\<close>

definition trim_blanks :: "string \<Rightarrow> string" where
  "trim_blanks s = rev (dropWhile blank (rev (dropWhile blank s)))"

definition json_key_break :: "char \<Rightarrow> bool" where
  "json_key_break b \<longleftrightarrow> b \<in> {CHR ''('', CHR '')'', CHR '':'', CHR ''.'', CHR '','', CHR ''>''}"

definition is_digit :: "char \<Rightarrow> bool" where
  "is_digit c \<longleftrightarrow> 48 \<le> code c \<and> code c \<le> 57"

text \<open>\<open>parse::<i64>\<close> of digits with an optional minus sign in front.\<close>

definition parse_i64 :: "string \<Rightarrow> int option" where
  "parse_i64 s =
     (if starts_with ''-'' s
      then map_option (\<lambda>n. - int n) (from_str_radix (2 ^ 63 + 1) 10 (tl s))
      else map_option int (from_str_radix (2 ^ 63) 10 s))"

definition json_index :: "(int option, 'e, cur) sop" where
  "json_index c =
     (let r = rest_of c;
          sign = (if starts_with ''-'' r then 1 else 0);
          n = length (takeWhile is_digit (drop sign r));
          at = c_pos c + sign + n
      in if n = 0 then (Ok None, c)
         else
           case str_from (c_s c) at of
             Ok rest \<Rightarrow>
               if \<not> (rest = [] \<or> starts_with ''->'' rest \<or> starts_with ''::'' rest \<or> starts_with ''.'' rest \<or> starts_with '','' rest)
               then (Ok None, c)
               else
                 (case str_slice (c_s c) (c_pos c) at of
                    Ok t \<Rightarrow>
                      (case parse_i64 t of
                         None \<Rightarrow> (Ok None, c)
                       | Some i \<Rightarrow> (Ok (Some i), adv (sign + n) c))
                  | Err e \<Rightarrow> (Err e, c)
                  | Panic \<Rightarrow> (Panic, c))
           | Err e \<Rightarrow> (Err e, c)
           | Panic \<Rightarrow> (Panic, c))"

definition key_byte :: "char \<Rightarrow> bool" where
  "key_byte b \<longleftrightarrow> \<not> json_key_break b \<and> b \<noteq> CHR ''-''"

fun join :: "string \<Rightarrow> string list \<Rightarrow> string" where
  "join sep [] = []"
| "join sep [x] = x"
| "join sep (x # xs) = x @ sep @ join sep xs"

text \<open>The pieces of a bare key, from one dash to the next.\<close>

function key_pieces :: "string list \<Rightarrow> (json_key, rest_error, cur) sop" where
  "key_pieces parts c =
     (let n = length (takeWhile key_byte (rest_of c))
      in if n = 0 then
           (if parts = [] then err [word_lit ''-'', DIGIT, JSON_KEY] c else err [] c)
         else
           case take_slice n c of
             (Ok t, c') \<Rightarrow>
               let parts = parts @ [trim_blanks t]
               in if peek c' \<noteq> Some (CHR ''-'') then (Ok (JName (join ''-'' parts)), c')
                  else
                    (case starts ''->'' c' of
                       Ok arrow \<Rightarrow>
                         if \<not> arrow then key_pieces parts (bump c') else (Ok (JName (join ''-'' parts)), c')
                     | Err e \<Rightarrow> (Err e, c')
                     | Panic \<Rightarrow> (Panic, c'))
           | (Err e, c') \<Rightarrow> (Err e, c')
           | (Panic, c') \<Rightarrow> (Panic, c'))"
  by pat_completeness auto
termination
  by (relation "measure (\<lambda>(_, c). length (c_s c) - c_pos c)")
    (auto simp: take_slice_def bump_def adv_def peek_def rest_of_def split: if_splits)

declare key_pieces.simps [simp del]

definition parse_json_key :: "(json_key, rest_error, cur) sop" where
  "parse_json_key =
     sbind json_index (\<lambda>i.
     case i of
       Some n \<Rightarrow> sret (Ok (JIndex n))
     | None \<Rightarrow> (\<lambda>c.
         if peek c = Some (CHR ''-'') then
           let digits = c_pos c + 1;
               at = digits + length (takeWhile is_digit (drop digits (c_s c)))
           in if at = digits then err_at digits [DIGIT] c
              else err_at at [DIGIT, word_lit ''->'', word_lit ''::'', word_lit ''.'', word_lit '','', END] c
         else if peek c = Some (CHR 0x22) then sbind scan_quoted (\<lambda>s. sret (Ok (JName s))) c
         else key_pieces [] c))"

section \<open>Moving on\<close>

text \<open>A call keeps the string and never moves the cursor back.\<close>

definition moves :: "('a, 'e, cur) sop \<Rightarrow> bool" where
  "moves m \<longleftrightarrow> (\<forall>c. c_s (snd (m c)) = c_s c \<and> c_pos c \<le> c_pos (snd (m c)))"

named_theorems moves

lemma movesD: "moves m \<Longrightarrow> m c = (r, c') \<Longrightarrow> c_s c' = c_s c \<and> c_pos c \<le> c_pos c'"
  by (metis moves_def snd_conv)

lemma adv_simps [simp]: "c_s (adv n c) = c_s c" "c_pos (adv n c) = c_pos c + n" "adv 0 c = c"
  "adv m (adv n c) = adv (n + m) c"
  by (simp_all add: adv_def add.assoc)

lemma moves_sbind [moves]: "moves m \<Longrightarrow> (\<And>x. moves (f x)) \<Longrightarrow> moves (sbind m f)"
  unfolding moves_def sbind_def by (auto split: outcome.splits prod.splits) (metis order_trans snd_conv)+

lemma moves_basic [moves]:
  "moves (sret x)" "moves (eat b)" "moves (eat_str w)" "moves skip_spaces" "moves (err_at at ws)" "moves (err ws)"
  "moves (err_word at us ws)" "moves (err_ci_word at us ws)" "moves (leftover ws)" "moves (take_slice n)" "moves (scan_name brk)"
  by (auto simp: moves_def sret_def eat_def eat_str_def skip_spaces_def err_at_def err_def err_word_def err_ci_word_def
      leftover_def take_slice_def scan_name_def bump_def split: outcome.splits)

lemma moves_if [moves]: "(b \<Longrightarrow> moves m) \<Longrightarrow> (\<not> b \<Longrightarrow> moves n) \<Longrightarrow> moves (if b then m else n)"
  by simp

lemma moves_choice [moves]: "moves m \<Longrightarrow> moves n \<Longrightarrow> moves (\<lambda>c. if P c then m c else n c)"
  by (simp add: moves_def)

lemma moves_expect [moves]: "moves (expect_as b ws)" "moves (expect_byte b)"
  by (auto simp: expect_as_def expect_byte_def intro!: moves)

lemma moves_scan_quoted [moves]: "moves scan_quoted"
proof -
  have "moves (\<lambda>c. case quoted_loop (rest_of c) [] 0 of
         (None, n) \<Rightarrow> err [word_lit [CHR 0x22]] (adv n c)
       | (Some out, n) \<Rightarrow> (if utf8 out then Ok out else Panic, adv n c))"
    by (auto simp: moves_def err_def err_at_def split: prod.splits option.splits)
  then show ?thesis unfolding scan_quoted_def by (intro moves)
qed

lemma moves_json_index [moves]: "moves json_index"
  by (auto simp: moves_def json_index_def Let_def split: outcome.splits option.splits)

lemma moves_key_pieces [moves]: "moves (key_pieces parts)"
  unfolding moves_def
proof
  fix c show "c_s (snd (key_pieces parts c)) = c_s c \<and> c_pos c \<le> c_pos (snd (key_pieces parts c))"
  proof (induction parts c rule: key_pieces.induct)
    case (1 parts c)
    let ?n = "length (takeWhile key_byte (rest_of c))"
    obtain r :: "(string, rest_error) outcome" and c' where "take_slice ?n c = (r, c')" by fastforce
    then have t: "take_slice ?n c = (r, c')" "c_s c' = c_s c" "c_pos c' = c_pos c + ?n"
      by (auto simp: take_slice_def)
    show ?case
    proof (cases "\<exists>t. ?n \<noteq> 0 \<and> r = Ok t \<and> peek c' = Some (CHR ''-'') \<and> starts ''->'' c' = (Ok False :: (bool, rest_error) outcome)")
      case True
      then obtain t where ok: "?n \<noteq> 0" "r = Ok t" "peek c' = Some (CHR ''-'')" "starts ''->'' c' = (Ok False :: (bool, rest_error) outcome)" by blast
      have "key_pieces parts c = key_pieces (parts @ [trim_blanks t]) (bump c')"
        using ok t(1) by (subst key_pieces.simps) (simp add: Let_def)
      moreover have "c_s (snd (key_pieces (parts @ [trim_blanks t]) (bump c'))) = c_s (bump c') \<and>
          c_pos (bump c') \<le> c_pos (snd (key_pieces (parts @ [trim_blanks t]) (bump c')))"
        by (rule "1.IH") (use ok t(1) in \<open>auto\<close>)
      ultimately show ?thesis using t by (simp add: bump_def)
    next
      case False
      then have "snd (key_pieces parts c) \<in> {c, c'}"
        using t(1) by (subst key_pieces.simps)
          (auto simp: Let_def err_def err_at_def starts_def split: outcome.splits if_splits)
      then show ?thesis using t by auto
    qed
  qed
qed

lemma moves_parse_json_key [moves]: "moves parse_json_key"
proof -
  have q: "moves (sbind scan_quoted (\<lambda>s. sret (Ok (JName s))))" by (intro moves)
  have "moves (\<lambda>c. if peek c = Some (CHR ''-'') then
           let digits = c_pos c + 1;
               at = digits + length (takeWhile is_digit (drop digits (c_s c)))
           in if at = digits then err_at digits [DIGIT] c
              else err_at at [DIGIT, word_lit ''->'', word_lit ''::'', word_lit ''.'', word_lit '','', END] c
         else if peek c = Some (CHR 0x22) then sbind scan_quoted (\<lambda>s. sret (Ok (JName s))) c
         else key_pieces [] c)"
    using q moves_key_pieces [of "[]"] unfolding moves_def Let_def by (simp add: err_at_def)
  then show ?thesis unfolding parse_json_key_def by (intro moves) (auto split: option.splits intro!: moves)
qed

text \<open>The arrow chain.\<close>

function parse_json_path :: "json_step list \<Rightarrow> (json_step list, rest_error, cur) sop" where
  "parse_json_path path c =
     (case eat_str ''->'' c of
        (Ok True, c1) \<Rightarrow>
          (case eat (CHR ''>'') c1 of
             (Ok text, c2) \<Rightarrow>
               (case parse_json_key c2 of
                  (Ok key, c3) \<Rightarrow> parse_json_path (path @ [\<lparr>js_text = text, js_key = key\<rparr>]) c3
                | (Err e, c3) \<Rightarrow> (Err e, c3)
                | (Panic, c3) \<Rightarrow> (Panic, c3))
           | (Err e, c2) \<Rightarrow> (Err e, c2)
           | (Panic, c2) \<Rightarrow> (Panic, c2))
      | (Ok False, c1) \<Rightarrow> (Ok path, c1)
      | (Err e, c1) \<Rightarrow> (Err e, c1)
      | (Panic, c1) \<Rightarrow> (Panic, c1))"
  by pat_completeness auto
termination
proof (relation "measure (\<lambda>(_, c). length (c_s c) - c_pos c)"; clarsimp)
  fix c c1 c2 c3 :: cur and tx key
  assume a: "(Ok True :: (bool, rest_error) outcome, c1) = eat_str ''->'' c"
    "(Ok tx :: (bool, rest_error) outcome, c2) = eat (CHR ''>'') c1" "(Ok key, c3) = parse_json_key c2"
  have "c_pos c \<le> length (c_s c)" "starts_with ''->'' (rest_of c)" "c1 = adv 2 c"
    using a(1) by (auto simp: eat_str_def split: if_splits)
  moreover from this(2) have "rest_of c \<noteq> []" by (auto simp: starts_with_def)
  then have "c_pos c < length (c_s c)" by (simp add: rest_of_def)
  moreover have "c_s c2 = c_s c1 \<and> c_pos c1 \<le> c_pos c2" using movesD [OF moves_basic(2) a(2) [symmetric]] .
  moreover have "c_s c3 = c_s c2 \<and> c_pos c2 \<le> c_pos c3" using movesD [OF moves_parse_json_key a(3) [symmetric]] .
  ultimately show "length (c_s c3) - c_pos c3 < length (c_s c) - c_pos c" by auto
qed

declare parse_json_path.simps [simp del]

section \<open>Writing names back\<close>

definition key_needs_quotes :: "string \<Rightarrow> bool" where
  "key_needs_quotes s \<longleftrightarrow>
     (\<exists>b \<in> set s. json_key_break b \<or> b = CHR 0x22 \<or> b = CHR 0x5C) \<or>
     (\<exists>p \<in> set (split_on (CHR ''-'') s). p = [] \<or> trim_blanks p \<noteq> p) \<or>
     (\<forall>b \<in> set s. is_digit b)"

definition write_escaped :: "string \<Rightarrow> string" where
  "write_escaped s =
     CHR 0x22 # concat (map (\<lambda>c. if c = CHR 0x22 \<or> c = CHR 0x5C then [CHR 0x5C, c] else [c]) s) @ [CHR 0x22]"

definition show_int :: "int \<Rightarrow> string" where
  "show_int i = (if i < 0 then ''-'' else []) @ num_text False 10 (nat \<bar>i\<bar>)"

definition fmt_step :: "json_step \<Rightarrow> string" where
  "fmt_step step =
     ''->'' @ (if js_text step then ''>'' else []) @
     (case js_key step of
        JName n \<Rightarrow> if key_needs_quotes n then write_escaped n else n
      | JIndex i \<Rightarrow> show_int i)"

definition fmt_path :: "json_step list \<Rightarrow> string" where
  "fmt_path path = concat (map fmt_step path)"

end
