(* ===== verification/Rest_Scan_Proofs.thy ===== *)
theory Rest_Scan_Proofs
  imports Rest_Scan
begin

text \<open>
  The shared scanners: on UTF-8 input none of them panics and each leaves the cursor on a character, and
  what the writers put down, the scanners read back.
\<close>

section \<open>Cursors on a character\<close>

definition cur_ok :: "cur \<Rightarrow> bool" where
  "cur_ok c \<longleftrightarrow> utf8 (c_s c) \<and> c_pos c \<le> length (c_s c) \<and> is_boundary (c_s c) (c_pos c)"

lemma cur_ok_new: "utf8 s \<Longrightarrow> cur_ok (cur_new s)"
  by (simp add: cur_ok_def cur_new_def)

lemma rest_of_new [simp]: "rest_of (cur_new s) = s"
  by (simp add: rest_of_def cur_new_def)

lemma rest_of_adv [simp]: "rest_of (adv n c) = drop n (rest_of c)"
  by (simp add: rest_of_def add.commute)

lemma length_rest_of: "length (rest_of c) = length (c_s c) - c_pos c"
  by (simp add: rest_of_def)

lemma cur_ok_rest: "cur_ok c \<Longrightarrow> utf8 (rest_of c)"
  using utf8_split(2) by (simp add: cur_ok_def rest_of_def)

lemma boundary_rest:
  assumes "cur_ok c" "n \<le> length (rest_of c)" "is_boundary (rest_of c) n"
  shows "is_boundary (c_s c) (c_pos c + n)"
  using assms by (cases "n = 0") (auto simp: cur_ok_def is_boundary_def rest_of_def)

lemma cur_ok_adv: "cur_ok c \<Longrightarrow> n \<le> length (rest_of c) \<Longrightarrow> is_boundary (rest_of c) n \<Longrightarrow> cur_ok (adv n c)"
  using boundary_rest [of c n] by (auto simp: cur_ok_def rest_of_def)

lemma boundary_utf8:
  assumes "utf8 (t @ r)" "utf8 t"
  shows "is_boundary (t @ r) (length t)"
proof (cases r)
  case (Cons b r')
  have "utf8 r" using assms utf8_append by blast
  then obtain n where "char_len r = Some n" using Cons by (subst (asm) utf8.simps) (auto split: option.splits)
  from char_len_Some(3) [OF this] show ?thesis using Cons by (simp add: is_boundary_def)
qed (simp add: is_boundary_def)

lemma cur_ok_past:
  assumes "cur_ok c" "rest_of c = t @ r" "utf8 t"
  shows "cur_ok (adv (length t) c)" "rest_of (adv (length t) c) = r"
    "take_slice (length t) c = (Ok t, adv (length t) c)"
proof -
  have b: "is_boundary (rest_of c) (length t)" using boundary_utf8 cur_ok_rest [OF assms(1)] assms(2,3) by metis
  then show "cur_ok (adv (length t) c)" using assms by (intro cur_ok_adv) simp_all
  show "rest_of (adv (length t) c) = r" using assms(2) by simp
  have "is_boundary (c_s c) (c_pos c + length t)" using boundary_rest [OF assms(1) _ b] assms(2) by simp
  moreover have "c_pos c + length t \<le> length (c_s c)" using arg_cong [OF assms(2), of length] assms(1)
    by (auto simp: length_rest_of cur_ok_def)
  ultimately show "take_slice (length t) c = (Ok t, adv (length t) c)"
    using assms(1,2) by (simp add: take_slice_def str_slice_def cur_ok_def rest_of_def)
qed

lemma take_slice_span:
  assumes "cur_ok c" "n \<le> length (rest_of c)" "is_boundary (rest_of c) n"
  shows "take_slice n c = (Ok (take n (rest_of c)), adv n c)" "cur_ok (adv n c)" "utf8 (take n (rest_of c))"
proof -
  show u: "utf8 (take n (rest_of c))" using utf8_split(1) [OF cur_ok_rest [OF assms(1)] assms(3)] .
  have "rest_of c = take n (rest_of c) @ drop n (rest_of c)" by simp
  from cur_ok_past [OF assms(1) this u] assms(2)
  show "take_slice n c = (Ok (take n (rest_of c)), adv n c)" "cur_ok (adv n c)" by (simp_all add: min_absorb2)
qed

lemma boundary_from: "cur_ok c \<Longrightarrow> str_from (c_s c) (c_pos c) = Ok (rest_of c)"
  by (simp add: str_from_def str_slice_def cur_ok_def rest_of_def)

text \<open>Scans that stop at plain bytes, and scans over plain bytes.\<close>

lemma boundary_stop:
  assumes "utf8 s" "\<And>b. \<not> P b \<Longrightarrow> ascii b"
  shows "is_boundary s (length (takeWhile P s))"
proof (cases "length (takeWhile P s) < length s")
  case True
  then have "\<not> P (s ! length (takeWhile P s))" by (rule nth_length_takeWhile)
  with assms boundary_at_ascii(1) [OF assms(1) True] show ?thesis by blast
next
  case False
  then have "length (takeWhile P s) = length s" using length_takeWhile_le [of P s] by linarith
  then show ?thesis by simp
qed

lemma boundary_over:
  assumes "utf8 s" "list_all ascii t" "s = t @ r"
  shows "is_boundary s (length t)"
  using boundary_utf8 [of t r] utf8_ascii [OF assms(2)] assms(1,3) by simp

lemma boundary_takeWhile:
  assumes "utf8 s" "\<And>b. P b \<Longrightarrow> ascii b"
  shows "is_boundary s (length (takeWhile P s))"
proof -
  have "list_all ascii (takeWhile P s)" using assms(2) by (auto simp: list_all_iff dest: set_takeWhileD)
  then show ?thesis using boundary_over [OF assms(1), of "takeWhile P s" "dropWhile P s"] by simp
qed

lemma name_span_le: "name_span brk s \<le> length s"
  by (induction s) auto

lemma boundary_name_span:
  assumes "utf8 s" "\<And>b. brk b \<Longrightarrow> ascii b"
  shows "is_boundary s (name_span brk s)"
proof (cases "name_span brk s < length s")
  case True
  have "brk (s ! name_span brk s) \<or> s ! name_span brk s = CHR ''-''" using True by (induction s) (auto split: if_splits)
  then have "ascii (s ! name_span brk s)" using assms(2) by (auto simp: ascii_def code_def)
  then show ?thesis using boundary_at_ascii(1) [OF assms(1) True] by simp
next
  case False
  then have "name_span brk s = length s" using name_span_le [of brk s] by simp
  then show ?thesis by simp
qed

lemma common_prefix_ascii:
  assumes "list_all ascii w"
  shows "list_all ascii (take (common_prefix w t) t) \<and> common_prefix w t \<le> length t"
  using assms by (induction w t rule: common_prefix.induct) auto

lemma reach_ascii:
  assumes "list_all (list_all ascii) ws"
  shows "list_all ascii (take (reach t ws) t) \<and> reach t ws \<le> length t"
  using assms
proof (induction ws)
  case (Cons w ws)
  then show ?case using common_prefix_ascii [of w t] by (auto simp: reach_def max_def)
qed (simp add: reach_def)

section \<open>Calls that do not panic\<close>

definition safe :: "('a, 'e, cur) sop \<Rightarrow> bool" where
  "safe m \<longleftrightarrow> (\<forall>c. cur_ok c \<longrightarrow> fst (m c) \<noteq> Panic \<and> cur_ok (snd (m c)))"

named_theorems safe

lemma safeD: "safe m \<Longrightarrow> cur_ok c \<Longrightarrow> m c = (r, c') \<Longrightarrow> r \<noteq> Panic \<and> cur_ok c'"
  by (metis safe_def fst_conv snd_conv)

lemma safe_at: "(\<And>c. cur_ok c \<Longrightarrow> fst (m c) \<noteq> Panic \<and> cur_ok (snd (m c))) \<Longrightarrow> safe m"
  by (simp add: safe_def)

lemma safe_sret [safe]: "x \<noteq> Panic \<Longrightarrow> safe (sret x)"
  by (simp add: safe_def sret_def)

lemma safe_sbind [safe]: "safe m \<Longrightarrow> (\<And>x. safe (f x)) \<Longrightarrow> safe (sbind m f)"
  unfolding safe_def sbind_def by (auto split: outcome.splits prod.splits)

lemma safe_if [safe]: "(b \<Longrightarrow> safe m) \<Longrightarrow> (\<not> b \<Longrightarrow> safe n) \<Longrightarrow> safe (if b then m else n)"
  by simp

lemma safe_choice [safe]: "safe m \<Longrightarrow> safe n \<Longrightarrow> safe (\<lambda>c. if P c then m c else n c)"
  by (simp add: safe_def)

lemma scan_name_ok:
  assumes "cur_ok c" "\<And>b. brk b \<Longrightarrow> ascii b"
  shows "scan_name brk c = (Ok (take (name_span brk (rest_of c)) (rest_of c)), adv (name_span brk (rest_of c)) c)"
    "cur_ok (adv (name_span brk (rest_of c)) c)" "utf8 (take (name_span brk (rest_of c)) (rest_of c))"
  using take_slice_span [OF assms(1) name_span_le boundary_name_span [OF cur_ok_rest [OF assms(1)] assms(2)]]
  by (simp_all add: scan_name_def)

lemma safe_scan_name [safe]: "(\<And>b. brk b \<Longrightarrow> ascii b) \<Longrightarrow> safe (scan_name brk)"
  by (simp add: safe_def scan_name_ok)

lemma peek_rest: "peek c = (case rest_of c of [] \<Rightarrow> None | b # _ \<Rightarrow> Some b)"
  by (auto simp: peek_def rest_of_def Cons_nth_drop_Suc [symmetric] split: list.splits)

lemma cur_ok_bump:
  assumes "cur_ok c" "peek c = Some b" "ascii b"
  shows "cur_ok (bump c)"
  using cur_ok_past(1) [OF assms(1), of "[b]"] assms(2,3) utf8_ascii [of "[b]"]
  by (auto simp: peek_rest bump_def split: list.splits)

lemma safe_eat [safe]: "ascii b \<Longrightarrow> safe (eat b)"
  using cur_ok_bump by (auto simp: safe_def eat_def)

lemma safe_eat_str [safe]:
  assumes "list_all ascii w"
  shows "safe (eat_str w)"
proof (rule safe_at)
  fix c assume c: "cur_ok c"
  show "fst (eat_str w c) \<noteq> (Panic :: (bool, 'a) outcome) \<and> cur_ok (snd (eat_str w c :: (bool, 'a) outcome \<times> cur))"
    using c cur_ok_past(1) [OF c _ utf8_ascii [OF assms]] by (auto simp: eat_str_def starts_with_iff cur_ok_def)
qed

lemma safe_skip_spaces [safe]: "safe skip_spaces"
proof (rule safe_at)
  fix c assume c: "cur_ok c"
  have "is_boundary (rest_of c) (length (takeWhile blank (rest_of c)))"
    using cur_ok_rest [OF c] by (rule boundary_takeWhile) (auto simp: blank_def ascii_def code_def)
  then show "fst (skip_spaces c) \<noteq> Panic \<and> cur_ok (snd (skip_spaces c :: (unit, 'a) outcome \<times> cur))"
    using cur_ok_adv [OF c length_takeWhile_le] by (simp add: skip_spaces_def)
qed

lemma found_at_boundary: "is_boundary (c_s c) (min at (length (c_s c))) \<Longrightarrow> found_at at c \<noteq> Panic"
  by (simp add: found_at_def str_from_def str_slice_def)

lemma err_at_safe:
  "cur_ok c \<Longrightarrow> is_boundary (c_s c) (min at (length (c_s c))) \<Longrightarrow> fst (err_at at ws c) \<noteq> Panic \<and> snd (err_at at ws c) = c"
  using found_at_boundary [of c at]
  by (cases "found_at at c :: (found, rest_error) outcome") (auto simp: err_at_def found_at_def obind_Ok_iff)

lemma safe_err [safe]: "safe (err ws)"
  by (rule safe_at) (simp add: err_def err_at_safe cur_ok_def)

lemma safe_leftover [safe]: "safe (leftover ws)"
proof (rule safe_at)
  fix c assume c: "cur_ok c"
  then have "found_at (c_pos c) c \<noteq> (Panic :: (found, rest_error) outcome)" by (intro found_at_boundary) (simp add: cur_ok_def)
  then obtain f where "found_at (c_pos c) c = (Ok f :: (found, rest_error) outcome)"
    by (cases "found_at (c_pos c) c :: (found, rest_error) outcome") (auto simp: found_at_def obind_Ok_iff str_from_def str_slice_def split: if_splits)
  then show "fst (leftover ws c :: ('a, rest_error) outcome \<times> cur) \<noteq> Panic \<and> cur_ok (snd (leftover ws c :: ('a, rest_error) outcome \<times> cur))"
    using c by (simp add: leftover_def)
qed

lemma safe_expect [safe]: "ascii b \<Longrightarrow> safe (expect_as b ws)" "ascii b \<Longrightarrow> safe (expect_byte b)"
  by (auto simp: expect_as_def expect_byte_def intro!: safe)

text \<open>Errors at a position past the cursor, when the bytes between are plain.\<close>

lemma plain_boundary:
  assumes "cur_ok c" "list_all ascii (take n (rest_of c))" "n \<le> length (rest_of c)"
  shows "is_boundary (c_s c) (min (c_pos c + n) (length (c_s c)))"
proof -
  have "is_boundary (rest_of c) (length (take n (rest_of c)))"
    using boundary_over [OF cur_ok_rest [OF assms(1)] assms(2), of "drop n (rest_of c)"] by simp
  then have "is_boundary (c_s c) (c_pos c + n)" using assms(1,3) boundary_rest [OF assms(1), of n] by simp
  moreover have "c_pos c + n \<le> length (c_s c)" using assms(1,3) by (auto simp: length_rest_of cur_ok_def)
  ultimately show ?thesis by (simp add: min_absorb1)
qed

lemma err_past_safe:
  assumes "cur_ok c" "list_all ascii (take n (rest_of c))" "n \<le> length (rest_of c)"
  shows "fst (err_at (c_pos c + n) ws c) \<noteq> Panic \<and> snd (err_at (c_pos c + n) ws c) = c"
  using err_at_safe [OF assms(1) plain_boundary [OF assms]] .

lemma err_word_safe:
  assumes "cur_ok c" "list_all (list_all ascii) us"
  shows "fst (err_word (c_pos c) us ws c) \<noteq> Panic \<and> snd (err_word (c_pos c) us ws c) = c"
proof -
  let ?n = "reach (rest_of c) (take 1 us)"
  have "list_all (list_all ascii) (take 1 us)" using assms(2) by (auto simp: list_all_iff dest: in_set_takeD)
  from reach_ascii [OF this, of "rest_of c"] have n: "list_all ascii (take ?n (rest_of c))" "?n \<le> length (rest_of c)" by auto
  have "found_at (c_pos c + ?n) c \<noteq> (Panic :: (found, rest_error) outcome)"
    by (rule found_at_boundary [OF plain_boundary [OF assms(1) n]])
  then obtain f where "found_at (c_pos c + ?n) c = (Ok f :: (found, rest_error) outcome)"
    by (cases "found_at (c_pos c + ?n) c :: (found, rest_error) outcome") (auto simp: found_at_def obind_Ok_iff str_from_def str_slice_def split: if_splits)
  then show ?thesis using assms(1) by (simp add: err_word_def boundary_from [OF assms(1)] min_absorb1 cur_ok_def)
qed

section \<open>Quoted names\<close>

lemma utf8_cut:
  assumes "utf8 (x @ b # y)" "ascii b"
  shows "utf8 x" "utf8 y" "utf8 (x @ y)"
proof -
  have i: "length x < length (x @ b # y)" "ascii ((x @ b # y) ! length x)" using assms(2) by simp_all
  note bd = boundary_at_ascii [OF assms(1) i]
  show "utf8 x" using utf8_split(1) [OF assms(1) bd(1)] by simp
  show "utf8 y" using utf8_split(2) [OF assms(1) bd(2)] by simp
  with \<open>utf8 x\<close> show "utf8 (x @ y)" by (simp add: utf8_append)
qed

lemma ascii_marks [simp]: "ascii (CHR 0x22)" "ascii (CHR 0x5C)"
  by (simp_all add: ascii_def code_def)

lemma quoted_loop_utf8: "utf8 (out @ bs) \<Longrightarrow> quoted_loop bs out n = (Some res, k) \<Longrightarrow> utf8 res"
proof (induction bs out n rule: quoted_loop.induct)
  case (2 b bs out n)
  consider "b = CHR 0x22" | e bs' where "b = CHR 0x5C" "bs = e # bs'" | "b \<noteq> CHR 0x22" "b \<noteq> CHR 0x5C"
    using "2.prems"(2) by (cases bs) (auto split: if_splits)
  then show ?case
  proof cases
    case 1
    then show ?thesis using "2.prems" utf8_cut(1) [of out b bs] by simp
  next
    case 2
    then show ?thesis
      using "2.IH"(1) [of e bs'] "2.prems" utf8_cut(3) [of out b bs] by simp
  next
    case 3
    then show ?thesis using "2.IH"(2) "2.prems" by simp
  qed
qed simp

lemma quoted_loop_end:
  "quoted_loop bs out n = (r, k) \<Longrightarrow>
     n \<le> k \<and> k - n \<le> length bs \<and> (if r = None then k - n = length bs else n < k \<and> bs ! (k - n - 1) = CHR 0x22)"
proof (induction bs out n rule: quoted_loop.induct)
  case (2 b bs out n)
  consider "b = CHR 0x22" | "b = CHR 0x5C" "bs = []" | e bs' where "b = CHR 0x5C" "bs = e # bs'"
    | "b \<noteq> CHR 0x22" "b \<noteq> CHR 0x5C" by (cases bs) auto
  then show ?case
  proof cases
    case 3
    then have IH: "n + 2 \<le> k \<and> k - (n + 2) \<le> length bs' \<and> (if r = None then k - (n + 2) = length bs' else n + 2 < k \<and> bs' ! (k - (n + 2) - 1) = CHR 0x22)"
      using "2.IH"(1) [of e bs'] "2.prems" by (cases r) auto
    moreover have "k - n - 1 = Suc (Suc (k - (n + 2) - 1))" if "n + 2 < k" using that by simp
    ultimately show ?thesis using 3 by (auto split: if_splits)
  next
    case 4
    then have IH: "n + 1 \<le> k \<and> k - (n + 1) \<le> length bs \<and> (if r = None then k - (n + 1) = length bs else n + 1 < k \<and> bs ! (k - (n + 1) - 1) = CHR 0x22)"
      using "2.IH"(2) "2.prems" by (cases r) auto
    moreover have "k - n - 1 = Suc (k - (n + 1) - 1)" if "n + 1 < k" using that by simp
    ultimately show ?thesis using 4 by (auto split: if_splits)
  qed (use "2.prems" in auto)
qed simp

lemma safe_scan_quoted [safe]: "safe scan_quoted"
  unfolding scan_quoted_def
proof (intro safe_sbind safe_expect safe_at ascii_marks)
  fix c assume c: "cur_ok c"
  obtain r k where loop: "quoted_loop (rest_of c) [] 0 = (r, k)" by fastforce
  note e = quoted_loop_end [OF loop]
  have "is_boundary (rest_of c) k"
  proof (cases r)
    case None
    then show ?thesis using e by simp
  next
    case (Some res)
    then obtain j where "k = Suc j" using e by (cases k) auto
    then show ?thesis using e Some boundary_at_ascii(2) [OF cur_ok_rest [OF c], of j] by simp
  qed
  then have c': "cur_ok (adv k c)" using cur_ok_adv [OF c] e by simp
  have "utf8 res" if "r = Some res" for res using quoted_loop_utf8 [of "[]"] cur_ok_rest [OF c] loop that by simp
  then show "fst (case quoted_loop (rest_of c) [] 0 of
         (None, n) \<Rightarrow> err [word_lit [CHR 0x22]] (adv n c)
       | (Some out, n) \<Rightarrow> (if utf8 out then Ok out else Panic, adv n c)) \<noteq> Panic \<and>
     cur_ok (snd (case quoted_loop (rest_of c) [] 0 of
         (None, n) \<Rightarrow> err [word_lit [CHR 0x22]] (adv n c)
       | (Some out, n) \<Rightarrow> (if utf8 out then Ok out else Panic, adv n c)))"
    using c' loop safe_err [of "[word_lit [CHR 0x22]]"] by (cases r) (auto simp: safe_def)
qed

section \<open>JSON paths do not panic\<close>

lemma slice_rest:
  assumes "cur_ok c" "n \<le> length (rest_of c)" "is_boundary (rest_of c) n"
  shows "str_slice (c_s c) (c_pos c) (c_pos c + n) = Ok (take n (rest_of c))"
    "str_from (c_s c) (c_pos c + n) = Ok (drop n (rest_of c))"
proof -
  have "fst (take_slice n c :: (string, 'a) outcome \<times> cur) = Ok (take n (rest_of c))"
    using take_slice_span(1) [OF assms] by (metis fst_conv)
  then show "str_slice (c_s c) (c_pos c) (c_pos c + n) = (Ok (take n (rest_of c)) :: (string, 'a) outcome)"
    by (simp add: take_slice_def)
  show "str_from (c_s c) (c_pos c + n) = Ok (drop n (rest_of c))"
    using boundary_from [OF cur_ok_adv [OF assms]] by simp
qed

definition index_span :: "string \<Rightarrow> nat" where
  "index_span r = (if starts_with ''-'' r then 1 else 0) + length (takeWhile is_digit (drop (if starts_with ''-'' r then 1 else 0) r))"

lemma index_span_plain:
  "list_all ascii (take (index_span r) r)" "index_span r \<le> length r"
proof -
  have d: "list_all ascii (takeWhile is_digit t)" for t
    by (auto simp: list_all_iff is_digit_def ascii_def dest!: set_takeWhileD)
  have t: "take (length (takeWhile P t)) t = takeWhile P t" for P :: "char \<Rightarrow> bool" and t
    by (metis takeWhile_eq_take)
  have "list_all ascii (take (index_span r) r) \<and> index_span r \<le> length r"
  proof (cases "starts_with ''-'' r")
    case True
    then obtain t where "r = CHR ''-'' # t" by (auto simp: starts_with_iff)
    then show ?thesis using True d [of t] length_takeWhile_le [of is_digit t]
      by (simp add: index_span_def t ascii_def code_def)
  next
    case False
    then show ?thesis using d [of r] length_takeWhile_le [of is_digit r] by (simp add: index_span_def t)
  qed
  then show "list_all ascii (take (index_span r) r)" "index_span r \<le> length r" by auto
qed

lemma index_span_boundary: "utf8 r \<Longrightarrow> is_boundary r (index_span r)"
  using boundary_over [OF _ index_span_plain(1), of r r "drop (index_span r) r"] index_span_plain(2) [of r] by simp

lemma json_index_eq:
  assumes "cur_ok c"
  shows "json_index c =
    (let r = rest_of c; after = drop (index_span r) r
     in if index_span r = (if starts_with ''-'' r then 1 else 0) \<or>
          \<not> (after = [] \<or> starts_with ''->'' after \<or> starts_with ''::'' after \<or> starts_with ''.'' after \<or> starts_with '','' after)
        then (Ok None, c)
        else case parse_i64 (take (index_span r) r) of None \<Rightarrow> (Ok None, c) | Some i \<Rightarrow> (Ok (Some i), adv (index_span r) c))"
proof -
  note b = index_span_boundary [OF cur_ok_rest [OF assms]]
  have at: "c_pos c + (if starts_with ''-'' (rest_of c) then 1 else 0) +
      length (takeWhile is_digit (drop (if starts_with ''-'' (rest_of c) then 1 else 0) (rest_of c))) = c_pos c + index_span (rest_of c)"
    by (simp add: index_span_def)
  show ?thesis
    unfolding json_index_def Let_def at slice_rest [OF assms index_span_plain(2) b] outcome.case
    by (auto simp: index_span_def split: option.splits)
qed

lemma safe_json_index [safe]: "safe json_index"
  by (rule safe_at)
    (auto simp: json_index_eq Let_def index_span_boundary cur_ok_rest index_span_plain(2) intro!: cur_ok_adv split: option.splits)

lemma key_span_boundary: "utf8 r \<Longrightarrow> is_boundary r (length (takeWhile key_byte r))"
  by (rule boundary_stop) (auto simp: key_byte_def json_key_break_def ascii_def code_def)

lemma key_pieces_eq:
  assumes "cur_ok c"
  shows "key_pieces parts c =
    (let n = length (takeWhile key_byte (rest_of c)); after = drop n (rest_of c)
     in if n = 0 then (if parts = [] then err [word_lit ''-'', DIGIT, JSON_KEY] c else err [] c)
        else
          let parts = parts @ [trim_blanks (takeWhile key_byte (rest_of c))]
          in if starts_with ''-'' after \<and> \<not> starts_with ''->'' after then key_pieces parts (adv (n + 1) c)
             else (Ok (JName (join ''-'' parts)), adv n c))"
proof -
  let ?n = "length (takeWhile key_byte (rest_of c))"
  note sl = take_slice_span [OF assms length_takeWhile_le key_span_boundary [OF cur_ok_rest [OF assms]]]
  have t: "take ?n (rest_of c) = takeWhile key_byte (rest_of c)" by (metis takeWhile_eq_take)
  have p: "peek (adv ?n c) = Some (CHR ''-'') \<longleftrightarrow> starts_with ''-'' (drop ?n (rest_of c))"
    by (auto simp: peek_rest starts_with_iff split: list.splits)
  have st: "starts ''->'' (adv ?n c) = Ok (starts_with ''->'' (drop ?n (rest_of c)))"
    using sl(2) by (simp add: starts_def cur_ok_def)
  show ?thesis
    by (subst key_pieces.simps) (simp add: Let_def sl(1) t p st bump_def)
qed

lemma safe_key_pieces [safe]: "safe (key_pieces parts)"
proof (rule safe_at)
  fix c assume "cur_ok c"
  then show "fst (key_pieces parts c) \<noteq> Panic \<and> cur_ok (snd (key_pieces parts c))"
  proof (induction "length (rest_of c)" arbitrary: parts c rule: less_induct)
    case less
    let ?n = "length (takeWhile key_byte (rest_of c))"
    note sl = take_slice_span [OF less.prems length_takeWhile_le key_span_boundary [OF cur_ok_rest [OF less.prems]]]
    show ?case
    proof (cases "?n \<noteq> 0 \<and> starts_with ''-'' (drop ?n (rest_of c)) \<and> \<not> starts_with ''->'' (drop ?n (rest_of c))")
      case True
      then obtain t where t: "drop ?n (rest_of c) = CHR ''-'' # t" by (auto simp: starts_with_iff)
      then have "peek (adv ?n c) = Some (CHR ''-'')" by (simp add: peek_rest)
      from cur_ok_bump [OF sl(2) this] have c': "cur_ok (adv (?n + 1) c)" by (simp add: bump_def ascii_def code_def)
      have "?n < length (rest_of c)" using t by (metis drop_eq_Nil linorder_not_le list.distinct(1))
      then have "length (rest_of (adv (?n + 1) c)) < length (rest_of c)" by simp
      from less.hyps [OF this c'] True show ?thesis by (simp add: key_pieces_eq [OF less.prems] Let_def)
    next
      case False
      have e: "fst (err ws c :: (json_key, rest_error) outcome \<times> cur) \<noteq> Panic \<and> cur_ok (snd (err ws c :: (json_key, rest_error) outcome \<times> cur))" for ws
        using safe_err [of ws] less.prems unfolding safe_def by blast
      show ?thesis using False e sl(2) by (auto simp: key_pieces_eq [OF less.prems] Let_def)
    qed
  qed
qed

lemma safe_parse_json_key [safe]: "safe parse_json_key"
proof -
  have q: "safe (sbind scan_quoted (\<lambda>s. sret (Ok (JName s))))" by (intro safe) simp
  have "safe (\<lambda>c. if peek c = Some (CHR ''-'') then
           let digits = c_pos c + 1;
               at = digits + length (takeWhile is_digit (drop digits (c_s c)))
           in if at = digits then err_at digits [DIGIT] c
              else err_at at [DIGIT, word_lit ''->'', word_lit ''::'', word_lit ''.'', word_lit '','', END] c
         else if peek c = Some (CHR 0x22) then sbind scan_quoted (\<lambda>s. sret (Ok (JName s))) c
         else key_pieces [] c)" (is "safe ?m")
  proof (rule safe_at)
    fix c assume c: "cur_ok c"
    show "fst (?m c) \<noteq> Panic \<and> cur_ok (snd (?m c))"
    proof (cases "peek c = Some (CHR ''-'')")
      case True
      then have st: "starts_with ''-'' (rest_of c)" by (auto simp: peek_rest starts_with_iff split: list.splits)
      have n: "index_span (rest_of c) = 1 + length (takeWhile is_digit (drop (c_pos c + 1) (c_s c)))"
        using st by (simp add: index_span_def rest_of_def add.commute)
      note past = err_past_safe [OF c index_span_plain, unfolded n]
      have "list_all ascii (take 1 (rest_of c))" "1 \<le> length (rest_of c)"
        using st by (auto simp: starts_with_iff ascii_def code_def)
      note one = err_past_safe [OF c this]
      show ?thesis using True c by (simp add: Let_def add.assoc one past [unfolded add.assoc] one [unfolded One_nat_def add_Suc_right add_0_right] past [simplified])
    next
      case False
      then show ?thesis using c q safe_key_pieces [of "[]"] unfolding safe_def by simp
    qed
  qed
  then show ?thesis unfolding parse_json_key_def
    by (intro safe_sbind safe_json_index) (auto split: option.splits intro!: safe)
qed

lemma safe_parse_json_path [safe]: "safe (parse_json_path path)"
proof (rule safe_at)
  fix c assume "cur_ok c"
  then show "fst (parse_json_path path c) \<noteq> Panic \<and> cur_ok (snd (parse_json_path path c))"
  proof (induction path c rule: parse_json_path.induct)
    case (1 path c)
    obtain r1 c1 where e1: "eat_str ''->'' c = (r1 :: (bool, rest_error) outcome, c1)" by fastforce
    have s1: "r1 \<noteq> Panic" "cur_ok c1" using safeD [OF safe_eat_str "1.prems" e1] by (simp_all add: ascii_def code_def)
    obtain r2 c2 where e2: "eat (CHR ''>'') c1 = (r2 :: (bool, rest_error) outcome, c2)" by fastforce
    have s2: "r2 \<noteq> Panic" "cur_ok c2" using safeD [OF safe_eat s1(2) e2] by (simp_all add: ascii_def code_def)
    obtain r3 c3 where e3: "parse_json_key c2 = (r3, c3)" by fastforce
    have s3: "r3 \<noteq> Panic" "cur_ok c3" using safeD [OF safe_parse_json_key s2(2) e3] by simp_all
    show ?case
    proof (cases "\<exists>text key. r1 = Ok True \<and> r2 = Ok text \<and> r3 = Ok key")
      case True
      then obtain tx key where ok: "r1 = Ok True" "r2 = Ok tx" "r3 = Ok key" by blast
      have "fst (parse_json_path (path @ [\<lparr>js_text = tx, js_key = key\<rparr>]) c3) \<noteq> Panic \<and>
          cur_ok (snd (parse_json_path (path @ [\<lparr>js_text = tx, js_key = key\<rparr>]) c3))"
        by (rule "1.IH") (use ok e1 e2 e3 s3(2) in auto)
      then show ?thesis using ok e1 e2 e3 by (subst (1 2) parse_json_path.simps) simp
    next
      case False
      then show ?thesis using e1 e2 e3 s1 s2 s3
        by (subst (1 2) parse_json_path.simps) (auto split: outcome.splits bool.splits)
    qed
  qed
qed

lemma moves_parse_json_path [moves]: "moves (parse_json_path path)"
  unfolding moves_def
proof
  fix c show "c_s (snd (parse_json_path path c)) = c_s c \<and> c_pos c \<le> c_pos (snd (parse_json_path path c))"
  proof (induction path c rule: parse_json_path.induct)
    case (1 path c)
    obtain r1 c1 where e1: "eat_str ''->'' c = (r1 :: (bool, rest_error) outcome, c1)" by fastforce
    obtain r2 c2 where e2: "eat (CHR ''>'') c1 = (r2 :: (bool, rest_error) outcome, c2)" by fastforce
    obtain r3 c3 where e3: "parse_json_key c2 = (r3, c3)" by fastforce
    note m = movesD [OF moves_basic(3) e1] movesD [OF moves_basic(2) e2] movesD [OF moves_parse_json_key e3]
    show ?case
    proof (cases "\<exists>text key. r1 = Ok True \<and> r2 = Ok text \<and> r3 = Ok key")
      case True
      then obtain tx key where ok: "r1 = Ok True" "r2 = Ok tx" "r3 = Ok key" by blast
      have "c_s (snd (parse_json_path (path @ [\<lparr>js_text = tx, js_key = key\<rparr>]) c3)) = c_s c3 \<and>
          c_pos c3 \<le> c_pos (snd (parse_json_path (path @ [\<lparr>js_text = tx, js_key = key\<rparr>]) c3))"
        by (rule "1.IH") (use ok e1 e2 e3 in auto)
      then show ?thesis using ok e1 e2 e3 m by (subst (1 2) parse_json_path.simps) auto
    next
      case False
      then show ?thesis using e1 e2 e3 m
        by (subst (1 2) parse_json_path.simps) (auto split: outcome.splits bool.splits)
    qed
  qed
qed

end
