(* ===== verification/Rest_Reads.thy ===== *)
theory Rest_Reads
  imports Rest_Scan_Proofs
begin

text \<open>
  Reading back what was written: \<open>reads m t x R\<close> says that on a cursor in front of the text \<open>t\<close>, followed by something
  \<open>R\<close> allows, the call \<open>m\<close> takes all of \<open>t\<close> and returns \<open>x\<close>. The writers of names, JSON keys and JSON paths
  are read back by their scanners.
\<close>

definition reads :: "('a, 'e, cur) sop \<Rightarrow> string \<Rightarrow> 'a \<Rightarrow> (string \<Rightarrow> bool) \<Rightarrow> bool" where
  "reads m t x R \<longleftrightarrow>
     utf8 t \<and> (\<forall>c r. cur_ok c \<longrightarrow> rest_of c = t @ r \<longrightarrow> R r \<longrightarrow> m c = (Ok x, adv (length t) c))"

lemma readsI:
  "utf8 t \<Longrightarrow> (\<And>c r. cur_ok c \<Longrightarrow> rest_of c = t @ r \<Longrightarrow> R r \<Longrightarrow> m c = (Ok x, adv (length t) c)) \<Longrightarrow> reads m t x R"
  by (simp add: reads_def)

lemma readsD: "reads m t x R \<Longrightarrow> cur_ok c \<Longrightarrow> rest_of c = t @ r \<Longrightarrow> R r \<Longrightarrow> m c = (Ok x, adv (length t) c)"
  by (simp add: reads_def)

lemma reads_utf8: "reads m t x R \<Longrightarrow> utf8 t"
  by (simp add: reads_def)

lemma reads_cur:
  assumes "reads m t x R" "cur_ok c" "rest_of c = t @ r" "R r"
  shows "m c = (Ok x, adv (length t) c)" "cur_ok (adv (length t) c)" "rest_of (adv (length t) c) = r"
  using readsD [OF assms] cur_ok_past [OF assms(2,3) reads_utf8 [OF assms(1)]] by simp_all

lemma reads_weaken: "reads m t x R \<Longrightarrow> (\<And>r. Q r \<Longrightarrow> R r) \<Longrightarrow> reads m t x Q"
  by (simp add: reads_def)

lemma reads_sret: "reads (sret (Ok x)) [] x R"
  by (simp add: reads_def sret_def)

lemma reads_sbind:
  assumes "reads m t x P" "reads (f x) u y R" "\<And>r. R r \<Longrightarrow> P (u @ r)"
  shows "reads (sbind m f) (t @ u) y R"
proof (rule readsI)
  show "utf8 (t @ u)" using reads_utf8 [OF assms(1)] reads_utf8 [OF assms(2)] by (simp add: utf8_append)
  fix c r assume c: "cur_ok c" "rest_of c = (t @ u) @ r" "R r"
  note m = reads_cur [OF assms(1) c(1), of "u @ r"]
  have "sbind m f c = f x (adv (length t) c)" using m(1) c assms(3) by (intro sbind_step) simp
  also have "\<dots> = (Ok y, adv (length u) (adv (length t) c))"
    using m c assms(3) by (intro readsD [OF assms(2), of _ r]) simp_all
  finally show "sbind m f c = (Ok y, adv (length (t @ u)) c)" by simp
qed

lemma reads_sbind_ret:
  assumes "reads m t x R"
  shows "reads (sbind m (\<lambda>x. sret (Ok (g x)))) t (g x) R"
  using reads_sbind [OF assms, of "\<lambda>x. sret (Ok (g x))" "[]" "g x" R] by (simp add: reads_sret)

lemma reads_sbind_first: "reads m [] x P \<Longrightarrow> reads (f x) u y R \<Longrightarrow> (\<And>r. R r \<Longrightarrow> P (u @ r)) \<Longrightarrow> reads (sbind m f) u y R"
  using reads_sbind [of m "[]" x P f u y R] by simp

lemma reads_sbind_last: "reads m t x P \<Longrightarrow> reads (f x) [] y R \<Longrightarrow> (\<And>r. R r \<Longrightarrow> P r) \<Longrightarrow> reads (sbind m f) t y R"
  using reads_sbind [of m t x P f "[]" y R] by simp

lemma reads_eat: "ascii b \<Longrightarrow> reads (eat b) [b] True R"
  by (rule readsI) (simp_all add: utf8_ascii eat_def peek_rest bump_def)

lemma reads_not_eat: "reads (eat b) [] False (\<lambda>r. r = [] \<or> hd r \<noteq> b)"
  by (rule readsI) (auto simp: eat_def peek_rest split: list.splits)

lemma reads_expect: "ascii b \<Longrightarrow> reads (expect_as b ws) [b] () R" "ascii b \<Longrightarrow> reads (expect_byte b) [b] () R"
  unfolding expect_byte_def expect_as_def
  by (auto simp: reads_def sbind_def eat_def sret_def peek_rest bump_def utf8_ascii)

lemma reads_eat_str: "list_all ascii w \<Longrightarrow> reads (eat_str w) w True R"
  by (rule readsI) (auto simp: utf8_ascii eat_str_def cur_ok_def)

lemma reads_not_eat_str: "reads (eat_str w) [] False (\<lambda>r. \<not> starts_with w r)"
  by (rule readsI) (auto simp: eat_str_def cur_ok_def)

lemma reads_skip_spaces: "reads skip_spaces [] () (\<lambda>r. r = [] \<or> \<not> blank (hd r))"
proof (rule readsI)
  fix c :: cur and r assume "rest_of c = [] @ r" "r = [] \<or> \<not> blank (hd r)"
  then have "takeWhile blank (rest_of c) = []" by (cases r) auto
  then show "skip_spaces c = (Ok (), adv (length []) c)" by (simp add: skip_spaces_def)
qed simp

lemma starts_with_simps [simp]:
  "starts_with [] s" "starts_with (a # w) (b # s) \<longleftrightarrow> a = b \<and> starts_with w s" "\<not> starts_with (a # w) []"
  by (auto simp: starts_with_def)

section \<open>Escaped names\<close>

definition escape :: "string \<Rightarrow> string" where
  "escape s = concat (map (\<lambda>c. if c = CHR 0x22 \<or> c = CHR 0x5C then [CHR 0x5C, c] else [c]) s)"

lemma write_escaped_eq: "write_escaped s = CHR 0x22 # escape s @ [CHR 0x22]"
  by (simp add: write_escaped_def escape_def)

lemma quoted_loop_escape:
  "quoted_loop (escape s @ CHR 0x22 # r) out n = (Some (out @ s), n + length (escape s) + 1)"
  by (induction s arbitrary: out n) (auto simp: escape_def)

lemma utf8_escape_from: "utf8 (x @ s) \<Longrightarrow> utf8 (x @ escape s)"
proof (induction s arbitrary: x)
  case (Cons b s)
  show ?case
  proof (cases "b = CHR 0x22 \<or> b = CHR 0x5C")
    case True
    then have b: "ascii b" by auto
    have "utf8 x" "utf8 s" using utf8_cut [OF Cons.prems b] by auto
    moreover have "utf8 (escape s)" using Cons.IH [of "[]"] \<open>utf8 s\<close> by simp
    moreover have "utf8 [CHR 0x5C, b]" using b by (simp add: utf8_ascii)
    ultimately show ?thesis using True utf8_append [of x] utf8_append [of "[CHR 0x5C, b]"]
      by (auto simp: escape_def)
  next
    case False
    then show ?thesis using Cons.IH [of "x @ [b]"] Cons.prems by (simp add: escape_def)
  qed
qed (simp add: escape_def)

lemma utf8_write_escaped: "utf8 s \<Longrightarrow> utf8 (write_escaped s)"
  using utf8_escape_from [of "[]" s] utf8_ascii [of "[CHR 0x22]"]
    utf8_append [of "[CHR 0x22]" "escape s @ [CHR 0x22]"] utf8_append [of "escape s"]
  by (simp add: write_escaped_eq)

lemma reads_scan_quoted: "utf8 s \<Longrightarrow> reads scan_quoted (write_escaped s) s R"
proof (rule readsI)
  fix c r assume u: "utf8 s" and c: "cur_ok c" "rest_of c = write_escaped s @ r"
  have e: "expect_byte (CHR 0x22) c = (Ok (), adv 1 c)" "rest_of (adv 1 c) = escape s @ CHR 0x22 # r"
    using reads_cur(1) [OF reads_expect(2) c(1), of "CHR 0x22" "escape s @ CHR 0x22 # r"] c(2)
    by (simp_all add: write_escaped_eq)
  show "scan_quoted c = (Ok s, adv (length (write_escaped s)) c)"
    using u by (simp add: scan_quoted_def sbind_def e(1) e(2) [simplified] quoted_loop_escape write_escaped_eq)
qed (rule utf8_write_escaped)

section \<open>Bare names\<close>

text \<open>\<open>str::contains\<close>.\<close>

fun contains :: "string \<Rightarrow> string \<Rightarrow> bool" where
  "contains w [] = (w = [])"
| "contains w (b # bs) = (starts_with w (b # bs) \<or> contains w bs)"

lemma name_span_bare:
  assumes "\<forall>b \<in> set t. \<not> brk b" "\<not> contains ''->'' t" "r = [] \<or> brk (hd r) \<or> starts_with ''->'' r" "r = [] \<or> hd r \<noteq> CHR ''>''"
  shows "name_span brk (t @ r) = length t"
  using assms
proof (induction t)
  case Nil
  then show ?case by (cases r) auto
next
  case (Cons b t)
  have "\<not> starts_with ''->'' (b # t @ r)"
    using Cons.prems by (cases t; cases r) auto
  then show ?case using Cons by simp
qed

lemma reads_scan_name:
  assumes "utf8 t" "\<And>b. brk b \<Longrightarrow> ascii b" "\<forall>b \<in> set t. \<not> brk b" "\<not> contains ''->'' t"
  shows "reads (scan_name brk) t t (\<lambda>r. (r = [] \<or> brk (hd r) \<or> starts_with ''->'' r) \<and> (r = [] \<or> hd r \<noteq> CHR ''>''))"
proof (rule readsI)
  fix c r assume c: "cur_ok c" "rest_of c = t @ r"
    "(r = [] \<or> brk (hd r) \<or> starts_with ''->'' r) \<and> (r = [] \<or> hd r \<noteq> CHR ''>'')"
  have "name_span brk (rest_of c) = length t" using name_span_bare [OF assms(3,4)] c(2,3) by simp
  then show "scan_name brk c = (Ok t, adv (length t) c)" using cur_ok_past(3) [OF c(1,2) assms(1)] by (simp add: scan_name_def)
qed (rule assms(1))

section \<open>JSON keys\<close>

lemma join_split_on: "join [d] (split_on d s) = s"
proof (induction s)
  case (Cons a s)
  then obtain p ps where "split_on d s = p # ps" by (cases "split_on d s") auto
  with Cons show ?case by (cases ps) auto
qed simp

lemma split_on_parts: "p \<in> set (split_on d s) \<Longrightarrow> d \<notin> set p \<and> set p \<subseteq> set s"
proof (induction s arbitrary: p)
  case (Cons a s)
  obtain q qs where q: "split_on d s = q # qs" by (cases "split_on d s") auto
  show ?case
  proof (cases "a = d")
    case True
    then show ?thesis using Cons by auto
  next
    case False
    then have "p = a # q \<or> p \<in> set qs" using Cons.prems q by auto
    then show ?thesis using Cons.IH [of q] Cons.IH [of p] q False by auto
  qed
qed simp

definition key_stop :: "string \<Rightarrow> bool" where
  "key_stop r \<longleftrightarrow> r = [] \<or> json_key_break (hd r) \<or> starts_with ''->'' r"

lemma key_pieces_reads:
  assumes "ps \<noteq> []" "\<forall>p \<in> set ps. p \<noteq> [] \<and> trim_blanks p = p \<and> (\<forall>b \<in> set p. key_byte b)" "key_stop r"
    "cur_ok c" "rest_of c = join ''-'' ps @ r"
  shows "key_pieces parts c = (Ok (JName (join ''-'' (parts @ ps))), adv (length (join ''-'' ps)) c)"
  using assms
proof (induction ps arbitrary: parts c rule: list_nonempty_induct)
  case (single x)
  have r: "takeWhile key_byte r = []" "\<not> (starts_with ''-'' r \<and> \<not> starts_with ''->'' r)"
    using single.prems(2) by (cases r; auto simp: key_stop_def key_byte_def json_key_break_def)+
  have "takeWhile key_byte (rest_of c) = x" using single.prems(1,4) r(1) by (simp add: takeWhile_append)
  then show ?case using single.prems(1,4) r(2) by (auto simp: key_pieces_eq [OF single.prems(3)] Let_def)
next
  case (cons x t)
  from cons.hyps obtain y ys where yys: "t = y # ys" by (cases t) auto
  have x: "x \<noteq> []" "trim_blanks x = x" "\<forall>b \<in> set x. key_byte b" using cons.prems(1) by auto
  have rest: "rest_of c = (x @ ''-'') @ join ''-'' t @ r" using cons.prems(4) yys by simp
  have nk: "\<not> key_byte (CHR ''-'')" by (simp add: key_byte_def)
  have tw: "takeWhile key_byte (x @ CHR ''-'' # join ''-'' t @ r) = x" using x(3) nk by (simp add: takeWhile_append)
  obtain b y' where y: "y = b # y'" "key_byte b" using cons.prems(1) yys by (cases y) auto
  have na: "\<not> starts_with ''->'' (CHR ''-'' # join ''-'' t @ r)"
    using y yys by (cases ys) (auto simp: key_byte_def json_key_break_def)
  have u: "utf8 (x @ ''-'')"
  proof -
    have "utf8 (x @ CHR ''-'' # (join ''-'' t @ r))" using cur_ok_rest [OF cons.prems(3)] rest by simp
    from utf8_cut(1) [OF this] show ?thesis by (simp add: utf8_append utf8_ascii ascii_def code_def)
  qed
  note past = cur_ok_past [OF cons.prems(3) rest u]
  have "key_pieces (parts @ [x]) (adv (length (x @ ''-'')) c) =
      (Ok (JName (join ''-'' ((parts @ [x]) @ t))), adv (length (join ''-'' t)) (adv (length (x @ ''-'')) c))"
    by (rule cons.IH) (use cons.prems past in auto)
  moreover have "key_pieces parts c = key_pieces (parts @ [x]) (adv (length (x @ ''-'')) c)"
    using x(1,2) na by (simp add: key_pieces_eq [OF cons.prems(3)] Let_def tw rest)
  ultimately show ?case using yys by simp
qed

text \<open>The text of a key.\<close>

definition fmt_key :: "json_key \<Rightarrow> string" where
  "fmt_key k = (case k of JName n \<Rightarrow> if key_needs_quotes n then write_escaped n else n | JIndex i \<Rightarrow> show_int i)"

lemma fmt_step_eq: "fmt_step s = ''->'' @ (if js_text s then ''>'' else []) @ fmt_key (js_key s)"
  by (simp add: fmt_step_def fmt_key_def split: json_key.splits)

definition index_stop :: "string \<Rightarrow> bool" where
  "index_stop r \<longleftrightarrow> r = [] \<or> starts_with ''->'' r \<or> starts_with ''::'' r \<or> starts_with ''.'' r \<or> starts_with '','' r"

lemma index_span_append:
  assumes "takeWhile is_digit (drop (if starts_with ''-'' (t @ r) then 1 else 0) (t @ r)) = d"
    "length t = (if starts_with ''-'' (t @ r) then 1 else 0) + length d"
  shows "index_span (t @ r) = length t"
  using assms by (simp add: index_span_def)

lemma num_text_digits: "\<forall>b \<in> set (num_text False 10 n). is_digit b"
proof
  fix b assume "b \<in> set (num_text False 10 n)"
  then obtain d where "d < 10" "b = digit_char False d" using set_num_text [of 10 False n] by auto
  then show "is_digit b"
    by (simp add: digit_char_def is_digit_def code_def numeral_eq_Suc less_Suc_eq, elim disjE) simp_all
qed

text \<open>The number a string of digits stands for.\<close>

definition dec_value :: "string \<Rightarrow> nat" where
  "dec_value = foldl (\<lambda>n c. n * 10 + (code c - 48)) 0"

lemma dec_value_num_text: "dec_value (num_text False 10 n) = n"
proof (induction n rule: less_induct)
  case (less n)
  have d: "d < 10 \<Longrightarrow> code (digit_char False d) - 48 = d" for d
    by (simp add: digit_char_def code_def numeral_eq_Suc less_Suc_eq, elim disjE) simp_all
  show ?case
  proof (cases "n < 10")
    case True
    then show ?thesis using d [of n] by (subst num_text.simps) (simp add: dec_value_def)
  next
    case False
    then show ?thesis using less.IH [of "n div 10"] d [of "n mod 10"]
      by (subst num_text.simps) (simp add: dec_value_def)
  qed
qed

lemma parse_digits_value:
  assumes "\<forall>c \<in> set s. is_digit c" "acc < limit"
  shows "parse_digits limit 10 acc s =
     (let v = foldl (\<lambda>n c. n * 10 + (code c - 48)) acc s in if v < limit then Some v else None)"
  using assms
proof (induction s arbitrary: acc)
  case (Cons c s)
  let ?f = "\<lambda>n c. n * 10 + (code c - 48)"
  have d: "to_digit 10 c = Some (code c - 48)" using Cons.prems(1) by (auto simp: to_digit_def is_digit_def code_def Let_def)
  have up: "n \<le> foldl ?f n t" for n t 
  proof (induction t arbitrary: n)
    case (Cons a t)
    have "n \<le> ?f n a" by simp
    also have "\<dots> \<le> foldl ?f (?f n a) t" by (rule Cons)
    finally show ?case by simp
  qed simp
  show ?case
  proof (cases "?f acc c < limit")
    case True
    then show ?thesis using Cons d by (simp add: Let_def)
  next
    case False
    then show ?thesis using up [of "?f acc c" s] d by (simp add: Let_def)
  qed
qed simp

lemma from_str_radix_value:
  assumes "s \<noteq> []" "\<forall>c \<in> set s. is_digit c" "0 < limit"
  shows "from_str_radix limit 10 s = (if dec_value s < limit then Some (dec_value s) else None)"
proof -
  obtain c t where s: "s = c # t" using assms(1) by (cases s) auto
  have "c \<noteq> CHR ''+''" using assms(2) s by (auto simp: is_digit_def code_def)
  then show ?thesis using parse_digits_value [OF assms(2,3)] by (simp add: from_str_radix_def s dec_value_def Let_def)
qed

lemma index_stop_no_digit: "index_stop r \<Longrightarrow> takeWhile is_digit r = []"
  by (cases r) (auto simp: index_stop_def is_digit_def code_def)

lemma parse_i64_show_int: "- (2 ^ 63) \<le> i \<Longrightarrow> i < 2 ^ 63 \<Longrightarrow> parse_i64 (show_int i) = Some i"
proof -
  assume i: "- (2 ^ 63) \<le> i" "i < 2 ^ 63"
  have "hd (num_text False 10 (nat \<bar>i\<bar>)) \<noteq> CHR ''-''"
    using num_text_digits [of "nat \<bar>i\<bar>"] num_text_nonempty [of False 10 "nat \<bar>i\<bar>"]
    by (cases "num_text False 10 (nat \<bar>i\<bar>)") (auto simp: is_digit_def code_def)
  then have "\<not> starts_with ''-'' (num_text False 10 (nat \<bar>i\<bar>))"
    by (cases "num_text False 10 (nat \<bar>i\<bar>)") auto
  moreover have "nat \<bar>i\<bar> < (if i < 0 then 2 ^ 63 + 1 else 2 ^ 63)" using i by auto
  ultimately show ?thesis
    using from_str_radix_num_text [of 10 "nat \<bar>i\<bar>" "2 ^ 63 + 1" False] from_str_radix_num_text [of 10 "nat \<bar>i\<bar>" "2 ^ 63" False]
    by (auto simp: parse_i64_def show_int_def split: if_splits)
qed

lemma show_int_ascii: "list_all ascii (show_int i)"
  using num_text_digits [of "nat \<bar>i\<bar>"] by (auto simp: show_int_def list_all_iff is_digit_def ascii_def code_def)

lemma show_int_span:
  assumes "takeWhile is_digit r = []"
  shows "index_span (show_int i @ r) = length (show_int i)"
    "length (show_int i) \<noteq> (if starts_with ''-'' (show_int i @ r) then 1 else 0)"
proof -
  let ?d = "num_text False 10 (nat \<bar>i\<bar>)"
  obtain b d where d: "?d = b # d" by (cases ?d) auto
  have b: "b \<noteq> CHR ''-''" using num_text_digits [of "nat \<bar>i\<bar>"] d by (auto simp: is_digit_def code_def)
  have tw: "takeWhile is_digit (?d @ r) = ?d" using num_text_digits [of "nat \<bar>i\<bar>"] assms by (simp add: takeWhile_append)
  show "index_span (show_int i @ r) = length (show_int i)"
    using tw d b by (cases "i < 0") (simp_all add: show_int_def index_span_def)
  show "length (show_int i) \<noteq> (if starts_with ''-'' (show_int i @ r) then 1 else 0)"
    using d b by (cases "i < 0") (simp_all add: show_int_def)
qed

lemma reads_index:
  assumes "- (2 ^ 63) \<le> i" "i < 2 ^ 63"
  shows "reads json_index (show_int i) (Some i) index_stop"
proof (rule readsI)
  fix c r assume c: "cur_ok c" "rest_of c = show_int i @ r" "index_stop r"
  note sp = show_int_span [OF index_stop_no_digit [OF c(3)], of i]
  show "json_index c = (Ok (Some i), adv (length (show_int i)) c)"
    using sp(2) c(3) parse_i64_show_int [OF assms]
    by (simp add: json_index_eq [OF c(1)] c(2) sp(1) Let_def index_stop_def)
qed (simp add: utf8_ascii show_int_ascii)

lemma split_on_trailing: "[] \<in> set (split_on d (u @ [d]))"
proof -
  have "\<exists>p ps. split_on d (u @ [d]) = (p # ps) @ [[]]"
  proof (induction u)
    case (Cons a u)
    then obtain p ps where "split_on d (u @ [d]) = (p # ps) @ [[]]" by blast
    then show ?case by (cases "a = d") auto
  qed simp
  then show ?thesis by auto
qed

lemma bare_not_index:
  assumes "\<not> key_needs_quotes t" "cur_ok c" "rest_of c = t @ r"
  shows "json_index c = (Ok None, c)" "peek c \<noteq> Some (CHR ''-'')" "peek c \<noteq> Some (CHR 0x22)"
proof -
  have ok: "\<forall>b \<in> set t. \<not> json_key_break b \<and> b \<noteq> CHR 0x22" "[] \<notin> set (split_on (CHR ''-'') t)"
    and nd: "\<not> (\<forall>b \<in> set t. is_digit b)"
    using assms(1) by (auto simp: key_needs_quotes_def)
  obtain a t0 where t: "t = a # t0" using nd by (cases t) auto
  have a: "a \<noteq> CHR ''-''" using ok(2) t by auto
  show "peek c \<noteq> Some (CHR ''-'')" "peek c \<noteq> Some (CHR 0x22)" using a ok(1) t assms(3) by (auto simp: peek_rest)
  obtain b t' where d: "dropWhile is_digit t = b # t'" using nd by (cases "dropWhile is_digit t") (auto simp: dropWhile_eq_Nil_conv)
  then have b: "\<not> is_digit b" by (metis hd_dropWhile list.distinct(1) list.sel(1))
  have split: "t = takeWhile is_digit t @ b # t'" using d by (metis takeWhile_dropWhile_id)
  have span: "index_span (rest_of c) = length (takeWhile is_digit t)"
  proof -
    have "takeWhile is_digit (t @ r) = takeWhile is_digit t" using nd by (subst takeWhile_append) auto
    then show ?thesis using a t assms(3) by (simp add: index_span_def)
  qed
  have after: "drop (index_span (rest_of c)) (rest_of c) = b # t' @ r"
    unfolding assms(3) span [unfolded assms(3)] using arg_cong [OF split, of "\<lambda>x. drop (length (takeWhile is_digit t)) (x @ r)"] by simp
  have "\<not> index_stop (b # t' @ r)"
  proof
    assume "index_stop (b # t' @ r)"
    moreover have "\<not> json_key_break b" using ok(1) by (metis in_set_conv_decomp split)
    ultimately have dash: "b = CHR ''-''" "starts_with ''>'' (t' @ r)" by (auto simp: index_stop_def json_key_break_def)
    show False
    proof (cases t')
      case Nil
      then have "[] \<in> set (split_on (CHR ''-'') t)" using split_on_trailing dash(1) by (subst split) simp
      then show False using ok(2) by simp
    next
      case (Cons g gs)
      then have "CHR ''>'' \<in> set t" using dash(2) by (subst split) simp
      then show False using ok(1) by (auto simp: json_key_break_def)
    qed
  qed
  then show "json_index c = (Ok None, c)" unfolding json_index_eq [OF assms(2)] Let_def after by (simp add: index_stop_def)
qed

lemma key_stop_hd: "key_stop r \<Longrightarrow> takeWhile key_byte r = []"
  by (cases r) (auto simp: key_stop_def key_byte_def)

lemma reads_bare_key:
  assumes "\<not> key_needs_quotes t" "utf8 t"
  shows "reads parse_json_key t (JName t) key_stop"
proof (rule readsI)
  fix c r assume c: "cur_ok c" "rest_of c = t @ r" "key_stop r"
  note b = bare_not_index [OF assms(1) c(1,2)]
  have "key_pieces [] c = (Ok (JName (join ''-'' ([] @ split_on (CHR ''-'') t))), adv (length (join ''-'' (split_on (CHR ''-'') t))) c)"
  proof (rule key_pieces_reads [OF _ _ c(3) c(1)])
    show "\<forall>p \<in> set (split_on (CHR ''-'') t). p \<noteq> [] \<and> trim_blanks p = p \<and> (\<forall>b \<in> set p. key_byte b)"
    proof (intro ballI conjI)
      fix p assume p: "p \<in> set (split_on (CHR ''-'') t)"
      show "p \<noteq> []" "trim_blanks p = p" using assms(1) p by (auto simp: key_needs_quotes_def)
      fix b assume "b \<in> set p"
      with split_on_parts [OF p] assms(1) show "key_byte b" by (auto simp: key_needs_quotes_def key_byte_def)
    qed
  qed (simp_all add: c join_split_on)
  then show "parse_json_key c = (Ok (JName t), adv (length t) c)"
    by (simp add: parse_json_key_def sbind_def join_split_on b)
qed (rule assms(2))

lemma reads_quoted_key:
  assumes "utf8 t"
  shows "reads parse_json_key (write_escaped t) (JName t) R"
proof (rule readsI)
  fix c r assume c: "cur_ok c" "rest_of c = write_escaped t @ r"
  then obtain s where s: "rest_of c = CHR 0x22 # s" by (simp add: write_escaped_eq)
  have "json_index c = (Ok None, c)" using s by (simp add: json_index_eq [OF c(1)] index_span_def Let_def is_digit_def code_def)
  note idx = this
  have q: "scan_quoted c = (Ok t, adv (length (write_escaped t)) c)" using readsD [OF reads_scan_quoted [OF assms] c] by simp
  show "parse_json_key c = (Ok (JName t), adv (length (write_escaped t)) c)"
    using s by (simp add: parse_json_key_def sbind_def idx q peek_rest sret_def)
qed (rule utf8_write_escaped [OF assms])

definition wf_key :: "json_key \<Rightarrow> bool" where
  "wf_key k = (case k of JName n \<Rightarrow> utf8 n | JIndex i \<Rightarrow> - (2 ^ 63) \<le> i \<and> i < 2 ^ 63)"

definition key_end :: "json_key \<Rightarrow> string \<Rightarrow> bool" where
  "key_end k r = (case k of JName _ \<Rightarrow> key_stop r | JIndex _ \<Rightarrow> index_stop r)"

lemma reads_key: "wf_key k \<Longrightarrow> reads parse_json_key (fmt_key k) k (key_end k)"
proof (cases k)
  case (JIndex i)
  assume "wf_key k"
  then have i: "- (2 ^ 63) \<le> i" "i < 2 ^ 63" using JIndex by (auto simp: wf_key_def)
  from reads_sbind [OF reads_index [OF i], of "\<lambda>i. case i of Some n \<Rightarrow> sret (Ok (JIndex n)) | None \<Rightarrow> m" "[]" "JIndex i" index_stop for m]
  have "reads parse_json_key (show_int i) (JIndex i) index_stop"
    unfolding parse_json_key_def by (simp add: reads_sret)
  then show ?thesis by (simp add: JIndex fmt_key_def key_end_def [abs_def])
next
  case (JName n)
  assume "wf_key k"
  then show ?thesis using JName reads_quoted_key [of n] reads_bare_key [of n] by (simp add: fmt_key_def key_end_def [abs_def] wf_key_def)
qed

section \<open>JSON paths\<close>

definition wf_path :: "json_step list \<Rightarrow> bool" where
  "wf_path p \<longleftrightarrow> (\<forall>s \<in> set p. wf_key (js_key s))"

definition is_index :: "json_key \<Rightarrow> bool" where
  "is_index k \<longleftrightarrow> (case k of JIndex _ \<Rightarrow> True | JName _ \<Rightarrow> False)"

text \<open>What may follow a path: the end, a dot, a comma, or a bracket behind anything but an index.\<close>

definition path_end :: "json_step list \<Rightarrow> string \<Rightarrow> bool" where
  "path_end p r \<longleftrightarrow>
     r = [] \<or> hd r \<in> {CHR ''.'', CHR '',''} \<or>
     hd r \<in> {CHR '')'', CHR ''(''} \<and> (p = [] \<or> \<not> is_index (js_key (last p)))"

lemma path_end_no_arrow: "path_end p r \<Longrightarrow> \<not> starts_with ''->'' r"
  by (cases r) (auto simp: path_end_def)

lemma fmt_key_hd:
  "wf_key k \<Longrightarrow> \<exists>b t. fmt_key k = b # t \<and> b \<noteq> CHR ''>''"
proof (cases k)
  case (JName n)
  then show ?thesis by (cases n) (auto simp: fmt_key_def write_escaped_eq key_needs_quotes_def json_key_break_def)
next
  case (JIndex i)
  obtain b t where d: "num_text False 10 (nat \<bar>i\<bar>) = b # t" by (cases "num_text False 10 (nat \<bar>i\<bar>)") auto
  then have "b \<noteq> CHR ''>''" using num_text_digits [of "nat \<bar>i\<bar>"] by (auto simp: is_digit_def code_def)
  then show ?thesis using d JIndex by (cases "i < 0") (auto simp: fmt_key_def show_int_def)
qed

lemma path_follows:
  assumes "path_end (s # p) r"
  shows "key_end (js_key s) (fmt_path p @ r)" "path_end p r"
proof -
  show "path_end p r" using assms by (cases p) (auto simp: path_end_def)
  show "key_end (js_key s) (fmt_path p @ r)"
  proof (cases p)
    case Nil
    then show ?thesis using assms
      by (cases r) (auto simp: path_end_def key_end_def fmt_path_def is_index_def key_stop_def index_stop_def json_key_break_def
          split: json_key.splits)
  next
    case (Cons q qs)
    then show ?thesis by (auto simp: key_end_def fmt_path_def fmt_step_eq key_stop_def index_stop_def split: json_key.splits)
  qed
qed

lemma reads_path: "wf_path p \<Longrightarrow> reads (parse_json_path path) (fmt_path p) (path @ p) (path_end p)"
proof (induction p arbitrary: path)
  case Nil
  show ?case
  proof (rule readsI)
    fix c r assume c: "cur_ok c" "rest_of c = fmt_path [] @ r" "path_end [] r"
    then have "eat_str ''->'' c = (Ok False :: (bool, rest_error) outcome, c)"
      using path_end_no_arrow by (simp add: eat_str_def fmt_path_def cur_ok_def)
    then show "parse_json_path path c = (Ok (path @ []), adv (length (fmt_path [])) c)"
      by (subst parse_json_path.simps) (simp add: fmt_path_def)
  qed (simp add: fmt_path_def)
next
  case (Cons s p)
  have k: "wf_key (js_key s)" "wf_path p" using Cons.prems by (auto simp: wf_path_def)
  let ?arrow = "''->'' @ (if js_text s then ''>'' else [])"
  have au: "utf8 ?arrow" by (rule utf8_ascii) (simp add: ascii_def code_def)
  note IH = Cons.IH [OF k(2), of "path @ [s]"]
  show ?case
  proof (rule readsI)
    show "utf8 (fmt_path (s # p))"
      using au reads_utf8 [OF IH] reads_utf8 [OF reads_key [OF k(1)]] utf8_append [of ?arrow]
      by (simp add: fmt_path_def fmt_step_eq utf8_append del: append.simps(2))
    fix c r assume c: "cur_ok c" "rest_of c = fmt_path (s # p) @ r" "path_end (s # p) r"
    have rest: "rest_of c = ?arrow @ fmt_key (js_key s) @ fmt_path p @ r" using c(2) by (simp add: fmt_path_def fmt_step_eq)
    note c2 = cur_ok_past [OF c(1) rest au]
    note key = reads_cur [OF reads_key [OF k(1)] c2(1,2) path_follows(1) [OF c(3)]]
    have e1: "eat_str ''->'' c = (Ok True :: (bool, rest_error) outcome, adv 2 c)"
      using rest c(1) by (simp add: eat_str_def cur_ok_def)
    obtain b t where "fmt_key (js_key s) = b # t" "b \<noteq> CHR ''>''" using fmt_key_hd [OF k(1)] by blast
    then have e2: "eat (CHR ''>'') (adv 2 c) = (Ok (js_text s) :: (bool, rest_error) outcome, adv (length ?arrow) c)"
      using rest by (simp add: eat_def peek_rest bump_def numeral_2_eq_2)
    have "parse_json_path path c = parse_json_path (path @ [s]) (adv (length (fmt_key (js_key s))) (adv (length ?arrow) c))"
      using e1 e2 key(1) by (subst parse_json_path.simps, cases s) simp
    also have "\<dots> = (Ok ((path @ [s]) @ p), adv (length (fmt_path p)) (adv (length (fmt_key (js_key s))) (adv (length ?arrow) c)))"
      by (rule readsD [OF IH key(2,3) path_follows(2) [OF c(3)]])
    finally show "parse_json_path path c = (Ok (path @ s # p), adv (length (fmt_path (s # p))) c)"
      by (simp add: fmt_path_def fmt_step_eq add.commute add.left_commute)
  qed
qed

end
