(* ===== verification/Rest_Results.thy ===== *)
theory Rest_Results
  imports Rest_Reads
begin

text \<open>
  What the scanners return: \<open>run P m Q\<close> says that from a cursor on a character where \<open>P\<close> holds, a call that
  succeeds leaves a result and a cursor related by \<open>Q\<close>. Names are UTF-8, array indexes fit 64 bits and stand
  where an index may end.
\<close>

definition run :: "(cur \<Rightarrow> bool) \<Rightarrow> ('a, 'e, cur) sop \<Rightarrow> ('a \<Rightarrow> cur \<Rightarrow> bool) \<Rightarrow> bool" where
  "run P m Q \<longleftrightarrow> (\<forall>c x c'. cur_ok c \<longrightarrow> P c \<longrightarrow> m c = (Ok x, c') \<longrightarrow> Q x c')"

lemma runD: "run P m Q \<Longrightarrow> cur_ok c \<Longrightarrow> P c \<Longrightarrow> m c = (Ok x, c') \<Longrightarrow> Q x c'"
  by (simp add: run_def)

lemma runI: "(\<And>c x c'. cur_ok c \<Longrightarrow> P c \<Longrightarrow> m c = (Ok x, c') \<Longrightarrow> Q x c') \<Longrightarrow> run P m Q"
  by (auto simp: run_def)

lemma run_sbind: "safe m \<Longrightarrow> run P m R \<Longrightarrow> (\<And>x. run (R x) (f x) Q) \<Longrightarrow> run P (sbind m f) Q"
  unfolding run_def sbind_Ok by (metis safeD)

lemma run_skip: "safe m \<Longrightarrow> (\<And>x. run (\<lambda>_. True) (f x) Q) \<Longrightarrow> run P (sbind m f) Q"
  by (rule run_sbind [where R = "\<lambda>_ _. True"]) (simp_all add: run_def)

lemma run_sret: "(\<And>c x. P c \<Longrightarrow> r = Ok x \<Longrightarrow> Q x c) \<Longrightarrow> run P (sret r) Q"
  by (auto simp: run_def sret_def)

lemma run_if: "(b \<Longrightarrow> run P m Q) \<Longrightarrow> (\<not> b \<Longrightarrow> run P n Q) \<Longrightarrow> run P (if b then m else n) Q"
  by simp

lemma err_at_fails: "err_at at ws c \<noteq> (Ok x, c')" "err ws c \<noteq> (Ok x, c')"
  by (cases "found_at at c :: (found, rest_error) outcome"; simp add: err_at_def found_at_def obind_Ok_iff)
    (cases "found_at (c_pos c) c :: (found, rest_error) outcome"; simp add: err_def err_at_def)

lemma run_fails: "run P (err_at at ws) Q" "run P (err ws) Q"
  by (simp_all add: run_def err_at_fails)

lemma run_weaken: "run P m R \<Longrightarrow> (\<And>x c. R x c \<Longrightarrow> Q x c) \<Longrightarrow> run P m Q"
  by (simp add: run_def)

lemma run_pre: "run (\<lambda>_. True) m Q \<Longrightarrow> run P m Q"
  by (simp add: run_def)

lemma run_choice: "run (\<lambda>c. P c \<and> b c) m Q \<Longrightarrow> run (\<lambda>c. P c \<and> \<not> b c) n Q \<Longrightarrow> run P (\<lambda>c. if b c then m c else n c) Q"
  by (auto simp: run_def)

lemma run_fact: "(K \<Longrightarrow> run (\<lambda>_. True) m Q) \<Longrightarrow> run (\<lambda>_. K) m Q"
  by (auto simp: run_def)

lemma expect_rest: "expect_byte b c = (Ok (), c1) \<Longrightarrow> rest_of c = b # rest_of c1"
  by (auto simp: expect_byte_def expect_as_def sbind_Ok eat_def peek_rest bump_def sret_def err_at_fails split: if_splits list.splits)

section \<open>Names\<close>

lemma scan_quoted_utf8: "run P scan_quoted (\<lambda>s _. utf8 s)"
proof (rule runI)
  fix c s c' assume "scan_quoted c = (Ok s, c')"
  then obtain d :: cur where d: "(case quoted_loop (rest_of d) [] 0 of (None, n) \<Rightarrow> err [word_lit [CHR 0x22]] (adv n d)
       | (Some out, n) \<Rightarrow> (if utf8 out then Ok out else Panic, adv n d)) = (Ok s, c')"
    by (auto simp: scan_quoted_def sbind_Ok)
  obtain r n where "quoted_loop (rest_of d) [] 0 = (r, n)" by fastforce
  with d show "utf8 s" by (cases r) (auto simp: err_at_fails split: if_splits)
qed

definition bare_name :: "(char \<Rightarrow> bool) \<Rightarrow> string \<Rightarrow> bool" where
  "bare_name brk s \<longleftrightarrow> (\<forall>b \<in> set s. \<not> brk b) \<and> \<not> contains ''->'' s"

lemma name_span_bare_name: "bare_name brk (take (name_span brk s) s)"
proof -
  have nb: "b \<in> set (take (name_span brk s) s) \<Longrightarrow> \<not> brk b" for b
    by (induction s) (auto split: if_splits)
  moreover have "\<not> contains ''->'' (take (name_span brk s) s)"
  proof (induction s)
    case (Cons a s)
    show ?case
    proof (cases "name_span brk (a # s) = 0")
      case False
      then have "\<not> starts_with ''->'' (a # s)" by (auto split: if_splits)
      moreover have "starts_with w (take n t) \<Longrightarrow> starts_with w t" for w t :: string and n
        by (metis append_assoc append_take_drop_id starts_with_iff)
      ultimately have "\<not> starts_with ''->'' (take (name_span brk (a # s)) (a # s))" by blast
      then show ?thesis using Cons False by (auto split: if_splits)
    qed simp
  qed simp
  ultimately show ?thesis by (auto simp: bare_name_def)
qed

lemma scan_name_utf8:
  assumes "\<And>b. brk b \<Longrightarrow> ascii b"
  shows "run P (scan_name brk) (\<lambda>s _. utf8 s \<and> bare_name brk s)"
  by (rule runI) (auto simp: scan_name_ok [of _ brk, OF _ assms] name_span_bare_name)

lemma utf8_trim: "utf8 s \<Longrightarrow> utf8 (trim_blanks s)"
proof -
  have l: "utf8 (dropWhile blank t)" if "utf8 t" for t
  proof -
    have "is_boundary t (length (takeWhile blank t))"
      using that by (rule boundary_takeWhile) (auto simp: blank_def ascii_def code_def)
    from utf8_split(2) [OF that this] show ?thesis by (simp add: dropWhile_eq_drop)
  qed
  have r: "utf8 (rev (dropWhile blank (rev t)))" if "utf8 t" for t
    using that
  proof (induction t rule: rev_induct)
    case (snoc b t)
    show ?case
    proof (cases "blank b")
      case True
      then have "ascii b" by (auto simp: blank_def ascii_def code_def)
      with snoc True show ?thesis using utf8_cut(1) [of t b "[]"] by simp
    qed (use snoc in simp)
  qed simp
  assume "utf8 s"
  then show ?thesis unfolding trim_blanks_def using l r by blast
qed

section \<open>JSON keys and paths\<close>

lemma parse_i64_bounds: "parse_i64 s = Some i \<Longrightarrow> - (2 ^ 63) \<le> i \<and> i < 2 ^ 63"
proof -
  have d: "parse_digits limit radix acc t = Some n \<Longrightarrow> acc < limit \<Longrightarrow> n < limit" for limit radix acc t n
    by (induction t arbitrary: acc) (auto split: option.splits if_splits)
  have f: "0 < limit \<Longrightarrow> from_str_radix limit radix t = Some n \<Longrightarrow> n < limit" for limit radix t n
    using d [of limit radix 0] by (auto simp: from_str_radix_def split: list.splits if_splits simp del: parse_digits.simps)
  assume "parse_i64 s = Some i"
  then show ?thesis using f [of "2 ^ 63 + 1" 10 "tl s"] f [of "2 ^ 63" 10 s]
    by (auto simp: parse_i64_def split: if_splits)
qed

lemma json_index_result:
  "run P json_index (\<lambda>i c. case i of None \<Rightarrow> True | Some n \<Rightarrow> wf_key (JIndex n) \<and> index_stop (rest_of c))"
  by (rule runI) (auto simp: json_index_eq Let_def wf_key_def index_stop_def dest: parse_i64_bounds split: option.splits if_splits)

lemma utf8_join: "utf8 sep \<Longrightarrow> \<forall>p \<in> set ps. utf8 p \<Longrightarrow> utf8 (join sep ps)"
  by (induction sep ps rule: join.induct) (auto simp: utf8_append)

lemma key_pieces_result:
  assumes "\<forall>p \<in> set parts. utf8 p"
  shows "run P (key_pieces parts) (\<lambda>k c. \<exists>n. k = JName n \<and> utf8 n)"
proof (rule runI)
  fix c k c' assume "cur_ok c" "key_pieces parts c = (Ok k, c')"
  then show "\<exists>n. k = JName n \<and> utf8 n"
    using assms
  proof (induction "length (rest_of c)" arbitrary: parts c rule: less_induct)
    case less
    let ?n = "length (takeWhile key_byte (rest_of c))"
    let ?parts = "parts @ [trim_blanks (takeWhile key_byte (rest_of c))]"
    have n: "?n \<noteq> 0" using less.prems(2) by (auto simp: key_pieces_eq [OF less.prems(1)] err_at_fails split: if_splits)
    note sl = take_slice_span [OF less.prems(1) length_takeWhile_le key_span_boundary [OF cur_ok_rest [OF less.prems(1)]]]
    have "utf8 (takeWhile key_byte (rest_of c))" using sl(3) by (metis takeWhile_eq_take)
    then have parts: "\<forall>p \<in> set ?parts. utf8 p" using less.prems(3) utf8_trim by auto
    show ?case
    proof (cases "starts_with ''-'' (drop ?n (rest_of c)) \<and> \<not> starts_with ''->'' (drop ?n (rest_of c))")
      case True
      then obtain t where t: "drop ?n (rest_of c) = CHR ''-'' # t" by (auto simp: starts_with_iff)
      then have "peek (adv ?n c) = Some (CHR ''-'')" by (simp add: peek_rest)
      from cur_ok_bump [OF sl(2) this] have c': "cur_ok (adv (?n + 1) c)" by (simp add: bump_def ascii_def code_def)
      have "?n < length (rest_of c)" using t by (metis drop_eq_Nil linorder_not_le list.distinct(1))
      then have "length (rest_of (adv (?n + 1) c)) < length (rest_of c)" by simp
      from less.hyps [OF this c' _ parts] less.prems(2) n True show ?thesis
        by (simp add: key_pieces_eq [OF less.prems(1)] Let_def)
    next
      case False
      then have "k = JName (join ''-'' ?parts)" using less.prems(2) n by (auto simp: key_pieces_eq [OF less.prems(1)] Let_def)
      moreover have "utf8 (join ''-'' ?parts)" using parts by (intro utf8_join) (simp_all add: utf8_ascii ascii_def code_def)
      ultimately show ?thesis by blast
    qed
  qed
qed

definition key_result :: "json_key \<Rightarrow> cur \<Rightarrow> bool" where
  "key_result k c \<longleftrightarrow> wf_key k \<and> (is_index k \<longrightarrow> index_stop (rest_of c))"

lemma name_result: "utf8 n \<Longrightarrow> key_result (JName n) c"
  by (simp add: key_result_def wf_key_def is_index_def)

lemma parse_json_key_result: "run P parse_json_key key_result"
proof -
  have q: "run (\<lambda>_. True) (sbind scan_quoted (\<lambda>s. sret (Ok (JName s)))) key_result"
    by (rule run_sbind [OF safe_scan_quoted scan_quoted_utf8]) (auto intro!: run_sret name_result)
  have k: "run (\<lambda>_. True) (key_pieces []) key_result"
    by (rule run_weaken [OF key_pieces_result]) (auto intro: name_result)
  show ?thesis
    unfolding parse_json_key_def
  proof (rule run_sbind [OF safe_json_index json_index_result])
    fix i :: "int option"
    show "run (\<lambda>c. case i of None \<Rightarrow> True | Some n \<Rightarrow> wf_key (JIndex n) \<and> index_stop (rest_of c))
       (case i of Some n \<Rightarrow> sret (Ok (JIndex n)) | None \<Rightarrow> (\<lambda>c.
         if peek c = Some (CHR ''-'') then
           let digits = c_pos c + 1; at = digits + length (takeWhile is_digit (drop digits (c_s c)))
           in if at = digits then err_at digits [DIGIT] c
              else err_at at [DIGIT, word_lit ''->'', word_lit ''::'', word_lit ''.'', word_lit '','', END] c
         else if peek c = Some (CHR 0x22) then sbind scan_quoted (\<lambda>s. sret (Ok (JName s))) c
         else key_pieces [] c)) key_result"
      using runD [OF q] runD [OF k]
      by (cases i) (auto intro!: runI run_sret simp: key_result_def err_at_fails Let_def split: if_splits)
  qed
qed

definition path_result :: "json_step list \<Rightarrow> cur \<Rightarrow> bool" where
  "path_result p c \<longleftrightarrow> wf_path p \<and> \<not> starts_with ''->'' (rest_of c) \<and>
     (p \<noteq> [] \<longrightarrow> is_index (js_key (last p)) \<longrightarrow> index_stop (rest_of c))"

lemma parse_json_path_from:
  assumes "cur_ok c" "parse_json_path path c = (Ok p, c')" "wf_path path"
    "path \<noteq> [] \<longrightarrow> is_index (js_key (last path)) \<longrightarrow> index_stop (rest_of c)"
  shows "path_result p c'"
  using assms
proof (induction path c rule: parse_json_path.induct)
  case (1 path c)
  obtain r1 c1 where e1: "eat_str ''->'' c = (r1 :: (bool, rest_error) outcome, c1)" by fastforce
  have s1: "r1 \<noteq> Panic" "cur_ok c1" using safeD [OF safe_eat_str "1.prems"(1) e1] by (simp_all add: ascii_def code_def)
  obtain r2 c2 where e2: "eat (CHR ''>'') c1 = (r2 :: (bool, rest_error) outcome, c2)" by fastforce
  have s2: "r2 \<noteq> Panic" "cur_ok c2" using safeD [OF safe_eat s1(2) e2] by (simp_all add: ascii_def code_def)
  obtain r3 c3 where e3: "parse_json_key c2 = (r3, c3)" by fastforce
  have s3: "cur_ok c3" using safeD [OF safe_parse_json_key s2(2) e3] by simp
  show ?case
  proof (cases "r1 = Ok False")
    case True
    then have "p = path" "c' = c" "\<not> starts_with ''->'' (rest_of c)"
      using "1.prems"(2) e1 by (auto simp: parse_json_path.simps [of path c] eat_str_def split: if_splits)
    then show ?thesis using "1.prems" by (simp add: path_result_def)
  next
    case False
    then obtain tx key where ok: "r1 = Ok True" "r2 = Ok tx" "r3 = Ok key"
      using "1.prems"(2) e1 e2 e3 s1(1) s2(1)
      by (auto simp: parse_json_path.simps [of path c] split: outcome.splits bool.splits)
    have "key_result key c3" using runD [OF parse_json_key_result [where P = "\<lambda>_. True"] s2(2)] e3 ok(3) by simp
    moreover have "parse_json_path (path @ [\<lparr>js_text = tx, js_key = key\<rparr>]) c3 = (Ok p, c')"
      using "1.prems"(2) ok e1 e2 e3 by (simp add: parse_json_path.simps [of path c])
    ultimately show ?thesis
      by (intro "1.IH") (use ok e1 e2 e3 s3 "1.prems"(3) in \<open>auto simp: key_result_def wf_path_def\<close>)
  qed
qed

lemma parse_json_path_result: "run P (parse_json_path []) path_result"
  by (rule runI) (auto elim!: parse_json_path_from simp: wf_path_def)

section \<open>Grammars with a canonical text\<close>

text \<open>What a grammar promises: what parses is well formed, and what is well formed is read back from its canonical text.\<close>

locale canonical =
  fixes parse :: "'i \<Rightarrow> ('a, 'e) outcome" and write_back :: "'a \<Rightarrow> 'i" and readable :: "'i \<Rightarrow> bool" and wf :: "'a \<Rightarrow> bool"
  assumes parse_wf: "readable i \<Longrightarrow> parse i = Ok x \<Longrightarrow> wf x"
    and reads_back: "wf x \<Longrightarrow> parse (write_back x) = Ok x"
    and write_readable: "wf x \<Longrightarrow> readable (write_back x)"
begin

lemma roundtrip: "readable i \<Longrightarrow> parse i = Ok x \<Longrightarrow> parse (write_back x) = Ok x"
  using parse_wf reads_back by blast

text \<open>Canonical texts are normal forms: writing back what a canonical text parses to changes nothing.\<close>

lemma normal_form: "readable i \<Longrightarrow> parse i = Ok x \<Longrightarrow> parse (write_back x) = Ok y \<Longrightarrow> write_back y = write_back x"
  using roundtrip by fastforce

lemma write_inj: "wf x \<Longrightarrow> wf y \<Longrightarrow> write_back x = write_back y \<Longrightarrow> x = y"
  using reads_back by (metis outcome.inject(1))

end

end
