(* ===== verification/Rest_Order.thy ===== *)
theory Rest_Order
  imports Rest_Results
begin

text \<open>
  The order parameter (crates/zou-rest/src/order.rs): its terms, the parser and the canonical text, that the parser
  never panics, and that the canonical text parses back to the terms it was written from.
\<close>

section \<open>Terms\<close>

datatype direction = Asc | Desc

definition direction_name :: "direction \<Rightarrow> string" where
  "direction_name d = (case d of Asc \<Rightarrow> ''asc'' | Desc \<Rightarrow> ''desc'')"

datatype nulls = Nulls_First | Nulls_Last

definition nulls_name :: "nulls \<Rightarrow> string" where
  "nulls_name n = (case n of Nulls_First \<Rightarrow> ''nullsfirst'' | Nulls_Last \<Rightarrow> ''nullslast'')"

record order_term =
  ot_relation :: "string option"
  ot_name :: string
  ot_path :: "json_step list"
  ot_direction :: "direction option"
  ot_nulls :: "nulls option"

definition COMMA :: string where
  "COMMA = word_lit '',''"

section \<open>The parser\<close>

definition name_break :: "char \<Rightarrow> bool" where
  "name_break b \<longleftrightarrow> b \<in> {CHR ''.'', CHR '','', CHR ''('', CHR '')'', CHR 0x22, CHR ''{'', CHR ''}''}"

definition order_field :: "(string, rest_error, cur) sop" where
  "order_field =
     sbind (\<lambda>c. if peek c = Some (CHR 0x22) then scan_quoted c else scan_name name_break c) (\<lambda>name.
     if name = [] then err [FIELD_NAME] else sret (Ok name))"

text \<open>The first of the words that stands at the cursor, taken.\<close>

fun take_word :: "string list \<Rightarrow> (string option, 'e, cur) sop" where
  "take_word [] = sret (Ok None)"
| "take_word (w # ws) = sbind (eat_str w) (\<lambda>ok. if ok then sret (Ok (Some w)) else take_word ws)"

declare take_word.simps [simp del]

lemma moves_take_word [moves]: "moves (take_word ws)"
  by (induction ws) (auto simp: take_word.simps intro!: moves)

function modifiers :: "direction option \<Rightarrow> nulls option \<Rightarrow> (direction option \<times> nulls option, rest_error, cur) sop" where
  "modifiers direction nulls c =
     (if nulls \<noteq> None \<or> peek c \<noteq> Some (CHR ''.'') then (Ok (direction, nulls), c)
      else
        let c = bump c;
            at = c_pos c;
            ws = (if direction = None then [''asc'', ''desc''] else []) @ [''nullsfirst'', ''nullslast'']
        in case take_word ws c of
             (Ok (Some w), c) \<Rightarrow>
               if w = ''asc'' then modifiers (Some Asc) nulls c
               else if w = ''desc'' then modifiers (Some Desc) nulls c
               else if w = ''nullsfirst'' then modifiers direction (Some Nulls_First) c
               else if w = ''nullslast'' then modifiers direction (Some Nulls_Last) c
               else err_word at ws (map word_lit ws) c
           | (Ok None, c) \<Rightarrow> err_word at ws (map word_lit ws) c
           | (Err e, c) \<Rightarrow> (Err e, c)
           | (Panic, c) \<Rightarrow> (Panic, c))"
  by pat_completeness auto
termination
  by (relation "measure (\<lambda>(_, _, c). length (c_s c) - c_pos c)")
    (auto simp: bump_def peek_def split: if_splits dest!: sym [of _ "take_word _ _"] movesD [OF moves_take_word])

declare modifiers.simps [simp del]

text \<open>The column of a term, with the embedded resource it belongs to when a bracket follows the first name.\<close>

definition term_field :: "(string option \<times> string, rest_error, cur) sop" where
  "term_field =
     sbind order_field (\<lambda>name.
     sbind (eat (CHR ''('')) (\<lambda>paren.
     if paren then sbind order_field (\<lambda>col. sret (Ok (Some name, col))) else sret (Ok (None, name))))"

definition term_path :: "string option \<Rightarrow> (json_step list, rest_error, cur) sop" where
  "term_path relation =
     sbind (parse_json_path []) (\<lambda>path.
     sbind (if relation \<noteq> None then expect_byte (CHR '')'') else sret (Ok ())) (\<lambda>_.
     sret (Ok path)))"

definition term_end :: "order_term \<Rightarrow> (order_term, rest_error, cur) sop" where
  "term_end t c =
     (if \<not> cur_done c \<and> peek c \<noteq> Some (CHR '','')
      then leftover ((if ot_nulls t = None then [DELIMITER] else []) @ [COMMA, END]) c
      else (Ok t, c))"

definition parse_term :: "(order_term, rest_error, cur) sop" where
  "parse_term =
     sbind term_field (\<lambda>(relation, name).
     sbind (term_path relation) (\<lambda>path.
     sbind (modifiers None None) (\<lambda>(direction, nulls).
     term_end \<lparr>ot_relation = relation, ot_name = name, ot_path = path, ot_direction = direction, ot_nulls = nulls\<rparr>)))"

definition modifier_words :: "direction option \<Rightarrow> string list" where
  "modifier_words direction = (if direction = None then [''asc'', ''desc''] else []) @ [''nullsfirst'', ''nullslast'']"

lemma modifiers_stop: "nulls \<noteq> None \<or> peek c \<noteq> Some (CHR ''.'') \<Longrightarrow> modifiers direction nulls c = (Ok (direction, nulls), c)"
  by (subst modifiers.simps) simp

lemma modifiers_eq:
  assumes "nulls = None" "peek c = Some (CHR ''.'')" "take_word (modifier_words direction) (bump c) = (r, c1)"
  shows "modifiers direction nulls c =
    (case r of
       Ok (Some w) \<Rightarrow>
         if w = ''asc'' then modifiers (Some Asc) nulls c1
         else if w = ''desc'' then modifiers (Some Desc) nulls c1
         else if w = ''nullsfirst'' then modifiers direction (Some Nulls_First) c1
         else if w = ''nullslast'' then modifiers direction (Some Nulls_Last) c1
         else err_word (c_pos (bump c)) (modifier_words direction) (map word_lit (modifier_words direction)) c1
     | Ok None \<Rightarrow> err_word (c_pos (bump c)) (modifier_words direction) (map word_lit (modifier_words direction)) c1
     | Err e \<Rightarrow> (Err e, c1)
     | Panic \<Rightarrow> (Panic, c1))"
  using assms(1,2) by (subst modifiers.simps) (simp add: Let_def assms(3) flip: modifier_words_def split: outcome.split)

lemma modifiers_go:
  assumes "nulls = None" "peek c = Some (CHR ''.'')" "take_word (modifier_words direction) (bump c) = (r, c1)"
  obtains "modifiers direction nulls c = err_word (c_pos (bump c)) (modifier_words direction) (map word_lit (modifier_words direction)) c1"
      "r = Ok None \<or> (\<exists>w. r = Ok (Some w) \<and> w \<notin> {''asc'', ''desc'', ''nullsfirst'', ''nullslast''})"
  | e where "r = Err e" "modifiers direction nulls c = (Err e, c1)"
  | "r = Panic" "modifiers direction nulls c = (Panic, c1)"
  | d n where "modifiers direction nulls c = modifiers d n c1"
proof (cases r)
  case (Ok x)
  then show ?thesis
    using modifiers_eq [OF assms] that by (cases x) (auto split: if_splits)
qed (use modifiers_eq [OF assms] that in auto)

lemma modifiers_progress:
  assumes "peek c = Some (CHR ''.'')" "take_word ws (bump c) = (r, c1)"
  shows "c_s c1 = c_s c" "c_pos c < c_pos c1" "length (c_s c1) - c_pos c1 < length (c_s c) - c_pos c"
  using movesD [OF moves_take_word assms(2)] assms(1) by (auto simp: bump_def peek_def split: if_splits)

lemma moves_modifiers [moves]: "moves (modifiers direction nulls)"
  unfolding moves_def
proof
  fix c show "c_s (snd (modifiers direction nulls c)) = c_s c \<and> c_pos c \<le> c_pos (snd (modifiers direction nulls c))"
  proof (induction "length (c_s c) - c_pos c" arbitrary: direction nulls c rule: less_induct)
    case less
    show ?case
    proof (cases "nulls = None \<and> peek c = Some (CHR ''.'')")
      case True
      obtain r c1 where e: "take_word (modifier_words direction) (bump c) = (r :: (string option, rest_error) outcome, c1)" by fastforce
      note p = modifiers_progress [OF conjunct2 [OF True] e]
      show ?thesis
        by (rule modifiers_go [OF conjunct1 [OF True] conjunct2 [OF True] e])
          (use p less [OF p(3)] in \<open>auto simp: err_word_def intro: order_trans less_imp_le\<close>)
    qed (simp add: modifiers_stop)
  qed
qed

lemma moves_order_field [moves]: "moves order_field"
proof -
  have "moves (\<lambda>c. if peek c = Some (CHR 0x22) then scan_quoted c else scan_name name_break c :: (string, rest_error) outcome \<times> cur)"
    by (intro moves)
  then show ?thesis unfolding order_field_def by (intro moves)
qed

lemma moves_case_prod [moves]: "(\<And>a b. moves (f a b)) \<Longrightarrow> moves (case_prod f p)"
  by (cases p) simp

lemma moves_parse_term [moves]: "moves parse_term"
proof -
  have l: "moves (leftover ws :: (order_term, rest_error, cur) sop)" for ws by (rule moves)
  have "moves (term_end t)" for t using l by (auto simp: moves_def term_end_def)
  then show ?thesis unfolding parse_term_def term_field_def term_path_def by (intro moves)
qed

function order_terms :: "order_term list \<Rightarrow> (order_term list, rest_error, cur) sop" where
  "order_terms terms c =
     (case parse_term c of
        (Ok t, c) \<Rightarrow>
          if peek c = Some (CHR '','') then order_terms (terms @ [t]) (bump c) else (Ok (terms @ [t]), c)
      | (Err e, c) \<Rightarrow> (Err e, c)
      | (Panic, c) \<Rightarrow> (Panic, c))"
  by pat_completeness auto
termination
  by (relation "measure (\<lambda>(_, c). length (c_s c) - c_pos c)")
    (auto simp: bump_def peek_def split: if_splits dest!: sym [of _ "parse_term _"] movesD [OF moves_parse_term])

declare order_terms.simps [simp del]

definition order_parse :: "string \<Rightarrow> (order_term list, rest_error) outcome" where
  "order_parse value =
     fst (sbind (order_terms []) (\<lambda>terms c. if cur_done c then (Ok terms, c) else leftover [COMMA, END] c) (cur_new value))"

section \<open>The canonical text\<close>

definition order_name_needs_quotes :: "string \<Rightarrow> bool" where
  "order_name_needs_quotes s \<longleftrightarrow> s = [] \<or> (\<exists>b \<in> set s. name_break b \<or> b = CHR 0x5C) \<or> contains ''->'' s"

definition write_name :: "string \<Rightarrow> string" where
  "write_name name = (if order_name_needs_quotes name then write_escaped name else name)"

definition fmt_term :: "order_term \<Rightarrow> string" where
  "fmt_term t =
     (case ot_relation t of None \<Rightarrow> [] | Some rel \<Rightarrow> write_name rel @ ''('') @
     write_name (ot_name t) @ fmt_path (ot_path t) @
     (if ot_relation t \<noteq> None then '')'' else []) @
     (case ot_direction t of None \<Rightarrow> [] | Some d \<Rightarrow> ''.'' @ direction_name d) @
     (case ot_nulls t of None \<Rightarrow> [] | Some n \<Rightarrow> ''.'' @ nulls_name n)"

definition order_render :: "order_term list \<Rightarrow> string" where
  "order_render terms = join '','' (map fmt_term terms)"

section \<open>No panic\<close>

lemma name_break_ascii: "name_break b \<Longrightarrow> ascii b"
  by (auto simp: name_break_def ascii_def code_def)

lemma safe_case_prod [safe]: "(\<And>a b. safe (f a b)) \<Longrightarrow> safe (case_prod f p)"
  by (cases p) simp

lemma safe_order_field [safe]: "safe order_field"
  unfolding order_field_def by (intro safe name_break_ascii) simp_all

lemma safe_take_word: "\<forall>w \<in> set ws. list_all ascii w \<Longrightarrow> safe (take_word ws)"
  by (induction ws) (auto simp: take_word.simps intro!: safe)

lemma modifier_words_ascii: "list_all (list_all ascii) (modifier_words direction)"
  by (simp add: modifier_words_def ascii_def code_def)

text \<open>A word that is not there leaves the cursor alone.\<close>

lemma take_word_none: "cur_ok c \<Longrightarrow> take_word ws c = (Ok None, c1) \<Longrightarrow> c1 = c"
proof (induction ws)
  case (Cons w ws)
  then show ?case by (auto simp: take_word.simps sbind_Ok eat_str_def sret_def cur_ok_def split: if_splits)
qed (simp add: take_word.simps sret_def)

lemma take_word_some: "take_word ws c = (Ok (Some w), c1) \<Longrightarrow> w \<in> set ws"
  by (induction ws arbitrary: c) (auto simp: take_word.simps sbind_Ok sret_def split: if_splits)

lemma safe_modifiers [safe]: "safe (modifiers direction nulls)"
proof (rule safe_at)
  fix c assume "cur_ok c"
  then show "fst (modifiers direction nulls c) \<noteq> Panic \<and> cur_ok (snd (modifiers direction nulls c))"
  proof (induction "length (c_s c) - c_pos c" arbitrary: direction nulls c rule: less_induct)
    case less
    show ?case
    proof (cases "nulls = None \<and> peek c = Some (CHR ''.'')")
      case True
      obtain r c1 where e: "take_word (modifier_words direction) (bump c) = (r :: (string option, rest_error) outcome, c1)" by fastforce
      note p = modifiers_progress [OF conjunct2 [OF True] e]
      have b: "cur_ok (bump c)" using cur_ok_bump [OF less.prems] True by (simp add: ascii_def code_def)
      have "safe (take_word (modifier_words direction) :: (string option, rest_error, cur) sop)"
        by (rule safe_take_word) (use modifier_words_ascii in \<open>auto simp: list_all_iff\<close>)
      from safeD [OF this b e] have c1: "r \<noteq> Panic" "cur_ok c1" by auto
      show ?thesis
      proof (rule modifiers_go [OF conjunct1 [OF True] conjunct2 [OF True] e])
        assume m: "modifiers direction nulls c = err_word (c_pos (bump c)) (modifier_words direction) (map word_lit (modifier_words direction)) c1"
          and r: "r = Ok None \<or> (\<exists>w. r = Ok (Some w) \<and> w \<notin> {''asc'', ''desc'', ''nullsfirst'', ''nullslast''})"
        have "c1 = bump c"
          using r e take_word_none [OF b] take_word_some [of "modifier_words direction" "bump c"]
          by (auto simp: modifier_words_def split: if_splits)
        then show ?thesis using m b by (simp add: err_word_safe [OF b modifier_words_ascii])
      next
        fix d n assume "modifiers direction nulls c = modifiers d n c1"
        then show ?thesis using less(1) [OF p(3) c1(2)] by simp
      qed (use c1 in auto)
    qed (use less.prems in \<open>auto simp: modifiers_stop\<close>)
  qed
qed

lemma safe_term_field [safe]: "safe term_field"
  unfolding term_field_def by (intro safe) (simp_all add: ascii_def code_def)

lemma safe_term_path [safe]: "safe (term_path relation)"
  unfolding term_path_def by (intro safe) (simp_all add: ascii_def code_def)

lemma safe_term_end [safe]: "safe (term_end t)"
proof -
  have l: "safe (leftover ws :: (order_term, rest_error, cur) sop)" for ws by (rule safe)
  show ?thesis using l by (auto simp: safe_def term_end_def)
qed

lemma safe_parse_term [safe]: "safe parse_term"
  unfolding parse_term_def by (intro safe)

lemma safe_order_terms [safe]: "safe (order_terms terms)"
proof (rule safe_at)
  fix c assume "cur_ok c"
  then show "fst (order_terms terms c) \<noteq> Panic \<and> cur_ok (snd (order_terms terms c))"
  proof (induction terms c rule: order_terms.induct)
    case (1 terms c)
    obtain r c1 where e: "parse_term c = (r, c1)" by fastforce
    note s = safeD [OF safe_parse_term "1.prems" e]
    show ?case
    proof (cases "\<exists>t. r = Ok t \<and> peek c1 = Some (CHR '','')")
      case True
      then obtain t where t: "r = Ok t" "peek c1 = Some (CHR '','')" by blast
      have "cur_ok (bump c1)" using cur_ok_bump [OF conjunct2 [OF s] t(2)] by (simp add: ascii_def code_def)
      then have "fst (order_terms (terms @ [t]) (bump c1)) \<noteq> Panic \<and> cur_ok (snd (order_terms (terms @ [t]) (bump c1)))"
        using t e by (intro "1.IH") auto
      then show ?thesis using t e by (subst (1 2) order_terms.simps) simp
    next
      case False
      then show ?thesis using e s by (subst (1 2) order_terms.simps) (auto split: outcome.splits)
    qed
  qed
qed

lemma order_parse_no_panic: "utf8 value \<Longrightarrow> order_parse value \<noteq> Panic"
proof -
  have e: "safe (\<lambda>c. (Ok ts, c) :: (order_term list, rest_error) outcome \<times> cur)" for ts by (simp add: safe_def)
  have "safe (sbind (order_terms []) (\<lambda>terms c. if cur_done c then (Ok terms, c) else leftover [COMMA, END] c))"
    by (intro safe e)
  then show "utf8 value \<Longrightarrow> order_parse value \<noteq> Panic" using cur_ok_new by (auto simp: order_parse_def safe_def)
qed

section \<open>What parses\<close>

text \<open>Names are not empty, and an index ends no path in brackets.\<close>

definition wf_term :: "order_term \<Rightarrow> bool" where
  "wf_term t \<longleftrightarrow>
     (\<forall>rel. ot_relation t = Some rel \<longrightarrow>
        rel \<noteq> [] \<and> utf8 rel \<and> (ot_path t \<noteq> [] \<longrightarrow> \<not> is_index (js_key (last (ot_path t))))) \<and>
     ot_name t \<noteq> [] \<and> utf8 (ot_name t) \<and> wf_path (ot_path t)"

lemma order_field_result: "run P order_field (\<lambda>s _. s \<noteq> [] \<and> utf8 s)"
  unfolding order_field_def
proof (rule run_sbind)
  show "safe (\<lambda>c. if peek c = Some (CHR 0x22) then scan_quoted c else scan_name name_break c)"
    by (intro safe name_break_ascii)
  show "run P (\<lambda>c. if peek c = Some (CHR 0x22) then scan_quoted c else scan_name name_break c) (\<lambda>s _. utf8 s)"
    by (intro run_choice scan_quoted_utf8 run_weaken [OF scan_name_utf8] name_break_ascii) simp_all
qed (auto intro!: run_fails run_sret)

lemma term_field_result:
  "run P term_field (\<lambda>(rel, name) _. (\<forall>r. rel = Some r \<longrightarrow> r \<noteq> [] \<and> utf8 r) \<and> name \<noteq> [] \<and> utf8 name)"
  unfolding term_field_def
proof (rule run_sbind [OF safe_order_field order_field_result], rule run_fact, rule run_skip)
  show "safe (eat (CHR ''('') :: (bool, rest_error, cur) sop)" by (rule safe_eat) (simp add: ascii_def code_def)
  fix name paren assume n: "name \<noteq> [] \<and> utf8 name"
  have "run (\<lambda>_. True) (sbind order_field (\<lambda>col. sret (Ok (Some name, col))))
      (\<lambda>(rel, name) _. (\<forall>r. rel = Some r \<longrightarrow> r \<noteq> [] \<and> utf8 r) \<and> name \<noteq> [] \<and> utf8 name)"
    by (rule run_sbind [OF safe_order_field order_field_result]) (use n in \<open>auto intro!: run_sret\<close>)
  then show "run (\<lambda>_. True) (if paren then sbind order_field (\<lambda>col. sret (Ok (Some name, col))) else sret (Ok (None, name)))
      (\<lambda>(rel, name) _. (\<forall>r. rel = Some r \<longrightarrow> r \<noteq> [] \<and> utf8 r) \<and> name \<noteq> [] \<and> utf8 name)"
    using n by (auto intro!: run_if run_sret)
qed

lemma term_path_result:
  "run P (term_path rel) (\<lambda>p _. wf_path p \<and> (rel \<noteq> None \<longrightarrow> p \<noteq> [] \<longrightarrow> \<not> is_index (js_key (last p))))"
  unfolding term_path_def
proof (rule run_sbind [OF safe_parse_json_path parse_json_path_result])
  fix p
  have "run (path_result p) (sbind (expect_byte (CHR '')'')) (\<lambda>_. sret (Ok p))) (\<lambda>p _. wf_path p \<and> (p \<noteq> [] \<longrightarrow> \<not> is_index (js_key (last p))))"
    by (rule runI) (auto simp: sbind_Ok sret_def path_result_def index_stop_def dest!: expect_rest)
  then show "run (path_result p) (sbind (if rel \<noteq> None then expect_byte (CHR '')'') else sret (Ok ())) (\<lambda>_. sret (Ok p)))
      (\<lambda>p _. wf_path p \<and> (rel \<noteq> None \<longrightarrow> p \<noteq> [] \<longrightarrow> \<not> is_index (js_key (last p))))"
    by (cases "rel = None") (auto intro!: run_sret simp: path_result_def)
qed

lemma term_end_result: "run P (term_end t) (\<lambda>u _. u = t)"
proof (rule runI)
  fix c u c' assume "term_end t c = (Ok u, c')"
  then show "u = t"
    by (cases "found_at (c_pos c) c :: (found, rest_error) outcome") (auto simp: term_end_def leftover_def split: if_splits)
qed

lemma parse_term_result: "run P parse_term (\<lambda>t _. wf_term t)"
  unfolding parse_term_def
proof (rule run_sbind [OF safe_term_field term_field_result])
  fix x :: "string option \<times> string"
  obtain rel name where x: "x = (rel, name)" by fastforce
  have "run (\<lambda>_. True) (sbind (term_path rel) (\<lambda>path. sbind (modifiers None None) (\<lambda>(direction, nulls).
     term_end \<lparr>ot_relation = rel, ot_name = name, ot_path = path, ot_direction = direction, ot_nulls = nulls\<rparr>))) (\<lambda>t _. wf_term t)"
    if n: "(\<forall>r. rel = Some r \<longrightarrow> r \<noteq> [] \<and> utf8 r)" "name \<noteq> []" "utf8 name"
  proof (rule run_sbind [OF safe_term_path term_path_result], rule run_fact, rule run_skip [OF safe_modifiers])
    fix path and m :: "direction option \<times> nulls option"
    assume "wf_path path \<and> (rel \<noteq> None \<longrightarrow> path \<noteq> [] \<longrightarrow> \<not> is_index (js_key (last path)))"
    then have "wf_term \<lparr>ot_relation = rel, ot_name = name, ot_path = path, ot_direction = fst m, ot_nulls = snd m\<rparr>"
      using n by (simp add: wf_term_def)
    then show "run (\<lambda>_. True) (case m of (direction, nulls) \<Rightarrow>
        term_end \<lparr>ot_relation = rel, ot_name = name, ot_path = path, ot_direction = direction, ot_nulls = nulls\<rparr>) (\<lambda>t _. wf_term t)"
      by (cases m) (auto intro: run_weaken [OF term_end_result])
  qed
  then show "run (case x of (rel, name) \<Rightarrow> \<lambda>_. (\<forall>r. rel = Some r \<longrightarrow> r \<noteq> [] \<and> utf8 r) \<and> name \<noteq> [] \<and> utf8 name)
      (case x of (rel, name) \<Rightarrow> sbind (term_path rel) (\<lambda>path. sbind (modifiers None None) (\<lambda>(direction, nulls).
        term_end \<lparr>ot_relation = rel, ot_name = name, ot_path = path, ot_direction = direction, ot_nulls = nulls\<rparr>))) (\<lambda>t _. wf_term t)"
    unfolding x prod.case by (rule run_fact) simp_all
qed

section \<open>Reading the canonical text back\<close>

definition name_end :: "string \<Rightarrow> bool" where
  "name_end r \<longleftrightarrow> r = [] \<or> name_break (hd r) \<and> hd r \<noteq> CHR 0x22 \<or> starts_with ''->'' r"

lemma bare_hd: "\<not> order_name_needs_quotes s \<Longrightarrow> \<exists>b t. s = b # t \<and> b \<noteq> CHR 0x22"
  by (cases s) (auto simp: order_name_needs_quotes_def name_break_def)

lemma reads_field: "s \<noteq> [] \<Longrightarrow> utf8 s \<Longrightarrow> reads order_field (write_name s) s name_end"
proof -
  assume s: "s \<noteq> []" "utf8 s"
  let ?pick = "\<lambda>c. if peek c = Some (CHR 0x22) then scan_quoted c else scan_name name_break c"
  have "reads ?pick (write_name s) s name_end"
  proof (cases "order_name_needs_quotes s")
    case True
    then show ?thesis
      by (intro readsI) (use readsD [OF reads_scan_quoted [OF s(2)]] utf8_write_escaped [OF s(2)] in
          \<open>auto simp: write_name_def peek_rest write_escaped_eq\<close>)
  next
    case False
    then have bare: "\<forall>b \<in> set s. \<not> name_break b" "\<not> contains ''->'' s" by (auto simp: order_name_needs_quotes_def)
    note r = reads_scan_name [OF s(2) name_break_ascii bare]
    show ?thesis
    proof (rule readsI)
      show "utf8 (write_name s)" using False s by (simp add: write_name_def)
      fix c r' assume c: "cur_ok c" "rest_of c = write_name s @ r'" "name_end r'"
      have "scan_name name_break c = (Ok s, adv (length s) c)"
        by (rule readsD [OF r, of _ r']) (use c False in \<open>auto simp: write_name_def name_end_def name_break_def starts_with_iff\<close>)
      moreover obtain b t where "s = b # t" "b \<noteq> CHR 0x22" using bare_hd [OF False] by blast
      ultimately show "?pick c = (Ok s, adv (length (write_name s)) c)"
        using c(2) False by (simp add: write_name_def peek_rest)
    qed
  qed
  from reads_sbind [OF this, of "\<lambda>name. if name = [] then err [FIELD_NAME] else sret (Ok name)" "[]" s name_end]
  show ?thesis unfolding order_field_def using s by (simp add: reads_sret)
qed

text \<open>What may follow the modifiers: the end or a comma.\<close>

definition term_stop :: "string \<Rightarrow> bool" where
  "term_stop r \<longleftrightarrow> r = [] \<or> hd r = CHR '',''"

definition fmt_mods :: "direction option \<Rightarrow> nulls option \<Rightarrow> string" where
  "fmt_mods d n = (case d of None \<Rightarrow> [] | Some d \<Rightarrow> ''.'' @ direction_name d) @ (case n of None \<Rightarrow> [] | Some n \<Rightarrow> ''.'' @ nulls_name n)"

lemma take_word_hit:
  assumes "cur_ok c" "rest_of c = w @ r" "ws = us @ w # vs" "\<forall>u \<in> set us. \<not> starts_with u (w @ r)"
  shows "take_word ws c = (Ok (Some w), adv (length w) c)"
  using assms(4) unfolding assms(3)
proof (induction us)
  case Nil
  then show ?case using assms(1,2) by (simp add: take_word.simps sbind_def eat_str_def sret_def cur_ok_def)
next
  case (Cons u us)
  then show ?case using assms(1,2) by (simp add: take_word.simps sbind_def eat_str_def cur_ok_def)
qed

lemma modifiers_word:
  assumes "cur_ok c" "rest_of c = ''.'' @ w @ r" "nulls = None" "modifier_words d = us @ w # vs" "\<forall>u \<in> set us. \<not> starts_with u (w @ r)"
  shows "modifiers d nulls c =
    (if w = ''asc'' then modifiers (Some Asc) nulls (adv (1 + length w) c)
     else if w = ''desc'' then modifiers (Some Desc) nulls (adv (1 + length w) c)
     else if w = ''nullsfirst'' then modifiers d (Some Nulls_First) (adv (1 + length w) c)
     else modifiers d (Some Nulls_Last) (adv (1 + length w) c))"
proof -
  have p: "peek c = Some (CHR ''.'')" using assms(2) by (simp add: peek_rest)
  have b: "cur_ok (bump c)" using cur_ok_bump [OF assms(1) p] by (simp add: ascii_def code_def)
  have t: "take_word (modifier_words d) (bump c) = (Ok (Some w) :: (string option, rest_error) outcome, adv (1 + length w) c)"
    using take_word_hit [OF b _ assms(4,5)] assms(2) by (simp add: bump_def)
  have "w \<in> set (modifier_words d)" using assms(4) by simp
  then have "w \<in> {''asc'', ''desc'', ''nullsfirst'', ''nullslast''}" by (auto simp: modifier_words_def split: if_splits)
  then show ?thesis using modifiers_eq [OF assms(3) p t] by auto
qed

lemma modifiers_nulls:
  assumes "cur_ok c" "rest_of c = (case n of None \<Rightarrow> [] | Some n \<Rightarrow> ''.'' @ nulls_name n) @ r" "term_stop r"
  shows "modifiers d None c = (Ok (d, n), adv (length (case n of None \<Rightarrow> [] | Some n \<Rightarrow> ''.'' @ nulls_name n)) c)"
proof (cases n)
  case None
  then have "peek c \<noteq> Some (CHR ''.'')" using assms(2,3) by (auto simp: peek_rest term_stop_def split: list.splits)
  then show ?thesis using None by (simp add: modifiers_stop)
next
  case (Some k)
  have "\<exists>us vs. modifier_words d = us @ nulls_name k # vs \<and> (\<forall>u \<in> set us. \<not> starts_with u (nulls_name k @ r))"
    by (cases k; cases d)
      (rule exI [of _ "(if d = None then [''asc'', ''desc''] else []) @ (if k = Nulls_First then [] else [''nullsfirst''])"],
       simp add: modifier_words_def nulls_name_def)+
  then obtain us vs where w: "modifier_words d = us @ nulls_name k # vs" "\<forall>u \<in> set us. \<not> starts_with u (nulls_name k @ r)" by blast
  show ?thesis using modifiers_word [OF assms(1) _ refl w] assms(2) Some
    by (cases k) (simp_all add: nulls_name_def modifiers_stop)
qed

lemma reads_modifiers: "reads (modifiers None None) (fmt_mods d n) (d, n) term_stop"
proof (rule readsI)
  show "utf8 (fmt_mods d n)"
    by (rule utf8_ascii) (auto simp: fmt_mods_def direction_name_def nulls_name_def ascii_def code_def split: option.splits direction.splits nulls.splits)
  fix c r assume c: "cur_ok c" "rest_of c = fmt_mods d n @ r" "term_stop r"
  let ?n = "case n of None \<Rightarrow> [] | Some n \<Rightarrow> ''.'' @ nulls_name n"
  show "modifiers None None c = (Ok (d, n), adv (length (fmt_mods d n)) c)"
  proof (cases d)
    case None
    then show ?thesis using modifiers_nulls [OF c(1) _ c(3), of n None] c(2) by (simp add: fmt_mods_def)
  next
    case (Some k)
    have "\<exists>us vs. modifier_words None = us @ direction_name k # vs \<and> (\<forall>u \<in> set us. \<not> starts_with u (direction_name k @ ?n @ r))"
      by (rule exI [of _ "if k = Asc then [] else [''asc'']"]) (cases k; simp add: modifier_words_def direction_name_def)
    then obtain us vs where w: "modifier_words None = us @ direction_name k # vs" "\<forall>u \<in> set us. \<not> starts_with u (direction_name k @ ?n @ r)" by blast
    have rest: "rest_of c = (''.'' @ direction_name k) @ ?n @ r" using c(2) Some by (simp add: fmt_mods_def)
    have "utf8 (''.'' @ direction_name k)"
      by (rule utf8_ascii) (cases k; simp add: direction_name_def ascii_def code_def)
    note past = cur_ok_past [OF c(1) rest this]
    have "modifiers None None c = modifiers (Some k) None (adv (length (''.'' @ direction_name k)) c)"
      using modifiers_word [OF c(1) _ refl w] rest by (cases k) (simp_all add: direction_name_def)
    also have "\<dots> = (Ok (Some k, n), adv (length ?n) (adv (length (''.'' @ direction_name k)) c))"
      by (rule modifiers_nulls [OF past(1,2) c(3)])
    finally show ?thesis using Some by (simp add: fmt_mods_def)
  qed
qed

lemma name_end_path: "(p = [] \<Longrightarrow> name_end r) \<Longrightarrow> name_end (fmt_path p @ r)"
  by (cases p) (auto simp: name_end_def fmt_path_def fmt_step_def)

lemma reads_term_field:
  assumes "name \<noteq> []" "utf8 name"
  shows "reads term_field (write_name name) (None, name) (\<lambda>r. name_end r \<and> (r = [] \<or> hd r \<noteq> CHR ''(''))"
    "rel \<noteq> [] \<Longrightarrow> utf8 rel \<Longrightarrow> reads term_field (write_name rel @ ''('' @ write_name name) (Some rel, name) name_end"
proof -
  have "reads (sbind (eat (CHR ''('')) (\<lambda>paren. if paren then sbind order_field (\<lambda>col. sret (Ok (Some name, col))) else sret (Ok (None, name))))
      [] (None, name) (\<lambda>r. r = [] \<or> hd r \<noteq> CHR ''('')"
    by (rule reads_sbind_first [OF reads_not_eat]) (simp_all add: reads_sret)
  then show "reads term_field (write_name name) (None, name) (\<lambda>r. name_end r \<and> (r = [] \<or> hd r \<noteq> CHR ''(''))"
    unfolding term_field_def by (intro reads_sbind_last [OF reads_field [OF assms]]) (auto elim: reads_weaken)
  assume rel: "rel \<noteq> []" "utf8 rel"
  have open_paren: "ascii (CHR ''('')" by (simp add: ascii_def code_def)
  have "reads (sbind (eat (CHR ''('')) (\<lambda>paren. if paren then sbind order_field (\<lambda>col. sret (Ok (Some rel, col))) else sret (Ok (None, rel))))
      (''('' @ write_name name) (Some rel, name) name_end"
    by (rule reads_sbind [OF reads_eat [OF open_paren]]) (simp_all add: reads_sbind_ret [OF reads_field [OF assms]])
  then show "reads term_field (write_name rel @ ''('' @ write_name name) (Some rel, name) name_end"
    unfolding term_field_def by (intro reads_sbind [OF reads_field [OF rel]]) (auto simp: name_end_def name_break_def)
qed

lemma reads_term_path:
  assumes "wf_path p"
  shows "reads (term_path None) (fmt_path p) p (path_end p)"
    "(p \<noteq> [] \<Longrightarrow> \<not> is_index (js_key (last p))) \<Longrightarrow> reads (term_path (Some rel)) (fmt_path p @ '')'') p R"
proof -
  note path = reads_path [OF assms, of "[]", simplified]
  show "reads (term_path None) (fmt_path p) p (path_end p)"
    unfolding term_path_def by (rule reads_sbind_last [OF path]) (simp_all add: reads_sret)
  assume "p \<noteq> [] \<Longrightarrow> \<not> is_index (js_key (last p))"
  then have e: "path_end p ('')'' @ r)" for r by (auto simp: path_end_def)
  have "reads (sbind (expect_byte (CHR '')'')) (\<lambda>_. sret (Ok p))) '')'' p R"
    by (rule reads_sbind_ret [OF reads_expect(2)]) (simp add: ascii_def code_def)
  then show "reads (term_path (Some rel)) (fmt_path p @ '')'') p R"
    unfolding term_path_def by (intro reads_sbind [OF path]) (simp_all add: e [simplified])
qed

lemma reads_term_end: "reads (term_end t) [] t term_stop"
  by (rule readsI) (auto simp: term_end_def cur_done_def peek_rest rest_of_def term_stop_def split: list.splits)

lemma reads_term_tail:
  "reads (sbind (modifiers None None) (\<lambda>(direction, nulls).
     term_end \<lparr>ot_relation = rel, ot_name = name, ot_path = p, ot_direction = direction, ot_nulls = nulls\<rparr>))
     (fmt_mods d n) \<lparr>ot_relation = rel, ot_name = name, ot_path = p, ot_direction = d, ot_nulls = n\<rparr> term_stop"
  by (rule reads_sbind_last [OF reads_modifiers]) (simp_all add: reads_term_end)

lemma mods_follow: "term_stop r \<Longrightarrow> fmt_mods d n @ r = [] \<or> hd (fmt_mods d n @ r) \<in> {CHR ''.'', CHR '',''}"
  by (cases d; cases n) (auto simp: fmt_mods_def term_stop_def)

lemma reads_parse_term:
  assumes "wf_term t"
  shows "reads parse_term (fmt_term t) t term_stop"
proof -
  obtain rel name p d n where t: "t = \<lparr>ot_relation = rel, ot_name = name, ot_path = p, ot_direction = d, ot_nulls = n\<rparr>"
    by (cases t)
  have wf: "name \<noteq> []" "utf8 name" "wf_path p" using assms by (auto simp: wf_term_def t)
  show ?thesis
  proof (cases rel)
    case None
    have path: "reads (sbind (term_path None) (\<lambda>path. sbind (modifiers None None) (\<lambda>(direction, nulls).
       term_end \<lparr>ot_relation = None, ot_name = name, ot_path = path, ot_direction = direction, ot_nulls = nulls\<rparr>)))
       (fmt_path p @ fmt_mods d n) t term_stop"
      unfolding t None by (rule reads_sbind [OF reads_term_path(1) [OF wf(3)] reads_term_tail])
        (use mods_follow in \<open>auto simp: path_end_def\<close>)
    have f: "name_end ((fmt_path p @ fmt_mods d n) @ r) \<and> ((fmt_path p @ fmt_mods d n) @ r = [] \<or> hd ((fmt_path p @ fmt_mods d n) @ r) \<noteq> CHR ''('')"
      if "term_stop r" for r
      using mods_follow [OF that, of d n] name_end_path [of p "fmt_mods d n @ r"]
      by (cases p) (auto simp: name_end_def name_break_def fmt_path_def fmt_step_def)
    have "reads parse_term (write_name name @ fmt_path p @ fmt_mods d n) t term_stop"
      unfolding parse_term_def by (rule reads_sbind [OF reads_term_field(1) [OF wf(1,2)]]) (use path f in auto)
    then show ?thesis by (simp add: fmt_term_def fmt_mods_def t None)
  next
    case (Some re)
    have re: "re \<noteq> []" "utf8 re" "p \<noteq> [] \<Longrightarrow> \<not> is_index (js_key (last p))" using assms Some by (auto simp: wf_term_def t)
    have path: "reads (sbind (term_path (Some re)) (\<lambda>path. sbind (modifiers None None) (\<lambda>(direction, nulls).
       term_end \<lparr>ot_relation = Some re, ot_name = name, ot_path = path, ot_direction = direction, ot_nulls = nulls\<rparr>)))
       ((fmt_path p @ '')'') @ fmt_mods d n) t term_stop"
      unfolding t Some by (rule reads_sbind [OF reads_term_path(2) [OF wf(3) re(3), where R = "\<lambda>_. True"] reads_term_tail]) simp_all
    have f: "name_end (((fmt_path p @ '')'') @ fmt_mods d n) @ r)" for r
      using name_end_path [of p "'')'' @ fmt_mods d n @ r"] by (simp add: name_end_def name_break_def)
    have "reads parse_term ((write_name re @ ''('' @ write_name name) @ (fmt_path p @ '')'') @ fmt_mods d n) t term_stop"
      unfolding parse_term_def by (rule reads_sbind [OF reads_term_field(2) [OF wf(1,2) re(1,2)]]) (use path f in auto)
    then show ?thesis by (simp add: fmt_term_def fmt_mods_def t Some)
  qed
qed

lemma reads_order_terms:
  "ts \<noteq> [] \<Longrightarrow> \<forall>t \<in> set ts. wf_term t \<Longrightarrow> reads (order_terms acc) (order_render ts) (acc @ ts) (\<lambda>r. r = [])"
proof (induction ts arbitrary: acc rule: list_nonempty_induct)
  case (single t)
  note p = reads_parse_term [of t]
  show ?case
  proof (rule readsI)
    show "utf8 (order_render [t])" using reads_utf8 [OF p] single by (simp add: order_render_def)
    fix c r assume c: "cur_ok c" "rest_of c = order_render [t] @ r" "r = []"
    note s = reads_cur [OF p c(1), of r]
    show "order_terms acc c = (Ok (acc @ [t]), adv (length (order_render [t])) c)"
      using s single c by (subst order_terms.simps) (simp add: order_render_def term_stop_def peek_rest)
  qed
next
  case (cons t ts)
  note p = reads_parse_term [of t] and IH = cons.IH [of "acc @ [t]"]
  have render: "order_render (t # ts) = fmt_term t @ '','' @ order_render ts" using cons.hyps by (cases ts) (auto simp: order_render_def)
  have comma: "utf8 '',''" by (rule utf8_ascii) (simp add: ascii_def code_def)
  show ?case
  proof (rule readsI)
    show "utf8 (order_render (t # ts))" using reads_utf8 [OF p] reads_utf8 [OF IH] cons.prems comma utf8_append [of "'',''"]
      by (simp add: render utf8_append)
    fix c r assume c: "cur_ok c" "rest_of c = order_render (t # ts) @ r" "r = []"
    have rest: "rest_of c = fmt_term t @ '','' @ order_render ts @ r" using c(2) by (simp add: render)
    have s: "parse_term c = (Ok t, adv (length (fmt_term t)) c)" "cur_ok (adv (length (fmt_term t)) c)"
      "rest_of (adv (length (fmt_term t)) c) = '','' @ order_render ts @ r"
      using reads_cur [OF p c(1) rest] cons.prems by (auto simp: term_stop_def)
    note next_cur = cur_ok_past [OF s(2,3) comma]
    have "order_terms acc c = order_terms (acc @ [t]) (adv (length '','') (adv (length (fmt_term t)) c))"
      using s by (subst order_terms.simps) (simp add: peek_rest bump_def)
    also have "\<dots> = (Ok ((acc @ [t]) @ ts), adv (length (order_render ts)) (adv (length '','') (adv (length (fmt_term t)) c)))"
      using cons.prems by (intro readsD [OF IH next_cur(1,2)]) (simp_all add: c(3))
    finally show "order_terms acc c = (Ok (acc @ t # ts), adv (length (order_render (t # ts))) c)" by (simp add: render)
  qed
qed

lemma order_terms_result:
  "cur_ok c \<Longrightarrow> order_terms acc c = (Ok ts, c') \<Longrightarrow> \<exists>us. ts = acc @ us \<and> us \<noteq> [] \<and> (\<forall>t \<in> set us. wf_term t)"
proof (induction acc c rule: order_terms.induct)
  case (1 acc c)
  obtain t c1 where t: "parse_term c = (Ok t, c1)"
    using "1.prems"(2) by (auto simp: order_terms.simps [of acc c] split: prod.splits outcome.splits)
  have wf: "wf_term t" "cur_ok c1"
    using runD [OF parse_term_result [where P = "\<lambda>_. True"] "1.prems"(1) _ t] safeD [OF safe_parse_term "1.prems"(1) t] by auto
  show ?case
  proof (cases "peek c1 = Some (CHR '','')")
    case True
    have "cur_ok (bump c1)" using cur_ok_bump [OF wf(2) True] by (simp add: ascii_def code_def)
    moreover have "order_terms (acc @ [t]) (bump c1) = (Ok ts, c')" using "1.prems"(2) t True by (simp add: order_terms.simps [of acc c])
    ultimately have "\<exists>us. ts = (acc @ [t]) @ us \<and> us \<noteq> [] \<and> (\<forall>t \<in> set us. wf_term t)"
      using "1.IH" [OF t [symmetric] refl True] by simp
    then show ?thesis using wf(1) by auto
  next
    case False
    then show ?thesis using "1.prems"(2) t wf(1) by (auto simp: order_terms.simps [of acc c])
  qed
qed

lemma order_parse_render:
  assumes "ts \<noteq> []" "\<forall>t \<in> set ts. wf_term t"
  shows "order_parse (order_render ts) = Ok ts"
proof -
  note r = reads_order_terms [OF assms, of "[]"]
  have "order_terms [] (cur_new (order_render ts)) = (Ok ts, adv (length (order_render ts)) (cur_new (order_render ts)))"
    using readsD [OF r cur_ok_new [OF reads_utf8 [OF r]], of "[]"] by simp
  then show ?thesis by (simp add: order_parse_def sbind_def cur_done_def cur_new_def)
qed

lemma order_parse_wf:
  assumes "utf8 value" "order_parse value = Ok ts"
  shows "ts \<noteq> [] \<and> (\<forall>t \<in> set ts. wf_term t)"
proof -
  have "\<exists>c'. order_terms [] (cur_new value) = (Ok ts, c')"
    using assms(2) by (cases "order_terms [] (cur_new value)")
      (auto simp: order_parse_def sbind_def leftover_def obind_Ok_iff split: outcome.splits if_splits)
  then show ?thesis using order_terms_result [OF cur_ok_new [OF assms(1)]] by fastforce
qed

interpretation order_text: canonical order_parse order_render utf8 "\<lambda>ts. ts \<noteq> [] \<and> (\<forall>t \<in> set ts. wf_term t)"
proof
  fix ts assume ts: "ts \<noteq> [] \<and> (\<forall>t \<in> set ts. wf_term t)"
  show "order_parse (order_render ts) = Ok ts" using order_parse_render ts by blast
  show "utf8 (order_render ts)" using reads_utf8 [OF reads_order_terms] ts by blast
qed (rule order_parse_wf)

text \<open>Order terms survive being written down. Whatever order value a client sends, if it parses, its
  canonical text parses, and to the same terms: relation, column, JSON path, direction and nulls placement.
\<close>

lemma order_render_roundtrip:
  assumes "utf8 value" "order_parse value = Ok ts"
  shows "order_parse (order_render ts) = Ok ts"
  using assms by (rule order_text.roundtrip)

lemma sample_order:
  "order_parse ''age.desc,clients(name->>a-b).asc.nullslast'' =
     Ok [\<lparr>ot_relation = None, ot_name = ''age'', ot_path = [], ot_direction = Some Desc, ot_nulls = None\<rparr>,
         \<lparr>ot_relation = Some ''clients'', ot_name = ''name'', ot_path = [\<lparr>js_text = True, js_key = JName ''a-b''\<rparr>],
          ot_direction = Some Asc, ot_nulls = Some Nulls_Last\<rparr>]"
  by code_simp

end
