(* ===== verification/Rest_Filter.thy ===== *)
theory Rest_Filter
  imports Rest_Order
begin

text \<open>
  The filter grammar (crates/zou-rest/src/filter.rs): conditions, logic trees, the parser of a query pair and the
  canonical pair. The tree parser is three mutually recursive functions with fuel; running out of fuel is
  a panic, so the proof that nothing panics also shows the fuel is enough.
\<close>

section \<open>Operators\<close>

datatype op =
    Op_Eq | Op_Neq | Op_Gt | Op_Gte | Op_Lt | Op_Lte | Op_Like | Op_Ilike | Op_Match | Op_Imatch | Op_In | Op_Is | Op_IsDistinct
  | Op_Fts | Op_Plfts | Op_Phfts | Op_Wfts | Op_Cs | Op_Cd | Op_Ov | Op_Sl | Op_Sr | Op_Nxl | Op_Nxr | Op_Adj

definition OPERATORS :: "string list" where
  "OPERATORS =
     [''in'', ''is'', ''isdistinct'', ''fts'', ''plfts'', ''phfts'', ''wfts'', ''neq'', ''cs'', ''cd'', ''ov'', ''sl'', ''sr'',
      ''nxr'', ''nxl'', ''adj'', ''eq'', ''gte'', ''gt'', ''lte'', ''lt'', ''like'', ''ilike'', ''match'', ''imatch'']"

definition OPERATOR :: string where
  "OPERATOR = ''operator (eq, gt, ...)''"

definition IS_VALUES :: "string list" where
  "IS_VALUES = [''null'', ''not_null'', ''true'', ''false'', ''unknown'']"

definition IS_VAL :: string where
  "IS_VAL = ''isVal: (null, not_null, true, false, unknown)''"

definition NOT_WORD :: string where
  "NOT_WORD = word_lit ''not''"

definition op_name :: "op \<Rightarrow> string" where
  "op_name p =
     (case p of
        Op_Eq \<Rightarrow> ''eq'' | Op_Neq \<Rightarrow> ''neq'' | Op_Gt \<Rightarrow> ''gt'' | Op_Gte \<Rightarrow> ''gte'' | Op_Lt \<Rightarrow> ''lt'' | Op_Lte \<Rightarrow> ''lte''
      | Op_Like \<Rightarrow> ''like'' | Op_Ilike \<Rightarrow> ''ilike'' | Op_Match \<Rightarrow> ''match'' | Op_Imatch \<Rightarrow> ''imatch'' | Op_In \<Rightarrow> ''in''
      | Op_Is \<Rightarrow> ''is'' | Op_IsDistinct \<Rightarrow> ''isdistinct'' | Op_Fts \<Rightarrow> ''fts'' | Op_Plfts \<Rightarrow> ''plfts'' | Op_Phfts \<Rightarrow> ''phfts''
      | Op_Wfts \<Rightarrow> ''wfts'' | Op_Cs \<Rightarrow> ''cs'' | Op_Cd \<Rightarrow> ''cd'' | Op_Ov \<Rightarrow> ''ov'' | Op_Sl \<Rightarrow> ''sl'' | Op_Sr \<Rightarrow> ''sr''
      | Op_Nxl \<Rightarrow> ''nxl'' | Op_Nxr \<Rightarrow> ''nxr'' | Op_Adj \<Rightarrow> ''adj'')"

definition op_parse :: "string \<Rightarrow> op option" where
  "op_parse s =
     map_of
       [(''eq'', Op_Eq), (''neq'', Op_Neq), (''gt'', Op_Gt), (''gte'', Op_Gte), (''lt'', Op_Lt), (''lte'', Op_Lte),
        (''like'', Op_Like), (''ilike'', Op_Ilike), (''match'', Op_Match), (''imatch'', Op_Imatch), (''in'', Op_In), (''is'', Op_Is),
        (''isdistinct'', Op_IsDistinct), (''fts'', Op_Fts), (''plfts'', Op_Plfts), (''phfts'', Op_Phfts), (''wfts'', Op_Wfts),
        (''cs'', Op_Cs), (''cd'', Op_Cd), (''ov'', Op_Ov), (''sl'', Op_Sl), (''sr'', Op_Sr), (''nxl'', Op_Nxl), (''nxr'', Op_Nxr),
        (''adj'', Op_Adj)] s"

definition quantifiable :: "op \<Rightarrow> bool" where
  "quantifiable p \<longleftrightarrow> p \<in> {Op_Eq, Op_Gt, Op_Gte, Op_Lt, Op_Lte, Op_Like, Op_Ilike, Op_Match, Op_Imatch}"

definition is_fts :: "op \<Rightarrow> bool" where
  "is_fts p \<longleftrightarrow> p \<in> {Op_Fts, Op_Plfts, Op_Phfts, Op_Wfts}"

section \<open>Trees\<close>

datatype quant = Q_Any | Q_All

datatype logic_op = L_And | L_Or

definition logic_name :: "logic_op \<Rightarrow> string" where
  "logic_name p = (case p of L_And \<Rightarrow> ''and'' | L_Or \<Rightarrow> ''or'')"

record field =
  fi_embed :: "string list"
  fi_column :: string
  fi_path :: "json_step list"

datatype filter_value = VLit string | VList "string list" | VArray "string list"

record cond =
  co_field :: field
  co_negated :: bool
  co_op :: op
  co_quant :: "quant option"
  co_config :: "string option"
  co_value :: filter_value

datatype node = Group logic_op bool "node list" | Cond cond

datatype parsed = Filter cond | Logic "string list" logic_op bool "node list"

datatype key = KField field | KLogic "string list" logic_op bool

record seg =
  sg_name :: string
  sg_path :: "json_step list"
  sg_quoted :: bool

section \<open>Conditions\<close>

definition parse_segment :: "(seg, rest_error, cur) sop" where
  "parse_segment c =
     (let quoted = peek c = Some (CHR 0x22)
      in sbind (if quoted then scan_quoted else sbind (scan_name name_break) (\<lambda>n. sret (Ok (trim_blanks n)))) (\<lambda>name.
         if name = [] then err [FIELD_NAME]
         else sbind (parse_json_path []) (\<lambda>path. sret (Ok \<lparr>sg_name = name, sg_path = path, sg_quoted = quoted\<rparr>))) c)"

text \<open>What the operator slot offers at a position.\<close>

definition slot :: "bool \<Rightarrow> nat \<Rightarrow> nat \<Rightarrow> string list" where
  "slot negated at p = (if \<not> negated \<and> p = at then [NOT_WORD, OPERATOR] else [OPERATOR])"

definition op_failure :: "bool \<Rightarrow> nat \<Rightarrow> ('a, rest_error, cur) sop" where
  "op_failure negated at c =
     (case str_from (c_s c) (min at (length (c_s c))) of
        Ok rest \<Rightarrow>
          if \<not> negated \<and> starts_with ''not'' rest then err_at (at + 3) [DELIMITER] c
          else
            (case map (\<lambda>w. at + length w) (filter (\<lambda>w. starts_with w rest) OPERATORS) of
               [] \<Rightarrow> err_word at [if negated then ''in'' else ''not''] (slot negated at at) c
             | p # ps \<Rightarrow> let p = foldr max ps p in err_at p (slot negated at p) c)
      | Err e \<Rightarrow> (Err e, c)
      | Panic \<Rightarrow> (Panic, c))"

definition parse_op :: "bool \<Rightarrow> nat \<Rightarrow> (op, rest_error, cur) sop" where
  "parse_op negated at =
     sbind (scan_name name_break) (\<lambda>opname.
     case op_parse opname of None \<Rightarrow> op_failure negated at | Some p \<Rightarrow> sret (Ok p))"

text \<open>An error at the cursor, in the words of the operator slot.\<close>

definition err_slot :: "bool \<Rightarrow> nat \<Rightarrow> ('a, rest_error, cur) sop" where
  "err_slot negated at c = err_at (c_pos c) (slot negated at (c_pos c)) c"

text \<open>The bracket after an operator: any or all, or a text search configuration.\<close>

definition parse_modifier :: "bool \<Rightarrow> nat \<Rightarrow> op \<Rightarrow> (quant option \<times> string option, rest_error, cur) sop" where
  "parse_modifier negated at p c =
     (if peek c = Some (CHR ''('') \<and> (is_fts p \<or> quantifiable p) then
        let c = bump c; modifier = c_pos c
        in sbind (scan_name name_break) (\<lambda>m.
           sbind (if is_fts p \<and> m \<noteq> [] then sret (Ok (None, Some m))
                  else if m = ''any'' \<and> quantifiable p then sret (Ok (Some Q_Any, None))
                  else if m = ''all'' \<and> quantifiable p then sret (Ok (Some Q_All, None))
                  else err_at modifier (slot negated at modifier)) (\<lambda>qc.
           sbind (eat (CHR '')'')) (\<lambda>ok. if ok then sret (Ok qc) else err_slot negated at))) c
      else (Ok (None, None), c))"

definition parse_dot :: "bool \<Rightarrow> nat \<Rightarrow> (unit, rest_error, cur) sop" where
  "parse_dot negated at = sbind (eat (CHR ''.'')) (\<lambda>ok. if ok then sret (Ok ()) else err_slot negated at)"

text \<open>A literal up to the next of the terminators, with its quotes and escapes read when they close there.\<close>

definition scan_bare :: "char set \<Rightarrow> (string, rest_error, cur) sop" where
  "scan_bare terms c = take_slice (length (takeWhile (\<lambda>b. b \<notin> terms) (rest_of c))) c"

definition scan_element :: "char set \<Rightarrow> (string, rest_error, cur) sop" where
  "scan_element terms c =
     (if peek c = Some (CHR 0x22) then
        (case scan_quoted c of
           (Ok s, c') \<Rightarrow>
             if (case peek c' of None \<Rightarrow> True | Some b \<Rightarrow> b \<in> terms) then (Ok s, c') else scan_bare terms c
         | (Err e, c') \<Rightarrow> scan_bare terms c
         | (Panic, c') \<Rightarrow> (Panic, c'))
      else scan_bare terms c)"

lemma moves_scan_element [moves]: "moves (scan_element terms)"
proof -
  have b: "moves (scan_bare terms)" using moves_basic(10) by (auto simp: moves_def scan_bare_def take_slice_def)
  show ?thesis
    unfolding moves_def
  proof
    fix c
    obtain r c' where q: "scan_quoted c = (r, c')" by fastforce
    show "c_s (snd (scan_element terms c)) = c_s c \<and> c_pos c \<le> c_pos (snd (scan_element terms c))"
      using b movesD [OF moves_scan_quoted q] by (auto simp: scan_element_def q moves_def split: outcome.splits)
  qed
qed

function parse_elements :: "char \<Rightarrow> string list \<Rightarrow> (string list, rest_error, cur) sop" where
  "parse_elements close out c =
     (case scan_element {CHR '','', close} c of
        (Ok s, c) \<Rightarrow>
          if peek c = Some (CHR '','') then parse_elements close (out @ [s]) (bump c)
          else sbind (expect_as close [word_lit '','', word_lit [close]]) (\<lambda>_. sret (Ok (out @ [s]))) c
      | (Err e, c) \<Rightarrow> (Err e, c)
      | (Panic, c) \<Rightarrow> (Panic, c))"
  by pat_completeness auto
termination
  by (relation "measure (\<lambda>(_, _, c). length (c_s c) - c_pos c)")
    (auto simp: bump_def peek_def split: if_splits dest!: sym [of _ "scan_element _ _"] movesD [OF moves_scan_element])

declare parse_elements.simps [simp del]

definition scan_array :: "(string option, rest_error, cur) sop" where
  "scan_array c =
     (if peek c \<noteq> Some (CHR ''{'') then (Ok None, c)
      else
        let n = length (takeWhile (\<lambda>b. b \<notin> {CHR ''{'', CHR ''}''}) (tl (rest_of c)))
        in if peek (adv (n + 1) c) \<noteq> Some (CHR ''}'') then (Ok None, c)
           else sbind (take_slice (n + 2)) (\<lambda>s. sret (Ok (Some s))) c)"

definition parse_value :: "op \<Rightarrow> quant option \<Rightarrow> bool \<Rightarrow> (filter_value, rest_error, cur) sop" where
  "parse_value p quant in_tree =
     (if p = Op_In then
        sbind skip_spaces (\<lambda>_.
        sbind (expect_byte (CHR ''('')) (\<lambda>_.
        sbind skip_spaces (\<lambda>_.
        sbind (parse_elements (CHR '')'') []) (\<lambda>es. sret (Ok (VList es))))))
      else if quant \<noteq> None then
        sbind (expect_byte (CHR ''{'')) (\<lambda>_.
        sbind (eat (CHR ''}'')) (\<lambda>empty.
        if empty then sret (Ok (VArray []))
        else sbind (parse_elements (CHR ''}'') []) (\<lambda>es. sret (Ok (VArray es)))))
      else if in_tree then
        sbind scan_array (\<lambda>a.
        case a of
          Some s \<Rightarrow> sret (Ok (VLit s))
        | None \<Rightarrow> sbind (scan_element {CHR '','', CHR '')''}) (\<lambda>s. sret (Ok (VLit s))))
      else sbind take_rest (\<lambda>s. sret (Ok (VLit s))))"

definition check_is :: "op \<Rightarrow> nat \<Rightarrow> filter_value \<Rightarrow> (filter_value, rest_error, cur) sop" where
  "check_is p literal v =
     (if p = Op_Is then
        (case v of
           VLit s \<Rightarrow>
             if to_ascii_lowercase s \<in> set IS_VALUES then sret (Ok (VLit (to_ascii_lowercase s)))
             else err_ci_word literal IS_VALUES [IS_VAL]
         | _ \<Rightarrow> sret Panic)
      else sret (Ok v))"

text \<open>The value of a condition, checked against its operator.\<close>

definition parse_literal :: "op \<Rightarrow> quant option \<Rightarrow> bool \<Rightarrow> (filter_value, rest_error, cur) sop" where
  "parse_literal p quant in_tree c = sbind (parse_value p quant in_tree) (check_is p (c_pos c)) c"

definition parse_rhs_from :: "field \<Rightarrow> bool \<Rightarrow> bool \<Rightarrow> nat \<Rightarrow> (cond, rest_error, cur) sop" where
  "parse_rhs_from field in_tree negated at =
     sbind (parse_op negated at) (\<lambda>p.
     sbind (parse_modifier negated at p) (\<lambda>(quant, config).
     sbind (parse_dot negated at) (\<lambda>_.
     sbind (parse_literal p quant in_tree) (\<lambda>v.
     sret (Ok \<lparr>co_field = field, co_negated = negated, co_op = p, co_quant = quant, co_config = config, co_value = v\<rparr>)))))"

definition parse_cond_rhs :: "field \<Rightarrow> bool \<Rightarrow> (cond, rest_error, cur) sop" where
  "parse_cond_rhs field in_tree = sbind (eat_str ''not.'') (\<lambda>negated c. parse_rhs_from field in_tree negated (c_pos c) c)"

definition is_operator :: "string \<Rightarrow> (bool, 'e) outcome" where
  "is_operator value =
     (case fst (parse_cond_rhs \<lparr>fi_embed = [], fi_column = [], fi_path = []\<rparr> False (cur_new value)) of
        Ok _ \<Rightarrow> Ok True | Err _ \<Rightarrow> Ok False | Panic \<Rightarrow> Panic)"

section \<open>Logic trees\<close>

definition parse_condition :: "(node, rest_error, cur) sop" where
  "parse_condition =
     sbind parse_segment (\<lambda>seg.
     sbind (expect_as (CHR ''.'') [DELIMITER]) (\<lambda>_.
     sbind (parse_cond_rhs \<lparr>fi_embed = [], fi_column = sg_name seg, fi_path = sg_path seg\<rparr> True) (\<lambda>c.
     sret (Ok (Cond c)))))"

definition group_head :: "((logic_op \<times> bool) option, rest_error, cur) sop" where
  "group_head c =
     (case sbind (eat_str ''not.'') (\<lambda>negated. sbind (scan_name name_break) (\<lambda>name. sret (Ok (negated, trim_blanks name)))) c of
        (Ok (negated, name), c1) \<Rightarrow>
          if name \<noteq> ''and'' \<and> name \<noteq> ''or'' then (Ok None, c)
          else
            (case skip_spaces c1 of
               (Ok _, c2) \<Rightarrow>
                 if peek c2 = Some (CHR ''('') then (Ok (Some (if name = ''and'' then L_And else L_Or, negated)), c2)
                 else (Ok None, c)
             | (Err e, c2) \<Rightarrow> (Err e, c2)
             | (Panic, c2) \<Rightarrow> (Panic, c2))
      | (Err e, c1) \<Rightarrow> (Err e, c1)
      | (Panic, c1) \<Rightarrow> (Panic, c1))"

text \<open>The complaint about an item that is no condition, where the group reading may speak over it.\<close>

definition item_failure :: "rest_error \<Rightarrow> (node, rest_error, cur) sop" where
  "item_failure failed c0 =
     sbind (eat_str ''not.'') (\<lambda>negated c.
       case str_from (c_s c) (c_pos c) of
         Ok rest \<Rightarrow>
           if starts_with ''and'' rest then sbind skip_spaces (\<lambda>_. err [word_lit ''('']) (adv 3 c)
           else if starts_with ''or'' rest then sbind skip_spaces (\<lambda>_. err [word_lit ''('']) (adv 2 c)
           else if negated then err [''logic operator (and, or)''] c
           else if starts_with ''o'' rest \<and> length rest > 1 then err_word (c_pos c) [''or''] [word_lit ''or''] c
           else (Err (label (c_pos c0) [FIELD_NAME, ''negation operator (not)'', ''logic operator (and, or)''] failed), c)
       | Err e \<Rightarrow> (Err e, c)
       | Panic \<Rightarrow> (Panic, c)) c0"

definition item_condition :: "(node, rest_error, cur) sop" where
  "item_condition c =
     (case parse_condition c of
        (Ok node, c') \<Rightarrow> (Ok node, c')
      | (Err failed, c') \<Rightarrow> item_failure failed c
      | (Panic, c') \<Rightarrow> (Panic, c'))"

fun parse_group_body :: "nat \<Rightarrow> (node list, rest_error, cur) sop"
  and group_items :: "nat \<Rightarrow> node list \<Rightarrow> (node list, rest_error, cur) sop"
  and parse_item :: "nat \<Rightarrow> (node, rest_error, cur) sop" where
  "parse_group_body 0 = sret Panic"
| "parse_group_body (Suc fuel) =
     sbind skip_spaces (\<lambda>_.
     sbind (expect_byte (CHR ''('')) (\<lambda>_.
     sbind skip_spaces (\<lambda>_.
     group_items fuel [])))"
| "group_items 0 kids = sret Panic"
| "group_items (Suc fuel) kids =
     sbind (parse_item fuel) (\<lambda>kid.
     sbind skip_spaces (\<lambda>_.
     sbind (eat (CHR '','')) (\<lambda>comma.
     if comma then sbind skip_spaces (\<lambda>_. group_items fuel (kids @ [kid]))
     else
       sbind (expect_as (CHR '')'') [word_lit '','', word_lit '')'']) (\<lambda>_.
       sbind skip_spaces (\<lambda>_.
       sret (Ok (kids @ [kid])))))))"
| "parse_item 0 = sret Panic"
| "parse_item (Suc fuel) =
     sbind group_head (\<lambda>h.
     case h of
       Some (p, negated) \<Rightarrow> sbind (parse_group_body fuel) (\<lambda>kids. sret (Ok (Group p negated kids)))
     | None \<Rightarrow> item_condition)"

declare parse_group_body.simps [simp del] group_items.simps [simp del] parse_item.simps [simp del]

text \<open>Every level of a tree takes at least one byte, so three units of fuel a byte are enough.\<close>

definition parse_tree :: "(node list, rest_error, cur) sop" where
  "parse_tree c = parse_group_body (3 * length (rest_of c) + 3) c"

section \<open>Query pairs\<close>

lemma moves_parse_segment [moves]: "moves parse_segment"
proof -
  have "moves (sbind (if quoted then scan_quoted else sbind (scan_name name_break) (\<lambda>n. sret (Ok (trim_blanks n)))) (\<lambda>name.
         if name = [] then err [FIELD_NAME]
         else sbind (parse_json_path []) (\<lambda>path. sret (Ok \<lparr>sg_name = name, sg_path = path, sg_quoted = quoted\<rparr>))))" for quoted
    by (intro moves)
  then show ?thesis by (simp add: moves_def parse_segment_def Let_def)
qed

function key_segments :: "seg list \<Rightarrow> (seg list, rest_error, cur) sop" where
  "key_segments segs c =
     (case parse_segment c of
        (Ok seg, c) \<Rightarrow>
          if peek c = Some (CHR ''.'') then
            (if sg_path seg \<noteq> [] then err [END] (bump c) else key_segments (segs @ [seg]) (bump c))
          else if cur_done c then (Ok (segs @ [seg]), c)
          else leftover [END] c
      | (Err e, c) \<Rightarrow> (Err e, c)
      | (Panic, c) \<Rightarrow> (Panic, c))"
  by pat_completeness auto
termination
  by (relation "measure (\<lambda>(_, c). length (c_s c) - c_pos c)")
    (auto simp: bump_def peek_def split: if_splits dest!: sym [of _ "parse_segment _"] movesD [OF moves_parse_segment])

declare key_segments.simps [simp del]

fun embed_names :: "seg list \<Rightarrow> (string list, rest_error, cur) sop" where
  "embed_names [] = sret (Ok [])"
| "embed_names (s # segs) =
     (if sg_path s \<noteq> [] then err [END] else sbind (embed_names segs) (\<lambda>out. sret (Ok (sg_name s # out))))"

definition logic_word :: "seg \<Rightarrow> logic_op option" where
  "logic_word s =
     (if \<not> sg_quoted s \<and> sg_path s = [] \<and> sg_name s = ''or'' then Some L_Or
      else if \<not> sg_quoted s \<and> sg_path s = [] \<and> sg_name s = ''and'' then Some L_And
      else None)"

definition not_word :: "seg \<Rightarrow> bool" where
  "not_word s \<longleftrightarrow> \<not> sg_quoted s \<and> sg_path s = [] \<and> sg_name s = ''not''"

definition key_of :: "seg list \<Rightarrow> (key, rest_error, cur) sop" where
  "key_of segs =
     (if segs = [] then sret Panic
      else
        case logic_word (last segs) of
          Some p \<Rightarrow>
            let segs = butlast segs;
                negated = (segs \<noteq> [] \<and> not_word (last segs));
                segs = (if negated then butlast segs else segs)
            in sbind (embed_names segs) (\<lambda>emb. sret (Ok (KLogic emb p negated)))
        | None \<Rightarrow>
            sbind (embed_names (butlast segs)) (\<lambda>emb.
            sret (Ok (KField \<lparr>fi_embed = emb, fi_column = sg_name (last segs), fi_path = sg_path (last segs)\<rparr>))))"

definition parse_key :: "string \<Rightarrow> (key, rest_error) outcome" where
  "parse_key key = fst (sbind (key_segments []) key_of (cur_new key))"

definition side :: "string \<Rightarrow> string \<Rightarrow> nat \<Rightarrow> rest_error \<Rightarrow> failure" where
  "side what input skew e = \<lparr>fa_what = what, fa_input = input, fa_skew = skew, fa_error = e\<rparr>"

definition parse_pair :: "string \<Rightarrow> string \<Rightarrow> (parsed, failure) outcome" where
  "parse_pair key value =
     (let logic_key = last (split_on (CHR ''.'') key) \<in> {''and'', ''or''}
      in obind (map_err (side (if logic_key then ''logic path'' else ''tree path'') key 0) (parse_key key)) (\<lambda>k.
         case k of
           KField field \<Rightarrow>
             obind (map_err (side ''filter'' value 0) (fst (parse_cond_rhs field False (cur_new value)))) (\<lambda>c. Ok (Filter c))
         | KLogic emb p negated \<Rightarrow>
             let skew = length (logic_name p) + (if negated then 4 else 0)
             in obind (map_err (side ''logic tree'' value skew) (fst (parse_tree (cur_new value)))) (\<lambda>kids.
                Ok (Logic emb p negated kids))))"

section \<open>The canonical pair\<close>

definition name_needs_quotes :: "string \<Rightarrow> bool" where
  "name_needs_quotes s \<longleftrightarrow>
     s = [] \<or> (\<exists>b \<in> set s. name_break b \<or> b = CHR 0x5C) \<or> contains ''->'' s \<or> trim_blanks s \<noteq> s \<or> s \<in> {''or'', ''and'', ''not''}"

definition element_needs_quotes :: "string \<Rightarrow> bool" where
  "element_needs_quotes s \<longleftrightarrow>
     s = [] \<or> blank (hd s) \<or>
     (\<exists>b \<in> set s. b \<in> {CHR '','', CHR ''('', CHR '')'', CHR 0x22, CHR ''{'', CHR ''}'', CHR 0x5C})"

definition fmt_name :: "string \<Rightarrow> string" where
  "fmt_name s = (if name_needs_quotes s then write_escaped s else s)"

definition fmt_element :: "string \<Rightarrow> string" where
  "fmt_element s = (if element_needs_quotes s then write_escaped s else s)"

definition fmt_embed :: "string list \<Rightarrow> string" where
  "fmt_embed es = concat (map (\<lambda>e. fmt_name e @ ''.'') es)"

definition fmt_field :: "field \<Rightarrow> string" where
  "fmt_field f = fmt_embed (fi_embed f) @ fmt_name (fi_column f) @ fmt_path (fi_path f)"

definition fmt_value :: "bool \<Rightarrow> filter_value \<Rightarrow> string" where
  "fmt_value top_level v =
     (case v of
        VLit s \<Rightarrow> if top_level then s else fmt_element s
      | VList items \<Rightarrow> ''('' @ join '','' (map fmt_element items) @ '')''
      | VArray items \<Rightarrow> ''{'' @ join '','' (map fmt_element items) @ ''}'')"

definition fmt_rhs :: "bool \<Rightarrow> cond \<Rightarrow> string" where
  "fmt_rhs top_level c =
     (if co_negated c then ''not.'' else []) @ op_name (co_op c) @
     (case co_config c of None \<Rightarrow> [] | Some cfg \<Rightarrow> ''('' @ cfg @ '')'') @
     (case co_quant c of None \<Rightarrow> [] | Some Q_Any \<Rightarrow> ''(any)'' | Some Q_All \<Rightarrow> ''(all)'') @
     ''.'' @ fmt_value top_level (co_value c)"

fun fmt_node :: "node \<Rightarrow> string" where
  "fmt_node (Group p negated kids) =
     (if negated then ''not.'' else []) @ logic_name p @ ''('' @ join '','' (map fmt_node kids) @ '')''"
| "fmt_node (Cond c) = fmt_field (co_field c) @ ''.'' @ fmt_rhs False c"

definition render :: "parsed \<Rightarrow> string \<times> string" where
  "render p =
     (case p of
        Filter c \<Rightarrow> (fmt_field (co_field c), fmt_rhs True c)
      | Logic emb p negated kids \<Rightarrow>
          (fmt_embed emb @ (if negated then ''not.'' else []) @ logic_name p,
           ''('' @ join '','' (map fmt_node kids) @ '')''))"

end
