(* ===== verification/Rest_Filter_Safety.thy ===== *)
theory Rest_Filter_Safety
  imports Rest_Filter
begin

text \<open>
  The filter parser never panics on UTF-8 input. An error may point back to a position the parser has passed, so the
  safety of a condition is stated under marks, positions that begin a character. The tree parser is
  safe whenever its fuel covers the bytes that are left, which every level lowers.
\<close>

section \<open>Positions passed\<close>

definition marks :: "nat list \<Rightarrow> cur \<Rightarrow> bool" where
  "marks ps c \<longleftrightarrow> (\<forall>p \<in> set ps. p \<le> length (c_s c) \<and> is_boundary (c_s c) p)"

definition safe_with :: "nat list \<Rightarrow> ('a, 'e, cur) sop \<Rightarrow> bool" where
  "safe_with ps m \<longleftrightarrow>
     (\<forall>c. cur_ok c \<longrightarrow> marks ps c \<longrightarrow> fst (m c) \<noteq> Panic \<and> cur_ok (snd (m c)) \<and> c_s (snd (m c)) = c_s c)"

named_theorems safe_with

lemma safe_withI:
  "(\<And>c. cur_ok c \<Longrightarrow> marks ps c \<Longrightarrow> fst (m c) \<noteq> Panic \<and> cur_ok (snd (m c)) \<and> c_s (snd (m c)) = c_s c) \<Longrightarrow> safe_with ps m"
  by (simp add: safe_with_def)

lemma safe_with_lift: "safe m \<Longrightarrow> moves m \<Longrightarrow> safe_with ps m"
  by (simp add: safe_with_def safe_def moves_def)

lemma safe_of_with: "safe_with [] m \<Longrightarrow> safe m"
  by (simp add: safe_with_def safe_def marks_def)

lemma marks_same: "c_s c = c_s d \<Longrightarrow> marks ps c = marks ps d"
  by (simp add: marks_def)

lemma safe_with_sbind [safe_with]: "safe_with ps m \<Longrightarrow> (\<And>x. safe_with ps (f x)) \<Longrightarrow> safe_with ps (sbind m f)"
  unfolding safe_with_def sbind_def
  by (auto split: outcome.splits prod.splits) (metis fst_conv marks_same snd_conv)+

lemma safe_with_pos:
  assumes "\<And>p. safe_with (p # ps) (f p)"
  shows "safe_with ps (\<lambda>c. f (c_pos c) c)"
proof (rule safe_withI)
  fix c assume "cur_ok c" "marks ps c"
  then have "marks (c_pos c # ps) c" by (simp add: marks_def cur_ok_def)
  with assms [of "c_pos c"] \<open>cur_ok c\<close>
  show "fst (f (c_pos c) c) \<noteq> Panic \<and> cur_ok (snd (f (c_pos c) c)) \<and> c_s (snd (f (c_pos c) c)) = c_s c"
    by (simp add: safe_with_def)
qed

lemma safe_with_if [safe_with]: "(b \<Longrightarrow> safe_with ps m) \<Longrightarrow> (\<not> b \<Longrightarrow> safe_with ps n) \<Longrightarrow> safe_with ps (if b then m else n)"
  by simp

lemma safe_with_case_prod [safe_with]: "(\<And>a b. safe_with ps (f a b)) \<Longrightarrow> safe_with ps (case_prod f x)"
  by (cases x) simp

lemma safe_with_sret [safe_with]: "x \<noteq> Panic \<Longrightarrow> safe_with ps (sret x)"
  by (simp add: safe_with_def sret_def)

lemma safe_with_basic [safe_with]:
  "ascii b \<Longrightarrow> safe_with ps (eat b)" "list_all ascii w \<Longrightarrow> safe_with ps (eat_str w)" "safe_with ps skip_spaces"
  "safe_with ps (scan_name name_break)"
  by (simp_all add: safe_with_lift safe moves name_break_ascii)

text \<open>The cursor set back to a mark.\<close>

lemma cur_ok_mark: "cur_ok c \<Longrightarrow> marks ps c \<Longrightarrow> p \<in> set ps \<Longrightarrow> cur_ok (c\<lparr>c_pos := p\<rparr>)"
  by (simp add: cur_ok_def marks_def)

lemma mark_from:
  assumes "cur_ok c" "marks ps c" "p \<in> set ps"
  shows "str_from (c_s c) (min p (length (c_s c))) = Ok (drop p (c_s c))"
  using boundary_from [OF cur_ok_mark [OF assms]] assms by (simp add: rest_of_def marks_def min_absorb1)

lemma mark_past:
  assumes "cur_ok c" "marks ps c" "p \<in> set ps" "list_all ascii (take n (drop p (c_s c)))" "n \<le> length (drop p (c_s c))"
  shows "fst (err_at (p + n) ws c) \<noteq> Panic \<and> snd (err_at (p + n) ws c) = c"
  using plain_boundary [OF cur_ok_mark [OF assms(1,2,3)], of n] assms(4,5)
  by (intro err_at_safe [OF assms(1)]) (simp add: rest_of_def)

lemma mark_word:
  assumes "cur_ok c" "marks ps c" "p \<in> set ps" "list_all (list_all ascii) us"
  shows "fst (err_word p us ws c) \<noteq> Panic \<and> snd (err_word p us ws c) = c"
  using err_word_safe [OF cur_ok_mark [OF assms(1,2,3)] assms(4), of ws] by (simp add: err_word_def found_at_def)

lemma safe_with_err_at [safe_with]: "p \<in> set ps \<Longrightarrow> safe_with ps (err_at p ws)"
  by (rule safe_withI) (simp add: err_at_safe marks_def min_absorb1)

lemma to_lower_ascii: "ascii (if 65 \<le> code b \<and> code b \<le> 90 then char_of (code b + 32) else b) \<longleftrightarrow> ascii b"
  by (auto simp: ascii_def code_def)

lemma lower_ascii: "list_all ascii (take n (to_ascii_lowercase t)) \<longleftrightarrow> list_all ascii (take n t)"
  by (simp add: to_ascii_lowercase_def take_map list.pred_map comp_def to_lower_ascii)

lemma safe_with_err_ci [safe_with]:
  assumes "p \<in> set ps" "list_all (list_all ascii) us"
  shows "safe_with ps (err_ci_word p us ws)"
proof (rule safe_withI)
  fix c assume c: "cur_ok c" "marks ps c"
  let ?t = "drop p (c_s c)"
  let ?n = "reach (to_ascii_lowercase ?t) us"
  have n: "list_all ascii (take ?n ?t)" "?n \<le> length ?t"
    using reach_ascii [OF assms(2), of "to_ascii_lowercase ?t"] by (simp_all add: lower_ascii) (simp add: to_ascii_lowercase_def)
  show "fst (err_ci_word p us ws c) \<noteq> Panic \<and> cur_ok (snd (err_ci_word p us ws c)) \<and> c_s (snd (err_ci_word p us ws c)) = c_s c"
    using c(1) by (simp add: err_ci_word_def mark_from [OF c assms(1)] mark_past [OF c assms(1) n])
qed

section \<open>Conditions\<close>

lemma operators_ascii: "list_all (list_all ascii) OPERATORS"
  by (simp add: OPERATORS_def ascii_def code_def)

lemma starts_prefix: "starts_with w t \<Longrightarrow> list_all ascii w \<Longrightarrow> list_all ascii (take (length w) t) \<and> length w \<le> length t"
  by (auto simp: starts_with_iff)

lemma foldr_max_in: "foldr max ps (p :: nat) \<in> set (p # ps)"
  by (induction ps) (auto simp: max_def)

lemma safe_with_op_failure [safe_with]:
  assumes "at \<in> set ps"
  shows "safe_with ps (op_failure negated at)"
proof (rule safe_withI)
  fix c assume c: "cur_ok c" "marks ps c"
  let ?rest = "drop at (c_s c)"
  let ?ends = "map (\<lambda>w. at + length w) (filter (\<lambda>w. starts_with w ?rest) OPERATORS)"
  have past: "fst (err_at p ws c) \<noteq> Panic \<and> snd (err_at p ws c) = c" if p: "p \<in> set ?ends" for p ws
  proof -
    obtain w where "w \<in> set OPERATORS" "starts_with w ?rest" "p = at + length w" using p by auto
    then show ?thesis
      using mark_past [OF c assms, of "length w"] starts_prefix [of w ?rest] operators_ascii by (simp add: list_all_iff)
  qed
  have notw: "fst (err_at (at + 3) ws c) \<noteq> Panic \<and> snd (err_at (at + 3) ws c) = c" if "starts_with ''not'' ?rest" for ws
    using mark_past [OF c assms, of 3 ws] starts_prefix [OF that] by (simp add: ascii_def code_def numeral_3_eq_3)
  have word: "fst (err_word at [w] ws c) \<noteq> Panic \<and> snd (err_word at [w] ws c) = c" if "list_all ascii w" for w ws
    by (rule mark_word [OF c assms]) (simp add: that)
  have words: "list_all ascii ''in''" "list_all ascii ''not''" by (simp_all add: ascii_def code_def)
  show "fst (op_failure negated at c) \<noteq> Panic \<and> cur_ok (snd (op_failure negated at c)) \<and> c_s (snd (op_failure negated at c)) = c_s c"
  proof (cases ?ends)
    case Nil
    show ?thesis unfolding op_failure_def mark_from [OF c assms] outcome.case Nil list.case using c(1) by (auto simp: notw word [OF words(1)] word [OF words(2)])
  next
    case (Cons p qs)
    then have "foldr max qs p \<in> set ?ends" using foldr_max_in [of qs p] by (simp only:)
    note deep = past [OF this]
    show ?thesis unfolding op_failure_def mark_from [OF c assms] outcome.case Cons list.case Let_def using c(1) by (simp add: notw deep)
  qed
qed

lemma safe_with_err_slot [safe_with]: "safe_with ps (err_slot negated at)"
  unfolding err_slot_def by (rule safe_with_pos) (simp add: safe_with_err_at)

lemma safe_with_parse_op [safe_with]: "at \<in> set ps \<Longrightarrow> safe_with ps (parse_op negated at)"
  unfolding parse_op_def by (intro safe_with) (auto split: option.splits intro!: safe_with)

lemma safe_with_parse_modifier [safe_with]: "safe_with ps (parse_modifier negated at p)"
proof (rule safe_withI)
  fix c assume c: "cur_ok c" "marks ps c"
  let ?m = "\<lambda>modifier. sbind (scan_name name_break) (\<lambda>m.
           sbind (if is_fts p \<and> m \<noteq> [] then sret (Ok (None, Some m))
                  else if m = ''any'' \<and> quantifiable p then sret (Ok (Some Q_Any, None))
                  else if m = ''all'' \<and> quantifiable p then sret (Ok (Some Q_All, None))
                  else err_at modifier (slot negated at modifier)) (\<lambda>qc.
           sbind (eat (CHR '')'')) (\<lambda>ok. if ok then sret (Ok qc) else err_slot negated at)))"
  have m: "safe_with (q # ps) (?m q)" for q by (intro safe_with) (simp_all add: ascii_def code_def)
  show "fst (parse_modifier negated at p c) \<noteq> Panic \<and> cur_ok (snd (parse_modifier negated at p c)) \<and> c_s (snd (parse_modifier negated at p c)) = c_s c"
  proof (cases "peek c = Some (CHR ''('') \<and> (is_fts p \<or> quantifiable p)")
    case True
    have b: "cur_ok (bump c)" using cur_ok_bump [OF c(1)] True by (simp add: ascii_def code_def)
    then have "marks (c_pos (bump c) # ps) (bump c)" using c(2) by (simp add: marks_def cur_ok_def bump_def)
    with b m have "fst (?m (c_pos (bump c)) (bump c)) \<noteq> Panic \<and> cur_ok (snd (?m (c_pos (bump c)) (bump c))) \<and>
        c_s (snd (?m (c_pos (bump c)) (bump c))) = c_s (bump c)"
      unfolding safe_with_def by blast
    moreover have "c_s (bump c) = c_s c" by (simp add: bump_def)
    ultimately show ?thesis using True by (simp add: parse_modifier_def Let_def)
  qed (use c in \<open>auto simp: parse_modifier_def\<close>)
qed

lemma safe_with_parse_dot [safe_with]: "safe_with ps (parse_dot negated at)"
  unfolding parse_dot_def by (intro safe_with) (simp_all add: ascii_def code_def)

section \<open>Values\<close>

lemma span_ok:
  assumes "cur_ok c" "\<And>b. b \<in> terms \<Longrightarrow> ascii b"
  shows "scan_bare terms c = (Ok (takeWhile (\<lambda>b. b \<notin> terms) (rest_of c)), adv (length (takeWhile (\<lambda>b. b \<notin> terms) (rest_of c))) c)"
    "cur_ok (adv (length (takeWhile (\<lambda>b. b \<notin> terms) (rest_of c))) c)" "utf8 (takeWhile (\<lambda>b. b \<notin> terms) (rest_of c))"
proof -
  have "is_boundary (rest_of c) (length (takeWhile (\<lambda>b. b \<notin> terms) (rest_of c)))"
    using cur_ok_rest [OF assms(1)] by (rule boundary_stop) (use assms(2) in auto)
  note sl = take_slice_span [OF assms(1) length_takeWhile_le this]
  have t: "take (length (takeWhile (\<lambda>b. b \<notin> terms) (rest_of c))) (rest_of c) = takeWhile (\<lambda>b. b \<notin> terms) (rest_of c)"
    by (metis takeWhile_eq_take)
  show "scan_bare terms c = (Ok (takeWhile (\<lambda>b. b \<notin> terms) (rest_of c)), adv (length (takeWhile (\<lambda>b. b \<notin> terms) (rest_of c))) c)"
    "cur_ok (adv (length (takeWhile (\<lambda>b. b \<notin> terms) (rest_of c))) c)" "utf8 (takeWhile (\<lambda>b. b \<notin> terms) (rest_of c))"
    using sl by (simp_all add: scan_bare_def t)
qed

lemma safe_scan_element [safe]:
  assumes "\<And>b. b \<in> terms \<Longrightarrow> ascii b"
  shows "safe (scan_element terms)"
proof (rule safe_at)
  fix c assume c: "cur_ok c"
  obtain r c' where q: "scan_quoted c = (r, c')" by fastforce
  show "fst (scan_element terms c) \<noteq> Panic \<and> cur_ok (snd (scan_element terms c))"
    using safeD [OF safe_scan_quoted c q] span_ok [OF c assms] by (auto simp: scan_element_def q split: outcome.splits)
qed

lemma safe_parse_elements [safe]:
  assumes "ascii close"
  shows "safe (parse_elements close out)"
proof (rule safe_at)
  fix c assume "cur_ok c"
  with assms show "fst (parse_elements close out c) \<noteq> Panic \<and> cur_ok (snd (parse_elements close out c))"
  proof (induction close out c rule: parse_elements.induct)
    case (1 close out c)
    obtain r c1 where e: "scan_element {CHR '','', close} c = (r, c1)" by fastforce
    have "safe (scan_element {CHR '','', close})" using "1.prems"(1) by (intro safe) (auto simp: ascii_def code_def)
    note s = safeD [OF this "1.prems"(2) e]
    have last: "safe (sbind (expect_as close ws) (\<lambda>_. sret (Ok y)))" for ws and y :: "string list"
      using "1.prems"(1) by (intro safe) simp_all
    show ?case
    proof (cases "\<exists>t. r = Ok t \<and> peek c1 = Some (CHR '','')")
      case True
      then obtain t where t: "r = Ok t" "peek c1 = Some (CHR '','')" by blast
      have "cur_ok (bump c1)" using cur_ok_bump [OF conjunct2 [OF s] t(2)] by (simp add: ascii_def code_def)
      then have "fst (parse_elements close (out @ [t]) (bump c1)) \<noteq> Panic \<and> cur_ok (snd (parse_elements close (out @ [t]) (bump c1)))"
        using t e "1.prems"(1) by (intro "1.IH") auto
      then show ?thesis using t e by (subst (1 2) parse_elements.simps) simp
    next
      case False
      then show ?thesis using e s last by (subst (1 2) parse_elements.simps) (auto simp: safe_def split: outcome.splits)
    qed
  qed
qed

lemma moves_parse_elements [moves]: "moves (parse_elements close out)"
  unfolding moves_def
proof
  fix c show "c_s (snd (parse_elements close out c)) = c_s c \<and> c_pos c \<le> c_pos (snd (parse_elements close out c))"
  proof (induction close out c rule: parse_elements.induct)
    case (1 close out c)
    obtain r c1 where e: "scan_element {CHR '','', close} c = (r, c1)" by fastforce
    note m = movesD [OF moves_scan_element e]
    have last: "moves (sbind (expect_as close ws) (\<lambda>_. sret (Ok y)))" for ws and y :: "string list" by (intro moves)
    show ?case
    proof (cases "\<exists>t. r = Ok t \<and> peek c1 = Some (CHR '','')")
      case True
      then obtain t where t: "r = Ok t" "peek c1 = Some (CHR '','')" by blast
      have "c_s (snd (parse_elements close (out @ [t]) (bump c1))) = c_s (bump c1) \<and> c_pos (bump c1) \<le> c_pos (snd (parse_elements close (out @ [t]) (bump c1)))"
        using t e by (intro "1.IH") auto
      then show ?thesis using t e m by (subst (1 2) parse_elements.simps) (auto simp: bump_def)
    next
      case False
      then show ?thesis using e m last by (subst (1 2) parse_elements.simps) (auto simp: moves_def split: outcome.splits intro: order_trans)
    qed
  qed
qed

lemma scan_array_ok:
  assumes "cur_ok c"
  shows "scan_array c = (Ok None, c) \<or>
    (\<exists>t r. utf8 t \<and> rest_of c = (''{'' @ t @ ''}'') @ r \<and> scan_array c = (Ok (Some (''{'' @ t @ ''}'')), adv (length (''{'' @ t @ ''}'')) c))"
proof (cases "peek c = Some (CHR ''{'') \<and> peek (adv (length (takeWhile (\<lambda>b. b \<notin> {CHR ''{'', CHR ''}''}) (tl (rest_of c))) + 1) c) = Some (CHR ''}'')")
  case True
  then obtain s where s: "rest_of c = CHR ''{'' # s" by (auto simp: peek_rest split: list.splits)
  let ?t = "takeWhile (\<lambda>b. b \<notin> {CHR ''{'', CHR ''}''}) s"
  from True s obtain r where "drop (length ?t) s = CHR ''}'' # r" by (auto simp: peek_rest split: list.splits)
  then have rest: "rest_of c = (''{'' @ ?t @ ''}'') @ r" using s by (metis append_Cons append_Nil append_assoc append_take_drop_id takeWhile_eq_take)
  have "utf8 (CHR ''{'' # ?t @ CHR ''}'' # r)" using cur_ok_rest [OF assms] by (simp add: rest)
  moreover have a: "ascii (CHR ''{'')" "ascii (CHR ''}'')" by (simp_all add: ascii_def code_def)
  ultimately have t: "utf8 ?t" using utf8_cut(2) [of "[]" "CHR ''{''" "?t @ CHR ''}'' # r"] utf8_cut(1) [of ?t "CHR ''}''" r] by simp
  then have u: "utf8 (''{'' @ ?t @ ''}'')" using a utf8_append [of "''{''"] utf8_append [of ?t "''}''"] by (simp add: utf8_ascii)
  from cur_ok_past(3) [OF assms rest u]
  have "take_slice (length ?t + 2) c = (Ok (''{'' @ ?t @ ''}'') :: (string, rest_error) outcome, adv (length (''{'' @ ?t @ ''}'')) c)" by simp
  then have "scan_array c = (Ok (Some (''{'' @ ?t @ ''}'')), adv (length (''{'' @ ?t @ ''}'')) c)"
    using True s by (simp add: scan_array_def Let_def sbind_def sret_def)
  then show ?thesis using t rest by blast
qed (auto simp: scan_array_def Let_def)

lemma safe_scan_array [safe]: "safe scan_array"
proof (rule safe_at)
  fix c assume c: "cur_ok c"
  have a: "utf8 ''{''" "utf8 ''}''" by (simp_all add: utf8_ascii ascii_def code_def)
  from scan_array_ok [OF c] show "fst (scan_array c) \<noteq> Panic \<and> cur_ok (snd (scan_array c))"
  proof (elim disjE exE conjE)
    fix t r assume "utf8 t" "rest_of c = (''{'' @ t @ ''}'') @ r" "scan_array c = (Ok (Some (''{'' @ t @ ''}'')), adv (length (''{'' @ t @ ''}'')) c)"
    then show ?thesis using cur_ok_past(1) [OF c, of "''{'' @ t @ ''}''"] a utf8_append [of "''{''"] utf8_append [of t] by auto
  qed (use c in simp)
qed

lemma moves_scan_array [moves]: "moves scan_array"
  unfolding moves_def scan_array_def Let_def by (auto simp: sbind_def take_slice_def sret_def split: outcome.splits)

lemma take_rest_ok: "cur_ok c \<Longrightarrow> take_rest c = (Ok (rest_of c), c\<lparr>c_pos := length (c_s c)\<rparr>)"
  by (simp add: take_rest_def boundary_from)

lemma safe_take_rest [safe]: "safe take_rest"
  by (rule safe_at) (simp add: take_rest_ok cur_ok_def)

lemma safe_parse_value [safe]: "safe (parse_value p quant in_tree)"
  unfolding parse_value_def
  by (intro safe) (auto simp: ascii_def code_def split: option.splits intro!: safe)

lemma parse_value_same: "cur_ok c \<Longrightarrow> c_s (snd (parse_value p quant in_tree c)) = c_s c"
proof (cases "p \<noteq> Op_In \<and> quant = None \<and> \<not> in_tree")
  case True
  assume "cur_ok c"
  then show ?thesis using True by (simp add: parse_value_def sbind_def take_rest_ok sret_def)
next
  case False
  have "moves (parse_value p quant in_tree)"
    using False unfolding parse_value_def by (auto split: option.splits intro!: moves)
  then show ?thesis by (simp add: moves_def)
qed

lemma safe_with_parse_value [safe_with]: "safe_with ps (parse_value p quant in_tree)"
  using safe_parse_value [of p quant in_tree] by (auto intro!: safe_withI simp: parse_value_same safe_def)

lemma is_values_ascii: "list_all (list_all ascii) IS_VALUES"
  by (simp add: IS_VALUES_def ascii_def code_def)

lemma parse_value_lit: "parse_value Op_Is None in_tree c = (Ok v, c') \<Longrightarrow> \<exists>s. v = VLit s"
  by (auto simp: parse_value_def sbind_Ok sret_def split: if_splits option.splits)

text \<open>An \<open>is\<close> never meets a list: no quantifier is offered for it.\<close>

lemma safe_with_parse_literal:
  assumes "p = Op_Is \<Longrightarrow> quant = None"
  shows "safe_with ps (parse_literal p quant in_tree)"
  unfolding parse_literal_def
proof (rule safe_with_pos, rule safe_withI)
  fix q c assume c: "cur_ok c" "marks (q # ps) c"
  obtain r c1 where v: "parse_value p quant in_tree c = (r, c1)" by fastforce
  have r: "r \<noteq> Panic" "cur_ok c1" "c_s c1 = c_s c"
    using safe_with_parse_value [of "q # ps" p quant in_tree] c by (auto simp: safe_with_def v dest!: spec [of _ c])
  show "fst (sbind (parse_value p quant in_tree) (check_is p q) c) \<noteq> Panic \<and>
      cur_ok (snd (sbind (parse_value p quant in_tree) (check_is p q) c)) \<and> c_s (snd (sbind (parse_value p quant in_tree) (check_is p q) c)) = c_s c"
  proof (cases r)
    case (Ok x)
    have "safe_with (q # ps) (check_is p q x)"
      using assms parse_value_lit [of in_tree c x c1] v Ok unfolding check_is_def
      by (auto split: filter_value.splits intro!: safe_with is_values_ascii)
    then show ?thesis using r c Ok by (simp add: sbind_def v safe_with_def marks_def)
  qed (use r in \<open>simp_all add: sbind_def v\<close>)
qed

lemma parse_modifier_result:
  "parse_modifier negated at p c = (Ok (quant, config), c') \<Longrightarrow>
     (quant \<noteq> None \<longrightarrow> quantifiable p) \<and> (\<forall>cfg. config = Some cfg \<longrightarrow> is_fts p \<and> cfg \<noteq> []) \<and> (quant = None \<or> config = None)"
  by (auto simp: parse_modifier_def Let_def sbind_Ok sret_def err_slot_def err_at_fails split: if_splits)

lemma safe_with_rhs [safe_with]:
  assumes "at \<in> set ps"
  shows "safe_with ps (parse_rhs_from field in_tree negated at)"
  unfolding parse_rhs_from_def
proof (rule safe_with_sbind [OF safe_with_parse_op [OF assms]], rule safe_withI)
  fix p c assume c: "cur_ok c" "marks ps c"
  let ?k = "\<lambda>(quant, config). sbind (parse_dot negated at) (\<lambda>_. sbind (parse_literal p quant in_tree) (\<lambda>v.
     sret (Ok \<lparr>co_field = field, co_negated = negated, co_op = p, co_quant = quant, co_config = config, co_value = v\<rparr>)))"
  obtain r c1 where m: "parse_modifier negated at p c = (r, c1)" by fastforce
  have r: "r \<noteq> Panic" "cur_ok c1" "c_s c1 = c_s c"
    using safe_with_parse_modifier [of ps negated at p] c by (auto simp: safe_with_def m dest!: spec [of _ c])
  show "fst (sbind (parse_modifier negated at p) ?k c) \<noteq> Panic \<and> cur_ok (snd (sbind (parse_modifier negated at p) ?k c)) \<and>
      c_s (snd (sbind (parse_modifier negated at p) ?k c)) = c_s c"
  proof (cases r)
    case (Ok x)
    obtain quant config where x: "x = (quant, config)" by fastforce
    have "p = Op_Is \<Longrightarrow> quant = None"
      using parse_modifier_result [of negated at p c quant config c1] m Ok x by (auto simp: quantifiable_def)
    then have "safe_with ps (?k x)" unfolding x prod.case by (intro safe_with safe_with_parse_literal) simp_all
    then show ?thesis using r c Ok by (simp add: sbind_def m safe_with_def marks_def)
  qed (use r in \<open>simp_all add: sbind_def m\<close>)
qed

lemma safe_cond_rhs [safe]: "safe (parse_cond_rhs field in_tree)"
proof -
  have "safe_with [] (\<lambda>c. parse_rhs_from field in_tree negated (c_pos c) c)" for negated
    by (rule safe_with_pos) (simp add: safe_with_rhs)
  then have "safe_with [] (parse_cond_rhs field in_tree)"
    unfolding parse_cond_rhs_def by (intro safe_with) (simp_all add: ascii_def code_def)
  then show ?thesis by (rule safe_of_with)
qed

section \<open>Trees\<close>

lemma safe_parse_segment [safe]: "safe parse_segment"
proof -
  have "safe (sbind (if quoted then scan_quoted else sbind (scan_name name_break) (\<lambda>n. sret (Ok (trim_blanks n)))) (\<lambda>name.
         if name = [] then err [FIELD_NAME]
         else sbind (parse_json_path []) (\<lambda>path. sret (Ok \<lparr>sg_name = name, sg_path = path, sg_quoted = quoted\<rparr>))))" for quoted
    by (intro safe name_break_ascii) simp_all
  then show ?thesis by (simp add: safe_def parse_segment_def Let_def)
qed

lemma safe_parse_condition [safe]: "safe parse_condition"
  unfolding parse_condition_def by (intro safe) (simp_all add: ascii_def code_def)

lemma adv_word:
  assumes "cur_ok c" "starts_with w (rest_of c)" "list_all ascii w"
  shows "cur_ok (adv (length w) c)"
  using assms cur_ok_past(1) [OF assms(1) _ utf8_ascii [OF assms(3)]] by (auto simp: starts_with_iff)

lemma safe_item_failure: "cur_ok c \<Longrightarrow> fst (item_failure failed c) \<noteq> Panic \<and> cur_ok (snd (item_failure failed c))"
proof -
  assume c: "cur_ok c"
  let ?k = "\<lambda>negated d. case str_from (c_s d) (c_pos d) of
         Ok rest \<Rightarrow>
           if starts_with ''and'' rest then sbind skip_spaces (\<lambda>_. err [word_lit ''('']) (adv 3 d)
           else if starts_with ''or'' rest then sbind skip_spaces (\<lambda>_. err [word_lit ''('']) (adv 2 d)
           else if negated then err [''logic operator (and, or)''] d
           else if starts_with ''o'' rest \<and> length rest > 1 then err_word (c_pos d) [''or''] [word_lit ''or''] d
           else (Err (label (c_pos c) [FIELD_NAME, ''negation operator (not)'', ''logic operator (and, or)''] failed), d)
       | Err e \<Rightarrow> (Err e, d)
       | Panic \<Rightarrow> (Panic, d :: cur)"
  have "safe (?k negated :: (node, rest_error, cur) sop)" for negated
  proof (rule safe_at)
    fix d assume d: "cur_ok d"
    have e: "safe (sbind skip_spaces (\<lambda>_. err ws) :: (node, rest_error, cur) sop)" for ws by (intro safe)
    have l: "fst (err ws d :: (node, rest_error) outcome \<times> cur) \<noteq> Panic \<and> cur_ok (snd (err ws d :: (node, rest_error) outcome \<times> cur))" for ws
      using safe_err [of ws] d unfolding safe_def by blast
    show "fst (?k negated d :: (node, rest_error) outcome \<times> cur) \<noteq> Panic \<and> cur_ok (snd (?k negated d :: (node, rest_error) outcome \<times> cur))"
      using adv_word [OF d, of "''and''"] adv_word [OF d, of "''or''"] e l d
      by (auto simp: boundary_from [OF d] safe_def err_word_safe [OF d] ascii_def code_def numeral_2_eq_2 numeral_3_eq_3)
  qed
  then have "safe (sbind (eat_str ''not.'') ?k :: (node, rest_error, cur) sop)" by (intro safe) (simp_all add: ascii_def code_def)
  then show ?thesis using c unfolding item_failure_def safe_def by blast
qed

lemma safe_item_condition [safe]: "safe item_condition"
proof (rule safe_at)
  fix c assume c: "cur_ok c"
  obtain r c1 where e: "parse_condition c = (r, c1)" by fastforce
  from safeD [OF safe_parse_condition c e] safe_item_failure [OF c]
  show "fst (item_condition c) \<noteq> Panic \<and> cur_ok (snd (item_condition c))" by (auto simp: item_condition_def e split: outcome.splits)
qed

text \<open>Where a group begins, its word and what stands in front of the bracket have been taken.\<close>

lemma group_head_cases:
  assumes "cur_ok c"
  obtains "group_head c = (Ok None, c)"
  | p negated n where "group_head c = (Ok (Some (p, negated)), adv n c)" "cur_ok (adv n c)" "0 < n" "n \<le> length (rest_of c)"
proof -
  let ?m = "sbind (eat_str ''not.'') (\<lambda>negated. sbind (scan_name name_break) (\<lambda>name. sret (Ok (negated, trim_blanks name))))
    :: (bool \<times> string, rest_error, cur) sop"
  have s: "safe ?m" by (intro safe name_break_ascii) (simp_all add: ascii_def code_def)
  have mv: "moves ?m" by (intro moves)
  obtain r c1 where m: "?m c = (r, c1)" by fastforce
  have "r \<noteq> Err e" for e
    using m by (auto simp: sbind_def eat_str_def sret_def scan_name_def take_slice_def str_slice_def split: outcome.splits prod.splits if_splits)
  then have "\<exists>x. r = Ok x" using safeD [OF s assms m] by (cases r) auto
  then obtain negated name where r: "r = Ok (negated, name)" by force
  have c1: "cur_ok c1" using safeD [OF s assms m] by simp
  obtain c2 where sp: "skip_spaces c1 = (Ok () :: (unit, rest_error) outcome, c2)" by (simp add: skip_spaces_def)
  have c2: "cur_ok c2" using safeD [OF safe_skip_spaces c1 sp] by simp
  show thesis
  proof (cases "(name = ''and'' \<or> name = ''or'') \<and> peek c2 = Some (CHR ''('')")
    case True
    have "name \<noteq> []" using True by auto
    have grow: "c_s c1 = c_s c" "c_pos c < c_pos c1"
    proof -
      show "c_s c1 = c_s c" using movesD [OF mv m] by simp
      obtain neg d n where e: "eat_str ''not.'' c = (Ok neg :: (bool, rest_error) outcome, d)" "scan_name name_break d = (Ok n :: (string, rest_error) outcome, c1)" "name = trim_blanks n"
        using m r by (auto simp: sbind_Ok sret_def)
      have "n \<noteq> []" using e(3) \<open>name \<noteq> []\<close> by (auto simp: trim_blanks_def)
      then have "c_pos d < c_pos c1" using e(2) by (auto simp: scan_name_def take_slice_def str_slice_def split: if_splits)
      moreover have "c_pos c \<le> c_pos d" using movesD [OF moves_basic(3) e(1)] by simp
      ultimately show "c_pos c < c_pos c1" by simp
    qed
    have g2: "c_s c2 = c_s c" "c_pos c1 \<le> c_pos c2" using movesD [OF moves_basic(4) sp] grow by simp_all
    have e: "adv (c_pos c2 - c_pos c) c = c2" using g2 grow by (cases c; cases c2) (simp add: adv_def)
    have h: "group_head c = (Ok (Some (if name = ''and'' then L_And else L_Or, negated)), adv (c_pos c2 - c_pos c) c)"
      using True m r sp unfolding e by (auto simp: group_head_def)
    have "cur_ok (adv (c_pos c2 - c_pos c) c)" using c2 unfolding e .
    moreover have "0 < c_pos c2 - c_pos c" "c_pos c2 - c_pos c \<le> length (rest_of c)"
      using c2 grow(2) g2 by (auto simp: length_rest_of cur_ok_def intro: diff_le_mono)
    ultimately show thesis by (rule that(2) [OF h])
  next
    case False
    then have "group_head c = (Ok None, c)" using m r sp by (auto simp: group_head_def)
    then show thesis by (rule that(1))
  qed
qed

section \<open>Fuel\<close>

text \<open>Calls that are safe while at most \<open>k\<close> bytes are left, and calls that take bytes when they succeed.\<close>

definition safe_le :: "nat \<Rightarrow> ('a, 'e, cur) sop \<Rightarrow> bool" where
  "safe_le k m \<longleftrightarrow> (\<forall>c. cur_ok c \<longrightarrow> length (rest_of c) \<le> k \<longrightarrow>
     fst (m c) \<noteq> Panic \<and> cur_ok (snd (m c)) \<and> length (rest_of (snd (m c))) \<le> length (rest_of c))"

definition takes :: "('a \<Rightarrow> nat) \<Rightarrow> ('a, 'e, cur) sop \<Rightarrow> bool" where
  "takes d m \<longleftrightarrow> (\<forall>c x c'. cur_ok c \<longrightarrow> m c = (Ok x, c') \<longrightarrow> length (rest_of c') + d x \<le> length (rest_of c))"

lemma moves_shrinks: "moves m \<Longrightarrow> length (rest_of (snd (m c))) \<le> length (rest_of c)"
  by (simp add: moves_def length_rest_of diff_le_mono2)

lemma safe_le_lift: "safe m \<Longrightarrow> moves m \<Longrightarrow> safe_le k m"
  by (simp add: safe_le_def safe_def moves_shrinks)

lemma takes_none: "moves m \<Longrightarrow> takes (\<lambda>_. 0) m"
  unfolding takes_def by (metis add.right_neutral moves_shrinks snd_conv)

lemma safe_le_sbind:
  assumes "safe_le k m" "takes d m" "\<And>x. d x \<le> k \<Longrightarrow> safe_le (k - d x) (f x)"
  shows "safe_le k (sbind m f)"
  unfolding safe_le_def
proof (intro allI impI)
  fix c assume c: "cur_ok c" "length (rest_of c) \<le> k"
  obtain r c1 where m: "m c = (r, c1)" by fastforce
  have s: "r \<noteq> Panic" "cur_ok c1" "length (rest_of c1) \<le> length (rest_of c)" using assms(1) c m by (auto simp: safe_le_def dest!: spec [of _ c])
  show "fst (sbind m f c) \<noteq> Panic \<and> cur_ok (snd (sbind m f c)) \<and> length (rest_of (snd (sbind m f c))) \<le> length (rest_of c)"
  proof (cases r)
    case (Ok x)
    then have t: "length (rest_of c1) + d x \<le> length (rest_of c)" using assms(2) c m by (auto simp: takes_def)
    then have "length (rest_of c1) \<le> k - d x" "d x \<le> k" using c by auto
    with assms(3) [of x] s(2) have "fst (f x c1) \<noteq> Panic \<and> cur_ok (snd (f x c1)) \<and> length (rest_of (snd (f x c1))) \<le> length (rest_of c1)"
      by (auto simp: safe_le_def)
    then show ?thesis using s(3) m Ok by (auto simp: sbind_def)
  qed (use s m in \<open>auto simp: sbind_def\<close>)
qed

lemma safe_le_then: "safe_le k m \<Longrightarrow> (\<And>x. safe_le k (f x)) \<Longrightarrow> safe_le k (sbind m f)"
  unfolding safe_le_def sbind_def by (auto split: outcome.splits prod.splits) (metis fst_conv order_trans snd_conv)+

lemma takes_eat: "takes (\<lambda>ok. if ok then 1 else 0) (eat b)"
  by (auto simp: takes_def eat_def peek_rest bump_def split: if_splits list.splits)

lemma takes_expect: "takes (\<lambda>_. 1) (expect_byte b)"
  unfolding takes_def using expect_rest by fastforce

lemma group_head_steps: "safe_le k group_head" "takes (\<lambda>h. if h = None then 0 else 1) group_head"
proof -
  show "safe_le k group_head" unfolding safe_le_def
  proof (intro allI impI)
    fix c assume c: "cur_ok c"
    show "fst (group_head c) \<noteq> Panic \<and> cur_ok (snd (group_head c)) \<and> length (rest_of (snd (group_head c))) \<le> length (rest_of c)"
      by (rule group_head_cases [OF c]) (use c in auto)
  qed
  show "takes (\<lambda>h. if h = None then 0 else 1) group_head" unfolding takes_def
  proof (intro allI impI)
    fix c h c' assume c: "cur_ok c" "group_head c = (Ok h, c')"
    show "length (rest_of c') + (if h = None then 0 else 1) \<le> length (rest_of c)"
      by (rule group_head_cases [OF c(1)]) (use c in auto)
  qed
qed

lemma moves_pos: "(\<And>p. moves (f p)) \<Longrightarrow> moves (\<lambda>c. f (c_pos c) c)"
  by (simp add: moves_def)

lemma moves_op_failure [moves]: "moves (op_failure negated at)"
  by (auto simp: moves_def op_failure_def err_at_def err_word_def Let_def split: outcome.splits list.splits)

lemma moves_err_slot [moves]: "moves (err_slot negated at)"
  unfolding err_slot_def by (rule moves_pos) (rule moves)

lemma moves_case_option [moves]: "moves m \<Longrightarrow> (\<And>x. moves (f x)) \<Longrightarrow> moves (case_option m f x)"
  by (cases x) simp_all

lemma moves_parse_modifier [moves]: "moves (parse_modifier negated at p)"
proof -
  let ?m = "\<lambda>modifier. sbind (scan_name name_break) (\<lambda>m.
           sbind (if is_fts p \<and> m \<noteq> [] then sret (Ok (None, Some m))
                  else if m = ''any'' \<and> quantifiable p then sret (Ok (Some Q_Any, None))
                  else if m = ''all'' \<and> quantifiable p then sret (Ok (Some Q_All, None))
                  else err_at modifier (slot negated at modifier)) (\<lambda>qc.
           sbind (eat (CHR '')'')) (\<lambda>ok. if ok then sret (Ok qc) else err_slot negated at)))"
  have "moves (?m modifier)" for modifier by (intro moves)
  then have mv: "c_s (snd (?m modifier d)) = c_s d \<and> c_pos d \<le> c_pos (snd (?m modifier d))" for modifier d
    unfolding moves_def by blast
  have b: "c_s (bump c) = c_s c" "c_pos c \<le> c_pos (bump c)" for c by (simp_all add: bump_def)
  have "c_s (snd (?m modifier (bump c))) = c_s c \<and> c_pos c \<le> c_pos (snd (?m modifier (bump c)))" for modifier c
    using mv [of modifier "bump c"] b [of c] order_trans [OF b(2) [of c]] by simp
  then show ?thesis unfolding moves_def parse_modifier_def Let_def by simp
qed

lemma moves_parse_value: "moves (parse_value p quant True)"
  unfolding parse_value_def by (simp, intro conjI impI moves)

lemma moves_check_is [moves]: "moves (check_is p q v)"
  unfolding check_is_def by (cases v) (auto intro!: moves)

lemma moves_parse_literal [moves]: "moves (parse_literal p quant True)"
  unfolding parse_literal_def by (rule moves_pos) (intro moves moves_parse_value)

lemma moves_rhs_from [moves]: "moves (parse_rhs_from field True negated at)"
  unfolding parse_rhs_from_def parse_op_def parse_dot_def by (intro moves)

lemma moves_cond_rhs [moves]: "moves (parse_cond_rhs field True)"
  unfolding parse_cond_rhs_def by (rule moves_sbind [OF moves_basic(3)], rule moves_pos, rule moves_rhs_from)

lemma moves_parse_condition [moves]: "moves parse_condition"
  unfolding parse_condition_def by (intro moves)

lemma moves_item_failure: "c_s (snd (item_failure failed c)) = c_s c \<and> c_pos c \<le> c_pos (snd (item_failure failed c))"
proof -
  have e: "moves (sbind skip_spaces (\<lambda>_. err ws) :: (node, rest_error, cur) sop)" for ws by (intro moves)
  obtain r c1 where m: "eat_str ''not.'' c = (r :: (bool, rest_error) outcome, c1)" by fastforce
  note c1 = movesD [OF moves_basic(3) m]
  have "c_s (snd (sbind skip_spaces (\<lambda>_. err ws) (adv n c1) :: (node, rest_error) outcome \<times> cur)) = c_s c1 \<and>
      c_pos c1 \<le> c_pos (snd (sbind skip_spaces (\<lambda>_. err ws) (adv n c1) :: (node, rest_error) outcome \<times> cur))" for ws n
    using e [of ws] by (auto simp: moves_def dest: spec [of _ "adv n c1"] intro: order_trans [of _ "c_pos c1 + n"])
  then show ?thesis using c1
    by (auto simp: item_failure_def sbind_def [of "eat_str _"] m err_def err_at_def err_word_def split: outcome.splits intro: order_trans)
qed

lemma moves_item_condition [moves]: "moves item_condition"
  unfolding moves_def
proof
  fix c
  obtain r c1 where e: "parse_condition c = (r, c1)" by fastforce
  show "c_s (snd (item_condition c)) = c_s c \<and> c_pos c \<le> c_pos (snd (item_condition c))"
    using movesD [OF moves_parse_condition e] moves_item_failure [of _ c] by (auto simp: item_condition_def e split: outcome.splits)
qed

text \<open>The fuel of each of the three functions for \<open>k\<close> bytes.\<close>

lemma safe_le_lifts: "safe_le k skip_spaces" "ascii b \<Longrightarrow> safe_le k (eat b)" "ascii b \<Longrightarrow> safe_le k (expect_byte b)"
  "ascii b \<Longrightarrow> safe_le k (expect_as b ws)" "safe_le k item_condition"
  by (simp_all add: safe_le_lift safe moves)

lemma safe_le_sret: "x \<noteq> Panic \<Longrightarrow> safe_le k (sret x)"
  by (simp add: safe_le_lift safe moves)

lemma fuel_enough:
  "(3 * k + 3 \<le> fuel \<longrightarrow> safe_le k (parse_group_body fuel)) \<and>
   (3 * k + 2 \<le> fuel \<longrightarrow> safe_le k (group_items fuel kids)) \<and>
   (3 * k + 1 \<le> fuel \<longrightarrow> safe_le k (parse_item fuel))"
proof (induction fuel arbitrary: k kids)
  case (Suc fuel)
  have chars: "ascii (CHR ''('')" "ascii (CHR '')'')" "ascii (CHR '','')" by (simp_all add: ascii_def code_def)
  have body: "safe_le k (parse_group_body (Suc fuel))" if "3 * k + 3 \<le> Suc fuel"
    unfolding parse_group_body.simps
  proof (rule safe_le_then [OF safe_le_lifts(1)], rule safe_le_sbind [OF safe_le_lifts(3) [OF chars(1)] takes_expect], rule safe_le_then [OF safe_le_lifts(1)])
    assume "1 \<le> k"
    then show "safe_le (k - 1) (group_items fuel [])" using Suc.IH [of "k - 1" "[]"] that by auto
  qed
  have items: "safe_le k (group_items (Suc fuel) kids)" if f: "3 * k + 2 \<le> Suc fuel"
    unfolding group_items.simps
  proof (rule safe_le_then, goal_cases)
    case 1
    show ?case using Suc.IH [of k] f by auto
  next
    case (2 kid)
    show ?case
    proof (rule safe_le_then [OF safe_le_lifts(1)], rule safe_le_sbind [OF safe_le_lifts(2) [OF chars(3)] takes_eat])
      fix comma assume k: "(if comma then 1 else 0) \<le> k"
      show "safe_le (k - (if comma then 1 else 0))
          (if comma then sbind skip_spaces (\<lambda>_. group_items fuel (kids @ [kid]))
           else sbind (expect_as (CHR '')'') [word_lit '','', word_lit '')'']) (\<lambda>_. sbind skip_spaces (\<lambda>_. sret (Ok (kids @ [kid])))))"
      proof (cases comma)
        case True
        then have "safe_le (k - 1) (group_items fuel (kids @ [kid]))" using Suc.IH [of "k - 1" "kids @ [kid]"] f k by auto
        then show ?thesis using True by (simp add: safe_le_then [OF safe_le_lifts(1)])
      qed (simp add: safe_le_then safe_le_lifts chars safe_le_sret)
    qed
  qed
  have item: "safe_le k (parse_item (Suc fuel))" if f: "3 * k + 1 \<le> Suc fuel"
    unfolding parse_item.simps
  proof (rule safe_le_sbind [OF group_head_steps])
    fix h :: "(logic_op \<times> bool) option" assume k: "(if h = None then 0 else 1) \<le> k"
    show "safe_le (k - (if h = None then 0 else 1)) (case h of Some (p, negated) \<Rightarrow>
        sbind (parse_group_body fuel) (\<lambda>kids. sret (Ok (Group p negated kids))) | None \<Rightarrow> item_condition)"
    proof (cases h)
      case (Some x)
      then have "safe_le (k - 1) (parse_group_body fuel)" using Suc.IH [of "k - 1"] f k by auto
      then show ?thesis using Some by (auto simp: safe_le_then safe_le_sret split: prod.splits)
    qed (simp add: safe_le_lifts)
  qed
  show ?case using body items item by blast
qed simp

lemma parse_tree_safe: "cur_ok c \<Longrightarrow> fst (parse_tree c) \<noteq> Panic"
  using fuel_enough [of "length (rest_of c)" "3 * length (rest_of c) + 3"] by (auto simp: parse_tree_def safe_le_def)

section \<open>Query pairs\<close>

lemma key_segments_safe:
  "cur_ok c \<Longrightarrow> fst (key_segments segs c) \<noteq> Panic \<and> cur_ok (snd (key_segments segs c)) \<and>
     (\<forall>out. fst (key_segments segs c) = Ok out \<longrightarrow> out \<noteq> [])"
proof (induction segs c rule: key_segments.induct)
  case (1 segs c)
  obtain r c1 where e: "parse_segment c = (r, c1)" by fastforce
  note s = safeD [OF safe_parse_segment "1.prems" e]
  have dot: "cur_ok (bump c1)" if "peek c1 = Some (CHR ''.'')"
    using cur_ok_bump [OF conjunct2 [OF s] that] by (simp add: ascii_def code_def)
  have er: "fst (err ws d :: (seg list, rest_error) outcome \<times> cur) \<noteq> Panic \<and> cur_ok (snd (err ws d :: (seg list, rest_error) outcome \<times> cur)) \<and>
      (\<forall>out. fst (err ws d :: (seg list, rest_error) outcome \<times> cur) \<noteq> Ok out)" if "cur_ok d" for ws d
    using safe_err [of ws] that err_at_fails(2) [of ws d] unfolding safe_def by (metis prod.collapse)
  have lo: "fst (leftover ws d :: (seg list, rest_error) outcome \<times> cur) \<noteq> Panic \<and> cur_ok (snd (leftover ws d :: (seg list, rest_error) outcome \<times> cur)) \<and>
      (\<forall>out. fst (leftover ws d :: (seg list, rest_error) outcome \<times> cur) \<noteq> Ok out)" if "cur_ok d" for ws d
    using safe_leftover [of ws] that unfolding safe_def
    by (cases "found_at (c_pos d) d :: (found, rest_error) outcome") (auto simp: leftover_def)
  show ?case
  proof (cases "\<exists>seg. r = Ok seg \<and> peek c1 = Some (CHR ''.'') \<and> sg_path seg = []")
    case True
    then obtain seg where t: "r = Ok seg" "peek c1 = Some (CHR ''.'')" "sg_path seg = []" by blast
    have k: "key_segments segs c = key_segments (segs @ [seg]) (bump c1)" using t e by (simp add: key_segments.simps [of segs c])
    show ?thesis unfolding k by (rule "1.IH") (use t e dot in auto)
  next
    case False
    then show ?thesis using e s er [OF dot] lo [of c1] by (auto simp: key_segments.simps [of segs c] split: outcome.splits)
  qed
qed

lemma safe_embed_names [safe]: "safe (embed_names segs)"
  by (induction segs) (auto intro!: safe)

lemma safe_key_of: "segs \<noteq> [] \<Longrightarrow> safe (key_of segs)"
  unfolding key_of_def Let_def by (auto split: option.splits intro!: safe)

lemma parse_key_safe: "utf8 key \<Longrightarrow> parse_key key \<noteq> Panic"
proof -
  assume u: "utf8 key"
  obtain r c1 where e: "key_segments [] (cur_new key) = (r, c1)" by fastforce
  have s: "r \<noteq> Panic" "cur_ok c1" "r = Ok out \<Longrightarrow> out \<noteq> []" for out using key_segments_safe [OF cur_ok_new [OF u], of "[]"] e by auto
  show ?thesis using s safe_key_of by (cases r) (auto simp: parse_key_def sbind_def e safe_def)
qed

lemma map_err_Panic: "map_err g m = Panic \<longleftrightarrow> m = Panic"
  by (cases m) simp_all

text \<open>C32. The filter parser never panics. On any query pair of UTF-8 strings, every slice of the parser is on
  character boundaries, its \<open>unreachable\<close> and \<open>expect\<close> are never reached, and nested trees end; the fuel of the
  model is enough. The same holds of the test whether a value spells an operator.
\<close>

theorem filter_parser_never_panics:
  assumes "utf8 key" "utf8 value"
  shows "parse_pair key value \<noteq> Panic \<and> is_operator value \<noteq> (Panic :: (bool, rest_error) outcome)"
proof
  have c: "cur_ok (cur_new value)" using cur_ok_new [OF assms(2)] .
  have rhs: "fst (parse_cond_rhs field False (cur_new value)) \<noteq> Panic" for field
    using safe_cond_rhs [of field False] c by (auto simp: safe_def)
  show "parse_pair key value \<noteq> Panic"
    using parse_key_safe [OF assms(1)] rhs parse_tree_safe [OF c]
    by (auto simp: parse_pair_def Let_def obind_Panic_iff map_err_Panic split: key.splits)
  show "is_operator value \<noteq> (Panic :: (bool, rest_error) outcome)" using rhs by (auto simp: is_operator_def split: outcome.splits)
qed

theorem filter_parser_never_panics_witness:
  "parse_pair ''not.or'' ''(a.eq.1,and(b.in.(x,y)'' \<noteq> Panic \<and>
   is_operator ''(a.eq.1,and(b.in.(x,y)'' \<noteq> (Panic :: (bool, rest_error) outcome)"
  by (rule filter_parser_never_panics) (rule utf8_ascii, simp add: ascii_def code_def)+

end
