(* ===== verification/Rest_Filter_Types.thy ===== *)
theory Rest_Filter_Types
  imports Rest_Filter_Safety
begin

text \<open>
  What the filter parser returns is well typed: the shape of a value fits its operator and modifier, names are there,
  and no group is empty. The compiler to SQL relies on it.
\<close>

section \<open>Well typed trees\<close>

definition wf_name :: "string \<Rightarrow> bool" where
  "wf_name s \<longleftrightarrow> s \<noteq> [] \<and> utf8 s"

definition wf_field :: "field \<Rightarrow> bool" where
  "wf_field f \<longleftrightarrow> (\<forall>e \<in> set (fi_embed f). wf_name e) \<and> wf_name (fi_column f) \<and> wf_path (fi_path f)"

text \<open>A list for \<open>in\<close>, an array under a quantifier, one literal otherwise, and one of five words for \<open>is\<close>.\<close>

definition wf_value :: "op \<Rightarrow> quant option \<Rightarrow> filter_value \<Rightarrow> bool" where
  "wf_value p quant v =
     (case v of
        VList es \<Rightarrow> p = Op_In \<and> es \<noteq> [] \<and> (\<forall>e \<in> set es. utf8 e)
      | VArray es \<Rightarrow> p \<noteq> Op_In \<and> quant \<noteq> None \<and> (\<forall>e \<in> set es. utf8 e)
      | VLit s \<Rightarrow> p \<noteq> Op_In \<and> quant = None \<and> utf8 s \<and> (p = Op_Is \<longrightarrow> s \<in> set IS_VALUES))"

definition wf_mods :: "op \<Rightarrow> quant option \<times> string option \<Rightarrow> bool" where
  "wf_mods p qc \<longleftrightarrow>
     (fst qc \<noteq> None \<longrightarrow> quantifiable p \<and> snd qc = None) \<and>
     (\<forall>cfg. snd qc = Some cfg \<longrightarrow> is_fts p \<and> wf_name cfg \<and> bare_name name_break cfg)"

definition wf_cond :: "cond \<Rightarrow> bool" where
  "wf_cond c \<longleftrightarrow> wf_field (co_field c) \<and> wf_mods (co_op c) (co_quant c, co_config c) \<and> wf_value (co_op c) (co_quant c) (co_value c)"

fun wf_node :: "node \<Rightarrow> bool" where
  "wf_node (Group p negated kids) \<longleftrightarrow> kids \<noteq> [] \<and> list_all wf_node kids"
| "wf_node (Cond c) \<longleftrightarrow> wf_cond c \<and> fi_embed (co_field c) = []"

definition wf_parsed :: "parsed \<Rightarrow> bool" where
  "wf_parsed p =
     (case p of
        Filter c \<Rightarrow> wf_cond c
      | Logic emb p negated kids \<Rightarrow> (\<forall>e \<in> set emb. wf_name e) \<and> kids \<noteq> [] \<and> list_all wf_node kids)"

section \<open>Conditions\<close>

lemma run_case_prod: "(\<And>a b. x = (a, b) \<Longrightarrow> run P (f a b) Q) \<Longrightarrow> run P (case_prod f x) Q"
  by (cases x) simp

lemma op_failure_fails: "run P (op_failure negated at) Q"
  by (rule runI)
    (auto simp: op_failure_def err_word_def err_at_fails Let_def obind_Ok_iff split: outcome.splits list.splits if_splits)

lemma err_slot_fails: "run P (err_slot negated at) Q"
  by (rule runI) (simp add: err_slot_def err_at_fails)

lemma parse_modifier_types: "run P (parse_modifier negated at p) (\<lambda>qc _. wf_mods p qc)"
proof (rule runI)
  fix c qc c' assume c: "cur_ok c" and m: "parse_modifier negated at p c = (Ok qc, c')"
  show "wf_mods p qc"
  proof (cases "peek c = Some (CHR ''('') \<and> (is_fts p \<or> quantifiable p)")
    case True
    have b: "cur_ok (bump c)" using cur_ok_bump [OF c] True by (simp add: ascii_def code_def)
    obtain w d where w: "scan_name name_break (bump c) = (Ok w :: (string, rest_error) outcome, d)"
      and qc: "(if is_fts p \<and> w \<noteq> [] then Ok (None, Some w) else if w = ''any'' \<and> quantifiable p then Ok (Some Q_Any, None)
         else if w = ''all'' \<and> quantifiable p then Ok (Some Q_All, None) else Panic) = (Ok qc :: (_, rest_error) outcome)"
      using m True by (auto simp: parse_modifier_def Let_def sbind_Ok sret_def err_at_fails err_slot_def split: if_splits)
    have "utf8 w \<and> bare_name name_break w"
      using runD [OF scan_name_utf8 [OF name_break_ascii, where P = "\<lambda>_. True"] b _ w] by simp
    then show ?thesis using qc by (auto simp: wf_mods_def wf_name_def is_fts_def quantifiable_def split: if_splits)
  qed (use m in \<open>auto simp: parse_modifier_def wf_mods_def\<close>)
qed

lemma scan_element_utf8:
  assumes "\<And>b. b \<in> terms \<Longrightarrow> ascii b"
  shows "run P (scan_element terms) (\<lambda>s _. utf8 s)"
proof (rule runI)
  fix c s c' assume c: "cur_ok c" "scan_element terms c = (Ok s, c')"
  obtain r c1 where q: "scan_quoted c = (r, c1)" by fastforce
  show "utf8 s" using c span_ok [OF c(1) assms] runD [OF scan_quoted_utf8 [where P = "\<lambda>_. True"] c(1), of _ c1] q
    by (auto simp: scan_element_def split: outcome.splits if_splits)
qed

lemma parse_elements_utf8:
  assumes "ascii close" "cur_ok c" "parse_elements close out c = (Ok es, c')" "\<forall>e \<in> set out. utf8 e"
  shows "es \<noteq> [] \<and> (\<forall>e \<in> set es. utf8 e)"
  using assms
proof (induction close out c rule: parse_elements.induct)
  case (1 close out c)
  obtain s c1 where e: "scan_element {CHR '','', close} c = (Ok s, c1)"
    using "1.prems"(3) by (auto simp: parse_elements.simps [of close out c] split: prod.splits outcome.splits)
  have terms: "b \<in> {CHR '','', close} \<Longrightarrow> ascii b" for b using "1.prems"(1) by (auto simp: ascii_def code_def)
  have s: "utf8 s" "cur_ok c1"
    using runD [OF scan_element_utf8 [OF terms, where P = "\<lambda>_. True"] "1.prems"(2) _ e] safeD [OF safe_scan_element [OF terms] "1.prems"(2) e] by auto
  show ?case
  proof (cases "peek c1 = Some (CHR '','')")
    case True
    have "cur_ok (bump c1)" using cur_ok_bump [OF s(2) True] by (simp add: ascii_def code_def)
    then show ?thesis using "1.IH" [OF e [symmetric] refl True] "1.prems" e s True by (auto simp: parse_elements.simps [of close out c])
  next
    case False
    then have "es = out @ [s]" using "1.prems"(3) e by (auto simp: parse_elements.simps [of close out c] sbind_Ok sret_def)
    then show ?thesis using s "1.prems"(4) by auto
  qed
qed

lemma scan_array_utf8: "run P scan_array (\<lambda>a _. case a of None \<Rightarrow> True | Some s \<Rightarrow> utf8 s)"
proof (rule runI)
  fix c a c' assume c: "cur_ok c" "scan_array c = (Ok a, c')"
  have "utf8 ''{''" "utf8 ''}''" by (simp_all add: utf8_ascii ascii_def code_def)
  then show "case a of None \<Rightarrow> True | Some s \<Rightarrow> utf8 s"
    using scan_array_ok [OF c(1)] c(2) utf8_append [of "''{''"] by (auto simp: utf8_append)
qed

text \<open>The value before the words of \<open>is\<close> are checked.\<close>

lemma parse_value_types:
  "run P (parse_value p quant in_tree) (\<lambda>v _. wf_value p quant v \<or> p = Op_Is \<and> (quant = None \<longrightarrow> (\<exists>s. v = VLit s \<and> utf8 s)))"
proof (rule runI)
  fix c v c' assume c: "cur_ok c" "parse_value p quant in_tree c = (Ok v, c')"
  have a: "ascii (CHR ''('')" "ascii (CHR '')'')" "ascii (CHR ''{'')" "ascii (CHR ''}'')" by (simp_all add: ascii_def code_def)
  have terms: "b \<in> {CHR '','', CHR '')''} \<Longrightarrow> ascii b" for b by (auto simp: ascii_def code_def)
  consider "p = Op_In" | "p \<noteq> Op_In" "quant \<noteq> None" | "p \<noteq> Op_In" "quant = None" "in_tree" | "p \<noteq> Op_In" "quant = None" "\<not> in_tree" by blast
  then have "wf_value p quant v \<or> p = Op_Is \<and> (\<exists>s. v = VLit s \<and> utf8 s)"
  proof cases
    case 1
    have "safe (sbind skip_spaces (\<lambda>_. sbind (expect_byte (CHR ''('')) (\<lambda>_. skip_spaces)))" using a by (intro safe)
    moreover obtain d es where "sbind skip_spaces (\<lambda>_. sbind (expect_byte (CHR ''('')) (\<lambda>_. skip_spaces)) c = (Ok (), d)"
      "parse_elements (CHR '')'') [] d = (Ok es, c')" "v = VList es"
      using c(2) 1 by (auto simp: parse_value_def sbind_Ok sret_def)
    ultimately show ?thesis using parse_elements_utf8 [OF a(2), of d "[]" es c'] c(1) 1 by (auto simp: wf_value_def dest: safeD)
  next
    case 2
    then obtain d where d: "expect_byte (CHR ''{'') c = (Ok (), d)"
      "sbind (eat (CHR ''}'')) (\<lambda>empty. if empty then sret (Ok (VArray [])) else sbind (parse_elements (CHR ''}'') []) (\<lambda>es. sret (Ok (VArray es)))) d = (Ok v, c')"
      using c(2) by (auto simp: parse_value_def sbind_Ok)
    then have "cur_ok d" using safeD [OF safe_expect(2) [OF a(3)] c(1)] by simp
    then show ?thesis using d(2) 2 parse_elements_utf8 [OF a(4), of d "[]"]
      by (auto simp: sbind_Ok sret_def eat_def wf_value_def split: if_splits)
  next
    case 3
    then obtain x d where x: "scan_array c = (Ok x, d)"
      "(case x of Some s \<Rightarrow> sret (Ok (VLit s)) | None \<Rightarrow> sbind (scan_element {CHR '','', CHR '')''}) (\<lambda>s. sret (Ok (VLit s)))) d = (Ok v, c')"
      using c(2) by (auto simp: parse_value_def sbind_Ok)
    note d = conjunct2 [OF safeD [OF safe_scan_array c(1) x(1)]] and u = runD [OF scan_array_utf8 [where P = "\<lambda>_. True"] c(1) _ x(1)]
    have "\<exists>s. v = VLit s \<and> utf8 s"
      using x(2) u runD [OF scan_element_utf8 [of "{CHR '','', CHR '')''}", OF terms, where P = "\<lambda>_. True"] d] by (cases x) (auto simp: sbind_Ok sret_def)
    then show ?thesis using 3 by (auto simp: wf_value_def)
  next
    case 4
    then show ?thesis using c cur_ok_rest [OF c(1)] by (auto simp: parse_value_def sbind_Ok take_rest_ok sret_def wf_value_def)
  qed
  then show "wf_value p quant v \<or> p = Op_Is \<and> (quant = None \<longrightarrow> (\<exists>s. v = VLit s \<and> utf8 s))" by blast
qed

lemma parse_literal_types:
  assumes "p = Op_Is \<Longrightarrow> quant = None"
  shows "run P (parse_literal p quant in_tree) (\<lambda>v _. wf_value p quant v)"
proof (rule runI)
  fix c v c' assume c: "cur_ok c" "parse_literal p quant in_tree c = (Ok v, c')"
  then obtain w d where w: "parse_value p quant in_tree c = (Ok w, d)" "check_is p (c_pos c) w d = (Ok v, c')"
    by (auto simp: parse_literal_def sbind_Ok)
  have wf: "wf_value p quant w \<or> p = Op_Is \<and> (\<exists>s. w = VLit s \<and> utf8 s)"
    using runD [OF parse_value_types [where P = "\<lambda>_. True"] c(1) _ w(1)] assms by auto
  show "wf_value p quant v"
  proof (cases "p = Op_Is")
    case True
    then obtain s where s: "w = VLit s" using wf assms by (auto simp: wf_value_def split: filter_value.splits)
    have v: "v = VLit (to_ascii_lowercase s)" "to_ascii_lowercase s \<in> set IS_VALUES"
      using w(2) True s by (auto simp: check_is_def sret_def err_ci_word_def err_at_fails split: if_splits outcome.splits)
    have "utf8 (to_ascii_lowercase s)" using v(2) is_values_ascii by (auto simp: list_all_iff intro!: utf8_ascii)
    then show ?thesis using v True assms by (simp add: wf_value_def)
  next
    case False
    then show ?thesis using w(2) wf by (simp add: check_is_def sret_def)
  qed
qed

lemma rhs_types:
  assumes "wf_field field"
  shows "run P (parse_cond_rhs field in_tree) (\<lambda>c _. wf_cond c \<and> co_field c = field)"
proof (rule runI)
  fix c k c' assume c: "cur_ok c" "parse_cond_rhs field in_tree c = (Ok k, c')"
  obtain negated d where d: "eat_str ''not.'' c = (Ok negated :: (bool, rest_error) outcome, d)"
    "parse_rhs_from field in_tree negated (c_pos d) d = (Ok k, c')"
    using c(2) by (auto simp: parse_cond_rhs_def sbind_Ok)
  have dok: "cur_ok d" using safeD [OF safe_eat_str c(1) d(1)] by (simp add: ascii_def code_def)
  have mk: "marks [c_pos d] d" using dok by (simp add: marks_def cur_ok_def)
  obtain p d1 quant config d2 d3 v where steps:
    "parse_op negated (c_pos d) d = (Ok p, d1)" "parse_modifier negated (c_pos d) p d1 = (Ok (quant, config), d2)"
    "parse_dot negated (c_pos d) d2 = (Ok (), d3)" "parse_literal p quant in_tree d3 = (Ok v, c')"
    "k = \<lparr>co_field = field, co_negated = negated, co_op = p, co_quant = quant, co_config = config, co_value = v\<rparr>"
    using d(2) by (auto simp: parse_rhs_from_def sbind_Ok sret_def split: prod.splits)
  have d1: "cur_ok d1" "c_s d1 = c_s d" using safe_with_parse_op [of "c_pos d" "[c_pos d]" negated] steps(1) dok mk by (auto simp: safe_with_def dest!: spec [of _ d])
  have m1: "marks [c_pos d] d1" using mk d1(2) by (simp add: marks_def)
  have d2: "cur_ok d2" "c_s d2 = c_s d1" using safe_with_parse_modifier [of "[c_pos d]" negated "c_pos d" p] steps(2) d1 m1 by (auto simp: safe_with_def dest!: spec [of _ d1])
  have d3: "cur_ok d3" using safe_with_parse_dot [of "[]" negated "c_pos d"] steps(3) d2 by (auto simp: safe_with_def marks_def dest!: spec [of _ d2])
  have mods: "wf_mods p (quant, config)" using runD [OF parse_modifier_types [where P = "\<lambda>_. True"] d1(1) _ steps(2)] by simp
  have "p = Op_Is \<Longrightarrow> quant = None" using mods by (auto simp: wf_mods_def quantifiable_def)
  from runD [OF parse_literal_types [OF this, where P = "\<lambda>_. True"] d3 _ steps(4)]
  show "wf_cond k \<and> co_field k = field" using steps(5) assms mods by (simp add: wf_cond_def)
qed

lemma parse_segment_types:
  "run P parse_segment (\<lambda>s c. wf_name (sg_name s) \<and> wf_path (sg_path s) \<and> path_result (sg_path s) c)"
proof (rule runI)
  fix c s c' assume c: "cur_ok c" "parse_segment c = (Ok s, c')"
  define quoted where "quoted = (peek c = Some (CHR 0x22))"
  let ?pick = "if quoted then scan_quoted else sbind (scan_name name_break) (\<lambda>n. sret (Ok (trim_blanks n)))"
  have safe: "safe ?pick" by (intro safe name_break_ascii) simp_all
  have run: "run (\<lambda>_. True) ?pick (\<lambda>s _. utf8 s)"
    using scan_quoted_utf8 by (auto intro!: run_if run_sbind [OF safe_scan_name scan_name_utf8] name_break_ascii run_sret utf8_trim)
  obtain name d where d: "?pick c = (Ok name, d)" "name \<noteq> []" "parse_json_path [] d = (Ok (sg_path s), c')" "sg_name s = name"
    using c(2) by (auto simp: parse_segment_def Let_def sbind_Ok [of "if _ then _ else _"] sbind_Ok [of "parse_json_path []"] sret_def err_at_fails quoted_def split: if_splits)
  have "utf8 name" "cur_ok d" using runD [OF run c(1) _ d(1)] safeD [OF safe c(1) d(1)] by auto
  with runD [OF parse_json_path_result [where P = "\<lambda>_. True"] _ _ d(3)] d
  show "wf_name (sg_name s) \<and> wf_path (sg_path s) \<and> path_result (sg_path s) c'" by (simp add: wf_name_def path_result_def)
qed

section \<open>Trees\<close>

lemma item_failure_fails: "item_failure failed c \<noteq> (Ok x, c')"
  by (auto simp: item_failure_def sbind_Ok err_at_fails err_word_def obind_Ok_iff split: outcome.splits if_splits)

lemma condition_types: "run P item_condition (\<lambda>n _. wf_node n)"
proof (rule runI)
  fix c n c' assume c: "cur_ok c" "item_condition c = (Ok n, c')"
  then have "parse_condition c = (Ok n, c')" by (auto simp: item_condition_def item_failure_fails split: prod.splits outcome.splits)
  then obtain s d d' k where s: "parse_segment c = (Ok s, d)" "expect_as (CHR ''.'') [DELIMITER] d = (Ok (), d')"
    "parse_cond_rhs \<lparr>fi_embed = [], fi_column = sg_name s, fi_path = sg_path s\<rparr> True d' = (Ok k, c')" "n = Cond k"
    by (auto simp: parse_condition_def sbind_Ok sret_def)
  have sg: "wf_field \<lparr>fi_embed = [], fi_column = sg_name s, fi_path = sg_path s\<rparr>" "cur_ok d"
    using runD [OF parse_segment_types [where P = "\<lambda>_. True"] c(1) _ s(1)] safeD [OF safe_parse_segment c(1) s(1)] by (auto simp: wf_field_def)
  have "cur_ok d'" using safeD [OF safe_expect(1) sg(2) s(2)] by (simp add: ascii_def code_def)
  from runD [OF rhs_types [OF sg(1), where P = "\<lambda>_. True"] this _ s(3)] show "wf_node n" using s(4) by simp
qed

text \<open>A call that succeeds returns something with \<open>Q\<close> and leaves the cursor on a character.\<close>

definition well :: "('a, 'e, cur) sop \<Rightarrow> ('a \<Rightarrow> bool) \<Rightarrow> bool" where
  "well m Q \<longleftrightarrow> (\<forall>c x c'. cur_ok c \<longrightarrow> m c = (Ok x, c') \<longrightarrow> cur_ok c' \<and> Q x)"

lemma well_sbind: "well m R \<Longrightarrow> (\<And>x. R x \<Longrightarrow> well (f x) Q) \<Longrightarrow> well (sbind m f) Q"
  unfolding well_def sbind_Ok by blast

lemma well_safe: "safe m \<Longrightarrow> well m (\<lambda>_. True)"
  unfolding well_def by (blast dest: safeD)

lemma well_skip: "safe m \<Longrightarrow> (\<And>x. well (f x) Q) \<Longrightarrow> well (sbind m f) Q"
  by (rule well_sbind [OF well_safe])

lemma well_run: "safe m \<Longrightarrow> run (\<lambda>_. True) m (\<lambda>x _. Q x) \<Longrightarrow> well m Q"
  unfolding well_def by (auto dest: safeD runD)

lemma well_sret: "(\<And>x. r = Ok x \<Longrightarrow> Q x) \<Longrightarrow> well (sret r) Q"
  by (simp add: well_def sret_def)

lemma well_group_head: "well group_head (\<lambda>_. True)"
  unfolding well_def by (metis group_head_cases Pair_inject)

lemma tree_types:
  "well (parse_group_body fuel) (\<lambda>kids. kids \<noteq> [] \<and> list_all wf_node kids) \<and>
   (list_all wf_node acc \<longrightarrow> well (group_items fuel acc) (\<lambda>kids. kids \<noteq> [] \<and> list_all wf_node kids)) \<and>
   well (parse_item fuel) wf_node"
proof (induction fuel arbitrary: acc)
  case 0
  show ?case by (auto simp: parse_group_body.simps group_items.simps parse_item.simps intro!: well_sret)
next
  case (Suc fuel)
  have chars: "ascii (CHR ''('')" "ascii (CHR '')'')" "ascii (CHR '','')" by (simp_all add: ascii_def code_def)
  have body: "well (parse_group_body (Suc fuel)) (\<lambda>kids. kids \<noteq> [] \<and> list_all wf_node kids)"
    unfolding parse_group_body.simps using Suc.IH [of "[]"] chars by (intro well_skip safe) simp_all
  have items: "well (group_items (Suc fuel) acc) (\<lambda>kids. kids \<noteq> [] \<and> list_all wf_node kids)" if acc: "list_all wf_node acc"
    unfolding group_items.simps
  proof (rule well_sbind [of _ wf_node])
    show "well (parse_item fuel) wf_node" using Suc.IH by blast
    fix kid assume "wf_node kid"
    then have "list_all wf_node (acc @ [kid])" using acc by simp
    then show "well (sbind skip_spaces (\<lambda>_. sbind (eat (CHR '','')) (\<lambda>comma.
        if comma then sbind skip_spaces (\<lambda>_. group_items fuel (acc @ [kid]))
        else sbind (expect_as (CHR '')'') [word_lit '','', word_lit '')'']) (\<lambda>_. sbind skip_spaces (\<lambda>_. sret (Ok (acc @ [kid])))))))
      (\<lambda>kids. kids \<noteq> [] \<and> list_all wf_node kids)"
      using Suc.IH [of "acc @ [kid]"] chars by (auto intro!: well_skip safe well_sret)
  qed
  have item: "well (parse_item (Suc fuel)) wf_node"
    unfolding parse_item.simps
  proof (rule well_sbind [OF well_group_head])
    fix h :: "(logic_op \<times> bool) option"
    have "well (sbind (parse_group_body fuel) (\<lambda>kids. sret (Ok (Group p negated kids)))) wf_node" for p negated
      using Suc.IH by (auto intro!: well_sbind [of _ "\<lambda>kids. kids \<noteq> [] \<and> list_all wf_node kids"] well_sret)
    then show "well (case h of Some (p, negated) \<Rightarrow> sbind (parse_group_body fuel) (\<lambda>kids. sret (Ok (Group p negated kids))) | None \<Rightarrow> item_condition) wf_node"
      using well_run [OF safe_item_condition condition_types] by (auto split: option.splits prod.splits)
  qed
  show ?case using body items item by blast
qed

section \<open>Query pairs\<close>

definition wf_seg :: "seg \<Rightarrow> bool" where
  "wf_seg s \<longleftrightarrow> wf_name (sg_name s) \<and> wf_path (sg_path s)"

lemma key_segments_types:
  "cur_ok c \<Longrightarrow> key_segments segs c = (Ok out, c') \<Longrightarrow> \<forall>s \<in> set segs. wf_seg s \<Longrightarrow> \<forall>s \<in> set out. wf_seg s"
proof (induction segs c rule: key_segments.induct)
  case (1 segs c)
  obtain seg c1 where e: "parse_segment c = (Ok seg, c1)"
    using "1.prems"(2) by (auto simp: key_segments.simps [of segs c] split: prod.splits outcome.splits)
  have s: "wf_seg seg" "cur_ok c1"
    using runD [OF parse_segment_types [where P = "\<lambda>_. True"] "1.prems"(1) _ e] safeD [OF safe_parse_segment "1.prems"(1) e] by (auto simp: wf_seg_def)
  have lo: "leftover ws c1 \<noteq> (Ok out :: (seg list, rest_error) outcome, c')" for ws
    by (cases "found_at (c_pos c1) c1 :: (found, rest_error) outcome") (auto simp: leftover_def)
  show ?case
  proof (cases "peek c1 = Some (CHR ''.'')")
    case True
    have "cur_ok (bump c1)" using cur_ok_bump [OF s(2) True] by (simp add: ascii_def code_def)
    moreover have p: "sg_path seg = []" using "1.prems"(2) e True by (auto simp: key_segments.simps [of segs c] err_at_fails split: if_splits)
    ultimately show ?thesis using "1.IH" [OF e [symmetric] refl True] "1.prems" e s True by (auto simp: key_segments.simps [of segs c])
  next
    case False
    then have "out = segs @ [seg]" using "1.prems"(2) e lo by (auto simp: key_segments.simps [of segs c] split: if_splits)
    then show ?thesis using s "1.prems"(3) by auto
  qed
qed

lemma embed_names_types: "embed_names segs c = (Ok out, c') \<Longrightarrow> \<forall>s \<in> set segs. wf_seg s \<Longrightarrow> \<forall>e \<in> set out. wf_name e"
  by (induction segs arbitrary: out c c') (auto simp: sret_def sbind_Ok err_at_fails wf_seg_def split: if_splits)

definition wf_key_named :: "key \<Rightarrow> bool" where
  "wf_key_named k = (case k of KField f \<Rightarrow> wf_field f | KLogic emb _ _ \<Rightarrow> \<forall>e \<in> set emb. wf_name e)"

lemma parse_key_types:
  assumes "utf8 key" "parse_key key = Ok k"
  shows "wf_key_named k"
proof -
  obtain segs c1 where segs: "key_segments [] (cur_new key) = (Ok segs, c1)" "fst (key_of segs c1) = Ok k"
    using assms(2) by (auto simp: parse_key_def sbind_def split: prod.splits outcome.splits)
  have ne: "segs \<noteq> []" using segs(2) by (auto simp: key_of_def sret_def)
  have wf: "\<forall>s \<in> set segs. wf_seg s" using key_segments_types [OF cur_ok_new [OF assms(1)] segs(1)] by simp
  then have sub: "set ss \<subseteq> set segs \<Longrightarrow> embed_names ss c = (Ok out, d) \<Longrightarrow> \<forall>e \<in> set out. wf_name e" for ss c out d
    using embed_names_types [of ss c out d] by blast
  obtain c2 where k: "key_of segs c1 = (Ok k, c2)" using segs(2) by (metis prod.collapse)
  have last: "wf_seg (last segs)" using wf ne by simp
  have bl: "set (butlast segs) \<subseteq> set segs" "set (butlast (butlast segs)) \<subseteq> set segs" by (auto dest: in_set_butlastD)
  show ?thesis
    using k ne last sub [OF bl(1)] sub [OF bl(2)]
    by (auto simp: key_of_def Let_def sbind_Ok sret_def wf_key_named_def wf_field_def wf_seg_def split: option.splits if_splits)
qed

lemma map_err_Ok: "map_err g m = Ok x \<longleftrightarrow> m = Ok x"
  by (cases m) simp_all

lemma parse_pair_types:
  assumes "utf8 key" "utf8 value" "parse_pair key value = Ok p"
  shows "wf_parsed p"
proof -
  obtain k where k: "parse_key key = Ok k" using assms(3) by (auto simp: parse_pair_def Let_def obind_Ok_iff map_err_Ok)
  note wk = parse_key_types [OF assms(1) k]
  note c = cur_ok_new [OF assms(2)]
  show ?thesis
  proof (cases k)
    case (KField f)
    then obtain co where "fst (parse_cond_rhs f False (cur_new value)) = Ok co" "p = Filter co"
      using assms(3) k by (auto simp: parse_pair_def Let_def obind_Ok_iff map_err_Ok)
    moreover have "wf_field f" using wk KField by (simp add: wf_key_named_def)
    ultimately show ?thesis using runD [OF rhs_types [of f, where P = "\<lambda>_. True"] c] by (auto simp: wf_parsed_def) (metis prod.collapse)
  next
    case (KLogic emb q negated)
    then obtain kids where "fst (parse_tree (cur_new value)) = Ok kids" "p = Logic emb q negated kids"
      using assms(3) k by (auto simp: parse_pair_def Let_def obind_Ok_iff map_err_Ok)
    then obtain c' where "parse_group_body (3 * length (rest_of (cur_new value)) + 3) (cur_new value) = (Ok kids, c')"
      by (metis parse_tree_def prod.collapse)
    then have "kids \<noteq> [] \<and> list_all wf_node kids"
      using conjunct1 [OF tree_types [of "3 * length (rest_of (cur_new value)) + 3" "[]"]] c unfolding well_def by blast
    then show ?thesis using \<open>p = Logic emb q negated kids\<close> wk KLogic by (simp add: wf_parsed_def wf_key_named_def)
  qed
qed

text \<open>C30. What the filter parser returns is well typed. A value is a list exactly under \<open>in\<close> and an array exactly under a
  quantifier, quantifiers stand only on the nine operators that take one, a text search configuration only on the text search
  operators, \<open>is\<close> has one of its five words in lower case, no name and no group is empty, JSON indexes fit 64 bits,
  a condition in a tree names no embedded resource, and every string is UTF-8.
\<close>

theorem parsed_well_typed:
  assumes "utf8 key" "utf8 value" "parse_pair key value = Ok p"
  shows "wf_parsed p"
  using assms by (rule parse_pair_types)

lemma sample_pair:
  "parse_pair ''or'' ''(a.eq.1,not.and(b->>k.in.(x,y),c.is.NULL))'' =
     Ok (Logic [] L_Or False
       [Cond \<lparr>co_field = \<lparr>fi_embed = [], fi_column = ''a'', fi_path = []\<rparr>, co_negated = False, co_op = Op_Eq, co_quant = None,
              co_config = None, co_value = VLit ''1''\<rparr>,
        Group L_And True
          [Cond \<lparr>co_field = \<lparr>fi_embed = [], fi_column = ''b'', fi_path = [\<lparr>js_text = True, js_key = JName ''k''\<rparr>]\<rparr>, co_negated = False,
                 co_op = Op_In, co_quant = None, co_config = None, co_value = VList [''x'', ''y'']\<rparr>,
           Cond \<lparr>co_field = \<lparr>fi_embed = [], fi_column = ''c'', fi_path = []\<rparr>, co_negated = False, co_op = Op_Is, co_quant = None,
                 co_config = None, co_value = VLit ''null''\<rparr>]])"
  by code_simp

theorem parsed_well_typed_witness:
  "wf_parsed (Logic [] L_Or False
       [Cond \<lparr>co_field = \<lparr>fi_embed = [], fi_column = ''a'', fi_path = []\<rparr>, co_negated = False, co_op = Op_Eq, co_quant = None,
              co_config = None, co_value = VLit ''1''\<rparr>,
        Group L_And True
          [Cond \<lparr>co_field = \<lparr>fi_embed = [], fi_column = ''b'', fi_path = [\<lparr>js_text = True, js_key = JName ''k''\<rparr>]\<rparr>, co_negated = False,
                 co_op = Op_In, co_quant = None, co_config = None, co_value = VList [''x'', ''y'']\<rparr>,
           Cond \<lparr>co_field = \<lparr>fi_embed = [], fi_column = ''c'', fi_path = []\<rparr>, co_negated = False, co_op = Op_Is, co_quant = None,
                 co_config = None, co_value = VLit ''null''\<rparr>]])"
  by (rule parsed_well_typed [OF _ _ sample_pair]) (rule utf8_ascii, simp add: ascii_def code_def)+

end
