(* ===== verification/Rest_Filter_Roundtrip.thy ===== *)
theory Rest_Filter_Roundtrip
  imports Rest_Filter_Types
begin

text \<open>
  The canonical pair of a filter or a logic tree parses back to it. Each writer is read back by its parser in front of what
  may follow it; for trees this is an induction over the tree, with enough fuel, and
  more fuel changes nothing.
\<close>

section \<open>Names and elements\<close>

lemma reads_pos: "(\<And>p. reads (f p) t x R) \<Longrightarrow> reads (\<lambda>c. f (c_pos c) c) t x R"
  by (simp add: reads_def)

definition seg_of :: "string \<Rightarrow> json_step list \<Rightarrow> seg" where
  "seg_of n p = \<lparr>sg_name = n, sg_path = p, sg_quoted = name_needs_quotes n\<rparr>"

lemma path_end_name_end: "path_end p r \<Longrightarrow> name_end r"
  by (auto simp: path_end_def name_end_def name_break_def)

lemma bare_fmt_name:
  assumes "\<not> name_needs_quotes n"
  obtains b t where "n = b # t" "b \<noteq> CHR 0x22" "\<not> blank b" "bare_name name_break n" "trim_blanks n = n" "n \<notin> {''or'', ''and'', ''not''}"
proof -
  obtain b t where n: "n = b # t" using assms by (cases n) (auto simp: name_needs_quotes_def)
  have trim: "trim_blanks n = n" and rest: "bare_name name_break n" "n \<notin> {''or'', ''and'', ''not''}" and b: "\<not> name_break b"
    using assms n by (auto simp: name_needs_quotes_def bare_name_def)
  have "\<not> blank b"
  proof
    assume "blank b"
    then have "length (trim_blanks n) \<le> length t" using n length_dropWhile_le [of blank t] length_dropWhile_le [of blank "rev (dropWhile blank t)"]
      by (simp add: trim_blanks_def)
    then show False using trim n by simp
  qed
  with n b trim rest show thesis by (intro that) (auto simp: name_break_def)
qed

lemma reads_segment_from:
  assumes "t \<noteq> []" "n \<noteq> []" "wf_path p" "hd t = CHR 0x22 \<longleftrightarrow> quoted"
    "reads (if quoted then scan_quoted else sbind (scan_name name_break) (\<lambda>n. sret (Ok (trim_blanks n)))) t n name_end"
  shows "reads parse_segment (t @ fmt_path p) \<lparr>sg_name = n, sg_path = p, sg_quoted = quoted\<rparr> (path_end p)"
proof -
  let ?pick = "if quoted then scan_quoted else sbind (scan_name name_break) (\<lambda>n. sret (Ok (trim_blanks n)))"
  let ?rest = "\<lambda>name. if name = [] then err [FIELD_NAME]
     else sbind (parse_json_path []) (\<lambda>path. sret (Ok \<lparr>sg_name = name, sg_path = path, sg_quoted = quoted\<rparr>))"
  have path: "reads (?rest n) (fmt_path p) \<lparr>sg_name = n, sg_path = p, sg_quoted = quoted\<rparr> (path_end p)"
    using reads_sbind_ret [OF reads_path [OF assms(3), of "[]"], of "\<lambda>path. \<lparr>sg_name = n, sg_path = path, sg_quoted = quoted\<rparr>"] assms(2)
    by simp
  have both: "reads (sbind ?pick ?rest) (t @ fmt_path p) \<lparr>sg_name = n, sg_path = p, sg_quoted = quoted\<rparr> (path_end p)"
    by (rule reads_sbind [OF assms(5)]) (use path in \<open>simp_all add: name_end_path path_end_name_end\<close>)
  show ?thesis
  proof (rule readsI)
    fix c r assume c: "cur_ok c" "rest_of c = (t @ fmt_path p) @ r" "path_end p r"
    have "peek c = Some (CHR 0x22) \<longleftrightarrow> quoted" using c(2) assms(1,4) by (cases t) (simp_all add: peek_rest)
    then show "parse_segment c = (Ok \<lparr>sg_name = n, sg_path = p, sg_quoted = quoted\<rparr>, adv (length (t @ fmt_path p)) c)"
      using readsD [OF both c] by (simp add: parse_segment_def Let_def)
  qed (rule reads_utf8 [OF both])
qed

lemma reads_bare_segment:
  assumes "utf8 n" "n \<noteq> []" "hd n \<noteq> CHR 0x22" "bare_name name_break n" "trim_blanks n = n" "wf_path p"
  shows "reads parse_segment (n @ fmt_path p) \<lparr>sg_name = n, sg_path = p, sg_quoted = False\<rparr> (path_end p)"
proof -
  have bare: "\<forall>b \<in> set n. \<not> name_break b" "\<not> contains ''->'' n" using assms(4) by (simp_all add: bare_name_def)
  have "reads (scan_name name_break) n n name_end"
  proof (rule reads_weaken [OF reads_scan_name [OF assms(1) name_break_ascii bare]])
    fix r assume "name_end r"
    then show "(r = [] \<or> name_break (hd r) \<or> starts_with ''->'' r) \<and> (r = [] \<or> hd r \<noteq> CHR ''>'')"
      by (cases r) (auto simp: name_end_def name_break_def)
  qed
  from reads_sbind_ret [OF this, of trim_blanks] show ?thesis using assms by (intro reads_segment_from) simp_all
qed

lemma reads_segment:
  assumes "wf_name n" "wf_path p"
  shows "reads parse_segment (fmt_name n @ fmt_path p) (seg_of n p) (path_end p)"
proof (cases "name_needs_quotes n")
  case True
  then have "reads parse_segment (write_escaped n @ fmt_path p) \<lparr>sg_name = n, sg_path = p, sg_quoted = True\<rparr> (path_end p)"
    using assms reads_scan_quoted [of n name_end] by (intro reads_segment_from) (simp_all add: wf_name_def write_escaped_eq)
  then show ?thesis using True by (simp add: fmt_name_def seg_of_def)
next
  case False
  obtain b t where "n = b # t" "b \<noteq> CHR 0x22" "bare_name name_break n" "trim_blanks n = n" using bare_fmt_name [OF False] by metis
  then show ?thesis using reads_bare_segment [of n p] assms False by (simp add: wf_name_def fmt_name_def seg_of_def)
qed

lemma fmt_element_hd:
  obtains b t where "fmt_element s = b # t" "\<not> blank b" "b \<notin> {CHR '','', CHR ''('', CHR '')'', CHR ''{'', CHR ''}''}"
proof (cases "element_needs_quotes s")
  case True
  then show thesis by (intro that) (auto simp: fmt_element_def write_escaped_eq blank_def)
next
  case False
  then obtain b t where "s = b # t" by (cases s) (auto simp: element_needs_quotes_def)
  with False show thesis by (intro that) (auto simp: fmt_element_def element_needs_quotes_def)
qed

lemma reads_element:
  assumes "utf8 s" "terms \<subseteq> {CHR '','', CHR '')'', CHR ''}''}"
  shows "reads (scan_element terms) (fmt_element s) s (\<lambda>r. r = [] \<or> hd r \<in> terms)"
proof -
  have a: "b \<in> terms \<Longrightarrow> ascii b" for b using assms(2) by (auto simp: ascii_def code_def)
  show ?thesis
  proof (cases "element_needs_quotes s")
    case True
    show ?thesis
    proof (rule readsI)
      fix c r assume c: "cur_ok c" "rest_of c = fmt_element s @ r" "r = [] \<or> hd r \<in> terms"
      have rest: "rest_of c = write_escaped s @ r" using c(2) True by (simp add: fmt_element_def)
      note q = reads_cur [OF reads_scan_quoted [OF assms(1), of "\<lambda>_. True"] c(1) rest]
      have "peek c = Some (CHR 0x22)" using rest by (simp add: peek_rest write_escaped_eq)
      moreover have "case peek (adv (length (write_escaped s)) c) of None \<Rightarrow> True | Some b \<Rightarrow> b \<in> terms"
        using q(3) c(3) by (auto simp: peek_rest split: list.splits)
      ultimately show "scan_element terms c = (Ok s, adv (length (fmt_element s)) c)"
        using q(1) True by (simp add: scan_element_def fmt_element_def)
    qed (use True utf8_write_escaped [OF assms(1)] in \<open>simp add: fmt_element_def\<close>)
  next
    case False
    show ?thesis
    proof (rule readsI)
      fix c r assume c: "cur_ok c" "rest_of c = fmt_element s @ r" "r = [] \<or> hd r \<in> terms"
      have s: "s \<noteq> []" "\<forall>b \<in> set s. b \<notin> terms" "hd s \<noteq> CHR 0x22" using False assms(2) by (cases s; auto simp: element_needs_quotes_def)+
      have tw: "takeWhile (\<lambda>b. b \<notin> terms) (s @ r) = s" using s(2) c(3) by (cases r) (auto simp: takeWhile_append)
      have "peek c \<noteq> Some (CHR 0x22)" using c(2) s(1,3) False by (cases s) (auto simp: peek_rest fmt_element_def)
      then show "scan_element terms c = (Ok s, adv (length (fmt_element s)) c)"
        using span_ok(1) [OF c(1) a] c(2) tw False by (simp add: scan_element_def fmt_element_def)
    qed (use False assms(1) in \<open>simp add: fmt_element_def\<close>)
  qed
qed

lemma reads_elements:
  assumes "es \<noteq> []" "\<forall>e \<in> set es. utf8 e" "close \<in> {CHR '')'', CHR ''}''}"
  shows "reads (parse_elements close out) (join '','' (map fmt_element es) @ [close]) (out @ es) R"
  using assms(1,2)
proof (induction es arbitrary: out rule: list_nonempty_induct)
  case (single e)
  have terms: "{CHR '','', close} \<subseteq> {CHR '','', CHR '')'', CHR ''}''}" using assms(3) by auto
  have close: "ascii close" using assms(3) by (auto simp: ascii_def code_def)
  note el = reads_element [OF _ terms, of e]
  have u: "utf8 [close]" using close by (simp add: utf8_ascii)
  show ?case
  proof (rule readsI)
    show "utf8 (join '','' (map fmt_element [e]) @ [close])" using reads_utf8 [OF el] single u by (simp add: utf8_append)
    fix c r assume c: "cur_ok c" "rest_of c = (join '','' (map fmt_element [e]) @ [close]) @ r"
    note s = reads_cur [OF el c(1), of "[close] @ r"]
    have "expect_as close ws (adv (length (fmt_element e)) c) = (Ok (), adv 1 (adv (length (fmt_element e)) c))" for ws
      using readsD [OF reads_expect(1) [OF close]] s c single by simp
    then show "parse_elements close out c = (Ok (out @ [e]), adv (length (join '','' (map fmt_element [e]) @ [close])) c)"
      using s single c assms(3) by (subst parse_elements.simps) (auto simp: peek_rest sbind_def sret_def)
  qed
next
  case (cons e es)
  have terms: "{CHR '','', close} \<subseteq> {CHR '','', CHR '')'', CHR ''}''}" using assms(3) by auto
  note el = reads_element [OF _ terms, of e] and IH = cons.IH [of "out @ [e]"]
  have join: "join '','' (fmt_element e # map fmt_element es) = fmt_element e @ '','' @ join '','' (map fmt_element es)" using cons.hyps by (cases es) auto
  have comma: "utf8 '',''" by (rule utf8_ascii) (simp add: ascii_def code_def)
  show ?case
  proof (rule readsI)
    show "utf8 (join '','' (map fmt_element (e # es)) @ [close])" using reads_utf8 [OF el] reads_utf8 [OF IH] cons.prems comma utf8_append [of "'',''"]
      by (simp add: join utf8_append)
    fix c r assume c: "cur_ok c" "rest_of c = (join '','' (map fmt_element (e # es)) @ [close]) @ r" "R r"
    have rest: "rest_of c = fmt_element e @ '','' @ (join '','' (map fmt_element es) @ [close]) @ r" using c(2) by (simp add: join)
    have s: "scan_element {CHR '','', close} c = (Ok e, adv (length (fmt_element e)) c)" "cur_ok (adv (length (fmt_element e)) c)"
      "rest_of (adv (length (fmt_element e)) c) = '','' @ (join '','' (map fmt_element es) @ [close]) @ r"
      using reads_cur [OF el c(1) rest] cons.prems by auto
    note past = cur_ok_past [OF s(2,3) comma]
    have "parse_elements close out c = parse_elements close (out @ [e]) (adv (length '','') (adv (length (fmt_element e)) c))"
      using s by (subst parse_elements.simps) (simp add: peek_rest bump_def)
    also have "\<dots> = (Ok ((out @ [e]) @ es), adv (length (join '','' (map fmt_element es) @ [close])) (adv (length '','') (adv (length (fmt_element e)) c)))"
      using cons.prems by (intro readsD [OF IH past(1,2) c(3)]) simp
    finally show "parse_elements close out c = (Ok (out @ e # es), adv (length (join '','' (map fmt_element (e # es)) @ [close])) c)" by (simp add: join)
  qed
qed

section \<open>Conditions\<close>

lemma op_parse_name: "op_parse (op_name p) = Some p"
  by (cases p) (simp_all add: op_name_def op_parse_def)

lemma op_name_plain:
  "list_all ascii (op_name p)" "\<forall>b \<in> set (op_name p). \<not> name_break b" "\<not> contains ''->'' (op_name p)"
  "\<not> starts_with ''not.'' (op_name p @ r)"
  by (cases p; simp add: op_name_def ascii_def code_def name_break_def)+

lemma reads_op: "reads (parse_op negated at) (op_name p) p (\<lambda>r. r \<noteq> [] \<and> hd r \<in> {CHR ''.'', CHR ''(''})"
  unfolding parse_op_def
proof (rule reads_sbind_last)
  show "reads (scan_name name_break) (op_name p) (op_name p)
      (\<lambda>r. (r = [] \<or> name_break (hd r) \<or> starts_with ''->'' r) \<and> (r = [] \<or> hd r \<noteq> CHR ''>''))"
    by (rule reads_scan_name [OF utf8_ascii name_break_ascii]) (simp_all add: op_name_plain)
qed (auto simp: op_parse_name name_break_def reads_sret)

definition fmt_modifier :: "quant option \<times> string option \<Rightarrow> string" where
  "fmt_modifier qc =
     (case snd qc of None \<Rightarrow> [] | Some cfg \<Rightarrow> ''('' @ cfg @ '')'') @
     (case fst qc of None \<Rightarrow> [] | Some Q_Any \<Rightarrow> ''(any)'' | Some Q_All \<Rightarrow> ''(all)'')"

lemma reads_bracket:
  assumes "utf8 w" "bare_name name_break w" "is_fts p \<or> quantifiable p"
    "(if is_fts p \<and> w \<noteq> [] then Ok (None, Some w) else if w = ''any'' \<and> quantifiable p then Ok (Some Q_Any, None)
      else if w = ''all'' \<and> quantifiable p then Ok (Some Q_All, None) else Panic) = (Ok qc :: (quant option \<times> string option, rest_error) outcome)"
  shows "reads (parse_modifier negated at p) (''('' @ w @ '')'') qc R"
proof -
  have a: "ascii (CHR ''('')" "ascii (CHR '')'')" by (simp_all add: ascii_def code_def)
  let ?m = "\<lambda>modifier. sbind (scan_name name_break) (\<lambda>m.
           sbind (if is_fts p \<and> m \<noteq> [] then sret (Ok (None, Some m))
                  else if m = ''any'' \<and> quantifiable p then sret (Ok (Some Q_Any, None))
                  else if m = ''all'' \<and> quantifiable p then sret (Ok (Some Q_All, None))
                  else err_at modifier (slot negated at modifier)) (\<lambda>qc.
           sbind (eat (CHR '')'')) (\<lambda>ok. if ok then sret (Ok qc) else err_slot negated at)))"
  have close: "reads (sbind (eat (CHR '')'')) (\<lambda>ok. if ok then sret (Ok qc) else err_slot negated at)) '')'' qc R"
    by (rule reads_sbind_last [OF reads_eat [OF a(2)]]) (simp_all add: reads_sret)
  have pick: "reads (if is_fts p \<and> w \<noteq> [] then sret (Ok (None, Some w))
                  else if w = ''any'' \<and> quantifiable p then sret (Ok (Some Q_Any, None))
                  else if w = ''all'' \<and> quantifiable p then sret (Ok (Some Q_All, None))
                  else err_at modifier (slot negated at modifier)) [] qc (\<lambda>_. True)" for modifier
    using assms(4) by (auto simp: reads_sret split: if_splits)
  have m: "reads (?m modifier) (w @ '')'') qc R" for modifier
  proof (rule reads_sbind [OF reads_scan_name [OF assms(1) name_break_ascii]])
    show "reads (sbind (if is_fts p \<and> w \<noteq> [] then sret (Ok (None, Some w))
                  else if w = ''any'' \<and> quantifiable p then sret (Ok (Some Q_Any, None))
                  else if w = ''all'' \<and> quantifiable p then sret (Ok (Some Q_All, None))
                  else err_at modifier (slot negated at modifier)) (\<lambda>qc. sbind (eat (CHR '')'')) (\<lambda>ok. if ok then sret (Ok qc) else err_slot negated at))) '')'' qc R"
      by (rule reads_sbind_first [OF pick]) (use close in simp_all)
  qed (use assms(2) in \<open>auto simp: bare_name_def name_break_def\<close>)
  show ?thesis
  proof (rule readsI)
    show "utf8 (''('' @ w @ '')'')" using reads_utf8 [OF m] utf8_append [of "''(''"] a by (simp add: utf8_ascii)
    fix c r assume c: "cur_ok c" "rest_of c = (''('' @ w @ '')'') @ r" "R r"
    have p: "peek c = Some (CHR ''('')" using c(2) by (simp add: peek_rest)
    have b: "cur_ok (bump c)" "rest_of (bump c) = (w @ '')'') @ r" using cur_ok_bump [OF c(1) p a(1)] c(2) by (simp_all add: bump_def)
    show "parse_modifier negated at p c = (Ok qc, adv (length (''('' @ w @ '')'')) c)"
    proof -
      have "adv (length (w @ '')'')) (bump c) = adv (length (''('' @ w @ '')'')) c" by (simp add: bump_def)
      with readsD [OF m b c(3)] have r: "?m modifier (bump c) = (Ok qc, adv (length (''('' @ w @ '')'')) c)" for modifier by (simp only:)
      show ?thesis using p assms(3) unfolding parse_modifier_def Let_def r by auto
    qed
  qed
qed

lemma reads_modifier:
  assumes "wf_mods p qc"
  shows "reads (parse_modifier negated at p) (fmt_modifier qc) qc (\<lambda>r. r \<noteq> [] \<and> hd r = CHR ''.'')"
proof -
  obtain quant config where qc: "qc = (quant, config)" by fastforce
  have words: "utf8 ''any''" "utf8 ''all''" "bare_name name_break ''any''" "bare_name name_break ''all''"
    by (simp_all add: utf8_ascii ascii_def code_def bare_name_def name_break_def)
  show ?thesis
  proof (cases quant)
    case (Some q)
    then have q: "quantifiable p" "config = None" "\<not> is_fts p" using assms qc by (auto simp: wf_mods_def quantifiable_def is_fts_def)
    show ?thesis
    proof (cases q)
      case Q_Any
      have "reads (parse_modifier negated at p) (''('' @ ''any'' @ '')'') (Some Q_Any, None) (\<lambda>r. r \<noteq> [] \<and> hd r = CHR ''.'')"
        by (rule reads_bracket [OF words(1,3)]) (use q in auto)
      then show ?thesis using Some Q_Any q(2) qc by (simp add: fmt_modifier_def)
    next
      case Q_All
      have "reads (parse_modifier negated at p) (''('' @ ''all'' @ '')'') (Some Q_All, None) (\<lambda>r. r \<noteq> [] \<and> hd r = CHR ''.'')"
        by (rule reads_bracket [OF words(2,4)]) (use q in auto)
      then show ?thesis using Some Q_All q(2) qc by (simp add: fmt_modifier_def)
    qed
  next
    case None
    show ?thesis
    proof (cases config)
      case (Some cfg)
      then have "is_fts p" "wf_name cfg" "bare_name name_break cfg" using assms qc by (auto simp: wf_mods_def)
      then have "reads (parse_modifier negated at p) (''('' @ cfg @ '')'') (None, Some cfg) (\<lambda>r. r \<noteq> [] \<and> hd r = CHR ''.'')"
        by (intro reads_bracket) (auto simp: wf_name_def)
      then show ?thesis using Some None qc by (simp add: fmt_modifier_def)
    next
      case c: None
      show ?thesis
      proof (rule readsI)
        fix k r assume "rest_of k = fmt_modifier qc @ r" "r \<noteq> [] \<and> hd r = CHR ''.''"
        then have "peek k = Some (CHR ''.'')" using None c qc by (cases r) (auto simp: fmt_modifier_def peek_rest)
        then show "parse_modifier negated at p k = (Ok qc, adv (length (fmt_modifier qc)) k)"
          using None c qc by (simp add: parse_modifier_def fmt_modifier_def)
      qed (use None c qc in \<open>simp add: fmt_modifier_def\<close>)
    qed
  qed
qed

lemma reads_dot: "reads (parse_dot negated at) ''.'' () R"
  unfolding parse_dot_def by (rule reads_sbind_last [OF reads_eat]) (simp_all add: reads_sret ascii_def code_def)

text \<open>What may follow a value: nothing behind a top level literal, a terminator behind one in a tree.\<close>

definition value_end :: "bool \<Rightarrow> string \<Rightarrow> bool" where
  "value_end top_level r \<longleftrightarrow> (if top_level then r = [] else r = [] \<or> hd r \<in> {CHR '','', CHR '')''})"

lemma join_elements_hd:
  assumes "es \<noteq> []"
  obtains b t where "join '','' (map fmt_element es) = b # t" "\<not> blank b" "b \<noteq> CHR ''}''"
proof -
  obtain e es' where es: "es = e # es'" using assms by (cases es) auto
  obtain b t where b: "fmt_element e = b # t" "\<not> blank b" "b \<notin> {CHR '','', CHR ''('', CHR '')'', CHR ''{'', CHR ''}''}" by (rule fmt_element_hd)
  have "join '','' (map fmt_element es) = b # tl (join '','' (map fmt_element es))" using b(1) by (cases es') (simp_all add: es)
  from that [OF this b(2)] b(3) show thesis by blast
qed

lemma reads_list:
  assumes "es \<noteq> []" "\<forall>e \<in> set es. utf8 e"
  shows "reads (parse_value Op_In quant in_tree) (fmt_value top_level (VList es)) (VList es) R"
proof -
  have a: "ascii (CHR ''('')" by (simp add: ascii_def code_def)
  obtain b t where b: "join '','' (map fmt_element es) = b # t" "\<not> blank b" by (rule join_elements_hd [OF assms(1)])
  have "reads (sbind (parse_elements (CHR '')'') []) (\<lambda>es. sret (Ok (VList es)))) (join '','' (map fmt_element es) @ '')'') (VList es) R"
    using reads_sbind_ret [OF reads_elements [OF assms, of "CHR '')''" "[]" R], of VList] by simp
  then have "reads (sbind skip_spaces (\<lambda>_. sbind (parse_elements (CHR '')'') []) (\<lambda>es. sret (Ok (VList es))))) (join '','' (map fmt_element es) @ '')'') (VList es) R"
    by (rule reads_sbind_first [OF reads_skip_spaces]) (use b in simp)
  then have "reads (sbind (expect_byte (CHR ''('')) (\<lambda>_. sbind skip_spaces (\<lambda>_. sbind (parse_elements (CHR '')'') []) (\<lambda>es. sret (Ok (VList es))))))
      (''('' @ join '','' (map fmt_element es) @ '')'') (VList es) R"
    by (rule reads_sbind [OF reads_expect(2) [OF a, of "\<lambda>_. True"]]) simp
  then have "reads (sbind skip_spaces (\<lambda>_. sbind (expect_byte (CHR ''('')) (\<lambda>_. sbind skip_spaces (\<lambda>_. sbind (parse_elements (CHR '')'') []) (\<lambda>es. sret (Ok (VList es)))))))
      (''('' @ join '','' (map fmt_element es) @ '')'') (VList es) R"
    by (rule reads_sbind_first [OF reads_skip_spaces]) (simp add: blank_def)
  then show ?thesis by (simp add: parse_value_def fmt_value_def)
qed

lemma reads_array:
  assumes "\<forall>e \<in> set es. utf8 e" "p \<noteq> Op_In" "quant \<noteq> None"
  shows "reads (parse_value p quant in_tree) (fmt_value top_level (VArray es)) (VArray es) R"
proof -
  have a: "ascii (CHR ''{'')" "ascii (CHR ''}'')" by (simp_all add: ascii_def code_def)
  let ?tail = "sbind (eat (CHR ''}'')) (\<lambda>empty. if empty then sret (Ok (VArray [])) else sbind (parse_elements (CHR ''}'') []) (\<lambda>es. sret (Ok (VArray es))))"
  have "reads ?tail (join '','' (map fmt_element es) @ ''}'') (VArray es) R"
  proof (cases "es = []")
    case True
    have "reads ?tail ''}'' (VArray []) R"
      by (rule reads_sbind_last [OF reads_eat [OF a(2), of "\<lambda>_. True"]]) (simp_all add: reads_sret)
    then show ?thesis using True by simp
  next
    case False
    obtain b t where b: "join '','' (map fmt_element es) = b # t" "b \<noteq> CHR ''}''" by (rule join_elements_hd [OF False])
    have "reads (sbind (parse_elements (CHR ''}'') []) (\<lambda>es. sret (Ok (VArray es)))) (join '','' (map fmt_element es) @ ''}'') (VArray es) R"
      using reads_sbind_ret [OF reads_elements [OF False assms(1), of "CHR ''}''" "[]" R], of VArray] by simp
    then show ?thesis by (intro reads_sbind_first [OF reads_not_eat]) (use b in simp_all)
  qed
  then have "reads (sbind (expect_byte (CHR ''{'')) (\<lambda>_. ?tail)) (''{'' @ join '','' (map fmt_element es) @ ''}'') (VArray es) R"
    by (rule reads_sbind [OF reads_expect(2) [OF a(1), of "\<lambda>_. True"]]) simp
  then show ?thesis using assms(2,3) by (simp add: parse_value_def fmt_value_def)
qed

lemma reads_literal:
  assumes "utf8 s" "p \<noteq> Op_In"
  shows "reads (parse_value p None (\<not> top_level)) (fmt_value top_level (VLit s)) (VLit s) (value_end top_level)"
proof (cases top_level)
  case True
  have "reads (sbind take_rest (\<lambda>s. sret (Ok (VLit s)))) s (VLit s) (\<lambda>r. r = [])"
  proof (rule reads_sbind_ret, rule readsI [OF assms(1)])
    fix c r assume c: "cur_ok c" "rest_of c = s @ r" "r = []"
    have "c_pos c + length s = length (c_s c)" using arg_cong [OF c(2), of length] c(1,3) by (auto simp: length_rest_of cur_ok_def)
    then show "take_rest c = (Ok s, adv (length s) c)" using take_rest_ok [OF c(1)] c(2,3) by (cases c) (simp add: adv_def)
  qed
  then show ?thesis using True assms(2) by (simp add: parse_value_def fmt_value_def value_end_def [abs_def])
next
  case False
  obtain b t where b: "fmt_element s = b # t" "b \<notin> {CHR '','', CHR ''('', CHR '')'', CHR ''{'', CHR ''}''}" by (rule fmt_element_hd)
  have el: "reads (sbind (scan_element {CHR '','', CHR '')''}) (\<lambda>s. sret (Ok (VLit s)))) (fmt_element s) (VLit s) (\<lambda>r. r = [] \<or> hd r \<in> {CHR '','', CHR '')''})"
    by (rule reads_sbind_ret [OF reads_element [OF assms(1)]]) auto
  have arr: "reads scan_array [] None (\<lambda>r. r = [] \<or> hd r \<noteq> CHR ''{'')"
    by (rule readsI) (auto simp: scan_array_def peek_rest split: list.splits)
  have "reads (sbind scan_array (\<lambda>a. case a of Some s \<Rightarrow> sret (Ok (VLit s)) | None \<Rightarrow> sbind (scan_element {CHR '','', CHR '')''}) (\<lambda>s. sret (Ok (VLit s)))))
      (fmt_element s) (VLit s) (\<lambda>r. r = [] \<or> hd r \<in> {CHR '','', CHR '')''})"
    by (rule reads_sbind_first [OF arr]) (use el b in simp_all)
  then show ?thesis using False assms(2) by (simp add: parse_value_def fmt_value_def value_end_def [abs_def])
qed

lemma reads_value:
  assumes "wf_value p quant v"
  shows "reads (parse_value p quant (\<not> top_level)) (fmt_value top_level v) v (value_end top_level)"
  using assms reads_list [of _ quant "\<not> top_level" top_level "value_end top_level"] reads_array [of _ p quant "\<not> top_level" top_level "value_end top_level"]
    reads_literal [of _ p top_level]
  by (cases v) (auto simp: wf_value_def)

lemma is_values_lower: "s \<in> set IS_VALUES \<Longrightarrow> to_ascii_lowercase s = s"
  by (auto simp: IS_VALUES_def to_ascii_lowercase_def code_def)

lemma reads_rhs:
  assumes "wf_cond k"
  shows "reads (parse_cond_rhs (co_field k) (\<not> top_level)) (fmt_rhs top_level k) k (value_end top_level)"
proof -
  obtain field negated p quant config v where k: "k = \<lparr>co_field = field, co_negated = negated, co_op = p, co_quant = quant, co_config = config, co_value = v\<rparr>"
    by (cases k)
  have wf: "wf_mods p (quant, config)" "wf_value p quant v" using assms by (auto simp: wf_cond_def k)
  have check: "reads (check_is p q v) [] v R" for q R
    using wf is_values_lower by (auto simp: check_is_def wf_value_def wf_mods_def quantifiable_def reads_sret split: filter_value.splits)
  have lit: "reads (parse_literal p quant (\<not> top_level)) (fmt_value top_level v) v (value_end top_level)"
    unfolding parse_literal_def by (rule reads_pos, rule reads_sbind_last [OF reads_value [OF wf(2)]], rule check)
  have "reads (sbind (parse_literal p quant (\<not> top_level)) (\<lambda>v. sret (Ok \<lparr>co_field = field, co_negated = negated, co_op = p, co_quant = quant, co_config = config, co_value = v\<rparr>)))
      (fmt_value top_level v) k (value_end top_level)"
    using reads_sbind_ret [OF lit, of "\<lambda>v. \<lparr>co_field = field, co_negated = negated, co_op = p, co_quant = quant, co_config = config, co_value = v\<rparr>"]
    by (simp add: k)
  then have dot: "reads (sbind (parse_dot negated at) (\<lambda>_. sbind (parse_literal p quant (\<not> top_level)) (\<lambda>v. sret (Ok \<lparr>co_field = field, co_negated = negated, co_op = p, co_quant = quant, co_config = config, co_value = v\<rparr>))))
      (''.'' @ fmt_value top_level v) k (value_end top_level)" for at
    by (rule reads_sbind [OF reads_dot [where R = "\<lambda>_. True"]]) simp
  have mods: "reads (sbind (parse_modifier negated at p) (\<lambda>(quant, config). sbind (parse_dot negated at) (\<lambda>_. sbind (parse_literal p quant (\<not> top_level)) (\<lambda>v. sret (Ok \<lparr>co_field = field, co_negated = negated, co_op = p, co_quant = quant, co_config = config, co_value = v\<rparr>)))))
      (fmt_modifier (quant, config) @ ''.'' @ fmt_value top_level v) k (value_end top_level)" for at
    by (rule reads_sbind [OF reads_modifier [OF wf(1)]]) (simp_all only: prod.case dot, simp)
  have rhs: "reads (parse_rhs_from field (\<not> top_level) negated at) (op_name p @ fmt_modifier (quant, config) @ ''.'' @ fmt_value top_level v) k (value_end top_level)" for at
    unfolding parse_rhs_from_def
    by (rule reads_sbind [OF reads_op], rule mods) (auto simp: fmt_modifier_def split: option.splits quant.splits)
  have shape: "fmt_rhs top_level k = (if negated then ''not.'' else []) @ op_name p @ fmt_modifier (quant, config) @ ''.'' @ fmt_value top_level v"
    by (simp add: fmt_rhs_def fmt_modifier_def k)
  show ?thesis
  proof (cases negated)
    case True
    have "reads (sbind (eat_str ''not.'') (\<lambda>negated c. parse_rhs_from field (\<not> top_level) negated (c_pos c) c))
        (''not.'' @ op_name p @ fmt_modifier (quant, config) @ ''.'' @ fmt_value top_level v) k (value_end top_level)"
    proof (rule reads_sbind [OF reads_eat_str [where R = "\<lambda>_. True"]])
      show "reads (\<lambda>c. parse_rhs_from field (\<not> top_level) True (c_pos c) c) (op_name p @ fmt_modifier (quant, config) @ ''.'' @ fmt_value top_level v) k (value_end top_level)"
        using rhs True by (intro reads_pos [of "parse_rhs_from field (\<not> top_level) True"]) simp
    qed (simp_all add: ascii_def code_def)
    then show ?thesis using shape True by (simp add: parse_cond_rhs_def k)
  next
    case False
    have "reads (sbind (eat_str ''not.'') (\<lambda>negated c. parse_rhs_from field (\<not> top_level) negated (c_pos c) c))
        (op_name p @ fmt_modifier (quant, config) @ ''.'' @ fmt_value top_level v) k (value_end top_level)"
    proof (rule reads_sbind_first [OF reads_not_eat_str])
      show "reads (\<lambda>c. parse_rhs_from field (\<not> top_level) False (c_pos c) c) (op_name p @ fmt_modifier (quant, config) @ ''.'' @ fmt_value top_level v) k (value_end top_level)"
        using rhs False by (intro reads_pos [of "parse_rhs_from field (\<not> top_level) False"]) simp
    qed (simp add: op_name_plain)
    then show ?thesis using shape False by (simp add: parse_cond_rhs_def k)
  qed
qed

section \<open>Trees\<close>

text \<open>More fuel gives the same answer.\<close>

definition agrees :: "('a, 'e, cur) sop \<Rightarrow> ('a, 'e, cur) sop \<Rightarrow> bool" where
  "agrees m m' \<longleftrightarrow> (\<forall>c. fst (m c) \<noteq> Panic \<longrightarrow> m' c = m c)"

lemma agrees_refl [simp]: "agrees m m"
  by (simp add: agrees_def)

lemma agrees_sbind: "agrees m m' \<Longrightarrow> (\<And>x. agrees (f x) (f' x)) \<Longrightarrow> agrees (sbind m f) (sbind m' f')"
  unfolding agrees_def sbind_def by (auto split: prod.splits outcome.splits)

lemma more_fuel:
  "n \<le> m \<Longrightarrow> agrees (parse_group_body n) (parse_group_body m) \<and> agrees (group_items n acc) (group_items m acc) \<and> agrees (parse_item n) (parse_item m)"
proof (induction n arbitrary: m acc)
  case 0
  show ?case by (simp add: agrees_def parse_group_body.simps(1) group_items.simps(1) parse_item.simps(1) sret_def)
next
  case (Suc n)
  then obtain m' where m: "m = Suc m'" "n \<le> m'" by (cases m) auto
  note IH = Suc.IH [OF m(2)]
  have "agrees (group_items (Suc n) acc) (group_items (Suc m') acc)"
    unfolding group_items.simps by (intro agrees_sbind) (auto simp: IH intro!: agrees_sbind)
  moreover have "agrees (parse_group_body (Suc n)) (parse_group_body (Suc m'))"
    unfolding parse_group_body.simps by (intro agrees_sbind) (simp_all add: IH)
  moreover have "agrees (parse_item (Suc n)) (parse_item (Suc m'))"
    unfolding parse_item.simps by (intro agrees_sbind) (auto simp: IH split: option.splits prod.splits intro!: agrees_sbind)
  ultimately show ?case using m by blast
qed

definition node_end :: "string \<Rightarrow> bool" where
  "node_end r \<longleftrightarrow> r = [] \<or> hd r \<in> {CHR '','', CHR '')''}"

lemma not_dot_prefix:
  assumes "CHR ''.'' \<notin> set n" "x = [] \<or> hd x \<in> {CHR ''.'', CHR ''-''}" "starts_with ''not.'' (n @ x)"
  shows "n = ''not''"
proof -
  consider "n = []" | a where "n = [a]" | a b where "n = [a, b]" | a b c where "n = [a, b, c]" | a b c d t where "n = a # b # c # d # t"
    by (metis neq_Nil_conv)
  then show ?thesis using assms by cases (cases x; auto)+
qed

lemma segment_follow:
  "fmt_path p @ ''.'' @ r = [] \<or> hd (fmt_path p @ ''.'' @ r) \<in> {CHR ''.'', CHR ''-''}" "name_end (fmt_path p @ ''.'' @ r)"
  by (cases p; simp add: fmt_path_def fmt_step_def name_end_def name_break_def)+

lemma group_head_condition:
  assumes "wf_name n" "cur_ok c" "rest_of c = fmt_name n @ fmt_path p @ ''.'' @ r"
  shows "group_head c = (Ok None, c)"
proof (cases "name_needs_quotes n")
  case True
  then obtain t where q: "rest_of c = CHR 0x22 # t" using assms(3) by (simp add: fmt_name_def write_escaped_eq)
  then have e: "eat_str ''not.'' c = (Ok False :: (bool, rest_error) outcome, c)" using assms(2) by (simp add: eat_str_def cur_ok_def)
  have "name_span name_break (rest_of c) = 0" by (simp add: q name_break_def)
  then have "scan_name name_break c = (Ok [] :: (string, rest_error) outcome, c)"
    by (simp add: scan_name_ok(1) [OF assms(2), of name_break] name_break_ascii)
  then show ?thesis using e by (simp add: group_head_def sbind_def sret_def trim_blanks_def)
next
  case False
  obtain b t where n: "n = b # t" "bare_name name_break n" "trim_blanks n = n" "n \<notin> {''or'', ''and'', ''not''}"
    using bare_fmt_name [OF False] by metis
  have rest: "rest_of c = n @ fmt_path p @ ''.'' @ r" using assms(3) False by (simp add: fmt_name_def)
  have "CHR ''.'' \<notin> set n" using n(2) by (auto simp: bare_name_def name_break_def)
  then have "\<not> starts_with ''not.'' (rest_of c)" using not_dot_prefix [OF _ segment_follow(1)] n(4) rest by auto
  then have e: "eat_str ''not.'' c = (Ok False :: (bool, rest_error) outcome, c)" using assms(2) by (simp add: eat_str_def cur_ok_def)
  have "name_span name_break (rest_of c) = length n"
    unfolding rest
  proof (rule name_span_bare)
    show "fmt_path p @ ''.'' @ r = [] \<or> name_break (hd (fmt_path p @ ''.'' @ r)) \<or> starts_with ''->'' (fmt_path p @ ''.'' @ r)"
      using segment_follow(2) by (auto simp: name_end_def)
    show "fmt_path p @ ''.'' @ r = [] \<or> hd (fmt_path p @ ''.'' @ r) \<noteq> CHR ''>''" using segment_follow(1) [of p r] by auto
  qed (use n(2) in \<open>auto simp: bare_name_def\<close>)
  then have "scan_name name_break c = (Ok n :: (string, rest_error) outcome, adv (length n) c)"
    by (simp add: scan_name_ok(1) [OF assms(2), of name_break] name_break_ascii rest)
  then show ?thesis using e n(3,4) by (simp add: group_head_def sbind_def sret_def)
qed

lemma reads_condition:
  assumes "wf_node (Cond k)"
  shows "reads (parse_item (Suc fuel)) (fmt_node (Cond k)) (Cond k) node_end"
proof -
  obtain emb n p where f: "co_field k = \<lparr>fi_embed = emb, fi_column = n, fi_path = p\<rparr>" by (cases "co_field k")
  have wf: "wf_cond k" "emb = []" "wf_name n" "wf_path p" using assms f by (auto simp: wf_cond_def wf_field_def)
  have a: "ascii (CHR ''.'')" by (simp add: ascii_def code_def)
  have rhs: "reads (parse_cond_rhs (co_field k) True) (fmt_rhs False k) k node_end"
    using reads_rhs [OF wf(1), of False] by (simp add: value_end_def [abs_def] node_end_def [abs_def])
  have "reads (sbind (parse_cond_rhs (co_field k) True) (\<lambda>c. sret (Ok (Cond c)))) (fmt_rhs False k) (Cond k) node_end"
    by (rule reads_sbind_ret [OF rhs])
  then have "reads (sbind (expect_as (CHR ''.'') [DELIMITER]) (\<lambda>_. sbind (parse_cond_rhs (co_field k) True) (\<lambda>c. sret (Ok (Cond c))))) (''.'' @ fmt_rhs False k) (Cond k) node_end"
    by (rule reads_sbind [OF reads_expect(1) [OF a, where R = "\<lambda>_. True"]]) simp
  then have cond: "reads parse_condition ((fmt_name n @ fmt_path p) @ ''.'' @ fmt_rhs False k) (Cond k) node_end"
    unfolding parse_condition_def by (intro reads_sbind [OF reads_segment [OF wf(3,4)]]) (auto simp: seg_of_def f wf(2) path_end_def)
  show ?thesis
  proof (rule readsI)
    have shape: "fmt_node (Cond k) = (fmt_name n @ fmt_path p) @ ''.'' @ fmt_rhs False k" by (simp add: fmt_field_def f wf(2) fmt_embed_def)
    show "utf8 (fmt_node (Cond k))" using reads_utf8 [OF cond] by (simp only: shape)
    fix c r assume c: "cur_ok c" "rest_of c = fmt_node (Cond k) @ r" "node_end r"
    have rest: "rest_of c = ((fmt_name n @ fmt_path p) @ ''.'' @ fmt_rhs False k) @ r" using c(2) by (simp only: shape)
    have "group_head c = (Ok None, c)" by (rule group_head_condition [OF wf(3) c(1)]) (use rest in simp)
    then show "parse_item (Suc fuel) c = (Ok (Cond k), adv (length (fmt_node (Cond k))) c)"
      using readsD [OF cond c(1) rest c(3)] shape by (simp add: parse_item.simps sbind_def item_condition_def)
  qed
qed

lemma fmt_node_hd: "wf_node n \<Longrightarrow> \<exists>b t. fmt_node n = b # t \<and> \<not> blank b"
proof (cases n)
  case (Group p negated kids)
  then show ?thesis by (cases p; cases negated) (simp_all add: logic_name_def blank_def)
next
  case (Cond k)
  assume "wf_node n"
  then have e: "fi_embed (co_field k) = []" using Cond by simp
  have "\<exists>b t. fmt_name (fi_column (co_field k)) = b # t \<and> \<not> blank b"
  proof (cases "name_needs_quotes (fi_column (co_field k))")
    case False
    then show ?thesis by (metis bare_fmt_name fmt_name_def)
  qed (simp add: fmt_name_def write_escaped_eq blank_def)
  then show ?thesis using Cond e by (auto simp: fmt_field_def fmt_embed_def)
qed

lemma reads_group_head:
  "reads group_head ((if negated then ''not.'' else []) @ logic_name p) (Some (p, negated)) (\<lambda>r. r \<noteq> [] \<and> hd r = CHR ''('')"
proof -
  have w: "utf8 (logic_name p)" "\<forall>b \<in> set (logic_name p). \<not> name_break b" "\<not> contains ''->'' (logic_name p)"
    "trim_blanks (logic_name p) = logic_name p" "list_all ascii (logic_name p)" "\<not> starts_with ''not.'' (logic_name p @ r)" for r
    by (cases p; simp add: logic_name_def utf8_ascii ascii_def code_def name_break_def trim_blanks_def blank_def)+
  let ?m = "\<lambda>negated. sbind (scan_name name_break) (\<lambda>name. sret (Ok (negated, trim_blanks name))) :: (bool \<times> string, rest_error, cur) sop"
  have name: "reads (?m neg) (logic_name p) (neg, logic_name p) (\<lambda>r. r \<noteq> [] \<and> hd r = CHR ''('')" for neg
  proof (rule reads_weaken)
    show "reads (?m neg) (logic_name p) (neg, logic_name p)
        (\<lambda>r. (r = [] \<or> name_break (hd r) \<or> starts_with ''->'' r) \<and> (r = [] \<or> hd r \<noteq> CHR ''>''))"
      using reads_sbind_ret [OF reads_scan_name [OF w(1) name_break_ascii w(2,3)], of "\<lambda>name. (neg, trim_blanks name)"] w(4) by simp
  qed (auto simp: name_break_def)
  have both: "reads (sbind (eat_str ''not.'') ?m) ((if negated then ''not.'' else []) @ logic_name p) (negated, logic_name p) (\<lambda>r. r \<noteq> [] \<and> hd r = CHR ''('')"
  proof (cases negated)
    case True
    have "reads (sbind (eat_str ''not.'') ?m) (''not.'' @ logic_name p) (True, logic_name p) (\<lambda>r. r \<noteq> [] \<and> hd r = CHR ''('')"
      by (rule reads_sbind [OF reads_eat_str [where R = "\<lambda>_. True"]]) (simp_all add: name ascii_def code_def)
    then show ?thesis using True by simp
  next
    case False
    have "reads (sbind (eat_str ''not.'') ?m) (logic_name p) (False, logic_name p) (\<lambda>r. r \<noteq> [] \<and> hd r = CHR ''('')"
      by (rule reads_sbind_first [OF reads_not_eat_str]) (simp_all add: name w(6))
    then show ?thesis using False by simp
  qed
  show ?thesis
  proof (rule readsI)
    fix c r assume c: "cur_ok c" "rest_of c = ((if negated then ''not.'' else []) @ logic_name p) @ r" "r \<noteq> [] \<and> hd r = CHR ''(''"
    note b = reads_cur [OF both c]
    have "r = [] \<or> \<not> blank (hd r)" using c(3) by (simp add: blank_def)
    then have sp: "skip_spaces (adv (length ((if negated then ''not.'' else []) @ logic_name p)) c) =
        (Ok () :: (unit, rest_error) outcome, adv (length ((if negated then ''not.'' else []) @ logic_name p)) c)"
      using readsD [OF reads_skip_spaces b(2), of r] b(3) by simp
    have "peek (adv (length ((if negated then ''not.'' else []) @ logic_name p)) c) = Some (CHR ''('')"
      using b(3) c(3) by (cases r) (auto simp: peek_rest)
    moreover have "logic_name p = ''and'' \<or> logic_name p = ''or''" "(if logic_name p = ''and'' then L_And else L_Or) = p"
      by (cases p; simp add: logic_name_def)+
    ultimately show "group_head c = (Ok (Some (p, negated)), adv (length ((if negated then ''not.'' else []) @ logic_name p)) c)"
      unfolding group_head_def b(1) outcome.case prod.case sp by auto
  qed (rule reads_utf8 [OF both])
qed

text \<open>With enough fuel.\<close>

definition reads_node :: "node \<Rightarrow> bool" where
  "reads_node n \<longleftrightarrow> (\<exists>F. \<forall>fuel \<ge> F. reads (parse_item fuel) (fmt_node n) n node_end)"

definition no_blank :: "string \<Rightarrow> bool" where
  "no_blank r \<longleftrightarrow> r = [] \<or> \<not> blank (hd r)"

lemma reads_spaces: "reads skip_spaces [] () no_blank"
  using reads_skip_spaces by (simp add: no_blank_def [abs_def])

lemma reads_last_item:
  assumes "reads (parse_item fuel) (fmt_node n) n node_end"
  shows "reads (group_items (Suc fuel) acc) (fmt_node n @ '')'') (acc @ [n]) no_blank"
proof -
  have a: "ascii (CHR '')'')" by (simp add: ascii_def code_def)
  have "reads (sbind skip_spaces (\<lambda>_. sret (Ok (acc @ [n])))) [] (acc @ [n]) no_blank"
    by (rule reads_sbind_first [OF reads_spaces reads_sret]) simp
  then have "reads (sbind (expect_as (CHR '')'') [word_lit '','', word_lit '')'']) (\<lambda>_. sbind skip_spaces (\<lambda>_. sret (Ok (acc @ [n]))))) '')'' (acc @ [n]) no_blank"
    by (rule reads_sbind_last [OF reads_expect(1) [OF a, where R = "\<lambda>_. True"]]) simp
  then have "reads (sbind (eat (CHR '','')) (\<lambda>comma. if comma then sbind skip_spaces (\<lambda>_. group_items fuel (acc @ [n]))
      else sbind (expect_as (CHR '')'') [word_lit '','', word_lit '')'']) (\<lambda>_. sbind skip_spaces (\<lambda>_. sret (Ok (acc @ [n])))))) '')'' (acc @ [n]) no_blank"
    by (intro reads_sbind_first [OF reads_not_eat]) simp_all
  then have "reads (sbind skip_spaces (\<lambda>_. sbind (eat (CHR '','')) (\<lambda>comma. if comma then sbind skip_spaces (\<lambda>_. group_items fuel (acc @ [n]))
      else sbind (expect_as (CHR '')'') [word_lit '','', word_lit '')'']) (\<lambda>_. sbind skip_spaces (\<lambda>_. sret (Ok (acc @ [n]))))))) '')'' (acc @ [n]) no_blank"
    by (rule reads_sbind_first [OF reads_spaces]) (simp add: no_blank_def blank_def)
  then show ?thesis unfolding group_items.simps by (rule reads_sbind [OF assms]) (simp add: node_end_def)
qed

lemma reads_next_item:
  assumes "reads (parse_item fuel) (fmt_node n) n node_end" "reads (group_items fuel (acc @ [n])) t (acc @ n # ns) no_blank"
    "t = b # t'" "\<not> blank b"
  shows "reads (group_items (Suc fuel) acc) (fmt_node n @ '','' @ t) (acc @ n # ns) no_blank"
proof -
  have a: "ascii (CHR '','')" by (simp add: ascii_def code_def)
  have "reads (sbind skip_spaces (\<lambda>_. group_items fuel (acc @ [n]))) t (acc @ n # ns) no_blank"
    by (rule reads_sbind_first [OF reads_spaces assms(2)]) (simp add: assms(3,4) no_blank_def)
  then have "reads (sbind (eat (CHR '','')) (\<lambda>comma. if comma then sbind skip_spaces (\<lambda>_. group_items fuel (acc @ [n]))
      else sbind (expect_as (CHR '')'') [word_lit '','', word_lit '')'']) (\<lambda>_. sbind skip_spaces (\<lambda>_. sret (Ok (acc @ [n])))))) ('','' @ t) (acc @ n # ns) no_blank"
    by (intro reads_sbind [OF reads_eat [OF a, where R = "\<lambda>_. True"]]) simp_all
  then have "reads (sbind skip_spaces (\<lambda>_. sbind (eat (CHR '','')) (\<lambda>comma. if comma then sbind skip_spaces (\<lambda>_. group_items fuel (acc @ [n]))
      else sbind (expect_as (CHR '')'') [word_lit '','', word_lit '')'']) (\<lambda>_. sbind skip_spaces (\<lambda>_. sret (Ok (acc @ [n]))))))) ('','' @ t) (acc @ n # ns) no_blank"
    by (rule reads_sbind_first [OF reads_spaces]) (simp add: no_blank_def blank_def)
  then show ?thesis unfolding group_items.simps by (rule reads_sbind [OF assms(1)]) (simp add: node_end_def)
qed

lemma reads_kids:
  assumes "ns \<noteq> []" "\<forall>n \<in> set ns. wf_node n \<and> reads_node n"
  shows "\<exists>F. \<forall>fuel \<ge> F. \<forall>acc. reads (group_items fuel acc) (join '','' (map fmt_node ns) @ '')'') (acc @ ns) no_blank"
  using assms
proof (induction ns rule: list_nonempty_induct)
  case (single n)
  then obtain F where F: "\<forall>fuel \<ge> F. reads (parse_item fuel) (fmt_node n) n node_end" by (auto simp: reads_node_def)
  have "reads (group_items fuel acc) (join '','' (map fmt_node [n]) @ '')'') (acc @ [n]) no_blank" if "fuel \<ge> Suc F" for fuel acc
    using that F reads_last_item [of "fuel - 1" n acc] by (cases fuel) auto
  then show ?case by blast
next
  case (cons n ns)
  then obtain F where F: "\<forall>fuel \<ge> F. reads (parse_item fuel) (fmt_node n) n node_end" by (auto simp: reads_node_def)
  obtain G where G: "\<forall>fuel \<ge> G. \<forall>acc. reads (group_items fuel acc) (join '','' (map fmt_node ns) @ '')'') (acc @ ns) no_blank" using cons by auto
  obtain m ms where ns: "ns = m # ms" using cons.hyps by (cases ns) auto
  obtain b t' where b: "fmt_node m = b # t'" "\<not> blank b" using fmt_node_hd [of m] cons.prems ns by auto
  obtain t'' where t: "join '','' (map fmt_node ns) @ '')'' = b # t''" using b(1) by (cases ms) (auto simp: ns)
  have join: "join '','' (map fmt_node (n # ns)) @ '')'' = fmt_node n @ '','' @ join '','' (map fmt_node ns) @ '')''" by (simp add: ns)
  have "reads (group_items fuel acc) (join '','' (map fmt_node (n # ns)) @ '')'') (acc @ n # ns) no_blank" if f: "fuel \<ge> Suc (max F G)" for fuel acc
  proof -
    obtain f' where f': "fuel = Suc f'" "F \<le> f'" "G \<le> f'" using f by (cases fuel) auto
    have "reads (group_items f' (acc @ [n])) (join '','' (map fmt_node ns) @ '')'') (acc @ n # ns) no_blank"
      using spec [OF mp [OF spec [OF G, of f'] f'(3)], of "acc @ [n]"] by simp
    then have "reads (group_items (Suc f') acc) (fmt_node n @ '','' @ join '','' (map fmt_node ns) @ '')'') (acc @ n # ns) no_blank"
      by (rule reads_next_item [OF mp [OF spec [OF F, of f'] f'(2)] _ t b(2)])
    then show ?thesis by (simp only: join f'(1))
  qed
  then show ?case by blast
qed

lemma reads_body:
  assumes "ns \<noteq> []" "\<forall>n \<in> set ns. wf_node n \<and> reads_node n"
  shows "\<exists>F. \<forall>fuel \<ge> F. reads (parse_group_body fuel) (''('' @ join '','' (map fmt_node ns) @ '')'') ns no_blank"
proof -
  have a: "ascii (CHR ''('')" by (simp add: ascii_def code_def)
  obtain F where F: "\<forall>fuel \<ge> F. \<forall>acc. reads (group_items fuel acc) (join '','' (map fmt_node ns) @ '')'') (acc @ ns) no_blank"
    using reads_kids [OF assms] by blast
  obtain m ms where ns: "ns = m # ms" using assms(1) by (cases ns) auto
  obtain b t' where b: "fmt_node m = b # t'" "\<not> blank b" using fmt_node_hd [of m] assms(2) ns by auto
  obtain t where t: "join '','' (map fmt_node ns) @ '')'' = b # t" using b(1) by (cases ms) (auto simp: ns)
  have "reads (parse_group_body fuel) (''('' @ join '','' (map fmt_node ns) @ '')'') ns no_blank" if f: "fuel \<ge> Suc F" for fuel
  proof -
    obtain f' where f': "fuel = Suc f'" "F \<le> f'" using f by (cases fuel) auto
    have "reads (group_items f' []) (join '','' (map fmt_node ns) @ '')'') ns no_blank" using spec [OF mp [OF spec [OF F, of f'] f'(2)], of "[]"] by simp
    then have "reads (sbind skip_spaces (\<lambda>_. group_items f' [])) (join '','' (map fmt_node ns) @ '')'') ns no_blank"
      by (rule reads_sbind_first [OF reads_spaces]) (simp add: t b(2) no_blank_def flip: append_assoc)
    then have "reads (sbind (expect_byte (CHR ''('')) (\<lambda>_. sbind skip_spaces (\<lambda>_. group_items f' []))) (''('' @ join '','' (map fmt_node ns) @ '')'') ns no_blank"
      by (rule reads_sbind [OF reads_expect(2) [OF a, where R = "\<lambda>_. True"]]) simp
    then show ?thesis unfolding f'(1) parse_group_body.simps
      by (rule reads_sbind_first [OF reads_spaces]) (simp add: no_blank_def blank_def)
  qed
  then show ?thesis by blast
qed

lemma wf_reads_node: "wf_node n \<Longrightarrow> reads_node n"
proof (induction n)
  case (Group p negated kids)
  then have "kids \<noteq> []" "\<forall>n \<in> set kids. wf_node n \<and> reads_node n" by (auto simp: list_all_iff)
  from reads_body [OF this] obtain F where F: "\<forall>fuel \<ge> F. reads (parse_group_body fuel) (''('' @ join '','' (map fmt_node kids) @ '')'') kids no_blank" by blast
  have "reads (parse_item fuel) (fmt_node (Group p negated kids)) (Group p negated kids) node_end" if f: "fuel \<ge> Suc F" for fuel
  proof -
    obtain f' where f': "fuel = Suc f'" "F \<le> f'" using f by (cases fuel) auto
    have "reads (sbind (parse_group_body f') (\<lambda>kids. sret (Ok (Group p negated kids)))) (''('' @ join '','' (map fmt_node kids) @ '')'') (Group p negated kids) no_blank"
      using F f'(2) by (intro reads_sbind_ret) blast
    then have b: "reads (sbind (parse_group_body f') (\<lambda>kids. sret (Ok (Group p negated kids)))) (''('' @ join '','' (map fmt_node kids) @ '')'') (Group p negated kids) node_end"
      by (rule reads_weaken) (auto simp: node_end_def no_blank_def blank_def)
    have "reads (parse_item (Suc f')) (((if negated then ''not.'' else []) @ logic_name p) @ ''('' @ join '','' (map fmt_node kids) @ '')'') (Group p negated kids) node_end"
      unfolding parse_item.simps by (rule reads_sbind [OF reads_group_head]) (use b in simp_all)
    then show ?thesis using f'(1) by simp
  qed
  then show ?case unfolding reads_node_def by blast
next
  case (Cond k)
  have "reads (parse_item fuel) (fmt_node (Cond k)) (Cond k) node_end" if f: "fuel \<ge> 1" for fuel
  proof -
    obtain f' where f': "fuel = Suc f'" using f by (cases fuel) auto
    show ?thesis unfolding f' by (rule reads_condition [OF Cond])
  qed
  then show ?case unfolding reads_node_def by blast
qed

lemma parse_tree_reads:
  assumes "kids \<noteq> []" "list_all wf_node kids"
  shows "fst (parse_tree (cur_new (''('' @ join '','' (map fmt_node kids) @ '')''))) = Ok kids" "utf8 (''('' @ join '','' (map fmt_node kids) @ '')'')"
proof -
  let ?t = "''('' @ join '','' (map fmt_node kids) @ '')''"
  have "\<forall>n \<in> set kids. wf_node n \<and> reads_node n" using assms(2) wf_reads_node by (simp add: list_all_iff)
  from reads_body [OF assms(1) this] obtain F where F: "\<forall>fuel \<ge> F. reads (parse_group_body fuel) ?t kids no_blank" by blast
  show u: "utf8 ?t" by (rule reads_utf8 [OF mp [OF spec [OF F, of F] order_refl]])
  let ?n = "3 * length (rest_of (cur_new ?t)) + 3" and ?c = "cur_new ?t"
  have "fst (parse_group_body ?n ?c) \<noteq> Panic" using parse_tree_safe [OF cur_ok_new [OF u]] by (simp add: parse_tree_def)
  then have "parse_group_body (max F ?n) ?c = parse_group_body ?n ?c"
    using more_fuel [of ?n "max F ?n" "[]"] by (auto simp: agrees_def)
  moreover have "fst (parse_group_body (max F ?n) ?c) = Ok kids"
    using readsD [OF mp [OF spec [OF F, of "max F ?n"]] cur_ok_new [OF u], of "[]"] by (simp add: no_blank_def)
  ultimately show "fst (parse_tree ?c) = Ok kids" by (simp add: parse_tree_def)
qed

section \<open>Keys\<close>

definition seg_end :: "string \<Rightarrow> bool" where
  "seg_end r \<longleftrightarrow> r = [] \<or> hd r = CHR ''.''"

text \<open>The segments of a key, each with the text it is read from.\<close>

lemma reads_key_segments:
  assumes "ps \<noteq> []" "\<forall>(t, s) \<in> set ps. reads parse_segment t s seg_end" "\<forall>(t, s) \<in> set (butlast ps). sg_path s = []"
  shows "reads (key_segments acc) (join ''.'' (map fst ps)) (acc @ map snd ps) (\<lambda>r. r = [])"
  using assms
proof (induction ps arbitrary: acc rule: list_nonempty_induct)
  case (single ts)
  obtain t s where ts: "ts = (t, s)" by fastforce
  have seg: "reads parse_segment t s seg_end" using single.prems(1) ts by simp
  show ?case
  proof (rule readsI)
    show "utf8 (join ''.'' (map fst [ts]))" using reads_utf8 [OF seg] ts by simp
    fix c r assume c: "cur_ok c" "rest_of c = join ''.'' (map fst [ts]) @ r" "r = []"
    have rest: "rest_of c = t @ []" using c(2,3) ts by simp
    note m = reads_cur [OF seg c(1) rest]
    have "peek (adv (length t) c) = None" "cur_done (adv (length t) c)"
      using m(3) by (auto simp: seg_end_def peek_rest cur_done_def rest_of_def)
    then show "key_segments acc c = (Ok (acc @ map snd [ts]), adv (length (join ''.'' (map fst [ts]))) c)"
      using m(1) ts by (simp add: key_segments.simps seg_end_def)
  qed
next
  case (cons ts ps)
  obtain t s where ts: "ts = (t, s)" by fastforce
  have a: "utf8 ''.''" by (simp add: utf8_ascii ascii_def code_def)
  have seg: "reads parse_segment t s seg_end" and path: "sg_path s = []" using cons.prems cons.hyps ts by auto
  have IH: "reads (key_segments (acc @ [s])) (join ''.'' (map fst ps)) ((acc @ [s]) @ map snd ps) (\<lambda>r. r = [])"
    by (rule cons.IH) (use cons.prems cons.hyps in auto)
  have join: "join ''.'' (map fst (ts # ps)) = t @ ''.'' @ join ''.'' (map fst ps)" using cons.hyps ts by (cases ps) auto
  show ?case
  proof (rule readsI)
    show "utf8 (join ''.'' (map fst (ts # ps)))" using reads_utf8 [OF seg] reads_utf8 [OF IH] a utf8_append [of "''.''"] by (simp add: join [unfolded list.map] utf8_append)
    fix c r assume c: "cur_ok c" "rest_of c = join ''.'' (map fst (ts # ps)) @ r" "r = []"
    have rest: "rest_of c = t @ ''.'' @ join ''.'' (map fst ps) @ r" using c(2) by (simp only: join append_assoc)
    note m = reads_cur [OF seg c(1) rest]
    have m': "cur_ok (adv (length t) c)" "rest_of (adv (length t) c) = ''.'' @ join ''.'' (map fst ps) @ r"
      using m(2,3) by (simp_all add: seg_end_def)
    note past = cur_ok_past [OF m' a]
    have "key_segments acc c = key_segments (acc @ [s]) (adv (length ''.'') (adv (length t) c))"
      using m(1) m'(2) path by (subst key_segments.simps) (simp add: seg_end_def peek_rest bump_def)
    also have "\<dots> = (Ok ((acc @ [s]) @ map snd ps), adv (length (join ''.'' (map fst ps))) (adv (length ''.'') (adv (length t) c)))"
      by (rule readsD [OF IH past(1,2) c(3)])
    finally show "key_segments acc c = (Ok (acc @ map snd (ts # ps)), adv (length (join ''.'' (map fst (ts # ps)))) c)"
      unfolding join by (simp add: ts)
  qed
qed

definition word_seg :: "string \<Rightarrow> seg" where
  "word_seg w = \<lparr>sg_name = w, sg_path = [], sg_quoted = False\<rparr>"

lemma reads_word_seg:
  assumes "w \<in> {''or'', ''and'', ''not''}"
  shows "reads parse_segment w (word_seg w) seg_end"
proof -
  have "utf8 w" "w \<noteq> []" "hd w \<noteq> CHR 0x22" "bare_name name_break w" "trim_blanks w = w" "wf_path []"
    using assms by (auto simp: utf8_ascii ascii_def code_def bare_name_def name_break_def trim_blanks_def blank_def wf_path_def)
  from reads_bare_segment [OF this] have "reads parse_segment w (word_seg w) (path_end [])" by (simp add: fmt_path_def word_seg_def)
  then show ?thesis by (rule reads_weaken) (auto simp: path_end_def seg_end_def)
qed

lemma reads_name_seg:
  assumes "wf_name n" "wf_path p"
  shows "reads parse_segment (fmt_name n @ fmt_path p) (seg_of n p) seg_end"
  by (rule reads_weaken [OF reads_segment [OF assms]]) (auto simp: path_end_def seg_end_def)

lemma fmt_path_Nil [simp]: "fmt_path [] = []"
  by (simp add: fmt_path_def)

lemma seg_of_words: "logic_word (seg_of n p) = None" "\<not> not_word (seg_of n p)"
  by (auto simp: seg_of_def logic_word_def not_word_def name_needs_quotes_def)

lemma embed_names_seg_of: "embed_names (map (\<lambda>e. seg_of e []) emb) = sret (Ok emb)"
  by (induction emb) (simp_all add: seg_of_def sbind_def sret_def fun_eq_iff)

lemma join_embed: "ts \<noteq> [] \<Longrightarrow> join ''.'' (map fmt_name emb @ ts) = fmt_embed emb @ join ''.'' ts"
proof (induction emb)
  case (Cons e emb)
  then obtain x xs where "map fmt_name emb @ ts = x # xs" by (cases "map fmt_name emb @ ts") auto
  with Cons show ?case by (simp add: fmt_embed_def)
qed (simp add: fmt_embed_def)

text \<open>A key whose segments are read is read.\<close>

lemma parse_key_reads:
  assumes "ps \<noteq> []" "\<forall>(t, s) \<in> set ps. reads parse_segment t s seg_end" "\<forall>(t, s) \<in> set (butlast ps). sg_path s = []"
    "key_of (map snd ps) = sret (Ok k)"
  shows "parse_key (join ''.'' (map fst ps)) = Ok k" "utf8 (join ''.'' (map fst ps))"
proof -
  note segs = reads_key_segments [OF assms(1-3), of "[]"]
  show u: "utf8 (join ''.'' (map fst ps))" by (rule reads_utf8 [OF segs])
  show "parse_key (join ''.'' (map fst ps)) = Ok k"
    using readsD [OF segs cur_ok_new [OF u], of "[]"] assms(4) by (simp add: parse_key_def sbind_def sret_def)
qed

definition embed_segs :: "string list \<Rightarrow> (string \<times> seg) list" where
  "embed_segs emb = map (\<lambda>e. (fmt_name e, seg_of e [])) emb"

lemma embed_segs_ok:
  assumes "\<forall>e \<in> set emb. wf_name e"
  shows "\<forall>(t, s) \<in> set (embed_segs emb). reads parse_segment t s seg_end" "\<forall>(t, s) \<in> set (embed_segs emb). sg_path s = []"
proof -
  have "reads parse_segment (fmt_name e) (seg_of e []) seg_end" if "e \<in> set emb" for e
    using reads_name_seg [of e "[]"] assms that by (simp add: wf_path_def)
  then show "\<forall>(t, s) \<in> set (embed_segs emb). reads parse_segment t s seg_end" by (auto simp: embed_segs_def)
qed (auto simp: embed_segs_def seg_of_def)

lemma embed_segs_maps: "map fst (embed_segs emb) = map fmt_name emb" "map snd (embed_segs emb) = map (\<lambda>e. seg_of e []) emb"
  by (simp_all add: embed_segs_def)

lemma parse_field_key:
  assumes "wf_field f"
  shows "parse_key (fmt_field f) = Ok (KField f)" "utf8 (fmt_field f)"
proof -
  obtain emb n p where f: "f = \<lparr>fi_embed = emb, fi_column = n, fi_path = p\<rparr>" by (cases f)
  have wf: "\<forall>e \<in> set emb. wf_name e" "wf_name n" "wf_path p" using assms f by (auto simp: wf_field_def)
  let ?ps = "embed_segs emb @ [(fmt_name n @ fmt_path p, seg_of n p)]"
  have segs: "\<forall>(t, s) \<in> set ?ps. reads parse_segment t s seg_end" "\<forall>(t, s) \<in> set (butlast ?ps). sg_path s = []"
    using embed_segs_ok [OF wf(1)] reads_name_seg [OF wf(2,3)] by auto
  have key: "key_of (map snd ?ps) = sret (Ok (KField f))"
    by (simp add: key_of_def embed_segs_maps seg_of_words embed_names_seg_of f sbind_def sret_def fun_eq_iff) (simp add: seg_of_def)
  have shape: "join ''.'' (map fst ?ps) = fmt_field f" by (simp add: embed_segs_maps join_embed fmt_field_def f)
  show "parse_key (fmt_field f) = Ok (KField f)" "utf8 (fmt_field f)"
    using parse_key_reads [OF _ segs key] by (simp_all add: shape [symmetric])
qed

lemma parse_logic_key:
  assumes "\<forall>e \<in> set emb. wf_name e"
  shows "parse_key (fmt_embed emb @ (if negated then ''not.'' else []) @ logic_name p) = Ok (KLogic emb p negated)"
    "utf8 (fmt_embed emb @ (if negated then ''not.'' else []) @ logic_name p)"
proof -
  let ?ws = "(if negated then [(''not'', word_seg ''not'')] else []) @ [(logic_name p, word_seg (logic_name p))]"
  let ?ps = "embed_segs emb @ ?ws"
  have w: "\<forall>(t, s) \<in> set ?ws. reads parse_segment t s seg_end \<and> sg_path s = []"
    using reads_word_seg by (cases p) (auto simp: logic_name_def word_seg_def)
  have segs: "\<forall>(t, s) \<in> set ?ps. reads parse_segment t s seg_end" "\<forall>(t, s) \<in> set (butlast ?ps). sg_path s = []"
    using embed_segs_ok [OF assms] w by (auto simp: butlast_append)
  have words: "logic_word (word_seg (logic_name p)) = Some p" "not_word (word_seg ''not'')"
    by (cases p; simp add: logic_word_def not_word_def word_seg_def logic_name_def)+
  have named: "emb = [] \<or> \<not> not_word (last (map (\<lambda>e. seg_of e []) emb))" by (cases "emb = []") (simp_all add: last_map seg_of_words)
  have key: "key_of (map snd ?ps) = sret (Ok (KLogic emb p negated))"
    using named by (auto simp: key_of_def embed_segs_maps words embed_names_seg_of seg_of_words sbind_def sret_def fun_eq_iff Let_def butlast_append)
  have shape: "join ''.'' (map fst ?ps) = fmt_embed emb @ (if negated then ''not.'' else []) @ logic_name p"
    by (simp add: embed_segs_maps join_embed)
  show "parse_key (fmt_embed emb @ (if negated then ''not.'' else []) @ logic_name p) = Ok (KLogic emb p negated)"
    "utf8 (fmt_embed emb @ (if negated then ''not.'' else []) @ logic_name p)"
    using parse_key_reads [OF _ segs key] by (simp_all only: shape) simp_all
qed

section \<open>Pairs\<close>

lemma render_reads:
  assumes "wf_parsed p"
  shows "parse_pair (fst (render p)) (snd (render p)) = Ok p" "utf8 (fst (render p))" "utf8 (snd (render p))"
proof -
  have "parse_pair (fst (render p)) (snd (render p)) = Ok p \<and> utf8 (fst (render p)) \<and> utf8 (snd (render p))"
  proof (cases p)
    case (Filter k)
    then have wf: "wf_cond k" "wf_field (co_field k)" using assms by (simp_all add: wf_parsed_def wf_cond_def)
    note rhs = reads_rhs [OF wf(1), of True]
    have "fst (parse_cond_rhs (co_field k) False (cur_new (fmt_rhs True k))) = Ok k"
      using readsD [OF rhs cur_ok_new [OF reads_utf8 [OF rhs]], of "[]"] by (simp add: value_end_def)
    then show ?thesis using Filter parse_field_key [OF wf(2)] reads_utf8 [OF rhs] by (simp add: render_def parse_pair_def Let_def)
  next
    case (Logic emb q negated kids)
    then have wf: "\<forall>e \<in> set emb. wf_name e" "kids \<noteq> []" "list_all wf_node kids" using assms by (simp_all add: wf_parsed_def)
    show ?thesis using Logic parse_logic_key [OF wf(1), of negated q] parse_tree_reads [OF wf(2,3)]
      by (simp add: render_def parse_pair_def Let_def)
  qed
  then show "parse_pair (fst (render p)) (snd (render p)) = Ok p" "utf8 (fst (render p))" "utf8 (snd (render p))" by simp_all
qed

interpretation filter_text: canonical "\<lambda>(key, value). parse_pair key value" render "\<lambda>(key, value). utf8 key \<and> utf8 value" wf_parsed
  by unfold_locales (auto simp: parse_pair_types render_reads case_prod_unfold)

text \<open>C28. The canonical pair of a filter or logic tree parses back to it: whatever query pair parses, the pair written from the
  result is readable and parses to the same condition or tree, so a link built from a parsed query selects the same rows.
\<close>

theorem filter_render_roundtrip:
  assumes "utf8 key" "utf8 value" "parse_pair key value = Ok p"
  shows "parse_pair (fst (render p)) (snd (render p)) = Ok p"
  using filter_text.roundtrip [of "(key, value)" p] assms by (simp add: case_prod_unfold)

theorem filter_render_roundtrip_witness:
  "\<exists>p. parse_pair ''or'' ''(a.eq.1,not.and(b->>k.in.(x,y),c.is.NULL))'' = Ok p \<and> parse_pair (fst (render p)) (snd (render p)) = Ok p"
proof -
  have u: "utf8 ''or''" "utf8 ''(a.eq.1,not.and(b->>k.in.(x,y),c.is.NULL))''" by (rule utf8_ascii, simp add: ascii_def code_def)+
  show ?thesis using filter_render_roundtrip [OF u sample_pair] sample_pair by blast
qed

end
