(* ===== verification/Rest_Page.thy ===== *)
theory Rest_Page
  imports Rest_Results "HOL-Library.Word"
begin

text \<open>
  Paging (crates/zou-rest/src/page.rs): the limit and offset parameters and the Range header.
\<close>

record range =
  rg_first :: "64 word"
  rg_last :: "64 word option"

definition range_offset :: "range \<Rightarrow> 64 word" where
  "range_offset r = rg_first r"

definition range_limit :: "range \<Rightarrow> 64 word option" where
  "range_limit r =
     (case rg_last r of
        None \<Rightarrow> None
      | Some l \<Rightarrow> let d = l - rg_first r in Some (if d = - 1 then - 1 else d + 1))"

definition number :: "string \<Rightarrow> 64 word option" where
  "number s =
     (if s = [] \<or> (\<exists>b \<in> set s. \<not> is_digit b) then None else map_option of_nat (from_str_radix (2 ^ 64) 10 s))"

definition parse_range :: "string \<Rightarrow> range option" where
  "parse_range header =
     (let dash = length (takeWhile (\<lambda>b. b \<noteq> CHR ''-'') header)
      in if dash = length header then None
         else
           case number (take dash header) of
             None \<Rightarrow> None
           | Some first \<Rightarrow>
               (case (if dash + 1 = length header then Some None else map_option Some (number (drop (dash + 1) header))) of
                  None \<Rightarrow> None
                | Some lst \<Rightarrow>
                    if (case lst of None \<Rightarrow> False | Some l \<Rightarrow> l < first) then None
                    else Some \<lparr>rg_first = first, rg_last = lst\<rparr>))"

definition signed_value :: "string \<Rightarrow> (int, rest_error) outcome" where
  "signed_value value =
     (let cur = cur_new value;
          sgn = starts_with ''-'' value;
          at = (if sgn then 1 else 0);
          taken = length (takeWhile is_digit (drop at value))
      in if taken = 0 then fst (err_at at (if sgn then [DIGIT] else [word_lit ''-'', DIGIT]) cur)
         else if at + taken < length value then fst (err_at (at + taken) [DIGIT, END] cur)
         else
           case parse_i64 value of
             Some i \<Rightarrow> Ok i
           | None \<Rightarrow>
               obind (found_at 0 cur) (\<lambda>f.
               Err \<lparr>re_found = f, re_expecting = [''an integer that fits in 64 bits''], re_at = 0\<rparr>))"

definition parse_limit :: "string \<Rightarrow> (int, rest_error) outcome" where
  "parse_limit value = signed_value value"

definition parse_offset :: "string \<Rightarrow> (int, rest_error) outcome" where
  "parse_offset value = signed_value value"

section \<open>The Range header\<close>

lemma number_Some:
  "number s = Some w \<longleftrightarrow> s \<noteq> [] \<and> (\<forall>b \<in> set s. is_digit b) \<and> dec_value s < 2 ^ 64 \<and> w = of_nat (dec_value s)"
  using from_str_radix_value [of s "2 ^ 64"] by (auto simp: number_def)

lemma number_unat: "number s = Some w \<Longrightarrow> unat w = dec_value s"
  by (auto simp: number_Some unat_of_nat take_bit_eq_mod)

lemma takeWhile_dash: "CHR ''-'' \<notin> set a \<Longrightarrow> takeWhile (\<lambda>b. b \<noteq> CHR ''-'') (a @ CHR ''-'' # b) = a"
  by (induction a) auto

lemma split_dash: "CHR ''-'' \<in> set h \<Longrightarrow> \<exists>a b. h = a @ CHR ''-'' # b \<and> CHR ''-'' \<notin> set a"
  by (metis split_list_first)

lemma parse_range_at:
  assumes "CHR ''-'' \<notin> set a"
  shows "parse_range (a @ CHR ''-'' # b) =
     (case number a of
        None \<Rightarrow> None
      | Some first \<Rightarrow>
          (case (if b = [] then Some None else map_option Some (number b)) of
             None \<Rightarrow> None
           | Some lst \<Rightarrow> if (case lst of None \<Rightarrow> False | Some l \<Rightarrow> l < first) then None else Some \<lparr>rg_first = first, rg_last = lst\<rparr>))"
proof -
  have d: "drop (length a + 1) (a @ CHR ''-'' # b) = b" by simp
  show ?thesis unfolding parse_range_def Let_def takeWhile_dash [OF assms] d by simp
qed

lemma parse_range_order: "parse_range h = Some r \<Longrightarrow> rg_last r = Some l \<Longrightarrow> rg_first r \<le> l"
  by (auto simp: parse_range_def Let_def split: if_splits option.splits)

lemma parse_range_exact:
  "parse_range header = Some r \<longleftrightarrow>
     (\<exists>a b. header = a @ ''-'' @ b \<and> a \<noteq> [] \<and> (\<forall>c \<in> set (a @ b). is_digit c) \<and> dec_value a < 2 ^ 64 \<and> dec_value b < 2 ^ 64 \<and>
        rg_first r = of_nat (dec_value a) \<and>
        (if b = [] then rg_last r = None else dec_value a \<le> dec_value b \<and> rg_last r = Some (of_nat (dec_value b))))"
  (is "_ \<longleftrightarrow> (\<exists>a b. ?ok a b)")
proof -
  have dash: "\<forall>c \<in> set a. is_digit c \<Longrightarrow> CHR ''-'' \<notin> set a" for a by (auto simp: is_digit_def code_def)
  have less: "(of_nat (dec_value b) :: 64 word) < of_nat (dec_value a) \<longleftrightarrow> dec_value b < dec_value a" if "dec_value a < 2 ^ 64" "dec_value b < 2 ^ 64" for a b
    using that by (simp add: word_less_nat_alt unat_of_nat take_bit_eq_mod)
  show ?thesis
  proof
    assume p: "parse_range header = Some r"
    have "CHR ''-'' \<in> set header"
    proof (rule ccontr)
      assume "CHR ''-'' \<notin> set header"
      then have "takeWhile (\<lambda>b. b \<noteq> CHR ''-'') header = header" by (simp add: takeWhile_eq_all_conv) metis
      with p show False by (simp add: parse_range_def)
    qed
    then obtain a b where h: "header = a @ CHR ''-'' # b" "CHR ''-'' \<notin> set a" using split_dash by blast
    obtain first where f: "number a = Some first" using p h by (auto simp: parse_range_at split: option.splits)
    have "?ok a b"
    proof (cases "b = []")
      case True
      then show ?thesis using p h f by (auto simp: parse_range_at number_Some dec_value_def)
    next
      case False
      then obtain l where "number b = Some l" "\<not> l < first" "r = \<lparr>rg_first = first, rg_last = Some l\<rparr>"
        using p h f by (auto simp: parse_range_at split: option.splits if_splits)
      then show ?thesis using False h f less [of a b] by (auto simp: number_Some)
    qed
    then show "\<exists>a b. ?ok a b" by blast
  next
    assume "\<exists>a b. ?ok a b"
    then obtain a b where ok: "?ok a b" by blast
    then have f: "number a = Some (of_nat (dec_value a))" "b \<noteq> [] \<Longrightarrow> number b = Some (of_nat (dec_value b))" by (auto simp: number_Some)
    show "parse_range header = Some r"
      using ok f less [of a b] parse_range_at [OF dash [of a], of b] by (cases r) (auto split: if_splits)
  qed
qed

lemma range_window:
  assumes "parse_range header = Some r" "i < 2 ^ 64 - 1"
  shows "(unat (range_offset r) \<le> i \<and> (case range_limit r of None \<Rightarrow> True | Some n \<Rightarrow> i < unat (range_offset r) + unat n)) \<longleftrightarrow>
     (unat (rg_first r) \<le> i \<and> (case rg_last r of None \<Rightarrow> True | Some l \<Rightarrow> i \<le> unat l))"
proof (cases "rg_last r")
  case None
  then show ?thesis by (simp add: range_limit_def range_offset_def)
next
  case (Some l)
  let ?f = "rg_first r" and ?d = "l - rg_first r"
  have le: "?f \<le> l" by (rule parse_range_order [OF assms(1) Some])
  have d: "unat ?d = unat l - unat ?f" "unat ?f \<le> unat l" using le by (simp_all add: unat_sub word_le_nat_alt)
  have b: "unat l < 2 ^ 64" using unsigned_less [of l, where ?'a = nat] by simp
  show ?thesis
  proof (cases "?d = - 1")
    case True
    have m: "unat (- 1 :: 64 word) = 2 ^ 64 - 1" by (simp add: unsigned_minus_1_eq_mask mask_eq_exp_minus_1)
    then have "unat ?d = 2 ^ 64 - 1" using True by simp
    then show ?thesis using d b assms(2) Some True m by (auto simp: range_limit_def range_offset_def)
  next
    case False
    then have "unat (?d + 1) = Suc (unat ?d)" by (metis add.commute eq_neg_iff_add_eq_0 unatSuc)
    then show ?thesis using d Some False by (auto simp: range_limit_def range_offset_def)
  qed
qed

section \<open>Limits and offsets\<close>

text \<open>A limit is an optional minus and digits, for a number that fits 64 bits; leading zeros count for nothing.\<close>

lemma signed_exact:
  "signed_value value = Ok i \<longleftrightarrow>
     (\<exists>neg d. value = (if neg then ''-'' else []) @ d \<and> d \<noteq> [] \<and> (\<forall>c \<in> set d. is_digit c) \<and>
        i = (if neg then - int (dec_value d) else int (dec_value d)) \<and> - (2 ^ 63) \<le> i \<and> i < 2 ^ 63)"
proof -
  define neg where "neg = starts_with ''-'' value"
  define d where "d = drop (if neg then 1 else 0) value"
  have v: "value = (if neg then ''-'' else []) @ d" by (cases "value") (auto simp: neg_def d_def)
  have uniq: "neg' = neg \<and> d' = d" if "value = (if neg' then ''-'' else []) @ d'" "\<forall>c \<in> set d'. is_digit c" "d' \<noteq> []" for neg' d'
    using that by (cases d'; cases neg') (auto simp: neg_def d_def is_digit_def code_def)
  have tw: "takeWhile is_digit d = d \<longleftrightarrow> (\<forall>c \<in> set d. is_digit c)" by (simp add: takeWhile_eq_all_conv)
  have no_err: "fst (err_at at ws c) \<noteq> Ok i" for at ws and c :: cur by (metis err_at_fails(1) prod.collapse)
  have parse: "parse_i64 value = Some i \<longleftrightarrow> i = (if neg then - int (dec_value d) else int (dec_value d)) \<and> - (2 ^ 63) \<le> i \<and> i < 2 ^ 63"
    if "d \<noteq> []" "\<forall>c \<in> set d. is_digit c"
    using from_str_radix_value [OF that, of "2 ^ 63 + 1"] from_str_radix_value [OF that, of "2 ^ 63"] v
    by (cases neg) (auto simp: parse_i64_def neg_def)
  let ?at = "if neg then 1 else 0 :: nat"
  have sv: "signed_value value =
      (if takeWhile is_digit d = [] then fst (err_at ?at (if neg then [DIGIT] else [word_lit ''-'', DIGIT]) (cur_new value))
       else if ?at + length (takeWhile is_digit d) < length value then fst (err_at (?at + length (takeWhile is_digit d)) [DIGIT, END] (cur_new value))
       else
         case parse_i64 value of
           Some i \<Rightarrow> Ok i
         | None \<Rightarrow> obind (found_at 0 (cur_new value)) (\<lambda>f. Err \<lparr>re_found = f, re_expecting = [''an integer that fits in 64 bits''], re_at = 0\<rparr>))"
    unfolding signed_value_def Let_def neg_def [symmetric] d_def [symmetric] by simp
  have len: "length value = ?at + length d" using v by (cases neg) auto
  have "signed_value value = Ok i \<longleftrightarrow> d \<noteq> [] \<and> (\<forall>c \<in> set d. is_digit c) \<and> parse_i64 value = Some i"
  proof (cases "\<forall>c \<in> set d. is_digit c")
    case True
    then have all: "takeWhile is_digit d = d" using tw by simp
    show ?thesis unfolding sv all using True no_err len by (cases "parse_i64 value") (simp_all add: obind_Ok_iff)
  next
    case False
    then have "length (takeWhile is_digit d) < length d"
      using tw length_takeWhile_le [of is_digit d] by (metis takeWhile_eq_take take_all_iff order_le_imp_less_or_eq)
    then show ?thesis using False no_err len by (simp add: sv)
  qed
  then show ?thesis using parse uniq v by blast
qed

text \<open>The Range header, as offset and limit: a header parses exactly when it is two decimal numbers that fit 64 bits
  around a dash, the second one missing or not below the first, and the rows at positions from the offset on, as many as the limit says,
  are those from the first to the last position of the header. Only the last position of all, which no table reaches, falls out
  when the range is the whole of 64 bits.
\<close>

lemma range_is_window:
  "(parse_range header = Some r \<longleftrightarrow>
     (\<exists>a b. header = a @ ''-'' @ b \<and> a \<noteq> [] \<and> (\<forall>c \<in> set (a @ b). is_digit c) \<and> dec_value a < 2 ^ 64 \<and> dec_value b < 2 ^ 64 \<and>
        rg_first r = of_nat (dec_value a) \<and>
        (if b = [] then rg_last r = None else dec_value a \<le> dec_value b \<and> rg_last r = Some (of_nat (dec_value b))))) \<and>
   (parse_range header = Some r \<longrightarrow> i < 2 ^ 64 - 1 \<longrightarrow>
     ((unat (range_offset r) \<le> i \<and> (case range_limit r of None \<Rightarrow> True | Some n \<Rightarrow> i < unat (range_offset r) + unat n)) \<longleftrightarrow>
      (unat (rg_first r) \<le> i \<and> (case rg_last r of None \<Rightarrow> True | Some l \<Rightarrow> i \<le> unat l))))"
  using parse_range_exact range_window by blast

end
