(* ===== verification/Rest_Sql.thy ===== *)
theory Rest_Sql
  imports Rest_Filter_Types
begin

text \<open>
  Filter trees to SQL with parameters (crates/zou-rest/src/sql.rs), and the catalog's relations and columns
  (catalog.rs). The compiler is a state that collects parameters; an unreachable arm or a failed expect is a panic.
\<close>

section \<open>Relations\<close>

record column =
  cl_name :: string
  cl_type_name :: string
  cl_base_type :: string
  cl_to_json :: "string option"
  cl_from_text :: "string option"
  cl_from_json :: "string option"
  cl_default_expr :: "string option"

record relation =
  rl_name :: string
  rl_columns :: "column list"
  rl_keys :: "string list"

definition rel_column :: "relation \<Rightarrow> string \<Rightarrow> column option" where
  "rel_column r name = find (\<lambda>c. cl_name c = name) (rl_columns r)"

definition rel_has :: "relation \<Rightarrow> string \<Rightarrow> bool" where
  "rel_has r name \<longleftrightarrow> rel_column r name \<noteq> None"

definition represented :: "relation \<Rightarrow> bool" where
  "represented r \<longleftrightarrow> (\<exists>c \<in> set (rl_columns r). cl_to_json c \<noteq> None)"

definition steps_as_json :: "relation \<Rightarrow> string \<Rightarrow> bool" where
  "steps_as_json r col = (case rel_column r col of Some c \<Rightarrow> cl_type_name c \<notin> {''json'', ''jsonb''} | None \<Rightarrow> True)"

definition searches_as_text :: "relation \<Rightarrow> string \<Rightarrow> bool" where
  "searches_as_text r col = (case rel_column r col of Some c \<Rightarrow> cl_base_type c \<noteq> ''tsvector'' | None \<Rightarrow> False)"

section \<open>Pieces of SQL\<close>

record sql =
  sq_text :: string
  sq_params :: "string list"

record embed_test =
  et_key :: string
  et_present :: string
  et_absent :: string

text \<open>A quote inside a quoted word is doubled.\<close>

definition double_quotes :: "char \<Rightarrow> string \<Rightarrow> string" where
  "double_quotes q s = concat (map (\<lambda>c. if c = q then [q, q] else [c]) s)"

definition quote_ident :: "string \<Rightarrow> string" where
  "quote_ident name = [CHR 0x22] @ double_quotes (CHR 0x22) name @ [CHR 0x22]"

definition step_expr :: "json_step \<Rightarrow> string" where
  "step_expr s =
     (if js_text s then ''->>'' else ''->'') @
     (case js_key s of
        JName n \<Rightarrow> [CHR 0x27] @ double_quotes (CHR 0x27) n @ [CHR 0x27]
      | JIndex i \<Rightarrow> show_int i)"

definition path_expr :: "string \<Rightarrow> json_step list \<Rightarrow> bool \<Rightarrow> string" where
  "path_expr base path to_json =
     (if to_json \<and> path \<noteq> [] then ''to_jsonb('' else []) @ base @ (if to_json \<and> path \<noteq> [] then '')'' else []) @
     concat (map step_expr path)"

definition field_expr :: "string option \<Rightarrow> string \<Rightarrow> json_step list \<Rightarrow> bool \<Rightarrow> string" where
  "field_expr qualifier col path to_json =
     path_expr ((case qualifier of None \<Rightarrow> [] | Some q \<Rightarrow> quote_ident q @ ''.'') @ quote_ident col) path to_json"

text \<open>\<open>str::replace\<close> of the wildcard star.\<close>

definition wildcards :: "string \<Rightarrow> string" where
  "wildcards s = map (\<lambda>c. if c = CHR ''*'' then CHR 0x25 else c) s"

definition array_element :: "bool \<Rightarrow> string \<Rightarrow> string" where
  "array_element patterns e =
     [CHR 0x22] @
     concat (map (\<lambda>c. let c = (if patterns \<and> c = CHR ''*'' then CHR 0x25 else c) in if c = CHR 0x22 \<or> c = CHR 0x5C then [CHR 0x5C, c] else [c]) e) @
     [CHR 0x22]"

definition array_literal :: "string list \<Rightarrow> bool \<Rightarrow> string" where
  "array_literal elems patterns = ''{'' @ join '','' (map (array_element patterns) elems) @ ''}''"

definition pattern_op :: "op \<Rightarrow> bool" where
  "pattern_op p \<longleftrightarrow> p = Op_Like \<or> p = Op_Ilike"

definition plain_symbol :: "op \<Rightarrow> string option" where
  "plain_symbol p =
     (case p of
        Op_Eq \<Rightarrow> Some ''='' | Op_Neq \<Rightarrow> Some ''<>'' | Op_Gt \<Rightarrow> Some ''>'' | Op_Gte \<Rightarrow> Some ''>='' | Op_Lt \<Rightarrow> Some ''<'' | Op_Lte \<Rightarrow> Some ''<=''
      | Op_Like \<Rightarrow> Some ''LIKE'' | Op_Ilike \<Rightarrow> Some ''ILIKE'' | Op_Match \<Rightarrow> Some ''~'' | Op_Imatch \<Rightarrow> Some ''~*''
      | Op_Cs \<Rightarrow> Some ''@>'' | Op_Cd \<Rightarrow> Some ''<@'' | Op_Ov \<Rightarrow> Some ''&&'' | Op_Sl \<Rightarrow> Some ''<<'' | Op_Sr \<Rightarrow> Some ''>>''
      | Op_Nxr \<Rightarrow> Some ''&<'' | Op_Nxl \<Rightarrow> Some ''&>'' | Op_Adj \<Rightarrow> Some ''-|-''
      | Op_In \<Rightarrow> None | Op_Is \<Rightarrow> None | Op_IsDistinct \<Rightarrow> None | Op_Fts \<Rightarrow> None | Op_Plfts \<Rightarrow> None | Op_Phfts \<Rightarrow> None | Op_Wfts \<Rightarrow> None)"

definition fts_function :: "op \<Rightarrow> string option" where
  "fts_function p =
     (case p of
        Op_Fts \<Rightarrow> Some ''to_tsquery'' | Op_Plfts \<Rightarrow> Some ''plainto_tsquery'' | Op_Phfts \<Rightarrow> Some ''phraseto_tsquery''
      | Op_Wfts \<Rightarrow> Some ''websearch_to_tsquery'' | _ \<Rightarrow> None)"

definition to_ascii_uppercase :: "string \<Rightarrow> string" where
  "to_ascii_uppercase = map (\<lambda>c. if 97 \<le> code c \<and> code c \<le> 122 then char_of (code c - 32) else c)"

section \<open>The compiler\<close>

record compiler =
  cp_params :: "string list"
  cp_qualifier :: "string option"
  cp_rel :: "relation option"
  cp_embeds :: "embed_test list"

definition bind_param :: "string \<Rightarrow> (string, string, compiler) sop" where
  "bind_param value c =
     (let params = cp_params c @ [value] in (Ok (''$'' @ num_text False 10 (length params)), c\<lparr>cp_params := params\<rparr>))"

definition bind_read :: "string option \<Rightarrow> string \<Rightarrow> (string, string, compiler) sop" where
  "bind_read read value =
     sbind (bind_param value) (\<lambda>hole. sret (Ok (case read of Some func \<Rightarrow> func @ ''('' @ hole @ '')'' | None \<Rightarrow> hole)))"

fun bind_each :: "string option \<Rightarrow> string list \<Rightarrow> (string list, string, compiler) sop" where
  "bind_each read [] = sret (Ok [])"
| "bind_each read (e # es) = sbind (bind_read read e) (\<lambda>h. sbind (bind_each read es) (\<lambda>hs. sret (Ok (h # hs))))"

definition read_cast :: "compiler \<Rightarrow> cond \<Rightarrow> string option" where
  "read_cast s c =
     (if pattern_op (co_op c) \<or> co_op c = Op_IsDistinct \<or> fi_path (co_field c) \<noteq> [] then None
      else case cp_rel s of None \<Rightarrow> None | Some r \<Rightarrow> (case rel_column r (fi_column (co_field c)) of None \<Rightarrow> None | Some col \<Rightarrow> cl_from_text col))"

definition embed_test_of :: "compiler \<Rightarrow> cond \<Rightarrow> string option" where
  "embed_test_of s c =
     (if co_op c \<noteq> Op_Is \<or> fi_path (co_field c) \<noteq> [] \<or> co_quant c \<noteq> None then None
      else case co_value c of
        VLit word \<Rightarrow>
          if word \<noteq> ''null'' then None
          else map_option (\<lambda>t. if co_negated c then et_present t else et_absent t) (find (\<lambda>e. et_key e = fi_column (co_field c)) (cp_embeds s))
      | _ \<Rightarrow> None)"

definition lit_value :: "filter_value \<Rightarrow> (string, 'e) outcome" where
  "lit_value v = (case v of VLit s \<Rightarrow> Ok s | VList _ \<Rightarrow> Panic | VArray _ \<Rightarrow> Panic)"

definition quantified_expr :: "string \<Rightarrow> string option \<Rightarrow> quant \<Rightarrow> cond \<Rightarrow> (string, string, compiler) sop" where
  "quantified_expr lhs read quant c =
     (case co_value c of
        VArray elems \<Rightarrow>
          (case plain_symbol (co_op c) of
             Some symb \<Rightarrow>
               sbind (bind_read read (array_literal elems (pattern_op (co_op c)))) (\<lambda>hole.
               sret (Ok (lhs @ '' '' @ symb @ '' '' @ (case quant of Q_Any \<Rightarrow> ''ANY'' | Q_All \<Rightarrow> ''ALL'') @ ''('' @ hole @ '')'')))
           | None \<Rightarrow> sret Panic)
      | _ \<Rightarrow> sret Panic)"

definition in_expr :: "string \<Rightarrow> string option \<Rightarrow> cond \<Rightarrow> (string, string, compiler) sop" where
  "in_expr lhs read c =
     (case co_value c of
        VList elems \<Rightarrow>
          if length elems = 1 \<and> elems ! 0 = [] then sret (Ok (lhs @ '' = ANY('' @ [CHR 0x27] @ ''{}'' @ [CHR 0x27] @ '')''))
          else sbind (bind_each read elems) (\<lambda>holes. sret (Ok (lhs @ '' IN ('' @ join '', '' holes @ '')'')))
      | _ \<Rightarrow> sret Panic)"

definition is_expr :: "string \<Rightarrow> cond \<Rightarrow> (string, string, compiler) sop" where
  "is_expr lhs c =
     (case co_value c of
        VLit word \<Rightarrow> sret (Ok (if word = ''not_null'' then lhs @ '' IS NOT NULL'' else lhs @ '' IS '' @ to_ascii_uppercase word))
      | _ \<Rightarrow> sret Panic)"

definition searched_expr :: "string \<Rightarrow> cond \<Rightarrow> (string, string, compiler) sop" where
  "searched_expr lhs c s =
     (if (case cp_rel s of None \<Rightarrow> False | Some r \<Rightarrow> searches_as_text r (fi_column (co_field c))) then
        (case co_config c of
           Some cfg \<Rightarrow> sbind (bind_param cfg) (\<lambda>cfg. sret (Ok (''to_tsvector('' @ cfg @ ''::regconfig, '' @ lhs @ '')''))) s
         | None \<Rightarrow> (Ok (''to_tsvector('' @ lhs @ '')''), s))
      else (Ok lhs, s))"

definition fts_expr :: "string \<Rightarrow> cond \<Rightarrow> (string, string, compiler) sop" where
  "fts_expr lhs c =
     (case fts_function (co_op c) of
        None \<Rightarrow> sret Panic
      | Some func \<Rightarrow>
          sbind (searched_expr lhs c) (\<lambda>searched.
          case co_config c of
            Some cfg \<Rightarrow>
              sbind (bind_param cfg) (\<lambda>cfg.
              sbind (sret (lit_value (co_value c))) (\<lambda>lit.
              sbind (bind_param lit) (\<lambda>query.
              sret (Ok (searched @ '' @@ '' @ func @ ''('' @ cfg @ ''::regconfig, '' @ query @ '')'')))))
          | None \<Rightarrow>
              sbind (sret (lit_value (co_value c))) (\<lambda>lit.
              sbind (bind_param lit) (\<lambda>query.
              sret (Ok (searched @ '' @@ '' @ func @ ''('' @ query @ '')''))))))"

definition plain_expr :: "string \<Rightarrow> string option \<Rightarrow> cond \<Rightarrow> (string, string, compiler) sop" where
  "plain_expr lhs read c =
     (case plain_symbol (co_op c) of
        None \<Rightarrow> sret Panic
      | Some symb \<Rightarrow>
          sbind (sret (lit_value (co_value c))) (\<lambda>lit.
          sbind (bind_read read (if pattern_op (co_op c) then wildcards lit else lit)) (\<lambda>hole.
          sret (Ok (lhs @ '' '' @ symb @ '' '' @ hole)))))"

definition cond_expr :: "string \<Rightarrow> string option \<Rightarrow> cond \<Rightarrow> (string, string, compiler) sop" where
  "cond_expr lhs read c =
     (case co_quant c of
        Some quant \<Rightarrow> quantified_expr lhs read quant c
      | None \<Rightarrow>
          if co_op c = Op_In then in_expr lhs read c
          else if co_op c = Op_Is then is_expr lhs c
          else if co_op c = Op_IsDistinct then
            sbind (sret (lit_value (co_value c))) (\<lambda>lit.
            sbind (bind_read read lit) (\<lambda>hole.
            sret (Ok (lhs @ '' IS DISTINCT FROM '' @ hole))))
          else if is_fts (co_op c) then fts_expr lhs c
          else plain_expr lhs read c)"

definition compile_cond :: "cond \<Rightarrow> (string, string, compiler) sop" where
  "compile_cond c s =
     (let f = co_field c
      in if fi_embed f \<noteq> [] then
           (Err (''a filter on the embedded resource ('' @ join ''.'' (fi_embed f) @ '') needs the embedding planner''), s)
         else
           case embed_test_of s c of
             Some test \<Rightarrow> (Ok test, s)
           | None \<Rightarrow>
               let to_json = (case cp_rel s of None \<Rightarrow> True | Some r \<Rightarrow> steps_as_json r (fi_column f));
                   lhs = field_expr (cp_qualifier s) (fi_column f) (fi_path f) to_json
               in sbind (cond_expr lhs (read_cast s c) c) (\<lambda>expr.
                  sret (Ok (if co_negated c then ''NOT ('' @ expr @ '')'' else expr))) s)"

fun compile_node :: "node \<Rightarrow> (string, string, compiler) sop"
  and compile_nodes :: "node list \<Rightarrow> (string list, string, compiler) sop" where
  "compile_node (Cond c) = compile_cond c"
| "compile_node (Group p negated kids) =
     (if kids = [] then sret (Err ''an empty logic group'')
      else
        sbind (compile_nodes kids) (\<lambda>parts.
        let body = join (case p of L_And \<Rightarrow> '' AND '' | L_Or \<Rightarrow> '' OR '') parts
        in sret (Ok (if negated then ''NOT ('' @ body @ '')'' else ''('' @ body @ '')''))))"
| "compile_nodes [] = sret (Ok [])"
| "compile_nodes (n # ns) = sbind (compile_node n) (\<lambda>t. sbind (compile_nodes ns) (\<lambda>ts. sret (Ok (t # ts))))"

definition where_clause_over ::
    "node list \<Rightarrow> string option \<Rightarrow> string list \<Rightarrow> relation option \<Rightarrow> embed_test list \<Rightarrow> (sql, string) outcome" where
  "where_clause_over nodes qualifier params rel embeds =
     (if nodes = [] then Err ''nothing to compile''
      else
        case compile_nodes nodes \<lparr>cp_params = params, cp_qualifier = qualifier, cp_rel = rel, cp_embeds = embeds\<rparr> of
          (Ok parts, c) \<Rightarrow> Ok \<lparr>sq_text = join '' AND '' parts, sq_params = cp_params c\<rparr>
        | (Err e, c) \<Rightarrow> Err e
        | (Panic, c) \<Rightarrow> Panic)"

definition where_clause_from :: "node list \<Rightarrow> string option \<Rightarrow> string list \<Rightarrow> relation option \<Rightarrow> (sql, string) outcome" where
  "where_clause_from nodes qualifier params rel = where_clause_over nodes qualifier params rel []"

definition where_clause :: "node list \<Rightarrow> (sql, string) outcome" where
  "where_clause nodes = where_clause_from nodes None [] None"

section \<open>From the request to the compiler\<close>

text \<open>A parsed pair as the router keeps it: the route it arrived on and its tree.\<close>

definition filter_node :: "parsed \<Rightarrow> string list \<times> node" where
  "filter_node p = (case p of Filter c \<Rightarrow> ([], Cond c) | Logic emb p negated kids \<Rightarrow> (emb, Group p negated kids))"

fun no_embeds_inside :: "node \<Rightarrow> (unit, string) outcome"
  and no_embeds_in :: "node list \<Rightarrow> (unit, string) outcome" where
  "no_embeds_inside (Cond c) =
     (if fi_embed (co_field c) \<noteq> [] then Err ''a filter inside a logic group cannot reach an embedded resource'' else Ok ())"
| "no_embeds_inside (Group p negated kids) = no_embeds_in kids"
| "no_embeds_in [] = Ok ()"
| "no_embeds_in (n # ns) = obind (no_embeds_inside n) (\<lambda>_. no_embeds_in ns)"

text \<open>The full route of a filter: a condition carries the rest of its path in its field.\<close>

definition full_route :: "string list \<times> node \<Rightarrow> (string list \<times> node, string) outcome" where
  "full_route rn =
     (case rn of (route, node) \<Rightarrow>
        (case node of
           Cond c \<Rightarrow>
             if fi_embed (co_field c) \<noteq> [] then Ok (route @ fi_embed (co_field c), Cond (c\<lparr>co_field := (co_field c)\<lparr>fi_embed := []\<rparr>\<rparr>))
             else obind (no_embeds_inside node) (\<lambda>_. Ok (route, node))
         | Group p negated kids \<Rightarrow> obind (no_embeds_inside node) (\<lambda>_. Ok (route, node))))"

end
