(* ===== verification/Rest_Sql_Lex.thy ===== *)
theory Rest_Sql_Lex
  imports Rest_Sql
begin

text \<open>
  How Postgres reads the text of a statement, as far as quoting goes: quoted identifiers and strings with doubled
  quotes, parameters, and everything else character by character. Comments, prefixed strings and a quote that does not close
  have no reading. A token list whose neighbours do not run together is read back from its text.
\<close>

datatype sql_tok = TIdent string | TStr string | TParam nat | TPlain char

definition quoted_with :: "char \<Rightarrow> string \<Rightarrow> string" where
  "quoted_with q s = [q] @ double_quotes q s @ [q]"

fun tok_text :: "sql_tok \<Rightarrow> string" where
  "tok_text (TIdent x) = quoted_with (CHR 0x22) x"
| "tok_text (TStr x) = quoted_with (CHR 0x27) x"
| "tok_text (TParam n) = ''$'' @ num_text False 10 n"
| "tok_text (TPlain c) = [c]"

definition sql_print :: "sql_tok list \<Rightarrow> string" where
  "sql_print ts = concat (map tok_text ts)"

section \<open>The lexer\<close>

fun read_quoted :: "char \<Rightarrow> string \<Rightarrow> (string \<times> string) option" where
  "read_quoted q [] = None"
| "read_quoted q (c # s) =
     (if c \<noteq> q then map_option (apfst (Cons c)) (read_quoted q s)
      else
        case s of
          [] \<Rightarrow> Some ([], [])
        | d # s' \<Rightarrow> if d = q then map_option (apfst (Cons q)) (read_quoted q s') else Some ([], s))"

lemma read_quoted_shorter: "read_quoted q s = Some (x, r) \<Longrightarrow> length r < length s"
  by (induction q s arbitrary: x r rule: read_quoted.induct) (fastforce split: if_splits list.splits)+

definition word_char :: "char \<Rightarrow> bool" where
  "word_char c \<longleftrightarrow>
     65 \<le> code c \<and> code c \<le> 90 \<or> 97 \<le> code c \<and> code c \<le> 122 \<or> 48 \<le> code c \<and> code c \<le> 57 \<or> c = CHR ''_'' \<or> c = CHR ''$'' \<or> 128 \<le> code c"

function lex_from :: "char \<Rightarrow> string \<Rightarrow> sql_tok list option" where
  "lex_from prev [] = Some []"
| "lex_from prev (c # s) =
     (if c = CHR 0x22 \<or> c = CHR 0x27 then
        (if word_char prev \<or> prev = CHR 0x26 then None
         else case read_quoted c s of
           None \<Rightarrow> None
         | Some (x, r) \<Rightarrow> map_option (Cons (if c = CHR 0x22 then TIdent x else TStr x)) (lex_from c r))
      else if c = CHR ''$'' then
        let d = takeWhile is_digit s; r = drop (length d) s
        in if word_char prev \<or> d = [] \<or> r \<noteq> [] \<and> word_char (hd r) then None
           else map_option (Cons (TParam (dec_value d))) (lex_from (last d) r)
      else if c = CHR ''-'' \<and> starts_with ''-'' s \<or> c = CHR ''/'' \<and> starts_with ''*'' s then None
      else map_option (Cons (TPlain c)) (lex_from c s))"
  by pat_completeness auto
termination
  by (relation "measure (\<lambda>(_, s). length s)") (auto dest: read_quoted_shorter)

definition sql_lex :: "string \<Rightarrow> sql_tok list option" where
  "sql_lex = lex_from (CHR '' '')"

section \<open>Token lists that read back\<close>

definition glue :: "char \<Rightarrow> bool" where
  "glue c \<longleftrightarrow> word_char c \<or> c = CHR 0x26"

fun adj :: "sql_tok \<Rightarrow> sql_tok \<Rightarrow> bool" where
  "adj (TPlain c) (TPlain d) \<longleftrightarrow> \<not> (c = CHR ''-'' \<and> d = CHR ''-'') \<and> \<not> (c = CHR ''/'' \<and> d = CHR ''*'')"
| "adj (TPlain c) _ \<longleftrightarrow> \<not> glue c"
| "adj (TParam _) (TPlain d) \<longleftrightarrow> \<not> word_char d"
| "adj (TParam _) _ \<longleftrightarrow> False"
| "adj (TIdent _) (TIdent _) \<longleftrightarrow> False"
| "adj (TStr _) (TStr _) \<longleftrightarrow> False"
| "adj _ _ \<longleftrightarrow> True"

text \<open>No token is a statement separator.\<close>

fun tok_ok :: "sql_tok \<Rightarrow> bool" where
  "tok_ok (TPlain c) \<longleftrightarrow> c \<notin> {CHR 0x22, CHR 0x27, CHR ''$'', CHR '';''}"
| "tok_ok _ \<longleftrightarrow> True"

fun spaced :: "sql_tok list \<Rightarrow> bool" where
  "spaced [] \<longleftrightarrow> True"
| "spaced [t] \<longleftrightarrow> tok_ok t"
| "spaced (t # u # ts) \<longleftrightarrow> tok_ok t \<and> adj t u \<and> spaced (u # ts)"

lemma spaced_Cons: "spaced (t # ts) \<longleftrightarrow> tok_ok t \<and> spaced ts \<and> (ts = [] \<or> adj t (hd ts))"
  by (cases ts) auto

lemma spaced_append: "spaced (a @ b) \<longleftrightarrow> spaced a \<and> spaced b \<and> (a = [] \<or> b = [] \<or> adj (last a) (hd b))"
  by (induction a) (auto simp: spaced_Cons hd_append)

lemma sql_print_simps [simp]: "sql_print [] = []" "sql_print (t # ts) = tok_text t @ sql_print ts" "sql_print (a @ b) = sql_print a @ sql_print b"
  by (simp_all add: sql_print_def)

lemma read_quoted_double: "r = [] \<or> hd r \<noteq> q \<Longrightarrow> read_quoted q (double_quotes q s @ q # r) = Some (s, r)"
  by (induction s) (auto simp: double_quotes_def split: list.splits)

lemma hd_print: "ts \<noteq> [] \<Longrightarrow> sql_print ts \<noteq> [] \<and> hd (sql_print ts) = (case hd ts of TIdent _ \<Rightarrow> CHR 0x22 | TStr _ \<Rightarrow> CHR 0x27 | TParam _ \<Rightarrow> CHR ''$'' | TPlain c \<Rightarrow> c)"
  by (cases ts) (simp_all add: quoted_with_def split: sql_tok.splits)

lemma digit_word: "is_digit c \<Longrightarrow> word_char c"
  by (auto simp: is_digit_def word_char_def)

definition starts_ok :: "char \<Rightarrow> sql_tok list \<Rightarrow> bool" where
  "starts_ok prev ts \<longleftrightarrow> ts = [] \<or> (case hd ts of TPlain _ \<Rightarrow> True | _ \<Rightarrow> \<not> glue prev)"

lemma lex_print_from: "spaced ts \<Longrightarrow> starts_ok prev ts \<Longrightarrow> lex_from prev (sql_print ts) = Some ts"
proof (induction ts arbitrary: prev)
  case (Cons t ts)
  have ts: "spaced ts" "tok_ok t" and adj: "ts = [] \<or> adj t (hd ts)" using Cons.prems(1) by (auto simp: spaced_Cons)
  have quote: "lex_from q (sql_print ts) = Some ts \<and> (sql_print ts = [] \<or> hd (sql_print ts) \<noteq> q)"
    if "t = TIdent x \<and> q = CHR 0x22 \<or> t = TStr x \<and> q = CHR 0x27" for q x
  proof
    show "lex_from q (sql_print ts) = Some ts"
      using that by (intro Cons.IH [OF ts(1)]) (auto simp: starts_ok_def glue_def word_char_def code_def split: sql_tok.splits)
    show "sql_print ts = [] \<or> hd (sql_print ts) \<noteq> q"
      using that adj hd_print [of ts] ts(1) by (cases ts) (auto simp: spaced_Cons split: sql_tok.splits)
  qed
  show ?case
  proof (cases t)
    case (TIdent x)
    then show ?thesis using quote [of x "CHR 0x22"] Cons.prems(2) read_quoted_double [of "sql_print ts" "CHR 0x22" x]
      by (simp add: quoted_with_def starts_ok_def glue_def)
  next
    case (TStr x)
    then show ?thesis using quote [of x "CHR 0x27"] Cons.prems(2) read_quoted_double [of "sql_print ts" "CHR 0x27" x]
      by (simp add: quoted_with_def starts_ok_def glue_def)
  next
    case (TParam n)
    have next_plain: "sql_print ts = [] \<or> \<not> word_char (hd (sql_print ts))"
      using adj TParam hd_print [of ts] by (cases ts; cases "hd ts") auto
    then have tw: "takeWhile is_digit (num_text False 10 n @ sql_print ts) = num_text False 10 n"
      using num_text_digits [of n] digit_word by (cases "sql_print ts") (auto simp: takeWhile_append)
    have "lex_from (last (num_text False 10 n)) (sql_print ts) = Some ts"
      using adj TParam by (intro Cons.IH [OF ts(1)]) (cases ts; cases "hd ts"; auto simp: starts_ok_def)
    then show ?thesis using TParam Cons.prems(2) next_plain by (simp add: tw Let_def dec_value_num_text starts_ok_def glue_def)
  next
    case (TPlain c)
    have c: "c \<noteq> CHR 0x22" "c \<noteq> CHR 0x27" "c \<noteq> CHR ''$''" using ts(2) TPlain by auto
    have "lex_from c (sql_print ts) = Some ts"
      using adj TPlain by (intro Cons.IH [OF ts(1)]) (cases ts; cases "hd ts"; auto simp: starts_ok_def)
    moreover have "\<not> (c = CHR ''-'' \<and> starts_with ''-'' (sql_print ts) \<or> c = CHR ''/'' \<and> starts_with ''*'' (sql_print ts))"
      using adj TPlain hd_print [of ts] by (cases ts; cases "hd ts") (auto simp: quoted_with_def)
    ultimately show ?thesis using TPlain c by simp
  qed
qed simp

lemma sql_lex_print: "spaced ts \<Longrightarrow> sql_lex (sql_print ts) = Some ts"
  unfolding sql_lex_def by (rule lex_print_from) (auto simp: starts_ok_def glue_def word_char_def code_def split: sql_tok.splits)

section \<open>What a token list holds\<close>

definition quoted_toks :: "sql_tok list \<Rightarrow> sql_tok list" where
  "quoted_toks = filter (\<lambda>t. case t of TIdent _ \<Rightarrow> True | TStr _ \<Rightarrow> True | _ \<Rightarrow> False)"

definition holes :: "sql_tok list \<Rightarrow> nat list" where
  "holes ts = concat (map (\<lambda>t. case t of TParam n \<Rightarrow> [n] | _ \<Rightarrow> []) ts)"

definition plain :: "string \<Rightarrow> sql_tok list" where
  "plain = map TPlain"

lemma quoted_toks_simps [simp]:
  "quoted_toks [] = []" "quoted_toks (TIdent x # ts) = TIdent x # quoted_toks ts" "quoted_toks (TStr x # ts) = TStr x # quoted_toks ts"
  "quoted_toks (TParam n # ts) = quoted_toks ts" "quoted_toks (TPlain c # ts) = quoted_toks ts" "quoted_toks (a @ b) = quoted_toks a @ quoted_toks b"
  "quoted_toks (plain s) = []"
  by (simp_all add: quoted_toks_def plain_def filter_empty_conv)

lemma holes_simps [simp]:
  "holes [] = []" "holes (TIdent x # ts) = holes ts" "holes (TStr x # ts) = holes ts" "holes (TParam n # ts) = n # holes ts"
  "holes (TPlain c # ts) = holes ts" "holes (a @ b) = holes a @ holes b" "holes (plain s) = []"
  by (simp_all add: holes_def plain_def)

lemma plain_simps [simp]: "plain [] = []" "plain (c # s) = TPlain c # plain s" "sql_print (plain s) = s"
  by (simp_all add: plain_def sql_print_def comp_def)

text \<open>Blanks, brackets, commas and dots keep their neighbours apart.\<close>

definition sep_char :: "char \<Rightarrow> bool" where
  "sep_char c \<longleftrightarrow> c \<in> {CHR '' '', CHR ''('', CHR '')'', CHR '','', CHR ''.'', CHR '':''}"

lemma adj_sep: "sep_char c \<Longrightarrow> adj (TPlain c) t" "sep_char c \<Longrightarrow> adj t (TPlain c)"
  by (cases t; auto simp: sep_char_def glue_def word_char_def code_def)+

end
