(* ===== verification/Rest_Sql_Proofs.thy ===== *)
theory Rest_Sql_Proofs
  imports Rest_Sql_Lex
begin

text \<open>
  The compiled clause as Postgres reads it: every name of the request is one quoted token, every literal is a parameter, and
  the parameters are numbered as they are bound. Names, JSON keys and literals are read off the tree independently of the compiler.
\<close>

section \<open>Pieces\<close>

text \<open>A piece of text and the quoted tokens and parameters it holds.\<close>

definition piece :: "string \<Rightarrow> sql_tok list \<Rightarrow> nat list \<Rightarrow> bool" where
  "piece t qs hs \<longleftrightarrow> (\<exists>ts. t = sql_print ts \<and> spaced ts \<and> ts \<noteq> [] \<and> quoted_toks ts = qs \<and> holes ts = hs)"

definition sep_text :: "string \<Rightarrow> bool" where
  "sep_text w \<longleftrightarrow> w \<noteq> [] \<and> spaced (plain w) \<and> sep_char (hd w) \<and> sep_char (last w)"

lemma plain_ends: "w \<noteq> [] \<Longrightarrow> hd (plain w) = TPlain (hd w) \<and> last (plain w) = TPlain (last w) \<and> plain w \<noteq> []"
  by (simp add: plain_def hd_map last_map)

lemma piece_pre: "piece a qs hs \<Longrightarrow> w \<noteq> [] \<Longrightarrow> spaced (plain w) \<Longrightarrow> sep_char (last w) \<Longrightarrow> piece (w @ a) qs hs"
  unfolding piece_def
  by (elim exE, rule_tac x = "plain w @ ts" in exI) (simp add: spaced_append plain_ends adj_sep)

lemma piece_post: "piece a qs hs \<Longrightarrow> w \<noteq> [] \<Longrightarrow> spaced (plain w) \<Longrightarrow> sep_char (hd w) \<Longrightarrow> piece (a @ w) qs hs"
  unfolding piece_def
  by (elim exE, rule_tac x = "ts @ plain w" in exI) (simp add: spaced_append plain_ends adj_sep)

lemma piece_sep:
  assumes "piece a qa ha" "piece b qb hb" "sep_text w" "qs = qa @ qb" "hs = ha @ hb"
  shows "piece (a @ w @ b) qs hs"
proof -
  obtain ta where a: "a = sql_print ta" "spaced ta" "ta \<noteq> []" "quoted_toks ta = qa" "holes ta = ha" using assms(1) unfolding piece_def by blast
  obtain tb where b: "b = sql_print tb" "spaced tb" "tb \<noteq> []" "quoted_toks tb = qb" "holes tb = hb" using assms(2) unfolding piece_def by blast
  have "spaced (ta @ plain w @ tb)" using a b assms(3) by (simp add: sep_text_def spaced_append plain_ends adj_sep hd_append last_append)
  then show ?thesis using a b assms(4,5) unfolding piece_def by (intro exI [of _ "ta @ plain w @ tb"]) simp
qed

lemma piece_plain: "w \<noteq> [] \<Longrightarrow> spaced (plain w) \<Longrightarrow> piece w [] []"
  unfolding piece_def by (rule exI [of _ "plain w"]) (simp add: plain_ends)

lemma piece_hole: "piece (''$'' @ num_text False 10 n) [] [n]"
  unfolding piece_def by (rule exI [of _ "[TParam n]"]) simp

lemma piece_ident: "piece (quote_ident n) [TIdent n] []"
  unfolding piece_def by (rule exI [of _ "[TIdent n]"]) (simp add: quote_ident_def quoted_with_def)

lemma piece_lex: "piece t qs hs \<Longrightarrow> \<exists>ts. sql_lex t = Some ts \<and> spaced ts \<and> quoted_toks ts = qs \<and> holes ts = hs"
  unfolding piece_def using sql_lex_print by blast

lemma spaced_no_separator: "spaced ts \<Longrightarrow> TPlain (CHR '';'') \<notin> set ts"
  by (induction ts) (auto simp: spaced_Cons)

section \<open>Fields\<close>

definition path_names :: "json_step list \<Rightarrow> sql_tok list" where
  "path_names path = concat (map (\<lambda>s. case js_key s of JName n \<Rightarrow> [TStr n] | JIndex _ \<Rightarrow> []) path)"

definition field_names :: "string option \<Rightarrow> field \<Rightarrow> sql_tok list" where
  "field_names qualifier f =
     (case qualifier of None \<Rightarrow> [] | Some q \<Rightarrow> [TIdent q]) @ [TIdent (fi_column f)] @ path_names (fi_path f)"

definition step_toks :: "json_step \<Rightarrow> sql_tok list" where
  "step_toks s = plain (if js_text s then ''->>'' else ''->'') @ (case js_key s of JName n \<Rightarrow> [TStr n] | JIndex i \<Rightarrow> plain (show_int i))"

lemma num_text_last: "last (num_text False 10 n) \<noteq> CHR ''-''"
proof -
  have "is_digit (last (num_text False 10 n))" using num_text_digits [of n] by simp
  then show ?thesis by (auto simp: is_digit_def code_def)
qed

lemma spaced_digits: "\<forall>c \<in> set s. is_digit c \<Longrightarrow> spaced (plain s)"
proof (induction s)
  case (Cons a s)
  have a: "a \<noteq> CHR ''-''" "a \<noteq> CHR ''/''" "tok_ok (TPlain a)" using Cons.prems by (auto simp: is_digit_def code_def)
  have "s = [] \<or> adj (TPlain a) (hd (plain s))" using a by (cases s) auto
  then show ?case using Cons a by (auto simp: spaced_Cons)
qed simp

lemma spaced_show_int: "spaced (plain (show_int i))" "last (show_int i) \<noteq> CHR ''-''" "show_int i \<noteq> []"
proof -
  obtain b d where d: "num_text False 10 (nat \<bar>i\<bar>) = b # d" by (cases "num_text False 10 (nat \<bar>i\<bar>)") auto
  have "is_digit b" using num_text_digits [of "nat \<bar>i\<bar>"] d by auto
  then show "spaced (plain (show_int i))" using spaced_digits [OF num_text_digits [of "nat \<bar>i\<bar>"]] d
    by (auto simp: show_int_def spaced_Cons is_digit_def code_def)
  show "last (show_int i) \<noteq> CHR ''-''" "show_int i \<noteq> []" using num_text_last by (auto simp: show_int_def)
qed

lemma step_toks_ok:
  "step_expr s = sql_print (step_toks s)" "spaced (step_toks s)" "hd (step_toks s) = TPlain (CHR ''-'')" "step_toks s \<noteq> []"
  "last (step_toks s) \<noteq> TPlain (CHR ''-'')" "holes (step_toks s) = []"
  "quoted_toks (step_toks s) = (case js_key s of JName n \<Rightarrow> [TStr n] | JIndex _ \<Rightarrow> [])"
proof -
  have j: "hd (plain (show_int i)) = TPlain (hd (show_int i))" "last (plain (show_int i)) = TPlain (last (show_int i))" "plain (show_int i) \<noteq> []" for i
    using plain_ends [OF spaced_show_int(3)] by simp_all
  show "step_expr s = sql_print (step_toks s)" by (simp add: step_expr_def step_toks_def quoted_with_def split: json_key.splits)
  show "spaced (step_toks s)"
    by (simp add: step_toks_def spaced_Cons spaced_show_int j glue_def word_char_def code_def split: json_key.splits)
  show "last (step_toks s) \<noteq> TPlain (CHR ''-'')" by (simp add: step_toks_def spaced_show_int j split: json_key.splits)
  show "hd (step_toks s) = TPlain (CHR ''-'')" "step_toks s \<noteq> []" "holes (step_toks s) = []"
    "quoted_toks (step_toks s) = (case js_key s of JName n \<Rightarrow> [TStr n] | JIndex _ \<Rightarrow> [])"
    by (simp_all add: step_toks_def split: json_key.splits)
qed

lemma path_toks:
  assumes "spaced base" "base \<noteq> []" "last base \<noteq> TPlain (CHR ''-'')"
  shows "spaced (base @ concat (map step_toks path))"
  using assms
proof (induction path arbitrary: base)
  case (Cons s path)
  have "adj (last base) (TPlain (CHR ''-''))"
    using Cons.prems(3) by (cases "last base") (auto simp: word_char_def code_def)
  then have "spaced (base @ step_toks s)" using Cons.prems by (simp add: spaced_append step_toks_ok)
  then show ?case using Cons.IH [of "base @ step_toks s"] by (simp add: step_toks_ok last_append)
qed simp

lemma path_steps:
  "concat (map step_expr path) = sql_print (concat (map step_toks path))" "quoted_toks (concat (map step_toks path)) = path_names path"
  "holes (concat (map step_toks path)) = []"
  by (induction path) (simp_all add: step_toks_ok path_names_def)

lemma piece_field: "piece (field_expr qualifier (fi_column f) (fi_path f) to_json) (field_names qualifier f) []"
proof -
  let ?q = "case qualifier of None \<Rightarrow> [] | Some q \<Rightarrow> [TIdent q, TPlain (CHR ''.'')]"
  let ?wrap = "to_json \<and> fi_path f \<noteq> []"
  let ?base = "(if ?wrap then plain ''to_jsonb('' else []) @ ?q @ [TIdent (fi_column f)] @ (if ?wrap then plain '')'' else [])"
  have base: "spaced ?base" "last ?base \<noteq> TPlain (CHR ''-'')" "?base \<noteq> []"
    by (auto simp: spaced_Cons glue_def word_char_def code_def split: option.splits)
  have "field_expr qualifier (fi_column f) (fi_path f) to_json = sql_print (?base @ concat (map step_toks (fi_path f)))"
    by (simp add: field_expr_def path_expr_def path_steps(1) quote_ident_def quoted_with_def split: option.splits)
  moreover have "quoted_toks (?base @ concat (map step_toks (fi_path f))) = field_names qualifier f" "holes (?base @ concat (map step_toks (fi_path f))) = []"
    by (simp_all add: path_steps field_names_def split: option.splits)
  ultimately show ?thesis unfolding piece_def using path_toks [OF base(1,3,2)] base(3) by blast
qed

section \<open>Parameters\<close>

text \<open>A call that returns a piece, binds some parameters behind those already there and changes nothing else.\<close>

definition emits :: "compiler \<Rightarrow> (string, string, compiler) sop \<Rightarrow> sql_tok list \<Rightarrow> string list \<Rightarrow> bool" where
  "emits s m qs ls \<longleftrightarrow>
     (\<exists>t. m s = (Ok t, s\<lparr>cp_params := cp_params s @ ls\<rparr>) \<and>
          piece t qs [Suc (length (cp_params s))..<Suc (length (cp_params s) + length ls)])"

text \<open>A text the catalog gives for splicing reads as whole tokens, with no parameter of its own.\<close>

definition spliceable :: "string \<Rightarrow> bool" where
  "spliceable f \<longleftrightarrow> (\<exists>qs. piece f qs [])"

definition read_names :: "string option \<Rightarrow> sql_tok list" where
  "read_names read = (case read of None \<Rightarrow> [] | Some f \<Rightarrow> quoted_toks (the (sql_lex f)))"

lemma piece_spliceable: "spliceable f \<Longrightarrow> piece f (read_names (Some f)) []"
  unfolding spliceable_def read_names_def piece_def using sql_lex_print by fastforce

lemma emits_param: "emits s (bind_param v) [] [v]"
  unfolding emits_def bind_param_def Let_def by (rule exI [of _ "''$'' @ num_text False 10 (Suc (length (cp_params s)))"]) (use piece_hole in simp)

lemma emits_ret: "emits s m qs ls \<Longrightarrow> (\<And>t hs. piece t qs hs \<Longrightarrow> piece (g t) qs' hs) \<Longrightarrow> emits s (sbind m (\<lambda>t. sret (Ok (g t)))) qs' ls"
  unfolding emits_def by (auto simp: sbind_def sret_def)

lemma emits_read:
  assumes "\<forall>f. read = Some f \<longrightarrow> spliceable f"
  shows "emits s (bind_read read v) (read_names read) [v]"
  unfolding bind_read_def
proof (cases read)
  case None
  have "emits s (sbind (bind_param v) (\<lambda>hole. sret (Ok hole))) [] [v]" by (rule emits_ret [OF emits_param, of "\<lambda>t. t"])
  then show "emits s (sbind (bind_param v) (\<lambda>hole. sret (Ok (case read of Some func \<Rightarrow> func @ ''('' @ hole @ '')'' | None \<Rightarrow> hole)))) (read_names read) [v]"
    using None by (simp add: read_names_def)
next
  case (Some f)
  have "piece (f @ ''('' @ t @ '')'') (read_names read) hs" if "piece t [] hs" for t hs
  proof -
    have "piece (f @ ''('' @ t) (read_names read) hs"
      by (rule piece_sep [OF piece_spliceable that]) (use assms Some in \<open>simp_all add: sep_text_def sep_char_def\<close>)
    from piece_post [OF this, of "'')''"] show ?thesis by (simp add: sep_char_def)
  qed
  then have "emits s (sbind (bind_param v) (\<lambda>hole. sret (Ok (f @ ''('' @ hole @ '')'')))) (read_names read) [v]" by (rule emits_ret [OF emits_param])
  then show "emits s (sbind (bind_param v) (\<lambda>hole. sret (Ok (case read of Some func \<Rightarrow> func @ ''('' @ hole @ '')'' | None \<Rightarrow> hole)))) (read_names read) [v]"
    using Some by simp
qed

lemma upt_split: "[Suc n..<Suc (n + (k + m))] = [Suc n..<Suc (n + k)] @ [Suc (n + k)..<Suc (n + k + m)]"
  using upt_add_eq_append [of "Suc n" "Suc (n + k)" m] by (simp add: add.assoc)

lemma emits_bind:
  assumes "emits s m qa la" "\<And>t s'. s' = s\<lparr>cp_params := cp_params s @ la\<rparr> \<Longrightarrow> emits s' (f t) qb lb"
    "\<And>a b ha hb. piece a qa ha \<Longrightarrow> piece b qb hb \<Longrightarrow> piece (g a b) qs (ha @ hb)" "ls = la @ lb"
  shows "emits s (sbind m (\<lambda>a. sbind (f a) (\<lambda>b. sret (Ok (g a b))))) qs ls"
proof -
  let ?n = "length (cp_params s)"
  obtain a where a: "m s = (Ok a, s\<lparr>cp_params := cp_params s @ la\<rparr>)" "piece a qa [Suc ?n..<Suc (?n + length la)]"
    using assms(1) unfolding emits_def by blast
  obtain b where b: "f a (s\<lparr>cp_params := cp_params s @ la\<rparr>) = (Ok b, s\<lparr>cp_params := cp_params s @ la @ lb\<rparr>)"
      "piece b qb [Suc (?n + length la)..<Suc (?n + length la + length lb)]"
    using assms(2) [OF refl, of a] unfolding emits_def by auto
  show ?thesis
    unfolding emits_def using a(1) b(1) assms(3) [OF a(2) b(2)] assms(4) by (intro exI [of _ "g a b"]) (simp add: sbind_def sret_def upt_split del: upt_Suc)
qed

lemma emits_each:
  assumes "es \<noteq> []" "\<forall>f. read = Some f \<longrightarrow> spliceable f"
  shows "\<exists>hs. bind_each read es s = (Ok hs, s\<lparr>cp_params := cp_params s @ es\<rparr>) \<and> hs \<noteq> [] \<and>
     piece (join '', '' hs) (concat (replicate (length es) (read_names read))) [Suc (length (cp_params s))..<Suc (length (cp_params s) + length es)]"
  using assms(1)
proof (induction es arbitrary: s rule: list_nonempty_induct)
  case (single e)
  then show ?case using emits_read [OF assms(2), of s e] by (auto simp: emits_def sbind_def sret_def)
next
  case (cons e es)
  let ?s = "s\<lparr>cp_params := cp_params s @ [e]\<rparr>" and ?n = "length (cp_params s)"
  obtain h where h: "bind_read read e s = (Ok h, ?s)" "piece h (read_names read) [Suc ?n..<Suc (?n + length [e])]"
    using emits_read [OF assms(2), of s e] unfolding emits_def by blast
  obtain hs where hs: "bind_each read es ?s = (Ok hs, s\<lparr>cp_params := cp_params s @ e # es\<rparr>)" "hs \<noteq> []"
    "piece (join '', '' hs) (concat (replicate (length es) (read_names read))) [Suc (?n + 1)..<Suc (?n + 1 + length es)]"
    using cons.IH [of ?s] by auto
  have j: "join '', '' (h # hs) = h @ '', '' @ join '', '' hs" using hs(2) by (cases hs) auto
  have "piece (join '', '' (h # hs)) (concat (replicate (length (e # es)) (read_names read))) [Suc ?n..<Suc (?n + length (e # es))]"
    unfolding j by (rule piece_sep [OF h(2) hs(3)]) (use upt_split [of ?n 1 "length es"] in \<open>simp_all add: sep_text_def sep_char_def\<close>)
  then show ?case using h(1) hs(1) by (intro exI [of _ "h # hs"]) (simp add: sbind_def sret_def)
qed

section \<open>Conditions\<close>

definition searched :: "relation option \<Rightarrow> cond \<Rightarrow> bool" where
  "searched rel c = (case rel of None \<Rightarrow> False | Some r \<Rightarrow> searches_as_text r (fi_column (co_field c)))"

text \<open>The literals of a condition, in the order of their parameters.\<close>

definition cond_literals :: "relation option \<Rightarrow> cond \<Rightarrow> string list" where
  "cond_literals rel c =
     (case co_value c of
        VArray es \<Rightarrow> [array_literal es (pattern_op (co_op c))]
      | VList es \<Rightarrow> if es = [[]] then [] else es
      | VLit s \<Rightarrow>
          if co_op c = Op_Is then []
          else if is_fts (co_op c) then (case co_config c of None \<Rightarrow> [] | Some cfg \<Rightarrow> if searched rel c then [cfg, cfg] else [cfg]) @ [s]
          else [if pattern_op (co_op c) then wildcards s else s])"

text \<open>The quoted tokens behind the field: none but those of the function a column reads text through, and the empty array.\<close>

definition cond_reads :: "string option \<Rightarrow> cond \<Rightarrow> sql_tok list" where
  "cond_reads read c =
     (case co_value c of
        VArray es \<Rightarrow> read_names read
      | VList es \<Rightarrow> if es = [[]] then [TStr ''{}''] else concat (replicate (length es) (read_names read))
      | VLit s \<Rightarrow> if co_op c = Op_Is \<or> is_fts (co_op c) then [] else read_names read)"

lemma plain_symbol_piece: "plain_symbol p = Some w \<Longrightarrow> piece w [] []"
  by (rule piece_plain) (auto simp: plain_symbol_def split: op.splits)

lemma piece_two: "piece a qs [] \<Longrightarrow> piece w [] [] \<Longrightarrow> piece b qb hs \<Longrightarrow> piece (a @ '' '' @ w @ '' '' @ b) (qs @ qb) hs"
  by (rule piece_sep [of _ qs "[]" _ qb hs], assumption, rule piece_sep [of _ "[]" "[]"]) (simp_all add: sep_text_def sep_char_def)

lemma emits_plain:
  assumes "piece lhs qs []" "plain_symbol (co_op c) = Some w" "co_value c = VLit lit" "\<forall>f. read = Some f \<longrightarrow> spliceable f"
  shows "emits s (plain_expr lhs read c) (qs @ read_names read) [if pattern_op (co_op c) then wildcards lit else lit]"
  using emits_ret [OF emits_read [OF assms(4)], of "\<lambda>hole. lhs @ '' '' @ w @ '' '' @ hole" "qs @ read_names read" s]
    piece_two [OF assms(1) plain_symbol_piece [OF assms(2)]] assms(2,3)
  by (simp add: plain_expr_def lit_value_def)

lemma emits_quantified:
  assumes "piece lhs qs []" "plain_symbol (co_op c) = Some w" "co_value c = VArray es" "\<forall>f. read = Some f \<longrightarrow> spliceable f"
  shows "emits s (quantified_expr lhs read quant c) (qs @ read_names read) [array_literal es (pattern_op (co_op c))]"
proof -
  have q: "piece (lhs @ '' '' @ w @ '' '' @ (case quant of Q_Any \<Rightarrow> ''ANY'' | Q_All \<Rightarrow> ''ALL'') @ ''('' @ t @ '')'') (qs @ read_names read) hs"
    if "piece t (read_names read) hs" for t hs
  proof -
    have "piece (t @ '')'') (read_names read) hs" by (rule piece_post [OF that]) (simp_all add: sep_char_def)
    then have "piece (((case quant of Q_Any \<Rightarrow> ''ANY'' | Q_All \<Rightarrow> ''ALL'') @ ''('') @ t @ '')'') (read_names read) hs"
      by (rule piece_pre) (simp_all add: sep_char_def split: quant.splits)
    from piece_two [OF assms(1) plain_symbol_piece [OF assms(2)] this] show ?thesis by simp
  qed
  show ?thesis using emits_ret [OF emits_read [OF assms(4)] q] assms(2,3) by (simp add: quantified_expr_def)
qed

lemma emits_in:
  assumes "piece lhs qs []" "co_value c = VList es" "es \<noteq> []" "\<forall>f. read = Some f \<longrightarrow> spliceable f"
  shows "emits s (in_expr lhs read c) (qs @ (if es = [[]] then [TStr ''{}''] else concat (replicate (length es) (read_names read)))) (if es = [[]] then [] else es)"
proof (cases "es = [[]]")
  case True
  have str: "piece ([CHR 0x27] @ ''{}'' @ [CHR 0x27]) [TStr ''{}''] []"
    unfolding piece_def by (rule exI [of _ "[TStr ''{}'']"]) (simp add: quoted_with_def double_quotes_def)
  have "piece (lhs @ '' = ANY('' @ ([CHR 0x27] @ ''{}'' @ [CHR 0x27]) @ '')'') (qs @ [TStr ''{}'']) []"
    by (rule piece_sep [OF assms(1) piece_post [OF str]]) (simp_all add: sep_text_def sep_char_def)
  then show ?thesis using True assms(2) by (simp add: in_expr_def emits_def sret_def)
next
  case False
  then have ne: "\<not> (length es = 1 \<and> es ! 0 = [])" by (cases es) (auto simp: length_Suc_conv)
  obtain hs where hs: "bind_each read es s = (Ok hs, s\<lparr>cp_params := cp_params s @ es\<rparr>)"
    "piece (join '', '' hs) (concat (replicate (length es) (read_names read))) [Suc (length (cp_params s))..<Suc (length (cp_params s) + length es)]"
    using emits_each [OF assms(3,4), of s] by blast
  have "piece (lhs @ '' IN ('' @ join '', '' hs @ '')'') (qs @ concat (replicate (length es) (read_names read))) [Suc (length (cp_params s))..<Suc (length (cp_params s) + length es)]"
    by (rule piece_sep [OF assms(1) piece_post [OF hs(2)]]) (simp_all add: sep_text_def sep_char_def del: upt_Suc)
  then show ?thesis using False ne assms(2) hs(1) by (auto simp: in_expr_def emits_def sbind_def sret_def simp del: upt_Suc)
qed

lemma is_words_upper:
  "to_ascii_uppercase ''null'' = ''NULL''" "to_ascii_uppercase ''not_null'' = ''NOT_NULL''" "to_ascii_uppercase ''true'' = ''TRUE''"
  "to_ascii_uppercase ''false'' = ''FALSE''" "to_ascii_uppercase ''unknown'' = ''UNKNOWN''"
  by code_simp+

lemma emits_is:
  assumes "piece lhs qs []" "co_value c = VLit w" "w \<in> set IS_VALUES"
  shows "emits s (is_expr lhs c) qs []"
proof -
  have "piece (lhs @ '' IS NOT NULL'') qs []" by (rule piece_post [OF assms(1)]) (simp_all add: sep_char_def)
  moreover have "piece (lhs @ '' IS '' @ to_ascii_uppercase w) qs []"
    by (rule piece_sep [OF assms(1) piece_plain]) (use assms(3) in \<open>auto simp: IS_VALUES_def is_words_upper sep_text_def sep_char_def\<close>)
  ultimately show ?thesis using assms(2) by (simp add: is_expr_def emits_def sret_def)
qed

lemma emits_distinct:
  assumes "piece lhs qs []" "\<forall>f. read = Some f \<longrightarrow> spliceable f"
  shows "emits s (sbind (bind_read read lit) (\<lambda>hole. sret (Ok (lhs @ '' IS DISTINCT FROM '' @ hole)))) (qs @ read_names read) [lit]"
  by (rule emits_ret [OF emits_read [OF assms(2)]], rule piece_sep [OF assms(1)]) (simp_all add: sep_text_def sep_char_def)

lemma emits_searched:
  assumes "piece lhs qs []"
  shows "emits s (searched_expr lhs c) qs (case co_config c of None \<Rightarrow> [] | Some cfg \<Rightarrow> if searched (cp_rel s) c then [cfg] else [])"
proof (cases "searched (cp_rel s) c")
  case False
  have "emits s (sret (Ok lhs)) qs []" using assms by (simp add: emits_def sret_def)
  then show ?thesis using False by (simp add: searched_expr_def searched_def emits_def sret_def split: option.splits)
next
  case True
  have wrap: "piece (''to_tsvector('' @ t @ '')'') qs hs" if "piece t qs hs" for t hs
    using piece_pre [OF piece_post [OF that, of "'')''"], of "''to_tsvector(''"] by (simp add: sep_char_def)
  show ?thesis
  proof (cases "co_config c")
    case None
    then show ?thesis using True wrap [OF assms] by (simp add: searched_expr_def searched_def emits_def)
  next
    case (Some cfg)
    have p: "piece (''to_tsvector('' @ t @ ''::regconfig, '' @ lhs @ '')'') qs hs" if "piece t [] hs" for t hs
      using wrap [OF piece_sep [OF that assms, of "''::regconfig, ''" qs hs]] by (simp add: sep_text_def sep_char_def)
    have "emits s (sbind (bind_param cfg) (\<lambda>cfg. sret (Ok (''to_tsvector('' @ cfg @ ''::regconfig, '' @ lhs @ '')'')))) qs [cfg]"
      by (rule emits_ret [OF emits_param p])
    then show ?thesis using True Some by (simp add: emits_def searched_expr_def searched_def)
  qed
qed

lemma fts_function_text:
  assumes "is_fts p"
  obtains func where "fts_function p = Some func" "func \<noteq> []" "spaced (plain func)"
  using assms by (auto simp: is_fts_def fts_function_def)

lemma plain_append: "plain (a @ b) = plain a @ plain b"
  by (simp add: plain_def)

lemma emits_call:
  assumes "piece a qs ha" "piece b [] hb" "func \<noteq> []" "spaced (plain func)"
  shows "piece (a @ '' @@ '' @ func @ ''('' @ b @ '')'') qs (ha @ hb)"
proof -
  have "piece (func @ ''('') [] []" by (rule piece_post [OF piece_plain [OF assms(3,4)]]) (simp_all add: sep_char_def)
  moreover have "spaced (plain (func @ ''(''))" using assms(3,4) plain_ends [of func]
    by (simp add: plain_append spaced_append adj_sep sep_char_def)
  ultimately have "piece ((func @ ''('') @ b @ '')'') [] hb"
    by (intro piece_pre piece_post [OF assms(2)]) (simp_all add: sep_char_def)
  from piece_sep [OF assms(1) this, of "'' @@ ''"] show ?thesis by (simp add: sep_text_def sep_char_def)
qed

lemma sbind_assoc: "sbind (sbind m f) g = sbind m (\<lambda>x. sbind (f x) g)"
  by (auto simp: sbind_def fun_eq_iff split: outcome.splits prod.splits)

lemma emits_two: "emits s (sbind (bind_param v) (\<lambda>a. sbind (bind_param w) (\<lambda>b. sret (Ok (a @ ''::regconfig, '' @ b))))) [] [v, w]"
proof (rule emits_bind [OF emits_param emits_param])
  fix a b ha hb assume "piece a [] ha" "piece b [] hb"
  then show "piece (a @ ''::regconfig, '' @ b) [] (ha @ hb)" by (rule piece_sep) (simp_all add: sep_text_def sep_char_def)
qed simp

lemma emits_fts:
  assumes "piece lhs qs []" "is_fts (co_op c)" "co_value c = VLit lit"
  shows "emits s (fts_expr lhs c) qs ((case co_config c of None \<Rightarrow> [] | Some cfg \<Rightarrow> if searched (cp_rel s) c then [cfg, cfg] else [cfg]) @ [lit])"
proof -
  obtain func where func: "fts_function (co_op c) = Some func" "func \<noteq> []" "spaced (plain func)" by (rule fts_function_text [OF assms(2)])
  note call = emits_call [OF _ _ func(2,3)]
  show ?thesis
  proof (cases "co_config c")
    case None
    have "emits s (sbind (searched_expr lhs c) (\<lambda>a. sbind (bind_param lit) (\<lambda>b. sret (Ok (a @ '' @@ '' @ func @ ''('' @ b @ '')''))))) qs [lit]"
      by (rule emits_bind [OF emits_searched [OF assms(1)] emits_param call]) (simp_all add: None)
    then show ?thesis using None func(1) assms(3) by (simp add: fts_expr_def lit_value_def)
  next
    case (Some cfg)
    have "emits s (sbind (searched_expr lhs c) (\<lambda>a. sbind (sbind (bind_param cfg) (\<lambda>b. sbind (bind_param lit) (\<lambda>d. sret (Ok (b @ ''::regconfig, '' @ d)))))
        (\<lambda>b. sret (Ok (a @ '' @@ '' @ func @ ''('' @ b @ '')''))))) qs ((if searched (cp_rel s) c then [cfg, cfg] else [cfg]) @ [lit])"
      by (rule emits_bind [OF emits_searched [OF assms(1)] emits_two call]) (simp_all add: Some)
    then show ?thesis using Some func(1) assms(3) by (simp add: fts_expr_def lit_value_def sbind_assoc)
  qed
qed

lemma emits_cond_expr:
  assumes "wf_cond c" "piece lhs qs []" "\<forall>f. read = Some f \<longrightarrow> spliceable f"
  shows "emits s (cond_expr lhs read c) (qs @ cond_reads read c) (cond_literals (cp_rel s) c)"
proof -
  have mods: "wf_mods (co_op c) (co_quant c, co_config c)" and val: "wf_value (co_op c) (co_quant c) (co_value c)"
    using assms(1) by (simp_all add: wf_cond_def)
  note wf = mods [unfolded wf_mods_def] val [unfolded wf_value_def]
  show ?thesis
  proof (cases "co_value c")
    case (VArray es)
    then obtain quant where q: "co_quant c = Some quant" "quantifiable (co_op c)" using wf by auto
    then obtain w where "plain_symbol (co_op c) = Some w" by (auto simp: quantifiable_def plain_symbol_def)
    from emits_quantified [OF assms(2) this VArray assms(3)] show ?thesis using VArray q by (simp add: cond_expr_def cond_reads_def cond_literals_def)
  next
    case (VList es)
    then have "co_op c = Op_In" "es \<noteq> []" "co_quant c = None" using wf by (auto simp: quantifiable_def)
    then show ?thesis using emits_in [OF assms(2) VList _ assms(3)] VList by (simp add: cond_expr_def cond_reads_def cond_literals_def)
  next
    case (VLit lit)
    then have q: "co_quant c = None" "co_op c \<noteq> Op_In" "co_op c = Op_Is \<longrightarrow> lit \<in> set IS_VALUES" using wf by auto
    have s: "co_op c \<noteq> Op_Is \<Longrightarrow> co_op c \<noteq> Op_IsDistinct \<Longrightarrow> \<not> is_fts (co_op c) \<Longrightarrow> \<exists>w. plain_symbol (co_op c) = Some w"
      using q(2) by (cases "co_op c") (auto simp: plain_symbol_def is_fts_def)
    consider "co_op c = Op_Is" | "co_op c = Op_IsDistinct" | "is_fts (co_op c)" | w where "plain_symbol (co_op c) = Some w" "co_op c \<noteq> Op_Is" "co_op c \<noteq> Op_IsDistinct" "\<not> is_fts (co_op c)"
      using s by blast
    then show ?thesis
    proof cases
      case 1
      then show ?thesis using emits_is [OF assms(2) VLit] q VLit by (simp add: cond_expr_def cond_reads_def cond_literals_def)
    next
      case 2
      then show ?thesis using emits_distinct [OF assms(2,3)] q VLit by (simp add: cond_expr_def cond_reads_def cond_literals_def is_fts_def pattern_op_def lit_value_def)
    next
      case 3
      then have "co_op c \<noteq> Op_Is" "co_op c \<noteq> Op_IsDistinct" by (auto simp: is_fts_def)
      then show ?thesis using emits_fts [OF assms(2) 3 VLit] 3 q VLit by (simp add: cond_expr_def cond_reads_def cond_literals_def)
    next
      case 4
      then show ?thesis using emits_plain [OF assms(2) 4(1) VLit assms(3)] q VLit by (simp add: cond_expr_def cond_reads_def cond_literals_def)
    qed
  qed
qed

section \<open>Trees\<close>

definition column_cast :: "relation option \<Rightarrow> cond \<Rightarrow> string option" where
  "column_cast rel c = read_cast \<lparr>cp_params = [], cp_qualifier = None, cp_rel = rel, cp_embeds = []\<rparr> c"

fun node_names :: "string option \<Rightarrow> relation option \<Rightarrow> node \<Rightarrow> sql_tok list" where
  "node_names qualifier rel (Cond c) = field_names qualifier (co_field c) @ cond_reads (column_cast rel c) c"
| "node_names qualifier rel (Group p negated kids) = concat (map (node_names qualifier rel) kids)"

fun node_literals :: "relation option \<Rightarrow> node \<Rightarrow> string list" where
  "node_literals rel (Cond c) = cond_literals rel c"
| "node_literals rel (Group p negated kids) = concat (map (node_literals rel) kids)"

text \<open>The functions the catalog gives for reading text.\<close>

definition casts_spliceable :: "relation option \<Rightarrow> bool" where
  "casts_spliceable rel \<longleftrightarrow> (\<forall>r c f. rel = Some r \<longrightarrow> c \<in> set (rl_columns r) \<longrightarrow> cl_from_text c = Some f \<longrightarrow> spliceable f)"

definition compiling :: "string option \<Rightarrow> relation option \<Rightarrow> compiler \<Rightarrow> bool" where
  "compiling qualifier rel s \<longleftrightarrow> cp_qualifier s = qualifier \<and> cp_rel s = rel \<and> cp_embeds s = []"

lemma piece_negated: "piece t qs hs \<Longrightarrow> piece (''NOT ('' @ t @ '')'') qs hs" "piece t qs hs \<Longrightarrow> piece (''('' @ t @ '')'') qs hs"
  using piece_pre [OF piece_post [of t qs hs "'')''"], of "''NOT (''"] piece_pre [OF piece_post [of t qs hs "'')''"], of "''(''"]
  by (simp_all add: sep_char_def)

lemma emits_cond:
  assumes "wf_cond c" "fi_embed (co_field c) = []" "compiling qualifier rel s" "casts_spliceable rel"
  shows "emits s (compile_cond c) (node_names qualifier rel (Cond c)) (node_literals rel (Cond c))"
proof -
  have s: "cp_qualifier s = qualifier" "cp_rel s = rel" "cp_embeds s = []" using assms(3) by (simp_all add: compiling_def)
  have cast: "read_cast s c = column_cast rel c" by (simp add: column_cast_def read_cast_def s)
  have splice: "\<forall>f. column_cast rel c = Some f \<longrightarrow> spliceable f"
    using assms(4) by (auto simp: column_cast_def read_cast_def casts_spliceable_def rel_column_def find_Some_iff split: if_splits option.splits dest: nth_mem)
  have test: "embed_test_of s c = None" by (simp add: embed_test_of_def s split: filter_value.splits)
  let ?lhs = "field_expr qualifier (fi_column (co_field c)) (fi_path (co_field c)) (case rel of None \<Rightarrow> True | Some r \<Rightarrow> steps_as_json r (fi_column (co_field c)))"
  have e: "emits s (cond_expr ?lhs (column_cast rel c) c) (node_names qualifier rel (Cond c)) (node_literals rel (Cond c))"
    using emits_cond_expr [OF assms(1) piece_field splice, of s qualifier "co_field c"] s(2) by simp
  have "emits s (sbind (cond_expr ?lhs (column_cast rel c) c) (\<lambda>expr. sret (Ok (if co_negated c then ''NOT ('' @ expr @ '')'' else expr))))
      (node_names qualifier rel (Cond c)) (node_literals rel (Cond c))"
    by (rule emits_ret [OF e]) (use piece_negated(1) in auto)
  then show ?thesis using assms(2) s(1,2) test cast by (simp add: emits_def compile_cond_def Let_def)
qed

lemma emits_nodes:
  assumes "ns \<noteq> []" "sep_text w" "compiling qualifier rel s"
    "\<And>n s. n \<in> set ns \<Longrightarrow> compiling qualifier rel s \<Longrightarrow> emits s (compile_node n) (node_names qualifier rel n) (node_literals rel n)"
  shows "emits s (sbind (compile_nodes ns) (\<lambda>parts. sret (Ok (join w parts)))) (concat (map (node_names qualifier rel) ns)) (concat (map (node_literals rel) ns))"
    "\<exists>p parts. fst (compile_nodes ns s) = Ok (p # parts)"
proof -
  have "emits s (sbind (compile_nodes ns) (\<lambda>parts. sret (Ok (join w parts)))) (concat (map (node_names qualifier rel) ns)) (concat (map (node_literals rel) ns)) \<and>
      (\<exists>p parts. fst (compile_nodes ns s) = Ok (p # parts))"
    using assms(1,3,4)
  proof (induction ns arbitrary: s rule: list_nonempty_induct)
    case (single n)
    obtain t where "compile_node n s = (Ok t, s\<lparr>cp_params := cp_params s @ node_literals rel n\<rparr>)"
      "piece t (node_names qualifier rel n) [Suc (length (cp_params s))..<Suc (length (cp_params s) + length (node_literals rel n))]"
      using single.prems(2) [of n s] single.prems(1) unfolding emits_def by auto
    then show ?case by (simp add: emits_def sbind_def sret_def del: upt_Suc)
  next
    case (cons n ns)
    let ?n = "length (cp_params s)" and ?l = "node_literals rel n" and ?m = "concat (map (node_literals rel) ns)"
    let ?s = "s\<lparr>cp_params := cp_params s @ ?l\<rparr>"
    obtain t where t: "compile_node n s = (Ok t, ?s)" "piece t (node_names qualifier rel n) [Suc ?n..<Suc (?n + length ?l)]"
      using cons.prems(2) [of n s] cons.prems(1) unfolding emits_def by auto
    have "compiling qualifier rel ?s" using cons.prems(1) by (simp add: compiling_def)
    from cons.IH [OF this cons.prems(2)] obtain p parts where ps: "compile_nodes ns ?s = (Ok (p # parts), s\<lparr>cp_params := cp_params s @ ?l @ ?m\<rparr>)"
      "piece (join w (p # parts)) (concat (map (node_names qualifier rel) ns)) [Suc (?n + length ?l)..<Suc (?n + length ?l + length ?m)]"
      unfolding emits_def by (auto simp: sbind_def sret_def split: prod.splits outcome.splits)
    have "piece (t @ w @ join w (p # parts)) (concat (map (node_names qualifier rel) (n # ns))) [Suc ?n..<Suc (?n + (length ?l + length ?m))]"
      by (rule piece_sep [OF t(2) ps(2) assms(2)]) (simp_all add: upt_split del: upt_Suc)
    then have "emits s (sbind (compile_nodes (n # ns)) (\<lambda>parts. sret (Ok (join w parts)))) (concat (map (node_names qualifier rel) (n # ns))) (?l @ ?m)"
      unfolding emits_def using t(1) ps(1) by (intro exI [of _ "t @ w @ join w (p # parts)"]) (simp add: sbind_def sret_def del: upt_Suc)
    moreover have "\<exists>p parts. fst (compile_nodes (n # ns) s) = Ok (p # parts)" using t(1) ps(1) by (simp add: sbind_def sret_def)
    ultimately show ?case by simp
  qed
  then show "emits s (sbind (compile_nodes ns) (\<lambda>parts. sret (Ok (join w parts)))) (concat (map (node_names qualifier rel) ns)) (concat (map (node_literals rel) ns))"
    "\<exists>p parts. fst (compile_nodes ns s) = Ok (p # parts)" by simp_all
qed

lemma emits_node:
  assumes "wf_node n" "compiling qualifier rel s" "casts_spliceable rel"
  shows "emits s (compile_node n) (node_names qualifier rel n) (node_literals rel n)"
  using assms(1,2)
proof (induction n arbitrary: s)
  case (Cond c)
  then show ?case using emits_cond [OF _ _ _ assms(3)] by simp
next
  case (Group p negated kids)
  let ?w = "case p of L_And \<Rightarrow> '' AND '' | L_Or \<Rightarrow> '' OR ''"
  have kids: "kids \<noteq> []" "\<And>n. n \<in> set kids \<Longrightarrow> wf_node n" using Group.prems(1) by (auto simp: list_all_iff)
  have w: "sep_text ?w" by (cases p) (simp_all add: sep_text_def sep_char_def)
  have e: "emits s (sbind (compile_nodes kids) (\<lambda>parts. sret (Ok (join ?w parts)))) (concat (map (node_names qualifier rel) kids)) (concat (map (node_literals rel) kids))"
    by (rule emits_nodes(1) [OF kids(1) w Group.prems(2)]) (use Group.IH kids(2) in blast)
  have "emits s (sbind (sbind (compile_nodes kids) (\<lambda>parts. sret (Ok (join ?w parts)))) (\<lambda>body. sret (Ok (if negated then ''NOT ('' @ body @ '')'' else ''('' @ body @ '')''))))
      (concat (map (node_names qualifier rel) kids)) (concat (map (node_literals rel) kids))"
    by (rule emits_ret [OF e]) (use piece_negated in auto)
  then show ?case using kids(1) by (simp add: sbind_assoc Let_def)
qed

section \<open>Requests\<close>

lemma wf_no_embeds: "wf_node n \<Longrightarrow> no_embeds_inside n = Ok ()" "list_all wf_node ns \<Longrightarrow> no_embeds_in ns = Ok ()"
  by (induction n and ns rule: no_embeds_inside_no_embeds_in.induct) auto

lemma full_route_wf:
  assumes "wf_parsed p"
  shows "\<exists>r n. full_route (filter_node p) = Ok (r, n) \<and> wf_node n"
proof (cases p)
  case (Filter c)
  then have "wf_cond c" using assms by (simp add: wf_parsed_def)
  then show ?thesis using Filter by (auto simp: full_route_def filter_node_def wf_cond_def wf_field_def)
next
  case (Logic emb q negated kids)
  then have "wf_node (Group q negated kids)" using assms by (simp add: wf_parsed_def)
  then show ?thesis using Logic wf_no_embeds(2) by (auto simp: full_route_def filter_node_def)
qed

lemma parsed_wf_node:
  assumes "utf8 key" "utf8 value" "parse_pair key value = Ok p" "full_route (filter_node p) = Ok (r, n)"
  shows "wf_node n"
  using full_route_wf [OF parse_pair_types [OF assms(1-3)]] assms(4) by auto

lemma clause_piece:
  assumes "nodes \<noteq> []" "\<forall>n \<in> set nodes. wf_node n" "casts_spliceable rel"
  shows "\<exists>q. where_clause_from nodes qualifier params rel = Ok q \<and> sq_params q = params @ concat (map (node_literals rel) nodes) \<and>
     piece (sq_text q) (concat (map (node_names qualifier rel) nodes)) [Suc (length params)..<Suc (length (sq_params q))]"
proof -
  let ?s = "\<lparr>cp_params = params, cp_qualifier = qualifier, cp_rel = rel, cp_embeds = []\<rparr>"
  have c: "compiling qualifier rel ?s" by (simp add: compiling_def)
  have w: "sep_text '' AND ''" by (simp add: sep_text_def sep_char_def)
  have "emits ?s (sbind (compile_nodes nodes) (\<lambda>parts. sret (Ok (join '' AND '' parts)))) (concat (map (node_names qualifier rel) nodes)) (concat (map (node_literals rel) nodes))"
    using assms(2) by (intro emits_nodes(1) [OF assms(1) w c] emits_node [OF _ _ assms(3)]) auto
  then show ?thesis using assms(1)
    by (auto simp: where_clause_from_def where_clause_over_def emits_def sbind_def sret_def simp del: upt_Suc split: prod.splits outcome.splits)
qed

text \<open>C27. The filters of a request cannot reach the SQL around them. Trees that come out of the parser always compile; Postgres reads
  the clause as a token sequence without a statement separator or a comment, in which the quoted tokens are exactly the qualifier, the column names and
  the JSON keys of the trees, in order, with the functions the catalog names for reading text, and the parameters are numbered one after the other
  behind those already bound. The parameter list is the literals of the trees, in order: no literal is in the text.
\<close>

theorem filters_stay_quoted:
  assumes "nodes \<noteq> []" "casts_spliceable rel"
    "\<forall>n \<in> set nodes. \<exists>key value p r. utf8 key \<and> utf8 value \<and> parse_pair key value = Ok p \<and> full_route (filter_node p) = Ok (r, n)"
  shows "\<exists>q ts. where_clause_from nodes qualifier params rel = Ok q \<and> sql_lex (sq_text q) = Some ts \<and> TPlain (CHR '';'') \<notin> set ts \<and>
     quoted_toks ts = concat (map (node_names qualifier rel) nodes) \<and>
     holes ts = [Suc (length params)..<Suc (length (sq_params q))] \<and>
     sq_params q = params @ concat (map (node_literals rel) nodes)"
proof -
  have "\<forall>n \<in> set nodes. wf_node n" using assms(3) parsed_wf_node by blast
  from clause_piece [OF assms(1) this assms(2)] show ?thesis using piece_lex spaced_no_separator by metis
qed

definition sample_rel :: relation where
  "sample_rel = \<lparr>rl_name = ''t'',
     rl_columns = [\<lparr>cl_name = ''a'', cl_type_name = ''color'', cl_base_type = ''integer'', cl_to_json = None, cl_from_text = Some (quote_ident ''color''),
                   cl_from_json = None, cl_default_expr = None\<rparr>],
     rl_keys = [''a'']\<rparr>"

theorem filters_stay_quoted_witness:
  "\<exists>n q ts. full_route ([], Group L_Or False
       [Cond \<lparr>co_field = \<lparr>fi_embed = [], fi_column = ''a'', fi_path = []\<rparr>, co_negated = False, co_op = Op_Eq, co_quant = None,
              co_config = None, co_value = VLit ''1''\<rparr>,
        Group L_And True
          [Cond \<lparr>co_field = \<lparr>fi_embed = [], fi_column = ''b'', fi_path = [\<lparr>js_text = True, js_key = JName ''k''\<rparr>]\<rparr>, co_negated = False,
                 co_op = Op_In, co_quant = None, co_config = None, co_value = VList [''x'', ''y'']\<rparr>,
           Cond \<lparr>co_field = \<lparr>fi_embed = [], fi_column = ''c'', fi_path = []\<rparr>, co_negated = False, co_op = Op_Is, co_quant = None,
                 co_config = None, co_value = VLit ''null''\<rparr>]]) = Ok ([], n) \<and>
     where_clause_from [n] (Some ''t'') [] (Some sample_rel) = Ok q \<and> sql_lex (sq_text q) = Some ts \<and>
     quoted_toks ts = [TIdent ''t'', TIdent ''a'', TIdent ''color'', TIdent ''t'', TIdent ''b'', TStr ''k'', TIdent ''t'', TIdent ''c''] \<and>
     sq_params q = [''1'', ''x'', ''y'']"
proof -
  let ?k = "\<lparr>co_field = \<lparr>fi_embed = [], fi_column = ''a'', fi_path = []\<rparr>, co_negated = False, co_op = Op_Eq, co_quant = None, co_config = None, co_value = VLit ''1''\<rparr>"
  let ?l = "\<lparr>co_field = \<lparr>fi_embed = [], fi_column = ''b'', fi_path = [\<lparr>js_text = True, js_key = JName ''k''\<rparr>]\<rparr>, co_negated = False,
                 co_op = Op_In, co_quant = None, co_config = None, co_value = VList [''x'', ''y'']\<rparr>"
  let ?m = "\<lparr>co_field = \<lparr>fi_embed = [], fi_column = ''c'', fi_path = []\<rparr>, co_negated = False, co_op = Op_Is, co_quant = None, co_config = None, co_value = VLit ''null''\<rparr>"
  let ?n = "Group L_Or False [Cond ?k, Group L_And True [Cond ?l, Cond ?m]]"
  have u: "utf8 ''or''" "utf8 ''(a.eq.1,not.and(b->>k.in.(x,y),c.is.NULL))''" by (rule utf8_ascii, simp add: ascii_def code_def)+
  have route: "full_route ([], ?n) = Ok ([], ?n)" by (simp add: full_route_def)
  have casts: "casts_spliceable (Some sample_rel)" using piece_ident by (auto simp: casts_spliceable_def sample_rel_def spliceable_def)
  have color: "read_names (Some (quote_ident ''color'')) = [TIdent ''color'']"
    using sql_lex_print [of "[TIdent ''color'']"] by (simp add: read_names_def quote_ident_def quoted_with_def)
  have names: "concat (map (node_names (Some ''t'') (Some sample_rel)) [?n]) =
      [TIdent ''t'', TIdent ''a'', TIdent ''color'', TIdent ''t'', TIdent ''b'', TStr ''k'', TIdent ''t'', TIdent ''c'']"
    by (simp add: field_names_def path_names_def cond_reads_def column_cast_def read_cast_def pattern_op_def is_fts_def rel_column_def sample_rel_def color)
      (simp add: read_names_def)
  have lits: "concat (map (node_literals (Some sample_rel)) [?n]) = [''1'', ''x'', ''y'']" by (simp add: cond_literals_def pattern_op_def is_fts_def)
  have "\<forall>n \<in> set [?n]. \<exists>key value p r. utf8 key \<and> utf8 value \<and> parse_pair key value = Ok p \<and> full_route (filter_node p) = Ok (r, n)"
    using u sample_pair route by (fastforce simp: filter_node_def)
  from filters_stay_quoted [OF _ casts this, of "Some ''t''" "[]"] route show ?thesis unfolding names lits by auto
qed

end
