(* ===== verification/Rest_Mutate.thy ===== *)
theory Rest_Mutate
  imports Rest_Sql_Proofs
begin

text \<open>
  Writes as SQL (crates/zou-rest/src/mutate.rs): inserts, upserts, updates and deletes over one JSON parameter. Each statement
  is one statement as Postgres reads it, with every name of the request in quotes and the parameters numbered in order.
\<close>

definition SRC :: string where
  "SRC = ''_zou_src''"

definition BODY :: string where
  "BODY = ''_zou_body''"

definition ELEM :: string where
  "ELEM = ''_zou_elem''"

datatype missing = M_Null | M_Default

datatype returning = R_None | R_Star | R_Cols "string list"

datatype conflict = C_Ignore "string list" | C_Merge "string list" "string list"

text \<open>The literals of the counters, with their quotes.\<close>

definition count_text :: "string \<Rightarrow> string" where
  "count_text step =
     ''set_config('' @ quoted_with (CHR 0x27) ''zou.inserted'' @ '', (coalesce(nullif(current_setting('' @ quoted_with (CHR 0x27) ''zou.inserted'' @
     '', true), '' @ quoted_with (CHR 0x27) [] @ '')::int, 0) '' @ step @ '' 1)::text, true) <> '' @ quoted_with (CHR 0x27) []"

definition COUNT_INSERT :: string where
  "COUNT_INSERT = count_text ''+''"

definition COUNT_UPDATE :: string where
  "COUNT_UPDATE = count_text ''-''"

definition quote_text :: "string \<Rightarrow> string" where
  "quote_text name = [CHR 0x27] @ double_quotes (CHR 0x27) name @ [CHR 0x27]"

definition ident_list :: "string list \<Rightarrow> string" where
  "ident_list cols = join '', '' (map quote_ident cols)"

definition returning_sql :: "returning \<Rightarrow> string \<Rightarrow> string" where
  "returning_sql r table =
     (case r of
        R_None \<Rightarrow> []
      | R_Star \<Rightarrow> '' returning '' @ quote_ident table @ ''.*''
      | R_Cols cols \<Rightarrow>
          if cols = [] then []
          else '' returning '' @ join '', '' (map (\<lambda>c. quote_ident table @ ''.'' @ quote_ident c) cols))"

definition defaults_of :: "relation option \<Rightarrow> string list \<Rightarrow> missing \<Rightarrow> string option" where
  "defaults_of rel columns m =
     (if m = M_Null then None
      else
        case rel of
          None \<Rightarrow> None
        | Some r \<Rightarrow>
            let pairs = List.map_filter (\<lambda>c. map_option (\<lambda>d. quote_text (cl_name c) @ '', '' @ d) (cl_default_expr c))
                          (List.map_filter (rel_column r) columns)
            in if pairs = [] then None else Some (''jsonb_build_object('' @ join '', '' pairs @ '')''))"

definition body_cast :: "relation option \<Rightarrow> string list \<Rightarrow> (string \<times> string) option" where
  "body_cast rel columns =
     (case rel of
        None \<Rightarrow> None
      | Some r \<Rightarrow>
          let cols = List.map_filter (rel_column r) columns
          in if cols = [] \<or> length cols \<noteq> length columns then None
             else Some
               (join '', '' (map (\<lambda>c. let name = quote_ident (cl_name c) in case cl_from_json c of Some func \<Rightarrow> func @ ''('' @ name @ '') as '' @ name | None \<Rightarrow> name) cols),
                join '', '' (map (\<lambda>c. let name = quote_ident (cl_name c) in case cl_from_json c of Some _ \<Rightarrow> name @ '' json'' | None \<Rightarrow> name @ '' '' @ cl_type_name c) cols)))"

definition rows_of :: "string \<Rightarrow> relation option \<Rightarrow> string list \<Rightarrow> missing \<Rightarrow> string" where
  "rows_of table rel columns m =
     (let (json, body) =
        (case defaults_of rel columns m of
           Some obj \<Rightarrow>
             (''jsonb'', ''(select jsonb_agg('' @ obj @ '' || '' @ quote_ident ELEM @ '') from jsonb_array_elements($1) as '' @ quote_ident ELEM @ '')'')
         | None \<Rightarrow> (''json'', ''$1''))
      in case body_cast rel columns of
           Some (list, defs) \<Rightarrow>
             ''(select '' @ list @ '' from '' @ json @ ''_to_recordset('' @ body @ '') as '' @ quote_ident BODY @ ''('' @ defs @ '')) as '' @ quote_ident SRC
         | None \<Rightarrow> json @ ''_populate_recordset(null::'' @ quote_ident table @ '', '' @ body @ '') as '' @ quote_ident SRC)"

definition row_of :: "string \<Rightarrow> relation option \<Rightarrow> string list \<Rightarrow> missing \<Rightarrow> string" where
  "row_of table rel columns m =
     (let (json, body) =
        (case defaults_of rel columns m of
           Some obj \<Rightarrow> (''jsonb'', ''('' @ obj @ '' || $1)'')
         | None \<Rightarrow> (''json'', ''$1''))
      in case body_cast rel columns of
           Some (list, defs) \<Rightarrow>
             ''(select '' @ list @ '' from '' @ json @ ''_to_record('' @ body @ '') as '' @ quote_ident BODY @ ''('' @ defs @ '')) as '' @ quote_ident SRC
         | None \<Rightarrow> ''(select * from '' @ json @ ''_populate_record(null::'' @ quote_ident table @ '', '' @ body @ '')) as '' @ quote_ident SRC)"

definition excluded_sets :: "string list \<Rightarrow> string" where
  "excluded_sets cols = join '', '' (map (\<lambda>c. quote_ident c @ '' = excluded.'' @ quote_ident c) cols)"

definition insert_head :: "string \<Rightarrow> relation option \<Rightarrow> string list \<Rightarrow> missing \<Rightarrow> string" where
  "insert_head table rel columns m =
     (let t = quote_ident table; cols = ident_list columns; src = rows_of table rel columns m
      in if columns = [] then ''insert into '' @ t @ '' select from '' @ src
         else ''insert into '' @ t @ '' ('' @ cols @ '') select '' @ cols @ '' from '' @ src)"

definition conflict_sql :: "conflict option \<Rightarrow> string" where
  "conflict_sql c =
     (case c of
        None \<Rightarrow> []
      | Some (C_Ignore target) \<Rightarrow> if target = [] then [] else '' on conflict ('' @ ident_list target @ '') do nothing''
      | Some (C_Merge target sets) \<Rightarrow>
          if target = [] then []
          else if sets = [] then '' on conflict ('' @ ident_list target @ '') do nothing''
          else '' on conflict ('' @ ident_list target @ '') do update set '' @ excluded_sets sets @ '' where '' @ COUNT_UPDATE)"

definition insert_rows ::
    "string \<Rightarrow> relation option \<Rightarrow> string list \<Rightarrow> string \<Rightarrow> missing \<Rightarrow> conflict option \<Rightarrow> returning \<Rightarrow> (sql, string) outcome" where
  "insert_rows table rel columns payload m c r =
     Ok \<lparr>sq_text =
           insert_head table rel columns m @
           (case c of Some (C_Merge _ _) \<Rightarrow> '' where '' @ COUNT_INSERT | _ \<Rightarrow> []) @
           conflict_sql c @ returning_sql r table,
         sq_params = [payload]\<rparr>"

text \<open>The filters of a statement, behind the word that joins them to it.\<close>

definition filter_sql :: "string \<Rightarrow> node list \<Rightarrow> string \<Rightarrow> string list \<Rightarrow> relation option \<Rightarrow> (sql, string) outcome" where
  "filter_sql word filters qualifier params rel =
     (if filters = [] then Ok \<lparr>sq_text = [], sq_params = params\<rparr>
      else obind (where_clause_from filters (Some qualifier) params rel) (\<lambda>q. Ok (q\<lparr>sq_text := word @ sq_text q\<rparr>)))"

definition upsert_one ::
    "string \<Rightarrow> relation option \<Rightarrow> string list \<Rightarrow> string \<Rightarrow> string list \<Rightarrow> node list \<Rightarrow> returning \<Rightarrow> (sql, string) outcome" where
  "upsert_one table rel columns payload pk filters r =
     (if pk = [] then Err ''a put needs a primary key to conflict on''
      else
        obind (filter_sql '' and '' filters SRC [payload] rel) (\<lambda>q.
        Ok \<lparr>sq_text =
              insert_head table rel columns M_Null @ '' where '' @ COUNT_INSERT @ sq_text q @
              (if columns = [] then '' on conflict ('' @ ident_list pk @ '') do nothing''
               else '' on conflict ('' @ ident_list pk @ '') do update set '' @ excluded_sets columns @ '' where '' @ COUNT_UPDATE) @
              returning_sql r table,
            sq_params = sq_params q\<rparr>))"

definition update_rows ::
    "string \<Rightarrow> relation option \<Rightarrow> string list \<Rightarrow> string \<Rightarrow> missing \<Rightarrow> node list \<Rightarrow> returning \<Rightarrow> (sql, string) outcome" where
  "update_rows table rel columns payload m filters r =
     (if columns = [] then Ok \<lparr>sq_text = ''select * from '' @ quote_ident table @ '' where false'', sq_params = []\<rparr>
      else
        obind (filter_sql '' where '' filters table [payload] rel) (\<lambda>q.
        Ok \<lparr>sq_text =
              ''update '' @ quote_ident table @ '' set '' @
              join '', '' (map (\<lambda>c. quote_ident c @ '' = '' @ quote_ident SRC @ ''.'' @ quote_ident c) columns) @
              '' from '' @ row_of table rel columns m @ sq_text q @ returning_sql r table,
            sq_params = sq_params q\<rparr>))"

definition delete_rows :: "string \<Rightarrow> relation option \<Rightarrow> node list \<Rightarrow> returning \<Rightarrow> (sql, string) outcome" where
  "delete_rows table rel filters r =
     obind (filter_sql '' where '' filters table [] rel) (\<lambda>q.
     Ok \<lparr>sq_text = ''delete from '' @ quote_ident table @ sq_text q @ returning_sql r table, sq_params = sq_params q\<rparr>)"

end
