(* ===== verification/Rest_Mutate_Proofs.thy ===== *)
theory Rest_Mutate_Proofs
  imports Rest_Mutate
begin

text \<open>
  The statements of writes as Postgres reads them. A statement is put together from chunks, fixed text and pieces, and
  fixed text between pieces begins and ends where tokens cannot run together. The names a write should hold are written down beside it, in
  the order in which they should stand.
\<close>

section \<open>Chunks\<close>

text \<open>Fixed text, or a piece with its quoted tokens and its holes.\<close>

datatype chunk = Lit string | Sub string "sql_tok list" "nat list"

fun chunk_text :: "chunk \<Rightarrow> string" where
  "chunk_text (Lit w) = w"
| "chunk_text (Sub t qs hs) = t"

fun chunk_names :: "chunk \<Rightarrow> sql_tok list" where
  "chunk_names (Lit w) = []"
| "chunk_names (Sub t qs hs) = qs"

fun chunk_holes :: "chunk \<Rightarrow> nat list" where
  "chunk_holes (Lit w) = []"
| "chunk_holes (Sub t qs hs) = hs"

fun chunks_ok :: "chunk list \<Rightarrow> bool" where
  "chunks_ok [Lit w] \<longleftrightarrow> w \<noteq> [] \<and> spaced (plain w)"
| "chunks_ok [Sub t qs hs] \<longleftrightarrow> piece t qs hs"
| "chunks_ok (Lit w # Sub t qs hs # cs) \<longleftrightarrow> w \<noteq> [] \<and> spaced (plain w) \<and> sep_char (last w) \<and> chunks_ok (Sub t qs hs # cs)"
| "chunks_ok (Sub t qs hs # Lit w # cs) \<longleftrightarrow> piece t qs hs \<and> w \<noteq> [] \<and> sep_char (hd w) \<and> chunks_ok (Lit w # cs)"
| "chunks_ok _ \<longleftrightarrow> False"

text \<open>Text that may stand behind any piece: nothing, or something that begins with a separator.\<close>

definition follows :: "string \<Rightarrow> sql_tok list \<Rightarrow> nat list \<Rightarrow> bool" where
  "follows t qs hs \<longleftrightarrow>
     (\<exists>ts. t = sql_print ts \<and> spaced ts \<and> quoted_toks ts = qs \<and> holes ts = hs \<and> (ts = [] \<or> (\<exists>c. sep_char c \<and> hd ts = TPlain c)))"

lemma piece_follows:
  assumes "piece a qa ha" "follows b qb hb" "qs = qa @ qb" "hs = ha @ hb"
  shows "piece (a @ b) qs hs"
proof -
  obtain ta where a: "a = sql_print ta" "spaced ta" "ta \<noteq> []" "quoted_toks ta = qa" "holes ta = ha" using assms(1) unfolding piece_def by blast
  obtain tb where b: "b = sql_print tb" "spaced tb" "quoted_toks tb = qb" "holes tb = hb" "tb = [] \<or> (\<exists>c. sep_char c \<and> hd tb = TPlain c)"
    using assms(2) unfolding follows_def by blast
  have "spaced (ta @ tb)" using a b adj_sep(2) by (auto simp: spaced_append)
  then show ?thesis unfolding piece_def using a b assms(3,4) by (intro exI [of _ "ta @ tb"]) simp
qed

lemma follows_nil: "follows [] [] []"
  by (simp add: follows_def) (rule exI [of _ "[]"], simp)

lemma follows_append:
  assumes "follows a qa ha" "follows b qb hb"
  shows "follows (a @ b) (qa @ qb) (ha @ hb)"
proof -
  obtain ta where a: "a = sql_print ta" "spaced ta" "quoted_toks ta = qa" "holes ta = ha" "ta = [] \<or> (\<exists>c. sep_char c \<and> hd ta = TPlain c)"
    using assms(1) unfolding follows_def by blast
  obtain tb where b: "b = sql_print tb" "spaced tb" "quoted_toks tb = qb" "holes tb = hb" "tb = [] \<or> (\<exists>c. sep_char c \<and> hd tb = TPlain c)"
    using assms(2) unfolding follows_def by blast
  have "spaced (ta @ tb)" "ta @ tb = [] \<or> (\<exists>c. sep_char c \<and> hd (ta @ tb) = TPlain c)" using a b adj_sep(2) by (auto simp: spaced_append hd_append)
  then show ?thesis unfolding follows_def using a b by (intro exI [of _ "ta @ tb"]) simp
qed

lemma follows_lit: "w \<noteq> [] \<Longrightarrow> spaced (plain w) \<Longrightarrow> sep_char (hd w) \<Longrightarrow> follows w [] []"
  unfolding follows_def by (rule exI [of _ "plain w"]) (simp add: plain_ends)

lemma follows_pre:
  assumes "piece a qs hs" "w \<noteq> []" "spaced (plain w)" "sep_char (last w)" "sep_char (hd w)"
  shows "follows (w @ a) qs hs"
proof -
  obtain ta where a: "a = sql_print ta" "spaced ta" "ta \<noteq> []" "quoted_toks ta = qs" "holes ta = hs" using assms(1) unfolding piece_def by blast
  have "spaced (plain w @ ta)" using a assms plain_ends [OF assms(2)] adj_sep(1) by (auto simp: spaced_append)
  then show ?thesis
    unfolding follows_def using a assms(2,5) plain_ends [OF assms(2)] by (intro exI [of _ "plain w @ ta"]) (simp add: hd_append)
qed

lemma chunks_pieces:
  assumes "chunks_ok cs"
  shows "piece (concat (map chunk_text cs)) (concat (map chunk_names cs)) (concat (map chunk_holes cs)) \<and>
     (\<forall>w cs'. cs = Lit w # cs' \<longrightarrow> sep_char (hd w) \<longrightarrow>
        follows (concat (map chunk_text cs)) (concat (map chunk_names cs)) (concat (map chunk_holes cs)))"
  using assms
proof (induction cs rule: chunks_ok.induct)
  case (3 w t qs hs cs)
  then have "piece (concat (map chunk_text (Sub t qs hs # cs))) (concat (map chunk_names (Sub t qs hs # cs))) (concat (map chunk_holes (Sub t qs hs # cs)))" by auto
  from piece_pre [OF this] follows_pre [OF this] 3 show ?case by auto
next
  case (4 t qs hs w cs)
  then have "follows (concat (map chunk_text (Lit w # cs))) (concat (map chunk_names (Lit w # cs))) (concat (map chunk_holes (Lit w # cs)))" by auto
  then show ?case using piece_follows [of t qs hs] 4 by auto
qed (auto simp: piece_plain follows_lit)

lemma piece_chunks:
  "chunks_ok cs \<Longrightarrow> t = concat (map chunk_text cs) \<Longrightarrow> qs = concat (map chunk_names cs) \<Longrightarrow> hs = concat (map chunk_holes cs) \<Longrightarrow> piece t qs hs"
  using chunks_pieces by blast

lemma follows_chunks:
  "chunks_ok (Lit w # cs) \<Longrightarrow> sep_char (hd w) \<Longrightarrow> t = w @ concat (map chunk_text cs) \<Longrightarrow> qs = concat (map chunk_names cs) \<Longrightarrow>
     hs = concat (map chunk_holes cs) \<Longrightarrow> follows t qs hs"
  using chunks_pieces [of "Lit w # cs"] by auto

lemma piece_string: "piece (quoted_with (CHR 0x27) n) [TStr n] []" "piece (quote_text n) [TStr n] []"
  by (unfold piece_def, rule exI [of _ "[TStr n]"], simp, rule exI [of _ "[TStr n]"], simp add: quote_text_def quoted_with_def)

lemma piece_one: "piece ''$1'' [] [1]"
  using piece_hole [of 1] by (simp add: num_text.simps digit_char_def)

lemma piece_join:
  assumes "xs \<noteq> []" "\<And>x. x \<in> set xs \<Longrightarrow> piece (f x) (g x) []"
  shows "piece (join '', '' (map f xs)) (concat (map g xs)) []"
  using assms
proof (induction xs rule: list_nonempty_induct)
  case (cons x xs)
  have j: "join '', '' (map f (x # xs)) = f x @ '', '' @ join '', '' (map f xs)" using cons.hyps by (cases xs) auto
  show ?case unfolding j
    by (rule piece_chunks [of "[Sub (f x) (g x) [], Lit '', '', Sub (join '', '' (map f xs)) (concat (map g xs)) []]"])
      (use cons in \<open>auto simp: sep_char_def\<close>)
qed simp

section \<open>The names of a write\<close>

text \<open>The texts a catalog gives for splicing.\<close>

definition catalog_texts :: "relation option \<Rightarrow> string set" where
  "catalog_texts rel =
     {f. \<exists>r c. rel = Some r \<and> c \<in> set (rl_columns r) \<and>
          (cl_from_text c = Some f \<or> cl_from_json c = Some f \<or> cl_default_expr c = Some f \<or> cl_type_name c = f)}"

definition catalog_columns :: "relation option \<Rightarrow> string list \<Rightarrow> column list" where
  "catalog_columns rel columns = (case rel of None \<Rightarrow> [] | Some r \<Rightarrow> List.map_filter (rel_column r) columns)"

text \<open>The defaults that fill the columns a row leaves out, with the names they go under.\<close>

definition row_defaults :: "relation option \<Rightarrow> string list \<Rightarrow> missing \<Rightarrow> (string \<times> string) list" where
  "row_defaults rel columns m =
     (if m = M_Null then [] else List.map_filter (\<lambda>c. map_option (Pair (cl_name c)) (cl_default_expr c)) (catalog_columns rel columns))"

definition default_names :: "(string \<times> string) list \<Rightarrow> sql_tok list" where
  "default_names ds = concat (map (\<lambda>(name, d). TStr name # read_names (Some d)) ds)"

definition rows_body_names :: "(string \<times> string) list \<Rightarrow> sql_tok list" where
  "rows_body_names ds = (if ds = [] then [] else default_names ds @ [TIdent ELEM, TIdent ELEM])"

definition cast_names :: "column \<Rightarrow> sql_tok list" where
  "cast_names c = (case cl_from_json c of Some f \<Rightarrow> read_names (Some f) @ [TIdent (cl_name c), TIdent (cl_name c)] | None \<Rightarrow> [TIdent (cl_name c)])"

definition type_names :: "column \<Rightarrow> sql_tok list" where
  "type_names c = TIdent (cl_name c) # (case cl_from_json c of Some f \<Rightarrow> [] | None \<Rightarrow> read_names (Some (cl_type_name c)))"

text \<open>The rows out of the payload: read through the table's row type, or column by column when the catalog knows every column.\<close>

definition source_names :: "string \<Rightarrow> relation option \<Rightarrow> string list \<Rightarrow> sql_tok list \<Rightarrow> sql_tok list" where
  "source_names table rel columns body =
     (let cols = catalog_columns rel columns
      in if cols = [] \<or> length cols \<noteq> length columns then [TIdent table] @ body @ [TIdent SRC]
         else concat (map cast_names cols) @ body @ [TIdent BODY] @ concat (map type_names cols) @ [TIdent SRC])"

definition counter_names :: "sql_tok list" where
  "counter_names = [TStr ''zou.inserted'', TStr ''zou.inserted'', TStr [], TStr []]"

definition returning_names :: "returning \<Rightarrow> string \<Rightarrow> sql_tok list" where
  "returning_names r table =
     (case r of R_None \<Rightarrow> [] | R_Star \<Rightarrow> [TIdent table] | R_Cols cols \<Rightarrow> concat (map (\<lambda>c. [TIdent table, TIdent c]) cols))"

definition head_names :: "string \<Rightarrow> relation option \<Rightarrow> string list \<Rightarrow> missing \<Rightarrow> sql_tok list" where
  "head_names table rel columns m =
     [TIdent table] @ map TIdent columns @ map TIdent columns @
     source_names table rel columns (rows_body_names (row_defaults rel columns m))"

definition on_conflict_names :: "string list \<Rightarrow> string list \<Rightarrow> sql_tok list" where
  "on_conflict_names target sets =
     (if target = [] then []
      else map TIdent target @ (if sets = [] then [] else concat (map (\<lambda>c. [TIdent c, TIdent c]) sets) @ counter_names))"

definition filters_names :: "string \<Rightarrow> relation option \<Rightarrow> node list \<Rightarrow> sql_tok list" where
  "filters_names qualifier rel filters = concat (map (node_names (Some qualifier) rel) filters)"

definition insert_names :: "string \<Rightarrow> relation option \<Rightarrow> string list \<Rightarrow> missing \<Rightarrow> conflict option \<Rightarrow> returning \<Rightarrow> sql_tok list" where
  "insert_names table rel columns m c r =
     head_names table rel columns m @
     (case c of
        None \<Rightarrow> []
      | Some (C_Ignore target) \<Rightarrow> on_conflict_names target []
      | Some (C_Merge target sets) \<Rightarrow> counter_names @ on_conflict_names target sets) @
     returning_names r table"

definition upsert_names :: "string \<Rightarrow> relation option \<Rightarrow> string list \<Rightarrow> string list \<Rightarrow> node list \<Rightarrow> returning \<Rightarrow> sql_tok list" where
  "upsert_names table rel columns pk filters r =
     head_names table rel columns M_Null @ counter_names @ filters_names SRC rel filters @ on_conflict_names pk columns @ returning_names r table"

definition update_names :: "string \<Rightarrow> relation option \<Rightarrow> string list \<Rightarrow> missing \<Rightarrow> node list \<Rightarrow> returning \<Rightarrow> sql_tok list" where
  "update_names table rel columns m filters r =
     [TIdent table] @ concat (map (\<lambda>c. [TIdent c, TIdent SRC, TIdent c]) columns) @
     source_names table rel columns (default_names (row_defaults rel columns m)) @ filters_names table rel filters @ returning_names r table"

definition delete_names :: "string \<Rightarrow> relation option \<Rightarrow> node list \<Rightarrow> returning \<Rightarrow> sql_tok list" where
  "delete_names table rel filters r = [TIdent table] @ filters_names table rel filters @ returning_names r table"

section \<open>Parts of a write\<close>

lemma piece_count:
  assumes "step = ''+'' \<or> step = ''-''"
  shows "piece (count_text step) counter_names []"
proof -
  let ?z = "Sub (quoted_with (CHR 0x27) ''zou.inserted'') [TStr ''zou.inserted''] []" and ?e = "Sub (quoted_with (CHR 0x27) []) [TStr []] []"
  show ?thesis
    by (rule piece_chunks [of "[Lit ''set_config('', ?z, Lit '', (coalesce(nullif(current_setting('', ?z, Lit '', true), '', ?e,
        Lit ('')::int, 0) '' @ step @ '' 1)::text, true) <> ''), ?e]"])
      (use assms piece_string(1) in \<open>auto simp: count_text_def sep_char_def counter_names_def\<close>)
qed

lemma piece_ident_list: "cols \<noteq> [] \<Longrightarrow> piece (ident_list cols) (map TIdent cols) []"
  using piece_join [of cols quote_ident "\<lambda>c. [TIdent c]"] piece_ident by (simp add: ident_list_def concat_map_singleton)

lemma follows_returning: "follows (returning_sql r table) (returning_names r table) []"
proof (cases r)
  case R_Star
  show ?thesis
    by (rule follows_chunks [of "'' returning ''" "[Sub (quote_ident table) [TIdent table] [], Lit ''.*'']"])
      (use R_Star piece_ident in \<open>auto simp: returning_sql_def returning_names_def sep_char_def\<close>)
next
  case (R_Cols cols)
  have col: "piece (quote_ident table @ ''.'' @ quote_ident c) [TIdent table, TIdent c] []" for c
    by (rule piece_chunks [of "[Sub (quote_ident table) [TIdent table] [], Lit ''.'', Sub (quote_ident c) [TIdent c] []]"])
      (use piece_ident in \<open>auto simp: sep_char_def\<close>)
  show ?thesis
  proof (cases "cols = []")
    case False
    from follows_pre [OF piece_join [OF this col], of "'' returning ''"] show ?thesis
      using R_Cols False by (simp add: returning_sql_def returning_names_def sep_char_def)
  qed (use R_Cols in \<open>simp add: returning_sql_def returning_names_def follows_nil\<close>)
qed (simp add: returning_sql_def returning_names_def follows_nil)

lemma in_map_filter: "y \<in> set (List.map_filter f xs) \<longleftrightarrow> (\<exists>x \<in> set xs. f x = Some y)"
  by (induction xs) (auto simp: map_filter_simps split: option.splits)

lemma catalog_column_texts:
  assumes "c \<in> set (catalog_columns rel columns)"
  shows "cl_from_json c = Some f \<Longrightarrow> f \<in> catalog_texts rel" "cl_default_expr c = Some f \<Longrightarrow> f \<in> catalog_texts rel" "cl_type_name c \<in> catalog_texts rel"
proof -
  obtain r where "rel = Some r" "c \<in> set (rl_columns r)"
    using assms by (auto simp: catalog_columns_def in_map_filter rel_column_def find_Some_iff split: option.splits)
  then show "cl_from_json c = Some f \<Longrightarrow> f \<in> catalog_texts rel" "cl_default_expr c = Some f \<Longrightarrow> f \<in> catalog_texts rel" "cl_type_name c \<in> catalog_texts rel"
    unfolding catalog_texts_def by blast+
qed

lemma default_pairs:
  "List.map_filter (\<lambda>c. map_option (\<lambda>d. quote_text (cl_name c) @ '', '' @ d) (cl_default_expr c)) cols =
     map (\<lambda>(name, d). quote_text name @ '', '' @ d) (List.map_filter (\<lambda>c. map_option (Pair (cl_name c)) (cl_default_expr c)) cols)"
  by (induction cols) (simp_all add: map_filter_simps split: option.splits)

definition default_object :: "(string \<times> string) list \<Rightarrow> string" where
  "default_object ds = ''jsonb_build_object('' @ join '', '' (map (\<lambda>(name, d). quote_text name @ '', '' @ d) ds) @ '')''"

lemma defaults_of_row:
  "defaults_of rel columns m =
     (if row_defaults rel columns m = [] then None else Some (default_object (row_defaults rel columns m)))"
  unfolding defaults_of_def Let_def default_pairs default_object_def
  by (cases rel) (auto simp: row_defaults_def catalog_columns_def map_filter_simps)

lemma piece_defaults:
  assumes "\<forall>f \<in> catalog_texts rel. spliceable f" "row_defaults rel columns m = ds" "ds \<noteq> []"
  shows "piece (default_object ds) (default_names ds) []"
proof -
  have "piece (case x of (name, d) \<Rightarrow> quote_text name @ '', '' @ d) (case x of (name, d) \<Rightarrow> TStr name # read_names (Some d)) []" if "x \<in> set ds" for x
  proof -
    obtain name d where x: "x = (name, d)" by (cases x)
    have "spliceable d" using that assms(1,2) x catalog_column_texts(2) by (fastforce simp: row_defaults_def in_map_filter split: if_splits)
    then show ?thesis unfolding x prod.case
      by (intro piece_chunks [of "[Sub (quote_text name) [TStr name] [], Lit '', '', Sub d (read_names (Some d)) []]"])
        (auto simp: sep_char_def piece_string piece_spliceable)
  qed
  from piece_join [OF assms(3) this]
  have "piece (join '', '' (map (\<lambda>(name, d). quote_text name @ '', '' @ d) ds)) (default_names ds) []" by (simp add: default_names_def)
  then show ?thesis unfolding default_object_def
    by (intro piece_chunks [of "[Lit ''jsonb_build_object('', Sub (join '', '' (map (\<lambda>(name, d). quote_text name @ '', '' @ d) ds)) (default_names ds) [], Lit '')'']"])
      (auto simp: sep_char_def)
qed

lemma piece_cast_column:
  assumes "\<forall>f \<in> catalog_texts rel. spliceable f" "c \<in> set (catalog_columns rel columns)"
  shows "piece (let name = quote_ident (cl_name c) in case cl_from_json c of Some func \<Rightarrow> func @ ''('' @ name @ '') as '' @ name | None \<Rightarrow> name) (cast_names c) []"
    "piece (let name = quote_ident (cl_name c) in case cl_from_json c of Some _ \<Rightarrow> name @ '' json'' | None \<Rightarrow> name @ '' '' @ cl_type_name c) (type_names c) []"
proof -
  let ?n = "Sub (quote_ident (cl_name c)) [TIdent (cl_name c)] []"
  have "piece (f @ ''('' @ quote_ident (cl_name c) @ '') as '' @ quote_ident (cl_name c)) (read_names (Some f) @ [TIdent (cl_name c), TIdent (cl_name c)]) []"
    if "cl_from_json c = Some f" for f
    by (rule piece_chunks [of "[Sub f (read_names (Some f)) [], Lit ''('', ?n, Lit '') as '', ?n]"])
      (use assms catalog_column_texts(1) [OF assms(2) that] in \<open>auto simp: sep_char_def piece_spliceable piece_ident\<close>)
  then show "piece (let name = quote_ident (cl_name c) in case cl_from_json c of Some func \<Rightarrow> func @ ''('' @ name @ '') as '' @ name | None \<Rightarrow> name) (cast_names c) []"
    by (auto simp: cast_names_def Let_def piece_ident split: option.splits)
  have "piece (quote_ident (cl_name c) @ '' '' @ cl_type_name c) (TIdent (cl_name c) # read_names (Some (cl_type_name c))) []"
    by (rule piece_chunks [of "[?n, Lit '' '', Sub (cl_type_name c) (read_names (Some (cl_type_name c))) []]"])
      (use assms catalog_column_texts(3) [OF assms(2)] in \<open>auto simp: sep_char_def piece_spliceable piece_ident\<close>)
  moreover have "piece (quote_ident (cl_name c) @ '' json'') [TIdent (cl_name c)] []"
    by (rule piece_chunks [of "[?n, Lit '' json'']"]) (auto simp: sep_char_def piece_ident)
  ultimately show "piece (let name = quote_ident (cl_name c) in case cl_from_json c of Some _ \<Rightarrow> name @ '' json'' | None \<Rightarrow> name @ '' '' @ cl_type_name c) (type_names c) []"
    by (auto simp: type_names_def Let_def split: option.splits)
qed

lemma piece_body_cast:
  assumes "\<forall>f \<in> catalog_texts rel. spliceable f" "body_cast rel columns = Some (list, defs)"
  shows "piece list (concat (map cast_names (catalog_columns rel columns))) []" "piece defs (concat (map type_names (catalog_columns rel columns))) []"
    "catalog_columns rel columns \<noteq> []" "length (catalog_columns rel columns) = length columns"
proof -
  obtain r where r: "rel = Some r" using assms(2) by (auto simp: body_cast_def split: option.splits)
  then have cols: "catalog_columns rel columns = List.map_filter (rel_column r) columns" by (simp add: catalog_columns_def)
  show len: "catalog_columns rel columns \<noteq> []" "length (catalog_columns rel columns) = length columns"
    using assms(2) r cols by (auto simp: body_cast_def Let_def split: if_splits)
  have eq: "list = join '', '' (map (\<lambda>c. let name = quote_ident (cl_name c) in case cl_from_json c of Some func \<Rightarrow> func @ ''('' @ name @ '') as '' @ name | None \<Rightarrow> name)
        (catalog_columns rel columns))"
      "defs = join '', '' (map (\<lambda>c. let name = quote_ident (cl_name c) in case cl_from_json c of Some _ \<Rightarrow> name @ '' json'' | None \<Rightarrow> name @ '' '' @ cl_type_name c)
        (catalog_columns rel columns))"
    using assms(2) r cols by (auto simp: body_cast_def Let_def split: if_splits)
  show "piece list (concat (map cast_names (catalog_columns rel columns))) []" "piece defs (concat (map type_names (catalog_columns rel columns))) []"
    unfolding eq by (rule piece_join [OF len(1) piece_cast_column(1) [OF assms(1)]], assumption,
        rule piece_join [OF len(1) piece_cast_column(2) [OF assms(1)]], assumption)
qed

lemma body_cast_None: "body_cast rel columns = None \<Longrightarrow> catalog_columns rel columns = [] \<or> length (catalog_columns rel columns) \<noteq> length columns"
  by (auto simp: body_cast_def catalog_columns_def Let_def split: option.splits if_splits)

lemma piece_source:
  assumes "\<forall>f \<in> catalog_texts rel. spliceable f" "json = ''json'' \<or> json = ''jsonb''" "piece body qs [1]"
    and w: "w = ''_to_recordset('' \<or> w = ''_to_record(''" and p: "(p, e) = ([], [CHR '')'']) \<or> (p, e) = (''(select * from '', ''))'')"
  shows "piece (case body_cast rel columns of
       Some (list, defs) \<Rightarrow> ''(select '' @ list @ '' from '' @ json @ w @ body @ '') as '' @ quote_ident BODY @ ''('' @ defs @ '')) as '' @ quote_ident SRC
     | None \<Rightarrow> p @ json @ (if p = [] then ''_populate_recordset(null::'' else ''_populate_record(null::'') @ quote_ident table @ '', '' @ body @ e @ '' as '' @ quote_ident SRC)
     (source_names table rel columns qs) [1]"
proof (cases "body_cast rel columns")
  case None
  let ?f = "if p = [] then ''_populate_recordset(null::'' else ''_populate_record(null::''"
  have "piece (p @ json @ ?f @ quote_ident table @ '', '' @ body @ e @ '' as '' @ quote_ident SRC) ([TIdent table] @ qs @ [TIdent SRC]) [1]"
    by (rule piece_chunks [of "[Lit (p @ json @ ?f), Sub (quote_ident table) [TIdent table] [], Lit '', '', Sub body qs [1], Lit (e @ '' as ''), Sub (quote_ident SRC) [TIdent SRC] []]"])
      (use assms(2,3) p in \<open>auto simp: sep_char_def piece_ident\<close>)
  then show ?thesis using None body_cast_None [OF None] by (auto simp: source_names_def Let_def)
next
  case (Some x)
  obtain list defs where x: "x = (list, defs)" by (cases x)
  note cast = piece_body_cast [OF assms(1) Some [unfolded x]]
  have "piece (''(select '' @ list @ '' from '' @ json @ w @ body @ '') as '' @ quote_ident BODY @ ''('' @ defs @ '')) as '' @ quote_ident SRC)
      (source_names table rel columns qs) [1]"
    by (rule piece_chunks [of "[Lit ''(select '', Sub list (concat (map cast_names (catalog_columns rel columns))) [], Lit ('' from '' @ json @ w), Sub body qs [1], Lit '') as '',
        Sub (quote_ident BODY) [TIdent BODY] [], Lit ''('', Sub defs (concat (map type_names (catalog_columns rel columns))) [], Lit '')) as '', Sub (quote_ident SRC) [TIdent SRC] []]"])
      (use assms(2,3) w cast in \<open>auto simp: sep_char_def piece_ident source_names_def Let_def\<close>)
  then show ?thesis using Some x by simp
qed

lemma piece_rows_body:
  assumes "\<forall>f \<in> catalog_texts rel. spliceable f" "row_defaults rel columns m = ds" "ds \<noteq> []"
  shows "piece (''(select jsonb_agg('' @ default_object ds @ '' || '' @ quote_ident ELEM @ '') from jsonb_array_elements($1) as '' @ quote_ident ELEM @ '')'')
      (rows_body_names ds) [1]"
    "piece (''('' @ default_object ds @ '' || $1)'') (default_names ds) [1]"
proof -
  note facts = piece_defaults [OF assms] piece_ident [of ELEM] piece_one
  let ?e = "Sub (quote_ident ELEM) [TIdent ELEM] []" and ?o = "Sub (default_object ds) (default_names ds) []"
  show "piece (''(select jsonb_agg('' @ default_object ds @ '' || '' @ quote_ident ELEM @ '') from jsonb_array_elements($1) as '' @ quote_ident ELEM @ '')'')
      (rows_body_names ds) [1]"
    by (rule piece_chunks [of "[Lit ''(select jsonb_agg('', ?o, Lit '' || '', ?e, Lit '') from jsonb_array_elements('', Sub ''$1'' [] [1], Lit '') as '', ?e, Lit '')'']"])
      (use facts assms(3) in \<open>auto simp: sep_char_def rows_body_names_def\<close>)
  show "piece (''('' @ default_object ds @ '' || $1)'') (default_names ds) [1]"
    by (rule piece_chunks [of "[Lit ''('', ?o, Lit '' || '', Sub ''$1'' [] [1], Lit '')'']"]) (use facts in \<open>auto simp: sep_char_def\<close>)
qed

lemma piece_rows:
  assumes "\<forall>f \<in> catalog_texts rel. spliceable f"
  shows "piece (rows_of table rel columns m) (source_names table rel columns (rows_body_names (row_defaults rel columns m))) [1]"
    "piece (row_of table rel columns m) (source_names table rel columns (default_names (row_defaults rel columns m))) [1]"
proof -
  let ?ds = "row_defaults rel columns m"
  have none: "default_names [] = []" "rows_body_names [] = []" by (simp_all add: default_names_def rows_body_names_def)
  note src = piece_source [OF assms]
  note body = piece_rows_body [OF assms refl]
  show "piece (rows_of table rel columns m) (source_names table rel columns (rows_body_names ?ds)) [1]"
  proof (cases "?ds = []")
    case True
    with src [where json = "''json''" and qs = "[]" and w = "''_to_recordset(''" and p = "[]" and e = "'')''" and columns = columns and table = table, OF _ piece_one] none show ?thesis
      by (cases "body_cast rel columns") (auto simp: rows_of_def defaults_of_row simp del: One_nat_def)
  next
    case False
    with src [where json = "''jsonb''" and qs = "rows_body_names ?ds" and w = "''_to_recordset(''" and p = "[]" and e = "'')''" and columns = columns and table = table, OF _ body(1) [OF False]] show ?thesis
      by (cases "body_cast rel columns") (auto simp: rows_of_def defaults_of_row simp del: One_nat_def)
  qed
  show "piece (row_of table rel columns m) (source_names table rel columns (default_names ?ds)) [1]"
  proof (cases "?ds = []")
    case True
    with src [where json = "''json''" and qs = "[]" and w = "''_to_record(''" and p = "''(select * from ''" and e = "''))''" and columns = columns and table = table, OF _ piece_one] none show ?thesis
      by (cases "body_cast rel columns") (auto simp: row_of_def defaults_of_row simp del: One_nat_def)
  next
    case False
    with src [where json = "''jsonb''" and qs = "default_names ?ds" and w = "''_to_record(''" and p = "''(select * from ''" and e = "''))''" and columns = columns and table = table, OF _ body(2) [OF False]] show ?thesis
      by (cases "body_cast rel columns") (auto simp: row_of_def defaults_of_row simp del: One_nat_def)
  qed
qed

lemma piece_insert_head:
  assumes "\<forall>f \<in> catalog_texts rel. spliceable f"
  shows "piece (insert_head table rel columns m) (head_names table rel columns m) [1]"
proof -
  let ?t = "Sub (quote_ident table) [TIdent table] []" and ?c = "Sub (ident_list columns) (map TIdent columns) []"
  let ?r = "Sub (rows_of table rel columns m) (source_names table rel columns (rows_body_names (row_defaults rel columns m))) [1]"
  show ?thesis
  proof (cases "columns = []")
    case True
    show ?thesis
      by (rule piece_chunks [of "[Lit ''insert into '', ?t, Lit '' select from '', ?r]"])
        (use True piece_rows(1) [OF assms] piece_ident in \<open>auto simp: insert_head_def head_names_def sep_char_def\<close>)
  next
    case False
    show ?thesis
      by (rule piece_chunks [of "[Lit ''insert into '', ?t, Lit '' ('', ?c, Lit '') select '', ?c, Lit '' from '', ?r]"])
        (use False piece_ident_list [OF False] piece_rows(1) [OF assms] piece_ident in \<open>auto simp: insert_head_def head_names_def sep_char_def Let_def\<close>)
  qed
qed

definition on_conflict :: "string list \<Rightarrow> string list \<Rightarrow> string" where
  "on_conflict target sets =
     (if target = [] then []
      else if sets = [] then '' on conflict ('' @ ident_list target @ '') do nothing''
      else '' on conflict ('' @ ident_list target @ '') do update set '' @ excluded_sets sets @ '' where '' @ COUNT_UPDATE)"

lemma follows_on_conflict: "follows (on_conflict target sets) (on_conflict_names target sets) []"
proof (cases "target = []")
  case True
  then show ?thesis by (simp add: on_conflict_def on_conflict_names_def follows_nil)
next
  case target: False
  let ?t = "Sub (ident_list target) (map TIdent target) []" and ?e = "Sub (excluded_sets sets) (concat (map (\<lambda>c. [TIdent c, TIdent c]) sets)) []"
  show ?thesis
  proof (cases "sets = []")
    case True
    show ?thesis
      by (rule follows_chunks [of "'' on conflict (''" "[?t, Lit '') do nothing'']"])
        (use target True piece_ident_list in \<open>auto simp: on_conflict_def on_conflict_names_def sep_char_def\<close>)
  next
    case False
    have "piece (quote_ident c @ '' = excluded.'' @ quote_ident c) [TIdent c, TIdent c] []" for c
      by (rule piece_chunks [of "[Sub (quote_ident c) [TIdent c] [], Lit '' = excluded.'', Sub (quote_ident c) [TIdent c] []]"])
        (auto simp: sep_char_def piece_ident)
    from piece_join [OF False this] have "piece (excluded_sets sets) (concat (map (\<lambda>c. [TIdent c, TIdent c]) sets)) []" by (simp add: excluded_sets_def)
    then show ?thesis
      by (intro follows_chunks [of "'' on conflict (''" "[?t, Lit '') do update set '', ?e, Lit '' where '', Sub COUNT_UPDATE counter_names []]"])
        (use target False piece_ident_list piece_count in \<open>auto simp: on_conflict_def on_conflict_names_def COUNT_UPDATE_def sep_char_def\<close>)
  qed
qed

lemma follows_count: "follows ('' where '' @ COUNT_INSERT) counter_names []"
  using follows_pre [OF piece_count, of "''+''" "'' where ''"] by (simp add: COUNT_INSERT_def sep_char_def)

lemma follows_filters:
  assumes "\<forall>n \<in> set filters. wf_node n" "casts_spliceable rel" "word = '' and '' \<or> word = '' where ''"
  obtains q where "filter_sql word filters qualifier params rel = Ok q" "sq_params q = params @ concat (map (node_literals rel) filters)"
    "follows (sq_text q) (filters_names qualifier rel filters) [Suc (length params)..<Suc (length (sq_params q))]"
proof (cases "filters = []")
  case True
  then show thesis using that [of "\<lparr>sq_text = [], sq_params = params\<rparr>"] by (simp add: filter_sql_def filters_names_def follows_nil)
next
  case False
  from clause_piece [OF this assms(1,2), of "Some qualifier" params] obtain q where
    q: "where_clause_from filters (Some qualifier) params rel = Ok q" "sq_params q = params @ concat (map (node_literals rel) filters)"
    "piece (sq_text q) (filters_names qualifier rel filters) [Suc (length params)..<Suc (length (sq_params q))]"
    unfolding filters_names_def by blast
  have "follows (word @ sq_text q) (filters_names qualifier rel filters) [Suc (length params)..<Suc (length (sq_params q))]"
    using assms(3) by (intro follows_pre [OF q(3)]) (auto simp: sep_char_def)
  then show thesis using that [of "q\<lparr>sq_text := word @ sq_text q\<rparr>"] False q(1,2) by (simp add: filter_sql_def del: upt_Suc)
qed

section \<open>Writes\<close>

text \<open>A text that begins with the given words, that Postgres reads as one statement with exactly the given names, and that binds exactly the given parameters, each
  used once and in order.\<close>

definition one_statement :: "string \<Rightarrow> sql_tok list \<Rightarrow> string list \<Rightarrow> sql \<Rightarrow> bool" where
  "one_statement verb names params q \<longleftrightarrow>
     sq_params q = params \<and> (\<exists>rest. sq_text q = verb @ rest) \<and>
     (\<exists>ts. sql_lex (sq_text q) = Some ts \<and> TPlain (CHR '';'') \<notin> set ts \<and> quoted_toks ts = names \<and> holes ts = [1..<Suc (length params)])"

lemma piece_statement:
  "piece (sq_text q) names [1..<Suc (length params)] \<Longrightarrow> sq_params q = params \<Longrightarrow> \<exists>rest. sq_text q = verb @ rest \<Longrightarrow> one_statement verb names params q"
  unfolding one_statement_def using piece_lex spaced_no_separator by metis

lemma insert_head_verb: "\<exists>rest'. insert_head table rel columns m @ rest = ''insert into '' @ rest'"
  by (simp add: insert_head_def Let_def)

lemma insert_statement:
  assumes "\<forall>f \<in> catalog_texts rel. spliceable f"
  shows "\<exists>q. insert_rows table rel columns payload m c r = Ok q \<and> one_statement ''insert into '' (insert_names table rel columns m c r) [payload] q"
proof -
  define mid where "mid = (case c of None \<Rightarrow> ([], []) | Some (C_Ignore target) \<Rightarrow> (on_conflict target [], on_conflict_names target [])
    | Some (C_Merge target sets) \<Rightarrow> (('' where '' @ COUNT_INSERT) @ on_conflict target sets, counter_names @ on_conflict_names target sets))"
  have "follows (fst mid) (snd mid) []"
    using follows_append [OF follows_count follows_on_conflict] follows_on_conflict
    by (auto simp: mid_def follows_nil split: option.splits conflict.splits)
  from piece_follows [OF piece_insert_head [OF assms] follows_append [OF this follows_returning] refl refl]
  have p: "piece (insert_head table rel columns m @ fst mid @ returning_sql r table) (insert_names table rel columns m c r) [1]"
    by (auto simp: insert_names_def mid_def split: option.splits conflict.splits)
  have made: "insert_rows table rel columns payload m c r = Ok \<lparr>sq_text = insert_head table rel columns m @ fst mid @ returning_sql r table, sq_params = [payload]\<rparr>"
    by (auto simp: insert_rows_def conflict_sql_def on_conflict_def mid_def split: option.splits conflict.splits)
  show ?thesis
    unfolding made using p insert_head_verb by (auto intro!: piece_statement simp del: append_Cons)
qed

text \<open>Filters behind the parameter of the payload.\<close>

lemma filters_behind_payload:
  assumes "\<forall>n \<in> set filters. wf_node n" "casts_spliceable rel" "word = '' and '' \<or> word = '' where ''"
  obtains q hs where "filter_sql word filters qualifier [payload] rel = Ok q" "sq_params q = payload # concat (map (node_literals rel) filters)"
    "follows (sq_text q) (filters_names qualifier rel filters) hs" "[1..<Suc (length (sq_params q))] = [1] @ hs"
proof -
  from follows_filters [OF assms, of qualifier "[payload]"] obtain q where
    q: "filter_sql word filters qualifier [payload] rel = Ok q" "sq_params q = [payload] @ concat (map (node_literals rel) filters)"
    "follows (sq_text q) (filters_names qualifier rel filters) [Suc (length [payload])..<Suc (length (sq_params q))]" .
  have "[1..<Suc (length (sq_params q))] = [1] @ [Suc (length [payload])..<Suc (length (sq_params q))]"
    using q(2) upt_conv_Cons [of 1 "Suc (length (sq_params q))"] by (simp del: upt_Suc)
  with q show thesis using that [of q] by simp
qed

lemma update_statement:
  assumes cat: "\<forall>f \<in> catalog_texts rel. spliceable f" and "\<forall>n \<in> set filters. wf_node n" "casts_spliceable rel" "columns \<noteq> []"
  shows "\<exists>q. update_rows table rel columns payload m filters r = Ok q \<and>
    one_statement ''update '' (update_names table rel columns m filters r) (payload # concat (map (node_literals rel) filters)) q"
proof -
  let ?sets = "join '', '' (map (\<lambda>c. quote_ident c @ '' = '' @ quote_ident SRC @ ''.'' @ quote_ident c) columns)"
  let ?n = "concat (map (\<lambda>c. [TIdent c, TIdent SRC, TIdent c]) columns)"
  let ?src = "source_names table rel columns (default_names (row_defaults rel columns m))"
  obtain q hs where q: "filter_sql '' where '' filters table [payload] rel = Ok q" "sq_params q = payload # concat (map (node_literals rel) filters)"
    "follows (sq_text q) (filters_names table rel filters) hs" "[1..<Suc (length (sq_params q))] = [1] @ hs"
    using filters_behind_payload [OF assms(2,3)] by blast
  have "piece (quote_ident c @ '' = '' @ quote_ident SRC @ ''.'' @ quote_ident c) [TIdent c, TIdent SRC, TIdent c] []" for c
    by (rule piece_chunks [of "[Sub (quote_ident c) [TIdent c] [], Lit '' = '', Sub (quote_ident SRC) [TIdent SRC] [], Lit ''.'', Sub (quote_ident c) [TIdent c] []]"])
      (auto simp: sep_char_def piece_ident)
  note sets = piece_join [OF assms(4) this]
  have "piece (''update '' @ quote_ident table @ '' set '' @ ?sets @ '' from '' @ row_of table rel columns m) ([TIdent table] @ ?n @ ?src) [1]"
    by (rule piece_chunks [of "[Lit ''update '', Sub (quote_ident table) [TIdent table] [], Lit '' set '', Sub ?sets ?n [], Lit '' from '', Sub (row_of table rel columns m) ?src [1]]"])
      (use sets piece_rows(2) [OF cat] piece_ident in \<open>auto simp: sep_char_def\<close>)
  from piece_follows [OF this follows_append [OF q(3) follows_returning] refl refl]
  have p: "piece (''update '' @ quote_ident table @ '' set '' @ ?sets @ '' from '' @ row_of table rel columns m @ sq_text q @ returning_sql r table)
      (update_names table rel columns m filters r) [1..<Suc (length (sq_params q))]"
    unfolding q(4) by (simp add: update_names_def)
  have made: "update_rows table rel columns payload m filters r = Ok \<lparr>sq_text = ''update '' @ quote_ident table @ '' set '' @ ?sets @ '' from '' @
      row_of table rel columns m @ sq_text q @ returning_sql r table, sq_params = sq_params q\<rparr>"
    using assms(4) q(1) by (simp add: update_rows_def)
  show ?thesis using made p q(2) by (auto intro!: piece_statement simp del: upt_Suc)
qed

lemma update_nothing_statement:
  "\<exists>q. update_rows table rel [] payload m filters r = Ok q \<and> one_statement ''select * from '' [TIdent table] [] q"
proof -
  have "piece (''select * from '' @ quote_ident table @ '' where false'') [TIdent table] []"
    by (rule piece_chunks [of "[Lit ''select * from '', Sub (quote_ident table) [TIdent table] [], Lit '' where false'']"]) (auto simp: sep_char_def piece_ident)
  then show ?thesis by (auto simp: update_rows_def intro!: piece_statement)
qed

lemma upsert_statement:
  assumes cat: "\<forall>f \<in> catalog_texts rel. spliceable f" and "\<forall>n \<in> set filters. wf_node n" "casts_spliceable rel" "pk \<noteq> []"
  shows "\<exists>q. upsert_one table rel columns payload pk filters r = Ok q \<and>
    one_statement ''insert into '' (upsert_names table rel columns pk filters r) (payload # concat (map (node_literals rel) filters)) q"
proof -
  let ?w = "'' where '' @ COUNT_INSERT"
  obtain q hs where q: "filter_sql '' and '' filters SRC [payload] rel = Ok q" "sq_params q = payload # concat (map (node_literals rel) filters)"
    "follows (sq_text q) (filters_names SRC rel filters) hs" "[1..<Suc (length (sq_params q))] = [1] @ hs"
    using filters_behind_payload [OF assms(2,3)] by blast
  have tail: "follows (?w @ sq_text q @ on_conflict pk columns @ returning_sql r table)
      (counter_names @ filters_names SRC rel filters @ on_conflict_names pk columns @ returning_names r table) hs"
    using follows_append [OF follows_count follows_append [OF q(3) follows_append [OF follows_on_conflict follows_returning]]] by simp
  have p: "piece (insert_head table rel columns M_Null @ ?w @ sq_text q @ on_conflict pk columns @ returning_sql r table)
      (upsert_names table rel columns pk filters r) [1..<Suc (length (sq_params q))]"
    unfolding q(4) upsert_names_def by (rule piece_follows [OF piece_insert_head [OF cat] tail refl refl])
  have made: "upsert_one table rel columns payload pk filters r =
      Ok \<lparr>sq_text = insert_head table rel columns M_Null @ ?w @ sq_text q @ on_conflict pk columns @ returning_sql r table, sq_params = sq_params q\<rparr>"
    using assms(4) q(1) by (simp add: upsert_one_def on_conflict_def)
  show ?thesis
    unfolding made using p q(2) insert_head_verb by (auto intro!: piece_statement simp del: append_Cons upt_Suc)
qed

lemma delete_statement:
  assumes "\<forall>n \<in> set filters. wf_node n" "casts_spliceable rel"
  shows "\<exists>q. delete_rows table rel filters r = Ok q \<and>
    one_statement ''delete from '' (delete_names table rel filters r) (concat (map (node_literals rel) filters)) q"
proof -
  obtain q where q: "filter_sql '' where '' filters table [] rel = Ok q" "sq_params q = concat (map (node_literals rel) filters)"
    "follows (sq_text q) (filters_names table rel filters) [1..<Suc (length (sq_params q))]"
    using follows_filters [OF assms, of "'' where ''" table "[]"] by auto
  have "piece (''delete from '' @ quote_ident table) [TIdent table] []" by (rule piece_pre) (auto simp: sep_char_def piece_ident)
  from piece_follows [OF this follows_append [OF q(3) follows_returning] refl refl]
  have p: "piece (''delete from '' @ quote_ident table @ sq_text q @ returning_sql r table) (delete_names table rel filters r) [1..<Suc (length (sq_params q))]"
    by (simp add: delete_names_def del: upt_Suc)
  have made: "delete_rows table rel filters r = Ok \<lparr>sq_text = ''delete from '' @ quote_ident table @ sq_text q @ returning_sql r table, sq_params = sq_params q\<rparr>"
    using q(1) by (simp add: delete_rows_def)
  show ?thesis using made p q(2) by (auto intro!: piece_statement simp del: upt_Suc)
qed

text \<open>C31. Whatever names a request gives, a write is one statement. With filters that come out of the parser and catalog texts that read as whole tokens, an insert,
  an upsert (with a primary key; without one it is refused), an update and a delete are made without a panic. Postgres reads each as one token sequence without a
  separator or a comment, which begins with its verb and whose quoted tokens are exactly the names of the write in their order: the table, the columns, the conflict columns, the
  filters' names under their qualifier, the returned columns, the fixed aliases and what the catalog spliced. The parameters bound are exactly the payload and behind it the filter literals
  in order (a delete has the literals only, and an update of no columns is a select of nothing that binds none), and the statement uses each parameter once and in order.
\<close>

theorem writes_are_one_statement:
  assumes "\<forall>f \<in> catalog_texts rel. spliceable f"
    "\<forall>n \<in> set filters. \<exists>key value p route. utf8 key \<and> utf8 value \<and> parse_pair key value = Ok p \<and> full_route (filter_node p) = Ok (route, n)"
    "literals = concat (map (node_literals rel) filters)"
  shows "(\<exists>q. insert_rows table rel columns payload m c r = Ok q \<and> one_statement ''insert into '' (insert_names table rel columns m c r) [payload] q) \<and>
     (if pk = [] then upsert_one table rel columns payload pk filters r = Err ''a put needs a primary key to conflict on''
      else \<exists>q. upsert_one table rel columns payload pk filters r = Ok q \<and>
        one_statement ''insert into '' (upsert_names table rel columns pk filters r) (payload # literals) q) \<and>
     (\<exists>q. update_rows table rel columns payload m filters r = Ok q \<and>
        (if columns = [] then one_statement ''select * from '' [TIdent table] [] q
         else one_statement ''update '' (update_names table rel columns m filters r) (payload # literals) q)) \<and>
     (\<exists>q. delete_rows table rel filters r = Ok q \<and> one_statement ''delete from '' (delete_names table rel filters r) literals q)"
proof -
  have casts: "casts_spliceable rel" using assms(1) by (auto simp: casts_spliceable_def catalog_texts_def)
  have wf: "\<forall>n \<in> set filters. wf_node n" using assms(2) parsed_wf_node by blast
  have "upsert_one table rel columns payload [] filters r = Err ''a put needs a primary key to conflict on''" by (simp add: upsert_one_def)
  then show ?thesis
    unfolding assms(3)
    using insert_statement [OF assms(1)] delete_statement [OF wf casts] upsert_statement [OF assms(1) wf casts]
      update_statement [OF assms(1) wf casts] update_nothing_statement
    by (cases "columns = []"; cases "pk = []") simp_all
qed

theorem writes_are_one_statement_witness:
  "\<exists>n q. parse_pair ''a'' ''eq.1'' = Ok (Filter n) \<and>
     upsert_one ''t'' (Some sample_rel) [''a''] ''{}'' [''a''] [Cond n] R_Star = Ok q \<and>
     one_statement ''insert into '' (upsert_names ''t'' (Some sample_rel) [''a''] [''a''] [Cond n] R_Star) [''{}'', ''1''] q"
proof -
  let ?n = "\<lparr>co_field = \<lparr>fi_embed = [], fi_column = ''a'', fi_path = []\<rparr>, co_negated = False, co_op = Op_Eq, co_quant = None, co_config = None, co_value = VLit ''1''\<rparr>"
  have p: "parse_pair ''a'' ''eq.1'' = Ok (Filter ?n)" by code_simp
  have u: "utf8 ''a''" "utf8 ''eq.1''" by (rule utf8_ascii, simp add: ascii_def code_def)+
  have texts: "\<forall>f \<in> catalog_texts (Some sample_rel). spliceable f"
    using piece_ident [of "''color''"] piece_plain [of "''color''"] by (auto simp: catalog_texts_def sample_rel_def spliceable_def)
  have "\<forall>n \<in> set [Cond ?n]. \<exists>key value p route. utf8 key \<and> utf8 value \<and> parse_pair key value = Ok p \<and> full_route (filter_node p) = Ok (route, n)"
    using u p by (fastforce simp: filter_node_def full_route_def)
  moreover have "[''1''] = concat (map (node_literals (Some sample_rel)) [Cond ?n])" by (simp add: cond_literals_def searched_def sample_rel_def pattern_op_def)
  ultimately show ?thesis
    using writes_are_one_statement [OF texts, where filters = "[Cond ?n]" and literals = "[''1'']" and table = "''t''" and columns = "[''a'']" and pk = "[''a'']" and c = None
      and r = R_Star and payload = "''{}''"] p by (auto simp del: One_nat_def)
qed

end
