(* ===== verification/Placement.thy ===== *)
theory Placement
  imports Cas_Retry Tenant_Layout Sample_Codec
begin

text \<open>
  Which page node serves which tenant shard (crates/zou-store/src/placement.rs, and the edits of
  crates/zou/src/map.rs): the map object, rendezvous hashing with pins, its publication by compare-and-swap, and the version handshake of
  clients and servers. The JSON form and the hash are parameters.
\<close>

section \<open>The map\<close>

definition MAP_KEY :: string where
  "MAP_KEY = ''ctl/MAP''"

definition MAP_FORMAT :: u32 where
  "MAP_FORMAT = 1"

definition map_history :: "u64 \<Rightarrow> string" where
  "map_history v = ''ctl/maps/'' @ pad 16 (num_text False 10 (unat v)) @ ''.json''"

datatype placement_error =
  WrongShard u64 | NoNodes | MapJson | MapFormatTooNew u32 | PlStore cas_error

record page_node =
  pn_id :: string
  pn_addr :: string

record pin =
  pi_tenant :: string
  pi_shard :: u16
  pi_node :: string

record shard_map =
  sm_format :: u32
  sm_version :: u64
  sm_nodes :: "page_node list"
  sm_pins :: "pin list"
  sm_published_unix :: "u64 option"

definition map_empty :: shard_map where
  "map_empty = \<lparr>sm_format = MAP_FORMAT, sm_version = 0, sm_nodes = [], sm_pins = [], sm_published_unix = None\<rparr>"

text \<open>\<open>serde_json\<close>: the format alone, and the whole map.\<close>

record map_codec =
  mc_ser :: "shard_map \<Rightarrow> bytes"
  mc_peek :: "bytes \<Rightarrow> u32 option"
  mc_de :: "bytes \<Rightarrow> shard_map option"

definition map_codec_faithful :: "map_codec \<Rightarrow> bool" where
  "map_codec_faithful c \<longleftrightarrow> (\<forall>m. mc_peek c (mc_ser c m @ [10]) = Some (sm_format m) \<and> mc_de c (mc_ser c m @ [10]) = Some m)"

definition map_to_json :: "map_codec \<Rightarrow> shard_map \<Rightarrow> bytes" where
  "map_to_json c m = mc_ser c m @ [10]"

definition map_from_json :: "map_codec \<Rightarrow> bytes \<Rightarrow> (shard_map, placement_error) outcome" where
  "map_from_json c data =
     obind (ok_or (mc_peek c data) MapJson) (\<lambda>format.
     if format > MAP_FORMAT then Err (MapFormatTooNew format) else ok_or (mc_de c data) MapJson)"

section \<open>Rendezvous\<close>

definition score :: "externals \<Rightarrow> string \<Rightarrow> string \<Rightarrow> u16 \<Rightarrow> u64" where
  "score ext node_id tenant_ref shard =
     from_le (rev (take 8 (sha256 ext (as_bytes node_id @ [0] @ as_bytes tenant_ref @ [0] @ to_le shard))))"

text \<open>\<open>sort_by_key\<close> is stable; \<open>Reverse\<close> turns the order of the scores around.\<close>

definition rank :: "externals \<Rightarrow> shard_map \<Rightarrow> string \<Rightarrow> u16 \<Rightarrow> page_node list" where
  "rank ext m tenant_ref shard = sort_key (\<lambda>n. - int (unat (score ext (pn_id n) tenant_ref shard))) (sm_nodes m)"

definition node_for :: "externals \<Rightarrow> shard_map \<Rightarrow> string \<Rightarrow> u16 \<Rightarrow> page_node option" where
  "node_for ext m tenant_ref shard =
     (case Option.bind (find (\<lambda>p. pi_tenant p = tenant_ref \<and> pi_shard p = shard) (sm_pins m)) (\<lambda>pin. find (\<lambda>n. pn_id n = pi_node pin) (sm_nodes m)) of
        Some node \<Rightarrow> Some node
      | None \<Rightarrow> (case rank ext m tenant_ref shard of [] \<Rightarrow> None | n # _ \<Rightarrow> Some n))"

section \<open>Loading and publishing\<close>

definition map_load :: "map_codec \<Rightarrow> 's cas_store \<Rightarrow> 's \<Rightarrow> (shard_map, placement_error) outcome \<times> 's" where
  "map_load c st s =
     (case cs_get st MAP_KEY s of
        (Ok (Some (data, _)), s) \<Rightarrow> (map_from_json c data, s)
      | (Ok None, s) \<Rightarrow> (Ok map_empty, s)
      | (Err e, s) \<Rightarrow> (Err (PlStore e), s)
      | (Panic, s) \<Rightarrow> (Panic, s))"

definition map_bump :: "(shard_map \<Rightarrow> shard_map) \<Rightarrow> u64 \<Rightarrow> shard_map \<Rightarrow> shard_map" where
  "map_bump edit now m = (let m = edit m in m\<lparr>sm_version := sm_version m + 1, sm_published_unix := Some now\<rparr>)"

text \<open>The swap, and the history copy that is made at best effort behind it.\<close>

definition map_swap ::
    "map_codec \<Rightarrow> 's cas_store \<Rightarrow> shard_map \<Rightarrow> version option \<Rightarrow> 's \<Rightarrow> (shard_map, placement_error) outcome option \<times> 's" where
  "map_swap c st m expected s =
     (case (case expected of
              Some v \<Rightarrow> cs_put_if_match st MAP_KEY (map_to_json c m) (Some v) s
            | None \<Rightarrow> put_if_absent st MAP_KEY (map_to_json c m) s) of
        (Ok _, s) \<Rightarrow>
          (case put_if_absent st (map_history (sm_version m)) (map_to_json c m) s of
             (Panic, s) \<Rightarrow> (Some Panic, s)
           | (_, s) \<Rightarrow> (Some (Ok m), s))
      | (Err (Conflict _), s) \<Rightarrow> (None, s)
      | (Err (AlreadyExists _), s) \<Rightarrow> (None, s)
      | (Err e, s) \<Rightarrow> (Some (Err (PlStore e)), s)
      | (Panic, s) \<Rightarrow> (Some Panic, s))"

definition publish_attempt ::
    "map_codec \<Rightarrow> 's cas_store \<Rightarrow> (shard_map \<Rightarrow> shard_map) \<Rightarrow> ('s \<Rightarrow> u64) \<Rightarrow> 's \<Rightarrow> (shard_map, placement_error) outcome option \<times> 's" where
  "publish_attempt c st edit now s =
     (case cs_get st MAP_KEY s of
        (Ok cur, s) \<Rightarrow>
          (case (case cur of Some (data, _) \<Rightarrow> map_from_json c data | None \<Rightarrow> Ok map_empty) of
             Ok m \<Rightarrow> map_swap c st (map_bump edit (now s) m) (map_option snd cur) s
           | Err e \<Rightarrow> (Some (Err e), s)
           | Panic \<Rightarrow> (Some Panic, s))
      | (Err e, s) \<Rightarrow> (Some (Err (PlStore e)), s)
      | (Panic, s) \<Rightarrow> (Some Panic, s))"

definition publish_map ::
    "map_codec \<Rightarrow> 's cas_store \<Rightarrow> (shard_map \<Rightarrow> shard_map) \<Rightarrow> ('s \<Rightarrow> u64) \<Rightarrow> 's \<Rightarrow> ((shard_map, placement_error) outcome \<times> 's) option" where
  "publish_map c st edit now = retry_loop (publish_attempt c st edit now)"

text \<open>The edits of the command line.\<close>

definition edit_nodes :: "page_node list \<Rightarrow> shard_map \<Rightarrow> shard_map" where
  "edit_nodes nodes m = m\<lparr>sm_nodes := nodes\<rparr>"

definition edit_pin :: "pin \<Rightarrow> shard_map \<Rightarrow> shard_map" where
  "edit_pin pin m = m\<lparr>sm_pins := filter (\<lambda>p. (pi_tenant p, pi_shard p) \<noteq> (pi_tenant pin, pi_shard pin)) (sm_pins m) @ [pin]\<rparr>"

definition edit_unpin :: "string \<Rightarrow> u16 \<Rightarrow> shard_map \<Rightarrow> shard_map" where
  "edit_unpin tenant_ref shard m = m\<lparr>sm_pins := filter (\<lambda>p. \<not> (pi_tenant p = tenant_ref \<and> pi_shard p = shard)) (sm_pins m)\<rparr>"

section \<open>The handshake\<close>

record map_client =
  cl_map :: shard_map

record map_server =
  sv_node :: string
  sv_map :: shard_map

definition client_new :: "map_codec \<Rightarrow> 's cas_store \<Rightarrow> 's \<Rightarrow> (map_client, placement_error) outcome \<times> 's" where
  "client_new c st s = (case map_load c st s of (r, s) \<Rightarrow> (obind r (\<lambda>m. Ok \<lparr>cl_map = m\<rparr>), s))"

definition client_version :: "map_client \<Rightarrow> u64" where
  "client_version cl = sm_version (cl_map cl)"

definition client_route :: "externals \<Rightarrow> map_client \<Rightarrow> string \<Rightarrow> u16 \<Rightarrow> (page_node, placement_error) outcome" where
  "client_route ext cl tenant_ref shard = ok_or (node_for ext (cl_map cl) tenant_ref shard) NoNodes"

definition client_absorb ::
    "map_codec \<Rightarrow> 's cas_store \<Rightarrow> u64 \<Rightarrow> map_client \<Rightarrow> 's \<Rightarrow> ((unit, placement_error) outcome \<times> map_client) \<times> 's" where
  "client_absorb c st answered cl s =
     (if answered > sm_version (cl_map cl) then
        (case map_load c st s of
           (Ok m, s) \<Rightarrow> ((Ok (), cl\<lparr>cl_map := m\<rparr>), s)
         | (Err e, s) \<Rightarrow> ((Err e, cl), s)
         | (Panic, s) \<Rightarrow> ((Panic, cl), s))
      else ((Ok (), cl), s))"

definition server_new :: "map_codec \<Rightarrow> 's cas_store \<Rightarrow> string \<Rightarrow> 's \<Rightarrow> (map_server, placement_error) outcome \<times> 's" where
  "server_new c st node_id s = (case map_load c st s of (r, s) \<Rightarrow> (obind r (\<lambda>m. Ok \<lparr>sv_node = node_id, sv_map = m\<rparr>), s))"

definition server_version :: "map_server \<Rightarrow> u64" where
  "server_version sv = sm_version (sv_map sv)"

definition server_refresh :: "map_codec \<Rightarrow> 's cas_store \<Rightarrow> map_server \<Rightarrow> 's \<Rightarrow> ((unit, placement_error) outcome \<times> map_server) \<times> 's" where
  "server_refresh c st sv s =
     (case map_load c st s of
        (Ok m, s) \<Rightarrow> ((Ok (), sv\<lparr>sv_map := m\<rparr>), s)
      | (Err e, s) \<Rightarrow> ((Err e, sv), s)
      | (Panic, s) \<Rightarrow> ((Panic, sv), s))"

definition admit_check :: "externals \<Rightarrow> map_server \<Rightarrow> string \<Rightarrow> u16 \<Rightarrow> (u64, placement_error) outcome" where
  "admit_check ext sv tenant_ref shard =
     (case node_for ext (sv_map sv) tenant_ref shard of
        Some node \<Rightarrow> if pn_id node = sv_node sv then Ok (sm_version (sv_map sv)) else Err (WrongShard (sm_version (sv_map sv)))
      | None \<Rightarrow> Err (WrongShard (sm_version (sv_map sv))))"

definition server_admit ::
    "externals \<Rightarrow> map_codec \<Rightarrow> 's cas_store \<Rightarrow> string \<Rightarrow> u16 \<Rightarrow> u64 \<Rightarrow> map_server \<Rightarrow> 's \<Rightarrow> ((u64, placement_error) outcome \<times> map_server) \<times> 's" where
  "server_admit ext c st tenant_ref shard asked sv s =
     (if asked > sm_version (sv_map sv) then
        (case map_load c st s of
           (Ok m, s) \<Rightarrow> (let sv = sv\<lparr>sv_map := m\<rparr> in ((admit_check ext sv tenant_ref shard, sv), s))
         | (Err e, s) \<Rightarrow> ((Err e, sv), s)
         | (Panic, s) \<Rightarrow> ((Panic, sv), s))
      else ((admit_check ext sv tenant_ref shard, sv), s))"

section \<open>Placement moves little\<close>

lemma rank_filter: "rank ext (m\<lparr>sm_nodes := filter P (sm_nodes m)\<rparr>) t sh = filter P (rank ext m t sh)"
  by (simp add: rank_def filter_sort)

lemma rank_nodes: "set (rank ext m t sh) = set (sm_nodes m)" "rank ext m t sh = [] \<longleftrightarrow> sm_nodes m = []"
  by (simp_all add: rank_def) (metis set_empty set_sort)

lemma find_filter: "find P xs = Some n \<Longrightarrow> Q n \<Longrightarrow> find P (filter Q xs) = Some n"
  by (induction xs) (auto split: if_splits)

text \<open>C33. Losing a node moves no shard but the lost node's: without the node, the ranking for every tenant shard is the old ranking with the node struck out, so the next
  in line takes over, and every shard that another node served, by pin or by hash, stays where it was. Read the other way round, a joining node
  takes shards and shuffles none among the rest.
\<close>

theorem placement_moves_least:
  assumes "m' = m\<lparr>sm_nodes := filter (\<lambda>n. pn_id n \<noteq> x) (sm_nodes m)\<rparr>"
  shows "rank ext m' tenant_ref shard = filter (\<lambda>n. pn_id n \<noteq> x) (rank ext m tenant_ref shard) \<and>
     (\<forall>n. node_for ext m tenant_ref shard = Some n \<longrightarrow> pn_id n \<noteq> x \<longrightarrow> node_for ext m' tenant_ref shard = Some n)"
proof (intro conjI allI impI)
  show r: "rank ext m' tenant_ref shard = filter (\<lambda>n. pn_id n \<noteq> x) (rank ext m tenant_ref shard)" by (simp add: assms rank_filter)
  fix n assume n: "node_for ext m tenant_ref shard = Some n" "pn_id n \<noteq> x"
  let ?pin = "find (\<lambda>p. pi_tenant p = tenant_ref \<and> pi_shard p = shard) (sm_pins m)"
  have pins: "sm_pins m' = sm_pins m" "sm_nodes m' = filter (\<lambda>n. pn_id n \<noteq> x) (sm_nodes m)" by (simp_all add: assms)
  show "node_for ext m' tenant_ref shard = Some n"
  proof (cases "Option.bind ?pin (\<lambda>pin. find (\<lambda>n. pn_id n = pi_node pin) (sm_nodes m))")
    case None
    then have "Option.bind ?pin (\<lambda>pin. find (\<lambda>n. pn_id n = pi_node pin) (sm_nodes m')) = None"
    proof (cases ?pin)
      case (Some pin)
      then have "find (\<lambda>n. pn_id n = pi_node pin) (sm_nodes m) = None" using None by simp
      then show ?thesis using Some by (auto simp: pins find_None_iff)
    qed simp
    moreover obtain rest where "rank ext m tenant_ref shard = n # rest"
      using n(1) None by (cases "rank ext m tenant_ref shard") (auto simp: node_for_def)
    then have "rank ext m' tenant_ref shard = n # filter (\<lambda>n. pn_id n \<noteq> x) rest" using r n(2) by simp
    ultimately show ?thesis by (simp add: node_for_def pins(1))
  next
    case (Some node)
    then have "node = n" using n(1) by (simp add: node_for_def)
    with Some obtain pin where "?pin = Some pin" "find (\<lambda>n. pn_id n = pi_node pin) (sm_nodes m) = Some n" by (cases ?pin) auto
    then show ?thesis using find_filter [of "\<lambda>n. pn_id n = pi_node pin" "sm_nodes m" n "\<lambda>n. pn_id n \<noteq> x"] n(2) by (simp add: node_for_def pins)
  qed
qed

theorem placement_moves_least_witness:
  "let m = map_empty\<lparr>sm_nodes := [\<lparr>pn_id = ''a'', pn_addr = []\<rparr>, \<lparr>pn_id = ''b'', pn_addr = []\<rparr>]\<rparr>;
       m' = map_empty\<lparr>sm_nodes := [\<lparr>pn_id = ''b'', pn_addr = []\<rparr>]\<rparr>
   in rank sample_ext m' ''t'' 3 = filter (\<lambda>n. pn_id n \<noteq> ''a'') (rank sample_ext m ''t'' 3)"
  using placement_moves_least [where m' = "map_empty\<lparr>sm_nodes := [\<lparr>pn_id = ''b'', pn_addr = []\<rparr>]\<rparr>"
    and m = "map_empty\<lparr>sm_nodes := [\<lparr>pn_id = ''a'', pn_addr = []\<rparr>, \<lparr>pn_id = ''b'', pn_addr = []\<rparr>]\<rparr>"
    and x = "''a''" and ext = sample_ext and tenant_ref = "''t''" and shard = 3]
  by (simp add: Let_def)

section \<open>Pins\<close>

lemma find_last: "\<forall>p \<in> set ps. \<not> P p \<Longrightarrow> P x \<Longrightarrow> find P (ps @ [x]) = Some x"
  by (induction ps) auto

text \<open>A pin decides as soon as its node is in the roster; without its pin a shard is back at the hash.\<close>

lemma pin_decides:
  assumes "find (\<lambda>n. pn_id n = pi_node pin) (sm_nodes m) = Some n"
  shows "node_for ext (edit_pin pin m) (pi_tenant pin) (pi_shard pin) = Some n"
  using assms find_last [of "filter (\<lambda>p. (pi_tenant p, pi_shard p) \<noteq> (pi_tenant pin, pi_shard pin)) (sm_pins m)"
      "\<lambda>p. pi_tenant p = pi_tenant pin \<and> pi_shard p = pi_shard pin" pin]
  by (simp add: node_for_def edit_pin_def)

lemma unpin_hashes: "node_for ext (edit_unpin t sh m) t sh = (case rank ext m t sh of [] \<Rightarrow> None | n # _ \<Rightarrow> Some n)"
proof -
  have "find (\<lambda>p. pi_tenant p = t \<and> pi_shard p = sh) (filter (\<lambda>p. \<not> (pi_tenant p = t \<and> pi_shard p = sh)) (sm_pins m)) = None"
    by (auto simp: find_None_iff)
  then show ?thesis by (simp add: node_for_def edit_unpin_def rank_def)
qed

section \<open>The handshake converges\<close>

text \<open>The store holds this map, and the binary can read it.\<close>

definition map_at :: "map_codec \<Rightarrow> mem_store \<Rightarrow> shard_map \<Rightarrow> bool" where
  "map_at c s m \<longleftrightarrow> (\<exists>v. mem_view s MAP_KEY = Some (map_to_json c m, v)) \<and> sm_format m \<le> MAP_FORMAT"

lemma mem_map_load: "map_at c s m \<Longrightarrow> map_codec_faithful c \<Longrightarrow> map_load c mem_ops s = (Ok m, s)"
  by (auto simp: map_at_def map_load_def mem_ops_def mem_get_def mem_view_def map_from_json_def map_to_json_def map_codec_faithful_def not_less)

text \<open>Maps that were published: the current one is the newest, and a version names one map.\<close>

definition published :: "shard_map set \<Rightarrow> shard_map \<Rightarrow> bool" where
  "published H m \<longleftrightarrow> m \<in> H \<and> (\<forall>a \<in> H. sm_version a \<le> sm_version m) \<and> (\<forall>a \<in> H. \<forall>b \<in> H. sm_version a = sm_version b \<longrightarrow> a = b)"

lemma node_for_some: "sm_nodes m \<noteq> [] \<Longrightarrow> \<exists>n. node_for ext m t sh = Some n"
  using rank_nodes(2) [of ext m t sh] by (auto simp: node_for_def split: option.splits list.splits)

text \<open>A client on the current map is admitted by the node it routes to, however old that node's map is.\<close>

lemma current_client_admitted:
  assumes "map_codec_faithful c" "map_at c s m" "published H m" "sv_map sv \<in> H" "node_for ext m t sh = Some n" "sv_node sv = pn_id n"
  shows "\<exists>sv'. server_admit ext c mem_ops t sh (sm_version m) sv s = ((Ok (sm_version m), sv'), s)"
proof (cases "sm_version (sv_map sv) < sm_version m")
  case True
  then show ?thesis using mem_map_load [OF assms(2,1)] assms(5,6) by (simp add: server_admit_def admit_check_def Let_def)
next
  case False
  then have "sv_map sv = m" using assms(3,4) by (auto simp: published_def)
  then show ?thesis using assms(5,6) by (simp add: server_admit_def admit_check_def)
qed

lemma redirect_is_newer:
  assumes "map_codec_faithful c" "map_at c s m" "published H m" "cl_map cl \<in> H" "sv_map sv \<in> H"
    "node_for ext (cl_map cl) t sh = Some n" "sv_node sv = pn_id n"
  shows "\<exists>r sv'. server_admit ext c mem_ops t sh (client_version cl) sv s = ((r, sv'), s) \<and> sv_map sv' \<in> H \<and> sv_node sv' = sv_node sv \<and>
     (r = Ok (server_version sv') \<or> r = Err (WrongShard (server_version sv')) \<and> client_version cl < server_version sv')"
proof -
  have same: "admit_check ext sv' t sh = Ok (server_version sv')" if "sv_map sv' = cl_map cl" "sv_node sv' = sv_node sv" for sv'
    using that assms(6,7) by (simp add: admit_check_def server_version_def)
  have two: "admit_check ext sv' t sh \<in> {Ok (server_version sv'), Err (WrongShard (server_version sv'))}" for sv'
    by (auto simp: admit_check_def server_version_def split: option.splits)
  have newer: "admit_check ext sv' t sh = Ok (server_version sv') \<or> admit_check ext sv' t sh = Err (WrongShard (server_version sv')) \<and> client_version cl < server_version sv'"
    if "sv_map sv' \<in> H" "client_version cl \<le> server_version sv'" "sv_node sv' = sv_node sv" for sv'
  proof (cases "client_version cl = server_version sv'")
    case True
    then have "sv_map sv' = cl_map cl" using assms(3,4) that(1) by (simp add: published_def client_version_def server_version_def)
    then show ?thesis using same that(3) by simp
  next
    case False
    then show ?thesis using two [of sv'] that(2) by auto
  qed
  show ?thesis
  proof (cases "client_version cl > sm_version (sv_map sv)")
    case True
    let ?sv = "sv\<lparr>sv_map := m\<rparr>"
    have "client_version cl \<le> server_version ?sv" "m \<in> H" using assms(3,4) by (simp_all add: published_def client_version_def server_version_def)
    then show ?thesis using True newer [of ?sv] mem_map_load [OF assms(2,1)]
      by (intro exI [of _ "admit_check ext ?sv t sh"] exI [of _ ?sv]) (simp add: server_admit_def Let_def)
  next
    case False
    then show ?thesis using newer [of sv] assms(5)
      by (intro exI [of _ "admit_check ext sv t sh"] exI [of _ sv]) (auto simp: server_admit_def server_version_def)
  qed
qed

text \<open>C24. A client needs at most one redirect. Whatever published maps the client and the nodes have cached, if the store answers and its map does not change meanwhile,
  the node the client asks first either admits the call, or redirects it with a version that makes the client reload, and then the node it asks next admits
  the call, also when that node's own map is old.
\<close>

theorem routing_converges:
  assumes "map_codec_faithful c" "map_at c s m" "published H m" "sm_nodes m \<noteq> []" "cl_map cl \<in> H" "sm_nodes (cl_map cl) \<noteq> []"
    "\<forall>id. sv_map (servers id) \<in> H \<and> sv_node (servers id) = id"
  shows "\<exists>n r sv. client_route ext cl tenant_ref shard = Ok n \<and>
     server_admit ext c mem_ops tenant_ref shard (client_version cl) (servers (pn_id n)) s = ((r, sv), s) \<and>
     (r = Ok (server_version sv) \<or>
      (\<exists>v cl' n' sv'. r = Err (WrongShard v) \<and> client_absorb c mem_ops v cl s = ((Ok (), cl'), s) \<and> client_route ext cl' tenant_ref shard = Ok n' \<and>
         server_admit ext c mem_ops tenant_ref shard (client_version cl') ((servers(pn_id n := sv)) (pn_id n')) s = ((Ok (sm_version m), sv'), s)))"
proof -
  obtain n where n: "node_for ext (cl_map cl) tenant_ref shard = Some n" using node_for_some [OF assms(6)] by blast
  obtain n' where n': "node_for ext m tenant_ref shard = Some n'" using node_for_some [OF assms(4)] by blast
  obtain r sv where a: "server_admit ext c mem_ops tenant_ref shard (client_version cl) (servers (pn_id n)) s = ((r, sv), s)" "sv_map sv \<in> H" "sv_node sv = pn_id n"
    "r = Ok (server_version sv) \<or> r = Err (WrongShard (server_version sv)) \<and> client_version cl < server_version sv"
    using redirect_is_newer [OF assms(1-3,5) _ n] assms(7) by metis
  have "client_absorb c mem_ops (server_version sv) cl s = ((Ok (), cl\<lparr>cl_map := m\<rparr>), s)" if "client_version cl < server_version sv"
    using that mem_map_load [OF assms(2,1)] by (simp add: client_absorb_def client_version_def)
  moreover have "\<exists>sv'. server_admit ext c mem_ops tenant_ref shard (sm_version m) ((servers(pn_id n := sv)) (pn_id n')) s = ((Ok (sm_version m), sv'), s)"
    by (rule current_client_admitted [OF assms(1-3) _ n']) (use a(2,3) assms(7) in auto)
  ultimately have redirect: "\<exists>v cl' n' sv'. r = Err (WrongShard v) \<and> client_absorb c mem_ops v cl s = ((Ok (), cl'), s) \<and> client_route ext cl' tenant_ref shard = Ok n' \<and>
      server_admit ext c mem_ops tenant_ref shard (client_version cl') ((servers(pn_id n := sv)) (pn_id n')) s = ((Ok (sm_version m), sv'), s)"
    if "r \<noteq> Ok (server_version sv)"
    using that a(4) n' by (intro exI [of _ "server_version sv"] exI [of _ "cl\<lparr>cl_map := m\<rparr>"] exI [of _ n']) (simp add: client_route_def client_version_def)
  have route: "client_route ext cl tenant_ref shard = Ok n" using n by (simp add: client_route_def)
  show ?thesis
  proof (intro exI conjI)
    show "client_route ext cl tenant_ref shard = Ok n" by (rule route)
    show "server_admit ext c mem_ops tenant_ref shard (client_version cl) (servers (pn_id n)) s = ((r, sv), s)" by (rule a(1))
    show "r = Ok (server_version sv) \<or> (\<exists>v cl' n' sv'. r = Err (WrongShard v) \<and> client_absorb c mem_ops v cl s = ((Ok (), cl'), s) \<and> client_route ext cl' tenant_ref shard = Ok n' \<and>
      server_admit ext c mem_ops tenant_ref shard (client_version cl') ((servers(pn_id n := sv)) (pn_id n')) s = ((Ok (sm_version m), sv'), s))"
      by (cases "r = Ok (server_version sv)", simp) (rule disjI2, rule redirect)
  qed
qed

section \<open>A concrete codec\<close>

definition enc_node :: "page_node \<Rightarrow> bytes" where
  "enc_node n = enc_string (pn_id n) @ enc_string (pn_addr n)"

definition dec_node :: "bytes \<Rightarrow> (page_node \<times> bytes) option" where
  "dec_node = dseq dec_string (\<lambda>i. dseq dec_string (\<lambda>a r. Some (\<lparr>pn_id = i, pn_addr = a\<rparr>, r)))"

definition enc_pin :: "pin \<Rightarrow> bytes" where
  "enc_pin p = enc_string (pi_tenant p) @ to_le (pi_shard p) @ enc_string (pi_node p)"

definition dec_pin :: "bytes \<Rightarrow> (pin \<times> bytes) option" where
  "dec_pin = dseq dec_string (\<lambda>t. dseq dec_word (\<lambda>s. dseq dec_string (\<lambda>n r. Some (\<lparr>pi_tenant = t, pi_shard = s, pi_node = n\<rparr>, r))))"

lemma pc_u16: "pc_ok (to_le :: u16 \<Rightarrow> bytes) dec_word"
  by (simp add: pc_ok_def dec_word_def)

lemma pc_node: "pc_ok enc_node dec_node"
  by (simp add: pc_ok_def [of enc_node] enc_node_def dec_node_def pc_basic)

lemma pc_pin: "pc_ok enc_pin dec_pin"
  by (simp add: pc_ok_def [of enc_pin] enc_pin_def dec_pin_def pc_basic pc_u16)

definition sample_map_codec :: map_codec where
  "sample_map_codec =
     \<lparr>mc_ser = (\<lambda>m. to_le (sm_format m) @ to_le (sm_version m) @ enc_list enc_node (sm_nodes m) @ enc_list enc_pin (sm_pins m) @
        enc_option to_le (sm_published_unix m)),
      mc_peek = dseq dec_word (\<lambda>f r. Some f),
      mc_de = (dseq dec_word (\<lambda>f. dseq dec_word (\<lambda>v. dseq (dec_list dec_node) (\<lambda>ns. dseq (dec_list dec_pin) (\<lambda>ps. dseq (dec_option dec_word) (\<lambda>t r.
        Some \<lparr>sm_format = f, sm_version = v, sm_nodes = ns, sm_pins = ps, sm_published_unix = t\<rparr>))))))\<rparr>"

lemma sample_map_codec_faithful: "map_codec_faithful sample_map_codec"
  unfolding map_codec_faithful_def sample_map_codec_def by (simp add: pc_basic pc_node pc_pin)

definition sample_map :: "u64 \<Rightarrow> string list \<Rightarrow> shard_map" where
  "sample_map v ids = map_empty\<lparr>sm_version := v, sm_nodes := map (\<lambda>i. \<lparr>pn_id = i, pn_addr = []\<rparr>) ids\<rparr>"

theorem routing_converges_witness:
  "let old = sample_map 1 [''a'']; new = sample_map 2 [''b''];
       s = mem_new\<lparr>ms_objects := [(MAP_KEY, map_to_json sample_map_codec new, version_of 0)]\<rparr>
   in \<exists>cl' n' sv'. client_absorb sample_map_codec mem_ops 2 \<lparr>cl_map = old\<rparr> s = ((Ok (), cl'), s) \<and> client_route sample_ext cl' ''t'' 0 = Ok n' \<and>
        server_admit sample_ext sample_map_codec mem_ops ''t'' 0 (client_version cl') \<lparr>sv_node = pn_id n', sv_map = new\<rparr> s = ((Ok 2, sv'), s)"
proof -
  define old where "old = sample_map 1 [''a'']"
  define new where "new = sample_map 2 [''b'']"
  define s where "s = mem_new\<lparr>ms_objects := [(MAP_KEY, map_to_json sample_map_codec new, version_of 0)]\<rparr>"
  define servers where "servers = (\<lambda>id. \<lparr>sv_node = id, sv_map = new\<rparr>)"
  have v: "sm_version old = 1" "sm_version new = 2" "sm_nodes old \<noteq> []" "sm_nodes new \<noteq> []" by (simp_all add: old_def new_def sample_map_def)
  have at: "map_at sample_map_codec s new" by (simp add: map_at_def mem_view_def bt_get_def s_def new_def sample_map_def map_empty_def)
  have pub: "published {old, new} new" using v by (auto simp: published_def)
  have r: "client_route sample_ext \<lparr>cl_map = old\<rparr> ''t'' 0 = Ok \<lparr>pn_id = ''a'', pn_addr = []\<rparr>"
    by (simp add: client_route_def node_for_def rank_def old_def sample_map_def map_empty_def)
  have "server_admit sample_ext sample_map_codec mem_ops ''t'' 0 (client_version \<lparr>cl_map = old\<rparr>) (servers ''a'') s = ((Err (WrongShard 2), servers ''a''), s)"
    using v by (simp add: server_admit_def admit_check_def client_version_def servers_def) (simp add: node_for_def rank_def new_def sample_map_def map_empty_def)
  note first = this
  have upd: "servers(''a'' := servers ''a'') = servers" by simp
  have all: "\<forall>id. sv_map (servers id) \<in> {old, new} \<and> sv_node (servers id) = id" by (simp add: servers_def)
  have mine: "cl_map \<lparr>cl_map = old\<rparr> \<in> {old, new}" "sm_nodes (cl_map \<lparr>cl_map = old\<rparr>) \<noteq> []" using v by simp_all
  from routing_converges [OF sample_map_codec_faithful at pub v(4) mine all, of sample_ext "''t''" 0]
  have "\<exists>cl' n' sv'. client_absorb sample_map_codec mem_ops 2 \<lparr>cl_map = old\<rparr> s = ((Ok (), cl'), s) \<and> client_route sample_ext cl' ''t'' 0 = Ok n' \<and>
      server_admit sample_ext sample_map_codec mem_ops ''t'' 0 (client_version cl') (servers (pn_id n')) s = ((Ok 2, sv'), s)"
    unfolding r using first upd v(2) by (auto split: if_split_asm)
  then show ?thesis by (simp add: Let_def old_def new_def s_def servers_def)
qed

section \<open>Racing publishers\<close>

datatype map_edit = SetNodes "page_node list" | SetPin pin | Unpin string u16

fun edit_map :: "map_edit \<Rightarrow> shard_map \<Rightarrow> shard_map" where
  "edit_map (SetNodes nodes) = edit_nodes nodes"
| "edit_map (SetPin pin) = edit_pin pin"
| "edit_map (Unpin tenant_ref shard) = edit_unpin tenant_ref shard"

definition map_apply :: "map_edit \<times> u64 \<Rightarrow> shard_map option \<Rightarrow> shard_map" where
  "map_apply op x = map_bump (edit_map (fst op)) (snd op) (case x of None \<Rightarrow> map_empty | Some m \<Rightarrow> m)"

abbreviation map_serial :: "(map_edit \<times> u64) list \<Rightarrow> shard_map option \<Rightarrow> bool" where
  "map_serial \<equiv> serial map_apply (\<lambda>_ _. True) None"

abbreviation map_reach :: "map_codec \<Rightarrow> (mem_store, shard_map, map_edit \<times> u64) rmw_world \<Rightarrow> bool" where
  "map_reach c \<equiv> rmw_reach (map_to_json c) map_apply (\<lambda>_ _. True) mem_ops mem_view mem_used mem_ok MAP_KEY None"

text \<open>One attempt reads and swaps in what \<open>map_apply\<close> makes of what it read, or starts over.\<close>

lemma publish_attempt_applies:
  assumes "map_codec_faithful c" "mem_view s MAP_KEY = map_option (\<lambda>m. (map_to_json c m, v)) cur" "\<And>m. cur = Some m \<Longrightarrow> sm_format m \<le> MAP_FORMAT"
  shows "publish_attempt c mem_ops (edit_map e) now s =
    map_swap c mem_ops (map_apply (e, now s) cur) (map_option (\<lambda>_. v) cur) s"
  using assms by (cases cur) (auto simp: publish_attempt_def map_apply_def mem_ops_def mem_get_def mem_view_def map_from_json_def map_to_json_def
      map_codec_faithful_def not_less)

lemma map_codec_inj: "map_codec_faithful c \<Longrightarrow> inj (map_to_json c)"
  by (rule injI) (metis map_codec_faithful_def map_to_json_def option.inject)

lemma edit_map_keeps: "sm_version (edit_map e m) = sm_version m" "sm_format (edit_map e m) = sm_format m"
  by (cases e; simp add: edit_nodes_def edit_pin_def edit_unpin_def)+

text \<open>A version counts the publishes, and every publish keeps the format.\<close>

lemma map_serial_version:
  assumes "map_serial log cur"
  shows "sm_version (case cur of None \<Rightarrow> map_empty | Some m \<Rightarrow> m) = of_nat (length log) \<and>
    sm_format (case cur of None \<Rightarrow> map_empty | Some m \<Rightarrow> m) = MAP_FORMAT \<and> (cur = None \<longleftrightarrow> log = [])"
  using assms by induction (simp_all add: map_apply_def map_bump_def Let_def edit_map_keeps, simp add: map_empty_def)

lemma map_serial_deterministic: "map_serial log a \<Longrightarrow> map_serial log b \<Longrightarrow> a = b"
proof (induction arbitrary: b rule: serial.induct)
  case none
  then show ?case by (cases rule: serial.cases) auto
next
  case (one log cur op)
  from one.prems show ?case by (cases rule: serial.cases) (use one.IH in auto)
next
  case (same log m op)
  then show ?case by simp
qed

text \<open>The map a reader sees: what some prefix of the run made, the empty map before it.\<close>

definition run_maps :: "(map_edit \<times> u64) list \<Rightarrow> shard_map set" where
  "run_maps log = {m. \<exists>n x. map_serial (take n log) x \<and> m = (case x of None \<Rightarrow> map_empty | Some m \<Rightarrow> m)}"

lemma run_maps_published:
  assumes "map_serial log (Some m)" "length log < 2 ^ 64"
  shows "published (run_maps log) m"
  unfolding published_def
proof (intro conjI ballI impI)
  show "m \<in> run_maps log" using assms(1) by (auto simp: run_maps_def intro!: exI [of _ "length log"] exI [of _ "Some m"])
  have m: "sm_version m = of_nat (length log)" using map_serial_version [OF assms(1)] by simp
  have at: "\<exists>n x. n \<le> length log \<and> map_serial (take n log) x \<and> a = (case x of None \<Rightarrow> map_empty | Some m \<Rightarrow> m) \<and> unat (sm_version a) = n"
    if "a \<in> run_maps log" for a
  proof -
    from that obtain n x where x: "map_serial (take n log) x" "a = (case x of None \<Rightarrow> map_empty | Some m \<Rightarrow> m)" by (auto simp: run_maps_def)
    then have "unat (sm_version a) = min n (length log)"
      using map_serial_version [OF x(1)] assms(2) by (simp add: unat_of_nat take_bit_nat_eq_self_iff min_def)
    then show ?thesis using x by (intro exI [of _ "min n (length log)"] exI [of _ x]) (auto simp: min_def)
  qed
  show "sm_version a \<le> sm_version m" if "a \<in> run_maps log" for a
    using at [OF that] m assms(2) by (auto simp: word_le_nat_alt unat_of_nat take_bit_nat_eq_self_iff)
  show "a = b" if "a \<in> run_maps log" "b \<in> run_maps log" "sm_version a = sm_version b" for a b
    using at [OF that(1)] at [OF that(2)] that(3) map_serial_deterministic by metis
qed

text \<open>C29. However the publishers of one cell race, the map object is what a serial run of their edits makes, every acknowledged edit in it and in the order of the
  acknowledgements. Its version counts the publishes of the run and its format stays the one of the first; and any two maps a reader
  can have seen differ in their version, with the current one the newest, which is what the handshake of clients and nodes relies on.
\<close>

theorem map_publishes_serialize:
  assumes "map_reach c w" "map_codec_faithful c"
  shows "\<exists>log cur. map_option fst (mem_view (rw_store w) MAP_KEY) = map_option (map_to_json c) cur \<and>
    map_serial log cur \<and> subseq (rw_acked w) log \<and>
    (\<forall>m. cur = Some m \<longrightarrow> map_at c (rw_store w) m \<and> sm_version m = of_nat (length log) \<and> (length log < 2 ^ 64 \<longrightarrow> published (run_maps log) m))"
proof -
  obtain log cur where view: "map_option fst (mem_view (rw_store w) MAP_KEY) = map_option (map_to_json c) cur"
    and run: "map_serial log cur" and sub: "subseq (rw_acked w) log"
    by (rule mem.rmw_serial [OF assms(1) map_codec_inj [OF assms(2)]]) (simp add: settled_def)
  have "map_at c (rw_store w) m \<and> sm_version m = of_nat (length log) \<and> (length log < 2 ^ 64 \<longrightarrow> published (run_maps log) m)" if "cur = Some m" for m
    using that view map_serial_version [OF run] run_maps_published [of log m] run by (auto simp: map_at_def)
  with view run sub show ?thesis by blast
qed

lemma sample_map_world:
  obtains w where "map_reach sample_map_codec w" "rw_acked w = [(SetNodes [], 7)]"
    "mem_view (rw_store w) MAP_KEY = Some (map_to_json sample_map_codec (map_apply (SetNodes [], 7) None), version_of 1)"
proof -
  let ?c = sample_map_codec and ?op = "(SetNodes [], 7) :: map_edit \<times> u64"
  let ?w0 = "\<lparr>rw_store = mem_new, rw_reads = {}, rw_acked = []\<rparr> :: (mem_store, shard_map, map_edit \<times> u64) rmw_world"
  let ?w1 = "?w0\<lparr>rw_store := mem_new, rw_reads := insert None (rw_reads ?w0)\<rparr>"
  let ?d = "map_to_json ?c (map_apply ?op None)"
  let ?s = "\<lparr>ms_objects = [(MAP_KEY, ?d, version_of 1)], ms_counter = 1\<rparr>"
  have p: "mem_put_if_match MAP_KEY ?d None mem_new = (Ok (version_of 1), ?s)"
    by (simp add: mem_put_if_match_def mem_new_def bt_get_def Let_def)
  have r0: "map_reach ?c ?w0" using mem_ok_new by (rule rmw_reach.start) (simp add: mem_view_def mem_new_def bt_get_def)
  have s1: "rmw_step (map_to_json ?c) map_apply (\<lambda>_ _. True) mem_ops mem_view mem_used MAP_KEY ?w0 ?w1"
    by (rule rmw_step.read_absent) (simp add: mem_ops_def mem_get_def mem_new_def bt_get_def)
  have r1: "map_reach ?c ?w1" using rmw_reach.more [OF r0 s1] by (simp add: mem_ok_new)
  have s2: "rmw_step (map_to_json ?c) map_apply (\<lambda>_ _. True) mem_ops mem_view mem_used MAP_KEY ?w1
      (?w1\<lparr>rw_store := ?s, rw_acked := (case Ok (version_of 1) :: (version, cas_error) outcome of Ok _ \<Rightarrow> rw_acked ?w1 @ [?op] | _ \<Rightarrow> rw_acked ?w1)\<rparr>)"
    by (rule rmw_step.swap_in [where rd = None]) (use p in \<open>simp_all add: mem_ops_def\<close>)
  have "mem_ok ?s" using mem_ok_put [OF mem_ok_new p] by simp
  with rmw_reach.more [OF r1 s2] have "map_reach ?c (?w1\<lparr>rw_store := ?s, rw_acked := [?op]\<rparr>)" by simp
  from that [OF this] show thesis by (simp add: mem_view_def bt_get_def)
qed

theorem map_publishes_serialize_witness:
  "\<exists>(w :: (mem_store, shard_map, map_edit \<times> u64) rmw_world) m log. rw_acked w = [(SetNodes [], 7)] \<and> map_at sample_map_codec (rw_store w) m \<and>
     sm_version m = of_nat (length log) \<and> subseq (rw_acked w) log"
proof -
  obtain w where w: "map_reach sample_map_codec w" "rw_acked w = [(SetNodes [], 7)]"
    "mem_view (rw_store w) MAP_KEY = Some (map_to_json sample_map_codec (map_apply (SetNodes [], 7) None), version_of 1)"
    by (rule sample_map_world)
  from map_publishes_serialize [OF w(1) sample_map_codec_faithful] w(3) obtain log m where
    "subseq (rw_acked w) log" "map_at sample_map_codec (rw_store w) m \<and> sm_version m = of_nat (length log)"
    by (auto simp: map_option_case split: option.splits)
  with w(2) show ?thesis by blast
qed

end
