(* ===== verification/Branching.thy ===== *)
theory Branching
  imports Page_Shard_Manifest Tenant_Manifest Tenant_Layout Fallible_State
begin

text \<open>
  Branches and point in time materialization (crates/zou-store/src/branch.rs): the child manifest, the cut of
  the parent's shard manifests, the choice of a history snapshot, and the walk to the root. An unconditional put may never
  return, so the operations that make one are options.
\<close>

datatype branch_error =
  NoSource string | DestinationExists string | NoCheckpoint | AtLsnUnavailable lsn | NoHistory u64
| BelowHorizon lsn lsn u16 | BrManifest manifest_error | BrShard page_shard_error | BrStore cas_error

text \<open>\<open>?\<close> after a call that may not return.\<close>

definition pbind ::
  "('s \<Rightarrow> (('a, 'e) outcome \<times> 's) option) \<Rightarrow> ('a \<Rightarrow> 's \<Rightarrow> (('b, 'e) outcome \<times> 's) option) \<Rightarrow> 's \<Rightarrow> (('b, 'e) outcome \<times> 's) option" where
  "pbind m f s =
     Option.bind (m s) (\<lambda>x. case x of
       (Ok x, s) \<Rightarrow> f x s
     | (Err e, s) \<Rightarrow> Some (Err e, s)
     | (Panic, s) \<Rightarrow> Some (Panic, s))"

definition returning :: "('a, 'e, 's) sop \<Rightarrow> 's \<Rightarrow> (('a, 'e) outcome \<times> 's) option" where
  "returning m s = Some (m s)"

section \<open>History\<close>

definition history_unix :: "string \<Rightarrow> string \<Rightarrow> u64 option" where
  "history_unix dir key =
     Option.bind (strip_prefix dir key) (\<lambda>name.
     Option.bind (strip_suffix ''.json'' name) (\<lambda>name.
     Option.bind (split_once (CHR ''-'') name) (\<lambda>(_, unix).
     map_option of_nat (from_str_radix (2 ^ 64) 10 unix))))"

fun pick_snapshot :: "string \<Rightarrow> u64 \<Rightarrow> (u64 \<times> string) option \<Rightarrow> string list \<Rightarrow> (u64 \<times> string) option" where
  "pick_snapshot dir unix_ts best [] = best"
| "pick_snapshot dir unix_ts best (key # keys) =
     pick_snapshot dir unix_ts
       (case history_unix dir key of
          None \<Rightarrow> best
        | Some stamp \<Rightarrow>
            if stamp \<le> unix_ts \<and> (case best of None \<Rightarrow> True | Some (b, _) \<Rightarrow> stamp \<ge> b) then Some (stamp, key) else best) keys"

definition snapshot_at :: "manifest_codec \<Rightarrow> 's cas_store \<Rightarrow> string \<Rightarrow> u64 \<Rightarrow> (manifest, branch_error, 's) sop" where
  "snapshot_at c st src_ref unix_ts =
     (let dir = manifests_dir (layout_new src_ref)
      in sbind (smap_err BrStore (cs_list st dir)) (\<lambda>keys.
         case pick_snapshot dir unix_ts None keys of
           None \<Rightarrow> sret (Err (NoHistory unix_ts))
         | Some (_, key) \<Rightarrow>
             sbind (smap_err BrStore (cs_get st key)) (\<lambda>found.
             sret (obind (ok_or found (NoHistory unix_ts)) (\<lambda>(data, _). map_err BrManifest (from_json c data))))))"

section \<open>The child\<close>

definition rposition :: "('a \<Rightarrow> bool) \<Rightarrow> 'a list \<Rightarrow> nat option" where
  "rposition P xs = find (\<lambda>i. P (xs ! i)) (rev [0..<length xs])"

definition own_checkpoint :: "string \<Rightarrow> checkpoint_ref \<Rightarrow> checkpoint_ref" where
  "own_checkpoint src_ref c = (if cr_owner c = None then c\<lparr>cr_owner := Some src_ref\<rparr> else c)"

definition child_of :: "manifest \<Rightarrow> string \<Rightarrow> string \<Rightarrow> lsn option \<Rightarrow> u64 \<Rightarrow> (manifest, branch_error) outcome" where
  "child_of parent src_ref dst_ref at_lsn now_unix =
     (if mf_checkpoints parent = [] then Err NoCheckpoint
      else
        obind (case at_lsn of
                 None \<Rightarrow> Ok (length (mf_checkpoints parent), cr_lsn (last (mf_checkpoints parent)))
               | Some at \<Rightarrow>
                   (case rposition (\<lambda>c. cr_lsn c = at) (mf_checkpoints parent) of
                      Some i \<Rightarrow> Ok (i + 1, at)
                    | None \<Rightarrow> Err (AtLsnUnavailable at))) (\<lambda>(upto, at).
        let child = manifest_new dst_ref (pg_version (mf_pg parent))
        in obind (slice (mf_checkpoints parent) 0 upto) (\<lambda>kept.
           Ok (child
             \<lparr>mf_pg := (mf_pg child)\<lparr>pg_timeline := pg_timeline (mf_pg parent)\<rparr>,
              mf_shards := mf_shards parent,
              mf_shard_history := mf_shard_history parent,
              mf_format := max (mf_format child) (mf_format parent),
              mf_checkpoints := map (own_checkpoint src_ref) kept,
              mf_branch_of := Some \<lparr>bo_tenant_ref = src_ref, bo_at_lsn = at\<rparr>,
              mf_published_unix := Some now_unix\<rparr>))))"

definition branch_point :: "manifest \<Rightarrow> (lsn, branch_error) outcome" where
  "branch_point child = (case mf_branch_of child of None \<Rightarrow> Panic | Some b \<Rightarrow> Ok (bo_at_lsn b))"

section \<open>The shards\<close>

text \<open>The listing, for the eras of the past, and the live shards by their number; a \<open>BTreeSet\<close> orders them.\<close>

definition shard_keys :: "tenant_layout \<Rightarrow> string list \<Rightarrow> u32 \<Rightarrow> string list" where
  "shard_keys src listed shards =
     sort (remdups (filter (ends_with ''/SHARD'') listed @
       map (\<lambda>i. shard_manifest_key src (of_nat i)) [0..<unat (ucast shards :: u16)]))"

fun check_horizons :: "shard_codec \<Rightarrow> 's cas_store \<Rightarrow> lsn \<Rightarrow> string list \<Rightarrow> (unit, branch_error, 's) sop" where
  "check_horizons c st at [] = sret (Ok ())"
| "check_horizons c st at (key # keys) =
     sbind (smap_err BrShard (psm_load c st key)) (\<lambda>cur.
     case cur of
       None \<Rightarrow> check_horizons c st at keys
     | Some (parent, _) \<Rightarrow>
         (case ps_horizon parent of
            Some horizon \<Rightarrow>
              if horizon > at then sret (Err (BelowHorizon at horizon (ps_shard parent))) else check_horizons c st at keys
          | None \<Rightarrow> check_horizons c st at keys))"

definition branch_entry :: "string \<Rightarrow> lsn \<Rightarrow> layer_entry \<Rightarrow> (layer_entry option, branch_error) outcome" where
  "branch_entry src_ref at l =
     obind (map_err (\<lambda>e. BrShard (ShardName e)) (layer_parse (le_name l) (le_size l))) (\<lambda>desc.
     if ld_min_lsn desc > at then Ok None
     else
       let e = (if le_owner l = None then l\<lparr>le_owner := Some src_ref\<rparr> else l)
       in Ok (Some
            (if ld_max_lsn desc > at \<or> le_upto e \<noteq> None
             then e\<lparr>le_upto := Some (case le_upto e of None \<Rightarrow> at | Some u \<Rightarrow> min u at)\<rparr>
             else e)))"

fun branch_layers :: "string \<Rightarrow> lsn \<Rightarrow> layer_entry list \<Rightarrow> layer_entry list \<Rightarrow> (layer_entry list, branch_error) outcome" where
  "branch_layers src_ref at acc [] = Ok acc"
| "branch_layers src_ref at acc (l # ls) =
     obind (branch_entry src_ref at l) (\<lambda>e.
     branch_layers src_ref at (case e of None \<Rightarrow> acc | Some e \<Rightarrow> acc @ [e]) ls)"

definition child_shard :: "string \<Rightarrow> lsn \<Rightarrow> page_shard_manifest \<Rightarrow> (page_shard_manifest, branch_error) outcome" where
  "child_shard src_ref at parent =
     (let child = (psm_new (ps_shard parent))
            \<lparr>ps_format := 2, ps_disk_consistent_lsn := min (ps_disk_consistent_lsn parent) at, ps_horizon := ps_horizon parent\<rparr>
      in obind (branch_layers src_ref at (ps_layers child) (ps_layers parent)) (\<lambda>ls. Ok (child\<lparr>ps_layers := ls\<rparr>)))"

fun copy_shards ::
  "shard_codec \<Rightarrow> 's cas_store \<Rightarrow> string \<Rightarrow> tenant_layout \<Rightarrow> lsn \<Rightarrow> string list \<Rightarrow> 's \<Rightarrow> ((unit, branch_error) outcome \<times> 's) option" where
  "copy_shards c st src_ref dst at [] = returning (sret (Ok ()))"
| "copy_shards c st src_ref dst at (key # keys) =
     pbind (returning (smap_err BrShard (psm_load c st key))) (\<lambda>cur.
     case cur of
       None \<Rightarrow> copy_shards c st src_ref dst at keys
     | Some (parent, _) \<Rightarrow>
         pbind (returning (sret (child_shard src_ref at parent))) (\<lambda>child.
         pbind (\<lambda>s. map_option (\<lambda>(r, s). (map_err BrStore r, s)) (cs_put st (shard_manifest_key dst (ps_shard parent)) (psm_encode c child) s)) (\<lambda>_.
         copy_shards c st src_ref dst at keys)))"

definition branch_shards ::
  "shard_codec \<Rightarrow> 's cas_store \<Rightarrow> string \<Rightarrow> string \<Rightarrow> lsn \<Rightarrow> u32 \<Rightarrow> 's \<Rightarrow> ((unit, branch_error) outcome \<times> 's) option" where
  "branch_shards c st src_ref dst_ref at shards =
     (let src = layout_new src_ref; dst = layout_new dst_ref
      in pbind (returning (smap_err BrStore (cs_list st (shards_dir src)))) (\<lambda>listed.
         let keys = shard_keys src listed shards
         in pbind (returning (check_horizons c st at keys)) (\<lambda>_. copy_shards c st src_ref dst at keys)))"

section \<open>The operations\<close>

definition publish_child :: "manifest_codec \<Rightarrow> 's cas_store \<Rightarrow> string \<Rightarrow> manifest \<Rightarrow> (unit, branch_error, 's) sop" where
  "publish_child c st dst_ref child s =
     (case cs_put_if_match st (layout_manifest (layout_new dst_ref)) (to_json c child) None s of
        (Ok _, s) \<Rightarrow> (Ok (), s)
      | (Err (Conflict _), s) \<Rightarrow> (Err (DestinationExists dst_ref), s)
      | (Err (AlreadyExists _), s) \<Rightarrow> (Err (DestinationExists dst_ref), s)
      | (Err e, s) \<Rightarrow> (Err (BrStore e), s)
      | (Panic, s) \<Rightarrow> (Panic, s))"

text \<open>The part \<open>branch\<close> and \<open>materialize_at\<close> share, from a state of the parent on.\<close>

definition branch_from ::
  "manifest_codec \<Rightarrow> shard_codec \<Rightarrow> 's cas_store \<Rightarrow> manifest \<Rightarrow> string \<Rightarrow> string \<Rightarrow> lsn option \<Rightarrow> u64 \<Rightarrow> 's \<Rightarrow>
   ((manifest, branch_error) outcome \<times> 's) option" where
  "branch_from c sc st parent src_ref dst_ref at_lsn now_unix =
     pbind (returning (sret (child_of parent src_ref dst_ref at_lsn now_unix))) (\<lambda>child.
     pbind (returning (sret (branch_point child))) (\<lambda>at.
     pbind (branch_shards sc st src_ref dst_ref at (mf_shards parent)) (\<lambda>_.
     pbind (returning (publish_child c st dst_ref child)) (\<lambda>_.
     returning (sret (Ok child))))))"

definition branch ::
  "manifest_codec \<Rightarrow> shard_codec \<Rightarrow> 's cas_store \<Rightarrow> string \<Rightarrow> string \<Rightarrow> lsn option \<Rightarrow> u64 \<Rightarrow> 's \<Rightarrow>
   ((manifest, branch_error) outcome \<times> 's) option" where
  "branch c sc st src_ref dst_ref at_lsn now_unix =
     (let key = layout_manifest (layout_new src_ref)
      in pbind (returning (smap_err BrStore (cs_get st key))) (\<lambda>found.
         case found of
           None \<Rightarrow> returning (sret (Err (NoSource key)))
         | Some (data, _) \<Rightarrow>
             pbind (returning (sret (map_err BrManifest (from_json c data)))) (\<lambda>parent.
             branch_from c sc st parent src_ref dst_ref at_lsn now_unix)))"

definition materialize_at ::
  "manifest_codec \<Rightarrow> shard_codec \<Rightarrow> 's cas_store \<Rightarrow> string \<Rightarrow> string \<Rightarrow> u64 \<Rightarrow> u64 \<Rightarrow> 's \<Rightarrow>
   ((manifest, branch_error) outcome \<times> 's) option" where
  "materialize_at c sc st src_ref dst_ref unix_ts now_unix =
     pbind (returning (snapshot_at c st src_ref unix_ts)) (\<lambda>snapshot.
     branch_from c sc st snapshot src_ref dst_ref None now_unix)"

section \<open>The walk to the root\<close>

partial_function (option) lineage_walk ::
  "manifest_codec \<Rightarrow> 's cas_store \<Rightarrow> string list \<Rightarrow> string \<Rightarrow> 's \<Rightarrow> ((string list, branch_error) outcome \<times> 's) option" where
  "lineage_walk c st chain at s =
     (case cs_get st (layout_manifest (layout_new at)) s of
        (Ok None, s) \<Rightarrow> Some (Ok chain, s)
      | (Ok (Some (data, _)), s) \<Rightarrow>
          (case from_json c data of
             Ok m \<Rightarrow>
               (case mf_branch_of m of
                  None \<Rightarrow> Some (Ok chain, s)
                | Some parent \<Rightarrow>
                    if bo_tenant_ref parent \<in> set chain then Some (Ok chain, s)
                    else lineage_walk c st (chain @ [bo_tenant_ref parent]) (bo_tenant_ref parent) s)
           | Err e \<Rightarrow> Some (Err (BrManifest e), s)
           | Panic \<Rightarrow> Some (Panic, s))
      | (Err e, s) \<Rightarrow> Some (Err (BrStore e), s)
      | (Panic, s) \<Rightarrow> Some (Panic, s))"

definition lineage ::
  "manifest_codec \<Rightarrow> 's cas_store \<Rightarrow> string \<Rightarrow> 's \<Rightarrow> ((string list, branch_error) outcome \<times> 's) option" where
  "lineage c st tenant_ref = lineage_walk c st [tenant_ref] tenant_ref"

end
