(* ===== verification/Branching_Proofs.thy ===== *)
theory Branching_Proofs
  imports Branching Page_Read_Properties Shard_Lineage
begin

text \<open>
  What a branch is worth: a read of the child is a read of the parent at the branch point, the operations land what
  they say, and the walk to the root returns. One case is wrong: a destination that exists is refused only after its shards were overwritten.
\<close>

section \<open>The cut of a layer\<close>

definition cut_desc :: "string \<Rightarrow> lsn \<Rightarrow> layer_desc \<Rightarrow> layer_desc" where
  "cut_desc src_ref at d = d
     \<lparr>ld_owner := Some (case ld_owner d of Some o' \<Rightarrow> o' | None \<Rightarrow> src_ref),
      ld_upto := (if ld_max_lsn d > at \<or> ld_upto d \<noteq> None then Some (case ld_upto d of None \<Rightarrow> at | Some u \<Rightarrow> min u at) else None)\<rparr>"

abbreviation kept :: "lsn \<Rightarrow> layer_desc list \<Rightarrow> layer_desc list" where
  "kept at ds \<equiv> filter (\<lambda>d. ld_min_lsn d \<le> at) ds"

lemma cut_fields [simp]:
  "ld_kind (cut_desc r at d) = ld_kind d" "ld_min_key (cut_desc r at d) = ld_min_key d" "ld_max_key (cut_desc r at d) = ld_max_key d"
  "ld_min_lsn (cut_desc r at d) = ld_min_lsn d" "ld_max_lsn (cut_desc r at d) = ld_max_lsn d" "ld_size (cut_desc r at d) = ld_size d"
  "ld_home (cut_desc r at d) = ld_home d" "layer_name (cut_desc r at d) = layer_name d"
  by (simp_all add: cut_desc_def layer_name_def split: layer_kind.split)

lemma branch_entry_desc:
  assumes "entry_desc l = Ok d"
  shows "branch_entry src_ref at l = Ok None \<and> at < ld_min_lsn d \<or>
    (\<exists>e. branch_entry src_ref at l = Ok (Some e) \<and> ld_min_lsn d \<le> at \<and> entry_desc e = Ok (cut_desc src_ref at d))"
proof -
  from assms obtain d0 where d0: "layer_parse (le_name l) (le_size l) = Ok d0" "d = d0\<lparr>ld_owner := le_owner l, ld_upto := le_upto l\<rparr>"
    by (auto simp: entry_desc_def obind_Ok_iff)
  show ?thesis
    by (cases "le_owner l"; cases "le_upto l") (auto simp: branch_entry_def entry_desc_def d0 cut_desc_def Let_def not_less)
qed

lemma branch_layers_descs:
  "entry_descs ls = Ok ds \<Longrightarrow>
   \<exists>es. branch_layers src_ref at acc ls = Ok (acc @ es) \<and> entry_descs es = Ok (map (cut_desc src_ref at) (kept at ds))"
proof (induction ls arbitrary: acc ds)
  case (Cons l ls)
  then obtain d ds' where ds: "entry_desc l = Ok d" "entry_descs ls = Ok ds'" "ds = d # ds'" by (auto simp: obind_Ok_iff)
  note IH = Cons.IH [OF ds(2)]
  from branch_entry_desc [OF ds(1), of src_ref at] show ?case
  proof
    assume e: "branch_entry src_ref at l = Ok None \<and> at < ld_min_lsn d"
    with IH [of acc] show ?thesis by (auto simp: ds(3))
  next
    assume "\<exists>e. branch_entry src_ref at l = Ok (Some e) \<and> ld_min_lsn d \<le> at \<and> entry_desc e = Ok (cut_desc src_ref at d)"
    then obtain e where e: "branch_entry src_ref at l = Ok (Some e)" "ld_min_lsn d \<le> at" "entry_desc e = Ok (cut_desc src_ref at d)" by blast
    from IH [of "acc @ [e]"] obtain es where
      "branch_layers src_ref at (acc @ [e]) ls = Ok (acc @ e # es)" "entry_descs es = Ok (map (cut_desc src_ref at) (kept at ds'))" by auto
    with e show ?thesis by (intro exI [of _ "e # es"]) (simp add: ds(3))
  qed
qed simp

text \<open>A child shard is always made of a parent shard whose names parse; its layers are the cut ones.\<close>

lemma child_shard_descs:
  assumes "entry_descs (ps_layers p) = Ok ds"
  obtains p' where "child_shard src_ref at p = Ok p'" "entry_descs (ps_layers p') = Ok (map (cut_desc src_ref at) (kept at ds))"
    "ps_shard p' = ps_shard p" "ps_format p' = 2" "ps_horizon p' = ps_horizon p"
    "ps_disk_consistent_lsn p' = min (ps_disk_consistent_lsn p) at" "ps_covers p' = None"
proof -
  obtain es where "branch_layers src_ref at [] (ps_layers p) = Ok es" "entry_descs es = Ok (map (cut_desc src_ref at) (kept at ds))"
    using branch_layers_descs [OF assms, of src_ref at "[]"] by auto
  then show thesis using that by (simp add: child_shard_def Let_def psm_new_def)
qed

section \<open>Reading through the cut\<close>

text \<open>The child's shelf: the cut layers, each with what the layer of its name holds.\<close>

definition cut_shelf :: "string \<Rightarrow> lsn \<Rightarrow> shelf \<Rightarrow> shelf" where
  "cut_shelf src_ref at sh =
     (let orig = (\<lambda>l. hd (filter (\<lambda>d. layer_name d = layer_name l) (sh_layers sh)))
      in \<lparr>sh_layers = map (cut_desc src_ref at) (kept at (sh_layers sh)), sh_bytes = (\<lambda>l. sh_bytes sh (orig l)),
          sh_foot = (\<lambda>l. sh_foot sh (orig l)), sh_pages = (\<lambda>l. sh_pages sh (orig l)), sh_recs = (\<lambda>l. sh_recs sh (orig l))\<rparr>)"

lemma hd_filter_name:
  assumes "inj_on f (set xs)" "x \<in> set xs"
  shows "hd (filter (\<lambda>d. f d = f x) xs) = x"
proof -
  have "filter (\<lambda>d. f d = f x) xs \<noteq> []" using assms(2) by (auto simp: filter_empty_conv)
  then have "hd (filter (\<lambda>d. f d = f x) xs) \<in> set (filter (\<lambda>d. f d = f x) xs)" by (rule hd_in_set)
  with assms show ?thesis by (auto dest: inj_onD)
qed

lemma cut_shelf_content:
  assumes "inj_on layer_name (set (sh_layers sh))" "d \<in> set (sh_layers sh)"
  shows "sh_bytes (cut_shelf r at sh) (cut_desc r at d) = sh_bytes sh d" "sh_foot (cut_shelf r at sh) (cut_desc r at d) = sh_foot sh d"
    "sh_pages (cut_shelf r at sh) (cut_desc r at d) = sh_pages sh d" "sh_recs (cut_shelf r at sh) (cut_desc r at d) = sh_recs sh d"
  using hd_filter_name [OF assms] by (simp_all add: cut_shelf_def Let_def)

lemma cut_shelf_layers: "sh_layers (cut_shelf r at sh) = map (cut_desc r at) (kept at (sh_layers sh))"
  by (simp add: cut_shelf_def Let_def)

lemma cut_shelf_built:
  assumes "built_shelf ext sh"
  shows "built_shelf ext (cut_shelf r at sh)"
proof -
  have inj: "inj_on layer_name (set (sh_layers sh))" using assms by (simp add: built_shelf_def)
  have "inj_on layer_name (set (sh_layers (cut_shelf r at sh)))"
    using inj by (auto simp: cut_shelf_layers inj_on_def)
  moreover have "footer_matches f (cut_desc r at d) = footer_matches f d" for f d by (simp add: footer_matches_def)
  moreover have "\<exists>target \<le> LAYER_BLOCK_TARGET. length (sh_bytes sh d) < 2 ^ 32 \<and> ld_size d = of_nat (length (sh_bytes sh d)) \<and>
      footer_matches (sh_foot sh d) d \<and> (case ld_kind d of
           Image \<Rightarrow> build_image ext (sh_pages sh d) (ld_min_lsn d) target = Ok (sh_bytes sh d, sh_foot sh d)
         | Delta \<Rightarrow> build_delta ext (sh_recs sh d) target = Ok (sh_bytes sh d, sh_foot sh d))"
    if "d \<in> set (sh_layers sh)" for d using that assms by (simp add: built_shelf_def)
  ultimately show ?thesis
    unfolding built_shelf_def by (simp add: cut_shelf_layers cut_shelf_content [OF inj] cong: layer_kind.case_cong)
qed

text \<open>The child's reader finds the cut layer where the parent's finds the layer.\<close>

lemma cut_same_object:
  assumes "ld_home d = None"
  shows "object_key (for_shard dst_ref n setting) (cut_desc src_ref at d) name = object_key (for_shard src_ref n setting') d name"
  using assms by (auto simp: object_key_def for_shard_def cut_desc_def split: option.splits)

lemma cut_shelf_on:
  assumes "inj_on layer_name (set (sh_layers sh))" "\<forall>d \<in> set (sh_layers sh). ld_home d = None"
    "on_shelf sh (for_shard src_ref n setting') objs"
  shows "on_shelf (cut_shelf src_ref at sh) (for_shard dst_ref n setting) objs"
  using assms cut_shelf_content(1) [OF assms(1)]
  by (auto simp: on_shelf_def layer_bytes_def cut_shelf_layers cut_same_object [where setting' = setting'])

lemma clamp_cut:
  assumes "a \<le> ld_max_lsn d"
  shows "a \<le> clamp (cut_desc r at d) lsn \<longleftrightarrow> a \<le> clamp d (min lsn at)"
  using assms by (auto simp: clamp_def cut_desc_def min_le_iff_disj split: option.splits)

lemma shelf_bounds:
  assumes "lz4_faithful ext" "lz4_nonempty ext" "built_shelf ext sh" "d \<in> set (sh_layers sh)"
  shows "ld_kind d = Delta \<Longrightarrow> e \<in> set (sh_recs sh d) \<Longrightarrow> ld_min_lsn d \<le> de_lsn e \<and> de_lsn e \<le> ld_max_lsn d"
proof -
  assume d: "ld_kind d = Delta" "e \<in> set (sh_recs sh d)"
  from assms(3,4) d(1) obtain target where t: "target \<le> LAYER_BLOCK_TARGET" "length (sh_bytes sh d) < 2 ^ 32" "footer_matches (sh_foot sh d) d"
    "build_delta ext (sh_recs sh d) target = Ok (sh_bytes sh d, sh_foot sh d)" by (auto simp: built_shelf_def)
  then show ?thesis
    using build_delta_readable [OF t(4,1,2) assms(1,2)] d(2) by (auto simp: delta_content_def footer_matches_def)
qed

text \<open>What the cut layers show at any position is what the layers showed at the branch point, or earlier.\<close>

lemma cut_image_seen:
  assumes "list_all layer_ok (sh_layers sh)" "inj_on layer_name (set (sh_layers sh))"
  shows "image_seen (cut_shelf r at sh) key lsn a p \<longleftrightarrow> image_seen sh key (min lsn at) a p"
proof -
  have ok: "ld_min_lsn d \<le> ld_max_lsn d" if "d \<in> set (sh_layers sh)" for d
    using assms(1) that by (auto simp: list_all_iff layer_ok_def)
  have "ld_min_lsn d \<le> at" if "ld_min_lsn d \<le> clamp d (min lsn at)" for d
    using that by (auto simp: clamp_def split: option.splits)
  then show ?thesis
    using ok by (auto simp: image_seen_def cut_shelf_layers cut_shelf_content [OF assms(2)] clamp_cut)
qed

lemma cut_record_seen:
  assumes "lz4_faithful ext" "lz4_nonempty ext" "built_shelf ext sh"
  shows "record_seen (cut_shelf r at sh) mt_new key lsn a x \<longleftrightarrow> record_seen sh mt_new key (min lsn at) a x"
proof -
  have inj: "inj_on layer_name (set (sh_layers sh))" using assms(3) by (simp add: built_shelf_def)
  let ?e = "\<lparr>de_key = key, de_lsn = a, de_record = x\<rparr>"
  have at: "a \<le> at" if "a \<le> clamp d (min lsn at)" for d
    using that by (auto simp: clamp_def split: option.splits)
  have "ld_min_lsn d \<le> at \<and> a \<le> clamp (cut_desc r at d) lsn \<longleftrightarrow> a \<le> clamp d (min lsn at)"
    if "d \<in> set (sh_layers sh)" "ld_kind d = Delta" "?e \<in> set (sh_recs sh d)" for d
    using shelf_bounds [OF assms that] clamp_cut [of a d r at lsn] at [of d] by auto
  then have "(\<exists>l \<in> set (sh_layers (cut_shelf r at sh)). ld_kind l = Delta \<and> a \<le> clamp l lsn \<and> ?e \<in> set (sh_recs (cut_shelf r at sh) l)) \<longleftrightarrow>
      (\<exists>d \<in> set (sh_layers sh). ld_kind d = Delta \<and> a \<le> clamp d (min lsn at) \<and> ?e \<in> set (sh_recs sh d))"
    by (simp add: cut_shelf_layers cut_shelf_content [OF inj]) (meson cut_shelf_content(4) [OF inj])
  then show ?thesis by (simp add: record_seen_def mt_new_def bt_get_def)
qed

lemma cut_read_spec:
  assumes "lz4_faithful ext" "lz4_nonempty ext" "built_shelf ext sh" "list_all layer_ok (sh_layers sh)"
  shows "read_spec (cut_shelf r at sh) mt_new key lsn rc \<longleftrightarrow> read_spec sh mt_new key (min lsn at) rc"
    "one_record (cut_shelf r at sh) mt_new key lsn \<longleftrightarrow> one_record sh mt_new key (min lsn at)"
proof -
  have "inj_on layer_name (set (sh_layers sh))" using assms(3) by (simp add: built_shelf_def)
  note seen = cut_image_seen [OF assms(4) this] cut_record_seen [OF assms(1-3)]
  show "read_spec (cut_shelf r at sh) mt_new key lsn rc \<longleftrightarrow> read_spec sh mt_new key (min lsn at) rc"
    unfolding read_spec_def seen ..
  show "one_record (cut_shelf r at sh) mt_new key lsn \<longleftrightarrow> one_record sh mt_new key (min lsn at)"
    unfolding one_record_def seen ..
qed

lemma entry_descs_home: "entry_descs ls = Ok ds \<Longrightarrow> d \<in> set ds \<Longrightarrow> ld_home d = None"
proof (induction ls arbitrary: ds)
  case (Cons l ls)
  have "ld_home d' = None" if "layer_parse n z = Ok d'" for n z d'
    using that by (auto simp: layer_parse_def obind_Ok_iff split: layer_kind.splits list.splits prod.splits) (metis layer_kind.exhaust)+
  with Cons show ?case by (fastforce simp: obind_Ok_iff entry_desc_def)
qed simp

text \<open>C7. A branch reads its parent's past. Take a parent shard whose layers are in the store, and the shard manifest a branch at a position makes of it:
  it always makes one, its layer map builds, and a fresh reader of the child at any position answers what the parent's layers showed
  there, or at the branch point when the position is past it: the newest image and exactly the records above it, from the parent's
  own objects, whatever the parent flushed or compacted into those layers later than the branch point.
\<close>

theorem branch_reads_parents_past:
  assumes "lz4_faithful ext" "lz4_nonempty ext" "built_shelf ext sh"
    and "entry_descs (ps_layers parent) = Ok (sh_layers sh)" "list_all layer_ok (sh_layers sh)"
    and "on_shelf sh (for_shard src_ref (ps_shard parent) setting') (mem_objects s)" "one_record sh mt_new key (min lsn at)"
  shows "\<exists>child m rc r' s'. child_shard src_ref at parent = Ok child \<and> psm_layer_map child = Some (Ok m) \<and>
    reconstruct ext mem_ops m mt_new key lsn (for_shard dst_ref (ps_shard child) setting, s) = (Ok rc, (r', s')) \<and>
    read_spec sh mt_new key (min lsn at) rc \<and> mem_objects s' = mem_objects s"
proof -
  let ?sh = "cut_shelf src_ref at sh" and ?r = "for_shard dst_ref (ps_shard parent) setting"
  obtain child where child: "child_shard src_ref at parent = Ok child" "entry_descs (ps_layers child) = Ok (sh_layers ?sh)"
    "ps_shard child = ps_shard parent" by (rule child_shard_descs [OF assms(4)]) (simp add: cut_shelf_layers)
  have inj: "inj_on layer_name (set (sh_layers sh))" using assms(3) by (simp add: built_shelf_def)
  have "list_all layer_ok (sh_layers ?sh)" using assms(5) by (auto simp: list_all_iff cut_shelf_layers layer_ok_def)
  then obtain m where m: "layer_map_new (sh_layers ?sh) = Some (Ok m)" using layer_map_new_cases by blast
  have "on_shelf ?sh ?r (mem_objects s)"
    using entry_descs_home [OF assms(4)] by (intro cut_shelf_on [OF inj _ assms(6)]) simp
  then have "shelf_store.good ext ?sh (mem_objects s) (?r, s)"
    using built_shelved [OF assms(1,2) cut_shelf_built [OF assms(3)]] reader_ok_fresh(2) by (simp add: shelf_store.good_def)
  from shelf_store.reconstruct_ok [OF this m mt_wf_new] assms(7)
  have "returns (reconstruct ext mem_ops m mt_new key lsn) (?r, s)
      (\<lambda>rc w'. shelf_store.good ext ?sh (mem_objects s) w' \<and> read_spec sh mt_new key (min lsn at) rc)"
    by (simp add: cut_read_spec [OF assms(1-3,5)])
  then show ?thesis
    using child m by (auto simp: returns_def shelf_store.good_def psm_layer_map_def)
qed

section \<open>An example\<close>

text \<open>A shard of the tenant \<open>a\<close> with the image and the delta layer of the reading example.\<close>

definition plain_entry :: "layer_desc \<Rightarrow> layer_entry" where
  "plain_entry l = \<lparr>le_name = layer_name l, le_size = ld_size l, le_owner = None, le_upto = None\<rparr>"

lemma plain_entries: "list_all plain_desc ls \<Longrightarrow> entry_descs (map plain_entry ls) = Ok ls"
  by (induction ls) (auto simp: entry_desc_def plain_entry_def layer_parse_name plain_desc_def)

definition branch_parent :: "layer_desc list \<Rightarrow> page_shard_manifest" where
  "branch_parent ls = (psm_new 0)\<lparr>ps_layers := map plain_entry ls\<rparr>"

definition branch_store :: "shelf \<Rightarrow> mem_store" where
  "branch_store sh = fold (\<lambda>l. put_object (shard_prefix (layout_new ''a'') 0 @ layer_name l) (sh_bytes sh l)) (sh_layers sh) mem_new"

lemma other_objects: "k \<notin> g ` set xs \<Longrightarrow> mem_objects (fold (\<lambda>l. put_object (g l) (f l)) xs s) k = mem_objects s k"
  by (induction xs arbitrary: s) (auto simp: mem_objects_put)

lemma branch_store_objects:
  "distinct (map g ls) \<Longrightarrow> l \<in> set ls \<Longrightarrow> mem_objects (fold (\<lambda>l. put_object (g l) (f l)) ls s) (g l) = Some (f l)"
proof (induction ls arbitrary: s)
  case (Cons x xs)
  show ?case
  proof (cases "l \<in> set xs")
    case True
    then show ?thesis using Cons by simp
  next
    case False
    then show ?thesis using Cons.prems other_objects [of "g l" g xs f] by (auto simp: mem_objects_put)
  qed
qed simp

lemma record_seen_mono: "record_seen sh mem key lsn at x \<Longrightarrow> lsn \<le> lsn' \<Longrightarrow> record_seen sh mem key lsn' at x"
proof -
  assume a: "record_seen sh mem key lsn at x" "lsn \<le> lsn'"
  have "clamp l lsn \<le> clamp l lsn'" for l using a(2) by (auto simp: clamp_def min_le_iff_disj split: option.splits)
  with a show ?thesis unfolding record_seen_def by (meson order_trans)
qed

theorem branch_reads_parents_past_witness:
  "\<exists>sh child m rc w'. child_shard ''a'' 0x15 (branch_parent (sh_layers sh)) = Ok child \<and> psm_layer_map child = Some (Ok m) \<and>
     reconstruct sample_ext mem_ops m mt_new (sample_key 0) 0x30 (for_shard ''b'' (ps_shard child) None, branch_store sh) = (Ok rc, w') \<and>
     record_seen sh mt_new (sample_key 0) 0x30 0x20 [4] \<and> (0x20, [4]) \<notin> set (rc_records rc)"
proof -
  obtain im where im: "build_image sample_ext sample_images 0x15 64 = Ok im" "length (fst im) < 2 ^ 32"
    using build_decode_image [OF sample_ext_faithful sample_target sample_images_ok] by fastforce
  obtain dl where dl: "build_delta sample_ext sample_deltas 64 = Ok dl" "length (fst dl) < 2 ^ 32"
    using build_decode_delta [OF sample_ext_faithful sample_target sample_deltas_ok] by fastforce
  define sh where "sh = two_shelf im dl"
  note b = two_shelf_built [OF im dl, folded sh_def]
  note seen = two_shelf_seen(2) [OF b(4-6), folded sh_def]
  have ok: "list_all layer_ok (sh_layers sh)" using b(3) layer_map_new_cases [of "sh_layers sh"] by auto
  then have plain: "list_all plain_desc (sh_layers sh)"
    by (auto simp: sh_def two_shelf_def Let_def plain_desc_def from_footer_def layer_ok_def)
  then have d: "entry_descs (ps_layers (branch_parent (sh_layers sh))) = Ok (sh_layers sh)" by (simp add: branch_parent_def plain_entries)
  let ?g = "\<lambda>l. shard_prefix (layout_new ''a'') 0 @ layer_name l"
  have "distinct (map ?g (sh_layers sh))" using b(4,5) by (auto simp: sh_def two_shelf_def Let_def layer_name_def from_footer_def)
  then have "mem_objects (branch_store sh) (?g l) = Some (sh_bytes sh l)" if "l \<in> set (sh_layers sh)" for l
    using that branch_store_objects [of ?g "sh_layers sh" l "sh_bytes sh" mem_new] by (simp add: branch_store_def)
  then have on: "on_shelf sh (for_shard ''a'' (ps_shard (branch_parent (sh_layers sh))) None) (mem_objects (branch_store sh))"
    using plain by (simp add: on_shelf_def layer_bytes_def object_key_def for_shard_def branch_parent_def psm_new_def list_all_iff plain_desc_def)
  have mono: "record_seen sh mt_new (sample_key 0) 0x30 at x" if "record_seen sh mt_new (sample_key 0) 0x15 at x" for at x
    by (rule record_seen_mono [OF that]) simp
  have "r = r'" if "record_seen sh mt_new (sample_key 0) 0x15 at r" "record_seen sh mt_new (sample_key 0) 0x15 at r'" for at r r'
    using mono [OF that(1)] mono [OF that(2)] unfolding seen by auto
  then have "one_record sh mt_new (sample_key 0) (min 0x30 0x15)" by (auto simp: one_record_def)
  from branch_reads_parents_past [OF sample_ext_faithful sample_ext_nonempty b(1) d ok on this, of "''b''" None]
  obtain child m rc w' where c: "child_shard ''a'' 0x15 (branch_parent (sh_layers sh)) = Ok child" "psm_layer_map child = Some (Ok m)"
     "reconstruct sample_ext mem_ops m mt_new (sample_key 0) 0x30 (for_shard ''b'' (ps_shard child) None, branch_store sh) = (Ok rc, w')"
     "read_spec sh mt_new (sample_key 0) 0x15 rc" by auto
  have "\<not> record_seen sh mt_new (sample_key 0) 0x15 0x20 [4]"
    by (auto simp: record_seen_def clamp_def mt_new_def bt_get_def split: option.splits)
  then have "(0x20, [4]) \<notin> set (rc_records rc)" using c(4) by (simp add: read_spec_def)
  moreover have "record_seen sh mt_new (sample_key 0) 0x30 0x20 [4]" unfolding seen by simp
  ultimately show ?thesis using c(1-3) by blast
qed

end
