(* ===== verification/Branch_Operations.thy ===== *)
theory Branch_Operations
  imports Branching_Proofs
begin

text \<open>
  Branching as an operation on the store: what a call leaves there, in the good case and over an existing destination, and the walk to the root.
\<close>

section \<open>Keys\<close>

lemma hex_fixed_inject: "hex_fixed (a :: u16) = hex_fixed b \<longleftrightarrow> a = b"
proof
  assume "hex_fixed a = hex_fixed b"
  moreover have "from_str_radix (2 ^ 16) 16 (hex_fixed w) = Some (unat w)" for w :: u16
    using unat_bound [of w] by (simp add: from_hex_fixed)
  ultimately show "a = b" by (metis option.inject word_unat_eq_iff)
qed simp

lemma shard_key_inject:
  "shard_manifest_key (layout_new a) x = shard_manifest_key (layout_new b) y \<longleftrightarrow> a = b \<and> x = y"
proof
  assume e: "shard_manifest_key (layout_new a) x = shard_manifest_key (layout_new b) y"
  have "length (''/shards/'' @ hex_fixed z @ ''/SHARD'') = 18" for z :: u16 by simp
  then have "a @ ''/shards/'' @ hex_fixed x @ ''/SHARD'' = b @ ''/shards/'' @ hex_fixed y @ ''/SHARD''"
    "length (''/shards/'' @ hex_fixed x @ ''/SHARD'') = length (''/shards/'' @ hex_fixed y @ ''/SHARD'')"
    using e by (simp_all add: shard_manifest_key_def shard_prefix_def layout_new_def)
  then have "a = b" "hex_fixed x = hex_fixed y" by (simp_all add: append_eq_append_conv)
  then show "a = b \<and> x = y" by (simp add: hex_fixed_inject)
qed simp

lemma manifest_key_inject: "layout_manifest (layout_new a) = layout_manifest (layout_new b) \<longleftrightarrow> a = b"
  by (simp add: layout_manifest_def layout_new_def)

lemma shard_key_no_manifest: "shard_manifest_key (layout_new a) x \<noteq> layout_manifest (layout_new b)"
proof
  assume "shard_manifest_key (layout_new a) x = layout_manifest (layout_new b)"
  then have "last (shard_manifest_key (layout_new a) x) = last (layout_manifest (layout_new b))" by simp
  then show False by (simp add: shard_manifest_key_def layout_manifest_def)
qed

section \<open>Copying the shards\<close>

lemma pbind_simps [simp]:
  "m s = Some (Ok x, s') \<Longrightarrow> pbind m f s = f x s'" "m s = Some (Err e, s') \<Longrightarrow> pbind m f s = Some (Err e, s')"
  by (simp_all add: pbind_def)

lemma returning_apply [simp]: "returning m s = Some (m s)"
  by (simp add: returning_def)

lemma mem_put_view: "\<exists>v s'. cs_put mem_ops key data s = Some (Ok v, s') \<and> mem_view s' = (mem_view s)(key \<mapsto> (data, v)) \<and>
  ms_counter s' = ms_counter s + 1"
proof -
  define v where "v = version_of (ms_counter s + 1)"
  define s' where "s' = s\<lparr>ms_counter := ms_counter s + 1, ms_objects := bt_insert key (data, v) (ms_objects s)\<rparr>"
  have "mem_put_if_match key data (map_option snd (bt_get (ms_objects s) key)) s = (Ok v, s')"
    by (cases "bt_get (ms_objects s) key") (simp_all add: mem_put_if_match_def Let_def v_def s'_def)
  then have "cs_put mem_ops key data s = Some (Ok v, s')"
    by (simp add: mem_ops_def) (subst put_loop.simps, simp add: mem_get_def)
  then show ?thesis by (auto simp: mem_view_def s'_def bt_get_insert fun_eq_iff)
qed

abbreviation skey :: "string \<Rightarrow> u16 \<Rightarrow> string" where
  "skey t x \<equiv> shard_manifest_key (layout_new t) x"

lemma mem_check_horizons:
  assumes "shard_codec_faithful sc" "\<forall>x \<in> set xs. psm_view sc s (skey src x) (cur x)"
    and "\<forall>x \<in> set xs. \<forall>p v h. cur x = Some (p, v) \<longrightarrow> ps_horizon p = Some h \<longrightarrow> h \<le> at"
  shows "check_horizons sc mem_ops at (map (skey src) xs) s = (Ok (), s)"
  using assms(2,3)
proof (induction xs)
  case (Cons x xs)
  have "smap_err BrShard (psm_load sc mem_ops (skey src x)) s = (Ok (cur x), s)"
    using mem_psm_load [OF _ assms(1)] Cons.prems(1) by (intro smap_err_Ok) simp
  moreover have "\<not> at < h" if "cur x = Some (p, v)" "ps_horizon p = Some h" for p v h
    using Cons.prems(2) that by (simp add: not_less)
  ultimately show ?case using Cons by (auto simp: sbind_step split: option.splits)
qed (simp add: Fallible_State.sret_def)

lemma mem_copy_shards:
  assumes "shard_codec_faithful sc"
  shows "distinct xs \<Longrightarrow> \<forall>x \<in> set xs. psm_view sc s (skey src x) (cur x) \<Longrightarrow>
    \<forall>x \<in> set xs. \<forall>p v. cur x = Some (p, v) \<longrightarrow> ps_shard p = x \<and> child_shard src at p = Ok (ch x) \<Longrightarrow>
    \<exists>s'. copy_shards sc mem_ops src (layout_new dst) at (map (skey src) xs) s = Some (Ok (), s') \<and>
      (\<forall>x \<in> set xs. cur x \<noteq> None \<longrightarrow> mem_objects s' (skey dst x) = Some (psm_encode sc (ch x))) \<and>
      (\<forall>k. k \<notin> skey dst ` {x \<in> set xs. cur x \<noteq> None} \<longrightarrow> mem_view s' k = mem_view s k)"
proof (induction xs arbitrary: s)
  case (Cons x xs)
  have load: "smap_err BrShard (psm_load sc mem_ops (skey src x)) s = (Ok (cur x), s)"
    using mem_psm_load [OF _ assms] Cons.prems(2) by (intro smap_err_Ok) simp
  show ?case
  proof (cases "cur x")
    case None
    have "\<exists>s'. copy_shards sc mem_ops src (layout_new dst) at (map (skey src) xs) s = Some (Ok (), s') \<and>
      (\<forall>x \<in> set xs. cur x \<noteq> None \<longrightarrow> mem_objects s' (skey dst x) = Some (psm_encode sc (ch x))) \<and>
      (\<forall>k. k \<notin> skey dst ` {x \<in> set xs. cur x \<noteq> None} \<longrightarrow> mem_view s' k = mem_view s k)"
      by (rule Cons.IH) (use Cons.prems in auto)
    moreover have "{y \<in> set (x # xs). cur y \<noteq> None} = {y \<in> set xs. cur y \<noteq> None}" using None by auto
    ultimately show ?thesis using load None by (auto simp: pbind_def)
  next
    case (Some y)
    then obtain p v where y: "cur x = Some (p, v)" by (cases y) auto
    have p: "ps_shard p = x" "child_shard src at p = Ok (ch x)" using Cons.prems(3) y by auto
    obtain w s1 where s1: "cs_put mem_ops (skey dst x) (psm_encode sc (ch x)) s = Some (Ok w, s1)"
      "mem_view s1 = (mem_view s)(skey dst x \<mapsto> (psm_encode sc (ch x), w))" using mem_put_view by blast
    have "\<exists>s'. copy_shards sc mem_ops src (layout_new dst) at (map (skey src) xs) s1 = Some (Ok (), s') \<and>
      (\<forall>x \<in> set xs. cur x \<noteq> None \<longrightarrow> mem_objects s' (skey dst x) = Some (psm_encode sc (ch x))) \<and>
      (\<forall>k. k \<notin> skey dst ` {x \<in> set xs. cur x \<noteq> None} \<longrightarrow> mem_view s' k = mem_view s1 k)"
    proof (rule Cons.IH)
      show "\<forall>z \<in> set xs. psm_view sc s1 (skey src z) (cur z)"
      proof
        fix z assume z: "z \<in> set xs"
        then have "skey src z \<noteq> skey dst x" using Cons.prems(1) by (auto simp: shard_key_inject)
        then show "psm_view sc s1 (skey src z) (cur z)" using z Cons.prems(2) s1(2) by (simp add: psm_view_def)
      qed
    qed (use Cons.prems in auto)
    then obtain s' where s': "copy_shards sc mem_ops src (layout_new dst) at (map (skey src) xs) s1 = Some (Ok (), s')"
      "\<forall>x \<in> set xs. cur x \<noteq> None \<longrightarrow> mem_objects s' (skey dst x) = Some (psm_encode sc (ch x))"
      "\<forall>k. k \<notin> skey dst ` {x \<in> set xs. cur x \<noteq> None} \<longrightarrow> mem_view s' k = mem_view s1 k" by blast
    have "skey dst x \<notin> skey dst ` {x \<in> set xs. cur x \<noteq> None}" using Cons.prems(1) by (auto simp: shard_key_inject)
    then have "mem_objects s' (skey dst x) = Some (psm_encode sc (ch x))"
      using s'(3) s1(2) by (simp add: mem_objects_def mem_view_def)
    moreover have "copy_shards sc mem_ops src (layout_new dst) at (map (skey src) (x # xs)) s = Some (Ok (), s')"
      using load y p s1(1) s'(1) by (simp add: pbind_def Fallible_State.sret_def)
    moreover have "mem_view s' k = mem_view s k" if "k \<notin> skey dst ` {y \<in> set (x # xs). cur y \<noteq> None}" for k
    proof -
      have "{y \<in> set (x # xs). cur y \<noteq> None} = insert x {y \<in> set xs. cur y \<noteq> None}" using y by auto
      with that show ?thesis using s'(3) s1(2) by simp
    qed
    ultimately show ?thesis using s'(2) by (intro exI [of _ s']) simp
  qed
qed (simp add: Fallible_State.sret_def)

section \<open>The whole operation\<close>

text \<open>A source as its writers leave it: every object under its shards that ends like a shard manifest is one, of the shard its key
  names, and its layer names parse.\<close>

definition source_ok ::
  "shard_codec \<Rightarrow> mem_store \<Rightarrow> string \<Rightarrow> (u16 \<Rightarrow> (page_shard_manifest \<times> version) option) \<Rightarrow> bool" where
  "source_ok sc s src cur \<longleftrightarrow>
     mem_ok s \<and> shards_view sc s (layout_new src) cur \<and>
     (\<forall>x p v. cur x = Some (p, v) \<longrightarrow> ps_shard p = x \<and> (\<exists>ds. entry_descs (ps_layers p) = Ok ds)) \<and>
     (\<forall>k. mem_view s k \<noteq> None \<longrightarrow> starts_with (shards_dir (layout_new src)) k \<longrightarrow> ends_with ''/SHARD'' k \<longrightarrow> k \<in> range (skey src))"

lemma mem_view_keys: "mem_view s k \<noteq> None \<longleftrightarrow> k \<in> set (map fst (ms_objects s))"
  by (auto simp: mem_view_def bt_get_def map_of_eq_None_iff)

lemma source_keys:
  assumes "source_ok sc s src cur"
  obtains listed xs where "cs_list mem_ops (shards_dir (layout_new src)) s = (Ok listed, s)"
    "shard_keys (layout_new src) listed n = map (skey src) xs" "distinct xs" "\<And>x. cur x \<noteq> None \<Longrightarrow> x \<in> set xs"
proof -
  let ?dir = "shards_dir (layout_new src)" let ?listed = "filter (starts_with ?dir) (map fst (ms_objects s))"
  have "fst (cs_list mem_ops ?dir s) = Ok ?listed"
    using list_is_prefix_filter [of s ?dir] assms by (simp add: source_ok_def)
  then have l: "cs_list mem_ops ?dir s = (Ok ?listed, s)" by (simp add: mem_ops_def mem_list_def)
  let ?keys = "shard_keys (layout_new src) ?listed n"
  have set: "k \<in> set ?keys \<longleftrightarrow> mem_view s k \<noteq> None \<and> starts_with ?dir k \<and> ends_with ''/SHARD'' k \<or>
      k \<in> (\<lambda>i. skey src (of_nat i)) ` {0..<unat (ucast n :: u16)}" for k
    unfolding mem_view_keys by (auto simp: shard_keys_def)
  have "k \<in> range (skey src)" if "k \<in> set ?keys" for k
    using that assms unfolding set source_ok_def by blast
  then have "\<exists>xs. ?keys = map (skey src) xs" by (auto simp: ex_map_conv)
  then obtain xs where xs: "?keys = map (skey src) xs" by blast
  have "distinct ?keys" by (simp add: shard_keys_def)
  then have d: "distinct xs" unfolding xs by (simp add: distinct_map)
  have "x \<in> set xs" if "cur x \<noteq> None" for x
  proof -
    have "mem_view s (skey src x) \<noteq> None" using that assms by (auto simp: source_ok_def shards_view_def psm_view_def)
    moreover have "starts_with ?dir (skey src x)" "ends_with ''/SHARD'' (skey src x)"
      by (auto simp: shard_manifest_key_def shard_prefix_def shards_dir_def starts_with_iff ends_with_iff)
    ultimately have "skey src x \<in> set (map (skey src) xs)" using set [of "skey src x"] xs by simp
    then show ?thesis by (auto simp: shard_key_inject)
  qed
  with l xs d show thesis using that by blast
qed

lemma mem_branch_shards:
  assumes "source_ok sc s src cur" "shard_codec_faithful sc"
    and "\<forall>x p v h. cur x = Some (p, v) \<longrightarrow> ps_horizon p = Some h \<longrightarrow> h \<le> at"
  obtains s' where "branch_shards sc mem_ops src dst at n s = Some (Ok (), s')"
    "\<And>x p v. cur x = Some (p, v) \<Longrightarrow> \<exists>p'. child_shard src at p = Ok p' \<and> mem_objects s' (skey dst x) = Some (psm_encode sc p')"
    "\<And>k. k \<notin> skey dst ` {x. cur x \<noteq> None} \<Longrightarrow> mem_view s' k = mem_view s k"
proof -
  obtain listed xs where keys: "cs_list mem_ops (shards_dir (layout_new src)) s = (Ok listed, s)"
    "shard_keys (layout_new src) listed n = map (skey src) xs" "distinct xs" "\<And>x. cur x \<noteq> None \<Longrightarrow> x \<in> set xs"
    by (rule source_keys [OF assms(1), of n]) blast
  define ch where "ch = (\<lambda>x. case cur x of Some (p, _) \<Rightarrow> (case child_shard src at p of Ok p' \<Rightarrow> p' | _ \<Rightarrow> p) | None \<Rightarrow> psm_new 0)"
  have ch: "ps_shard p = x \<and> child_shard src at p = Ok (ch x)" if x: "cur x = Some (p, v)" for x p v
  proof -
    from x assms(1) obtain ds where ds: "ps_shard p = x" "entry_descs (ps_layers p) = Ok ds" unfolding source_ok_def by blast
    obtain p' where "child_shard src at p = Ok p'" by (rule child_shard_descs [OF ds(2)])
    with ds(1) x show ?thesis by (simp add: ch_def)
  qed
  have view: "\<forall>x \<in> set xs. psm_view sc s (skey src x) (cur x)" using assms(1) by (simp add: source_ok_def shards_view_def)
  have check: "check_horizons sc mem_ops at (map (skey src) xs) s = (Ok (), s)"
    by (rule mem_check_horizons [OF assms(2) view]) (use assms(3) in blast)
  have "\<exists>s'. copy_shards sc mem_ops src (layout_new dst) at (map (skey src) xs) s = Some (Ok (), s') \<and>
      (\<forall>x \<in> set xs. cur x \<noteq> None \<longrightarrow> mem_objects s' (skey dst x) = Some (psm_encode sc (ch x))) \<and>
      (\<forall>k. k \<notin> skey dst ` {x \<in> set xs. cur x \<noteq> None} \<longrightarrow> mem_view s' k = mem_view s k)"
    by (rule mem_copy_shards [OF assms(2) keys(3) view]) (use ch in blast)
  then obtain s' where s': "copy_shards sc mem_ops src (layout_new dst) at (map (skey src) xs) s = Some (Ok (), s')"
    "\<forall>x \<in> set xs. cur x \<noteq> None \<longrightarrow> mem_objects s' (skey dst x) = Some (psm_encode sc (ch x))"
    "\<forall>k. k \<notin> skey dst ` {x \<in> set xs. cur x \<noteq> None} \<longrightarrow> mem_view s' k = mem_view s k" by blast
  have "smap_err BrStore (cs_list mem_ops (shards_dir (layout_new src))) s = (Ok listed, s)" using keys(1) by (rule smap_err_Ok)
  then have r: "branch_shards sc mem_ops src dst at n s = Some (Ok (), s')"
    using check s'(1) keys(2) by (simp add: branch_shards_def Let_def pbind_def)
  show thesis
  proof (rule that [OF r])
    show "\<exists>p'. child_shard src at p = Ok p' \<and> mem_objects s' (skey dst x) = Some (psm_encode sc p')" if "cur x = Some (p, v)" for x p v
      using ch [OF that] s'(2) keys(4) that by (intro exI [of _ "ch x"]) simp
    show "mem_view s' k = mem_view s k" if "k \<notin> skey dst ` {x. cur x \<noteq> None}" for k
      using that s'(3) by blast
  qed
qed

lemma mem_publish_child:
  obtains s' where
    "publish_child c mem_ops dst child s =
       (if mem_view s (layout_manifest (layout_new dst)) = None then Ok () else Err (DestinationExists dst), s')"
    "mem_objects s' (layout_manifest (layout_new dst)) = (case mem_view s (layout_manifest (layout_new dst)) of None \<Rightarrow> Some (to_json c child) | Some (d, _) \<Rightarrow> Some d)"
    "\<And>k. k \<noteq> layout_manifest (layout_new dst) \<Longrightarrow> mem_view s' k = mem_view s k"
proof (cases "mem_view s (layout_manifest (layout_new dst))")
  case None
  let ?v = "version_of (ms_counter s + 1)"
  let ?s = "s\<lparr>ms_counter := ms_counter s + 1, ms_objects := bt_insert (layout_manifest (layout_new dst)) (to_json c child, ?v) (ms_objects s)\<rparr>"
  have "mem_put_if_match (layout_manifest (layout_new dst)) (to_json c child) None s = (Ok ?v, ?s)"
    using None by (simp add: mem_put_if_match_def mem_view_def Let_def)
  then show thesis
    using None by (intro that [of ?s]) (simp_all add: publish_child_def mem_ops_def mem_objects_def mem_view_def bt_get_insert)
next
  case (Some y)
  then have "mem_put_if_match (layout_manifest (layout_new dst)) (to_json c child) None s = (Err (Conflict (layout_manifest (layout_new dst))), s)"
    by (simp add: mem_put_if_match_def mem_view_def Let_def)
  then show thesis
    using Some by (intro that [of s]) (simp_all add: publish_child_def mem_ops_def mem_objects_def mem_view_def split: prod.splits)
qed

lemma child_point:
  assumes "child_of parent src dst at_lsn now = Ok child"
  obtains at where "mf_branch_of child = Some \<lparr>bo_tenant_ref = src, bo_at_lsn = at\<rparr>"
  using assms that by (auto simp: child_of_def obind_Ok_iff Let_def split: if_splits)

text \<open>What a branch leaves: the copies of the shards in any case, and the manifest where there was none.\<close>

lemma branch_outcome:
  assumes "codec_faithful c" "shard_codec_faithful sc" "source_ok sc s src cur"
    and "mem_view s (layout_manifest (layout_new src)) = Some (to_json c parent, v)" "mf_format parent \<le> MANIFEST_FORMAT"
    and "child_of parent src dst at_lsn now = Ok child" "mf_branch_of child = Some \<lparr>bo_tenant_ref = src, bo_at_lsn = at\<rparr>"
    and "\<forall>x p v h. cur x = Some (p, v) \<longrightarrow> ps_horizon p = Some h \<longrightarrow> h \<le> at"
  obtains s' where
    "branch c sc mem_ops src dst at_lsn now s =
       Some (if mem_view s (layout_manifest (layout_new dst)) = None then Ok child else Err (DestinationExists dst), s')"
    "\<And>x p v. cur x = Some (p, v) \<Longrightarrow> \<exists>p'. child_shard src at p = Ok p' \<and> mem_objects s' (skey dst x) = Some (psm_encode sc p')"
    "mem_objects s' (layout_manifest (layout_new dst)) = (case mem_view s (layout_manifest (layout_new dst)) of None \<Rightarrow> Some (to_json c child) | Some (d, _) \<Rightarrow> Some d)"
    "\<And>k. k \<notin> skey dst ` {x. cur x \<noteq> None} \<Longrightarrow> k \<noteq> layout_manifest (layout_new dst) \<Longrightarrow> mem_view s' k = mem_view s k"
proof -
  let ?m = "layout_manifest (layout_new dst)"
  obtain s1 where s1: "branch_shards sc mem_ops src dst at (mf_shards parent) s = Some (Ok (), s1)"
    "\<And>x p v. cur x = Some (p, v) \<Longrightarrow> \<exists>p'. child_shard src at p = Ok p' \<and> mem_objects s1 (skey dst x) = Some (psm_encode sc p')"
    "\<And>k. k \<notin> skey dst ` {x. cur x \<noteq> None} \<Longrightarrow> mem_view s1 k = mem_view s k"
    by (rule mem_branch_shards [OF assms(3,2,8), of dst "mf_shards parent"]) blast
  have m1: "mem_view s1 ?m = mem_view s ?m"
    by (rule s1(3)) (metis imageE shard_key_no_manifest)
  obtain s2 where s2: "publish_child c mem_ops dst child s1 = (if mem_view s1 ?m = None then Ok () else Err (DestinationExists dst), s2)"
    "mem_objects s2 ?m = (case mem_view s1 ?m of None \<Rightarrow> Some (to_json c child) | Some (d, _) \<Rightarrow> Some d)"
    "\<And>k. k \<noteq> ?m \<Longrightarrow> mem_view s2 k = mem_view s1 k" by (rule mem_publish_child [of c dst child s1]) blast
  have get: "smap_err BrStore (cs_get mem_ops (layout_manifest (layout_new src))) s = (Ok (Some (to_json c parent, v)), s)"
    using assms(4) by (intro smap_err_Ok) (simp add: mem_ops_def mem_get_def mem_view_def)
  have json: "from_json c (to_json c parent) = Ok parent" using assms(5) by (simp add: from_to_json [OF assms(1)])
  have "branch c sc mem_ops src dst at_lsn now s =
      Some (if mem_view s ?m = None then Ok child else Err (DestinationExists dst), s2)"
    using get json s1(1) s2(1) m1 assms(6,7)
    by (simp add: branch_def branch_from_def branch_point_def Let_def pbind_def Fallible_State.sret_def)
  then show thesis
  proof (rule that)
    show "\<exists>p'. child_shard src at p = Ok p' \<and> mem_objects s2 (skey dst x) = Some (psm_encode sc p')" if "cur x = Some (p, v)" for x p v
      using s1(2) [OF that] s2(3) [OF shard_key_no_manifest, of dst x] by (simp add: mem_objects_def mem_view_def)
    show "mem_objects s2 ?m = (case mem_view s ?m of None \<Rightarrow> Some (to_json c child) | Some (d, _) \<Rightarrow> Some d)" using s2(2) m1 by simp
    show "mem_view s2 k = mem_view s k" if "k \<notin> skey dst ` {x. cur x \<noteq> None}" "k \<noteq> ?m" for k
      using s1(3) [OF that(1)] s2(3) [OF that(2)] by simp
  qed
qed

text \<open>C23. Branching a source that no one else touches, at a checkpoint and not below a shard's horizon, onto a name that is free, returns the child manifest and
  leaves it under the new name, with a cut copy of every shard manifest of the source, those of earlier shard counts included; no other object
  changes, so the source stays as it was.
\<close>

theorem branch_lands:
  assumes "codec_faithful c" "shard_codec_faithful sc" "source_ok sc s src cur"
    and "mem_view s (layout_manifest (layout_new src)) = Some (to_json c parent, v)" "mf_format parent \<le> MANIFEST_FORMAT"
    and "child_of parent src dst at_lsn now = Ok child" "mf_branch_of child = Some \<lparr>bo_tenant_ref = src, bo_at_lsn = at\<rparr>"
    and "\<forall>x p v h. cur x = Some (p, v) \<longrightarrow> ps_horizon p = Some h \<longrightarrow> h \<le> at"
    and "mem_view s (layout_manifest (layout_new dst)) = None"
  shows "\<exists>s'. branch c sc mem_ops src dst at_lsn now s = Some (Ok child, s') \<and>
    mem_objects s' (layout_manifest (layout_new dst)) = Some (to_json c child) \<and>
    (\<forall>x p v. cur x = Some (p, v) \<longrightarrow> (\<exists>p'. child_shard src at p = Ok p' \<and> mem_objects s' (skey dst x) = Some (psm_encode sc p'))) \<and>
    (\<forall>k. k \<notin> skey dst ` {x. cur x \<noteq> None} \<longrightarrow> k \<noteq> layout_manifest (layout_new dst) \<longrightarrow> mem_objects s' k = mem_objects s k)"
proof -
  obtain s' where s': "branch c sc mem_ops src dst at_lsn now s =
       Some (if mem_view s (layout_manifest (layout_new dst)) = None then Ok child else Err (DestinationExists dst), s')"
    "\<And>x p v. cur x = Some (p, v) \<Longrightarrow> \<exists>p'. child_shard src at p = Ok p' \<and> mem_objects s' (skey dst x) = Some (psm_encode sc p')"
    "mem_objects s' (layout_manifest (layout_new dst)) = (case mem_view s (layout_manifest (layout_new dst)) of None \<Rightarrow> Some (to_json c child) | Some (d, _) \<Rightarrow> Some d)"
    "\<And>k. k \<notin> skey dst ` {x. cur x \<noteq> None} \<Longrightarrow> k \<noteq> layout_manifest (layout_new dst) \<Longrightarrow> mem_view s' k = mem_view s k"
    by (rule branch_outcome [OF assms(1-8)]) blast
  have "mem_objects s' k = mem_objects s k" if "k \<notin> skey dst ` {x. cur x \<noteq> None}" "k \<noteq> layout_manifest (layout_new dst)" for k
    using s'(4) [OF that] by (simp add: mem_objects_def mem_view_def)
  then show ?thesis using s'(1-3) assms(9) by (intro exI [of _ s']) simp
qed

text \<open>C37. Over a destination that exists, branching returns the error that it exists, but only after it has written: every shard manifest of the destination
  whose number the source has too is by then the cut copy of the source's, so the destination's own layer list is gone. The source itself
  may be the destination.
\<close>

theorem branch_overwrites_existing:
  assumes "codec_faithful c" "shard_codec_faithful sc" "source_ok sc s src cur"
    and "mem_view s (layout_manifest (layout_new src)) = Some (to_json c parent, v)" "mf_format parent \<le> MANIFEST_FORMAT"
    and "child_of parent src dst at_lsn now = Ok child" "mf_branch_of child = Some \<lparr>bo_tenant_ref = src, bo_at_lsn = at\<rparr>"
    and "\<forall>x p v h. cur x = Some (p, v) \<longrightarrow> ps_horizon p = Some h \<longrightarrow> h \<le> at"
    and "mem_view s (layout_manifest (layout_new dst)) = Some theirs" "cur x = Some (p, w)"
  shows "\<exists>s' p'. branch c sc mem_ops src dst at_lsn now s = Some (Err (DestinationExists dst), s') \<and>
    child_shard src at p = Ok p' \<and> mem_objects s' (shard_manifest_key (layout_new dst) x) = Some (psm_encode sc p')"
proof -
  obtain s' where s': "branch c sc mem_ops src dst at_lsn now s =
       Some (if mem_view s (layout_manifest (layout_new dst)) = None then Ok child else Err (DestinationExists dst), s')"
    "\<And>x p v. cur x = Some (p, v) \<Longrightarrow> \<exists>p'. child_shard src at p = Ok p' \<and> mem_objects s' (skey dst x) = Some (psm_encode sc p')"
    by (rule branch_outcome [OF assms(1-8)]) blast
  from s'(1) assms(9) s'(2) [OF assms(10)] show ?thesis by auto
qed

section \<open>A source to branch\<close>

definition branch_manifest :: manifest where
  "branch_manifest = (manifest_new ''a'' 17)
     \<lparr>mf_checkpoints := [\<lparr>cr_id = ''c'', cr_lsn = 0x100, cr_kind = Full, cr_owner = None\<rparr>]\<rparr>"

definition branch_shard :: page_shard_manifest where
  "branch_shard = (psm_new 0)\<lparr>ps_disk_consistent_lsn := 0x200\<rparr>"

abbreviation branch_cur :: "u16 \<Rightarrow> (page_shard_manifest \<times> version) option" where
  "branch_cur \<equiv> (\<lambda>_. None)(0 \<mapsto> (branch_shard, version_of 2))"

lemma branch_source:
  obtains s where "source_ok sample_shard_codec s ''a'' branch_cur"
    "mem_view s (layout_manifest (layout_new ''a'')) = Some (to_json sample_codec branch_manifest, version_of 1)"
    "mem_view s (layout_manifest (layout_new ''b'')) = None"
proof -
  let ?k = "layout_manifest (layout_new ''a'')" and ?d = "to_json sample_codec branch_manifest"
  let ?e = "psm_encode sample_shard_codec branch_shard"
  define s1 where "s1 = \<lparr>ms_objects = bt_insert ?k (?d, version_of 1) [], ms_counter = 1\<rparr>"
  define s2 where "s2 = \<lparr>ms_objects = bt_insert (skey ''a'' 0) (?e, version_of 2) (ms_objects s1), ms_counter = 2\<rparr>"
  have "mem_put_if_match ?k ?d None mem_new = (Ok (version_of 1), s1)"
    by (simp add: mem_put_if_match_def mem_new_def bt_get_def Let_def s1_def)
  from mem_ok_put [OF mem_ok_new this] have ok1: "mem_ok s1" by (simp add: s1_def)
  have "mem_put_if_match (skey ''a'' 0) ?e None s1 = (Ok (version_of 2), s2)"
    using shard_key_no_manifest [of "''a''" 0 "''a''"]
    by (simp add: mem_put_if_match_def Let_def s2_def s1_def bt_get_insert) (simp add: bt_get_def)
  from mem_ok_put [OF ok1 this] have ok2: "mem_ok s2" by (simp add: s2_def)
  have "mem_view s2 = (\<lambda>_. None)(?k \<mapsto> (?d, version_of 1), skey ''a'' 0 \<mapsto> (?e, version_of 2))"
    by (simp add: mem_view_def s2_def s1_def bt_get_insert fun_eq_iff) (simp add: bt_get_def)
  note view = this
  have shards: "shards_view sample_shard_codec s2 (layout_new ''a'') branch_cur"
    using shard_key_no_manifest
    by (auto simp: shards_view_def psm_view_def view shard_key_inject branch_shard_def psm_new_def PAGE_SHARD_FORMAT_def)
  have "\<not> starts_with (shards_dir (layout_new ''a'')) ?k"
    by (simp add: starts_with_def shards_dir_def layout_manifest_def layout_new_def)
  then have "source_ok sample_shard_codec s2 ''a'' branch_cur"
    using ok2 shards by (auto simp: source_ok_def view branch_shard_def psm_new_def split: if_splits)
  moreover have "mem_view s2 ?k = Some (?d, version_of 1)" "mem_view s2 (layout_manifest (layout_new ''b'')) = None"
    using shard_key_no_manifest [of "''a''" 0] shard_key_no_manifest [of "''a''" 0, symmetric] by (simp_all add: view manifest_key_inject)
  ultimately show thesis by (rule that)
qed

definition branch_child :: "string \<Rightarrow> manifest" where
  "branch_child dst = (manifest_new dst 17)
     \<lparr>mf_checkpoints := [\<lparr>cr_id = ''c'', cr_lsn = 0x100, cr_kind = Full, cr_owner = Some ''a''\<rparr>],
      mf_branch_of := Some \<lparr>bo_tenant_ref = ''a'', bo_at_lsn = 0x100\<rparr>, mf_published_unix := Some 9\<rparr>"

lemma branch_child:
  "child_of branch_manifest ''a'' dst None 9 = Ok (branch_child dst)"
  "mf_branch_of (branch_child dst) = Some \<lparr>bo_tenant_ref = ''a'', bo_at_lsn = 0x100\<rparr>"
  "mf_format branch_manifest \<le> MANIFEST_FORMAT"
  "child_shard ''a'' 0x100 branch_shard = Ok (branch_shard\<lparr>ps_format := 2, ps_disk_consistent_lsn := 0x100\<rparr>)"
  "\<forall>x p v h. branch_cur x = Some (p, v) \<longrightarrow> ps_horizon p = Some h \<longrightarrow> h \<le> (0x100 :: u64)"
  by (simp_all add: child_of_def branch_manifest_def branch_child_def manifest_new_def slice_def own_checkpoint_def MANIFEST_FORMAT_def
      child_shard_def branch_shard_def psm_new_def Let_def)

theorem branch_lands_witness:
  "\<exists>s s'. branch sample_codec sample_shard_codec mem_ops ''a'' ''b'' None 9 s = Some (Ok (branch_child ''b''), s') \<and>
     mem_objects s' (layout_manifest (layout_new ''b'')) = Some (to_json sample_codec (branch_child ''b'')) \<and>
     mem_objects s' (shard_manifest_key (layout_new ''b'') 0) =
       Some (psm_encode sample_shard_codec (branch_shard\<lparr>ps_format := 2, ps_disk_consistent_lsn := 0x100\<rparr>))"
proof -
  obtain s where s: "source_ok sample_shard_codec s ''a'' branch_cur"
    "mem_view s (layout_manifest (layout_new ''a'')) = Some (to_json sample_codec branch_manifest, version_of 1)"
    "mem_view s (layout_manifest (layout_new ''b'')) = None" by (rule branch_source)
  from branch_lands [OF sample_codec_faithful sample_shard_codec_faithful s(1,2) branch_child(3,1,2,5) s(3)]
  obtain s' where s': "branch sample_codec sample_shard_codec mem_ops ''a'' ''b'' None 9 s = Some (Ok (branch_child ''b''), s')"
    "mem_objects s' (layout_manifest (layout_new ''b'')) = Some (to_json sample_codec (branch_child ''b''))"
    "\<forall>x p v. branch_cur x = Some (p, v) \<longrightarrow>
       (\<exists>p'. child_shard ''a'' 0x100 p = Ok p' \<and> mem_objects s' (skey ''b'' x) = Some (psm_encode sample_shard_codec p'))" by blast
  have "branch_cur 0 = Some (branch_shard, version_of 2)" by simp
  with s'(3) branch_child(4) have
    "mem_objects s' (skey ''b'' 0) = Some (psm_encode sample_shard_codec (branch_shard\<lparr>ps_format := 2, ps_disk_consistent_lsn := 0x100\<rparr>))" by fastforce
  with s'(1,2) show ?thesis by blast
qed

theorem branch_overwrites_existing_witness:
  "\<exists>s s'. mem_objects s (shard_manifest_key (layout_new ''a'') 0) = Some (psm_encode sample_shard_codec branch_shard) \<and>
     branch sample_codec sample_shard_codec mem_ops ''a'' ''a'' None 9 s = Some (Err (DestinationExists ''a''), s') \<and>
     mem_objects s' (shard_manifest_key (layout_new ''a'') 0) =
       Some (psm_encode sample_shard_codec (branch_shard\<lparr>ps_format := 2, ps_disk_consistent_lsn := 0x100\<rparr>))"
proof -
  obtain s where s: "source_ok sample_shard_codec s ''a'' branch_cur"
    "mem_view s (layout_manifest (layout_new ''a'')) = Some (to_json sample_codec branch_manifest, version_of 1)"
    by (rule branch_source)
  have "psm_view sample_shard_codec s (shard_manifest_key (layout_new ''a'') 0) (branch_cur 0)"
    using s(1) unfolding source_ok_def shards_view_def by blast
  then have "mem_objects s (shard_manifest_key (layout_new ''a'') 0) = Some (psm_encode sample_shard_codec branch_shard)"
    by (simp add: psm_view_def mem_objects_def mem_view_def)
  with branch_overwrites_existing [OF sample_codec_faithful sample_shard_codec_faithful s branch_child(3,1,2,5) s(2), of 0 branch_shard]
  show ?thesis using branch_child(4) by auto
qed

section \<open>The walk to the root\<close>

definition parent_of :: "manifest_codec \<Rightarrow> mem_store \<Rightarrow> string \<Rightarrow> string option" where
  "parent_of c s t =
     (case mem_view s (layout_manifest (layout_new t)) of
        None \<Rightarrow> None
      | Some (data, _) \<Rightarrow> (case from_json c data of Ok m \<Rightarrow> map_option bo_tenant_ref (mf_branch_of m) | _ \<Rightarrow> None))"

definition tenants_in :: "mem_store \<Rightarrow> string set" where
  "tenants_in s = {t. mem_view s (layout_manifest (layout_new t)) \<noteq> None}"

lemma finite_tenants: "finite (tenants_in s)"
proof -
  have "inj_on (\<lambda>t. layout_manifest (layout_new t)) (tenants_in s)" by (simp add: inj_on_def manifest_key_inject)
  moreover have "(\<lambda>t. layout_manifest (layout_new t)) ` tenants_in s \<subseteq> set (map fst (ms_objects s))"
    unfolding tenants_in_def mem_view_keys by auto
  ultimately show ?thesis by (meson finite_imageD finite_set finite_subset)
qed

definition walk_ok :: "manifest_codec \<Rightarrow> mem_store \<Rightarrow> string list \<Rightarrow> (string list, branch_error) outcome \<Rightarrow> bool" where
  "walk_ok c s pre r =
     (case r of
        Ok chain \<Rightarrow> prefix pre chain \<and> distinct chain \<and> successively (\<lambda>a b. parent_of c s a = Some b) chain \<and>
          set_option (parent_of c s (last chain)) \<subseteq> set chain
      | Err _ \<Rightarrow> True
      | Panic \<Rightarrow> False)"

lemma walk_ok_shorter: "walk_ok c s (pre @ post) r \<Longrightarrow> walk_ok c s pre r"
  by (auto simp: walk_ok_def split: outcome.splits dest: append_prefixD)

lemma lineage_walk_returns:
  assumes "set pre \<subseteq> tenants_in s" "distinct (pre @ [at])" "successively (\<lambda>a b. parent_of c s a = Some b) (pre @ [at])"
  shows "\<exists>r. lineage_walk c mem_ops (pre @ [at]) at s = Some (r, s) \<and> walk_ok c s (pre @ [at]) r"
  using assms
proof (induction "card (tenants_in s - set pre)" arbitrary: pre at rule: less_induct)
  case less
  have get: "cs_get mem_ops k s = (Ok (mem_view s k), s)" for k by (simp add: mem_ops_def mem_get_def mem_view_def)
  show ?case
  proof (cases "mem_view s (layout_manifest (layout_new at))")
    case None
    then show ?thesis using less.prems by (subst lineage_walk.simps) (simp add: get walk_ok_def parent_of_def)
  next
    case (Some y)
    then obtain data v where y: "mem_view s (layout_manifest (layout_new at)) = Some (data, v)" by (cases y) auto
    show ?thesis
    proof (cases "parent_of c s at")
      case None
      then show ?thesis using less.prems
        by (subst lineage_walk.simps) (cases "from_json c data", auto simp: get walk_ok_def y parent_of_def)
    next
      case p: (Some p)
      then obtain m b where m: "from_json c data = Ok m" "mf_branch_of m = Some b" "bo_tenant_ref b = p"
        by (auto simp: parent_of_def y split: outcome.splits)
      show ?thesis
      proof (cases "p \<in> set (pre @ [at])")
        case True
        then show ?thesis using less.prems m p by (subst lineage_walk.simps) (auto simp: get walk_ok_def y)
      next
        case False
        have at: "at \<in> tenants_in s" "at \<notin> set pre" using y less.prems(2) by (auto simp: tenants_in_def)
        then have "card (tenants_in s - set (pre @ [at])) < card (tenants_in s - set pre)"
          by (intro psubset_card_mono) (auto simp: finite_tenants)
        then obtain r where "lineage_walk c mem_ops ((pre @ [at]) @ [p]) p s = Some (r, s)" "walk_ok c s ((pre @ [at]) @ [p]) r"
          using less.hyps [of "pre @ [at]" p] less.prems at False p by (auto simp: successively_append_iff)
        moreover have "lineage_walk c mem_ops (pre @ [at]) at s = lineage_walk c mem_ops ((pre @ [at]) @ [p]) p s"
          using False m by (subst lineage_walk.simps) (simp add: get y)
        ultimately show ?thesis using walk_ok_shorter by metis
      qed
    qed
  qed
qed

text \<open>C36. The walk from a tenant to its root returns on every store, whatever the manifests say, cycles included, and never panics. When it succeeds, the chain starts at the
  tenant, names no tenant twice, and steps from each one to the parent its manifest names; it ends at a tenant with no parent, or
  with a parent it has named already.
\<close>

theorem lineage_returns:
  "\<exists>r. lineage c mem_ops tenant_ref s = Some (r, s) \<and>
    (case r of
       Ok chain \<Rightarrow> hd chain = tenant_ref \<and> distinct chain \<and> successively (\<lambda>a b. parent_of c s a = Some b) chain \<and>
         set_option (parent_of c s (last chain)) \<subseteq> set chain
     | Err _ \<Rightarrow> True
     | Panic \<Rightarrow> False)"
proof -
  obtain r where "lineage c mem_ops tenant_ref s = Some (r, s)" "walk_ok c s [tenant_ref] r"
    using lineage_walk_returns [of "[]" s tenant_ref c] by (auto simp: lineage_def)
  then show ?thesis by (intro exI [of _ r]) (cases r; auto simp: walk_ok_def prefix_def)
qed

section \<open>Snapshots\<close>

lemma history_unix_key: "history_unix (manifests_dir t) (manifest_history t epoch unix) = Some unix"
proof -
  have "strip_prefix (manifests_dir t) (manifest_history t epoch unix) = Some ((pad 16 (dec (unat epoch)) @ CHR ''-'' # pad 16 (dec (unat unix))) @ ''.json'')"
    by (simp add: manifests_dir_def manifest_history_def strip_prefix_def)
  moreover have "split_once (CHR ''-'') (pad 16 (dec (unat epoch)) @ CHR ''-'' # pad 16 (dec (unat unix))) =
      Some (pad 16 (dec (unat epoch)), pad 16 (dec (unat unix)))"
    by (rule split_once_append) (simp add: dec_def not_in_pad digit_char_not_dash)
  moreover have "from_str_radix (2 ^ 64) 10 (pad 16 (dec (unat unix))) = Some (unat unix)"
    using unat_bound [of unix] unfolding dec_def by (intro from_str_radix_pad) simp_all
  ultimately show ?thesis by (simp add: history_unix_def del: append_assoc)
qed

text \<open>The snapshot that is picked has the newest stamp up to the time asked for; none is picked only when there is none.\<close>

definition stamped :: "string \<Rightarrow> u64 \<Rightarrow> string set \<Rightarrow> u64 \<Rightarrow> bool" where
  "stamped dir unix_ts ks t \<longleftrightarrow> t \<le> unix_ts \<and> (\<exists>k \<in> ks. history_unix dir k = Some t)"

lemma pick_snapshot_newest:
  assumes "\<forall>b k. best = Some (b, k) \<longrightarrow> history_unix dir k = Some b \<and> b \<le> unix_ts"
  shows "case pick_snapshot dir unix_ts best keys of
      None \<Rightarrow> best = None \<and> (\<forall>t. \<not> stamped dir unix_ts (set keys) t)
    | Some (b, k) \<Rightarrow> history_unix dir k = Some b \<and> b \<le> unix_ts \<and> (k \<in> set keys \<or> best = Some (b, k)) \<and>
        (\<forall>t. stamped dir unix_ts (set keys) t \<longrightarrow> t \<le> b) \<and> (\<forall>b' k'. best = Some (b', k') \<longrightarrow> b' \<le> b)"
  using assms
proof (induction keys arbitrary: best)
  case Nil
  then show ?case by (cases best) (auto simp: stamped_def)
next
  case (Cons key keys)
  let ?best = "case history_unix dir key of
          None \<Rightarrow> best
        | Some stamp \<Rightarrow>
            if stamp \<le> unix_ts \<and> (case best of None \<Rightarrow> True | Some (b, _) \<Rightarrow> stamp \<ge> b) then Some (stamp, key) else best"
  have inv: "\<forall>b k. ?best = Some (b, k) \<longrightarrow> history_unix dir k = Some b \<and> b \<le> unix_ts"
    using Cons.prems by (auto split: option.splits if_splits)
  have head: "stamped dir unix_ts (set (key # keys)) t \<longleftrightarrow> history_unix dir key = Some t \<and> t \<le> unix_ts \<or> stamped dir unix_ts (set keys) t" for t
    by (auto simp: stamped_def)
  show ?case
    using Cons.IH [OF inv] Cons.prems unfolding head
    by (cases best; cases "history_unix dir key") (auto split: option.splits if_splits prod.splits intro: order_trans)
qed

end
