(* ===== verification/Spec2Isabelle.thy ===== *)
theory Spec2Isabelle
  imports Lsn_Text Ordered_Map Layer_Properties Layer_Map_Proofs Mem_Table Fork_Size Wal_Frame
    Tenant_Layout Cas_Store Lease_Takeover Shard_Lineage Page_Read_Properties
    Sequencer_Properties Wal_Split_Vote Rest_Filter_Roundtrip Rest_Page Rest_Mutate_Proofs Placement Branch_Operations
begin

text \<open>
  Zou runs Postgres on object storage. This development models the parts that decide whether data survives and
  whether requests are read right: the page store (crates/zou-store), the shared log (crates/zou-log) and the
  grammars of the REST layer (crates/zou-rest).

  \<^bold>\<open>How the parts interact.\<close> Log frames of all tenants go to a sequencer, which closes them in windows, writes each
  window as a landing segment to the log media and acknowledges appends in chain order. A takeover after a crash
  finds the head of the chain, seals it and sweeps what the fenced writer left; a recovery read follows the digest
  links. Ingest puts the frames into a memtable; a flush drains it into a delta layer, and compaction builds image
  layers. A page shard's manifest lists its layers, a tenant's manifest holds the writer lease, the shard count and
  the split lineage, and both change only by compare-and-swap on the store. A read plans over the layer map, fetches
  footers and blocks by range through caches and returns the newest image and the records above it. The REST layer
  parses the query string of a request into order terms and filter trees, and compiles trees to SQL with parameters.

  \<^bold>\<open>Shared theories.\<close> \<open>Zou_Prelude\<close>: outcomes (a value, an error, or a panic), slices, little endian words, partition
  points. \<open>Fallible_State\<close>: calls that may fail and change a state. \<open>Text_Numbers\<close>: numbers as text. \<open>Ordered_Map\<close>: the
  standard library's ordered map. \<open>Fixed_Codec\<close>, \<open>Sample_Codec\<close>: encodings with a fixed width, and a concrete
  codec that shows the law used of serde_json can hold. \<open>Externals\<close>: the checksum, compression and hash crates as
  parameters, with a concrete instance. \<open>Utf8_Text\<close>: strings as UTF-8 bytes and slicing them.

  \<^bold>\<open>Page store.\<close> \<open>Lsn_Text\<close> is lsn.rs, \<open>Bloom_Filter\<close> bloom.rs, \<open>Layer_Key\<close>, \<open>Layer_Codec\<close> and \<open>Layer_Decode\<close> are layer.rs,
  \<open>Layer_Map\<close> layermap.rs, \<open>Mem_Table\<close> memtable.rs, \<open>Fork_Size\<close> forksize.rs with the updates the page shim (zou-pg) makes of a marker, \<open>Wal_Frame\<close> frame.rs, \<open>Tenant_Layout\<close> layout.rs,
  \<open>Cas_Store\<close> cas.rs, mem.rs and guard.rs, \<open>Cas_Retry\<close> the retry loop they share, \<open>Tenant_Manifest\<close> manifest.rs,
  \<open>Writer_Lease\<close> lease.rs, \<open>Page_Shard_Manifest\<close> shardmanifest.rs, \<open>Shard_Split\<close> shards.rs, \<open>Block_Cache\<close> and \<open>Page_Read\<close>
  pageread.rs, \<open>Placement\<close> placement.rs with the edits of zou/src/map.rs, \<open>Branching\<close> branch.rs.
  \<open>Layer_Shell\<close>, \<open>Delta_Roundtrip\<close>, \<open>Image_Roundtrip\<close>, \<open>Layer_Safety\<close>, \<open>Layer_Cursor\<close>, \<open>Layer_Range\<close> and
  \<open>Layer_Properties\<close> show that layers read back, that no bytes make a decoder panic and that every shortcut of a read
  (index, filter, suffix, cursor) answers what the whole layer answers. \<open>Layer_Map_Proofs\<close> shows that a plan is
  what a scan would pick, \<open>Page_Read_Proofs\<close>, \<open>Page_Read_Properties\<close> and \<open>Page_Read_Safety\<close> that a read is correct and never
  panics (a probe of a filter of no bits or past its bits would be one). \<open>Fork_Size\<close> shows that along the shim's updates a marker
  never claims a page that is not there, and where decoding and filling past the end break that rule. \<open>Block_Cache\<close> shows what a put keeps
  and drops. \<open>Lease_Proofs\<close> and \<open>Lease_Takeover\<close> treat any number of nodes whose accesses interleave: fencing, one owner
  an epoch, when a standby gives up, and when it gets a dead holder's lease. \<open>Page_Shard_Manifest\<close> shows that the loop bodies of its
  three operations serialize under any interleaving of workers. \<open>Shard_Lineage\<close> shows that resizing moves no data
  and loses none. \<open>Placement\<close> shows that losing a node moves only its shards, that racing publishers of the map
  serialize, and that a client is redirected at most once. \<open>Branching_Proofs\<close> shows that a read of a branch is a read of its
  parent's past, \<open>Branch_Operations\<close> what a branch leaves in the store, on a free name and over an existing tenant, that the walk
  to the root returns, and which snapshot a time picks. This theory adds that a flush keeps exactly the last writes.

  \<^bold>\<open>Shared log.\<close> \<open>Wal_Segment\<close> is segment.rs, \<open>Backpressure\<close> backpressure.rs, \<open>Sequencer\<close> sequencer.rs, \<open>Wal_Media\<close>
  media.rs, \<open>Wal_Chain\<close> chain.rs. Threads are program counters in one state and every critical section is a step, so a run is any
  interleaving; \<open>Sequencer_Proofs\<close>, \<open>Sequencer_Acks\<close>, \<open>Sequencer_Drain\<close> and \<open>Sequencer_Properties\<close> keep the invariants along
  runs. \<open>Wal_Media_Proofs\<close> shows that two of three media decide a position, \<open>Wal_Chain_Proofs\<close>, \<open>Wal_Chain_Properties\<close>
  and \<open>Wal_Takeover\<close> that every acknowledged append survives a crash and a takeover, \<open>Wal_Split_Vote\<close> that one
  constellation of votes behind the landed windows stops every later takeover.

  \<^bold>\<open>REST layer.\<close> \<open>Rest_Scan\<close> is scan.rs: the cursor, errors with positions, names and JSON paths; a slice off a character
  boundary is a panic. \<open>Rest_Scan_Proofs\<close> shows that no scanner panics on UTF-8, \<open>Rest_Reads\<close> that what the writers put
  down is read back, \<open>Rest_Results\<close> what the scanners return. \<open>Rest_Order\<close> is order.rs with the round trip of its terms.
  \<open>Rest_Filter\<close> is filter.rs: operators, conditions, logic trees, the parser of a query pair and the canonical pair.
  \<open>Rest_Filter_Safety\<close> shows that no input makes the parser panic or run out of fuel, \<open>Rest_Filter_Types\<close> that what it
  returns is well typed, \<open>Rest_Filter_Roundtrip\<close> that the canonical pair parses back. The locale \<open>canonical\<close> states what a
  grammar with a canonical text promises; orders and filters interpret it.
  \<open>Rest_Page\<close> is page.rs. \<open>Rest_Sql\<close> is sql.rs with the relations of catalog.rs, the routing of one filter (plan.rs) and the
  server's step from a parsed pair to a tree; \<open>Rest_Mutate\<close> is the statements of mutate.rs. \<open>Rest_Sql_Lex\<close> states how Postgres splits
  a statement into quoted tokens, parameters and the rest (standard conforming strings, so that a backslash is an ordinary character), and
  \<open>Rest_Sql_Proofs\<close> and \<open>Rest_Mutate_Proofs\<close> show that a compiled filter and a write hold exactly the
  names they should, in order and inside quotes, and bind exactly the payload and the literals.

  \<^bold>\<open>Interfaces.\<close> What one part relies on of another is a locale, interpreted on the model of the provider: the store
  contract, ordered maps, fixed width codecs, the block cache, the object store of a read, the retry loop around a
  merge, the media of a shard, the probes of a chain (over one bucket and over three media), a quiet and a live chain. Code outside the repository is a parameter with named
  hypotheses, and each property with such a hypothesis has a witness with a concrete instance.

  \<^bold>\<open>Bounds.\<close> Machine integers are words at their width; \<open>usize\<close> is \<open>nat\<close>, with the 64 bit bound stated where the code could
  reach it. Hypotheses exclude what takes centuries: epochs, store versions and chain positions at their
  maximum (a head search also needs two hundred positions of room), a takeover deadline past two to the 53 seconds, a layer of two to the 58 records. Segments
  over 4 GiB do not read back, since their footer counts in 32 bits. Arithmetic wraps as in a release build. Loops that
  may wait forever (the tree builder on unchecked layers, retries, takeovers, the quorum) are partial
  functions or take a schedule, and that they return is proved. The filter tree parser has fuel, three units a byte of
  input and three more; running out would be a panic, and there is none.

  \<^bold>\<open>Not modelled.\<close> The object store backends over HTTP, SQL and the file system (the content hashes a local directory uses as
  versions are not fresh when old bytes return, so it is not an instance of the store contract here), disk caches,
  request hedging, metrics, the heartbeat threads, the single file container: I/O and timing. The integration with
  Postgres, the HTTP, auth, storage and realtime servers, the functions runtime, the command line and the bindings: they
  drive processes, sockets, engines and a database outside the repository, save the updates of the size marker. Of the shared log, consolidation, sealed
  segments and the tee; of the REST layer, the parts its section does not name.
  The depth of the call stack is not bounded, so that nesting which exhausts it is outside the statements
  about panics. Log lines and timings of a step are left out.
\<close>

section \<open>Flushing a memtable\<close>

lemma ingest_entries_last:
  "(\<exists>e \<in> set (fst (drain_sorted (ingest recs mt_new))). de_key e = k \<and> de_lsn e = l \<and> de_record e = r) \<longleftrightarrow>
   map_of (rev (keyed recs)) (k, l) = Some r"
proof -
  let ?m = "ingest recs mt_new"
  have wf: "bt_wf (mt_entries ?m)" using mt_wf_ingest [OF mt_wf_new, of recs] by (simp add: mt_wf_def)
  have "(\<exists>e \<in> set (fst (drain_sorted ?m)). de_key e = k \<and> de_lsn e = l \<and> de_record e = r) \<longleftrightarrow>
      ((k, l), r) \<in> set (mt_entries ?m)"
    by (force simp: drain_sorted_def)
  also have "\<dots> \<longleftrightarrow> bt_get (mt_entries ?m) (k, l) = Some r"
    by (rule bt.in_entries_iff [OF wf])
  also have "bt_get (mt_entries ?m) = map_of (rev (keyed recs))"
  proof -
    have "bt_get (mt_entries mt_new) = Map.empty" by (simp add: mt_new_def bt_get_def fun_eq_iff)
    then show ?thesis using ingest_get [OF mt_wf_new, of recs] by simp
  qed
  finally show ?thesis .
qed

text \<open>C22. A flush keeps what was ingested: the drain of a memtable always builds into a delta layer,
  and the layer, read back from its bytes, holds at every key and position the last record ingested
  there and nothing else, while the memtable is left empty.\<close>

theorem flush_keeps_last_writes:
  assumes "lz4_faithful ext" "target \<le> LAYER_BLOCK_TARGET"
    and "drain_sorted (ingest recs mt_new) = (es, m)" "recs \<noteq> []"
    and "small_records es" "delta_bound es < 2 ^ 32"
  shows "mt_is_empty m \<and> (\<exists>buf f es'. build_delta ext es target = Ok (buf, f) \<and> decode_delta ext buf = Ok (es', f) \<and>
    (\<forall>k l r. (\<exists>e \<in> set es'. de_key e = k \<and> de_lsn e = l \<and> de_record e = r) \<longleftrightarrow>
       map_of (rev (keyed recs)) (k, l) = Some r))"
proof -
  have sorted: "delta_sorted es"
    using drain_delta_sorted [OF mt_wf_ingest [OF mt_wf_new], of recs] assms(3) by simp
  have last: "(\<exists>e \<in> set es. de_key e = k \<and> de_lsn e = l \<and> de_record e = r) \<longleftrightarrow>
       map_of (rev (keyed recs)) (k, l) = Some r" for k l r
    using ingest_entries_last [of recs k l r] assms(3) by simp
  have "es \<noteq> []"
  proof -
    obtain x where "x \<in> set (keyed recs)" using assms(4) by (cases recs) auto
    then have "map_of (rev (keyed recs)) (fst x) \<noteq> None" by (auto simp: map_of_eq_None_iff)
    then show ?thesis using last by (cases x) auto
  qed
  from build_decode_delta [OF assms(1,2) this sorted assms(5,6)] last assms(3)
  show ?thesis by (auto simp: drain_sorted_def mt_is_empty_def)
qed

theorem flush_keeps_last_writes_witness:
  "\<exists>buf f es. build_delta sample_ext (fst (drain_sorted (ingest [(sample_key 0, 0x20, [1, 2])] mt_new))) 64 = Ok (buf, f) \<and>
     decode_delta sample_ext buf = Ok (es, f) \<and>
     (\<exists>e \<in> set es. de_key e = sample_key 0 \<and> de_lsn e = 0x20 \<and> de_record e = [1, 2])"
proof -
  let ?recs = "[(sample_key 0, 0x20, [1, 2])] :: (layer_key \<times> lsn \<times> bytes) list"
  obtain es m where d: "drain_sorted (ingest ?recs mt_new) = (es, m)" by fastforce
  have es: "es = [\<lparr>de_key = sample_key 0, de_lsn = 0x20, de_record = [1, 2]\<rparr>]"
    using d by (simp add: drain_sorted_def ingest_def mt_insert_def mt_new_def Let_def bt_get_def)
  have "small_records es" "delta_bound es < 2 ^ 32"
    by (simp_all add: es small_records_def unat_max_record delta_bound_def)
  from flush_keeps_last_writes [OF sample_ext_faithful sample_target d _ this] d
  obtain buf f es' where "build_delta sample_ext es 64 = Ok (buf, f)" "decode_delta sample_ext buf = Ok (es', f)"
    "\<forall>k l r. (\<exists>e \<in> set es'. de_key e = k \<and> de_lsn e = l \<and> de_record e = r) \<longleftrightarrow>
       map_of (rev (keyed ?recs)) (k, l) = Some r"
    by blast
  with d show ?thesis by (intro exI [of _ buf] exI [of _ f] exI [of _ es']) simp
qed

end
